(* ===== verification/Prelude.thy ===== *)
theory Prelude
  imports Main "HOL-Library.Word"
begin

text \<open>
  Shared vocabulary of the development: machine-level type names, the outcome type of C++ code
  that may fail, and byte regions.

  \<^item> A C++ function that can abort, throw or touch memory it does not own returns a
    \<open>'a result\<close>, the sum \<open>error + 'a\<close>: \<open>Inl\<close> carries what went wrong, \<open>Inr\<close> the
    value. An \<open>assert\<close> of the source is \<open>require\<close>, sequencing is \<open>rbind\<close>.
  \<^item> A region of memory is a list of bytes. Reads and writes go through \<open>load_bytes\<close> and
    \<open>store_bytes\<close>, which fail with \<open>MemoryFault\<close> outside the region.
  \<^item> Integers are stored little-endian, as the x86-64 targets of the repository do.

  The collection \<open>result_simps\<close> holds the rules that evaluate outcomes, \<open>region_simps\<close>
  those that move through byte regions.
\<close>

named_theorems result_simps \<open>evaluation of outcomes\<close>
named_theorems region_simps \<open>reading and writing byte regions\<close>

type_synonym byte = "8 word"
type_synonym u32 = "32 word"
type_synonym u64 = "64 word"

section \<open>Outcomes\<close>

text \<open>
  The ways the modelled code stops early: a failed \<open>assert\<close>, the standard exceptions it
  throws, an \<open>int\<close> thrown as a signal, an access outside the memory it owns, the exceptions of
  conversions and of the formatting library, and arithmetic on signed integers that overflows.
\<close>

datatype error =
    AssertionFailed
  | BadAlloc
  | OutOfRange
  | RuntimeError
  | ThrownInt int
  | MemoryFault
  | InvalidArgument
  | BadCast
  | BadFormat string
  | SignedOverflow

type_synonym 'a result = "error + 'a"

definition rbind :: "'a result \<Rightarrow> ('a \<Rightarrow> 'b result) \<Rightarrow> 'b result" where
  "rbind r f = (case r of Inl e \<Rightarrow> Inl e | Inr x \<Rightarrow> f x)"

definition require :: "bool \<Rightarrow> 'a result \<Rightarrow> 'a result" where
  "require b r = (if b then r else Inl AssertionFailed)"

definition is_ok :: "'a result \<Rightarrow> bool" where
  "is_ok r = (case r of Inl e \<Rightarrow> False | Inr x \<Rightarrow> True)"

lemma rbind_Inl [simp]: "rbind (Inl e) f = Inl e"
  by (simp add: rbind_def)

lemma rbind_Inr [simp]: "rbind (Inr x) f = f x"
  by (simp add: rbind_def)

lemma rbind_eq_Inr [result_simps]: "rbind r f = Inr y \<longleftrightarrow> (\<exists>x. r = Inr x \<and> f x = Inr y)"
  by (cases r) auto

lemma require_True [simp]: "require True r = r"
  by (simp add: require_def)

lemma require_False [simp]: "require False r = Inl AssertionFailed"
  by (simp add: require_def)

lemma require_eq_Inr [result_simps]: "require b r = Inr y \<longleftrightarrow> b \<and> r = Inr y"
  by (simp add: require_def)

lemma rbind_assoc: "rbind (rbind r f) g = rbind r (\<lambda>x. rbind (f x) g)"
  by (cases r) auto

lemma rbind_cong [fundef_cong]:
  "r = r' \<Longrightarrow> (\<And>x. r' = Inr x \<Longrightarrow> f x = f' x) \<Longrightarrow> rbind r f = rbind r' f'"
  by (cases r') auto

lemma is_ok_simps [simp]: "is_ok (Inr x)" "\<not> is_ok (Inl e)"
  by (simp_all add: is_ok_def)

lemma is_okE: "is_ok r \<Longrightarrow> (\<And>x. r = Inr x \<Longrightarrow> P) \<Longrightarrow> P"
  by (cases r) auto

section \<open>Runs\<close>

text \<open>
  Code with a loop or a recursion that may not end returns a \<open>'a run\<close>: \<open>None\<close> when it does not end
  (or, for code modelled with fuel, when the fuel is used up), and the outcome otherwise.
\<close>

type_synonym 'a run = "'a result option"

definition fbind :: "'a run \<Rightarrow> ('a \<Rightarrow> 'b run) \<Rightarrow> 'b run" where
  "fbind r k = (case r of None \<Rightarrow> None | Some (Inl e) \<Rightarrow> Some (Inl e) | Some (Inr x) \<Rightarrow> k x)"

lemma fbind_simps [simp]: "fbind (Some (Inr x)) k = k x" "fbind (Some (Inl e)) k = Some (Inl e)" "fbind None k = None"
  by (simp_all add: fbind_def)

lemma fbind_eq_Some: "fbind r k = Some (Inr y) \<longleftrightarrow> (\<exists>x. r = Some (Inr x) \<and> k x = Some (Inr y))"
  by (auto simp: fbind_def split: option.splits sum.splits)

lemma fbind_mono [partial_function_mono]:
  assumes "mono_option B" "\<And>y. mono_option (C y)"
  shows "mono_option (\<lambda>f. fbind (B f) (\<lambda>y. C y f))"
proof (rule monotoneI)
  fix f g :: "'a \<Rightarrow> 'b option"
  assume fg: "fun_ord option_ord f g"
  have ord: "option_ord (B f) (B g)" "\<And>y. option_ord (C y f) (C y g)" using assms fg by (auto dest: monotoneD)
  show "option_ord (fbind (B f) (\<lambda>y. C y f)) (fbind (B g) (\<lambda>y. C y g))"
  proof (cases "B f")
    case None
    then show ?thesis by (simp add: flat_ord_def)
  next
    case (Some r)
    then have "B g = Some r" using ord(1) by (auto simp: flat_ord_def)
    with Some ord(2) show ?thesis by (cases r) (auto simp: flat_ord_def)
  qed
qed

lemmas run_eq_simps = fbind_eq_Some result_simps

text \<open>The outcome of a run, for a client: one that does not end counts as a fault.\<close>

definition ended :: "'a run \<Rightarrow> 'a result" where
  "ended r = (case r of None \<Rightarrow> Inl MemoryFault | Some x \<Rightarrow> x)"

lemma ended_Some [simp]: "ended (Some x) = x"
  by (simp add: ended_def)

section \<open>Integers at their width\<close>

text \<open>Conversion of an integer to C++ \<open>int\<close>, 32 bits two's complement.\<close>

definition to_int32 :: "int \<Rightarrow> int" where
  "to_int32 x = sint (word_of_int x :: u32)"

lemma to_int32_id [simp]: "- (2 ^ 31) \<le> x \<Longrightarrow> x < 2 ^ 31 \<Longrightarrow> to_int32 x = x"
  unfolding to_int32_def by (simp add: signed_take_bit_int_eq_self sint_sbintrunc')

lemma unat_less_exp: "unat (w :: 'a::len word) < 2 ^ LENGTH('a)"
  by (rule unsigned_less)

lemma unat_byte_less [simp]: "unat (b :: byte) < 256"
  using unat_less_exp [of b] by simp

lemma unat_of_nat_small: "n < 2 ^ LENGTH('a) \<Longrightarrow> unat (of_nat n :: 'a::len word) = n"
  by (simp add: unat_of_nat take_bit_nat_eq_self)

section \<open>Byte regions\<close>

definition load_bytes :: "byte list \<Rightarrow> int \<Rightarrow> nat \<Rightarrow> byte list result" where
  "load_bytes mem p n =
     (if 0 \<le> p \<and> nat p + n \<le> length mem then Inr (take n (drop (nat p) mem)) else Inl MemoryFault)"

definition store_bytes :: "byte list \<Rightarrow> int \<Rightarrow> byte list \<Rightarrow> byte list result" where
  "store_bytes mem p bs =
     (if 0 \<le> p \<and> nat p + length bs \<le> length mem
      then Inr (take (nat p) mem @ bs @ drop (nat p + length bs) mem) else Inl MemoryFault)"

text \<open>The part of a region between two offsets, and a region with a part replaced.\<close>

definition between :: "byte list \<Rightarrow> nat \<Rightarrow> nat \<Rightarrow> byte list" where
  "between mem a b = take (b - a) (drop a mem)"

definition overwrite :: "byte list \<Rightarrow> nat \<Rightarrow> byte list \<Rightarrow> byte list" where
  "overwrite mem p bs = take p mem @ bs @ drop (p + length bs) mem"

lemma load_bytes_ok [region_simps]:
  "p + n \<le> length mem \<Longrightarrow> load_bytes mem (int p) n = Inr (between mem p (p + n))"
  by (simp add: load_bytes_def between_def)

lemma store_bytes_ok [region_simps]:
  "p + length bs \<le> length mem \<Longrightarrow> store_bytes mem (int p) bs = Inr (overwrite mem p bs)"
  by (simp add: store_bytes_def overwrite_def)

lemma length_overwrite [simp]:
  "p + length bs \<le> length mem \<Longrightarrow> length (overwrite mem p bs) = length mem"
  by (simp add: overwrite_def)

lemma length_between [simp]: "b \<le> length mem \<Longrightarrow> length (between mem a b) = b - a"
  by (simp add: between_def)

lemma take_between: "a + n \<le> b \<Longrightarrow> take n (between mem a b) = between mem a (a + n)"
  by (simp add: between_def min_def)

lemma between_self [simp]: "between mem a a = []"
  by (simp add: between_def)

lemma between_append [region_simps]:
  "a \<le> b \<Longrightarrow> b \<le> c \<Longrightarrow> between mem a c = between mem a b @ between mem b c"
proof -
  assume "a \<le> b" "b \<le> c"
  then have "c - a = (b - a) + (c - b)" "drop (b - a) (drop a mem) = drop b mem"
    by auto
  then show ?thesis
    by (simp add: between_def take_add)
qed

lemma between_overwrite_before [region_simps]:
  "b \<le> p \<Longrightarrow> p + length bs \<le> length mem \<Longrightarrow>
   between (overwrite mem p bs) a b = between mem a b"
proof (cases "a \<le> b")
  case True
  assume "b \<le> p" "p + length bs \<le> length mem"
  with True have "drop a (overwrite mem p bs) = take (p - a) (drop a mem) @ bs @ drop (p + length bs) mem"
    by (simp add: overwrite_def drop_take)
  moreover have "b - a \<le> p - a" "p - a \<le> length mem - a"
    using \<open>b \<le> p\<close> \<open>p + length bs \<le> length mem\<close> by auto
  ultimately show ?thesis by (simp add: between_def)
qed (simp add: between_def)

lemma between_overwrite_after [region_simps]:
  "p + length bs \<le> a \<Longrightarrow> p + length bs \<le> length mem \<Longrightarrow>
   between (overwrite mem p bs) a b = between mem a b"
  by (simp add: between_def overwrite_def)

lemma between_overwrite_same [region_simps]:
  "p + length bs \<le> length mem \<Longrightarrow> b = p + length bs \<Longrightarrow> between (overwrite mem p bs) p b = bs"
  by (simp add: between_def overwrite_def)

lemma overwrite_overwrite_adjacent [region_simps]:
  "p + length xs + length ys \<le> length mem \<Longrightarrow>
   overwrite (overwrite mem p xs) (p + length xs) ys = overwrite mem p (xs @ ys)"
  by (simp add: overwrite_def ac_simps)

lemma between_prefix:
  assumes "between mem a b = xs @ ys" "a \<le> b" "b \<le> length mem"
  shows "between mem a (a + length xs) = xs" "between mem (a + length xs) b = ys"
    "a + length xs \<le> b"
proof -
  have len: "length (between mem a b) = b - a" using assms(3) by simp
  with assms(1) have "length xs + length ys = b - a" by simp
  with assms(2) show le: "a + length xs \<le> b" by simp
  have "between mem a b = between mem a (a + length xs) @ between mem (a + length xs) b"
    using le by (intro between_append) auto
  moreover have "length (between mem a (a + length xs)) = length xs"
    using le assms(3) by simp
  ultimately show "between mem a (a + length xs) = xs" "between mem (a + length xs) b = ys"
    using assms(1) by simp_all
qed

section \<open>Little-endian integers\<close>

fun le_bytes :: "nat \<Rightarrow> nat \<Rightarrow> byte list" where
  "le_bytes 0 v = []"
| "le_bytes (Suc n) v = of_nat v # le_bytes n (v div 256)"

fun le_val :: "byte list \<Rightarrow> nat" where
  "le_val [] = 0"
| "le_val (b # bs) = unat b + 256 * le_val bs"

lemma length_le_bytes [simp]: "length (le_bytes n v) = n"
  by (induction n arbitrary: v) auto

lemma le_val_le_bytes: "le_val (le_bytes n v) = v mod 256 ^ n"
proof (induction n arbitrary: v)
  case 0
  then show ?case by simp
next
  case (Suc n)
  have "le_val (le_bytes (Suc n) v) = v mod 256 + 256 * (v div 256 mod 256 ^ n)"
    by (simp add: Suc.IH unat_of_nat take_bit_eq_mod)
  also have "\<dots> = v mod 256 ^ Suc n"
    by (simp add: mod_mult2_eq)
  finally show ?case .
qed

lemma le_val_bound: "le_val bs < 256 ^ length bs"
proof (induction bs)
  case Nil
  then show ?case by simp
next
  case (Cons b bs)
  have "unat b + 256 * le_val bs < 256 * Suc (le_val bs)" by simp
  also have "\<dots> \<le> 256 * 256 ^ length bs" using Cons by (intro mult_le_mono2) simp
  finally show ?case by simp
qed

lemma le_bytes_le_val: "length bs = n \<Longrightarrow> le_bytes n (le_val bs) = bs"
proof (induction bs arbitrary: n)
  case Nil
  then show ?case by simp
next
  case (Cons b bs)
  have b: "unat b < 256" by simp
  have "(of_nat (unat b + 256 * le_val bs) :: byte) = of_nat (unat b) + of_nat 256 * of_nat (le_val bs)"
    by simp
  also have "(of_nat 256 :: byte) = 0" by simp
  finally have "(of_nat (unat b + 256 * le_val bs) :: byte) = b" by simp
  with Cons b show ?case by auto
qed

text \<open>A C++ \<open>int\<close> in memory.\<close>

definition int_bytes :: "int \<Rightarrow> byte list" where
  "int_bytes x = le_bytes 4 (unat (word_of_int x :: u32))"

definition bytes_int :: "byte list \<Rightarrow> int" where
  "bytes_int bs = sint (of_nat (le_val bs) :: u32)"

lemma length_int_bytes [simp]: "length (int_bytes x) = 4"
  by (simp add: int_bytes_def)

lemma bytes_int_int_bytes: "- (2 ^ 31) \<le> x \<Longrightarrow> x < 2 ^ 31 \<Longrightarrow> bytes_int (int_bytes x) = x"
proof -
  assume "- (2 ^ 31) \<le> x" "x < 2 ^ 31"
  have "unat (word_of_int x :: u32) < 256 ^ 4"
    using unat_less_exp [of "word_of_int x :: u32"] by simp
  then have "bytes_int (int_bytes x) = to_int32 x"
    by (simp add: bytes_int_def int_bytes_def le_val_le_bytes to_int32_def)
  then show ?thesis using \<open>- (2 ^ 31) \<le> x\<close> \<open>x < 2 ^ 31\<close> by simp
qed

end
