(* ===== verification/Fifo.thy ===== *)
theory Fifo
  imports Prelude
begin

text \<open>
  The contract of a bounded first-in first-out queue whose operations may refuse an item or fail.
  A client runs a list of requests; the locale proves once that such a run neither fails nor
  loses, duplicates or reorders an accepted item. \<open>Ring_Buffer\<close> interprets it for the shared
  memory ring, \<open>Fx_List\<close> for the list in a memory region.
\<close>

datatype 'm request = Push_req 'm | Pop_req
datatype 'm reply = Pushed bool | Popped "'m option"

fun run_requests ::
  "('s \<Rightarrow> 'm \<Rightarrow> (bool \<times> 's) result) \<Rightarrow> ('s \<Rightarrow> ('m option \<times> 's) result) \<Rightarrow> 's \<Rightarrow>
   'm request list \<Rightarrow> ('m reply list \<times> 's) result" where
  "run_requests push pop s [] = Inr ([], s)"
| "run_requests push pop s (Push_req m # rs) =
     rbind (push s m) (\<lambda>(b, s1). rbind (run_requests push pop s1 rs) (\<lambda>(outs, s2). Inr (Pushed b # outs, s2)))"
| "run_requests push pop s (Pop_req # rs) =
     rbind (pop s) (\<lambda>(x, s1). rbind (run_requests push pop s1 rs) (\<lambda>(outs, s2). Inr (Popped x # outs, s2)))"

text \<open>The items a run accepted, and the items it delivered, each in order.\<close>

fun accepted :: "'m request list \<Rightarrow> 'm reply list \<Rightarrow> 'm list" where
  "accepted (Push_req m # rs) (Pushed b # outs) = (if b then m # accepted rs outs else accepted rs outs)"
| "accepted (Pop_req # rs) (x # outs) = accepted rs outs"
| "accepted _ _ = []"

fun delivered :: "'m reply list \<Rightarrow> 'm list" where
  "delivered [] = []"
| "delivered (Popped (Some m) # outs) = m # delivered outs"
| "delivered (_ # outs) = delivered outs"

locale bounded_fifo =
  fixes rep :: "'s \<Rightarrow> 'm list \<Rightarrow> bool"
    and valid :: "'m \<Rightarrow> bool"
    and push :: "'s \<Rightarrow> 'm \<Rightarrow> (bool \<times> 's) result"
    and pop :: "'s \<Rightarrow> ('m option \<times> 's) result"
  assumes push_law: "rep s ms \<Longrightarrow> valid m \<Longrightarrow>
      \<exists>b s'. push s m = Inr (b, s') \<and> rep s' (if b then ms @ [m] else ms)"
    and pop_empty_law: "rep s [] \<Longrightarrow> \<exists>s'. pop s = Inr (None, s') \<and> rep s' []"
    and pop_law: "rep s (m # ms) \<Longrightarrow> \<exists>s'. pop s = Inr (Some m, s') \<and> rep s' ms"
begin

lemma run_fifo:
  assumes "rep s ms" and "\<forall>m. Push_req m \<in> set rs \<longrightarrow> valid m"
  shows "\<exists>outs s' ms'. run_requests push pop s rs = Inr (outs, s') \<and> rep s' ms' \<and>
           length outs = length rs \<and> ms @ accepted rs outs = delivered outs @ ms'"
  using assms
proof (induction rs arbitrary: s ms)
  case Nil
  then show ?case by auto
next
  case (Cons r rs)
  have step: ?case
    if "run_requests push pop s (r # rs) =
          rbind (run_requests push pop s1 rs) (\<lambda>(outs, s2). Inr (x # outs, s2))"
      and "rep s1 ms1" and "\<And>outs. ms @ accepted (r # rs) (x # outs) = pre @ ms1 @ accepted rs outs"
      and "\<And>outs. delivered (x # outs) = pre @ delivered outs"
    for s1 ms1 x pre
  proof -
    from Cons.IH [OF that(2)] Cons.prems(2) obtain outs s' ms' where
      "run_requests push pop s1 rs = Inr (outs, s')" "rep s' ms'" "length outs = length rs"
      "ms1 @ accepted rs outs = delivered outs @ ms'"
      by auto
    then have "run_requests push pop s (r # rs) = Inr (x # outs, s')" "rep s' ms'"
      "length (x # outs) = length (r # rs)"
      "ms @ accepted (r # rs) (x # outs) = delivered (x # outs) @ ms'"
      unfolding that(1) that(3) that(4) by simp_all
    then show ?thesis by blast
  qed
  show ?case
  proof (cases r)
    case (Push_req m)
    with Cons.prems(2) have "valid m" by simp
    then obtain b s1 where push: "push s m = Inr (b, s1)" "rep s1 (if b then ms @ [m] else ms)"
      using push_law [OF Cons.prems(1)] by blast
    show ?thesis by (rule step [OF _ push(2), of "Pushed b" "[]"]) (simp_all add: Push_req push(1))
  next
    case Pop_req
    show ?thesis
    proof (cases ms)
      case Nil
      with Cons.prems obtain s1 where pop: "pop s = Inr (None, s1)" "rep s1 []"
        using pop_empty_law by blast
      show ?thesis by (rule step [OF _ pop(2), of "Popped None" "[]"]) (simp_all add: Pop_req pop(1) Nil)
    next
      case (Cons m ms1)
      with Cons.prems obtain s1 where pop: "pop s = Inr (Some m, s1)" "rep s1 ms1"
        using pop_law by blast
      show ?thesis
        by (rule step [OF _ pop(2), of "Popped (Some m)" "[m]"]) (simp_all add: Pop_req pop(1) Cons)
    qed
  qed
qed

end

end
