(* ===== verification/Ring_Buffer.thy ===== *)
theory Ring_Buffer
  imports Fifo
begin

text \<open>
  The ring buffer of the process bus, \<open>ProcessBus/include/ring_buffer.h\<close> and
  \<open>ProcessBus/src/ring_buffer.cc\<close>: length-prefixed messages in a byte region with a front and a
  back offset, wrapping to the start when a message does not fit behind the back offset.

  A pointer is an address (\<open>int\<close>); \<open>rb_start\<close> and \<open>rb_end\<close> delimit the region, whose bytes are
  \<open>region\<close>, and \<open>OffsetData\<close>, which the code keeps in the same shared memory, is the record
  \<open>offset_data\<close>. The abstract value of a buffer is the list of its messages (\<open>rb_rep\<close>).
\<close>

section \<open>State\<close>

record offset_data =
  front_offset :: int
  back_offset :: int
  od_padding :: int
  od_size :: u64

record ring_buffer =
  rb_start :: int
  rb_end :: int
  rb_length :: int
  region :: "byte list"
  offsets :: offset_data

definition rb_front :: "ring_buffer \<Rightarrow> int" where
  "rb_front rb = front_offset (offsets rb) + rb_start rb"

definition rb_back :: "ring_buffer \<Rightarrow> int" where
  "rb_back rb = back_offset (offsets rb) + rb_start rb"

definition rb_padding :: "ring_buffer \<Rightarrow> int" where
  "rb_padding rb = od_padding (offsets rb)"

definition rb_size :: "ring_buffer \<Rightarrow> u64" where
  "rb_size rb = od_size (offsets rb)"

definition set_front :: "int \<Rightarrow> ring_buffer \<Rightarrow> ring_buffer" where
  "set_front p rb = rb\<lparr>offsets := (offsets rb)\<lparr>front_offset := p - rb_start rb\<rparr>\<rparr>"

definition set_back :: "int \<Rightarrow> ring_buffer \<Rightarrow> ring_buffer" where
  "set_back p rb = rb\<lparr>offsets := (offsets rb)\<lparr>back_offset := p - rb_start rb\<rparr>\<rparr>"

definition set_padding :: "int \<Rightarrow> ring_buffer \<Rightarrow> ring_buffer" where
  "set_padding n rb = rb\<lparr>offsets := (offsets rb)\<lparr>od_padding := n\<rparr>\<rparr>"

definition set_size :: "u64 \<Rightarrow> ring_buffer \<Rightarrow> ring_buffer" where
  "set_size n rb = rb\<lparr>offsets := (offsets rb)\<lparr>od_size := n\<rparr>\<rparr>"

section \<open>Operations\<close>

text \<open>
  The constructor: the region and the offset data are what the memory holds already; only with
  \<open>init_offsetdata\<close> are the offsets reset. \<open>const int rb_length\<close> truncates the pointer difference.
\<close>

definition RingBuffer :: "int \<Rightarrow> int \<Rightarrow> byte list \<Rightarrow> offset_data \<Rightarrow> bool \<Rightarrow> ring_buffer result" where
  "RingBuffer start end mem od init_offsetdata =
     (let rb = \<lparr>rb_start = start, rb_end = end, rb_length = to_int32 (end - start), region = mem, offsets = od\<rparr>
      in require (end > start) (require (end - start > 1024)
        (Inr (if init_offsetdata
              then set_back start (set_front start (set_size 0 (set_padding 0 rb)))
              else rb))))"

definition used :: "ring_buffer \<Rightarrow> int" where
  "used rb =
     (if rb_back rb \<ge> rb_front rb then to_int32 (rb_back rb - rb_front rb)
      else to_int32 (rb_back rb + rb_length rb - rb_front rb - rb_padding rb))"

definition CheckCanWrite :: "ring_buffer \<Rightarrow> int \<Rightarrow> bool \<times> bool" where
  "CheckCanWrite rb len =
     (let total = to_int32 (4 + len)
      in if rb_back rb \<ge> rb_front rb
         then if rb_back rb + total \<ge> rb_end rb
              then if rb_start rb + total \<ge> rb_front rb then (False, False) else (True, True)
              else (True, False)
         else if rb_back rb + total \<ge> rb_front rb then (False, False) else (True, False))"

text \<open>The three library calls of \<open>Write\<close> on the region.\<close>

definition rb_store :: "ring_buffer \<Rightarrow> int \<Rightarrow> byte list \<Rightarrow> ring_buffer result" where
  "rb_store rb p bs = rbind (store_bytes (region rb) (p - rb_start rb) bs) (\<lambda>mem. Inr (rb\<lparr>region := mem\<rparr>))"

definition rb_memset0 :: "ring_buffer \<Rightarrow> int \<Rightarrow> int \<Rightarrow> ring_buffer result" where
  "rb_memset0 rb p n = (if n < 0 then Inl MemoryFault else rb_store rb p (replicate (nat n) 0))"

definition rb_copy_in :: "ring_buffer \<Rightarrow> int \<Rightarrow> byte list \<Rightarrow> int \<Rightarrow> ring_buffer result" where
  "rb_copy_in rb p buf len =
     (if len < 0 \<or> int (length buf) < len then Inl MemoryFault else rb_store rb p (take (nat len) buf))"

definition Write :: "ring_buffer \<Rightarrow> byte list \<Rightarrow> int \<Rightarrow> bool \<Rightarrow> ring_buffer result" where
  "Write rb buf len needs_padding =
     rbind
       (if needs_padding
        then require (rb_back rb \<ge> rb_front rb)
          (let pad = to_int32 (rb_end rb - rb_back rb)
           in rbind (rb_memset0 rb (rb_back rb) pad) (\<lambda>rb1. Inr (set_back (rb_start rb) (set_padding pad rb1))))
        else Inr rb)
       (\<lambda>rb1. let b = rb_back rb1
          in rbind (rb_store rb1 b (int_bytes len))
            (\<lambda>rb2. rbind (rb_copy_in rb2 (b + 4) buf len) (\<lambda>rb3. Inr (set_back (b + 4 + len) rb3))))"

text \<open>\<open>buf\<close> is \<open>None\<close> for a null pointer.\<close>

definition Push :: "ring_buffer \<Rightarrow> byte list option \<Rightarrow> int \<Rightarrow> (bool \<times> ring_buffer) result" where
  "Push rb buf len =
     require (len \<ge> 0)
       (if len = 0 \<or> len \<ge> rb_length rb then Inr (False, rb)
        else case CheckCanWrite rb len of (can_write, needs_padding) \<Rightarrow>
          if \<not> can_write then Inr (False, rb)
          else case buf of None \<Rightarrow> Inl AssertionFailed
          | Some bytes \<Rightarrow> rbind (Write rb bytes len needs_padding)
              (\<lambda>rb1. Inr (True, set_size (1 + rb_size rb1) rb1)))"

text \<open>
  \<open>ReadNext\<close> and \<open>Pop\<close> take the value of \<open>*plen\<close> before the call (\<open>ReadNext\<close> asserts it is not
  0) and return it after the call with the pointer to the message.
\<close>

definition ReadNext :: "ring_buffer \<Rightarrow> int \<Rightarrow> (ring_buffer \<times> int \<times> int) result" where
  "ReadNext rb plen =
     require (plen \<noteq> 0)
       (case (if rb_front rb + rb_padding rb = rb_end rb then (set_padding 0 rb, rb_start rb) else (rb, rb_front rb))
        of (rb1, p) \<Rightarrow>
          rbind (load_bytes (region rb1) (p - rb_start rb1) 4)
            (\<lambda>bs. let len = bytes_int bs; buf = p + 4
              in Inr (set_front (buf + len) rb1, len, buf)))"

definition Pop :: "ring_buffer \<Rightarrow> int \<Rightarrow> (ring_buffer \<times> int \<times> int option) result" where
  "Pop rb plen =
     (if used rb = 0 then Inr (rb, 0, None)
      else rbind (ReadNext (set_size (rb_size rb - 1) rb) plen)
        (\<lambda>(rb1, len, buf). Inr (rb1, len, Some buf)))"

lemmas rb_accessors =
  rb_front_def rb_back_def rb_padding_def rb_size_def set_front_def set_back_def set_padding_def set_size_def

lemmas rb_memory = rb_store_def rb_memset0_def rb_copy_in_def

section \<open>The messages of a buffer\<close>

text \<open>
  A message occupies its length as an \<open>int\<close> and then its bytes. \<open>rb_layout\<close> says where the
  messages are: either between the front and the back offset, or, once the back offset has wrapped,
  the older ones from the front offset up to the padding and the newer ones from the start of the
  region up to the back offset.
\<close>

definition frame :: "byte list \<Rightarrow> byte list" where
  "frame m = int_bytes (int (length m)) @ m"

definition frames :: "byte list list \<Rightarrow> byte list" where
  "frames ms = concat (map frame ms)"

definition rb_layout :: "byte list \<Rightarrow> nat \<Rightarrow> nat \<Rightarrow> nat \<Rightarrow> byte list list \<Rightarrow> bool" where
  "rb_layout mem f b p ms \<longleftrightarrow>
     b < length mem \<and>
     (f \<le> b \<and> p = 0 \<and> between mem f b = frames ms \<or>
      b < f \<and> 0 < p \<and> f + p \<le> length mem \<and>
      (\<exists>k<length ms. between mem f (length mem - p) = frames (take k ms) \<and>
                     between mem 0 b = frames (drop k ms)))"

definition ring :: "int \<Rightarrow> byte list \<Rightarrow> nat \<Rightarrow> nat \<Rightarrow> nat \<Rightarrow> u64 \<Rightarrow> ring_buffer" where
  "ring st mem f b p n =
     \<lparr>rb_start = st, rb_end = st + int (length mem), rb_length = int (length mem), region = mem,
      offsets = \<lparr>front_offset = int f, back_offset = int b, od_padding = int p, od_size = n\<rparr>\<rparr>"

definition region_ok :: "byte list \<Rightarrow> bool" where
  "region_ok mem \<longleftrightarrow> 1024 < length mem \<and> length mem \<le> 2 ^ 31 - 4"

definition rb_rep :: "ring_buffer \<Rightarrow> byte list list \<Rightarrow> bool" where
  "rb_rep rb ms \<longleftrightarrow>
     (\<exists>st mem f b p. rb = ring st mem f b p (of_nat (length ms)) \<and> region_ok mem \<and>
        rb_layout mem f b p ms \<and> (\<forall>m\<in>set ms. m \<noteq> [] \<and> length m < length mem))"

definition rb_valid :: "byte list \<Rightarrow> bool" where
  "rb_valid m \<longleftrightarrow> m \<noteq> []"

lemma rb_repI:
  "region_ok mem \<Longrightarrow> rb_layout mem f b p ms \<Longrightarrow> \<forall>m\<in>set ms. m \<noteq> [] \<and> length m < length mem \<Longrightarrow>
   n = of_nat (length ms) \<Longrightarrow> rb_rep (ring st mem f b p n) ms"
  unfolding rb_rep_def by blast

lemma length_frame [simp]: "length (frame m) = 4 + length m"
  by (simp add: frame_def)

lemma frame_neq_Nil [simp]: "frame m \<noteq> []"
  using length_frame [of m] by (metis add_is_0 list.size(3) zero_neq_numeral)

lemma frames_simps [simp]:
  "frames [] = []" "frames (m # ms) = frame m @ frames ms" "frames (ms @ ms') = frames ms @ frames ms'"
  by (simp_all add: frames_def)

lemma frames_eq_Nil [simp]: "frames ms = [] \<longleftrightarrow> ms = []"
  by (cases ms) simp_all

lemma ring_simps [simp]:
  "rb_start (ring st mem f b p n) = st" "rb_end (ring st mem f b p n) = st + int (length mem)"
  "rb_length (ring st mem f b p n) = int (length mem)" "region (ring st mem f b p n) = mem"
  "rb_front (ring st mem f b p n) = int f + st" "rb_back (ring st mem f b p n) = int b + st"
  "rb_padding (ring st mem f b p n) = int p" "rb_size (ring st mem f b p n) = n"
  by (simp_all add: ring_def rb_accessors)

lemma ring_updates [simp]:
  "set_front (int g + st) (ring st mem f b p n) = ring st mem g b p n"
  "set_back (int g + st) (ring st mem f b p n) = ring st mem f g p n"
  "set_padding (int q) (ring st mem f b p n) = ring st mem f b q n"
  "set_padding 0 (ring st mem f b p n) = ring st mem f b 0 n"
  "set_back st (ring st mem f b p n) = ring st mem f 0 p n"
  "set_size k (ring st mem f b p n) = ring st mem f b p k"
  by (simp_all add: ring_def rb_accessors)

lemma rb_store_ring [simp]:
  "g + length bs \<le> length mem \<Longrightarrow>
   rb_store (ring st mem f b p n) (int g + st) bs = Inr (ring st (overwrite mem g bs) f b p n)"
  by (simp add: rb_store_def region_simps) (simp add: ring_def)

lemma Write_in_place:
  assumes "b + (4 + length m) \<le> length mem"
  shows "Write (ring st mem f b p n) m (int (length m)) False =
           Inr (ring st (overwrite mem b (frame m)) f (b + (4 + length m)) p n)"
proof -
  have a: "int b + st + 4 = int (b + 4) + st" by simp
  have c: "int (b + 4) + st + int (length m) = int (b + (4 + length m)) + st" by simp
  have o: "overwrite (overwrite mem b (int_bytes (int (length m)))) (b + 4) m = overwrite mem b (frame m)"
    using assms overwrite_overwrite_adjacent [of b "int_bytes (int (length m))" m mem]
    by (simp add: frame_def)
  show ?thesis
    using assms unfolding Write_def by (simp add: rb_copy_in_def Let_def a c o del: of_nat_add)
qed

lemma Write_wrapped:
  assumes "f \<le> b" "b < length mem" "4 + length m \<le> length mem" "region_ok mem"
  shows "Write (ring st mem f b p n) m (int (length m)) True =
           Inr (ring st (overwrite (overwrite mem b (replicate (length mem - b) 0)) 0 (frame m))
                  f (4 + length m) (length mem - b) n)"
proof -
  have pad: "to_int32 (int (length mem) - int b) = int (length mem - b)"
    using assms by (simp add: region_ok_def of_nat_diff)
  have "Write (ring st mem f b p n) m (int (length m)) True =
          Write (ring st (overwrite mem b (replicate (length mem - b) 0)) f 0 (length mem - b) n) m
            (int (length m)) False"
    using assms unfolding Write_def by (simp add: Let_def pad rb_memset0_def del: of_nat_diff)
  then show ?thesis using assms by (simp add: Write_in_place)
qed

lemma total_in_range [simp]:
  "region_ok mem \<Longrightarrow> length m < length mem \<Longrightarrow> to_int32 (4 + int (length m)) = 4 + int (length m)"
  by (simp add: region_ok_def)

lemma CheckCanWrite_ring:
  "region_ok mem \<Longrightarrow> length m < length mem \<Longrightarrow>
   CheckCanWrite (ring st mem f b p n) (int (length m)) =
     (if f \<le> b
      then if length mem \<le> b + (4 + length m) then (4 + length m < f, 4 + length m < f) else (True, False)
      else (b + (4 + length m) < f, False))"
  by (auto simp: CheckCanWrite_def Let_def)

lemma Push_ring:
  assumes "region_ok mem" "b < length mem" "m \<noteq> []" "f \<le> length mem"
  shows "Push (ring st mem f b p n) (Some m) (int (length m)) = Inr
     (if length mem \<le> length m then (False, ring st mem f b p n)
      else if f \<le> b \<and> b + (4 + length m) < length mem \<or> b < f \<and> b + (4 + length m) < f
      then (True, ring st (overwrite mem b (frame m)) f (b + (4 + length m)) p (1 + n))
      else if f \<le> b \<and> 4 + length m < f
      then (True, ring st (overwrite (overwrite mem b (replicate (length mem - b) 0)) 0 (frame m))
                    f (4 + length m) (length mem - b) (1 + n))
      else (False, ring st mem f b p n))"
  using assms by (auto simp: Push_def CheckCanWrite_ring Write_in_place Write_wrapped)

text \<open>What an accepted message does to the layout, in place and wrapped.\<close>

lemma layout_in_place:
  assumes "rb_layout mem f b p ms"
    and "f \<le> b \<and> b + (4 + length m) < length mem \<or> b < f \<and> b + (4 + length m) < f"
  shows "rb_layout (overwrite mem b (frame m)) f (b + (4 + length m)) p (ms @ [m])"
proof (cases "f \<le> b")
  case True
  with assms have p: "p = 0" and b: "between mem f b = frames ms" "b + (4 + length m) < length mem"
    by (auto simp: rb_layout_def)
  let ?mem = "overwrite mem b (frame m)"
  have "between ?mem f (b + (4 + length m)) = between ?mem f b @ between ?mem b (b + (4 + length m))"
    using True by (intro between_append) auto
  also have "\<dots> = frames (ms @ [m])"
    using b by (simp add: between_overwrite_before between_overwrite_same)
  finally show ?thesis using True b p by (simp add: rb_layout_def)
next
  case False
  with assms(1) obtain k where k: "k < length ms" "between mem f (length mem - p) = frames (take k ms)"
      "between mem 0 b = frames (drop k ms)" and fp: "0 < p" "f + p \<le> length mem"
    by (auto simp: rb_layout_def)
  from False assms(2) have bf: "b + (4 + length m) < f" by simp
  let ?mem = "overwrite mem b (frame m)"
  have "between ?mem 0 (b + (4 + length m)) = between ?mem 0 b @ between ?mem b (b + (4 + length m))"
    by (intro between_append) auto
  also have "\<dots> = frames (drop k (ms @ [m]))"
    using k bf fp by (simp add: between_overwrite_before between_overwrite_same)
  finally have "between ?mem 0 (b + (4 + length m)) = frames (drop k (ms @ [m]))" .
  moreover have "between ?mem f (length mem - p) = frames (take k (ms @ [m]))"
    using k bf fp by (simp add: between_overwrite_after)
  ultimately show ?thesis using k(1) bf fp False by (auto simp: rb_layout_def intro!: exI [of _ k])
qed

lemma layout_wrapped:
  assumes "rb_layout mem f b p ms" "f \<le> b" "4 + length m < f"
  shows "rb_layout (overwrite (overwrite mem b (replicate (length mem - b) 0)) 0 (frame m))
           f (4 + length m) (length mem - b) (ms @ [m])"
proof -
  from assms have b: "between mem f b = frames ms" "b < length mem" by (auto simp: rb_layout_def)
  let ?mem1 = "overwrite mem b (replicate (length mem - b) 0)"
  let ?mem = "overwrite ?mem1 0 (frame m)"
  have len: "length ?mem = length mem" using assms b by simp
  have "between ?mem f b = frames ms"
    using assms b by (simp add: between_overwrite_after between_overwrite_before)
  moreover have "between ?mem 0 (4 + length m) = frame m"
    using assms b by (intro between_overwrite_same) auto
  ultimately show ?thesis
    using assms b len unfolding rb_layout_def
    by (intro conjI disjI2 exI [of _ "length ms"]) auto
qed

lemma used_ring:
  assumes "rb_layout mem f b p ms" "region_ok mem"
  shows "used (ring st mem f b p n) = int (length (frames ms))"
proof (cases "f \<le> b")
  case True
  with assms have "length (frames ms) = b - f" "b < length mem"
    by (auto simp: rb_layout_def dest!: arg_cong [of "between mem f b" _ length])
  with True assms show ?thesis by (simp add: used_def region_ok_def of_nat_diff)
next
  case False
  with assms(1) obtain k where k: "between mem f (length mem - p) = frames (take k ms)"
      "between mem 0 b = frames (drop k ms)" "0 < p" "f + p \<le> length mem" "b < length mem"
    by (auto simp: rb_layout_def)
  have "frames ms = frames (take k ms) @ frames (drop k ms)"
    by (metis append_take_drop_id frames_simps(3))
  then have "frames ms = between mem f (length mem - p) @ between mem 0 b"
    using k by simp
  then have "int (length (frames ms)) = int b + int (length mem) - int f - int p"
    using k(3-5) False by (simp add: of_nat_diff)
  with False assms(2) k(3-5) show ?thesis by (simp add: used_def region_ok_def)
qed

text \<open>Where the next message is and what remains once it is read.\<close>

lemma layout_head:
  assumes "rb_layout mem f b p (m # ms)"
    and q: "(q, p') = (if f + p = length mem then (0, 0) else (f, p))"
  shows "between mem q (q + (4 + length m)) = frame m" "q + (4 + length m) \<le> length mem"
    "rb_layout mem (q + (4 + length m)) b p' ms"
proof -
  have *: "between mem q (q + (4 + length m)) = frame m \<and> q + (4 + length m) \<le> length mem \<and>
    rb_layout mem (q + (4 + length m)) b p' ms"
  proof (cases "f \<le> b")
    case True
    with assms(1) have b: "between mem f b = frame m @ frames ms" "p = 0" "b < length mem"
      by (auto simp: rb_layout_def)
    with q True have "q = f" "p' = 0" by auto
    with True b between_prefix [OF b(1)] show ?thesis by (simp add: rb_layout_def)
  next
    case False
    with assms(1) obtain k where k: "k < Suc (length ms)" "between mem f (length mem - p) = frames (take k (m # ms))"
        "between mem 0 b = frames (drop k (m # ms))" and fp: "b < f" "0 < p" "f + p \<le> length mem"
        "b < length mem"
      by (auto simp: rb_layout_def)
    show ?thesis
    proof (cases "f + p = length mem")
      case True
      then have "length mem - p = f" by simp
      with k(2) have "frames (take k (m # ms)) = []" by simp
      then have "k = 0" by (cases k) simp_all
      with k(3) have b: "between mem 0 b = frame m @ frames ms" by simp
      from True q have "q = 0" "p' = 0" by auto
      with fp b between_prefix [OF b] show ?thesis by (simp add: rb_layout_def)
    next
      case wrap: False
      have "length (frames (take k (m # ms))) = length mem - p - f"
        using arg_cong [OF k(2), of length] by simp
      with wrap fp(3) have "k \<noteq> 0" by (cases k) auto
      then obtain j where j: "k = Suc j" by (cases k) auto
      with k(2) have b: "between mem f (length mem - p) = frame m @ frames (take j ms)" by simp
      from wrap q have "q = f" "p' = p" by auto
      moreover have "f \<le> length mem - p" using fp by linarith
      note between_prefix [OF b this diff_le_self]
      ultimately show ?thesis using fp j k by (auto simp: rb_layout_def)
    qed
  qed
  then show "between mem q (q + (4 + length m)) = frame m" "q + (4 + length m) \<le> length mem"
    "rb_layout mem (q + (4 + length m)) b p' ms" by simp_all
qed

lemma bytes_int_frame: "length m < 2 ^ 31 \<Longrightarrow> bytes_int (take 4 (frame m)) = int (length m)"
  by (simp add: frame_def bytes_int_int_bytes)

lemma ReadNext_ring:
  assumes "rb_layout mem f b p (m # ms)" "region_ok mem" "plen \<noteq> 0" "length m < length mem"
    and q: "(q, p') = (if f + p = length mem then (0, 0) else (f, p))"
  shows "ReadNext (ring st mem f b p n) plen =
           Inr (ring st mem (q + (4 + length m)) b p' n, int (length m), int (q + 4) + st)"
proof -
  note h = layout_head [OF assms(1) q]
  have "between mem q (q + 4) = take 4 (frame m)"
    using h(1) take_between [of q 4 "q + (4 + length m)" mem] by simp
  then have "load_bytes mem (int q) 4 = Inr (take 4 (frame m))"
    using h(2) by (simp add: load_bytes_ok)
  moreover have "bytes_int (take 4 (frame m)) = int (length m)"
    using assms by (intro bytes_int_frame) (simp add: region_ok_def)
  moreover have sel: "(if rb_front R + rb_padding R = rb_end R then (set_padding 0 R, rb_start R) else (R, rb_front R)) =
      (ring st mem f b p' n, int q + st)" if "R = ring st mem f b p n" for R
    using q that by (auto split: if_splits)
  moreover have e: "int (q + 4) + st + int (length m) = int (q + (4 + length m)) + st"
    "int q + st + 4 = int (q + 4) + st"
    by simp_all
  ultimately show ?thesis
    using assms(3) unfolding ReadNext_def sel [OF refl] by (simp add: Let_def e del: of_nat_add)
qed

section \<open>The buffer is a queue\<close>

lemma Push_rep:
  assumes "rb_rep rb ms" "rb_valid m"
  shows "\<exists>b rb'. Push rb (Some m) (int (length m)) = Inr (b, rb') \<and> rb_rep rb' (if b then ms @ [m] else ms)"
proof -
  from assms obtain st mem f b p where rb: "rb = ring st mem f b p (of_nat (length ms))"
    and ok: "region_ok mem" "rb_layout mem f b p ms" "\<forall>m\<in>set ms. m \<noteq> [] \<and> length m < length mem" "m \<noteq> []"
    by (auto simp: rb_rep_def rb_valid_def)
  have fb: "b < length mem" "f \<le> length mem" using ok(2) by (auto simp: rb_layout_def)
  have rep: "rb_rep (ring st mem' f b' p' (1 + of_nat (length ms))) (ms @ [m])"
    if "rb_layout mem' f b' p' (ms @ [m])" "length m < length mem" "length mem' = length mem" for mem' b' p'
    using that ok by (intro rb_repI) (auto simp: region_ok_def)
  let ?here = "f \<le> b \<and> b + (4 + length m) < length mem \<or> b < f \<and> b + (4 + length m) < f"
  consider (refuse) "length mem \<le> length m \<or> \<not> ?here \<and> \<not> (f \<le> b \<and> 4 + length m < f)"
    | (here) "\<not> length mem \<le> length m" ?here
    | (wrap) "\<not> length mem \<le> length m" "f \<le> b" "4 + length m < f" "\<not> ?here"
    by blast
  then show ?thesis
  proof cases
    case refuse
    then have "Push rb (Some m) (int (length m)) = Inr (False, rb)"
      unfolding rb Push_ring [OF ok(1) fb(1) ok(4) fb(2)]
      by (cases "length mem \<le> length m") (simp_all only: if_True if_False simp_thms)
    with assms(1) show ?thesis by auto
  next
    case here
    then have "rb_rep (ring st (overwrite mem b (frame m)) f (b + (4 + length m)) p (1 + of_nat (length ms))) (ms @ [m])"
      using fb by (intro rep [OF layout_in_place [OF ok(2) here(2)]]) auto
    with here show ?thesis
      unfolding rb Push_ring [OF ok(1) fb(1) ok(4) fb(2)] by (simp only: if_True if_False simp_thms) auto
  next
    case wrap
    then have "rb_rep (ring st (overwrite (overwrite mem b (replicate (length mem - b) 0)) 0 (frame m))
        f (4 + length m) (length mem - b) (1 + of_nat (length ms))) (ms @ [m])"
      using fb by (intro rep [OF layout_wrapped [OF ok(2) wrap(2,3)]]) auto
    with wrap show ?thesis
      unfolding rb Push_ring [OF ok(1) fb(1) ok(4) fb(2)] by (simp only: if_True if_False simp_thms) auto
  qed
qed

text \<open>The message \<open>Pop\<close> hands out: \<open>*plen\<close> bytes at the returned pointer.\<close>

definition pop_message :: "int \<Rightarrow> ring_buffer \<Rightarrow> (byte list option \<times> ring_buffer) result" where
  "pop_message plen rb =
     rbind (Pop rb plen) (\<lambda>(rb1, len, buf). case buf of
         None \<Rightarrow> Inr (None, rb1)
       | Some p \<Rightarrow> if len < 0 then Inl MemoryFault
           else rbind (load_bytes (region rb1) (p - rb_start rb1) (nat len)) (\<lambda>bs. Inr (Some bs, rb1)))"

lemma Pop_rep_empty: "rb_rep rb [] \<Longrightarrow> Pop rb plen = Inr (rb, 0, None)"
  by (auto simp: rb_rep_def Pop_def used_ring)

lemma Pop_rep:
  assumes "rb_rep rb (m # ms)" "plen \<noteq> 0"
  shows "\<exists>rb' p. Pop rb plen = Inr (rb', int (length m), Some p) \<and> rb_rep rb' ms \<and> region rb' = region rb \<and>
           load_bytes (region rb') (p - rb_start rb') (length m) = Inr m"
proof -
  from assms obtain st mem f b p where rb: "rb = ring st mem f b p (of_nat (length (m # ms)))"
    and ok: "region_ok mem" "rb_layout mem f b p (m # ms)" "\<forall>m\<in>set (m # ms). m \<noteq> [] \<and> length m < length mem"
    by (auto simp: rb_rep_def)
  obtain q p' where q: "(q, p') = (if f + p = length mem then (0, 0) else (f, p))"
    by (metis surj_pair)
  note h = layout_head [OF ok(2) q]
  have "used rb \<noteq> 0" unfolding rb used_ring [OF ok(2,1)] by simp
  moreover have "length m < length mem" using ok(3) by simp
  ultimately have pop: "Pop rb plen =
      Inr (ring st mem (q + (4 + length m)) b p' (of_nat (length ms)), int (length m), Some (int (q + 4) + st))"
    unfolding rb Pop_def by (simp add: ReadNext_ring [OF ok(2,1) assms(2) _ q] del: of_nat_add)
  have "rb_rep (ring st mem (q + (4 + length m)) b p' (of_nat (length ms))) ms"
    using ok h(3) by (intro rb_repI) auto
  moreover have "load_bytes mem (int (q + 4)) (length m) = Inr m"
    using between_prefix(2) [of mem q "q + (4 + length m)" "int_bytes (int (length m))" m] h
      load_bytes_ok [of "q + 4" "length m" mem]
    by (simp add: frame_def add.assoc del: of_nat_add)
  ultimately show ?thesis using pop by (simp add: rb del: of_nat_add)
qed

lemma pop_message_empty: "rb_rep rb [] \<Longrightarrow> pop_message plen rb = Inr (None, rb)"
  by (simp add: pop_message_def Pop_rep_empty)

lemma pop_message_rep:
  "rb_rep rb (m # ms) \<Longrightarrow> plen \<noteq> 0 \<Longrightarrow> \<exists>rb'. pop_message plen rb = Inr (Some m, rb') \<and> rb_rep rb' ms"
  using Pop_rep [of rb m ms plen] by (auto simp: pop_message_def)

interpretation rb_queue: bounded_fifo rb_rep rb_valid "\<lambda>rb m. Push rb (Some m) (int (length m))" "pop_message 1"
  using Push_rep pop_message_empty pop_message_rep by unfold_locales force+

section \<open>Properties\<close>

lemma RingBuffer_init:
  assumes "region_ok mem"
  shows "RingBuffer st (st + int (length mem)) mem od True = Inr (ring st mem 0 0 0 0)"
    and "rb_rep (ring st mem 0 0 0 0) []"
proof -
  have "mem \<noteq> []" using assms by (auto simp: region_ok_def)
  with assms show "RingBuffer st (st + int (length mem)) mem od True = Inr (ring st mem 0 0 0 0)"
    by (cases od) (simp add: RingBuffer_def Let_def region_ok_def rb_accessors ring_def)
  from \<open>mem \<noteq> []\<close> show "rb_rep (ring st mem 0 0 0 0) []"
    using assms by (intro rb_repI) (auto simp: rb_layout_def)
qed

lemma RingBuffer_attach:
  "region_ok mem \<Longrightarrow> od = offsets (ring st mem f b p n) \<Longrightarrow>
   RingBuffer st (st + int (length mem)) mem od False = Inr (ring st mem f b p n)"
  by (auto simp: RingBuffer_def Let_def region_ok_def ring_def require_def)

lemma region_ok_replicate: "1024 < n \<Longrightarrow> n \<le> 2 ^ 31 - 4 \<Longrightarrow> region_ok (replicate n x)"
  by (simp add: region_ok_def)



text \<open>
  The counters of a buffer agree with its messages: \<open>used()\<close> is the number of bytes the
  messages occupy with their length prefixes, and \<open>size()\<close> the number of messages, on both sides
  of a wrap.
\<close>

theorem ring_buffer_used_size:
  assumes "rb_rep rb ms"
  shows "used rb = (\<Sum>m\<leftarrow>ms. 4 + int (length m)) \<and> rb_size rb = of_nat (length ms)"
proof -
  have "int (length (frames ms)) = (\<Sum>m\<leftarrow>ms. 4 + int (length m))"
    by (induction ms) simp_all
  with assms show ?thesis by (auto simp: rb_rep_def used_ring)
qed

theorem ring_buffer_used_size_witness:
  "\<exists>rb. Push (ring 0 (replicate 2000 0) 0 0 0 0) (Some [7, 7]) 2 = Inr (True, rb) \<and>
     used rb = 6 \<and> rb_size rb = 1"
proof -
  have ok: "region_ok (replicate 2000 0)" by (rule region_ok_replicate) simp_all
  have "Push (ring 0 (replicate 2000 0) 0 0 0 0) (Some [7, 7]) 2 =
      Inr (True, ring 0 (overwrite (replicate 2000 0) 0 (frame [7, 7])) 0 6 0 1)"
    using Push_ring [OF ok, of 0 "[7, 7]" 0 0 0 0] by simp
  moreover from this have "rb_rep (ring 0 (overwrite (replicate 2000 0) 0 (frame [7, 7])) 0 6 0 1) [[7, 7]]"
    using Push_rep [OF RingBuffer_init(2) [OF ok], of "[7, 7]" 0] by (auto simp: rb_valid_def)
  from ring_buffer_used_size [OF this] calculation show ?thesis by simp
qed

text \<open>
  \<open>Pop\<close> reads its out-parameter: on a buffer that holds a message it aborts when the
  caller's \<open>*plen\<close> is 0 on entry, the value \<open>Pop\<close> itself stores there whenever the buffer was
  empty. So a caller that polls an empty buffer and reuses the same variable aborts on the first
  message that arrives.
\<close>

theorem Pop_poll_then_message_aborts:
  assumes "rb_rep rb []" and "m \<noteq> []"
    and "Push rb (Some m) (int (length m)) = Inr (True, rb')"
  shows "\<exists>plen. Pop rb 1 = Inr (rb, plen, None) \<and> Pop rb' plen = Inl AssertionFailed"
proof -
  from Push_rep [OF assms(1), of m] assms(2,3) have "rb_rep rb' [m]"
    by (auto simp: rb_valid_def)
  then have "Pop rb' 0 = Inl AssertionFailed"
    by (auto simp: rb_rep_def Pop_def used_ring ReadNext_def)
  with Pop_rep_empty [OF assms(1)] show ?thesis by blast
qed

theorem Pop_poll_then_message_aborts_witness:
  "\<exists>rb' plen. Push (ring 0 (replicate 2000 0) 0 0 0 0) (Some [9]) 1 = Inr (True, rb') \<and>
     Pop (ring 0 (replicate 2000 0) 0 0 0 0) 1 = Inr (ring 0 (replicate 2000 0) 0 0 0 0, plen, None) \<and>
     Pop rb' plen = Inl AssertionFailed"
proof -
  have ok: "region_ok (replicate 2000 0)" by (rule region_ok_replicate) simp_all
  have p: "Push (ring 0 (replicate 2000 0) 0 0 0 0) (Some [9]) (int (length [9])) =
      Inr (True, ring 0 (overwrite (replicate 2000 0) 0 (frame [9])) 0 5 0 1)"
    using Push_ring [OF ok, of 0 "[9]" 0 0 0 0] by simp
  from Pop_poll_then_message_aborts [OF RingBuffer_init(2) [OF ok] _ p] p show ?thesis by simp
qed

text \<open>
  \<open>Push\<close> refuses a message only for lack of contiguous room, and an empty buffer is no
  exception: the offsets are not reset when the last message is read, so an empty buffer whose
  offsets stand at \<open>f\<close> refuses every message that fits neither behind \<open>f\<close> nor before it, for
  ever, while a new buffer over the same region accepts it.
\<close>

theorem Push_empty_ring_refuses:
  assumes "region_ok mem" "m \<noteq> []" "f < length mem"
    and "4 + length m < length mem" "f \<le> 4 + length m" "length mem \<le> f + (4 + length m)"
  shows "rb_rep (ring st mem f f 0 0) [] \<and>
    Push (ring st mem f f 0 0) (Some m) (int (length m)) = Inr (False, ring st mem f f 0 0) \<and>
    (\<exists>rb'. Push (ring st mem 0 0 0 0) (Some m) (int (length m)) = Inr (True, rb'))"
proof -
  have "0 < length mem" using assms(3) by linarith
  with assms Push_ring [OF assms(1), of f m f st 0 0] Push_ring [OF assms(1), of 0 m 0 st 0 0] show ?thesis
    by (auto intro!: rb_repI simp: rb_layout_def)
qed

theorem Push_empty_ring_refuses_witness:
  "Push (ring 0 (replicate 2000 0) 1000 1000 0 0) (Some (replicate 1500 1)) 1500 =
     Inr (False, ring 0 (replicate 2000 0) 1000 1000 0 0)"
proof -
  have ok: "region_ok (replicate 2000 0)" by (rule region_ok_replicate) simp_all
  from Push_empty_ring_refuses [OF ok, of "replicate 1500 1" 1000 0] show ?thesis by simp
qed

end
