(* ===== verification/Process_Bus.thy ===== *)
theory Process_Bus
  imports Ring_Buffer
begin

text \<open>
  The process bus, \<open>ProcessBus/src/process_bus.cc\<close>: a ring buffer in a memory-mapped file that
  one process creates (\<open>Listen\<close>) and others open (\<open>Connect\<close>). The operating system and the
  property tree are parameters: the results of \<open>open\<close>, \<open>fstat\<close> and \<open>mmap\<close> are fields of
  \<open>os_calls\<close>, and the values the configuration holds are partial functions of the key.

  A mapped file is a \<open>segment\<close>: the offset data at its start, of \<open>sizeof(OffsetData)\<close> = 32 bytes,
  and the data behind it. Clients hold an inter-process mutex around each call, so the bus as a
  whole is a step relation (\<open>bus_step\<close>) over the segment whose steps are whole calls.
\<close>

section \<open>State and environment\<close>

record segment =
  seg_offsets :: offset_data
  seg_data :: "byte list"

text \<open>
  \<open>os_open\<close> gives a descriptor or a negative number, \<open>os_fstat\<close> the file size or \<open>None\<close>, and
  \<open>os_mmap\<close> the address of the mapping and its contents, or \<open>None\<close> for \<open>MAP_FAILED\<close>.
\<close>

record os_calls =
  os_open :: "string \<Rightarrow> int"
  os_fstat :: "int \<Rightarrow> nat option"
  os_mmap :: "int \<Rightarrow> nat \<Rightarrow> (int \<times> segment) option"

text \<open>\<open>mem_\<close> is \<open>None\<close> for \<open>NULL\<close>, and \<open>Some (-1)\<close> for \<open>MAP_FAILED\<close>.\<close>

record process_bus =
  bus_id :: u32
  bus_size :: u32
  bus_mem :: "int option"
  mmap_length :: nat
  bus_fd :: int
  filepath :: string
  bus_buffer :: "ring_buffer option"

definition ProcessBus :: "nat \<Rightarrow> process_bus" where
  "ProcessBus uninit =
     \<lparr>bus_id = 0, bus_size = 0, bus_mem = None, mmap_length = uninit, bus_fd = - 1, filepath = [], bus_buffer = None\<rparr>"

definition Inited :: "process_bus \<Rightarrow> bool" where
  "Inited pb \<longleftrightarrow> \<not> (bus_id pb = 0 \<and> filepath pb = [])"

text \<open>The decimal digits \<open>operator<<\<close> prints for an unsigned number.\<close>

fun decimal :: "nat \<Rightarrow> string" where
  "decimal n = (if n < 10 then [char_of (48 + n)] else decimal (n div 10) @ [char_of (48 + n mod 10)])"

declare decimal.simps [simp del]

definition GenerateMMapFilename :: "process_bus \<Rightarrow> string" where
  "GenerateMMapFilename pb = filepath pb @ ''/'' @ decimal (unat (bus_id pb)) @ ''.mmap''"

section \<open>Operations\<close>

text \<open>
  \<open>Init\<close>: the three reads happen in order and the first missing key leaves through the handler,
  with the members read before it already assigned.
\<close>

definition Init :: "(string \<Rightarrow> u32 option) \<Rightarrow> (string \<Rightarrow> string option) \<Rightarrow> process_bus \<Rightarrow> int \<times> process_bus" where
  "Init get_unsigned get_string pb =
     (case get_unsigned ''<xmlattr>.id'' of None \<Rightarrow> (- 1, pb)
      | Some i \<Rightarrow> let pb1 = pb\<lparr>bus_id := i\<rparr> in
        (case get_unsigned ''<xmlattr>.size'' of None \<Rightarrow> (- 1, pb1)
         | Some n \<Rightarrow> let pb2 = pb1\<lparr>bus_size := n\<rparr> in
           (case get_string ''<xmlattr>.path'' of None \<Rightarrow> (- 1, pb2)
            | Some f \<Rightarrow> (0, pb2\<lparr>filepath := f\<rparr>))))"

definition sizeof_OffsetData :: nat where
  "sizeof_OffsetData = 32"

text \<open>Building the buffer over a mapping of \<open>len\<close> bytes at address \<open>addr\<close>.\<close>

definition attach :: "int \<Rightarrow> nat \<Rightarrow> segment \<Rightarrow> bool \<Rightarrow> ring_buffer result" where
  "attach addr len seg init_offsetdata =
     RingBuffer (addr + int sizeof_OffsetData) (addr + int len) (seg_data seg) (seg_offsets seg) init_offsetdata"

definition Connect :: "os_calls \<Rightarrow> process_bus \<Rightarrow> (int \<times> process_bus) result" where
  "Connect os pb =
     require (Inited pb) (require (bus_mem pb = None)
       (let fd = os_open os (GenerateMMapFilename pb); pb1 = pb\<lparr>bus_fd := fd\<rparr>
        in if fd < 0 then Inr (- 1, pb1)
           else case os_fstat os fd of None \<Rightarrow> Inr (- 2, pb1)
             | Some len \<Rightarrow> let pb2 = pb1\<lparr>mmap_length := len\<rparr> in
               (case os_mmap os fd len of
                  None \<Rightarrow> Inr (- 3, pb2\<lparr>bus_mem := Some (- 1)\<rparr>)
                | Some (addr, seg) \<Rightarrow> rbind (attach addr len seg False)
                    (\<lambda>rb. Inr (0, pb2\<lparr>bus_mem := Some addr, bus_buffer := Some rb\<rparr>)))))"

definition Listen :: "os_calls \<Rightarrow> process_bus \<Rightarrow> (int \<times> process_bus) result" where
  "Listen os pb =
     require (Inited pb) (require (bus_mem pb = None)
       (let fd = os_open os (GenerateMMapFilename pb); pb1 = pb\<lparr>bus_fd := fd\<rparr>
        in if fd < 0 then Inr (- 1, pb1)
           else let len = unat (bus_size pb); pb2 = pb1\<lparr>mmap_length := len\<rparr> in
             (case os_mmap os fd len of
                None \<Rightarrow> Inr (- 2, pb2\<lparr>bus_mem := Some (- 1)\<rparr>)
              | Some (addr, seg) \<Rightarrow> rbind (attach addr len seg True)
                  (\<lambda>rb. Inr (0, pb2\<lparr>bus_mem := Some addr, bus_buffer := Some rb\<rparr>)))))"

text \<open>A call through the null \<open>buffer_\<close> is an access outside the program's memory.\<close>

definition with_buffer :: "process_bus \<Rightarrow> (ring_buffer \<Rightarrow> 'a result) \<Rightarrow> 'a result" where
  "with_buffer pb f = (case bus_buffer pb of None \<Rightarrow> Inl MemoryFault | Some rb \<Rightarrow> f rb)"

definition bus_Write :: "process_bus \<Rightarrow> byte list option \<Rightarrow> int \<Rightarrow> (bool \<times> process_bus) result" where
  "bus_Write pb buf len =
     require (Inited pb) (require (bus_mem pb \<noteq> None)
       (with_buffer pb (\<lambda>rb. rbind (Push rb buf len) (\<lambda>(b, rb1). Inr (b, pb\<lparr>bus_buffer := Some rb1\<rparr>)))))"

text \<open>\<open>Read\<close> passes the address of an uninitialised \<open>e.len\<close>: its value is the argument \<open>uninit\<close>.\<close>

definition bus_Read :: "int \<Rightarrow> process_bus \<Rightarrow> (process_bus \<times> int \<times> int option) result" where
  "bus_Read uninit pb =
     require (Inited pb) (require (bus_mem pb \<noteq> None)
       (with_buffer pb (\<lambda>rb. rbind (Pop rb uninit)
          (\<lambda>(rb1, len, buf). Inr (pb\<lparr>bus_buffer := Some rb1\<rparr>, len, buf)))))"

definition bus_count :: "process_bus \<Rightarrow> u64 result" where
  "bus_count pb = with_buffer pb (\<lambda>rb. Inr (rb_size rb))"

datatype os_effect = Munmap int nat | Close int

text \<open>The destructor: the calls it makes, in order. Only descriptor 0 is not closed.\<close>

definition destroy :: "process_bus \<Rightarrow> os_effect list result" where
  "destroy pb =
     rbind (case bus_mem pb of None \<Rightarrow> Inr []
            | Some addr \<Rightarrow> require (mmap_length pb \<noteq> 0) (Inr [Munmap addr (mmap_length pb)]))
       (\<lambda>calls. Inr (calls @ (if bus_fd pb \<noteq> 0 then [Close (bus_fd pb)] else [])))"

section \<open>The bus as a system\<close>

text \<open>
  Every process maps the file at an address of its own. A step is one call by one of them: it
  sees the segment through its own ring buffer and leaves the updated segment behind.
\<close>

datatype bus_event = Sent "byte list" bool | Received "byte list option"

definition see :: "int \<Rightarrow> segment \<Rightarrow> ring_buffer result" where
  "see addr seg = attach addr (sizeof_OffsetData + length (seg_data seg)) seg False"

definition leave :: "ring_buffer \<Rightarrow> segment" where
  "leave rb = \<lparr>seg_offsets = offsets rb, seg_data = region rb\<rparr>"

inductive bus_step :: "segment \<Rightarrow> bus_event \<Rightarrow> segment \<Rightarrow> bool" where
  send: "see addr seg = Inr rb \<Longrightarrow> m \<noteq> [] \<Longrightarrow> Push rb (Some m) (int (length m)) = Inr (b, rb') \<Longrightarrow>
           bus_step seg (Sent m b) (leave rb')"
| receive: "see addr seg = Inr rb \<Longrightarrow> plen \<noteq> 0 \<Longrightarrow> pop_message plen rb = Inr (x, rb') \<Longrightarrow>
           bus_step seg (Received x) (leave rb')"

inductive bus_trace :: "segment \<Rightarrow> bus_event list \<Rightarrow> segment \<Rightarrow> bool" where
  start: "bus_trace seg [] seg"
| more: "bus_trace seg es seg1 \<Longrightarrow> bus_step seg1 e seg2 \<Longrightarrow> bus_trace seg (es @ [e]) seg2"

fun sent :: "bus_event list \<Rightarrow> byte list list" where
  "sent [] = []"
| "sent (Sent m True # es) = m # sent es"
| "sent (_ # es) = sent es"

fun received :: "bus_event list \<Rightarrow> byte list list" where
  "received [] = []"
| "received (Received (Some m) # es) = m # received es"
| "received (_ # es) = received es"

lemma sent_append [simp]: "sent (es @ es') = sent es @ sent es'"
  by (induction es rule: sent.induct) auto

lemma received_append [simp]: "received (es @ es') = received es @ received es'"
  by (induction es rule: received.induct) auto

definition seg_rep :: "segment \<Rightarrow> byte list list \<Rightarrow> bool" where
  "seg_rep seg ms \<longleftrightarrow> (\<exists>rb. seg = leave rb \<and> rb_rep rb ms)"

lemma ring_relocate: "leave (ring st mem f b p n) = leave (ring st' mem f b p n)"
  by (simp add: leave_def ring_def)

lemma see_ok:
  assumes "seg_rep seg ms"
  shows "\<exists>rb. see addr seg = Inr rb \<and> rb_rep rb ms"
proof -
  from assms obtain st mem f b p where "seg = leave (ring st mem f b p (of_nat (length ms)))"
      and ok: "region_ok mem" "rb_layout mem f b p ms" "\<forall>m\<in>set ms. m \<noteq> [] \<and> length m < length mem"
    by (auto simp: seg_rep_def rb_rep_def)
  then have "see addr seg = Inr (ring (addr + 32) mem f b p (of_nat (length ms)))"
    using RingBuffer_attach [OF ok(1) refl, of "addr + 32" f b p "of_nat (length ms)"]
    by (simp add: see_def attach_def leave_def sizeof_OffsetData_def ring_def add.assoc)
  with ok show ?thesis by (simp add: rb_repI)
qed

lemma see_rep: "seg_rep seg ms \<Longrightarrow> see addr seg = Inr rb \<Longrightarrow> rb_rep rb ms"
  using see_ok [of seg ms addr] by simp

lemma seg_repI: "rb_rep rb ms \<Longrightarrow> seg_rep (leave rb) ms"
  by (auto simp: seg_rep_def)

lemma bus_step_rep:
  assumes "bus_step seg e seg'" "seg_rep seg ms"
  shows "\<exists>ms'. seg_rep seg' ms' \<and> ms @ sent [e] = received [e] @ ms'"
  using assms(1)
proof cases
  case (send addr rb m b rb')
  have "rb_rep rb' (if b then ms @ [m] else ms)"
    using Push_rep [OF see_rep [OF assms(2) send(3)], of m] send by (auto simp: rb_valid_def)
  then show ?thesis
    using send seg_repI by (intro exI [of _ "if b then ms @ [m] else ms"]) auto
next
  case (receive addr rb plen x rb')
  note rep = see_rep [OF assms(2) receive(3)]
  show ?thesis
  proof (cases ms)
    case Nil
    with rep receive show ?thesis using pop_message_empty [of rb plen] seg_repI by auto
  next
    case (Cons m ms')
    with rep receive show ?thesis using pop_message_rep [of rb m ms' plen] seg_repI by fastforce
  qed
qed

lemma bus_trace_rep:
  "bus_trace seg es seg' \<Longrightarrow> seg_rep seg ms \<Longrightarrow> \<exists>ms'. seg_rep seg' ms' \<and> ms @ sent es = received es @ ms'"
proof (induction rule: bus_trace.induct)
  case (start seg)
  then show ?case by auto
next
  case (more seg es seg1 e seg2)
  then obtain ms1 where ms1: "seg_rep seg1 ms1" "ms @ sent es = received es @ ms1" by auto
  from bus_step_rep [OF more(2) ms1(1)] obtain ms2 where
    "seg_rep seg2 ms2" "ms1 @ sent [e] = received [e] @ ms2" by auto
  with ms1(2) show ?case
    by (intro exI [of _ ms2]) (metis append.assoc received_append sent_append)
qed

section \<open>Properties\<close>

text \<open>What \<open>mmap\<close> promises: a mapping of the length asked for.\<close>

definition mmap_law :: "os_calls \<Rightarrow> bool" where
  "mmap_law os \<longleftrightarrow> (\<forall>fd len addr seg. os_mmap os fd len = Some (addr, seg) \<longrightarrow>
     sizeof_OffsetData + length (seg_data seg) = len)"

lemma Listen_ok:
  assumes "Listen os pb = Inr (0, pb')" "mmap_law os" "unat (bus_size pb) \<le> 2 ^ 31"
  shows "\<exists>rb. bus_buffer pb' = Some rb \<and> rb_rep rb []"
proof -
  from assms(1) obtain addr seg rb where
    mmap: "os_mmap os (os_open os (GenerateMMapFilename pb)) (unat (bus_size pb)) = Some (addr, seg)"
    and rb: "attach addr (unat (bus_size pb)) seg True = Inr rb" "bus_buffer pb' = Some rb"
    by (auto simp: Listen_def Let_def result_simps split: if_splits option.splits)
  have len: "unat (bus_size pb) = 32 + length (seg_data seg)"
    using assms(2) mmap by (auto simp: mmap_law_def sizeof_OffsetData_def)
  with rb(1) assms(3) have ok: "region_ok (seg_data seg)"
    by (auto simp: attach_def RingBuffer_def Let_def result_simps sizeof_OffsetData_def region_ok_def)
  have "rb = ring (addr + 32) (seg_data seg) 0 0 0 0"
    using rb(1) RingBuffer_init(1) [OF ok, of "addr + 32" "seg_offsets seg"]
    by (simp add: attach_def sizeof_OffsetData_def len add.assoc)
  with rb(2) RingBuffer_init(2) [OF ok] show ?thesis by simp
qed

text \<open>
  C20. On a bus one process has created with \<open>Listen\<close>, any interleaving of calls by any number of
  processes, each with the file mapped at an address of its own, delivers the accepted messages
  in the order they were sent, each once: what was sent is what was received followed by what is
  still in the segment. (\<open>mmap_law\<close> is the documented result of \<open>mmap\<close>; the size bound keeps the
  \<open>int\<close> arithmetic of the ring buffer exact.)
\<close>

theorem bus_fifo:
  assumes "Listen os pb = Inr (0, pb')" "mmap_law os" "unat (bus_size pb) \<le> 2 ^ 31"
    and "bus_buffer pb' = Some rb" "bus_trace (leave rb) es seg"
  shows "\<exists>rest. seg_rep seg rest \<and> sent es = received es @ rest"
proof -
  from Listen_ok [OF assms(1-3)] assms(4) have "seg_rep (leave rb) []"
    by (auto intro: seg_repI)
  from bus_trace_rep [OF assms(5) this] show ?thesis by simp
qed

definition demo_os :: os_calls where
  "demo_os = \<lparr>os_open = (\<lambda>name. 3), os_fstat = (\<lambda>fd. Some 2032),
     os_mmap = (\<lambda>fd len. if 32 \<le> len
       then Some (4096, \<lparr>seg_offsets = \<lparr>front_offset = 0, back_offset = 0, od_padding = 0, od_size = 0\<rparr>,
                         seg_data = replicate (len - 32) 0\<rparr>) else None)\<rparr>"

definition demo_bus :: process_bus where
  "demo_bus = (ProcessBus 0)\<lparr>bus_id := 7, bus_size := 2032, filepath := ''/tmp''\<rparr>"

lemma demo_listen:
  "\<exists>pb'. Listen demo_os demo_bus = Inr (0, pb') \<and> bus_buffer pb' = Some (ring 4128 (replicate 2000 0) 0 0 0 0)"
proof -
  have ok: "region_ok (replicate 2000 0)" by (rule region_ok_replicate) simp_all
  have "attach 4096 2032 \<lparr>seg_offsets = \<lparr>front_offset = 0, back_offset = 0, od_padding = 0, od_size = 0\<rparr>,
      seg_data = replicate 2000 0\<rparr> True = Inr (ring 4128 (replicate 2000 0) 0 0 0 0)"
    using RingBuffer_init(1) [OF ok, of 4128] by (simp add: attach_def sizeof_OffsetData_def)
  then show ?thesis
    by (simp add: Listen_def demo_os_def demo_bus_def ProcessBus_def Inited_def Let_def)
qed

lemma demo_send: "\<exists>seg. bus_step (leave (ring 4128 (replicate 2000 0) 0 0 0 0)) (Sent [1, 2, 3] True) seg"
proof -
  let ?rb = "ring 4128 (replicate 2000 0) 0 0 0 0"
  have ok: "region_ok (replicate 2000 0)" by (rule region_ok_replicate) simp_all
  have "see 4096 (leave ?rb) = Inr ?rb"
    using RingBuffer_attach [OF ok refl, of 4128 0 0 0 0]
    by (simp add: see_def attach_def leave_def sizeof_OffsetData_def)
  moreover have "Push ?rb (Some [1, 2, 3]) (int (length [1, 2, 3 :: byte])) =
      Inr (True, ring 4128 (overwrite (replicate 2000 0) 0 (frame [1, 2, 3])) 0 7 0 1)"
    using Push_ring [OF ok, of 0 "[1, 2, 3]" 0 4128 0 0] by simp
  ultimately show ?thesis using bus_step.send [of 4096 "leave ?rb" ?rb "[1, 2, 3]"] by blast
qed

lemma demo_law: "mmap_law demo_os" "unat (bus_size demo_bus) \<le> 2 ^ 31"
  by (auto simp: mmap_law_def demo_os_def demo_bus_def sizeof_OffsetData_def split: if_splits)

theorem bus_fifo_witness:
  "\<exists>seg e rest. bus_trace (leave (ring 4128 (replicate 2000 0) 0 0 0 0)) [e] seg \<and> e = Sent [1, 2, 3] True \<and>
     seg_rep seg rest \<and> sent [e] = received [e] @ rest"
proof -
  let ?rb = "ring 4128 (replicate 2000 0) 0 0 0 0"
  obtain seg where "bus_step (leave ?rb) (Sent [1, 2, 3] True) seg" using demo_send by blast
  then have tr: "bus_trace (leave ?rb) [Sent [1, 2, 3] True] seg"
    using bus_trace.more [OF bus_trace.start] by fastforce
  obtain pb' where "Listen demo_os demo_bus = Inr (0, pb')" "bus_buffer pb' = Some ?rb"
    using demo_listen by blast
  from bus_fifo [OF this(1) demo_law this(2) tr] tr show ?thesis by blast
qed

text \<open>Decimal numerals are injective, so file names of different buses differ.\<close>

fun decimal_value :: "string \<Rightarrow> nat" where
  "decimal_value ds = foldl (\<lambda>n c. 10 * n + (of_char c - 48)) 0 ds"

lemma decimal_value_decimal: "decimal_value (decimal n) = n"
proof (induction n rule: decimal.induct)
  case (1 n)
  have digit: "of_char (char_of (48 + d) :: char) - 48 = d" if "d < 10" for d :: nat
    using that by simp
  show ?case
  proof (cases "n < 10")
    case True
    then show ?thesis by (subst decimal.simps) (simp add: digit)
  next
    case False
    then show ?thesis using 1 digit [of "n mod 10"] by (subst decimal.simps) simp
  qed
qed

lemma decimal_inject [simp]: "decimal n = decimal n' \<longleftrightarrow> n = n'"
  by (metis decimal_value_decimal)

text \<open>
  Buses configured with the same directory and different ids map different files:
  \<open>GenerateMMapFilename\<close> is injective in the bus id.
\<close>

theorem mmap_filename_injective:
  assumes "filepath pb = filepath pb'" and "GenerateMMapFilename pb = GenerateMMapFilename pb'"
  shows "bus_id pb = bus_id pb'"
  using assms by (simp add: GenerateMMapFilename_def word_unat_eq_iff)

theorem mmap_filename_injective_witness:
  "GenerateMMapFilename demo_bus \<noteq> GenerateMMapFilename (demo_bus\<lparr>bus_id := 70\<rparr>)"
proof
  assume eq: "GenerateMMapFilename demo_bus = GenerateMMapFilename (demo_bus\<lparr>bus_id := 70\<rparr>)"
  have "filepath demo_bus = filepath (demo_bus\<lparr>bus_id := 70\<rparr>)" by simp
  from mmap_filename_injective [OF this eq] show False by (simp add: demo_bus_def)
qed

text \<open>
  A failed mapping is not recorded as such: after \<open>Connect\<close> has returned -3, \<open>mem_\<close> holds
  \<open>MAP_FAILED\<close>, which the guards of \<open>Write\<close> and \<open>Read\<close> take for a mapping, so both go through the
  null buffer; a second \<open>Connect\<close> aborts on its own guard, and the destructor unmaps \<open>MAP_FAILED\<close>.
\<close>

theorem Connect_failed_mapping:
  assumes "Connect os pb = Inr (- 3, pb')" and "bus_buffer pb = None"
  shows "bus_Write pb' buf len = Inl MemoryFault \<and> bus_Read uninit pb' = Inl MemoryFault \<and>
    Connect os' pb' = Inl AssertionFailed \<and>
    (mmap_length pb' \<noteq> 0 \<longrightarrow> (\<exists>rest. destroy pb' = Inr (Munmap (- 1) (mmap_length pb') # rest)))"
proof -
  from assms have "Inited pb'" "bus_mem pb' = Some (- 1)" "bus_buffer pb' = None"
    by (auto simp: Connect_def Let_def result_simps Inited_def split: if_splits option.splits)
  then show ?thesis
    by (simp add: bus_Write_def bus_Read_def with_buffer_def Connect_def destroy_def)
qed

theorem Connect_failed_mapping_witness:
  "\<exists>pb'. Connect (demo_os\<lparr>os_mmap := \<lambda>fd len. None\<rparr>) demo_bus = Inr (- 3, pb') \<and>
     bus_Write pb' (Some [1]) 1 = Inl MemoryFault"
proof -
  obtain pb' where c: "Connect (demo_os\<lparr>os_mmap := \<lambda>fd len. None\<rparr>) demo_bus = Inr (- 3, pb')"
    by (simp add: Connect_def demo_os_def demo_bus_def ProcessBus_def Inited_def Let_def)
  have "bus_buffer demo_bus = None" by (simp add: demo_bus_def ProcessBus_def)
  from Connect_failed_mapping [OF c this] c show ?thesis by blast
qed

end
