(* ===== verification/Pb_Types.thy ===== *)
theory Pb_Types
  imports Prelude
begin

text \<open>
  Data model of the compact protobuf library, \<open>pb_parser/include/compact_protobuf.h\<close>.

  Pointers are 64-bit addresses and wrap as they do on the machine. The input of a parse is a
  \<open>memory\<close>: a block of bytes at a base address. A \<open>slice\<close> is a pair of addresses; nothing says
  that it lies inside the block, so every byte is read through \<open>mem_load\<close>, which fails outside it.

  The reflection API of Google's library (\<open>Descriptor\<close>, \<open>FieldDescriptor\<close>) is not part of the
  repository. A field descriptor is the record of what its accessors return, a message descriptor
  is a number, and the lookups are fields of the environment \<open>pb_env\<close>, an argument of every
  definition that uses them; so are the conversions between \<open>float\<close> and \<open>double\<close> (on bit
  patterns) and the indeterminate contents of a new \<open>Value\<close>.
\<close>

section \<open>Memory\<close>

record memory =
  mem_base :: u64
  mem_bytes :: "byte list"

definition mem_load :: "memory \<Rightarrow> u64 \<Rightarrow> byte result" where
  "mem_load mem p =
     (let i = unat (p - mem_base mem)
      in if i < length (mem_bytes mem) then Inr (mem_bytes mem ! i) else Inl MemoryFault)"

text \<open>The \<open>n\<close> bytes from an address on, as \<open>memcpy\<close> reads them.\<close>

definition mem_load_n :: "memory \<Rightarrow> u64 \<Rightarrow> nat \<Rightarrow> byte list result" where
  "mem_load_n mem p n =
     (if n = 0 then Inr []
      else let i = unat (p - mem_base mem)
           in if i + n \<le> length (mem_bytes mem) then Inr (take n (drop i (mem_bytes mem))) else Inl MemoryFault)"

record slice =
  s_start :: u64
  s_end :: u64

text \<open>The slice of a whole block, as \<open>FromString\<close> makes it.\<close>

definition whole :: "memory \<Rightarrow> slice" where
  "whole mem = \<lparr>s_start = mem_base mem, s_end = mem_base mem + of_nat (length (mem_bytes mem))\<rparr>"

text \<open>
  Addresses of a block that does not reach the end of the address space, by index.
\<close>

definition mem_ok :: "memory \<Rightarrow> bool" where
  "mem_ok mem \<longleftrightarrow> unat (mem_base mem) + length (mem_bytes mem) < 2 ^ 64"

definition addr :: "memory \<Rightarrow> nat \<Rightarrow> u64" where
  "addr mem i = mem_base mem + of_nat i"

lemma addr_add [simp]: "addr mem i + of_nat k = addr mem (i + k)" "addr mem i + 1 = addr mem (Suc i)"
  "addr mem i + numeral q = addr mem (i + numeral q)"
  by (simp_all add: addr_def)

lemma addr_minus_base: "i < 2 ^ 64 \<Longrightarrow> unat (addr mem i - mem_base mem) = i"
  by (simp add: addr_def unat_of_nat_small)

lemma unat_addr: "mem_ok mem \<Longrightarrow> i \<le> length (mem_bytes mem) \<Longrightarrow> unat (addr mem i) = unat (mem_base mem) + i"
  by (simp add: mem_ok_def addr_def unat_word_ariths unat_of_nat_small)

lemma addr_less: "mem_ok mem \<Longrightarrow> i \<le> length (mem_bytes mem) \<Longrightarrow> j \<le> length (mem_bytes mem) \<Longrightarrow>
   addr mem i < addr mem j \<longleftrightarrow> i < j"
  by (simp add: word_less_nat_alt unat_addr)

lemma addr_le: "mem_ok mem \<Longrightarrow> i \<le> length (mem_bytes mem) \<Longrightarrow> j \<le> length (mem_bytes mem) \<Longrightarrow>
   addr mem i \<le> addr mem j \<longleftrightarrow> i \<le> j"
  by (simp add: word_le_nat_alt unat_addr)

lemma mem_load_addr: "mem_ok mem \<Longrightarrow> i < length (mem_bytes mem) \<Longrightarrow> mem_load mem (addr mem i) = Inr (mem_bytes mem ! i)"
  by (simp add: mem_load_def addr_minus_base mem_ok_def)

lemma mem_load_n_addr: "mem_ok mem \<Longrightarrow> i + n \<le> length (mem_bytes mem) \<Longrightarrow>
   mem_load_n mem (addr mem i) n = Inr (between (mem_bytes mem) i (i + n))"
  by (simp add: mem_load_n_def Let_def addr_minus_base mem_ok_def between_def)

lemmas addr_simps = addr_less addr_le mem_load_addr mem_load_n_addr

section \<open>Descriptors\<close>

datatype field_type =
    TYPE_DOUBLE | TYPE_FLOAT | TYPE_INT64 | TYPE_UINT64 | TYPE_INT32 | TYPE_FIXED64
  | TYPE_FIXED32 | TYPE_BOOL | TYPE_STRING | TYPE_GROUP | TYPE_MESSAGE | TYPE_BYTES
  | TYPE_UINT32 | TYPE_ENUM | TYPE_SFIXED32 | TYPE_SFIXED64 | TYPE_SINT32 | TYPE_SINT64

datatype cpp_type =
    CPPTYPE_INT32 | CPPTYPE_INT64 | CPPTYPE_UINT32 | CPPTYPE_UINT64 | CPPTYPE_DOUBLE
  | CPPTYPE_FLOAT | CPPTYPE_BOOL | CPPTYPE_ENUM | CPPTYPE_STRING | CPPTYPE_MESSAGE

datatype field_label = LABEL_OPTIONAL | LABEL_REQUIRED | LABEL_REPEATED

record field_descriptor =
  fd_number :: int
  fd_type :: field_type
  fd_cpp_type :: cpp_type
  fd_label :: field_label
  fd_packed :: bool
  fd_message_type :: nat
  fd_default_integer :: int
  fd_default_real :: u64
  fd_default_string :: "byte list"

definition is_repeated :: "field_descriptor \<Rightarrow> bool" where
  "is_repeated fd \<longleftrightarrow> fd_label fd = LABEL_REPEATED"

definition is_required :: "field_descriptor \<Rightarrow> bool" where
  "is_required fd \<longleftrightarrow> fd_label fd = LABEL_REQUIRED"

record pb_env =
  FindFieldByNumber :: "nat \<Rightarrow> int \<Rightarrow> field_descriptor option"
  FindFieldByName :: "nat \<Rightarrow> string \<Rightarrow> field_descriptor option"
  descriptor_fields :: "nat \<Rightarrow> field_descriptor list"
  double_to_float :: "u64 \<Rightarrow> u32"
  float_to_double :: "u32 \<Rightarrow> u64"
  indeterminate :: u64

section \<open>Values, fields and messages\<close>

text \<open>\<open>static_cast\<close> to the enumeration keeps values that name no enumerator: \<open>kOther\<close>.\<close>

datatype wire_type = kVarint | k64Bits | kLengthDelimited | k32Bits | kOther nat

definition wire_type_of :: "nat \<Rightarrow> wire_type" where
  "wire_type_of n =
     (if n = 0 then kVarint else if n = 1 then k64Bits else if n = 2 then kLengthDelimited
      else if n = 5 then k32Bits else kOther n)"

fun wire_type_number :: "wire_type \<Rightarrow> nat" where
  "wire_type_number kVarint = 0"
| "wire_type_number k64Bits = 1"
| "wire_type_number kLengthDelimited = 2"
| "wire_type_number k32Bits = 5"
| "wire_type_number (kOther n) = n"

text \<open>
  \<open>decoded.primitive\<close> is a union of 8 bytes: \<open>varint\<close>, \<open>d\<close> and \<open>len\<close> are the whole word, \<open>f\<close> its
  low half. \<open>MessagePtr\<close> may be null. A \<open>FieldMap\<close> is an ordered map: an association list kept
  sorted by field id.
\<close>

datatype pb_value = Value (encoded: slice) (primitive: u64) (embedded: "message option") (str: "byte list")
and pb_field = Field (decoded: bool) (unknown: bool) (field_id: int) (field_wire_type: wire_type)
    (descriptor: "field_descriptor option") (vals: "pb_value list")
and message = Message (message_descriptor: nat) (msg_fields: "(int \<times> pb_field) list")
    (unknown_fields: "(int \<times> pb_field) list option")

type_synonym field_map = "(int \<times> pb_field) list"

definition f_u :: "u64 \<Rightarrow> u32" where
  "f_u w = ucast w"

definition set_f_u :: "u32 \<Rightarrow> u64 \<Rightarrow> u64" where
  "set_f_u x w = push_bit 32 (drop_bit 32 w) + ucast x"

definition null_slice :: slice where
  "null_slice = \<lparr>s_start = 0, s_end = 0\<rparr>"

text \<open>\<open>new Value\<close>: the union keeps whatever the memory held.\<close>

definition new_Value :: "pb_env \<Rightarrow> pb_value" where
  "new_Value env = Value null_slice (indeterminate env) None []"

fun set_encoded :: "slice \<Rightarrow> pb_value \<Rightarrow> pb_value" where
  "set_encoded s (Value e p m x) = Value s p m x"

fun set_primitive :: "u64 \<Rightarrow> pb_value \<Rightarrow> pb_value" where
  "set_primitive w (Value e p m x) = Value e w m x"

fun set_embedded :: "message option \<Rightarrow> pb_value \<Rightarrow> pb_value" where
  "set_embedded m (Value e p _ x) = Value e p m x"

fun set_str :: "byte list \<Rightarrow> pb_value \<Rightarrow> pb_value" where
  "set_str x (Value e p m _) = Value e p m x"

fun set_vals :: "pb_value list \<Rightarrow> pb_field \<Rightarrow> pb_field" where
  "set_vals vs (Field d u i w fd _) = Field d u i w fd vs"

fun set_decoded :: "bool \<Rightarrow> pb_field \<Rightarrow> pb_field" where
  "set_decoded b (Field d u i w fd vs) = Field b u i w fd vs"

lemma set_simps [simp]:
  "encoded (set_encoded s v) = s" "primitive (set_encoded s v) = primitive v"
  "embedded (set_encoded s v) = embedded v" "str (set_encoded s v) = str v"
  "encoded (set_primitive w v) = encoded v" "primitive (set_primitive w v) = w"
  "embedded (set_primitive w v) = embedded v" "str (set_primitive w v) = str v"
  "encoded (set_embedded m v) = encoded v" "primitive (set_embedded m v) = primitive v"
  "embedded (set_embedded m v) = m" "str (set_embedded m v) = str v"
  "encoded (set_str x v) = encoded v" "primitive (set_str x v) = primitive v"
  "embedded (set_str x v) = embedded v" "str (set_str x v) = x"
  by (cases v; simp)+

lemma field_simps_set [simp]:
  "decoded (set_vals vs f) = decoded f" "unknown (set_vals vs f) = unknown f"
  "field_id (set_vals vs f) = field_id f" "field_wire_type (set_vals vs f) = field_wire_type f"
  "descriptor (set_vals vs f) = descriptor f" "vals (set_vals vs f) = vs"
  "decoded (set_decoded b f) = b" "unknown (set_decoded b f) = unknown f"
  "field_id (set_decoded b f) = field_id f" "field_wire_type (set_decoded b f) = field_wire_type f"
  "descriptor (set_decoded b f) = descriptor f" "vals (set_decoded b f) = vals f"
  by (cases f; simp)+

section \<open>Field maps\<close>

fun fm_find :: "field_map \<Rightarrow> int \<Rightarrow> pb_field option" where
  "fm_find [] k = None"
| "fm_find ((i, f) # fm) k = (if i = k then Some f else fm_find fm k)"

text \<open>\<open>insert\<close> of a key that is not there, and assignment through an iterator.\<close>

fun fm_put :: "int \<Rightarrow> pb_field \<Rightarrow> field_map \<Rightarrow> field_map" where
  "fm_put k f [] = [(k, f)]"
| "fm_put k f ((i, g) # fm) =
     (if k < i then (k, f) # (i, g) # fm else if k = i then (k, f) # fm else (i, g) # fm_put k f fm)"

fun fm_erase :: "int \<Rightarrow> field_map \<Rightarrow> field_map" where
  "fm_erase k [] = []"
| "fm_erase k ((i, g) # fm) = (if i = k then fm else (i, g) # fm_erase k fm)"

definition fm_ok :: "field_map \<Rightarrow> bool" where
  "fm_ok fm \<longleftrightarrow> sorted (map fst fm) \<and> distinct (map fst fm)"

lemma fm_keys_put: "fst ` set (fm_put k f fm) = insert k (fst ` set fm)"
  by (induction k f fm rule: fm_put.induct) (simp_all add: insert_commute)

lemma fm_ok_Nil [simp]: "fm_ok []"
  by (simp add: fm_ok_def)

lemma fm_ok_Cons: "fm_ok ((i, f) # fm) \<longleftrightarrow> (\<forall>k\<in>fst ` set fm. i < k) \<and> fm_ok fm"
  by (auto simp: fm_ok_def less_le)

lemma fm_put_ok: "fm_ok fm \<Longrightarrow> fm_ok (fm_put k f fm)"
proof (induction fm)
  case Nil
  then show ?case by (simp add: fm_ok_Cons)
next
  case (Cons x fm)
  obtain i g where x: "x = (i, g)" by (cases x)
  show ?case
  proof (cases "k < i")
    case True
    with Cons.prems x show ?thesis by (auto simp: fm_ok_Cons)
  next
    case False
    show ?thesis
    proof (cases "k = i")
      case True
      with Cons.prems x show ?thesis by (auto simp: fm_ok_Cons)
    next
      case ne: False
      with False have "i < k" by simp
      with Cons x False ne show ?thesis by (simp add: fm_ok_Cons fm_keys_put)
    qed
  qed
qed

lemma fm_erase_ok: "fm_ok fm \<Longrightarrow> fm_ok (fm_erase k fm)"
proof (induction fm)
  case Nil
  then show ?case by simp
next
  case (Cons x fm)
  obtain i g where x: "x = (i, g)" by (cases x)
  have "fst ` set (fm_erase k fm) \<subseteq> fst ` set fm"
    by (induction k fm rule: fm_erase.induct) (simp_all add: subset_insertI subset_insertI2)
  moreover from Cons.prems x have "\<forall>j\<in>fst ` set fm. i < j" and ok: "fm_ok fm" by (auto simp: fm_ok_Cons)
  ultimately have "\<forall>j\<in>fst ` set (fm_erase k fm). i < j" by blast
  with Cons.IH ok show ?case by (simp add: x fm_ok_Cons)
qed

lemma fm_find_None: "fm_find fm k = None \<longleftrightarrow> k \<notin> fst ` set fm"
  by (induction fm) (auto split: if_splits)

lemma fm_find_Some_in: "fm_find fm k = Some f \<Longrightarrow> (k, f) \<in> set fm"
  by (induction fm) (auto split: if_splits)

lemma fm_find_in: "fm_ok fm \<Longrightarrow> (k, f) \<in> set fm \<Longrightarrow> fm_find fm k = Some f"
proof (induction fm)
  case (Cons x fm)
  obtain i g where x: "x = (i, g)" by (cases x)
  from Cons.prems x have lt: "\<forall>j\<in>fst ` set fm. i < j" and ok: "fm_ok fm" by (auto simp: fm_ok_Cons)
  have "i = k \<Longrightarrow> (k, f) \<notin> set fm" using lt by force
  with Cons.IH [OF ok] Cons.prems(2) x show ?case by auto
qed simp

lemma fm_find_put: "fm_ok fm \<Longrightarrow> fm_find (fm_put k f fm) j = (if j = k then Some f else fm_find fm j)"
proof (induction fm)
  case Nil
  then show ?case by simp
next
  case (Cons x fm)
  obtain i g where x: "x = (i, g)" by (cases x)
  from Cons.prems x have "\<forall>k\<in>fst ` set fm. i < k" "fm_ok fm" by (auto simp: fm_ok_Cons)
  then have "k < i \<Longrightarrow> fm_find fm k = None" by (force simp: fm_find_None)
  with Cons.IH \<open>fm_ok fm\<close> show ?case by (auto simp: x)
qed

lemma fm_find_erase: "fm_ok fm \<Longrightarrow> fm_find (fm_erase k fm) j = (if j = k then None else fm_find fm j)"
proof (induction fm)
  case Nil
  then show ?case by simp
next
  case (Cons x fm)
  obtain i g where x: "x = (i, g)" by (cases x)
  from Cons.prems x have "\<forall>k\<in>fst ` set fm. i < k" "fm_ok fm" by (auto simp: fm_ok_Cons)
  then have "fm_find fm i = None" by (force simp: fm_find_None)
  with Cons.IH \<open>fm_ok fm\<close> show ?case by (auto simp: x)
qed

lemmas field_map_laws = fm_put_ok fm_erase_ok fm_find_put fm_find_erase

end
