(* ===== verification/Pb_Parser.thy ===== *)
theory Pb_Parser
  imports Pb_Types
begin

unbundle bit_operations_syntax

text \<open>
  The wire-format parser, \<open>pb_parser/src/protobuf_parser.cc\<close>: varints, length-delimited blocks and
  fixed-width values, each in an eager form that stores the value and a lazy form that stores the
  slice of the input it occupies. Every function takes the memory it reads from.
\<close>

section \<open>State\<close>

datatype parser_status = kOk | kUnknownError | kInvalidWireType | kNeedsMore

record parser_state =
  ps_slice :: slice
  ps_pos :: u64
  ps_field_id :: int
  ps_wire_type :: wire_type
  ps_encoded :: slice
  ps_primitive :: u64
  ps_str :: "byte list"

text \<open>A new \<open>ParserState\<close> over a slice; its other members are indeterminate.\<close>

definition ParserState :: "pb_env \<Rightarrow> slice \<Rightarrow> parser_state" where
  "ParserState env s =
     \<lparr>ps_slice = s, ps_pos = 0, ps_field_id = 0, ps_wire_type = kVarint, ps_encoded = null_slice,
      ps_primitive = indeterminate env, ps_str = []\<rparr>"

definition ps_cur :: "parser_state \<Rightarrow> u64" where
  "ps_cur st = s_start (ps_slice st) + ps_pos st"

section \<open>Operations\<close>

definition GetFieldId :: "u64 \<Rightarrow> int" where
  "GetFieldId val = to_int32 (uint (drop_bit 3 val))"

definition GetWireType :: "u64 \<Rightarrow> wire_type" where
  "GetWireType val = wire_type_of (unat (val AND 7))"

definition More :: "byte \<Rightarrow> bool" where
  "More b \<longleftrightarrow> b AND 0x80 \<noteq> 0"

definition GetValue :: "byte \<Rightarrow> u64" where
  "GetValue b = ucast (b AND 0x7f)"

function varint_loop :: "memory \<Rightarrow> u64 \<Rightarrow> u64 \<Rightarrow> nat \<Rightarrow> u64 \<Rightarrow> (nat \<times> u64) result" where
  "varint_loop mem e cur len val =
     (if cur < e \<and> len \<le> 10
      then rbind (mem_load mem cur) (\<lambda>b.
        let val1 = val OR push_bit ((len - 1) * 7) (GetValue b)
        in if \<not> More b then Inr (len, val1) else varint_loop mem e (cur + 1) (len + 1) val1)
      else Inr (len, val))"
  by pat_completeness auto
termination
  by (relation "measure (\<lambda>(mem, e, cur, len, val). 11 - len)") auto

declare varint_loop.simps [simp del]

definition ParseVarintInternal :: "memory \<Rightarrow> parser_state \<Rightarrow> (nat \<times> parser_state) result" where
  "ParseVarintInternal mem st =
     rbind (varint_loop mem (s_end (ps_slice st)) (ps_cur st) 1 0)
       (\<lambda>(len, val). Inr (len, st\<lparr>ps_primitive := val\<rparr>))"

definition ParseVarint :: "memory \<Rightarrow> parser_state \<Rightarrow> (parser_status \<times> parser_state) result" where
  "ParseVarint mem st =
     rbind (ParseVarintInternal mem st) (\<lambda>(len, st1). Inr (kOk, st1\<lparr>ps_pos := ps_pos st1 + of_nat len\<rparr>))"

definition ParseTag :: "memory \<Rightarrow> parser_state \<Rightarrow> (parser_status \<times> parser_state) result" where
  "ParseTag mem st =
     rbind (ParseVarint mem st) (\<lambda>(status, st1).
       if status \<noteq> kOk then Inr (status, st1)
       else let tag = ps_primitive st1;
                st2 = st1\<lparr>ps_field_id := GetFieldId tag, ps_wire_type := GetWireType tag\<rparr>
            in if ps_wire_type st2 \<noteq> kVarint \<and> ps_wire_type st2 \<noteq> k64Bits \<and>
                  ps_wire_type st2 \<noteq> kLengthDelimited \<and> ps_wire_type st2 \<noteq> k32Bits
               then Inr (kInvalidWireType, st2) else Inr (kOk, st2))"

function varint_lazy_loop :: "memory \<Rightarrow> u64 \<Rightarrow> u64 \<Rightarrow> nat \<Rightarrow> nat result" where
  "varint_lazy_loop mem e cur len =
     (if cur < e \<and> len < 10
      then rbind (mem_load mem cur) (\<lambda>b.
        if \<not> More b then Inr len else varint_lazy_loop mem e (cur + 1) (len + 1))
      else Inr len)"
  by pat_completeness auto
termination
  by (relation "measure (\<lambda>(mem, e, cur, len). 10 - len)") auto

declare varint_lazy_loop.simps [simp del]

definition ParseVarintLazy :: "memory \<Rightarrow> parser_state \<Rightarrow> (parser_status \<times> parser_state) result" where
  "ParseVarintLazy mem st =
     rbind (varint_lazy_loop mem (s_end (ps_slice st)) (ps_cur st) 1) (\<lambda>len.
       let st1 = st\<lparr>ps_pos := ps_pos st + of_nat len\<rparr>
       in Inr (kOk, st1\<lparr>ps_encoded := \<lparr>s_start = ps_cur st, s_end = ps_cur st1\<rparr>\<rparr>))"

text \<open>The string is read at \<open>v.encoded.start + pos\<close>, as the code has it.\<close>

definition ParseLengthDelimited :: "memory \<Rightarrow> parser_state \<Rightarrow> (parser_status \<times> parser_state) result" where
  "ParseLengthDelimited mem st =
     rbind (ParseVarint mem st) (\<lambda>(status, st1).
       if status \<noteq> kOk then Inr (status, st1)
       else let len = ps_primitive st1
            in if ps_cur st1 + len > s_end (ps_slice st1) then Inr (kNeedsMore, st1)
               else rbind (mem_load_n mem (s_start (ps_encoded st1) + ps_pos st1) (unat len))
                 (\<lambda>bs. Inr (kOk, st1\<lparr>ps_str := bs, ps_pos := ps_pos st1 + len\<rparr>)))"

definition ParseLengthDelimitedLazy :: "memory \<Rightarrow> parser_state \<Rightarrow> (parser_status \<times> parser_state) result" where
  "ParseLengthDelimitedLazy mem st =
     rbind (ParseVarintInternal mem st) (\<lambda>(len, st1).
       let part_len = ps_primitive st1; stop = ps_cur st1 + of_nat len + part_len
       in if stop > s_end (ps_slice st1) then Inr (kNeedsMore, st1)
          else Inr (kOk, st1\<lparr>ps_encoded := \<lparr>s_start = ps_cur st1, s_end = stop\<rparr>,
                             ps_pos := ps_pos st1 + (of_nat len + part_len),
                             ps_primitive := of_nat len\<rparr>))"

definition le_word :: "byte list \<Rightarrow> 'a::len word" where
  "le_word bs = of_nat (le_val bs)"

definition Parse64Bits :: "memory \<Rightarrow> parser_state \<Rightarrow> (parser_status \<times> parser_state) result" where
  "Parse64Bits mem st =
     (if ps_cur st + 8 > s_end (ps_slice st) then Inr (kNeedsMore, st)
      else rbind (mem_load_n mem (ps_cur st) 8)
        (\<lambda>bs. Inr (kOk, st\<lparr>ps_primitive := le_word bs, ps_pos := ps_pos st + 8\<rparr>)))"

definition Parse64BitsLazy :: "memory \<Rightarrow> parser_state \<Rightarrow> (parser_status \<times> parser_state) result" where
  "Parse64BitsLazy mem st =
     (if ps_cur st + 8 > s_end (ps_slice st) then Inr (kNeedsMore, st)
      else Inr (kOk, st\<lparr>ps_encoded := \<lparr>s_start = ps_cur st, s_end = ps_cur st + 8\<rparr>, ps_pos := ps_pos st + 8\<rparr>))"

definition Parse32Bits :: "memory \<Rightarrow> parser_state \<Rightarrow> (parser_status \<times> parser_state) result" where
  "Parse32Bits mem st =
     (if ps_cur st + 4 > s_end (ps_slice st) then Inr (kNeedsMore, st)
      else rbind (mem_load_n mem (ps_cur st) 4)
        (\<lambda>bs. Inr (kOk, st\<lparr>ps_primitive := set_f_u (le_word bs) (ps_primitive st), ps_pos := ps_pos st + 4\<rparr>)))"

definition Parse32BitsLazy :: "memory \<Rightarrow> parser_state \<Rightarrow> (parser_status \<times> parser_state) result" where
  "Parse32BitsLazy mem st =
     (if ps_cur st + 4 > s_end (ps_slice st) then Inr (kNeedsMore, st)
      else Inr (kOk, st\<lparr>ps_encoded := \<lparr>s_start = ps_cur st, s_end = ps_cur st + 4\<rparr>, ps_pos := ps_pos st + 4\<rparr>))"

section \<open>Varints\<close>

text \<open>
  The base-128 varint of a number, the reference the parser and the encoder are compared with:
  seven bits per byte, least significant first, the top bit set on all but the last byte.
\<close>

fun varint :: "nat \<Rightarrow> byte list" where
  "varint n = (if n < 128 then [of_nat n] else of_nat (n mod 128 + 128) # varint (n div 128))"

declare varint.simps [simp del]

lemma length_varint: "n < 128 ^ Suc k \<Longrightarrow> length (varint n) \<le> Suc k"
proof (induction k arbitrary: n)
  case 0
  then show ?case by (simp add: varint.simps)
next
  case (Suc k)
  show ?case
  proof (cases "n < 128")
    case True
    then show ?thesis by (simp add: varint.simps)
  next
    case False
    have "n div 128 < 128 ^ Suc k" using Suc.prems by (simp add: less_mult_imp_div_less mult.commute)
    from Suc.IH [OF this] False show ?thesis by (subst varint.simps) simp
  qed
qed

lemma length_varint_u64: "length (varint (unat (v :: u64))) \<le> 10"
proof -
  have "unat v < 128 ^ Suc 9" using unat_less_exp [of v] by simp
  from length_varint [OF this] show ?thesis by simp
qed

lemma varint_neq_Nil [simp]: "varint n \<noteq> []"
  by (subst varint.simps) simp

lemma and_7f: "x AND 0x7f = take_bit 7 x" for x :: "'a::len word"
proof -
  have "(0x7f :: 'a word) = mask 7" by (simp add: mask_eq_exp_minus_1)
  then show ?thesis by (simp add: take_bit_eq_mask)
qed

lemma unat_GetValue: "unat (GetValue b) = unat b mod 128"
proof -
  have "unat b mod 128 < 2 ^ 64" by (rule less_le_trans [of _ 128]) simp_all
  then show ?thesis
    unfolding GetValue_def and_7f
    by (simp add: unsigned_ucast_eq take_bit_eq_mod unat_mod_distrib)
qed

lemma More_iff: "More b \<longleftrightarrow> 128 \<le> unat b"
proof -
  have "More b \<longleftrightarrow> bit b 7"
    using bit_iff_and_push_bit_not_eq_0 [of b 7] by (simp add: More_def)
  also have "\<dots> \<longleftrightarrow> bit (unat b) 7" by (simp add: bit_unsigned_iff)
  also have "\<dots> \<longleftrightarrow> odd (unat b div 128)" by (simp add: bit_iff_odd)
  also have "\<dots> \<longleftrightarrow> 128 \<le> unat b"
  proof -
    have "unat b div 128 < 2" by (simp add: less_mult_imp_div_less)
    then have "unat b div 128 = 0 \<or> unat b div 128 = 1" by linarith
    then show ?thesis by (metis div_eq_0_iff even_zero not_le odd_one zero_neq_numeral)
  qed
  finally show ?thesis .
qed

lemma unat_of_nat_byte: "n < 256 \<Longrightarrow> unat (of_nat n :: byte) = n"
  by (rule unat_of_nat_small) simp

lemma or_push_bit: "unat (val :: u64) < 2 ^ k \<Longrightarrow> val OR push_bit k w = val + push_bit k w"
proof -
  assume "unat val < 2 ^ k"
  then have "take_bit k (unat val) = unat val" by (simp add: take_bit_nat_eq_self)
  then have val: "take_bit k val = val" by (metis of_nat_unat ucast_id unsigned_take_bit_eq)
  have "val AND push_bit k w = 0"
    by (rule bit_eqI) (metis bit_and_iff bit_push_bit_iff bit_take_bit_iff val not_le bit_0_eq bot_apply bot_bool_def)
  then show ?thesis using word_plus_and_or [of val "push_bit k w"] by simp
qed

lemma varint_step_val:
  assumes "unat (val :: u64) < 128 ^ k" "unat val + 128 ^ k * m < 2 ^ 64" "unat w = m"
  shows "val OR push_bit (k * 7) w = of_nat (unat val + 128 ^ k * m)"
proof -
  have p: "(2 :: nat) ^ (k * 7) = 128 ^ k" by (simp add: power_mult mult.commute [of k])
  have "push_bit (k * 7) w = of_nat (128 ^ k * m)"
    unfolding push_bit_eq_mult p [symmetric] assms(3) [symmetric] by simp
  moreover have "val OR push_bit (k * 7) w = val + push_bit (k * 7) w"
    by (rule or_push_bit) (simp add: p assms(1))
  ultimately show ?thesis by simp
qed

lemma varint_loop_varint:
  assumes "mem_ok mem" "drop i (mem_bytes mem) = varint n @ rest" "i + length (varint n) \<le> j" "j \<le> length (mem_bytes mem)"
    and "unat val < 128 ^ k" "unat val + 128 ^ k * n < 2 ^ 64" "k + length (varint n) \<le> 10"
  shows "varint_loop mem (addr mem j) (addr mem i) (Suc k) val =
           Inr (k + length (varint n), of_nat (unat val + 128 ^ k * n))"
  using assms
proof (induction n arbitrary: i k val rule: varint.induct)
  case (1 n)
  obtain b bs where bs: "varint n = b # bs" by (cases "varint n") auto
  have i: "i < length (mem_bytes mem)" "mem_bytes mem ! i = b"
  proof -
    show "i < length (mem_bytes mem)" using 1(3,4,5) bs by simp
    then show "mem_bytes mem ! i = b" using 1(3) bs by (simp add: Cons_nth_drop_Suc [symmetric])
  qed
  have cur: "addr mem i < addr mem j" "Suc k \<le> 10"
    using 1(2-) i bs by (simp_all add: addr_less)
  show ?case
  proof (cases "n < 128")
    case True
    then have "varint n = [of_nat n]" by (simp add: varint.simps)
    with bs have b: "b = of_nat n" "bs = []" by simp_all
    then have "unat b = n" using True by (simp add: unat_of_nat_byte)
    with True have g: "\<not> More b" "unat (GetValue b) = n" by (simp_all add: More_iff unat_GetValue)
    with varint_step_val [OF 1(6,7) g(2)] cur i bs b show ?thesis
      using 1(2) by (subst varint_loop.simps) (simp add: mem_load_addr Let_def)
  next
    case False
    then have v: "varint n = of_nat (n mod 128 + 128) # varint (n div 128)" by (subst varint.simps) simp
    with bs have b: "b = of_nat (n mod 128 + 128)" "bs = varint (n div 128)" by simp_all
    have "n mod 128 + 128 < 256" by simp
    then have "unat b = n mod 128 + 128" unfolding b(1) by (rule unat_of_nat_byte)
    then have g: "More b" "unat (GetValue b) = n mod 128" by (simp_all add: More_iff unat_GetValue)
    have n: "n = n mod 128 + 128 * (n div 128)" by simp
    have split: "128 ^ k * n = 128 ^ k * (n mod 128) + 128 ^ Suc k * (n div 128)"
    proof -
      have "128 ^ k * (n mod 128) + 128 ^ Suc k * (n div 128) = 128 ^ k * (n mod 128 + 128 * (n div 128))"
        by (simp only: distrib_left power_Suc ac_simps)
      then show ?thesis by simp
    qed
    let ?val = "val OR push_bit (k * 7) (GetValue b)"
    have small: "unat val + 128 ^ k * (n mod 128) < 2 ^ 64" using 1(7) split by simp
    have uv: "unat ?val = unat val + 128 ^ k * (n mod 128)"
      unfolding varint_step_val [OF 1(6) small g(2)] by (rule unat_of_nat_small) (use small in simp)
    have "128 ^ k * (n mod 128) \<le> 128 ^ k * (127 :: nat)" by (rule mult_le_mono2) auto
    then have "unat ?val < 128 ^ Suc k" unfolding uv power_Suc using 1(6) by linarith
    moreover have "drop (Suc i) (mem_bytes mem) = varint (n div 128) @ rest"
      using 1(3) v by (metis append_Cons drop_Suc list.sel(3) tl_drop)
    moreover have "unat ?val + 128 ^ Suc k * (n div 128) < 2 ^ 64" using 1(7) split uv by simp
    ultimately have "varint_loop mem (addr mem j) (addr mem (Suc i)) (Suc (Suc k)) ?val =
        Inr (Suc k + length (varint (n div 128)), of_nat (unat ?val + 128 ^ Suc k * (n div 128)))"
      using 1(1) [OF False, of "Suc i" ?val "Suc k"] 1(2,4,5,8) v by simp
    moreover have "unat ?val + 128 ^ Suc k * (n div 128) = unat val + 128 ^ k * n"
      using split uv by simp
    ultimately have "varint_loop mem (addr mem j) (addr mem (Suc i)) (Suc (Suc k)) ?val =
        Inr (k + length (varint n), of_nat (unat val + 128 ^ k * n))"
      by (simp only:) (simp add: v)
    then show ?thesis
      using g cur i 1(2) by (subst varint_loop.simps) (simp add: mem_load_addr Let_def)
  qed
qed

lemma varint_lazy_loop_varint:
  assumes "mem_ok mem" "drop i (mem_bytes mem) = varint n @ rest" "i + length (varint n) \<le> j" "j \<le> length (mem_bytes mem)"
    and "k + length (varint n) \<le> 10"
  shows "varint_lazy_loop mem (addr mem j) (addr mem i) (Suc k) = Inr (k + length (varint n))"
  using assms
proof (induction n arbitrary: i k rule: varint.induct)
  case (1 n)
  obtain b bs where bs: "varint n = b # bs" by (cases "varint n") auto
  have i: "i < length (mem_bytes mem)" "mem_bytes mem ! i = b"
  proof -
    show "i < length (mem_bytes mem)" using 1(3,4,5) bs by simp
    then show "mem_bytes mem ! i = b" using 1(3) bs by (simp add: Cons_nth_drop_Suc [symmetric])
  qed
  have cur: "addr mem i < addr mem j" using 1(2-) i bs by (simp add: addr_less)
  show ?case
  proof (cases "n < 128")
    case True
    then have "varint n = [of_nat n]" by (simp add: varint.simps)
    with bs have b: "b = of_nat n" "bs = []" by simp_all
    with True have "\<not> More b" by (simp add: More_iff unat_of_nat_byte)
    with cur i bs b 1(2) show ?thesis
      by (subst varint_lazy_loop.simps) (simp add: mem_load_addr)
  next
    case False
    then have v: "varint n = of_nat (n mod 128 + 128) # varint (n div 128)" by (subst varint.simps) simp
    with bs have b: "b = of_nat (n mod 128 + 128)" by simp
    have "n mod 128 + 128 < 256" by simp
    then have "More b" unfolding More_iff b by (subst unat_of_nat_byte) simp_all
    moreover have "drop (Suc i) (mem_bytes mem) = varint (n div 128) @ rest"
      using 1(3) v by (metis append_Cons drop_Suc list.sel(3) tl_drop)
    with 1(1) [OF False, of "Suc i" "Suc k"] 1(2-) v
    have "varint_lazy_loop mem (addr mem j) (addr mem (Suc i)) (Suc (Suc k)) = Inr (k + length (varint n))"
      by simp
    moreover have "0 < length (varint (n div 128))" by simp
    then have "Suc k < 10" using 1(6) v by (simp del: length_greater_0_conv)
    ultimately show ?thesis using cur i 1(2)
      by (subst varint_lazy_loop.simps) (simp add: mem_load_addr)
  qed
qed

end
