(* ===== verification/Pb_Encoder.thy ===== *)
theory Pb_Encoder
  imports Pb_Parser
begin

unbundle bit_operations_syntax

text \<open>
  The encoder, \<open>pb_parser/src/protobuf_encoder.cc\<close>: a growing output buffer, varints, zigzag and
  fixed-width values, packed fields, and the encoding of a message from its field maps. Fields
  that were never decoded are copied from the slices of the input they came from.
\<close>

section \<open>The output buffer\<close>

record encoder_buffer =
  eb_bytes :: "byte list"
  eb_capacity :: nat

definition kStackBufLength :: nat where
  "kStackBufLength = 2 ^ 12"

definition EncoderBuffer :: encoder_buffer where
  "EncoderBuffer = \<lparr>eb_bytes = [], eb_capacity = kStackBufLength\<rparr>"

definition eb_size :: "encoder_buffer \<Rightarrow> nat" where
  "eb_size buf = length (eb_bytes buf)"

definition ReallocBuffer :: "encoder_buffer \<Rightarrow> encoder_buffer" where
  "ReallocBuffer buf = buf\<lparr>eb_capacity := eb_capacity buf * 2\<rparr>"

text \<open>
  \<open>Append\<close> of \<open>len\<close> bytes: at most one reallocation, then the room is asserted. The bytes
  themselves come from \<open>get\<close>, run after the assertion, as \<open>memcpy\<close> is.
\<close>

definition Append_from :: "encoder_buffer \<Rightarrow> nat \<Rightarrow> byte list result \<Rightarrow> encoder_buffer result" where
  "Append_from buf len get =
     (let buf1 = (if len + eb_size buf > eb_capacity buf then ReallocBuffer buf else buf)
      in require (len + eb_size buf1 \<le> eb_capacity buf1)
        (rbind get (\<lambda>bs. Inr (buf1\<lparr>eb_bytes := eb_bytes buf1 @ bs\<rparr>))))"

definition Append_bytes :: "encoder_buffer \<Rightarrow> byte list \<Rightarrow> encoder_buffer result" where
  "Append_bytes buf bs = Append_from buf (length bs) (Inr bs)"

definition Append_buffer :: "encoder_buffer \<Rightarrow> encoder_buffer \<Rightarrow> encoder_buffer result" where
  "Append_buffer buf other = Append_from buf (eb_size other) (Inr (eb_bytes other))"

definition Append_slice :: "memory \<Rightarrow> encoder_buffer \<Rightarrow> slice \<Rightarrow> encoder_buffer result" where
  "Append_slice mem buf s =
     require (s_end s \<ge> s_start s)
       (let len = unat (s_end s - s_start s) in Append_from buf len (mem_load_n mem (s_start s) len))"

section \<open>Scalars\<close>

definition ZigZagEncode :: "pb_value \<Rightarrow> field_type \<Rightarrow> u64 result" where
  "ZigZagEncode v type =
     (case type of
        TYPE_SINT32 \<Rightarrow> (let val_u32 = (ucast (primitive v) :: u32)
                        in Inr (ucast (push_bit 1 val_u32 XOR drop_bit 31 val_u32)))
      | TYPE_SINT64 \<Rightarrow> (let val = primitive v in Inr (push_bit 1 val XOR drop_bit 63 val))
      | _ \<Rightarrow> Inl AssertionFailed)"

text \<open>The do-while loop over the local array \<open>bytes[10]\<close>; a write past it is a fault.\<close>

function encode_varint_loop :: "u64 \<Rightarrow> nat \<Rightarrow> byte list \<Rightarrow> byte list result" where
  "encode_varint_loop val len bytes =
     (let len1 = len + 1
      in if len1 > 10 then Inl MemoryFault
         else let b = ucast (val AND 0x7f); val1 = drop_bit 7 val;
                  b1 = (if val1 \<noteq> 0 then b OR 0x80 else b); bytes1 = bytes @ [b1]
              in if len1 \<le> 10 \<and> val1 \<noteq> 0 then encode_varint_loop val1 len1 bytes1 else Inr bytes1)"
  by pat_completeness auto
termination
  by (relation "measure (\<lambda>(val, len, bytes). 10 - len)") auto

declare encode_varint_loop.simps [simp del]

definition EncodeVarint :: "u64 \<Rightarrow> encoder_buffer \<Rightarrow> encoder_buffer result" where
  "EncodeVarint val buf = rbind (encode_varint_loop val 0 []) (Append_bytes buf)"

definition EncodeVarint_value :: "pb_value \<Rightarrow> field_type \<Rightarrow> encoder_buffer \<Rightarrow> encoder_buffer result" where
  "EncodeVarint_value v type buf =
     (case type of
        TYPE_SINT32 \<Rightarrow> rbind (ZigZagEncode v type) (\<lambda>val. EncodeVarint val buf)
      | TYPE_SINT64 \<Rightarrow> rbind (ZigZagEncode v type) (\<lambda>val. EncodeVarint val buf)
      | TYPE_INT32 \<Rightarrow> EncodeVarint (primitive v) buf
      | TYPE_INT64 \<Rightarrow> EncodeVarint (primitive v) buf
      | TYPE_UINT32 \<Rightarrow> EncodeVarint (primitive v) buf
      | TYPE_UINT64 \<Rightarrow> EncodeVarint (primitive v) buf
      | TYPE_ENUM \<Rightarrow> EncodeVarint (primitive v) buf
      | TYPE_BOOL \<Rightarrow> EncodeVarint (if primitive v = 0 then 0 else 1) buf
      | _ \<Rightarrow> Inl AssertionFailed)"

definition Encode32Bit :: "pb_value \<Rightarrow> encoder_buffer \<Rightarrow> encoder_buffer result" where
  "Encode32Bit v buf = Append_bytes buf (le_bytes 4 (unat (f_u (primitive v))))"

definition Encode64Bit :: "pb_value \<Rightarrow> encoder_buffer \<Rightarrow> encoder_buffer result" where
  "Encode64Bit v buf = Append_bytes buf (le_bytes 8 (unat (primitive v)))"

text \<open>A loop that appends something for each value.\<close>

fun append_each :: "(pb_value \<Rightarrow> encoder_buffer \<Rightarrow> encoder_buffer result) \<Rightarrow> pb_value list \<Rightarrow>
    encoder_buffer \<Rightarrow> encoder_buffer result" where
  "append_each g [] buf = Inr buf"
| "append_each g (v # vs) buf = rbind (g v buf) (append_each g vs)"

definition encode_packed_value :: "field_type \<Rightarrow> pb_value \<Rightarrow> encoder_buffer \<Rightarrow> encoder_buffer result" where
  "encode_packed_value type v buf =
     (if type \<in> {TYPE_SINT32, TYPE_SINT64, TYPE_INT32, TYPE_INT64, TYPE_UINT32, TYPE_UINT64, TYPE_BOOL, TYPE_ENUM}
      then EncodeVarint_value v type buf
      else if type \<in> {TYPE_FIXED32, TYPE_SFIXED32, TYPE_FLOAT} then Encode32Bit v buf
      else if type \<in> {TYPE_FIXED64, TYPE_SFIXED64, TYPE_DOUBLE} then Encode64Bit v buf
      else Inl AssertionFailed)"

definition EncodePackedField :: "field_descriptor \<Rightarrow> bool \<Rightarrow> pb_value list \<Rightarrow> encoder_buffer \<Rightarrow> encoder_buffer result" where
  "EncodePackedField fd field_decoded vs buf =
     require (fd_packed fd) (require field_decoded (require (eb_size buf = 0)
       (append_each (encode_packed_value (fd_type fd)) vs buf)))"

section \<open>Messages\<close>

definition field_tag :: "int \<Rightarrow> wire_type \<Rightarrow> u32" where
  "field_tag i wt = push_bit 3 (word_of_int i) OR of_nat (wire_type_number wt)"

definition EncodeTag :: "int \<Rightarrow> wire_type \<Rightarrow> encoder_buffer result" where
  "EncodeTag i wt = EncodeVarint (ucast (field_tag i wt)) EncoderBuffer"

text \<open>Tag, length and contents of one length-delimited value.\<close>

definition append_block :: "encoder_buffer \<Rightarrow> nat \<Rightarrow> (encoder_buffer \<Rightarrow> encoder_buffer result) \<Rightarrow>
    encoder_buffer \<Rightarrow> encoder_buffer result" where
  "append_block tag_buf len put buf =
     rbind (EncodeVarint (of_nat len) EncoderBuffer) (\<lambda>len_buf.
       rbind (Append_buffer buf tag_buf) (\<lambda>buf1. rbind (Append_buffer buf1 len_buf) put))"

definition append_raw :: "memory \<Rightarrow> encoder_buffer \<Rightarrow> pb_value \<Rightarrow> encoder_buffer \<Rightarrow> encoder_buffer result" where
  "append_raw mem tag_buf v buf =
     rbind (Append_buffer buf tag_buf) (\<lambda>buf1. Append_slice mem buf1 (encoded v))"

definition missing_required :: "pb_env \<Rightarrow> nat \<Rightarrow> field_map \<Rightarrow> bool" where
  "missing_required env d fm \<longleftrightarrow>
     (\<exists>fd\<in>set (descriptor_fields env d). is_required fd \<and> fm_find fm (fd_number fd) = None)"

fun encode_unknown :: "memory \<Rightarrow> field_map \<Rightarrow> encoder_buffer \<Rightarrow> encoder_buffer result" where
  "encode_unknown mem [] buf = Inr buf"
| "encode_unknown mem ((k, f) # fm) buf =
     rbind (EncodeTag (field_id f) (field_wire_type f)) (\<lambda>tag_buf.
       rbind (append_each (append_raw mem tag_buf) (vals f) buf) (encode_unknown mem fm))"

fun EncodeMessage :: "pb_env \<Rightarrow> memory \<Rightarrow> message \<Rightarrow> encoder_buffer \<Rightarrow> (bool \<times> encoder_buffer) result"
and encode_fields :: "pb_env \<Rightarrow> memory \<Rightarrow> field_map \<Rightarrow> encoder_buffer \<Rightarrow> (bool \<times> encoder_buffer) result"
and encode_embedded :: "pb_env \<Rightarrow> memory \<Rightarrow> encoder_buffer \<Rightarrow> pb_value list \<Rightarrow> encoder_buffer \<Rightarrow>
    (bool \<times> encoder_buffer) result"
where
  "EncodeMessage env mem (Message d fm ufm) buf =
     (if missing_required env d fm then Inr (False, buf)
      else rbind (encode_fields env mem fm buf) (\<lambda>(ok, buf1).
        if \<not> ok then Inr (False, buf1)
        else case ufm of None \<Rightarrow> Inr (True, buf1)
          | Some um \<Rightarrow> rbind (encode_unknown mem um buf1) (\<lambda>buf2. Inr (True, buf2))))"
| "encode_fields env mem [] buf = Inr (True, buf)"
| "encode_fields env mem ((k, Field dec unk i wt fd vs) # fm) buf =
     rbind (EncodeTag i wt) (\<lambda>tag_buf.
       rbind
         (if \<not> dec then rbind (append_each (append_raw mem tag_buf) vs buf) (\<lambda>b. Inr (True, b))
          else if wt = kLengthDelimited
          then case fd of None \<Rightarrow> Inl MemoryFault
            | Some d \<Rightarrow>
              if fd_packed d
              then rbind (EncodePackedField d dec vs EncoderBuffer) (\<lambda>packed.
                     rbind (append_block tag_buf (eb_size packed) (\<lambda>b. Append_buffer b packed) buf)
                       (\<lambda>b. Inr (True, b)))
              else if fd_type d = TYPE_MESSAGE then encode_embedded env mem tag_buf vs buf
              else rbind (append_each (\<lambda>v. append_block tag_buf (length (str v)) (\<lambda>b. Append_bytes b (str v))) vs buf)
                     (\<lambda>b. Inr (True, b))
          else if wt = kVarint
          then rbind (append_each (\<lambda>v b. rbind (Append_buffer b tag_buf)
                   (\<lambda>b1. case fd of None \<Rightarrow> Inl MemoryFault | Some d \<Rightarrow> EncodeVarint_value v (fd_type d) b1)) vs buf)
                 (\<lambda>b. Inr (True, b))
          else if wt = k64Bits
          then rbind (append_each (\<lambda>v b. rbind (Append_buffer b tag_buf) (Encode64Bit v)) vs buf) (\<lambda>b. Inr (True, b))
          else if wt = k32Bits
          then rbind (append_each (\<lambda>v b. rbind (Append_buffer b tag_buf) (Encode32Bit v)) vs buf) (\<lambda>b. Inr (True, b))
          else Inl AssertionFailed)
         (\<lambda>(ok, buf1). if \<not> ok then Inr (False, buf1) else encode_fields env mem fm buf1))"
| "encode_embedded env mem tag_buf [] buf = Inr (True, buf)"
| "encode_embedded env mem tag_buf (Value e p em x # vs) buf =
     (case em of None \<Rightarrow> Inl MemoryFault
      | Some msg \<Rightarrow> rbind (EncodeMessage env mem msg EncoderBuffer) (\<lambda>(ok, tmp).
          if \<not> ok then Inr (False, buf)
          else rbind (append_block tag_buf (eb_size tmp) (\<lambda>b. Append_buffer b tmp) buf)
            (encode_embedded env mem tag_buf vs)))"

section \<open>The encoder writes varints\<close>

lemma byte_low: "ucast (val AND 0x7f) = (of_nat (unat (val :: u64) mod 128) :: byte)"
proof -
  have "unat (ucast (val AND 0x7f) :: byte) = unat val mod 128"
    unfolding and_7f by (simp add: unsigned_ucast_eq take_bit_eq_mod unat_mod_distrib mod_mod_cancel)
  then show ?thesis by (metis of_nat_unat ucast_id)
qed

lemma byte_high: "n < 128 \<Longrightarrow> (of_nat n :: byte) OR 0x80 = of_nat (n + 128)"
proof -
  assume n: "n < 128"
  have "(of_nat n :: byte) AND 0x80 = 0"
    using More_iff [of "of_nat n"] n unfolding More_def by (simp add: unat_of_nat_byte)
  then show ?thesis using word_plus_and_or [of "of_nat n :: byte" "0x80"] by simp
qed

lemma encode_varint_loop_eq:
  "unat val < 128 ^ (10 - len) \<Longrightarrow> len < 10 \<Longrightarrow> encode_varint_loop val len bytes = Inr (bytes @ varint (unat val))"
proof (induction val len bytes rule: encode_varint_loop.induct)
  case (1 val len bytes)
  have d: "unat (drop_bit 7 val) = unat val div 128"
    by (simp add: drop_bit_eq_div unat_div_distrib)
  show ?case
  proof (cases "unat val < 128")
    case True
    then have "drop_bit 7 val = 0" using d by (simp add: word_unat_eq_iff)
    with True 1(3) show ?thesis
      by (subst encode_varint_loop.simps) (simp add: Let_def byte_low varint.simps)
  next
    case False
    then have nz: "drop_bit 7 val \<noteq> 0" using d by (auto simp: word_unat_eq_iff div_eq_0_iff)
    have "len \<noteq> 9" using False 1(2) by auto
    with 1(3) have len: "Suc len < 10" by simp
    then have "10 - len = Suc (10 - Suc len)" by simp
    with 1(2) have "unat (drop_bit 7 val) < 128 ^ (10 - Suc len)"
      unfolding d by (simp add: less_mult_imp_div_less mult.commute)
    with 1(1) [OF refl _ refl refl refl refl] len nz
    have "encode_varint_loop (drop_bit 7 val) (Suc len) (bytes @ [ucast (val AND 0x7f) OR 0x80]) =
        Inr (bytes @ (ucast (val AND 0x7f) OR 0x80) # varint (unat val div 128))"
      by (simp add: d)
    moreover have "ucast (val AND 0x7f) OR 0x80 = (of_nat (unat val mod 128 + 128) :: byte)"
      unfolding byte_low by (rule byte_high) simp
    ultimately show ?thesis
      using False len nz by (subst encode_varint_loop.simps) (simp add: Let_def varint.simps [of "unat val"])
  qed
qed

lemma encode_varint_loop_varint: "encode_varint_loop val 0 [] = Inr (varint (unat val))"
  using encode_varint_loop_eq [of val 0 "[]"] unat_less_exp [of val] by simp

lemma EncodeVarint_eq: "EncodeVarint val buf = Append_bytes buf (varint (unat val))"
  by (simp add: EncodeVarint_def encode_varint_loop_varint)

end
