(* ===== verification/Pb_Helper.thy ===== *)
theory Pb_Helper
  imports Pb_Encoder
begin

unbundle bit_operations_syntax

text \<open>
  The helpers of the library, \<open>pb_parser/src/protobuf_helper.cc\<close>: the lazy parse of a message into
  its field map, the decoding of one field on demand, and the conversions of scalar values.

  Loops whose end depends on the input are bounded by \<open>fuel\<close>: \<open>None\<close> is a loop that has not ended
  within it, an \<open>Inl\<close> inside an abort or an access outside the memory.
\<close>

section \<open>Lazy parsing\<close>

text \<open>\<open>Field::FastAppend\<close>: only the slice of the value is taken over, and its prefix length.\<close>

definition FastAppend :: "pb_env \<Rightarrow> slice \<Rightarrow> u64 \<Rightarrow> pb_field \<Rightarrow> pb_field" where
  "FastAppend env enc prim f =
     (let v = set_encoded enc (new_Value env);
          v1 = (if field_wire_type f = kLengthDelimited then set_primitive prim v else v)
      in set_vals (vals f @ [v1]) f)"

definition parse_item :: "memory \<Rightarrow> parser_state \<Rightarrow> (parser_status \<times> parser_state) result" where
  "parse_item mem st =
     rbind (ParseTag mem st) (\<lambda>(status, st1).
       if status \<noteq> kOk then Inr (status, st1)
       else case ps_wire_type st1 of
           kVarint \<Rightarrow> ParseVarintLazy mem st1
         | kLengthDelimited \<Rightarrow> ParseLengthDelimitedLazy mem st1
         | k64Bits \<Rightarrow> Parse64BitsLazy mem st1
         | k32Bits \<Rightarrow> Parse32BitsLazy mem st1
         | kOther n \<Rightarrow> Inl AssertionFailed)"

definition store_item :: "pb_env \<Rightarrow> nat \<Rightarrow> parser_state \<Rightarrow> field_map \<Rightarrow> field_map result" where
  "store_item env d st fm =
     (let i = ps_field_id st
      in case fm_find fm i of
           None \<Rightarrow> let fd = FindFieldByNumber env d i
             in Inr (fm_put i (FastAppend env (ps_encoded st) (ps_primitive st)
                      (Field False (fd = None) i (ps_wire_type st) fd [])) fm)
         | Some f \<Rightarrow>
             if unknown f then Inr (fm_put i (FastAppend env (ps_encoded st) (ps_primitive st) f) fm)
             else case descriptor f of None \<Rightarrow> Inl MemoryFault
               | Some fd \<Rightarrow>
                   if is_repeated fd
                   then Inr (fm_put i (FastAppend env (ps_encoded st) (ps_primitive st) f) fm)
                   else require (length (vals f) = 1)
                     (Inr (fm_put i (FastAppend env (ps_encoded st) (ps_primitive st) (set_vals [] f)) fm)))"

fun parse_loop :: "nat \<Rightarrow> pb_env \<Rightarrow> memory \<Rightarrow> nat \<Rightarrow> parser_state \<Rightarrow> field_map \<Rightarrow>
    (parser_status \<times> field_map) result option" where
  "parse_loop 0 env mem d st fm = None"
| "parse_loop (Suc fuel) env mem d st fm =
     (if \<not> ps_cur st < s_end (ps_slice st) then Some (Inr (kOk, fm))
      else case parse_item mem st of Inl e \<Rightarrow> Some (Inl e)
        | Inr (status, st1) \<Rightarrow>
            if status \<noteq> kOk then Some (Inr (status, fm))
            else case store_item env d st1 fm of Inl e \<Rightarrow> Some (Inl e)
              | Inr fm1 \<Rightarrow> parse_loop fuel env mem d st1 fm1)"

definition CheckAllRequiredField :: "pb_env \<Rightarrow> field_map \<Rightarrow> nat \<Rightarrow> bool" where
  "CheckAllRequiredField env fm d \<longleftrightarrow> \<not> missing_required env d fm"

definition ParseMessageLazy :: "nat \<Rightarrow> pb_env \<Rightarrow> memory \<Rightarrow> slice \<Rightarrow> nat \<Rightarrow> field_map \<Rightarrow>
    (bool \<times> field_map) result option" where
  "ParseMessageLazy fuel env mem s d fm =
     (if \<not> s_start s \<le> s_end s then Some (Inl AssertionFailed)
      else case parse_loop fuel env mem d (ParserState env s) fm of None \<Rightarrow> None
        | Some r \<Rightarrow> Some (rbind r (\<lambda>(status, fm1).
            if status = kOk then require (CheckAllRequiredField env fm1 d) (Inr (True, fm1))
            else Inr (False, fm1))))"

text \<open>\<open>Message::Init\<close>: the unknown fields move to a map of their own.\<close>

fun Init_message :: "nat \<Rightarrow> pb_env \<Rightarrow> memory \<Rightarrow> slice \<Rightarrow> message \<Rightarrow> (bool \<times> message) result option" where
  "Init_message fuel env mem s (Message d fm ufm) =
     (case ParseMessageLazy fuel env mem s d fm of None \<Rightarrow> None
      | Some r \<Rightarrow> Some (rbind r (\<lambda>(ok, fm1).
          if \<not> ok then Inr (False, Message d fm1 ufm)
          else let unks = filter (\<lambda>(k, f). unknown f) fm1;
                   ufm1 = (if ufm = None \<and> unks \<noteq> [] then Some [] else ufm)
               in case ufm1 of None \<Rightarrow> Inr (True, Message d fm1 None)
                 | Some um \<Rightarrow> Inr (True, Message d (filter (\<lambda>(k, f). \<not> unknown f) fm1)
                     (Some (fold (\<lambda>(k, f). fm_put k f) unks um))))))"

section \<open>Scalar conversions\<close>

definition ZigzagDecode :: "u64 \<Rightarrow> u64" where
  "ZigzagDecode v = (if v AND 1 = 0 then drop_bit 1 v else - (drop_bit 1 v) - 1)"

definition DecodeUInt64 :: "u64 \<Rightarrow> u32 \<times> u32" where
  "DecodeUInt64 val = (ucast (val AND 0xffffffff), ucast (drop_bit 32 val AND 0xffffffff))"

definition DefaultIntegerValue :: "field_descriptor \<Rightarrow> u64 result" where
  "DefaultIntegerValue fd =
     (if fd_cpp_type fd \<in> {CPPTYPE_INT32, CPPTYPE_INT64, CPPTYPE_UINT32, CPPTYPE_UINT64, CPPTYPE_BOOL, CPPTYPE_ENUM}
      then Inr (word_of_int (fd_default_integer fd)) else Inl AssertionFailed)"

definition DefaultRealValue :: "field_descriptor \<Rightarrow> u64 result" where
  "DefaultRealValue fd =
     (if fd_cpp_type fd \<in> {CPPTYPE_DOUBLE, CPPTYPE_FLOAT} then Inr (fd_default_real fd) else Inl AssertionFailed)"

definition varint_types :: "field_type set" where
  "varint_types = {TYPE_INT32, TYPE_UINT32, TYPE_BOOL, TYPE_ENUM, TYPE_INT64, TYPE_UINT64, TYPE_SINT32, TYPE_SINT64}"

definition field_value :: "pb_field \<Rightarrow> nat \<Rightarrow> pb_value result" where
  "field_value f idx = (if length (vals f) > idx then Inr (vals f ! idx) else Inl AssertionFailed)"

definition RetrieveIntegerValue :: "pb_field \<Rightarrow> nat \<Rightarrow> u64 result" where
  "RetrieveIntegerValue f idx =
     require (idx < length (vals f))
       (case descriptor f of None \<Rightarrow> Inl MemoryFault
        | Some fd \<Rightarrow> rbind (field_value f idx) (\<lambda>v.
            if fd_type fd \<in> varint_types then Inr (primitive v)
            else if fd_type fd \<in> {TYPE_SFIXED32, TYPE_FIXED32} then Inr (ucast (f_u (primitive v)))
            else if fd_type fd \<in> {TYPE_FIXED64, TYPE_SFIXED64} then Inr (primitive v)
            else Inl AssertionFailed))"

definition RetrieveRealValue :: "pb_env \<Rightarrow> pb_field \<Rightarrow> nat \<Rightarrow> u64 result" where
  "RetrieveRealValue env f idx =
     require (idx < length (vals f))
       (case descriptor f of None \<Rightarrow> Inl MemoryFault
        | Some fd \<Rightarrow> rbind (field_value f idx) (\<lambda>v.
            if fd_type fd = TYPE_DOUBLE then Inr (primitive v)
            else if fd_type fd = TYPE_FLOAT then Inr (float_to_double env (f_u (primitive v)))
            else Inl AssertionFailed))"

definition Helper_SetInteger :: "field_type \<Rightarrow> u64 \<Rightarrow> pb_value \<Rightarrow> pb_value result" where
  "Helper_SetInteger type val v =
     (if type \<in> varint_types then Inr (set_primitive val v)
      else if type \<in> {TYPE_SFIXED32, TYPE_FIXED32} then Inr (set_primitive (set_f_u (ucast val) (primitive v)) v)
      else if type \<in> {TYPE_FIXED64, TYPE_SFIXED64} then Inr (set_primitive val v)
      else Inl AssertionFailed)"

definition Helper_SetReal :: "pb_env \<Rightarrow> field_type \<Rightarrow> u64 \<Rightarrow> pb_value \<Rightarrow> pb_value result" where
  "Helper_SetReal env type val v =
     (if type = TYPE_FLOAT then Inr (set_primitive (set_f_u (double_to_float env val) (primitive v)) v)
      else if type = TYPE_DOUBLE then Inr (set_primitive val v)
      else Inl AssertionFailed)"

definition Helper_SetString :: "field_type \<Rightarrow> byte list \<Rightarrow> pb_value \<Rightarrow> pb_value result" where
  "Helper_SetString type val v =
     require (type = TYPE_BYTES \<or> type = TYPE_STRING) (Inr (set_str val v))"

definition MakeMessage :: "field_descriptor \<Rightarrow> message result" where
  "MakeMessage fd = require (fd_type fd = TYPE_MESSAGE) (Inr (Message (fd_message_type fd) [] None))"

definition Helper_GetWireType :: "field_descriptor \<Rightarrow> wire_type result" where
  "Helper_GetWireType fd =
     (if fd_packed fd then Inr kLengthDelimited
      else if fd_type fd \<in> varint_types then Inr kVarint
      else if fd_type fd \<in> {TYPE_FIXED32, TYPE_SFIXED32, TYPE_FLOAT} then Inr k32Bits
      else if fd_type fd \<in> {TYPE_FIXED64, TYPE_SFIXED64, TYPE_DOUBLE} then Inr k64Bits
      else if fd_type fd \<in> {TYPE_STRING, TYPE_BYTES, TYPE_MESSAGE} then Inr kLengthDelimited
      else Inl AssertionFailed)"

section \<open>Decoding a field\<close>

text \<open>
  The loops over the values of a field. They stop at the first failure with the values before it
  already updated; \<open>st\<close> is the parser state the iterations share.
\<close>

fun decode_varints :: "memory \<Rightarrow> parser_state \<Rightarrow> pb_value list \<Rightarrow> (bool \<times> pb_value list) result" where
  "decode_varints mem st [] = Inr (True, [])"
| "decode_varints mem st (v # vs) =
     rbind (ParseVarint mem (st\<lparr>ps_slice := encoded v, ps_pos := 0\<rparr>)) (\<lambda>(status, st1).
       if status \<noteq> kOk then Inr (False, v # vs)
       else rbind (decode_varints mem st1 vs) (\<lambda>(ok, vs1). Inr (ok, set_primitive (ps_primitive st1) v # vs1)))"

definition DecodeVarint :: "pb_env \<Rightarrow> memory \<Rightarrow> pb_field \<Rightarrow> (bool \<times> pb_field) result" where
  "DecodeVarint env mem f =
     rbind (decode_varints mem (ParserState env null_slice) (vals f)) (\<lambda>(ok, vs).
       Inr (ok, if ok then set_decoded True (set_vals vs f) else set_vals vs f))"

definition DecodeVarintWithZigZag :: "pb_env \<Rightarrow> memory \<Rightarrow> field_descriptor \<Rightarrow> pb_field \<Rightarrow> (bool \<times> pb_field) result" where
  "DecodeVarintWithZigZag env mem fd f =
     rbind (DecodeVarint env mem f) (\<lambda>(ok, f1).
       if \<not> ok then Inr (False, f1)
       else require (decoded f1)
         (if vals f1 = [] \<or> fd_type fd = TYPE_SINT32 \<or> fd_type fd = TYPE_SINT64
          then Inr (True, set_vals (map (\<lambda>v. set_primitive (ZigzagDecode (primitive v)) v) (vals f1)) f1)
          else Inr (False, set_decoded False f1)))"

fun decode_fixed :: "memory \<Rightarrow> field_type \<Rightarrow> pb_value list \<Rightarrow> (bool \<times> pb_value list) result" where
  "decode_fixed mem type [] = Inr (True, [])"
| "decode_fixed mem type (v # vs) =
     (if type \<in> {TYPE_FIXED64, TYPE_SFIXED64, TYPE_DOUBLE}
      then rbind (mem_load_n mem (s_start (encoded v)) 8) (\<lambda>bs.
        rbind (decode_fixed mem type vs) (\<lambda>(ok, vs1). Inr (ok, set_primitive (le_word bs) v # vs1)))
      else if type \<in> {TYPE_FIXED32, TYPE_SFIXED32, TYPE_FLOAT}
      then rbind (mem_load_n mem (s_start (encoded v)) 4) (\<lambda>bs.
        rbind (decode_fixed mem type vs) (\<lambda>(ok, vs1).
          Inr (ok, set_primitive (set_f_u (le_word bs) (primitive v)) v # vs1)))
      else Inr (False, v # vs))"

definition DecodeFixed :: "memory \<Rightarrow> field_descriptor \<Rightarrow> pb_field \<Rightarrow> (bool \<times> pb_field) result" where
  "DecodeFixed mem fd f =
     rbind (decode_fixed mem (fd_type fd) (vals f)) (\<lambda>(ok, vs).
       Inr (ok, if ok then set_decoded True (set_vals vs f) else set_vals vs f))"

fun decode_strings :: "memory \<Rightarrow> field_type \<Rightarrow> parser_state \<Rightarrow> pb_value list \<Rightarrow> (bool \<times> pb_value list) result" where
  "decode_strings mem type st [] = Inr (True, [])"
| "decode_strings mem type st (v # vs) =
     (if type = TYPE_STRING \<or> type = TYPE_BYTES
      then rbind (ParseVarintInternal mem (st\<lparr>ps_slice := encoded v, ps_pos := 0\<rparr>)) (\<lambda>(n, st1).
        let len = s_end (encoded v) - s_start (encoded v) - of_nat n
        in rbind (mem_load_n mem (s_start (encoded v) + of_nat n) (unat len)) (\<lambda>bs.
          rbind (decode_strings mem type st1 vs) (\<lambda>(ok, vs1). Inr (ok, set_str bs v # vs1))))
      else Inr (False, v # vs))"

definition DecodeString :: "pb_env \<Rightarrow> memory \<Rightarrow> field_descriptor \<Rightarrow> pb_field \<Rightarrow> (bool \<times> pb_field) result" where
  "DecodeString env mem fd f =
     rbind (decode_strings mem (fd_type fd) (ParserState env null_slice) (vals f)) (\<lambda>(ok, vs).
       Inr (ok, if ok then set_decoded True (set_vals vs f) else set_vals vs f))"

fun decode_messages :: "nat \<Rightarrow> pb_env \<Rightarrow> memory \<Rightarrow> field_descriptor \<Rightarrow> pb_value list \<Rightarrow>
    (bool \<times> pb_value list) result option" where
  "decode_messages fuel env mem fd [] = Some (Inr (True, []))"
| "decode_messages fuel env mem fd (v # vs) =
     (case MakeMessage fd of Inl e \<Rightarrow> Some (Inl e)
      | Inr m \<Rightarrow>
        (case Init_message fuel env mem \<lparr>s_start = s_start (encoded v) + primitive v, s_end = s_end (encoded v)\<rparr> m of
           None \<Rightarrow> None
         | Some (Inl e) \<Rightarrow> Some (Inl e)
         | Some (Inr (ok, m1)) \<Rightarrow>
             if \<not> ok then Some (Inr (False, v # vs))
             else map_option (\<lambda>r. rbind r (\<lambda>(ok1, vs1). Inr (ok1, set_embedded (Some m1) v # vs1)))
               (decode_messages fuel env mem fd vs)))"

definition DecodeMessage :: "nat \<Rightarrow> pb_env \<Rightarrow> memory \<Rightarrow> field_descriptor \<Rightarrow> pb_field \<Rightarrow> (bool \<times> pb_field) result option" where
  "DecodeMessage fuel env mem fd f =
     (if fd_type fd \<noteq> TYPE_MESSAGE then Some (Inl AssertionFailed)
      else map_option (\<lambda>r. rbind r (\<lambda>(ok, vs).
          Inr (ok, if ok then set_decoded True (set_vals vs f) else set_vals vs f)))
        (decode_messages fuel env mem fd (vals f)))"

text \<open>
  \<open>DecodePacked\<close>: the elements of the single block. The first one is stored in the value that
  holds the block (\<open>field->value()\<close>, which asserts there is exactly one), the others are appended.
\<close>

definition packed_element :: "memory \<Rightarrow> field_type \<Rightarrow> parser_state \<Rightarrow> (parser_status \<times> parser_state) result" where
  "packed_element mem type st =
     (if type \<in> {TYPE_SINT32, TYPE_SINT64}
      then rbind (ParseVarint mem st) (\<lambda>(status, st1).
        Inr (status, if status = kOk then st1\<lparr>ps_primitive := ZigzagDecode (ps_primitive st1)\<rparr> else st1))
      else if type \<in> varint_types then ParseVarint mem st
      else if type \<in> {TYPE_FIXED32, TYPE_SFIXED32, TYPE_FLOAT} then Parse32Bits mem st
      else if type \<in> {TYPE_FIXED64, TYPE_SFIXED64, TYPE_DOUBLE} then Parse64Bits mem st
      else Inl AssertionFailed)"

definition set_element :: "field_type \<Rightarrow> u64 \<Rightarrow> pb_value \<Rightarrow> pb_value" where
  "set_element type w v =
     (if type \<in> {TYPE_FIXED32, TYPE_SFIXED32, TYPE_FLOAT}
      then set_primitive (set_f_u (f_u w) (primitive v)) v else set_primitive w v)"

fun packed_loop :: "nat \<Rightarrow> pb_env \<Rightarrow> memory \<Rightarrow> field_type \<Rightarrow> parser_state \<Rightarrow> nat \<Rightarrow> pb_value list \<Rightarrow>
    (bool \<times> pb_value list) result option" where
  "packed_loop 0 env mem type st idx vs = None"
| "packed_loop (Suc fuel) env mem type st idx vs =
     (if \<not> ps_cur st < s_end (ps_slice st) then Some (Inr (True, vs))
      else case packed_element mem type st of Inl e \<Rightarrow> Some (Inl e)
        | Inr (status, st1) \<Rightarrow>
            if status \<noteq> kOk then Some (Inr (False, vs))
            else if idx = 0
            then (case vs of [v] \<Rightarrow> packed_loop fuel env mem type st1 (Suc idx) [set_element type (ps_primitive st1) v]
                  | _ \<Rightarrow> Some (Inl AssertionFailed))
            else packed_loop fuel env mem type st1 (Suc idx) (vs @ [set_element type (ps_primitive st1) (new_Value env)]))"

definition DecodePacked :: "nat \<Rightarrow> pb_env \<Rightarrow> memory \<Rightarrow> field_descriptor \<Rightarrow> pb_field \<Rightarrow> (bool \<times> pb_field) result option" where
  "DecodePacked fuel env mem fd f =
     (if \<not> fd_packed fd then Some (Inl AssertionFailed)
      else case vals f of
        [v] \<Rightarrow> map_option (\<lambda>r. rbind r (\<lambda>(ok, vs).
              Inr (ok, if ok then set_decoded True (set_vals vs f) else set_vals vs f)))
            (packed_loop fuel env mem (fd_type fd)
              (ParserState env \<lparr>s_start = s_start (encoded v) + primitive v, s_end = s_end (encoded v)\<rparr>) 0 [v])
      | _ \<Rightarrow> Some (Inl AssertionFailed))"

definition DecodeField :: "nat \<Rightarrow> pb_env \<Rightarrow> memory \<Rightarrow> pb_field \<Rightarrow> (bool \<times> pb_field) result option" where
  "DecodeField fuel env mem f =
     (case descriptor f of None \<Rightarrow> Some (Inl AssertionFailed)
      | Some fd \<Rightarrow>
        if fd_packed fd then DecodePacked fuel env mem fd f
        else if fd_type fd \<in> {TYPE_INT32, TYPE_INT64, TYPE_UINT32, TYPE_UINT64, TYPE_BOOL, TYPE_ENUM}
        then Some (DecodeVarint env mem f)
        else if fd_type fd \<in> {TYPE_SINT32, TYPE_SINT64} then Some (DecodeVarintWithZigZag env mem fd f)
        else if fd_type fd \<in> {TYPE_FIXED32, TYPE_FIXED64, TYPE_SFIXED32, TYPE_SFIXED64, TYPE_DOUBLE, TYPE_FLOAT}
        then Some (DecodeFixed mem fd f)
        else if fd_type fd \<in> {TYPE_STRING, TYPE_BYTES} then Some (DecodeString env mem fd f)
        else if fd_type fd = TYPE_MESSAGE then DecodeMessage fuel env mem fd f
        else Some (Inr (False, f)))"

end
