(* ===== verification/Pb_Wire.thy ===== *)
theory Pb_Wire
  imports Pb_Helper
begin

unbundle bit_operations_syntax

text \<open>
  The wire format as a specification, and the lazy parser against it. A message on the wire is a
  sequence of items, each a field number with a payload; \<open>serialise\<close> writes them down the way the
  protobuf encoding prescribes, and the parser of \<open>protobuf_helper.cc\<close> is shown to find exactly them.
\<close>

section \<open>The wire format\<close>

datatype payload = PVarint nat | PFixed64 "byte list" | PBlock "byte list" | PFixed32 "byte list"

fun payload_wire_type :: "payload \<Rightarrow> wire_type" where
  "payload_wire_type (PVarint n) = kVarint"
| "payload_wire_type (PFixed64 bs) = k64Bits"
| "payload_wire_type (PBlock bs) = kLengthDelimited"
| "payload_wire_type (PFixed32 bs) = k32Bits"

fun payload_bytes :: "payload \<Rightarrow> byte list" where
  "payload_bytes (PVarint n) = varint n"
| "payload_bytes (PFixed64 bs) = bs"
| "payload_bytes (PBlock bs) = varint (length bs) @ bs"
| "payload_bytes (PFixed32 bs) = bs"

fun payload_ok :: "payload \<Rightarrow> bool" where
  "payload_ok (PVarint n) = (n < 2 ^ 64)"
| "payload_ok (PFixed64 bs) = (length bs = 8)"
| "payload_ok (PBlock bs) = (length bs < 2 ^ 64)"
| "payload_ok (PFixed32 bs) = (length bs = 4)"

type_synonym wire_item = "nat \<times> payload"

definition tag_number :: "wire_item \<Rightarrow> nat" where
  "tag_number it = 8 * fst it + wire_type_number (payload_wire_type (snd it))"

definition item_bytes :: "wire_item \<Rightarrow> byte list" where
  "item_bytes it = varint (tag_number it) @ payload_bytes (snd it)"

definition item_ok :: "wire_item \<Rightarrow> bool" where
  "item_ok it \<longleftrightarrow> fst it < 2 ^ 29 \<and> payload_ok (snd it)"

definition serialise :: "wire_item list \<Rightarrow> byte list" where
  "serialise items = concat (map item_bytes items)"

section \<open>Parsing one item\<close>

lemma wire_type_number_less: "wire_type_number (payload_wire_type p) < 8"
  by (cases p) simp_all

lemma tag_number_less: "item_ok it \<Longrightarrow> tag_number it < 2 ^ 32"
  using wire_type_number_less [of "snd it"] by (simp add: item_ok_def tag_number_def)

lemma and_7: "x AND 7 = take_bit 3 x" for x :: "'a::len word"
proof -
  have "(7 :: 'a word) = mask 3" by (simp add: mask_eq_exp_minus_1)
  then show ?thesis by (simp add: take_bit_eq_mask)
qed

lemma GetFieldId_tag: "item_ok it \<Longrightarrow> GetFieldId (of_nat (tag_number it)) = int (fst it)"
proof -
  assume ok: "item_ok it"
  have t: "unat (of_nat (tag_number it) :: u64) = tag_number it"
    by (rule unat_of_nat_small) (use tag_number_less [OF ok] in simp)
  have "unat (drop_bit 3 (of_nat (tag_number it) :: u64)) = tag_number it div 8"
    by (simp add: drop_bit_eq_div unat_div_distrib t del: of_nat_add of_nat_mult)
  also have "\<dots> = fst it" using wire_type_number_less [of "snd it"] by (simp add: tag_number_def)
  finally have "uint (drop_bit 3 (of_nat (tag_number it) :: u64)) = int (fst it)"
    by (simp only: uint_nat)
  with ok show ?thesis by (simp add: GetFieldId_def item_ok_def)
qed

lemma wire_type_of_number: "wire_type_of (wire_type_number (payload_wire_type p)) = payload_wire_type p"
  by (cases p) (simp_all add: wire_type_of_def)

lemma GetWireType_tag: "item_ok it \<Longrightarrow> GetWireType (of_nat (tag_number it)) = payload_wire_type (snd it)"
proof -
  assume ok: "item_ok it"
  have t: "unat (of_nat (tag_number it) :: u64) = tag_number it"
    by (rule unat_of_nat_small) (use tag_number_less [OF ok] in simp)
  have "unat (of_nat (tag_number it) AND 7 :: u64) = tag_number it mod 8"
    unfolding and_7 by (simp add: take_bit_eq_mod unat_mod_distrib t del: of_nat_add of_nat_mult)
  also have "\<dots> = wire_type_number (payload_wire_type (snd it))"
    using wire_type_number_less [of "snd it"] by (simp add: tag_number_def)
  finally show ?thesis by (simp add: GetWireType_def wire_type_of_number)
qed

text \<open>The parser stands at index \<open>i\<close> of the memory and its slice ends at index \<open>j\<close>.\<close>

definition at_index :: "memory \<Rightarrow> parser_state \<Rightarrow> nat \<Rightarrow> nat \<Rightarrow> bool" where
  "at_index mem st i j \<longleftrightarrow> mem_ok mem \<and> ps_cur st = addr mem i \<and> s_end (ps_slice st) = addr mem j \<and>
     i \<le> j \<and> j \<le> length (mem_bytes mem)"

lemma ps_cur_simps [simp]:
  "ps_cur (st\<lparr>ps_pos := p\<rparr>) = s_start (ps_slice st) + p"
  "ps_cur (st\<lparr>ps_field_id := x\<rparr>) = ps_cur st"
  "ps_cur (st\<lparr>ps_wire_type := w\<rparr>) = ps_cur st"
  "ps_cur (st\<lparr>ps_encoded := e\<rparr>) = ps_cur st"
  "ps_cur (st\<lparr>ps_primitive := q\<rparr>) = ps_cur st"
  by (simp_all add: ps_cur_def)

lemma ParseVarintInternal_varint:
  assumes "at_index mem st i j" "drop i (mem_bytes mem) = varint n @ rest" "i + length (varint n) \<le> j" "n < 2 ^ 64"
  shows "ParseVarintInternal mem st = Inr (length (varint n), st\<lparr>ps_primitive := of_nat n\<rparr>)"
proof -
  have "length (varint n) \<le> 10"
    using length_varint [of n 9] assms(4) by simp
  with varint_loop_varint [of mem i n rest j 0 0] assms
  show ?thesis by (simp add: ParseVarintInternal_def at_index_def)
qed

lemma ParseVarint_varint:
  assumes "at_index mem st i j" "drop i (mem_bytes mem) = varint n @ rest" "i + length (varint n) \<le> j" "n < 2 ^ 64"
  shows "ParseVarint mem st =
    Inr (kOk, st\<lparr>ps_primitive := of_nat n, ps_pos := ps_pos st + of_nat (length (varint n))\<rparr>)"
  by (simp add: ParseVarint_def ParseVarintInternal_varint [OF assms])

lemma at_index_advance:
  "at_index mem st i j \<Longrightarrow> i + k \<le> j \<Longrightarrow> ps_slice st1 = ps_slice st \<Longrightarrow> ps_pos st1 = ps_pos st + of_nat k \<Longrightarrow>
   at_index mem st1 (i + k) j"
proof -
  assume a: "at_index mem st i j" "i + k \<le> j" "ps_slice st1 = ps_slice st" "ps_pos st1 = ps_pos st + of_nat k"
  have "ps_cur st1 = ps_cur st + of_nat k" using a(3,4) by (simp add: ps_cur_def add.assoc)
  with a show ?thesis by (simp add: at_index_def)
qed

lemma ParseTag_item:
  assumes "at_index mem st i j" "drop i (mem_bytes mem) = varint (tag_number it) @ rest"
    and "i + length (varint (tag_number it)) \<le> j" "item_ok it"
  shows "ParseTag mem st = Inr (kOk, st\<lparr>ps_primitive := of_nat (tag_number it),
     ps_pos := ps_pos st + of_nat (length (varint (tag_number it))),
     ps_field_id := int (fst it), ps_wire_type := payload_wire_type (snd it)\<rparr>)"
proof -
  have "tag_number it < 2 ^ 64" using tag_number_less [OF assms(4)] by simp
  moreover have "payload_wire_type (snd it) \<in> {kVarint, k64Bits, kLengthDelimited, k32Bits}" by (cases "snd it") simp_all
  ultimately show ?thesis
    using ParseVarint_varint [OF assms(1-3)] GetFieldId_tag [OF assms(4)] GetWireType_tag [OF assms(4)]
    by (simp add: ParseTag_def Let_def)
qed

lemma ParseVarintLazy_varint:
  assumes "at_index mem st i j" "drop i (mem_bytes mem) = varint n @ rest" "i + length (varint n) \<le> j" "n < 2 ^ 64"
  shows "ParseVarintLazy mem st = Inr (kOk, st\<lparr>ps_pos := ps_pos st + of_nat (length (varint n)),
     ps_encoded := \<lparr>s_start = addr mem i, s_end = addr mem (i + length (varint n))\<rparr>\<rparr>)"
proof -
  have "length (varint n) \<le> 10"
    using length_varint [of n 9] assms(4) by simp
  with varint_lazy_loop_varint [of mem i n rest j 0] assms
  have l: "varint_lazy_loop mem (s_end (ps_slice st)) (ps_cur st) 1 = Inr (length (varint n))"
    by (simp add: at_index_def)
  have "s_start (ps_slice st) + (ps_pos st + of_nat (length (varint n))) = addr mem (i + length (varint n))"
    using assms(1) unfolding at_index_def ps_cur_def by (simp add: add.assoc [symmetric])
  with l assms(1) show ?thesis by (simp add: ParseVarintLazy_def Let_def at_index_def)
qed

lemma of_nat_addr: "addr mem i + (of_nat k + of_nat l) = addr mem (i + k + l)"
  by (simp add: addr_def add.assoc)

lemma ParseLengthDelimitedLazy_block:
  assumes "at_index mem st i j" "drop i (mem_bytes mem) = varint (length bs) @ bs @ rest"
    and "i + length (varint (length bs)) + length bs \<le> j" "length bs < 2 ^ 64"
  shows "ParseLengthDelimitedLazy mem st = Inr (kOk, st\<lparr>
     ps_encoded := \<lparr>s_start = addr mem i, s_end = addr mem (i + length (varint (length bs)) + length bs)\<rparr>,
     ps_pos := ps_pos st + of_nat (length (varint (length bs)) + length bs),
     ps_primitive := of_nat (length (varint (length bs)))\<rparr>)"
proof -
  have "ParseVarintInternal mem st = Inr (length (varint (length bs)), st\<lparr>ps_primitive := of_nat (length bs)\<rparr>)"
    by (rule ParseVarintInternal_varint [OF assms(1,2) _ assms(4)]) (use assms(3) in simp)
  moreover have "addr mem (i + length (varint (length bs)) + length bs) \<le> addr mem j"
    using assms(1,3) by (subst addr_le) (simp_all add: at_index_def)
  ultimately show ?thesis using assms(1)
    by (simp add: ParseLengthDelimitedLazy_def Let_def at_index_def)
qed

lemma Parse_fixed_lazy:
  assumes "at_index mem st i j"
  shows "i + 8 \<le> j \<Longrightarrow> Parse64BitsLazy mem st =
      Inr (kOk, st\<lparr>ps_encoded := \<lparr>s_start = addr mem i, s_end = addr mem (i + 8)\<rparr>, ps_pos := ps_pos st + 8\<rparr>)"
    and "i + 4 \<le> j \<Longrightarrow> Parse32BitsLazy mem st =
      Inr (kOk, st\<lparr>ps_encoded := \<lparr>s_start = addr mem i, s_end = addr mem (i + 4)\<rparr>, ps_pos := ps_pos st + 4\<rparr>)"
proof -
  have le: "k \<le> j \<Longrightarrow> addr mem k \<le> addr mem j" for k
    using assms by (subst addr_le) (simp_all add: at_index_def)
  show "i + 8 \<le> j \<Longrightarrow> Parse64BitsLazy mem st =
      Inr (kOk, st\<lparr>ps_encoded := \<lparr>s_start = addr mem i, s_end = addr mem (i + 8)\<rparr>, ps_pos := ps_pos st + 8\<rparr>)"
    using le [of "i + 8"] assms by (simp add: Parse64BitsLazy_def at_index_def)
  show "i + 4 \<le> j \<Longrightarrow> Parse32BitsLazy mem st =
      Inr (kOk, st\<lparr>ps_encoded := \<lparr>s_start = addr mem i, s_end = addr mem (i + 4)\<rparr>, ps_pos := ps_pos st + 4\<rparr>)"
    using le [of "i + 4"] assms by (simp add: Parse32BitsLazy_def at_index_def)
qed

definition payload_slice :: "memory \<Rightarrow> nat \<Rightarrow> wire_item \<Rightarrow> slice" where
  "payload_slice mem i it =
     \<lparr>s_start = addr mem (i + length (varint (tag_number it))), s_end = addr mem (i + length (item_bytes it))\<rparr>"

fun block_prefix :: "payload \<Rightarrow> nat" where
  "block_prefix (PBlock bs) = length (varint (length bs))"
| "block_prefix _ = 0"

text \<open>What the parser knows after an item: its number, its wire type and the slice of its payload.\<close>

definition parsed_item :: "memory \<Rightarrow> parser_state \<Rightarrow> nat \<Rightarrow> wire_item \<Rightarrow> bool" where
  "parsed_item mem st i it \<longleftrightarrow>
     ps_field_id st = int (fst it) \<and> ps_wire_type st = payload_wire_type (snd it) \<and>
     ps_encoded st = payload_slice mem i it \<and>
     (payload_wire_type (snd it) = kLengthDelimited \<longrightarrow> ps_primitive st = of_nat (block_prefix (snd it)))"

lemma parse_item_item:
  assumes at: "at_index mem st i j" and bytes: "drop i (mem_bytes mem) = item_bytes it @ rest"
    and len: "i + length (item_bytes it) \<le> j" and ok: "item_ok it"
  obtains st1 where "parse_item mem st = Inr (kOk, st1)" "at_index mem st1 (i + length (item_bytes it)) j"
    "parsed_item mem st1 i it"
proof -
  let ?t = "length (varint (tag_number it))" and ?p = "length (payload_bytes (snd it))"
  define st0 where "st0 = st\<lparr>ps_primitive := of_nat (tag_number it), ps_pos := ps_pos st + of_nat ?t,
     ps_field_id := int (fst it), ps_wire_type := payload_wire_type (snd it)\<rparr>"
  have tag: "ParseTag mem st = Inr (kOk, st0)"
    unfolding st0_def by (rule ParseTag_item [OF at _ _ ok]) (use bytes len in \<open>simp_all add: item_bytes_def\<close>)
  have at0: "at_index mem st0 (i + ?t) j"
    by (rule at_index_advance [OF at]) (use len in \<open>simp_all add: item_bytes_def st0_def\<close>)
  have "drop ?t (drop i (mem_bytes mem)) = payload_bytes (snd it) @ rest"
    unfolding bytes item_bytes_def by simp
  then have d0: "drop (i + ?t) (mem_bytes mem) = payload_bytes (snd it) @ rest" by (simp add: add.commute)
  have len0: "i + ?t + ?p \<le> j" using len by (simp add: item_bytes_def)
  have sl: "payload_slice mem i it = \<lparr>s_start = addr mem (i + ?t), s_end = addr mem (i + ?t + ?p)\<rparr>"
    by (simp add: payload_slice_def item_bytes_def add.assoc)
  have "\<exists>st1. parse_item mem st = Inr (kOk, st1) \<and> ps_slice st1 = ps_slice st0 \<and>
      ps_pos st1 = ps_pos st0 + of_nat ?p \<and> parsed_item mem st1 i it"
  proof (cases "snd it")
    case (PVarint n)
    with ParseVarintLazy_varint [OF at0, of n] d0 len0 ok tag sl show ?thesis
      by (simp add: parse_item_def parsed_item_def item_ok_def st0_def)
  next
    case (PFixed64 bs)
    with Parse_fixed_lazy(1) [OF at0] d0 len0 ok tag sl show ?thesis
      by (simp add: parse_item_def parsed_item_def item_ok_def st0_def)
  next
    case (PBlock bs)
    with ParseLengthDelimitedLazy_block [OF at0, of bs rest] d0 len0 ok tag sl show ?thesis
      by (simp add: parse_item_def parsed_item_def item_ok_def st0_def add.assoc)
  next
    case (PFixed32 bs)
    with Parse_fixed_lazy(2) [OF at0] d0 len0 ok tag sl show ?thesis
      by (simp add: parse_item_def parsed_item_def item_ok_def st0_def)
  qed
  then obtain st1 where st1: "parse_item mem st = Inr (kOk, st1)" "parsed_item mem st1 i it"
    "ps_slice st1 = ps_slice st0" "ps_pos st1 = ps_pos st0 + of_nat ?p" by blast
  have "at_index mem st1 (i + ?t + ?p) j" by (rule at_index_advance [OF at0 len0 st1(3,4)])
  with st1 that show ?thesis by (simp add: item_bytes_def add.assoc)
qed

section \<open>The field map of a parsed message\<close>

text \<open>
  Items with the index they start at. For one field number, a repeated or unknown field keeps all
  its items in order and any other field the last one only.
\<close>

type_synonym placed_item = "nat \<times> wire_item"

definition items_of :: "int \<Rightarrow> placed_item list \<Rightarrow> placed_item list" where
  "items_of k ps = filter (\<lambda>p. int (fst (snd p)) = k) ps"

definition kept_items :: "pb_env \<Rightarrow> nat \<Rightarrow> int \<Rightarrow> placed_item list \<Rightarrow> placed_item list" where
  "kept_items env d k ps =
     (case FindFieldByNumber env d k of
        Some fd \<Rightarrow> if is_repeated fd then items_of k ps else [last (items_of k ps)]
      | None \<Rightarrow> items_of k ps)"

definition shows_value :: "wire_type \<Rightarrow> memory \<Rightarrow> pb_value \<Rightarrow> placed_item \<Rightarrow> bool" where
  "shows_value wt mem v p \<longleftrightarrow>
     encoded v = payload_slice mem (fst p) (snd p) \<and> embedded v = None \<and>
     (wt = kLengthDelimited \<and> payload_wire_type (snd (snd p)) = kLengthDelimited \<longrightarrow>
        primitive v = of_nat (block_prefix (snd (snd p))))"

definition shows_field :: "pb_env \<Rightarrow> memory \<Rightarrow> nat \<Rightarrow> int \<Rightarrow> placed_item list \<Rightarrow> pb_field \<Rightarrow> bool" where
  "shows_field env mem d k ps f \<longleftrightarrow>
     items_of k ps \<noteq> [] \<and> \<not> decoded f \<and> field_id f = k \<and> descriptor f = FindFieldByNumber env d k \<and>
     unknown f = (FindFieldByNumber env d k = None) \<and>
     field_wire_type f = payload_wire_type (snd (snd (hd (items_of k ps)))) \<and>
     list_all2 (shows_value (field_wire_type f) mem) (vals f) (kept_items env d k ps)"

definition parsed_map :: "pb_env \<Rightarrow> memory \<Rightarrow> nat \<Rightarrow> placed_item list \<Rightarrow> field_map \<Rightarrow> bool" where
  "parsed_map env mem d ps fm \<longleftrightarrow>
     fm_ok fm \<and> (\<forall>k. case fm_find fm k of None \<Rightarrow> items_of k ps = [] | Some f \<Rightarrow> shows_field env mem d k ps f)"

lemma parsed_map_Nil [simp]: "parsed_map env mem d [] []"
  by (simp add: parsed_map_def items_of_def)

lemma items_of_snoc [simp]:
  "items_of k (ps @ [p]) = (if int (fst (snd p)) = k then items_of k ps @ [p] else items_of k ps)"
  by (simp add: items_of_def)

lemma kept_items_other: "int (fst (snd p)) \<noteq> k \<Longrightarrow> kept_items env d k (ps @ [p]) = kept_items env d k ps"
  by (cases "FindFieldByNumber env d k") (simp_all add: kept_items_def)

lemma shows_field_other: "int (fst (snd p)) \<noteq> k \<Longrightarrow> shows_field env mem d k (ps @ [p]) f = shows_field env mem d k ps f"
  by (simp add: shows_field_def kept_items_other)

lemma FastAppend_simps [simp]:
  "decoded (FastAppend env e w f) = decoded f" "unknown (FastAppend env e w f) = unknown f"
  "field_id (FastAppend env e w f) = field_id f" "field_wire_type (FastAppend env e w f) = field_wire_type f"
  "descriptor (FastAppend env e w f) = descriptor f"
  by (simp_all add: FastAppend_def Let_def)

lemma shows_value_new:
  assumes "parsed_item mem st i it"
  shows "\<exists>v. vals (FastAppend env (ps_encoded st) (ps_primitive st) f) = vals f @ [v] \<and>
    shows_value (field_wire_type f) mem v (i, it)"
  using assms by (auto simp: FastAppend_def Let_def shows_value_def parsed_item_def new_Value_def)

lemma shows_field_append:
  assumes "shows_field env mem d k ps f" "parsed_item mem st i it" "int (fst it) = k"
    and "FindFieldByNumber env d k = None \<or> (\<exists>fd. FindFieldByNumber env d k = Some fd \<and> is_repeated fd)"
  shows "shows_field env mem d k (ps @ [(i, it)]) (FastAppend env (ps_encoded st) (ps_primitive st) f)"
proof -
  obtain v where v: "vals (FastAppend env (ps_encoded st) (ps_primitive st) f) = vals f @ [v]"
    "shows_value (field_wire_type f) mem v (i, it)" using shows_value_new [OF assms(2)] by blast
  have "kept_items env d k (ps @ [(i, it)]) = kept_items env d k ps @ [(i, it)]"
    using assms(3,4) by (auto simp: kept_items_def)
  with assms(1,3) v show ?thesis by (auto simp: shows_field_def intro!: list_all2_appendI)
qed

lemma shows_field_replace:
  assumes "shows_field env mem d k ps f" "parsed_item mem st i it" "int (fst it) = k"
    and "FindFieldByNumber env d k = Some fd" "\<not> is_repeated fd"
  shows "shows_field env mem d k (ps @ [(i, it)]) (FastAppend env (ps_encoded st) (ps_primitive st) (set_vals [] f))"
proof -
  obtain v where v: "vals (FastAppend env (ps_encoded st) (ps_primitive st) (set_vals [] f)) = [v]"
    "shows_value (field_wire_type f) mem v (i, it)"
    using shows_value_new [OF assms(2), of env "set_vals [] f"] by auto
  have "kept_items env d k (ps @ [(i, it)]) = [(i, it)]"
    using assms(3,4,5) by (simp add: kept_items_def)
  with assms(1,3) v show ?thesis by (simp add: shows_field_def)
qed

lemma shows_field_first:
  assumes "items_of k ps = []" "parsed_item mem st i it" "int (fst it) = k"
  shows "shows_field env mem d k (ps @ [(i, it)]) (FastAppend env (ps_encoded st) (ps_primitive st)
     (Field False (FindFieldByNumber env d k = None) k (ps_wire_type st) (FindFieldByNumber env d k) []))"
proof -
  let ?f = "Field False (FindFieldByNumber env d k = None) k (ps_wire_type st) (FindFieldByNumber env d k) []"
  obtain v where v: "vals (FastAppend env (ps_encoded st) (ps_primitive st) ?f) = [v]"
    "shows_value (field_wire_type ?f) mem v (i, it)" using shows_value_new [OF assms(2), of env ?f] by auto
  have "kept_items env d k (ps @ [(i, it)]) = [(i, it)]"
    using assms(1,3) by (simp add: kept_items_def split: option.splits)
  with assms v show ?thesis by (simp add: shows_field_def parsed_item_def)
qed

lemma store_item_parsed:
  assumes map: "parsed_map env mem d ps fm" and it: "parsed_item mem st i it"
  obtains fm1 where "store_item env d st fm = Inr fm1" "parsed_map env mem d (ps @ [(i, it)]) fm1"
proof -
  let ?k = "int (fst it)"
  have k: "ps_field_id st = ?k" and ok: "fm_ok fm" using map it by (simp_all add: parsed_item_def parsed_map_def)
  have "\<exists>f1. store_item env d st fm = Inr (fm_put ?k f1 fm) \<and> shows_field env mem d ?k (ps @ [(i, it)]) f1"
  proof (cases "fm_find fm ?k")
    case None
    with map have "items_of ?k ps = []" by (auto simp: parsed_map_def dest!: spec [of _ ?k])
    from shows_field_first [OF this it refl] None k show ?thesis by (auto simp: store_item_def Let_def)
  next
    case (Some f)
    with map have f: "shows_field env mem d ?k ps f" by (auto simp: parsed_map_def dest!: spec [of _ ?k])
    show ?thesis
    proof (cases "FindFieldByNumber env d ?k")
      case None
      with shows_field_append [OF f it refl] f Some k show ?thesis
        by (auto simp: store_item_def Let_def shows_field_def)
    next
      case fd: (Some fd)
      show ?thesis
      proof (cases "is_repeated fd")
        case True
        with shows_field_append [OF f it refl] f Some k fd show ?thesis
          by (auto simp: store_item_def Let_def shows_field_def)
      next
        case False
        then have "length (vals f) = 1"
          using f fd by (auto simp: shows_field_def kept_items_def dest: list_all2_lengthD)
        with shows_field_replace [OF f it refl fd False] f Some k fd False show ?thesis
          by (auto simp: store_item_def Let_def shows_field_def)
      qed
    qed
  qed
  then obtain f1 where f1: "store_item env d st fm = Inr (fm_put ?k f1 fm)"
    "shows_field env mem d ?k (ps @ [(i, it)]) f1" by blast
  have "parsed_map env mem d (ps @ [(i, it)]) (fm_put ?k f1 fm)"
    unfolding parsed_map_def
  proof (intro conjI allI)
    show "fm_ok (fm_put ?k f1 fm)" using ok by (rule fm_put_ok)
    fix k
    have "case fm_find fm k of None \<Rightarrow> items_of k ps = [] | Some f \<Rightarrow> shows_field env mem d k ps f"
      using map by (simp add: parsed_map_def)
    then show "case fm_find (fm_put ?k f1 fm) k of None \<Rightarrow> items_of k (ps @ [(i, it)]) = []
        | Some f \<Rightarrow> shows_field env mem d k (ps @ [(i, it)]) f"
      using f1(2) by (cases "fm_find fm k"; cases "k = ?k") (simp_all add: fm_find_put [OF ok] shows_field_other)
  qed
  with f1(1) that show ?thesis by blast
qed

fun place :: "nat \<Rightarrow> wire_item list \<Rightarrow> placed_item list" where
  "place i [] = []"
| "place i (it # items) = (i, it) # place (i + length (item_bytes it)) items"

lemma parse_loop_items:
  assumes "at_index mem st i j" "drop i (mem_bytes mem) = serialise items @ rest" "j = i + length (serialise items)"
    and "\<forall>it\<in>set items. item_ok it" "length items < fuel" "parsed_map env mem d ps fm"
  shows "\<exists>fm1. parse_loop fuel env mem d st fm = Some (Inr (kOk, fm1)) \<and> parsed_map env mem d (ps @ place i items) fm1"
  using assms
proof (induction items arbitrary: i st fm ps fuel)
  case Nil
  obtain g where g: "fuel = Suc g" using Nil(5) by (cases fuel) auto
  have "\<not> ps_cur st < s_end (ps_slice st)" using Nil(1,3) by (simp add: at_index_def serialise_def)
  with Nil(6) g show ?case by simp
next
  case (Cons it items)
  obtain g where g: "fuel = Suc g" using Cons.prems(5) by (cases fuel) auto
  have ser: "serialise (it # items) = item_bytes it @ serialise items" by (simp add: serialise_def)
  have pos: "0 < length (item_bytes it)" by (simp add: item_bytes_def)
  have "ps_cur st < s_end (ps_slice st)"
    using Cons.prems(1,3) pos by (simp add: at_index_def addr_less ser)
  moreover have d0: "drop i (mem_bytes mem) = item_bytes it @ serialise items @ rest"
    using Cons.prems(2) ser by simp
  moreover obtain st1 where st1: "parse_item mem st = Inr (kOk, st1)"
    "at_index mem st1 (i + length (item_bytes it)) j" "parsed_item mem st1 i it"
    by (rule parse_item_item [OF Cons.prems(1) d0]) (use Cons.prems(3,4) ser in simp_all)
  moreover obtain fm1 where fm1: "store_item env d st1 fm = Inr fm1" "parsed_map env mem d (ps @ [(i, it)]) fm1"
    by (rule store_item_parsed [OF Cons.prems(6) st1(3)])
  moreover have "\<exists>fm2. parse_loop g env mem d st1 fm1 = Some (Inr (kOk, fm2)) \<and>
      parsed_map env mem d ((ps @ [(i, it)]) @ place (i + length (item_bytes it)) items) fm2"
  proof (rule Cons.IH [OF st1(2) _ _ _ _ fm1(2)])
    have "drop (length (item_bytes it)) (drop i (mem_bytes mem)) = serialise items @ rest" unfolding d0 by simp
    then show "drop (i + length (item_bytes it)) (mem_bytes mem) = serialise items @ rest" by (simp add: add.commute)
  qed (use Cons.prems g ser in simp_all)
  ultimately show ?case using g by simp
qed

section \<open>The bytes the slices show\<close>

definition slice_bytes :: "memory \<Rightarrow> slice \<Rightarrow> byte list result" where
  "slice_bytes mem s = mem_load_n mem (s_start s) (unat (s_end s - s_start s))"

lemma place_bytes:
  "drop i (mem_bytes mem) = serialise items @ rest \<Longrightarrow> p \<in> set (place i items) \<Longrightarrow>
   \<exists>r. drop (fst p) (mem_bytes mem) = item_bytes (snd p) @ r"
proof (induction items arbitrary: i)
  case Nil
  then show ?case by simp
next
  case (Cons it items)
  have d0: "drop i (mem_bytes mem) = item_bytes it @ serialise items @ rest"
    using Cons.prems(1) by (simp add: serialise_def)
  then have "drop (length (item_bytes it)) (drop i (mem_bytes mem)) = serialise items @ rest" by simp
  then have "drop (i + length (item_bytes it)) (mem_bytes mem) = serialise items @ rest" by (simp add: add.commute)
  from Cons.IH [OF this] Cons.prems(2) d0 show ?case by auto
qed

lemma addr_diff: "i \<le> j \<Longrightarrow> j < 2 ^ 64 \<Longrightarrow> unat (addr mem j - addr mem i) = j - i"
proof -
  assume a: "i \<le> j" "j < 2 ^ 64"
  then have "addr mem j - addr mem i = of_nat (j - i)" by (simp add: addr_def)
  with a show ?thesis by (simp add: unat_of_nat_small del: of_nat_diff)
qed

lemma slice_bytes_addr:
  "mem_ok mem \<Longrightarrow> i \<le> j \<Longrightarrow> j \<le> length (mem_bytes mem) \<Longrightarrow>
   slice_bytes mem \<lparr>s_start = addr mem i, s_end = addr mem j\<rparr> = Inr (between (mem_bytes mem) i j)"
  by (simp add: slice_bytes_def addr_diff mem_ok_def mem_load_n_addr)

lemma length_place: "length (place i items) = length items"
  by (induction items arbitrary: i) simp_all

lemma map_snd_place [simp]: "map snd (place i items) = items"
  by (induction items arbitrary: i) simp_all

lemma drop_length_le: "drop i xs = ys @ zs \<Longrightarrow> i \<le> length xs \<Longrightarrow> i + length ys \<le> length xs"
  by (metis le_add1 le_diff_conv2 length_append length_drop add.commute)

lemma slice_bytes_payload:
  assumes "mem_ok mem" "drop i (mem_bytes mem) = item_bytes it @ r"
  shows "slice_bytes mem (payload_slice mem i it) = Inr (payload_bytes (snd it))"
proof -
  let ?t = "length (varint (tag_number it))"
  have "item_bytes it \<noteq> []" by (simp add: item_bytes_def)
  with assms(2) have "i \<le> length (mem_bytes mem)" by (metis append_is_Nil_conv drop_all nle_le)
  with assms(2) have le: "i + length (item_bytes it) \<le> length (mem_bytes mem)" by (rule drop_length_le)
  have "drop ?t (drop i (mem_bytes mem)) = payload_bytes (snd it) @ r" unfolding assms(2) by (simp add: item_bytes_def)
  then have "drop (i + ?t) (mem_bytes mem) = payload_bytes (snd it) @ r" by (simp add: add.commute)
  then have "between (mem_bytes mem) (i + ?t) (i + length (item_bytes it)) = payload_bytes (snd it)"
    by (simp add: between_def item_bytes_def)
  with slice_bytes_addr [OF assms(1), of "i + ?t" "i + length (item_bytes it)"] le show ?thesis
    by (simp add: payload_slice_def item_bytes_def)
qed

definition payloads_of :: "int \<Rightarrow> wire_item list \<Rightarrow> payload list" where
  "payloads_of k items = map snd (filter (\<lambda>it. int (fst it) = k) items)"

definition kept_payloads :: "pb_env \<Rightarrow> nat \<Rightarrow> int \<Rightarrow> wire_item list \<Rightarrow> payload list" where
  "kept_payloads env d k items =
     (case FindFieldByNumber env d k of
        Some fd \<Rightarrow> if is_repeated fd then payloads_of k items else [last (payloads_of k items)]
      | None \<Rightarrow> payloads_of k items)"

lemma payloads_of_place: "map (snd \<circ> snd) (items_of k (place i items)) = payloads_of k items"
  by (induction items arbitrary: i) (auto simp: items_of_def payloads_of_def)

lemma kept_payloads_place:
  "items_of k (place i items) \<noteq> [] \<Longrightarrow> map (snd \<circ> snd) (kept_items env d k (place i items)) = kept_payloads env d k items"
proof -
  assume "items_of k (place i items) \<noteq> []"
  then have "last (map (snd \<circ> snd) (items_of k (place i items))) = snd (snd (last (items_of k (place i items))))"
    by (simp add: last_map)
  then have "last (payloads_of k items) = snd (snd (last (items_of k (place i items))))"
    by (simp only: payloads_of_place)
  then show ?thesis using payloads_of_place [of k i items]
    by (simp add: kept_items_def kept_payloads_def split: option.splits)
qed

lemma kept_items_subset: "items_of k ps \<noteq> [] \<Longrightarrow> set (kept_items env d k ps) \<subseteq> set ps"
proof -
  assume "items_of k ps \<noteq> []"
  then have "last (items_of k ps) \<in> set (items_of k ps)" by (rule last_in_set)
  moreover have "set (items_of k ps) \<subseteq> set ps" by (auto simp: items_of_def)
  ultimately show ?thesis by (auto simp: kept_items_def split: option.splits)
qed

lemma shown_bytes:
  assumes "mem_ok mem" "\<forall>p\<in>set ps. \<exists>r. drop (fst p) (mem_bytes mem) = item_bytes (snd p) @ r"
    and "shows_field env mem d k ps f"
  shows "map (slice_bytes mem \<circ> encoded) (vals f) = map (Inr \<circ> payload_bytes \<circ> snd \<circ> snd) (kept_items env d k ps)"
proof -
  have "list_all2 (shows_value (field_wire_type f) mem) (vals f) (kept_items env d k ps)"
    and "items_of k ps \<noteq> []" using assms(3) unfolding shows_field_def by blast+
  moreover have "slice_bytes mem (encoded v) = Inr (payload_bytes (snd (snd p)))"
    if shv: "shows_value (field_wire_type f) mem v p" and inp: "p \<in> set (kept_items env d k ps)" for v p
  proof -
    obtain r where "drop (fst p) (mem_bytes mem) = item_bytes (snd p) @ r"
      using kept_items_subset [OF \<open>items_of k ps \<noteq> []\<close>] assms(2) inp by blast
    from slice_bytes_payload [OF assms(1) this] shv show ?thesis by (simp add: shows_value_def)
  qed
  ultimately have "list_all2 (\<lambda>v p. slice_bytes mem (encoded v) = Inr (payload_bytes (snd (snd p)))) (vals f)
      (kept_items env d k ps)"
    by (metis (mono_tags, lifting) list.rel_mono_strong)
  then show ?thesis by (induction rule: list_all2_induct) simp_all
qed

lemma at_index_start: "mem_ok mem \<Longrightarrow> at_index mem (ParserState env (whole mem)) 0 (length (mem_bytes mem))"
  by (simp add: at_index_def ParserState_def ps_cur_def whole_def addr_def)

lemma whole_ordered: "mem_ok mem \<Longrightarrow> s_start (whole mem) \<le> s_end (whole mem)"
  using addr_le [of mem 0 "length (mem_bytes mem)"] by (simp add: whole_def addr_def)

definition required_present :: "pb_env \<Rightarrow> nat \<Rightarrow> wire_item list \<Rightarrow> bool" where
  "required_present env d items \<longleftrightarrow>
     (\<forall>fd\<in>set (descriptor_fields env d). is_required fd \<longrightarrow> payloads_of (fd_number fd) items \<noteq> [])"

lemma parsed_map_find:
  assumes "parsed_map env mem d (place 0 items) fm"
  shows "fm_find fm k = None \<longleftrightarrow> payloads_of k items = []"
proof -
  have "case fm_find fm k of None \<Rightarrow> items_of k (place 0 items) = []
      | Some f \<Rightarrow> shows_field env mem d k (place 0 items) f"
    using assms by (simp add: parsed_map_def)
  then show ?thesis using payloads_of_place [of k 0 items]
    by (auto simp: shows_field_def split: option.splits)
qed

lemma ParseMessageLazy_parsed_map:
  assumes "mem_ok mem" "mem_bytes mem = serialise items" "\<forall>it\<in>set items. item_ok it" "length items < fuel"
    and "required_present env d items"
  obtains fm where "ParseMessageLazy fuel env mem (whole mem) d [] = Some (Inr (True, fm))"
    "parsed_map env mem d (place 0 items) fm"
proof -
  have "\<exists>fm. parse_loop fuel env mem d (ParserState env (whole mem)) [] = Some (Inr (kOk, fm)) \<and>
      parsed_map env mem d ([] @ place 0 items) fm"
    by (rule parse_loop_items [OF at_index_start [OF assms(1)], where rest = "[]"]) (use assms in simp_all)
  then obtain fm where fm: "parse_loop fuel env mem d (ParserState env (whole mem)) [] = Some (Inr (kOk, fm))"
    "parsed_map env mem d (place 0 items) fm" by auto
  have "\<not> missing_required env d fm"
    using assms(5) parsed_map_find [OF fm(2)] by (auto simp: missing_required_def required_present_def)
  with fm whole_ordered [OF assms(1)] that show ?thesis
    by (simp add: ParseMessageLazy_def CheckAllRequiredField_def)
qed

section \<open>The parser finds what the wire format says\<close>

text \<open>A descriptor for the examples: an integer \<open>id\<close>, repeated strings \<open>tags\<close> and a double \<open>score\<close>.\<close>

definition sample_field :: "int \<Rightarrow> field_type \<Rightarrow> cpp_type \<Rightarrow> field_label \<Rightarrow> bool \<Rightarrow> field_descriptor" where
  "sample_field i t c l pk = \<lparr>fd_number = i, fd_type = t, fd_cpp_type = c, fd_label = l, fd_packed = pk,
     fd_message_type = 0, fd_default_integer = 0, fd_default_real = 0, fd_default_string = []\<rparr>"

definition sample_fields :: "(string \<times> field_descriptor) list" where
  "sample_fields =
     [(''id'', sample_field 1 TYPE_UINT64 CPPTYPE_UINT64 LABEL_OPTIONAL False),
      (''tags'', sample_field 2 TYPE_STRING CPPTYPE_STRING LABEL_REPEATED False),
      (''score'', sample_field 3 TYPE_FLOAT CPPTYPE_FLOAT LABEL_OPTIONAL False),
      (''sub'', sample_field 4 TYPE_MESSAGE CPPTYPE_MESSAGE LABEL_OPTIONAL False),
      (''nums'', sample_field 5 TYPE_UINT32 CPPTYPE_UINT32 LABEL_REPEATED True)]"

definition sample_env :: pb_env where
  "sample_env = \<lparr>FindFieldByNumber = (\<lambda>d i. find (\<lambda>fd. fd_number fd = i) (map snd sample_fields)),
     FindFieldByName = (\<lambda>d n. map_of sample_fields n),
     descriptor_fields = (\<lambda>d. map snd sample_fields),
     double_to_float = (\<lambda>w. ucast (drop_bit 32 w)), float_to_double = (\<lambda>x. push_bit 32 (ucast x)),
     indeterminate = 0\<rparr>"

definition sample_memory :: "byte list \<Rightarrow> memory" where
  "sample_memory bs = \<lparr>mem_base = 0x1000, mem_bytes = bs\<rparr>"

definition sample_items :: "wire_item list" where
  "sample_items = [(2, PBlock [1, 2]), (1, PVarint 300), (9, PFixed32 [0, 0, 0, 1]), (2, PBlock []),
     (1, PVarint 7), (5, PBlock [1, 2, 3]), (4, PBlock [8, 1])]"

lemma sample_ok:
  "mem_ok (sample_memory (serialise sample_items))"
  "mem_bytes (sample_memory (serialise sample_items)) = serialise sample_items"
  "\<forall>it\<in>set sample_items. item_ok it"
  "length sample_items < 9"
  "required_present sample_env 0 sample_items"
  by (simp_all add: mem_ok_def sample_memory_def serialise_def sample_items_def item_bytes_def tag_number_def varint.simps
      item_ok_def required_present_def sample_env_def sample_fields_def sample_field_def is_required_def)

text \<open>
  C2. The lazy parse of a well-formed message returns true with fuel for its items, and the field
  map holds, for every field number, exactly the payloads of its items as slices of the input: all
  of them in order for a repeated or unknown field, the last one for any other.
\<close>

theorem ParseMessageLazy_serialise:
  assumes "mem_ok mem" "mem_bytes mem = serialise items" "\<forall>it\<in>set items. item_ok it" "length items < fuel"
    and "required_present env d items"
  shows "\<exists>fm. ParseMessageLazy fuel env mem (whole mem) d [] = Some (Inr (True, fm)) \<and> fm_ok fm \<and>
    (\<forall>k. map_option (\<lambda>f. map (slice_bytes mem \<circ> encoded) (vals f)) (fm_find fm k) =
      (if payloads_of k items = [] then None else Some (map (Inr \<circ> payload_bytes) (kept_payloads env d k items))))"
proof -
  obtain fm where fm: "ParseMessageLazy fuel env mem (whole mem) d [] = Some (Inr (True, fm))"
    "parsed_map env mem d (place 0 items) fm" by (rule ParseMessageLazy_parsed_map [OF assms])
  have placed: "\<forall>p\<in>set (place 0 items). \<exists>r. drop (fst p) (mem_bytes mem) = item_bytes (snd p) @ r"
    using place_bytes [of 0 mem items "[]"] assms(2) by simp
  have "map_option (\<lambda>f. map (slice_bytes mem \<circ> encoded) (vals f)) (fm_find fm k) =
      (if payloads_of k items = [] then None else Some (map (Inr \<circ> payload_bytes) (kept_payloads env d k items)))" for k
  proof (cases "fm_find fm k")
    case None
    with parsed_map_find [OF fm(2), of k] show ?thesis by simp
  next
    case (Some f)
    with fm(2) have sh: "shows_field env mem d k (place 0 items) f"
      by (auto simp: parsed_map_def dest!: spec [of _ k])
    then have "items_of k (place 0 items) \<noteq> []" by (simp add: shows_field_def)
    from kept_payloads_place [OF this, of env d]
    have "map (Inr \<circ> payload_bytes \<circ> snd \<circ> snd) (kept_items env d k (place 0 items)) =
        map (Inr \<circ> payload_bytes) (kept_payloads env d k items)" by (simp flip: map_map add: comp_assoc)
    with shown_bytes [OF assms(1) placed sh] Some parsed_map_find [OF fm(2), of k] show ?thesis by simp
  qed
  with fm show ?thesis by (auto simp: parsed_map_def)
qed

theorem ParseMessageLazy_serialise_witness:
  "\<exists>fm. ParseMessageLazy 9 sample_env (sample_memory (serialise sample_items))
        (whole (sample_memory (serialise sample_items))) 0 [] = Some (Inr (True, fm)) \<and> fm_ok fm \<and>
      (\<forall>k. map_option (\<lambda>f. map (slice_bytes (sample_memory (serialise sample_items)) \<circ> encoded) (vals f)) (fm_find fm k) =
        (if payloads_of k sample_items = [] then None
         else Some (map (Inr \<circ> payload_bytes) (kept_payloads sample_env 0 k sample_items))))"
  by (rule ParseMessageLazy_serialise [OF sample_ok])

end
