(* ===== verification/Pb_Codec.thy ===== *)
theory Pb_Codec
  imports Pb_Wire
begin

unbundle bit_operations_syntax

text \<open>
  Scalar round trips between the encoder and the decoder, the decoding of the values the lazy
  parser leaves as slices (varints, strings, fixed-width values, packed blocks), and an input on
  which the parser never returns.
\<close>

section \<open>Varints\<close>



section \<open>Zigzag\<close>

lemma msb_bits:
  fixes v :: "'a::len word"
  assumes "LENGTH('a) = Suc n"
  shows "drop_bit n v = of_bool (bit v n)" "bit v n \<longleftrightarrow> 2 ^ n \<le> unat v" "\<not> bit v n \<longleftrightarrow> take_bit n v = v"
proof -
  have le: "k \<le> n" if "bit v k" for k using bit_imp_le_length [OF that] assms by simp
  show "drop_bit n v = of_bool (bit v n)"
  proof (rule bit_word_eqI)
    fix k
    show "bit (drop_bit n v) k = bit (of_bool (bit v n) :: 'a word) k"
      using le [of "n + k"] by (cases k) (auto simp: bit_drop_bit_eq bit_1_iff)
  qed
  have "unat v div 2 ^ n < 2" using unat_less_exp [of v] assms by (simp add: less_mult_imp_div_less)
  then have "unat v div 2 ^ n = 0 \<or> unat v div 2 ^ n = 1" by linarith
  moreover have "bit v n \<longleftrightarrow> odd (unat v div 2 ^ n)"
    using assms by (simp add: bit_unsigned_iff flip: bit_iff_odd)
  ultimately show "bit v n \<longleftrightarrow> 2 ^ n \<le> unat v"
    by (metis div_eq_0_iff even_zero not_le odd_one power_eq_0_iff zero_neq_numeral)
  show "\<not> bit v n \<longleftrightarrow> take_bit n v = v"
  proof
    assume "\<not> bit v n"
    then have "bit v k \<Longrightarrow> k < n" for k using le [of k] by (cases "k = n") simp_all
    then show "take_bit n v = v" by (intro bit_word_eqI) (auto simp: bit_take_bit_iff)
  next
    assume "take_bit n v = v"
    then have "bit v n = bit (take_bit n v) n" by simp
    then show "\<not> bit v n" by (simp add: bit_take_bit_iff)
  qed
qed

lemma ZigzagDecode_not: "ZigzagDecode w = (if bit w 0 then NOT (drop_bit 1 w) else drop_bit 1 w)"
proof -
  have "w AND 1 = 0 \<longleftrightarrow> \<not> bit w 0" by (simp add: and_one_eq odd_iff_mod_2_eq_one bit_0)
  then show ?thesis by (simp add: ZigzagDecode_def not_eq_complement)
qed

lemma zigzag_word_bits:
  fixes v :: "'a::len word"
  assumes "LENGTH('a) = Suc n"
  shows "bit (push_bit 1 v XOR of_bool b) 0 \<longleftrightarrow> b"
    and "drop_bit 1 (push_bit 1 v XOR of_bool b) = take_bit n v"
proof -
  show "bit (push_bit 1 v XOR of_bool b) 0 \<longleftrightarrow> b"
    unfolding bit_xor_iff by (cases b) (simp_all add: bit_0)
  show "drop_bit 1 (push_bit 1 v XOR of_bool b) = take_bit n v"
  proof (rule bit_word_eqI)
    fix k assume "k < LENGTH('a)"
    have "bit (drop_bit 1 (push_bit 1 v XOR of_bool b)) k \<longleftrightarrow> Suc k < LENGTH('a) \<and> bit v k"
      unfolding bit_drop_bit_eq comp_def bit_xor_iff bit_push_bit_iff by (auto simp: bit_1_iff dest: bit_imp_le_length)
    with assms show "bit (drop_bit 1 (push_bit 1 v XOR of_bool b)) k = bit (take_bit n v) k"
      by (simp add: bit_take_bit_iff)
  qed
qed

lemma bit0_NOT_take: "0 < n \<Longrightarrow> NOT (take_bit n v) \<noteq> v" for v :: "'a::len word"
proof
  assume "0 < n" "NOT (take_bit n v) = v"
  then have "bit (NOT (take_bit n v)) 0 = bit v 0" by simp
  with \<open>0 < n\<close> show False by (simp add: bit_not_iff bit_take_bit_iff)
qed

lemma zigzag64_roundtrip_iff:
  assumes "ZigZagEncode v TYPE_SINT64 = Inr w"
  shows "ZigzagDecode w = primitive v \<longleftrightarrow> unat (primitive v) < 2 ^ 63"
proof -
  have l: "LENGTH(64) = Suc 63" by simp
  have w: "w = push_bit 1 (primitive v) XOR of_bool (bit (primitive v) 63)"
    using assms by (simp add: ZigZagEncode_def Let_def msb_bits(1) [OF l])
  have "ZigzagDecode w = (if bit (primitive v) 63 then NOT (take_bit 63 (primitive v)) else take_bit 63 (primitive v))"
    unfolding w ZigzagDecode_not zigzag_word_bits [OF l] ..
  then show ?thesis
    using msb_bits(2,3) [OF l, of "primitive v"] bit0_NOT_take [of 63 "primitive v"] by (auto simp: not_le)
qed

lemma zigzag32_bits:
  "bit (ucast (push_bit 1 x XOR of_bool b) :: u64) 0 \<longleftrightarrow> b"
  "drop_bit 1 (ucast (push_bit 1 x XOR of_bool b) :: u64) = ucast (take_bit 31 (x :: u32))"
proof -
  have l: "LENGTH(32) = Suc 31" by simp
  show "bit (ucast (push_bit 1 x XOR of_bool b) :: u64) 0 \<longleftrightarrow> b"
    unfolding bit_ucast_iff zigzag_word_bits(1) [OF l] by simp
  show "drop_bit 1 (ucast (push_bit 1 x XOR of_bool b) :: u64) = ucast (take_bit 31 x)"
  proof (rule bit_word_eqI)
    fix n assume "n < LENGTH(64)"
    show "bit (drop_bit 1 (ucast (push_bit 1 x XOR of_bool b) :: u64)) n = bit (ucast (take_bit 31 x) :: u64) n"
      unfolding zigzag_word_bits(2) [OF l, of x b, symmetric] bit_drop_bit_eq comp_def bit_ucast_iff
      by (auto dest: bit_imp_le_length)
  qed
qed

lemma zigzag32_roundtrip_iff:
  assumes "ZigZagEncode v TYPE_SINT32 = Inr w"
  shows "ZigzagDecode w = primitive v \<longleftrightarrow> unat (primitive v) < 2 ^ 31"
proof -
  define x where "x = (ucast (primitive v) :: u32)"
  have l: "LENGTH(32) = Suc 31" by simp
  have w: "w = ucast (push_bit 1 x XOR of_bool (bit x 31))"
    using assms by (simp add: ZigZagEncode_def Let_def msb_bits(1) [OF l] x_def)
  have dec: "ZigzagDecode w = (if bit x 31 then NOT (ucast (take_bit 31 x)) else ucast (take_bit 31 x))"
    unfolding w ZigzagDecode_not zigzag32_bits ..
  show ?thesis
  proof (cases "unat (primitive v) < 2 ^ 31")
    case True
    then have "unat x = unat (primitive v)" by (simp add: x_def unsigned_ucast_eq take_bit_nat_eq_self)
    then have "\<not> bit x 31" "ucast x = primitive v" using True msb_bits(2) [OF l, of x]
      by (simp_all add: word_unat_eq_iff unsigned_ucast_eq take_bit_nat_eq_self)
    with dec True msb_bits(3) [OF l, of x] show ?thesis by simp
  next
    case False
    have "ZigzagDecode w \<noteq> primitive v"
    proof (cases "bit x 31")
      case True
      have "bit (NOT (ucast (take_bit 31 x) :: u64)) 0 \<noteq> bit (primitive v) 0"
        by (simp add: bit_not_iff bit_ucast_iff bit_take_bit_iff x_def)
      with dec True show ?thesis by auto
    next
      case False': False
      then have "unat x < 2 ^ 31" using msb_bits(2) [OF l, of x] by simp
      moreover have "unat (ucast x :: u64) = unat x" by (simp add: unsigned_ucast_eq take_bit_nat_eq_self less_trans [OF unat_less_exp])
      ultimately show ?thesis using dec False' False msb_bits(3) [OF l, of x] by auto
    qed
    with False show ?thesis by simp
  qed
qed

text \<open>
  Zigzag: decoding what \<open>ZigZagEncode\<close> wrote gives the value back exactly for non-negative
  values, for \<open>sint64\<close> and for \<open>sint32\<close>. The encoder shifts the sign bit as an unsigned number, so
  every negative value is written as a different one.
\<close>

theorem ZigZag_roundtrip_iff:
  assumes "ZigZagEncode v t = Inr w" "bits = (if t = TYPE_SINT32 then 31 else 63)"
  shows "ZigzagDecode w = primitive v \<longleftrightarrow> unat (primitive v) < 2 ^ bits"
proof -
  have "t = TYPE_SINT32 \<or> t = TYPE_SINT64" using assms(1) by (cases t) (simp_all add: ZigZagEncode_def)
  then show ?thesis using zigzag64_roundtrip_iff [of v w] zigzag32_roundtrip_iff [of v w] assms by auto
qed

theorem ZigZag_roundtrip_iff_witness:
  "ZigZagEncode (Value null_slice 5 None []) TYPE_SINT64 = Inr 10 \<and> ZigzagDecode 10 = 5 \<and>
   ZigZagEncode (Value null_slice 0xffffffffffffffff None []) TYPE_SINT64 = Inr 0xffffffffffffffff \<and> ZigzagDecode 0xffffffffffffffff \<noteq> 0xffffffffffffffff"
proof -
  have a: "ZigZagEncode (Value null_slice 5 None []) TYPE_SINT64 = Inr 10" by (simp add: ZigZagEncode_def Let_def)
  have b: "ZigZagEncode (Value null_slice 0xffffffffffffffff None []) TYPE_SINT64 = Inr 0xffffffffffffffff"
    by (simp add: ZigZagEncode_def Let_def)
  from ZigZag_roundtrip_iff [OF a refl] ZigZag_roundtrip_iff [OF b refl] a b show ?thesis by simp
qed

section \<open>Decoding what the parser left as slices\<close>

text \<open>The slice of the value holds the bytes of the payload.\<close>

definition holds_payload :: "memory \<Rightarrow> wire_type \<Rightarrow> pb_value \<Rightarrow> payload \<Rightarrow> bool" where
  "holds_payload mem wt v p \<longleftrightarrow>
     (\<exists>a r. encoded v = \<lparr>s_start = addr mem a, s_end = addr mem (a + length (payload_bytes p))\<rparr> \<and>
        a \<le> length (mem_bytes mem) \<and> drop a (mem_bytes mem) = payload_bytes p @ r) \<and> payload_ok p \<and>
     (wt = kLengthDelimited \<and> payload_wire_type p = kLengthDelimited \<longrightarrow> primitive v = of_nat (block_prefix p))"

lemma shows_value_holds:
  assumes "shows_value wt mem v p" "drop (fst p) (mem_bytes mem) = item_bytes (snd p) @ r" "item_ok (snd p)"
  shows "holds_payload mem wt v (snd (snd p))"
proof -
  let ?t = "length (varint (tag_number (snd p)))"
  have "drop ?t (drop (fst p) (mem_bytes mem)) = payload_bytes (snd (snd p)) @ r"
    unfolding assms(2) by (simp add: item_bytes_def)
  then have d: "drop (fst p + ?t) (mem_bytes mem) = payload_bytes (snd (snd p)) @ r" by (simp add: add.commute)
  have "item_bytes (snd p) \<noteq> []" by (simp add: item_bytes_def)
  with assms(2) have "fst p \<le> length (mem_bytes mem)" by (metis append_is_Nil_conv drop_all nle_le)
  from drop_length_le [OF assms(2) this] have "fst p + ?t \<le> length (mem_bytes mem)" by (simp add: item_bytes_def)
  moreover have "encoded v = \<lparr>s_start = addr mem (fst p + ?t), s_end = addr mem (fst p + ?t + length (payload_bytes (snd (snd p))))\<rparr>"
    using assms(1) by (simp add: shows_value_def payload_slice_def item_bytes_def add.assoc)
  ultimately show ?thesis using d assms(1,3) unfolding holds_payload_def shows_value_def item_ok_def by blast
qed

lemma shows_field_holds:
  assumes "shows_field env mem d k (place 0 items) f" "mem_bytes mem = serialise items" "\<forall>it\<in>set items. item_ok it"
  shows "list_all2 (holds_payload mem (field_wire_type f)) (vals f) (kept_payloads env d k items)"
proof -
  let ?ps = "kept_items env d k (place 0 items)"
  have ne: "items_of k (place 0 items) \<noteq> []"
    and all: "list_all2 (shows_value (field_wire_type f) mem) (vals f) ?ps"
    using assms(1) unfolding shows_field_def by blast+
  have "holds_payload mem (field_wire_type f) v (snd (snd p))"
    if sh: "shows_value (field_wire_type f) mem v p" and inp: "p \<in> set ?ps" for v p
  proof -
    have p: "p \<in> set (place 0 items)" using kept_items_subset [OF ne] inp by blast
    then obtain r where "drop (fst p) (mem_bytes mem) = item_bytes (snd p) @ r"
      using place_bytes [of 0 mem items "[]" p] assms(2) by auto
    moreover have "snd p \<in> set items"
      using imageI [OF p, of snd] by (simp only: set_map [symmetric] map_snd_place)
    ultimately show ?thesis using shows_value_holds [OF sh] assms(3) by blast
  qed
  with all have "list_all2 (\<lambda>v p. holds_payload mem (field_wire_type f) v (snd (snd p))) (vals f) ?ps"
    by (metis (mono_tags, lifting) list.rel_mono_strong)
  then have "list_all2 (holds_payload mem (field_wire_type f)) (vals f) (map (snd \<circ> snd) ?ps)"
    by (simp add: list.rel_map)
  then show ?thesis by (simp only: kept_payloads_place [OF ne])
qed

lemma holds_at_index:
  assumes "mem_ok mem" "encoded v = \<lparr>s_start = addr mem a, s_end = addr mem b\<rparr>" "a \<le> b" "b \<le> length (mem_bytes mem)"
  shows "at_index mem (st\<lparr>ps_slice := encoded v, ps_pos := 0\<rparr>) a b"
  using assms by (simp add: at_index_def ps_cur_def)

lemma decode_varints_ok:
  assumes "mem_ok mem" "list_all2 (holds_payload mem wt) vs (map PVarint ns)"
  shows "decode_varints mem st vs = Inr (True, map2 (\<lambda>v n. set_primitive (of_nat n) v) vs ns)"
  using assms(2)
proof (induction vs arbitrary: ns st)
  case Nil
  then show ?case by simp
next
  case (Cons v vs)
  then obtain n ms where ns: "ns = n # ms" by (cases ns) auto
  with Cons.prems have h: "holds_payload mem wt v (PVarint n)" and t: "list_all2 (holds_payload mem wt) vs (map PVarint ms)"
    by simp_all
  obtain a r where a: "encoded v = \<lparr>s_start = addr mem a, s_end = addr mem (a + length (varint n))\<rparr>"
    "a \<le> length (mem_bytes mem)" "drop a (mem_bytes mem) = varint n @ r"
    using h by (auto simp: holds_payload_def)
  have "a + length (varint n) \<le> length (mem_bytes mem)" using a(2,3) by (rule drop_length_le [rotated])
  from ParseVarint_varint [OF holds_at_index [OF assms(1) a(1) _ this] a(3)] h Cons.IH [OF t] ns
  show ?case by (simp add: holds_payload_def)
qed

lemma decode_strings_ok:
  assumes "mem_ok mem" "list_all2 (holds_payload mem wt) vs (map PBlock bss)" "type \<in> {TYPE_STRING, TYPE_BYTES}"
  shows "decode_strings mem type st vs = Inr (True, map2 (\<lambda>v bs. set_str bs v) vs bss)"
  using assms(2)
proof (induction vs arbitrary: bss st)
  case Nil
  then show ?case by simp
next
  case (Cons v vs)
  then obtain bs css where bss: "bss = bs # css" by (cases bss) auto
  with Cons.prems have h: "holds_payload mem wt v (PBlock bs)" and t: "list_all2 (holds_payload mem wt) vs (map PBlock css)"
    by simp_all
  let ?n = "length (varint (length bs))"
  obtain a r where a: "encoded v = \<lparr>s_start = addr mem a, s_end = addr mem (a + (?n + length bs))\<rparr>"
    "a \<le> length (mem_bytes mem)" "drop a (mem_bytes mem) = varint (length bs) @ bs @ r"
    using h by (auto simp: holds_payload_def)
  have le: "a + (?n + length bs) \<le> length (mem_bytes mem)"
    using drop_length_le [of a "mem_bytes mem" "varint (length bs) @ bs" r] a(2,3) by simp
  have "ParseVarintInternal mem (st\<lparr>ps_slice := encoded v, ps_pos := 0\<rparr>) =
      Inr (?n, st\<lparr>ps_slice := encoded v, ps_pos := 0, ps_primitive := of_nat (length bs)\<rparr>)"
    by (rule ParseVarintInternal_varint [OF holds_at_index [OF assms(1) a(1) _ le] a(3)])
      (use h in \<open>simp_all add: holds_payload_def\<close>)
  moreover have "unat (s_end (encoded v) - s_start (encoded v) - of_nat ?n) = length bs"
  proof -
    have "s_end (encoded v) - s_start (encoded v) - of_nat ?n = of_nat (length bs)" by (simp add: a(1) addr_def)
    then show ?thesis using le assms(1) by (simp add: unat_of_nat_small mem_ok_def)
  qed
  moreover have "mem_load_n mem (s_start (encoded v) + of_nat ?n) (length bs) = Inr bs"
  proof -
    have "drop ?n (drop a (mem_bytes mem)) = bs @ r" unfolding a(3) by simp
    then have "between (mem_bytes mem) (a + ?n) (a + ?n + length bs) = bs" by (simp add: between_def add.commute)
    with mem_load_n_addr [OF assms(1), of "a + ?n" "length bs"] le show ?thesis by (simp add: a(1) add.assoc)
  qed
  ultimately show ?case using Cons.IH [OF t] bss assms(3) by (simp add: Let_def)
qed

lemma decode_fixed_ok:
  assumes "mem_ok mem" "list_all2 (holds_payload mem wt) vs (map c bss)"
    and "type \<in> {TYPE_FIXED64, TYPE_SFIXED64, TYPE_DOUBLE} \<and> c = PFixed64 \<and> g = (\<lambda>bs v. set_primitive (le_word bs) v) \<or>
      type \<in> {TYPE_FIXED32, TYPE_SFIXED32, TYPE_FLOAT} \<and> c = PFixed32 \<and>
        g = (\<lambda>bs v. set_primitive (set_f_u (le_word bs) (primitive v)) v)"
  shows "decode_fixed mem type vs = Inr (True, map2 (\<lambda>v bs. g bs v) vs bss)"
  using assms(2)
proof (induction vs arbitrary: bss)
  case Nil
  then show ?case by simp
next
  case (Cons v vs)
  then obtain bs css where bss: "bss = bs # css" by (cases bss) auto
  with Cons.prems have h: "holds_payload mem wt v (c bs)" and t: "list_all2 (holds_payload mem wt) vs (map c css)"
    by simp_all
  have len: "length bs = (if c = PFixed64 then 8 else 4)" and pb: "payload_bytes (c bs) = bs"
    using h assms(3) by (auto simp: holds_payload_def fun_eq_iff)
  obtain a r where a: "encoded v = \<lparr>s_start = addr mem a, s_end = addr mem (a + length bs)\<rparr>"
    "a \<le> length (mem_bytes mem)" "drop a (mem_bytes mem) = bs @ r"
    using h by (auto simp: holds_payload_def pb)
  have "mem_load_n mem (s_start (encoded v)) (length bs) = Inr bs"
    using mem_load_n_addr [OF assms(1), of a "length bs"] drop_length_le [OF a(3,2)] a(1,3)
    by (simp add: between_def)
  then show ?case using Cons.IH [OF t] bss len assms(3) by (auto simp: fun_eq_iff split: if_splits)
qed

section \<open>Packed fields\<close>

lemma packed_loop_varints:
  assumes "at_index mem st i j" "drop i (mem_bytes mem) = concat (map varint ns) @ rest"
    and "j = i + length (concat (map varint ns))" "\<forall>n\<in>set ns. n < 2 ^ 64" "length ns < fuel" "0 < idx"
    and "type \<in> varint_types - {TYPE_SINT32, TYPE_SINT64}"
  shows "\<exists>ws. packed_loop fuel env mem type st idx vs = Some (Inr (True, vs @ ws)) \<and> map primitive ws = map of_nat ns"
  using assms(1-6)
proof (induction ns arbitrary: i st idx vs fuel)
  case Nil
  obtain g where g: "fuel = Suc g" using Nil(5) by (cases fuel) auto
  have "\<not> ps_cur st < s_end (ps_slice st)" using Nil(1,3) by (simp add: at_index_def)
  with g show ?case by simp
next
  case (Cons n ns)
  obtain g where g: "fuel = Suc g" using Cons.prems(5) by (cases fuel) auto
  define st1 where "st1 = st\<lparr>ps_primitive := of_nat n, ps_pos := ps_pos st + of_nat (length (varint n))\<rparr>"
  have pos: "0 < length (varint n)" by simp
  then have "ps_cur st < s_end (ps_slice st)" using Cons.prems(1,3) by (simp add: at_index_def addr_less)
  moreover have d0: "drop i (mem_bytes mem) = varint n @ concat (map varint ns) @ rest" using Cons.prems(2) by simp
  have "ParseVarint mem st = Inr (kOk, st1)"
    unfolding st1_def by (rule ParseVarint_varint [OF Cons.prems(1) d0]) (use Cons.prems(3,4) in simp_all)
  then have "packed_element mem type st = Inr (kOk, st1)" using assms(7) by (auto simp: packed_element_def)
  moreover have "\<exists>ws. packed_loop g env mem type st1 (Suc idx) (vs @ [set_element type (ps_primitive st1) (new_Value env)]) =
      Some (Inr (True, (vs @ [set_element type (ps_primitive st1) (new_Value env)]) @ ws)) \<and> map primitive ws = map of_nat ns"
  proof (rule Cons.IH)
    show "at_index mem st1 (i + length (varint n)) j"
      by (rule at_index_advance [OF Cons.prems(1)]) (use Cons.prems(3) in \<open>simp_all add: st1_def\<close>)
    have "drop (length (varint n)) (drop i (mem_bytes mem)) = concat (map varint ns) @ rest" unfolding d0 by simp
    then show "drop (i + length (varint n)) (mem_bytes mem) = concat (map varint ns) @ rest" by (simp add: add.commute)
  qed (use Cons.prems g in simp_all)
  moreover have "primitive (set_element type (ps_primitive st1) (new_Value env)) = of_nat n"
    using assms(7) by (auto simp: set_element_def st1_def varint_types_def)
  ultimately show ?case using Cons.prems(6) g by force
qed

lemma packed_start:
  assumes "mem_ok mem" "holds_payload mem kLengthDelimited v (PBlock bs)"
  obtains a r where "at_index mem (ParserState env \<lparr>s_start = s_start (encoded v) + primitive v, s_end = s_end (encoded v)\<rparr>) a (a + length bs)"
    "drop a (mem_bytes mem) = bs @ r"
proof -
  let ?n = "length (varint (length bs))"
  obtain a r where a: "encoded v = \<lparr>s_start = addr mem a, s_end = addr mem (a + (?n + length bs))\<rparr>"
    "a \<le> length (mem_bytes mem)" "drop a (mem_bytes mem) = varint (length bs) @ bs @ r" "primitive v = of_nat ?n"
    using assms(2) by (auto simp: holds_payload_def)
  have "a + (?n + length bs) \<le> length (mem_bytes mem)"
    using drop_length_le [of a "mem_bytes mem" "varint (length bs) @ bs" r] a(2,3) by simp
  with a assms(1) have "at_index mem (ParserState env \<lparr>s_start = s_start (encoded v) + primitive v, s_end = s_end (encoded v)\<rparr>)
      (a + ?n) (a + ?n + length bs)"
    by (simp add: at_index_def ParserState_def ps_cur_def add.assoc)
  moreover have "drop ?n (drop a (mem_bytes mem)) = bs @ r" unfolding a(3) by simp
  then have "drop (a + ?n) (mem_bytes mem) = bs @ r" by (simp add: add.commute)
  ultimately show thesis by (rule that)
qed

lemma decode_packed_varints:
  assumes "mem_ok mem" "vals f = [v]" "holds_payload mem kLengthDelimited v (PBlock (concat (map varint ns)))"
    and "ns \<noteq> []" "\<forall>n\<in>set ns. n < 2 ^ 64" "length ns < fuel"
    and "fd_packed fd" "fd_type fd \<in> varint_types - {TYPE_SINT32, TYPE_SINT64}"
  shows "\<exists>f1. DecodePacked fuel env mem fd f = Some (Inr (True, f1)) \<and> decoded f1 \<and> map primitive (vals f1) = map of_nat ns"
proof -
  obtain n ms where ns: "ns = n # ms" using assms(4) by (cases ns) auto
  obtain g where g: "fuel = Suc g" using assms(6) by (cases fuel) auto
  let ?st = "ParserState env \<lparr>s_start = s_start (encoded v) + primitive v, s_end = s_end (encoded v)\<rparr>"
  obtain a r where at: "at_index mem ?st a (a + length (concat (map varint ns)))"
    and d: "drop a (mem_bytes mem) = concat (map varint ns) @ r" by (rule packed_start [OF assms(1,3)])
  define st1 where "st1 = ?st\<lparr>ps_primitive := of_nat n, ps_pos := ps_pos ?st + of_nat (length (varint n))\<rparr>"
  have pos: "0 < length (varint n)" by simp
  then have "ps_cur ?st < s_end (ps_slice ?st)" using at ns by (simp add: at_index_def addr_less)
  moreover have d0: "drop a (mem_bytes mem) = varint n @ concat (map varint ms) @ r" using d ns by simp
  have "ParseVarint mem ?st = Inr (kOk, st1)"
    unfolding st1_def by (rule ParseVarint_varint [OF at d0]) (use ns assms(5) in simp_all)
  then have "packed_element mem (fd_type fd) ?st = Inr (kOk, st1)" using assms(8) by (auto simp: packed_element_def)
  moreover have "\<exists>ws. packed_loop g env mem (fd_type fd) st1 1 [set_element (fd_type fd) (ps_primitive st1) v] =
      Some (Inr (True, [set_element (fd_type fd) (ps_primitive st1) v] @ ws)) \<and> map primitive ws = map of_nat ms"
  proof (rule packed_loop_varints [OF _ _ _ _ _ _ assms(8)])
    show "at_index mem st1 (a + length (varint n)) (a + length (concat (map varint ns)))"
      by (rule at_index_advance [OF at]) (use ns in \<open>simp_all add: st1_def\<close>)
    have "drop (length (varint n)) (drop a (mem_bytes mem)) = concat (map varint ms) @ r" unfolding d0 by simp
    then show "drop (a + length (varint n)) (mem_bytes mem) = concat (map varint ms) @ r" by (simp add: add.commute)
  qed (use ns assms(5,6) g in simp_all)
  moreover have "primitive (set_element (fd_type fd) (ps_primitive st1) v) = of_nat n"
    using assms(8) by (auto simp: set_element_def st1_def varint_types_def)
  ultimately show ?thesis using assms(2,7) g ns by (auto simp: DecodePacked_def)
qed

text \<open>
  An empty packed block decodes to one element: the loop does not run, the value that held the
  block stays, and its number is the length of the prefix, 1.
\<close>

theorem DecodePacked_empty_block:
  assumes "mem_ok mem" "vals f = [v]" "holds_payload mem kLengthDelimited v (PBlock [])" "fd_packed fd" "0 < fuel"
  shows "\<exists>f1. DecodePacked fuel env mem fd f = Some (Inr (True, f1)) \<and> map primitive (vals f1) = [1]"
proof -
  obtain g where g: "fuel = Suc g" using assms(5) by (cases fuel) auto
  let ?st = "ParserState env \<lparr>s_start = s_start (encoded v) + primitive v, s_end = s_end (encoded v)\<rparr>"
  obtain a r where at: "at_index mem ?st a (a + length ([] :: byte list))" by (rule packed_start [OF assms(1,3)])
  then have "\<not> ps_cur ?st < s_end (ps_slice ?st)" by (simp add: at_index_def)
  moreover have "primitive v = 1" using assms(3) by (simp add: holds_payload_def varint.simps)
  ultimately show ?thesis using assms(2,4) g by (simp add: DecodePacked_def)
qed

theorem DecodePacked_empty_block_witness:
  "\<exists>f1. DecodePacked 1 sample_env (sample_memory [0x2a, 0]) (sample_field 5 TYPE_UINT32 CPPTYPE_UINT32 LABEL_REPEATED True)
      (Field False False 5 kLengthDelimited None [Value \<lparr>s_start = 0x1001, s_end = 0x1002\<rparr> 1 None []]) = Some (Inr (True, f1)) \<and>
    map primitive (vals f1) = [1]"
proof (rule DecodePacked_empty_block)
  show "mem_ok (sample_memory [0x2a, 0])" by (simp add: mem_ok_def sample_memory_def)
  show "holds_payload (sample_memory [0x2a, 0]) kLengthDelimited (Value \<lparr>s_start = 0x1001, s_end = 0x1002\<rparr> 1 None []) (PBlock [])"
    by (auto simp: holds_payload_def sample_memory_def addr_def varint.simps intro!: exI [of _ 1])
qed (simp_all add: sample_field_def)

section \<open>A parse that never ends\<close>

text \<open>
  A length-delimited item whose length is \<open>2 ^ 64\<close> minus its own eleven bytes: the end pointer
  wraps to the start of the item, passes the bounds test, and the position is back where it was.
\<close>

definition wrapping_item :: "byte list" where
  "wrapping_item = 0x0a # varint (2 ^ 64 - 11)"

lemma length_varint_wrapping: "length (varint (2 ^ 64 - 11)) = 10" "length (varint 18446744073709551605) = 10"
  by (simp_all add: varint.simps)

lemma parse_item_wraps:
  assumes "mem_ok mem" "mem_bytes mem = wrapping_item" "ps_slice st = whole mem" "ps_pos st = 0"
  obtains st1 where "parse_item mem st = Inr (kOk, st1)" "ps_slice st1 = whole mem" "ps_pos st1 = 0"
    "ps_wire_type st1 = kLengthDelimited" "ps_field_id st1 = 1"
proof -
  have len: "length (mem_bytes mem) = 11" using assms(2) by (simp add: wrapping_item_def length_varint_wrapping)
  have at: "at_index mem st 0 11"
    using assms len by (simp add: at_index_def ps_cur_def whole_def addr_def)
  define it where "it = (1 :: nat, PBlock [])"
  have it: "item_ok it" "varint (tag_number it) = [0x0a]"
    by (simp_all add: it_def item_ok_def tag_number_def varint.simps)
  define st0 where "st0 = st\<lparr>ps_primitive := of_nat (tag_number it), ps_pos := 1, ps_field_id := 1, ps_wire_type := kLengthDelimited\<rparr>"
  have tag: "ParseTag mem st = Inr (kOk, st0)"
    using ParseTag_item [OF at _ _ it(1), of "varint (2 ^ 64 - 11)"] assms(2,4)
    by (simp add: it(2) wrapping_item_def st0_def) (simp add: it_def)
  have at0: "at_index mem st0 1 11"
    using at_index_advance [OF at, of 1 st0] assms(4) by (simp add: st0_def)
  have internal: "ParseVarintInternal mem st0 = Inr (10, st0\<lparr>ps_primitive := of_nat (2 ^ 64 - 11)\<rparr>)"
    using ParseVarintInternal_varint [OF at0, of "2 ^ 64 - 11" "[]"] assms(2)
    unfolding length_varint_wrapping by (simp add: wrapping_item_def)
  have st0: "ps_slice st0 = whole mem" "ps_pos st0 = 1" "ps_wire_type st0 = kLengthDelimited" "ps_field_id st0 = 1"
    using assms(3) by (simp_all add: st0_def)
  have wrap: "addr mem 18446744073709551616 = mem_base mem" by (simp add: addr_def)
  have cur: "ps_cur (st0\<lparr>ps_primitive := w\<rparr>) = addr mem 1" for w using at0 by (simp add: at_index_def)
  have nl: "\<not> s_end (whole mem) < mem_base mem"
    using whole_ordered [OF assms(1)] by (simp add: whole_def not_less)
  let ?st1 = "st0\<lparr>ps_primitive := 10, ps_encoded := \<lparr>s_start = addr mem 1, s_end = mem_base mem\<rparr>, ps_pos := 0\<rparr>"
  have "ParseLengthDelimitedLazy mem st0 = Inr (kOk, ?st1)"
    using nl wrap st0 cur by (simp add: ParseLengthDelimitedLazy_def internal Let_def)
  then have "parse_item mem st = Inr (kOk, ?st1)" by (simp add: parse_item_def tag st0)
  then show thesis by (rule that) (simp_all add: st0)
qed

text \<open>The field stays one that the next round accepts.\<close>

lemma store_item_again:
  assumes "ps_field_id st = k" "case fm_find fm k of None \<Rightarrow> True
      | Some f \<Rightarrow> unknown f = (descriptor f = None) \<and> ((\<exists>fd. descriptor f = Some fd \<and> \<not> is_repeated fd) \<longrightarrow> length (vals f) = 1)"
    and "fm_ok fm"
  obtains fm1 where "store_item env d st fm = Inr fm1" "fm_ok fm1" "case fm_find fm1 k of None \<Rightarrow> True
      | Some f \<Rightarrow> unknown f = (descriptor f = None) \<and> ((\<exists>fd. descriptor f = Some fd \<and> \<not> is_repeated fd) \<longrightarrow> length (vals f) = 1)"
proof -
  have one: "\<exists>v. vals (FastAppend env e w f) = vals f @ [v]" for e w f by (simp add: FastAppend_def Let_def)
  show thesis
  proof (cases "fm_find fm k")
    case None
    let ?f = "FastAppend env (ps_encoded st) (ps_primitive st)
        (Field False (FindFieldByNumber env d k = None) k (ps_wire_type st) (FindFieldByNumber env d k) [])"
    have "length (vals ?f) = 1" by (simp add: FastAppend_def Let_def)
    with None assms show thesis
      by (intro that [of "fm_put k ?f fm"]) (simp_all add: store_item_def Let_def fm_find_put fm_put_ok)
  next
    case (Some f)
    show thesis
    proof (cases "\<exists>fd. descriptor f = Some fd \<and> \<not> is_repeated fd")
      case True
      let ?f = "FastAppend env (ps_encoded st) (ps_primitive st) (set_vals [] f)"
      have "length (vals ?f) = 1" by (simp add: FastAppend_def Let_def)
      with Some assms True show thesis
        by (intro that [of "fm_put k ?f fm"]) (auto simp: store_item_def Let_def fm_find_put fm_put_ok)
    next
      case False
      let ?f = "FastAppend env (ps_encoded st) (ps_primitive st) f"
      from Some assms False show thesis
        by (intro that [of "fm_put k ?f fm"])
          (auto simp: store_item_def Let_def fm_find_put fm_put_ok split: option.splits)
    qed
  qed
qed

lemma parse_loop_wraps:
  assumes "mem_ok mem" "mem_bytes mem = wrapping_item" "ps_slice st = whole mem" "ps_pos st = 0" "fm_ok fm"
    and "case fm_find fm 1 of None \<Rightarrow> True
      | Some f \<Rightarrow> unknown f = (descriptor f = None) \<and> ((\<exists>fd. descriptor f = Some fd \<and> \<not> is_repeated fd) \<longrightarrow> length (vals f) = 1)"
  shows "parse_loop fuel env mem d st fm = None"
  using assms(3-)
proof (induction fuel arbitrary: st fm)
  case 0
  then show ?case by simp
next
  case (Suc fuel)
  obtain st1 where st1: "parse_item mem st = Inr (kOk, st1)" "ps_slice st1 = whole mem" "ps_pos st1 = 0" "ps_field_id st1 = 1"
    by (rule parse_item_wraps [OF assms(1,2) Suc.prems(1,2)])
  obtain fm1 where fm1: "store_item env d st1 fm = Inr fm1" "fm_ok fm1" "case fm_find fm1 1 of None \<Rightarrow> True
      | Some f \<Rightarrow> unknown f = (descriptor f = None) \<and> ((\<exists>fd. descriptor f = Some fd \<and> \<not> is_repeated fd) \<longrightarrow> length (vals f) = 1)"
    by (rule store_item_again [OF st1(4) Suc.prems(4,3)])
  have len: "length (mem_bytes mem) = 11" by (simp add: assms(2) wrapping_item_def length_varint_wrapping)
  have "ps_cur st < s_end (ps_slice st)"
    using addr_less [OF assms(1), of 0 11] Suc.prems(1,2) len by (simp add: ps_cur_def whole_def addr_def)
  with st1 fm1 Suc.IH [OF st1(2,3) fm1(2,3)] show ?case by simp
qed

text \<open>
  C40. On the eleven bytes of \<open>wrapping_item\<close> the parse of any message type does not return, with
  any fuel: an endless loop on untrusted input.
\<close>

theorem ParseMessageLazy_loops_forever:
  assumes "mem_ok mem" "mem_bytes mem = wrapping_item"
  shows "ParseMessageLazy fuel env mem (whole mem) d [] = None"
  using parse_loop_wraps [OF assms, of "ParserState env (whole mem)" "[]"] whole_ordered [OF assms(1)]
  by (simp add: ParseMessageLazy_def ParserState_def)

theorem ParseMessageLazy_loops_forever_witness:
  "ParseMessageLazy 1000 sample_env (sample_memory wrapping_item) (whole (sample_memory wrapping_item)) 0 [] = None"
  by (rule ParseMessageLazy_loops_forever)
    (simp_all add: mem_ok_def sample_memory_def wrapping_item_def length_varint_wrapping)

end
