(* ===== verification/Pb_Message.thy ===== *)
theory Pb_Message
  imports Pb_Helper
begin

unbundle bit_operations_syntax

text \<open>
  The public interface of the library, \<open>pb_parser/src/compact_protobuf.cc\<close>: the operations of
  \<open>Field\<close>, \<open>Environment\<close> and \<open>Message\<close>. A message is parsed lazily, a field is decoded when it is
  first used, and reading, writing, adding and deleting values go by field name and index.

  Operations that may decode a field take the \<open>fuel\<close> of the loops below them and the memory the
  undecoded slices point into. A pointer to an embedded message is returned as the message it
  points to.
\<close>

section \<open>Fields\<close>

definition has_value :: "pb_field \<Rightarrow> bool" where
  "has_value f \<longleftrightarrow> vals f \<noteq> []"

definition Field_Delete :: "pb_field \<Rightarrow> nat \<Rightarrow> (pb_value \<times> pb_field) result" where
  "Field_Delete f idx =
     require (length (vals f) > idx)
       (Inr (vals f ! idx, set_vals (take idx (vals f) @ drop (Suc idx) (vals f)) f))"

definition Field_Append :: "pb_value \<Rightarrow> pb_field \<Rightarrow> pb_field" where
  "Field_Append v f = set_vals (vals f @ [v]) f"

text \<open>An update of the value \<open>field->value(idx)\<close> points to.\<close>

definition modify_value :: "(pb_value \<Rightarrow> pb_value result) \<Rightarrow> nat \<Rightarrow> pb_field \<Rightarrow> pb_field result" where
  "modify_value g idx f =
     rbind (field_value f idx) (\<lambda>v. rbind (g v) (\<lambda>w. Inr (set_vals ((vals f)[idx := w]) f)))"

section \<open>The environment\<close>

text \<open>
  \<open>Environment::Register\<close>: the descriptor pool and the parser of file descriptors belong to
  Google's library and are arguments, \<open>parse\<close> for \<open>ParseFromArray\<close> and \<open>build\<close> for \<open>BuildFile\<close>.
\<close>

fun build_files :: "('pool \<Rightarrow> 'file \<Rightarrow> 'pool option) \<Rightarrow> 'file list \<Rightarrow> 'pool \<Rightarrow> bool \<times> 'pool" where
  "build_files build [] pool = (True, pool)"
| "build_files build (x # xs) pool =
     (case build pool x of None \<Rightarrow> (False, pool) | Some pool1 \<Rightarrow> build_files build xs pool1)"

definition Register :: "(byte list \<Rightarrow> 'file list option) \<Rightarrow> ('pool \<Rightarrow> 'file \<Rightarrow> 'pool option) \<Rightarrow>
    memory \<Rightarrow> slice \<Rightarrow> 'pool \<Rightarrow> (bool \<times> 'pool) result" where
  "Register parse build mem s pool =
     (if s_end s \<le> s_start s then Inr (False, pool)
      else rbind (mem_load_n mem (s_start s) (unat (s_end s - s_start s))) (\<lambda>bs.
        case parse bs of None \<Rightarrow> Inr (False, pool) | Some files \<Rightarrow> Inr (build_files build files pool)))"

section \<open>Messages\<close>

definition new_Message :: "nat \<Rightarrow> message" where
  "new_Message d = Message d [] None"

definition FromString :: "nat \<Rightarrow> pb_env \<Rightarrow> memory \<Rightarrow> message \<Rightarrow> (bool \<times> message) run" where
  "FromString fuel env mem msg = Init_message fuel env mem (whole mem) msg"

definition has_any_field :: "message \<Rightarrow> bool" where
  "has_any_field msg \<longleftrightarrow> msg_fields msg \<noteq> []"

definition has_field :: "pb_env \<Rightarrow> message \<Rightarrow> string \<Rightarrow> bool" where
  "has_field env msg name =
     (case FindFieldByName env (message_descriptor msg) name of None \<Rightarrow> False
      | Some fd \<Rightarrow> fm_find (msg_fields msg) (fd_number fd) \<noteq> None)"

definition has_unknown_field :: "message \<Rightarrow> bool" where
  "has_unknown_field msg = (case unknown_fields msg of None \<Rightarrow> False | Some um \<Rightarrow> um \<noteq> [])"

text \<open>\<open>Clear\<close>: \<open>clear_fields\<close> is the loop over the fields, \<open>clear_values\<close> the one over the values.\<close>

fun Clear :: "pb_env \<Rightarrow> message \<Rightarrow> message result"
and clear_fields :: "pb_env \<Rightarrow> field_map \<Rightarrow> field_map result"
and clear_values :: "pb_env \<Rightarrow> pb_value list \<Rightarrow> message list result"
where
  "Clear env (Message d fm ufm) = rbind (clear_fields env fm) (\<lambda>left. Inr (Message d left ufm))"
| "clear_fields env [] = Inr []"
| "clear_fields env ((k, Field dec unk i wt fd vs) # fm) =
     (case fd of None \<Rightarrow> Inl MemoryFault
      | Some fdesc \<Rightarrow>
        if fd_type fdesc = TYPE_MESSAGE
        then rbind (clear_values env vs) (\<lambda>msgs.
               rbind (clear_fields env fm) (\<lambda>left.
                 Inr (if msgs \<noteq> []
                      then (k, Field dec unk i wt fd (map (\<lambda>m. set_embedded (Some m) (new_Value env)) msgs)) # left
                      else left)))
        else clear_fields env fm)"
| "clear_values env [] = Inr []"
| "clear_values env (Value e p em x # vs) =
     (case em of None \<Rightarrow> Inl MemoryFault
      | Some m \<Rightarrow> rbind (Clear env m) (\<lambda>m1.
          rbind (clear_values env vs) (\<lambda>msgs.
            Inr (if has_any_field m1 \<or> has_unknown_field m1 then m1 # msgs else msgs))))"

section \<open>Checks shared by the accessors\<close>

definition check_type :: "cpp_type set \<Rightarrow> pb_env \<Rightarrow> message \<Rightarrow> string \<Rightarrow> field_descriptor result" where
  "check_type types env msg name =
     (case FindFieldByName env (message_descriptor msg) name of None \<Rightarrow> Inl AssertionFailed
      | Some fd \<Rightarrow> require (fd_cpp_type fd \<in> types) (Inr fd))"

definition CheckInteger :: "pb_env \<Rightarrow> message \<Rightarrow> string \<Rightarrow> field_descriptor result" where
  "CheckInteger = check_type {CPPTYPE_INT32, CPPTYPE_INT64, CPPTYPE_UINT32, CPPTYPE_UINT64, CPPTYPE_BOOL, CPPTYPE_ENUM}"

definition CheckString :: "pb_env \<Rightarrow> message \<Rightarrow> string \<Rightarrow> field_descriptor result" where
  "CheckString = check_type {CPPTYPE_STRING}"

definition CheckReal :: "pb_env \<Rightarrow> message \<Rightarrow> string \<Rightarrow> field_descriptor result" where
  "CheckReal = check_type {CPPTYPE_DOUBLE, CPPTYPE_FLOAT}"

definition CheckMessage :: "pb_env \<Rightarrow> message \<Rightarrow> string \<Rightarrow> field_descriptor result" where
  "CheckMessage = check_type {CPPTYPE_MESSAGE}"

definition CheckValidIndex :: "pb_field \<Rightarrow> field_descriptor \<Rightarrow> nat \<Rightarrow> bool" where
  "CheckValidIndex f fd idx \<longleftrightarrow> \<not> (is_repeated fd \<and> idx \<ge> length (vals f))"

definition TryDecodeField :: "nat \<Rightarrow> pb_env \<Rightarrow> memory \<Rightarrow> pb_field \<Rightarrow> pb_field run" where
  "TryDecodeField fuel env mem f =
     (if decoded f then Some (Inr f)
      else fbind (DecodeField fuel env mem f) (\<lambda>(ok, f1). if ok then Some (Inr f1) else Some (Inl AssertionFailed)))"

text \<open>
  The steps every accessor takes on a field that is there: check the index, decode, assert that
  the field is decoded, and use index 0 for a field that is not repeated.
\<close>

definition decode_for :: "nat \<Rightarrow> pb_env \<Rightarrow> memory \<Rightarrow> pb_field \<Rightarrow> pb_field run" where
  "decode_for fuel env mem f =
     fbind (TryDecodeField fuel env mem f) (\<lambda>f1. Some (require (decoded f1) (Inr f1)))"

definition open_field :: "nat \<Rightarrow> pb_env \<Rightarrow> memory \<Rightarrow> field_descriptor \<Rightarrow> nat \<Rightarrow> pb_field \<Rightarrow> (pb_field \<times> nat) run" where
  "open_field fuel env mem fd idx f =
     (if \<not> CheckValidIndex f fd idx then Some (Inl AssertionFailed)
      else fbind (decode_for fuel env mem f) (\<lambda>f1. Some (Inr (f1, if is_repeated fd then idx else 0))))"

fun put_field :: "int \<Rightarrow> pb_field \<Rightarrow> message \<Rightarrow> message" where
  "put_field i f (Message d fm ufm) = Message d (fm_put i f fm) ufm"

fun erase_field :: "int \<Rightarrow> message \<Rightarrow> message" where
  "erase_field i (Message d fm ufm) = Message d (fm_erase i fm) ufm"

definition AddKnownField :: "int \<Rightarrow> field_descriptor \<Rightarrow> pb_field result" where
  "AddKnownField i fd = rbind (Helper_GetWireType fd) (\<lambda>wt. Inr (Field True False i wt (Some fd) []))"

section \<open>Reading\<close>

definition get_with :: "nat \<Rightarrow> pb_env \<Rightarrow> memory \<Rightarrow> message \<Rightarrow> field_descriptor \<Rightarrow> nat \<Rightarrow> 'a run \<Rightarrow>
    (pb_field \<Rightarrow> nat \<Rightarrow> 'a result) \<Rightarrow> ('a \<times> message) run" where
  "get_with fuel env mem msg fd idx absent get =
     (case fm_find (msg_fields msg) (fd_number fd) of
        None \<Rightarrow> fbind absent (\<lambda>x. Some (Inr (x, msg)))
      | Some f \<Rightarrow> fbind (open_field fuel env mem fd idx f) (\<lambda>(f1, i).
          Some (rbind (get f1 i) (\<lambda>x. Inr (x, put_field (fd_number fd) f1 msg)))))"

definition GetInteger :: "nat \<Rightarrow> pb_env \<Rightarrow> memory \<Rightarrow> message \<Rightarrow> string \<Rightarrow> nat \<Rightarrow> ((u32 \<times> u32) \<times> message) run" where
  "GetInteger fuel env mem msg name idx =
     fbind (Some (CheckInteger env msg name)) (\<lambda>fd.
       get_with fuel env mem msg fd idx
         (Some (require (\<not> is_repeated fd) (rbind (DefaultIntegerValue fd) (\<lambda>w. Inr (DecodeUInt64 w)))))
         (\<lambda>f i. rbind (RetrieveIntegerValue f i) (\<lambda>w. Inr (DecodeUInt64 w))))"

definition GetString :: "nat \<Rightarrow> pb_env \<Rightarrow> memory \<Rightarrow> message \<Rightarrow> string \<Rightarrow> nat \<Rightarrow> (byte list \<times> message) run" where
  "GetString fuel env mem msg name idx =
     fbind (Some (CheckString env msg name)) (\<lambda>fd.
       get_with fuel env mem msg fd idx (Some (Inr (fd_default_string fd)))
         (\<lambda>f i. rbind (field_value f i) (\<lambda>v. Inr (str v))))"

definition GetReal :: "nat \<Rightarrow> pb_env \<Rightarrow> memory \<Rightarrow> message \<Rightarrow> string \<Rightarrow> nat \<Rightarrow> (u64 \<times> message) run" where
  "GetReal fuel env mem msg name idx =
     fbind (Some (CheckReal env msg name)) (\<lambda>fd.
       get_with fuel env mem msg fd idx (Some (DefaultRealValue fd)) (\<lambda>f i. RetrieveRealValue env f i))"

text \<open>\<open>None\<close> is the null pointer.\<close>

definition GetMessage :: "nat \<Rightarrow> pb_env \<Rightarrow> memory \<Rightarrow> message \<Rightarrow> string \<Rightarrow> nat \<Rightarrow> (message option \<times> message) run" where
  "GetMessage fuel env mem msg name idx =
     fbind (Some (CheckMessage env msg name)) (\<lambda>fd.
       get_with fuel env mem msg fd idx (Some (Inr None)) (\<lambda>f i. rbind (field_value f i) (\<lambda>v. Inr (embedded v))))"

definition GetFieldSize :: "nat \<Rightarrow> pb_env \<Rightarrow> memory \<Rightarrow> message \<Rightarrow> string \<Rightarrow> (nat \<times> message) run" where
  "GetFieldSize fuel env mem msg name =
     (case FindFieldByName env (message_descriptor msg) name of None \<Rightarrow> Some (Inl AssertionFailed)
      | Some fd \<Rightarrow>
        (case fm_find (msg_fields msg) (fd_number fd) of None \<Rightarrow> Some (Inr (0, msg))
         | Some f \<Rightarrow> fbind (TryDecodeField fuel env mem f) (\<lambda>f1.
             Some (Inr (length (vals f1), put_field (fd_number fd) f1 msg)))))"

section \<open>Writing\<close>

definition add_first :: "message \<Rightarrow> field_descriptor \<Rightarrow> pb_value result \<Rightarrow> message run" where
  "add_first msg fd r =
     Some (rbind (AddKnownField (fd_number fd) fd) (\<lambda>f. rbind r (\<lambda>v.
       Inr (put_field (fd_number fd) (Field_Append v f) msg))))"

definition set_with :: "nat \<Rightarrow> pb_env \<Rightarrow> memory \<Rightarrow> message \<Rightarrow> field_descriptor \<Rightarrow> nat \<Rightarrow>
    (pb_value \<Rightarrow> pb_value result) \<Rightarrow> (pb_value \<Rightarrow> pb_value result) \<Rightarrow> message run" where
  "set_with fuel env mem msg fd idx new upd =
     (case fm_find (msg_fields msg) (fd_number fd) of
        None \<Rightarrow> add_first msg fd (new (new_Value env))
      | Some f \<Rightarrow> fbind (open_field fuel env mem fd idx f) (\<lambda>(f1, i).
          Some (rbind (modify_value upd i f1) (\<lambda>f2. Inr (put_field (fd_number fd) f2 msg)))))"

definition make_u64 :: "u32 \<Rightarrow> u32 \<Rightarrow> u64" where
  "make_u64 low hi = push_bit 32 (ucast hi) OR ucast low"

definition SetInteger :: "nat \<Rightarrow> pb_env \<Rightarrow> memory \<Rightarrow> message \<Rightarrow> string \<Rightarrow> nat \<Rightarrow> u32 \<Rightarrow> u32 \<Rightarrow> message run" where
  "SetInteger fuel env mem msg name idx low hi =
     fbind (Some (CheckInteger env msg name)) (\<lambda>fd.
       let g = Helper_SetInteger (fd_type fd) (make_u64 low hi) in set_with fuel env mem msg fd idx g g)"

definition SetReal :: "nat \<Rightarrow> pb_env \<Rightarrow> memory \<Rightarrow> message \<Rightarrow> string \<Rightarrow> nat \<Rightarrow> u64 \<Rightarrow> message run" where
  "SetReal fuel env mem msg name idx val =
     fbind (Some (CheckReal env msg name)) (\<lambda>fd.
       let g = Helper_SetReal env (fd_type fd) val in set_with fuel env mem msg fd idx g g)"

definition SetString :: "nat \<Rightarrow> pb_env \<Rightarrow> memory \<Rightarrow> message \<Rightarrow> string \<Rightarrow> nat \<Rightarrow> byte list \<Rightarrow> message run" where
  "SetString fuel env mem msg name idx val =
     fbind (Some (CheckString env msg name)) (\<lambda>fd.
       set_with fuel env mem msg fd idx (Helper_SetString (fd_type fd) val) (\<lambda>v. Inr (set_str val v)))"

section \<open>Adding\<close>

definition add_with :: "nat \<Rightarrow> pb_env \<Rightarrow> memory \<Rightarrow> message \<Rightarrow> field_descriptor \<Rightarrow> pb_value result \<Rightarrow> message run" where
  "add_with fuel env mem msg fd new =
     (case fm_find (msg_fields msg) (fd_number fd) of
        None \<Rightarrow> add_first msg fd new
      | Some f \<Rightarrow>
        if \<not> is_repeated fd then Some (Inl AssertionFailed)
        else fbind (decode_for fuel env mem f) (\<lambda>f1.
          Some (rbind new (\<lambda>v. Inr (put_field (fd_number fd) (Field_Append v f1) msg)))))"

definition AddInteger :: "nat \<Rightarrow> pb_env \<Rightarrow> memory \<Rightarrow> message \<Rightarrow> string \<Rightarrow> u32 \<Rightarrow> u32 \<Rightarrow> message run" where
  "AddInteger fuel env mem msg name low hi =
     fbind (Some (CheckInteger env msg name)) (\<lambda>fd.
       add_with fuel env mem msg fd (Helper_SetInteger (fd_type fd) (make_u64 low hi) (new_Value env)))"

definition AddReal :: "nat \<Rightarrow> pb_env \<Rightarrow> memory \<Rightarrow> message \<Rightarrow> string \<Rightarrow> u64 \<Rightarrow> message run" where
  "AddReal fuel env mem msg name val =
     fbind (Some (CheckReal env msg name)) (\<lambda>fd.
       add_with fuel env mem msg fd (Helper_SetReal env (fd_type fd) val (new_Value env)))"

definition AddString :: "nat \<Rightarrow> pb_env \<Rightarrow> memory \<Rightarrow> message \<Rightarrow> string \<Rightarrow> byte list \<Rightarrow> message run" where
  "AddString fuel env mem msg name val =
     fbind (Some (CheckString env msg name)) (\<lambda>fd.
       add_with fuel env mem msg fd (Helper_SetString (fd_type fd) val (new_Value env)))"

definition InternalAddMessage :: "pb_env \<Rightarrow> field_descriptor \<Rightarrow> pb_value result" where
  "InternalAddMessage env fd = rbind (MakeMessage fd) (\<lambda>m. Inr (set_embedded (Some m) (new_Value env)))"

definition AddMessage :: "nat \<Rightarrow> pb_env \<Rightarrow> memory \<Rightarrow> message \<Rightarrow> string \<Rightarrow> message run" where
  "AddMessage fuel env mem msg name =
     fbind (Some (CheckMessage env msg name)) (\<lambda>fd.
       add_with fuel env mem msg fd (InternalAddMessage env fd))"

section \<open>Deleting\<close>

definition delete_with :: "nat \<Rightarrow> pb_env \<Rightarrow> memory \<Rightarrow> message \<Rightarrow> field_descriptor \<Rightarrow> nat \<Rightarrow>
    (pb_field \<Rightarrow> nat \<Rightarrow> 'a result) \<Rightarrow> ('a \<times> message) run" where
  "delete_with fuel env mem msg fd idx get =
     (case fm_find (msg_fields msg) (fd_number fd) of
        None \<Rightarrow> Some (Inl AssertionFailed)
      | Some f \<Rightarrow> fbind (open_field fuel env mem fd idx f) (\<lambda>(f1, i).
          Some (rbind (get f1 i) (\<lambda>x. rbind (Field_Delete f1 i) (\<lambda>(v, f2).
            Inr (x, if has_value f2 then put_field (fd_number fd) f2 msg else erase_field (field_id f2) msg))))))"

definition DeleteInteger :: "nat \<Rightarrow> pb_env \<Rightarrow> memory \<Rightarrow> message \<Rightarrow> string \<Rightarrow> nat \<Rightarrow> ((u32 \<times> u32) \<times> message) run" where
  "DeleteInteger fuel env mem msg name idx =
     fbind (Some (CheckInteger env msg name)) (\<lambda>fd.
       delete_with fuel env mem msg fd idx (\<lambda>f i. rbind (RetrieveIntegerValue f i) (\<lambda>w. Inr (DecodeUInt64 w))))"

text \<open>The whole word \<open>d.d\<close> is returned, for a float field too.\<close>

definition DeleteReal :: "nat \<Rightarrow> pb_env \<Rightarrow> memory \<Rightarrow> message \<Rightarrow> string \<Rightarrow> nat \<Rightarrow> (u64 \<times> message) run" where
  "DeleteReal fuel env mem msg name idx =
     fbind (Some (CheckReal env msg name)) (\<lambda>fd.
       delete_with fuel env mem msg fd idx (\<lambda>f i. rbind (Field_Delete f i) (\<lambda>(v, f1). Inr (primitive v))))"

definition DeleteString :: "nat \<Rightarrow> pb_env \<Rightarrow> memory \<Rightarrow> message \<Rightarrow> string \<Rightarrow> nat \<Rightarrow> (byte list \<times> message) run" where
  "DeleteString fuel env mem msg name idx =
     fbind (Some (CheckString env msg name)) (\<lambda>fd.
       delete_with fuel env mem msg fd idx (\<lambda>f i. rbind (Field_Delete f i) (\<lambda>(v, f1). Inr (str v))))"

definition DeleteMessage :: "nat \<Rightarrow> pb_env \<Rightarrow> memory \<Rightarrow> message \<Rightarrow> string \<Rightarrow> nat \<Rightarrow> (message option \<times> message) run" where
  "DeleteMessage fuel env mem msg name idx =
     fbind (Some (CheckMessage env msg name)) (\<lambda>fd.
       delete_with fuel env mem msg fd idx (\<lambda>f i. rbind (Field_Delete f i) (\<lambda>(v, f1). Inr (embedded v))))"

section \<open>Writing a message out\<close>

definition ToString :: "pb_env \<Rightarrow> memory \<Rightarrow> message \<Rightarrow> (bool \<times> byte list) result" where
  "ToString env mem msg =
     rbind (EncodeMessage env mem msg EncoderBuffer) (\<lambda>(ok, buf).
       if \<not> ok then Inr (False, []) else Inr (True, eb_bytes buf))"

end
