(* ===== verification/Pb_Roundtrip.thy ===== *)
theory Pb_Roundtrip
  imports Pb_Codec Pb_Message
begin

unbundle bit_operations_syntax

text \<open>
  The encoder on fields that were never decoded, and the round trip of a whole message: what
  \<open>FromString\<close> read, \<open>ToString\<close> writes back in canonical order.
\<close>

section \<open>Appending\<close>

definition eb_ok :: "encoder_buffer \<Rightarrow> bool" where
  "eb_ok buf \<longleftrightarrow> kStackBufLength \<le> eb_capacity buf \<and> eb_size buf \<le> eb_capacity buf"

definition appends :: "encoder_buffer \<Rightarrow> byte list \<Rightarrow> encoder_buffer result \<Rightarrow> bool" where
  "appends buf bs r \<longleftrightarrow> (\<exists>buf1. r = Inr buf1 \<and> eb_bytes buf1 = eb_bytes buf @ bs \<and> eb_ok buf1)"

lemma eb_ok_new [simp]: "eb_ok EncoderBuffer"
  by (simp add: eb_ok_def EncoderBuffer_def eb_size_def)

lemma appends_from:
  assumes "eb_ok buf" "length bs \<le> kStackBufLength"
  shows "appends buf bs (Append_from buf (length bs) (Inr bs))"
  using assms unfolding appends_def eb_ok_def Append_from_def Let_def ReallocBuffer_def
  by (cases buf) (auto simp: eb_size_def)

lemma appends_buffer: "eb_ok buf \<Longrightarrow> eb_size other \<le> kStackBufLength \<Longrightarrow> appends buf (eb_bytes other) (Append_buffer buf other)"
  using appends_from [of buf "eb_bytes other"] by (simp add: Append_buffer_def eb_size_def)

lemma appends_bytes: "eb_ok buf \<Longrightarrow> length bs \<le> kStackBufLength \<Longrightarrow> appends buf bs (Append_bytes buf bs)"
  using appends_from [of buf bs] by (simp add: Append_bytes_def)

lemma appends_slice:
  assumes "eb_ok buf" "s_start s \<le> s_end s" "slice_bytes mem s = Inr bs" "length bs \<le> kStackBufLength"
    and "unat (s_end s - s_start s) = length bs"
  shows "appends buf bs (Append_slice mem buf s)"
  using appends_from [OF assms(1,4)] assms by (simp add: Append_slice_def slice_bytes_def Let_def)

lemma appends_bind:
  assumes "appends buf xs r" "\<And>buf1. eb_ok buf1 \<Longrightarrow> appends buf1 ys (k buf1)"
  shows "appends buf (xs @ ys) (rbind r k)"
proof -
  obtain buf1 where "r = Inr buf1" "eb_bytes buf1 = eb_bytes buf @ xs" "eb_ok buf1"
    using assms(1) by (auto simp: appends_def)
  with assms(2) [of buf1] show ?thesis by (auto simp: appends_def)
qed

lemma appends_each:
  assumes "list_all2 (\<lambda>v bs. \<forall>buf. eb_ok buf \<longrightarrow> appends buf bs (g v buf)) vs bss" "eb_ok buf"
  shows "appends buf (concat bss) (append_each g vs buf)"
  using assms
proof (induction arbitrary: buf rule: list_all2_induct)
  case Nil
  then show ?case by (simp add: appends_def)
next
  case (Cons v vs bs bss)
  then show ?case by (auto intro!: appends_bind)
qed

section \<open>Tags\<close>

lemma field_tag_number: "n < 2 ^ 29 \<Longrightarrow> wire_type_number wt < 8 \<Longrightarrow> unat (field_tag (int n) wt) = 8 * n + wire_type_number wt"
proof -
  assume n: "n < 2 ^ 29" and w: "wire_type_number wt < 8"
  have "of_nat (wire_type_number wt) AND push_bit 3 (of_nat n :: u32) = 0"
  proof (rule bit_word_eqI)
    fix k
    have "take_bit 3 (of_nat (wire_type_number wt) :: u32) = of_nat (wire_type_number wt)"
      using w by (simp add: take_bit_of_nat take_bit_nat_eq_self)
    then have "bit (of_nat (wire_type_number wt) :: u32) k \<Longrightarrow> k < 3" by (metis bit_take_bit_iff)
    then show "bit (of_nat (wire_type_number wt) AND push_bit 3 (of_nat n :: u32)) k = bit 0 k"
      by (auto simp: bit_and_iff bit_push_bit_iff)
  qed
  then have "field_tag (int n) wt = of_nat (8 * n + wire_type_number wt)"
    using word_plus_and_or [of "of_nat (wire_type_number wt)" "push_bit 3 (of_nat n :: u32)"]
    by (simp add: field_tag_def push_bit_eq_mult or.commute add.commute and.commute)
  then show ?thesis using n w by (simp add: unat_of_nat_small del: of_nat_add of_nat_mult)
qed

lemma EncodeTag_item:
  assumes "item_ok it"
  obtains tb where "EncodeTag (int (fst it)) (payload_wire_type (snd it)) = Inr tb"
    "eb_bytes tb = varint (tag_number it)" "eb_size tb \<le> kStackBufLength"
proof -
  let ?w = "field_tag (int (fst it)) (payload_wire_type (snd it))"
  have "unat ?w = tag_number it"
    using field_tag_number wire_type_number_less assms by (simp add: item_ok_def tag_number_def)
  then have u: "unat (ucast ?w :: u64) = tag_number it"
    using tag_number_less [OF assms] by (simp add: unsigned_ucast_eq take_bit_nat_eq_self)
  have len: "length (varint (tag_number it)) \<le> 10" using length_varint_u64 [of "ucast ?w"] by (simp only: u)
  have "appends EncoderBuffer (varint (tag_number it)) (Append_bytes EncoderBuffer (varint (tag_number it)))"
    by (rule appends_bytes) (use len in \<open>simp_all add: kStackBufLength_def\<close>)
  with that len show thesis
    by (auto simp: EncodeTag_def EncodeVarint_eq u appends_def EncoderBuffer_def eb_size_def kStackBufLength_def)
qed

lemma holds_slice:
  assumes "mem_ok mem" "holds_payload mem wt v p"
  shows "s_start (encoded v) \<le> s_end (encoded v)" "slice_bytes mem (encoded v) = Inr (payload_bytes p)"
    "unat (s_end (encoded v) - s_start (encoded v)) = length (payload_bytes p)"
proof -
  obtain a r where a: "encoded v = \<lparr>s_start = addr mem a, s_end = addr mem (a + length (payload_bytes p))\<rparr>"
    "a \<le> length (mem_bytes mem)" "drop a (mem_bytes mem) = payload_bytes p @ r"
    using assms(2) by (auto simp: holds_payload_def)
  have le: "a + length (payload_bytes p) \<le> length (mem_bytes mem)" by (rule drop_length_le [OF a(3,2)])
  show "s_start (encoded v) \<le> s_end (encoded v)" using le assms(1) by (simp add: a(1) addr_le)
  show "slice_bytes mem (encoded v) = Inr (payload_bytes p)"
    using slice_bytes_addr [OF assms(1) _ le] a by (simp add: between_def)
  show "unat (s_end (encoded v) - s_start (encoded v)) = length (payload_bytes p)"
    using le assms(1) by (simp add: a(1) addr_diff mem_ok_def)
qed

section \<open>Encoding undecoded fields\<close>

text \<open>The field is undecoded and its slices hold the payloads \<open>P\<close> has for its number.\<close>

definition raw_field :: "memory \<Rightarrow> (int \<Rightarrow> payload list) \<Rightarrow> int \<Rightarrow> pb_field \<Rightarrow> bool" where
  "raw_field mem P k f \<longleftrightarrow>
     0 \<le> k \<and> k < 2 ^ 29 \<and> \<not> decoded f \<and> field_id f = k \<and> P k \<noteq> [] \<and>
     (\<forall>p\<in>set (P k). payload_wire_type p = field_wire_type f \<and> length (payload_bytes p) \<le> kStackBufLength) \<and>
     list_all2 (holds_payload mem (field_wire_type f)) (vals f) (P k)"

definition group_items :: "(int \<Rightarrow> payload list) \<Rightarrow> int \<Rightarrow> wire_item list" where
  "group_items P k = map (Pair (nat k)) (P k)"

lemma raw_field_appends:
  assumes "mem_ok mem" "raw_field mem P k f"
  obtains tb where "EncodeTag (field_id f) (field_wire_type f) = Inr tb"
    "\<And>buf. eb_ok buf \<Longrightarrow> appends buf (serialise (group_items P k)) (append_each (append_raw mem tb) (vals f) buf)"
proof -
  have k: "0 \<le> k" "k < 2 ^ 29" "field_id f = k" and P: "P k \<noteq> []"
    and all: "list_all2 (holds_payload mem (field_wire_type f)) (vals f) (P k)"
    and wt: "\<forall>p\<in>set (P k). payload_wire_type p = field_wire_type f \<and> length (payload_bytes p) \<le> kStackBufLength"
    using assms(2) unfolding raw_field_def by blast+
  have ok: "payload_ok p" if "p \<in> set (P k)" for p
    using all that by (auto simp: holds_payload_def list_all2_conv_all_nth in_set_conv_nth)
  let ?it = "(nat k, hd (P k))"
  have "item_ok ?it" "payload_wire_type (hd (P k)) = field_wire_type f"
    using k P ok wt by (simp_all add: item_ok_def nat_less_iff)
  then obtain tb where tb: "EncodeTag (field_id f) (field_wire_type f) = Inr tb"
    "eb_bytes tb = varint (tag_number ?it)" "eb_size tb \<le> kStackBufLength"
    using EncodeTag_item [of ?it] k by auto
  have tag: "tag_number (nat k, p) = tag_number ?it" if "p \<in> set (P k)" for p
    using that P wt by (simp add: tag_number_def)
  have step: "appends buf (item_bytes (nat k, p)) (append_raw mem tb v buf)"
    if h: "holds_payload mem (field_wire_type f) v p" "p \<in> set (P k)" "eb_ok buf" for v p buf
    unfolding append_raw_def item_bytes_def tag [OF h(2)] tb(2) [symmetric]
    by (rule appends_bind [OF appends_buffer]) (use h tb(3) wt holds_slice [OF assms(1) h(1)] in \<open>auto intro!: appends_slice\<close>)
  have "list_all2 (\<lambda>v p. \<forall>buf. eb_ok buf \<longrightarrow> appends buf (item_bytes (nat k, p)) (append_raw mem tb v buf)) (vals f) (P k)"
    by (rule list.rel_mono_strong [OF all]) (use step in blast)
  then have "list_all2 (\<lambda>v bs. \<forall>buf. eb_ok buf \<longrightarrow> appends buf bs (append_raw mem tb v buf)) (vals f)
      (map item_bytes (group_items P k))" by (simp add: group_items_def list.rel_map)
  from appends_each [OF this] tb(1) show thesis by (intro that [of tb]) (simp_all add: serialise_def)
qed

lemma encode_unknown_raw:
  assumes "mem_ok mem" "\<forall>(k, f)\<in>set fm. raw_field mem P k f" "eb_ok buf"
  shows "appends buf (serialise (concat (map (\<lambda>x. group_items P (fst x)) fm))) (encode_unknown mem fm buf)"
  using assms(2,3)
proof (induction fm arbitrary: buf)
  case Nil
  then show ?case by (simp add: appends_def serialise_def)
next
  case (Cons x fm)
  obtain k f where x: "x = (k, f)" by (cases x)
  obtain tb where tb: "EncodeTag (field_id f) (field_wire_type f) = Inr tb"
    "\<And>buf. eb_ok buf \<Longrightarrow> appends buf (serialise (group_items P k)) (append_each (append_raw mem tb) (vals f) buf)"
    using raw_field_appends [OF assms(1), of P k f] Cons.prems(1) x by auto
  have "appends buf (serialise (group_items P k) @ serialise (concat (map (\<lambda>x. group_items P (fst x)) fm)))
      (rbind (append_each (append_raw mem tb) (vals f) buf) (encode_unknown mem fm))"
    by (rule appends_bind [OF tb(2) [OF Cons.prems(2)]], rule Cons.IH) (use Cons.prems in simp_all)
  then show ?case by (simp add: x tb(1) serialise_def)
qed

lemma encode_fields_raw:
  assumes "mem_ok mem" "\<forall>(k, f)\<in>set fm. raw_field mem P k f" "eb_ok buf"
  shows "\<exists>buf1. encode_fields env mem fm buf = Inr (True, buf1) \<and> eb_ok buf1 \<and>
    eb_bytes buf1 = eb_bytes buf @ serialise (concat (map (\<lambda>x. group_items P (fst x)) fm))"
  using assms(2,3)
proof (induction fm arbitrary: buf)
  case Nil
  then show ?case by (simp add: serialise_def)
next
  case (Cons x fm)
  obtain k dec unk i wt fd vs where x: "x = (k, Field dec unk i wt fd vs)" by (cases x, cases "snd x") auto
  let ?f = "Field dec unk i wt fd vs"
  have raw: "raw_field mem P k ?f" using Cons.prems(1) x by simp
  obtain tb where tb: "EncodeTag (field_id ?f) (field_wire_type ?f) = Inr tb"
    "\<And>buf. eb_ok buf \<Longrightarrow> appends buf (serialise (group_items P k)) (append_each (append_raw mem tb) (vals ?f) buf)"
    using raw_field_appends [OF assms(1) raw] by blast
  obtain buf1 where b1: "append_each (append_raw mem tb) vs buf = Inr buf1" "eb_ok buf1"
    "eb_bytes buf1 = eb_bytes buf @ serialise (group_items P k)"
    using tb(2) [OF Cons.prems(2)] by (auto simp: appends_def)
  obtain buf2 where b2: "encode_fields env mem fm buf1 = Inr (True, buf2)" "eb_ok buf2"
    "eb_bytes buf2 = eb_bytes buf1 @ serialise (concat (map (\<lambda>x. group_items P (fst x)) fm))"
    using Cons.IH [OF _ b1(2)] Cons.prems(1) by auto
  have "\<not> dec" using raw by (simp add: raw_field_def)
  with tb(1) b1 b2 show ?case by (simp add: x serialise_def)
qed

lemma EncodeMessage_raw:
  assumes "mem_ok mem" "\<forall>(k, f)\<in>set fm. raw_field mem P k f" "\<forall>(k, f)\<in>set um. raw_field mem P k f"
    and "\<not> missing_required env d fm" "ufm = (if um = [] then None else Some um)"
  shows "\<exists>buf1. EncodeMessage env mem (Message d fm ufm) EncoderBuffer = Inr (True, buf1) \<and>
    eb_bytes buf1 = serialise (concat (map (group_items P) (map fst fm @ map fst um)))"
proof -
  obtain buf1 where b1: "encode_fields env mem fm EncoderBuffer = Inr (True, buf1)" "eb_ok buf1"
    "eb_bytes buf1 = serialise (concat (map (\<lambda>x. group_items P (fst x)) fm))"
    using encode_fields_raw [OF assms(1,2) eb_ok_new, of env] by (auto simp: EncoderBuffer_def)
  obtain buf2 where b2: "encode_unknown mem um buf1 = Inr buf2"
    "eb_bytes buf2 = eb_bytes buf1 @ serialise (concat (map (\<lambda>x. group_items P (fst x)) um))"
    using encode_unknown_raw [OF assms(1,3) b1(2)] by (auto simp: appends_def)
  show ?thesis
  proof (cases "um = []")
    case True
    with b1 assms(4,5) show ?thesis by (simp add: comp_def)
  next
    case False
    with b1 b2 assms(4,5) show ?thesis by (simp add: serialise_def comp_def)
  qed
qed

section \<open>Parsing a message and writing it back\<close>

lemma fm_put_last: "\<forall>k\<in>fst ` set fm. k < i \<Longrightarrow> fm_put i f fm = fm @ [(i, f)]"
  by (induction fm) auto

lemma fold_fm_put_sorted: "fm_ok (gm @ fm) \<Longrightarrow> fold (\<lambda>(k, f). fm_put k f) fm gm = gm @ fm"
proof (induction fm arbitrary: gm)
  case Nil
  then show ?case by simp
next
  case (Cons x fm)
  obtain i f where x: "x = (i, f)" by (cases x)
  have "\<forall>k\<in>fst ` set gm. k < i" using Cons.prems x by (force simp: fm_ok_def sorted_append less_le)
  then have "fm_put i f gm = gm @ [(i, f)]" by (rule fm_put_last)
  with Cons.IH [of "gm @ [(i, f)]"] Cons.prems x show ?case by simp
qed

lemma fm_ok_filter: "fm_ok fm \<Longrightarrow> fm_ok (filter P fm)"
  by (induction fm) (auto simp: fm_ok_Cons)

lemma Init_message_fresh:
  assumes "ParseMessageLazy fuel env mem s d [] = Some (Inr (True, fm))" "fm_ok fm"
  shows "Init_message fuel env mem s (new_Message d) =
    Some (Inr (True, Message d (filter (\<lambda>x. \<not> unknown (snd x)) fm)
      (if filter (\<lambda>x. unknown (snd x)) fm = [] then None else Some (filter (\<lambda>x. unknown (snd x)) fm))))"
proof -
  have e: "(\<lambda>(k, f). unknown f) = (\<lambda>x. unknown (snd x))" "(\<lambda>(k, f). \<not> unknown f) = (\<lambda>x. \<not> unknown (snd x))"
    by (simp_all add: fun_eq_iff split_beta)
  have "filter (\<lambda>x. \<not> unknown (snd x)) fm = fm" if "filter (\<lambda>x. unknown (snd x)) fm = []"
    using that by (simp add: filter_empty_conv)
  moreover have "fold (\<lambda>(k, f). fm_put k f) (filter (\<lambda>x. unknown (snd x)) fm) [] = filter (\<lambda>x. unknown (snd x)) fm"
    using fold_fm_put_sorted [of "[]" "filter (\<lambda>x. unknown (snd x)) fm"] fm_ok_filter [OF assms(2)] by simp
  ultimately show ?thesis using assms(1) by (simp add: new_Message_def e Let_def)
qed

text \<open>
  The order in which a message is written back: known fields by number, then unknown fields by
  number, each with the payloads it kept.
\<close>

definition canonical :: "pb_env \<Rightarrow> nat \<Rightarrow> wire_item list \<Rightarrow> wire_item list" where
  "canonical env d items =
     (let ids = sorted_list_of_set (int ` fst ` set items)
      in concat (map (group_items (\<lambda>k. kept_payloads env d k items))
           (filter (\<lambda>k. FindFieldByNumber env d k \<noteq> None) ids @ filter (\<lambda>k. FindFieldByNumber env d k = None) ids)))"

definition env_ok :: "pb_env \<Rightarrow> nat \<Rightarrow> bool" where
  "env_ok env d \<longleftrightarrow>
     (\<forall>fd\<in>set (descriptor_fields env d). FindFieldByNumber env d (fd_number fd) = Some fd) \<and>
     (\<forall>n fd. FindFieldByName env d n = Some fd \<longrightarrow> FindFieldByNumber env d (fd_number fd) = Some fd)"

lemma sample_env_ok: "env_ok sample_env d"
  by (auto simp: env_ok_def sample_env_def sample_fields_def sample_field_def split: if_splits)

definition uniform_types :: "wire_item list \<Rightarrow> bool" where
  "uniform_types items \<longleftrightarrow>
     (\<forall>(n, p)\<in>set items. \<forall>(m, q)\<in>set items. n = m \<longrightarrow> payload_wire_type p = payload_wire_type q)"

lemma payloads_of_in: "p \<in> set (payloads_of k items) \<longleftrightarrow> (\<exists>n. k = int n \<and> (n, p) \<in> set items)"
  by (force simp: payloads_of_def)

lemma kept_payloads_subset: "payloads_of k items \<noteq> [] \<Longrightarrow> set (kept_payloads env d k items) \<subseteq> set (payloads_of k items)"
  by (auto simp: kept_payloads_def split: option.splits)

lemma kept_payloads_neq_Nil: "payloads_of k items \<noteq> [] \<Longrightarrow> kept_payloads env d k items \<noteq> []"
  by (auto simp: kept_payloads_def split: option.splits)

lemma parsed_raw_field:
  assumes "parsed_map env mem d (place 0 items) fm" "mem_bytes mem = serialise items" "\<forall>it\<in>set items. item_ok it"
    and "uniform_types items" "\<forall>it\<in>set items. length (payload_bytes (snd it)) \<le> kStackBufLength" "(k, f) \<in> set fm"
  shows "raw_field mem (\<lambda>k. kept_payloads env d k items) k f" "unknown f \<longleftrightarrow> FindFieldByNumber env d k = None"
proof -
  have "fm_find fm k = Some f"
    using assms(1,6) by (metis fm_find_in parsed_map_def)
  then have sh: "shows_field env mem d k (place 0 items) f"
    using assms(1) by (auto simp: parsed_map_def dest!: spec [of _ k])
  show "unknown f \<longleftrightarrow> FindFieldByNumber env d k = None" using sh by (simp add: shows_field_def)
  have ne: "items_of k (place 0 items) \<noteq> []" using sh by (simp add: shows_field_def)
  then have pne: "payloads_of k items \<noteq> []" using payloads_of_place [of k 0 items] by auto
  have "hd (payloads_of k items) = snd (snd (hd (items_of k (place 0 items))))"
    using payloads_of_place [of k 0 items] ne by (metis comp_apply hd_map)
  then have hdwt: "field_wire_type f = payload_wire_type (hd (payloads_of k items))"
    using sh by (simp add: shows_field_def)
  obtain n where n: "k = int n" "(n, hd (payloads_of k items)) \<in> set items"
    using hd_in_set [OF pne] payloads_of_in by blast
  have "payload_wire_type p = field_wire_type f \<and> length (payload_bytes p) \<le> kStackBufLength"
    if "p \<in> set (kept_payloads env d k items)" for p
  proof -
    have "p \<in> set (payloads_of k items)" using that kept_payloads_subset [OF pne] by blast
    then have "(n, p) \<in> set items" using n(1) by (auto simp: payloads_of_in)
    with n(2) assms(4,5) hdwt show ?thesis unfolding uniform_types_def by fastforce
  qed
  moreover have "0 \<le> k" "k < 2 ^ 29" using n assms(3) by (auto simp: item_ok_def)
  moreover have "\<not> decoded f" "field_id f = k" using sh by (simp_all add: shows_field_def)
  ultimately show "raw_field mem (\<lambda>k. kept_payloads env d k items) k f"
    using shows_field_holds [OF sh assms(2,3)] kept_payloads_neq_Nil [OF pne]
    unfolding raw_field_def by blast
qed

lemma parsed_map_keys:
  assumes "parsed_map env mem d (place 0 items) fm"
  shows "map fst fm = sorted_list_of_set (int ` fst ` set items)"
proof -
  have ok: "fm_ok fm" using assms by (simp add: parsed_map_def)
  have "k \<in> fst ` set fm \<longleftrightarrow> k \<in> int ` fst ` set items" for k
  proof -
    have "k \<in> fst ` set fm \<longleftrightarrow> payloads_of k items \<noteq> []"
      using parsed_map_find [OF assms, of k] fm_find_None [of fm k] by metis
    also have "\<dots> \<longleftrightarrow> k \<in> int ` fst ` set items" by (force simp: payloads_of_def filter_empty_conv)
    finally show ?thesis .
  qed
  then have "set (map fst fm) = int ` fst ` set items" by (simp only: set_map set_eq_iff simp_thms)
  with ok show ?thesis by (metis fm_ok_def sorted_list_of_set.idem_if_sorted_distinct)
qed

lemma map_fst_filter:
  "\<forall>x\<in>set fm. P x \<longleftrightarrow> Q (fst x) \<Longrightarrow> map fst (filter P fm) = filter Q (map fst fm)"
  by (induction fm) auto

text \<open>
  C3. Reading a well-formed message and writing it back: \<open>FromString\<close> then \<open>ToString\<close> returns true
  with the items in canonical order, known fields by number and then unknown fields by number,
  each with all the payloads it kept. Items of one field have one wire type and payloads fit the
  first output buffer.
\<close>

theorem FromString_ToString:
  assumes "mem_ok mem" "mem_bytes mem = serialise items" "\<forall>it\<in>set items. item_ok it" "length items < fuel"
    and "required_present env d items" "env_ok env d" "uniform_types items"
    and "\<forall>it\<in>set items. length (payload_bytes (snd it)) \<le> kStackBufLength"
  shows "\<exists>msg. FromString fuel env mem (new_Message d) = Some (Inr (True, msg)) \<and>
    ToString env mem msg = Inr (True, serialise (canonical env d items))"
proof -
  let ?P = "\<lambda>k. kept_payloads env d k items"
  obtain fm where fm: "ParseMessageLazy fuel env mem (whole mem) d [] = Some (Inr (True, fm))"
    "parsed_map env mem d (place 0 items) fm" by (rule ParseMessageLazy_parsed_map [OF assms(1-5)])
  have ok: "fm_ok fm" using fm(2) by (simp add: parsed_map_def)
  note raw = parsed_raw_field [OF fm(2) assms(2,3,7,8)]
  let ?kn = "filter (\<lambda>x. \<not> unknown (snd x)) fm" and ?un = "filter (\<lambda>x. unknown (snd x)) fm"
  have keys: "map fst ?kn = filter (\<lambda>k. FindFieldByNumber env d k \<noteq> None) (map fst fm)"
    "map fst ?un = filter (\<lambda>k. FindFieldByNumber env d k = None) (map fst fm)"
    using raw(2) by (auto intro!: map_fst_filter)
  have "\<not> missing_required env d ?kn"
  proof
    assume "missing_required env d ?kn"
    then obtain fd where fd: "fd \<in> set (descriptor_fields env d)" "is_required fd" "fm_find ?kn (fd_number fd) = None"
      by (auto simp: missing_required_def)
    have "payloads_of (fd_number fd) items \<noteq> []" using fd assms(5) by (simp add: required_present_def)
    then have "fd_number fd \<in> set (map fst fm)"
      using parsed_map_find [OF fm(2), of "fd_number fd"] fm_find_None [of fm "fd_number fd"] by auto
    moreover have "FindFieldByNumber env d (fd_number fd) \<noteq> None" using fd(1) assms(6) by (simp add: env_ok_def)
    ultimately have "fd_number fd \<in> set (map fst ?kn)" unfolding keys by simp
    with fd(3) show False by (simp add: fm_find_None)
  qed
  then obtain buf where "EncodeMessage env mem (Message d ?kn (if ?un = [] then None else Some ?un)) EncoderBuffer = Inr (True, buf)"
    "eb_bytes buf = serialise (concat (map (group_items ?P) (map fst ?kn @ map fst ?un)))"
    using EncodeMessage_raw [of mem ?kn ?P ?un env d "if ?un = [] then None else Some ?un"] assms(1) raw(1) by auto
  then have "ToString env mem (Message d ?kn (if ?un = [] then None else Some ?un)) = Inr (True, serialise (canonical env d items))"
    unfolding keys parsed_map_keys [OF fm(2)] by (simp add: ToString_def canonical_def Let_def)
  with Init_message_fresh [OF fm(1) ok] show ?thesis by (auto simp: FromString_def)
qed

theorem FromString_ToString_witness:
  "(\<exists>msg. FromString 9 sample_env (sample_memory (serialise sample_items)) (new_Message 0) = Some (Inr (True, msg)) \<and>
     ToString sample_env (sample_memory (serialise sample_items)) msg = Inr (True, serialise (canonical sample_env 0 sample_items))) \<and>
   canonical sample_env 0 sample_items =
     [(1, PVarint 7), (2, PBlock [1, 2]), (2, PBlock []), (4, PBlock [8, 1]), (5, PBlock [1, 2, 3]), (9, PFixed32 [0, 0, 0, 1])]"
proof -
  have "uniform_types sample_items" by (simp add: uniform_types_def sample_items_def)
  moreover have "\<forall>it\<in>set sample_items. length (payload_bytes (snd it)) \<le> kStackBufLength"
    by (simp add: sample_items_def kStackBufLength_def varint.simps)
  moreover have "canonical sample_env 0 sample_items =
      [(1, PVarint 7), (2, PBlock [1, 2]), (2, PBlock []), (4, PBlock [8, 1]), (5, PBlock [1, 2, 3]), (9, PFixed32 [0, 0, 0, 1])]"
    by code_simp
  ultimately show ?thesis using FromString_ToString [OF sample_ok sample_env_ok] by blast
qed

end
