(* ===== verification/Indexed_List.thy ===== *)
theory Indexed_List
  imports Prelude
begin

text \<open>
  The contract of a component that keeps a sequence and gives access to it by index: its size, the
  element at an index, replacing it, appending, and deleting at an index. Repeated fields of a
  protobuf message and the vectors over raw memory promise it; a client that stays inside the
  bounds sees a list.
\<close>

datatype 'a list_op = ListSize | ListGet nat | ListSet nat 'a | ListAdd 'a | ListDelete nat

datatype 'a list_reply = ReplySize nat | ReplyItem 'a | ReplyUnit

section \<open>The reference\<close>

definition delete_at :: "nat \<Rightarrow> 'a list \<Rightarrow> 'a list" where
  "delete_at i xs = take i xs @ drop (Suc i) xs"

lemma length_delete_at [simp]: "i < length xs \<Longrightarrow> length (delete_at i xs) = length xs - 1"
  by (simp add: delete_at_def)

fun spec_op :: "nat \<Rightarrow> 'a list_op \<Rightarrow> 'a list \<Rightarrow> ('a list_reply \<times> 'a list) option" where
  "spec_op cap ListSize xs = Some (ReplySize (length xs), xs)"
| "spec_op cap (ListGet i) xs = (if i < length xs then Some (ReplyItem (xs ! i), xs) else None)"
| "spec_op cap (ListSet i x) xs = (if i < length xs then Some (ReplyUnit, xs[i := x]) else None)"
| "spec_op cap (ListAdd x) xs = (if length xs < cap then Some (ReplyUnit, xs @ [x]) else None)"
| "spec_op cap (ListDelete i) xs = (if i < length xs then Some (ReplyUnit, delete_at i xs) else None)"

fun spec_ops :: "nat \<Rightarrow> 'a list_op list \<Rightarrow> 'a list \<Rightarrow> ('a list_reply list \<times> 'a list) option" where
  "spec_ops cap [] xs = Some ([], xs)"
| "spec_ops cap (p # ps) xs =
     (case spec_op cap p xs of None \<Rightarrow> None
      | Some (r, ys) \<Rightarrow> (case spec_ops cap ps ys of None \<Rightarrow> None | Some (rs, zs) \<Rightarrow> Some (r # rs, zs)))"

section \<open>A component with these operations\<close>

text \<open>An operation gives \<open>None\<close> when it does not return normally: an abort, a fault, a loop.\<close>

fun list_step :: "('s \<Rightarrow> (nat \<times> 's) option) \<Rightarrow> ('s \<Rightarrow> nat \<Rightarrow> ('a \<times> 's) option) \<Rightarrow> ('s \<Rightarrow> nat \<Rightarrow> 'a \<Rightarrow> 's option) \<Rightarrow>
    ('s \<Rightarrow> 'a \<Rightarrow> 's option) \<Rightarrow> ('s \<Rightarrow> nat \<Rightarrow> 's option) \<Rightarrow> 'a list_op \<Rightarrow> 's \<Rightarrow> ('a list_reply \<times> 's) option" where
  "list_step count get put add del ListSize s = map_option (\<lambda>(n, t). (ReplySize n, t)) (count s)"
| "list_step count get put add del (ListGet i) s = map_option (\<lambda>(x, t). (ReplyItem x, t)) (get s i)"
| "list_step count get put add del (ListSet i x) s = map_option (\<lambda>t. (ReplyUnit, t)) (put s i x)"
| "list_step count get put add del (ListAdd x) s = map_option (\<lambda>t. (ReplyUnit, t)) (add s x)"
| "list_step count get put add del (ListDelete i) s = map_option (\<lambda>t. (ReplyUnit, t)) (del s i)"

fun list_run :: "('a list_op \<Rightarrow> 's \<Rightarrow> ('a list_reply \<times> 's) option) \<Rightarrow> 'a list_op list \<Rightarrow> 's \<Rightarrow>
    ('a list_reply list \<times> 's) option" where
  "list_run step [] s = Some ([], s)"
| "list_run step (p # ps) s =
     (case step p s of None \<Rightarrow> None
      | Some (r, t) \<Rightarrow> (case list_run step ps t of None \<Rightarrow> None | Some (rs, u) \<Rightarrow> Some (r # rs, u)))"

locale indexed_list =
  fixes rep :: "nat \<Rightarrow> 's \<Rightarrow> 'a list \<Rightarrow> bool"
    and count :: "'s \<Rightarrow> (nat \<times> 's) option"
    and get :: "'s \<Rightarrow> nat \<Rightarrow> ('a \<times> 's) option"
    and put :: "'s \<Rightarrow> nat \<Rightarrow> 'a \<Rightarrow> 's option"
    and add :: "'s \<Rightarrow> 'a \<Rightarrow> 's option"
    and del :: "'s \<Rightarrow> nat \<Rightarrow> 's option"
  assumes count_law: "rep cap s xs \<Longrightarrow> \<exists>t. count s = Some (length xs, t) \<and> rep cap t xs"
    and get_law: "rep cap s xs \<Longrightarrow> i < length xs \<Longrightarrow> \<exists>t. get s i = Some (xs ! i, t) \<and> rep cap t xs"
    and put_law: "rep cap s xs \<Longrightarrow> i < length xs \<Longrightarrow> \<exists>t. put s i x = Some t \<and> rep cap t (xs[i := x])"
    and add_law: "rep cap s xs \<Longrightarrow> length xs < cap \<Longrightarrow> \<exists>t. add s x = Some t \<and> rep cap t (xs @ [x])"
    and del_law: "rep cap s xs \<Longrightarrow> i < length xs \<Longrightarrow> \<exists>t. del s i = Some t \<and> rep cap t (delete_at i xs)"
begin

lemma step_ok:
  assumes "rep cap s xs" "spec_op cap p xs = Some (r, ys)"
  shows "\<exists>t. list_step count get put add del p s = Some (r, t) \<and> rep cap t ys"
  using assms count_law [OF assms(1)] get_law [OF assms(1)] put_law [OF assms(1)] add_law [OF assms(1)] del_law [OF assms(1)]
  by (cases p) (fastforce split: if_splits)+

text \<open>Every sequence of operations the reference accepts runs, with the replies of the reference.\<close>

lemma run_ok:
  "rep cap s xs \<Longrightarrow> spec_ops cap ps xs = Some (rs, ys) \<Longrightarrow>
   \<exists>t. list_run (list_step count get put add del) ps s = Some (rs, t) \<and> rep cap t ys"
proof (induction ps arbitrary: s xs rs)
  case Nil
  then show ?case by simp
next
  case (Cons p ps)
  obtain r zs qs where step: "spec_op cap p xs = Some (r, zs)" "spec_ops cap ps zs = Some (qs, ys)" "rs = r # qs"
    using Cons.prems(2) by (auto split: option.splits)
  obtain t where t: "list_step count get put add del p s = Some (r, t)" "rep cap t zs"
    using step_ok [OF Cons.prems(1) step(1)] by blast
  from Cons.IH [OF t(2) step(2)] t(1) step(3) show ?case by auto
qed

end

end
