(* ===== verification/Pb_Access.thy ===== *)
theory Pb_Access
  imports Pb_Roundtrip Indexed_List
begin

unbundle bit_operations_syntax

text \<open>
  The invariant of a message, that every operation of its interface keeps it, and that a read
  returns what a write stored.
\<close>

section \<open>The invariant of a message\<close>

text \<open>
  Every field stands under its own number, is a known one with the descriptor of that number, and
  has at least one value.
\<close>

definition field_ok :: "pb_env \<Rightarrow> nat \<Rightarrow> int \<Rightarrow> pb_field \<Rightarrow> bool" where
  "field_ok env d k f \<longleftrightarrow> field_id f = k \<and> \<not> unknown f \<and> vals f \<noteq> [] \<and>
     (\<exists>fd. descriptor f = Some fd \<and> FindFieldByNumber env d k = Some fd)"

definition msg_ok :: "pb_env \<Rightarrow> message \<Rightarrow> bool" where
  "msg_ok env msg \<longleftrightarrow> fm_ok (msg_fields msg) \<and>
     (\<forall>(k, f)\<in>set (msg_fields msg). field_ok env (message_descriptor msg) k f)"

text \<open>What decoding keeps of a field.\<close>

definition same_field :: "pb_field \<Rightarrow> pb_field \<Rightarrow> bool" where
  "same_field f g \<longleftrightarrow> field_id g = field_id f \<and> unknown g = unknown f \<and> descriptor g = descriptor f \<and>
     field_wire_type g = field_wire_type f \<and> length (vals f) \<le> length (vals g)"

lemma same_field_refl [simp]: "same_field f f"
  by (simp add: same_field_def)

lemma same_field_vals: "length (vals f) \<le> length vs \<Longrightarrow> same_field f (set_vals vs f)"
  "length (vals f) \<le> length vs \<Longrightarrow> same_field f (set_decoded b (set_vals vs f))"
  by (simp_all add: same_field_def)

lemma same_field_ok: "field_ok env d k f \<Longrightarrow> same_field f g \<Longrightarrow> field_ok env d k g"
  by (auto simp: field_ok_def same_field_def)

lemma rbind_split_eq: "rbind r (\<lambda>(x, y). k x y) = Inr z \<longleftrightarrow> (\<exists>x y. r = Inr (x, y) \<and> k x y = Inr z)"
  by (cases r) auto

lemma decode_varints_length: "decode_varints mem st vs = Inr (b, ws) \<Longrightarrow> length vs \<le> length ws"
proof (induction vs arbitrary: st b ws)
  case (Cons v vs)
  then show ?case by (auto simp: rbind_split_eq split: if_splits)
qed simp

lemma decode_fixed_length: "decode_fixed mem t vs = Inr (b, ws) \<Longrightarrow> length vs \<le> length ws"
proof (induction vs arbitrary: b ws)
  case (Cons v vs)
  then show ?case by (auto simp: rbind_split_eq rbind_eq_Inr split: if_splits)
qed simp

lemma decode_strings_length: "decode_strings mem t st vs = Inr (b, ws) \<Longrightarrow> length vs \<le> length ws"
proof (induction vs arbitrary: st b ws)
  case (Cons v vs)
  then show ?case by (auto simp: rbind_split_eq rbind_eq_Inr Let_def split: if_splits)
qed simp

lemma decode_messages_length: "decode_messages fuel env mem fd vs = Some (Inr (b, ws)) \<Longrightarrow> length vs \<le> length ws"
proof (induction vs arbitrary: b ws)
  case (Cons v vs)
  then show ?case
    by (auto simp: rbind_split_eq split: sum.splits option.splits prod.splits if_splits)
qed simp

lemma packed_loop_length: "packed_loop fuel env mem t st idx vs = Some (Inr (b, ws)) \<Longrightarrow> length vs \<le> length ws"
proof (induction fuel arbitrary: st idx vs)
  case 0
  then show ?case by simp
next
  case (Suc fuel)
  from Suc.prems show ?case
    by (fastforce split: if_splits sum.splits prod.splits list.splits dest: Suc.IH)
qed

lemma DecodeField_same:
  assumes "DecodeField fuel env mem f = Some (Inr (ok, g))"
  shows "same_field f g"
proof -
  obtain fd where fd: "descriptor f = Some fd" using assms by (cases "descriptor f") (simp_all add: DecodeField_def)
  have varint: "same_field f h" if "DecodeVarint env mem f = Inr (b, h)" for b h
    using that by (auto simp: DecodeVarint_def result_simps intro!: same_field_vals intro: decode_varints_length)
  have zigzag: "same_field f h" if "DecodeVarintWithZigZag env mem fd f = Inr (b, h)" for b h
    using that by (fastforce simp: DecodeVarintWithZigZag_def result_simps same_field_def split: if_splits dest: varint)
  have fixed: "same_field f h" if "DecodeFixed mem fd f = Inr (b, h)" for b h
    using that by (auto simp: DecodeFixed_def result_simps intro!: same_field_vals intro: decode_fixed_length)
  have string: "same_field f h" if "DecodeString env mem fd f = Inr (b, h)" for b h
    using that by (auto simp: DecodeString_def result_simps intro!: same_field_vals intro: decode_strings_length)
  have message: "same_field f h" if "DecodeMessage fuel env mem fd f = Some (Inr (b, h))" for b h
    using that by (auto simp: DecodeMessage_def rbind_split_eq intro!: same_field_vals intro: decode_messages_length split: if_splits)
  have packed: "same_field f h" if "DecodePacked fuel env mem fd f = Some (Inr (b, h))" for b h
    using that by (auto simp: DecodePacked_def rbind_split_eq intro!: same_field_vals dest!: packed_loop_length split: if_splits list.splits)
  from assms fd show ?thesis
    by (auto simp: DecodeField_def split: if_splits intro: varint zigzag fixed string message packed)
qed

lemma open_field_same:
  "open_field fuel env mem fd idx f = Some (Inr (g, i)) \<Longrightarrow>
     same_field f g \<and> decoded g \<and> i = (if is_repeated fd then idx else 0) \<and> CheckValidIndex f fd idx"
  by (auto simp: open_field_def decode_for_def TryDecodeField_def run_eq_simps DecodeField_same split: if_splits)

lemma decode_for_same: "decode_for fuel env mem f = Some (Inr g) \<Longrightarrow> same_field f g \<and> decoded g"
  by (auto simp: decode_for_def TryDecodeField_def run_eq_simps DecodeField_same split: if_splits)

section \<open>Every operation keeps the invariant\<close>

lemma put_field_simps [simp]:
  "msg_fields (put_field k f msg) = fm_put k f (msg_fields msg)"
  "message_descriptor (put_field k f msg) = message_descriptor msg"
  "unknown_fields (put_field k f msg) = unknown_fields msg"
  "msg_fields (erase_field k msg) = fm_erase k (msg_fields msg)"
  "message_descriptor (erase_field k msg) = message_descriptor msg"
  "unknown_fields (erase_field k msg) = unknown_fields msg"
  by (cases msg; simp)+

lemma msg_ok_iff: "msg_ok env msg \<longleftrightarrow> fm_ok (msg_fields msg) \<and>
    (\<forall>k f. fm_find (msg_fields msg) k = Some f \<longrightarrow> field_ok env (message_descriptor msg) k f)"
proof (cases "fm_ok (msg_fields msg)")
  case True
  have "(k, f) \<in> set (msg_fields msg) \<longleftrightarrow> fm_find (msg_fields msg) k = Some f" for k f
    using fm_find_in [OF True] fm_find_Some_in by blast
  then show ?thesis by (simp add: msg_ok_def Ball_def)
qed (simp add: msg_ok_def)

lemma msg_ok_find: "msg_ok env msg \<Longrightarrow> fm_find (msg_fields msg) k = Some f \<Longrightarrow> field_ok env (message_descriptor msg) k f"
  by (simp add: msg_ok_iff)

lemma msg_ok_put: "msg_ok env msg \<Longrightarrow> field_ok env (message_descriptor msg) k f \<Longrightarrow> msg_ok env (put_field k f msg)"
  by (simp add: msg_ok_iff fm_put_ok fm_find_put)

lemma msg_ok_erase: "msg_ok env msg \<Longrightarrow> msg_ok env (erase_field k msg)"
  by (simp add: msg_ok_iff fm_erase_ok fm_find_erase)

definition known_field :: "pb_env \<Rightarrow> message \<Rightarrow> field_descriptor \<Rightarrow> bool" where
  "known_field env msg fd \<longleftrightarrow> FindFieldByNumber env (message_descriptor msg) (fd_number fd) = Some fd"

lemma check_type_known:
  "env_ok env (message_descriptor msg) \<Longrightarrow> check_type ts env msg name = Inr fd \<Longrightarrow>
   known_field env msg fd \<and> FindFieldByName env (message_descriptor msg) name = Some fd \<and> fd_cpp_type fd \<in> ts"
  by (auto simp: check_type_def env_ok_def known_field_def result_simps split: option.splits)

lemma AddKnownField_ok:
  "known_field env msg fd \<Longrightarrow> AddKnownField (fd_number fd) fd = Inr f \<Longrightarrow>
   field_ok env (message_descriptor msg) (fd_number fd) (Field_Append v f)"
  by (auto simp: AddKnownField_def result_simps Field_Append_def field_ok_def known_field_def)

lemma get_with_ok:
  assumes "msg_ok env msg" "get_with fuel env mem msg fd idx absent get = Some (Inr (x, msg1))"
  shows "msg_ok env msg1 \<and> message_descriptor msg1 = message_descriptor msg"
proof (cases "fm_find (msg_fields msg) (fd_number fd)")
  case None
  with assms show ?thesis by (auto simp: get_with_def run_eq_simps)
next
  case (Some f)
  with assms(2) obtain f1 i where "open_field fuel env mem fd idx f = Some (Inr (f1, i))"
    "msg1 = put_field (fd_number fd) f1 msg" by (auto simp: get_with_def run_eq_simps)
  with msg_ok_find [OF assms(1) Some] assms(1) show ?thesis
    by (auto intro!: msg_ok_put dest!: open_field_same intro: same_field_ok)
qed

lemma add_first_ok:
  assumes "msg_ok env msg" "known_field env msg fd" "add_first msg fd r = Some (Inr msg1)"
  shows "msg_ok env msg1 \<and> message_descriptor msg1 = message_descriptor msg"
  using assms AddKnownField_ok [OF assms(2)] by (auto simp: add_first_def run_eq_simps intro!: msg_ok_put)

lemma modify_value_same: "modify_value g i f = Inr f1 \<Longrightarrow> same_field f f1"
  by (auto simp: modify_value_def result_simps intro!: same_field_vals)

lemma set_with_ok:
  assumes "msg_ok env msg" "known_field env msg fd" "set_with fuel env mem msg fd idx new upd = Some (Inr msg1)"
  shows "msg_ok env msg1 \<and> message_descriptor msg1 = message_descriptor msg"
proof (cases "fm_find (msg_fields msg) (fd_number fd)")
  case None
  with assms add_first_ok [OF assms(1,2)] show ?thesis by (auto simp: set_with_def)
next
  case (Some f)
  with assms(3) obtain f1 i f2 where "open_field fuel env mem fd idx f = Some (Inr (f1, i))"
    "modify_value upd i f1 = Inr f2" "msg1 = put_field (fd_number fd) f2 msg"
    by (auto simp: set_with_def run_eq_simps)
  with msg_ok_find [OF assms(1) Some] assms(1) show ?thesis
    by (auto intro!: msg_ok_put dest!: open_field_same modify_value_same intro: same_field_ok)
qed

lemma add_with_ok:
  assumes "msg_ok env msg" "known_field env msg fd" "add_with fuel env mem msg fd new = Some (Inr msg1)"
  shows "msg_ok env msg1 \<and> message_descriptor msg1 = message_descriptor msg"
proof (cases "fm_find (msg_fields msg) (fd_number fd)")
  case None
  with assms add_first_ok [OF assms(1,2)] show ?thesis by (auto simp: add_with_def)
next
  case (Some f)
  with assms(3) obtain f1 v where "decode_for fuel env mem f = Some (Inr f1)"
    "msg1 = put_field (fd_number fd) (Field_Append v f1) msg"
    by (auto simp: add_with_def run_eq_simps split: if_splits)
  moreover have "same_field f (Field_Append v f1)" if "same_field f f1" for v f1
    using that by (simp add: same_field_def Field_Append_def)
  ultimately show ?thesis using msg_ok_find [OF assms(1) Some] assms(1)
    by (auto intro!: msg_ok_put dest!: decode_for_same intro: same_field_ok)
qed

lemma Field_Delete_ok:
  "Field_Delete f i = Inr (v, g) \<Longrightarrow> field_ok env d k f \<Longrightarrow> has_value g \<Longrightarrow> field_ok env d k g"
  by (auto simp: Field_Delete_def result_simps field_ok_def has_value_def)

lemma delete_with_ok:
  assumes "msg_ok env msg" "delete_with fuel env mem msg fd idx get = Some (Inr (x, msg1))"
  shows "msg_ok env msg1 \<and> message_descriptor msg1 = message_descriptor msg"
proof -
  obtain f f1 i v f2 where f: "fm_find (msg_fields msg) (fd_number fd) = Some f"
    "open_field fuel env mem fd idx f = Some (Inr (f1, i))" "Field_Delete f1 i = Inr (v, f2)"
    "msg1 = (if has_value f2 then put_field (fd_number fd) f2 msg else erase_field (field_id f2) msg)"
    using assms(2) by (auto simp: delete_with_def run_eq_simps split: option.splits)
  have "field_ok env (message_descriptor msg) (fd_number fd) f1"
    using msg_ok_find [OF assms(1) f(1)] open_field_same [OF f(2)] same_field_ok by blast
  then have "has_value f2 \<Longrightarrow> field_ok env (message_descriptor msg) (fd_number fd) f2"
    by (rule Field_Delete_ok [OF f(3)])
  with f(4) assms(1) show ?thesis by (simp add: msg_ok_put msg_ok_erase)
qed

lemma clear_fields_ok:
  "clear_fields env fm = Inr left \<Longrightarrow> fm_ok fm \<Longrightarrow> \<forall>(k, f)\<in>set fm. field_ok env2 d k f \<Longrightarrow>
   fm_ok left \<and> fst ` set left \<subseteq> fst ` set fm \<and> (\<forall>(k, f)\<in>set left. field_ok env2 d k f)"
proof (induction fm arbitrary: left)
  case Nil
  then show ?case by simp
next
  case (Cons x fm)
  obtain k dec unk i wt fd vs where x: "x = (k, Field dec unk i wt fd vs)" by (cases x, cases "snd x") auto
  have ok: "fm_ok fm" "\<forall>j\<in>fst ` set fm. k < j" "field_ok env2 d k (Field dec unk i wt fd vs)"
    using Cons.prems(2,3) x by (simp_all add: fm_ok_Cons)
  obtain rest where rest: "clear_fields env fm = Inr rest" "left = rest \<or>
      (\<exists>ms. ms \<noteq> [] \<and> left = (k, Field dec unk i wt fd (map (\<lambda>m. set_embedded (Some m) (new_Value env)) ms)) # rest)"
    using Cons.prems(1) x by (auto simp: result_simps split: option.splits if_splits)
  have IH: "fm_ok rest \<and> fst ` set rest \<subseteq> fst ` set fm \<and> (\<forall>(k, f)\<in>set rest. field_ok env2 d k f)"
    by (rule Cons.IH [OF rest(1) ok(1)]) (use Cons.prems(3) in simp)
  moreover have "\<forall>j\<in>fst ` set rest. k < j" using IH ok(2) by blast
  moreover have "fst ` set left \<subseteq> insert k (fst ` set rest)" using rest(2) by auto
  then have "fst ` set left \<subseteq> fst ` set (x # fm)" using IH x by auto
  ultimately show ?case using rest(2) ok(3) by (auto simp: fm_ok_Cons field_ok_def)
qed

lemma Clear_ok: "msg_ok env2 msg \<Longrightarrow> Clear env msg = Inr msg1 \<Longrightarrow> msg_ok env2 msg1 \<and> message_descriptor msg1 = message_descriptor msg"
proof -
  assume ok: "msg_ok env2 msg" and "Clear env msg = Inr msg1"
  then obtain left where left: "clear_fields env (msg_fields msg) = Inr left"
    "msg1 = Message (message_descriptor msg) left (unknown_fields msg)"
    by (cases msg) (auto simp: result_simps)
  from clear_fields_ok [OF left(1), of env2 "message_descriptor msg"] ok left(2) show ?thesis
    by (simp add: msg_ok_def)
qed

datatype msg_op =
    OpGetInteger string nat | OpGetReal string nat | OpGetString string nat | OpGetMessage string nat
  | OpGetFieldSize string | OpSetInteger string nat u32 u32 | OpSetReal string nat u64 | OpSetString string nat "byte list"
  | OpAddInteger string u32 u32 | OpAddReal string u64 | OpAddString string "byte list" | OpAddMessage string
  | OpDeleteInteger string nat | OpDeleteReal string nat | OpDeleteString string nat | OpDeleteMessage string nat | OpClear

definition drop_result :: "('a \<times> message) run \<Rightarrow> message run" where
  "drop_result r = fbind r (\<lambda>(x, m). Some (Inr m))"

fun apply_op :: "nat \<Rightarrow> pb_env \<Rightarrow> memory \<Rightarrow> message \<Rightarrow> msg_op \<Rightarrow> message run" where
  "apply_op fuel env mem msg (OpGetInteger n i) = drop_result (GetInteger fuel env mem msg n i)"
| "apply_op fuel env mem msg (OpGetReal n i) = drop_result (GetReal fuel env mem msg n i)"
| "apply_op fuel env mem msg (OpGetString n i) = drop_result (GetString fuel env mem msg n i)"
| "apply_op fuel env mem msg (OpGetMessage n i) = drop_result (GetMessage fuel env mem msg n i)"
| "apply_op fuel env mem msg (OpGetFieldSize n) = drop_result (GetFieldSize fuel env mem msg n)"
| "apply_op fuel env mem msg (OpSetInteger n i low hi) = SetInteger fuel env mem msg n i low hi"
| "apply_op fuel env mem msg (OpSetReal n i x) = SetReal fuel env mem msg n i x"
| "apply_op fuel env mem msg (OpSetString n i x) = SetString fuel env mem msg n i x"
| "apply_op fuel env mem msg (OpAddInteger n low hi) = AddInteger fuel env mem msg n low hi"
| "apply_op fuel env mem msg (OpAddReal n x) = AddReal fuel env mem msg n x"
| "apply_op fuel env mem msg (OpAddString n x) = AddString fuel env mem msg n x"
| "apply_op fuel env mem msg (OpAddMessage n) = AddMessage fuel env mem msg n"
| "apply_op fuel env mem msg (OpDeleteInteger n i) = drop_result (DeleteInteger fuel env mem msg n i)"
| "apply_op fuel env mem msg (OpDeleteReal n i) = drop_result (DeleteReal fuel env mem msg n i)"
| "apply_op fuel env mem msg (OpDeleteString n i) = drop_result (DeleteString fuel env mem msg n i)"
| "apply_op fuel env mem msg (OpDeleteMessage n i) = drop_result (DeleteMessage fuel env mem msg n i)"
| "apply_op fuel env mem msg OpClear = Some (Clear env msg)"

fun apply_ops :: "nat \<Rightarrow> pb_env \<Rightarrow> memory \<Rightarrow> message \<Rightarrow> msg_op list \<Rightarrow> message run" where
  "apply_ops fuel env mem msg [] = Some (Inr msg)"
| "apply_ops fuel env mem msg (x # xs) = fbind (apply_op fuel env mem msg x) (\<lambda>m. apply_ops fuel env mem m xs)"

lemmas access_defs = GetInteger_def GetReal_def GetString_def GetMessage_def SetInteger_def SetReal_def SetString_def
  AddInteger_def AddReal_def AddString_def AddMessage_def DeleteInteger_def DeleteReal_def DeleteString_def DeleteMessage_def

lemmas check_defs = CheckInteger_def CheckReal_def CheckString_def CheckMessage_def

lemma GetFieldSize_ok:
  assumes "msg_ok env msg" "GetFieldSize fuel env mem msg name = Some (Inr (n, msg1))"
  shows "msg_ok env msg1 \<and> message_descriptor msg1 = message_descriptor msg"
proof -
  have "same_field f f1" if "TryDecodeField fuel env mem f = Some (Inr f1)" for f f1
    using that by (auto simp: TryDecodeField_def run_eq_simps split: if_splits intro: DecodeField_same)
  then show ?thesis using assms
    by (auto simp: GetFieldSize_def run_eq_simps split: option.splits intro!: msg_ok_put
        intro: same_field_ok dest: msg_ok_find)
qed

lemma apply_op_ok:
  assumes "env_ok env (message_descriptor msg)" "msg_ok env msg" "apply_op fuel env mem msg x = Some (Inr msg1)"
  shows "msg_ok env msg1 \<and> message_descriptor msg1 = message_descriptor msg"
proof -
  note rules = get_with_ok set_with_ok add_with_ok delete_with_ok check_type_known [OF assms(1)]
  show ?thesis
    using assms(2,3)
    by (cases x) (auto simp: drop_result_def access_defs check_defs run_eq_simps Let_def
        dest: rules(1) [OF assms(2)] rules(2) [OF assms(2)] rules(3) [OF assms(2)] rules(4) [OF assms(2)] rules(5)
          GetFieldSize_ok Clear_ok)
qed

text \<open>What a parse of well-formed input leaves satisfies the invariant.\<close>

lemma FromString_msg_ok:
  assumes "mem_ok mem" "mem_bytes mem = serialise items" "\<forall>it\<in>set items. item_ok it" "length items < fuel"
    and "required_present env d items"
  obtains msg fm where "FromString fuel env mem (new_Message d) = Some (Inr (True, msg))" "msg_ok env msg"
    "message_descriptor msg = d" "parsed_map env mem d (place 0 items) fm"
    "msg_fields msg = filter (\<lambda>x. \<not> unknown (snd x)) fm"
proof -
  obtain fm where fm: "ParseMessageLazy fuel env mem (whole mem) d [] = Some (Inr (True, fm))"
    "parsed_map env mem d (place 0 items) fm" by (rule ParseMessageLazy_parsed_map [OF assms])
  have ok: "fm_ok fm" using fm(2) by (simp add: parsed_map_def)
  let ?un = "filter (\<lambda>x. unknown (snd x)) fm"
  let ?msg = "Message d (filter (\<lambda>x. \<not> unknown (snd x)) fm) (if ?un = [] then None else Some ?un)"
  have "field_ok env d k f" if "(k, f) \<in> set fm" "\<not> unknown f" for k f
  proof -
    have sh: "shows_field env mem d k (place 0 items) f"
      using fm_find_in [OF ok that(1)] fm(2) by (auto simp: parsed_map_def dest!: spec [of _ k])
    then have "vals f \<noteq> []"
      by (auto simp: shows_field_def kept_items_def split: option.splits if_splits)
    with sh that(2) show ?thesis by (auto simp: shows_field_def field_ok_def)
  qed
  then have "msg_ok env ?msg" using fm_ok_filter [OF ok] by (auto simp: msg_ok_def)
  with fm(2) Init_message_fresh [OF fm(1) ok] show thesis
    by (intro that [of ?msg fm]) (simp_all add: FromString_def)
qed

text \<open>
  C23. From the parse of a well-formed message on, every sequence of reads, writes, additions,
  deletions and clears that returns leaves a message with the invariant: fields ordered by number,
  each under its own number with its descriptor and never without a value.
\<close>

theorem message_invariant:
  assumes "mem_ok mem" "mem_bytes mem = serialise items" "\<forall>it\<in>set items. item_ok it" "length items < fuel"
    and "required_present env d items" "env_ok env d"
    and "FromString fuel env mem (new_Message d) = Some (Inr (ok, msg))" "apply_ops fuel env mem msg ops = Some (Inr msg1)"
  shows "ok \<and> msg_ok env msg1"
proof -
  have m: "msg_ok env msg" "message_descriptor msg = d" "ok"
    using FromString_msg_ok [OF assms(1-5)] assms(7) by auto
  have "msg_ok env m1" if "msg_ok env m" "message_descriptor m = d" "apply_ops fuel env mem m ops = Some (Inr m1)" for m m1
    using that
  proof (induction ops arbitrary: m)
    case (Cons x xs)
    then obtain m2 where "apply_op fuel env mem m x = Some (Inr m2)" "apply_ops fuel env mem m2 xs = Some (Inr m1)"
      by (auto simp: fbind_eq_Some)
    with Cons apply_op_ok [of env m fuel mem x m2] assms(6) show ?case by auto
  qed simp
  with m assms(8) show ?thesis by blast
qed

theorem message_invariant_witness:
  "\<exists>msg1. apply_ops 9 sample_env (sample_memory (serialise [])) (new_Message 0)
      [OpSetInteger ''id'' 0 7 0, OpAddString ''tags'' [1], OpDeleteString ''tags'' 0, OpClear] = Some (Inr msg1) \<and> msg_ok sample_env msg1"
proof -
  let ?ops = "[OpSetInteger ''id'' 0 7 0, OpAddString ''tags'' [1], OpDeleteString ''tags'' 0, OpClear]"
  let ?mem = "sample_memory (serialise [])"
  have mem: "mem_ok ?mem" "mem_bytes ?mem = serialise []" by (simp_all add: mem_ok_def sample_memory_def serialise_def)
  have req: "required_present sample_env 0 []"
    by (simp add: required_present_def sample_env_def sample_fields_def sample_field_def is_required_def)
  have parsed: "FromString 9 sample_env ?mem (new_Message 0) = Some (Inr (True, new_Message 0))" by code_simp
  have run: "apply_ops 9 sample_env ?mem (new_Message 0) ?ops = Some (Inr (new_Message 0))" by code_simp
  from message_invariant [OF mem _ _ req sample_env_ok parsed run] run show ?thesis by simp
qed

section \<open>Reading back what was written\<close>

lemma fm_put_same: "fm_ok fm \<Longrightarrow> fm_find fm k = Some f \<Longrightarrow> fm_put k f fm = fm"
proof (induction fm)
  case (Cons x fm)
  obtain i g where x: "x = (i, g)" by (cases x)
  have "\<forall>j\<in>fst ` set fm. i < j" "fm_ok fm" using Cons.prems(1) x by (auto simp: fm_ok_Cons)
  moreover have "k \<in> fst ` set fm" if "k \<noteq> i"
    using that Cons.prems(2) x fm_find_Some_in [of fm k f] by force
  ultimately show ?case using Cons x by force
qed simp

lemma put_field_same: "msg_ok env msg \<Longrightarrow> fm_find (msg_fields msg) k = Some f \<Longrightarrow> put_field k f msg = msg"
  by (cases msg) (simp add: msg_ok_iff fm_put_same)

lemma DecodeUInt64_make: "DecodeUInt64 (make_u64 low hi) = (low, hi)"
proof -
  have m: "w AND 0xffffffff = take_bit 32 w" for w :: u64
  proof -
    have "(0xffffffff :: u64) = mask 32" by (simp add: mask_eq_exp_minus_1)
    then show ?thesis by (simp add: take_bit_eq_mask)
  qed
  have "ucast (take_bit 32 (make_u64 low hi)) = low"
    by (rule bit_word_eqI) (auto simp: make_u64_def bit_ucast_iff bit_take_bit_iff bit_or_iff bit_push_bit_iff)
  moreover have "ucast (take_bit 32 (drop_bit 32 (make_u64 low hi))) = hi"
    by (rule bit_word_eqI)
      (auto simp: make_u64_def bit_ucast_iff bit_take_bit_iff bit_or_iff bit_push_bit_iff bit_drop_bit_eq dest: bit_imp_le_length)
  ultimately show ?thesis by (simp add: DecodeUInt64_def m)
qed

lemma set_f_u_simps: "f_u (set_f_u x w) = x"
proof (rule bit_word_eqI)
  fix n assume "n < LENGTH(32)"
  have "push_bit 32 (drop_bit 32 w) + ucast x = push_bit 32 (drop_bit 32 w) OR (ucast x :: u64)"
  proof -
    have "push_bit 32 (drop_bit 32 w) AND (ucast x :: u64) = 0"
      by (rule bit_word_eqI) (auto simp: bit_and_iff bit_push_bit_iff bit_ucast_iff dest: bit_imp_le_length)
    then show ?thesis using word_plus_and_or [of "push_bit 32 (drop_bit 32 w)" "ucast x :: u64"] by simp
  qed
  then show "bit (f_u (set_f_u x w)) n = bit x n"
    using \<open>n < LENGTH(32)\<close> by (simp add: f_u_def set_f_u_def bit_ucast_iff bit_or_iff bit_push_bit_iff)
qed

lemma DecodeUInt64_low: "DecodeUInt64 (ucast (ucast (make_u64 low hi) :: u32)) = (low, 0)"
proof -
  have "ucast (make_u64 low hi) = low"
    by (rule bit_word_eqI) (auto simp: make_u64_def bit_ucast_iff bit_or_iff bit_push_bit_iff)
  moreover have "(ucast low :: u64) = make_u64 low 0" by (simp add: make_u64_def)
  ultimately show ?thesis by (simp add: DecodeUInt64_make)
qed

text \<open>
  The shape of the message after a successful write: the field is decoded and holds the written
  value at the index a read will use.
\<close>

lemma set_with_result:
  assumes "msg_ok env msg" "known_field env msg fd" "set_with fuel env mem msg fd idx new upd = Some (Inr msg1)"
    and "fm_find (msg_fields msg) (fd_number fd) = None \<and> is_repeated fd \<longrightarrow> idx = 0"
  obtains f1 v where "fm_find (msg_fields msg1) (fd_number fd) = Some f1" "decoded f1" "descriptor f1 = Some fd"
    "(if is_repeated fd then idx else 0) < length (vals f1)"
    "new v = Inr (vals f1 ! (if is_repeated fd then idx else 0)) \<or> upd v = Inr (vals f1 ! (if is_repeated fd then idx else 0))"
    "\<forall>k. k \<noteq> fd_number fd \<longrightarrow> fm_find (msg_fields msg1) k = fm_find (msg_fields msg) k"
proof -
  have ok: "fm_ok (msg_fields msg)" using assms(1) by (simp add: msg_ok_iff)
  show thesis
  proof (cases "fm_find (msg_fields msg) (fd_number fd)")
    case None
    with assms(3,4) obtain f v where "AddKnownField (fd_number fd) fd = Inr f" "new (new_Value env) = Inr v"
      "msg1 = put_field (fd_number fd) (Field_Append v f) msg" "is_repeated fd \<longrightarrow> idx = 0"
      by (auto simp: set_with_def add_first_def run_eq_simps)
    then show thesis
      by (intro that [of "Field_Append v f" "new_Value env"])
        (auto simp: fm_find_put [OF ok] AddKnownField_def Field_Append_def result_simps)
  next
    case (Some f)
    with assms(3) obtain f1 i v w where *: "open_field fuel env mem fd idx f = Some (Inr (f1, i))"
      "field_value f1 i = Inr v" "upd v = Inr w" "msg1 = put_field (fd_number fd) (set_vals ((vals f1)[i := w]) f1) msg"
      by (auto simp: set_with_def modify_value_def run_eq_simps)
    from open_field_same [OF *(1)] have same: "same_field f f1" "decoded f1" "i = (if is_repeated fd then idx else 0)" by blast+
    have "descriptor f1 = Some fd"
      using msg_ok_find [OF assms(1) Some] same(1) assms(2) by (auto simp: field_ok_def known_field_def same_field_def)
    moreover have "i < length (vals f1)" using *(2) by (simp add: field_value_def split: if_splits)
    ultimately show thesis using * same
      by (intro that [of "set_vals ((vals f1)[i := w]) f1" v]) (simp_all add: fm_find_put [OF ok])
  qed
qed

lemma get_with_decoded:
  assumes "msg_ok env msg" "fm_find (msg_fields msg) (fd_number fd) = Some f" "decoded f"
    and "(if is_repeated fd then idx else 0) < length (vals f)" "get f (if is_repeated fd then idx else 0) = Inr x"
  shows "get_with fuel env mem msg fd idx absent get = Some (Inr (x, msg))"
proof -
  have "CheckValidIndex f fd idx" using assms(4) by (auto simp: CheckValidIndex_def split: if_splits)
  then have "open_field fuel env mem fd idx f = Some (Inr (f, if is_repeated fd then idx else 0))"
    using assms(3) by (simp add: open_field_def decode_for_def TryDecodeField_def)
  with assms(2,5) put_field_same [OF assms(1,2)] show ?thesis by (simp add: get_with_def)
qed

text \<open>
  After a successful \<open>SetInteger\<close> (at index 0 when it creates a repeated field) \<open>GetInteger\<close> at
  the same index returns the two halves that were written, the upper one as zero for the 32-bit
  fixed types, and no other field has changed.
\<close>

theorem SetInteger_GetInteger:
  assumes "env_ok env (message_descriptor msg)" "msg_ok env msg" "SetInteger fuel env mem msg name idx low hi = Some (Inr msg1)"
    and "FindFieldByName env (message_descriptor msg) name = Some fd" "has_field env msg name \<or> \<not> is_repeated fd \<or> idx = 0"
  shows "GetInteger fuel2 env mem2 msg1 name idx =
      Some (Inr ((low, if fd_type fd \<in> {TYPE_FIXED32, TYPE_SFIXED32} then 0 else hi), msg1)) \<and>
    (\<forall>k. k \<noteq> fd_number fd \<longrightarrow> fm_find (msg_fields msg1) k = fm_find (msg_fields msg) k)"
proof -
  let ?i = "if is_repeated fd then idx else 0" and ?g = "Helper_SetInteger (fd_type fd) (make_u64 low hi)"
  obtain fd2 where "CheckInteger env msg name = Inr fd2" using assms(3) by (auto simp: SetInteger_def fbind_eq_Some)
  with check_type_known [OF assms(1)] assms(4) have chk: "CheckInteger env msg name = Inr fd" "known_field env msg fd"
    by (fastforce simp: CheckInteger_def)+
  have set: "set_with fuel env mem msg fd idx ?g ?g = Some (Inr msg1)"
    using assms(3) chk(1) by (simp add: SetInteger_def Let_def)
  have msg1: "msg_ok env msg1" "message_descriptor msg1 = message_descriptor msg"
    using set_with_ok [OF assms(2) chk(2) set] by simp_all
  obtain f1 v where f1: "fm_find (msg_fields msg1) (fd_number fd) = Some f1" "decoded f1" "descriptor f1 = Some fd"
    "?i < length (vals f1)" "?g v = Inr (vals f1 ! ?i)"
    "\<forall>k. k \<noteq> fd_number fd \<longrightarrow> fm_find (msg_fields msg1) k = fm_find (msg_fields msg) k"
  proof (rule set_with_result [OF assms(2) chk(2) set])
    show "fm_find (msg_fields msg) (fd_number fd) = None \<and> is_repeated fd \<longrightarrow> idx = 0"
      using assms(4,5) by (auto simp: has_field_def)
  qed blast
  have chk1: "CheckInteger env msg1 name = Inr fd" using chk(1) msg1(2) by (simp add: CheckInteger_def check_type_def)
  have "rbind (RetrieveIntegerValue f1 ?i) (\<lambda>w. Inr (DecodeUInt64 w)) =
      Inr (low, if fd_type fd \<in> {TYPE_FIXED32, TYPE_SFIXED32} then 0 else hi)"
  proof (cases "fd_type fd \<in> {TYPE_FIXED32, TYPE_SFIXED32}")
    case True
    then have "vals f1 ! ?i = set_primitive (set_f_u (ucast (make_u64 low hi)) (primitive v)) v"
      using f1(5) by (auto simp: Helper_SetInteger_def varint_types_def)
    with True f1(3,4) show ?thesis
      by (auto simp: RetrieveIntegerValue_def field_value_def varint_types_def set_f_u_simps DecodeUInt64_low)
  next
    case False
    then have "vals f1 ! ?i = set_primitive (make_u64 low hi) v" "fd_type fd \<in> varint_types \<union> {TYPE_FIXED64, TYPE_SFIXED64}"
      using f1(5) by (auto simp: Helper_SetInteger_def split: if_splits)
    with False f1(3,4) show ?thesis
      by (auto simp: RetrieveIntegerValue_def field_value_def DecodeUInt64_make)
  qed
  from get_with_decoded [OF msg1(1) f1(1,2,4), where get = "\<lambda>f i. rbind (RetrieveIntegerValue f i) (\<lambda>w. Inr (DecodeUInt64 w))", OF this]
  show ?thesis using chk1 f1(6) by (simp add: GetInteger_def)
qed

theorem SetInteger_GetInteger_witness:
  "\<exists>msg1. SetInteger 1 sample_env (sample_memory []) (new_Message 0) ''id'' 0 7 9 = Some (Inr msg1) \<and>
     GetInteger 1 sample_env (sample_memory []) msg1 ''id'' 0 = Some (Inr ((7, 9), msg1))"
proof -
  let ?fd = "sample_field 1 TYPE_UINT64 CPPTYPE_UINT64 LABEL_OPTIONAL False"
  have "msg_ok sample_env (new_Message 0)" by (simp add: msg_ok_def new_Message_def)
  moreover obtain msg1 where set: "SetInteger 1 sample_env (sample_memory []) (new_Message 0) ''id'' 0 7 9 = Some (Inr msg1)"
    by (simp add: SetInteger_def CheckInteger_def check_type_def set_with_def add_first_def AddKnownField_def new_Message_def
        Helper_GetWireType_def Helper_SetInteger_def varint_types_def sample_env_def sample_fields_def sample_field_def Let_def)
  moreover have "FindFieldByName sample_env (message_descriptor (new_Message 0)) ''id'' = Some ?fd"
    by (simp add: sample_env_def sample_fields_def)
  moreover have "\<not> is_repeated ?fd" by (simp add: is_repeated_def sample_field_def)
  ultimately show ?thesis using SetInteger_GetInteger [OF sample_env_ok _ set, of ?fd 1 "sample_memory []"]
    by (auto simp: sample_field_def)
qed

end
