(* ===== verification/Pb_Text.thy ===== *)
theory Pb_Text
  imports Pb_Access
begin

text \<open>
  The accessors of a repeated string field against the contract of \<open>Indexed_List\<close>, and the
  deletion of a float.
\<close>

section \<open>A repeated string field is a list\<close>

definition field_strings :: "nat \<Rightarrow> pb_env \<Rightarrow> memory \<Rightarrow> message \<Rightarrow> field_descriptor \<Rightarrow> byte list list run" where
  "field_strings fuel env mem msg fd =
     (case fm_find (msg_fields msg) (fd_number fd) of None \<Rightarrow> Some (Inr [])
      | Some f \<Rightarrow> fbind (decode_for fuel env mem f) (\<lambda>f1. Some (Inr (map str (vals f1)))))"

record text_access =
  ta_fuel :: nat
  ta_env :: pb_env
  ta_mem :: memory
  ta_name :: string
  ta_msg :: message

definition returned :: "'a run \<Rightarrow> 'a option" where
  "returned r = (case r of Some (Inr x) \<Rightarrow> Some x | _ \<Rightarrow> None)"

lemma returned_simps [simp]: "returned (Some (Inr x)) = Some x" "returned (Some (Inl e)) = None" "returned None = None"
  by (simp_all add: returned_def)

definition text_count :: "text_access \<Rightarrow> (nat \<times> text_access) option" where
  "text_count s = map_option (\<lambda>(n, m). (n, s\<lparr>ta_msg := m\<rparr>))
     (returned (GetFieldSize (ta_fuel s) (ta_env s) (ta_mem s) (ta_msg s) (ta_name s)))"

definition text_get :: "text_access \<Rightarrow> nat \<Rightarrow> (byte list \<times> text_access) option" where
  "text_get s i = map_option (\<lambda>(x, m). (x, s\<lparr>ta_msg := m\<rparr>))
     (returned (GetString (ta_fuel s) (ta_env s) (ta_mem s) (ta_msg s) (ta_name s) i))"

definition text_put :: "text_access \<Rightarrow> nat \<Rightarrow> byte list \<Rightarrow> text_access option" where
  "text_put s i x = map_option (\<lambda>m. s\<lparr>ta_msg := m\<rparr>)
     (returned (SetString (ta_fuel s) (ta_env s) (ta_mem s) (ta_msg s) (ta_name s) i x))"

definition text_add :: "text_access \<Rightarrow> byte list \<Rightarrow> text_access option" where
  "text_add s x = map_option (\<lambda>m. s\<lparr>ta_msg := m\<rparr>)
     (returned (AddString (ta_fuel s) (ta_env s) (ta_mem s) (ta_msg s) (ta_name s) x))"

definition text_del :: "text_access \<Rightarrow> nat \<Rightarrow> text_access option" where
  "text_del s i = map_option (\<lambda>(x, m). s\<lparr>ta_msg := m\<rparr>)
     (returned (DeleteString (ta_fuel s) (ta_env s) (ta_mem s) (ta_msg s) (ta_name s) i))"

definition text_field :: "field_descriptor \<Rightarrow> bool" where
  "text_field fd \<longleftrightarrow> is_repeated fd \<and> \<not> fd_packed fd \<and> fd_cpp_type fd = CPPTYPE_STRING \<and> fd_type fd \<in> {TYPE_STRING, TYPE_BYTES}"

definition text_rep :: "nat \<Rightarrow> text_access \<Rightarrow> byte list list \<Rightarrow> bool" where
  "text_rep cap s xs \<longleftrightarrow> env_ok (ta_env s) (message_descriptor (ta_msg s)) \<and> msg_ok (ta_env s) (ta_msg s) \<and>
     (\<exists>fd. FindFieldByName (ta_env s) (message_descriptor (ta_msg s)) (ta_name s) = Some fd \<and> text_field fd \<and>
       field_strings (ta_fuel s) (ta_env s) (ta_mem s) (ta_msg s) fd = Some (Inr xs))"

lemma decode_strings_length_eq: "decode_strings mem t st vs = Inr (b, ws) \<Longrightarrow> length ws = length vs"
proof (induction vs arbitrary: st b ws)
  case (Cons v vs)
  then show ?case by (auto simp: rbind_split_eq rbind_eq_Inr Let_def split: if_splits)
qed simp

lemma text_decode_length:
  assumes "decode_for fuel env mem f = Some (Inr g)" "descriptor f = Some fd" "text_field fd"
  shows "length (vals g) = length (vals f)"
  using assms
  by (auto simp: decode_for_def TryDecodeField_def run_eq_simps DecodeField_def DecodeString_def text_field_def
      split: if_splits dest: decode_strings_length_eq)

text \<open>
  The two states of the field: absent, or decoded to the strings. Every operation is one of four
  changes to it.
\<close>

lemma field_strings_cases:
  assumes "msg_ok env msg" "known_field env msg fd" "text_field fd" "field_strings fuel env mem msg fd = Some (Inr xs)"
  obtains (absent) "fm_find (msg_fields msg) (fd_number fd) = None" "xs = []"
  | (present) f g where "fm_find (msg_fields msg) (fd_number fd) = Some f" "decode_for fuel env mem f = Some (Inr g)"
      "decoded g" "same_field f g" "length (vals g) = length (vals f)" "xs = map str (vals g)" "descriptor f = Some fd"
      "field_ok env (message_descriptor msg) (fd_number fd) g"
proof (cases "fm_find (msg_fields msg) (fd_number fd)")
  case None
  with assms(4) absent show thesis by (simp add: field_strings_def)
next
  case (Some f)
  have fok: "field_ok env (message_descriptor msg) (fd_number fd) f" by (rule msg_ok_find [OF assms(1) Some])
  then have fd: "descriptor f = Some fd" using assms(2) by (auto simp: field_ok_def known_field_def)
  obtain g where g: "decode_for fuel env mem f = Some (Inr g)" "xs = map str (vals g)"
    using assms(4) Some by (auto simp: field_strings_def run_eq_simps)
  from decode_for_same [OF g(1)] text_decode_length [OF g(1) fd assms(3)] g Some fd same_field_ok [OF fok]
  show thesis by (intro present) auto
qed

lemma decode_for_decoded: "decoded g \<Longrightarrow> decode_for fuel env mem g = Some (Inr g)"
  by (simp add: decode_for_def TryDecodeField_def)

lemma field_strings_put:
  "fm_ok (msg_fields msg) \<Longrightarrow> decoded g \<Longrightarrow>
   field_strings fuel env mem (put_field (fd_number fd) g msg) fd = Some (Inr (map str (vals g)))"
  by (simp add: field_strings_def fm_find_put decode_for_decoded)

lemma text_rep_put:
  assumes "text_rep cap s xs" "FindFieldByName (ta_env s) (message_descriptor (ta_msg s)) (ta_name s) = Some fd"
    and "decoded g" "field_ok (ta_env s) (message_descriptor (ta_msg s)) (fd_number fd) g"
  shows "text_rep cap (s\<lparr>ta_msg := put_field (fd_number fd) g (ta_msg s)\<rparr>) (map str (vals g))"
  using assms field_strings_put [of "ta_msg s" g] msg_ok_put [of "ta_env s" "ta_msg s" "fd_number fd" g]
  by (auto simp: text_rep_def msg_ok_iff)

lemma text_rep_erase:
  assumes "text_rep cap s xs" "FindFieldByName (ta_env s) (message_descriptor (ta_msg s)) (ta_name s) = Some fd"
  shows "text_rep cap (s\<lparr>ta_msg := erase_field (fd_number fd) (ta_msg s)\<rparr>) []"
  using assms msg_ok_erase [of "ta_env s" "ta_msg s" "fd_number fd"]
  by (auto simp: text_rep_def field_strings_def fm_find_erase msg_ok_iff)

lemma open_field_text:
  assumes "decode_for fuel env mem f = Some (Inr g)" "is_repeated fd" "i < length (vals f)"
  shows "open_field fuel env mem fd i f = Some (Inr (g, i))"
  using assms by (simp add: open_field_def CheckValidIndex_def)

lemma text_repD:
  assumes "text_rep cap s xs"
  obtains fd where "FindFieldByName (ta_env s) (message_descriptor (ta_msg s)) (ta_name s) = Some fd" "text_field fd"
    "field_strings (ta_fuel s) (ta_env s) (ta_mem s) (ta_msg s) fd = Some (Inr xs)" "msg_ok (ta_env s) (ta_msg s)"
    "known_field (ta_env s) (ta_msg s) fd" "CheckString (ta_env s) (ta_msg s) (ta_name s) = Inr fd" "is_repeated fd"
  using assms unfolding text_rep_def
  by (auto simp: env_ok_def known_field_def CheckString_def check_type_def text_field_def)

lemma text_count_law:
  assumes rep: "text_rep cap s xs"
  shows "\<exists>t. text_count s = Some (length xs, t) \<and> text_rep cap t xs"
proof -
  from rep obtain fd where fd: "FindFieldByName (ta_env s) (message_descriptor (ta_msg s)) (ta_name s) = Some fd" "text_field fd"
    "field_strings (ta_fuel s) (ta_env s) (ta_mem s) (ta_msg s) fd = Some (Inr xs)" "msg_ok (ta_env s) (ta_msg s)"
    "known_field (ta_env s) (ta_msg s) fd" by (rule text_repD)
  from fd(4,5,2,3) show ?thesis
  proof (cases rule: field_strings_cases)
    case absent
    with fd(1) rep show ?thesis by (simp add: text_count_def GetFieldSize_def)
  next
    case (present f g)
    then have "TryDecodeField (ta_fuel s) (ta_env s) (ta_mem s) f = Some (Inr g)"
      by (auto simp: decode_for_def run_eq_simps)
    with present fd(1) text_rep_put [OF rep fd(1) present(3,8)] show ?thesis
      by (simp add: text_count_def GetFieldSize_def)
  qed
qed

lemma text_get_law:
  assumes rep: "text_rep cap s xs" and i: "i < length xs"
  shows "\<exists>t. text_get s i = Some (xs ! i, t) \<and> text_rep cap t xs"
proof -
  from rep obtain fd where fd: "FindFieldByName (ta_env s) (message_descriptor (ta_msg s)) (ta_name s) = Some fd" "text_field fd"
    "field_strings (ta_fuel s) (ta_env s) (ta_mem s) (ta_msg s) fd = Some (Inr xs)" "msg_ok (ta_env s) (ta_msg s)"
    "known_field (ta_env s) (ta_msg s) fd" "CheckString (ta_env s) (ta_msg s) (ta_name s) = Inr fd" "is_repeated fd"
    by (rule text_repD)
  from fd(4,5,2,3) show ?thesis
  proof (cases rule: field_strings_cases)
    case absent
    with i show ?thesis by simp
  next
    case (present f g)
    with i have "open_field (ta_fuel s) (ta_env s) (ta_mem s) fd i f = Some (Inr (g, i))"
      using open_field_text [OF present(2) fd(7)] by simp
    with present fd(6) i text_rep_put [OF rep fd(1) present(3,8)] show ?thesis
      by (simp add: text_get_def GetString_def get_with_def field_value_def)
  qed
qed

lemma text_put_law:
  assumes rep: "text_rep cap s xs" and i: "i < length xs"
  shows "\<exists>t. text_put s i x = Some t \<and> text_rep cap t (xs[i := x])"
proof -
  from rep obtain fd where fd: "FindFieldByName (ta_env s) (message_descriptor (ta_msg s)) (ta_name s) = Some fd" "text_field fd"
    "field_strings (ta_fuel s) (ta_env s) (ta_mem s) (ta_msg s) fd = Some (Inr xs)" "msg_ok (ta_env s) (ta_msg s)"
    "known_field (ta_env s) (ta_msg s) fd" "CheckString (ta_env s) (ta_msg s) (ta_name s) = Inr fd" "is_repeated fd"
    by (rule text_repD)
  from fd(4,5,2,3) show ?thesis
  proof (cases rule: field_strings_cases)
    case absent
    with i show ?thesis by simp
  next
    case (present f g)
    with i have "open_field (ta_fuel s) (ta_env s) (ta_mem s) fd i f = Some (Inr (g, i))"
      using open_field_text [OF present(2) fd(7)] by simp
    moreover let ?g = "set_vals ((vals g)[i := set_str x (vals g ! i)]) g"
    have "field_ok (ta_env s) (message_descriptor (ta_msg s)) (fd_number fd) ?g"
      using present(8) by (auto simp: field_ok_def)
    from text_rep_put [OF rep fd(1) _ this] present
    have "text_rep cap (s\<lparr>ta_msg := put_field (fd_number fd) ?g (ta_msg s)\<rparr>) (xs[i := x])"
      by (simp add: map_update)
    ultimately show ?thesis using present fd(6) i
      by (simp add: text_put_def SetString_def set_with_def modify_value_def field_value_def)
  qed
qed

lemma text_add_law:
  assumes rep: "text_rep cap s xs"
  shows "\<exists>t. text_add s x = Some t \<and> text_rep cap t (xs @ [x])"
proof -
  from rep obtain fd where fd: "FindFieldByName (ta_env s) (message_descriptor (ta_msg s)) (ta_name s) = Some fd" "text_field fd"
    "field_strings (ta_fuel s) (ta_env s) (ta_mem s) (ta_msg s) fd = Some (Inr xs)" "msg_ok (ta_env s) (ta_msg s)"
    "known_field (ta_env s) (ta_msg s) fd" "CheckString (ta_env s) (ta_msg s) (ta_name s) = Inr fd" "is_repeated fd"
    by (rule text_repD)
  have new: "Helper_SetString (fd_type fd) x v = Inr (set_str x v)" for v
    using fd(2) by (auto simp: Helper_SetString_def text_field_def)
  from fd(4,5,2,3) show ?thesis
  proof (cases rule: field_strings_cases)
    case absent
    have "AddKnownField (fd_number fd) fd = Inr (Field True False (fd_number fd) kLengthDelimited (Some fd) [])"
      using fd(2) by (auto simp: AddKnownField_def Helper_GetWireType_def text_field_def varint_types_def)
    moreover let ?g = "Field_Append (set_str x (new_Value (ta_env s))) (Field True False (fd_number fd) kLengthDelimited (Some fd) [])"
    have "decoded ?g" "map str (vals ?g) = [x]" by (simp_all add: Field_Append_def)
    moreover have "field_ok (ta_env s) (message_descriptor (ta_msg s)) (fd_number fd) ?g"
      using fd(5) by (simp add: field_ok_def known_field_def Field_Append_def)
    ultimately show ?thesis using absent fd(6) new text_rep_put [OF rep fd(1), of ?g]
      by (simp add: text_add_def AddString_def add_with_def add_first_def)
  next
    case (present f g)
    let ?g = "Field_Append (set_str x (new_Value (ta_env s))) g"
    have "field_ok (ta_env s) (message_descriptor (ta_msg s)) (fd_number fd) ?g" "decoded ?g" "map str (vals ?g) = xs @ [x]"
      using present by (auto simp: field_ok_def Field_Append_def)
    with text_rep_put [OF rep fd(1), of ?g] present fd(6,7) new show ?thesis
      by (simp add: text_add_def AddString_def add_with_def)
  qed
qed

lemma text_del_law:
  assumes rep: "text_rep cap s xs" and i: "i < length xs"
  shows "\<exists>t. text_del s i = Some t \<and> text_rep cap t (delete_at i xs)"
proof -
  from rep obtain fd where fd: "FindFieldByName (ta_env s) (message_descriptor (ta_msg s)) (ta_name s) = Some fd" "text_field fd"
    "field_strings (ta_fuel s) (ta_env s) (ta_mem s) (ta_msg s) fd = Some (Inr xs)" "msg_ok (ta_env s) (ta_msg s)"
    "known_field (ta_env s) (ta_msg s) fd" "CheckString (ta_env s) (ta_msg s) (ta_name s) = Inr fd" "is_repeated fd"
    by (rule text_repD)
  from fd(4,5,2,3) show ?thesis
  proof (cases rule: field_strings_cases)
    case absent
    with i show ?thesis by simp
  next
    case (present f g)
    with i have op: "open_field (ta_fuel s) (ta_env s) (ta_mem s) fd i f = Some (Inr (g, i))"
      using open_field_text [OF present(2) fd(7)] by simp
    let ?g = "set_vals (take i (vals g) @ drop (Suc i) (vals g)) g"
    have del: "Field_Delete g i = Inr (vals g ! i, ?g)" using i present(6) by (simp add: Field_Delete_def)
    have strs: "map str (vals ?g) = delete_at i xs" using present(6) by (simp add: delete_at_def take_map drop_map)
    show ?thesis
    proof (cases "has_value ?g")
      case True
      have "field_ok (ta_env s) (message_descriptor (ta_msg s)) (fd_number fd) ?g"
        by (rule Field_Delete_ok [OF del present(8) True])
      from text_rep_put [OF rep fd(1) _ this] present(3) strs
      have "text_rep cap (s\<lparr>ta_msg := put_field (fd_number fd) ?g (ta_msg s)\<rparr>) (delete_at i xs)" by simp
      with op del True present(1) fd(6) show ?thesis
        by (simp add: text_del_def DeleteString_def delete_with_def)
    next
      case False
      then have "delete_at i xs = []" unfolding strs [symmetric] by (simp add: has_value_def)
      moreover have "field_id ?g = fd_number fd" using present(8) by (simp add: field_ok_def)
      ultimately show ?thesis using op del False present(1) fd(6) text_rep_erase [OF rep fd(1)]
        by (simp add: text_del_def DeleteString_def delete_with_def)
    qed
  qed
qed

interpretation text_list: indexed_list text_rep text_count text_get text_put text_add text_del
  by unfold_locales (rule text_count_law text_get_law text_put_law text_add_law text_del_law; assumption)+

text \<open>
  C22. Through \<open>GetFieldSize\<close>, \<open>GetString\<close>, \<open>SetString\<close>, \<open>AddString\<close> and \<open>DeleteString\<close> a repeated
  string field is a list of strings: every sequence of them that stays inside the bounds returns,
  gives the answers the list gives and leaves the field holding the list's final value.
\<close>

theorem repeated_string_field_is_list:
  assumes "text_rep cap s xs" "spec_ops cap ops xs = Some (replies, ys)"
  shows "\<exists>t. list_run (list_step text_count text_get text_put text_add text_del) ops s = Some (replies, t) \<and>
    text_rep cap t ys"
  by (rule text_list.run_ok [OF assms])

theorem repeated_string_field_is_list_witness:
  "\<exists>t. list_run (list_step text_count text_get text_put text_add text_del)
      [ListAdd [1], ListAdd [2, 3], ListSize, ListSet 0 [4], ListGet 0, ListDelete 0, ListGet 0, ListSize]
      \<lparr>ta_fuel = 1, ta_env = sample_env, ta_mem = sample_memory [], ta_name = ''tags'', ta_msg = new_Message 0\<rparr> =
    Some ([ReplyUnit, ReplyUnit, ReplySize 2, ReplyUnit, ReplyItem [4], ReplyUnit, ReplyItem [2, 3], ReplySize 1], t) \<and>
    text_rep 5 t [[2, 3]]"
proof (rule repeated_string_field_is_list)
  show "text_rep 5 \<lparr>ta_fuel = 1, ta_env = sample_env, ta_mem = sample_memory [], ta_name = ''tags'', ta_msg = new_Message 0\<rparr> []"
    by (auto simp: text_rep_def env_ok_def msg_ok_def new_Message_def field_strings_def text_field_def is_repeated_def
        sample_env_def sample_fields_def sample_field_def split: if_splits)
  show "spec_ops 5 [ListAdd [1], ListAdd [2, 3], ListSize, ListSet 0 [4], ListGet 0, ListDelete 0, ListGet 0, ListSize] [] =
    Some ([ReplyUnit, ReplyUnit, ReplySize 2, ReplyUnit, ReplyItem [4], ReplyUnit, ReplyItem [2, 3], ReplySize 1], [[2, 3]])"
    by (simp add: delete_at_def)
qed

section \<open>Deleting a float\<close>

text \<open>
  \<open>DeleteReal\<close> on a \<open>float\<close> field does not return the number \<open>GetReal\<close> returns: it reads the
  whole 64-bit word of the union as a double, the upper half of which no write has set.
\<close>

theorem DeleteReal_float_reads_double:
  assumes "FindFieldByName env (message_descriptor msg) name = Some fd" "\<not> fd_packed fd"
    and "fd_cpp_type fd = CPPTYPE_FLOAT" "fd_type fd = TYPE_FLOAT" "\<not> is_repeated fd"
    and "fm_ok (msg_fields msg)" "fm_find (msg_fields msg) (fd_number fd) = None"
  shows "\<exists>msg1 msg2. SetReal fuel env mem msg name 0 x = Some (Inr msg1) \<and>
    GetReal fuel env mem msg1 name 0 = Some (Inr (float_to_double env (double_to_float env x), msg1)) \<and>
    DeleteReal fuel env mem msg1 name 0 = Some (Inr (set_f_u (double_to_float env x) (indeterminate env), msg2))"
proof -
  let ?v = "set_primitive (set_f_u (double_to_float env x) (indeterminate env)) (new_Value env)"
  let ?f = "Field_Append ?v (Field True False (fd_number fd) k32Bits (Some fd) [])"
  let ?m = "put_field (fd_number fd) ?f msg"
  have chk: "CheckReal env m name = Inr fd" if "message_descriptor m = message_descriptor msg" for m
    using assms(1,3) that by (simp add: CheckReal_def check_type_def)
  have "AddKnownField (fd_number fd) fd = Inr (Field True False (fd_number fd) k32Bits (Some fd) [])"
    using assms(2,4) by (simp add: AddKnownField_def Helper_GetWireType_def varint_types_def)
  then have "SetReal fuel env mem msg name 0 x = Some (Inr ?m)"
    using chk [of msg] assms(4,7)
    by (simp add: SetReal_def set_with_def add_first_def Helper_SetReal_def Let_def new_Value_def)
  moreover have find: "fm_find (msg_fields ?m) (fd_number fd) = Some ?f" using assms(6) by (simp add: fm_find_put)
  have op: "open_field fuel env mem fd 0 ?f = Some (Inr (?f, 0))"
    using assms(5) by (simp add: open_field_def CheckValidIndex_def decode_for_decoded Field_Append_def)
  have same: "put_field (fd_number fd) ?f ?m = ?m"
    using find assms(6) by (cases msg) (simp add: fm_put_same fm_put_ok)
  have "GetReal fuel env mem ?m name 0 = Some (Inr (float_to_double env (double_to_float env x), ?m))"
    using chk [of ?m] find op same assms(4)
    by (simp add: GetReal_def get_with_def RetrieveRealValue_def field_value_def Field_Append_def set_f_u_simps)
  moreover have "\<exists>msg2. DeleteReal fuel env mem ?m name 0 =
      Some (Inr (set_f_u (double_to_float env x) (indeterminate env), msg2))"
    using chk [of ?m] find op by (simp add: DeleteReal_def delete_with_def Field_Delete_def Field_Append_def)
  ultimately show ?thesis by blast
qed

theorem DeleteReal_float_reads_double_witness:
  "\<exists>msg1 msg2. SetReal 1 sample_env (sample_memory []) (new_Message 0) ''score'' 0 0x3ff0000000000000 = Some (Inr msg1) \<and>
    GetReal 1 sample_env (sample_memory []) msg1 ''score'' 0 = Some (Inr (0x3ff0000000000000, msg1)) \<and>
    DeleteReal 1 sample_env (sample_memory []) msg1 ''score'' 0 = Some (Inr (0x3ff00000, msg2))"
proof -
  let ?fd = "sample_field 3 TYPE_FLOAT CPPTYPE_FLOAT LABEL_OPTIONAL False"
  have "\<exists>msg1 msg2. SetReal 1 sample_env (sample_memory []) (new_Message 0) ''score'' 0 0x3ff0000000000000 = Some (Inr msg1) \<and>
    GetReal 1 sample_env (sample_memory []) msg1 ''score'' 0 =
      Some (Inr (float_to_double sample_env (double_to_float sample_env 0x3ff0000000000000), msg1)) \<and>
    DeleteReal 1 sample_env (sample_memory []) msg1 ''score'' 0 =
      Some (Inr (set_f_u (double_to_float sample_env 0x3ff0000000000000) (indeterminate sample_env), msg2))"
    by (rule DeleteReal_float_reads_double [of _ _ _ ?fd])
      (simp_all add: sample_env_def sample_fields_def sample_field_def is_repeated_def new_Message_def)
  moreover have "float_to_double sample_env (double_to_float sample_env 0x3ff0000000000000) = 0x3ff0000000000000"
    "set_f_u (double_to_float sample_env 0x3ff0000000000000) (indeterminate sample_env) = 0x3ff00000"
    by (simp_all add: sample_env_def set_f_u_def)
  ultimately show ?thesis by simp
qed

end
