(* ===== verification/Pb_Clear.thy ===== *)
theory Pb_Clear
  imports Pb_Text
begin

text \<open>
  \<open>Message::Clear\<close>, which the code documents as clearing everything except the unknown fields of
  the message and of all messages embedded in it.
\<close>

section \<open>What Clear keeps\<close>

text \<open>The unknown fields of a message and of all messages embedded in it, in order.\<close>

fun all_unknown :: "message \<Rightarrow> field_map"
and all_unknown_fields :: "field_map \<Rightarrow> field_map"
and all_unknown_vals :: "pb_value list \<Rightarrow> field_map"
where
  "all_unknown (Message d fm ufm) = all_unknown_fields fm @ (case ufm of None \<Rightarrow> [] | Some um \<Rightarrow> um)"
| "all_unknown_fields [] = []"
| "all_unknown_fields ((k, Field dec unk i wt fd vs) # fm) =
     (case fd of Some fdesc \<Rightarrow> if fd_type fdesc = TYPE_MESSAGE then all_unknown_vals vs else [] | None \<Rightarrow> []) @
     all_unknown_fields fm"
| "all_unknown_vals [] = []"
| "all_unknown_vals (Value e p em x # vs) = (case em of None \<Rightarrow> [] | Some m \<Rightarrow> all_unknown m) @ all_unknown_vals vs"

text \<open>A message that holds nothing but unknown fields, its own or those of messages in it.\<close>

fun only_unknown :: "message \<Rightarrow> bool"
and only_unknown_fields :: "field_map \<Rightarrow> bool"
and only_unknown_vals :: "pb_value list \<Rightarrow> bool"
where
  "only_unknown (Message d fm ufm) \<longleftrightarrow> only_unknown_fields fm"
| "only_unknown_fields [] \<longleftrightarrow> True"
| "only_unknown_fields ((k, Field dec unk i wt fd vs) # fm) \<longleftrightarrow>
     (case fd of Some fdesc \<Rightarrow> fd_type fdesc = TYPE_MESSAGE \<and> vs \<noteq> [] \<and> only_unknown_vals vs | None \<Rightarrow> False) \<and>
     only_unknown_fields fm"
| "only_unknown_vals [] \<longleftrightarrow> True"
| "only_unknown_vals (Value e p em x # vs) \<longleftrightarrow>
     (case em of None \<Rightarrow> False | Some m \<Rightarrow> only_unknown m \<and> all_unknown m \<noteq> []) \<and> only_unknown_vals vs"

lemma new_value_message: "set_embedded (Some m) (new_Value env) = Value null_slice (indeterminate env) (Some m) []"
  by (simp add: new_Value_def)

lemma vals_of_messages:
  "all_unknown_vals (map (\<lambda>m. Value e p (Some m) x) ms) = concat (map all_unknown ms)"
  "only_unknown_vals (map (\<lambda>m. Value e p (Some m) x) ms) \<longleftrightarrow> (\<forall>m\<in>set ms. only_unknown m \<and> all_unknown m \<noteq> [])"
  by (induction ms) simp_all

lemma only_unknown_fields_neq: "only_unknown_fields fm \<Longrightarrow> fm \<noteq> [] \<Longrightarrow> all_unknown_fields fm \<noteq> []"
proof (cases fm)
  case (Cons x gm)
  assume "only_unknown_fields fm"
  moreover obtain k dec unk i wt fd vs where "x = (k, Field dec unk i wt fd vs)" by (cases x, cases "snd x") auto
  moreover have "only_unknown_vals vs \<Longrightarrow> vs \<noteq> [] \<Longrightarrow> all_unknown_vals vs \<noteq> []" for vs
    by (cases vs rule: all_unknown_vals.cases) (auto split: option.splits)
  ultimately show ?thesis using Cons by (auto split: option.splits)
qed simp

lemma left_over: "only_unknown m \<Longrightarrow> all_unknown m = [] \<longleftrightarrow> \<not> has_any_field m \<and> \<not> has_unknown_field m"
  by (cases m) (use only_unknown_fields_neq [of "msg_fields m"] in
      \<open>auto simp: has_any_field_def has_unknown_field_def split: option.splits\<close>)

lemma Clear_unknown:
  "Clear env m = Inr m1 \<Longrightarrow> all_unknown m1 = all_unknown m \<and> only_unknown m1"
  "clear_fields env fm = Inr left \<Longrightarrow> all_unknown_fields left = all_unknown_fields fm \<and> only_unknown_fields left"
  "clear_values env vs = Inr ms \<Longrightarrow> concat (map all_unknown ms) = all_unknown_vals vs \<and>
     (\<forall>m\<in>set ms. only_unknown m \<and> all_unknown m \<noteq> [])"
proof (induction env m and env fm and env vs arbitrary: m1 and left and ms
    rule: Clear_clear_fields_clear_values.induct)
  case (1 env d fm ufm)
  then show ?case by (auto simp: result_simps)
next
  case (2 env)
  then show ?case by simp
next
  case (3 env k dec unk i wt fd vs fm)
  show ?case
  proof (cases fd)
    case None
    with 3 show ?thesis by simp
  next
    case (Some fdesc)
    show ?thesis
    proof (cases "fd_type fdesc = TYPE_MESSAGE")
      case True
      with 3(4) Some obtain ms rest where ms: "clear_values env vs = Inr ms" "clear_fields env fm = Inr rest"
        "left = (if ms \<noteq> [] then (k, Field dec unk i wt fd (map (\<lambda>m. set_embedded (Some m) (new_Value env)) ms)) # rest else rest)"
        by (auto simp: result_simps)
      from 3(1) [OF Some True ms(1)] 3(2) [OF Some True ms(1,2)] ms(3) Some True show ?thesis
        by (auto simp: new_value_message vals_of_messages)
    next
      case False
      with 3 Some show ?thesis by auto
    qed
  qed
next
  case (4 env)
  then show ?case by simp
next
  case (5 env e p em x vs)
  show ?case
  proof (cases em)
    case None
    with 5 show ?thesis by simp
  next
    case (Some m)
    with 5(3) obtain m1 ns where m1: "Clear env m = Inr m1" "clear_values env vs = Inr ns"
      "ms = (if has_any_field m1 \<or> has_unknown_field m1 then m1 # ns else ns)"
      by (auto simp: result_simps)
    from 5(1) [OF Some m1(1)] 5(2) [OF Some m1(1,2)] m1(3) Some left_over [of m1] show ?thesis by auto
  qed
qed

text \<open>
  A \<open>Clear\<close> that returns keeps every unknown field of the message and of the messages embedded
  in it, in order, and nothing else: what is left are unknown fields and the embedded messages on
  the way to them.
\<close>

theorem Clear_keeps_unknown_fields:
  "Clear env msg = Inr msg1 \<Longrightarrow>
   all_unknown msg1 = all_unknown msg \<and> only_unknown msg1 \<and> unknown_fields msg1 = unknown_fields msg"
  using Clear_unknown(1) [of env msg msg1] by (cases msg) (auto simp: result_simps)

theorem Clear_keeps_unknown_fields_witness:
  "let inner = Message 0 [(1, Field True False 1 kVarint (Some (sample_field 1 TYPE_UINT64 CPPTYPE_UINT64 LABEL_OPTIONAL False))
        [Value null_slice 7 None []])] (Some [(9, Field False True 9 k32Bits None [Value null_slice 0 None []])]);
     msg = Message 0 [(4, Field True False 4 kLengthDelimited (Some (sample_field 4 TYPE_MESSAGE CPPTYPE_MESSAGE LABEL_OPTIONAL False))
        [Value null_slice 0 (Some inner) []])] None
   in \<exists>msg1. Clear sample_env msg = Inr msg1 \<and> all_unknown msg1 = all_unknown msg \<and> all_unknown msg \<noteq> [] \<and> only_unknown msg1"
proof -
  let ?um = "[(9, Field False True 9 k32Bits None [Value null_slice 0 None []])]"
  let ?inner = "Message 0 [(1, Field True False 1 kVarint (Some (sample_field 1 TYPE_UINT64 CPPTYPE_UINT64 LABEL_OPTIONAL False))
        [Value null_slice 7 None []])] (Some ?um)"
  let ?f = "\<lambda>m. Field True False 4 kLengthDelimited (Some (sample_field 4 TYPE_MESSAGE CPPTYPE_MESSAGE LABEL_OPTIONAL False)) [m]"
  have "Clear sample_env (Message 0 [(4, ?f (Value null_slice 0 (Some ?inner) []))] None) =
      Inr (Message 0 [(4, ?f (set_embedded (Some (Message 0 [] (Some ?um))) (new_Value sample_env)))] None)"
    by (simp add: sample_field_def has_unknown_field_def)
  from Clear_keeps_unknown_fields [OF this] this show ?thesis by (simp add: sample_field_def)
qed

end
