(* ===== verification/Pb_Read.thy ===== *)
theory Pb_Read
  imports Pb_Clear
begin

text \<open>
  Reading from a message that was just parsed: strings, integers and packed fields, and the inputs
  on which the library fails, a varint cut off at the end, a message cleared before its embedded
  messages were decoded, a string too long to be written.
\<close>

section \<open>Reading a parsed message\<close>

lemma parsed_field:
  assumes "mem_ok mem" "mem_bytes mem = serialise items" "\<forall>it\<in>set items. item_ok it" "length items < fuel"
    and "required_present env d items" "FindFieldByNumber env d k = Some fd" "payloads_of k items \<noteq> []"
  obtains msg f where "FromString fuel env mem (new_Message d) = Some (Inr (True, msg))" "message_descriptor msg = d"
    "fm_find (msg_fields msg) k = Some f" "\<not> decoded f" "descriptor f = Some fd"
    "list_all2 (holds_payload mem (field_wire_type f)) (vals f) (kept_payloads env d k items)"
    "field_wire_type f = payload_wire_type (hd (payloads_of k items))" "msg_ok env msg"
proof -
  obtain msg fm where m: "FromString fuel env mem (new_Message d) = Some (Inr (True, msg))" "msg_ok env msg"
    "message_descriptor msg = d" "parsed_map env mem d (place 0 items) fm"
    "msg_fields msg = filter (\<lambda>x. \<not> unknown (snd x)) fm" by (rule FromString_msg_ok [OF assms(1-5)])
  obtain f where f: "fm_find fm k = Some f" using parsed_map_find [OF m(4), of k] assms(7) by auto
  have sh: "shows_field env mem d k (place 0 items) f" using m(4) f by (auto simp: parsed_map_def dest!: spec [of _ k])
  then have "\<not> unknown f" "\<not> decoded f" "descriptor f = Some fd" using assms(6) by (simp_all add: shows_field_def)
  moreover have "fm_find (msg_fields msg) k = Some f"
  proof (rule fm_find_in)
    show "fm_ok (msg_fields msg)" using m(2) by (simp add: msg_ok_iff)
    show "(k, f) \<in> set (msg_fields msg)" using fm_find_Some_in [OF f] \<open>\<not> unknown f\<close> m(5) by simp
  qed
  moreover have "items_of k (place 0 items) \<noteq> []" using sh by (simp add: shows_field_def)
  then have "hd (payloads_of k items) = snd (snd (hd (items_of k (place 0 items))))"
    using payloads_of_place [of k 0 items] by (metis comp_apply hd_map)
  then have "field_wire_type f = payload_wire_type (hd (payloads_of k items))" using sh by (simp add: shows_field_def)
  ultimately show thesis using that m(1-3) shows_field_holds [OF sh assms(2,3)] by blast
qed

text \<open>
  C33. After the parse of a well-formed message \<open>GetString\<close> returns the bytes of the string's item: the
  one at the index for a repeated field, the last one otherwise.
\<close>

theorem FromString_GetString:
  assumes "mem_ok mem" "mem_bytes mem = serialise items" "\<forall>it\<in>set items. item_ok it" "length items < fuel"
    and "required_present env d items" "env_ok env d" "FindFieldByName env d name = Some fd" "fd_cpp_type fd = CPPTYPE_STRING"
    and "fd_type fd \<in> {TYPE_STRING, TYPE_BYTES}" "\<not> fd_packed fd" "payloads_of (fd_number fd) items \<noteq> []"
    and "kept_payloads env d (fd_number fd) items = map PBlock bss" "is_repeated fd \<longrightarrow> idx < length bss"
  shows "\<exists>msg msg1. FromString fuel env mem (new_Message d) = Some (Inr (True, msg)) \<and>
    GetString fuel env mem msg name idx = Some (Inr (bss ! (if is_repeated fd then idx else 0), msg1))"
proof -
  have num: "FindFieldByNumber env d (fd_number fd) = Some fd" using assms(6,7) by (simp add: env_ok_def)
  obtain msg f where m: "FromString fuel env mem (new_Message d) = Some (Inr (True, msg))" "message_descriptor msg = d"
    "fm_find (msg_fields msg) (fd_number fd) = Some f" "\<not> decoded f" "descriptor f = Some fd"
    "list_all2 (holds_payload mem (field_wire_type f)) (vals f) (kept_payloads env d (fd_number fd) items)"
    by (rule parsed_field [OF assms(1-5) num assms(11)])
  have len: "length (vals f) = length bss" using list_all2_lengthD [OF m(6)] assms(12) by simp
  have i: "(if is_repeated fd then idx else 0) < length bss"
    using assms(12,13) kept_payloads_neq_Nil [OF assms(11), of env d] by auto
  let ?vs = "map2 (\<lambda>v bs. set_str bs v) (vals f) bss"
  have "decode_strings mem (fd_type fd) (ParserState env null_slice) (vals f) = Inr (True, ?vs)"
    by (rule decode_strings_ok [OF assms(1) _ assms(9)]) (use m(6) assms(12) in simp)
  then have "DecodeField fuel env mem f = Some (Inr (True, set_decoded True (set_vals ?vs f)))"
    using m(5) assms(9,10) by (auto simp: DecodeField_def DecodeString_def)
  then have "open_field fuel env mem fd idx f = Some (Inr (set_decoded True (set_vals ?vs f), if is_repeated fd then idx else 0))"
    using m(4) len assms(13) by (auto simp: open_field_def CheckValidIndex_def decode_for_def TryDecodeField_def)
  moreover have "CheckString env msg name = Inr fd" using assms(7,8) m(2) by (simp add: CheckString_def check_type_def)
  ultimately show ?thesis using m(1,3) i len
    by (simp add: GetString_def get_with_def field_value_def split: if_splits)
qed

theorem FromString_GetString_witness:
  "\<exists>msg msg1. FromString 9 sample_env (sample_memory (serialise sample_items)) (new_Message 0) = Some (Inr (True, msg)) \<and>
    GetString 9 sample_env (sample_memory (serialise sample_items)) msg ''tags'' 0 = Some (Inr ([1, 2], msg1))"
proof -
  let ?fd = "sample_field 2 TYPE_STRING CPPTYPE_STRING LABEL_REPEATED False"
  have "FindFieldByName sample_env 0 ''tags'' = Some ?fd" "payloads_of (fd_number ?fd) sample_items \<noteq> []"
    "kept_payloads sample_env 0 (fd_number ?fd) sample_items = map PBlock [[1, 2], []]"
    by (simp_all add: sample_env_def sample_fields_def sample_field_def is_repeated_def payloads_of_def kept_payloads_def sample_items_def)
  from FromString_GetString [OF sample_ok sample_env_ok this(1) _ _ _ this(2,3), of 0] show ?thesis
    by (simp add: sample_field_def is_repeated_def)
qed

text \<open>
  After the parse of a well-formed message \<open>GetInteger\<close> returns the two halves of the number the
  varint of the field encodes, at the index for a repeated field, of the last item otherwise.
\<close>

theorem FromString_GetInteger:
  assumes "mem_ok mem" "mem_bytes mem = serialise items" "\<forall>it\<in>set items. item_ok it" "length items < fuel"
    and "required_present env d items" "env_ok env d" "CheckInteger env (new_Message d) name = Inr fd"
    and "fd_type fd \<in> varint_types - {TYPE_SINT32, TYPE_SINT64}" "\<not> fd_packed fd" "payloads_of (fd_number fd) items \<noteq> []"
    and "kept_payloads env d (fd_number fd) items = map PVarint ns" "is_repeated fd \<longrightarrow> idx < length ns"
  shows "\<exists>msg msg1. FromString fuel env mem (new_Message d) = Some (Inr (True, msg)) \<and>
    GetInteger fuel env mem msg name idx = Some (Inr (DecodeUInt64 (of_nat (ns ! (if is_repeated fd then idx else 0))), msg1))"
proof -
  have "FindFieldByName env d name = Some fd"
    using assms(7) by (auto simp: CheckInteger_def check_type_def new_Message_def result_simps split: option.splits)
  then have num: "FindFieldByNumber env d (fd_number fd) = Some fd" using assms(6) by (simp add: env_ok_def)
  obtain msg f where m: "FromString fuel env mem (new_Message d) = Some (Inr (True, msg))" "message_descriptor msg = d"
    "fm_find (msg_fields msg) (fd_number fd) = Some f" "\<not> decoded f" "descriptor f = Some fd"
    "list_all2 (holds_payload mem (field_wire_type f)) (vals f) (kept_payloads env d (fd_number fd) items)"
    by (rule parsed_field [OF assms(1-5) num assms(10)])
  have len: "length (vals f) = length ns" using list_all2_lengthD [OF m(6)] assms(11) by simp
  have i: "(if is_repeated fd then idx else 0) < length ns"
    using assms(11,12) kept_payloads_neq_Nil [OF assms(10), of env d] by auto
  let ?vs = "map2 (\<lambda>v n. set_primitive (of_nat n) v) (vals f) ns"
  have "decode_varints mem (ParserState env null_slice) (vals f) = Inr (True, ?vs)"
    by (rule decode_varints_ok [OF assms(1)]) (use m(6) assms(11) in simp)
  then have "DecodeField fuel env mem f = Some (Inr (True, set_decoded True (set_vals ?vs f)))"
    using m(5) assms(8,9) by (auto simp: DecodeField_def DecodeVarint_def varint_types_def)
  then have "open_field fuel env mem fd idx f = Some (Inr (set_decoded True (set_vals ?vs f), if is_repeated fd then idx else 0))"
    using m(4) len assms(12) by (auto simp: open_field_def CheckValidIndex_def decode_for_def TryDecodeField_def)
  moreover have "CheckInteger env msg name = Inr fd"
    using assms(7) m(2) by (simp add: CheckInteger_def check_type_def new_Message_def)
  ultimately show ?thesis using m(1,3,5) i len assms(8)
    by (simp add: GetInteger_def get_with_def RetrieveIntegerValue_def field_value_def split: if_splits)
qed

theorem FromString_GetInteger_witness:
  "\<exists>msg msg1. FromString 9 sample_env (sample_memory (serialise sample_items)) (new_Message 0) = Some (Inr (True, msg)) \<and>
    GetInteger 9 sample_env (sample_memory (serialise sample_items)) msg ''id'' 0 = Some (Inr ((7, 0), msg1))"
proof -
  let ?fd = "sample_field 1 TYPE_UINT64 CPPTYPE_UINT64 LABEL_OPTIONAL False"
  have "CheckInteger sample_env (new_Message 0) ''id'' = Inr ?fd" "payloads_of (fd_number ?fd) sample_items \<noteq> []"
    "kept_payloads sample_env 0 (fd_number ?fd) sample_items = map PVarint [7]"
    by (simp_all add: sample_env_def sample_fields_def sample_field_def is_repeated_def payloads_of_def kept_payloads_def sample_items_def
        CheckInteger_def check_type_def new_Message_def)
  from FromString_GetInteger [OF sample_ok sample_env_ok this(1) _ _ this(2,3), of 0] show ?thesis
    by (simp add: sample_field_def is_repeated_def varint_types_def DecodeUInt64_def)
qed

text \<open>
  A packed field of several numbers can be read by index only after something has decoded it:
  straight after the parse \<open>GetInteger\<close> at any index but 0 aborts, while \<open>GetFieldSize\<close> decodes the
  block and counts its numbers, and after it \<open>GetInteger\<close> returns them.
\<close>

theorem packed_field_access:
  assumes "mem_ok mem" "mem_bytes mem = serialise items" "\<forall>it\<in>set items. item_ok it" "length items < fuel"
    and "required_present env d items" "env_ok env d" "CheckInteger env (new_Message d) name = Inr fd"
    and "fd_type fd \<in> varint_types - {TYPE_SINT32, TYPE_SINT64}" "fd_packed fd" "is_repeated fd"
    and "payloads_of (fd_number fd) items = [PBlock (concat (map varint ns))]" "\<forall>n\<in>set ns. n < 2 ^ 64"
    and "length ns < fuel" "0 < idx" "idx < length ns"
  shows "\<exists>msg msg1. FromString fuel env mem (new_Message d) = Some (Inr (True, msg)) \<and>
    GetInteger fuel env mem msg name idx = Some (Inl AssertionFailed) \<and>
    GetFieldSize fuel env mem msg name = Some (Inr (length ns, msg1)) \<and>
    GetInteger fuel env mem msg1 name idx = Some (Inr (DecodeUInt64 (of_nat (ns ! idx)), msg1))"
proof -
  have name: "FindFieldByName env d name = Some fd"
    using assms(7) by (auto simp: CheckInteger_def check_type_def new_Message_def result_simps split: option.splits)
  then have num: "FindFieldByNumber env d (fd_number fd) = Some fd" using assms(6) by (simp add: env_ok_def)
  obtain msg f where m: "FromString fuel env mem (new_Message d) = Some (Inr (True, msg))" "message_descriptor msg = d"
    "fm_find (msg_fields msg) (fd_number fd) = Some f" "\<not> decoded f" "descriptor f = Some fd"
    "list_all2 (holds_payload mem (field_wire_type f)) (vals f) (kept_payloads env d (fd_number fd) items)"
    "field_wire_type f = payload_wire_type (hd (payloads_of (fd_number fd) items))" "msg_ok env msg"
    by (rule parsed_field [OF assms(1-5) num]) (use assms(11) in simp_all)
  obtain v where v: "vals f = [v]" "holds_payload mem kLengthDelimited v (PBlock (concat (map varint ns)))"
    using m(6,7) assms(10,11) num by (auto simp: kept_payloads_def list_all2_Cons2)
  have "ns \<noteq> []" using assms(15) by auto
  from decode_packed_varints [OF assms(1) v this assms(12,13,9,8), of env]
  obtain g where g: "DecodePacked fuel env mem fd f = Some (Inr (True, g))" "decoded g" "map primitive (vals g) = map of_nat ns"
    by blast
  then have df: "DecodeField fuel env mem f = Some (Inr (True, g))" using m(5) assms(9) by (simp add: DecodeField_def)
  have chk: "CheckInteger env msg2 name = Inr fd" if "message_descriptor msg2 = d" for msg2
    using assms(7) that by (simp add: CheckInteger_def check_type_def new_Message_def)
  have "GetInteger fuel env mem msg name idx = Some (Inl AssertionFailed)"
    using chk [OF m(2)] m(3) v(1) assms(10,14) by (simp add: GetInteger_def get_with_def open_field_def CheckValidIndex_def)
  moreover have len: "length (vals g) = length ns" using g(3) by (metis length_map)
  let ?m = "put_field (fd_number fd) g msg"
  have "GetFieldSize fuel env mem msg name = Some (Inr (length ns, ?m))"
    using name m(2-4) df len by (simp add: GetFieldSize_def TryDecodeField_def)
  moreover have ok: "fm_ok (msg_fields msg)" using m(8) by (simp add: msg_ok_iff)
  have find: "fm_find (msg_fields ?m) (fd_number fd) = Some g" using ok by (simp add: fm_find_put)
  have "field_ok env (message_descriptor msg) (fd_number fd) g"
    by (rule same_field_ok [OF msg_ok_find [OF m(8,3)] DecodeField_same [OF df]])
  then have "msg_ok env ?m" by (rule msg_ok_put [OF m(8)])
  moreover have "primitive (vals g ! idx) = of_nat (ns ! idx)"
    using arg_cong [OF g(3), of "\<lambda>xs. xs ! idx"] len assms(15) by simp
  then have "rbind (RetrieveIntegerValue g idx) (\<lambda>w. Inr (DecodeUInt64 w)) = Inr (DecodeUInt64 (of_nat (ns ! idx)))"
    using DecodeField_same [OF df] m(5) len assms(8,15)
    by (auto simp: RetrieveIntegerValue_def field_value_def same_field_def)
  ultimately have "GetInteger fuel env mem ?m name idx = Some (Inr (DecodeUInt64 (of_nat (ns ! idx)), ?m))"
    using get_with_decoded [of env ?m fd g idx "\<lambda>f i. rbind (RetrieveIntegerValue f i) (\<lambda>w. Inr (DecodeUInt64 w))"]
      chk [of ?m] m(2) find g(2) len assms(10,15) by (simp add: GetInteger_def)
  with m(1) \<open>GetInteger fuel env mem msg name idx = Some (Inl AssertionFailed)\<close>
    \<open>GetFieldSize fuel env mem msg name = Some (Inr (length ns, ?m))\<close> show ?thesis by blast
qed

theorem packed_field_access_witness:
  "\<exists>msg msg1. FromString 9 sample_env (sample_memory (serialise sample_items)) (new_Message 0) = Some (Inr (True, msg)) \<and>
    GetInteger 9 sample_env (sample_memory (serialise sample_items)) msg ''nums'' 2 = Some (Inl AssertionFailed) \<and>
    GetFieldSize 9 sample_env (sample_memory (serialise sample_items)) msg ''nums'' = Some (Inr (3, msg1)) \<and>
    GetInteger 9 sample_env (sample_memory (serialise sample_items)) msg1 ''nums'' 2 = Some (Inr ((3, 0), msg1))"
proof -
  let ?fd = "sample_field 5 TYPE_UINT32 CPPTYPE_UINT32 LABEL_REPEATED True"
  have three: "Suc (Suc (Suc 0)) = 3" by simp
  have "CheckInteger sample_env (new_Message 0) ''nums'' = Inr ?fd"
    "payloads_of (fd_number ?fd) sample_items = [PBlock (concat (map varint [1, 2, 3]))]"
    by (simp_all add: sample_env_def sample_fields_def sample_field_def payloads_of_def sample_items_def
        CheckInteger_def check_type_def new_Message_def varint.simps)
  from packed_field_access [OF sample_ok sample_env_ok this(1) _ _ _ this(2), of 2]
  show ?thesis
    by (simp add: sample_field_def is_repeated_def varint_types_def DecodeUInt64_def three)
qed

section \<open>Clearing a message that was parsed\<close>

lemma clear_fields_undecoded:
  assumes "\<forall>(k, f)\<in>set fm. descriptor f \<noteq> None \<and> vals f \<noteq> [] \<and> (\<forall>v\<in>set (vals f). embedded v = None)"
    and "(k, f) \<in> set fm" "descriptor f = Some fd" "fd_type fd = TYPE_MESSAGE"
  shows "clear_fields env fm = Inl MemoryFault"
  using assms(1,2)
proof (induction fm)
  case (Cons x fm)
  obtain j dec unk i wt fd2 vs where x: "x = (j, Field dec unk i wt (Some fd2) vs)"
    using Cons.prems(1) by (cases x, cases "snd x") auto
  obtain e p y ws where vs: "vs = Value e p None y # ws"
  proof -
    from Cons.prems(1) x obtain v ws where v: "vs = v # ws" "embedded v = None" by (cases vs) auto
    then show thesis using that by (cases v) auto
  qed
  show ?case
  proof (cases "fd_type fd2 = TYPE_MESSAGE")
    case True
    then show ?thesis by (simp add: x vs)
  next
    case False
    with Cons x assms(3,4) show ?thesis by auto
  qed
qed simp

text \<open>
  A message that was parsed and has a field of message type cannot be cleared: \<open>Clear\<close>
  dereferences the null pointer of the embedded message that was never decoded.
\<close>

theorem Clear_after_parse_faults:
  assumes "mem_ok mem" "mem_bytes mem = serialise items" "\<forall>it\<in>set items. item_ok it" "length items < fuel"
    and "required_present env d items" "FindFieldByNumber env d k = Some fd" "payloads_of k items \<noteq> []"
    and "fd_type fd = TYPE_MESSAGE"
  shows "\<exists>msg. FromString fuel env mem (new_Message d) = Some (Inr (True, msg)) \<and> Clear env msg = Inl MemoryFault"
proof -
  obtain msg fm where m: "FromString fuel env mem (new_Message d) = Some (Inr (True, msg))" "msg_ok env msg"
    "message_descriptor msg = d" "parsed_map env mem d (place 0 items) fm"
    "msg_fields msg = filter (\<lambda>x. \<not> unknown (snd x)) fm" by (rule FromString_msg_ok [OF assms(1-5)])
  have sh: "shows_field env mem d j (place 0 items) g" if "(j, g) \<in> set fm" for j g
    using that m(4) fm_find_in [of fm j g] by (auto simp: parsed_map_def dest!: spec [of _ j])
  have "descriptor g \<noteq> None \<and> vals g \<noteq> [] \<and> (\<forall>v\<in>set (vals g). embedded v = None)" if "(j, g) \<in> set (msg_fields msg)" for j g
  proof -
    have "list_all2 (shows_value (field_wire_type g) mem) (vals g) (kept_items env d j (place 0 items))"
      using sh [of j g] that m(5) unfolding shows_field_def by auto
    then have "\<forall>v\<in>set (vals g). embedded v = None"
      by (auto simp: list_all2_conv_all_nth in_set_conv_nth shows_value_def)
    moreover have "field_ok env d j g" using that m(2,3) by (auto simp: msg_ok_def)
    ultimately show ?thesis by (auto simp: field_ok_def)
  qed
  moreover obtain f where f: "fm_find fm k = Some f" using parsed_map_find [OF m(4), of k] assms(7) by auto
  from sh [OF fm_find_Some_in [OF f]] assms(6) have "\<not> unknown f" "descriptor f = Some fd" by (simp_all add: shows_field_def)
  with fm_find_Some_in [OF f] m(5) have "(k, f) \<in> set (msg_fields msg)" by simp
  ultimately have "clear_fields env (msg_fields msg) = Inl MemoryFault"
    using clear_fields_undecoded [of "msg_fields msg" k f fd env] \<open>descriptor f = Some fd\<close> assms(8) by blast
  with m(1) show ?thesis by (cases msg) simp
qed

theorem Clear_after_parse_faults_witness:
  "\<exists>msg. FromString 9 sample_env (sample_memory (serialise sample_items)) (new_Message 0) = Some (Inr (True, msg)) \<and>
    Clear sample_env msg = Inl MemoryFault"
  by (rule Clear_after_parse_faults [OF sample_ok, of 4 "sample_field 4 TYPE_MESSAGE CPPTYPE_MESSAGE LABEL_OPTIONAL False"])
    (simp_all add: sample_env_def sample_fields_def sample_field_def payloads_of_def sample_items_def)

section \<open>A varint cut off at the end of the input\<close>

lemma addr_less2: "unat (mem_base mem) + j < 2 ^ 64 \<Longrightarrow> i < j \<Longrightarrow> addr mem i < addr mem j"
  by (simp add: addr_def word_less_nat_alt unat_word_ariths unat_of_nat_small)

lemma mem_load_beyond: "i < 2 ^ 64 \<Longrightarrow> length (mem_bytes mem) \<le> i \<Longrightarrow> mem_load mem (addr mem i) = Inl MemoryFault"
  by (simp add: mem_load_def addr_minus_base)

text \<open>
  A message that ends inside a varint is accepted, the value's slice ends one byte past the
  input, and reading the field or writing the message back accesses memory outside it.
\<close>

theorem truncated_varint_accepted_then_faults:
  assumes "mem_bytes mem = [0x08, b]" "128 \<le> unat b" "unat (mem_base mem) + 3 < 2 ^ 64" "2 \<le> fuel"
    and "env_ok env d" "CheckInteger env (new_Message d) name = Inr fd" "fd_number fd = 1"
    and "fd_type fd = TYPE_UINT64" "\<not> fd_packed fd" "required_present env d [(1, PVarint 0)]"
  shows "\<exists>msg. FromString fuel env mem (new_Message d) = Some (Inr (True, msg)) \<and>
    GetInteger fuel env mem msg name 0 = Some (Inl MemoryFault) \<and> ToString env mem msg = Inl MemoryFault"
proof -
  define it where "it = (1 :: nat, PVarint 0)"
  have it: "item_ok it" "varint (tag_number it) = [8]" by (simp_all add: it_def item_ok_def tag_number_def varint.simps)
  have len: "length (mem_bytes mem) = 2" and mem: "mem_ok mem" using assms(1,3) by (simp_all add: mem_ok_def)
  let ?st = "ParserState env (whole mem)"
  have at: "at_index mem ?st 0 2" using at_index_start [OF mem, of env] len by simp
  let ?tagged = "?st\<lparr>ps_primitive := of_nat (tag_number it), ps_pos := 1, ps_field_id := 1, ps_wire_type := kVarint\<rparr>"
  have tag: "ParseTag mem ?st = Inr (kOk, ?tagged)"
    using ParseTag_item [OF at _ _ it(1), of "[b]"] assms(1)
    by (simp add: it(2)) (simp add: it_def ParserState_def)
  have cur: "ps_cur ?tagged = addr mem 1" "s_end (ps_slice ?tagged) = addr mem 2"
    using at len by (simp_all add: at_index_def ps_cur_def ParserState_def whole_def addr_def)
  have b: "mem_load mem (addr mem 1) = Inr b" "More b" using mem_load_addr [OF mem, of 1] assms(1,2) len by (simp_all add: More_iff)
  have lt: "addr mem 1 < addr mem 2" "addr mem 2 < addr mem 3" "addr mem 1 < addr mem 3" "\<not> addr mem 3 < addr mem 2"
    using addr_less2 [of mem 3 1] addr_less2 [of mem 3 2] addr_less2 [of mem 2 1] assms(3) by auto
  have a: "addr mem 1 + 1 = addr mem 2" by (simp add: numeral_2_eq_2)
  have lazy: "varint_lazy_loop mem (addr mem 2) (addr mem 1) 1 = Inr 2"
    using b lt by (subst varint_lazy_loop.simps, simp only: a) (simp add: varint_lazy_loop.simps)
  define sl where "sl = \<lparr>s_start = addr mem 1, s_end = addr mem 3\<rparr>"
  let ?after = "?tagged\<lparr>ps_pos := 3, ps_encoded := sl\<rparr>"
  have "s_start (ps_slice ?tagged) = addr mem 0" by (simp add: ParserState_def whole_def addr_def)
  then have item: "parse_item mem ?st = Inr (kOk, ?after)"
    using lazy cur by (simp add: parse_item_def tag ParseVarintLazy_def Let_def ps_cur_def sl_def)
  have name: "FindFieldByName env d name = Some fd"
    using assms(6) by (auto simp: CheckInteger_def check_type_def new_Message_def result_simps split: option.splits)
  then have num: "FindFieldByNumber env d 1 = Some fd" using assms(5,7) unfolding env_ok_def by metis
  define f where "f = FastAppend env sl (of_nat (tag_number it)) (Field False False 1 kVarint (Some fd) [])"
  have f: "vals f = [set_encoded sl (new_Value env)]" "\<not> decoded f" "\<not> unknown f" "descriptor f = Some fd"
    by (simp_all add: f_def FastAppend_def Let_def)
  have "store_item env d ?after [] = Inr [(1, f)]" using num by (simp add: store_item_def f_def)
  moreover have miss: "\<not> missing_required env d [(1, f)]"
    using assms(10) by (auto simp: missing_required_def required_present_def payloads_of_def split: if_splits)
  moreover obtain g where "fuel = Suc (Suc g)" using assms(4) by (metis add_2_eq_Suc le_Suc_ex)
  moreover have "ps_cur ?st < s_end (ps_slice ?st)" using addr_less2 [of mem 2 0] assms(3) at by (simp add: at_index_def)
  moreover have "\<not> ps_cur ?after < s_end (ps_slice ?after)"
    using lt(4) cur by (simp add: ps_cur_def ParserState_def whole_def addr_def)
  ultimately have "ParseMessageLazy fuel env mem (whole mem) d [] = Some (Inr (True, [(1, f)]))"
    using item whole_ordered [OF mem] by (simp add: ParseMessageLazy_def CheckAllRequiredField_def)
  from Init_message_fresh [OF this] f(3)
  have msg: "FromString fuel env mem (new_Message d) = Some (Inr (True, Message d [(1, f)] None))"
    by (simp add: FromString_def fm_ok_Cons)
  have loop: "varint_loop mem (addr mem 3) (addr mem 1) 1 0 = Inl MemoryFault"
    using b lt mem_load_beyond [of 2 mem] len
    by (subst varint_loop.simps, simp only: a) (simp add: varint_loop.simps Let_def)
  then have "DecodeField fuel env mem f = Some (Inl MemoryFault)"
    using f assms(8,9) by (simp add: DecodeField_def DecodeVarint_def ParseVarint_def ParseVarintInternal_def ps_cur_def sl_def)
  then have "GetInteger fuel env mem (Message d [(1, f)] None) name 0 = Some (Inl MemoryFault)"
    using assms(6,7) f
    by (simp add: GetInteger_def get_with_def open_field_def decode_for_def TryDecodeField_def CheckValidIndex_def
        CheckInteger_def check_type_def new_Message_def)
  moreover have "ToString env mem (Message d [(1, f)] None) = Inl MemoryFault"
  proof -
    obtain tb where tb: "EncodeTag 1 kVarint = Inr tb" "eb_size tb \<le> kStackBufLength"
      using EncodeTag_item [OF it(1)] by (auto simp: it_def)
    obtain buf where buf: "Append_buffer EncoderBuffer tb = Inr buf" "eb_ok buf" "eb_bytes buf = eb_bytes tb"
      using appends_buffer [OF eb_ok_new tb(2)] by (auto simp: appends_def EncoderBuffer_def)
    have "mem_load_n mem (addr mem 1) 2 = Inl MemoryFault"
      using len by (simp add: mem_load_n_def Let_def addr_minus_base)
    moreover have "unat (addr mem 3 - addr mem 1) = 2" by (simp add: addr_diff)
    moreover have "2 + eb_size buf \<le> 2 * eb_capacity buf" using buf(2) by (simp add: eb_ok_def kStackBufLength_def)
    ultimately have "Append_slice mem buf sl = Inl MemoryFault"
      using less_imp_le [OF lt(3)] by (simp add: Append_slice_def sl_def Append_from_def Let_def ReallocBuffer_def eb_size_def)
    moreover have "f = Field False False 1 kVarint (Some fd) [set_encoded sl (new_Value env)]"
      by (simp add: f_def FastAppend_def Let_def)
    ultimately show ?thesis using tb(1) buf(1) miss by (simp add: ToString_def append_raw_def)
  qed
  ultimately show ?thesis using msg by blast
qed

theorem truncated_varint_accepted_then_faults_witness:
  "\<exists>msg. FromString 2 sample_env (sample_memory [0x08, 0x80]) (new_Message 0) = Some (Inr (True, msg)) \<and>
    GetInteger 2 sample_env (sample_memory [0x08, 0x80]) msg ''id'' 0 = Some (Inl MemoryFault) \<and>
    ToString sample_env (sample_memory [0x08, 0x80]) msg = Inl MemoryFault"
proof -
  let ?fd = "sample_field 1 TYPE_UINT64 CPPTYPE_UINT64 LABEL_OPTIONAL False"
  have "CheckInteger sample_env (new_Message 0) ''id'' = Inr ?fd" "required_present sample_env 0 [(1, PVarint 0)]"
    by (simp_all add: sample_env_def sample_fields_def sample_field_def CheckInteger_def check_type_def new_Message_def
        required_present_def is_required_def)
  from truncated_varint_accepted_then_faults [OF _ _ _ _ sample_env_ok this(1) _ _ _ this(2),
      where mem = "sample_memory [0x08, 0x80]" and b = "0x80" and fuel = 2]
  show ?thesis by (simp add: sample_memory_def sample_field_def)
qed

section \<open>A string too long to write\<close>

text \<open>
  A string longer than twice the initial buffer, 8192 bytes, can be stored but not written: the
  buffer grows once and the assertion that there is room aborts the program.
\<close>

theorem long_string_aborts_ToString:
  assumes "FindFieldByName env d name = Some fd" "fd_cpp_type fd = CPPTYPE_STRING" "fd_type fd \<in> {TYPE_STRING, TYPE_BYTES}"
    and "\<not> fd_packed fd" "0 < fd_number fd" "fd_number fd < 2 ^ 29" "\<forall>r\<in>set (descriptor_fields env d). \<not> is_required r"
    and "2 * kStackBufLength < length x"
  shows "\<exists>msg. SetString fuel env mem (new_Message d) name 0 x = Some (Inr msg) \<and> ToString env mem msg = Inl AssertionFailed"
proof -
  let ?k = "fd_number fd"
  let ?f = "Field True False ?k kLengthDelimited (Some fd) [set_str x (new_Value env)]"
  have "AddKnownField ?k fd = Inr (Field True False ?k kLengthDelimited (Some fd) [])"
    using assms(3,4) by (auto simp: AddKnownField_def Helper_GetWireType_def varint_types_def)
  moreover have "Helper_SetString (fd_type fd) x v = Inr (set_str x v)" for v
    using assms(3) by (auto simp: Helper_SetString_def)
  ultimately have set: "SetString fuel env mem (new_Message d) name 0 x = Some (Inr (Message d [(?k, ?f)] None))"
    using assms(1,2) by (simp add: SetString_def CheckString_def check_type_def new_Message_def set_with_def add_first_def Field_Append_def)
  define it where "it = (nat ?k, PBlock [])"
  have it: "item_ok it" using assms(5,6) by (simp add: it_def item_ok_def nat_less_iff)
  obtain tb where tb: "EncodeTag ?k kLengthDelimited = Inr tb" "eb_bytes tb = varint (tag_number it)"
    using EncodeTag_item [OF it] assms(5) by (auto simp: it_def)
  have tbl: "eb_size tb \<le> 10"
    using length_varint [of "tag_number it" 9] tag_number_less [OF it] tb(2) by (simp add: eb_size_def)
  have small: "Append_buffer buf other = Inr \<lparr>eb_bytes = eb_bytes buf @ eb_bytes other, eb_capacity = kStackBufLength\<rparr>"
    if "eb_capacity buf = kStackBufLength" "eb_size buf \<le> 10" "eb_size other \<le> 10" for buf other
    using that by (cases buf) (simp add: Append_buffer_def Append_from_def Let_def kStackBufLength_def)
  obtain lb where lb: "EncodeVarint (of_nat (length x)) EncoderBuffer = Inr lb" "eb_size lb \<le> 10"
  proof
    let ?v = "varint (unat (of_nat (length x) :: u64))"
    show "EncodeVarint (of_nat (length x)) EncoderBuffer = Inr \<lparr>eb_bytes = ?v, eb_capacity = kStackBufLength\<rparr>"
      using length_varint_u64 [of "of_nat (length x)"]
      by (simp add: EncodeVarint_eq Append_bytes_def Append_from_def Let_def EncoderBuffer_def eb_size_def kStackBufLength_def)
    show "eb_size \<lparr>eb_bytes = ?v, eb_capacity = kStackBufLength\<rparr> \<le> 10"
      using length_varint_u64 [of "of_nat (length x)"] by (simp add: eb_size_def)
  qed
  define b1 where "b1 = \<lparr>eb_bytes = eb_bytes tb, eb_capacity = kStackBufLength\<rparr>"
  define b2 where "b2 = \<lparr>eb_bytes = eb_bytes tb @ eb_bytes lb, eb_capacity = kStackBufLength\<rparr>"
  have "Append_buffer EncoderBuffer tb = Inr b1" "Append_buffer b1 lb = Inr b2"
    using small [of EncoderBuffer tb] small [of b1 lb] tbl lb(2) by (simp_all add: EncoderBuffer_def eb_size_def b1_def b2_def)
  moreover have "Append_bytes b2 x = Inl AssertionFailed"
    using assms(8) by (simp add: b2_def Append_bytes_def Append_from_def Let_def ReallocBuffer_def eb_size_def)
  ultimately have "append_block tb (length x) (\<lambda>b. Append_bytes b x) EncoderBuffer = Inl AssertionFailed"
    using lb(1) by (simp add: append_block_def)
  moreover have "\<not> missing_required env d [(?k, ?f)]" using assms(7) by (auto simp: missing_required_def)
  moreover have "fd_type fd \<noteq> TYPE_MESSAGE" using assms(3) by auto
  ultimately have "ToString env mem (Message d [(?k, ?f)] None) = Inl AssertionFailed"
    using tb(1) assms(4) by (simp add: ToString_def)
  with set show ?thesis by blast
qed

theorem long_string_aborts_ToString_witness:
  "\<exists>msg. SetString 1 sample_env (sample_memory []) (new_Message 0) ''tags'' 0 (replicate 8193 0) = Some (Inr msg) \<and>
    ToString sample_env (sample_memory []) msg = Inl AssertionFailed"
  by (rule long_string_aborts_ToString [of _ _ _ "sample_field 2 TYPE_STRING CPPTYPE_STRING LABEL_REPEATED False"])
    (simp_all add: sample_env_def sample_fields_def sample_field_def is_required_def kStackBufLength_def)

end
