(* ===== verification/Linked.thy ===== *)
theory Linked
  imports Prelude
begin

text \<open>
  Doubly linked lists over an array of cells. Links are integers, a cell's index or -1 for none;
  \<open>nxt\<close> and \<open>prv\<close> read the links of a cell. \<open>dseg\<close> is a segment of such a list, from the link \<open>p\<close>
  its first cell has backwards to the link \<open>q\<close> its last cell has forwards. The slabs of
  \<open>Memory_List\<close> and the nodes of \<open>Fx_List\<close> are both such lists.
\<close>

fun head_or :: "nat list \<Rightarrow> int \<Rightarrow> int" where
  "head_or [] q = q"
| "head_or (i # is) q = int i"

fun last_or :: "int \<Rightarrow> nat list \<Rightarrow> int" where
  "last_or p [] = p"
| "last_or p (i # is) = last_or (int i) is"

fun dseg :: "(nat \<Rightarrow> int) \<Rightarrow> (nat \<Rightarrow> int) \<Rightarrow> int \<Rightarrow> nat list \<Rightarrow> int \<Rightarrow> bool" where
  "dseg nxt prv p [] q = True"
| "dseg nxt prv p (i # is) q = (prv i = p \<and> nxt i = head_or is q \<and> dseg nxt prv (int i) is q)"

lemma last_or_append [simp]: "last_or p (xs @ ys) = last_or (last_or p xs) ys"
  by (induction xs arbitrary: p) simp_all

lemma last_or_last: "xs \<noteq> [] \<Longrightarrow> last_or p xs = int (last xs)"
  by (induction xs arbitrary: p) auto

lemma head_or_append [simp]: "head_or (xs @ ys) q = head_or xs (head_or ys q)"
  by (cases xs) simp_all

lemma head_or_hd: "xs \<noteq> [] \<Longrightarrow> head_or xs q = int (hd xs)"
  by (cases xs) simp_all

lemma dseg_append:
  "dseg nxt prv p (xs @ ys) q \<longleftrightarrow> dseg nxt prv p xs (head_or ys q) \<and> dseg nxt prv (last_or p xs) ys q"
  by (induction xs arbitrary: p) auto

lemma dseg_cong:
  "(\<And>i. i \<in> set xs \<Longrightarrow> nxt i = nxt' i \<and> prv i = prv' i) \<Longrightarrow> dseg nxt prv p xs q = dseg nxt' prv' p xs q"
  by (induction xs arbitrary: p) auto

lemma dseg_other:
  "i \<notin> set xs \<Longrightarrow> dseg (nxt(i := v)) prv p xs q = dseg nxt prv p xs q"
  "i \<notin> set xs \<Longrightarrow> dseg nxt (prv(i := v)) p xs q = dseg nxt prv p xs q"
  by (rule dseg_cong; auto)+

text \<open>A new link before the first cell, or after the last one.\<close>

lemma dseg_relink_first:
  "i \<notin> set xs \<Longrightarrow> dseg nxt prv p (i # xs) q \<Longrightarrow> dseg nxt (prv(i := p')) p' (i # xs) q"
  by (simp add: dseg_other)

lemma dseg_relink_last:
  assumes "distinct (xs @ [i])" "dseg nxt prv p (xs @ [i]) q"
  shows "dseg (nxt(i := q')) prv p (xs @ [i]) q'"
  using assms by (simp add: dseg_append dseg_other)

lemma dseg_unlink:
  assumes "distinct (xs @ i # ys)" "dseg nxt prv p (xs @ i # ys) q"
    and "nxt' = (if xs = [] then nxt else nxt(last xs := nxt i))"
    and "prv' = (if ys = [] then prv else prv(hd ys := prv i))"
  shows "dseg nxt' prv' p (xs @ ys) q"
proof -
  have l: "dseg nxt prv p xs (int i)" "prv i = last_or p xs" "nxt i = head_or ys q" "dseg nxt prv (int i) ys q"
    using assms(2) by (simp_all add: dseg_append)
  have "dseg nxt' prv' p xs (head_or ys q)"
  proof (cases xs rule: rev_cases)
    case Nil
    then show ?thesis by simp
  next
    case (snoc zs z)
    have "dseg (nxt(z := head_or ys q)) prv p (zs @ [z]) (head_or ys q)"
      by (rule dseg_relink_last) (use assms(1) l(1) snoc in auto)
    moreover have "ys \<noteq> [] \<Longrightarrow> hd ys \<notin> set xs" using assms(1) by (cases ys) auto
    ultimately show ?thesis using snoc l(3) assms(3,4) by (cases ys) (simp_all add: dseg_other)
  qed
  moreover have "dseg nxt' prv' (last_or p xs) ys q"
  proof (cases ys)
    case Nil
    then show ?thesis by simp
  next
    case (Cons y zs)
    have "dseg nxt (prv(y := last_or p xs)) (last_or p xs) (y # zs) q"
      by (rule dseg_relink_first) (use assms(1) l(4) Cons in auto)
    moreover have "xs \<noteq> [] \<Longrightarrow> last xs \<notin> set ys" using assms(1) by (cases xs rule: rev_cases) auto
    ultimately show ?thesis using Cons l(2) assms(3,4) by (cases "xs = []") (simp_all add: dseg_other)
  qed
  ultimately show ?thesis by (simp add: dseg_append)
qed

lemma dseg_push_front:
  assumes "i \<notin> set xs" "dseg nxt prv p xs q" "distinct xs"
    and "nxt' = nxt(i := head_or xs q)" "prv' = (if xs = [] then prv else prv(hd xs := int i))(i := p)"
  shows "dseg nxt' prv' p (i # xs) q"
proof (cases xs)
  case Nil
  with assms show ?thesis by simp
next
  case (Cons x ys)
  have "dseg nxt (prv(x := int i)) (int i) (x # ys) q"
    by (rule dseg_relink_first) (use assms Cons in auto)
  with Cons assms show ?thesis by (simp add: dseg_other)
qed

lemma dseg_push_back:
  assumes "i \<notin> set xs" "dseg nxt prv p xs q" "distinct xs"
    and "nxt' = (if xs = [] then nxt else nxt(last xs := int i))(i := q)" "prv' = prv(i := last_or p xs)"
  shows "dseg nxt' prv' p (xs @ [i]) q"
proof (cases xs rule: rev_cases)
  case Nil
  with assms show ?thesis by simp
next
  case (snoc ys y)
  have "dseg (nxt(y := int i)) prv p (ys @ [y]) (int i)"
    by (rule dseg_relink_last) (use assms snoc in auto)
  then have "dseg nxt' prv' p (ys @ [y]) (int i)"
    using assms snoc by (subst dseg_cong [of _ _ "nxt(y := int i)" _ prv]) auto
  with snoc assms show ?thesis by (simp add: dseg_append)
qed

lemma dseg_links:
  assumes "dseg nxt prv p xs q" "k < length xs"
  shows "nxt (xs ! k) = (if Suc k < length xs then int (xs ! Suc k) else q)"
    and "prv (xs ! k) = (if k = 0 then p else int (xs ! (k - 1)))"
proof -
  have split: "xs = take k xs @ xs ! k # drop (Suc k) xs" using assms(2) by (simp add: id_take_nth_drop)
  then have "dseg nxt prv p (take k xs @ xs ! k # drop (Suc k) xs) q" using assms(1) by simp
  then have "nxt (xs ! k) = head_or (drop (Suc k) xs) q" "prv (xs ! k) = last_or p (take k xs)"
    by (simp_all add: dseg_append)
  moreover have "head_or (drop (Suc k) xs) q = (if Suc k < length xs then int (xs ! Suc k) else q)"
    by (simp add: head_or_hd hd_drop_conv_nth)
  moreover have "last_or p (take k xs) = (if k = 0 then p else int (xs ! (k - 1)))"
    using assms(2) by (cases k) (simp_all add: last_or_last take_Suc_conv_app_nth)
  ultimately show "nxt (xs ! k) = (if Suc k < length xs then int (xs ! Suc k) else q)"
    "prv (xs ! k) = (if k = 0 then p else int (xs ! (k - 1)))" by simp_all
qed

end
