(* ===== verification/Slab.thy ===== *)
theory Slab
  imports Indexed_List
begin

text \<open>
  The contract of an allocator of equal slices named by their index: a slice that is handed out is
  not in use, one that is returned becomes free again, and the buffers of the slices are a store
  that only writes change. \<open>Memory_List\<close> promises it and \<open>Fx_List\<close> relies on it.
\<close>

datatype slab_op = Take | Give nat

text \<open>
  A client that takes slices and returns the \<open>k\<close>-th one it holds; the slices it holds, in the order
  it got them, and the number of them a perfect allocator of \<open>cap\<close> slices would have handed out.
\<close>

fun slab_run :: "('s \<Rightarrow> (int \<times> 's) result) \<Rightarrow> ('s \<Rightarrow> int \<Rightarrow> 's result) \<Rightarrow> slab_op list \<Rightarrow> 's \<Rightarrow> nat list \<Rightarrow>
    ('s \<times> nat list) result" where
  "slab_run get give [] s held = Inr (s, held)"
| "slab_run get give (Take # ops) s held =
     rbind (get s) (\<lambda>(i, t). slab_run get give ops t (if i = - 1 then held else held @ [nat i]))"
| "slab_run get give (Give k # ops) s held =
     (if k < length held then rbind (give s (int (held ! k))) (\<lambda>t. slab_run get give ops t (delete_at k held))
      else slab_run get give ops s held)"

fun slab_count :: "nat \<Rightarrow> slab_op list \<Rightarrow> nat \<Rightarrow> nat" where
  "slab_count cap [] n = n"
| "slab_count cap (Take # ops) n = slab_count cap ops (if n < cap then Suc n else n)"
| "slab_count cap (Give k # ops) n = slab_count cap ops (if k < n then n - 1 else n)"

lemma set_delete_at: "distinct xs \<Longrightarrow> k < length xs \<Longrightarrow> set (delete_at k xs) = set xs - {xs ! k}"
proof -
  assume d: "distinct xs" "k < length xs"
  have "xs = take k xs @ xs ! k # drop (Suc k) xs" using d(2) by (rule id_take_nth_drop)
  then have "distinct (take k xs @ xs ! k # drop (Suc k) xs)" "set xs = set (take k xs @ xs ! k # drop (Suc k) xs)"
    using d(1) by simp_all
  then show ?thesis by (auto simp: delete_at_def)
qed

lemma distinct_delete_at: "distinct xs \<Longrightarrow> distinct (delete_at k xs)"
  by (simp add: delete_at_def set_take_disj_set_drop_if_distinct)

locale slab =
  fixes rep :: "'s \<Rightarrow> nat \<Rightarrow> nat set \<Rightarrow> (nat \<Rightarrow> 'a) \<Rightarrow> bool"
    and get :: "'s \<Rightarrow> (int \<times> 's) result"
    and give :: "'s \<Rightarrow> int \<Rightarrow> 's result"
    and load :: "'s \<Rightarrow> int \<Rightarrow> 'a result"
    and store :: "'s \<Rightarrow> int \<Rightarrow> 'a \<Rightarrow> 's result"
    and used :: "'s \<Rightarrow> nat"
  assumes bound_law: "rep s cap U b \<Longrightarrow> U \<subseteq> {..<cap}"
    and get_law: "rep s cap U b \<Longrightarrow> card U < cap \<Longrightarrow>
      \<exists>i t. get s = Inr (int i, t) \<and> i \<notin> U \<and> i < cap \<and> rep t cap (insert i U) b"
    and get_full_law: "rep s cap U b \<Longrightarrow> card U = cap \<Longrightarrow> get s = Inr (- 1, s)"
    and give_law: "rep s cap U b \<Longrightarrow> i \<in> U \<Longrightarrow> \<exists>t. give s (int i) = Inr t \<and> rep t cap (U - {i}) b"
    and load_law: "rep s cap U b \<Longrightarrow> i \<in> U \<Longrightarrow> load s (int i) = Inr (b i)"
    and store_law: "rep s cap U b \<Longrightarrow> i \<in> U \<Longrightarrow> \<exists>t. store s (int i) x = Inr t \<and> rep t cap U (b(i := x))"
    and used_law: "rep s cap U b \<Longrightarrow> used s = card U"
begin

lemma card_bound: "rep s cap U b \<Longrightarrow> card U \<le> cap \<and> finite U"
  using bound_law [of s cap U b] card_mono [of "{..<cap}" U] finite_subset [of U "{..<cap}"] by simp

lemma run_ok:
  "rep s cap (set held) b \<Longrightarrow> distinct held \<Longrightarrow>
   \<exists>t held'. slab_run get give ops s held = Inr (t, held') \<and> rep t cap (set held') b \<and> distinct held' \<and>
     length held' = slab_count cap ops (length held)"
proof (induction ops arbitrary: s held)
  case Nil
  then show ?case by simp
next
  case (Cons p ops)
  have card: "card (set held) = length held" using Cons.prems(2) by (rule distinct_card)
  show ?case
  proof (cases p)
    case Take
    show ?thesis
    proof (cases "length held < cap")
      case True
      then obtain i t where i: "get s = Inr (int i, t)" "i \<notin> set held" "rep t cap (insert i (set held)) b"
        using get_law [OF Cons.prems(1)] card by auto
      then have "rep t cap (set (held @ [i])) b" "distinct (held @ [i])" using Cons.prems(2) by simp_all
      from Cons.IH [OF this] i(1) Take True show ?thesis by simp
    next
      case False
      then have "get s = Inr (- 1, s)"
        using get_full_law [OF Cons.prems(1)] card card_bound [OF Cons.prems(1)] by simp
      with Cons.IH [OF Cons.prems] Take False show ?thesis by simp
    qed
  next
    case (Give k)
    show ?thesis
    proof (cases "k < length held")
      case True
      then obtain t where t: "give s (int (held ! k)) = Inr t" "rep t cap (set held - {held ! k}) b"
        using give_law [OF Cons.prems(1), of "held ! k"] by auto
      then have "rep t cap (set (delete_at k held)) b" "distinct (delete_at k held)"
        using Cons.prems(2) True by (simp_all add: set_delete_at distinct_delete_at)
      from Cons.IH [OF this] t(1) Give True show ?thesis by simp
    next
      case False
      with Cons.IH [OF Cons.prems] Give show ?thesis by simp
    qed
  qed
qed

end

end
