(* ===== verification/Memory_List.thy ===== *)
theory Memory_List
  imports Linked Slab
begin

text \<open>
  The slab allocator of \<open>udpserver/src/base/memory_list.{h,cc}\<close>: a region of memory is cut into
  slices of one size, which stand in one of two doubly linked lists, the free slices and the used
  ones. Slices are named by their index.

  The region after the header is the list of the slices that fit in it, \<open>ml_slices\<close>; a slice is
  its two links and its buffer, whose type is left open. A pointer to a slice is its index, and
  using an index outside the region is a fault. Addresses are natural numbers and ids integers:
  the region ends below the end of the address space and holds fewer than \<open>2 ^ 31\<close> slices.
\<close>

section \<open>State\<close>

record 'a mslice =
  sl_next :: int
  sl_prev :: int
  sl_buf :: 'a

record ml_head =
  h_magic_number :: int
  h_padding :: nat
  h_size :: u64
  h_buffer_length :: nat
  h_slice_size :: nat
  h_free :: int
  h_used :: int

record 'a memory_list =
  ml_header :: ml_head
  ml_slices :: "'a mslice list"
  ml_start :: nat
  ml_end :: nat
  ml_buf :: nat
  ml_capacity :: nat
  ml_slice_size :: nat

definition kInvalidSliceId :: int where
  "kInvalidSliceId = - 1"

definition ml_kMagicNumber :: int where
  "ml_kMagicNumber = - 356060050714630365"

definition ml_kHeaderSize :: nat where
  "ml_kHeaderSize = 48"

definition kSliceHeadSize :: nat where
  "kSliceHeadSize = 8"

definition kSliceRealSize :: "'a memory_list \<Rightarrow> nat" where
  "kSliceRealSize ml = kSliceHeadSize + ml_slice_size ml"

section \<open>Access to slices\<close>

text \<open>\<open>GetSliceById\<close>: a null pointer or the index of a slice.\<close>

definition GetSliceById :: "int \<Rightarrow> nat option result" where
  "GetSliceById i = (if i = kInvalidSliceId then Inr None else require (0 \<le> i) (Inr (Some (nat i))))"

definition deref :: "'a memory_list \<Rightarrow> nat option \<Rightarrow> 'a mslice result" where
  "deref ml p = (case p of None \<Rightarrow> Inl MemoryFault
     | Some k \<Rightarrow> if k < length (ml_slices ml) then Inr (ml_slices ml ! k) else Inl MemoryFault)"

definition update_slice :: "('a mslice \<Rightarrow> 'a mslice) \<Rightarrow> nat option \<Rightarrow> 'a memory_list \<Rightarrow> 'a memory_list result" where
  "update_slice g p ml = (case p of None \<Rightarrow> Inl MemoryFault
     | Some k \<Rightarrow> if k < length (ml_slices ml)
         then Inr (ml\<lparr>ml_slices := (ml_slices ml)[k := g (ml_slices ml ! k)]\<rparr>) else Inl MemoryFault)"

definition set_next :: "int \<Rightarrow> nat option \<Rightarrow> 'a memory_list \<Rightarrow> 'a memory_list result" where
  "set_next v = update_slice (\<lambda>s. s\<lparr>sl_next := v\<rparr>)"

definition set_prev :: "int \<Rightarrow> nat option \<Rightarrow> 'a memory_list \<Rightarrow> 'a memory_list result" where
  "set_prev v = update_slice (\<lambda>s. s\<lparr>sl_prev := v\<rparr>)"

text \<open>The updates guarded by a test for null.\<close>

definition if_slice :: "(nat option \<Rightarrow> 'a memory_list \<Rightarrow> 'a memory_list result) \<Rightarrow> nat option \<Rightarrow> 'a memory_list \<Rightarrow>
    'a memory_list result" where
  "if_slice g p ml = (if p = None then Inr ml else g p ml)"

definition GetId :: "'a memory_list \<Rightarrow> nat option \<Rightarrow> int" where
  "GetId ml p = (case p of None \<Rightarrow> kInvalidSliceId | Some k \<Rightarrow> int k)"

definition GetBuffer :: "'a memory_list \<Rightarrow> int \<Rightarrow> 'a result" where
  "GetBuffer ml i =
     rbind (GetSliceById i) (\<lambda>p. require (p \<noteq> None) (rbind (deref ml p) (\<lambda>s. Inr (sl_buf s))))"

text \<open>A store through the pointer \<open>GetBuffer\<close> returns.\<close>

definition SetBuffer :: "'a memory_list \<Rightarrow> int \<Rightarrow> 'a \<Rightarrow> 'a memory_list result" where
  "SetBuffer ml i x =
     rbind (GetSliceById i) (\<lambda>p. require (p \<noteq> None) (update_slice (\<lambda>s. s\<lparr>sl_buf := x\<rparr>) p ml))"

definition ml_size :: "'a memory_list \<Rightarrow> nat" where
  "ml_size ml = unat (h_size (ml_header ml))"

definition ml_full :: "'a memory_list \<Rightarrow> bool" where
  "ml_full ml \<longleftrightarrow> ml_size ml = ml_capacity ml"

definition set_header :: "(ml_head \<Rightarrow> ml_head) \<Rightarrow> 'a memory_list \<Rightarrow> 'a memory_list" where
  "set_header g ml = ml\<lparr>ml_header := g (ml_header ml)\<rparr>"

section \<open>Creation\<close>

text \<open>The loop of \<open>MakeSliceList\<close>: slices are linked in order, the last one ends the list.\<close>

function make_slices :: "nat \<Rightarrow> nat \<Rightarrow> nat \<Rightarrow> nat \<Rightarrow> int \<Rightarrow> 'a mslice list \<Rightarrow> (int \<times> nat \<times> 'a mslice list) result" where
  "make_slices slice_size buf e cur prev ss =
     (let real = kSliceHeadSize + slice_size; k = (cur - buf) div real
      in if cur + real \<le> e
         then if k < length ss
              then make_slices slice_size buf e (cur + real) (prev + 1)
                (ss[k := (ss ! k)\<lparr>sl_prev := prev,
                   sl_next := (if cur + real + real > e then kInvalidSliceId else prev + 2)\<rparr>])
              else Inl MemoryFault
         else Inr (prev, cur, ss))"
  by pat_completeness auto
termination
  by (relation "measure (\<lambda>(slice_size, buf, e, cur, prev, ss). e - cur)") (auto simp: kSliceHeadSize_def)

declare make_slices.simps [simp del]

definition MakeSliceList :: "'a memory_list \<Rightarrow> 'a memory_list result" where
  "MakeSliceList ml =
     rbind (make_slices (ml_slice_size ml) (ml_buf ml) (ml_end ml) (ml_buf ml) kInvalidSliceId (ml_slices ml))
       (\<lambda>(prev, cur, ss).
         Inr (set_header (\<lambda>h. h\<lparr>h_used := kInvalidSliceId, h_padding := ml_end ml - cur,
              h_free := (if prev = kInvalidSliceId then kInvalidSliceId else 0)\<rparr>)
           (ml\<lparr>ml_slices := ss, ml_capacity := (if prev = kInvalidSliceId then 0 else nat (prev + 1))\<rparr>)))"

text \<open>\<open>cells\<close> is what the region after the header holds, seen as slices of the given size.\<close>

definition ml_CreateFrom :: "nat \<Rightarrow> nat \<Rightarrow> nat \<Rightarrow> 'a mslice list \<Rightarrow> 'a memory_list option result" where
  "ml_CreateFrom start len slice_size cells =
     require (start + len > start)
       (if start + ml_kHeaderSize > start + len then Inr None
        else rbind (MakeSliceList
            \<lparr>ml_header = \<lparr>h_magic_number = ml_kMagicNumber, h_padding = 0, h_size = 0, h_buffer_length = len,
               h_slice_size = slice_size, h_free = 0, h_used = 0\<rparr>,
             ml_slices = cells, ml_start = start, ml_end = start + len, ml_buf = start + ml_kHeaderSize,
             ml_capacity = 0, ml_slice_size = slice_size\<rparr>)
          (\<lambda>ml. Inr (Some ml)))"

definition ml_RestoreFrom :: "nat \<Rightarrow> nat \<Rightarrow> nat \<Rightarrow> ml_head \<Rightarrow> 'a mslice list \<Rightarrow> 'a memory_list option" where
  "ml_RestoreFrom start len slice_size h cells =
     (if start + ml_kHeaderSize \<ge> start + len then None
      else if h_buffer_length h > len \<or> h_magic_number h \<noteq> ml_kMagicNumber \<or> h_slice_size h \<noteq> slice_size then None
      else Some
        \<lparr>ml_header = h, ml_slices = cells, ml_start = start, ml_end = start + len, ml_buf = start + ml_kHeaderSize,
         ml_capacity = nat ((int len - int (h_padding h) - int ml_kHeaderSize) mod 2 ^ 64) div (kSliceHeadSize + slice_size),
         ml_slice_size = slice_size\<rparr>)"

definition ml_clear :: "'a memory_list \<Rightarrow> 'a memory_list result" where
  "ml_clear ml = MakeSliceList (set_header (\<lambda>h. h\<lparr>h_size := 0\<rparr>) ml)"

section \<open>Taking and returning slices\<close>

definition GetSlice :: "'a memory_list \<Rightarrow> (int \<times> 'a memory_list) result" where
  "GetSlice ml =
     (let slice_id = h_free (ml_header ml)
      in if slice_id = kInvalidSliceId then Inr (kInvalidSliceId, ml)
         else rbind (GetSliceById slice_id) (\<lambda>slice.
           rbind (deref ml slice) (\<lambda>s.
             let ml1 = set_header (\<lambda>h. h\<lparr>h_free := sl_next s\<rparr>) ml
             in rbind (GetSliceById (sl_next s)) (\<lambda>next.
               rbind (if_slice (set_prev kInvalidSliceId) next ml1) (\<lambda>ml2.
                 let old_head = h_used (ml_header ml2);
                     ml3 = set_header (\<lambda>h. h\<lparr>h_used := slice_id\<rparr>) ml2
                 in rbind (set_prev kInvalidSliceId slice ml3) (\<lambda>ml4.
                   rbind (set_next old_head slice ml4) (\<lambda>ml5.
                     rbind (GetSliceById old_head) (\<lambda>old.
                       rbind (if_slice (set_prev slice_id) old ml5) (\<lambda>ml6.
                         Inr (slice_id, set_header (\<lambda>h. h\<lparr>h_size := h_size h + 1\<rparr>) ml6))))))))))"

definition FreeSlice :: "'a memory_list \<Rightarrow> int \<Rightarrow> 'a memory_list result" where
  "FreeSlice ml i =
     (if i = kInvalidSliceId then Inr ml
      else require (0 \<le> i) (require (i < int (ml_capacity ml))
        (rbind (GetSliceById i) (\<lambda>slice.
          rbind (deref ml slice) (\<lambda>s.
            rbind (GetSliceById (sl_prev s)) (\<lambda>prev.
              rbind (GetSliceById (sl_next s)) (\<lambda>next.
                rbind (if_slice (set_next (sl_next s)) prev ml) (\<lambda>ml1.
                  rbind (if_slice (set_prev (sl_prev s)) next ml1) (\<lambda>ml2.
                    rbind (if h_used (ml_header ml2) = i
                           then require (prev = None) (Inr (set_header (\<lambda>h. h\<lparr>h_used := sl_next s\<rparr>) ml2))
                           else Inr ml2) (\<lambda>ml3.
                      let old_head = h_free (ml_header ml3)
                      in rbind (set_prev kInvalidSliceId slice ml3) (\<lambda>ml4.
                        rbind (set_next old_head slice ml4) (\<lambda>ml5.
                          rbind (GetSliceById old_head) (\<lambda>old.
                            rbind (if_slice (set_prev i) old (set_header (\<lambda>h. h\<lparr>h_free := i\<rparr>) ml5)) (\<lambda>ml6.
                              Inr (set_header (\<lambda>h. h\<lparr>h_size := h_size h - 1\<rparr>) ml6)))))))))))))))"

section \<open>Links and buffers as functions\<close>

definition next_of :: "'a memory_list \<Rightarrow> nat \<Rightarrow> int" where
  "next_of ml i = sl_next (ml_slices ml ! i)"

definition prev_of :: "'a memory_list \<Rightarrow> nat \<Rightarrow> int" where
  "prev_of ml i = sl_prev (ml_slices ml ! i)"

definition buf_of :: "'a memory_list \<Rightarrow> nat \<Rightarrow> 'a" where
  "buf_of ml i = sl_buf (ml_slices ml ! i)"

definition put_next :: "int \<Rightarrow> nat \<Rightarrow> 'a memory_list \<Rightarrow> 'a memory_list" where
  "put_next v k ml = ml\<lparr>ml_slices := (ml_slices ml)[k := (ml_slices ml ! k)\<lparr>sl_next := v\<rparr>]\<rparr>"

definition put_prev :: "int \<Rightarrow> nat \<Rightarrow> 'a memory_list \<Rightarrow> 'a memory_list" where
  "put_prev v k ml = ml\<lparr>ml_slices := (ml_slices ml)[k := (ml_slices ml ! k)\<lparr>sl_prev := v\<rparr>]\<rparr>"

definition put_buf :: "'a \<Rightarrow> nat \<Rightarrow> 'a memory_list \<Rightarrow> 'a memory_list" where
  "put_buf x k ml = ml\<lparr>ml_slices := (ml_slices ml)[k := (ml_slices ml ! k)\<lparr>sl_buf := x\<rparr>]\<rparr>"

text \<open>What the updates of links and buffers leave alone.\<close>

definition layout :: "'a memory_list \<Rightarrow> (nat \<times> nat \<times> nat \<times> nat \<times> nat \<times> nat) \<times> (int \<times> nat \<times> nat \<times> nat)" where
  "layout ml = ((length (ml_slices ml), ml_start ml, ml_end ml, ml_buf ml, ml_capacity ml, ml_slice_size ml),
     (h_magic_number (ml_header ml), h_padding (ml_header ml), h_buffer_length (ml_header ml), h_slice_size (ml_header ml)))"

lemma put_layout [simp]:
  "layout (put_next v k ml) = layout ml" "layout (put_prev v k ml) = layout ml" "layout (put_buf x k ml) = layout ml"
  "layout (set_header (\<lambda>h. h\<lparr>h_free := v\<rparr>) ml) = layout ml" "layout (set_header (\<lambda>h. h\<lparr>h_used := v\<rparr>) ml) = layout ml"
  "layout (set_header (\<lambda>h. h\<lparr>h_size := h_size h + 1\<rparr>) ml) = layout ml"
  "layout (set_header (\<lambda>h. h\<lparr>h_size := h_size h - 1\<rparr>) ml) = layout ml"
  "ml_header (put_next v k ml) = ml_header ml" "ml_header (put_prev v k ml) = ml_header ml"
  "ml_header (put_buf x k ml) = ml_header ml" "ml_header (set_header g ml) = g (ml_header ml)"
  by (simp_all add: layout_def put_next_def put_prev_def put_buf_def set_header_def)

lemma layoutD: "layout ml = layout ml' \<Longrightarrow> length (ml_slices ml) = length (ml_slices ml') \<and> ml_capacity ml = ml_capacity ml'"
  by (simp add: layout_def)

lemma put_length [simp]:
  "length (ml_slices (put_next v k ml)) = length (ml_slices ml)" "length (ml_slices (put_prev v k ml)) = length (ml_slices ml)"
  "length (ml_slices (put_buf x k ml)) = length (ml_slices ml)" "length (ml_slices (set_header g ml)) = length (ml_slices ml)"
  "ml_capacity (put_next v k ml) = ml_capacity ml" "ml_capacity (put_prev v k ml) = ml_capacity ml"
  "ml_capacity (put_buf x k ml) = ml_capacity ml" "ml_capacity (set_header g ml) = ml_capacity ml"
  by (simp_all add: put_next_def put_prev_def put_buf_def set_header_def)

lemma links_put:
  "k < length (ml_slices ml) \<Longrightarrow> next_of (put_next v k ml) = (next_of ml)(k := v)"
  "k < length (ml_slices ml) \<Longrightarrow> prev_of (put_prev v k ml) = (prev_of ml)(k := v)"
  "k < length (ml_slices ml) \<Longrightarrow> buf_of (put_buf x k ml) = (buf_of ml)(k := x)"
  "k < length (ml_slices ml) \<Longrightarrow> prev_of (put_next v k ml) = prev_of ml"
  "k < length (ml_slices ml) \<Longrightarrow> buf_of (put_next v k ml) = buf_of ml"
  "k < length (ml_slices ml) \<Longrightarrow> next_of (put_prev v k ml) = next_of ml"
  "k < length (ml_slices ml) \<Longrightarrow> buf_of (put_prev v k ml) = buf_of ml"
  "k < length (ml_slices ml) \<Longrightarrow> next_of (put_buf x k ml) = next_of ml"
  "k < length (ml_slices ml) \<Longrightarrow> prev_of (put_buf x k ml) = prev_of ml"
  "next_of (set_header g ml) = next_of ml" "prev_of (set_header g ml) = prev_of ml" "buf_of (set_header g ml) = buf_of ml"
  by (auto simp: next_of_def prev_of_def buf_of_def put_next_def put_prev_def put_buf_def set_header_def fun_eq_iff nth_list_update)

lemma slice_ops:
  "k < length (ml_slices ml) \<Longrightarrow> set_next v (Some k) ml = Inr (put_next v k ml)"
  "k < length (ml_slices ml) \<Longrightarrow> set_prev v (Some k) ml = Inr (put_prev v k ml)"
  "k < length (ml_slices ml) \<Longrightarrow> deref ml (Some k) = Inr (ml_slices ml ! k)"
  by (simp_all add: set_next_def set_prev_def update_slice_def deref_def put_next_def put_prev_def)

definition pointer :: "nat list \<Rightarrow> nat option" where
  "pointer xs = (case xs of [] \<Rightarrow> None | k # _ \<Rightarrow> Some k)"

lemma GetSliceById_head: "GetSliceById (head_or xs kInvalidSliceId) = Inr (pointer xs)"
  by (cases xs) (simp_all add: GetSliceById_def kInvalidSliceId_def pointer_def)

lemma GetSliceById_nat [simp]: "GetSliceById (int k) = Inr (Some k)"
  by (simp add: GetSliceById_def kInvalidSliceId_def)

definition put_prev_first :: "int \<Rightarrow> nat list \<Rightarrow> 'a memory_list \<Rightarrow> 'a memory_list" where
  "put_prev_first v xs ml = (case xs of [] \<Rightarrow> ml | k # _ \<Rightarrow> put_prev v k ml)"

lemma if_slice_first:
  "set xs \<subseteq> {..<length (ml_slices ml)} \<Longrightarrow> if_slice (set_prev v) (pointer xs) ml = Inr (put_prev_first v xs ml)"
  by (cases xs) (simp_all add: if_slice_def pointer_def put_prev_first_def slice_ops)

lemma put_prev_first_simps:
  "layout (put_prev_first v xs ml) = layout ml" "ml_header (put_prev_first v xs ml) = ml_header ml"
  "length (ml_slices (put_prev_first v xs ml)) = length (ml_slices ml)"
  "ml_capacity (put_prev_first v xs ml) = ml_capacity ml"
  by (cases xs; simp add: put_prev_first_def)+

lemma links_put_first:
  assumes "set xs \<subseteq> {..<length (ml_slices ml)}"
  shows "next_of (put_prev_first v xs ml) = next_of ml" "buf_of (put_prev_first v xs ml) = buf_of ml"
    "prev_of (put_prev_first v xs ml) = (if xs = [] then prev_of ml else (prev_of ml)(hd xs := v))"
  using assms by (cases xs; simp add: put_prev_first_def links_put)+

section \<open>The invariant\<close>

text \<open>The free slices \<open>fs\<close> and the used slices \<open>us\<close> are two linked lists that share the region.\<close>

definition ml_rep :: "'a memory_list \<Rightarrow> nat list \<Rightarrow> nat list \<Rightarrow> bool" where
  "ml_rep ml fs us \<longleftrightarrow>
     ml_capacity ml \<le> length (ml_slices ml) \<and> ml_capacity ml < 2 ^ 31 \<and>
     distinct (fs @ us) \<and> set (fs @ us) = {..<ml_capacity ml} \<and>
     dseg (next_of ml) (prev_of ml) kInvalidSliceId fs kInvalidSliceId \<and>
     dseg (next_of ml) (prev_of ml) kInvalidSliceId us kInvalidSliceId \<and>
     h_free (ml_header ml) = head_or fs kInvalidSliceId \<and> h_used (ml_header ml) = head_or us kInvalidSliceId \<and>
     unat (h_size (ml_header ml)) = length us"

lemma ml_rep_bounds: "ml_rep ml fs us \<Longrightarrow> set fs \<subseteq> {..<length (ml_slices ml)} \<and> set us \<subseteq> {..<length (ml_slices ml)}"
proof -
  assume "ml_rep ml fs us"
  then have "set fs \<union> set us = {..<ml_capacity ml}" "ml_capacity ml \<le> length (ml_slices ml)"
    unfolding ml_rep_def set_append by blast+
  then have "set fs \<union> set us \<subseteq> {..<length (ml_slices ml)}" by simp
  then show ?thesis by blast
qed

lemma GetSlice_none: "ml_rep ml [] us \<Longrightarrow> GetSlice ml = Inr (kInvalidSliceId, ml)"
  by (simp add: GetSlice_def ml_rep_def Let_def)

lemma GetSlice_some:
  assumes rep: "ml_rep ml (i # fs) us"
  obtains ml' where "GetSlice ml = Inr (int i, ml')" "ml_rep ml' fs (i # us)" "buf_of ml' = buf_of ml" "layout ml' = layout ml"
proof -
  have b: "i < length (ml_slices ml)" "set fs \<subseteq> {..<length (ml_slices ml)}" "set us \<subseteq> {..<length (ml_slices ml)}"
    using ml_rep_bounds [OF rep] by auto
  have h: "h_free (ml_header ml) = int i" "h_used (ml_header ml) = head_or us kInvalidSliceId"
    "sl_next (ml_slices ml ! i) = head_or fs kInvalidSliceId"
    using rep by (simp_all add: ml_rep_def next_of_def)
  have d: "distinct (i # fs)" "distinct us" "i \<notin> set us" "set fs \<inter> set us = {}" using rep by (auto simp: ml_rep_def)
  define m1 where "m1 = set_header (\<lambda>h. h\<lparr>h_free := head_or fs kInvalidSliceId\<rparr>) ml"
  define m2 where "m2 = put_prev_first kInvalidSliceId fs m1"
  define m3 where "m3 = set_header (\<lambda>h. h\<lparr>h_used := int i\<rparr>) m2"
  define m4 where "m4 = put_next (head_or us kInvalidSliceId) i (put_prev kInvalidSliceId i m3)"
  define m5 where "m5 = put_prev_first (int i) us m4"
  define m6 where "m6 = set_header (\<lambda>h. h\<lparr>h_size := h_size h + 1\<rparr>) m5"
  note defs = m1_def m2_def m3_def m4_def m5_def m6_def
  have len: "length (ml_slices m1) = length (ml_slices ml)" "length (ml_slices m2) = length (ml_slices ml)"
    "length (ml_slices m3) = length (ml_slices ml)" "length (ml_slices m4) = length (ml_slices ml)"
    by (simp_all add: defs put_prev_first_simps)
  have hd2: "h_used (ml_header m2) = head_or us kInvalidSliceId" by (simp add: defs put_prev_first_simps h)
  have inv: "int i \<noteq> kInvalidSliceId" by (simp add: kInvalidSliceId_def)
  have "GetSlice ml = Inr (int i, m6)"
    using b len by (simp add: GetSlice_def h inv slice_ops Let_def GetSliceById_head if_slice_first hd2
        m1_def [symmetric] m2_def [symmetric] m3_def [symmetric] m4_def [symmetric] m5_def [symmetric] m6_def [symmetric])
  moreover have nx: "next_of m6 = (next_of ml)(i := head_or us kInvalidSliceId)"
    using b len by (simp add: m6_def m5_def m4_def m3_def m2_def m1_def links_put links_put_first put_prev_first_simps)
  moreover have pv: "prev_of m6 = (let p = (if fs = [] then prev_of ml else (prev_of ml)(hd fs := kInvalidSliceId))(i := kInvalidSliceId)
      in if us = [] then p else p(hd us := int i))"
    using b len by (simp add: m6_def m5_def m4_def m3_def m2_def m1_def links_put links_put_first put_prev_first_simps Let_def)
  moreover have bf: "buf_of m6 = buf_of ml"
    using b len by (simp add: m6_def m5_def m4_def m3_def m2_def m1_def links_put links_put_first put_prev_first_simps)
  moreover have lay: "layout m6 = layout ml" by (simp add: defs put_prev_first_simps)
  moreover have "ml_rep m6 fs (i # us)"
  proof -
    have "dseg (next_of m6) (prev_of m6) kInvalidSliceId fs kInvalidSliceId"
    proof (cases fs)
      case (Cons f gs)
      have "dseg (next_of ml) ((prev_of ml)(f := kInvalidSliceId)) kInvalidSliceId (f # gs) kInvalidSliceId"
        by (rule dseg_relink_first [of _ _ _ _ "int i"]) (use rep d Cons in \<open>auto simp: ml_rep_def\<close>)
      moreover have "us \<noteq> [] \<Longrightarrow> hd us \<notin> set fs" using d(4) by (cases us) auto
      ultimately show ?thesis using Cons d(1) unfolding nx pv Let_def by (cases us) (auto simp: dseg_other)
    qed simp
    moreover have "dseg (next_of m6) (prev_of m6) kInvalidSliceId (i # us) kInvalidSliceId"
    proof (rule dseg_push_front [OF d(3) _ d(2)])
      let ?p = "if fs = [] then prev_of ml else (prev_of ml)(hd fs := kInvalidSliceId)"
      have "fs \<noteq> [] \<Longrightarrow> hd fs \<notin> set us" using d(4) by (cases fs) auto
      then show "dseg (next_of ml) ?p kInvalidSliceId us kInvalidSliceId"
        using rep by (simp add: ml_rep_def dseg_other)
      show "prev_of m6 = (if us = [] then ?p else ?p(hd us := int i))(i := kInvalidSliceId)"
        using d(3) unfolding pv Let_def by (cases us) (auto simp: fun_eq_iff)
    qed (rule nx)
    moreover have "h_free (ml_header m6) = head_or fs kInvalidSliceId" "h_used (ml_header m6) = int i"
      "h_size (ml_header m6) = h_size (ml_header ml) + 1"
      by (simp_all add: defs put_prev_first_simps)
    moreover have "unat (h_size (ml_header ml) + 1) = Suc (length us)"
      using rep distinct_card [of "(i # fs) @ us"]
      by (simp add: ml_rep_def unat_word_ariths)
    ultimately show ?thesis using rep layoutD [OF lay] d
      unfolding ml_rep_def by auto
  qed
  ultimately show thesis using that by blast
qed

definition put_next_last :: "int \<Rightarrow> nat list \<Rightarrow> 'a memory_list \<Rightarrow> 'a memory_list" where
  "put_next_last v xs ml = (if xs = [] then ml else put_next v (last xs) ml)"

lemma GetSliceById_last: "GetSliceById (last_or kInvalidSliceId xs) = Inr (if xs = [] then None else Some (last xs))"
  by (cases "xs = []") (simp_all add: GetSliceById_def kInvalidSliceId_def last_or_last)

lemma if_slice_last:
  assumes "set xs \<subseteq> {..<length (ml_slices ml)}"
  shows "if_slice (set_next v) (if xs = [] then None else Some (last xs)) ml = Inr (put_next_last v xs ml)"
proof (cases "xs = []")
  case False
  then have "last xs < length (ml_slices ml)" using last_in_set assms by blast
  with False show ?thesis by (simp add: if_slice_def put_next_last_def slice_ops)
qed (simp add: if_slice_def put_next_last_def)

lemma put_next_last_simps:
  "layout (put_next_last v xs ml) = layout ml" "ml_header (put_next_last v xs ml) = ml_header ml"
  "length (ml_slices (put_next_last v xs ml)) = length (ml_slices ml)"
  "ml_capacity (put_next_last v xs ml) = ml_capacity ml"
  by (simp_all add: put_next_last_def)

lemma links_put_last:
  assumes "set xs \<subseteq> {..<length (ml_slices ml)}"
  shows "prev_of (put_next_last v xs ml) = prev_of ml" "buf_of (put_next_last v xs ml) = buf_of ml"
    "next_of (put_next_last v xs ml) = (if xs = [] then next_of ml else (next_of ml)(last xs := v))"
proof -
  have "xs \<noteq> [] \<Longrightarrow> last xs < length (ml_slices ml)" using last_in_set assms by blast
  then show "prev_of (put_next_last v xs ml) = prev_of ml" "buf_of (put_next_last v xs ml) = buf_of ml"
    "next_of (put_next_last v xs ml) = (if xs = [] then next_of ml else (next_of ml)(last xs := v))"
    by (simp_all add: put_next_last_def links_put)
qed

lemma FreeSlice_used:
  assumes rep: "ml_rep ml fs (xs @ i # ys)"
  obtains ml' where "FreeSlice ml (int i) = Inr ml'" "ml_rep ml' (i # fs) (xs @ ys)" "buf_of ml' = buf_of ml" "layout ml' = layout ml"
proof -
  have b: "i < length (ml_slices ml)" "set fs \<subseteq> {..<length (ml_slices ml)}" "set xs \<subseteq> {..<length (ml_slices ml)}"
    "set ys \<subseteq> {..<length (ml_slices ml)}"
    using ml_rep_bounds [OF rep] by auto
  have iset: "i \<in> set (fs @ xs @ i # ys)" by simp
  then have cap: "i < ml_capacity ml" using rep unfolding ml_rep_def by blast
  have seg: "dseg (next_of ml) (prev_of ml) kInvalidSliceId (xs @ i # ys) kInvalidSliceId"
    "dseg (next_of ml) (prev_of ml) kInvalidSliceId fs kInvalidSliceId"
    using rep unfolding ml_rep_def by blast+
  then have l: "sl_prev (ml_slices ml ! i) = last_or kInvalidSliceId xs" "sl_next (ml_slices ml ! i) = head_or ys kInvalidSliceId"
    by (simp_all add: dseg_append next_of_def prev_of_def)
  have h: "h_free (ml_header ml) = head_or fs kInvalidSliceId" "h_used (ml_header ml) = head_or xs (int i)"
    using rep by (simp_all add: ml_rep_def)
  have "distinct (fs @ xs @ i # ys)" using rep unfolding ml_rep_def by blast
  then have d: "distinct (xs @ i # ys)" "distinct fs" "i \<notin> set fs" "set fs \<inter> set xs = {}" "set fs \<inter> set ys = {}" by auto
  define m1 where "m1 = put_next_last (head_or ys kInvalidSliceId) xs ml"
  define m2 where "m2 = put_prev_first (last_or kInvalidSliceId xs) ys m1"
  define m3 where "m3 = (if xs = [] then set_header (\<lambda>h. h\<lparr>h_used := head_or ys kInvalidSliceId\<rparr>) m2 else m2)"
  define m4 where "m4 = set_header (\<lambda>h. h\<lparr>h_free := int i\<rparr>) (put_next (head_or fs kInvalidSliceId) i (put_prev kInvalidSliceId i m3))"
  define m5 where "m5 = put_prev_first (int i) fs m4"
  define m6 where "m6 = set_header (\<lambda>h. h\<lparr>h_size := h_size h - 1\<rparr>) m5"
  note defs = m1_def m2_def m3_def m4_def m5_def m6_def
  have len: "length (ml_slices m1) = length (ml_slices ml)" "length (ml_slices m2) = length (ml_slices ml)"
    "length (ml_slices m3) = length (ml_slices ml)" "length (ml_slices m4) = length (ml_slices ml)"
    by (simp_all add: defs put_prev_first_simps put_next_last_simps)
  have hd: "h_used (ml_header m2) = head_or xs (int i)" "h_free (ml_header m3) = head_or fs kInvalidSliceId"
    by (simp_all add: defs put_prev_first_simps put_next_last_simps h)
  have inv: "int i \<noteq> kInvalidSliceId" by (simp add: kInvalidSliceId_def)
  have first: "head_or xs (int i) = int i \<longleftrightarrow> xs = []" using d(1) by (cases xs) auto
  have run: "if_slice (set_next (head_or ys kInvalidSliceId)) (if xs = [] then None else Some (last xs)) ml = Inr m1"
    "if_slice (set_prev (last_or kInvalidSliceId xs)) (pointer ys) m1 = Inr m2"
    "if_slice (set_prev (int i)) (pointer fs) m4 = Inr m5"
    using b len by (simp_all add: if_slice_first if_slice_last m1_def m2_def m5_def put_next_last_simps)
  have hd2: "h_free (ml_header m2) = head_or fs kInvalidSliceId" using hd(2) by (auto simp: m3_def split: if_splits)
  have m34: "xs = [] \<Longrightarrow> set_header (\<lambda>h. h\<lparr>h_free := int i\<rparr>) (put_next (head_or fs kInvalidSliceId) i
      (put_prev kInvalidSliceId i (set_header (\<lambda>h. h\<lparr>h_used := head_or ys kInvalidSliceId\<rparr>) m2))) = m4"
    "xs \<noteq> [] \<Longrightarrow> set_header (\<lambda>h. h\<lparr>h_free := int i\<rparr>) (put_next (head_or fs kInvalidSliceId) i
      (put_prev kInvalidSliceId i m2)) = m4"
    by (simp_all add: m4_def m3_def)
  have "FreeSlice ml (int i) = Inr m6"
    unfolding FreeSlice_def
    using inv cap b(1) len(1,2) first
    by (simp add: slice_ops l GetSliceById_head GetSliceById_last run hd(1) hd2 Let_def m34 m6_def [symmetric])
  moreover have nx: "next_of m6 = (if xs = [] then next_of ml else (next_of ml)(last xs := next_of ml i))(i := head_or fs kInvalidSliceId)"
    using b len l(2) by (simp add: defs links_put links_put_first links_put_last put_prev_first_simps put_next_last_simps next_of_def [of ml i])
  moreover have pv: "prev_of m6 = (let p = (if ys = [] then prev_of ml else (prev_of ml)(hd ys := prev_of ml i))(i := kInvalidSliceId)
      in if fs = [] then p else p(hd fs := int i))"
    using b len l(1) by (simp add: defs links_put links_put_first links_put_last put_prev_first_simps put_next_last_simps
        prev_of_def [of ml i] Let_def)
  moreover have bf: "buf_of m6 = buf_of ml"
    using b len by (simp add: defs links_put links_put_first links_put_last put_prev_first_simps put_next_last_simps)
  moreover have lay: "layout m6 = layout ml" by (simp add: defs put_prev_first_simps put_next_last_simps)
  moreover have "ml_rep m6 (i # fs) (xs @ ys)"
  proof -
    let ?n = "if xs = [] then next_of ml else (next_of ml)(last xs := next_of ml i)"
    let ?p = "if ys = [] then prev_of ml else (prev_of ml)(hd ys := prev_of ml i)"
    have unl: "dseg ?n ?p kInvalidSliceId (xs @ ys) kInvalidSliceId" by (rule dseg_unlink [OF d(1) seg(1) refl refl])
    have lastx: "xs \<noteq> [] \<Longrightarrow> last xs \<in> set xs" and hdy: "ys \<noteq> [] \<Longrightarrow> hd ys \<in> set ys" and hdf: "fs \<noteq> [] \<Longrightarrow> hd fs \<in> set fs"
      by simp_all
    have "dseg (next_of m6) (prev_of m6) kInvalidSliceId (xs @ ys) kInvalidSliceId"
    proof -
      have "next_of m6 j = ?n j \<and> prev_of m6 j = ?p j" if "j \<in> set (xs @ ys)" for j
      proof -
        have "j \<noteq> i" "j \<notin> set fs" using that d by auto
        moreover from this(2) have "fs \<noteq> [] \<Longrightarrow> j \<noteq> hd fs" using hdf by blast
        ultimately show ?thesis unfolding nx pv Let_def by (cases "fs = []") simp_all
      qed
      then have "dseg (next_of m6) (prev_of m6) kInvalidSliceId (xs @ ys) kInvalidSliceId =
          dseg ?n ?p kInvalidSliceId (xs @ ys) kInvalidSliceId" by (rule dseg_cong)
      with unl show ?thesis by simp
    qed
    moreover have "dseg (next_of m6) (prev_of m6) kInvalidSliceId (i # fs) kInvalidSliceId"
    proof (rule dseg_push_front [OF d(3) _ d(2)])
      have "?n j = next_of ml j \<and> ?p j = prev_of ml j" if "j \<in> set fs" for j
      proof -
        have "j \<notin> set xs" "j \<notin> set ys" using that d(4,5) by auto
        then have "xs \<noteq> [] \<Longrightarrow> j \<noteq> last xs" "ys \<noteq> [] \<Longrightarrow> j \<noteq> hd ys" using lastx hdy by blast+
        then show ?thesis by simp
      qed
      then have "dseg ?n ?p kInvalidSliceId fs kInvalidSliceId =
          dseg (next_of ml) (prev_of ml) kInvalidSliceId fs kInvalidSliceId" by (rule dseg_cong)
      with seg(2) show "dseg ?n ?p kInvalidSliceId fs kInvalidSliceId" by simp
      show "prev_of m6 = (if fs = [] then ?p else ?p(hd fs := int i))(i := kInvalidSliceId)"
        using d(3) hdf unfolding pv Let_def by (cases fs) (auto simp: fun_eq_iff)
    qed (rule nx)
    moreover have "h_free (ml_header m6) = int i" "h_used (ml_header m6) = head_or (xs @ ys) kInvalidSliceId"
      "h_size (ml_header m6) = h_size (ml_header ml) - 1"
      using h(2) by (cases xs; simp add: defs put_prev_first_simps put_next_last_simps)+
    moreover have "unat (h_size (ml_header ml) - 1) = length (xs @ ys)"
    proof -
      have "unat (h_size (ml_header ml)) = Suc (length (xs @ ys))" using rep by (simp add: ml_rep_def)
      moreover from this have "h_size (ml_header ml) \<noteq> 0" by auto
      ultimately show ?thesis by (simp add: unat_minus_one)
    qed
    moreover have "distinct ((i # fs) @ xs @ ys)" using d by auto
    moreover have "set ((i # fs) @ xs @ ys) = set (fs @ xs @ i # ys)" by auto
    ultimately show ?thesis using rep layoutD [OF lay] unfolding ml_rep_def by (metis head_or.simps(2))
  qed
  ultimately show thesis using that by blast
qed

section \<open>A new memory list\<close>

lemma make_slices_links:
  assumes "real = kSliceHeadSize + slice_size" "n = (e - buf) div real" "buf \<le> e" "k \<le> n" "n \<le> length ss"
  shows "\<exists>ss'. make_slices slice_size buf e (buf + k * real) (int k - 1) ss = Inr (int n - 1, buf + n * real, ss') \<and>
    length ss' = length ss \<and> (\<forall>i. sl_buf (ss' ! i) = sl_buf (ss ! i)) \<and> (\<forall>i. i < k \<or> n \<le> i \<longrightarrow> ss' ! i = ss ! i) \<and>
    (\<forall>i. k \<le> i \<and> i < n \<longrightarrow> sl_prev (ss' ! i) = int i - 1 \<and> sl_next (ss' ! i) = (if Suc i < n then int (Suc i) else kInvalidSliceId))"
  using assms(4,5)
proof (induction "n - k" arbitrary: k ss)
  case 0
  then have kn: "k = n" by simp
  have real: "0 < real" using assms(1) by (simp add: kSliceHeadSize_def)
  have "(e - buf) div real < Suc n" using assms(2) by simp
  then have "e - buf < Suc n * real" using real by (simp add: div_less_iff_less_mult)
  then have "\<not> buf + n * real + real \<le> e" using assms(3) by simp
  then show ?case
    using 0 kn assms(1) by (subst make_slices.simps) (simp add: Let_def algebra_simps)
next
  case (Suc d)
  have real: "0 < real" using assms(1) by (simp add: kSliceHeadSize_def)
  have kn: "k < n" using Suc.hyps(2) by simp
  have fits: "j < n \<longleftrightarrow> buf + j * real + real \<le> e" for j
  proof -
    have "j < n \<longleftrightarrow> Suc j \<le> (e - buf) div real" using assms(2) by auto
    also have "\<dots> \<longleftrightarrow> Suc j * real \<le> e - buf" using real by (simp add: less_eq_div_iff_mult_less_eq)
    also have "\<dots> \<longleftrightarrow> buf + j * real + real \<le> e" using assms(3) by (auto simp: algebra_simps)
    finally show ?thesis .
  qed
  let ?c = "(ss ! k)\<lparr>sl_prev := int k - 1, sl_next := (if Suc k < n then int (Suc k) else kInvalidSliceId)\<rparr>"
  have idx: "(buf + k * real - buf) div real = k" using real by simp
  have nx: "(if buf + k * real + real + real > e then kInvalidSliceId else int k - 1 + 2) =
      (if Suc k < n then int (Suc k) else kInvalidSliceId)"
    using fits [of "Suc k"] by (simp add: algebra_simps)
  have step: "make_slices slice_size buf e (buf + k * real) (int k - 1) ss =
      make_slices slice_size buf e (buf + Suc k * real) (int (Suc k) - 1) (ss[k := ?c])"
  proof -
    have "buf + Suc k * real = buf + k * real + real" "int (Suc k) - 1 = int k - 1 + 1" by simp_all
    moreover have "buf + k * real + real \<le> e" using fits kn by blast
    moreover have "k < length ss" using kn Suc.prems(2) by simp
    ultimately show ?thesis
      by (subst make_slices.simps) (simp only: Let_def assms(1) [symmetric] idx nx if_True simp_thms)
  qed
  obtain ss' where ss': "make_slices slice_size buf e (buf + Suc k * real) (int (Suc k) - 1) (ss[k := ?c]) =
      Inr (int n - 1, buf + n * real, ss')" "length ss' = length ss"
    "\<forall>i. sl_buf (ss' ! i) = sl_buf (ss[k := ?c] ! i)" "\<forall>i. i < Suc k \<or> n \<le> i \<longrightarrow> ss' ! i = ss[k := ?c] ! i"
    "\<forall>i. Suc k \<le> i \<and> i < n \<longrightarrow> sl_prev (ss' ! i) = int i - 1 \<and> sl_next (ss' ! i) = (if Suc i < n then int (Suc i) else kInvalidSliceId)"
  proof -
    have "d = n - Suc k" "Suc k \<le> n" "n \<le> length (ss[k := ?c])" using Suc.hyps(2) kn Suc.prems(2) by simp_all
    from Suc.hyps(1) [OF this] show thesis using that by (metis length_list_update)
  qed
  have k: "k < length ss" using kn Suc.prems(2) by simp
  have "\<forall>i. sl_buf (ss' ! i) = sl_buf (ss ! i)" using ss'(3) k by (simp add: nth_list_update)
  moreover have "\<forall>i. i < k \<or> n \<le> i \<longrightarrow> ss' ! i = ss ! i" using ss'(4) kn k by (auto simp: nth_list_update)
  moreover have "ss' ! k = ?c" using ss'(4) k by simp
  then have "\<forall>i. k \<le> i \<and> i < n \<longrightarrow> sl_prev (ss' ! i) = int i - 1 \<and>
      sl_next (ss' ! i) = (if Suc i < n then int (Suc i) else kInvalidSliceId)"
  proof (intro allI impI)
    fix i assume ck: "ss' ! k = ?c" and i: "k \<le> i \<and> i < n"
    show "sl_prev (ss' ! i) = int i - 1 \<and> sl_next (ss' ! i) = (if Suc i < n then int (Suc i) else kInvalidSliceId)"
    proof (cases "i = k")
      case True
      then show ?thesis using ck by simp
    next
      case False
      then have "Suc k \<le> i \<and> i < n" using i by simp
      then show ?thesis using ss'(5) by blast
    qed
  qed
  ultimately show ?case using step ss'(1,2) by auto
qed

lemma dseg_upt:
  assumes "\<forall>i. a \<le> i \<and> i < n \<longrightarrow> prv i = int i - 1 \<and> nxt i = (if Suc i < n then int (Suc i) else q)"
  shows "dseg nxt prv (int a - 1) [a..<n] q"
  using assms
proof (induction "n - a" arbitrary: a)
  case 0
  then show ?case by simp
next
  case (Suc d)
  then have "a < n" by simp
  then have up: "[a..<n] = a # [Suc a..<n]" by (simp add: upt_conv_Cons)
  have "dseg nxt prv (int (Suc a) - 1) [Suc a..<n] q" by (rule Suc.hyps(1)) (use Suc in auto)
  moreover have "head_or [Suc a..<n] q = (if Suc a < n then int (Suc a) else q)"
    by (cases "Suc a < n") (simp_all add: upt_conv_Cons)
  ultimately show ?case using Suc.prems \<open>a < n\<close> up by simp
qed

lemma MakeSliceList_rep:
  assumes "ml_buf ml \<le> ml_end ml" "n = (ml_end ml - ml_buf ml) div kSliceRealSize ml" "length (ml_slices ml) = n"
    and "n < 2 ^ 31" "h_size (ml_header ml) = 0"
  shows "\<exists>ml'. MakeSliceList ml = Inr ml' \<and> ml_rep ml' [0..<n] [] \<and> ml_capacity ml' = n \<and> buf_of ml' = buf_of ml \<and>
    layout ml' = ((n, ml_start ml, ml_end ml, ml_buf ml, n, ml_slice_size ml),
      (h_magic_number (ml_header ml), ml_end ml - (ml_buf ml + n * kSliceRealSize ml), h_buffer_length (ml_header ml),
       h_slice_size (ml_header ml)))"
proof -
  let ?real = "kSliceHeadSize + ml_slice_size ml"
  obtain ss where ss: "make_slices (ml_slice_size ml) (ml_buf ml) (ml_end ml) (ml_buf ml) kInvalidSliceId (ml_slices ml) =
      Inr (int n - 1, ml_buf ml + n * ?real, ss)" "length ss = n" "\<forall>i. sl_buf (ss ! i) = sl_buf (ml_slices ml ! i)"
    "\<forall>i. i < n \<longrightarrow> sl_prev (ss ! i) = int i - 1 \<and> sl_next (ss ! i) = (if Suc i < n then int (Suc i) else kInvalidSliceId)"
    using make_slices_links [of ?real "ml_slice_size ml" n "ml_end ml" "ml_buf ml" 0 "ml_slices ml"] assms
    by (auto simp: kSliceRealSize_def kInvalidSliceId_def)
  let ?ml = "set_header (\<lambda>h. h\<lparr>h_used := kInvalidSliceId, h_padding := ml_end ml - (ml_buf ml + n * ?real),
      h_free := (if int n - 1 = kInvalidSliceId then kInvalidSliceId else 0)\<rparr>)
    (ml\<lparr>ml_slices := ss, ml_capacity := (if int n - 1 = kInvalidSliceId then 0 else nat (int n - 1 + 1))\<rparr>)"
  have "MakeSliceList ml = Inr ?ml" by (simp add: MakeSliceList_def ss(1))
  moreover have cap: "ml_capacity ?ml = n" by (simp add: set_header_def kInvalidSliceId_def)
  moreover have "buf_of ?ml = buf_of ml" using ss(3) by (simp add: buf_of_def fun_eq_iff set_header_def)
  moreover have "layout ?ml = ((n, ml_start ml, ml_end ml, ml_buf ml, n, ml_slice_size ml),
      (h_magic_number (ml_header ml), ml_end ml - (ml_buf ml + n * kSliceRealSize ml), h_buffer_length (ml_header ml),
       h_slice_size (ml_header ml)))"
    using ss(2) cap by (simp add: layout_def set_header_def kSliceRealSize_def)
  moreover have "ml_rep ?ml [0..<n] []"
  proof -
    have "dseg (next_of ?ml) (prev_of ?ml) (int 0 - 1) [0..<n] kInvalidSliceId"
      by (rule dseg_upt) (use ss(4) in \<open>simp add: next_of_def prev_of_def set_header_def\<close>)
    then have "dseg (next_of ?ml) (prev_of ?ml) kInvalidSliceId [0..<n] kInvalidSliceId" by (simp add: kInvalidSliceId_def)
    moreover have "h_free (ml_header ?ml) = head_or [0..<n] kInvalidSliceId"
      by (cases n) (simp_all add: set_header_def kInvalidSliceId_def upt_conv_Cons del: upt_Suc)
    moreover have "h_size (ml_header ?ml) = 0" "h_used (ml_header ?ml) = kInvalidSliceId" "length (ml_slices ?ml) = n"
      using assms(5) ss(2) by (simp_all add: set_header_def)
    moreover have "set [0..<n] = {..<n}" by auto
    ultimately show ?thesis using assms(4) cap by (simp add: ml_rep_def)
  qed
  ultimately show ?thesis by blast
qed


section \<open>The allocator keeps its contract\<close>

type_synonym ml_layout = "(nat \<times> nat \<times> nat \<times> nat \<times> nat \<times> nat) \<times> (int \<times> nat \<times> nat \<times> nat)"

definition ml_slab :: "ml_layout \<Rightarrow> 'a memory_list \<Rightarrow> nat \<Rightarrow> nat set \<Rightarrow> (nat \<Rightarrow> 'a) \<Rightarrow> bool" where
  "ml_slab L ml cap U b \<longleftrightarrow> layout ml = L \<and> ml_capacity ml = cap \<and> buf_of ml = b \<and> (\<exists>fs us. ml_rep ml fs us \<and> set us = U)"

lemma ml_rep_card:
  assumes "ml_rep ml fs us"
  shows "card (set us) = length us" "length fs + length us = ml_capacity ml" "set us \<subseteq> {..<ml_capacity ml}"
proof -
  have d: "distinct (fs @ us)" "set (fs @ us) = {..<ml_capacity ml}" using assms unfolding ml_rep_def by blast+
  show "card (set us) = length us" using d(1) by (simp add: distinct_card)
  show "length fs + length us = ml_capacity ml" using distinct_card [OF d(1)] d(2) by (metis card_lessThan length_append)
  show "set us \<subseteq> {..<ml_capacity ml}" using d(2) by auto
qed

lemma ml_get_law:
  assumes "ml_slab L ml cap U b" "card U < cap"
  shows "\<exists>i t. GetSlice ml = Inr (int i, t) \<and> i \<notin> U \<and> i < cap \<and> ml_slab L t cap (insert i U) b"
proof -
  obtain fs us where r: "ml_rep ml fs us" "set us = U" "ml_capacity ml = cap" "buf_of ml = b" "layout ml = L"
    using assms(1) by (auto simp: ml_slab_def)
  then have "fs \<noteq> []" using ml_rep_card [OF r(1)] assms(2) by auto
  then obtain i gs where fs: "fs = i # gs" by (cases fs) auto
  with r(1) have rep: "ml_rep ml (i # gs) us" by simp
  obtain t where t: "GetSlice ml = Inr (int i, t)" "ml_rep t gs (i # us)" "buf_of t = buf_of ml" "layout t = layout ml"
    by (rule GetSlice_some [OF rep])
  have "i \<notin> U" "i < cap" using rep r(2,3) by (auto simp: ml_rep_def)
  moreover have "ml_slab L t cap (insert i U) b"
    unfolding ml_slab_def using t r layoutD [OF t(4)] by (metis list.simps(15))
  ultimately show ?thesis using t(1) by blast
qed

lemma ml_give_law:
  assumes "ml_slab L ml cap U b" "i \<in> U"
  shows "\<exists>t. FreeSlice ml (int i) = Inr t \<and> ml_slab L t cap (U - {i}) b"
proof -
  obtain fs us where r: "ml_rep ml fs us" "set us = U" "ml_capacity ml = cap" "buf_of ml = b" "layout ml = L"
    using assms(1) by (auto simp: ml_slab_def)
  obtain xs ys where us: "us = xs @ i # ys" using assms(2) r(2) by (meson split_list)
  with r(1) have rep: "ml_rep ml fs (xs @ i # ys)" by simp
  obtain t where t: "FreeSlice ml (int i) = Inr t" "ml_rep t (i # fs) (xs @ ys)" "buf_of t = buf_of ml" "layout t = layout ml"
    by (rule FreeSlice_used [OF rep])
  have "distinct (fs @ xs @ i # ys)" using rep unfolding ml_rep_def by blast
  then have "set (xs @ ys) = U - {i}" using r(2) us by auto
  with t r layoutD [OF t(4)] show ?thesis unfolding ml_slab_def by (metis t(2))
qed

lemma ml_slab_bound: "ml_slab L ml cap U b \<Longrightarrow> i \<in> U \<Longrightarrow> i < length (ml_slices ml)"
  using ml_rep_bounds unfolding ml_slab_def by blast

lemma ml_store_law:
  assumes "ml_slab L ml cap U b" "i \<in> U"
  shows "\<exists>t. SetBuffer ml (int i) x = Inr t \<and> ml_slab L t cap U (b(i := x))"
proof -
  have i: "i < length (ml_slices ml)" by (rule ml_slab_bound [OF assms])
  then have "SetBuffer ml (int i) x = Inr (put_buf x i ml)"
    by (simp add: SetBuffer_def update_slice_def put_buf_def)
  moreover have "ml_rep (put_buf x i ml) fs us" if "ml_rep ml fs us" for fs us
    using that i by (simp add: ml_rep_def links_put)
  ultimately show ?thesis using assms(1) i by (auto simp: ml_slab_def links_put)
qed

interpretation ml: slab "ml_slab L" GetSlice FreeSlice GetBuffer SetBuffer ml_size for L
proof unfold_locales
  fix s :: "'a memory_list" and cap U b i x
  assume rep: "ml_slab L s cap U b"
  then obtain fs us where r: "ml_rep s fs us" "set us = U" "ml_capacity s = cap" "buf_of s = b" by (auto simp: ml_slab_def)
  show "U \<subseteq> {..<cap}" using ml_rep_card(3) [OF r(1)] r(2,3) by simp
  show "ml_size s = card U" using ml_rep_card(1) [OF r(1)] r by (simp add: ml_size_def ml_rep_def)
  show "GetSlice s = Inr (- 1, s)" if "card U = cap"
  proof -
    have "fs = []" using ml_rep_card [OF r(1)] r(2,3) that by simp
    then show ?thesis using GetSlice_none r(1) by (simp add: kInvalidSliceId_def)
  qed
  show "\<exists>i t. GetSlice s = Inr (int i, t) \<and> i \<notin> U \<and> i < cap \<and> ml_slab L t cap (insert i U) b" if "card U < cap"
    by (rule ml_get_law [OF rep that])
  show "\<exists>t. FreeSlice s (int i) = Inr t \<and> ml_slab L t cap (U - {i}) b" if "i \<in> U" by (rule ml_give_law [OF rep that])
  show "GetBuffer s (int i) = Inr (b i)" if "i \<in> U"
    using ml_slab_bound [OF rep that] by (simp add: GetBuffer_def slice_ops r(4) [symmetric] buf_of_def)
  show "\<exists>t. SetBuffer s (int i) x = Inr t \<and> ml_slab L t cap U (b(i := x))" if "i \<in> U" by (rule ml_store_law [OF rep that])
qed

definition made_layout :: "nat \<Rightarrow> nat \<Rightarrow> nat \<Rightarrow> nat \<Rightarrow> ml_layout" where
  "made_layout start len slice_size n =
     ((n, start, start + len, start + ml_kHeaderSize, n, slice_size),
      (ml_kMagicNumber, len - (ml_kHeaderSize + n * (kSliceHeadSize + slice_size)), len, slice_size))"

lemma CreateFrom_slab:
  assumes "ml_kHeaderSize \<le> len" "n = (len - ml_kHeaderSize) div (kSliceHeadSize + slice_size)" "length cells = n" "n < 2 ^ 31"
  obtains ml where "ml_CreateFrom start len slice_size cells = Inr (Some ml)"
    "ml_slab (made_layout start len slice_size n) ml n {} (buf_of ml)" "ml_rep ml [0..<n] []"
    "buf_of ml = (\<lambda>i. sl_buf (cells ! i))"
proof -
  let ?m = "\<lparr>ml_header = \<lparr>h_magic_number = ml_kMagicNumber, h_padding = 0, h_size = 0, h_buffer_length = len,
       h_slice_size = slice_size, h_free = 0, h_used = 0\<rparr>,
     ml_slices = cells, ml_start = start, ml_end = start + len, ml_buf = start + ml_kHeaderSize,
     ml_capacity = 0, ml_slice_size = slice_size\<rparr>"
  have "\<exists>ml'. MakeSliceList ?m = Inr ml' \<and> ml_rep ml' [0..<n] [] \<and> ml_capacity ml' = n \<and> buf_of ml' = buf_of ?m \<and>
    layout ml' = ((n, ml_start ?m, ml_end ?m, ml_buf ?m, n, ml_slice_size ?m),
      (h_magic_number (ml_header ?m), ml_end ?m - (ml_buf ?m + n * kSliceRealSize ?m), h_buffer_length (ml_header ?m),
       h_slice_size (ml_header ?m)))"
    by (rule MakeSliceList_rep) (use assms in \<open>simp_all add: kSliceRealSize_def\<close>)
  then obtain ml where ml: "MakeSliceList ?m = Inr ml" "ml_rep ml [0..<n] []" "ml_capacity ml = n" "buf_of ml = buf_of ?m"
    "layout ml = made_layout start len slice_size n"
    by (auto simp: made_layout_def kSliceRealSize_def)
  have "0 < len" using assms(1) by (simp add: ml_kHeaderSize_def)
  with ml assms(1) have "ml_CreateFrom start len slice_size cells = Inr (Some ml)" by (simp add: ml_CreateFrom_def)
  moreover have "ml_slab (made_layout start len slice_size n) ml n {} (buf_of ml)" using ml unfolding ml_slab_def by auto
  moreover have "buf_of ml = (\<lambda>i. sl_buf (cells ! i))" using ml(4) by (simp add: buf_of_def fun_eq_iff)
  ultimately show thesis using that ml(2) by blast
qed

lemma clear_slab:
  assumes "ml_slab (made_layout start len slice_size n) ml n U b"
    "ml_kHeaderSize \<le> len" "n = (len - ml_kHeaderSize) div (kSliceHeadSize + slice_size)" "n < 2 ^ 31"
  shows "\<exists>t. ml_clear ml = Inr t \<and> ml_slab (made_layout start len slice_size n) t n {} b"
proof -
  let ?m = "set_header (\<lambda>h. h\<lparr>h_size := 0\<rparr>) ml"
  have l: "ml_start ?m = start" "ml_end ?m = start + len" "ml_buf ?m = start + ml_kHeaderSize" "ml_slice_size ?m = slice_size"
    "h_magic_number (ml_header ?m) = ml_kMagicNumber" "h_buffer_length (ml_header ?m) = len" "h_slice_size (ml_header ?m) = slice_size"
    "length (ml_slices ?m) = n" "buf_of ?m = b"
    using assms(1) by (auto simp: ml_slab_def layout_def made_layout_def set_header_def buf_of_def fun_eq_iff)
  have "\<exists>t. MakeSliceList ?m = Inr t \<and> ml_rep t [0..<n] [] \<and> ml_capacity t = n \<and> buf_of t = buf_of ?m \<and>
    layout t = ((n, ml_start ?m, ml_end ?m, ml_buf ?m, n, ml_slice_size ?m),
      (h_magic_number (ml_header ?m), ml_end ?m - (ml_buf ?m + n * kSliceRealSize ?m), h_buffer_length (ml_header ?m),
       h_slice_size (ml_header ?m)))"
    by (rule MakeSliceList_rep) (use assms(2-4) l in \<open>simp_all add: kSliceRealSize_def\<close>)
  then obtain t where "MakeSliceList ?m = Inr t" "ml_rep t [0..<n] []" "ml_capacity t = n" "buf_of t = b"
    "layout t = made_layout start len slice_size n"
    using l by (auto simp: made_layout_def kSliceRealSize_def)
  then show ?thesis unfolding ml_clear_def ml_slab_def by (metis list.set(1))
qed

text \<open>The layouts a container has that was made in a region; \<open>clear\<close> computes the slices from them again.\<close>

definition region_layout :: "ml_layout \<Rightarrow> nat \<Rightarrow> bool" where
  "region_layout L cap \<longleftrightarrow> (\<exists>start len slice_size. L = made_layout start len slice_size cap \<and> ml_kHeaderSize \<le> len \<and>
     cap = (len - ml_kHeaderSize) div (kSliceHeadSize + slice_size) \<and> cap < 2 ^ 31)"

lemma nat_mod_small: "m < 2 ^ 64 \<Longrightarrow> nat (int m mod 2 ^ 64) = m"
  by (simp add: nat_mod_distrib)

text \<open>
  Restoring a list from its own region: with the length it was made with the result is the list
  itself; with a longer region the header stays as it was and only the capacity grows.
\<close>

lemma RestoreFrom_layout:
  assumes "layout ml = made_layout start len slice_size n" "ml_kHeaderSize + n * (kSliceHeadSize + slice_size) \<le> len" "len + d < 2 ^ 64"
    "ml_kHeaderSize < len + d"
  shows "ml_RestoreFrom start (len + d) slice_size (ml_header ml) cells =
    Some (ml\<lparr>ml_slices := cells, ml_end := ml_end ml + d, ml_capacity := n + d div (kSliceHeadSize + slice_size)\<rparr>)"
proof -
  let ?real = "kSliceHeadSize + slice_size"
  have real: "0 < ?real" by (simp add: kSliceHeadSize_def)
  have h: "h_magic_number (ml_header ml) = ml_kMagicNumber" "h_buffer_length (ml_header ml) = len"
    "h_slice_size (ml_header ml) = slice_size" "h_padding (ml_header ml) = len - (ml_kHeaderSize + n * ?real)"
    "ml_start ml = start" "ml_end ml = start + len" "ml_buf ml = start + ml_kHeaderSize" "ml_slice_size ml = slice_size"
    using assms(1) by (simp_all add: layout_def made_layout_def)
  have "int (len + d) - int (h_padding (ml_header ml)) - int ml_kHeaderSize = int (n * ?real + d)"
    using assms(2) h(4) by simp
  moreover have "n * ?real + d < 2 ^ 64" using assms(2,3) by simp
  then have "nat (int (n * ?real + d) mod 2 ^ 64) = n * ?real + d" by (rule nat_mod_small)
  ultimately have "nat ((int (len + d) - int (h_padding (ml_header ml)) - int ml_kHeaderSize) mod 2 ^ 64) = n * ?real + d"
    by (simp only:)
  then have "nat ((int (len + d) - int (h_padding (ml_header ml)) - int ml_kHeaderSize) mod 2 ^ 64) div ?real = n + d div ?real"
    using real by (simp only: div_mult_self1 div_mult_self3 neq0_conv)
  note cap = this
  show ?thesis
    unfolding ml_RestoreFrom_def cap using h assms(4) by (cases ml) simp
qed



end
