(* ===== verification/Simulation.thy ===== *)
theory Simulation
  imports Prelude
begin

text \<open>
  Components run against their references: a client's operations are run one after the other,
  stopping at the first that aborts or throws, and two runs agree when they give the same replies,
  or the same failure, and end in related states.
\<close>

fun run_ops :: "('o \<Rightarrow> 's \<Rightarrow> ('r \<times> 's) result) \<Rightarrow> 'o list \<Rightarrow> 's \<Rightarrow> ('r list \<times> 's) result" where
  "run_ops step [] s = Inr ([], s)"
| "run_ops step (p # ps) s =
     rbind (step p s) (\<lambda>(r, t). rbind (run_ops step ps t) (\<lambda>(rs, u). Inr (r # rs, u)))"

text \<open>The outcome of the component agrees with that of the reference.\<close>

definition agrees :: "('s \<Rightarrow> 'm \<Rightarrow> bool) \<Rightarrow> ('r \<times> 's) result \<Rightarrow> ('r \<times> 'm) result \<Rightarrow> bool" where
  "agrees rep o1 o2 = (case o2 of Inl e \<Rightarrow> o1 = Inl e | Inr (r, xs) \<Rightarrow> (\<exists>t. o1 = Inr (r, t) \<and> rep t xs))"

lemma agrees_Inl [simp]: "agrees rep o1 (Inl e) = (o1 = Inl e)"
  by (simp add: agrees_def)

lemma agrees_Inr [simp]: "agrees rep o1 (Inr (r, xs)) = (\<exists>t. o1 = Inr (r, t) \<and> rep t xs)"
  by (simp add: agrees_def)

lemma agrees_mono: "agrees rep o1 o2 \<Longrightarrow> (\<And>t xs. rep t xs \<Longrightarrow> rep' t xs) \<Longrightarrow> agrees rep' o1 o2"
  by (fastforce simp: agrees_def split: sum.splits)

text \<open>
  A run in which every operation is called in a state its guard allows, for operations whose argument
  comes from outside, such as the address that \<open>new\<close> returns.
\<close>

fun guarded :: "('o \<Rightarrow> 's \<Rightarrow> bool) \<Rightarrow> ('o \<Rightarrow> 's \<Rightarrow> ('r \<times> 's) result) \<Rightarrow> 'o list \<Rightarrow> 's \<Rightarrow> bool" where
  "guarded g step [] s = True"
| "guarded g step (p # ps) s = (g p s \<and> (case step p s of Inl e \<Rightarrow> True | Inr (r, t) \<Rightarrow> guarded g step ps t))"

lemma run_ops_guarded:
  assumes "\<And>p s xs. rep s xs \<Longrightarrow> g p s \<Longrightarrow> agrees rep (step p s) (spec p xs)" "rep s xs" "guarded g step ps s"
  shows "agrees rep (run_ops step ps s) (run_ops spec ps xs)"
  using assms(2,3)
proof (induction ps arbitrary: s xs)
  case Nil
  then show ?case by simp
next
  case (Cons p ps)
  have agr: "agrees rep (step p s) (spec p xs)" using assms(1) Cons.prems by simp
  show ?case
  proof (cases "spec p xs")
    case (Inl e)
    then show ?thesis using agr by simp
  next
    case (Inr o2)
    then obtain r ys t where ok: "spec p xs = Inr (r, ys)" "step p s = Inr (r, t)" "rep t ys"
      using agr by (cases o2) auto
    from Cons.IH [OF ok(3)] Cons.prems(2) show ?thesis
      by (cases "run_ops spec ps ys") (auto simp: ok(1,2))
  qed
qed

lemma guarded_True: "guarded (\<lambda>p s. True) step ps s"
  by (induction ps arbitrary: s) (auto split: sum.splits)

lemma run_ops_agrees:
  assumes "\<And>p s xs. rep s xs \<Longrightarrow> agrees rep (step p s) (spec p xs)" "rep s xs"
  shows "agrees rep (run_ops step ps s) (run_ops spec ps xs)"
  by (rule run_ops_guarded [of rep "\<lambda>p s. True", OF _ assms(2) guarded_True]) (rule assms(1))

lemma run_ops_keeps:
  assumes "\<And>p s r t. step p s = Inr (r, t) \<Longrightarrow> f t = f s" "run_ops step ps s = Inr (rs, u)"
  shows "f u = f s"
  using assms(2)
proof (induction ps arbitrary: s rs)
  case (Cons p ps)
  then obtain r t rs' where "step p s = Inr (r, t)" "run_ops step ps t = Inr (rs', u)" by (auto simp: rbind_eq_Inr)
  with Cons.IH assms(1) show ?case by metis
qed simp

end
