(* ===== verification/Deque.thy ===== *)
theory Deque
  imports Fifo Simulation
begin

text \<open>
  The contract of a bounded double-ended queue whose pops and reads abort when it is empty, and its
  reference, a list. A client runs a list of operations; the run of a component that keeps the
  contract gives the replies of the reference and aborts where the reference does. A deque used at
  one end for pushing and at the other for popping is a bounded FIFO. \<open>Fx_List\<close> interprets it.
\<close>

datatype 'a deque_op = PushFront 'a | PushBack 'a | PopFront | PopBack | Front | Back | Count | Wipe

datatype 'a deque_reply = Stored bool | Item 'a | Number nat | Done

section \<open>The reference\<close>

fun deque_spec :: "nat \<Rightarrow> 'a deque_op \<Rightarrow> 'a list \<Rightarrow> ('a deque_reply \<times> 'a list) result" where
  "deque_spec cap (PushFront x) xs = Inr (Stored (length xs < cap), if length xs < cap then x # xs else xs)"
| "deque_spec cap (PushBack x) xs = Inr (Stored (length xs < cap), if length xs < cap then xs @ [x] else xs)"
| "deque_spec cap PopFront xs = require (xs \<noteq> []) (Inr (Item (hd xs), tl xs))"
| "deque_spec cap PopBack xs = require (xs \<noteq> []) (Inr (Item (last xs), butlast xs))"
| "deque_spec cap Front xs = require (xs \<noteq> []) (Inr (Item (hd xs), xs))"
| "deque_spec cap Back xs = require (xs \<noteq> []) (Inr (Item (last xs), xs))"
| "deque_spec cap Count xs = Inr (Number (length xs), xs)"
| "deque_spec cap Wipe xs = Inr (Done, [])"

section \<open>The contract\<close>

fun deque_step :: "('s \<Rightarrow> 'a \<Rightarrow> (bool \<times> 's) result) \<Rightarrow> ('s \<Rightarrow> 'a \<Rightarrow> (bool \<times> 's) result) \<Rightarrow>
    ('s \<Rightarrow> ('a \<times> 's) result) \<Rightarrow> ('s \<Rightarrow> ('a \<times> 's) result) \<Rightarrow> ('s \<Rightarrow> 'a result) \<Rightarrow> ('s \<Rightarrow> 'a result) \<Rightarrow>
    ('s \<Rightarrow> nat result) \<Rightarrow> ('s \<Rightarrow> 's result) \<Rightarrow> 'a deque_op \<Rightarrow> 's \<Rightarrow> ('a deque_reply \<times> 's) result" where
  "deque_step pf pb qf qb f b n w (PushFront x) s = rbind (pf s x) (\<lambda>(ok, t). Inr (Stored ok, t))"
| "deque_step pf pb qf qb f b n w (PushBack x) s = rbind (pb s x) (\<lambda>(ok, t). Inr (Stored ok, t))"
| "deque_step pf pb qf qb f b n w PopFront s = rbind (qf s) (\<lambda>(x, t). Inr (Item x, t))"
| "deque_step pf pb qf qb f b n w PopBack s = rbind (qb s) (\<lambda>(x, t). Inr (Item x, t))"
| "deque_step pf pb qf qb f b n w Front s = rbind (f s) (\<lambda>x. Inr (Item x, s))"
| "deque_step pf pb qf qb f b n w Back s = rbind (b s) (\<lambda>x. Inr (Item x, s))"
| "deque_step pf pb qf qb f b n w Count s = rbind (n s) (\<lambda>k. Inr (Number k, s))"
| "deque_step pf pb qf qb f b n w Wipe s = rbind (w s) (\<lambda>t. Inr (Done, t))"

text \<open>The queue a client makes of a deque, asking for the number of items before it pops.\<close>

definition poll :: "('s \<Rightarrow> nat result) \<Rightarrow> ('s \<Rightarrow> ('a \<times> 's) result) \<Rightarrow> 's \<Rightarrow> ('a option \<times> 's) result" where
  "poll count pop s = rbind (count s) (\<lambda>n. if n = 0 then Inr (None, s) else rbind (pop s) (\<lambda>(x, t). Inr (Some x, t)))"

locale bounded_deque =
  fixes rep :: "nat \<Rightarrow> 's \<Rightarrow> 'a list \<Rightarrow> bool"
    and push_front :: "'s \<Rightarrow> 'a \<Rightarrow> (bool \<times> 's) result"
    and push_back :: "'s \<Rightarrow> 'a \<Rightarrow> (bool \<times> 's) result"
    and pop_front :: "'s \<Rightarrow> ('a \<times> 's) result"
    and pop_back :: "'s \<Rightarrow> ('a \<times> 's) result"
    and front_of :: "'s \<Rightarrow> 'a result"
    and back_of :: "'s \<Rightarrow> 'a result"
    and count :: "'s \<Rightarrow> nat result"
    and wipe :: "'s \<Rightarrow> 's result"
  assumes push_front_law: "rep cap s xs \<Longrightarrow>
      \<exists>t. push_front s x = Inr (length xs < cap, t) \<and> rep cap t (if length xs < cap then x # xs else xs)"
    and push_back_law: "rep cap s xs \<Longrightarrow>
      \<exists>t. push_back s x = Inr (length xs < cap, t) \<and> rep cap t (if length xs < cap then xs @ [x] else xs)"
    and pop_front_law: "rep cap s xs \<Longrightarrow> xs \<noteq> [] \<Longrightarrow> \<exists>t. pop_front s = Inr (hd xs, t) \<and> rep cap t (tl xs)"
    and pop_back_law: "rep cap s xs \<Longrightarrow> xs \<noteq> [] \<Longrightarrow> \<exists>t. pop_back s = Inr (last xs, t) \<and> rep cap t (butlast xs)"
    and front_law: "rep cap s xs \<Longrightarrow> xs \<noteq> [] \<Longrightarrow> front_of s = Inr (hd xs)"
    and back_law: "rep cap s xs \<Longrightarrow> xs \<noteq> [] \<Longrightarrow> back_of s = Inr (last xs)"
    and empty_law: "rep cap s [] \<Longrightarrow> pop_front s = Inl AssertionFailed \<and> pop_back s = Inl AssertionFailed \<and>
      front_of s = Inl AssertionFailed \<and> back_of s = Inl AssertionFailed"
    and count_law: "rep cap s xs \<Longrightarrow> count s = Inr (length xs)"
    and wipe_law: "rep cap s xs \<Longrightarrow> \<exists>t. wipe s = Inr t \<and> rep cap t []"
begin

lemma step_agrees:
  assumes "rep cap s xs"
  shows "agrees (rep cap) (deque_step push_front push_back pop_front pop_back front_of back_of count wipe p s) (deque_spec cap p xs)"
proof (cases p)
  case (PushFront x)
  then show ?thesis using push_front_law [OF assms, of x] by auto
next
  case (PushBack x)
  then show ?thesis using push_back_law [OF assms, of x] by auto
next
  case PopFront
  then show ?thesis using assms pop_front_law [OF assms] empty_law by (cases "xs = []") auto
next
  case PopBack
  then show ?thesis using assms pop_back_law [OF assms] empty_law by (cases "xs = []") auto
next
  case Front
  then show ?thesis using assms front_law [OF assms] empty_law by (cases "xs = []") auto
next
  case Back
  then show ?thesis using assms back_law [OF assms] empty_law by (cases "xs = []") auto
next
  case Count
  then show ?thesis using assms count_law [OF assms] by simp
next
  case Wipe
  then show ?thesis using wipe_law [OF assms] by auto
qed

lemma run_agrees:
  "rep cap s xs \<Longrightarrow> agrees (rep cap)
     (run_ops (deque_step push_front push_back pop_front pop_back front_of back_of count wipe) ps s) (run_ops (deque_spec cap) ps xs)"
  by (rule run_ops_agrees) (rule step_agrees)

end

sublocale bounded_deque \<subseteq> queue: bounded_fifo "rep cap" "\<lambda>x. True" push_back "poll count pop_front" for cap
proof unfold_locales
  fix s m ms
  show "\<exists>b s'. push_back s m = Inr (b, s') \<and> rep cap s' (if b then ms @ [m] else ms)" if "rep cap s ms"
    using push_back_law [OF that, of m] by blast
  show "\<exists>s'. poll count pop_front s = Inr (None, s') \<and> rep cap s' []" if "rep cap s []"
    using that count_law [OF that] by (simp add: poll_def)
  show "\<exists>s'. poll count pop_front s = Inr (Some m, s') \<and> rep cap s' ms" if "rep cap s (m # ms)"
    using count_law [OF that] pop_front_law [OF that] by (auto simp: poll_def)
qed

end
