(* ===== verification/Fx_List.thy ===== *)
theory Fx_List
  imports Memory_List Deque Indexed_List
begin

text \<open>
  The doubly linked list of \<open>udpserver/src/base/list.h\<close>, \<open>fx::base::container::List\<close>, whose nodes
  live in the slices of a \<open>MemoryList\<close>. A node pointer is the id of its slice, or none; an iterator
  of the list is the id it holds, \<open>end()\<close> the invalid one. The size of a node, \<open>sizeof(Node)\<close>, is an
  argument of the operations that make a list.
\<close>

section \<open>State\<close>

record 'v lnode =
  nd_prev :: int
  nd_next :: int
  nd_val :: 'v

record list_head =
  lh_magic_number :: int
  lh_size :: u64
  lh_head :: int
  lh_tail :: int

record 'v fx_list =
  fl_header :: list_head
  fl_ml :: "'v lnode memory_list"

definition list_kMagicNumber :: int where
  "list_kMagicNumber = 8522338164747840960"

definition list_kHeaderSize :: nat where
  "list_kHeaderSize = 24"

definition kInvalidNodeId :: int where
  "kInvalidNodeId = kInvalidSliceId"

definition list_Init :: list_head where
  "list_Init = \<lparr>lh_magic_number = list_kMagicNumber, lh_size = 0, lh_head = kInvalidNodeId, lh_tail = kInvalidNodeId\<rparr>"

text \<open>\<open>cells\<close> is what the region of the slices holds.\<close>

definition list_CreateFrom :: "nat \<Rightarrow> nat \<Rightarrow> nat \<Rightarrow> 'v lnode mslice list \<Rightarrow> 'v fx_list option result" where
  "list_CreateFrom node_size buf len cells =
     (if len < list_kHeaderSize then Inr None
      else rbind (ml_CreateFrom (buf + list_kHeaderSize) (len - list_kHeaderSize) node_size cells) (\<lambda>r.
        case r of None \<Rightarrow> Inr None | Some ml \<Rightarrow> Inr (Some \<lparr>fl_header = list_Init, fl_ml = ml\<rparr>)))"

definition list_RestoreFrom :: "nat \<Rightarrow> nat \<Rightarrow> nat \<Rightarrow> list_head \<Rightarrow> ml_head \<Rightarrow> 'v lnode mslice list \<Rightarrow> 'v fx_list option" where
  "list_RestoreFrom node_size buf len md h cells =
     (if len < list_kHeaderSize then None
      else if lh_magic_number md \<noteq> list_kMagicNumber then None
      else case ml_RestoreFrom (buf + list_kHeaderSize) (len - list_kHeaderSize) node_size h cells of
        None \<Rightarrow> None | Some ml \<Rightarrow> Some \<lparr>fl_header = md, fl_ml = ml\<rparr>)"

section \<open>Nodes\<close>

definition GetNode :: "int \<Rightarrow> int option result" where
  "GetNode i = (if i = kInvalidNodeId then Inr None
     else rbind (GetSliceById i) (\<lambda>p. require (p \<noteq> None) (Inr (Some i))))"

definition node_at :: "'v fx_list \<Rightarrow> int option \<Rightarrow> 'v lnode result" where
  "node_at l p = (case p of None \<Rightarrow> Inl MemoryFault | Some i \<Rightarrow> GetBuffer (fl_ml l) i)"

definition upd_node :: "('v lnode \<Rightarrow> 'v lnode) \<Rightarrow> int option \<Rightarrow> 'v fx_list \<Rightarrow> 'v fx_list result" where
  "upd_node g p l = (case p of None \<Rightarrow> Inl MemoryFault
     | Some i \<Rightarrow> rbind (GetBuffer (fl_ml l) i) (\<lambda>n.
         rbind (SetBuffer (fl_ml l) i (g n)) (\<lambda>ml. Inr (l\<lparr>fl_ml := ml\<rparr>))))"

definition put_nd_next :: "int \<Rightarrow> int option \<Rightarrow> 'v fx_list \<Rightarrow> 'v fx_list result" where
  "put_nd_next v = upd_node (\<lambda>n. n\<lparr>nd_next := v\<rparr>)"

definition put_nd_prev :: "int \<Rightarrow> int option \<Rightarrow> 'v fx_list \<Rightarrow> 'v fx_list result" where
  "put_nd_prev v = upd_node (\<lambda>n. n\<lparr>nd_prev := v\<rparr>)"

definition put_nd_val :: "'v \<Rightarrow> int option \<Rightarrow> 'v fx_list \<Rightarrow> 'v fx_list result" where
  "put_nd_val v = upd_node (\<lambda>n. n\<lparr>nd_val := v\<rparr>)"

definition set_list_header :: "(list_head \<Rightarrow> list_head) \<Rightarrow> 'v fx_list \<Rightarrow> 'v fx_list" where
  "set_list_header g l = l\<lparr>fl_header := g (fl_header l)\<rparr>"

section \<open>Iterators\<close>

definition list_begin :: "'v fx_list \<Rightarrow> int" where
  "list_begin l = lh_head (fl_header l)"

definition list_end :: "'v fx_list \<Rightarrow> int" where
  "list_end l = kInvalidNodeId"

definition iter_next :: "'v fx_list \<Rightarrow> int \<Rightarrow> int result" where
  "iter_next l i = require (i \<noteq> kInvalidNodeId)
     (rbind (GetNode i) (\<lambda>p. rbind (node_at l p) (\<lambda>n. Inr (nd_next n))))"

definition iter_deref :: "'v fx_list \<Rightarrow> int \<Rightarrow> 'v result" where
  "iter_deref l i = rbind (GetNode i) (\<lambda>p. rbind (node_at l p) (\<lambda>n. Inr (nd_val n)))"

section \<open>Removing\<close>

definition Unlink :: "'v fx_list \<Rightarrow> int \<Rightarrow> ('v \<times> 'v fx_list) result" where
  "Unlink l i =
     require (i \<noteq> kInvalidNodeId)
       (rbind (GetNode i) (\<lambda>node.
         rbind (node_at l node) (\<lambda>n.
           rbind (GetNode (nd_prev n)) (\<lambda>prev.
             rbind (GetNode (nd_next n)) (\<lambda>next.
               rbind (if prev \<noteq> None then put_nd_next (nd_next n) prev l
                      else Inr (set_list_header (\<lambda>h. h\<lparr>lh_head := nd_next n\<rparr>) l)) (\<lambda>l1.
                 rbind (node_at l1 node) (\<lambda>n1.
                   rbind (if next \<noteq> None then put_nd_prev (nd_prev n1) next l1
                          else Inr (set_list_header (\<lambda>h. h\<lparr>lh_tail := nd_prev n1\<rparr>) l1)) (\<lambda>l2.
                     let l3 = set_list_header (\<lambda>h. h\<lparr>lh_size := lh_size h - 1\<rparr>) l2
                     in rbind (node_at l3 node) (\<lambda>n2.
                       rbind (FreeSlice (fl_ml l3) i) (\<lambda>ml. Inr (nd_val n2, l3\<lparr>fl_ml := ml\<rparr>)))))))))))"

definition erase :: "'v fx_list \<Rightarrow> int \<Rightarrow> (int \<times> 'v fx_list) result" where
  "erase l pos =
     require (pos \<noteq> list_end l)
       (rbind (iter_next l pos) (\<lambda>next. rbind (Unlink l pos) (\<lambda>(v, l1). Inr (next, l1))))"

text \<open>The loop of the erasure of a range; it may not end, when the list is not well formed.\<close>

partial_function (option) erase_loop :: "'v fx_list \<Rightarrow> int \<Rightarrow> int \<Rightarrow> 'v fx_list result option" where
  [code]: "erase_loop l pos stop =
     (if pos = stop then Some (Inr l)
      else case rbind (erase l pos) (\<lambda>(next, l1). rbind (iter_next l1 pos) (\<lambda>p. Inr (p, l1))) of
        Inl e \<Rightarrow> Some (Inl e) | Inr (p, l1) \<Rightarrow> erase_loop l1 p stop)"

definition erase_range :: "'v fx_list \<Rightarrow> int \<Rightarrow> int \<Rightarrow> (int \<times> 'v fx_list) result option" where
  "erase_range l first stop =
     (case iter_next l stop of Inl e \<Rightarrow> Some (Inl e)
      | Inr res \<Rightarrow> map_option (\<lambda>r. rbind r (\<lambda>l1. Inr (res, l1))) (erase_loop l first stop))"

definition pop_front :: "'v fx_list \<Rightarrow> ('v \<times> 'v fx_list) result" where
  "pop_front l = require (lh_head (fl_header l) \<noteq> kInvalidNodeId)
     (require (lh_tail (fl_header l) \<noteq> kInvalidNodeId) (Unlink l (lh_head (fl_header l))))"

definition pop_back :: "'v fx_list \<Rightarrow> ('v \<times> 'v fx_list) result" where
  "pop_back l = require (lh_head (fl_header l) \<noteq> kInvalidNodeId)
     (require (lh_tail (fl_header l) \<noteq> kInvalidNodeId) (Unlink l (lh_tail (fl_header l))))"

section \<open>Adding\<close>

text \<open>
  \<open>assert (front->prev = kInvalidNodeId)\<close> assigns and tests the assigned value, which is -1 and so
  true; \<open>push_back\<close> does the same with \<open>last->next\<close>.
\<close>

definition push_front :: "'v fx_list \<Rightarrow> 'v \<Rightarrow> (int \<times> 'v fx_list) result" where
  "push_front l v =
     (if ml_full (fl_ml l) then Inr (kInvalidNodeId, l)
      else rbind (GetSlice (fl_ml l)) (\<lambda>(i, ml).
        rbind (GetNode i) (\<lambda>node.
          rbind (put_nd_val v node (l\<lparr>fl_ml := ml\<rparr>)) (\<lambda>l1.
            rbind
              (if lh_head (fl_header l1) = kInvalidNodeId
               then require (lh_tail (fl_header l1) = kInvalidNodeId)
                 (rbind (put_nd_prev kInvalidNodeId node (set_list_header (\<lambda>h. h\<lparr>lh_head := i, lh_tail := i\<rparr>) l1))
                   (put_nd_next kInvalidNodeId node))
               else rbind (GetNode (lh_head (fl_header l1))) (\<lambda>front.
                 require (front \<noteq> None)
                   (rbind (put_nd_prev kInvalidNodeId front l1) (\<lambda>l2.
                     require (kInvalidNodeId \<noteq> 0)
                       (rbind (put_nd_prev i front l2) (\<lambda>l3.
                         rbind (put_nd_prev kInvalidNodeId node l3) (\<lambda>l4.
                           rbind (put_nd_next (lh_head (fl_header l4)) node l4) (\<lambda>l5.
                             Inr (set_list_header (\<lambda>h. h\<lparr>lh_head := i\<rparr>) l5)))))))))
              (\<lambda>l6. Inr (i, set_list_header (\<lambda>h. h\<lparr>lh_size := lh_size h + 1\<rparr>) l6))))))"

definition push_back :: "'v fx_list \<Rightarrow> 'v \<Rightarrow> (int \<times> 'v fx_list) result" where
  "push_back l v =
     (if ml_full (fl_ml l) then Inr (kInvalidNodeId, l)
      else rbind (GetSlice (fl_ml l)) (\<lambda>(i, ml).
        rbind (GetNode i) (\<lambda>node.
          rbind (put_nd_val v node (l\<lparr>fl_ml := ml\<rparr>)) (\<lambda>l1.
            rbind
              (if lh_tail (fl_header l1) = kInvalidNodeId
               then require (lh_head (fl_header l1) = kInvalidNodeId)
                 (rbind (put_nd_prev kInvalidNodeId node (set_list_header (\<lambda>h. h\<lparr>lh_head := i, lh_tail := i\<rparr>) l1))
                   (put_nd_next kInvalidNodeId node))
               else rbind (GetNode (lh_tail (fl_header l1))) (\<lambda>last.
                 require (last \<noteq> None)
                   (rbind (put_nd_next kInvalidNodeId last l1) (\<lambda>l2.
                     require (kInvalidNodeId \<noteq> 0)
                       (rbind (put_nd_next i last l2) (\<lambda>l3.
                         rbind (put_nd_prev (lh_tail (fl_header l3)) node l3) (\<lambda>l4.
                           rbind (put_nd_next kInvalidNodeId node l4) (\<lambda>l5.
                             Inr (set_list_header (\<lambda>h. h\<lparr>lh_tail := i\<rparr>) l5)))))))))
              (\<lambda>l6. Inr (i, set_list_header (\<lambda>h. h\<lparr>lh_size := lh_size h + 1\<rparr>) l6))))))"

section \<open>Reading\<close>

definition list_back :: "'v fx_list \<Rightarrow> 'v result" where
  "list_back l = require (lh_tail (fl_header l) \<noteq> kInvalidNodeId)
     (rbind (GetNode (lh_tail (fl_header l))) (\<lambda>p. rbind (node_at l p) (\<lambda>n. Inr (nd_val n))))"

definition list_front :: "'v fx_list \<Rightarrow> 'v result" where
  "list_front l = require (lh_head (fl_header l) \<noteq> kInvalidNodeId)
     (rbind (GetNode (lh_head (fl_header l))) (\<lambda>p. rbind (node_at l p) (\<lambda>n. Inr (nd_val n))))"

definition list_size :: "'v fx_list \<Rightarrow> nat result" where
  "list_size l = require (ml_size (fl_ml l) = unat (lh_size (fl_header l))) (Inr (unat (lh_size (fl_header l))))"

definition list_capacity :: "'v fx_list \<Rightarrow> nat" where
  "list_capacity l = ml_capacity (fl_ml l)"

definition list_full :: "'v fx_list \<Rightarrow> bool result" where
  "list_full l = rbind (list_size l) (\<lambda>n. Inr (n = list_capacity l))"

definition list_clear :: "'v fx_list \<Rightarrow> 'v fx_list result" where
  "list_clear l = rbind (ml_clear (fl_ml l)) (\<lambda>ml.
     Inr (set_list_header (\<lambda>h. h\<lparr>lh_size := 0, lh_head := kInvalidNodeId, lh_tail := kInvalidNodeId\<rparr>) (l\<lparr>fl_ml := ml\<rparr>)))"

section \<open>The list of the nodes\<close>

text \<open>
  The view of a list its proofs use: the buffers of the slices in use and the header. Stores move
  from one view to the next; the laws of the slab allocator are all they need.
\<close>

definition holds :: "ml_layout \<Rightarrow> nat \<Rightarrow> nat set \<Rightarrow> (nat \<Rightarrow> 'v lnode) \<Rightarrow> list_head \<Rightarrow> 'v fx_list \<Rightarrow> bool" where
  "holds L cap U b h l \<longleftrightarrow> ml_slab L (fl_ml l) cap U b \<and> fl_header l = h"

lemma GetNode_simps [simp]: "GetNode (int i) = Inr (Some (int i))" "GetNode (- 1) = Inr None"
  by (simp_all add: GetNode_def kInvalidNodeId_def kInvalidSliceId_def GetSliceById_def)

lemma kInvalidNodeId_simps [simp]: "kInvalidNodeId = - 1"
  by (simp add: kInvalidNodeId_def kInvalidSliceId_def)

lemma GetNode_head_or: "GetNode (head_or is (- 1)) = Inr (if is = [] then None else Some (int (hd is)))"
  by (cases "is") simp_all

lemma GetNode_last_or: "GetNode (last_or (- 1) is) = Inr (if is = [] then None else Some (int (last is)))"
  by (cases "is = []") (simp_all add: last_or_last)

lemma holds_node: "holds L cap U b h l \<Longrightarrow> i \<in> U \<Longrightarrow> node_at l (Some (int i)) = Inr (b i)"
  by (auto simp: holds_def node_at_def intro: ml.load_law)

lemma holds_upd:
  assumes "holds L cap U b h l" "i \<in> U"
  obtains l' where "upd_node g (Some (int i)) l = Inr l'" "holds L cap U (b(i := g (b i))) h l'"
proof -
  have r: "ml_slab L (fl_ml l) cap U b" "fl_header l = h" using assms(1) by (simp_all add: holds_def)
  obtain m where "SetBuffer (fl_ml l) (int i) (g (b i)) = Inr m" "ml_slab L m cap U (b(i := g (b i)))"
    using ml.store_law [OF r(1) assms(2)] by blast
  with r show thesis using that assms(2) by (simp add: upd_node_def ml.load_law holds_def)
qed

lemma holds_put_next:
  assumes "holds L cap U b h l" "i \<in> U"
  obtains l' where "put_nd_next v (Some (int i)) l = Inr l'" "holds L cap U (b(i := (b i)\<lparr>nd_next := v\<rparr>)) h l'"
  unfolding put_nd_next_def using holds_upd [OF assms, of "\<lambda>n. n\<lparr>nd_next := v\<rparr>"] by blast

lemma holds_put_prev:
  assumes "holds L cap U b h l" "i \<in> U"
  obtains l' where "put_nd_prev v (Some (int i)) l = Inr l'" "holds L cap U (b(i := (b i)\<lparr>nd_prev := v\<rparr>)) h l'"
  unfolding put_nd_prev_def using holds_upd [OF assms, of "\<lambda>n. n\<lparr>nd_prev := v\<rparr>"] by blast

lemma holds_put_val:
  assumes "holds L cap U b h l" "i \<in> U"
  obtains l' where "put_nd_val v (Some (int i)) l = Inr l'" "holds L cap U (b(i := (b i)\<lparr>nd_val := v\<rparr>)) h l'"
  unfolding put_nd_val_def using holds_upd [OF assms, of "\<lambda>n. n\<lparr>nd_val := v\<rparr>"] by blast

lemma holds_set_header: "holds L cap U b h l \<Longrightarrow> holds L cap U b (g h) (set_list_header g l)"
  by (simp add: holds_def set_list_header_def)

lemma holds_free:
  assumes "holds L cap U b h l" "i \<in> U"
  obtains m where "FreeSlice (fl_ml l) (int i) = Inr m" "holds L cap (U - {i}) b h (l\<lparr>fl_ml := m\<rparr>)"
  using ml.give_law [of L "fl_ml l" cap U b i] assms that by (auto simp: holds_def)

lemma holds_take:
  assumes "holds L cap U b h l" "card U < cap"
  obtains i m where "GetSlice (fl_ml l) = Inr (int i, m)" "i \<notin> U" "holds L cap (insert i U) b h (l\<lparr>fl_ml := m\<rparr>)"
  using ml.get_law [of L "fl_ml l" cap U b] assms that by (auto simp: holds_def)

lemma holds_full: "holds L cap U b h l \<Longrightarrow> ml_full (fl_ml l) = (card U = cap)"
  using ml.used_law [of L "fl_ml l" cap U b] by (auto simp: holds_def ml_full_def ml_slab_def)

lemma holds_headerD: "holds L cap U b h l \<Longrightarrow> fl_header l = h"
  by (simp add: holds_def)

definition list_at :: "ml_layout \<Rightarrow> nat \<Rightarrow> nat list \<Rightarrow> (nat \<Rightarrow> 'v lnode) \<Rightarrow> 'v fx_list \<Rightarrow> bool" where
  "list_at L cap is b l \<longleftrightarrow>
     holds L cap (set is) b \<lparr>lh_magic_number = list_kMagicNumber, lh_size = of_nat (length is), lh_head = head_or is (- 1),
       lh_tail = last_or (- 1) is\<rparr> l \<and>
     distinct is \<and> dseg (\<lambda>i. nd_next (b i)) (\<lambda>i. nd_prev (b i)) (- 1) is (- 1)"

lemma list_atD:
  assumes "list_at L cap is b l"
  shows "holds L cap (set is) b (fl_header l) l" "distinct is" "dseg (\<lambda>i. nd_next (b i)) (\<lambda>i. nd_prev (b i)) (- 1) is (- 1)"
    "lh_head (fl_header l) = head_or is (- 1)" "lh_tail (fl_header l) = last_or (- 1) is"
    "lh_size (fl_header l) = of_nat (length is)" "card (set is) = length is" "lh_magic_number (fl_header l) = list_kMagicNumber"
  using assms by (auto simp: list_at_def holds_def distinct_card)

lemma list_atI:
  assumes "holds L cap (set is) b h l" "distinct is" "dseg (\<lambda>i. nd_next (b i)) (\<lambda>i. nd_prev (b i)) (- 1) is (- 1)"
    "lh_magic_number h = list_kMagicNumber" "lh_size h = of_nat (length is)" "lh_head h = head_or is (- 1)" "lh_tail h = last_or (- 1) is"
  shows "list_at L cap is b l"
  using assms by (cases h) (simp add: list_at_def)

lemma list_at_bound: "list_at L cap is b l \<Longrightarrow> length is \<le> cap"
  using ml.card_bound [of L "fl_ml l" cap "set is" b] list_atD(7) [of L cap "is" b l] by (simp add: list_at_def holds_def)

lemma new_node:
  assumes "list_at L cap is b l" "length is < cap"
  obtains i m l1 where "\<not> ml_full (fl_ml l)" "GetSlice (fl_ml l) = Inr (int i, m)" "i \<notin> set is"
    "put_nd_val v (Some (int i)) (l\<lparr>fl_ml := m\<rparr>) = Inr l1" "fl_header l1 = fl_header l"
    "holds L cap (insert i (set is)) (b(i := (b i)\<lparr>nd_val := v\<rparr>)) (fl_header l) l1"
proof -
  note at = list_atD [OF assms(1)]
  obtain i m where i: "GetSlice (fl_ml l) = Inr (int i, m)" "i \<notin> set is" "holds L cap (insert i (set is)) b (fl_header l) (l\<lparr>fl_ml := m\<rparr>)"
    using holds_take [OF at(1)] at(7) assms(2) by auto
  have nf: "\<not> ml_full (fl_ml l)" using holds_full [OF at(1)] at(7) assms(2) by simp
  obtain l1 where l1: "put_nd_val v (Some (int i)) (l\<lparr>fl_ml := m\<rparr>) = Inr l1"
    "holds L cap (insert i (set is)) (b(i := (b i)\<lparr>nd_val := v\<rparr>)) (fl_header l) l1"
    by (rule holds_put_val [OF i(3)]) auto
  with nf i holds_headerD [OF l1(2)] show thesis using that by blast
qed

text \<open>The first node of an empty list, whichever end it is pushed at.\<close>

lemma only_node:
  assumes "list_at L cap [] b l" "holds L cap {i} (b(i := (b i)\<lparr>nd_val := v\<rparr>)) (fl_header l) l1"
  obtains l2 l3 where
    "put_nd_prev (- 1) (Some (int i)) (set_list_header (\<lambda>h. h\<lparr>lh_head := int i, lh_tail := int i\<rparr>) l1) = Inr l2"
    "put_nd_next (- 1) (Some (int i)) l2 = Inr l3"
    "list_at L cap [i] (b(i := (b i)\<lparr>nd_val := v, nd_prev := - 1, nd_next := - 1\<rparr>)) (set_list_header (\<lambda>h. h\<lparr>lh_size := lh_size h + 1\<rparr>) l3)"
proof -
  note at = list_atD [OF assms(1)]
  let ?l = "set_list_header (\<lambda>h. h\<lparr>lh_head := int i, lh_tail := int i\<rparr>) l1"
  let ?h = "(fl_header l)\<lparr>lh_head := int i, lh_tail := int i\<rparr>"
  have h: "holds L cap {i} (b(i := (b i)\<lparr>nd_val := v\<rparr>)) ?h ?l" using holds_set_header [OF assms(2)] .
  obtain l2 where l2: "put_nd_prev (- 1) (Some (int i)) ?l = Inr l2"
    "holds L cap {i} (b(i := (b i)\<lparr>nd_val := v, nd_prev := - 1\<rparr>)) ?h l2"
    by (rule holds_put_prev [OF h, of i]) auto
  obtain l3 where l3: "put_nd_next (- 1) (Some (int i)) l2 = Inr l3"
    "holds L cap {i} (b(i := (b i)\<lparr>nd_val := v, nd_prev := - 1, nd_next := - 1\<rparr>)) ?h l3"
    by (rule holds_put_next [OF l2(2), of i]) auto
  have "list_at L cap [i] (b(i := (b i)\<lparr>nd_val := v, nd_prev := - 1, nd_next := - 1\<rparr>))
      (set_list_header (\<lambda>h. h\<lparr>lh_size := lh_size h + 1\<rparr>) l3)"
    by (rule list_atI [where h = "?h\<lparr>lh_size := lh_size ?h + 1\<rparr>"])
      (use holds_set_header [OF l3(2), of "\<lambda>h. h\<lparr>lh_size := lh_size h + 1\<rparr>"] at in simp_all)
  with l2 l3 show thesis using that by blast
qed

lemma push_back_at:
  assumes "list_at L cap is b l" "length is < cap"
  obtains i b' l' where "push_back l v = Inr (int i, l')" "list_at L cap (is @ [i]) b' l'" "i \<notin> set is" "nd_val (b' i) = v"
    "\<forall>j\<in>set is. nd_val (b' j) = nd_val (b j)"
proof (cases "is" rule: rev_cases)
  case Nil
  note at = list_atD [OF assms(1)]
  obtain i m l1 where i: "\<not> ml_full (fl_ml l)" "GetSlice (fl_ml l) = Inr (int i, m)"
    "put_nd_val v (Some (int i)) (l\<lparr>fl_ml := m\<rparr>) = Inr l1" "fl_header l1 = fl_header l"
    "holds L cap {i} (b(i := (b i)\<lparr>nd_val := v\<rparr>)) (fl_header l) l1"
    using new_node [OF assms, of v] Nil by (metis list.set(1))
  obtain l2 l3 where l3:
    "put_nd_prev (- 1) (Some (int i)) (set_list_header (\<lambda>h. h\<lparr>lh_head := int i, lh_tail := int i\<rparr>) l1) = Inr l2"
    "put_nd_next (- 1) (Some (int i)) l2 = Inr l3"
    "list_at L cap [i] (b(i := (b i)\<lparr>nd_val := v, nd_prev := - 1, nd_next := - 1\<rparr>)) (set_list_header (\<lambda>h. h\<lparr>lh_size := lh_size h + 1\<rparr>) l3)"
    using only_node [OF assms(1) [unfolded Nil] i(5)] by blast
  have "push_back l v = Inr (int i, set_list_header (\<lambda>h. h\<lparr>lh_size := lh_size h + 1\<rparr>) l3)"
    using i l3(1,2) at(4,5) Nil by (simp add: push_back_def)
  then show thesis using that [OF _ _ _ _, of i _ "b(i := (b i)\<lparr>nd_val := v, nd_prev := - 1, nd_next := - 1\<rparr>)"] l3(3) Nil by simp
next
  case (snoc js z)
  note at = list_atD [OF assms(1)]
  obtain i m l1 where i: "\<not> ml_full (fl_ml l)" "GetSlice (fl_ml l) = Inr (int i, m)" "i \<notin> set is"
    "put_nd_val v (Some (int i)) (l\<lparr>fl_ml := m\<rparr>) = Inr l1" "fl_header l1 = fl_header l"
    "holds L cap (insert i (set is)) (b(i := (b i)\<lparr>nd_val := v\<rparr>)) (fl_header l) l1"
    by (rule new_node [OF assms])
  have z: "z \<in> set is" "z \<noteq> i" using snoc i(3) by auto
  have tail: "lh_tail (fl_header l) = int z" using at(5) snoc by simp
  let ?b1 = "b(i := (b i)\<lparr>nd_val := v\<rparr>)"
  obtain l2 where l2: "put_nd_next (- 1) (Some (int z)) l1 = Inr l2"
    "holds L cap (insert i (set is)) (?b1(z := (b z)\<lparr>nd_next := - 1\<rparr>)) (fl_header l) l2"
    by (rule holds_put_next [OF i(6), of z]) (use z in auto)
  obtain l3 where l3: "put_nd_next (int i) (Some (int z)) l2 = Inr l3"
    "holds L cap (insert i (set is)) (?b1(z := (b z)\<lparr>nd_next := int i\<rparr>)) (fl_header l) l3"
    by (rule holds_put_next [OF l2(2), of z]) (use z in auto)
  let ?b2 = "b(z := (b z)\<lparr>nd_next := int i\<rparr>)"
  have b2: "?b1(z := (b z)\<lparr>nd_next := int i\<rparr>) = ?b2(i := (b i)\<lparr>nd_val := v\<rparr>)" using z(2) by (simp add: fun_upd_twist)
  obtain l4 where l4: "put_nd_prev (int z) (Some (int i)) l3 = Inr l4"
    "holds L cap (insert i (set is)) (?b2(i := (b i)\<lparr>nd_val := v, nd_prev := int z\<rparr>)) (fl_header l) l4"
    by (rule holds_put_prev [OF l3(2) [unfolded b2], of i]) auto
  let ?b = "?b2(i := (b i)\<lparr>nd_val := v, nd_prev := int z, nd_next := - 1\<rparr>)"
  obtain l5 where l5: "put_nd_next (- 1) (Some (int i)) l4 = Inr l5" "holds L cap (insert i (set is)) ?b (fl_header l) l5"
    by (rule holds_put_next [OF l4(2), of i]) auto
  let ?r = "set_list_header (\<lambda>h. h\<lparr>lh_size := lh_size h + 1\<rparr>) (set_list_header (\<lambda>h. h\<lparr>lh_tail := int i\<rparr>) l5)"
  have "push_back l v = Inr (int i, ?r)"
    using i(1,2,4,5) l2(1) l3(1) l4(1) l5(1) holds_headerD [OF l3(2)] tail by (simp add: push_back_def)
  moreover have "dseg (\<lambda>i. nd_next (?b i)) (\<lambda>i. nd_prev (?b i)) (- 1) (is @ [i]) (- 1)"
    by (rule dseg_push_back [OF i(3) at(3,2)]) (use snoc z in \<open>auto simp: fun_eq_iff\<close>)
  then have "list_at L cap (is @ [i]) ?b ?r"
    by (intro list_atI [where h = "(fl_header l)\<lparr>lh_tail := int i, lh_size := lh_size (fl_header l) + 1\<rparr>"])
      (use holds_set_header [OF holds_set_header [OF l5(2), of "\<lambda>h. h\<lparr>lh_tail := int i\<rparr>"], of "\<lambda>h. h\<lparr>lh_size := lh_size h + 1\<rparr>"]
        at i(3) snoc in \<open>simp_all add: insert_commute\<close>)
  ultimately show thesis using that [of i ?r ?b] i(3) z snoc by simp
qed

lemma push_front_at:
  assumes "list_at L cap is b l" "length is < cap"
  obtains i b' l' where "push_front l v = Inr (int i, l')" "list_at L cap (i # is) b' l'" "i \<notin> set is" "nd_val (b' i) = v"
    "\<forall>j\<in>set is. nd_val (b' j) = nd_val (b j)"
proof (cases "is")
  case Nil
  note at = list_atD [OF assms(1)]
  obtain i m l1 where i: "\<not> ml_full (fl_ml l)" "GetSlice (fl_ml l) = Inr (int i, m)"
    "put_nd_val v (Some (int i)) (l\<lparr>fl_ml := m\<rparr>) = Inr l1" "fl_header l1 = fl_header l"
    "holds L cap {i} (b(i := (b i)\<lparr>nd_val := v\<rparr>)) (fl_header l) l1"
    using new_node [OF assms, of v] Nil by (metis list.set(1))
  obtain l2 l3 where l3:
    "put_nd_prev (- 1) (Some (int i)) (set_list_header (\<lambda>h. h\<lparr>lh_head := int i, lh_tail := int i\<rparr>) l1) = Inr l2"
    "put_nd_next (- 1) (Some (int i)) l2 = Inr l3"
    "list_at L cap [i] (b(i := (b i)\<lparr>nd_val := v, nd_prev := - 1, nd_next := - 1\<rparr>)) (set_list_header (\<lambda>h. h\<lparr>lh_size := lh_size h + 1\<rparr>) l3)"
    using only_node [OF assms(1) [unfolded Nil] i(5)] by blast
  have "push_front l v = Inr (int i, set_list_header (\<lambda>h. h\<lparr>lh_size := lh_size h + 1\<rparr>) l3)"
    using i l3(1,2) at(4,5) Nil by (simp add: push_front_def)
  then show thesis using that [OF _ _ _ _, of i _ "b(i := (b i)\<lparr>nd_val := v, nd_prev := - 1, nd_next := - 1\<rparr>)"] l3(3) Nil by simp
next
  case (Cons z js)
  note at = list_atD [OF assms(1)]
  obtain i m l1 where i: "\<not> ml_full (fl_ml l)" "GetSlice (fl_ml l) = Inr (int i, m)" "i \<notin> set is"
    "put_nd_val v (Some (int i)) (l\<lparr>fl_ml := m\<rparr>) = Inr l1" "fl_header l1 = fl_header l"
    "holds L cap (insert i (set is)) (b(i := (b i)\<lparr>nd_val := v\<rparr>)) (fl_header l) l1"
    by (rule new_node [OF assms])
  have z: "z \<in> set is" "z \<noteq> i" using Cons i(3) by auto
  have head: "lh_head (fl_header l) = int z" using at(4) Cons by simp
  let ?b1 = "b(i := (b i)\<lparr>nd_val := v\<rparr>)"
  obtain l2 where l2: "put_nd_prev (- 1) (Some (int z)) l1 = Inr l2"
    "holds L cap (insert i (set is)) (?b1(z := (b z)\<lparr>nd_prev := - 1\<rparr>)) (fl_header l) l2"
    by (rule holds_put_prev [OF i(6), of z]) (use z in auto)
  obtain l3 where l3: "put_nd_prev (int i) (Some (int z)) l2 = Inr l3"
    "holds L cap (insert i (set is)) (?b1(z := (b z)\<lparr>nd_prev := int i\<rparr>)) (fl_header l) l3"
    by (rule holds_put_prev [OF l2(2), of z]) (use z in auto)
  let ?b2 = "b(z := (b z)\<lparr>nd_prev := int i\<rparr>)"
  have b2: "?b1(z := (b z)\<lparr>nd_prev := int i\<rparr>) = ?b2(i := (b i)\<lparr>nd_val := v\<rparr>)" using z(2) by (simp add: fun_upd_twist)
  obtain l4 where l4: "put_nd_prev (- 1) (Some (int i)) l3 = Inr l4"
    "holds L cap (insert i (set is)) (?b2(i := (b i)\<lparr>nd_val := v, nd_prev := - 1\<rparr>)) (fl_header l) l4"
    by (rule holds_put_prev [OF l3(2) [unfolded b2], of i]) auto
  let ?b = "?b2(i := (b i)\<lparr>nd_val := v, nd_prev := - 1, nd_next := int z\<rparr>)"
  obtain l5 where l5: "put_nd_next (int z) (Some (int i)) l4 = Inr l5" "holds L cap (insert i (set is)) ?b (fl_header l) l5"
    by (rule holds_put_next [OF l4(2), of i]) auto
  let ?r = "set_list_header (\<lambda>h. h\<lparr>lh_size := lh_size h + 1\<rparr>) (set_list_header (\<lambda>h. h\<lparr>lh_head := int i\<rparr>) l5)"
  have "push_front l v = Inr (int i, ?r)"
    using i(1,2,4,5) l2(1) l3(1) l4(1) l5(1) holds_headerD [OF l4(2)] head by (simp add: push_front_def)
  moreover have "dseg (\<lambda>i. nd_next (?b i)) (\<lambda>i. nd_prev (?b i)) (- 1) (i # is) (- 1)"
    by (rule dseg_push_front [OF i(3) at(3,2)]) (use Cons z in \<open>auto simp: fun_eq_iff\<close>)
  then have "list_at L cap (i # is) ?b ?r"
    by (intro list_atI [where h = "(fl_header l)\<lparr>lh_head := int i, lh_size := lh_size (fl_header l) + 1\<rparr>"])
      (use holds_set_header [OF holds_set_header [OF l5(2), of "\<lambda>h. h\<lparr>lh_head := int i\<rparr>"], of "\<lambda>h. h\<lparr>lh_size := lh_size h + 1\<rparr>"]
        at i(3) Cons in \<open>simp_all add: insert_commute\<close>)
  ultimately show thesis using that [of i ?r ?b] i(3) z Cons by simp
qed

lemma Unlink_at:
  assumes "list_at L cap (xs @ i # ys) b l"
  obtains b' l' where "Unlink l (int i) = Inr (nd_val (b i), l')" "list_at L cap (xs @ ys) b' l'"
    "\<forall>j. nd_val (b' j) = nd_val (b j)" "b' i = b i"
proof -
  let ?U = "set (xs @ i # ys)"
  note at = list_atD [OF assms]
  have n: "nd_prev (b i) = last_or (- 1) xs" "nd_next (b i) = head_or ys (- 1)" using at(3) by (simp_all add: dseg_append)
  define b1 where "b1 = (if xs = [] then b else b(last xs := (b (last xs))\<lparr>nd_next := head_or ys (- 1)\<rparr>))"
  let ?h1 = "if xs = [] then (fl_header l)\<lparr>lh_head := head_or ys (- 1)\<rparr> else fl_header l"
  obtain l1 where l1: "(if xs \<noteq> [] then put_nd_next (head_or ys (- 1)) (Some (int (last xs))) l
      else Inr (set_list_header (\<lambda>h. h\<lparr>lh_head := head_or ys (- 1)\<rparr>) l)) = Inr l1" "holds L cap ?U b1 ?h1 l1"
  proof (cases "xs = []")
    case True
    then show thesis using that holds_set_header [OF at(1)] by (simp add: b1_def)
  next
    case False
    then have "last xs \<in> ?U" by simp
    from holds_put_next [OF at(1) this, of "head_or ys (- 1)" thesis] False that show thesis by (simp add: b1_def)
  qed
  define b2 where "b2 = (if ys = [] then b1 else b1(hd ys := (b1 (hd ys))\<lparr>nd_prev := last_or (- 1) xs\<rparr>))"
  let ?h2 = "if ys = [] then ?h1\<lparr>lh_tail := last_or (- 1) xs\<rparr> else ?h1"
  obtain l2 where l2: "(if ys \<noteq> [] then put_nd_prev (last_or (- 1) xs) (Some (int (hd ys))) l1
      else Inr (set_list_header (\<lambda>h. h\<lparr>lh_tail := last_or (- 1) xs\<rparr>) l1)) = Inr l2" "holds L cap ?U b2 ?h2 l2"
  proof (cases "ys = []")
    case True
    then show thesis using that holds_set_header [OF l1(2), of "\<lambda>h. h\<lparr>lh_tail := last_or (- 1) xs\<rparr>"] by (simp add: b2_def)
  next
    case False
    then have "hd ys \<in> ?U" by simp
    from holds_put_prev [OF l1(2) this, of "last_or (- 1) xs" thesis] False that show thesis by (simp add: b2_def)
  qed
  have i: "xs \<noteq> [] \<Longrightarrow> last xs \<noteq> i" "ys \<noteq> [] \<Longrightarrow> hd ys \<noteq> i" "i \<notin> set xs" "i \<notin> set ys"
    using at(2) last_in_set hd_in_set by fastforce+
  have bi1: "b1 i = b i" using i(1) by (cases "xs = []") (auto simp: b1_def)
  have bi: "b2 i = b i" using i(2) by (cases "ys = []") (auto simp: b2_def bi1)
  let ?l3 = "set_list_header (\<lambda>h. h\<lparr>lh_size := lh_size h - 1\<rparr>) l2"
  have l3: "holds L cap ?U b2 (?h2\<lparr>lh_size := lh_size ?h2 - 1\<rparr>) ?l3" by (rule holds_set_header [OF l2(2)])
  obtain m where m: "FreeSlice (fl_ml ?l3) (int i) = Inr m" "holds L cap (?U - {i}) b2 (?h2\<lparr>lh_size := lh_size ?h2 - 1\<rparr>) (?l3\<lparr>fl_ml := m\<rparr>)"
    by (rule holds_free [OF l3]) auto
  have "node_at l (Some (int i)) = Inr (b i)" "node_at l1 (Some (int i)) = Inr (b i)" "node_at ?l3 (Some (int i)) = Inr (b i)"
    using holds_node [OF at(1)] holds_node [OF l1(2)] holds_node [OF l3] bi bi1 by simp_all
  then have "Unlink l (int i) = Inr (nd_val (b i), ?l3\<lparr>fl_ml := m\<rparr>)"
    using l1(1) l2(1) m(1)
    by (cases "xs = []"; cases "ys = []") (simp_all add: Unlink_def n GetNode_last_or GetNode_head_or)
  moreover have "list_at L cap (xs @ ys) b2 (?l3\<lparr>fl_ml := m\<rparr>)"
  proof (rule list_atI)
    have "?U - {i} = set (xs @ ys)" using i(3,4) by auto
    then show "holds L cap (set (xs @ ys)) b2 (?h2\<lparr>lh_size := lh_size ?h2 - 1\<rparr>) (?l3\<lparr>fl_ml := m\<rparr>)" using m(2) by (simp only:)
    show "dseg (\<lambda>j. nd_next (b2 j)) (\<lambda>j. nd_prev (b2 j)) (- 1) (xs @ ys) (- 1)"
      by (rule dseg_unlink [OF at(2,3)]) (auto simp: n fun_eq_iff b1_def b2_def)
  qed (use at in \<open>auto simp: head_or_hd last_or_last\<close>)
  moreover have "\<forall>j. nd_val (b2 j) = nd_val (b j)" by (simp add: b1_def b2_def)
  ultimately show thesis using that [of "?l3\<lparr>fl_ml := m\<rparr>" b2] bi by blast
qed

section \<open>The list of the values\<close>

definition list_rep :: "ml_layout \<Rightarrow> nat \<Rightarrow> 'v fx_list \<Rightarrow> 'v list \<Rightarrow> bool" where
  "list_rep L cap l xs \<longleftrightarrow> region_layout L cap \<and> (\<exists>is b. list_at L cap is b l \<and> xs = map (\<lambda>i. nd_val (b i)) is)"

lemma list_repE:
  assumes "list_rep L cap l xs"
  obtains "is" b where "list_at L cap is b l" "xs = map (\<lambda>i. nd_val (b i)) is" "region_layout L cap" "length is = length xs"
  using assms unfolding list_rep_def by auto

lemma list_repI:
  "region_layout L cap \<Longrightarrow> list_at L cap is b l \<Longrightarrow> xs = map (\<lambda>i. nd_val (b i)) is \<Longrightarrow> list_rep L cap l xs"
  unfolding list_rep_def by blast

lemma list_rep_length: "list_rep L cap l xs \<Longrightarrow> length xs \<le> cap \<and> cap < 2 ^ 31"
  unfolding list_rep_def region_layout_def by (metis length_map list_at_bound)

lemma push_full:
  assumes "list_rep L cap l xs" "length xs = cap"
  shows "push_front l v = Inr (- 1, l)" "push_back l v = Inr (- 1, l)"
proof -
  obtain "is" b where "list_at L cap is b l" "length is = length xs" by (rule list_repE [OF assms(1)])
  then have "ml_full (fl_ml l)" using holds_full [OF list_atD(1)] list_atD(7) assms(2) by metis
  then show "push_front l v = Inr (- 1, l)" "push_back l v = Inr (- 1, l)" by (simp_all add: push_front_def push_back_def)
qed

lemma push_back_rep:
  assumes "list_rep L cap l xs" "length xs < cap"
  shows "\<exists>i l'. push_back l v = Inr (int i, l') \<and> list_rep L cap l' (xs @ [v])"
proof -
  obtain "is" b where at: "list_at L cap is b l" "xs = map (\<lambda>i. nd_val (b i)) is" "region_layout L cap" "length is = length xs"
    by (rule list_repE [OF assms(1)])
  obtain i b' l' where "push_back l v = Inr (int i, l')" "list_at L cap (is @ [i]) b' l'" "nd_val (b' i) = v"
    "\<forall>j\<in>set is. nd_val (b' j) = nd_val (b j)"
    by (rule push_back_at [OF at(1), of v]) (use at(4) assms(2) in simp_all)
  moreover from this at(2) have "xs @ [v] = map (\<lambda>i. nd_val (b' i)) (is @ [i])" by simp
  ultimately show ?thesis using list_repI [OF at(3)] by blast
qed

lemma push_front_rep:
  assumes "list_rep L cap l xs" "length xs < cap"
  shows "\<exists>i l'. push_front l v = Inr (int i, l') \<and> list_rep L cap l' (v # xs)"
proof -
  obtain "is" b where at: "list_at L cap is b l" "xs = map (\<lambda>i. nd_val (b i)) is" "region_layout L cap" "length is = length xs"
    by (rule list_repE [OF assms(1)])
  obtain i b' l' where new: "push_front l v = Inr (int i, l')" "list_at L cap (i # is) b' l'" "nd_val (b' i) = v"
    "\<forall>j\<in>set is. nd_val (b' j) = nd_val (b j)"
    by (rule push_front_at [OF at(1), of v]) (use at(4) assms(2) in simp_all)
  have "v # xs = map (\<lambda>i. nd_val (b' i)) (i # is)" using at(2) new(3,4) by simp
  then have "list_rep L cap l' (v # xs)" by (rule list_repI [OF at(3) new(2)])
  with new(1) show ?thesis by blast
qed

lemma Unlink_rep:
  assumes "list_at L cap (ys @ i # zs) b l" "region_layout L cap"
  shows "\<exists>l'. Unlink l (int i) = Inr (nd_val (b i), l') \<and> list_rep L cap l' (map (\<lambda>j. nd_val (b j)) (ys @ zs))"
proof -
  obtain b' l' where "Unlink l (int i) = Inr (nd_val (b i), l')" "list_at L cap (ys @ zs) b' l'" "\<forall>j. nd_val (b' j) = nd_val (b j)"
    by (rule Unlink_at [OF assms(1)])
  moreover from this have "map (\<lambda>j. nd_val (b j)) (ys @ zs) = map (\<lambda>i. nd_val (b' i)) (ys @ zs)" by simp
  ultimately show ?thesis using list_repI [OF assms(2)] by blast
qed

lemma pop_front_rep:
  assumes "list_rep L cap l xs" "xs \<noteq> []"
  shows "\<exists>l'. pop_front l = Inr (hd xs, l') \<and> list_rep L cap l' (tl xs)" "list_front l = Inr (hd xs)"
proof -
  obtain "is" b where at: "list_at L cap is b l" "xs = map (\<lambda>i. nd_val (b i)) is" "region_layout L cap"
    by (rule list_repE [OF assms(1)])
  then obtain i zs where i: "is = i # zs" using assms(2) by (cases "is") auto
  then have "lh_head (fl_header l) = int i" "lh_tail (fl_header l) \<noteq> - 1"
    using list_atD(4,5) [OF at(1)] last_or_last [of "is" "- 1"] by simp_all
  moreover have "node_at l (Some (int i)) = Inr (b i)" using holds_node [OF list_atD(1) [OF at(1)]] i by simp
  ultimately show "\<exists>l'. pop_front l = Inr (hd xs, l') \<and> list_rep L cap l' (tl xs)" "list_front l = Inr (hd xs)"
    using Unlink_rep [of L cap "[]" i zs b l] at i by (auto simp: pop_front_def list_front_def)
qed

lemma pop_back_rep:
  assumes "list_rep L cap l xs" "xs \<noteq> []"
  shows "\<exists>l'. pop_back l = Inr (last xs, l') \<and> list_rep L cap l' (butlast xs)" "list_back l = Inr (last xs)"
proof -
  obtain "is" b where at: "list_at L cap is b l" "xs = map (\<lambda>i. nd_val (b i)) is" "region_layout L cap"
    by (rule list_repE [OF assms(1)])
  then obtain i zs where i: "is = zs @ [i]" using assms(2) by (cases "is" rule: rev_cases) auto
  then have "lh_tail (fl_header l) = int i" "lh_head (fl_header l) \<noteq> - 1"
    using list_atD(4,5) [OF at(1)] head_or_hd [of "is" "- 1"] by simp_all
  moreover have "node_at l (Some (int i)) = Inr (b i)" using holds_node [OF list_atD(1) [OF at(1)]] i by simp
  ultimately show "\<exists>l'. pop_back l = Inr (last xs, l') \<and> list_rep L cap l' (butlast xs)" "list_back l = Inr (last xs)"
    using Unlink_rep [of L cap zs i "[]" b l] at i by (auto simp: pop_back_def list_back_def)
qed

lemma empty_list_aborts:
  assumes "list_rep L cap l []"
  shows "pop_front l = Inl AssertionFailed" "pop_back l = Inl AssertionFailed" "list_front l = Inl AssertionFailed" "list_back l = Inl AssertionFailed"
proof -
  obtain "is" b where at: "list_at L cap is b l" "length is = length ([] :: 'a list)" by (rule list_repE [OF assms])
  have "lh_head (fl_header l) = - 1" "lh_tail (fl_header l) = - 1" using list_atD(4,5) [OF at(1)] at(2) by simp_all
  then show "pop_front l = Inl AssertionFailed" "pop_back l = Inl AssertionFailed" "list_front l = Inl AssertionFailed" "list_back l = Inl AssertionFailed"
    by (simp_all add: pop_front_def pop_back_def list_front_def list_back_def)
qed

lemma list_size_rep:
  assumes "list_rep L cap l xs"
  shows "list_size l = Inr (length xs)" "list_full l = Inr (length xs = cap)"
proof -
  obtain "is" b where at: "list_at L cap is b l" "length is = length xs" by (rule list_repE [OF assms])
  note h = list_atD [OF at(1)]
  have "length xs < 2 ^ 64" using list_rep_length [OF assms] by simp
  then have "unat (lh_size (fl_header l)) = length xs" using h(6) at(2) by (simp add: unat_of_nat_small)
  moreover have "ml_slab L (fl_ml l) cap (set is) b" using h(1) by (simp add: holds_def)
  then have "ml_size (fl_ml l) = length xs" "ml_capacity (fl_ml l) = cap"
    using ml.used_law [of L "fl_ml l" cap "set is" b] h(7) at(2) by (simp_all add: ml_slab_def)
  ultimately show "list_size l = Inr (length xs)" "list_full l = Inr (length xs = cap)"
    by (simp_all add: list_size_def list_full_def list_capacity_def)
qed

lemma list_clear_rep:
  assumes "list_rep L cap l xs"
  shows "\<exists>l'. list_clear l = Inr l' \<and> list_rep L cap l' []"
proof -
  obtain "is" b where at: "list_at L cap is b l" "region_layout L cap" by (rule list_repE [OF assms])
  obtain start len slice_size where L: "L = made_layout start len slice_size cap" "ml_kHeaderSize \<le> len"
    "cap = (len - ml_kHeaderSize) div (kSliceHeadSize + slice_size)" "cap < 2 ^ 31"
    using at(2) unfolding region_layout_def by blast
  have "ml_slab L (fl_ml l) cap (set is) b" using list_atD(1) [OF at(1)] by (simp add: holds_def)
  then obtain m where m: "ml_clear (fl_ml l) = Inr m" "ml_slab L m cap {} b" using clear_slab [OF _ L(2-4)] L(1) by blast
  let ?g = "\<lambda>h. h\<lparr>lh_size := 0, lh_head := - 1, lh_tail := - 1\<rparr>"
  let ?l = "set_list_header ?g (l\<lparr>fl_ml := m\<rparr>)"
  have "list_clear l = Inr ?l" using m(1) by (simp add: list_clear_def)
  moreover have "list_at L cap [] b ?l"
    by (rule list_atI [where h = "?g (fl_header l)"]) (use m(2) list_atD(8) [OF at(1)] in \<open>simp_all add: holds_def set_list_header_def\<close>)
  then have "list_rep L cap ?l []" by (rule list_repI [OF at(2)]) simp
  ultimately show ?thesis by blast
qed

text \<open>The list as a client uses it: a push is accepted when the id it returns is valid.\<close>

definition try_push_front :: "'v fx_list \<Rightarrow> 'v \<Rightarrow> (bool \<times> 'v fx_list) result" where
  "try_push_front l v = rbind (push_front l v) (\<lambda>(i, l1). Inr (i \<noteq> kInvalidNodeId, l1))"

definition try_push_back :: "'v fx_list \<Rightarrow> 'v \<Rightarrow> (bool \<times> 'v fx_list) result" where
  "try_push_back l v = rbind (push_back l v) (\<lambda>(i, l1). Inr (i \<noteq> kInvalidNodeId, l1))"

interpretation fxl: bounded_deque "list_rep L" try_push_front try_push_back pop_front pop_back list_front list_back list_size list_clear
  for L
proof unfold_locales
  fix l :: "'v fx_list" and cap xs v
  assume rep: "list_rep L cap l xs"
  have "length xs < cap \<or> length xs = cap" using list_rep_length [OF rep] by auto
  then show "\<exists>t. try_push_front l v = Inr (length xs < cap, t) \<and> list_rep L cap t (if length xs < cap then v # xs else xs)"
    "\<exists>t. try_push_back l v = Inr (length xs < cap, t) \<and> list_rep L cap t (if length xs < cap then xs @ [v] else xs)"
    using push_front_rep [OF rep, of v] push_back_rep [OF rep, of v] push_full [OF rep, of v] rep
    by (auto simp: try_push_front_def try_push_back_def)
  show "list_size l = Inr (length xs)" by (rule list_size_rep [OF rep])
  show "\<exists>t. list_clear l = Inr t \<and> list_rep L cap t []" by (rule list_clear_rep [OF rep])
qed (simp_all add: pop_front_rep pop_back_rep empty_list_aborts)

section \<open>Making and restoring a list\<close>

lemma list_CreateFrom_rep:
  assumes "list_kHeaderSize + ml_kHeaderSize \<le> len" "n = (len - list_kHeaderSize - ml_kHeaderSize) div (kSliceHeadSize + node_size)"
    "length cells = n" "n < 2 ^ 31"
  obtains l where "list_CreateFrom node_size buf len cells = Inr (Some l)"
    "list_rep (made_layout (buf + list_kHeaderSize) (len - list_kHeaderSize) node_size n) n l []"
proof -
  let ?L = "made_layout (buf + list_kHeaderSize) (len - list_kHeaderSize) node_size n"
  have len: "ml_kHeaderSize \<le> len - list_kHeaderSize" using assms(1) by simp
  obtain m where m: "ml_CreateFrom (buf + list_kHeaderSize) (len - list_kHeaderSize) node_size cells = Inr (Some m)" "ml_slab ?L m n {} (buf_of m)"
    by (rule CreateFrom_slab [OF len assms(2-4)])
  let ?l = "\<lparr>fl_header = list_Init, fl_ml = m\<rparr>"
  have "list_CreateFrom node_size buf len cells = Inr (Some ?l)" using m(1) assms(1) by (simp add: list_CreateFrom_def)
  moreover have "list_at ?L n [] (buf_of m) ?l" using m(2) by (simp add: list_at_def holds_def list_Init_def)
  moreover have "region_layout ?L n" using len assms(2,4) unfolding region_layout_def by blast
  ultimately show thesis using that list_repI by fastforce
qed

section \<open>Iterating and erasing\<close>

text \<open>A client that walks over a list, and an iterator moved \<open>k\<close> times.\<close>

fun walk :: "nat \<Rightarrow> 'v fx_list \<Rightarrow> int \<Rightarrow> 'v list result" where
  "walk 0 l i = Inl RuntimeError"
| "walk (Suc k) l i =
     (if i = list_end l then Inr []
      else rbind (iter_deref l i) (\<lambda>v. rbind (iter_next l i) (\<lambda>j. rbind (walk k l j) (\<lambda>vs. Inr (v # vs)))))"

fun advance :: "nat \<Rightarrow> 'v fx_list \<Rightarrow> int \<Rightarrow> int result" where
  "advance 0 l i = Inr i"
| "advance (Suc k) l i = rbind (iter_next l i) (advance k l)"

lemma iter_at:
  assumes "list_at L cap (xs @ i # ys) b l"
  shows "iter_next l (int i) = Inr (head_or ys (- 1))" "iter_deref l (int i) = Inr (nd_val (b i))"
proof -
  have "node_at l (Some (int i)) = Inr (b i)" using holds_node [OF list_atD(1) [OF assms]] by simp
  moreover have "nd_next (b i) = head_or ys (- 1)" using list_atD(3) [OF assms] by (simp add: dseg_append)
  ultimately show "iter_next l (int i) = Inr (head_or ys (- 1))" "iter_deref l (int i) = Inr (nd_val (b i))"
    by (simp_all add: iter_next_def iter_deref_def)
qed

lemma walk_at:
  "list_at L cap (xs @ ys) b l \<Longrightarrow> length ys < k \<Longrightarrow> walk k l (head_or ys (- 1)) = Inr (map (\<lambda>i. nd_val (b i)) ys)"
proof (induction ys arbitrary: xs k)
  case Nil
  then show ?case by (cases k) (simp_all add: list_end_def)
next
  case (Cons y ys)
  then obtain k' where k: "k = Suc k'" "length ys < k'" by (cases k) auto
  have "list_at L cap ((xs @ [y]) @ ys) b l" using Cons.prems(1) by simp
  from Cons.IH [OF this k(2)] iter_at [OF Cons.prems(1)] k(1) show ?case by (simp add: list_end_def)
qed

lemma advance_at:
  "list_at L cap (xs @ ys @ zs) b l \<Longrightarrow> advance (length ys) l (head_or ys (head_or zs (- 1))) = Inr (head_or zs (- 1))"
proof (induction ys arbitrary: xs)
  case Nil
  then show ?case by simp
next
  case (Cons y ys)
  have "list_at L cap ((xs @ [y]) @ ys @ zs) b l" "list_at L cap (xs @ y # ys @ zs) b l" using Cons.prems by simp_all
  with Cons.IH [OF this(1)] iter_at(1) [OF this(2)] show ?case by simp
qed

lemma holds_any_node: "holds L cap U b h l \<Longrightarrow> i < cap \<Longrightarrow> node_at l (Some (int i)) = Inr (b i)"
  by (auto simp: holds_def node_at_def ml_slab_def ml_rep_def GetBuffer_def GetSliceById_def kInvalidSliceId_def deref_def buf_of_def)

lemma list_at_less: "list_at L cap is b l \<Longrightarrow> i \<in> set is \<Longrightarrow> i < cap"
  using ml.bound_law [of L "fl_ml l" cap "set is" b] by (auto simp: list_at_def holds_def)

lemma erase_at:
  assumes "list_at L cap (xs @ i # ys) b l"
  obtains b' l' where "erase l (int i) = Inr (head_or ys (- 1), l')" "list_at L cap (xs @ ys) b' l'"
    "\<forall>j. nd_val (b' j) = nd_val (b j)" "iter_next l' (int i) = Inr (head_or ys (- 1))"
proof -
  obtain b' l' where u: "Unlink l (int i) = Inr (nd_val (b i), l')" "list_at L cap (xs @ ys) b' l'"
    "\<forall>j. nd_val (b' j) = nd_val (b j)" "b' i = b i"
    by (rule Unlink_at [OF assms])
  have "nd_next (b i) = head_or ys (- 1)" using list_atD(3) [OF assms] by (simp add: dseg_append)
  moreover have "i < cap" using list_at_less [OF assms] by simp
  ultimately have "iter_next l' (int i) = Inr (head_or ys (- 1))"
    using holds_any_node [OF list_atD(1) [OF u(2)]] u(4) by (simp add: iter_next_def)
  moreover have "erase l (int i) = Inr (head_or ys (- 1), l')"
    using iter_at(1) [OF assms] u(1) by (simp add: erase_def list_end_def)
  ultimately show thesis using that u by blast
qed

text \<open>The loop reads the links of the nodes it has freed; they are still there.\<close>

lemma erase_loop_at:
  assumes "list_at L cap (xs @ is @ j # ys) b l"
  shows "\<exists>b' l'. erase_loop l (head_or is (int j)) (int j) = Some (Inr l') \<and> list_at L cap (xs @ j # ys) b' l' \<and>
    (\<forall>k. nd_val (b' k) = nd_val (b k))"
  using assms
proof (induction "is" arbitrary: b l)
  case Nil
  then show ?case by (auto simp: erase_loop.simps)
next
  case (Cons i "is")
  have at: "list_at L cap (xs @ i # is @ j # ys) b l" using Cons.prems by simp
  obtain b1 l1 where e: "erase l (int i) = Inr (head_or is (int j), l1)" "list_at L cap (xs @ is @ j # ys) b1 l1"
    "\<forall>k. nd_val (b1 k) = nd_val (b k)" "iter_next l1 (int i) = Inr (head_or is (int j))"
    by (rule erase_at [OF at]) simp
  have "i \<noteq> j" using list_atD(2) [OF at] by auto
  then have "erase_loop l (int i) (int j) = erase_loop l1 (head_or is (int j)) (int j)"
    using e(1,4) by (subst erase_loop.simps) simp
  with Cons.IH [OF e(2)] e(3) show ?case by auto
qed

section \<open>Lists in use\<close>

definition fx_step :: "'v deque_op \<Rightarrow> 'v fx_list \<Rightarrow> ('v deque_reply \<times> 'v fx_list) result" where
  "fx_step = deque_step try_push_front try_push_back pop_front pop_back list_front list_back list_size list_clear"

lemma walk_rep:
  assumes "list_rep L cap l xs" "length xs < k"
  shows "walk k l (list_begin l) = Inr xs"
proof -
  obtain "is" b where at: "list_at L cap is b l" "xs = map (\<lambda>i. nd_val (b i)) is" "length is = length xs"
    by (rule list_repE [OF assms(1)])
  then show ?thesis using walk_at [of L cap "[]" "is" b l k] assms(2) list_atD(4) [OF at(1)] by (simp add: list_begin_def)
qed

lemma walk_list_at: "list_at L cap is b l \<Longrightarrow> walk (Suc cap) l (list_begin l) = Inr (map (\<lambda>i. nd_val (b i)) is)"
  using walk_at [of L cap "[]" "is" b l "Suc cap"] list_at_bound [of L cap "is" b l] list_atD(4) [of L cap "is" b l]
  by (simp add: list_begin_def del: walk.simps)

lemma erase_positions:
  assumes "list_at L cap (A @ B @ p # C) b t" "length A = i" "length (A @ B) = j" "first = head_or B (int p)" "res = head_or C (- 1)"
  shows "advance i t (list_begin t) = Inr first" "advance j t (list_begin t) = Inr (int p)" "advance (Suc j) t (list_begin t) = Inr res"
    "\<exists>t1. erase t (int p) = Inr (res, t1) \<and> walk (Suc cap) t1 (list_begin t1) = Inr (map (\<lambda>i. nd_val (b i)) (A @ B @ C))"
    "\<exists>t2. erase_range t first (int p) = Some (Inr (res, t2)) \<and> walk (Suc cap) t2 (list_begin t2) = Inr (map (\<lambda>i. nd_val (b i)) (A @ p # C))"
proof -
  have hd: "list_begin t = head_or (A @ B @ p # C) (- 1)" using list_atD(4) [OF assms(1)] by (simp add: list_begin_def)
  show "advance i t (list_begin t) = Inr first" "advance j t (list_begin t) = Inr (int p)" "advance (Suc j) t (list_begin t) = Inr res"
    using advance_at [of L cap "[]" A "B @ p # C" b t] advance_at [of L cap "[]" "A @ B" "p # C" b t]
      advance_at [of L cap "[]" "A @ B @ [p]" C b t] assms hd by simp_all
  have at: "list_at L cap ((A @ B) @ p # C) b t" using assms(1) by simp
  obtain b1 t1 where e1: "erase t (int p) = Inr (res, t1)" "list_at L cap ((A @ B) @ C) b1 t1" "\<forall>k. nd_val (b1 k) = nd_val (b k)"
    unfolding assms(5) by (rule erase_at [OF at])
  then show "\<exists>t1. erase t (int p) = Inr (res, t1) \<and> walk (Suc cap) t1 (list_begin t1) = Inr (map (\<lambda>i. nd_val (b i)) (A @ B @ C))"
    using walk_list_at [OF e1(2)] by (simp del: walk.simps)
  obtain b2 t2 where e2: "erase_loop t first (int p) = Some (Inr t2)" "list_at L cap (A @ p # C) b2 t2" "\<forall>k. nd_val (b2 k) = nd_val (b k)"
    using erase_loop_at [OF assms(1)] unfolding assms(4) by blast
  then show "\<exists>t2. erase_range t first (int p) = Some (Inr (res, t2)) \<and> walk (Suc cap) t2 (list_begin t2) = Inr (map (\<lambda>i. nd_val (b i)) (A @ p # C))"
    using walk_list_at [OF e2(2)] iter_at(1) [OF at] by (simp add: erase_range_def assms(5) del: walk.simps)
qed

lemma map_delete_at: "map f (delete_at j xs) = delete_at j (map f xs)"
  by (simp add: delete_at_def take_map drop_map)

lemma made_and_run:
  "rbind c (\<lambda>r. case r of None \<Rightarrow> Inl RuntimeError | Some l \<Rightarrow> rbind (f l) (\<lambda>(rs, t). g t)) = Inr y \<Longrightarrow>
   \<exists>l rs t. c = Inr (Some l) \<and> f l = Inr (rs, t) \<and> g t = Inr y"
  by (auto simp: rbind_eq_Inr split: option.splits)

lemma reached_rep:
  assumes "list_rep L cap l xs" "run_ops fx_step ops l = Inr (rs, t)"
  obtains ys where "list_rep L cap t ys" "run_ops (deque_spec cap) ops xs = Inr (rs, ys)"
  using fxl.run_agrees [OF assms(1), of ops] assms(2) unfolding fx_step_def [symmetric] agrees_def
  by (auto split: sum.splits)

text \<open>
  C4. The list is a bounded double-ended queue: on a list made in a region, every sequence of
  pushes, pops, reads, \<open>size\<close> and \<open>clear\<close> gives the replies of a sequence of the capacity of the
  region, refusing a push only when it is full and aborting only on a pop or read of an empty list,
  and the iterators then visit exactly the items of that sequence in order.
\<close>

theorem fx_list_deque:
  assumes "list_kHeaderSize + ml_kHeaderSize \<le> len" "n = (len - list_kHeaderSize - ml_kHeaderSize) div (kSliceHeadSize + node_size)"
    "length cells = n" "n < 2 ^ 31"
  shows "\<exists>l. list_CreateFrom node_size buf len cells = Inr (Some l) \<and>
    (case run_ops (deque_spec n) ops [] of
       Inl e \<Rightarrow> run_ops fx_step ops l = Inl e
     | Inr (rs, xs) \<Rightarrow> \<exists>t. run_ops fx_step ops l = Inr (rs, t) \<and> walk (Suc n) t (list_begin t) = Inr xs)"
proof -
  let ?L = "made_layout (buf + list_kHeaderSize) (len - list_kHeaderSize) node_size n"
  obtain l where l: "list_CreateFrom node_size buf len cells = Inr (Some l)" "list_rep ?L n l []"
    by (rule list_CreateFrom_rep [OF assms])
  have ag: "agrees (list_rep ?L n) (run_ops fx_step ops l) (run_ops (deque_spec n) ops [])"
    unfolding fx_step_def by (rule fxl.run_agrees [OF l(2)])
  show ?thesis
  proof (cases "run_ops (deque_spec n) ops []")
    case (Inl e)
    with ag l(1) show ?thesis by simp
  next
    case (Inr out)
    then obtain rs xs t where out: "out = (rs, xs)" "run_ops fx_step ops l = Inr (rs, t)" "list_rep ?L n t xs"
      using ag by (cases out) auto
    then have "walk (Suc n) t (list_begin t) = Inr xs" using list_rep_length walk_rep by (metis less_Suc_eq_le)
    with Inr out l(1) show ?thesis by simp
  qed
qed

theorem fx_list_deque_witness:
  "\<exists>l. list_CreateFrom 16 1000 120 (replicate 2 \<lparr>sl_next = 7, sl_prev = 7, sl_buf = \<lparr>nd_prev = 5, nd_next = 5, nd_val = 0 :: nat\<rparr>\<rparr>) =
      Inr (Some l) \<and>
    (case run_ops (deque_spec 2) [PushBack 3, PushFront 4, PushBack 5, PopBack, Count] [] of
       Inl e \<Rightarrow> run_ops fx_step [PushBack 3, PushFront 4, PushBack 5, PopBack, Count] l = Inl e
     | Inr (rs, xs) \<Rightarrow> \<exists>t. run_ops fx_step [PushBack 3, PushFront 4, PushBack 5, PopBack, Count] l = Inr (rs, t) \<and>
         walk (Suc 2) t (list_begin t) = Inr xs)"
  by (rule fx_list_deque) (simp_all add: ml_kHeaderSize_def list_kHeaderSize_def kSliceHeadSize_def)

text \<open>
  Used as a queue, pushing at the back and popping at the front after a test of \<open>size\<close>, the
  list never fails, and the items it delivers are the accepted ones in order, each once; \<open>size\<close>
  counts those not delivered yet and is at most the capacity.
\<close>

theorem fx_list_fifo:
  assumes "list_kHeaderSize + ml_kHeaderSize \<le> len" "n = (len - list_kHeaderSize - ml_kHeaderSize) div (kSliceHeadSize + node_size)"
    "length cells = n" "n < 2 ^ 31"
  shows "\<exists>l outs t ms. list_CreateFrom node_size buf len cells = Inr (Some l) \<and>
    run_requests try_push_back (poll list_size pop_front) l rs = Inr (outs, t) \<and>
    accepted rs outs = delivered outs @ ms \<and> list_size t = Inr (length ms) \<and> length ms \<le> list_capacity t"
proof -
  let ?L = "made_layout (buf + list_kHeaderSize) (len - list_kHeaderSize) node_size n"
  obtain l where l: "list_CreateFrom node_size buf len cells = Inr (Some l)" "list_rep ?L n l []"
    by (rule list_CreateFrom_rep [OF assms])
  obtain outs t ms where run: "run_requests try_push_back (poll list_size pop_front) l rs = Inr (outs, t)" "list_rep ?L n t ms"
    "[] @ accepted rs outs = delivered outs @ ms"
    using fxl.queue.run_fifo [OF l(2)] by blast
  obtain "is" b where "list_at ?L n is b t" by (rule list_repE [OF run(2)])
  then have "list_capacity t = n" by (simp add: list_at_def holds_def list_capacity_def ml_slab_def)
  with l(1) run list_size_rep(1) [OF run(2)] list_rep_length [OF run(2)] show ?thesis by auto
qed

theorem fx_list_fifo_witness:
  "\<exists>l outs t ms. list_CreateFrom 16 1000 120 (replicate 2 \<lparr>sl_next = 7, sl_prev = 7, sl_buf = \<lparr>nd_prev = 5, nd_next = 5, nd_val = 0 :: nat\<rparr>\<rparr>) =
      Inr (Some l) \<and>
    run_requests try_push_back (poll list_size pop_front) l [Push_req 3, Push_req 4, Push_req 5, Pop_req, Pop_req, Pop_req] = Inr (outs, t) \<and>
    accepted [Push_req 3, Push_req 4, Push_req 5, Pop_req, Pop_req, Pop_req] outs = delivered outs @ ms \<and>
    list_size t = Inr (length ms) \<and> length ms \<le> list_capacity t"
  by (rule fx_list_fifo [where n = 2]) (simp_all add: ml_kHeaderSize_def list_kHeaderSize_def kSliceHeadSize_def)

text \<open>
  Erasing by iterators, on a list that was made in a region and used in any way. \<open>erase(pos)\<close>
  removes the item at \<open>pos\<close> and returns the iterator of the next one. \<open>erase(first, last)\<close> ends and
  removes the items from \<open>first\<close> up to \<open>last\<close>, but the iterator it returns is the one after \<open>last\<close>,
  and with \<open>last\<close> being \<open>end()\<close> it aborts before it erases anything.
\<close>

theorem fx_list_erase:
  assumes "list_CreateFrom node_size buf len cells = Inr (Some l)" "list_kHeaderSize + ml_kHeaderSize \<le> len"
    "length cells = (len - list_kHeaderSize - ml_kHeaderSize) div (kSliceHeadSize + node_size)" "length cells < 2 ^ 31"
    and "run_ops fx_step ops l = Inr (rs, t)" "walk (Suc (length cells)) t (list_begin t) = Inr xs"
    and "i \<le> j" "j < length xs"
  shows "\<exists>first last t1 t2 res. advance i t (list_begin t) = Inr first \<and> advance j t (list_begin t) = Inr last \<and>
    advance (Suc j) t (list_begin t) = Inr res \<and>
    erase t last = Inr (res, t1) \<and> walk (Suc (length cells)) t1 (list_begin t1) = Inr (delete_at j xs) \<and>
    erase_range t first last = Some (Inr (res, t2)) \<and> walk (Suc (length cells)) t2 (list_begin t2) = Inr (take i xs @ drop j xs) \<and>
    erase_range t first (list_end t) = Some (Inl AssertionFailed)"
proof -
  let ?n = "length cells"
  let ?L = "made_layout (buf + list_kHeaderSize) (len - list_kHeaderSize) node_size ?n"
  obtain l' where "list_CreateFrom node_size buf len cells = Inr (Some l')" "list_rep ?L ?n l' []"
    by (rule list_CreateFrom_rep [OF assms(2,3) refl assms(4)])
  then have "list_rep ?L ?n l []" using assms(1) by simp
  from this assms(5) obtain ys where ys: "list_rep ?L ?n t ys" by (rule reached_rep)
  then have "ys = xs" using walk_rep [OF ys, of "Suc ?n"] list_rep_length [OF ys] assms(6) by simp
  then obtain "is" b where at: "list_at ?L ?n is b t" "xs = map (\<lambda>i. nd_val (b i)) is" "region_layout ?L ?n" "length is = length xs"
    using list_repE [OF ys] by blast
  define A B C where "A = take i is" "B = take (j - i) (drop i is)" "C = drop (Suc j) is"
  have split: "is = A @ B @ is ! j # C" "length A = i" "length (A @ B) = j"
    using assms(7,8) at(4) id_take_nth_drop [of j "is"] take_add [of i "j - i" "is"] by (auto simp: A_B_C_def)
  have at1: "list_at ?L ?n (A @ B @ is ! j # C) b t" using at(1) split(1) by simp
  have AB: "A @ B = take j is" using split(1,3) by (metis append.assoc append_eq_conv_conj)
  then have "A @ B @ C = delete_at j is" by (simp add: delete_at_def A_B_C_def(3) flip: append.assoc)
  then have del: "map (\<lambda>i. nd_val (b i)) (A @ B @ C) = delete_at j xs" by (simp only: at(2) map_delete_at)
  have "A @ is ! j # C = take i is @ drop j is" using assms(8) at(4) by (simp add: A_B_C_def Cons_nth_drop_Suc)
  then have rng: "map (\<lambda>i. nd_val (b i)) (A @ is ! j # C) = take i xs @ drop j xs" by (simp only: at(2) map_append take_map drop_map)
  have "erase_range t (head_or B (int (is ! j))) (list_end t) = Some (Inl AssertionFailed)"
    by (simp add: erase_range_def iter_next_def list_end_def)
  then show ?thesis
    using erase_positions [OF at1 split(2,3) refl refl, unfolded del rng] by blast
qed

theorem fx_list_erase_witness:
  "\<exists>l rs t first last t1 t2 res. list_CreateFrom 16 1000 144 (replicate 3 \<lparr>sl_next = 7, sl_prev = 7, sl_buf = \<lparr>nd_prev = 5, nd_next = 5, nd_val = 0 :: nat\<rparr>\<rparr>) =
       Inr (Some l) \<and> run_ops fx_step [PushBack 4, PushBack 5, PushBack 6] l = Inr (rs, t) \<and>
     advance 0 t (list_begin t) = Inr first \<and> advance 1 t (list_begin t) = Inr last \<and> advance (Suc 1) t (list_begin t) = Inr res \<and>
     erase t last = Inr (res, t1) \<and> walk 4 t1 (list_begin t1) = Inr [4, 6] \<and>
     erase_range t first last = Some (Inr (res, t2)) \<and> walk 4 t2 (list_begin t2) = Inr [5, 6] \<and>
     erase_range t first (list_end t) = Some (Inl AssertionFailed)"
proof -
  let ?cs = "replicate 3 \<lparr>sl_next = 7, sl_prev = 7, sl_buf = \<lparr>nd_prev = 5, nd_next = 5, nd_val = 0 :: nat\<rparr>\<rparr>"
  let ?ops = "[PushBack 4, PushBack 5, PushBack 6]"
  have "rbind (list_CreateFrom 16 1000 144 ?cs) (\<lambda>r. case r of None \<Rightarrow> Inl RuntimeError
      | Some l \<Rightarrow> rbind (run_ops fx_step ?ops l) (\<lambda>(rs, t). walk (Suc (length ?cs)) t (list_begin t))) = Inr [4, 5, 6]"
    by code_simp
  then obtain l rs t where l: "list_CreateFrom 16 1000 144 ?cs = Inr (Some l)" "run_ops fx_step ?ops l = Inr (rs, t)"
    "walk (Suc (length ?cs)) t (list_begin t) = Inr [4, 5, 6]"
    using made_and_run [of _ "run_ops fx_step ?ops" "\<lambda>t. walk (Suc (length ?cs)) t (list_begin t)"] by blast
  have "\<exists>first last t1 t2 res. advance 0 t (list_begin t) = Inr first \<and> advance 1 t (list_begin t) = Inr last \<and>
     advance (Suc 1) t (list_begin t) = Inr res \<and>
     erase t last = Inr (res, t1) \<and> walk (Suc (length ?cs)) t1 (list_begin t1) = Inr (delete_at 1 [4, 5, 6]) \<and>
     erase_range t first last = Some (Inr (res, t2)) \<and> walk (Suc (length ?cs)) t2 (list_begin t2) = Inr (take 0 [4, 5, 6] @ drop 1 [4, 5, 6]) \<and>
     erase_range t first (list_end t) = Some (Inl AssertionFailed)"
    by (rule fx_list_erase [OF l(1) _ _ _ l(2,3)]) (simp_all add: ml_kHeaderSize_def list_kHeaderSize_def kSliceHeadSize_def)
  with l(1,2) show ?thesis by (simp add: delete_at_def del: walk.simps advance.simps run_ops.simps)
qed

lemma full_list_no_free:
  assumes "list_rep L cap l xs" "length xs = cap"
  shows "h_free (ml_header (fl_ml l)) = - 1" "ml_size (fl_ml l) = cap" "unat (lh_size (fl_header l)) = cap"
    "lh_magic_number (fl_header l) = list_kMagicNumber" "layout (fl_ml l) = L"
proof -
  obtain "is" b where at: "list_at L cap is b l" "length is = length xs" by (rule list_repE [OF assms(1)])
  then have slab: "ml_slab L (fl_ml l) cap (set is) b" using list_atD(1) [OF at(1)] by (simp add: holds_def)
  then obtain fs us where rep: "ml_rep (fl_ml l) fs us" "set us = set is" "ml_capacity (fl_ml l) = cap" "layout (fl_ml l) = L"
    by (auto simp: ml_slab_def)
  have "length fs + length us = cap" "card (set us) = length us" using ml_rep_card [OF rep(1)] rep(3) by simp_all
  then have "fs = []" using rep(2) list_atD(7) [OF at(1)] at(2) assms(2) by simp
  then show "h_free (ml_header (fl_ml l)) = - 1" using rep(1) by (simp add: ml_rep_def kInvalidSliceId_def)
  show "ml_size (fl_ml l) = cap" using ml.used_law [OF slab] list_atD(7) [OF at(1)] at(2) assms(2) by simp
  have "cap < 2 ^ 64" using list_rep_length [OF assms(1)] by simp
  then show "unat (lh_size (fl_header l)) = cap" using list_atD(6) [OF at(1)] at(2) assms(2) by (simp add: unat_of_nat_small)
  show "lh_magic_number (fl_header l) = list_kMagicNumber" using list_atD(8) [OF at(1)] .
  show "layout (fl_ml l) = L" by (rule rep(4))
qed

lemma exhausted_push_faults:
  assumes "h_free (ml_header (fl_ml r)) = - 1" "ml_size (fl_ml r) \<noteq> ml_capacity (fl_ml r)"
  shows "push_back r v = Inl MemoryFault" "push_front r v = Inl MemoryFault"
  using assms by (simp_all add: push_back_def push_front_def ml_full_def GetSlice_def kInvalidSliceId_def put_nd_val_def upd_node_def)

text \<open>
  \<open>RestoreFrom\<close> accepts a region that has grown, and counts the slices that fit in it, but does
  not link the new ones: a list that was full before says it is not full afterwards, and the next
  push at either end goes through a null node pointer.
\<close>

theorem fx_list_growth_faults:
  fixes l :: "'v fx_list" and grown :: "'v lnode mslice list"
  assumes "list_CreateFrom node_size buf len cells = Inr (Some l)" "list_kHeaderSize + ml_kHeaderSize \<le> len"
    "length cells = (len - list_kHeaderSize - ml_kHeaderSize) div (kSliceHeadSize + node_size)" "length cells < 2 ^ 31"
    and "run_ops fx_step ops l = Inr (rs, t)" "list_full t = Inr True"
    and "kSliceHeadSize + node_size \<le> d" "len + d < 2 ^ 64"
  shows "\<exists>r. list_RestoreFrom node_size buf (len + d) (fl_header t) (ml_header (fl_ml t)) grown = Some r \<and>
    list_full r = Inr False \<and> push_back r v = Inl MemoryFault \<and> push_front r v = Inl MemoryFault"
proof -
  let ?n = "length cells" and ?real = "kSliceHeadSize + node_size" and ?len = "len - list_kHeaderSize"
  let ?L = "made_layout (buf + list_kHeaderSize) ?len node_size ?n"
  obtain l' where "list_CreateFrom node_size buf len cells = Inr (Some l')" "list_rep ?L ?n l' []"
    by (rule list_CreateFrom_rep [OF assms(2,3) refl assms(4)])
  then have "list_rep ?L ?n l []" using assms(1) by simp
  from this assms(5) obtain ys where ys: "list_rep ?L ?n t ys" by (rule reached_rep)
  then have full: "length ys = ?n" using list_size_rep(2) [OF ys] assms(6) by simp
  note f = full_list_no_free [OF ys full]
  have real: "0 < ?real" by (simp add: kSliceHeadSize_def)
  have fits: "ml_kHeaderSize + ?n * ?real \<le> ?len"
    using assms(2) div_times_less_eq_dividend [of "?len - ml_kHeaderSize" ?real, folded assms(3)] by linarith
  have len: "len + d - list_kHeaderSize = ?len + d" "?len + d < 2 ^ 64" "ml_kHeaderSize < ?len + d" "\<not> len + d < list_kHeaderSize"
    using assms(2,7,8) real by linarith+
  let ?m = "(fl_ml t)\<lparr>ml_slices := grown, ml_end := ml_end (fl_ml t) + d, ml_capacity := ?n + d div ?real\<rparr>"
  let ?r = "\<lparr>fl_header = fl_header t, fl_ml = ?m\<rparr>"
  have restore: "ml_RestoreFrom (buf + list_kHeaderSize) (?len + d) node_size (ml_header (fl_ml t)) grown = Some ?m"
    by (rule RestoreFrom_layout [OF f(5) fits len(2,3)])
  have "0 < d div ?real" using assms(7) real by (simp add: div_greater_zero_iff)
  then have cap: "ml_size ?m = ?n" "ml_capacity ?m \<noteq> ?n" using f(2) unfolding ml_size_def by simp_all
  have "list_RestoreFrom node_size buf (len + d) (fl_header t) (ml_header (fl_ml t)) grown = Some ?r"
    unfolding list_RestoreFrom_def len(1) restore using f(4) len(4) by simp
  moreover have "list_full ?r = Inr False" using cap f(3) by (simp add: list_full_def list_size_def list_capacity_def)
  moreover have "push_back ?r v = Inl MemoryFault" "push_front ?r v = Inl MemoryFault"
    by (rule exhausted_push_faults; use f(1) cap in simp)+
  ultimately show ?thesis by blast
qed

theorem fx_list_growth_faults_witness:
  "\<exists>l rs t r. list_CreateFrom 16 1000 96 [\<lparr>sl_next = 7, sl_prev = 7, sl_buf = \<lparr>nd_prev = 5, nd_next = 5, nd_val = 0 :: nat\<rparr>\<rparr>] = Inr (Some l) \<and>
     run_ops fx_step [PushBack 4] l = Inr (rs, t) \<and>
     list_RestoreFrom 16 1000 (96 + 24) (fl_header t) (ml_header (fl_ml t)) (ml_slices (fl_ml t) @ [\<lparr>sl_next = 0, sl_prev = 0, sl_buf = \<lparr>nd_prev = 0, nd_next = 0, nd_val = 0\<rparr>\<rparr>]) = Some r \<and>
     list_full r = Inr False \<and> push_back r 9 = Inl MemoryFault \<and> push_front r 9 = Inl MemoryFault"
proof -
  let ?cs = "[\<lparr>sl_next = 7, sl_prev = 7, sl_buf = \<lparr>nd_prev = 5, nd_next = 5, nd_val = 0 :: nat\<rparr>\<rparr>]"
  have "rbind (list_CreateFrom 16 1000 96 ?cs) (\<lambda>r. case r of None \<Rightarrow> Inl RuntimeError
      | Some l \<Rightarrow> rbind (run_ops fx_step [PushBack 4] l) (\<lambda>(rs, t). list_full t)) = Inr True"
    by code_simp
  then obtain l rs t where l: "list_CreateFrom 16 1000 96 ?cs = Inr (Some l)" "run_ops fx_step [PushBack 4] l = Inr (rs, t)" "list_full t = Inr True"
    using made_and_run [of _ "run_ops fx_step [PushBack 4]" list_full] by blast
  have "\<exists>r. list_RestoreFrom 16 1000 (96 + 24) (fl_header t) (ml_header (fl_ml t)) (ml_slices (fl_ml t) @ [\<lparr>sl_next = 0, sl_prev = 0, sl_buf = \<lparr>nd_prev = 0, nd_next = 0, nd_val = 0\<rparr>\<rparr>]) = Some r \<and>
    list_full r = Inr False \<and> push_back r 9 = Inl MemoryFault \<and> push_front r 9 = Inl MemoryFault"
    by (rule fx_list_growth_faults [OF l(1) _ _ _ l(2,3)]) (simp_all add: ml_kHeaderSize_def list_kHeaderSize_def kSliceHeadSize_def)
  with l(1,2) show ?thesis by blast
qed

end
