(* ===== verification/Region_Helper.thy ===== *)
theory Region_Helper
  imports Prelude
begin

text \<open>
  Alignment of addresses, \<open>RegionBasedContainer/RegionBasedHelper.h\<close>. Addresses are 64-bit words;
  additions wrap. The mask has eight bits and is promoted to \<open>int\<close> before it is complemented, so the
  complement has all the high bits set.
\<close>

unbundle bit_operations_syntax

definition kAlignmentRequired :: "8 word" where
  "kAlignmentRequired = 16"

definition kAlignmentMask :: "8 word" where
  "kAlignmentMask = kAlignmentRequired - 1"

definition Align :: "u64 \<Rightarrow> u64" where
  "Align p = (p + ucast kAlignmentMask) AND NOT (ucast kAlignmentMask)"

definition Align_to :: "nat \<Rightarrow> u64 \<Rightarrow> u64" where
  "Align_to a p = (p + of_nat a - 1) div of_nat a * of_nat a"

definition CheckAligned :: "u64 \<Rightarrow> bool" where
  "CheckAligned p \<longleftrightarrow> p AND ucast kAlignmentMask = 0"

lemma mask_value: "(ucast kAlignmentMask :: u64) = mask 4"
  by (simp add: kAlignmentMask_def kAlignmentRequired_def mask_eq_exp_minus_1)

lemma masked_bits: "unat ((p :: u64) AND mask k) = unat p mod 2 ^ k"
proof -
  have "p AND mask k = take_bit k p" by (simp add: take_bit_eq_mask)
  moreover have "unat (take_bit k p) = unat p mod 2 ^ k" by (simp only: unsigned_take_bit_eq) (simp add: take_bit_eq_mod)
  ultimately show ?thesis by simp
qed

lemma low_bits: "unat ((p :: u64) AND mask 4) = unat p mod 16"
  using masked_bits [of p 4] by simp

lemma high_bits: "unat ((p :: u64) AND NOT (mask 4)) = unat p - unat p mod 16"
proof -
  have "p AND NOT (mask 4) = push_bit 4 (drop_bit 4 p)"
    by (rule bit_eqI) (auto simp: bit_and_iff bit_not_iff bit_mask_iff bit_push_bit_iff bit_drop_bit_eq)
  then have "p = (p AND NOT (mask 4)) + take_bit 4 p" by (simp only: bits_ident)
  then have "p AND NOT (mask 4) = p - (p AND mask 4)" by (metis add_diff_cancel_right' take_bit_eq_mask)
  moreover have "p AND mask 4 \<le> p" by (rule word_and_le2)
  ultimately show ?thesis by (simp only: unat_sub low_bits)
qed

lemma CheckAligned_iff: "CheckAligned p \<longleftrightarrow> unat p mod 16 = 0"
  using low_bits [of p] by (metis CheckAligned_def mask_value unat_eq_0)

lemma unat_Align:
  assumes "unat p + 15 < 2 ^ 64"
  shows "unat (Align p) = (unat p + 15) div 16 * 16"
proof -
  have "unat (p + mask 4) = unat p + 15" using assms by (simp add: unat_word_ariths mask_eq_exp_minus_1)
  then have "unat (Align p) = (unat p + 15) - (unat p + 15) mod 16" by (simp add: Align_def mask_value high_bits)
  then show ?thesis by (simp add: minus_mod_eq_div_mult)
qed

lemma unat_Align_to:
  assumes "0 < a" "unat p + a < 2 ^ 64"
  shows "unat (Align_to a p) = (unat p + a - 1) div a * a"
proof -
  have a: "unat (of_nat a :: u64) = a" using assms(2) by (simp add: unat_of_nat_small)
  have s: "unat (p + of_nat a) = unat p + a" using assms(2) a by (simp add: unat_word_ariths)
  have "(1 :: u64) \<le> p + of_nat a" using s assms(1) by (simp add: word_le_nat_alt)
  then have n: "unat (p + of_nat a - 1) = unat p + a - 1" by (simp add: unat_sub s)
  have "(unat p + a - 1) div a * a \<le> unat p + a - 1" by (rule div_times_less_eq_dividend)
  moreover have "(unat p + a - 1) div a \<le> unat p + a - 1" by (rule div_le_dividend)
  ultimately have "(unat p + a - 1) div a < 2 ^ 64" "(unat p + a - 1) div a * a < 2 ^ 64" using assms by linarith+
  moreover have "unat ((p + of_nat a - 1) div of_nat a) = (unat p + a - 1) div a" by (simp only: unat_div n a)
  ultimately show ?thesis by (simp only: Align_to_def unat_word_ariths a) simp
qed

text \<open>
  C34. \<open>Align\<close>, computed with a mask, is the rounding up \<open>Align<T>\<close> computes by division for an
  alignment of 16, and gives the first address at or after the given one that \<open>CheckAligned\<close>
  accepts, as long as that is inside the address space.
\<close>

theorem Align_least_aligned:
  assumes "unat p + 16 < 2 ^ 64"
  shows "Align p = Align_to 16 p \<and> CheckAligned (Align p) \<and> p \<le> Align p \<and>
    (\<forall>q. CheckAligned q \<longrightarrow> p \<le> q \<longrightarrow> Align p \<le> q)"
proof -
  have u: "unat (Align p) = (unat p + 15) div 16 * 16" "unat (Align_to 16 p) = (unat p + 15) div 16 * 16"
    using unat_Align [of p] unat_Align_to [of 16 p] assms by simp_all
  have least: "unat (Align p) \<le> unat q" if "CheckAligned q" "p \<le> q" for q
  proof -
    have "unat q = unat q div 16 * 16" using that(1) by (auto simp: CheckAligned_iff)
    moreover have "(unat p + 15) div 16 \<le> unat q div 16"
      using that by (auto simp: CheckAligned_iff word_le_nat_alt)
    ultimately show ?thesis using u(1) by (metis mult_le_mono1)
  qed
  have "unat p \<le> unat (Align p)" using u(1) by linarith
  moreover have "Align p = Align_to 16 p" using u by (simp add: word_unat_eq_iff)
  ultimately show ?thesis using u(1) least by (simp add: word_le_nat_alt CheckAligned_iff)
qed

theorem Align_least_aligned_witness:
  "Align 1001 = Align_to 16 1001 \<and> CheckAligned (Align 1001) \<and> 1001 \<le> Align 1001 \<and>
    CheckAligned 1008 \<and> Align 1001 \<le> 1008"
proof -
  have a: "CheckAligned 1008" by (simp add: CheckAligned_iff)
  have p: "unat (1001 :: u64) + 16 < 2 ^ 64" "(1001 :: u64) \<le> 1008" by simp_all
  show ?thesis using Align_least_aligned [OF p(1)] a p(2) by blast
qed

end
