(* ===== verification/Region_Vector.thy ===== *)
theory Region_Vector
  imports Region_Helper Indexed_List
begin

text \<open>
  The vector over raw memory of \<open>RegionBasedContainer/RegionBasedVector.h\<close> and \<open>-inl.h\<close>. The
  memory from \<open>start_\<close> on is the list of the elements that fit, whatever they hold; an element is
  a value that stands for its bytes. \<open>ts\<close> and \<open>ta\<close> are \<open>sizeof(T)\<close> and \<open>alignof(T)\<close>, \<open>external\<close> says
  whether the caller passes a header of its own. An iterator is the index it points at. A destroy
  function is what it does to the element it is called on.
\<close>

section \<open>State and creation\<close>

record rv_head =
  rvh_magic :: u64
  rvh_current :: u32
  rvh_element_size :: u32

record 'a rvec =
  rv_start :: u64
  rv_cells :: "'a list"
  rv_header :: rv_head
  rv_capacity :: nat
  rv_destroy :: "('a \<Rightarrow> 'a) option"

definition rv_kMagic :: u64 where
  "rv_kMagic = 0x74548fc3e42b937b"

definition rv_kHeaderSize :: u64 where
  "rv_kHeaderSize = 16"

text \<open>Where the elements start.\<close>

definition rv_aligned_data :: "nat \<Rightarrow> bool \<Rightarrow> u64 \<Rightarrow> u64" where
  "rv_aligned_data ta external data =
     Align_to ta (if external then data else Align_to 8 data + rv_kHeaderSize)"

definition rv_Create :: "nat \<Rightarrow> nat \<Rightarrow> bool \<Rightarrow> u64 \<Rightarrow> u64 \<Rightarrow> 'a list \<Rightarrow> 'a rvec option" where
  "rv_Create ts ta external data len cells =
     (let aligned_data = rv_aligned_data ta external data; minsize = aligned_data - data
      in if \<not> CheckAligned data then None
         else if len < minsize then None
         else Some \<lparr>rv_start = aligned_data, rv_cells = cells,
           rv_header = \<lparr>rvh_magic = rv_kMagic, rvh_current = 0, rvh_element_size = of_nat ts\<rparr>,
           rv_capacity = unat (len - minsize) div ts, rv_destroy = None\<rparr>)"

definition rv_Restore :: "nat \<Rightarrow> nat \<Rightarrow> bool \<Rightarrow> u64 \<Rightarrow> u64 \<Rightarrow> rv_head \<Rightarrow> 'a list \<Rightarrow> 'a rvec option" where
  "rv_Restore ts ta external data len header cells =
     (let aligned_data = rv_aligned_data ta external data; minsize = aligned_data - data;
          capacity = unat (len - minsize) div ts
      in if \<not> CheckAligned data then None
         else if len < minsize then None
         else if rvh_magic header \<noteq> rv_kMagic \<or> unat (rvh_element_size header) \<noteq> ts \<or> unat (rvh_current header) > capacity then None
         else Some \<lparr>rv_start = aligned_data, rv_cells = cells, rv_header = header, rv_capacity = capacity, rv_destroy = None\<rparr>)"

section \<open>Operations\<close>

definition rv_size :: "'a rvec \<Rightarrow> nat" where
  "rv_size v = unat (rvh_current (rv_header v))"

definition rv_max_size :: "'a rvec \<Rightarrow> nat" where
  "rv_max_size v = rv_capacity v"

definition rv_empty :: "'a rvec \<Rightarrow> bool" where
  "rv_empty v \<longleftrightarrow> rv_size v = 0"

definition rv_index :: "'a rvec \<Rightarrow> nat \<Rightarrow> 'a result" where
  "rv_index v i = require (i < rv_size v) (if i < length (rv_cells v) then Inr (rv_cells v ! i) else Inl MemoryFault)"

text \<open>A store through the reference \<open>operator[]\<close> returns.\<close>

definition rv_assign :: "'a rvec \<Rightarrow> nat \<Rightarrow> 'a \<Rightarrow> 'a rvec result" where
  "rv_assign v i x = require (i < rv_size v)
     (if i < length (rv_cells v) then Inr (v\<lparr>rv_cells := (rv_cells v)[i := x]\<rparr>) else Inl MemoryFault)"

definition rv_at :: "'a rvec \<Rightarrow> nat \<Rightarrow> 'a result" where
  "rv_at v i = (if i \<ge> rv_size v then Inl OutOfRange else rv_index v i)"

definition rv_front_elem :: "'a rvec \<Rightarrow> 'a result" where
  "rv_front_elem v = rv_index v 0"

definition rv_back_elem :: "'a rvec \<Rightarrow> 'a result" where
  "rv_back_elem v = require (rv_size v \<ge> 1) (rv_index v (rv_size v - 1))"

definition rv_push_back :: "'a rvec \<Rightarrow> 'a \<Rightarrow> 'a rvec result" where
  "rv_push_back v x =
     (if rv_size v = rv_max_size v then Inl BadAlloc
      else if rv_size v < length (rv_cells v)
        then Inr (v\<lparr>rv_header := (rv_header v)\<lparr>rvh_current := rvh_current (rv_header v) + 1\<rparr>,
             rv_cells := (rv_cells v)[rv_size v := x]\<rparr>)
        else Inl MemoryFault)"

definition rv_eq :: "'a rvec \<Rightarrow> 'a rvec \<Rightarrow> bool" where
  "rv_eq v w \<longleftrightarrow> rv_header v = rv_header w \<and> rv_size v = rv_size w \<and>
     take (rv_size v) (rv_cells v) = take (rv_size v) (rv_cells w)"

definition rv_begin :: "'a rvec \<Rightarrow> nat" where
  "rv_begin v = 0"

definition rv_end :: "'a rvec \<Rightarrow> nat" where
  "rv_end v = rv_size v"

definition rv_address :: "nat \<Rightarrow> 'a rvec \<Rightarrow> nat \<Rightarrow> u64" where
  "rv_address ts v i = rv_start v + of_nat (ts * i)"

text \<open>\<open>memmove\<close> of the elements from \<open>src\<close> up to \<open>stop\<close> to \<open>dst\<close>, which is not after \<open>src\<close>.\<close>

definition move_down :: "nat \<Rightarrow> nat \<Rightarrow> nat \<Rightarrow> 'a list \<Rightarrow> 'a list" where
  "move_down dst src stop xs = take dst xs @ take (stop - src) (drop src xs) @ drop (dst + (stop - src)) xs"

definition rv_erase :: "nat \<Rightarrow> 'a rvec \<Rightarrow> nat \<Rightarrow> (nat \<times> 'a rvec) result" where
  "rv_erase ts v it =
     (if it < rv_begin v \<or> it \<ge> rv_end v then Inl OutOfRange
      else if rv_address ts v it AND (of_nat ts - 1) \<noteq> 0 then Inl RuntimeError
      else if length (rv_cells v) < rv_end v then Inl MemoryFault
      else let cells1 = (case rv_destroy v of None \<Rightarrow> rv_cells v | Some f \<Rightarrow> (rv_cells v)[it := f (rv_cells v ! it)]);
               cells2 = (if it + 1 \<noteq> rv_end v then move_down it (it + 1) (rv_end v) cells1 else cells1)
           in Inr (it + 1, v\<lparr>rv_cells := cells2, rv_header := (rv_header v)\<lparr>rvh_current := rvh_current (rv_header v) - 1\<rparr>\<rparr>))"

definition rv_clear :: "'a rvec \<Rightarrow> 'a rvec" where
  "rv_clear v =
     (let cells1 = (case rv_destroy v of None \<Rightarrow> rv_cells v
                    | Some f \<Rightarrow> map f (take (rv_end v) (rv_cells v)) @ drop (rv_end v) (rv_cells v))
      in v\<lparr>rv_cells := cells1, rv_header := (rv_header v)\<lparr>rvh_current := 0\<rparr>\<rparr>)"

definition rv_on_destroy :: "'a rvec \<Rightarrow> ('a \<Rightarrow> 'a) option \<Rightarrow> ('a \<Rightarrow> 'a) option \<times> 'a rvec" where
  "rv_on_destroy v f = (rv_destroy v, v\<lparr>rv_destroy := f\<rparr>)"

section \<open>The elements as a list\<close>

definition rv_rep :: "nat \<Rightarrow> u64 \<Rightarrow> nat \<Rightarrow> 'a rvec \<Rightarrow> 'a list \<Rightarrow> bool" where
  "rv_rep ts start cap v xs \<longleftrightarrow>
     rv_start v = start \<and> rv_capacity v = cap \<and> length (rv_cells v) = cap \<and> cap < 2 ^ 32 \<and>
     rvh_magic (rv_header v) = rv_kMagic \<and> rvh_element_size (rv_header v) = of_nat ts \<and>
     rvh_current (rv_header v) = of_nat (length xs) \<and> length xs \<le> cap \<and> take (length xs) (rv_cells v) = xs \<and>
     (\<forall>i. (start + of_nat (ts * i)) AND (of_nat ts - 1) = 0)"

lemma rv_repD:
  assumes "rv_rep ts start cap v xs"
  shows "rv_size v = length xs" "rv_capacity v = cap" "length (rv_cells v) = cap" "length xs \<le> cap" "cap < 2 ^ 32"
    "take (length xs) (rv_cells v) = xs" "i < length xs \<Longrightarrow> rv_cells v ! i = xs ! i" "rv_address ts v i AND (of_nat ts - 1) = 0"
proof -
  note r = assms [unfolded rv_rep_def]
  show "rv_size v = length xs" using r by (simp add: rv_size_def unat_of_nat_small)
  show "i < length xs \<Longrightarrow> rv_cells v ! i = xs ! i" using r by (metis nth_take)
  show "rv_capacity v = cap" "length (rv_cells v) = cap" "length xs \<le> cap" "cap < 2 ^ 32" "take (length xs) (rv_cells v) = xs" using r by simp_all
  show "rv_address ts v i AND (of_nat ts - 1) = 0" using r unfolding rv_address_def by blast
qed

lemma rv_index_rep: "rv_rep ts start cap v xs \<Longrightarrow> i < length xs \<Longrightarrow> rv_index v i = Inr (xs ! i)"
  using rv_repD by (fastforce simp: rv_index_def)

lemma rv_assign_rep:
  assumes "rv_rep ts start cap v xs" "i < length xs"
  shows "\<exists>w. rv_assign v i x = Inr w \<and> rv_rep ts start cap w (xs[i := x])"
proof -
  have "rv_assign v i x = Inr (v\<lparr>rv_cells := (rv_cells v)[i := x]\<rparr>)"
    using rv_repD(1,3,4) [OF assms(1)] assms(2) by (simp add: rv_assign_def)
  moreover have "take (length xs) ((rv_cells v)[i := x]) = xs[i := x]"
    using rv_repD(6) [OF assms(1)] by (simp add: take_update_swap)
  ultimately show ?thesis using assms(1) by (simp add: rv_rep_def)
qed

lemma rv_push_back_rep:
  assumes "rv_rep ts start cap v xs"
  shows "length xs < cap \<Longrightarrow> \<exists>w. rv_push_back v x = Inr w \<and> rv_rep ts start cap w (xs @ [x])"
    "length xs = cap \<Longrightarrow> rv_push_back v x = Inl BadAlloc"
proof -
  note r = rv_repD [OF assms]
  show "rv_push_back v x = Inl BadAlloc" if "length xs = cap" using that r(1,2) by (simp add: rv_push_back_def rv_max_size_def)
  show "\<exists>w. rv_push_back v x = Inr w \<and> rv_rep ts start cap w (xs @ [x])" if "length xs < cap"
  proof -
    have "take (Suc (length xs)) ((rv_cells v)[length xs := x]) = xs @ [x]"
      using that r(3,6) by (simp add: take_Suc_conv_app_nth)
    then show ?thesis using that assms r(1-3) by (simp add: rv_push_back_def rv_max_size_def rv_rep_def)
  qed
qed

lemma take_move_down:
  "i < n \<Longrightarrow> n \<le> length xs \<Longrightarrow> take (n - 1) (move_down i (i + 1) n xs) = delete_at i (take n xs)"
  by (cases "n = Suc i") (auto simp: move_down_def delete_at_def min_def drop_take)

lemma delete_at_update: "delete_at i (xs[i := y]) = delete_at i xs"
  by (simp add: delete_at_def)

lemma length_move_down: "i < n \<Longrightarrow> n \<le> length xs \<Longrightarrow> length (move_down i (i + 1) n xs) = length xs"
  by (auto simp: move_down_def)

lemma rv_erase_rep:
  assumes "rv_rep ts start cap v xs" "i < length xs"
  shows "\<exists>w. rv_erase ts v i = Inr (i + 1, w) \<and> rv_rep ts start cap w (delete_at i xs)"
proof -
  note r = rv_repD [OF assms(1)]
  define c where "c = (case rv_destroy v of None \<Rightarrow> rv_cells v | Some f \<Rightarrow> (rv_cells v)[i := f (rv_cells v ! i)])"
  define d where "d = (if i + 1 \<noteq> length xs then move_down i (i + 1) (length xs) c else c)"
  have c: "length c = cap" "delete_at i (take (length xs) c) = delete_at i xs"
    using r(3,6) by (simp_all add: c_def take_update_swap delete_at_update split: option.split)
  have "length d = cap" using c(1) length_move_down [OF assms(2), of c] r(4) by (simp add: d_def)
  moreover have "take (length xs - 1) d = delete_at i xs"
  proof (cases "i + 1 = length xs")
    case True
    then have "length xs = Suc i" by simp
    then have "delete_at i (take (length xs) c) = take i c" by (simp add: delete_at_def)
    with c(2) True show ?thesis by (simp add: d_def \<open>length xs = Suc i\<close>)
  next
    case False
    then show ?thesis using take_move_down [of i "length xs" c] assms(2) c r(4) by (simp add: d_def)
  qed
  moreover have "(of_nat (length xs) :: u32) - 1 = of_nat (length xs - 1)" using assms(2) by (simp add: of_nat_diff)
  moreover have "rv_erase ts v i = Inr (i + 1, v\<lparr>rv_cells := d, rv_header := (rv_header v)\<lparr>rvh_current := rvh_current (rv_header v) - 1\<rparr>\<rparr>)"
    using r(1,3,4,8) assms(2) by (simp add: rv_erase_def rv_begin_def rv_end_def c_def d_def Let_def)
  moreover have "length xs - 1 \<le> cap" using r(4) by simp
  ultimately show ?thesis using assms by (simp add: rv_rep_def)
qed

text \<open>The operations with \<open>None\<close> for an exception or abort.\<close>

definition normally :: "'a result \<Rightarrow> 'a option" where
  "normally r = (case r of Inl e \<Rightarrow> None | Inr x \<Rightarrow> Some x)"

lemma normally_simps [simp]: "normally (Inr x) = Some x" "normally (Inl e) = None"
  by (simp_all add: normally_def)

definition rv_step :: "nat \<Rightarrow> 'a list_op \<Rightarrow> 'a rvec \<Rightarrow> ('a list_reply \<times> 'a rvec) option" where
  "rv_step ts = list_step (\<lambda>v. Some (rv_size v, v)) (\<lambda>v i. map_option (\<lambda>x. (x, v)) (normally (rv_at v i)))
     (\<lambda>v i x. normally (rv_assign v i x)) (\<lambda>v x. normally (rv_push_back v x)) (\<lambda>v i. map_option snd (normally (rv_erase ts v i)))"

interpretation rvl: indexed_list "rv_rep ts start" "\<lambda>v. Some (rv_size v, v)" "\<lambda>v i. map_option (\<lambda>x. (x, v)) (normally (rv_at v i))"
  "\<lambda>v i x. normally (rv_assign v i x)" "\<lambda>v x. normally (rv_push_back v x)" "\<lambda>v i. map_option snd (normally (rv_erase ts v i))"
  for ts start
proof unfold_locales
  fix cap v xs i x
  assume rep: "rv_rep ts start cap v xs"
  show "\<exists>t. Some (rv_size v, v) = Some (length xs, t) \<and> rv_rep ts start cap t xs" using rep rv_repD(1) [OF rep] by simp
  show "\<exists>t. normally (rv_push_back v x) = Some t \<and> rv_rep ts start cap t (xs @ [x])" if "length xs < cap"
    using rv_push_back_rep(1) [OF rep that, of x] by auto
  assume i: "i < length xs"
  show "\<exists>t. map_option (\<lambda>x. (x, v)) (normally (rv_at v i)) = Some (xs ! i, t) \<and> rv_rep ts start cap t xs"
    using rep rv_index_rep [OF rep i] rv_repD(1) [OF rep] i by (simp add: rv_at_def)
  show "\<exists>t. normally (rv_assign v i x) = Some t \<and> rv_rep ts start cap t (xs[i := x])" using rv_assign_rep [OF rep i, of x] by auto
  show "\<exists>t. map_option snd (normally (rv_erase ts v i)) = Some t \<and> rv_rep ts start cap t (delete_at i xs)"
    using rv_erase_rep [OF rep i] by auto
qed

section \<open>Vectors in a region\<close>

lemma element_aligned:
  assumes "unat start mod 2 ^ k = 0" "k < 64"
  shows "(start + of_nat (2 ^ k * i)) AND (of_nat (2 ^ k) - 1) = (0 :: u64)"
proof -
  have m: "(of_nat (2 ^ k) :: u64) - 1 = mask k" by (simp add: mask_eq_exp_minus_1)
  have dvd: "(2 :: nat) ^ k dvd 2 ^ 64" using assms(2) by (intro le_imp_power_dvd) simp
  have "unat (start + of_nat (2 ^ k * i)) mod 2 ^ k = (unat start + 2 ^ k * i mod 2 ^ 64) mod 2 ^ 64 mod 2 ^ k"
    by (simp only: unat_word_ariths unat_of_nat) (simp add: take_bit_eq_mod)
  also have "\<dots> = (unat start + 2 ^ k * i) mod 2 ^ k" by (simp only: mod_mod_cancel [OF dvd] mod_add_right_eq)
  also have "\<dots> = 0" using assms(1) by (simp add: mod_add_left_eq [symmetric] del: mod_add_left_eq)
  finally have "unat ((start + of_nat (2 ^ k * i)) AND mask k) = 0" by (simp only: masked_bits)
  then show ?thesis unfolding m by (rule unat_eq_0 [THEN iffD1])
qed

lemma Align_to_aligned:
  assumes "CheckAligned p" "a dvd 16" "unat p + a < 2 ^ 64"
  shows "Align_to a p = p"
proof -
  have a: "0 < a" using assms(2) by (cases a) auto
  have "a dvd unat p" using assms(1,2) by (metis CheckAligned_iff dvd_eq_mod_eq_0 dvd_trans)
  then obtain m where m: "unat p = m * a" by (metis dvd_div_mult_self)
  have "(m * a + a - 1) div a = m" using a by (intro div_nat_eqI) (auto simp: algebra_simps)
  then have "unat (Align_to a p) = unat p" using unat_Align_to [OF a assms(3)] m by simp
  then show ?thesis by (simp add: word_unat_eq_iff)
qed

lemma rv_aligned_data_value:
  assumes "CheckAligned data" "ta dvd 16" "unat data + 40 < 2 ^ 64"
  shows "rv_aligned_data ta external data = data + (if external then 0 else 16)"
    "unat (data + (if external then 0 else 16)) = unat data + (if external then 0 else 16)"
proof -
  show u: "unat (data + (if external then 0 else 16)) = unat data + (if external then 0 else 16)"
    using assms(3) by (simp add: unat_word_ariths)
  have "ta \<le> 16" using assms(2) by (rule dvd_imp_le) simp
  moreover have "CheckAligned (data + (if external then 0 else 16))" using assms(1) u by (auto simp: CheckAligned_iff)
  moreover have "Align_to 8 data = data" by (rule Align_to_aligned [OF assms(1)]) (use assms(3) in simp_all)
  ultimately show "rv_aligned_data ta external data = data + (if external then 0 else 16)"
    using Align_to_aligned [OF _ assms(2), of "data + (if external then 0 else 16)"] u assms(3)
    by (simp add: rv_aligned_data_def rv_kHeaderSize_def split: if_splits)
qed

lemma rv_Create_rep:
  assumes "CheckAligned data" "ta dvd 16" "unat data + unat len + 40 < 2 ^ 64" "ts = 2 ^ k" "k \<le> 4"
    and "minsize = (if external then 0 else 16)" "minsize \<le> unat len" "n = (unat len - minsize) div ts" "length cells = n" "n < 2 ^ 32"
  obtains v where "rv_Create ts ta external data len cells = Some v" "rv_rep ts (data + of_nat minsize) n v []"
    "rv_aligned_data ta external data = data + of_nat minsize" "unat (len - of_nat minsize) div ts = n" "\<not> len < of_nat minsize"
proof -
  have d: "unat data + 40 < 2 ^ 64" using assms(3) by simp
  have start: "rv_aligned_data ta external data = data + of_nat minsize" "unat (data + of_nat minsize) = unat data + minsize"
    using rv_aligned_data_value [OF assms(1,2) d, of external] assms(6) by (cases external; simp)+
  have mu: "unat (of_nat minsize :: u64) = minsize" by (simp add: assms(6))
  then have le: "(of_nat minsize :: u64) \<le> len" using assms(7) by (simp add: word_le_nat_alt)
  then have cap: "unat (len - of_nat minsize) div ts = n" using mu assms(8) by (simp add: unat_sub)
  have "unat (data + of_nat minsize) mod 16 = 0" using assms(1,6) start(2) by (auto simp: CheckAligned_iff)
  moreover have "(2 :: nat) ^ k dvd 2 ^ 4" using assms(5) by (rule le_imp_power_dvd)
  ultimately have "unat (data + of_nat minsize) mod 2 ^ k = 0" 
    using dvd_trans [of "2 ^ k" 16 "unat (data + of_nat minsize)"] by (simp add: dvd_eq_mod_eq_0)
  then have "\<forall>i. (data + of_nat minsize + of_nat (ts * i)) AND (of_nat ts - 1) = 0"
    using element_aligned assms(4,5) by simp
  then have "rv_rep ts (data + of_nat minsize) n
      \<lparr>rv_start = data + of_nat minsize, rv_cells = cells, rv_header = \<lparr>rvh_magic = rv_kMagic, rvh_current = 0, rvh_element_size = of_nat ts\<rparr>,
       rv_capacity = n, rv_destroy = None\<rparr> []"
    using assms(9,10) by (simp add: rv_rep_def)
  moreover have "rv_Create ts ta external data len cells = Some
      \<lparr>rv_start = data + of_nat minsize, rv_cells = cells, rv_header = \<lparr>rvh_magic = rv_kMagic, rvh_current = 0, rvh_element_size = of_nat ts\<rparr>,
       rv_capacity = n, rv_destroy = None\<rparr>"
    using assms(1) start(1) le cap by (simp add: rv_Create_def Let_def not_less)
  ultimately show thesis using that start(1) cap le by (simp add: not_less)
qed

lemma rv_on_destroy_rep: "rv_rep ts start cap v xs \<Longrightarrow> rv_rep ts start cap (snd (rv_on_destroy v f)) xs"
  by (simp add: rv_on_destroy_def rv_rep_def)



text \<open>
  What \<open>erase\<close> gets wrong. The iterator it returns is the one after the erased position, but the
  elements have moved down: the following element stands at the erased position, so a loop that goes
  on with the returned iterator skips it, and after erasing the last element the returned iterator
  is not \<open>end()\<close> but one past it.
\<close>

theorem erase_returns_wrong_iterator:
  assumes "rv_Create ts ta external data len cells = Some v" "CheckAligned data" "ta dvd 16" "unat data + unat len + 40 < 2 ^ 64"
    and "ts = 2 ^ k" "k \<le> 4" "minsize = (if external then 0 else 16)" "minsize \<le> unat len" "n = (unat len - minsize) div ts"
    and "length cells = n" "n < 2 ^ 32" "list_run (rv_step ts) ops v = Some (rs, t)" "spec_ops n ops [] = Some (rs, ys)" "i < length ys"
  shows "\<exists>u. rv_erase ts t i = Inr (i + 1, u) \<and> rv_end u = length ys - 1 \<and>
    (i + 1 < length ys \<longrightarrow> rv_at u i = Inr (ys ! (i + 1))) \<and> (i + 1 = length ys \<longrightarrow> i + 1 = rv_end u + 1)"
proof -
  obtain v' where "rv_Create ts ta external data len cells = Some v'" "rv_rep ts (data + of_nat minsize) n v' []"
    by (rule rv_Create_rep [OF assms(2-11)])
  then have "rv_rep ts (data + of_nat minsize) n v []" using assms(1) by simp
  from rvl.run_ok [OF this assms(13)] assms(12) have t: "rv_rep ts (data + of_nat minsize) n t ys" unfolding rv_step_def by auto
  obtain u where u: "rv_erase ts t i = Inr (i + 1, u)" "rv_rep ts (data + of_nat minsize) n u (delete_at i ys)"
    using rv_erase_rep [OF t assms(14)] by blast
  have e: "rv_size u = length ys - 1" using rv_repD(1) [OF u(2)] assms(14) by simp
  have "rv_at u i = Inr (ys ! (i + 1))" if "i + 1 < length ys"
  proof -
    have "i < length (delete_at i ys)" using that by simp
    from rv_index_rep [OF u(2) this] that e show ?thesis by (simp add: rv_at_def delete_at_def nth_append)
  qed
  with u(1) e assms(14) show ?thesis by (auto simp: rv_end_def)
qed

theorem erase_returns_wrong_iterator_witness:
  "\<exists>v t u rs. rv_Create 4 4 False 4096 32 [7, 7, 7, 7 :: nat] = Some v \<and> list_run (rv_step 4) [ListAdd 5, ListAdd 6] v = Some (rs, t) \<and>
     rv_erase 4 t 1 = Inr (1 + 1, u) \<and> rv_end u = length [5, 6 :: nat] - 1 \<and> 1 + 1 = rv_end u + 1"
proof -
  obtain v where v: "rv_Create 4 4 False 4096 32 [7, 7, 7, 7 :: nat] = Some v" "rv_rep 4 (4096 + of_nat 16) 4 v []"
    by (rule rv_Create_rep [of 4096 4 32 4 2 16 False 4 "[7, 7, 7, 7]"]) (simp_all add: CheckAligned_iff)
  have spec: "spec_ops 4 [ListAdd 5, ListAdd 6 :: nat list_op] [] = Some ([ReplyUnit, ReplyUnit], [5, 6])" by simp
  obtain t where t: "list_run (rv_step 4) [ListAdd 5, ListAdd 6] v = Some ([ReplyUnit, ReplyUnit], t)"
    using rvl.run_ok [OF v(2) spec] unfolding rv_step_def by blast
  have "\<exists>u. rv_erase 4 t 1 = Inr (1 + 1, u) \<and> rv_end u = length [5, 6 :: nat] - 1 \<and>
    (1 + 1 < length [5, 6 :: nat] \<longrightarrow> rv_at u 1 = Inr ([5, 6] ! (1 + 1))) \<and> (1 + 1 = length [5, 6 :: nat] \<longrightarrow> 1 + 1 = rv_end u + 1)"
    by (rule erase_returns_wrong_iterator [OF v(1) _ _ _ _ _ _ _ _ _ _ t spec, where k = 2 and minsize = 16])
      (simp_all add: CheckAligned_iff)
  with v(1) t show ?thesis by auto
qed

end
