(* ===== verification/Fx_Vector.thy ===== *)
theory Fx_Vector
  imports Region_Vector
begin

text \<open>
  The vector of \<open>udpserver/src/base/vector.h\<close>, \<open>fx::base::container::Vector\<close>, whose header and
  elements live in a buffer of the caller. The memory behind the header is the list of the elements
  that fit; \<open>ts\<close> is \<open>sizeof(ValueType)\<close>. Sizes are \<open>size_t\<close>, 64 bits, and wrap.
\<close>

section \<open>State\<close>

record fv_meta =
  md_magic_number :: u64
  md_size :: u64
  md_value_size :: u64

record 'a fvec =
  fv_md :: fv_meta
  fv_cells :: "'a list"
  fv_kMaxLength :: u64

definition fv_kMagicNumber :: u64 where
  "fv_kMagicNumber = 2473338958754726831"

definition sizeof_MetaData :: u64 where
  "sizeof_MetaData = 24"

text \<open>The buffer is not checked to hold a header: with a shorter one the header is outside of it.\<close>

definition fv_CreateFrom :: "nat \<Rightarrow> u64 \<Rightarrow> 'a list \<Rightarrow> 'a fvec result" where
  "fv_CreateFrom ts len cells =
     (if len < sizeof_MetaData then Inl MemoryFault
      else Inr \<lparr>fv_md = \<lparr>md_magic_number = fv_kMagicNumber, md_size = 0, md_value_size = of_nat ts\<rparr>,
        fv_cells = cells, fv_kMaxLength = len\<rparr>)"

definition fv_RecoverFrom :: "nat \<Rightarrow> u64 \<Rightarrow> fv_meta \<Rightarrow> 'a list \<Rightarrow> 'a fvec option result" where
  "fv_RecoverFrom ts len md cells =
     (if len < sizeof_MetaData then Inl MemoryFault
      else if md_magic_number md \<noteq> fv_kMagicNumber \<or> md_value_size md \<noteq> of_nat ts \<or>
        md_value_size md * md_size md + sizeof_MetaData > len then Inr None
      else Inr (Some \<lparr>fv_md = md, fv_cells = cells, fv_kMaxLength = len\<rparr>))"

section \<open>Operations\<close>

definition fv_Used :: "nat \<Rightarrow> 'a fvec \<Rightarrow> u64" where
  "fv_Used ts v = md_size (fv_md v) * of_nat ts"

definition fv_HasSpace :: "nat \<Rightarrow> 'a fvec \<Rightarrow> bool" where
  "fv_HasSpace ts v \<longleftrightarrow> fv_Used ts v + of_nat ts + sizeof_MetaData \<le> fv_kMaxLength v"

definition fv_size :: "'a fvec \<Rightarrow> nat" where
  "fv_size v = unat (md_size (fv_md v))"

definition set_md_size :: "u64 \<Rightarrow> 'a fvec \<Rightarrow> 'a fvec" where
  "set_md_size n v = v\<lparr>fv_md := (fv_md v)\<lparr>md_size := n\<rparr>\<rparr>"

definition fv_CopyFrom :: "nat \<Rightarrow> 'a fvec \<Rightarrow> 'a fvec \<Rightarrow> (bool \<times> 'a fvec) result" where
  "fv_CopyFrom ts v rhs =
     (if fv_kMaxLength v < fv_Used ts rhs + sizeof_MetaData then Inr (False, v)
      else if length (fv_cells rhs) < fv_size rhs \<or> length (fv_cells v) < fv_size rhs then Inl MemoryFault
      else Inr (True, set_md_size (md_size (fv_md rhs))
        (v\<lparr>fv_cells := take (fv_size rhs) (fv_cells rhs) @ drop (fv_size rhs) (fv_cells v)\<rparr>)))"

definition fv_push_back :: "nat \<Rightarrow> 'a fvec \<Rightarrow> 'a \<Rightarrow> (bool \<times> 'a fvec) result" where
  "fv_push_back ts v x =
     (if fv_HasSpace ts v
      then if fv_size v < length (fv_cells v)
           then Inr (True, set_md_size (md_size (fv_md v) + 1) (v\<lparr>fv_cells := (fv_cells v)[fv_size v := x]\<rparr>))
           else Inl MemoryFault
      else Inr (False, v))"

definition fv_erase_range :: "'a fvec \<Rightarrow> nat \<Rightarrow> nat \<Rightarrow> 'a fvec result" where
  "fv_erase_range v s e =
     require (s < e) (require (s < fv_size v) (require (e \<le> fv_size v)
       (if length (fv_cells v) < fv_size v then Inl MemoryFault
        else Inr (set_md_size (md_size (fv_md v) - of_nat (e - s)) (v\<lparr>fv_cells := move_down s e (fv_size v) (fv_cells v)\<rparr>)))))"

definition fv_erase :: "'a fvec \<Rightarrow> nat \<Rightarrow> 'a fvec result" where
  "fv_erase v idx = fv_erase_range v idx (idx + 1)"

definition fv_pop_back :: "'a fvec \<Rightarrow> ('a \<times> 'a fvec) result" where
  "fv_pop_back v =
     require (md_size (fv_md v) \<noteq> 0)
       (let v1 = set_md_size (md_size (fv_md v) - 1) v
        in if fv_size v1 < length (fv_cells v1) then Inr (fv_cells v1 ! fv_size v1, v1) else Inl MemoryFault)"

definition fv_index :: "'a fvec \<Rightarrow> nat \<Rightarrow> 'a result" where
  "fv_index v idx = require (idx < fv_size v) (if idx < length (fv_cells v) then Inr (fv_cells v ! idx) else Inl MemoryFault)"

text \<open>A store through the reference \<open>operator[]\<close> returns.\<close>

definition fv_assign :: "'a fvec \<Rightarrow> nat \<Rightarrow> 'a \<Rightarrow> 'a fvec result" where
  "fv_assign v idx x = require (idx < fv_size v)
     (if idx < length (fv_cells v) then Inr (v\<lparr>fv_cells := (fv_cells v)[idx := x]\<rparr>) else Inl MemoryFault)"

definition fv_begin :: "'a fvec \<Rightarrow> nat" where
  "fv_begin v = 0"

definition fv_end :: "'a fvec \<Rightarrow> nat" where
  "fv_end v = fv_size v"

section \<open>The elements as a list\<close>

definition fv_rep :: "nat \<Rightarrow> u64 \<Rightarrow> nat \<Rightarrow> 'a fvec \<Rightarrow> 'a list \<Rightarrow> bool" where
  "fv_rep ts len cap v xs \<longleftrightarrow> 0 < ts \<and> 24 \<le> unat len \<and> unat len + ts + 24 < 2 ^ 64 \<and> cap = (unat len - 24) div ts \<and>
     fv_kMaxLength v = len \<and> length (fv_cells v) = cap \<and> length xs \<le> cap \<and>
     fv_md v = \<lparr>md_magic_number = fv_kMagicNumber, md_size = of_nat (length xs), md_value_size = of_nat ts\<rparr> \<and>
     take (length xs) (fv_cells v) = xs"

lemma fv_repD:
  assumes "fv_rep ts len cap v xs"
  shows "fv_size v = length xs" "length (fv_cells v) = cap" "length xs \<le> cap" "take (length xs) (fv_cells v) = xs"
    "i < length xs \<Longrightarrow> fv_cells v ! i = xs ! i" "fv_HasSpace ts v \<longleftrightarrow> length xs < cap"
    "unat (of_nat ts * of_nat (length xs) :: u64) = ts * length xs" "ts * length xs + 24 \<le> unat len"
proof -
  note r = assms [unfolded fv_rep_def]
  have "cap * ts \<le> unat len - 24" using r by simp
  then have le: "length xs * ts \<le> unat len - 24" using r mult_le_mono1 [of "length xs" cap ts] by linarith
  have bnd: "unat len + ts + 24 < 2 ^ 64" "24 \<le> unat len" "length xs \<le> length xs * ts" "ts * length xs = length xs * ts" using r by simp_all
  then have small: "length xs < 2 ^ 64" "ts < 2 ^ 64" "ts * length xs < 2 ^ 64" using le by linarith+
  have u: "unat (of_nat (length xs) :: u64) = length xs" "unat (of_nat ts :: u64) = ts"
    using small by (simp_all add: unat_of_nat_small)
  show "fv_size v = length xs" using r u by (simp add: fv_size_def)
  show "length (fv_cells v) = cap" "length xs \<le> cap" "take (length xs) (fv_cells v) = xs" using r by simp_all
  show "i < length xs \<Longrightarrow> fv_cells v ! i = xs ! i" using r by (metis nth_take)
  show m: "unat (of_nat ts * of_nat (length xs) :: u64) = ts * length xs" using u small(3) by (simp add: unat_word_ariths)
  show "ts * length xs + 24 \<le> unat len" using le bnd by linarith
  have "ts * length xs + ts + 24 < 2 ^ 64" using le bnd by linarith
  then have "unat (fv_Used ts v + of_nat ts + sizeof_MetaData) = ts * length xs + ts + 24"
    using r u m le by (simp add: fv_Used_def sizeof_MetaData_def unat_word_ariths mult.commute)
  then have "fv_HasSpace ts v \<longleftrightarrow> ts * length xs + ts \<le> unat len - 24"
    using r by (auto simp: fv_HasSpace_def word_le_nat_alt)
  also have "\<dots> \<longleftrightarrow> Suc (length xs) \<le> (unat len - 24) div ts" using r by (simp add: less_eq_div_iff_mult_less_eq algebra_simps)
  finally show "fv_HasSpace ts v \<longleftrightarrow> length xs < cap" using r by auto
qed

lemma fv_repI:
  assumes "fv_rep ts len cap v xs" "length cells = cap" "length ys \<le> cap" "take (length ys) cells = ys"
    and "n = of_nat (length ys)"
  shows "fv_rep ts len cap (set_md_size n (v\<lparr>fv_cells := cells\<rparr>)) ys"
  using assms by (simp add: fv_rep_def set_md_size_def)

lemma fv_index_rep: "fv_rep ts len cap v xs \<Longrightarrow> i < length xs \<Longrightarrow> fv_index v i = Inr (xs ! i)"
  using fv_repD by (fastforce simp: fv_index_def)

lemma fv_assign_rep:
  assumes "fv_rep ts len cap v xs" "i < length xs"
  shows "\<exists>w. fv_assign v i x = Inr w \<and> fv_rep ts len cap w (xs[i := x])"
proof -
  have "fv_assign v i x = Inr (v\<lparr>fv_cells := (fv_cells v)[i := x]\<rparr>)"
    using fv_repD(1-3) [OF assms(1)] assms(2) by (simp add: fv_assign_def)
  moreover have "take (length xs) ((fv_cells v)[i := x]) = xs[i := x]" using fv_repD(4) [OF assms(1)] by (simp add: take_update_swap)
  ultimately show ?thesis using assms(1) by (simp add: fv_rep_def)
qed

lemma fv_push_back_rep:
  assumes "fv_rep ts len cap v xs"
  shows "length xs < cap \<Longrightarrow> \<exists>w. fv_push_back ts v x = Inr (True, w) \<and> fv_rep ts len cap w (xs @ [x])"
    "length xs = cap \<Longrightarrow> fv_push_back ts v x = Inr (False, v)"
proof -
  note r = fv_repD [OF assms]
  show "fv_push_back ts v x = Inr (False, v)" if "length xs = cap" using that r(6) by (simp add: fv_push_back_def)
  assume lt: "length xs < cap"
  let ?w = "set_md_size (md_size (fv_md v) + 1) (v\<lparr>fv_cells := (fv_cells v)[length xs := x]\<rparr>)"
  have "fv_push_back ts v x = Inr (True, ?w)" using lt r(1,2,6) by (simp add: fv_push_back_def)
  moreover have "fv_rep ts len cap ?w (xs @ [x])"
    by (rule fv_repI [OF assms]) (use lt r(2,4) assms in \<open>simp_all add: take_Suc_conv_app_nth fv_rep_def\<close>)
  ultimately show "\<exists>w. fv_push_back ts v x = Inr (True, w) \<and> fv_rep ts len cap w (xs @ [x])" by blast
qed

lemma take_move_range:
  "s < e \<Longrightarrow> e \<le> n \<Longrightarrow> n \<le> length xs \<Longrightarrow> take (n - (e - s)) (move_down s e n xs) = take s (take n xs) @ drop e (take n xs)"
proof -
  assume a: "s < e" "e \<le> n" "n \<le> length xs"
  then have "n - (e - s) = s + (n - e)" by simp
  then show ?thesis using a by (simp add: move_down_def drop_take min_absorb1)
qed

lemma fv_erase_range_rep:
  assumes "fv_rep ts len cap v xs" "s < e" "e \<le> length xs"
  shows "\<exists>w. fv_erase_range v s e = Inr w \<and> fv_rep ts len cap w (take s xs @ drop e xs)"
proof -
  note r = fv_repD [OF assms(1)]
  let ?w = "set_md_size (md_size (fv_md v) - of_nat (e - s)) (v\<lparr>fv_cells := move_down s e (length xs) (fv_cells v)\<rparr>)"
  have "fv_erase_range v s e = Inr ?w" using assms(2,3) r(1-3) by (simp add: fv_erase_range_def)
  moreover have "fv_rep ts len cap ?w (take s xs @ drop e xs)"
  proof (rule fv_repI [OF assms(1)])
    have n: "length (take s xs @ drop e xs) = length xs - (e - s)" using assms(2,3) by simp
    show "length (move_down s e (length xs) (fv_cells v)) = cap" using assms(2,3) r(2,3) by (simp add: move_down_def)
    show "length (take s xs @ drop e xs) \<le> cap" using n r(3) by simp
    show "take (length (take s xs @ drop e xs)) (move_down s e (length xs) (fv_cells v)) = take s xs @ drop e xs"
      unfolding n using take_move_range [OF assms(2,3), of "fv_cells v"] r(2-4) by simp
    show "md_size (fv_md v) - of_nat (e - s) = of_nat (length (take s xs @ drop e xs))"
      unfolding n using assms by (simp add: fv_rep_def of_nat_diff)
  qed
  ultimately show ?thesis by blast
qed

lemma fv_erase_rep:
  "fv_rep ts len cap v xs \<Longrightarrow> i < length xs \<Longrightarrow> \<exists>w. fv_erase v i = Inr w \<and> fv_rep ts len cap w (delete_at i xs)"
  using fv_erase_range_rep [of ts len cap v xs i "i + 1"] by (simp add: fv_erase_def delete_at_def)

lemma fv_pop_back_rep:
  assumes "fv_rep ts len cap v xs" "xs \<noteq> []"
  shows "\<exists>w. fv_pop_back v = Inr (last xs, w) \<and> fv_rep ts len cap w (butlast xs)"
proof -
  note r = fv_repD [OF assms(1)]
  have "md_size (fv_md v) = of_nat (length xs)" using assms(1) by (simp add: fv_rep_def)
  then have n: "md_size (fv_md v) - 1 = of_nat (length (butlast xs))" using assms(2) by (cases xs) simp_all
  have n0: "md_size (fv_md v) \<noteq> 0" using r(1) assms(2) unfolding fv_size_def by (metis length_0_conv unat_0)
  have "take (length xs - 1) (fv_cells v) = take (length xs - 1) (take (length xs) (fv_cells v))" by simp
  then have but: "take (length xs - 1) (fv_cells v) = butlast xs" by (simp only: r(4) butlast_conv_take)
  let ?w = "set_md_size (md_size (fv_md v) - 1) (v\<lparr>fv_cells := fv_cells v\<rparr>)"
  have rep: "fv_rep ts len cap ?w (butlast xs)"
    by (rule fv_repI [OF assms(1) r(2) _ _ n]) (use r(3) but in simp_all)
  have "fv_size ?w = length (butlast xs)" by (rule fv_repD(1) [OF rep])
  moreover have "fv_cells v ! (length xs - 1) = last xs" using r(5) [of "length xs - 1"] assms(2) by (simp add: last_conv_nth)
  moreover have "length xs - 1 < cap" using r(3) assms(2) by (cases xs) auto
  ultimately have "fv_pop_back v = Inr (last xs, ?w)"
    using n0 r(2) by (simp add: fv_pop_back_def Let_def set_md_size_def)
  with rep show ?thesis by blast
qed

definition fv_step :: "nat \<Rightarrow> 'a list_op \<Rightarrow> 'a fvec \<Rightarrow> ('a list_reply \<times> 'a fvec) option" where
  "fv_step ts = list_step (\<lambda>v. Some (fv_size v, v)) (\<lambda>v i. map_option (\<lambda>x. (x, v)) (normally (fv_index v i)))
     (\<lambda>v i x. normally (fv_assign v i x))
     (\<lambda>v x. case normally (fv_push_back ts v x) of Some (True, w) \<Rightarrow> Some w | _ \<Rightarrow> None) (\<lambda>v i. normally (fv_erase v i))"

interpretation fvl: indexed_list "fv_rep ts len" "\<lambda>v. Some (fv_size v, v)" "\<lambda>v i. map_option (\<lambda>x. (x, v)) (normally (fv_index v i))"
  "\<lambda>v i x. normally (fv_assign v i x)" "\<lambda>v x. case normally (fv_push_back ts v x) of Some (True, w) \<Rightarrow> Some w | _ \<Rightarrow> None"
  "\<lambda>v i. normally (fv_erase v i)" for ts len
proof unfold_locales
  fix cap v xs i x
  assume rep: "fv_rep ts len cap v xs"
  show "\<exists>t. Some (fv_size v, v) = Some (length xs, t) \<and> fv_rep ts len cap t xs" using rep fv_repD(1) [OF rep] by simp
  show "\<exists>t. (case normally (fv_push_back ts v x) of Some (True, w) \<Rightarrow> Some w | _ \<Rightarrow> None) = Some t \<and> fv_rep ts len cap t (xs @ [x])"
    if "length xs < cap" using fv_push_back_rep(1) [OF rep that, of x] by auto
  assume i: "i < length xs"
  show "\<exists>t. map_option (\<lambda>x. (x, v)) (normally (fv_index v i)) = Some (xs ! i, t) \<and> fv_rep ts len cap t xs"
    using rep fv_index_rep [OF rep i] by simp
  show "\<exists>t. normally (fv_assign v i x) = Some t \<and> fv_rep ts len cap t (xs[i := x])" using fv_assign_rep [OF rep i, of x] by auto
  show "\<exists>t. normally (fv_erase v i) = Some t \<and> fv_rep ts len cap t (delete_at i xs)" using fv_erase_rep [OF rep i] by auto
qed

lemma fv_CreateFrom_rep:
  assumes "24 \<le> unat len" "0 < ts" "unat len + ts + 24 < 2 ^ 64" "cap = (unat len - 24) div ts" "length cells = cap"
  obtains v where "fv_CreateFrom ts len cells = Inr v" "fv_rep ts len cap v []"
  using assms that by (simp add: fv_CreateFrom_def sizeof_MetaData_def word_less_nat_alt fv_rep_def)

text \<open>
  C25. The vector is a bounded list: on a vector made in a buffer, every sequence of \<open>size\<close>, reads and
  stores with \<open>operator[]\<close>, \<open>push_back\<close> and \<open>erase\<close> inside the bounds gives the replies of a list of
  as many elements as fit behind the header; \<open>pop_back\<close> then takes the last element, \<open>push_back\<close>
  refuses an element exactly when the vector is full, and \<open>RecoverFrom\<close> on the buffer gives the same
  vector back.
\<close>

theorem fx_vector_is_list:
  assumes "24 \<le> unat len" "0 < ts" "unat len + ts + 24 < 2 ^ 64" "cap = (unat len - 24) div ts" "length cells = cap"
    and "spec_ops cap ops [] = Some (rs, ys)"
  shows "\<exists>v t. fv_CreateFrom ts len cells = Inr v \<and> list_run (fv_step ts) ops v = Some (rs, t) \<and>
    take (fv_size t) (fv_cells t) = ys \<and> fv_RecoverFrom ts len (fv_md t) (fv_cells t) = Inr (Some t) \<and>
    (ys \<noteq> [] \<longrightarrow> (\<exists>u. fv_pop_back t = Inr (last ys, u) \<and> take (fv_size u) (fv_cells u) = butlast ys)) \<and>
    (\<forall>x. (\<exists>u. fv_push_back ts t x = Inr (length ys < cap, u)))"
proof -
  obtain v where v: "fv_CreateFrom ts len cells = Inr v" "fv_rep ts len cap v []" by (rule fv_CreateFrom_rep [OF assms(1-5)])
  obtain t where t: "list_run (fv_step ts) ops v = Some (rs, t)" "fv_rep ts len cap t ys"
    using fvl.run_ok [OF v(2) assms(6)] unfolding fv_step_def by blast
  note r = fv_repD [OF t(2)]
  have md: "fv_md t = \<lparr>md_magic_number = fv_kMagicNumber, md_size = of_nat (length ys), md_value_size = of_nat ts\<rparr>" "fv_kMaxLength t = len"
    using t(2) by (simp_all add: fv_rep_def)
  have "unat (of_nat ts * of_nat (length ys) + sizeof_MetaData) = ts * length ys + 24"
    using r(7,8) assms(3) by (simp add: sizeof_MetaData_def unat_word_ariths)
  then have "\<not> of_nat ts * of_nat (length ys) + sizeof_MetaData > len" using r(8) by (simp add: word_less_nat_alt)
  then have "fv_RecoverFrom ts len (fv_md t) (fv_cells t) = Inr (Some t)"
    using md assms(1) by (cases t) (simp add: fv_RecoverFrom_def sizeof_MetaData_def word_less_nat_alt)
  moreover have "\<exists>u. fv_pop_back t = Inr (last ys, u) \<and> take (fv_size u) (fv_cells u) = butlast ys" if "ys \<noteq> []"
    using fv_pop_back_rep [OF t(2) that] fv_repD(1,4) by metis
  moreover have "\<exists>u. fv_push_back ts t x = Inr (length ys < cap, u)" for x
    using fv_push_back_rep [OF t(2), of x] r(3) by (cases "length ys < cap") auto
  moreover have "take (fv_size t) (fv_cells t) = ys" by (simp only: r(1,4))
  ultimately show ?thesis using v(1) t(1) by blast
qed

theorem fx_vector_is_list_witness:
  "\<exists>v t. fv_CreateFrom 8 48 [7, 7, 7 :: nat] = Inr v \<and>
    list_run (fv_step 8) [ListAdd 5, ListAdd 6, ListSet 0 9, ListAdd 8, ListDelete 1, ListGet 1, ListSize] v =
      Some ([ReplyUnit, ReplyUnit, ReplyUnit, ReplyUnit, ReplyUnit, ReplyItem 8, ReplySize 2], t) \<and>
    take (fv_size t) (fv_cells t) = [9, 8] \<and> fv_RecoverFrom 8 48 (fv_md t) (fv_cells t) = Inr (Some t) \<and>
    (\<exists>u. fv_pop_back t = Inr (8, u) \<and> take (fv_size u) (fv_cells u) = [9]) \<and>
    (\<exists>u. fv_push_back 8 t 4 = Inr (True, u))"
  using fx_vector_is_list [of 48 8 3 "[7, 7, 7 :: nat]"
      "[ListAdd 5, ListAdd 6, ListSet 0 9, ListAdd 8, ListDelete 1, ListGet 1, ListSize]"
      "[ReplyUnit, ReplyUnit, ReplyUnit, ReplyUnit, ReplyUnit, ReplyItem 8, ReplySize 2]" "[9, 8]"]
  by (simp add: delete_at_def) blast

text \<open>
  \<open>RecoverFrom\<close> multiplies the size of the header by the size of an element without a check for
  overflow: a header that claims \<open>2 ^ 61\<close> elements of eight bytes is accepted for any buffer, and
  \<open>operator[]\<close> then reads outside of it.
\<close>

theorem RecoverFrom_accepts_overflow:
  assumes "24 \<le> unat len" "length cells = (unat len - 24) div 8"
  shows "\<exists>v. fv_RecoverFrom 8 len \<lparr>md_magic_number = fv_kMagicNumber, md_size = 2 ^ 61, md_value_size = 8\<rparr> cells = Inr (Some v) \<and>
    fv_size v = 2 ^ 61 \<and> fv_index v (length cells) = Inl MemoryFault"
proof -
  have lt: "\<not> len < 24" using assms(1) by (simp add: word_less_nat_alt)
  have wrap: "(18446744073709551640 :: u64) = 24" by simp
  have "\<not> len < 18446744073709551640" unfolding wrap by (rule lt)
  moreover have "length cells < 2 ^ 61" using assms(2) unat_less_exp [of len] by simp
  ultimately show ?thesis using lt by (simp add: fv_RecoverFrom_def fv_size_def fv_index_def sizeof_MetaData_def)
qed

theorem RecoverFrom_accepts_overflow_witness:
  "\<exists>v. fv_RecoverFrom 8 40 \<lparr>md_magic_number = fv_kMagicNumber, md_size = 2 ^ 61, md_value_size = 8\<rparr> [1, 2 :: nat] = Inr (Some v) \<and>
    fv_size v = 2 ^ 61 \<and> fv_index v (length [1, 2 :: nat]) = Inl MemoryFault"
  by (rule RecoverFrom_accepts_overflow) simp_all

end
