(* ===== verification/Region_Allocator.thy ===== *)
theory Region_Allocator
  imports Region_Helper
begin

text \<open>
  The node allocator of \<open>RegionBasedContainer/RegionBasedAllocator.h\<close> and \<open>-inl.h\<close>: nodes of one
  type in a region, named by ids that start at 1. The memory from \<open>start_\<close> on is the list of the
  nodes that fit. A free node keeps the id of the next one in its first four bytes; \<open>link\<close> and
  \<open>put_link\<close> read and write those four bytes of a node. \<open>ts\<close> and \<open>ta\<close> are the size and alignment
  of a node, \<open>external\<close> says whether the caller passes a header of its own.
\<close>

section \<open>State and creation\<close>

record ra_head =
  rah_magic :: u64
  rah_size :: u32
  rah_element_size :: u32
  rah_free :: u32
  rah_free_list :: u32

record 'a ralloc =
  ra_header :: ra_head
  ra_start :: u64
  ra_cells :: "'a list"
  ra_max_node_id :: u32

definition ra_kInvalidNodeID :: u32 where
  "ra_kInvalidNodeID = 0"

definition ra_kMagic :: u64 where
  "ra_kMagic = 0x434da4cca9fea893"

definition ra_data_start :: "nat \<Rightarrow> bool \<Rightarrow> u64 \<Rightarrow> u64" where
  "ra_data_start ta external data = Align_to ta (if external then data else data + 24)"

definition ra_Create :: "nat \<Rightarrow> nat \<Rightarrow> bool \<Rightarrow> u64 \<Rightarrow> u64 \<Rightarrow> 'a list \<Rightarrow> 'a ralloc option" where
  "ra_Create ts ta external data len cells =
     (let data_start = ra_data_start ta external data;
          max_node_id = (of_nat (unat (data + len - data_start) div ts) :: u32)
      in if \<not> CheckAligned data then None
         else if len < data_start - data then None
         else Some \<lparr>ra_header = \<lparr>rah_magic = ra_kMagic, rah_size = 0, rah_element_size = of_nat ts,
             rah_free = min max_node_id 1, rah_free_list = ra_kInvalidNodeID\<rparr>,
           ra_start = data_start, ra_cells = cells, ra_max_node_id = max_node_id\<rparr>)"

definition ra_Restore :: "nat \<Rightarrow> nat \<Rightarrow> bool \<Rightarrow> u64 \<Rightarrow> u64 \<Rightarrow> ra_head \<Rightarrow> 'a list \<Rightarrow> 'a ralloc option" where
  "ra_Restore ts ta external data len header cells =
     (let data_start = ra_data_start ta external data;
          max_node_id = unat (data + len - data_start) div ts
      in if \<not> CheckAligned data then None
         else if len < data_start - data then None
         else if rah_magic header \<noteq> ra_kMagic \<or> unat (rah_size header) > max_node_id \<or> unat (rah_element_size header) \<noteq> ts \<or>
           unat (rah_free_list header) > max_node_id \<or> unat (rah_free header) > max_node_id + 1 then None
         else Some \<lparr>ra_header = header, ra_start = data_start, ra_cells = cells, ra_max_node_id = of_nat max_node_id\<rparr>)"

section \<open>Operations\<close>

text \<open>A pointer to a node is the number of nodes between it and \<open>start_\<close>.\<close>

definition NodeIDToNodeIDPtr :: "'a ralloc \<Rightarrow> u32 \<Rightarrow> nat result" where
  "NodeIDToNodeIDPtr al i = require (i \<noteq> ra_kInvalidNodeID) (require (i \<le> ra_max_node_id al) (Inr (unat i)))"

definition ra_Get :: "'a ralloc \<Rightarrow> u32 \<Rightarrow> nat result" where
  "ra_Get al i = require (i \<noteq> ra_kInvalidNodeID) (require (i \<le> ra_max_node_id al) (Inr (unat i - 1)))"

definition ra_load :: "'a ralloc \<Rightarrow> nat \<Rightarrow> 'a result" where
  "ra_load al p = (if p < length (ra_cells al) then Inr (ra_cells al ! p) else Inl MemoryFault)"

definition ra_store :: "('a \<Rightarrow> 'a) \<Rightarrow> nat \<Rightarrow> 'a ralloc \<Rightarrow> 'a ralloc result" where
  "ra_store g p al = (if p < length (ra_cells al)
     then Inr (al\<lparr>ra_cells := (ra_cells al)[p := g (ra_cells al ! p)]\<rparr>) else Inl MemoryFault)"

definition set_ra_header :: "(ra_head \<Rightarrow> ra_head) \<Rightarrow> 'a ralloc \<Rightarrow> 'a ralloc" where
  "set_ra_header g al = al\<lparr>ra_header := g (ra_header al)\<rparr>"

definition Allocate :: "('a \<Rightarrow> u32) \<Rightarrow> 'a ralloc \<Rightarrow> (u32 \<times> 'a ralloc) result" where
  "Allocate link al =
     rbind
       (if rah_free_list (ra_header al) \<noteq> ra_kInvalidNodeID
        then rbind (NodeIDToNodeIDPtr al (rah_free_list (ra_header al))) (\<lambda>p.
          rbind (ra_load al p) (\<lambda>x.
            Inr (rah_free_list (ra_header al), set_ra_header (\<lambda>h. h\<lparr>rah_free_list := link x\<rparr>) al)))
        else if rah_free (ra_header al) > ra_max_node_id al then Inl BadAlloc
        else Inr (rah_free (ra_header al), set_ra_header (\<lambda>h. h\<lparr>rah_free := rah_free h + 1\<rparr>) al))
       (\<lambda>(res, al1). Inr (res, set_ra_header (\<lambda>h. h\<lparr>rah_size := rah_size h + 1\<rparr>) al1))"

definition Deallocate :: "(u32 \<Rightarrow> 'a \<Rightarrow> 'a) \<Rightarrow> 'a ralloc \<Rightarrow> u32 \<Rightarrow> 'a ralloc result" where
  "Deallocate put_link al i =
     require (i \<noteq> ra_kInvalidNodeID) (require (i \<le> ra_max_node_id al)
       (rbind (NodeIDToNodeIDPtr al i) (\<lambda>p.
         rbind (ra_store (put_link (rah_free_list (ra_header al))) p al) (\<lambda>al1.
           Inr (set_ra_header (\<lambda>h. h\<lparr>rah_free_list := i, rah_size := rah_size h - 1\<rparr>) al1)))))"

definition ra_clear :: "'a ralloc \<Rightarrow> 'a ralloc" where
  "ra_clear al = set_ra_header (\<lambda>h. h\<lparr>rah_size := 0, rah_free := min (ra_max_node_id al) 1, rah_free_list := ra_kInvalidNodeID\<rparr>) al"

definition ra_size :: "'a ralloc \<Rightarrow> nat" where
  "ra_size al = unat (rah_size (ra_header al))"

definition ra_empty :: "'a ralloc \<Rightarrow> bool" where
  "ra_empty al \<longleftrightarrow> ra_size al = 0"

definition ra_max_size :: "'a ralloc \<Rightarrow> nat" where
  "ra_max_size al = unat (ra_max_node_id al)"

section \<open>Allocation\<close>

text \<open>An allocator from which nothing has been returned yet: the nodes handed out are 1 to \<open>n\<close>.\<close>

definition ra_fresh :: "nat \<Rightarrow> nat \<Rightarrow> 'a ralloc \<Rightarrow> bool" where
  "ra_fresh cap n al \<longleftrightarrow> ra_max_node_id al = of_nat cap \<and> 0 < cap \<and> cap < 2 ^ 32 - 1 \<and> length (ra_cells al) = cap \<and>
     n \<le> cap \<and> rah_size (ra_header al) = of_nat n \<and> rah_free (ra_header al) = of_nat (Suc n) \<and> rah_free_list (ra_header al) = 0"

lemma ra_freshD:
  assumes "ra_fresh cap n al"
  shows "ra_size al = n" "ra_max_size al = cap" "length (ra_cells al) = cap" "n \<le> cap" "unat (ra_max_node_id al) = cap"
    "unat (rah_free (ra_header al)) = Suc n"
  using assms by (simp_all add: ra_fresh_def ra_size_def ra_max_size_def unat_of_nat_small del: of_nat_Suc)

lemma Allocate_fresh:
  assumes "ra_fresh cap n al"
  shows "n < cap \<Longrightarrow> \<exists>al1. Allocate link al = Inr (of_nat (Suc n), al1) \<and> ra_fresh cap (Suc n) al1 \<and> ra_cells al1 = ra_cells al"
    "n = cap \<Longrightarrow> Allocate link al = Inl BadAlloc"
proof -
  note f = assms [unfolded ra_fresh_def]
  have gt: "rah_free (ra_header al) > ra_max_node_id al \<longleftrightarrow> cap \<le> n"
    using ra_freshD(5,6) [OF assms] by (simp add: word_less_nat_alt less_Suc_eq_le)
  show "Allocate link al = Inl BadAlloc" if "n = cap" using that f gt by (simp add: Allocate_def ra_kInvalidNodeID_def)
  show "\<exists>al1. Allocate link al = Inr (of_nat (Suc n), al1) \<and> ra_fresh cap (Suc n) al1 \<and> ra_cells al1 = ra_cells al" if "n < cap"
    using that f gt by (simp add: Allocate_def ra_kInvalidNodeID_def set_ra_header_def ra_fresh_def)
qed

lemma ra_Get_fresh:
  assumes "ra_fresh cap n al" "0 < i" "i \<le> cap"
  shows "ra_Get al (of_nat i) = Inr (i - 1)"
proof -
  have u: "unat (of_nat i :: u32) = i" using assms by (intro unat_of_nat_small) (simp add: ra_fresh_def)
  then have "(of_nat i :: u32) \<noteq> 0" using assms(2) by (metis neq0_conv unat_0)
  moreover have "of_nat i \<le> ra_max_node_id al" using ra_freshD(5) [OF assms(1)] assms(3) u by (simp add: word_le_nat_alt)
  ultimately show ?thesis by (simp add: ra_Get_def ra_kInvalidNodeID_def u)
qed

lemma ra_clear_fresh:
  assumes "ra_fresh cap n al"
  shows "ra_fresh cap 0 (ra_clear al)"
proof -
  have "1 \<le> cap" using assms by (simp add: ra_fresh_def)
  then have "(1 :: u32) \<le> ra_max_node_id al" using ra_freshD(5) [OF assms] by (simp add: word_le_nat_alt)
  then have "min (ra_max_node_id al) 1 = 1" by simp
  then show ?thesis using assms by (simp add: ra_fresh_def ra_clear_def set_ra_header_def ra_kInvalidNodeID_def)
qed

lemma ra_store_fresh: "ra_fresh cap n al \<Longrightarrow> p < cap \<Longrightarrow>
   \<exists>al1. ra_store g p al = Inr al1 \<and> ra_fresh cap n al1 \<and> ra_cells al1 = (ra_cells al)[p := g (ra_cells al ! p)]"
  by (simp add: ra_store_def ra_fresh_def)

text \<open>
  Returning a node corrupts another one. \<open>NodeIDToNodeIDPtr\<close> takes \<open>start_ + index\<close> for the node
  that \<open>Get\<close> finds at \<open>start_ + index - 1\<close>: \<open>Deallocate(i)\<close> writes the head of the free list over the
  first four bytes of node \<open>i + 1\<close>, leaving node \<open>i\<close> as it is, and for the last node it writes past
  the region.
\<close>

theorem Deallocate_overwrites_next_node:
  assumes "0 < i" "i \<le> ra_max_node_id al" "length (ra_cells al) = ra_max_size al"
  shows "if i = ra_max_node_id al then Deallocate put_link al i = Inl MemoryFault
    else ra_Get al (i + 1) = Inr (unat i) \<and>
      (\<exists>al1. Deallocate put_link al i = Inr al1 \<and> rah_free_list (ra_header al1) = i \<and>
         ra_cells al1 = (ra_cells al)[unat i := put_link (rah_free_list (ra_header al)) (ra_cells al ! unat i)])"
proof -
  have i: "i \<noteq> 0" using assms(1) by auto
  show ?thesis
  proof (cases "i = ra_max_node_id al")
    case True
    then show ?thesis using i assms(3)
      by (simp add: Deallocate_def NodeIDToNodeIDPtr_def ra_kInvalidNodeID_def ra_store_def ra_max_size_def)
  next
    case False
    then have lt: "unat i < unat (ra_max_node_id al)" using assms(2) by (simp add: word_le_nat_alt word_unat_eq_iff)
    then have "unat (i + 1) = unat i + 1" using unat_less_exp [of "ra_max_node_id al"] by (simp add: unat_word_ariths)
    moreover from this have "i + 1 \<noteq> 0" "i + 1 \<le> ra_max_node_id al" using lt by (auto simp: word_le_nat_alt)
    ultimately show ?thesis using i False lt assms(2,3)
      by (simp add: Deallocate_def NodeIDToNodeIDPtr_def ra_Get_def ra_kInvalidNodeID_def ra_store_def ra_max_size_def set_ra_header_def)
  qed
qed

theorem Deallocate_overwrites_next_node_witness:
  "\<exists>al1. Deallocate (\<lambda>l (a, b). (l, b)) \<lparr>ra_header = \<lparr>rah_magic = ra_kMagic, rah_size = 3, rah_element_size = 8, rah_free = 4, rah_free_list = 0\<rparr>,
      ra_start = 4096, ra_cells = [(0, 10), (1, 20), (2, 30) :: u32 \<times> nat], ra_max_node_id = 3\<rparr> 2 = Inr al1 \<and>
    ra_cells al1 = [(0, 10), (1, 20), (0, 30)]"
  (is "\<exists>al1. Deallocate ?put ?al 2 = Inr al1 \<and> _")
proof -
  have "if 2 = ra_max_node_id ?al then Deallocate ?put ?al 2 = Inl MemoryFault
    else ra_Get ?al (2 + 1) = Inr (unat (2 :: u32)) \<and>
      (\<exists>al1. Deallocate ?put ?al 2 = Inr al1 \<and> rah_free_list (ra_header al1) = 2 \<and>
         ra_cells al1 = (ra_cells ?al)[unat (2 :: u32) := ?put (rah_free_list (ra_header ?al)) (ra_cells ?al ! unat (2 :: u32))])"
    by (rule Deallocate_overwrites_next_node) (simp_all add: ra_max_size_def)
  then show ?thesis by auto
qed

text \<open>
  In a region without room for a node, \<open>Create\<close> succeeds and the first \<open>Allocate\<close> does not throw:
  it returns the invalid id, and \<open>size()\<close> then exceeds \<open>max_size()\<close>.
\<close>

theorem Allocate_in_empty_region:
  assumes "ra_Create ts ta external data len cells = Some al" "unat (data + len - ra_data_start ta external data) < ts"
  shows "\<exists>al1. Allocate link al = Inr (ra_kInvalidNodeID, al1) \<and> ra_max_size al1 = 0 \<and> ra_size al1 = 1 \<and>
    ra_Get al1 ra_kInvalidNodeID = Inl AssertionFailed"
proof -
  have "ra_max_node_id al = 0" "rah_free (ra_header al) = 0" "rah_free_list (ra_header al) = 0" "rah_size (ra_header al) = 0"
    using assms by (auto simp: ra_Create_def Let_def ra_kInvalidNodeID_def min_def split: if_splits)
  then show ?thesis
    by (simp add: Allocate_def ra_kInvalidNodeID_def set_ra_header_def ra_max_size_def ra_size_def ra_Get_def)
qed

theorem Allocate_in_empty_region_witness:
  "\<exists>al al1. ra_Create 12 4 False 4096 32 ([] :: nat list) = Some al \<and> Allocate (\<lambda>x. 0) al = Inr (ra_kInvalidNodeID, al1) \<and>
    ra_max_size al1 = 0 \<and> ra_size al1 = 1"
proof -
  have "ra_data_start 4 False 4096 = 4120" by (simp add: ra_data_start_def Align_to_def)
  moreover from this obtain al where al: "ra_Create 12 4 False 4096 32 ([] :: nat list) = Some al"
    by (simp add: ra_Create_def Let_def CheckAligned_iff)
  ultimately show ?thesis using Allocate_in_empty_region [OF al, of "\<lambda>x. 0"] by auto
qed

end
