(* ===== verification/Dictionary.thy ===== *)
theory Dictionary
  imports Simulation
begin

text \<open>
  The contract of a bounded dictionary whose values carry their key, with its reference: the list of
  the values in the order they were inserted, no two with the same key. Inserting a key that is
  there changes nothing and gives the value found, inserting into a full dictionary throws.
  \<open>Region_HashTable\<close> interprets it.
\<close>

datatype ('k, 'v) dict_op = Insert 'v | Find 'k | Entries | Reset

datatype 'v dict_reply = Inserted bool 'v | Found "'v option" | Amount nat | Emptied

fun dict_spec :: "('v \<Rightarrow> 'k) \<Rightarrow> nat \<Rightarrow> ('k, 'v) dict_op \<Rightarrow> 'v list \<Rightarrow> ('v dict_reply \<times> 'v list) result" where
  "dict_spec key cap (Insert v) vs =
     (case find (\<lambda>w. key w = key v) vs of
        Some w \<Rightarrow> Inr (Inserted False w, vs)
      | None \<Rightarrow> if length vs < cap then Inr (Inserted True v, vs @ [v]) else Inl BadAlloc)"
| "dict_spec key cap (Find k) vs = Inr (Found (find (\<lambda>w. key w = k) vs), vs)"
| "dict_spec key cap Entries vs = Inr (Amount (length vs), vs)"
| "dict_spec key cap Reset vs = Inr (Emptied, [])"

fun dict_step :: "('s \<Rightarrow> 'v \<Rightarrow> ((bool \<times> 'v) \<times> 's) result) \<Rightarrow> ('s \<Rightarrow> 'k \<Rightarrow> 'v option result) \<Rightarrow> ('s \<Rightarrow> nat) \<Rightarrow> ('s \<Rightarrow> 's) \<Rightarrow>
    ('k, 'v) dict_op \<Rightarrow> 's \<Rightarrow> ('v dict_reply \<times> 's) result" where
  "dict_step ins look amount wipe (Insert v) s = rbind (ins s v) (\<lambda>((b, w), t). Inr (Inserted b w, t))"
| "dict_step ins look amount wipe (Find k) s = rbind (look s k) (\<lambda>r. Inr (Found r, s))"
| "dict_step ins look amount wipe Entries s = Inr (Amount (amount s), s)"
| "dict_step ins look amount wipe Reset s = Inr (Emptied, wipe s)"

locale dictionary =
  fixes rep :: "nat \<Rightarrow> 's \<Rightarrow> 'v list \<Rightarrow> bool"
    and key :: "'v \<Rightarrow> 'k"
    and ins :: "'s \<Rightarrow> 'v \<Rightarrow> ((bool \<times> 'v) \<times> 's) result"
    and look :: "'s \<Rightarrow> 'k \<Rightarrow> 'v option result"
    and amount :: "'s \<Rightarrow> nat"
    and wipe :: "'s \<Rightarrow> 's"
  assumes found_law: "rep cap s vs \<Longrightarrow> find (\<lambda>w. key w = key v) vs = Some w \<Longrightarrow> ins s v = Inr ((False, w), s)"
    and new_law: "rep cap s vs \<Longrightarrow> find (\<lambda>w. key w = key v) vs = None \<Longrightarrow> length vs < cap \<Longrightarrow>
      \<exists>t. ins s v = Inr ((True, v), t) \<and> rep cap t (vs @ [v])"
    and full_law: "rep cap s vs \<Longrightarrow> find (\<lambda>w. key w = key v) vs = None \<Longrightarrow> \<not> length vs < cap \<Longrightarrow> ins s v = Inl BadAlloc"
    and look_law: "rep cap s vs \<Longrightarrow> look s k = Inr (find (\<lambda>w. key w = k) vs)"
    and amount_law: "rep cap s vs \<Longrightarrow> amount s = length vs"
    and wipe_law: "rep cap s vs \<Longrightarrow> rep cap (wipe s) []"
begin

lemma step_agrees:
  assumes "rep cap s vs"
  shows "agrees (rep cap) (dict_step ins look amount wipe p s) (dict_spec key cap p vs)"
proof (cases p)
  case (Insert v)
  then show ?thesis
    using assms found_law [OF assms, of v] new_law [OF assms, of v] full_law [OF assms, of v]
    by (cases "find (\<lambda>w. key w = key v) vs"; cases "length vs < cap") auto
next
  case (Find k)
  then show ?thesis using assms look_law [OF assms, of k] by simp
next
  case Entries
  then show ?thesis using assms amount_law [OF assms] by simp
next
  case Reset
  then show ?thesis using wipe_law [OF assms] by simp
qed

lemma run_agrees:
  "rep cap s vs \<Longrightarrow> agrees (rep cap) (run_ops (dict_step ins look amount wipe) ps s) (run_ops (dict_spec key cap) ps vs)"
  by (rule run_ops_agrees) (rule step_agrees)

end

end
