(* ===== verification/Region_HashTable.thy ===== *)
theory Region_HashTable
  imports Region_Vector Region_Allocator Dictionary
begin

text \<open>
  The hash table over raw memory of \<open>RegionBasedContainer/RegionBasedHashTable.h\<close> and \<open>-inl.h\<close>: a
  \<open>RegionBasedVector\<close> of bucket heads and a \<open>RegionBasedAllocator\<close> of the nodes chained in the buckets.
  The template arguments are arguments of the operations: \<open>hash\<close> is \<open>Hash\<close>, \<open>eq\<close> is \<open>Pred\<close>, \<open>key\<close> is
  \<open>KeyOfValue\<close>. An iterator is the id of the node it points at, 0 for \<open>end()\<close>. The first four bytes
  of a node, which the allocator uses, are its \<open>next\<close>. A loop over a chain may not end; such an
  operation returns an option.
\<close>

section \<open>State\<close>

record 'v hnode =
  hn_next :: u32
  hn_val :: 'v

record ht_head =
  hth_magic :: u64
  hth_element_size :: u32
  hth_bucket_num :: u32

record 'v htable =
  ht_header :: ht_head
  ht_buckets :: "u32 rvec"
  ht_alloc :: "'v hnode ralloc"

definition ht_kMagic :: u64 where
  "ht_kMagic = 0x6d17ffb6f6d53d7e"

definition kPrimeList :: "nat list" where
  "kPrimeList = [53, 97, 193, 389, 769, 1543, 3079, 6151, 12289, 24593, 49157, 98317, 196613, 393241, 786433,
     1572869, 3145739, 6291469, 12582917, 25165843, 50331653, 100663319, 201326611, 402653189, 805306457,
     1610612741, 3221225473, 4294967291]"

section \<open>Creation\<close>

text \<open>The loop that picks the first prime that is large enough.\<close>

fun next_prime :: "nat list \<Rightarrow> nat \<Rightarrow> nat" where
  "next_prime [] n = n"
| "next_prime (p # ps) n = (if n \<le> p then p else next_prime ps n)"

definition estimate_buckets :: "nat \<Rightarrow> u64 \<Rightarrow> nat" where
  "estimate_buckets node_size len = next_prime kPrimeList (max (kPrimeList ! 0) (unat (2 * len) div (4 + 2 * node_size)))"

fun push_invalid :: "nat \<Rightarrow> u32 rvec \<Rightarrow> u32 rvec result" where
  "push_invalid 0 v = Inr v"
| "push_invalid (Suc n) v = rbind (rv_push_back v ra_kInvalidNodeID) (push_invalid n)"

text \<open>\<open>bcells\<close> and \<open>ncells\<close> are what the memory of the buckets and of the nodes holds.\<close>

definition ht_Create :: "nat \<Rightarrow> nat \<Rightarrow> nat \<Rightarrow> u64 \<Rightarrow> u64 \<Rightarrow> u32 list \<Rightarrow> 'v hnode list \<Rightarrow> 'v htable option result" where
  "ht_Create value_size node_size node_align data len bcells ncells =
     (let bucket_num = estimate_buckets node_size len;
          aligned_bucket_start = Align (data + 56);
          bucket_size = of_nat (bucket_num * 4) :: u64;
          p = aligned_bucket_start + bucket_size
      in if \<not> CheckAligned data then Inr None
         else if len < p - data then Inr None
         else (case rv_Create 4 4 True aligned_bucket_start bucket_size bcells of
             None \<Rightarrow> Inl AssertionFailed
           | Some b0 \<Rightarrow> require (rv_max_size b0 = bucket_num)
               (rbind (push_invalid bucket_num b0) (\<lambda>b1.
                 if data + len < Align p then Inr None
                 else (case ra_Create node_size node_align True (Align p) (data + len - Align p) ncells of
                     None \<Rightarrow> Inl AssertionFailed
                   | Some al \<Rightarrow> Inr (Some \<lparr>ht_header = \<lparr>hth_magic = ht_kMagic, hth_element_size = of_nat value_size,
                         hth_bucket_num = of_nat bucket_num\<rparr>, ht_buckets = b1, ht_alloc = al\<rparr>)))))) "

definition ht_Restore :: "nat \<Rightarrow> nat \<Rightarrow> nat \<Rightarrow> u64 \<Rightarrow> u64 \<Rightarrow> ht_head \<Rightarrow> rv_head \<Rightarrow> ra_head \<Rightarrow> u32 list \<Rightarrow> 'v hnode list \<Rightarrow>
    'v htable option" where
  "ht_Restore value_size node_size node_align data len header bheader aheader bcells ncells =
     (let aligned_bucket_start = Align (data + 56);
          bucket_size = ucast (hth_bucket_num header) * (4 :: u64);
          p = Align (aligned_bucket_start + bucket_size)
      in if \<not> CheckAligned data then None
         else if hth_magic header \<noteq> ht_kMagic \<or> unat (hth_element_size header) \<noteq> value_size \<or>
           unat (hth_bucket_num header) \<notin> set kPrimeList then None
         else if len < p - data then None
         else (case rv_Restore 4 4 True aligned_bucket_start bucket_size bheader bcells of
             None \<Rightarrow> None
           | Some b \<Rightarrow> (case ra_Restore node_size node_align True p (data + len - p) aheader ncells of
               None \<Rightarrow> None
             | Some al \<Rightarrow> Some \<lparr>ht_header = header, ht_buckets = b, ht_alloc = al\<rparr>)))"

section \<open>Reading\<close>

definition ht_size :: "'v htable \<Rightarrow> nat" where
  "ht_size t = ra_size (ht_alloc t)"

definition ht_empty :: "'v htable \<Rightarrow> bool" where
  "ht_empty t \<longleftrightarrow> ht_size t = 0"

definition ht_max_size :: "'v htable \<Rightarrow> nat" where
  "ht_max_size t = ra_max_size (ht_alloc t)"

definition bucket_count :: "'v htable \<Rightarrow> nat" where
  "bucket_count t = rv_size (ht_buckets t)"

definition bucket :: "('k \<Rightarrow> nat) \<Rightarrow> 'v htable \<Rightarrow> 'k \<Rightarrow> nat" where
  "bucket hash t k = hash k mod rv_size (ht_buckets t)"

definition node_of :: "'v hnode ralloc \<Rightarrow> u32 \<Rightarrow> 'v hnode result" where
  "node_of al i = rbind (ra_Get al i) (ra_load al)"

partial_function (option) bucket_size_loop :: "'v hnode ralloc \<Rightarrow> nat \<Rightarrow> u32 \<Rightarrow> nat result option" where
  [code]: "bucket_size_loop al num i =
     (if i = ra_kInvalidNodeID then Some (Inr num)
      else case node_of al i of Inl e \<Rightarrow> Some (Inl e) | Inr n \<Rightarrow> bucket_size_loop al (num + 1) (hn_next n))"

definition bucket_size :: "'v htable \<Rightarrow> nat \<Rightarrow> nat result option" where
  "bucket_size t n =
     (if n < bucket_count t
      then case rv_index (ht_buckets t) n of Inl e \<Rightarrow> Some (Inl e) | Inr i \<Rightarrow> bucket_size_loop (ht_alloc t) 0 i
      else Some (Inl AssertionFailed))"

text \<open>The search along a chain, the same loop in \<open>find\<close> and \<open>insert\<close>.\<close>

partial_function (option) chain_find :: "('k \<Rightarrow> 'k \<Rightarrow> bool) \<Rightarrow> ('v \<Rightarrow> 'k) \<Rightarrow> 'v hnode ralloc \<Rightarrow> 'k \<Rightarrow> u32 \<Rightarrow> u32 result option" where
  [code]: "chain_find eq key al k i =
     (if i = ra_kInvalidNodeID then Some (Inr i)
      else case node_of al i of
        Inl e \<Rightarrow> Some (Inl e)
      | Inr n \<Rightarrow> if eq (key (hn_val n)) k then Some (Inr i) else chain_find eq key al k (hn_next n))"

definition ht_find :: "('k \<Rightarrow> nat) \<Rightarrow> ('k \<Rightarrow> 'k \<Rightarrow> bool) \<Rightarrow> ('v \<Rightarrow> 'k) \<Rightarrow> 'v htable \<Rightarrow> 'k \<Rightarrow> u32 result option" where
  "ht_find hash eq key t k =
     (case rv_index (ht_buckets t) (bucket hash t k) of
        Inl e \<Rightarrow> Some (Inl e) | Inr i \<Rightarrow> chain_find eq key (ht_alloc t) k i)"

section \<open>Iterators\<close>

definition it_deref :: "'v htable \<Rightarrow> u32 \<Rightarrow> 'v result" where
  "it_deref t i = rbind (node_of (ht_alloc t) i) (\<lambda>n. Inr (hn_val n))"

text \<open>The loop over the buckets from an index on, to the first node there is.\<close>

fun first_node :: "'v htable \<Rightarrow> nat list \<Rightarrow> u32 result" where
  "first_node t [] = Inr ra_kInvalidNodeID"
| "first_node t (j # js) =
     rbind (rv_index (ht_buckets t) j) (\<lambda>i.
       if i \<noteq> ra_kInvalidNodeID then rbind (ra_Get (ht_alloc t) i) (\<lambda>p. Inr i) else first_node t js)"

definition ht_begin :: "'v htable \<Rightarrow> u32 result" where
  "ht_begin t = first_node t [0..<rv_size (ht_buckets t)]"

definition ht_end :: "'v htable \<Rightarrow> u32" where
  "ht_end t = ra_kInvalidNodeID"

definition it_next :: "('k \<Rightarrow> nat) \<Rightarrow> ('v \<Rightarrow> 'k) \<Rightarrow> 'v htable \<Rightarrow> u32 \<Rightarrow> u32 result" where
  "it_next hash key t i =
     rbind (node_of (ht_alloc t) i) (\<lambda>n.
       let bucket_index = bucket hash t (key (hn_val n)); next = hn_next n
       in if next \<noteq> ra_kInvalidNodeID then rbind (ra_Get (ht_alloc t) next) (\<lambda>p. Inr next)
          else first_node t [bucket_index + 1..<bucket_count t])"

text \<open>The operations of the constant iterators are written out again in the source.\<close>

definition cit_deref :: "'v htable \<Rightarrow> u32 \<Rightarrow> 'v result" where
  "cit_deref t i = rbind (node_of (ht_alloc t) i) (\<lambda>n. Inr (hn_val n))"

definition ht_cbegin :: "'v htable \<Rightarrow> u32 result" where
  "ht_cbegin t = first_node t [0..<rv_size (ht_buckets t)]"

definition cit_next :: "('k \<Rightarrow> nat) \<Rightarrow> ('v \<Rightarrow> 'k) \<Rightarrow> 'v htable \<Rightarrow> u32 \<Rightarrow> u32 result" where
  "cit_next hash key t i =
     rbind (node_of (ht_alloc t) i) (\<lambda>n.
       let bucket_index = bucket hash t (key (hn_val n)); next = hn_next n
       in if next \<noteq> ra_kInvalidNodeID then rbind (ra_Get (ht_alloc t) next) (\<lambda>p. Inr next)
          else first_node t [bucket_index + 1..<bucket_count t])"

section \<open>Changing\<close>

definition ht_insert :: "('k \<Rightarrow> nat) \<Rightarrow> ('k \<Rightarrow> 'k \<Rightarrow> bool) \<Rightarrow> ('v \<Rightarrow> 'k) \<Rightarrow> 'v htable \<Rightarrow> 'v \<Rightarrow> ((u32 \<times> bool) \<times> 'v htable) result option" where
  "ht_insert hash eq key t obj =
     (let b = bucket hash t (key obj)
      in case rv_index (ht_buckets t) b of
          Inl e \<Rightarrow> Some (Inl e)
        | Inr i0 \<Rightarrow> (case chain_find eq key (ht_alloc t) (key obj) i0 of
            None \<Rightarrow> None
          | Some (Inl e) \<Rightarrow> Some (Inl e)
          | Some (Inr j) \<Rightarrow>
              if j \<noteq> ra_kInvalidNodeID then Some (Inr ((j, False), t))
              else Some (rbind (Allocate hn_next (ht_alloc t)) (\<lambda>(i, al).
                rbind (ra_Get al i) (\<lambda>p.
                  rbind (ra_store (\<lambda>n. n\<lparr>hn_val := obj\<rparr>) p al) (\<lambda>al1.
                    rbind (rv_index (ht_buckets t) b) (\<lambda>head.
                      rbind (ra_store (\<lambda>n. n\<lparr>hn_next := head\<rparr>) p al1) (\<lambda>al2.
                        rbind (rv_assign (ht_buckets t) b i) (\<lambda>bs.
                          Inr ((i, True), t\<lparr>ht_buckets := bs, ht_alloc := al2\<rparr>))))))))))"

text \<open>Where \<open>prev\<close> points in \<open>erase\<close>.\<close>

datatype link_ref = BucketRef nat | NextRef u32

definition put_ref :: "link_ref \<Rightarrow> u32 \<Rightarrow> 'v htable \<Rightarrow> 'v htable result" where
  "put_ref r v t = (case r of
     BucketRef j \<Rightarrow> rbind (rv_assign (ht_buckets t) j v) (\<lambda>bs. Inr (t\<lparr>ht_buckets := bs\<rparr>))
   | NextRef i \<Rightarrow> rbind (ra_Get (ht_alloc t) i) (\<lambda>p.
       rbind (ra_store (\<lambda>n. n\<lparr>hn_next := v\<rparr>) p (ht_alloc t)) (\<lambda>al. Inr (t\<lparr>ht_alloc := al\<rparr>))))"

partial_function (option) ht_erase_loop :: "('k \<Rightarrow> 'k \<Rightarrow> bool) \<Rightarrow> ('v \<Rightarrow> 'k) \<Rightarrow> 'v htable \<Rightarrow> 'k \<Rightarrow> link_ref \<Rightarrow> u32 \<Rightarrow>
    (nat \<times> 'v htable) result option" where
  [code]: "ht_erase_loop eq key t k prev i =
     (if i = ra_kInvalidNodeID then Some (Inr (0, t))
      else case node_of (ht_alloc t) i of
        Inl e \<Rightarrow> Some (Inl e)
      | Inr n \<Rightarrow>
          if eq (key (hn_val n)) k
          then Some (rbind (put_ref prev (hn_next n) t) (\<lambda>t1.
            rbind (Deallocate (\<lambda>l n. n\<lparr>hn_next := l\<rparr>) (ht_alloc t1) i) (\<lambda>al. Inr (1, t1\<lparr>ht_alloc := al\<rparr>))))
          else ht_erase_loop eq key t k (NextRef i) (hn_next n))"

definition ht_erase :: "('k \<Rightarrow> nat) \<Rightarrow> ('k \<Rightarrow> 'k \<Rightarrow> bool) \<Rightarrow> ('v \<Rightarrow> 'k) \<Rightarrow> 'v htable \<Rightarrow> 'k \<Rightarrow> (nat \<times> 'v htable) result option" where
  "ht_erase hash eq key t k =
     (let b = bucket hash t k
      in case rv_index (ht_buckets t) b of
          Inl e \<Rightarrow> Some (Inl e) | Inr i \<Rightarrow> ht_erase_loop eq key t k (BucketRef b) i)"

definition ht_clear :: "'v htable \<Rightarrow> 'v htable" where
  "ht_clear t = t\<lparr>ht_buckets := (ht_buckets t)\<lparr>rv_cells :=
       map (\<lambda>x. ra_kInvalidNodeID) (take (rv_end (ht_buckets t)) (rv_cells (ht_buckets t))) @ drop (rv_end (ht_buckets t)) (rv_cells (ht_buckets t))\<rparr>,
     ht_alloc := ra_clear (ht_alloc t)\<rparr>"

section \<open>Chains\<close>

text \<open>A chain of nodes from a head on, as the list of their ids.\<close>

fun chain :: "'v hnode list \<Rightarrow> u32 \<Rightarrow> nat list \<Rightarrow> bool" where
  "chain cells h [] = (h = 0)"
| "chain cells h (i # is) = (h = of_nat i \<and> chain cells (hn_next (cells ! (i - 1))) is)"

lemma chain_cong: "(\<And>i. i \<in> set is \<Longrightarrow> hn_next (cells ! (i - 1)) = hn_next (cells' ! (i - 1))) \<Longrightarrow> chain cells h is = chain cells' h is"
  by (induction "is" arbitrary: h) auto

lemma node_of_fresh:
  assumes "ra_fresh cap n al" "0 < i" "i \<le> cap"
  shows "node_of al (of_nat i) = Inr (ra_cells al ! (i - 1))" "(of_nat i :: u32) \<noteq> 0" "unat (of_nat i :: u32) = i"
proof -
  have "i < 2 ^ 32" using assms by (simp add: ra_fresh_def)
  then show u: "unat (of_nat i :: u32) = i" by (intro unat_of_nat_small) simp
  show "(of_nat i :: u32) \<noteq> 0" using u assms(2) by (metis neq0_conv unat_0)
  show "node_of al (of_nat i) = Inr (ra_cells al ! (i - 1))"
    using assms ra_Get_fresh [OF assms] ra_freshD(3) [OF assms(1)] by (simp add: node_of_def ra_load_def)
qed

lemma chain_find_chain:
  assumes "ra_fresh cap n al" "chain (ra_cells al) h is" "\<forall>i\<in>set is. 0 < i \<and> i \<le> cap"
  shows "chain_find (=) key al k h =
    Some (Inr (case find (\<lambda>i. key (hn_val (ra_cells al ! (i - 1))) = k) is of None \<Rightarrow> 0 | Some i \<Rightarrow> of_nat i))"
  using assms(2,3)
proof (induction "is" arbitrary: h)
  case Nil
  then show ?case by (subst chain_find.simps) (simp add: ra_kInvalidNodeID_def)
next
  case (Cons i "is")
  have i: "0 < i" "i \<le> cap" using Cons.prems(2) by auto
  note n = node_of_fresh [OF assms(1) i]
  show ?case using Cons n by (subst chain_find.simps) (simp add: ra_kInvalidNodeID_def)
qed

text \<open>
  When nothing has been erased, node \<open>i\<close> holds the \<open>i\<close>-th value that was inserted, and the chain of a
  bucket is the values that hash to it, the last one first.
\<close>

definition bucket_ids :: "('v \<Rightarrow> nat) \<Rightarrow> 'v list \<Rightarrow> nat \<Rightarrow> nat list" where
  "bucket_ids bk vs j = rev (filter (\<lambda>i. bk (vs ! (i - 1)) = j) [1..<Suc (length vs)])"

lemma bucket_ids_snoc: "bucket_ids bk (vs @ [v]) j = (if bk v = j then [Suc (length vs)] else []) @ bucket_ids bk vs j"
proof -
  have "filter (\<lambda>i. bk ((vs @ [v]) ! (i - 1)) = j) [1..<Suc (length vs)] = filter (\<lambda>i. bk (vs ! (i - 1)) = j) [1..<Suc (length vs)]"
    by (rule filter_cong) (auto simp: nth_append)
  then show ?thesis by (simp add: bucket_ids_def)
qed

lemma bucket_ids_Nil [simp]: "bucket_ids bk [] j = []"
  by (simp add: bucket_ids_def)

lemma set_bucket_ids: "set (bucket_ids bk vs j) = {i. 0 < i \<and> i \<le> length vs \<and> bk (vs ! (i - 1)) = j}"
  by (auto simp: bucket_ids_def simp del: upt_Suc)

lemma bucket_ids_bound: "i \<in> set (bucket_ids bk vs j) \<Longrightarrow> 0 < i \<and> i \<le> length vs \<and> bk (vs ! (i - 1)) = j"
  by (simp add: set_bucket_ids)

lemma find_bucket_ids:
  assumes "distinct (map key vs)" "bk = (\<lambda>v. b (key v))"
  shows "case find (\<lambda>i. key (vs ! (i - 1)) = k) (bucket_ids bk vs (b k)) of
      None \<Rightarrow> find (\<lambda>w. key w = k) vs = None
    | Some i \<Rightarrow> 0 < i \<and> i \<le> length vs \<and> find (\<lambda>w. key w = k) vs = Some (vs ! (i - 1))"
proof (cases "find (\<lambda>i. key (vs ! (i - 1)) = k) (bucket_ids bk vs (b k))")
  case None
  have "key w \<noteq> k" if w: "w \<in> set vs" for w
  proof
    assume k: "key w = k"
    obtain m where m: "m < length vs" "vs ! m = w" using w by (auto simp: in_set_conv_nth)
    then have "Suc m \<in> set (bucket_ids bk vs (b k))" using k assms(2) by (simp add: set_bucket_ids)
    with None m k show False by (auto simp: find_None_iff)
  qed
  then have "find (\<lambda>w. key w = k) vs = None" by (auto simp: find_None_iff)
  with None show ?thesis by simp
next
  case (Some i)
  then have i: "i \<in> set (bucket_ids bk vs (b k))" "key (vs ! (i - 1)) = k" by (auto simp: find_Some_iff)
  then have b: "0 < i" "i \<le> length vs" using bucket_ids_bound by blast+
  have "find (\<lambda>w. key w = k) vs = Some (vs ! (i - 1))"
  proof -
    have "\<forall>m < i - 1. key (vs ! m) \<noteq> k"
    proof (intro allI impI notI)
      fix m assume m: "m < i - 1" "key (vs ! m) = k"
      then have "map key vs ! m = map key vs ! (i - 1)" using b i(2) by simp
      moreover have "i - 1 < length (map key vs)" "m < length (map key vs)" "m \<noteq> i - 1" using m(1) b by auto
      ultimately show False using nth_eq_iff_index_eq [OF assms(1), of m "i - 1"] by blast
    qed
    then show ?thesis using i(2) b by (auto simp: find_Some_iff intro!: exI [of _ "i - 1"])
  qed
  with Some b show ?thesis by simp
qed

section \<open>The table as a dictionary\<close>

definition ht_rep :: "('k \<Rightarrow> nat) \<Rightarrow> ('v \<Rightarrow> 'k) \<Rightarrow> u64 \<Rightarrow> nat \<Rightarrow> nat \<Rightarrow> 'v htable \<Rightarrow> 'v list \<Rightarrow> bool" where
  "ht_rep hash key start B cap t vs \<longleftrightarrow> 0 < B \<and>
     ra_fresh cap (length vs) (ht_alloc t) \<and> map hn_val (take (length vs) (ra_cells (ht_alloc t))) = vs \<and> distinct (map key vs) \<and>
     (\<exists>heads. length heads = B \<and> rv_rep 4 start B (ht_buckets t) heads \<and>
       (\<forall>j<B. chain (ra_cells (ht_alloc t)) (heads ! j) (bucket_ids (\<lambda>v. hash (key v) mod B) vs j)))"

lemma ht_repE:
  assumes "ht_rep hash key start B cap t vs"
  obtains heads where "length heads = B" "rv_rep 4 start B (ht_buckets t) heads" "0 < B"
    "ra_fresh cap (length vs) (ht_alloc t)" "map hn_val (take (length vs) (ra_cells (ht_alloc t))) = vs" "distinct (map key vs)"
    "\<And>j. j < B \<Longrightarrow> chain (ra_cells (ht_alloc t)) (heads ! j) (bucket_ids (\<lambda>v. hash (key v) mod B) vs j)"
    "\<And>k. bucket hash t k = hash k mod B" "\<And>k. rv_index (ht_buckets t) (hash k mod B) = Inr (heads ! (hash k mod B))"
proof -
  obtain heads where h: "length heads = B" "rv_rep 4 start B (ht_buckets t) heads"
    "\<forall>j<B. chain (ra_cells (ht_alloc t)) (heads ! j) (bucket_ids (\<lambda>v. hash (key v) mod B) vs j)" "0 < B"
    using assms unfolding ht_rep_def by blast
  have "bucket hash t k = hash k mod B" for k using rv_repD(1) [OF h(2)] h(1) by (simp add: bucket_def)
  moreover have "rv_index (ht_buckets t) (hash k mod B) = Inr (heads ! (hash k mod B))" for k
    using rv_index_rep [OF h(2)] h(1,4) by simp
  ultimately show thesis using that h assms unfolding ht_rep_def by blast
qed

lemma ht_value:
  assumes "map hn_val (take (length vs) cells) = vs" "0 < i" "i \<le> length vs"
  shows "hn_val (cells ! (i - 1)) = vs ! (i - 1)"
proof -
  have "vs ! (i - 1) = map hn_val (take (length vs) cells) ! (i - 1)" using assms(1) by simp
  moreover have "length (take (length vs) cells) = length vs" using assms(1) by (metis length_map)
  ultimately show ?thesis using assms(2,3) by simp
qed

lemma chain_find_rep:
  assumes "ht_rep hash key start B cap t vs" "rv_index (ht_buckets t) (bucket hash t k) = Inr h"
  shows "\<exists>i. chain_find (=) key (ht_alloc t) k h = Some (Inr i) \<and>
    (case find (\<lambda>w. key w = k) vs of None \<Rightarrow> i = 0 | Some w \<Rightarrow> i \<noteq> 0 \<and> it_deref t i = Inr w)"
proof -
  obtain heads where r: "length heads = B" "rv_rep 4 start B (ht_buckets t) heads" "0 < B"
    "ra_fresh cap (length vs) (ht_alloc t)" "map hn_val (take (length vs) (ra_cells (ht_alloc t))) = vs" "distinct (map key vs)"
    "\<And>j. j < B \<Longrightarrow> chain (ra_cells (ht_alloc t)) (heads ! j) (bucket_ids (\<lambda>v. hash (key v) mod B) vs j)"
    "\<And>k. bucket hash t k = hash k mod B" "\<And>k. rv_index (ht_buckets t) (hash k mod B) = Inr (heads ! (hash k mod B))"
    by (rule ht_repE [OF assms(1)]) blast
  let ?cells = "ra_cells (ht_alloc t)" and ?ids = "bucket_ids (\<lambda>v. hash (key v) mod B) vs (hash k mod B)"
  have h: "h = heads ! (hash k mod B)" using assms(2) r(8,9) by simp
  have bound: "\<forall>i\<in>set ?ids. 0 < i \<and> i \<le> cap" using bucket_ids_bound ra_freshD(4) [OF r(4)] by (metis le_trans)
  have "chain ?cells h ?ids" using r(3,7) h by simp
  from chain_find_chain [OF r(4) this bound]
  have find: "chain_find (=) key (ht_alloc t) k h = Some (Inr (case find (\<lambda>i. key (hn_val (?cells ! (i - 1))) = k) ?ids of None \<Rightarrow> 0 | Some i \<Rightarrow> of_nat i))" .
  have "find (\<lambda>i. key (hn_val (?cells ! (i - 1))) = k) ?ids = find (\<lambda>i. key (vs ! (i - 1)) = k) ?ids"
  proof (rule find_cong [OF refl])
    fix i assume "i \<in> set ?ids"
    then have "0 < i" "i \<le> length vs" using bucket_ids_bound by blast+
    then show "(key (hn_val (?cells ! (i - 1))) = k) = (key (vs ! (i - 1)) = k)" using ht_value [OF r(5)] by simp
  qed
  note find = find [unfolded this]
  note fb = find_bucket_ids [OF r(6), of "\<lambda>v. hash (key v) mod B" "\<lambda>k. hash k mod B" k, OF refl]
  show ?thesis
  proof (cases "find (\<lambda>i. key (vs ! (i - 1)) = k) ?ids")
    case None
    with find fb show ?thesis by simp
  next
    case (Some i)
    with fb have i: "0 < i" "i \<le> length vs" "find (\<lambda>w. key w = k) vs = Some (vs ! (i - 1))" by simp_all
    have "i \<le> cap" using i(2) ra_freshD(4) [OF r(4)] by simp
    note n = node_of_fresh [OF r(4) i(1) this]
    have "it_deref t (of_nat i) = Inr (vs ! (i - 1))" using n(1) ht_value [OF r(5) i(1,2)] by (simp add: it_deref_def)
    with find Some i(3) n(2) show ?thesis by simp
  qed
qed

lemma ht_insert_found:
  assumes "ht_rep hash key start B cap t vs" "find (\<lambda>w. key w = key v) vs = Some w"
  shows "\<exists>i. ht_insert hash (=) key t v = Some (Inr ((i, False), t)) \<and> it_deref t i = Inr w"
proof -
  obtain heads where r: "\<And>k. bucket hash t k = hash k mod B" "\<And>k. rv_index (ht_buckets t) (hash k mod B) = Inr (heads ! (hash k mod B))"
    by (rule ht_repE [OF assms(1)]) blast
  have idx: "rv_index (ht_buckets t) (bucket hash t (key v)) = Inr (heads ! (hash (key v) mod B))" using r by simp
  from chain_find_rep [OF assms(1) idx] assms(2) show ?thesis
    by (auto simp: ht_insert_def Let_def idx ra_kInvalidNodeID_def)
qed

lemma chain_insert:
  assumes "chain cells (heads ! j) (bucket_ids bk vs j)" "j < length heads" "length vs < length cells"
    and "cells' = cells[length vs := (cells ! length vs)\<lparr>hn_val := v, hn_next := heads ! bk v\<rparr>]"
  shows "chain cells' (heads[bk v := of_nat (Suc (length vs))] ! j) (bucket_ids bk (vs @ [v]) j)"
proof -
  have old: "chain cells' (heads ! j) (bucket_ids bk vs j)"
  proof (subst chain_cong [of _ _ cells])
    fix i assume "i \<in> set (bucket_ids bk vs j)"
    then have "i - 1 \<noteq> length vs" using bucket_ids_bound by fastforce
    then show "hn_next (cells' ! (i - 1)) = hn_next (cells ! (i - 1))" using assms(4) by simp
  qed (rule assms(1))
  then show ?thesis using assms(2-4) by (cases "j = bk v") (auto simp: bucket_ids_snoc)
qed

lemma ht_insert_new:
  assumes "ht_rep hash key start B cap t vs" "find (\<lambda>w. key w = key v) vs = None"
  shows "length vs < cap \<Longrightarrow> \<exists>i u. ht_insert hash (=) key t v = Some (Inr ((i, True), u)) \<and> it_deref u i = Inr v \<and>
      ht_rep hash key start B cap u (vs @ [v])"
    "\<not> length vs < cap \<Longrightarrow> ht_insert hash (=) key t v = Some (Inl BadAlloc)"
proof -
  obtain heads where r: "length heads = B" "rv_rep 4 start B (ht_buckets t) heads" "0 < B"
    "ra_fresh cap (length vs) (ht_alloc t)" "map hn_val (take (length vs) (ra_cells (ht_alloc t))) = vs" "distinct (map key vs)"
    "\<And>j. j < B \<Longrightarrow> chain (ra_cells (ht_alloc t)) (heads ! j) (bucket_ids (\<lambda>v. hash (key v) mod B) vs j)"
    "\<And>k. bucket hash t k = hash k mod B" "\<And>k. rv_index (ht_buckets t) (hash k mod B) = Inr (heads ! (hash k mod B))"
    by (rule ht_repE [OF assms(1)]) blast
  let ?cells = "ra_cells (ht_alloc t)" and ?b = "hash (key v) mod B" and ?bk = "\<lambda>v. hash (key v) mod B" and ?n = "length vs"
  have b: "?b < B" using r(3) by simp
  have idx: "rv_index (ht_buckets t) (bucket hash t (key v)) = Inr (heads ! ?b)" using r(8,9) by simp
  have find: "chain_find (=) key (ht_alloc t) (key v) (heads ! ?b) = Some (Inr 0)"
    using chain_find_rep [OF assms(1) idx] assms(2) by simp
  show "ht_insert hash (=) key t v = Some (Inl BadAlloc)" if "\<not> ?n < cap"
    using that Allocate_fresh(2) [OF r(4)] ra_freshD(4) [OF r(4)] find idx by (simp add: ht_insert_def Let_def ra_kInvalidNodeID_def)
  assume lt: "?n < cap"
  obtain al where al: "Allocate hn_next (ht_alloc t) = Inr (of_nat (Suc ?n), al)" "ra_fresh cap (Suc ?n) al" "ra_cells al = ?cells"
    using Allocate_fresh(1) [OF r(4) lt] by blast
  have get: "ra_Get al (of_nat (Suc ?n)) = Inr ?n" using ra_Get_fresh [OF al(2), of "Suc ?n"] lt by simp
  obtain al1 where al1: "ra_store (\<lambda>n. n\<lparr>hn_val := v\<rparr>) ?n al = Inr al1" "ra_fresh cap (Suc ?n) al1"
    "ra_cells al1 = ?cells[?n := (?cells ! ?n)\<lparr>hn_val := v\<rparr>]"
    using ra_store_fresh [OF al(2) lt, of "\<lambda>n. n\<lparr>hn_val := v\<rparr>"] al(3) by auto
  have len: "length ?cells = cap" by (rule ra_freshD(3) [OF r(4)])
  obtain al2 where al2: "ra_store (\<lambda>n. n\<lparr>hn_next := heads ! ?b\<rparr>) ?n al1 = Inr al2" "ra_fresh cap (Suc ?n) al2"
    "ra_cells al2 = ?cells[?n := (?cells ! ?n)\<lparr>hn_val := v, hn_next := heads ! ?b\<rparr>]"
    using ra_store_fresh [OF al1(2) lt, of "\<lambda>n. n\<lparr>hn_next := heads ! ?b\<rparr>"] al1(3) lt len by auto
  obtain bs where bs: "rv_assign (ht_buckets t) ?b (of_nat (Suc ?n)) = Inr bs" "rv_rep 4 start B bs (heads[?b := of_nat (Suc ?n)])"
    using rv_assign_rep [OF r(2)] b r(1) by metis
  let ?u = "t\<lparr>ht_buckets := bs, ht_alloc := al2\<rparr>"
  have ins: "ht_insert hash (=) key t v = Some (Inr ((of_nat (Suc ?n), True), ?u))"
    using find idx al(1) get al1(1) al2(1) bs(1) r(8) by (simp add: ht_insert_def Let_def ra_kInvalidNodeID_def)
  have deref: "it_deref ?u (of_nat (Suc ?n)) = Inr v"
    using node_of_fresh(1) [OF al2(2), of "Suc ?n"] lt al2(3) len by (simp add: it_deref_def)
  have ch: "chain (ra_cells al2) (heads[?b := of_nat (Suc ?n)] ! j) (bucket_ids ?bk (vs @ [v]) j)" if "j < B" for j
    by (rule chain_insert [where bk = ?bk, OF r(7) [OF that]]) (use that r(1) lt len al2(3) in simp_all)
  have vals: "map hn_val (take (Suc ?n) (ra_cells al2)) = vs @ [v]"
    using al2(3) lt len r(5) by (simp add: take_Suc_conv_app_nth)
  have dist: "distinct (map key (vs @ [v]))" using r(6) assms(2) by (auto simp: find_None_iff)
  have "ht_rep hash key start B cap ?u (vs @ [v])"
    unfolding ht_rep_def using r(1,3) al2(2) vals dist bs(2) ch by (auto intro!: exI [of _ "heads[?b := of_nat (Suc ?n)]"])
  with ins deref show "\<exists>i u. ht_insert hash (=) key t v = Some (Inr ((i, True), u)) \<and> it_deref u i = Inr v \<and>
      ht_rep hash key start B cap u (vs @ [v])" by blast
qed

lemma ht_clear_rep:
  assumes "ht_rep hash key start B cap t vs"
  shows "ht_rep hash key start B cap (ht_clear t) []"
proof -
  obtain heads where r: "length heads = B" "rv_rep 4 start B (ht_buckets t) heads" "0 < B" "ra_fresh cap (length vs) (ht_alloc t)"
    by (rule ht_repE [OF assms]) blast
  note v = rv_repD [OF r(2)]
  have "rv_rep 4 start B (ht_buckets (ht_clear t)) (replicate B 0)"
    using r(1,2) v(1,3) by (simp add: ht_clear_def rv_rep_def rv_end_def ra_kInvalidNodeID_def map_replicate_const)
  moreover have "ra_fresh cap 0 (ht_alloc (ht_clear t))" using ra_clear_fresh [OF r(4)] by (simp add: ht_clear_def)
  ultimately show ?thesis using r(3) by (auto simp: ht_rep_def intro!: exI [of _ "replicate B 0"])
qed

text \<open>
  What a client sees of an insertion and of a search: the value its iterator points at.
\<close>

definition ht_ins :: "('k \<Rightarrow> nat) \<Rightarrow> ('k \<Rightarrow> 'k \<Rightarrow> bool) \<Rightarrow> ('v \<Rightarrow> 'k) \<Rightarrow> 'v htable \<Rightarrow> 'v \<Rightarrow> ((bool \<times> 'v) \<times> 'v htable) result" where
  "ht_ins hash eq key t v = rbind (ended (ht_insert hash eq key t v)) (\<lambda>((i, b), u). rbind (it_deref u i) (\<lambda>w. Inr ((b, w), u)))"

definition ht_look :: "('k \<Rightarrow> nat) \<Rightarrow> ('k \<Rightarrow> 'k \<Rightarrow> bool) \<Rightarrow> ('v \<Rightarrow> 'k) \<Rightarrow> 'v htable \<Rightarrow> 'k \<Rightarrow> 'v option result" where
  "ht_look hash eq key t k =
     rbind (ended (ht_find hash eq key t k)) (\<lambda>i. if i = ht_end t then Inr None else rbind (it_deref t i) (\<lambda>w. Inr (Some w)))"

lemma ht_look_rep:
  assumes "ht_rep hash key start B cap t vs"
  shows "ht_look hash (=) key t k = Inr (find (\<lambda>w. key w = k) vs)"
proof -
  obtain heads where r: "\<And>k. bucket hash t k = hash k mod B" "\<And>k. rv_index (ht_buckets t) (hash k mod B) = Inr (heads ! (hash k mod B))"
    by (rule ht_repE [OF assms]) blast
  have idx: "rv_index (ht_buckets t) (bucket hash t k) = Inr (heads ! (hash k mod B))" using r by simp
  from chain_find_rep [OF assms idx] show ?thesis
    by (auto simp: ht_look_def ht_find_def idx ended_def ht_end_def ra_kInvalidNodeID_def split: option.splits)
qed

definition ht_step :: "('k \<Rightarrow> nat) \<Rightarrow> ('k \<Rightarrow> 'k \<Rightarrow> bool) \<Rightarrow> ('v \<Rightarrow> 'k) \<Rightarrow> ('k, 'v) dict_op \<Rightarrow> 'v htable \<Rightarrow> ('v dict_reply \<times> 'v htable) result" where
  "ht_step hash eq key = dict_step (ht_ins hash eq key) (ht_look hash eq key) ht_size ht_clear"

interpretation rht: dictionary "ht_rep hash key start B" key "ht_ins hash (=) key" "ht_look hash (=) key" ht_size ht_clear
  for hash key start B
proof unfold_locales
  fix cap t vs v w k
  assume rep: "ht_rep hash key start B cap t vs"
  show "ht_ins hash (=) key t v = Inr ((False, w), t)" if "find (\<lambda>w. key w = key v) vs = Some w"
    using ht_insert_found [OF rep that] by (auto simp: ht_ins_def ended_def)
  show "\<exists>u. ht_ins hash (=) key t v = Inr ((True, v), u) \<and> ht_rep hash key start B cap u (vs @ [v])"
    if "find (\<lambda>w. key w = key v) vs = None" "length vs < cap"
    using ht_insert_new(1) [OF rep that] by (auto simp: ht_ins_def ended_def)
  show "ht_ins hash (=) key t v = Inl BadAlloc" if "find (\<lambda>w. key w = key v) vs = None" "\<not> length vs < cap"
    using ht_insert_new(2) [OF rep that] by (simp add: ht_ins_def ended_def)
  show "ht_look hash (=) key t k = Inr (find (\<lambda>w. key w = k) vs)" by (rule ht_look_rep [OF rep])
  show "ht_size t = length vs" using ra_freshD(1) rep unfolding ht_rep_def ht_size_def by blast
  show "ht_rep hash key start B cap (ht_clear t) []" by (rule ht_clear_rep [OF rep])
qed

section \<open>Making a table\<close>

lemma next_prime_ge: "n \<le> next_prime ps n"
  by (induction ps) simp_all

lemma estimate_buckets_pos: "0 < estimate_buckets node_size len"
  using next_prime_ge [of "max (kPrimeList ! 0) (unat (2 * len) div (4 + 2 * node_size))" kPrimeList]
  by (auto simp: estimate_buckets_def kPrimeList_def simp del: next_prime.simps)

lemma push_invalid_rep:
  "rv_rep ts start cap v xs \<Longrightarrow> length xs + n \<le> cap \<Longrightarrow> \<exists>w. push_invalid n v = Inr w \<and> rv_rep ts start cap w (xs @ replicate n 0)"
proof (induction n arbitrary: v xs)
  case 0
  then show ?case by simp
next
  case (Suc n)
  obtain w where "rv_push_back v 0 = Inr w" "rv_rep ts start cap w (xs @ [0])"
    using rv_push_back_rep(1) [OF Suc.prems(1), of 0] Suc.prems(2) by auto
  with Suc.IH [of w "xs @ [0]"] Suc.prems(2) show ?case by (auto simp: ra_kInvalidNodeID_def)
qed

lemma push_invalid_destroy: "push_invalid n v = Inr w \<Longrightarrow> rv_destroy w = rv_destroy v"
  by (induction n arbitrary: v) (fastforce simp: rbind_eq_Inr rv_push_back_def split: if_splits)+

text \<open>The offset of the nodes in the region.\<close>

definition nodes_offset :: "nat \<Rightarrow> nat" where
  "nodes_offset B = (64 + B * 4 + 15) div 16 * 16"

lemma table_layout:
  assumes "CheckAligned data" "unat data + unat len + 200 < 2 ^ 64" "nodes_offset B \<le> unat len"
  shows "Align (data + 56) = data + 64" "unat (data + 64) = unat data + 64" "CheckAligned (data + 64)"
    "unat (of_nat (B * 4) :: u64) = B * 4" "unat (data + 64 + of_nat (B * 4) - data) = 64 + B * 4"
    "unat (Align (data + 64 + of_nat (B * 4))) = unat data + nodes_offset B" "CheckAligned (Align (data + 64 + of_nat (B * 4)))"
    "unat (data + len) = unat data + unat len"
proof -
  obtain m where m: "unat data = 16 * m" using assms(1) by (auto simp: CheckAligned_iff)
  have off: "64 + B * 4 \<le> nodes_offset B" "nodes_offset B < 64 + B * 4 + 16" unfolding nodes_offset_def by linarith+
  have u: "unat (data + 56) = unat data + 56" "unat (data + 64) = unat data + 64" using assms(2) by (simp_all add: unat_word_ariths)
  show "unat (data + 64) = unat data + 64" by (rule u(2))
  have "unat (Align (data + 56)) = (unat data + 71) div 16 * 16" using unat_Align [of "data + 56"] u(1) assms(2) by simp
  also have "\<dots> = unat data + 64" unfolding m by simp
  finally show "Align (data + 56) = data + 64" using u(2) by (simp add: word_unat_eq_iff)
  show "CheckAligned (data + 64)" using u(2) m by (simp add: CheckAligned_iff)
  show B: "unat (of_nat (B * 4) :: u64) = B * 4" using assms(2,3) off by (intro unat_of_nat_small) simp
  have p: "unat (data + 64 + of_nat (B * 4)) = unat data + 64 + B * 4"
    using assms(2,3) off u(2) B by (simp add: unat_word_ariths)
  have "data + 64 + of_nat (B * 4) - data = 64 + of_nat (B * 4)" by simp
  moreover have "unat (64 + of_nat (B * 4) :: u64) = 64 + B * 4" using assms(2,3) off B by (simp add: unat_word_ariths)
  ultimately show "unat (data + 64 + of_nat (B * 4) - data) = 64 + B * 4" by metis
  have "unat (Align (data + 64 + of_nat (B * 4))) = (unat data + 64 + B * 4 + 15) div 16 * 16"
    using unat_Align [of "data + 64 + of_nat (B * 4)"] p assms(2,3) off by simp
  also have "unat data + 64 + B * 4 + 15 = m * 16 + (64 + B * 4 + 15)" unfolding m by simp
  also have "\<dots> div 16 * 16 = unat data + nodes_offset B"
    unfolding m nodes_offset_def div_mult_self3 [OF zero_neq_numeral [symmetric]] by (simp add: add_mult_distrib)
  finally show a: "unat (Align (data + 64 + of_nat (B * 4))) = unat data + nodes_offset B" .
  then show "CheckAligned (Align (data + 64 + of_nat (B * 4)))" using m by (simp add: CheckAligned_iff nodes_offset_def)
  show "unat (data + len) = unat data + unat len" using assms(2) by (simp add: unat_word_ariths)
qed

lemma ra_data_start_aligned:
  assumes "CheckAligned p" "ta dvd 16" "unat p + 16 < 2 ^ 64"
  shows "ra_data_start ta True p = p"
proof -
  have "ta \<le> 16" using assms(2) by (rule dvd_imp_le) simp
  then show ?thesis unfolding ra_data_start_def using Align_to_aligned [OF assms(1,2)] assms(3) by simp
qed

lemma ra_Create_aligned:
  assumes "CheckAligned p" "ta dvd 16" "unat p + unat len + 16 < 2 ^ 64" "cap = unat len div ts" "0 < cap" "cap < 2 ^ 32 - 1" "length cells = cap"
  shows "ra_data_start ta True p = p" "unat (p + len - p) div ts = cap"
    "\<exists>al. ra_Create ts ta True p len cells = Some al \<and> ra_fresh cap 0 al \<and> ra_cells al = cells \<and> ra_start al = p \<and>
       rah_magic (ra_header al) = ra_kMagic \<and> rah_element_size (ra_header al) = of_nat ts"
proof -
  show start: "ra_data_start ta True p = p" by (rule ra_data_start_aligned [OF assms(1,2)]) (use assms(3) in simp)
  show m: "unat (p + len - p) div ts = cap" using assms(4) by simp
  have u: "unat (of_nat cap :: u32) = cap" using assms(6) by (intro unat_of_nat_small) simp
  then have "(1 :: u32) \<le> of_nat cap" using assms(5) by (simp add: word_le_nat_alt)
  then have "min (of_nat cap) (1 :: u32) = 1" by simp
  then show "\<exists>al. ra_Create ts ta True p len cells = Some al \<and> ra_fresh cap 0 al \<and> ra_cells al = cells \<and> ra_start al = p \<and>
       rah_magic (ra_header al) = ra_kMagic \<and> rah_element_size (ra_header al) = of_nat ts"
    using assms(1,5-7) start m by (simp add: ra_Create_def Let_def ra_fresh_def ra_kInvalidNodeID_def)
qed

text \<open>What no operation but creation changes.\<close>

definition ra_const :: "'a ralloc \<Rightarrow> u64 \<times> u64 \<times> u32" where
  "ra_const al = (ra_start al, rah_magic (ra_header al), rah_element_size (ra_header al))"

definition ht_const :: "'v htable \<Rightarrow> ht_head \<times> (u32 \<Rightarrow> u32) option \<times> u64 \<times> u64 \<times> u32" where
  "ht_const t = (ht_header t, rv_destroy (ht_buckets t), ra_const (ht_alloc t))"

lemma ht_Create_rep:
  assumes "CheckAligned data" "unat data + unat len + 200 < 2 ^ 64" "B = estimate_buckets node_size len" "B < 2 ^ 32"
    and "nodes_offset B \<le> unat len" "cap = (unat len - nodes_offset B) div node_size" "0 < cap" "cap < 2 ^ 32 - 1"
    and "node_align dvd 16" "length bcells = B" "length ncells = cap"
  obtains t where "ht_Create value_size node_size node_align data len bcells ncells = Inr (Some t)"
    "ht_rep hash key (data + 64) B cap t []"
    "ht_const t = (\<lparr>hth_magic = ht_kMagic, hth_element_size = of_nat value_size, hth_bucket_num = of_nat B\<rparr>, None,
       Align (data + 64 + of_nat (B * 4)), ra_kMagic, of_nat node_size)"
proof -
  note l = table_layout [OF assms(1,2,5)]
  let ?p = "Align (data + 64 + of_nat (B * 4))" and ?bs = "of_nat (B * 4) :: u64"
  have off: "64 + B * 4 \<le> nodes_offset B" unfolding nodes_offset_def by linarith
  have fits: "unat (data + 64) + unat ?bs + 40 < 2 ^ 64" using l(2,4) off assms(2,5) by simp
  obtain b0 where "rv_Create 4 4 True (data + 64) ?bs bcells = Some b0" "rv_rep 4 (data + 64 + of_nat 0) B b0 []"
    by (rule rv_Create_rep [OF l(3), of 4 ?bs 4 2 0 True B bcells]) (use fits l(4) assms(4,10) in simp_all)
  then have b0: "rv_Create 4 4 True (data + 64) ?bs bcells = Some b0" "rv_rep 4 (data + 64) B b0 []" by simp_all
  obtain b1 where b1: "push_invalid B b0 = Inr b1" "rv_rep 4 (data + 64) B b1 (replicate B 0)"
    using push_invalid_rep [OF b0(2), of B] by auto
  have dest: "rv_destroy b1 = None" using push_invalid_destroy [OF b1(1)] b0(1) by (auto simp: rv_Create_def Let_def split: if_splits)
  have sub: "unat (data + len - ?p) = unat len - nodes_offset B"
    using l(6,8) assms(5) by (simp add: unat_sub word_le_nat_alt)
  have "\<exists>al. ra_Create node_size node_align True ?p (data + len - ?p) ncells = Some al \<and> ra_fresh cap 0 al \<and> ra_cells al = ncells \<and> ra_start al = ?p \<and>
       rah_magic (ra_header al) = ra_kMagic \<and> rah_element_size (ra_header al) = of_nat node_size"
    by (rule ra_Create_aligned(3) [OF l(7) assms(9)]) (use l(6) sub assms in simp_all)
  then obtain al where al: "ra_Create node_size node_align True ?p (data + len - ?p) ncells = Some al" "ra_fresh cap 0 al"
    "ra_const al = (?p, ra_kMagic, of_nat node_size)" by (auto simp: ra_const_def)
  let ?t = "\<lparr>ht_header = \<lparr>hth_magic = ht_kMagic, hth_element_size = of_nat value_size, hth_bucket_num = of_nat B\<rparr>, ht_buckets = b1, ht_alloc = al\<rparr>"
  have "\<not> len < data + 64 + ?bs - data" "\<not> data + len < ?p" using l(5,6,8) off assms(5) by (simp_all add: word_less_nat_alt)
  then have "ht_Create value_size node_size node_align data len bcells ncells = Inr (Some ?t)"
    using assms(1) l(1) b0(1) b1(1) al(1) rv_repD(2) [OF b0(2)] unfolding ht_Create_def assms(3) [symmetric] by (simp add: rv_max_size_def)
  moreover have "ht_rep hash key (data + 64) B cap ?t []"
    using al(2) b1(2) estimate_buckets_pos [of node_size len] assms(3) by (auto simp: ht_rep_def intro!: exI [of _ "replicate B 0"])
  ultimately show thesis using that al(3) dest by (simp add: ht_const_def)
qed

lemma Allocate_const: "Allocate link al = Inr (i, al1) \<Longrightarrow> ra_const al1 = ra_const al"
  by (auto simp: Allocate_def rbind_eq_Inr set_ra_header_def ra_const_def split: if_splits)

lemma ra_store_const: "ra_store g p al = Inr al1 \<Longrightarrow> ra_const al1 = ra_const al"
  by (auto simp: ra_store_def ra_const_def split: if_splits)

lemma rv_assign_destroy: "rv_assign v i x = Inr w \<Longrightarrow> rv_destroy w = rv_destroy v"
  by (auto simp: rv_assign_def require_eq_Inr split: if_splits)

lemma ht_insert_const:
  assumes "ht_insert hash eq key t v = Some (Inr (x, u))"
  shows "ht_const u = ht_const t"
  using assms
  by (auto simp: ht_insert_def Let_def rbind_eq_Inr ht_const_def split: sum.splits option.splits if_splits
      dest!: Allocate_const ra_store_const rv_assign_destroy)

lemma ht_step_const: "ht_step hash eq key p t = Inr (r, u) \<Longrightarrow> ht_const u = ht_const t"
  by (cases p)
    (auto simp: ht_step_def ht_ins_def ended_def rbind_eq_Inr ht_clear_def ht_const_def ra_clear_def set_ra_header_def ra_const_def
      split: option.splits dest!: ht_insert_const [unfolded ht_const_def ra_const_def])

lemma ht_Restore_rep:
  assumes "CheckAligned data" "unat data + unat len + 200 < 2 ^ 64" "B \<in> set kPrimeList"
    and "nodes_offset B \<le> unat len" "cap = (unat len - nodes_offset B) div node_size" "node_align dvd 16"
    and "value_size < 2 ^ 32" "node_size < 2 ^ 32" "ht_rep hash key (data + 64) B cap t vs"
    and "ht_const t = (\<lparr>hth_magic = ht_kMagic, hth_element_size = of_nat value_size, hth_bucket_num = of_nat B\<rparr>, None,
       Align (data + 64 + of_nat (B * 4)), ra_kMagic, of_nat node_size)"
  shows "ht_Restore value_size node_size node_align data len (ht_header t) (rv_header (ht_buckets t)) (ra_header (ht_alloc t))
    (rv_cells (ht_buckets t)) (ra_cells (ht_alloc t)) = Some t"
proof -
  note l = table_layout [OF assms(1,2,4)]
  let ?p = "Align (data + 64 + of_nat (B * 4))" and ?bs = "of_nat (B * 4) :: u64"
  obtain heads where r: "length heads = B" "rv_rep 4 (data + 64) B (ht_buckets t) heads" "ra_fresh cap (length vs) (ht_alloc t)"
    by (rule ht_repE [OF assms(9)]) blast
  have B: "B < 2 ^ 32" using assms(3) by (auto simp: kPrimeList_def)
  have uB: "unat (of_nat B :: u32) = B" using B by (intro unat_of_nat_small) simp
  have off: "64 + B * 4 \<le> nodes_offset B" unfolding nodes_offset_def by linarith
  have bsz: "ucast (of_nat B :: u32) * (4 :: u64) = ?bs"
  proof -
    have "unat (ucast (of_nat B :: u32) :: u64) = B" using uB B by (simp add: unsigned_ucast_eq take_bit_nat_eq_self)
    moreover have "unat (of_nat B :: u64) = B" using B by (intro unat_of_nat_small) simp
    ultimately have "(ucast (of_nat B :: u32) :: u64) = of_nat B" by (simp only: word_unat_eq_iff)
    then show ?thesis by simp
  qed
  have start: "rv_aligned_data 4 True (data + 64) = data + 64"
    using rv_aligned_data_value(1) [OF l(3), of 4 True] l(2) assms(2) by simp
  have rv: "rv_Restore 4 4 True (data + 64) ?bs (rv_header (ht_buckets t)) (rv_cells (ht_buckets t)) = Some (ht_buckets t)"
    using r(1,2) l(3,4) start rv_repD(1,2) [OF r(2)] assms(10) by (cases "ht_buckets t") (simp add: rv_Restore_def Let_def rv_rep_def rv_size_def ht_const_def)
  have sub: "unat (data + len - ?p) = unat len - nodes_offset B"
    using l(6,8) assms(4) by (simp add: unat_sub word_le_nat_alt)
  have "ra_data_start node_align True ?p = ?p"
    by (rule ra_data_start_aligned [OF l(7) assms(6)]) (use l(6) assms(2,4) in simp)
  then have ra: "ra_Restore node_size node_align True ?p (data + len - ?p) (ra_header (ht_alloc t)) (ra_cells (ht_alloc t)) = Some (ht_alloc t)"
    using ra_freshD [OF r(3)] r(3) l(7) sub assms(5,8,10)
    by (cases "ht_alloc t") (simp add: ra_Restore_def Let_def ra_fresh_def ht_const_def ra_const_def unat_of_nat_small)
  have "unat (?p - data) = nodes_offset B" using l(6) by (simp add: unat_sub word_le_nat_alt)
  then have "\<not> len < ?p - data" using assms(4) by (simp add: word_less_nat_alt)
  then show ?thesis using assms(1,3,7,10) l(1) bsz rv ra uB
    by (cases t) (simp add: ht_Restore_def Let_def ht_const_def unat_of_nat_small)
qed

section \<open>Tables in use\<close>

lemma erase_second:
  assumes "ht_rep hash key start B cap t [x, y, z]" "3 \<le> cap"
    and "hash (key x) mod B = hash (key z) mod B" "hash (key y) mod B \<noteq> hash (key z) mod B" "key x \<noteq> key z"
  shows "\<exists>u. ht_erase hash (=) key t (key y) = Some (Inr (1, u)) \<and> ht_size u = 2 \<and> ht_look hash (=) key u (key x) = Inr None"
proof -
  obtain heads where r: "length heads = B" "rv_rep 4 start B (ht_buckets t) heads" "0 < B"
    "ra_fresh cap (length [x, y, z]) (ht_alloc t)" "map hn_val (take (length [x, y, z]) (ra_cells (ht_alloc t))) = [x, y, z]" "distinct (map key [x, y, z])"
    "\<And>j. j < B \<Longrightarrow> chain (ra_cells (ht_alloc t)) (heads ! j) (bucket_ids (\<lambda>v. hash (key v) mod B) [x, y, z] j)"
    "\<And>k. bucket hash t k = hash k mod B" "\<And>k. rv_index (ht_buckets t) (hash k mod B) = Inr (heads ! (hash k mod B))"
    by (rule ht_repE [OF assms(1)]) (rule that; assumption)
  let ?al = "ht_alloc t" and ?c = "ra_cells (ht_alloc t)" and ?bx = "hash (key z) mod B" and ?by = "hash (key y) mod B"
  have b: "?bx < B" "?by < B" using r(3) by simp_all
  have ids: "bucket_ids (\<lambda>v. hash (key v) mod B) [x, y, z] ?bx = [3, 1]" "bucket_ids (\<lambda>v. hash (key v) mod B) [x, y, z] ?by = [2]"
  proof -
    have "[1..<Suc (length [x, y, z])] = [1, 2, 3]" by (simp add: upt_conv_Cons)
    then show "bucket_ids (\<lambda>v. hash (key v) mod B) [x, y, z] ?bx = [3, 1]" "bucket_ids (\<lambda>v. hash (key v) mod B) [x, y, z] ?by = [2]"
      using assms(3,4) by (simp_all only: bucket_ids_def) simp_all
  qed
  have cx: "heads ! ?bx = 3" "hn_next (?c ! 2) = 1" using r(7) [OF b(1)] by (simp_all add: ids)
  have cy: "heads ! ?by = 2" "hn_next (?c ! 1) = 0" using r(7) [OF b(2)] by (simp_all add: ids)
  have val: "hn_val (?c ! 1) = y" "hn_val (?c ! 2) = z" using ht_value [OF r(5), of 2] ht_value [OF r(5), of 3] by simp_all
  have len: "length ?c = cap" "ra_fresh cap 3 ?al" using ra_freshD(3) [OF r(4)] r(4) by (simp_all add: numeral_3_eq_3)
  have get2: "ra_Get ?al 2 = Inr 1" using ra_Get_fresh [OF len(2), of 2] assms(2) by simp
  obtain bs where bs: "rv_assign (ht_buckets t) ?by 0 = Inr bs" "rv_rep 4 start B bs (heads[?by := 0])"
    using rv_assign_rep [OF r(2), of ?by 0] b(2) r(1) by auto
  let ?al2 = "set_ra_header (\<lambda>h. h\<lparr>rah_free_list := 2, rah_size := rah_size h - 1\<rparr>) (?al\<lparr>ra_cells := ?c[2 := (?c ! 2)\<lparr>hn_next := 0\<rparr>]\<rparr>)"
  let ?u = "t\<lparr>ht_buckets := bs, ht_alloc := ?al2\<rparr>"
  have max2: "2 \<le> ra_max_node_id ?al" "3 \<le> ra_max_node_id ?al"
    using ra_freshD(5) [OF len(2)] assms(2) by (simp_all add: word_le_nat_alt)
  have fl: "rah_free_list (ra_header ?al) = 0" "rah_size (ra_header ?al) = 3" using len(2) by (simp_all add: ra_fresh_def)
  have "Deallocate (\<lambda>l n. n\<lparr>hn_next := l\<rparr>) ?al 2 = Inr ?al2"
    using max2(1) fl(1) len(1) assms(2) by (simp add: Deallocate_def NodeIDToNodeIDPtr_def ra_kInvalidNodeID_def ra_store_def)
  moreover have "node_of ?al 2 = Inr (?c ! 1)" using get2 len(1) assms(2) by (simp add: node_of_def ra_load_def)
  ultimately have "ht_erase hash (=) key t (key y) = Some (Inr (1, ?u))"
    using r(8,9) cy val(1) bs(1)
    by (simp add: ht_erase_def Let_def ra_kInvalidNodeID_def put_ref_def ht_erase_loop.simps [of _ _ _ _ _ 2])
  moreover have "ht_size ?u = 2" using fl(2) by (simp add: ht_size_def ra_size_def set_ra_header_def)
  moreover have "ht_look hash (=) key ?u (key x) = Inr None"
  proof -
    have "bucket hash ?u (key x) = ?bx" using rv_repD(1) [OF bs(2)] r(1) assms(3) by (simp add: bucket_def)
    moreover have "rv_index bs ?bx = Inr 3" using rv_index_rep [OF bs(2), of ?bx] b(1) r(1) cx(1) assms(4) by simp
    moreover have "node_of ?al2 3 = Inr ((?c ! 2)\<lparr>hn_next := 0\<rparr>)"
      using max2(2) len(1) assms(2) by (simp add: node_of_def ra_Get_def ra_load_def set_ra_header_def ra_kInvalidNodeID_def)
    ultimately show ?thesis using val(2) assms(5)
      by (simp add: ht_look_def ht_find_def ended_def ht_end_def ra_kInvalidNodeID_def chain_find.simps [of _ _ _ _ 3] chain_find.simps [of _ _ _ _ 0])
  qed
  ultimately show ?thesis by blast
qed

text \<open>
  C18. As long as nothing is erased the hash table is a dictionary. On a table made in a region with
  room for \<open>cap\<close> nodes, for every hash function, every sequence of \<open>insert\<close>, \<open>find\<close>, \<open>size\<close> and \<open>clear\<close>
  ends and gives the replies of a list of values with distinct keys: an insertion reports and points
  at the value that is in the table, a search finds exactly the keys inserted, and \<open>insert\<close> throws
  only when all nodes are taken. \<open>Restore\<close> on the region then gives the same table back.
\<close>

theorem hash_table_is_dictionary:
  assumes "CheckAligned data" "unat data + unat len + 200 < 2 ^ 64" "B = estimate_buckets node_size len" "B \<in> set kPrimeList"
    and "nodes_offset B \<le> unat len" "cap = (unat len - nodes_offset B) div node_size" "0 < cap" "cap < 2 ^ 32 - 1"
    and "node_align dvd 16" "length bcells = B" "length ncells = cap" "value_size < 2 ^ 32" "node_size < 2 ^ 32"
  shows "\<exists>t. ht_Create value_size node_size node_align data len bcells ncells = Inr (Some t) \<and>
    (case run_ops (dict_spec key cap) ops [] of
       Inl e \<Rightarrow> run_ops (ht_step hash (=) key) ops t = Inl e
     | Inr (rs, vs) \<Rightarrow> \<exists>u. run_ops (ht_step hash (=) key) ops t = Inr (rs, u) \<and> ht_size u = length vs \<and>
         ht_Restore value_size node_size node_align data len (ht_header u) (rv_header (ht_buckets u)) (ra_header (ht_alloc u))
           (rv_cells (ht_buckets u)) (ra_cells (ht_alloc u)) = Some u)"
proof -
  have B: "B < 2 ^ 32" using assms(4) by (auto simp: kPrimeList_def)
  obtain t where t: "ht_Create value_size node_size node_align data len bcells ncells = Inr (Some t)" "ht_rep hash key (data + 64) B cap t []"
    "ht_const t = (\<lparr>hth_magic = ht_kMagic, hth_element_size = of_nat value_size, hth_bucket_num = of_nat B\<rparr>, None,
       Align (data + 64 + of_nat (B * 4)), ra_kMagic, of_nat node_size)"
    by (rule ht_Create_rep [OF assms(1-3) B assms(5-11)])
  have ag: "agrees (ht_rep hash key (data + 64) B cap) (run_ops (ht_step hash (=) key) ops t) (run_ops (dict_spec key cap) ops [])"
    unfolding ht_step_def by (rule rht.run_agrees [OF t(2)])
  show ?thesis
  proof (cases "run_ops (dict_spec key cap) ops []")
    case (Inl e)
    with ag t(1) show ?thesis by simp
  next
    case (Inr out)
    then obtain rs vs u where u: "out = (rs, vs)" "run_ops (ht_step hash (=) key) ops t = Inr (rs, u)" "ht_rep hash key (data + 64) B cap u vs"
      using ag by (cases out) auto
    have "ht_const u = ht_const t" by (rule run_ops_keeps [OF ht_step_const u(2)])
    with ht_Restore_rep [OF assms(1,2,4-6,9,12,13) u(3)] t(1,3) u Inr rht.amount_law [OF u(3)] show ?thesis by simp
  qed
qed

theorem hash_table_is_dictionary_witness:
  "\<exists>t. ht_Create 8 12 4 4096 512 (replicate 53 7) (replicate 18 \<lparr>hn_next = 9, hn_val = (0 :: nat, 0 :: nat)\<rparr>) = Inr (Some t) \<and>
    (case run_ops (dict_spec fst 18) [Insert (1, 2), Insert (54, 3), Insert (1, 4), Find 54, Find 2, Entries] [] of
       Inl e \<Rightarrow> run_ops (ht_step id (=) fst) [Insert (1, 2), Insert (54, 3), Insert (1, 4), Find 54, Find 2, Entries] t = Inl e
     | Inr (rs, vs) \<Rightarrow> \<exists>u. run_ops (ht_step id (=) fst) [Insert (1, 2), Insert (54, 3), Insert (1, 4), Find 54, Find 2, Entries] t = Inr (rs, u) \<and>
         ht_size u = length vs \<and>
         ht_Restore 8 12 4 4096 512 (ht_header u) (rv_header (ht_buckets u)) (ra_header (ht_alloc u)) (rv_cells (ht_buckets u)) (ra_cells (ht_alloc u)) = Some u)"
  by (rule hash_table_is_dictionary [where B = 53])
    (simp_all add: CheckAligned_iff estimate_buckets_def kPrimeList_def nodes_offset_def)

text \<open>
  Erasing a key can lose another one. Three values are inserted, the first and the third in one
  bucket and the second in another; they get the nodes 1, 2 and 3. \<open>erase\<close> of the second key reports
  success, but returning node 2 overwrites the link of node 3, and the first key is not found any
  more although \<open>size()\<close> still counts it.
\<close>

theorem erase_loses_other_key:
  assumes "CheckAligned data" "unat data + unat len + 200 < 2 ^ 64" "B = estimate_buckets node_size len" "B \<in> set kPrimeList"
    and "nodes_offset B \<le> unat len" "cap = (unat len - nodes_offset B) div node_size" "3 \<le> cap" "cap < 2 ^ 32 - 1"
    and "node_align dvd 16" "length bcells = B" "length ncells = cap"
    and "hash (key x) mod B = hash (key z) mod B" "hash (key y) mod B \<noteq> hash (key z) mod B" "key x \<noteq> key z"
  shows "\<exists>t rs t3 u. ht_Create value_size node_size node_align data len bcells ncells = Inr (Some t) \<and>
    run_ops (ht_step hash (=) key) [Insert x, Insert y, Insert z] t = Inr (rs, t3) \<and> ht_look hash (=) key t3 (key x) = Inr (Some x) \<and>
    ht_erase hash (=) key t3 (key y) = Some (Inr (1, u)) \<and> ht_size u = 2 \<and> ht_look hash (=) key u (key x) = Inr None"
proof -
  have B: "B < 2 ^ 32" using assms(4) by (auto simp: kPrimeList_def)
  have cap: "0 < cap" using assms(7) by simp
  obtain t where t: "ht_Create value_size node_size node_align data len bcells ncells = Inr (Some t)" "ht_rep hash key (data + 64) B cap t []"
    by (rule ht_Create_rep [OF assms(1-3) B assms(5,6) cap assms(8-11)])
  have keys: "key y \<noteq> key x" "key y \<noteq> key z" using assms(12,13) by auto
  have "agrees (ht_rep hash key (data + 64) B cap) (run_ops (ht_step hash (=) key) [Insert x, Insert y, Insert z] t)
      (run_ops (dict_spec key cap) [Insert x, Insert y, Insert z] [])"
    unfolding ht_step_def by (rule rht.run_agrees [OF t(2)])
  then obtain rs t3 where t3: "run_ops (ht_step hash (=) key) [Insert x, Insert y, Insert z] t = Inr (rs, t3)" "ht_rep hash key (data + 64) B cap t3 [x, y, z]"
    using keys assms(7,14) by auto
  obtain u where "ht_erase hash (=) key t3 (key y) = Some (Inr (1, u))" "ht_size u = 2" "ht_look hash (=) key u (key x) = Inr None"
    using erase_second [OF t3(2) assms(7,12-14)] by blast
  with t(1) t3(1) ht_look_rep [OF t3(2), of "key x"] show ?thesis by auto
qed

theorem erase_loses_other_key_witness:
  "\<exists>t rs t3 u. ht_Create 8 12 4 4096 512 (replicate 53 7) (replicate 18 \<lparr>hn_next = 9, hn_val = (0 :: nat, 0 :: nat)\<rparr>) = Inr (Some t) \<and>
    run_ops (ht_step id (=) fst) [Insert (1, 10), Insert (2, 20), Insert (54, 30)] t = Inr (rs, t3) \<and>
    ht_look id (=) fst t3 (fst (1, 10 :: nat)) = Inr (Some (1, 10)) \<and>
    ht_erase id (=) fst t3 (fst (2, 20 :: nat)) = Some (Inr (1, u)) \<and> ht_size u = 2 \<and> ht_look id (=) fst u (fst (1, 10 :: nat)) = Inr None"
  by (rule erase_loses_other_key [where B = 53])
    (simp_all add: CheckAligned_iff estimate_buckets_def kPrimeList_def nodes_offset_def)

end
