(* ===== verification/Region_Iteration.thy ===== *)
theory Region_Iteration
  imports Region_HashTable "HOL-Library.Multiset"
begin

text \<open>
  Iteration over the hash table of \<open>Region_HashTable\<close>: the iterators go through the buckets in order
  and along each chain, and so visit every entry once.
\<close>


text \<open>A client that visits all entries with constant iterators.\<close>

fun ht_walk :: "('k \<Rightarrow> nat) \<Rightarrow> ('v \<Rightarrow> 'k) \<Rightarrow> nat \<Rightarrow> 'v htable \<Rightarrow> u32 \<Rightarrow> 'v list result" where
  "ht_walk hash key 0 t i = Inl RuntimeError"
| "ht_walk hash key (Suc n) t i =
     (if i = ht_end t then Inr []
      else rbind (cit_deref t i) (\<lambda>v. rbind (cit_next hash key t i) (\<lambda>j. rbind (ht_walk hash key n t j) (\<lambda>vs. Inr (v # vs)))))"

lemma const_iterator_same: "cit_deref = it_deref" "cit_next = it_next" "ht_cbegin = ht_begin"
  by (simp_all add: fun_eq_iff cit_deref_def it_deref_def cit_next_def it_next_def ht_cbegin_def ht_begin_def)

fun first_id :: "nat list \<Rightarrow> u32" where
  "first_id [] = 0"
| "first_id (i # is) = of_nat i"

lemma first_id_append: "first_id (xs @ ys) = (if xs = [] then first_id ys else first_id xs)"
  by (cases xs) simp_all

lemma chain_first: "chain cells h is \<Longrightarrow> h = first_id is"
  by (cases "is") simp_all

lemma chain_next: "chain cells h (xs @ i # ys) \<Longrightarrow> hn_next (cells ! (i - 1)) = first_id ys"
  by (induction xs arbitrary: h) (auto dest: chain_first)

lemma concat_split:
  "concat xss = xs @ i # ys \<Longrightarrow> \<exists>k us ws. k < length xss \<and> xss ! k = us @ i # ws \<and> ys = ws @ concat (drop (Suc k) xss)"
proof (induction xss arbitrary: xs)
  case Nil
  then show ?case by simp
next
  case (Cons zs xss)
  from Cons.prems have "zs @ concat xss = xs @ i # ys" by simp
  then consider us where "xs = zs @ us" "concat xss = us @ i # ys" | us where "zs = xs @ i # us" "ys = us @ concat xss"
    by (auto simp: append_eq_append_conv2 Cons_eq_append_conv append_eq_Cons_conv)
  then show ?case
  proof cases
    case 1
    from Cons.IH [OF 1(2)] obtain k us' ws where "k < length xss" "xss ! k = us' @ i # ws" "ys = ws @ concat (drop (Suc k) xss)" by blast
    then show ?thesis by (intro exI [of _ "Suc k"] exI [of _ us'] exI [of _ ws]) simp
  next
    case 2
    then show ?thesis by (intro exI [of _ 0] exI [of _ xs] exI [of _ us]) simp
  qed
qed

lemma bucket_ids_values: "map (\<lambda>i. vs ! (i - 1)) (bucket_ids bk vs j) = rev (filter (\<lambda>v. bk v = j) vs)"
proof (induction vs rule: rev_induct)
  case Nil
  then show ?case by simp
next
  case (snoc v vs)
  have "map (\<lambda>i. (vs @ [v]) ! (i - 1)) (bucket_ids bk vs j) = map (\<lambda>i. vs ! (i - 1)) (bucket_ids bk vs j)"
    by (rule map_cong [OF refl]) (auto simp: nth_append dest: bucket_ids_bound)
  with snoc show ?case by (simp add: bucket_ids_snoc)
qed

lemma mset_buckets: "mset (concat (map (\<lambda>j. rev (filter (\<lambda>v. f v = j) vs)) [0..<n])) = mset (filter (\<lambda>v. f v < n) vs)"
proof (induction n)
  case 0
  then show ?case by simp
next
  case (Suc n)
  have "mset (filter (\<lambda>v. f v < n) vs) + mset (filter (\<lambda>v. f v = n) vs) = mset (filter (\<lambda>v. f v < Suc n) vs)"
    by (induction vs) (auto simp: less_Suc_eq)
  with Suc show ?case by simp
qed

definition visit_order :: "('v \<Rightarrow> nat) \<Rightarrow> 'v list \<Rightarrow> nat \<Rightarrow> nat list" where
  "visit_order bk vs B = concat (map (bucket_ids bk vs) [0..<B])"

lemma first_node_rep:
  assumes "ht_rep hash key start B cap t vs" "\<forall>j\<in>set js. j < B"
  shows "first_node t js = Inr (first_id (concat (map (bucket_ids (\<lambda>v. hash (key v) mod B) vs) js)))"
  using assms(2)
proof (induction js)
  case Nil
  then show ?case by (simp add: ra_kInvalidNodeID_def)
next
  case (Cons j js)
  obtain heads where r: "length heads = B" "rv_rep 4 start B (ht_buckets t) heads" "ra_fresh cap (length vs) (ht_alloc t)"
    "\<And>j. j < B \<Longrightarrow> chain (ra_cells (ht_alloc t)) (heads ! j) (bucket_ids (\<lambda>v. hash (key v) mod B) vs j)"
    by (rule ht_repE [OF assms(1)]) blast
  let ?ids = "bucket_ids (\<lambda>v. hash (key v) mod B) vs j"
  have idx: "rv_index (ht_buckets t) j = Inr (first_id ?ids)"
    using rv_index_rep [OF r(2), of j] Cons.prems r(1) chain_first [OF r(4), of j] by simp
  show ?case
  proof (cases ?ids)
    case Nil
    then show ?thesis using Cons idx by (simp add: ra_kInvalidNodeID_def)
  next
    case (Cons i "is")
    then have "i \<in> set ?ids" by simp
    then have "0 < i" "i \<le> cap" using bucket_ids_bound ra_freshD(4) [OF r(3)] by (fastforce, fastforce)
    then show ?thesis using idx Cons node_of_fresh(2) [OF r(3)] ra_Get_fresh [OF r(3)] by (simp add: ra_kInvalidNodeID_def)
  qed
qed

lemma it_next_rep:
  assumes "ht_rep hash key start B cap t vs" "visit_order (\<lambda>v. hash (key v) mod B) vs B = xs @ i # ys"
  shows "it_next hash key t (of_nat i) = Inr (first_id ys)" "it_deref t (of_nat i) = Inr (vs ! (i - 1))" "(of_nat i :: u32) \<noteq> 0"
proof -
  obtain heads where r: "length heads = B" "rv_rep 4 start B (ht_buckets t) heads" "ra_fresh cap (length vs) (ht_alloc t)"
    "map hn_val (take (length vs) (ra_cells (ht_alloc t))) = vs"
    "\<And>j. j < B \<Longrightarrow> chain (ra_cells (ht_alloc t)) (heads ! j) (bucket_ids (\<lambda>v. hash (key v) mod B) vs j)" "\<And>k. bucket hash t k = hash k mod B"
    by (rule ht_repE [OF assms(1)]) blast
  let ?bk = "\<lambda>v. hash (key v) mod B" and ?cells = "ra_cells (ht_alloc t)"
  obtain j us ws where j: "j < B" "bucket_ids ?bk vs j = us @ i # ws" "ys = ws @ concat (map (bucket_ids ?bk vs) [Suc j..<B])"
    using concat_split [OF assms(2) [unfolded visit_order_def]] by (auto simp: drop_map)
  then have "i \<in> set (bucket_ids ?bk vs j)" by simp
  then have i: "0 < i" "i \<le> length vs" "?bk (vs ! (i - 1)) = j" using bucket_ids_bound by blast+
  have "i \<le> cap" using i(2) ra_freshD(4) [OF r(3)] by simp
  note n = node_of_fresh [OF r(3) i(1) this]
  show "(of_nat i :: u32) \<noteq> 0" by (rule n(2))
  have val: "hn_val (?cells ! (i - 1)) = vs ! (i - 1)" by (rule ht_value [OF r(4) i(1,2)])
  then show "it_deref t (of_nat i) = Inr (vs ! (i - 1))" using n(1) by (simp add: it_deref_def)
  have nxt: "hn_next (?cells ! (i - 1)) = first_id ws" using chain_next r(5) [OF j(1)] j(2) by metis
  have rest: "first_node t [j + 1..<B] = Inr (first_id (concat (map (bucket_ids ?bk vs) [Suc j..<B])))"
    using first_node_rep [OF assms(1), of "[Suc j..<B]"] by simp
  have cnt: "bucket_count t = B" using rv_repD(1) [OF r(2)] r(1) by (simp add: bucket_count_def)
  show "it_next hash key t (of_nat i) = Inr (first_id ys)"
  proof (cases ws)
    case Nil
    then show ?thesis using n(1) val i(3) nxt rest cnt r(6) j(3) by (simp add: it_next_def ra_kInvalidNodeID_def)
  next
    case (Cons m ws')
    then have "m \<in> set (bucket_ids ?bk vs j)" using j(2) by simp
    then have "0 < m" "m \<le> cap" using bucket_ids_bound ra_freshD(4) [OF r(3)] by (fastforce, fastforce)
    then show ?thesis using n(1) nxt Cons j(3) node_of_fresh(2) [OF r(3)] ra_Get_fresh [OF r(3)]
      by (simp add: it_next_def ra_kInvalidNodeID_def Let_def)
  qed
qed

lemma ht_walk_rep:
  assumes "ht_rep hash key start B cap t vs"
  shows "visit_order (\<lambda>v. hash (key v) mod B) vs B = xs @ ys \<Longrightarrow> length ys < n \<Longrightarrow>
    ht_walk hash key n t (first_id ys) = Inr (map (\<lambda>i. vs ! (i - 1)) ys)"
proof (induction ys arbitrary: xs n)
  case Nil
  then show ?case by (cases n) (simp_all add: ht_end_def ra_kInvalidNodeID_def)
next
  case (Cons i ys)
  then obtain m where m: "n = Suc m" "length ys < m" by (cases n) auto
  have "visit_order (\<lambda>v. hash (key v) mod B) vs B = (xs @ [i]) @ ys" using Cons.prems(1) by simp
  from Cons.IH [OF this m(2)] it_next_rep [OF assms Cons.prems(1)] m(1) show ?case
    by (simp add: const_iterator_same ht_end_def ra_kInvalidNodeID_def)
qed

lemma visit_all:
  assumes "0 < B" "bk = (\<lambda>v. hash (key v) mod B)"
  shows "mset (map (\<lambda>i. vs ! (i - 1)) (visit_order bk vs B)) = mset vs" "length (visit_order bk vs B) = length vs"
proof -
  have "filter (\<lambda>v. bk v < B) vs = vs" using assms by simp
  then show "mset (map (\<lambda>i. vs ! (i - 1)) (visit_order bk vs B)) = mset vs"
    unfolding visit_order_def map_concat map_map comp_def bucket_ids_values using mset_buckets [of bk vs B] by simp
  then show "length (visit_order bk vs B) = length vs" by (metis length_map size_mset)
qed

text \<open>
  C26. Iterating over a table from which nothing was erased: from \<open>cbegin()\<close> on, incrementing the
  iterator \<open>size()\<close> times reaches \<open>cend()\<close>, and the entries visited on the way are exactly the entries
  of the table, each once.
\<close>

theorem iteration_visits_all:
  assumes "CheckAligned data" "unat data + unat len + 200 < 2 ^ 64" "B = estimate_buckets node_size len" "B \<in> set kPrimeList"
    and "nodes_offset B \<le> unat len" "cap = (unat len - nodes_offset B) div node_size" "0 < cap" "cap < 2 ^ 32 - 1"
    and "node_align dvd 16" "length bcells = B" "length ncells = cap" "run_ops (dict_spec key cap) ops [] = Inr (rs, vs)"
  shows "\<exists>t u i ws. ht_Create value_size node_size node_align data len bcells ncells = Inr (Some t) \<and>
    run_ops (ht_step hash (=) key) ops t = Inr (rs, u) \<and> ht_cbegin u = Inr i \<and>
    ht_walk hash key (Suc (ht_size u)) u i = Inr ws \<and> mset ws = mset vs"
proof -
  have B: "B < 2 ^ 32" using assms(4) by (auto simp: kPrimeList_def)
  obtain t where t: "ht_Create value_size node_size node_align data len bcells ncells = Inr (Some t)" "ht_rep hash key (data + 64) B cap t []"
    by (rule ht_Create_rep [OF assms(1-3) B assms(5-11)])
  have "agrees (ht_rep hash key (data + 64) B cap) (run_ops (ht_step hash (=) key) ops t) (run_ops (dict_spec key cap) ops [])"
    unfolding ht_step_def by (rule rht.run_agrees [OF t(2)])
  then obtain u where u: "run_ops (ht_step hash (=) key) ops t = Inr (rs, u)" "ht_rep hash key (data + 64) B cap u vs" using assms(12) by auto
  let ?bk = "\<lambda>v. hash (key v) mod B"
  have B0: "0 < B" "rv_size (ht_buckets u) = B" by (rule ht_repE [OF u(2)], simp add: rv_repD(1))+
  have vlen: "length (visit_order ?bk vs B) = length vs" by (rule visit_all(2) [OF B0(1) refl])
  have "ht_begin u = Inr (first_id (visit_order ?bk vs B))"
    using first_node_rep [OF u(2), of "[0..<B]"] B0(2) by (simp add: ht_begin_def visit_order_def)
  moreover have "ht_walk hash key (Suc (ht_size u)) u (first_id (visit_order ?bk vs B)) = Inr (map (\<lambda>i. vs ! (i - 1)) (visit_order ?bk vs B))"
    by (rule ht_walk_rep [OF u(2), of "[]"]) (use vlen rht.amount_law [OF u(2)] in simp_all)
  ultimately show ?thesis using t(1) u(1) visit_all(1) [OF B0(1) refl] unfolding const_iterator_same by blast
qed

theorem iteration_visits_all_witness:
  "\<exists>t u i ws. ht_Create 8 12 4 4096 512 (replicate 53 7) (replicate 18 \<lparr>hn_next = 9, hn_val = (0 :: nat, 0 :: nat)\<rparr>) = Inr (Some t) \<and>
    run_ops (ht_step id (=) fst) [Insert (1, 2), Insert (54, 3), Insert (7, 4)] t = Inr ([Inserted True (1, 2), Inserted True (54, 3), Inserted True (7, 4)], u) \<and>
    ht_cbegin u = Inr i \<and> ht_walk id fst (Suc (ht_size u)) u i = Inr ws \<and> mset ws = mset [(1, 2), (54, 3), (7, 4)]"
  by (rule iteration_visits_all [where B = 53 and cap = 18])
    (simp_all add: CheckAligned_iff estimate_buckets_def kPrimeList_def nodes_offset_def)

end
