(* ===== verification/Colored_Tree.thy ===== *)
theory Colored_Tree
  imports Prelude
begin

text \<open>
  Red-black trees as data: the colour of a node, trees whose nodes carry their place in memory (a
  slice in \<open>Fx_RBTree\<close>, an address in \<open>Heap_RBTree\<close>), their entries in order and their black height.
\<close>

datatype color = kRed | kBlack

lemma color_simps [simp]: "c \<noteq> kRed \<longleftrightarrow> c = kBlack" "c \<noteq> kBlack \<longleftrightarrow> c = kRed"
  by (cases c; simp)+

datatype ('k, 'v) rtree = Tip | Nod color nat "('k, 'v) rtree" "'k \<times> 'v" "('k, 'v) rtree"

fun entries :: "('k, 'v) rtree \<Rightarrow> (nat \<times> 'k \<times> 'v) list" where
  "entries Tip = []"
| "entries (Nod c i l x r) = entries l @ (i, x) # entries r"

lemma entries_Nil [simp]: "entries T = [] \<longleftrightarrow> T = Tip"
  by (cases T) simp_all

definition ids :: "('k, 'v) rtree \<Rightarrow> nat list" where
  "ids T = map fst (entries T)"

lemma ids_simps [simp]: "ids Tip = []" "ids (Nod c i l x r) = ids l @ i # ids r"
  by (simp_all add: ids_def)

fun col :: "('k, 'v) rtree \<Rightarrow> color" where
  "col Tip = kBlack"
| "col (Nod c i l x r) = c"

definition keys :: "('k, 'v) rtree \<Rightarrow> 'k list" where
  "keys T = map (fst \<circ> snd) (entries T)"

lemma keys_simps [simp]: "keys Tip = []" "keys (Nod c i l x r) = keys l @ fst x # keys r"
  by (simp_all add: keys_def)

fun paint :: "color \<Rightarrow> ('k, 'v) rtree \<Rightarrow> ('k, 'v) rtree" where
  "paint c Tip = Tip"
| "paint c (Nod d i l x r) = Nod c i l x r"

text \<open>The number of black nodes on a path.\<close>

fun bh :: "('k, 'v) rtree \<Rightarrow> nat" where
  "bh Tip = 0"
| "bh (Nod c i l x r) = bh l + (if c = kBlack then 1 else 0)"

fun rheight :: "('k, 'v) rtree \<Rightarrow> nat" where
  "rheight Tip = 0"
| "rheight (Nod c i l x r) = Suc (max (rheight l) (rheight r))"

end
