(* ===== verification/Fx_RBTree.thy ===== *)
theory Fx_RBTree
  imports Memory_List Colored_Tree
begin

text \<open>
  The ordered map of \<open>udpserver/src/base/rbtree.h\<close>, \<open>fx::base::container::RBTree\<close>: a left-leaning
  red-black tree whose nodes live in the slices of a \<open>MemoryList\<close> and know their parent. This theory
  holds the operations as the header has them.

  A node pointer is the id of its slice, or none; an iterator is the id it holds, \<open>end()\<close> the invalid
  one. The comparator, the size of a node, the bytes of an uninitialised value and the value of
  zeroed bytes are arguments; a freed node is zeroed, as in the build with asserts. Recursion and loops follow the links of the nodes and end when these
  form a tree: they are partial functions, \<open>None\<close> when they do not end. \<open>Delete\<close> leaves by
  \<open>throw 0\<close> when the key is not there, and \<open>erase\<close> catches it: its value is then none, with the tree
  as the exception found it.
\<close>

section \<open>State\<close>

record ('k, 'v) rbnode =
  rn_c :: color
  rn_p :: int
  rn_l :: int
  rn_r :: int
  rn_v :: "'k \<times> 'v"

record rbt_meta =
  rm_magic_number :: int
  rm_root :: int
  rm_size :: u64
  rm_depth :: u64

record ('k, 'v) rbtree =
  rt_md :: rbt_meta
  rt_ml :: "('k, 'v) rbnode memory_list"

definition rbt_kInvalidNodeId :: int where
  "rbt_kInvalidNodeId = kInvalidSliceId"

definition rbt_kMagicNumber :: int where
  "rbt_kMagicNumber = 1050165255719967046"

definition rbt_kHeaderSize :: nat where
  "rbt_kHeaderSize = 32"

definition rbnode_Init :: "'k \<Rightarrow> 'v \<Rightarrow> ('k, 'v) rbnode" where
  "rbnode_Init key val = \<lparr>rn_c = kRed, rn_p = rbt_kInvalidNodeId, rn_l = rbt_kInvalidNodeId, rn_r = rbt_kInvalidNodeId, rn_v = (key, val)\<rparr>"

definition FlipColor :: "color \<Rightarrow> color" where
  "FlipColor c = (if c = kRed then kBlack else kRed)"

text \<open>A node whose bytes are all zero.\<close>

definition rbnode_zero :: "'k \<times> 'v \<Rightarrow> ('k, 'v) rbnode" where
  "rbnode_zero zero = \<lparr>rn_c = kRed, rn_p = 0, rn_l = 0, rn_r = 0, rn_v = zero\<rparr>"

text \<open>\<open>cells\<close> is what the region of the slices holds.\<close>

definition rbt_CreateFrom :: "nat \<Rightarrow> nat \<Rightarrow> nat \<Rightarrow> ('k, 'v) rbnode mslice list \<Rightarrow> ('k, 'v) rbtree option result" where
  "rbt_CreateFrom node_size buf len cells =
     (if len < rbt_kHeaderSize then Inr None
      else rbind (ml_CreateFrom (buf + rbt_kHeaderSize) (len - rbt_kHeaderSize) node_size cells) (\<lambda>r.
        case r of None \<Rightarrow> Inr None
        | Some ml \<Rightarrow> Inr (Some \<lparr>rt_md = \<lparr>rm_magic_number = rbt_kMagicNumber, rm_root = rbt_kInvalidNodeId,
            rm_size = 0, rm_depth = 0\<rparr>, rt_ml = ml\<rparr>)))"

definition rbt_RestoreFrom :: "nat \<Rightarrow> nat \<Rightarrow> nat \<Rightarrow> rbt_meta \<Rightarrow> ml_head \<Rightarrow> ('k, 'v) rbnode mslice list \<Rightarrow>
    ('k, 'v) rbtree option" where
  "rbt_RestoreFrom node_size buf len md h cells =
     (if len < rbt_kHeaderSize then None
      else if rm_magic_number md \<noteq> rbt_kMagicNumber then None
      else case ml_RestoreFrom (buf + rbt_kHeaderSize) (len - rbt_kHeaderSize) node_size h cells of
        None \<Rightarrow> None | Some ml \<Rightarrow> Some \<lparr>rt_md = md, rt_ml = ml\<rparr>)"

section \<open>Nodes\<close>

definition GetPointer :: "int \<Rightarrow> int option result" where
  "GetPointer i = (if i = rbt_kInvalidNodeId then Inr None
     else rbind (GetSliceById i) (\<lambda>p. require (p \<noteq> None) (Inr (Some i))))"

definition rbt_at :: "('k, 'v) rbtree \<Rightarrow> int option \<Rightarrow> ('k, 'v) rbnode result" where
  "rbt_at t p = (case p of None \<Rightarrow> Inl MemoryFault | Some i \<Rightarrow> GetBuffer (rt_ml t) i)"

definition rbt_upd :: "(('k, 'v) rbnode \<Rightarrow> ('k, 'v) rbnode) \<Rightarrow> int option \<Rightarrow> ('k, 'v) rbtree \<Rightarrow> ('k, 'v) rbtree result" where
  "rbt_upd g p t = (case p of None \<Rightarrow> Inl MemoryFault
     | Some i \<Rightarrow> rbind (GetBuffer (rt_ml t) i) (\<lambda>n.
         rbind (SetBuffer (rt_ml t) i (g n)) (\<lambda>ml. Inr (t\<lparr>rt_ml := ml\<rparr>))))"

text \<open>The node an id names, and the updates of the links of such a node.\<close>

definition rbt_node :: "('k, 'v) rbtree \<Rightarrow> int \<Rightarrow> ('k, 'v) rbnode result" where
  "rbt_node t i = rbind (GetPointer i) (rbt_at t)"

definition set_l :: "int \<Rightarrow> int \<Rightarrow> ('k, 'v) rbtree \<Rightarrow> ('k, 'v) rbtree result" where
  "set_l i x t = rbind (GetPointer i) (\<lambda>p. rbt_upd (\<lambda>n. n\<lparr>rn_l := x\<rparr>) p t)"

definition set_r :: "int \<Rightarrow> int \<Rightarrow> ('k, 'v) rbtree \<Rightarrow> ('k, 'v) rbtree result" where
  "set_r i x t = rbind (GetPointer i) (\<lambda>p. rbt_upd (\<lambda>n. n\<lparr>rn_r := x\<rparr>) p t)"

definition set_p :: "int \<Rightarrow> int \<Rightarrow> ('k, 'v) rbtree \<Rightarrow> ('k, 'v) rbtree result" where
  "set_p i x t = rbind (GetPointer i) (\<lambda>p. rbt_upd (\<lambda>n. n\<lparr>rn_p := x\<rparr>) p t)"

definition set_c :: "int \<Rightarrow> color \<Rightarrow> ('k, 'v) rbtree \<Rightarrow> ('k, 'v) rbtree result" where
  "set_c i x t = rbind (GetPointer i) (\<lambda>p. rbt_upd (\<lambda>n. n\<lparr>rn_c := x\<rparr>) p t)"

text \<open>\<open>if (x) x->p = v\<close>.\<close>

definition set_p_if :: "int \<Rightarrow> int \<Rightarrow> ('k, 'v) rbtree \<Rightarrow> ('k, 'v) rbtree result" where
  "set_p_if i x t = rbind (GetPointer i) (\<lambda>p. if p \<noteq> None then rbt_upd (\<lambda>n. n\<lparr>rn_p := x\<rparr>) p t else Inr t)"

text \<open>\<open>x and x->c == kRed\<close>; its negation is \<open>x == NULL or x->c == kBlack\<close>.\<close>

definition is_red :: "('k, 'v) rbtree \<Rightarrow> int \<Rightarrow> bool result" where
  "is_red t i = rbind (GetPointer i) (\<lambda>p. if p = None then Inr False else rbind (rbt_at t p) (\<lambda>n. Inr (rn_c n = kRed)))"

section \<open>Rotations\<close>

definition RotateLeft :: "('k, 'v) rbtree \<Rightarrow> int \<Rightarrow> (int \<times> ('k, 'v) rbtree) result" where
  "RotateLeft t i =
     rbind (GetPointer i) (\<lambda>node. require (node \<noteq> None)
       (rbind (rbt_at t node) (\<lambda>n. let right_id = rn_r n in
         rbind (GetPointer right_id) (\<lambda>right. require (right \<noteq> None)
           (rbind (rbt_at t right) (\<lambda>rn. require (rn_c rn = kRed)
             (rbind (set_r i (rn_l rn) t) (\<lambda>t1.
               rbind (rbt_at t1 right) (\<lambda>rn1.
                 rbind (set_p_if (rn_l rn1) i t1) (\<lambda>t2.
                   rbind (set_l right_id i t2) (\<lambda>t3.
                     rbind (rbt_at t3 node) (\<lambda>n3.
                       rbind (set_p right_id (rn_p n3) t3) (\<lambda>t4.
                         rbind (set_p i right_id t4) (\<lambda>t5.
                           rbind (rbt_at t5 node) (\<lambda>n5.
                             rbind (set_c right_id (rn_c n5) t5) (\<lambda>t6.
                               rbind (set_c i kRed t6) (\<lambda>t7. Inr (right_id, t7))))))))))))))))))"

definition RotateRight :: "('k, 'v) rbtree \<Rightarrow> int \<Rightarrow> (int \<times> ('k, 'v) rbtree) result" where
  "RotateRight t i =
     rbind (GetPointer i) (\<lambda>node. require (node \<noteq> None)
       (rbind (rbt_at t node) (\<lambda>n. let left_id = rn_l n in
         rbind (GetPointer left_id) (\<lambda>left. require (left \<noteq> None)
           (rbind (rbt_at t left) (\<lambda>ln. require (rn_c ln = kRed)
             (rbind (set_l i (rn_r ln) t) (\<lambda>t1.
               rbind (rbt_at t1 left) (\<lambda>ln1.
                 rbind (set_p_if (rn_r ln1) i t1) (\<lambda>t2.
                   rbind (set_r left_id i t2) (\<lambda>t3.
                     rbind (rbt_at t3 node) (\<lambda>n3.
                       rbind (set_p left_id (rn_p n3) t3) (\<lambda>t4.
                         rbind (set_p i left_id t4) (\<lambda>t5.
                           rbind (rbt_at t5 node) (\<lambda>n5.
                             rbind (set_c left_id (rn_c n5) t5) (\<lambda>t6.
                               rbind (set_c i kRed t6) (\<lambda>t7. Inr (left_id, t7))))))))))))))))))"

definition FlipColors :: "('k, 'v) rbtree \<Rightarrow> int \<Rightarrow> ('k, 'v) rbtree result" where
  "FlipColors t i =
     rbind (GetPointer i) (\<lambda>node. require (node \<noteq> None)
       (rbind (rbt_at t node) (\<lambda>n.
         rbind (GetPointer (rn_l n)) (\<lambda>left. require (left \<noteq> None)
           (rbind (GetPointer (rn_r n)) (\<lambda>right. require (right \<noteq> None)
             (rbind (rbt_upd (\<lambda>n. n\<lparr>rn_c := FlipColor (rn_c n)\<rparr>) node t) (\<lambda>t1.
               rbind (rbt_upd (\<lambda>n. n\<lparr>rn_c := FlipColor (rn_c n)\<rparr>) left t1) (\<lambda>t2.
                 rbt_upd (\<lambda>n. n\<lparr>rn_c := FlipColor (rn_c n)\<rparr>) right t2)))))))))"

text \<open>The three steps of \<open>KeepBalance\<close>.\<close>

definition lean_left :: "('k, 'v) rbtree \<Rightarrow> int \<Rightarrow> (int \<times> ('k, 'v) rbtree) result" where
  "lean_left t i =
     rbind (GetPointer i) (\<lambda>node. require (node \<noteq> None)
       (rbind (rbt_at t node) (\<lambda>n. rbind (is_red t (rn_r n)) (\<lambda>red.
         if red then rbind (RotateLeft t i) (\<lambda>(j, t1). rbind (GetPointer j) (\<lambda>p. require (p \<noteq> None) (Inr (j, t1))))
         else Inr (i, t)))))"

definition split_reds :: "('k, 'v) rbtree \<Rightarrow> int \<Rightarrow> (int \<times> ('k, 'v) rbtree) result" where
  "split_reds t i =
     rbind (rbt_node t i) (\<lambda>n. rbind (is_red t (rn_l n)) (\<lambda>red.
       if red
       then rbind (rbt_node t (rn_l n)) (\<lambda>ln. rbind (is_red t (rn_l ln)) (\<lambda>red2.
         if red2 then rbind (RotateRight t i) (\<lambda>(j, t1). rbind (GetPointer j) (\<lambda>p. require (p \<noteq> None) (Inr (j, t1))))
         else Inr (i, t)))
       else Inr (i, t)))"

definition flip_if_both :: "('k, 'v) rbtree \<Rightarrow> int \<Rightarrow> (int \<times> ('k, 'v) rbtree) result" where
  "flip_if_both t i =
     rbind (rbt_node t i) (\<lambda>n. rbind (is_red t (rn_r n)) (\<lambda>r. rbind (is_red t (rn_l n)) (\<lambda>l.
       if l \<and> r then rbind (FlipColors t i) (\<lambda>t1. Inr (i, t1)) else Inr (i, t))))"

definition KeepBalance :: "('k, 'v) rbtree \<Rightarrow> int \<Rightarrow> (int \<times> ('k, 'v) rbtree) result" where
  "KeepBalance t i =
     rbind (lean_left t i) (\<lambda>(i1, t1). rbind (split_reds t1 i1) (\<lambda>(i2, t2). flip_if_both t2 i2))"

section \<open>Lookup\<close>

partial_function (option) rbt_Get :: "('k \<Rightarrow> 'k \<Rightarrow> bool) \<Rightarrow> ('k, 'v) rbtree \<Rightarrow> int \<Rightarrow> 'k \<Rightarrow> int run" where
  [code]: "rbt_Get lt t i key =
     fbind (Some (GetPointer i)) (\<lambda>p.
       if p = None then Some (Inr rbt_kInvalidNodeId)
       else fbind (Some (rbt_at t p)) (\<lambda>n.
         if lt (fst (rn_v n)) key then rbt_Get lt t (rn_r n) key
         else if lt key (fst (rn_v n)) then rbt_Get lt t (rn_l n) key
         else Some (Inr i)))"

partial_function (option) min_loop :: "('k, 'v) rbtree \<Rightarrow> int \<Rightarrow> int run" where
  [code]: "min_loop t i =
     fbind (Some (rbt_node t i)) (\<lambda>n. if rn_l n \<noteq> rbt_kInvalidNodeId then min_loop t (rn_l n) else Some (Inr i))"

definition GetMin :: "('k, 'v) rbtree \<Rightarrow> int \<Rightarrow> int run" where
  "GetMin t i = fbind (Some (GetPointer i)) (\<lambda>p. if p = None then Some (Inl AssertionFailed) else min_loop t i)"

partial_function (option) max_loop :: "('k, 'v) rbtree \<Rightarrow> int \<Rightarrow> int run" where
  [code]: "max_loop t i =
     fbind (Some (rbt_node t i)) (\<lambda>n. if rn_r n \<noteq> rbt_kInvalidNodeId then max_loop t (rn_r n) else Some (Inr i))"

definition GetMax :: "('k, 'v) rbtree \<Rightarrow> int \<Rightarrow> int run" where
  "GetMax t i = fbind (Some (GetPointer i)) (\<lambda>p. if p = None then Some (Inl AssertionFailed) else max_loop t i)"

partial_function (option) prev_up :: "('k, 'v) rbtree \<Rightarrow> int \<Rightarrow> int \<Rightarrow> int run" where
  [code]: "prev_up t cur parent =
     fbind (Some (GetPointer parent)) (\<lambda>p.
       if p = None then Some (Inr rbt_kInvalidNodeId)
       else fbind (Some (rbt_at t p)) (\<lambda>n. if rn_l n = cur then prev_up t parent (rn_p n) else Some (Inr parent)))"

definition GetPrev :: "('k, 'v) rbtree \<Rightarrow> int \<Rightarrow> int run" where
  "GetPrev t i =
     fbind (Some (GetPointer i)) (\<lambda>p.
       if p = None then Some (Inr rbt_kInvalidNodeId)
       else fbind (Some (rbt_at t p)) (\<lambda>n.
         if rn_l n \<noteq> rbt_kInvalidNodeId then GetMax t (rn_l n) else prev_up t i (rn_p n)))"

partial_function (option) next_up :: "('k, 'v) rbtree \<Rightarrow> int \<Rightarrow> int \<Rightarrow> int run" where
  [code]: "next_up t cur parent =
     fbind (Some (GetPointer parent)) (\<lambda>p.
       if p = None then Some (Inr rbt_kInvalidNodeId)
       else fbind (Some (rbt_at t p)) (\<lambda>n. if rn_r n = cur then next_up t parent (rn_p n) else Some (Inr parent)))"

definition GetNext :: "('k, 'v) rbtree \<Rightarrow> int \<Rightarrow> int run" where
  "GetNext t i =
     fbind (Some (GetPointer i)) (\<lambda>p.
       if p = None then Some (Inr rbt_kInvalidNodeId)
       else fbind (Some (rbt_at t p)) (\<lambda>n.
         if rn_r n \<noteq> rbt_kInvalidNodeId then GetMin t (rn_r n) else next_up t i (rn_p n)))"

section \<open>Insertion\<close>

definition rbt_new :: "('k, 'v) rbtree \<Rightarrow> 'k \<Rightarrow> 'v \<Rightarrow> (int \<times> ('k, 'v) rbtree) result" where
  "rbt_new t key val =
     rbind (GetSlice (rt_ml t)) (\<lambda>(new_id, ml).
       rbind (GetPointer new_id) (\<lambda>p.
         rbind (rbt_upd (\<lambda>n. rbnode_Init key val) p (t\<lparr>rt_ml := ml\<rparr>)) (\<lambda>t1.
           Inr (new_id, t1\<lparr>rt_md := (rt_md t1)\<lparr>rm_size := rm_size (rt_md t1) + 1\<rparr>\<rparr>))))"

partial_function (option) rbt_Put :: "('k \<Rightarrow> 'k \<Rightarrow> bool) \<Rightarrow> ('k, 'v) rbtree \<Rightarrow> int \<Rightarrow> 'k \<Rightarrow> 'v \<Rightarrow>
    (int \<times> ('k, 'v) rbtree) run" where
  [code]: "rbt_Put lt t i key val =
     fbind (Some (GetPointer i)) (\<lambda>p.
       if p = None then Some (rbt_new t key val)
       else fbind (Some (rbt_at t p)) (\<lambda>n.
         if lt key (fst (rn_v n))
         then fbind (rbt_Put lt t (rn_l n) key val) (\<lambda>(j, t1).
           Some (rbind (set_l i j t1) (\<lambda>t2. rbind (set_p j i t2) (\<lambda>t3. KeepBalance t3 i))))
         else if lt (fst (rn_v n)) key
         then fbind (rbt_Put lt t (rn_r n) key val) (\<lambda>(j, t1).
           Some (rbind (set_r i j t1) (\<lambda>t2. rbind (set_p j i t2) (\<lambda>t3. KeepBalance t3 i))))
         else Some (rbind (rbt_upd (\<lambda>n. n\<lparr>rn_v := (fst (rn_v n), val)\<rparr>) p t) (\<lambda>t1. Inr (i, t1)))))"

section \<open>Deletion\<close>

text \<open>After the flip: a node of the right subtree moves over, when it can spare one.\<close>

definition borrow_right :: "('k, 'v) rbtree \<Rightarrow> int \<Rightarrow> (int \<times> ('k, 'v) rbtree) result" where
  "borrow_right t i =
     rbind (rbt_node t i) (\<lambda>n.
       rbind (GetPointer (rn_r n)) (\<lambda>right. require (right \<noteq> None)
         (rbind (rbt_at t right) (\<lambda>rn. rbind (is_red t (rn_l rn)) (\<lambda>lor_red.
           if lor_red
           then rbind (RotateRight t (rn_r n)) (\<lambda>(j, t1).
             rbind (set_r i j t1) (\<lambda>t2.
               rbind (RotateLeft t2 i) (\<lambda>(i3, t3). rbind (FlipColors t3 i3) (\<lambda>t4. Inr (i3, t4)))))
           else Inr (i, t))))))"

definition MoveRedLeft :: "('k, 'v) rbtree \<Rightarrow> int \<Rightarrow> (int \<times> ('k, 'v) rbtree) result" where
  "MoveRedLeft t i =
     rbind (GetPointer i) (\<lambda>node. require (node \<noteq> None)
       (rbind (rbt_at t node) (\<lambda>n. require (rn_c n = kRed)
         (rbind (GetPointer (rn_l n)) (\<lambda>left. require (left \<noteq> None)
           (rbind (rbt_at t left) (\<lambda>ln. require (rn_c ln = kBlack)
             (rbind (is_red t (rn_l ln)) (\<lambda>red. require (\<not> red)
               (rbind (FlipColors t i) (\<lambda>t1. borrow_right t1 i)))))))))))"

text \<open>The same from the left subtree; \<open>left\<close> is read before the flip.\<close>

definition borrow_left :: "('k, 'v) rbtree \<Rightarrow> int \<Rightarrow> int option \<Rightarrow> (int \<times> ('k, 'v) rbtree) result" where
  "borrow_left t i left =
     rbind (rbt_at t left) (\<lambda>ln. rbind (is_red t (rn_l ln)) (\<lambda>lol_red.
       if lol_red then rbind (RotateRight t i) (\<lambda>(i1, t1). rbind (FlipColors t1 i1) (\<lambda>t2. Inr (i1, t2)))
       else Inr (i, t)))"

definition MoveRedRight :: "('k, 'v) rbtree \<Rightarrow> int \<Rightarrow> (int \<times> ('k, 'v) rbtree) result" where
  "MoveRedRight t i =
     rbind (GetPointer i) (\<lambda>node. require (node \<noteq> None)
       (rbind (rbt_at t node) (\<lambda>n.
         rbind (GetPointer (rn_l n)) (\<lambda>left. require (left \<noteq> None)
           (rbind (GetPointer (rn_r n)) (\<lambda>right. require (right \<noteq> None)
             (rbind (rbt_at t right) (\<lambda>rn. require (rn_c rn = kBlack)
               (rbind (is_red t (rn_r rn)) (\<lambda>red. require (\<not> red)
                 (rbind (FlipColors t i) (\<lambda>t1. borrow_left t1 i left))))))))))))"

text \<open>Before the descent to the left, of \<open>Delete\<close> and of \<open>DeleteMin\<close>, and to the right.\<close>

definition prepare_left :: "('k, 'v) rbtree \<Rightarrow> int \<Rightarrow> int option \<Rightarrow> (int \<times> ('k, 'v) rbtree) result" where
  "prepare_left t i left =
     rbind (rbt_at t left) (\<lambda>ln.
       if rn_c ln = kBlack then rbind (is_red t (rn_l ln)) (\<lambda>red. if \<not> red then MoveRedLeft t i else Inr (i, t))
       else Inr (i, t))"

definition prepare_right :: "('k, 'v) rbtree \<Rightarrow> int \<Rightarrow> (int \<times> ('k, 'v) rbtree) result" where
  "prepare_right t i =
     rbind (rbt_node t i) (\<lambda>n.
       rbind (GetPointer (rn_r n)) (\<lambda>right.
         if right = None then Inr (i, t)
         else rbind (rbt_at t right) (\<lambda>rn.
           if rn_c rn = kBlack then rbind (is_red t (rn_l rn)) (\<lambda>red. if \<not> red then MoveRedRight t i else Inr (i, t))
           else Inr (i, t))))"

definition free_node :: "'k \<times> 'v \<Rightarrow> ('k, 'v) rbtree \<Rightarrow> int \<Rightarrow> ('k, 'v) rbtree result" where
  "free_node zero t i =
     rbind (GetPointer i) (\<lambda>p. rbind (rbt_upd (\<lambda>n. rbnode_zero zero) p t) (\<lambda>t1.
       rbind (FreeSlice (rt_ml t1) i) (\<lambda>ml.
         Inr (t1\<lparr>rt_ml := ml, rt_md := (rt_md t1)\<lparr>rm_size := rm_size (rt_md t1) - 1\<rparr>\<rparr>))))"

partial_function (option) DeleteMin :: "'k \<times> 'v \<Rightarrow> ('k, 'v) rbtree \<Rightarrow> int \<Rightarrow> (int \<times> ('k, 'v) rbtree) run" where
  [code]: "DeleteMin zero t i =
     fbind (Some (rbind (GetPointer i) (\<lambda>node. require (node \<noteq> None) (rbt_at t node)))) (\<lambda>n.
       if rn_l n = rbt_kInvalidNodeId
       then Some (require (rn_c n = kRed) (rbind (free_node zero t i) (\<lambda>t1. Inr (rbt_kInvalidNodeId, t1))))
       else fbind (Some (rbind (GetPointer (rn_l n)) (\<lambda>left. require (left \<noteq> None) (prepare_left t i left)))) (\<lambda>(i1, t1).
         fbind (Some (rbt_node t1 i1)) (\<lambda>n1.
           fbind (DeleteMin zero t1 (rn_l n1)) (\<lambda>(l2, t2).
             Some (rbind (set_l i1 l2 t2) (\<lambda>t3. KeepBalance t3 i1))))))"

text \<open>\<open>std::swap\<close> of a member of two nodes.\<close>

definition swap_in :: "(('k, 'v) rbnode \<Rightarrow> 'x) \<Rightarrow> ('x \<Rightarrow> ('k, 'v) rbnode \<Rightarrow> ('k, 'v) rbnode) \<Rightarrow> int option \<Rightarrow> int option \<Rightarrow>
    ('k, 'v) rbtree \<Rightarrow> ('k, 'v) rbtree result" where
  "swap_in get put a b t =
     rbind (rbt_at t a) (\<lambda>x. rbind (rbt_at t b) (\<lambda>y. rbind (rbt_upd (put (get y)) a t) (rbt_upd (put (get x)) b)))"

text \<open>The child link of the parent \<open>p\<close> that led to \<open>i\<close> leads to \<open>s\<close>.\<close>

definition relink_parent :: "int \<Rightarrow> int \<Rightarrow> int \<Rightarrow> ('k, 'v) rbtree \<Rightarrow> ('k, 'v) rbtree result" where
  "relink_parent p i s t =
     rbind (GetPointer p) (\<lambda>pp.
       if pp = None then Inr t
       else rbind (rbt_at t pp) (\<lambda>n.
         if rn_l n = i then rbt_upd (\<lambda>n. n\<lparr>rn_l := s\<rparr>) pp t else rbt_upd (\<lambda>n. n\<lparr>rn_r := s\<rparr>) pp t))"

text \<open>The successor takes the place of the node, which takes the place of the successor.\<close>

definition swap_far :: "('k, 'v) rbtree \<Rightarrow> int \<Rightarrow> int \<Rightarrow> int \<Rightarrow> int \<Rightarrow> ('k, 'v) rbtree result" where
  "swap_far t i s successor_p successor_r =
     rbind (GetPointer i) (\<lambda>node. rbind (GetPointer s) (\<lambda>successor.
       rbind (rbt_at t node) (\<lambda>n.
         rbind (relink_parent (rn_p n) i s t) (\<lambda>t1.
           rbind (rbt_at t1 node) (\<lambda>n1. rbind (set_p_if (rn_l n1) s t1) (\<lambda>t2.
             rbind (rbt_at t2 node) (\<lambda>n2. rbind (set_p_if (rn_r n2) s t2) (\<lambda>t3.
               rbind (GetPointer successor_p) (\<lambda>p. require (p \<noteq> None)
                 (rbind (rbt_at t3 p) (\<lambda>pn. require (rn_l pn = s)
                   (rbind (rbt_upd (\<lambda>n. n\<lparr>rn_l := i\<rparr>) p t3) (\<lambda>t4.
                     rbind (set_p_if successor_r i t4) (\<lambda>t5.
                       rbind (swap_in rn_p (\<lambda>x n. n\<lparr>rn_p := x\<rparr>) successor node t5) (\<lambda>t6.
                         rbind (swap_in rn_l (\<lambda>x n. n\<lparr>rn_l := x\<rparr>) successor node t6) (\<lambda>t7.
                           rbind (swap_in rn_r (\<lambda>x n. n\<lparr>rn_r := x\<rparr>) successor node t7) (\<lambda>t8.
                             swap_in rn_c (\<lambda>x n. n\<lparr>rn_c := x\<rparr>) successor node t8)))))))))))))))))"

definition swap_near :: "('k, 'v) rbtree \<Rightarrow> int \<Rightarrow> int \<Rightarrow> int \<Rightarrow> int \<Rightarrow> ('k, 'v) rbtree result" where
  "swap_near t i s successor_p successor_r =
     require (i = successor_p)
       (rbind (GetPointer i) (\<lambda>node. rbind (GetPointer s) (\<lambda>successor.
         rbind (rbt_at t node) (\<lambda>n.
           rbind (relink_parent (rn_p n) i s t) (\<lambda>t1.
             rbind (rbt_at t1 node) (\<lambda>n1. rbind (set_p_if (rn_l n1) s t1) (\<lambda>t2.
               rbind (set_p_if successor_r i t2) (\<lambda>t3.
                 rbind (rbt_at t3 node) (\<lambda>n3. rbind (rbt_upd (\<lambda>m. m\<lparr>rn_p := rn_p n3\<rparr>) successor t3) (\<lambda>t4.
                   rbind (rbt_upd (\<lambda>m. m\<lparr>rn_p := s\<rparr>) node t4) (\<lambda>t5.
                     rbind (rbt_at t5 node) (\<lambda>n5. rbind (rbt_upd (\<lambda>m. m\<lparr>rn_l := rn_l n5\<rparr>) successor t5) (\<lambda>t6.
                       rbind (rbt_upd (\<lambda>m. m\<lparr>rn_l := rbt_kInvalidNodeId\<rparr>) node t6) (\<lambda>t7.
                         rbind (rbt_upd (\<lambda>m. m\<lparr>rn_r := i\<rparr>) successor t7) (\<lambda>t8.
                           rbind (rbt_at t8 successor) (\<lambda>s8. rbind (rbt_upd (\<lambda>m. m\<lparr>rn_r := rn_r s8\<rparr>) node t8) (\<lambda>t9.
                             swap_in rn_c (\<lambda>x n. n\<lparr>rn_c := x\<rparr>) successor node t9)))))))))))))))))"

definition swap_successor :: "('k, 'v) rbtree \<Rightarrow> int \<Rightarrow> int \<Rightarrow> ('k, 'v) rbtree result" where
  "swap_successor t i s =
     rbind (GetPointer s) (\<lambda>successor. require (successor \<noteq> None)
       (rbind (rbt_at t successor) (\<lambda>sn. require (rn_l sn = rbt_kInvalidNodeId)
         (rbind (rbt_node t i) (\<lambda>n.
           if s \<noteq> rn_r n then swap_far t i s (rn_p sn) (rn_r sn) else swap_near t i s (rn_p sn) (rn_r sn))))))"

text \<open>\<open>not comp_(key, node->v.first) and not comp_(node->v.first, key)\<close>.\<close>

definition same_key :: "('k \<Rightarrow> 'k \<Rightarrow> bool) \<Rightarrow> 'k \<Rightarrow> ('k, 'v) rbnode \<Rightarrow> bool" where
  "same_key lt key n \<longleftrightarrow> \<not> lt key (fst (rn_v n)) \<and> \<not> lt (fst (rn_v n)) key"

partial_function (option) rbt_Delete :: "('k \<Rightarrow> 'k \<Rightarrow> bool) \<Rightarrow> 'k \<times> 'v \<Rightarrow> ('k, 'v) rbtree \<Rightarrow> int \<Rightarrow> 'k \<Rightarrow>
    (int option \<times> ('k, 'v) rbtree) run" where
  [code]: "rbt_Delete lt zero t i key =
     fbind (Some (rbind (GetPointer i) (\<lambda>node. require (node \<noteq> None) (rbind (rbt_at t node) (\<lambda>n.
       rbind (GetPointer (rn_l n)) (\<lambda>left. Inr (n, left))))))) (\<lambda>(n, left).
     if lt key (fst (rn_v n))
     then if left = None then Some (Inr (None, t))
       else fbind (Some (prepare_left t i left)) (\<lambda>(i1, t1).
         fbind (Some (rbt_node t1 i1)) (\<lambda>n1.
           fbind (rbt_Delete lt zero t1 (rn_l n1) key) (\<lambda>(r, t2).
             case r of None \<Rightarrow> Some (Inr (None, t2))
             | Some l2 \<Rightarrow> Some (rbind (set_l i1 l2 t2) (\<lambda>t3. rbind (KeepBalance t3 i1) (\<lambda>(j, t4). Inr (Some j, t4)))))))
     else
       fbind (Some (rbind (is_red t (rn_l n)) (\<lambda>red. if red then RotateRight t i else Inr (i, t)))) (\<lambda>(i1, t1).
       fbind (Some (rbt_node t1 i1)) (\<lambda>n1.
       if same_key lt key n1 \<and> rn_r n1 = rbt_kInvalidNodeId
       then Some (rbind (free_node zero t1 i1) (\<lambda>t2. Inr (Some rbt_kInvalidNodeId, t2)))
       else fbind (Some (prepare_right t1 i1)) (\<lambda>(i2, t2).
         fbind (Some (rbt_node t2 i2)) (\<lambda>n2.
         if same_key lt key n2
         then fbind (GetMin t2 (rn_r n2)) (\<lambda>s.
           fbind (Some (swap_successor t2 i2 s)) (\<lambda>t3.
             fbind (Some (rbt_node t3 s)) (\<lambda>n3.
               fbind (DeleteMin zero t3 (rn_r n3)) (\<lambda>(r4, t4).
                 Some (rbind (set_r s r4 t4) (\<lambda>t5. rbind (KeepBalance t5 s) (\<lambda>(j, t6). Inr (Some j, t6))))))))
         else if rn_r n2 = rbt_kInvalidNodeId then Some (Inr (None, t2))
         else fbind (rbt_Delete lt zero t2 (rn_r n2) key) (\<lambda>(r, t3).
           case r of None \<Rightarrow> Some (Inr (None, t3))
           | Some r4 \<Rightarrow> Some (rbind (set_r i2 r4 t3) (\<lambda>t4. rbind (KeepBalance t4 i2) (\<lambda>(j, t5). Inr (Some j, t5))))))))))"

section \<open>The public operations\<close>

definition rbt_begin :: "('k, 'v) rbtree \<Rightarrow> int run" where
  "rbt_begin t = (if rm_root (rt_md t) = rbt_kInvalidNodeId then Some (Inr rbt_kInvalidNodeId) else GetMin t (rm_root (rt_md t)))"

definition rbt_end :: "('k, 'v) rbtree \<Rightarrow> int" where
  "rbt_end t = rbt_kInvalidNodeId"

definition rbt_iter_next :: "('k, 'v) rbtree \<Rightarrow> int \<Rightarrow> int run" where
  "rbt_iter_next t i = (if i \<noteq> rbt_kInvalidNodeId then GetNext t i else Some (Inl AssertionFailed))"

definition rbt_iter_deref :: "('k, 'v) rbtree \<Rightarrow> int \<Rightarrow> ('k \<times> 'v) result" where
  "rbt_iter_deref t i = rbind (rbt_node t i) (\<lambda>n. Inr (rn_v n))"

text \<open>A store through the reference an iterator gives.\<close>

definition rbt_iter_assign :: "('k, 'v) rbtree \<Rightarrow> int \<Rightarrow> 'v \<Rightarrow> ('k, 'v) rbtree result" where
  "rbt_iter_assign t i x = rbind (GetPointer i) (\<lambda>p. rbt_upd (\<lambda>n. n\<lparr>rn_v := (fst (rn_v n), x)\<rparr>) p t)"

definition rbt_size :: "('k, 'v) rbtree \<Rightarrow> nat" where
  "rbt_size t = unat (rm_size (rt_md t))"

definition rbt_max_size :: "('k, 'v) rbtree \<Rightarrow> nat" where
  "rbt_max_size t = ml_capacity (rt_ml t)"

definition rbt_find :: "('k \<Rightarrow> 'k \<Rightarrow> bool) \<Rightarrow> ('k, 'v) rbtree \<Rightarrow> 'k \<Rightarrow> int run" where
  "rbt_find lt t key = rbt_Get lt t (rm_root (rt_md t)) key"

definition rbt_count :: "('k \<Rightarrow> 'k \<Rightarrow> bool) \<Rightarrow> ('k, 'v) rbtree \<Rightarrow> 'k \<Rightarrow> nat run" where
  "rbt_count lt t key = fbind (rbt_find lt t key) (\<lambda>i. Some (Inr (if i = rbt_end t then 0 else 1)))"

definition set_root :: "int \<Rightarrow> ('k, 'v) rbtree \<Rightarrow> ('k, 'v) rbtree" where
  "set_root i t = t\<lparr>rt_md := (rt_md t)\<lparr>rm_root := i\<rparr>\<rparr>"

text \<open>After \<open>Put\<close>: a root that came out red turns black and the depth grows.\<close>

definition blacken_root :: "('k, 'v) rbtree \<Rightarrow> ('k, 'v) rbtree result" where
  "blacken_root t =
     rbind (GetPointer (rm_root (rt_md t))) (\<lambda>p. require (p \<noteq> None)
       (rbind (rbt_at t p) (\<lambda>n.
         if rn_c n = kRed
         then rbind (rbt_upd (\<lambda>n. n\<lparr>rn_c := kBlack\<rparr>) p t) (\<lambda>t1.
           Inr (t1\<lparr>rt_md := (rt_md t1)\<lparr>rm_depth := rm_depth (rt_md t1) + 1\<rparr>\<rparr>))
         else Inr t)))"

definition rbt_insert :: "('k \<Rightarrow> 'k \<Rightarrow> bool) \<Rightarrow> ('k, 'v) rbtree \<Rightarrow> 'k \<Rightarrow> 'v \<Rightarrow> ((int \<times> bool) \<times> ('k, 'v) rbtree) run" where
  "rbt_insert lt t key val =
     fbind (rbt_find lt t key) (\<lambda>iter.
       if iter = rbt_end t
       then if rbt_size t = rbt_max_size t then Some (Inr ((rbt_end t, False), t))
         else fbind (rbt_Put lt t (rm_root (rt_md t)) key val) (\<lambda>(i, t1).
           fbind (Some (blacken_root (set_root i t1))) (\<lambda>t2.
             fbind (rbt_find lt t2 key) (\<lambda>j. Some (Inr ((j, True), t2)))))
       else Some (Inr ((iter, False), t)))"

text \<open>\<open>operator[]\<close> gives the node whose value the reference is to.\<close>

definition rbt_subscript :: "'v \<Rightarrow> ('k \<Rightarrow> 'k \<Rightarrow> bool) \<Rightarrow> ('k, 'v) rbtree \<Rightarrow> 'k \<Rightarrow> (int \<times> ('k, 'v) rbtree) run" where
  "rbt_subscript uninit lt t key =
     fbind (rbt_find lt t key) (\<lambda>iter.
       if iter = rbt_end t
       then fbind (rbt_insert lt t key uninit) (\<lambda>((i, b), t1).
         if i = rbt_end t1 then Some (Inl BadAlloc) else Some (Inr (i, t1)))
       else Some (Inr (iter, t)))"

definition rbt_erase :: "('k \<Rightarrow> 'k \<Rightarrow> bool) \<Rightarrow> 'k \<times> 'v \<Rightarrow> ('k, 'v) rbtree \<Rightarrow> 'k \<Rightarrow> (nat \<times> ('k, 'v) rbtree) run" where
  "rbt_erase lt zero t key =
     (if rm_root (rt_md t) = rbt_kInvalidNodeId then Some (Inr (0, t))
      else fbind (Some (set_c (rm_root (rt_md t)) kRed t)) (\<lambda>t1.
        fbind (rbt_Delete lt zero t1 (rm_root (rt_md t1)) key) (\<lambda>(r, t2).
          let (count, t3) = (case r of None \<Rightarrow> (0, t2) | Some i \<Rightarrow> (1, set_root i t2))
          in if rm_root (rt_md t3) \<noteq> rbt_kInvalidNodeId
             then Some (rbind (set_c (rm_root (rt_md t3)) kBlack t3) (\<lambda>t4. Inr (count, t4)))
             else Some (Inr (count, t3)))))"

definition rbt_erase_iter :: "('k \<Rightarrow> 'k \<Rightarrow> bool) \<Rightarrow> 'k \<times> 'v \<Rightarrow> ('k, 'v) rbtree \<Rightarrow> int \<Rightarrow> (nat \<times> ('k, 'v) rbtree) run" where
  "rbt_erase_iter lt zero t i =
     (if i = rbt_end t then Some (Inr (0, t))
      else fbind (Some (rbt_iter_deref t i)) (\<lambda>v. rbt_erase lt zero t (fst v)))"

definition rbt_clear :: "('k, 'v) rbtree \<Rightarrow> ('k, 'v) rbtree result" where
  "rbt_clear t = rbind (ml_clear (rt_ml t)) (\<lambda>ml.
     Inr (t\<lparr>rt_ml := ml, rt_md := (rt_md t)\<lparr>rm_size := 0, rm_depth := 0, rm_root := rbt_kInvalidNodeId\<rparr>\<rparr>))"

end
