(* ===== verification/RBTree_Shape.thy ===== *)
theory RBTree_Shape
  imports Fx_RBTree
begin

text \<open>
  What the nodes of a \<open>Fx_RBTree\<close> look like when they form a tree: trees whose nodes carry their
  slice, the store that represents such a tree, and the rotations of the source as functions on
  them.
\<close>

section \<open>Trees with the slices of their nodes\<close>

fun rid :: "('k, 'v) rtree \<Rightarrow> int" where
  "rid Tip = - 1"
| "rid (Nod c i l x r) = int i"

lemma rid_Tip [simp]: "rid T = - 1 \<longleftrightarrow> T = Tip" "- 1 = rid T \<longleftrightarrow> T = Tip"
  by (cases T; simp)+

fun shape :: "(nat \<Rightarrow> ('k, 'v) rbnode) \<Rightarrow> int \<Rightarrow> ('k, 'v) rtree \<Rightarrow> bool" where
  "shape b p Tip = True"
| "shape b p (Nod c i l x r) =
     (b i = \<lparr>rn_c = c, rn_p = p, rn_l = rid l, rn_r = rid r, rn_v = x\<rparr> \<and> shape b (int i) l \<and> shape b (int i) r)"

lemma shape_cong: "(\<And>i. i \<in> set (ids T) \<Longrightarrow> b' i = b i) \<Longrightarrow> shape b' p T = shape b p T"
  by (induction T arbitrary: p) auto

section \<open>The store\<close>

definition bufs :: "('k, 'v) rbtree \<Rightarrow> nat \<Rightarrow> ('k, 'v) rbnode" where
  "bufs t = buf_of (rt_ml t)"

definition usable :: "('k, 'v) rbtree \<Rightarrow> nat \<Rightarrow> bool" where
  "usable t i \<longleftrightarrow> i < length (ml_slices (rt_ml t))"

definition put_node :: "nat \<Rightarrow> ('k, 'v) rbnode \<Rightarrow> ('k, 'v) rbtree \<Rightarrow> ('k, 'v) rbtree" where
  "put_node i n t = t\<lparr>rt_ml := put_buf n i (rt_ml t)\<rparr>"

definition live :: "ml_layout \<Rightarrow> nat \<Rightarrow> nat set \<Rightarrow> ('k, 'v) rbtree \<Rightarrow> bool" where
  "live L cap U t \<longleftrightarrow> ml_slab L (rt_ml t) cap U (bufs t)"

lemma GetPointer_simps [simp]: "GetPointer (int i) = Inr (Some (int i))" "GetPointer (- 1) = Inr None"
  by (simp_all add: GetPointer_def rbt_kInvalidNodeId_def kInvalidSliceId_def GetSliceById_def)

lemma rbt_kInvalidNodeId [simp]: "rbt_kInvalidNodeId = - 1"
  by (simp add: rbt_kInvalidNodeId_def kInvalidSliceId_def)

lemma GetPointer_rid: "GetPointer (rid T) = Inr (if T = Tip then None else Some (rid T))"
  by (cases T) simp_all

lemma usable_put [simp]: "usable (put_node i n t) j = usable t j"
  by (simp add: usable_def put_node_def)

lemma md_put [simp]: "rt_md (put_node i n t) = rt_md t"
  by (simp add: put_node_def)

lemma bufs_put [simp]: "usable t i \<Longrightarrow> bufs (put_node i n t) = (bufs t)(i := n)"
  by (simp add: bufs_def put_node_def usable_def links_put)

lemma bufs_md [simp]: "bufs (t\<lparr>rt_md := m\<rparr>) = bufs t" "usable (t\<lparr>rt_md := m\<rparr>) i = usable t i" "live L cap U (t\<lparr>rt_md := m\<rparr>) = live L cap U t"
  by (simp_all add: bufs_def usable_def live_def)

lemma rbt_at_usable [simp]: "usable t i \<Longrightarrow> rbt_at t (Some (int i)) = Inr (bufs t i)"
  by (simp add: rbt_at_def GetBuffer_def usable_def slice_ops bufs_def buf_of_def)

lemma rbt_upd_usable [simp]: "usable t i \<Longrightarrow> rbt_upd g (Some (int i)) t = Inr (put_node i (g (bufs t i)) t)"
  using rbt_at_usable [of t i]
  by (simp add: rbt_upd_def rbt_at_def SetBuffer_def update_slice_def put_node_def put_buf_def usable_def)

lemma rbt_node_usable [simp]: "usable t i \<Longrightarrow> rbt_node t (int i) = Inr (bufs t i)"
  by (simp add: rbt_node_def)

lemma set_usable [simp]:
  "usable t i \<Longrightarrow> set_l (int i) x t = Inr (put_node i ((bufs t i)\<lparr>rn_l := x\<rparr>) t)"
  "usable t i \<Longrightarrow> set_r (int i) x t = Inr (put_node i ((bufs t i)\<lparr>rn_r := x\<rparr>) t)"
  "usable t i \<Longrightarrow> set_p (int i) x t = Inr (put_node i ((bufs t i)\<lparr>rn_p := x\<rparr>) t)"
  "usable t i \<Longrightarrow> set_c (int i) c t = Inr (put_node i ((bufs t i)\<lparr>rn_c := c\<rparr>) t)"
  "usable t i \<Longrightarrow> set_p_if (int i) x t = Inr (put_node i ((bufs t i)\<lparr>rn_p := x\<rparr>) t)"
  "set_p_if (- 1) x t = Inr t"
  by (simp_all add: set_l_def set_r_def set_p_def set_c_def set_p_if_def)

lemma is_red_simps [simp]: "is_red t (- 1) = Inr False" "usable t i \<Longrightarrow> is_red t (int i) = Inr (rn_c (bufs t i) = kRed)"
  by (simp_all add: is_red_def)

lemma live_usable: "live L cap U t \<Longrightarrow> i \<in> U \<Longrightarrow> usable t i"
  by (auto simp: live_def usable_def intro: ml_slab_bound)

lemma live_put: "live L cap U t \<Longrightarrow> i \<in> U \<Longrightarrow> live L cap U (put_node i n t)"
  using ml.store_law [of L "rt_ml t" cap U "bufs t" i n] ml_slab_bound [of L "rt_ml t" cap U "bufs t" i]
  by (auto simp: live_def put_node_def SetBuffer_def update_slice_def put_buf_def bufs_def buf_of_def ml_slab_def)

text \<open>Two stores that differ on some nodes only.\<close>

definition frame :: "nat set \<Rightarrow> ('k, 'v) rbtree \<Rightarrow> ('k, 'v) rbtree \<Rightarrow> bool" where
  "frame S t t' \<longleftrightarrow> (\<forall>i. usable t' i = usable t i) \<and> (\<forall>i. i \<notin> S \<longrightarrow> bufs t' i = bufs t i)"

definition moved :: "nat set \<Rightarrow> ('k, 'v) rbtree \<Rightarrow> ('k, 'v) rbtree \<Rightarrow> bool" where
  "moved S t t' \<longleftrightarrow> frame S t t' \<and> rt_md t' = rt_md t \<and> (\<forall>L cap U. S \<subseteq> U \<longrightarrow> live L cap U t \<longrightarrow> live L cap U t')"

lemma frame_refl [simp]: "frame S t t"
  by (simp add: frame_def)

lemma moved_refl [simp]: "moved S t t"
  by (simp add: moved_def)

lemma frame_trans: "frame S t t' \<Longrightarrow> frame S' t' t'' \<Longrightarrow> S \<union> S' \<subseteq> R \<Longrightarrow> frame R t t''"
  unfolding frame_def by (metis UnCI subsetD)

lemma moved_trans: "moved S t t' \<Longrightarrow> moved S' t' t'' \<Longrightarrow> S \<union> S' \<subseteq> R \<Longrightarrow> moved R t t''"
  unfolding moved_def using frame_trans by (metis (no_types, lifting) Un_subset_iff subset_trans)

lemma moved_put: "moved S t t' \<Longrightarrow> i \<in> S \<Longrightarrow> usable t' i \<Longrightarrow> moved S t (put_node i n t')"
  by (auto simp: moved_def frame_def intro: live_put)

lemma moved_frame: "moved S t t' \<Longrightarrow> frame S t t'"
  by (simp add: moved_def)

lemma moved_md: "moved S t t' \<Longrightarrow> rt_md t' = rt_md t"
  by (simp add: moved_def)

lemma moved_live: "moved S t t' \<Longrightarrow> live L cap U t \<Longrightarrow> S \<subseteq> U \<Longrightarrow> live L cap U t'"
  unfolding moved_def by blast

definition tree_at :: "('k, 'v) rbtree \<Rightarrow> int \<Rightarrow> ('k, 'v) rtree \<Rightarrow> bool" where
  "tree_at t p T \<longleftrightarrow> shape (bufs t) p T \<and> distinct (ids T) \<and> (\<forall>i\<in>set (ids T). usable t i)"

lemma tree_at_Tip [simp]: "tree_at t p Tip"
  by (simp add: tree_at_def)

lemma tree_at_Nod:
  "tree_at t p (Nod c i l x r) \<longleftrightarrow>
     bufs t i = \<lparr>rn_c = c, rn_p = p, rn_l = rid l, rn_r = rid r, rn_v = x\<rparr> \<and> usable t i \<and>
     tree_at t (int i) l \<and> tree_at t (int i) r \<and> i \<notin> set (ids l) \<and> i \<notin> set (ids r) \<and> set (ids l) \<inter> set (ids r) = {}"
  by (auto simp: tree_at_def)

lemma tree_at_frame: "tree_at t p T \<Longrightarrow> frame S t t' \<Longrightarrow> set (ids T) \<inter> S = {} \<Longrightarrow> tree_at t' p T"
proof -
  assume a: "tree_at t p T" "frame S t t'" "set (ids T) \<inter> S = {}"
  then have "shape (bufs t') p T = shape (bufs t) p T" by (intro shape_cong) (auto simp: frame_def)
  with a show ?thesis by (auto simp: tree_at_def frame_def)
qed

lemma tree_at_put: "tree_at t p T \<Longrightarrow> usable t i \<Longrightarrow> i \<notin> set (ids T) \<Longrightarrow> tree_at (put_node i n t) p T"
  by (rule tree_at_frame [where S = "{i}"]) (auto simp: frame_def)

text \<open>A tree with another parent.\<close>

lemma tree_at_parent:
  "tree_at t p (Nod c i l x r) \<Longrightarrow> tree_at (put_node i ((bufs t i)\<lparr>rn_p := q\<rparr>) t) q (Nod c i l x r)"
  by (auto simp: tree_at_Nod intro: tree_at_put)

lemma is_red_rid [simp]: "tree_at t p T \<Longrightarrow> is_red t (rid T) = Inr (col T = kRed)"
  by (cases T) (auto simp: tree_at_Nod)

lemma rbt_node_rid [simp]: "tree_at t p (Nod c i l x r) \<Longrightarrow> rbt_node t (int i) = Inr \<lparr>rn_c = c, rn_p = p, rn_l = rid l, rn_r = rid r, rn_v = x\<rparr>"
  by (simp add: tree_at_Nod)

section \<open>Rotations\<close>

fun rotl :: "('k, 'v) rtree \<Rightarrow> ('k, 'v) rtree" where
  "rotl (Nod c i l x (Nod d j a y r)) = Nod c j (Nod kRed i l x a) y r"
| "rotl T = T"

fun rotr :: "('k, 'v) rtree \<Rightarrow> ('k, 'v) rtree" where
  "rotr (Nod c i (Nod d j l y a) x r) = Nod c j l y (Nod kRed i a x r)"
| "rotr T = T"

fun flip :: "('k, 'v) rtree \<Rightarrow> ('k, 'v) rtree" where
  "flip (Nod c i l x r) = Nod (FlipColor c) i (paint (FlipColor (col l)) l) x (paint (FlipColor (col r)) r)"
| "flip Tip = Tip"

fun lt_tree :: "('k, 'v) rtree \<Rightarrow> ('k, 'v) rtree" where
  "lt_tree (Nod c i l x r) = l"
| "lt_tree Tip = Tip"

fun rt_tree :: "('k, 'v) rtree \<Rightarrow> ('k, 'v) rtree" where
  "rt_tree (Nod c i l x r) = r"
| "rt_tree Tip = Tip"

lemma paint_simps [simp]: "entries (paint c T) = entries T" "ids (paint c T) = ids T" "rid (paint c T) = rid T" "paint c T = Tip \<longleftrightarrow> T = Tip"
  by (cases T; simp)+

text \<open>
  The inner subtree of a rotation gets a new parent; at the level of the store it is a node, or none.
\<close>

definition reparent :: "('k, 'v) rtree \<Rightarrow> int \<Rightarrow> ('k, 'v) rbtree \<Rightarrow> ('k, 'v) rbtree" where
  "reparent T q t = (case T of Tip \<Rightarrow> t | Nod c i l x r \<Rightarrow> put_node i ((bufs t i)\<lparr>rn_p := q\<rparr>) t)"

lemma set_p_if_rid: "tree_at t p T \<Longrightarrow> set_p_if (rid T) q t = Inr (reparent T q t)"
  by (cases T) (simp_all add: reparent_def tree_at_Nod)

lemma reparent_at: "tree_at t p T \<Longrightarrow> tree_at (reparent T q t) q T"
  by (cases T) (simp_all add: reparent_def tree_at_parent)

lemma reparent_moved: "tree_at t p T \<Longrightarrow> moved (set (ids T)) t (reparent T q t)"
  by (cases T) (auto simp: reparent_def tree_at_Nod intro!: moved_put)

lemma reparent_other [simp]:
  "tree_at t p T \<Longrightarrow> i \<notin> set (ids T) \<Longrightarrow> bufs (reparent T q t) i = bufs t i"
  "tree_at t p T \<Longrightarrow> usable (reparent T q t) i = usable t i"
  using reparent_moved [of t p T q] by (auto simp: moved_def frame_def)

lemma RotateLeft_at:
  assumes "tree_at t p (Nod c i l x (Nod kRed j a y r))"
  shows "\<exists>t'. RotateLeft t (int i) = Inr (int j, t') \<and> tree_at t' p (Nod c j (Nod kRed i l x a) y r) \<and>
    moved (set (ids (Nod c i l x (Nod kRed j a y r)))) t t'"
proof -
  let ?S = "set (ids (Nod c i l x (Nod kRed j a y r)))"
  have f: "usable t i" "usable t j" "i \<noteq> j" "bufs t i = \<lparr>rn_c = c, rn_p = p, rn_l = rid l, rn_r = int j, rn_v = x\<rparr>"
    "bufs t j = \<lparr>rn_c = kRed, rn_p = int i, rn_l = rid a, rn_r = rid r, rn_v = y\<rparr>"
    and sub: "tree_at t (int i) l" "tree_at t (int j) a" "tree_at t (int j) r"
    and fresh: "i \<notin> set (ids l)" "i \<notin> set (ids a)" "i \<notin> set (ids r)" "j \<notin> set (ids l)" "j \<notin> set (ids a)" "j \<notin> set (ids r)"
      "set (ids l) \<inter> set (ids a) = {}" "set (ids l) \<inter> set (ids r) = {}" "set (ids a) \<inter> set (ids r) = {}"
    using assms by (auto simp: tree_at_Nod)
  define t1 where "t1 = put_node i \<lparr>rn_c = c, rn_p = p, rn_l = rid l, rn_r = rid a, rn_v = x\<rparr> t"
  have a1: "tree_at t1 (int j) a" unfolding t1_def using sub f fresh by (intro tree_at_put)
  define t2 where "t2 = reparent a (int i) t1"
  have b1: "bufs t1 j = bufs t j" "usable t1 i" "usable t1 j" using f by (simp_all add: t1_def)
  have b2: "bufs t2 i = \<lparr>rn_c = c, rn_p = p, rn_l = rid l, rn_r = rid a, rn_v = x\<rparr>" "bufs t2 j = bufs t j" "usable t2 i" "usable t2 j"
    using f fresh a1 by (simp_all add: t2_def t1_def)
  define t7 where "t7 = put_node i \<lparr>rn_c = kRed, rn_p = int j, rn_l = rid l, rn_r = rid a, rn_v = x\<rparr> (put_node j \<lparr>rn_c = c, rn_p = p, rn_l = int i, rn_r = rid r, rn_v = y\<rparr>
    (put_node i \<lparr>rn_c = c, rn_p = int j, rn_l = rid l, rn_r = rid a, rn_v = x\<rparr> (put_node j \<lparr>rn_c = kRed, rn_p = p, rn_l = int i, rn_r = rid r, rn_v = y\<rparr>
      (put_node j \<lparr>rn_c = kRed, rn_p = int i, rn_l = int i, rn_r = rid r, rn_v = y\<rparr> t2))))"
  have "RotateLeft t (int i) = Inr (int j, t7)"
    unfolding RotateLeft_def t7_def using f b1 b2
    by (simp add: Let_def t1_def [symmetric] set_p_if_rid [OF a1] t2_def [symmetric])
  moreover have m1: "moved ?S t t1" unfolding t1_def using f by (intro moved_put) auto
  have m2: "moved ?S t t2" unfolding t2_def by (rule moved_trans [OF m1 reparent_moved [OF a1]]) auto
  then have "moved ?S t t7" unfolding t7_def using b2 by (intro moved_put) auto
  moreover have "tree_at t2 (int i) a" unfolding t2_def by (rule reparent_at [OF a1])
  moreover have fr: "frame (insert i (set (ids a))) t t2"
    using f(1) reparent_moved [OF a1, THEN moved_frame, of "int i"] unfolding t2_def
    by (auto simp: frame_def t1_def)
  then have "tree_at t2 (int i) l" "tree_at t2 (int j) r"
    using sub fresh by (auto intro: tree_at_frame)
  ultimately show ?thesis using b2 f fresh
    by (intro exI [of _ t7] conjI) (auto simp: tree_at_Nod t7_def intro!: tree_at_put)
qed

lemma RotateRight_at:
  assumes "tree_at t p (Nod c i (Nod kRed j l y a) x r)"
  shows "\<exists>t'. RotateRight t (int i) = Inr (int j, t') \<and> tree_at t' p (Nod c j l y (Nod kRed i a x r)) \<and>
    moved (set (ids (Nod c i (Nod kRed j l y a) x r))) t t'"
proof -
  let ?S = "set (ids (Nod c i (Nod kRed j l y a) x r))"
  have f: "usable t i" "usable t j" "i \<noteq> j" "bufs t i = \<lparr>rn_c = c, rn_p = p, rn_l = int j, rn_r = rid r, rn_v = x\<rparr>"
    "bufs t j = \<lparr>rn_c = kRed, rn_p = int i, rn_l = rid l, rn_r = rid a, rn_v = y\<rparr>"
    and sub: "tree_at t (int j) l" "tree_at t (int j) a" "tree_at t (int i) r"
    and fresh: "i \<notin> set (ids l)" "i \<notin> set (ids a)" "i \<notin> set (ids r)" "j \<notin> set (ids l)" "j \<notin> set (ids a)" "j \<notin> set (ids r)"
      "set (ids l) \<inter> set (ids a) = {}" "set (ids l) \<inter> set (ids r) = {}" "set (ids a) \<inter> set (ids r) = {}"
    using assms by (auto simp: tree_at_Nod)
  define t1 where "t1 = put_node i \<lparr>rn_c = c, rn_p = p, rn_l = rid a, rn_r = rid r, rn_v = x\<rparr> t"
  have a1: "tree_at t1 (int j) a" unfolding t1_def using sub f fresh by (intro tree_at_put)
  define t2 where "t2 = reparent a (int i) t1"
  have b1: "bufs t1 j = bufs t j" "usable t1 i" "usable t1 j" using f by (simp_all add: t1_def)
  have b2: "bufs t2 i = \<lparr>rn_c = c, rn_p = p, rn_l = rid a, rn_r = rid r, rn_v = x\<rparr>" "bufs t2 j = bufs t j" "usable t2 i" "usable t2 j"
    using f fresh a1 by (simp_all add: t2_def t1_def)
  define t7 where "t7 = put_node i \<lparr>rn_c = kRed, rn_p = int j, rn_l = rid a, rn_r = rid r, rn_v = x\<rparr> (put_node j \<lparr>rn_c = c, rn_p = p, rn_l = rid l, rn_r = int i, rn_v = y\<rparr>
    (put_node i \<lparr>rn_c = c, rn_p = int j, rn_l = rid a, rn_r = rid r, rn_v = x\<rparr> (put_node j \<lparr>rn_c = kRed, rn_p = p, rn_l = rid l, rn_r = int i, rn_v = y\<rparr>
      (put_node j \<lparr>rn_c = kRed, rn_p = int i, rn_l = rid l, rn_r = int i, rn_v = y\<rparr> t2))))"
  have "RotateRight t (int i) = Inr (int j, t7)"
    unfolding RotateRight_def t7_def using f b1 b2
    by (simp add: Let_def t1_def [symmetric] set_p_if_rid [OF a1] t2_def [symmetric])
  moreover have m1: "moved ?S t t1" unfolding t1_def using f by (intro moved_put) auto
  have m2: "moved ?S t t2" unfolding t2_def by (rule moved_trans [OF m1 reparent_moved [OF a1]]) auto
  then have "moved ?S t t7" unfolding t7_def using b2 by (intro moved_put) auto
  moreover have "tree_at t2 (int i) a" unfolding t2_def by (rule reparent_at [OF a1])
  moreover have fr: "frame (insert i (set (ids a))) t t2"
    using f(1) reparent_moved [OF a1, THEN moved_frame, of "int i"] unfolding t2_def
    by (auto simp: frame_def t1_def)
  then have "tree_at t2 (int j) l" "tree_at t2 (int i) r"
    using sub fresh by (auto intro: tree_at_frame)
  ultimately show ?thesis using b2 f fresh
    by (intro exI [of _ t7] conjI) (auto simp: tree_at_Nod t7_def intro!: tree_at_put)
qed


lemma recolor_at:
  assumes "tree_at t p (Nod c i l x r)"
  shows "rbt_upd (\<lambda>n. n\<lparr>rn_c := FlipColor (rn_c n)\<rparr>) (Some (int i)) t = Inr (put_node i ((bufs t i)\<lparr>rn_c := FlipColor c\<rparr>) t)"
    "tree_at (put_node i ((bufs t i)\<lparr>rn_c := d\<rparr>) t) p (Nod d i l x r)"
  using assms by (auto simp: tree_at_Nod intro!: tree_at_put)

lemma FlipColors_at:
  assumes "tree_at t p T" "lt_tree T \<noteq> Tip" "rt_tree T \<noteq> Tip"
  shows "\<exists>t'. FlipColors t (rid T) = Inr t' \<and> tree_at t' p (flip T) \<and> moved (set (ids T)) t t'"
proof -
  obtain c i d j l1 y l2 x e k r1 z r2 where T: "T = Nod c i (Nod d j l1 y l2) x (Nod e k r1 z r2)"
    using assms(2,3) by (metis lt_tree.elims rt_tree.simps(1) rtree.exhaust)
  note at = assms(1) [unfolded T]
  define t1 where "t1 = put_node i ((bufs t i)\<lparr>rn_c := FlipColor c\<rparr>) t"
  have t1: "tree_at t1 p (Nod (FlipColor c) i (Nod d j l1 y l2) x (Nod e k r1 z r2))"
    unfolding t1_def by (rule recolor_at(2) [OF at])
  then have j: "tree_at t1 (int i) (Nod d j l1 y l2)" "tree_at t1 (int i) (Nod e k r1 z r2)" by (simp_all add: tree_at_Nod)
  define t2 where "t2 = put_node j ((bufs t1 j)\<lparr>rn_c := FlipColor d\<rparr>) t1"
  have l2: "tree_at t2 (int i) (Nod (FlipColor d) j l1 y l2)" unfolding t2_def by (rule recolor_at(2) [OF j(1)])
  have r2: "tree_at t2 (int i) (Nod e k r1 z r2)"
    unfolding t2_def by (rule tree_at_put [OF j(2)]) (use t1 in \<open>auto simp: tree_at_Nod\<close>)
  define t3 where "t3 = put_node k ((bufs t2 k)\<lparr>rn_c := FlipColor e\<rparr>) t2"
  have r3: "tree_at t3 (int i) (Nod (FlipColor e) k r1 z r2)" unfolding t3_def by (rule recolor_at(2) [OF r2])
  have l3: "tree_at t3 (int i) (Nod (FlipColor d) j l1 y l2)"
    unfolding t3_def by (rule tree_at_put [OF l2]) (use t1 r2 in \<open>auto simp: tree_at_Nod\<close>)
  have i3: "bufs t3 i = bufs t1 i" using t1 unfolding t3_def t2_def by (auto simp: tree_at_Nod)
  have "rbt_at t (Some (int i)) = Inr (bufs t i)" "rn_l (bufs t i) = int j" "rn_r (bufs t i) = int k"
    using at by (simp_all add: tree_at_Nod)
  then have "FlipColors t (rid T) = Inr t3"
    by (simp add: FlipColors_def T recolor_at(1) [OF at, folded t1_def] recolor_at(1) [OF j(1), folded t2_def]
      recolor_at(1) [OF r2, folded t3_def] del: rbt_upd_usable rbt_at_usable)
  moreover have "tree_at t3 p (flip T)" using l3 r3 i3 t1 by (auto simp: T tree_at_Nod t3_def t2_def)
  moreover have "moved (set (ids T)) t t3"
    unfolding t3_def t2_def t1_def using at by (intro moved_put moved_refl) (auto simp: T tree_at_Nod)
  ultimately show ?thesis by blast
qed

section \<open>Replacing a subtree\<close>

lemma set_l_at:
  assumes "tree_at t p (Nod c i l x r)" "frame S t t1" "tree_at t1 (int i) l'" "i \<notin> S" "set (ids r) \<inter> S = {}" "set (ids l') \<subseteq> S"
  shows "\<exists>t2. set_l (int i) (rid l') t1 = Inr t2 \<and> tree_at t2 p (Nod c i l' x r) \<and> moved {i} t1 t2"
proof -
  have i: "usable t1 i" "bufs t1 i = bufs t i" using assms(1,2,4) by (auto simp: frame_def tree_at_Nod)
  have "tree_at t1 (int i) r" using assms(1,2,5) by (auto simp: tree_at_Nod intro: tree_at_frame)
  then have "tree_at (put_node i ((bufs t1 i)\<lparr>rn_l := rid l'\<rparr>) t1) p (Nod c i l' x r)"
    using assms i by (auto simp: tree_at_Nod intro!: tree_at_put)
  moreover have "moved {i} t1 (put_node i ((bufs t1 i)\<lparr>rn_l := rid l'\<rparr>) t1)" using i by (intro moved_put) auto
  ultimately show ?thesis using i by simp
qed

lemma set_r_at:
  assumes "tree_at t p (Nod c i l x r)" "frame S t t1" "tree_at t1 (int i) r'" "i \<notin> S" "set (ids l) \<inter> S = {}" "set (ids r') \<subseteq> S"
  shows "\<exists>t2. set_r (int i) (rid r') t1 = Inr t2 \<and> tree_at t2 p (Nod c i l x r') \<and> moved {i} t1 t2"
proof -
  have i: "usable t1 i" "bufs t1 i = bufs t i" using assms(1,2,4) by (auto simp: frame_def tree_at_Nod)
  have "tree_at t1 (int i) l" using assms(1,2,5) by (auto simp: tree_at_Nod intro: tree_at_frame)
  then have "tree_at (put_node i ((bufs t1 i)\<lparr>rn_r := rid r'\<rparr>) t1) p (Nod c i l x r')"
    using assms i by (auto simp: tree_at_Nod intro!: tree_at_put)
  moreover have "moved {i} t1 (put_node i ((bufs t1 i)\<lparr>rn_r := rid r'\<rparr>) t1)" using i by (intro moved_put) auto
  ultimately show ?thesis using i by simp
qed

section \<open>Balancing\<close>

definition turns :: "(int \<times> ('k, 'v) rbtree) result \<Rightarrow> ('k, 'v) rbtree \<Rightarrow> int \<Rightarrow> ('k, 'v) rtree \<Rightarrow> ('k, 'v) rtree \<Rightarrow> bool" where
  "turns out t p T T' \<longleftrightarrow> entries T' = entries T \<and>
     (\<exists>t'. out = Inr (rid T', t') \<and> tree_at t' p T' \<and> moved (set (ids T)) t t')"

lemma turnsE:
  assumes "turns out t p T T'"
  obtains t' where "out = Inr (rid T', t')" "tree_at t' p T'" "moved (set (ids T)) t t'" "entries T' = entries T" "ids T' = ids T"
  using assms by (auto simp: turns_def ids_def)

lemma turnsI: "out = Inr (rid T', t') \<Longrightarrow> tree_at t' p T' \<Longrightarrow> moved (set (ids T)) t t' \<Longrightarrow> entries T' = entries T \<Longrightarrow> turns out t p T T'"
  by (auto simp: turns_def)

lemma turns_refl: "tree_at t p T \<Longrightarrow> turns (Inr (rid T, t)) t p T T"
  by (auto simp: turns_def)

lemma turns_trans:
  assumes "turns out t p T T1" "\<And>t1. tree_at t1 p T1 \<Longrightarrow> turns (f (rid T1, t1)) t1 p T1 T2"
  shows "turns (rbind out f) t p T T2"
proof -
  obtain t1 where t1: "out = Inr (rid T1, t1)" "tree_at t1 p T1" "moved (set (ids T)) t t1" "entries T1 = entries T" "ids T1 = ids T"
    by (rule turnsE [OF assms(1)])
  obtain t2 where "f (rid T1, t1) = Inr (rid T2, t2)" "tree_at t2 p T2" "moved (set (ids T1)) t1 t2" "entries T2 = entries T1"
    by (rule turnsE [OF assms(2) [OF t1(2)]])
  with t1 show ?thesis by (intro turnsI [of _ _ t2]) (auto intro: moved_trans)
qed

lemma red_Nod: "col T = kRed \<Longrightarrow> T \<noteq> Tip"
  by auto

lemma rotl_turns: "tree_at t p T \<Longrightarrow> col (rt_tree T) = kRed \<Longrightarrow> turns (RotateLeft t (rid T)) t p T (rotl T)"
proof -
  assume a: "tree_at t p T" "col (rt_tree T) = kRed"
  then obtain c i l x j b y r where T: "T = Nod c i l x (Nod kRed j b y r)"
    by (metis col.simps color.distinct(1) rt_tree.elims rtree.exhaust)
  then show ?thesis using RotateLeft_at [of t p c i l x j b y r] a by (auto simp: turns_def)
qed

lemma rotr_turns: "tree_at t p T \<Longrightarrow> col (lt_tree T) = kRed \<Longrightarrow> turns (RotateRight t (rid T)) t p T (rotr T)"
proof -
  assume a: "tree_at t p T" "col (lt_tree T) = kRed"
  then obtain c i l y j b x r where T: "T = Nod c i (Nod kRed j l y b) x r"
    by (metis col.simps color.distinct(1) lt_tree.elims rtree.exhaust)
  then show ?thesis using RotateRight_at [of t p c i j l y b x r] a by (auto simp: turns_def)
qed

lemma flip_turns:
  assumes "tree_at t p T" "lt_tree T \<noteq> Tip" "rt_tree T \<noteq> Tip"
  shows "turns (rbind (FlipColors t (rid T)) (\<lambda>t1. Inr (rid T, t1))) t p T (flip T)"
  using FlipColors_at [OF assms] assms(2) by (cases T) (auto simp: turns_def)

definition lean :: "('k, 'v) rtree \<Rightarrow> ('k, 'v) rtree" where
  "lean T = (if col (rt_tree T) = kRed then rotl T else T)"

definition unstack :: "('k, 'v) rtree \<Rightarrow> ('k, 'v) rtree" where
  "unstack T = (if col (lt_tree T) = kRed \<and> col (lt_tree (lt_tree T)) = kRed then rotr T else T)"

definition flipb :: "('k, 'v) rtree \<Rightarrow> ('k, 'v) rtree" where
  "flipb T = (if col (lt_tree T) = kRed \<and> col (rt_tree T) = kRed then flip T else T)"

definition bal :: "('k, 'v) rtree \<Rightarrow> ('k, 'v) rtree" where
  "bal T = flipb (unstack (lean T))"

lemma turns_check: "turns out t p T T' \<Longrightarrow> T' \<noteq> Tip \<Longrightarrow>
  turns (rbind out (\<lambda>(j, t1). rbind (GetPointer j) (\<lambda>q. require (q \<noteq> None) (Inr (j, t1))))) t p T T'"
  by (auto simp: turns_def GetPointer_rid)

lemma rot_Tip [simp]: "rotl T = Tip \<longleftrightarrow> T = Tip" "rotr T = Tip \<longleftrightarrow> T = Tip" "flip T = Tip \<longleftrightarrow> T = Tip"
  subgoal by (cases T rule: rotl.cases) simp_all
  subgoal by (cases T rule: rotr.cases) simp_all
  subgoal by (cases T) simp_all
  done

lemma lean_turns: "tree_at t p T \<Longrightarrow> T \<noteq> Tip \<Longrightarrow> turns (lean_left t (rid T)) t p T (lean T)"
  using turns_check [OF rotl_turns [of t p T]] turns_refl [of t p T]
  by (cases T) (auto simp: lean_left_def lean_def tree_at_Nod)

lemma unstack_turns: "tree_at t p T \<Longrightarrow> T \<noteq> Tip \<Longrightarrow> turns (split_reds t (rid T)) t p T (unstack T)"
  using turns_check [OF rotr_turns [of t p T]] turns_refl [of t p T]
  by (cases T; cases "lt_tree T") (auto simp: split_reds_def unstack_def tree_at_Nod)

lemma flipb_turns: "tree_at t p T \<Longrightarrow> T \<noteq> Tip \<Longrightarrow> turns (flip_if_both t (rid T)) t p T (flipb T)"
proof (cases "col (lt_tree T) = kRed \<and> col (rt_tree T) = kRed")
  case True
  assume a: "tree_at t p T" "T \<noteq> Tip"
  have "turns (rbind (FlipColors t (rid T)) (\<lambda>t1. Inr (rid T, t1))) t p T (flip T)"
    using a(1) True by (intro flip_turns red_Nod) simp_all
  with a True show ?thesis by (cases T) (auto simp: flip_if_both_def flipb_def tree_at_Nod)
next
  case False
  assume a: "tree_at t p T" "T \<noteq> Tip"
  from turns_refl [OF a(1)] a False show ?thesis by (cases T) (auto simp: flip_if_both_def flipb_def tree_at_Nod)
qed

lemma KeepBalance_turns:
  assumes "tree_at t p T" "T \<noteq> Tip"
  shows "turns (KeepBalance t (rid T)) t p T (bal T)"
  unfolding KeepBalance_def bal_def
proof (rule turns_trans [OF lean_turns [OF assms]])
  fix t1 assume "tree_at t1 p (lean T)"
  moreover have ne: "lean T \<noteq> Tip" "unstack (lean T) \<noteq> Tip" using assms(2) by (simp_all add: lean_def unstack_def)
  ultimately show "turns (case (rid (lean T), t1) of (i1, t1) \<Rightarrow> rbind (split_reds t1 i1) (\<lambda>(i2, t2). flip_if_both t2 i2)) t1 p (lean T)
      (flipb (unstack (lean T)))"
    by (auto intro!: turns_trans [OF unstack_turns] flipb_turns)
qed

text \<open>The tree is ordered by its keys.\<close>

lemma rot_entries [simp]: "entries (rotl T) = entries T" "entries (rotr T) = entries T" "entries (flip T) = entries T"
  subgoal by (cases T rule: rotl.cases) simp_all
  subgoal by (cases T rule: rotr.cases) simp_all
  subgoal by (cases T) simp_all
  done

lemma bal_entries [simp]: "entries (bal T) = entries T" "ids (bal T) = ids T" "keys (bal T) = keys T" "bal T = Tip \<longleftrightarrow> T = Tip"
  by (simp_all add: bal_def flipb_def unstack_def lean_def ids_def keys_def)

section \<open>The balance of the tree\<close>

text \<open>The trees the algorithm keeps: no red right child, no red child of a red node.\<close>

fun lb :: "('k, 'v) rtree \<Rightarrow> bool" where
  "lb Tip = True"
| "lb (Nod c i l x r) \<longleftrightarrow> lb l \<and> lb r \<and> col r = kBlack \<and> bh l = bh r \<and> (c = kRed \<longrightarrow> col l = kBlack)"

lemma FlipColor_simps [simp]: "FlipColor kRed = kBlack" "FlipColor kBlack = kRed"
  by (simp_all add: FlipColor_def)

lemma red_tree: "col T = kRed \<longleftrightarrow> (\<exists>i l x r. T = Nod kRed i l x r)"
  by (cases T) auto

lemmas bal_defs = bal_def flipb_def unstack_def lean_def

lemma bal_id: "col r = kBlack \<Longrightarrow> \<not> (col l = kRed \<and> col (lt_tree l) = kRed) \<Longrightarrow> bal (Nod c i l x r) = Nod c i l x r"
  by (auto simp: bal_defs)

lemma lb_red_left: "lb T \<Longrightarrow> col T = kRed \<Longrightarrow> col (lt_tree T) = kBlack \<and> col (rt_tree T) = kBlack"
  by (cases T) auto

lemma bal_black:
  assumes "lb (paint kBlack l)" "lb r" "col r = kBlack \<or> lb l" "bh l = bh r"
  shows "lb (bal (Nod kBlack i l x r)) \<and> bh (bal (Nod kBlack i l x r)) = Suc (bh r)"
proof (cases "col r = kRed")
  case True
  then obtain j a y b where r: "r = Nod kRed j a y b" by (auto simp: red_tree)
  have l: "lb l" using assms(3) True by simp
  show ?thesis
  proof (cases "col l = kRed")
    case True
    then obtain j' a' y' b' where "l = Nod kRed j' a' y' b'" by (auto simp: red_tree)
    with r l assms show ?thesis by (simp add: bal_defs)
  next
    case False
    with r l assms show ?thesis by (simp add: bal_defs)
  qed
next
  case False
  show ?thesis
  proof (cases "col l = kRed \<and> col (lt_tree l) = kRed")
    case True
    then obtain j a y b j' a' y' b' where "l = Nod kRed j (Nod kRed j' a' y' b') y b" by (cases l) (auto simp: red_tree)
    with False assms show ?thesis by (simp add: bal_defs)
  next
    case b: False
    then have "lb l" using assms(1) by (cases l) auto
    with b False assms show ?thesis by (simp add: bal_id)
  qed
qed

lemma bal_red:
  assumes "lb l" "lb r" "col l = kBlack" "bh l = bh r"
  shows "lb (paint kBlack (bal (Nod kRed i l x r))) \<and> bh (bal (Nod kRed i l x r)) = bh r"
proof (cases "col r = kRed")
  case True
  then obtain j a y b where "r = Nod kRed j a y b" by (auto simp: red_tree)
  with assms show ?thesis by (simp add: bal_defs)
next
  case False
  with assms show ?thesis by (simp add: bal_id)
qed

end
