(* ===== verification/RBTree_Insert.thy ===== *)
theory RBTree_Insert
  imports RBTree_Shape
begin

text \<open>
  Lookup and insertion of \<open>Fx_RBTree\<close> on a store that holds a tree.
\<close>

section \<open>Lookup\<close>

fun seek :: "'k \<Rightarrow> (nat \<times> 'k \<times> 'v) list \<Rightarrow> int" where
  "seek k [] = - 1"
| "seek k ((i, x) # xs) = (if fst x = k then int i else seek k xs)"

lemma set_keys: "set (keys T) = fst ` snd ` set (entries T)"
  by (simp add: keys_def image_comp)

lemma seek_absent: "k \<notin> fst ` snd ` set xs \<Longrightarrow> seek k xs = - 1"
  by (induction k xs rule: seek.induct) auto

lemma seek_append: "seek k (xs @ ys) = (if k \<in> fst ` snd ` set xs then seek k xs else seek k ys)"
  by (induction k xs rule: seek.induct) auto

lemma rbt_Get_at:
  fixes k :: "'k :: linorder"
  assumes "tree_at t p T" "sorted_wrt (<) (keys T)"
  shows "rbt_Get (<) t (rid T) k = Some (Inr (seek k (entries T)))"
  using assms
proof (induction T arbitrary: p)
  case Tip
  then show ?case by (simp add: rbt_Get.simps)
next
  case (Nod c i l x r)
  have sub: "tree_at t (int i) l" "tree_at t (int i) r" "sorted_wrt (<) (keys l)" "sorted_wrt (<) (keys r)"
    using Nod.prems by (auto simp: tree_at_Nod sorted_wrt_append)
  have lr: "\<forall>a\<in>set (keys l). a < fst x" "\<forall>a\<in>set (keys r). fst x < a" using Nod.prems(2) by (auto simp: sorted_wrt_append)
  have n: "rbt_Get (<) t (int i) k = (if fst x < k then rbt_Get (<) t (rid r) k
      else if k < fst x then rbt_Get (<) t (rid l) k else Some (Inr (int i)))"
    using Nod.prems(1) by (subst rbt_Get.simps) (simp add: tree_at_Nod)
  have e: "seek k (entries l @ (i, x) # entries r) =
      (if k \<in> set (keys l) then seek k (entries l) else if fst x = k then int i else seek k (entries r))"
    by (simp add: seek_append set_keys)
  consider "k < fst x" | "k = fst x" | "fst x < k" by fastforce
  then show ?case
  proof cases
    case 1
    then have "k \<notin> set (keys r)" using lr by auto
    then show ?thesis using 1 n e Nod.IH(1) [OF sub(1,3)] by (auto simp: seek_absent set_keys)
  next
    case 2
    then have "k \<notin> set (keys l)" using lr by auto
    then show ?thesis using 2 n e by simp
  next
    case 3
    then have "k \<notin> set (keys l)" using lr by auto
    then show ?thesis using 3 n e Nod.IH(2) [OF sub(2,4)] by auto
  qed
qed

section \<open>Insertion\<close>

lemma rbt_new_at:
  assumes "live L cap U t" "card U < cap"
  obtains i t' where "rbt_new t k v = Inr (int i, t')" "i \<notin> U" "tree_at t' (- 1) (Nod kRed i Tip (k, v) Tip)" "frame {i} t t'"
    "rt_md t' = (rt_md t)\<lparr>rm_size := rm_size (rt_md t) + 1\<rparr>" "live L cap (insert i U) t'"
proof -
  obtain i m where i: "GetSlice (rt_ml t) = Inr (int i, m)" "i \<notin> U" "ml_slab L m cap (insert i U) (bufs t)"
    using ml.get_law [of L "rt_ml t" cap U "bufs t"] assms by (auto simp: live_def)
  let ?t1 = "t\<lparr>rt_ml := m\<rparr>"
  have b: "bufs ?t1 = bufs t" using i(3) by (simp add: bufs_def ml_slab_def)
  have lv: "live L cap (insert i U) ?t1" using i(3) b by (simp add: live_def)
  have len: "usable ?t1 j = usable t j" for j
    using i(3) assms(1) by (auto simp: live_def usable_def ml_slab_def layout_def)
  have u: "usable ?t1 i" using lv by (rule live_usable) simp
  let ?t2 = "put_node i (rbnode_Init k v) ?t1"
  let ?t3 = "?t2\<lparr>rt_md := (rt_md ?t2)\<lparr>rm_size := rm_size (rt_md ?t2) + 1\<rparr>\<rparr>"
  have "rbt_new t k v = Inr (int i, ?t3)" using i(1) u by (simp add: rbt_new_def)
  moreover have "tree_at ?t3 (- 1) (Nod kRed i Tip (k, v) Tip)" using u by (simp add: tree_at_Nod rbnode_Init_def)
  moreover have "frame {i} t ?t3" using u len b by (auto simp: frame_def)
  moreover have "live L cap (insert i U) ?t3" using live_put [OF lv] by simp
  ultimately show thesis using that i(2) by simp
qed

fun tput :: "nat \<Rightarrow> 'k::linorder \<Rightarrow> 'v \<Rightarrow> ('k, 'v) rtree \<Rightarrow> ('k, 'v) rtree" where
  "tput n k v Tip = Nod kRed n Tip (k, v) Tip"
| "tput n k v (Nod c i l x r) =
     (if k < fst x then bal (Nod c i (tput n k v l) x r)
      else if fst x < k then bal (Nod c i l x (tput n k v r)) else Nod c i l (fst x, v) r)"

lemma link_l_at:
  assumes "tree_at t p (Nod c i l x r)" "frame S t t1" "tree_at t1 q l'" "l' \<noteq> Tip" "i \<notin> S" "set (ids r) \<inter> S = {}" "set (ids l') \<subseteq> S"
  shows "\<exists>t2 t3. set_l (int i) (rid l') t1 = Inr t2 \<and> set_p (rid l') (int i) t2 = Inr t3 \<and> tree_at t3 p (Nod c i l' x r) \<and>
    moved (insert i (set (ids l'))) t1 t3"
proof -
  obtain d j a y b where l': "l' = Nod d j a y b" using assms(4) by (cases l') auto
  have i: "usable t1 i" "bufs t1 i = bufs t i" using assms(1,2,5) by (auto simp: frame_def tree_at_Nod)
  have j: "usable t1 j" "i \<noteq> j" "i \<notin> set (ids l')" using assms(3,5,7) by (auto simp: l' tree_at_Nod)
  let ?t2 = "put_node i ((bufs t1 i)\<lparr>rn_l := rid l'\<rparr>) t1"
  let ?t3 = "put_node j ((bufs ?t2 j)\<lparr>rn_p := int i\<rparr>) ?t2"
  have "tree_at t1 (int i) r" using assms(1,2,6) by (auto simp: tree_at_Nod intro: tree_at_frame)
  then have "tree_at ?t3 (int i) r" using assms i j by (intro tree_at_put) (auto simp: l' tree_at_Nod)
  moreover have "tree_at ?t2 q l'" using assms(3) i(1) j(3) by (rule tree_at_put)
  then have "tree_at ?t3 (int i) l'" unfolding l' by (rule tree_at_parent)
  ultimately have "tree_at ?t3 p (Nod c i l' x r)" using assms(1,5-7) i j by (auto simp: tree_at_Nod)
  moreover have "moved (insert i (set (ids l'))) t1 ?t3" using i j by (intro moved_put) (auto simp: l')
  moreover have "set_l (int i) (rid l') t1 = Inr ?t2" "set_p (rid l') (int i) ?t2 = Inr ?t3" using i j by (simp_all add: l')
  ultimately show ?thesis by blast
qed

lemma link_r_at:
  assumes "tree_at t p (Nod c i l x r)" "frame S t t1" "tree_at t1 q r'" "r' \<noteq> Tip" "i \<notin> S" "set (ids l) \<inter> S = {}" "set (ids r') \<subseteq> S"
  shows "\<exists>t2 t3. set_r (int i) (rid r') t1 = Inr t2 \<and> set_p (rid r') (int i) t2 = Inr t3 \<and> tree_at t3 p (Nod c i l x r') \<and>
    moved (insert i (set (ids r'))) t1 t3"
proof -
  obtain d j a y b where r': "r' = Nod d j a y b" using assms(4) by (cases r') auto
  have i: "usable t1 i" "bufs t1 i = bufs t i" using assms(1,2,5) by (auto simp: frame_def tree_at_Nod)
  have j: "usable t1 j" "i \<noteq> j" "i \<notin> set (ids r')" using assms(3,5,7) by (auto simp: r' tree_at_Nod)
  let ?t2 = "put_node i ((bufs t1 i)\<lparr>rn_r := rid r'\<rparr>) t1"
  let ?t3 = "put_node j ((bufs ?t2 j)\<lparr>rn_p := int i\<rparr>) ?t2"
  have "tree_at t1 (int i) l" using assms(1,2,6) by (auto simp: tree_at_Nod intro: tree_at_frame)
  then have "tree_at ?t3 (int i) l" using assms i j by (intro tree_at_put) (auto simp: r' tree_at_Nod)
  moreover have "tree_at ?t2 q r'" using assms(3) i(1) j(3) by (rule tree_at_put)
  then have "tree_at ?t3 (int i) r'" unfolding r' by (rule tree_at_parent)
  ultimately have "tree_at ?t3 p (Nod c i l x r')" using assms(1,5-7) i j by (auto simp: tree_at_Nod)
  moreover have "moved (insert i (set (ids r'))) t1 ?t3" using i j by (intro moved_put) (auto simp: r')
  moreover have "set_r (int i) (rid r') t1 = Inr ?t2" "set_p (rid r') (int i) ?t2 = Inr ?t3" using i j by (simp_all add: r')
  ultimately show ?thesis by blast
qed

text \<open>What one call of \<open>Put\<close> does to the store.\<close>

definition puts :: "ml_layout \<Rightarrow> nat \<Rightarrow> nat set \<Rightarrow> ('k::linorder, 'v) rbtree \<Rightarrow> int \<Rightarrow> ('k, 'v) rtree \<Rightarrow> 'k \<Rightarrow> 'v \<Rightarrow> nat \<Rightarrow>
    ('k, 'v) rbtree \<Rightarrow> bool" where
  "puts L cap U t p T k v n t' \<longleftrightarrow> n \<notin> U \<and> tree_at t' p (tput n k v T) \<and> frame (insert n (set (ids T))) t t' \<and>
     rt_md t' = (rt_md t)\<lparr>rm_size := rm_size (rt_md t) + 1\<rparr> \<and> live L cap (insert n U) t'"

lemma tput_ids: "k \<notin> set (keys T) \<Longrightarrow> set (ids (tput n k v T)) = insert n (set (ids T))"
  by (induction T) auto

lemma tput_Tip [simp]: "tput n k v T \<noteq> Tip"
  by (cases T) auto

lemma puts_step:
  assumes "puts L cap U t q S k v n t1" "set (ids S) \<subseteq> set (ids T)" "set (ids T) \<subseteq> U"
    and "tree_at t3 p T'" "moved (insert i (insert n (set (ids S)))) t1 t3" "i \<in> set (ids T)" "set (ids T') = insert n (set (ids T))"
    and "bal T' = tput n k v T" "T' \<noteq> Tip"
  shows "\<exists>t'. KeepBalance t3 (rid T') = Inr (rid (tput n k v T), t') \<and> puts L cap U t p T k v n t'"
proof -
  obtain t' where t': "KeepBalance t3 (rid T') = Inr (rid (bal T'), t')" "tree_at t' p (bal T')" "moved (set (ids T')) t3 t'"
    by (rule turnsE [OF KeepBalance_turns [OF assms(4,9)]])
  have m: "moved (insert n (set (ids T))) t1 t'"
    by (rule moved_trans [OF assms(5) t'(3)]) (use assms(2,6,7) in auto)
  have "frame (insert n (set (ids T))) t t'"
    using assms(1) by (intro frame_trans [OF _ moved_frame [OF m]]) (use assms(2) in \<open>auto simp: puts_def\<close>)
  moreover have "live L cap (insert n U) t'" using assms(1,3) by (intro moved_live [OF m]) (auto simp: puts_def)
  ultimately show ?thesis using t' assms(1,8) moved_md [OF m] by (auto simp: puts_def)
qed

lemma rbt_Put_at:
  assumes "tree_at t p T" "k \<notin> set (keys T)" "live L cap U t" "set (ids T) \<subseteq> U" "card U < cap"
  shows "\<exists>n t'. rbt_Put (<) t (rid T) k v = Some (Inr (rid (tput n k v T), t')) \<and>
    puts L cap U t (if T = Tip then - 1 else p) T k v n t'"
  using assms
proof (induction T arbitrary: p)
  case Tip
  obtain n t' where "rbt_new t k v = Inr (int n, t')" "n \<notin> U" "tree_at t' (- 1) (Nod kRed n Tip (k, v) Tip)" "frame {n} t t'"
    "rt_md t' = (rt_md t)\<lparr>rm_size := rm_size (rt_md t) + 1\<rparr>" "live L cap (insert n U) t'"
    by (rule rbt_new_at [OF Tip.prems(3,5)])
  then show ?case by (intro exI [of _ n] exI [of _ t']) (simp add: rbt_Put.simps puts_def)
next
  case (Nod c i l x r)
  have sub: "tree_at t (int i) l" "tree_at t (int i) r" "set (ids l) \<subseteq> U" "set (ids r) \<subseteq> U" "i \<in> U"
    "i \<notin> set (ids l)" "i \<notin> set (ids r)" "set (ids l) \<inter> set (ids r) = {}"
    using Nod.prems by (auto simp: tree_at_Nod)
  have kx: "k \<noteq> fst x" "k \<notin> set (keys l)" "k \<notin> set (keys r)" using Nod.prems(2) by auto
  have n: "rbt_Put (<) t (int i) k v = (if k < fst x
      then fbind (rbt_Put (<) t (rid l) k v) (\<lambda>(j, t1).
           Some (rbind (set_l (int i) j t1) (\<lambda>t2. rbind (set_p j (int i) t2) (\<lambda>t3. KeepBalance t3 (int i)))))
      else fbind (rbt_Put (<) t (rid r) k v) (\<lambda>(j, t1).
           Some (rbind (set_r (int i) j t1) (\<lambda>t2. rbind (set_p j (int i) t2) (\<lambda>t3. KeepBalance t3 (int i))))))"
    using Nod.prems(1) kx(1) by (subst rbt_Put.simps) (auto simp: tree_at_Nod)
  show ?case
  proof (cases "k < fst x")
    case True
    obtain n t1 where put: "rbt_Put (<) t (rid l) k v = Some (Inr (rid (tput n k v l), t1))"
      "puts L cap U t (if l = Tip then - 1 else int i) l k v n t1"
      using Nod.IH(1) [OF sub(1) kx(2) Nod.prems(3) sub(3) Nod.prems(5)] by blast
    let ?l = "tput n k v l"
    have ids: "set (ids ?l) = insert n (set (ids l))" by (rule tput_ids [OF kx(2)])
    have "\<exists>t2 t3. set_l (int i) (rid ?l) t1 = Inr t2 \<and> set_p (rid ?l) (int i) t2 = Inr t3 \<and> tree_at t3 p (Nod c i ?l x r) \<and>
        moved (insert i (set (ids ?l))) t1 t3"
      by (rule link_l_at [OF Nod.prems(1), where S = "insert n (set (ids l))" and q = "if l = Tip then - 1 else int i"])
        (use put(2) sub ids in \<open>auto simp: puts_def\<close>)
    then obtain t2 t3 where t3: "set_l (int i) (rid ?l) t1 = Inr t2" "set_p (rid ?l) (int i) t2 = Inr t3"
      "tree_at t3 p (Nod c i ?l x r)" "moved (insert i (insert n (set (ids l)))) t1 t3" unfolding ids by blast
    have "\<exists>t'. KeepBalance t3 (rid (Nod c i ?l x r)) = Inr (rid (tput n k v (Nod c i l x r)), t') \<and>
        puts L cap U t p (Nod c i l x r) k v n t'"
      by (rule puts_step [OF put(2) _ Nod.prems(4) t3(3,4)]) (use True ids in auto)
    then show ?thesis using True put(1) t3 n by auto
  next
    case False
    then have gt: "fst x < k" using kx(1) by auto
    obtain n t1 where put: "rbt_Put (<) t (rid r) k v = Some (Inr (rid (tput n k v r), t1))"
      "puts L cap U t (if r = Tip then - 1 else int i) r k v n t1"
      using Nod.IH(2) [OF sub(2) kx(3) Nod.prems(3) sub(4) Nod.prems(5)] by blast
    let ?r = "tput n k v r"
    have ids: "set (ids ?r) = insert n (set (ids r))" by (rule tput_ids [OF kx(3)])
    have "\<exists>t2 t3. set_r (int i) (rid ?r) t1 = Inr t2 \<and> set_p (rid ?r) (int i) t2 = Inr t3 \<and> tree_at t3 p (Nod c i l x ?r) \<and>
        moved (insert i (set (ids ?r))) t1 t3"
      by (rule link_r_at [OF Nod.prems(1), where S = "insert n (set (ids r))" and q = "if r = Tip then - 1 else int i"])
        (use put(2) sub ids in \<open>auto simp: puts_def\<close>)
    then obtain t2 t3 where t3: "set_r (int i) (rid ?r) t1 = Inr t2" "set_p (rid ?r) (int i) t2 = Inr t3"
      "tree_at t3 p (Nod c i l x ?r)" "moved (insert i (insert n (set (ids r)))) t1 t3" unfolding ids by blast
    have "\<exists>t'. KeepBalance t3 (rid (Nod c i l x ?r)) = Inr (rid (tput n k v (Nod c i l x r)), t') \<and>
        puts L cap U t p (Nod c i l x r) k v n t'"
      by (rule puts_step [OF put(2) _ Nod.prems(4) t3(3,4)]) (use gt False ids in auto)
    then show ?thesis using False put(1) t3 n by auto
  qed
qed

section \<open>What an insertion keeps\<close>

lemma lb_unstacked: "lb T \<Longrightarrow> \<not> (col T = kRed \<and> col (lt_tree T) = kRed)"
  using lb_red_left by fastforce

lemma lb_paint [simp]: "lb T \<Longrightarrow> lb (paint kBlack T)"
  by (cases T) auto

text \<open>The entries after an insertion, and the balance.\<close>

fun ins_entry :: "nat \<Rightarrow> 'k::linorder \<Rightarrow> 'v \<Rightarrow> (nat \<times> 'k \<times> 'v) list \<Rightarrow> (nat \<times> 'k \<times> 'v) list" where
  "ins_entry n k v [] = [(n, k, v)]"
| "ins_entry n k v ((i, x) # xs) = (if k < fst x then (n, k, v) # (i, x) # xs else (i, x) # ins_entry n k v xs)"

lemma ins_entry_append:
  "\<forall>e\<in>set xs. fst (snd e) < fst y \<Longrightarrow>
   ins_entry n k v (xs @ (i, y) # ys) = (if k < fst y then ins_entry n k v xs @ (i, y) # ys else xs @ (i, y) # ins_entry n k v ys)"
  by (induction n k v xs rule: ins_entry.induct) auto

lemma tput_entries:
  "sorted_wrt (<) (keys T) \<Longrightarrow> k \<notin> set (keys T) \<Longrightarrow> entries (tput n k v T) = ins_entry n k v (entries T)"
proof (induction T)
  case (Nod c i l x r)
  have "\<forall>e\<in>set (entries l). fst (snd e) < fst x" using Nod.prems(1) by (auto simp: sorted_wrt_append set_keys)
  with Nod show ?case by (auto simp: ins_entry_append sorted_wrt_append)
qed simp

lemma tput_balanced:
  "lb T \<Longrightarrow> k \<notin> set (keys T) \<Longrightarrow>
   bh (tput n k v T) = bh T \<and> lb (paint kBlack (tput n k v T)) \<and> (col T = kBlack \<longrightarrow> lb (tput n k v T))"
proof (induction T)
  case (Nod c i l x r)
  have l: "bh (tput n k v l) = bh l" "lb (paint kBlack (tput n k v l))" "col l = kBlack \<Longrightarrow> lb (tput n k v l)"
    and r: "bh (tput n k v r) = bh r" "lb (tput n k v r)" using Nod by auto
  show ?case
  proof (cases c)
    case kRed
    have bl: "col l = kBlack" "col r = kBlack" using Nod.prems(1) kRed by simp_all
    moreover have "bal (Nod kRed i (tput n k v l) x r) = Nod kRed i (tput n k v l) x r"
      by (rule bal_id [OF bl(2) lb_unstacked [OF l(3) [OF bl(1)]]])
    ultimately show ?thesis using kRed Nod.prems l r bal_red [of l "tput n k v r" i x] by auto
  next
    case kBlack
    then show ?thesis
      using Nod.prems l r bal_black [of "tput n k v l" r i x] bal_black [of l "tput n k v r" i x] by auto
  qed
qed simp

end
