(* ===== verification/RBTree_Iterate.thy ===== *)
theory RBTree_Iterate
  imports RBTree_Shape
begin

text \<open>
  The iterators of \<open>Fx_RBTree\<close> on a store that holds a tree: from the first node, up and down the
  links, through the entries in order.
\<close>

section \<open>Moving from node to node\<close>

lemma ids_Nil [simp]: "ids T = [] \<longleftrightarrow> T = Tip"
  by (cases T) simp_all

lemma min_loop_at: "tree_at t p T \<Longrightarrow> T \<noteq> Tip \<Longrightarrow> min_loop t (rid T) = Some (Inr (int (hd (ids T))))"
proof (induction T arbitrary: p)
  case (Nod c i l x r)
  have "min_loop t (int i) = (if l \<noteq> Tip then min_loop t (rid l) else Some (Inr (int i)))"
    using Nod.prems(1) by (subst min_loop.simps) (simp add: tree_at_Nod)
  with Nod show ?case by (cases "l = Tip") (auto simp: tree_at_Nod)
qed simp

lemma max_loop_at: "tree_at t p T \<Longrightarrow> T \<noteq> Tip \<Longrightarrow> max_loop t (rid T) = Some (Inr (int (last (ids T))))"
proof (induction T arbitrary: p)
  case (Nod c i l x r)
  have "max_loop t (int i) = (if r \<noteq> Tip then max_loop t (rid r) else Some (Inr (int i)))"
    using Nod.prems(1) by (subst max_loop.simps) (simp add: tree_at_Nod)
  with Nod show ?case by (cases "r = Tip") (auto simp: tree_at_Nod)
qed simp

lemma GetMin_at: "tree_at t p T \<Longrightarrow> T \<noteq> Tip \<Longrightarrow> GetMin t (rid T) = Some (Inr (int (hd (ids T))))"
  using min_loop_at [of t p T] by (cases T) (simp_all add: GetMin_def)

lemma GetMax_at: "tree_at t p T \<Longrightarrow> T \<noteq> Tip \<Longrightarrow> GetMax t (rid T) = Some (Inr (int (last (ids T))))"
  using max_loop_at [of t p T] by (cases T) (simp_all add: GetMax_def)

lemma up_node:
  assumes "tree_at t p (Nod c i l x r)"
  shows "next_up t cur (int i) = (if rid r = cur then next_up t (int i) p else Some (Inr (int i)))"
    "prev_up t cur (int i) = (if rid l = cur then prev_up t (int i) p else Some (Inr (int i)))"
  using assms by (subst next_up.simps prev_up.simps, simp add: tree_at_Nod)+

lemma GetNext_node: "tree_at t p (Nod c i l x r) \<Longrightarrow>
  GetNext t (int i) = (if r = Tip then next_up t (int i) p else Some (Inr (int (hd (ids r)))))"
  using GetMin_at [of t "int i" r] by (simp add: GetNext_def tree_at_Nod)

lemma GetPrev_node: "tree_at t p (Nod c i l x r) \<Longrightarrow>
  GetPrev t (int i) = (if l = Tip then prev_up t (int i) p else Some (Inr (int (last (ids l)))))"
  using GetMax_at [of t "int i" l] by (simp add: GetPrev_def tree_at_Nod)

lemma rid_other: "tree_at t p (Nod c i l x r) \<Longrightarrow> l \<noteq> Tip \<or> r \<noteq> Tip \<Longrightarrow> rid l \<noteq> rid r"
  by (cases l; cases r) (auto simp: tree_at_Nod)

lemma GetNext_at:
  "tree_at t p T \<Longrightarrow> ids T = xs @ i # ys \<Longrightarrow>
   GetNext t (int i) = (if ys = [] then next_up t (rid T) p else Some (Inr (int (hd ys))))"
proof (induction T arbitrary: p xs ys)
  case (Nod c j l x r)
  have sub: "tree_at t (int j) l" "tree_at t (int j) r" using Nod.prems(1) by (simp_all add: tree_at_Nod)
  have "ids l @ j # ids r = xs @ i # ys" using Nod.prems(2) by simp
  then consider us where "ids l = xs @ i # us" "ys = us @ j # ids r" | "xs = ids l" "i = j" "ys = ids r"
    | us where "ids r = us @ i # ys"
    by (auto simp: append_eq_append_conv2 append_eq_Cons_conv Cons_eq_append_conv)
  then show ?case
  proof cases
    case 1
    then have "l \<noteq> Tip" by auto
    then have "rid l \<noteq> rid r" using rid_other [OF Nod.prems(1)] by blast
    then show ?thesis using Nod.IH(1) [OF sub(1) 1(1)] 1(2) up_node(1) [OF Nod.prems(1)] by (cases us) auto
  next
    case 2
    then show ?thesis using GetNext_node [OF Nod.prems(1)] by simp
  next
    case 3
    then show ?thesis using Nod.IH(2) [OF sub(2) 3] up_node(1) [OF Nod.prems(1)] by auto
  qed
qed simp

lemma GetPrev_at:
  "tree_at t p T \<Longrightarrow> ids T = xs @ i # ys \<Longrightarrow>
   GetPrev t (int i) = (if xs = [] then prev_up t (rid T) p else Some (Inr (int (last xs))))"
proof (induction T arbitrary: p xs ys)
  case (Nod c j l x r)
  have sub: "tree_at t (int j) l" "tree_at t (int j) r" using Nod.prems(1) by (simp_all add: tree_at_Nod)
  have "ids l @ j # ids r = xs @ i # ys" using Nod.prems(2) by simp
  then consider us where "ids l = xs @ i # us" | "xs = ids l" "i = j" "ys = ids r"
    | us where "ids r = us @ i # ys" "xs = ids l @ j # us"
    by (auto simp: append_eq_append_conv2 append_eq_Cons_conv Cons_eq_append_conv)
  then show ?case
  proof cases
    case 1
    then show ?thesis using Nod.IH(1) [OF sub(1) 1(1)] up_node(2) [OF Nod.prems(1)] by auto
  next
    case 2
    then show ?thesis using GetPrev_node [OF Nod.prems(1)] by simp
  next
    case 3
    then have "r \<noteq> Tip" by auto
    then have "rid l \<noteq> rid r" using rid_other [OF Nod.prems(1)] by blast
    then show ?thesis using Nod.IH(2) [OF sub(2) 3(1)] 3(2) up_node(2) [OF Nod.prems(1)] by (cases us rule: rev_cases) auto
  qed
qed simp

lemma up_root: "next_up t cur (- 1) = Some (Inr (- 1))" "prev_up t cur (- 1) = Some (Inr (- 1))"
  by (subst next_up.simps prev_up.simps, simp)+

text \<open>A client that visits the map with an iterator.\<close>

partial_function (option) rbt_walk :: "('k, 'v) rbtree \<Rightarrow> int \<Rightarrow> ('k \<times> 'v) list run" where
  [code]: "rbt_walk t i =
     (if i = rbt_end t then Some (Inr [])
      else fbind (Some (rbt_iter_deref t i)) (\<lambda>x. fbind (rbt_iter_next t i) (\<lambda>j. fbind (rbt_walk t j) (\<lambda>xs. Some (Inr (x # xs))))))"

lemma tree_at_value: "tree_at t p T \<Longrightarrow> (i, x) \<in> set (entries T) \<Longrightarrow> usable t i \<and> rn_v (bufs t i) = x"
  by (induction T arbitrary: p) (auto simp: tree_at_Nod)

lemma rbt_walk_at:
  assumes "tree_at t (- 1) T"
  shows "entries T = xs @ ys \<Longrightarrow> rbt_walk t (head_or (map fst ys) (- 1)) = Some (Inr (map snd ys))"
proof (induction ys arbitrary: xs)
  case Nil
  then show ?case by (subst rbt_walk.simps) (simp add: rbt_end_def)
next
  case (Cons e ys)
  obtain i x where e: "e = (i, x)" by (cases e)
  have ids: "ids T = map fst xs @ i # map fst ys" using Cons.prems e by (simp add: ids_def)
  have v: "rbt_iter_deref t (int i) = Inr x" using tree_at_value [OF assms, of i x] Cons.prems e by (auto simp: rbt_iter_deref_def)
  have n: "rbt_iter_next t (int i) = Some (Inr (head_or (map fst ys) (- 1)))"
    using GetNext_at [OF assms ids] up_root(1) [of t] by (cases ys) (auto simp: rbt_iter_next_def)
  from Cons.IH [of "xs @ [e]"] Cons.prems have w: "rbt_walk t (head_or (map fst ys) (- 1)) = Some (Inr (map snd ys))" by simp
  show ?case by (subst rbt_walk.simps) (simp add: rbt_end_def e v n w)
qed

end
