(* ===== verification/RBTree_Moves.thy ===== *)
theory RBTree_Moves
  imports RBTree_Insert RBTree_Iterate
begin

text \<open>
  The steps of a deletion that move a red node down the path to the deleted key.
\<close>

section \<open>Moving red nodes down\<close>

text \<open>A step on the right subtree, whose result becomes the right child.\<close>

lemma turns_right:
  assumes "tree_at t p (Nod c i l x r)" "turns out t (int i) r r'"
  shows "turns (rbind out (\<lambda>(j, t1). rbind (set_r (int i) j t1) (\<lambda>t2. Inr (int i, t2)))) t p (Nod c i l x r) (Nod c i l x r')"
proof -
  obtain t1 where t1: "out = Inr (rid r', t1)" "tree_at t1 (int i) r'" "moved (set (ids r)) t t1" "entries r' = entries r" "ids r' = ids r"
    by (rule turnsE [OF assms(2)])
  have "\<exists>t2. set_r (int i) (rid r') t1 = Inr t2 \<and> tree_at t2 p (Nod c i l x r') \<and> moved {i} t1 t2"
    by (rule set_r_at [OF assms(1) moved_frame [OF t1(3)] t1(2)]) (use assms(1) t1(5) in \<open>auto simp: tree_at_Nod\<close>)
  then obtain t2 where t2: "set_r (int i) (rid r') t1 = Inr t2" "tree_at t2 p (Nod c i l x r')" "moved {i} t1 t2" by blast
  show ?thesis by (rule turnsI [of _ _ t2]) (use t1 t2 moved_trans [OF t1(3) t2(3)] in auto)
qed

lemma rot_flip_turns:
  assumes "turns out t p T T1" "lt_tree T1 \<noteq> Tip" "rt_tree T1 \<noteq> Tip"
  shows "turns (rbind out (\<lambda>(i1, t1). rbind (FlipColors t1 i1) (\<lambda>t2. Inr (i1, t2)))) t p T (flip T1)"
  using flip_turns assms(2,3) by (intro turns_trans [OF assms(1)]) auto

text \<open>The right child is red, and so is its left child when the borrowing takes place.\<close>

definition from_right :: "('k, 'v) rtree \<Rightarrow> ('k, 'v) rtree" where
  "from_right T = (case T of Tip \<Rightarrow> Tip
     | Nod c i l x r \<Rightarrow> if col (lt_tree r) = kRed then flip (rotl (Nod c i l x (rotr r))) else T)"

definition from_left :: "('k, 'v) rtree \<Rightarrow> ('k, 'v) rtree" where
  "from_left T = (if col (lt_tree (lt_tree T)) = kRed then flip (rotr T) else T)"

lemma borrow_right_turns:
  assumes "tree_at t p (Nod c i l x r)" "col r = kRed"
  shows "turns (borrow_right t (int i)) t p (Nod c i l x r) (from_right (Nod c i l x r))"
proof -
  obtain j a y b where r: "r = Nod kRed j a y b" using assms(2) by (auto simp: red_tree)
  note at = assms(1) [unfolded r]
  have sub: "tree_at t (int i) (Nod kRed j a y b)" "tree_at t (int j) a" using at by (simp_all add: tree_at_Nod)
  show ?thesis
  proof (cases "col a = kRed")
    case True
    then obtain k e z f where a: "a = Nod kRed k e z f" by (auto simp: red_tree)
    let ?R = "Nod kRed k e z (Nod kRed j f y b)"
    have rot: "turns (RotateRight t (int j)) t (int i) r ?R" using rotr_turns [OF sub(1)] True a r by simp
    have "turns (rbind (rbind (RotateRight t (int j)) (\<lambda>(j, t1). rbind (set_r (int i) j t1) (\<lambda>t2. Inr (int i, t2))))
        (\<lambda>(i', t2). RotateLeft t2 i')) t p (Nod c i l x r) (Nod c k (Nod kRed i l x e) z (Nod kRed j f y b))"
      using rotl_turns [of _ p "Nod c i l x ?R"] by (intro turns_trans [OF turns_right [OF assms(1) rot]]) auto
    from rot_flip_turns [OF this] True show ?thesis
      using at sub by (simp add: borrow_right_def from_right_def tree_at_Nod rbind_assoc split_def a r)
  next
    case False
    then show ?thesis using turns_refl [OF assms(1)] at sub by (simp add: borrow_right_def from_right_def tree_at_Nod r)
  qed
qed

lemma borrow_left_turns:
  assumes "tree_at t p (Nod c i l x r)" "col l = kRed" "r \<noteq> Tip"
  shows "turns (borrow_left t (int i) (Some (rid l))) t p (Nod c i l x r) (from_left (Nod c i l x r))"
proof -
  obtain j a y b where l: "l = Nod kRed j a y b" using assms(2) by (auto simp: red_tree)
  note at = assms(1) [unfolded l]
  have sub: "tree_at t (int j) a" using at by (simp_all add: tree_at_Nod)
  show ?thesis
  proof (cases "col a = kRed")
    case True
    have "turns (RotateRight t (int i)) t p (Nod c i l x r) (rotr (Nod c i l x r))" using rotr_turns [OF assms(1)] assms(2) by simp
    from rot_flip_turns [OF this] True show ?thesis
      using at sub by (auto simp: borrow_left_def from_left_def tree_at_Nod l dest: red_Nod)
  next
    case False
    then show ?thesis using turns_refl [OF assms(1)] at sub by (simp add: borrow_left_def from_left_def tree_at_Nod l)
  qed
qed

lemma MoveRedLeft_turns:
  assumes "tree_at t p (Nod kRed i l x r)" "l \<noteq> Tip" "r \<noteq> Tip" "col l = kBlack" "col (lt_tree l) = kBlack" "col r = kBlack"
  shows "turns (MoveRedLeft t (int i)) t p (Nod kRed i l x r) (from_right (Nod kBlack i (paint kRed l) x (paint kRed r)))"
proof -
  let ?T = "Nod kRed i l x r" and ?F = "Nod kBlack i (paint kRed l) x (paint kRed r)"
  obtain d j a y b where l: "l = Nod d j a y b" using assms(2) by (cases l) auto
  have red: "col (paint kRed r) = kRed" using assms(3) by (cases r) auto
  have flip: "turns (rbind (FlipColors t (int i)) (\<lambda>t1. Inr (int i, t1))) t p ?T ?F"
    using flip_turns [OF assms(1)] assms by simp
  have "turns (rbind (rbind (FlipColors t (int i)) (\<lambda>t1. Inr (int i, t1))) (\<lambda>(i', t1). borrow_right t1 i')) t p ?T (from_right ?F)"
    by (rule turns_trans [OF flip]) (simp add: borrow_right_turns red)
  moreover have "tree_at t (int j) a" using assms(1) by (simp add: l tree_at_Nod)
  ultimately show ?thesis using assms by (simp add: MoveRedLeft_def rbind_assoc l tree_at_Nod)
qed

lemma MoveRedRight_turns:
  assumes "tree_at t p (Nod c i l x r)" "l \<noteq> Tip" "r \<noteq> Tip" "col l = kBlack" "col (rt_tree r) = kBlack" "col r = kBlack"
  shows "turns (MoveRedRight t (int i)) t p (Nod c i l x r) (from_left (Nod (FlipColor c) i (paint kRed l) x (paint kRed r)))"
proof -
  let ?T = "Nod c i l x r" and ?F = "Nod (FlipColor c) i (paint kRed l) x (paint kRed r)"
  obtain d j a y b where r: "r = Nod d j a y b" using assms(3) by (cases r) auto
  have red: "col (paint kRed l) = kRed" using assms(2) by (cases l) auto
  have flip: "turns (rbind (FlipColors t (int i)) (\<lambda>t1. Inr (int i, t1))) t p ?T ?F"
    using flip_turns [OF assms(1)] assms by simp
  have "turns (rbind (rbind (FlipColors t (int i)) (\<lambda>t1. Inr (int i, t1))) (\<lambda>(i', t1). borrow_left t1 i' (Some (rid l)))) t p ?T (from_left ?F)"
    using borrow_left_turns [where l = "paint kRed l"] red assms(3) by (intro turns_trans [OF flip]) auto
  moreover have "tree_at t (int j) b" using assms(1) by (simp add: r tree_at_Nod)
  then have "is_red t (rid b) = Inr (col b = kRed)" by (rule is_red_rid)
  ultimately show ?thesis using assms by (simp add: MoveRedRight_def rbind_assoc r tree_at_Nod GetPointer_rid)
qed

definition prep_left :: "('k, 'v) rtree \<Rightarrow> ('k, 'v) rtree" where
  "prep_left T = (case T of Tip \<Rightarrow> Tip | Nod c i l x r \<Rightarrow>
     if col l = kBlack \<and> col (lt_tree l) = kBlack then from_right (Nod kBlack i (paint kRed l) x (paint kRed r)) else T)"

definition prep_right :: "('k, 'v) rtree \<Rightarrow> ('k, 'v) rtree" where
  "prep_right T = (case T of Tip \<Rightarrow> Tip | Nod c i l x r \<Rightarrow>
     if r \<noteq> Tip \<and> col r = kBlack \<and> col (lt_tree r) = kBlack then from_left (Nod (FlipColor c) i (paint kRed l) x (paint kRed r)) else T)"

lemma prepare_left_turns:
  assumes "tree_at t p (Nod c i l x r)" "l \<noteq> Tip"
    "col l = kBlack \<Longrightarrow> col (lt_tree l) = kBlack \<Longrightarrow> c = kRed \<and> r \<noteq> Tip \<and> col r = kBlack"
  shows "turns (prepare_left t (int i) (Some (rid l))) t p (Nod c i l x r) (prep_left (Nod c i l x r))"
proof -
  obtain d j a y b where l: "l = Nod d j a y b" using assms(2) by (cases l) auto
  have "turns (MoveRedLeft t (int i)) t p (Nod c i l x r) (from_right (Nod kBlack i (paint kRed l) x (paint kRed r)))"
    if "col l = kBlack" "col (lt_tree l) = kBlack"
    using assms that by (auto intro!: MoveRedLeft_turns)
  then show ?thesis using turns_refl [OF assms(1)] assms(1) by (auto simp: prepare_left_def prep_left_def l tree_at_Nod)
qed

lemma prepare_right_turns:
  assumes "tree_at t p (Nod c i l x r)"
    "r \<noteq> Tip \<Longrightarrow> col r = kBlack \<Longrightarrow> col (lt_tree r) = kBlack \<Longrightarrow> l \<noteq> Tip \<and> col l = kBlack \<and> col (rt_tree r) = kBlack"
  shows "turns (prepare_right t (int i)) t p (Nod c i l x r) (prep_right (Nod c i l x r))"
proof (cases r)
  case Tip
  then show ?thesis using turns_refl [OF assms(1)] assms(1) by (simp add: prepare_right_def prep_right_def tree_at_Nod)
next
  case (Nod d j a y b)
  have "turns (MoveRedRight t (int i)) t p (Nod c i l x r) (from_left (Nod (FlipColor c) i (paint kRed l) x (paint kRed r)))"
    if "col r = kBlack" "col (lt_tree r) = kBlack"
    by (rule MoveRedRight_turns) (use assms that Nod in auto)
  then show ?thesis using turns_refl [OF assms(1)] assms(1) by (auto simp: prepare_right_def prep_right_def Nod tree_at_Nod)
qed

end
