(* ===== verification/RBTree_Erase.thy ===== *)
theory RBTree_Erase
  imports RBTree_Moves
begin

text \<open>
  The deletion of \<open>Fx_RBTree\<close> on a store that holds a tree.
\<close>

section \<open>The trees on the path\<close>

text \<open>
  A node that can give one up: it is red or has a red left child. \<open>topred\<close> is the root that \<open>erase\<close>
  turned red over a red left child, \<open>leans_right\<close> what \<open>MoveRedRight\<close> leaves when it borrows.
\<close>

definition ready :: "('k, 'v) rtree \<Rightarrow> bool" where
  "ready T \<longleftrightarrow> T \<noteq> Tip \<and> lb T \<and> (col T = kRed \<or> col (lt_tree T) = kRed)"

definition topred :: "('k, 'v) rtree \<Rightarrow> bool" where
  "topred T \<longleftrightarrow> col T = kRed \<and> col (lt_tree T) = kRed \<and> lb (paint kBlack T)"

definition leans_right :: "('k, 'v) rtree \<Rightarrow> bool" where
  "leans_right T \<longleftrightarrow> T \<noteq> Tip \<and> col T = kBlack \<and> lb (lt_tree T) \<and> lb (rt_tree T) \<and> col (lt_tree T) = kBlack \<and> col (rt_tree T) = kRed \<and>
     bh (lt_tree T) = bh (rt_tree T)"

text \<open>What a deletion makes of them.\<close>

definition kept :: "('k, 'v) rtree \<Rightarrow> ('k, 'v) rtree \<Rightarrow> bool" where
  "kept T T' \<longleftrightarrow> lb (paint kBlack T') \<and> (\<not> topred T \<longrightarrow> lb T' \<and> bh T' = bh T \<and> (col T = kBlack \<longrightarrow> col T' = kBlack))"

lemma black_bh_0: "bh T = 0 \<Longrightarrow> col T = kBlack \<Longrightarrow> T = Tip"
  by (cases T) auto

lemma topred_simps [simp]: "topred (Nod c i l x r) \<longleftrightarrow> c = kRed \<and> col l = kRed \<and> lb l \<and> lb r \<and> col r = kBlack \<and> bh l = bh r"
  by (auto simp: topred_def)

lemma ready_simps [simp]: "ready (Nod c i l x r) \<longleftrightarrow> lb (Nod c i l x r) \<and> (c = kRed \<or> col l = kRed)"
  by (auto simp: ready_def)

lemma leans_right_simps [simp]: "leans_right (Nod c i l x r) \<longleftrightarrow> c = kBlack \<and> lb l \<and> lb r \<and> col l = kBlack \<and> col r = kRed \<and> bh l = bh r"
  by (auto simp: leans_right_def)

lemma bal_keeps_left:
  assumes "lb l'" "lb r" "col r = kBlack" "bh l' = bh r" "c = kBlack \<or> col l' = kBlack \<or> topred T" "bh T = bh (Nod c i l' x r)"
    "\<not> topred T \<Longrightarrow> col T = kBlack \<Longrightarrow> c = kBlack"
  shows "kept T (bal (Nod c i l' x r))"
proof -
  have "bal (Nod c i l' x r) = Nod c i l' x r" by (rule bal_id [OF assms(3) lb_unstacked [OF assms(1)]])
  then show ?thesis using assms by (auto simp: kept_def)
qed

lemma prep_left_inv:
  assumes "ready T \<or> topred T" "lt_tree T \<noteq> Tip"
  shows "\<exists>c i l x r. prep_left T = Nod c i l x r \<and> ready l \<and>
    (\<forall>l'. lb l' \<longrightarrow> bh l' = bh l \<longrightarrow> (col l = kBlack \<longrightarrow> col l' = kBlack) \<longrightarrow> kept T (bal (Nod c i l' x r)))"
proof -
  obtain c i l x r where T: "T = Nod c i l x r" using assms(2) by (cases T) auto
  have l: "l \<noteq> Tip" "lb l" "lb r" "col r = kBlack" "bh l = bh r" using assms T by auto
  show ?thesis
  proof (cases "col l = kBlack \<and> col (lt_tree l) = kBlack")
    case False
    then have "prep_left T = Nod c i l x r" "ready l" using T l by (auto simp: prep_left_def ready_def)
    moreover have "kept T (bal (Nod c i l' x r))" if "lb l'" "bh l' = bh l" "col l = kBlack \<longrightarrow> col l' = kBlack" for l'
      by (rule bal_keeps_left) (use assms T l that False in auto)
    ultimately show ?thesis by blast
  next
    case two: True
    then have c: "c = kRed" using assms T by auto
    obtain j a y b where lN: "l = Nod kBlack j a y b" using l(1) two by (cases l) auto
    have "r \<noteq> Tip" using l(5) lN by auto
    then obtain k e z f where rN: "r = Nod kBlack k e z f" using l(4) by (cases r) auto
    show ?thesis
    proof (cases "col e = kRed")
      case True
      then obtain m e1 w e2 where e: "e = Nod kRed m e1 w e2" by (auto simp: red_tree)
      let ?L = "Nod kBlack i (Nod kRed j a y b) x e1" and ?R = "Nod kBlack k e2 z f"
      have "prep_left T = Nod kRed m ?L w ?R" using T two lN rN e by (simp add: prep_left_def from_right_def)
      moreover have "ready ?L" using l lN rN e two by simp
      moreover have "kept T (bal (Nod kRed m l' w ?R))" if "lb l'" "bh l' = bh ?L" "col ?L = kBlack \<longrightarrow> col l' = kBlack" for l'
        by (rule bal_keeps_left) (use T c l lN rN e that two in auto)
      ultimately show ?thesis by blast
    next
      case False
      let ?L = "Nod kRed j a y b" and ?R = "Nod kRed k e z f"
      have "prep_left T = Nod kBlack i ?L x ?R" using T two lN rN False by (simp add: prep_left_def from_right_def)
      moreover have "ready ?L" using l lN two by simp
      moreover have "kept T (bal (Nod kBlack i l' x ?R))" if "lb l'" "bh l' = bh ?L" for l'
      proof -
        have "lb (bal (Nod kBlack i l' x ?R)) \<and> bh (bal (Nod kBlack i l' x ?R)) = Suc (bh ?R)"
          by (rule bal_black) (use that l lN rN False in auto)
        then show ?thesis using T c l lN rN by (auto simp: kept_def)
      qed
      ultimately show ?thesis by blast
    qed
  qed
qed

lemma prep_left_side:
  assumes "ready (Nod c i l x r) \<or> topred (Nod c i l x r)" "l \<noteq> Tip" "col l = kBlack" "col (lt_tree l) = kBlack"
  shows "c = kRed \<and> r \<noteq> Tip \<and> col r = kBlack"
proof -
  have "bh l = bh r" "bh l \<noteq> 0" using assms black_bh_0 [of l] by auto
  then show ?thesis using assms by auto
qed

section \<open>A node is gone\<close>

text \<open>
  A deletion changes the nodes of its subtree and, when the successor takes the place of the deleted
  node, the link of the parent \<open>p\<close> that led to the subtree \<open>j\<close>.
\<close>

definition pframe :: "nat set \<Rightarrow> int \<Rightarrow> int \<Rightarrow> ('k, 'v) rbtree \<Rightarrow> ('k, 'v) rbtree \<Rightarrow> bool" where
  "pframe S p j t t' \<longleftrightarrow> (\<forall>i. usable t' i = usable t i) \<and> (\<forall>i. i \<notin> S \<longrightarrow> int i \<noteq> p \<longrightarrow> bufs t' i = bufs t i) \<and>
     (\<forall>q. p = int q \<longrightarrow> q \<notin> S \<longrightarrow>
       (\<exists>z. bufs t' q = (if rn_l (bufs t q) = j then (bufs t q)\<lparr>rn_l := z\<rparr> else (bufs t q)\<lparr>rn_r := z\<rparr>)))"

lemma entries_ids: "entries A = entries B \<Longrightarrow> ids A = ids B"
  by (simp add: ids_def)

lemma frame_pframe: "frame S t t' \<Longrightarrow> pframe S p j t t'"
proof -
  assume a: "frame S t t'"
  have "\<exists>z. n = (if rn_l n = j then n\<lparr>rn_l := z\<rparr> else n\<lparr>rn_r := z\<rparr>)" for n :: "('a, 'b) rbnode"
    by (cases "rn_l n = j") (auto intro: exI [of _ "rn_l n"] exI [of _ "rn_r n"])
  with a show ?thesis by (simp add: frame_def pframe_def)
qed

definition erased :: "ml_layout \<Rightarrow> nat \<Rightarrow> nat set \<Rightarrow> ('k, 'v) rbtree \<Rightarrow> int \<Rightarrow> ('k, 'v) rtree \<Rightarrow> nat \<Rightarrow> ('k, 'v) rtree \<Rightarrow>
    ('k, 'v) rbtree \<Rightarrow> bool" where
  "erased L cap U t p T n T' t' \<longleftrightarrow> n \<in> set (ids T) \<and> entries T' = filter (\<lambda>e. fst e \<noteq> n) (entries T) \<and>
     tree_at t' p T' \<and> pframe (set (ids T)) p (rid T) t t' \<and>
     rt_md t' = (rt_md t)\<lparr>rm_size := rm_size (rt_md t) - 1\<rparr> \<and> live L cap (U - {n}) t'"

lemma erased_ids: "erased L cap U t p T n T' t' \<Longrightarrow> set (ids T') = set (ids T) - {n}"
  by (auto simp: erased_def ids_def)

lemma free_node_at:
  assumes "live L cap U t" "i \<in> U"
  shows "\<exists>t'. free_node zero t (int i) = Inr t' \<and> frame {i} t t' \<and> rt_md t' = (rt_md t)\<lparr>rm_size := rm_size (rt_md t) - 1\<rparr> \<and>
    live L cap (U - {i}) t'"
proof -
  have u: "usable t i" by (rule live_usable [OF assms])
  let ?t1 = "put_node i (rbnode_zero zero) t"
  have l1: "live L cap U ?t1" by (rule live_put [OF assms])
  obtain m where m: "FreeSlice (rt_ml ?t1) (int i) = Inr m" "ml_slab L m cap (U - {i}) (bufs ?t1)"
    using ml.give_law [of L "rt_ml ?t1" cap U "bufs ?t1" i] l1 assms(2) by (auto simp: live_def)
  let ?t2 = "?t1\<lparr>rt_ml := m\<rparr>"
  have b: "bufs ?t2 = bufs ?t1" using m(2) by (simp add: bufs_def ml_slab_def)
  have "layout m = layout (rt_ml ?t1)" using m(2) l1 by (simp add: live_def ml_slab_def)
  from layoutD [OF this] have len: "usable ?t2 j = usable ?t1 j" for j by (simp add: usable_def)
  let ?t3 = "?t1\<lparr>rt_ml := m, rt_md := (rt_md ?t1)\<lparr>rm_size := rm_size (rt_md ?t1) - 1\<rparr>\<rparr>"
  have "free_node zero t (int i) = Inr ?t3" using u m(1) by (simp add: free_node_def)
  moreover have "live L cap (U - {i}) ?t3" using m(2) b by (simp add: live_def del: bufs_put)
  moreover have "frame {i} t ?t3" using b len u by (auto simp: frame_def)
  ultimately show ?thesis by auto
qed

lemma kept_ready: "kept T T' \<Longrightarrow> ready T \<Longrightarrow> lb T' \<and> bh T' = bh T \<and> (col T = kBlack \<longrightarrow> col T' = kBlack)"
  by (cases T) (auto simp: kept_def ready_def)

section \<open>Putting the changed subtree back\<close>

lemma attach_left:
  assumes "usable t i" "bufs t i = \<lparr>rn_c = c, rn_p = p, rn_l = z, rn_r = rid r, rn_v = x\<rparr>" "tree_at t (int i) l" "tree_at t (int i) r"
    "i \<notin> set (ids l)" "i \<notin> set (ids r)" "set (ids l) \<inter> set (ids r) = {}"
  shows "\<exists>t'. rbind (set_l (int i) (rid l) t) (\<lambda>t1. KeepBalance t1 (int i)) = Inr (rid (bal (Nod c i l x r)), t') \<and>
    tree_at t' p (bal (Nod c i l x r)) \<and> moved (set (ids (Nod c i l x r))) t t'"
proof -
  let ?N = "Nod c i l x r" and ?t1 = "put_node i ((bufs t i)\<lparr>rn_l := rid l\<rparr>) t"
  have at: "tree_at ?t1 p ?N" using assms by (auto simp: tree_at_Nod intro!: tree_at_put)
  have m: "moved {i} t ?t1" using assms(1) by (intro moved_put) auto
  obtain t' where t': "KeepBalance ?t1 (rid ?N) = Inr (rid (bal ?N), t')" "tree_at t' p (bal ?N)" "moved (set (ids ?N)) ?t1 t'"
    by (rule turnsE [OF KeepBalance_turns [OF at]]) auto
  have "moved (set (ids ?N)) t t'" by (rule moved_trans [OF m t'(3)]) auto
  then show ?thesis using t' assms(1) by auto
qed

lemma attach_right:
  assumes "usable t i" "bufs t i = \<lparr>rn_c = c, rn_p = p, rn_l = rid l, rn_r = z, rn_v = x\<rparr>" "tree_at t (int i) l" "tree_at t (int i) r"
    "i \<notin> set (ids l)" "i \<notin> set (ids r)" "set (ids l) \<inter> set (ids r) = {}"
  shows "\<exists>t'. rbind (set_r (int i) (rid r) t) (\<lambda>t1. KeepBalance t1 (int i)) = Inr (rid (bal (Nod c i l x r)), t') \<and>
    tree_at t' p (bal (Nod c i l x r)) \<and> moved (set (ids (Nod c i l x r))) t t'"
proof -
  let ?N = "Nod c i l x r" and ?t1 = "put_node i ((bufs t i)\<lparr>rn_r := rid r\<rparr>) t"
  have at: "tree_at ?t1 p ?N" using assms by (auto simp: tree_at_Nod intro!: tree_at_put)
  have m: "moved {i} t ?t1" using assms(1) by (intro moved_put) auto
  obtain t' where t': "KeepBalance ?t1 (rid ?N) = Inr (rid (bal ?N), t')" "tree_at t' p (bal ?N)" "moved (set (ids ?N)) ?t1 t'"
    by (rule turnsE [OF KeepBalance_turns [OF at]]) auto
  have "moved (set (ids ?N)) t t'" by (rule moved_trans [OF m t'(3)]) auto
  then show ?thesis using t' assms(1) by auto
qed

text \<open>The changes add up.\<close>

lemma erased_around:
  assumes "moved (set (ids T)) t t1" "frame S t1 t2" "moved S' t2 t4" "S \<union> S' \<subseteq> set (ids T)" "S' \<subseteq> U - {n}"
    and "rt_md t2 = (rt_md t1)\<lparr>rm_size := rm_size (rt_md t1) - 1\<rparr>" "live L cap (U - {n}) t2"
    and "n \<in> set (ids T)" "entries T' = filter (\<lambda>e. fst e \<noteq> n) (entries T)" "tree_at t4 p T'"
  shows "frame (set (ids T)) t t4 \<and> erased L cap U t p T n T' t4"
proof -
  have "frame (set (ids T)) t t4"
    by (rule frame_trans [OF moved_frame [OF assms(1)] frame_trans [OF assms(2) moved_frame [OF assms(3)] order_refl]]) (use assms(4) in auto)
  then show ?thesis using assms moved_md [OF assms(3)] moved_md [OF assms(1)] moved_live [OF assms(3,7,5)]
    by (auto simp: erased_def frame_pframe)
qed

lemma erased_left:
  assumes "moved (set (ids T)) t t1" "tree_at t1 p (Nod c i l x r)" "entries (Nod c i l x r) = entries T" "set (ids T) \<subseteq> U"
    and "erased L cap U t1 (int i) l n l' t2"
  shows "\<exists>t4. rbind (set_l (int i) (rid l') t2) (\<lambda>t3. KeepBalance t3 (int i)) = Inr (rid (bal (Nod c i l' x r)), t4) \<and>
    frame (set (ids T)) t t4 \<and> erased L cap U t p T n (bal (Nod c i l' x r)) t4"
proof -
  let ?N = "Nod c i l' x r"
  have idsT: "set (ids T) = insert i (set (ids l) \<union> set (ids r))" unfolding entries_ids [OF assms(3), symmetric] by auto
  have d: "i \<notin> set (ids l)" "i \<notin> set (ids r)" "set (ids l) \<inter> set (ids r) = {}" "tree_at t1 (int i) r" "usable t1 i"
    "bufs t1 i = \<lparr>rn_c = c, rn_p = p, rn_l = rid l, rn_r = rid r, rn_v = x\<rparr>"
    using assms(2) by (simp_all add: tree_at_Nod)
  note e = assms(5) [unfolded erased_def] and el = erased_ids [OF assms(5)]
  have pf: "pframe (set (ids l)) (int i) (rid l) t1 t2" using e by simp
  then obtain z where i2: "usable t2 i" "bufs t2 i = \<lparr>rn_c = c, rn_p = p, rn_l = z, rn_r = rid r, rn_v = x\<rparr>" using d by (auto simp: pframe_def)
  have fr: "frame (insert i (set (ids l))) t1 t2" using pf by (auto simp: pframe_def frame_def)
  have r2: "tree_at t2 (int i) r" by (rule tree_at_frame [OF d(4) fr]) (use d in auto)
  have nT: "n \<in> set (ids l)" "n \<noteq> i" "n \<notin> set (ids r)" using e d by auto
  obtain t4 where t4: "rbind (set_l (int i) (rid l') t2) (\<lambda>t3. KeepBalance t3 (int i)) = Inr (rid (bal ?N), t4)"
    "tree_at t4 p (bal ?N)" "moved (set (ids ?N)) t2 t4"
    using attach_left [OF i2 _ r2, of l'] e d el by auto
  have "filter (\<lambda>e. fst e \<noteq> n) (entries r) = entries r" using nT(3) by (auto simp: filter_id_conv ids_def)
  then have "entries (bal ?N) = filter (\<lambda>e. fst e \<noteq> n) (entries T)" using e nT(2) by (simp add: assms(3) [symmetric])
  then have "frame (set (ids T)) t t4 \<and> erased L cap U t p T n (bal ?N) t4"
    by (intro erased_around [OF assms(1) fr t4(3)]) (use e el nT idsT assms(4) t4(2) d in auto)
  then show ?thesis using t4(1) by blast
qed

lemma erased_right:
  assumes "moved (set (ids T)) t t1" "tree_at t1 p (Nod c i l x r)" "entries (Nod c i l x r) = entries T" "set (ids T) \<subseteq> U"
    and "erased L cap U t1 (int i) r n r' t2"
  shows "\<exists>t4. rbind (set_r (int i) (rid r') t2) (\<lambda>t3. KeepBalance t3 (int i)) = Inr (rid (bal (Nod c i l x r')), t4) \<and>
    frame (set (ids T)) t t4 \<and> erased L cap U t p T n (bal (Nod c i l x r')) t4"
proof -
  let ?N = "Nod c i l x r'"
  have idsT: "set (ids T) = insert i (set (ids l) \<union> set (ids r))" unfolding entries_ids [OF assms(3), symmetric] by auto
  have d: "i \<notin> set (ids l)" "i \<notin> set (ids r)" "set (ids l) \<inter> set (ids r) = {}" "tree_at t1 (int i) l" "usable t1 i"
    "bufs t1 i = \<lparr>rn_c = c, rn_p = p, rn_l = rid l, rn_r = rid r, rn_v = x\<rparr>"
    using assms(2) by (simp_all add: tree_at_Nod)
  note e = assms(5) [unfolded erased_def] and el = erased_ids [OF assms(5)]
  have pf: "pframe (set (ids r)) (int i) (rid r) t1 t2" "r \<noteq> Tip" using e by auto
  then have "rid l \<noteq> rid r" using rid_other [OF assms(2)] by blast
  then obtain z where i2: "usable t2 i" "bufs t2 i = \<lparr>rn_c = c, rn_p = p, rn_l = rid l, rn_r = z, rn_v = x\<rparr>"
    using pf d by (auto simp: pframe_def)
  have fr: "frame (insert i (set (ids r))) t1 t2" using pf by (auto simp: pframe_def frame_def)
  have l2: "tree_at t2 (int i) l" by (rule tree_at_frame [OF d(4) fr]) (use d in auto)
  have nT: "n \<in> set (ids r)" "n \<noteq> i" "n \<notin> set (ids l)" using e d by auto
  obtain t4 where t4: "rbind (set_r (int i) (rid r') t2) (\<lambda>t3. KeepBalance t3 (int i)) = Inr (rid (bal ?N), t4)"
    "tree_at t4 p (bal ?N)" "moved (set (ids ?N)) t2 t4"
    using attach_right [OF i2 l2, of r'] e d el by auto
  have "filter (\<lambda>e. fst e \<noteq> n) (entries l) = entries l" using nT(3) by (auto simp: filter_id_conv ids_def)
  then have "entries (bal ?N) = filter (\<lambda>e. fst e \<noteq> n) (entries T)" using e nT(2) by (simp add: assms(3) [symmetric])
  then have "frame (set (ids T)) t t4 \<and> erased L cap U t p T n (bal ?N) t4"
    by (intro erased_around [OF assms(1) fr t4(3)]) (use e el nT idsT assms(4) t4(2) d in auto)
  then show ?thesis using t4(1) by blast
qed

section \<open>Deleting the first node\<close>

lemma erased_leaf:
  assumes "tree_at t p (Nod c i Tip x Tip)" "live L cap U t" "i \<in> U"
  shows "\<exists>t'. free_node zero t (int i) = Inr t' \<and> erased L cap U t p (Nod c i Tip x Tip) i Tip t'"
  using free_node_at [OF assms(2,3), of zero] by (auto simp: erased_def frame_pframe)

lemma lb_no_left: "lb (Nod c i Tip x r) \<Longrightarrow> r = Tip"
  using black_bh_0 [of r] by simp

lemma DeleteMin_at:
  assumes "tree_at t p T" "ready T" "live L cap U t" "set (ids T) \<subseteq> U"
  shows "\<exists>T' t'. DeleteMin zero t (rid T) = Some (Inr (rid T', t')) \<and> erased L cap U t p T (hd (ids T)) T' t' \<and> kept T T'"
  using assms
proof (induction "length (entries T)" arbitrary: T t p rule: less_induct)
  case less
  obtain c i l x r where T: "T = Nod c i l x r" using less.prems(2) by (cases T) (auto simp: ready_def)
  note at = less.prems(1) [unfolded T]
  show ?case
  proof (cases "l = Tip")
    case True
    then have r: "r = Tip" "c = kRed" using less.prems(2) lb_no_left [of c i x r] by (auto simp: T)
    obtain t' where "free_node zero t (int i) = Inr t'" "erased L cap U t p (Nod c i Tip x Tip) i Tip t'"
      using erased_leaf [of t p c i x L cap U zero] at less.prems(3,4) r True by (auto simp: T)
    then show ?thesis using at r True
      by (intro exI [of _ Tip] exI [of _ t']) (simp add: T DeleteMin.simps tree_at_Nod kept_def)
  next
    case False
    have rdy: "ready (Nod c i l x r)" using less.prems(2) T by simp
    obtain c1 i1 l1 x1 r1 where p1: "prep_left T = Nod c1 i1 l1 x1 r1" "ready l1"
      "\<And>l'. lb l' \<Longrightarrow> bh l' = bh l1 \<Longrightarrow> (col l1 = kBlack \<Longrightarrow> col l' = kBlack) \<Longrightarrow> kept T (bal (Nod c1 i1 l' x1 r1))"
      using prep_left_inv [of T] less.prems(2) False T by auto
    have side: "col l = kBlack \<Longrightarrow> col (lt_tree l) = kBlack \<Longrightarrow> c = kRed \<and> r \<noteq> Tip \<and> col r = kBlack"
      using prep_left_side [of c i l x r] rdy False by blast
    obtain t1 where t1: "prepare_left t (int i) (Some (rid l)) = Inr (int i1, t1)" "tree_at t1 p (Nod c1 i1 l1 x1 r1)"
      "moved (set (ids T)) t t1" "entries (Nod c1 i1 l1 x1 r1) = entries T"
      using turnsE [OF prepare_left_turns [OF at False side]] p1(1) T by (metis rid.simps(2))
    have l1: "tree_at t1 (int i1) l1" "length (entries l1) < length (entries T)" "set (ids l1) \<subseteq> U" "live L cap U t1"
      using t1(2) arg_cong [OF t1(4), of length] entries_ids [OF t1(4)] less.prems(4) moved_live [OF t1(3) less.prems(3,4)]
      by (simp_all add: tree_at_Nod entries_ids [OF t1(4), symmetric])
    obtain l2 t2 where l2: "DeleteMin zero t1 (rid l1) = Some (Inr (rid l2, t2))" "erased L cap U t1 (int i1) l1 (hd (ids l1)) l2 t2" "kept l1 l2"
      using less.hyps [OF l1(2,1) p1(2) l1(4,3)] by blast
    have "kept T (bal (Nod c1 i1 l2 x1 r1))" by (rule p1(3)) (use kept_ready [OF l2(3) p1(2)] in auto)
    moreover obtain t4 where t4: "rbind (set_l (int i1) (rid l2) t2) (\<lambda>t3. KeepBalance t3 (int i1)) = Inr (rid (bal (Nod c1 i1 l2 x1 r1)), t4)"
      "erased L cap U t p T (hd (ids l1)) (bal (Nod c1 i1 l2 x1 r1)) t4"
      using erased_left [OF t1(3,2,4) less.prems(4) l2(2)] by blast
    have "hd (ids l1) = hd (ids T)" using p1(2) by (auto simp: entries_ids [OF t1(4), symmetric] ready_def hd_append)
    moreover have "DeleteMin zero t (rid T) = Some (Inr (rid (bal (Nod c1 i1 l2 x1 r1)), t4))"
      using at t1(1,2) l2(1) t4(1) False by (subst DeleteMin.simps) (simp add: T tree_at_Nod GetPointer_rid)
    ultimately show ?thesis using t4(2) by auto
  qed
qed

end
