(* ===== verification/RBTree_Successor.thy ===== *)
theory RBTree_Successor
  imports RBTree_Erase
begin

text \<open>
  The successor of a node that is deleted takes its place in the tree, its slice and so the iterators
  to it staying as they are.
\<close>

section \<open>The successor\<close>

text \<open>The colour of the first node of a tree and its parent, when it is not the root, and the tree with another node there.\<close>

fun mcol :: "('k, 'v) rtree \<Rightarrow> color" where
  "mcol Tip = kBlack"
| "mcol (Nod c i l x r) = (if l = Tip then c else mcol l)"

fun mpar :: "('k, 'v) rtree \<Rightarrow> nat" where
  "mpar Tip = 0"
| "mpar (Nod c i l x r) = (if lt_tree l = Tip then i else mpar l)"

fun remin :: "nat \<Rightarrow> 'k \<times> 'v \<Rightarrow> ('k, 'v) rtree \<Rightarrow> ('k, 'v) rtree" where
  "remin n y Tip = Tip"
| "remin n y (Nod c i l x r) = (if l = Tip then Nod c n Tip y r else Nod c i (remin n y l) x r)"

lemma remin_Tip [simp]: "remin n y T = Tip \<longleftrightarrow> T = Tip"
  by (cases T) auto

lemma remin_simps [simp]: "col (remin n y T) = col T" "bh (remin n y T) = bh T" "lb (remin n y T) = lb T"
  by (induction T) auto

lemma remin_left: "col (lt_tree (remin n y T)) = col (lt_tree T)" "lt_tree T \<noteq> Tip \<Longrightarrow> rid (remin n y T) = rid T"
  by (cases T; simp)+

lemma remin_ready: "ready T \<Longrightarrow> ready (remin n y T)"
  by (auto simp: ready_def remin_left)

lemma remin_entries: "T \<noteq> Tip \<Longrightarrow> entries (remin n y T) = (n, y) # tl (entries T)"
  by (induction T) auto

lemma remin_ids: "T \<noteq> Tip \<Longrightarrow> distinct (ids T) \<Longrightarrow> set (ids (remin n y T)) = insert n (set (ids T) - {hd (ids T)})"
  using remin_entries [of T n y] by (cases "entries T") (auto simp: ids_def)

lemma min_at_all:
  assumes "tree_at t q T" "lt_tree T \<noteq> Tip" "lb T"
  shows "bufs t (hd (ids T)) = \<lparr>rn_c = mcol T, rn_p = int (mpar T), rn_l = - 1, rn_r = - 1, rn_v = snd (hd (entries T))\<rparr> \<and>
    usable t (hd (ids T)) \<and> mpar T \<in> set (ids T) \<and> mpar T \<noteq> hd (ids T) \<and> rid T \<noteq> int (hd (ids T)) \<and> usable t (mpar T) \<and>
    rn_l (bufs t (mpar T)) = int (hd (ids T))"
  using assms
proof (induction T arbitrary: q)
  case (Nod c i l x r)
  have l: "l \<noteq> Tip" "tree_at t (int i) l" "lb l" "i \<notin> set (ids l)" using Nod.prems by (auto simp: tree_at_Nod)
  have hd: "hd (ids l) \<in> set (ids l)" "hd (ids (Nod c i l x r)) = hd (ids l)" "hd (entries (Nod c i l x r)) = hd (entries l)"
    using l(1) by (simp_all add: hd_append)
  show ?case
  proof (cases "lt_tree l = Tip")
    case True
    then obtain d j y e where lN: "l = Nod d j Tip y e" using l(1) by (cases l) auto
    then have "e = Tip" using l(3) lb_no_left [of d j y e] by simp
    then show ?thesis using Nod.prems(1) lN by (auto simp: tree_at_Nod)
  next
    case False
    then show ?thesis using Nod.IH(1) [OF l(2) False l(3)] hd l(4) by auto
  qed
qed simp

lemma min_at:
  assumes "tree_at t q T" "lt_tree T \<noteq> Tip" "lb T"
  shows "bufs t (hd (ids T)) = \<lparr>rn_c = mcol T, rn_p = int (mpar T), rn_l = - 1, rn_r = - 1, rn_v = snd (hd (entries T))\<rparr>"
    "usable t (hd (ids T))" "mpar T \<in> set (ids T)" "mpar T \<noteq> hd (ids T)" "rid T \<noteq> int (hd (ids T))" "usable t (mpar T)"
    "rn_l (bufs t (mpar T)) = int (hd (ids T))"
  using min_at_all [OF assms] by simp_all

lemma remin_at:
  assumes "tree_at t q T" "lt_tree T \<noteq> Tip" "lb T" "n \<notin> set (ids T)" "\<And>i. usable t' i = usable t i" "usable t n"
    "bufs t' n = \<lparr>rn_c = mcol T, rn_p = int (mpar T), rn_l = - 1, rn_r = - 1, rn_v = y\<rparr>"
    "bufs t' (mpar T) = (bufs t (mpar T))\<lparr>rn_l := int n\<rparr>"
    "\<And>i. i \<in> set (ids T) \<Longrightarrow> i \<noteq> hd (ids T) \<Longrightarrow> i \<noteq> mpar T \<Longrightarrow> bufs t' i = bufs t i"
  shows "tree_at t' q (remin n y T)"
  using assms
proof (induction T arbitrary: q)
  case (Nod c i l x r)
  have l: "l \<noteq> Tip" "tree_at t (int i) l" "lb l" "n \<notin> set (ids l)" "n \<noteq> i" "n \<notin> set (ids r)" using Nod.prems by (auto simp: tree_at_Nod)
  have d: "i \<notin> set (ids l)" "i \<notin> set (ids r)" "set (ids l) \<inter> set (ids r) = {}" "tree_at t (int i) r" "usable t i"
    "bufs t i = \<lparr>rn_c = c, rn_p = q, rn_l = rid l, rn_r = rid r, rn_v = x\<rparr>" using Nod.prems(1) by (simp_all add: tree_at_Nod)
  have hd: "hd (ids l) \<in> set (ids l)" "hd (ids (Nod c i l x r)) = hd (ids l)" using l(1) by (simp_all add: hd_append)
  have ml: "mpar (Nod c i l x r) \<in> insert i (set (ids l))" using min_at(3) [OF l(2) _ l(3)] by auto
  have r: "tree_at t' (int i) r"
  proof -
    have "bufs t' j = bufs t j" if "j \<in> set (ids r)" for j
    proof (rule Nod.prems(9))
      show "j \<noteq> hd (ids (Nod c i l x r))" "j \<noteq> mpar (Nod c i l x r)" using that d hd ml by (auto simp del: mpar.simps ids_simps)
    qed (use that in simp)
    then have "shape (bufs t') (int i) r = shape (bufs t) (int i) r" by (rule shape_cong)
    then show ?thesis using d(4) Nod.prems(5) by (simp add: tree_at_def)
  qed
  show ?case
  proof (cases "lt_tree l = Tip")
    case True
    then obtain e j z f where lN: "l = Nod e j Tip z f" using l(1) by (cases l) auto
    then have "f = Tip" using l(3) lb_no_left [of e j z f] by simp
    then show ?thesis using Nod.prems r d l lN by (auto simp: tree_at_Nod)
  next
    case False
    then have "tree_at t' (int i) (remin n y l)"
      using Nod.prems hd d by (intro Nod.IH(1) [OF l(2) _ l(3,4)]) auto
    moreover have "bufs t' i = bufs t i" using Nod.prems(9) [of i] d hd min_at(3) [OF l(2) False l(3)] False by auto
    moreover have "set (ids (remin n y l)) \<subseteq> insert n (set (ids l))"
      using remin_entries [OF l(1), of n y] l(1) by (cases "entries l") (auto simp: ids_def)
    ultimately show ?thesis using l r d False Nod.prems(5) remin_left(2) [OF False, of n y] by (auto simp: tree_at_Nod)
  qed
qed simp

text \<open>The parent's link moves to the successor.\<close>

definition parent_ok :: "('k, 'v) rbtree \<Rightarrow> int \<Rightarrow> nat set \<Rightarrow> bool" where
  "parent_ok t p S \<longleftrightarrow> p = - 1 \<or> (\<exists>q. p = int q \<and> usable t q \<and> q \<notin> S)"

lemma relink_at:
  assumes "parent_ok t p S"
  obtains t1 where "relink_parent p j s t = Inr t1" "pframe {} p j t t1" "moved {q. p = int q} t t1" "frame {q. p = int q} t t1"
proof (cases "p = - 1")
  case True
  then have "relink_parent p j s t = Inr t" by (simp add: relink_parent_def)
  then show thesis using that [of t] by (simp add: frame_pframe)
next
  case False
  then obtain q where q: "p = int q" "usable t q" using assms by (auto simp: parent_ok_def)
  let ?t1 = "put_node q (if rn_l (bufs t q) = j then (bufs t q)\<lparr>rn_l := s\<rparr> else (bufs t q)\<lparr>rn_r := s\<rparr>) t"
  have "relink_parent p j s t = Inr ?t1" using q by (simp add: relink_parent_def)
  moreover have "pframe {} p j t ?t1" using q by (auto simp: pframe_def)
  moreover have m: "moved {q. p = int q} t ?t1" using q by (intro moved_put) auto
  ultimately show thesis using that moved_frame [OF m] by blast
qed

lemma pframe_frame: "pframe {} p j t t1 \<Longrightarrow> frame S t1 t2 \<Longrightarrow> pframe S p j t t2"
  by (simp add: pframe_def frame_def)

lemma swap_in_usable: "usable t a \<Longrightarrow> usable t b \<Longrightarrow>
  swap_in get put (Some (int a)) (Some (int b)) t =
    Inr (put_node b (put (get (bufs t a)) (bufs (put_node a (put (get (bufs t b)) (bufs t a)) t) b)) (put_node a (put (get (bufs t b)) (bufs t a)) t))"
  by (simp add: swap_in_def)

lemma swap_links:
  assumes "usable t a" "usable t b" "a \<noteq> b" "bufs t a = \<lparr>rn_c = ca, rn_p = pa, rn_l = la, rn_r = ra, rn_v = va\<rparr>"
    "bufs t b = \<lparr>rn_c = cb, rn_p = pb, rn_l = l2, rn_r = r2, rn_v = vb\<rparr>"
  shows "\<exists>t'. rbind (swap_in rn_p (\<lambda>x n. n\<lparr>rn_p := x\<rparr>) (Some (int a)) (Some (int b)) t) (\<lambda>t6.
      rbind (swap_in rn_l (\<lambda>x n. n\<lparr>rn_l := x\<rparr>) (Some (int a)) (Some (int b)) t6) (\<lambda>t7.
        rbind (swap_in rn_r (\<lambda>x n. n\<lparr>rn_r := x\<rparr>) (Some (int a)) (Some (int b)) t7) (\<lambda>t8.
          swap_in rn_c (\<lambda>x n. n\<lparr>rn_c := x\<rparr>) (Some (int a)) (Some (int b)) t8))) = Inr t' \<and> moved {a, b} t t' \<and>
    bufs t' a = \<lparr>rn_c = cb, rn_p = pb, rn_l = l2, rn_r = r2, rn_v = va\<rparr> \<and>
    bufs t' b = \<lparr>rn_c = ca, rn_p = pa, rn_l = la, rn_r = ra, rn_v = vb\<rparr>"
  using assms by (simp add: swap_in_usable moved_put)

text \<open>The successor becomes the parent of the subtrees of the node.\<close>

lemma hand_over:
  assumes "tree_at t p (Nod c i l x r)" "frame P t t1" "P \<inter> set (ids (Nod c i l x r)) = {}"
  obtains t2 t3 where "set_p_if (rid l) (int s) t1 = Inr t2" "set_p_if (rid r) (int s) t2 = Inr t3" "tree_at t3 (int s) l" "tree_at t3 (int s) r"
    "moved (set (ids (Nod c i l x r))) t1 t3" "usable t1 i" "usable t2 i" "usable t3 i" "bufs t1 i = bufs t i" "bufs t2 i = bufs t i" "bufs t3 i = bufs t i"
proof -
  have d: "i \<notin> set (ids l)" "i \<notin> set (ids r)" "set (ids l) \<inter> set (ids r) = {}" "tree_at t (int i) l" "tree_at t (int i) r" "usable t i"
    using assms(1) by (simp_all add: tree_at_Nod)
  have i1: "usable t1 i" "bufs t1 i = bufs t i" using assms(2,3) d(6) by (auto simp: frame_def)
  have lr: "tree_at t1 (int i) l" "tree_at t1 (int i) r" using d(4,5) assms(2,3) by (auto intro: tree_at_frame)
  define t2 where "t2 = reparent l (int s) t1"
  have r2: "tree_at t2 (int i) r" unfolding t2_def
    by (rule tree_at_frame [OF lr(2) moved_frame [OF reparent_moved [OF lr(1)]]]) (use d in auto)
  have l2: "tree_at t2 (int s) l" unfolding t2_def by (rule reparent_at [OF lr(1)])
  define t3 where "t3 = reparent r (int s) t2"
  have l3: "tree_at t3 (int s) l" unfolding t3_def
    by (rule tree_at_frame [OF l2 moved_frame [OF reparent_moved [OF r2]]]) (use d in auto)
  have i2: "usable t2 i" "bufs t2 i = bufs t i" unfolding t2_def using d(1) lr(1) i1 by simp_all
  have i3: "usable t3 i" "bufs t3 i = bufs t i" unfolding t3_def using d(2) r2 i2 by simp_all
  have m: "moved (set (ids (Nod c i l x r))) t1 t3"
    by (rule moved_trans [OF reparent_moved [OF lr(1), of "int s", folded t2_def] reparent_moved [OF r2, of "int s", folded t3_def]]) auto
  show thesis
    by (rule that [OF set_p_if_rid [OF lr(1), of "int s", folded t2_def] set_p_if_rid [OF r2, of "int s", folded t3_def] l3
          reparent_at [OF r2, of "int s", folded t3_def] m i1(1) i2(1) i3(1) i1(2) i2(2) i3(2)])
qed

lemma swap_far_at:
  assumes "tree_at t p (Nod c i l x r)" "lb r" "lt_tree r \<noteq> Tip" "s = hd (ids r)" "y = snd (hd (entries r))"
    "parent_ok t p (set (ids (Nod c i l x r)))"
  shows "\<exists>t'. swap_successor t (int i) (int s) = Inr t' \<and> tree_at t' p (Nod c s l y (remin i x r)) \<and>
    pframe (set (ids (Nod c i l x r))) p (int i) t t' \<and> moved ({q. p = int q} \<union> set (ids (Nod c i l x r))) t t'"
proof -
  let ?S = "set (ids (Nod c i l x r))" and ?P = "{q. p = int q}"
  have P: "?P \<inter> ?S = {}" using assms(6) by (auto simp: parent_ok_def)
  have d: "i \<notin> set (ids l)" "i \<notin> set (ids r)" "set (ids l) \<inter> set (ids r) = {}" "tree_at t (int i) l" "tree_at t (int i) r" "usable t i"
    "bufs t i = \<lparr>rn_c = c, rn_p = p, rn_l = rid l, rn_r = rid r, rn_v = x\<rparr>" using assms(1) by (simp_all add: tree_at_Nod)
  note mn = min_at [OF d(5) assms(3,2), folded assms(4,5)]
  have rT: "r \<noteq> Tip" using assms(3) by auto
  then have sr: "s \<in> set (ids r)" by (simp add: assms(4))
  then have si: "s \<noteq> i" "mpar r \<noteq> i" using d(2) mn(3) by auto
  obtain t1 where t1: "relink_parent p (int i) (int s) t = Inr t1" "pframe {} p (int i) t t1" "moved ?P t t1" "frame ?P t t1"
    by (rule relink_at [OF assms(6)])
  obtain t2 t3 where t3: "set_p_if (rid l) (int s) t1 = Inr t2" "set_p_if (rid r) (int s) t2 = Inr t3" "tree_at t3 (int s) l" "tree_at t3 (int s) r"
    "moved ?S t1 t3" and b3: "usable t1 i" "usable t2 i" "usable t3 i" "bufs t1 i = bufs t i" "bufs t2 i = bufs t i" "bufs t3 i = bufs t i"
    by (rule hand_over [OF assms(1) t1(4) P])
  note mn3 = min_at [OF t3(4) assms(3,2), folded assms(4,5)]
  let ?t4 = "put_node (mpar r) ((bufs t3 (mpar r))\<lparr>rn_l := int i\<rparr>) t3"
  have b4: "usable ?t4 s" "usable ?t4 i" "s \<noteq> i" "bufs ?t4 s = \<lparr>rn_c = mcol r, rn_p = int (mpar r), rn_l = - 1, rn_r = - 1, rn_v = y\<rparr>"
    "bufs ?t4 i = \<lparr>rn_c = c, rn_p = p, rn_l = rid l, rn_r = rid r, rn_v = x\<rparr>"
    using mn3 b3 si d(7) by auto
  obtain t9 where t9: "rbind (swap_in rn_p (\<lambda>x n. n\<lparr>rn_p := x\<rparr>) (Some (int s)) (Some (int i)) ?t4) (\<lambda>t6.
      rbind (swap_in rn_l (\<lambda>x n. n\<lparr>rn_l := x\<rparr>) (Some (int s)) (Some (int i)) t6) (\<lambda>t7.
        rbind (swap_in rn_r (\<lambda>x n. n\<lparr>rn_r := x\<rparr>) (Some (int s)) (Some (int i)) t7) (\<lambda>t8.
          swap_in rn_c (\<lambda>x n. n\<lparr>rn_c := x\<rparr>) (Some (int s)) (Some (int i)) t8))) = Inr t9" "moved {s, i} ?t4 t9"
    "bufs t9 s = \<lparr>rn_c = c, rn_p = p, rn_l = rid l, rn_r = rid r, rn_v = y\<rparr>"
    "bufs t9 i = \<lparr>rn_c = mcol r, rn_p = int (mpar r), rn_l = - 1, rn_r = - 1, rn_v = x\<rparr>"
    using swap_links [OF b4] by auto
  have far: "swap_far t (int i) (int s) (int (mpar r)) (- 1) = Inr t9"
    using d(6,7) b3 t1(1) t3(1,2) mn3 t9(1) by (simp add: swap_far_def)
  have "int s \<noteq> rid r" using mn(5) by simp
  then have run: "swap_successor t (int i) (int s) = Inr t9" using far mn d(6,7) by (simp add: swap_successor_def)
  have f4: "frame {mpar r, s, i} t3 t9"
    by (rule frame_trans [OF moved_frame [OF moved_put [OF moved_refl, of "mpar r" "{mpar r}"]] moved_frame [OF t9(2)]]) (use mn3 in auto)
  have m9: "bufs t9 (mpar r) = (bufs t3 (mpar r))\<lparr>rn_l := int i\<rparr>" using t9(2) mn3(4,6) si by (auto simp: moved_def frame_def)
  have "tree_at t9 (int s) (remin i x r)"
    by (rule remin_at [OF t3(4) assms(3,2) d(2)]) (use f4 b3 t9(4) m9 assms(4) d(2) in \<open>auto simp: frame_def\<close>)
  moreover have "tree_at t9 (int s) l" by (rule tree_at_frame [OF t3(3) f4]) (use d sr mn(3) in auto)
  moreover have "set (ids (remin i x r)) = insert i (set (ids r) - {s})"
    using remin_ids [OF rT, of i x] d(5) assms(4) by (simp add: tree_at_def)
  ultimately have "tree_at t9 p (Nod c s l y (remin i x r))"
    using t9(3) d sr f4 mn3(2) remin_left(2) [OF assms(3), of i x] by (auto simp: tree_at_Nod frame_def)
  moreover have m34: "moved ?S t3 ?t4" using mn3(3,6) by (intro moved_put moved_refl) auto
  have m14: "moved ?S t1 ?t4" by (rule moved_trans [OF t3(5) m34]) simp
  have m19: "moved ?S t1 t9" by (rule moved_trans [OF m14 t9(2)]) (use sr in auto)
  moreover have "moved (?P \<union> ?S) t t9" by (rule moved_trans [OF t1(3) m19]) auto
  ultimately show ?thesis using run pframe_frame [OF t1(2) moved_frame [OF m19]] by blast
qed

lemma swap_near_at:
  assumes "tree_at t p (Nod c i l x (Nod d s Tip y Tip))" "parent_ok t p (set (ids (Nod c i l x (Nod d s Tip y Tip))))"
  shows "\<exists>t'. swap_successor t (int i) (int s) = Inr t' \<and> tree_at t' (int s) l \<and>
    bufs t' s = \<lparr>rn_c = c, rn_p = p, rn_l = rid l, rn_r = int i, rn_v = y\<rparr> \<and> usable t' s \<and>
    bufs t' i = \<lparr>rn_c = d, rn_p = int s, rn_l = - 1, rn_r = int i, rn_v = x\<rparr> \<and> usable t' i \<and>
    pframe (insert i (insert s (set (ids l)))) p (int i) t t' \<and> moved ({q. p = int q} \<union> insert i (insert s (set (ids l)))) t t'"
proof -
  let ?r = "Nod d s Tip y Tip" and ?P = "{q. p = int q}" and ?S = "insert i (insert s (set (ids l)))"
  have S: "set (ids (Nod c i l x ?r)) = ?S" by auto
  have P: "?P \<inter> ?S = {}" using assms(2) unfolding S by (auto simp: parent_ok_def)
  have d: "i \<notin> set (ids l)" "s \<notin> set (ids l)" "i \<noteq> s" "tree_at t (int i) l" "usable t i" "usable t s"
    "bufs t i = \<lparr>rn_c = c, rn_p = p, rn_l = rid l, rn_r = int s, rn_v = x\<rparr>"
    "bufs t s = \<lparr>rn_c = d, rn_p = int i, rn_l = - 1, rn_r = - 1, rn_v = y\<rparr>" using assms(1) by (auto simp: tree_at_Nod)
  obtain t1 where t1: "relink_parent p (int i) (int s) t = Inr t1" "pframe {} p (int i) t t1" "moved ?P t t1" "frame ?P t t1"
    by (rule relink_at [OF assms(2)])
  have e1: "bufs t1 i = bufs t i" "usable t1 i" "bufs t1 s = bufs t s" "usable t1 s" using t1(4) P d(5,6) by (auto simp: frame_def)
  have l1: "tree_at t1 (int i) l" using d(4) t1(4) P by (auto intro: tree_at_frame)
  define t2 where "t2 = reparent l (int s) t1"
  have l2: "tree_at t2 (int s) l" unfolding t2_def by (rule reparent_at [OF l1])
  have e2: "bufs t2 i = bufs t i" "usable t2 i" "bufs t2 s = bufs t s" "usable t2 s" unfolding t2_def using d(1,2) l1 e1 by simp_all
  have "\<exists>t'. swap_near t (int i) (int s) (int i) (- 1) = Inr t' \<and> moved {i, s} t2 t' \<and>
      bufs t' s = \<lparr>rn_c = c, rn_p = p, rn_l = rid l, rn_r = int i, rn_v = y\<rparr> \<and>
      bufs t' i = \<lparr>rn_c = d, rn_p = int s, rn_l = - 1, rn_r = int i, rn_v = x\<rparr>"
    unfolding swap_near_def using d(3,5-8) e1 e2 t1(1)
    by (simp add: set_p_if_rid [OF l1, of "int s", folded t2_def] swap_in_usable moved_put)
  then obtain t9 where t9: "swap_near t (int i) (int s) (int i) (- 1) = Inr t9" "moved {i, s} t2 t9"
    "bufs t9 s = \<lparr>rn_c = c, rn_p = p, rn_l = rid l, rn_r = int i, rn_v = y\<rparr>"
    "bufs t9 i = \<lparr>rn_c = d, rn_p = int s, rn_l = - 1, rn_r = int i, rn_v = x\<rparr>" by blast
  have "tree_at t9 (int s) l" by (rule tree_at_frame [OF l2 moved_frame [OF t9(2)]]) (use d in auto)
  moreover have m: "moved ?S t1 t9" by (rule moved_trans [OF reparent_moved [OF l1, of "int s", folded t2_def] t9(2)]) auto
  moreover have "moved (?P \<union> ?S) t t9" by (rule moved_trans [OF t1(3) m]) auto
  moreover have "usable t9 s" "usable t9 i" using moved_frame [OF t9(2)] e2 by (auto simp: frame_def)
  moreover have "swap_successor t (int i) (int s) = Inr t9" using t9(1) d(5-8) by (simp add: swap_successor_def)
  ultimately show ?thesis using t9 pframe_frame [OF t1(2) moved_frame [OF m]] by blast
qed

end
