(* ===== verification/RBTree_Delete.thy ===== *)
theory RBTree_Delete
  imports RBTree_Successor
begin

text \<open>
  \<open>Delete\<close> of \<open>Fx_RBTree\<close> removes the node of a key that is there and keeps the tree balanced.
\<close>

section \<open>Deleting the node at the root of a subtree\<close>

lemma pframe_around:
  assumes "frame S t0 t" "pframe S p j t t3" "frame S t3 t6"
  shows "pframe S p j t0 t6"
proof -
  have f: "\<And>i. usable t i = usable t0 i" "\<And>i. i \<notin> S \<Longrightarrow> bufs t i = bufs t0 i" "\<And>i. usable t6 i = usable t3 i"
    "\<And>i. i \<notin> S \<Longrightarrow> bufs t6 i = bufs t3 i" using assms(1,3) by (simp_all add: frame_def)
  have "\<exists>z. bufs t6 q = (if rn_l (bufs t0 q) = j then (bufs t0 q)\<lparr>rn_l := z\<rparr> else (bufs t0 q)\<lparr>rn_r := z\<rparr>)" if "p = int q" "q \<notin> S" for q
  proof -
    have "\<exists>z. bufs t3 q = (if rn_l (bufs t q) = j then (bufs t q)\<lparr>rn_l := z\<rparr> else (bufs t q)\<lparr>rn_r := z\<rparr>)"
      using assms(2) that unfolding pframe_def by blast
    then show ?thesis unfolding f(2) [OF that(2)] f(4) [OF that(2)] .
  qed
  then show ?thesis using assms(2) unfolding pframe_def by (simp add: f)
qed

lemma filter_out: "n \<notin> set (ids T) \<Longrightarrow> filter (\<lambda>e. fst e \<noteq> n) (entries T) = entries T"
  by (auto simp: filter_id_conv ids_def)

text \<open>The steps of \<open>Delete\<close> once the key is found.\<close>

definition replaced :: "'k \<times> 'v \<Rightarrow> ('k, 'v) rbtree \<Rightarrow> int \<Rightarrow> int \<Rightarrow> ('k, 'v) rtree \<Rightarrow> ('k, 'v) rbtree \<Rightarrow> bool" where
  "replaced zero t i r T' t' \<longleftrightarrow> (\<exists>s t3 n3 r4 t4. GetMin t r = Some (Inr s) \<and> swap_successor t i s = Inr t3 \<and> rbt_node t3 s = Inr n3 \<and>
     DeleteMin zero t3 (rn_r n3) = Some (Inr (r4, t4)) \<and> rbind (set_r s r4 t4) (\<lambda>t5. KeepBalance t5 s) = Inr (rid T', t'))"

lemma erased_swap:
  assumes "moved (set (ids T)) t0 t" "entries (Nod c i l x r) = entries T" "rid T = int i" "i \<notin> set (ids l)" "i \<notin> set (ids r)" "r \<noteq> Tip"
    and "pframe (set (ids T)) p (int i) t t3" "moved S t t3" "frame (set (ids T)) t3 t6"
    and "rt_md t6 = (rt_md t3)\<lparr>rm_size := rm_size (rt_md t3) - 1\<rparr>" "live L cap (U - {i}) t6"
    and "tree_at t6 p T'" "entries T' = entries l @ hd (entries r) # tl (entries r)"
  shows "erased L cap U t0 p T i T' t6"
proof -
  have "pframe (set (ids T)) p (rid T) t0 t6"
    unfolding assms(3) by (rule pframe_around [OF moved_frame [OF assms(1)] assms(7,9)])
  moreover have "entries T' = filter (\<lambda>e. fst e \<noteq> i) (entries T)"
    using assms(4-6,13) by (simp add: assms(2) [symmetric] filter_out)
  moreover have "i \<in> set (ids T)" using entries_ids [OF assms(2)] by (metis ids_simps(2) in_set_conv_decomp)
  ultimately show ?thesis using assms(10-12) moved_md [OF assms(8)] moved_md [OF assms(1)] by (simp add: erased_def)
qed

lemma delete_node_far:
  assumes "moved (set (ids T)) t0 t" "tree_at t p (Nod c i l x r)" "entries (Nod c i l x r) = entries T" "rid T = int i"
    and "ready r" "lt_tree r \<noteq> Tip" "parent_ok t p (set (ids T))" "live L cap U t0" "set (ids T) \<subseteq> U" "{q. p = int q} \<subseteq> U"
  shows "\<exists>s y r' t'. replaced zero t (int i) (rid r) (bal (Nod c s l y r')) t' \<and> erased L cap U t0 p T i (bal (Nod c s l y r')) t' \<and> kept r r'"
proof -
  have S: "set (ids (Nod c i l x r)) = set (ids T)" using entries_ids [OF assms(3)] by simp
  have rN: "r \<noteq> Tip" "lb r" using assms(5) by (auto simp: ready_def)
  have d: "i \<notin> set (ids l)" "i \<notin> set (ids r)" "tree_at t (int i) r" using assms(2) by (simp_all add: tree_at_Nod)
  define s where "s = hd (ids r)" define y where "y = snd (hd (entries r))"
  have e1: "(s, y) = hd (entries r)" using rN(1) by (cases "entries r") (auto simp: s_def y_def ids_def)
  obtain t3 where t3: "swap_successor t (int i) (int s) = Inr t3" "tree_at t3 p (Nod c s l y (remin i x r))"
    "pframe (set (ids T)) p (int i) t t3" "moved ({q. p = int q} \<union> set (ids T)) t t3"
    using swap_far_at [OF assms(2) rN(2) assms(6) s_def y_def] assms(7) unfolding S by blast
  let ?T3 = "Nod c s l y (remin i x r)"
  have e3: "entries ?T3 = entries l @ (s, y) # (i, x) # tl (entries r)" by (simp add: remin_entries [OF rN(1)])
  have S3: "set (ids ?T3) = set (ids T)"
  proof -
    have "set (ids ?T3) = fst ` set (entries l @ (i, x) # (s, y) # tl (entries r))" by (auto simp: e3 ids_def simp del: entries.simps)
    also have "\<dots> = set (ids (Nod c i l x r))" using rN(1) by (simp add: ids_def e1 image_Un)
    finally show ?thesis using S by simp
  qed
  have lv: "live L cap U t3" using moved_live [OF t3(4) moved_live [OF assms(1,8,9)]] assms(9,10) by simp
  have sub: "tree_at t3 (int s) (remin i x r)" "set (ids (remin i x r)) \<subseteq> U" using t3(2) S3 assms(9) by (auto simp: tree_at_Nod)
  obtain r4 t4 where r4: "DeleteMin zero t3 (rid (remin i x r)) = Some (Inr (rid r4, t4))"
    "erased L cap U t3 (int s) (remin i x r) (hd (ids (remin i x r))) r4 t4" "kept (remin i x r) r4"
    using DeleteMin_at [OF sub(1) remin_ready [OF assms(5)] lv sub(2)] by blast
  have hd: "hd (ids (remin i x r)) = i" using remin_entries [OF rN(1)] by (simp add: ids_def)
  obtain t6 where t6: "rbind (set_r (int s) (rid r4) t4) (\<lambda>t5. KeepBalance t5 (int s)) = Inr (rid (bal (Nod c s l y r4)), t6)"
    "frame (set (ids ?T3)) t3 t6" "erased L cap U t3 p ?T3 i (bal (Nod c s l y r4)) t6"
    using erased_right [OF moved_refl t3(2) refl _ r4(2) [unfolded hd]] S3 assms(9) by blast
  have "replaced zero t (int i) (rid r) (bal (Nod c s l y r4)) t6"
    unfolding replaced_def using GetMin_at [OF d(3) rN(1)] t3(1,2) r4(1) t6(1) by (auto simp: s_def [symmetric])
  moreover have "erased L cap U t0 p T i (bal (Nod c s l y r4)) t6"
  proof (rule erased_swap [OF assms(1,3,4) d(1,2) rN(1) t3(3,4)])
    show "frame (set (ids T)) t3 t6" using t6(2) S3 by simp
    have "filter (\<lambda>e. fst e \<noteq> i) (tl (entries r)) = tl (entries r)" "fst (hd (entries r)) \<noteq> i"
      using filter_out [OF d(2)] d(2) rN(1) e1 by (cases "entries r"; auto simp: ids_def)+
    then show "entries (bal (Nod c s l y r4)) = entries l @ hd (entries r) # tl (entries r)"
      using t6(3) filter_out [OF d(1)] e1 e3 by (simp add: erased_def)
  qed (use t6(3) in \<open>auto simp: erased_def\<close>)
  moreover have "kept r r4" using r4(3) by (simp add: kept_def topred_def remin_left) (use assms(5) in \<open>auto simp: ready_def topred_def kept_def\<close>)
  ultimately show ?thesis by blast
qed

lemma delete_node_near:
  assumes "moved (set (ids T)) t0 t" "tree_at t p (Nod c i l x r)" "entries (Nod c i l x r) = entries T" "rid T = int i"
    and "ready r" "lt_tree r = Tip" "parent_ok t p (set (ids T))" "live L cap U t0" "set (ids T) \<subseteq> U" "{q. p = int q} \<subseteq> U"
  shows "\<exists>s y r' t'. replaced zero t (int i) (rid r) (bal (Nod c s l y r')) t' \<and> erased L cap U t0 p T i (bal (Nod c s l y r')) t' \<and> kept r r'"
proof -
  obtain d s y b where "r = Nod d s Tip y b" using assms(5,6) by (cases r) (auto simp: ready_def)
  then have r: "r = Nod kRed s Tip y Tip" using assms(5) lb_no_left [of d s y b] by auto
  note at = assms(2) [unfolded r]
  have S: "set (ids (Nod c i l x (Nod kRed s Tip y Tip))) = set (ids T)" "insert i (insert s (set (ids l))) = set (ids T)"
    using entries_ids [OF assms(3)] unfolding r by (auto simp: entries_ids [OF assms(3) [unfolded r], symmetric])
  obtain t3 where t3: "swap_successor t (int i) (int s) = Inr t3" "tree_at t3 (int s) l"
    "bufs t3 s = \<lparr>rn_c = c, rn_p = p, rn_l = rid l, rn_r = int i, rn_v = y\<rparr>" "usable t3 s"
    "bufs t3 i = \<lparr>rn_c = kRed, rn_p = int s, rn_l = - 1, rn_r = int i, rn_v = x\<rparr>" "usable t3 i"
    "pframe (set (ids T)) p (int i) t t3" "moved ({q. p = int q} \<union> set (ids T)) t t3"
    using swap_near_at [OF at] assms(7) unfolding S by blast
  have d: "i \<notin> set (ids l)" "s \<notin> set (ids l)" "i \<noteq> s" "tree_at t (int i) r" using assms(2) r by (auto simp: tree_at_Nod)
  have lv: "live L cap U t3" using moved_live [OF t3(8) moved_live [OF assms(1,8,9)]] assms(9,10) by simp
  have "i \<in> U" using assms(9) S(2) by auto
  then obtain t4 where t4: "free_node zero t3 (int i) = Inr t4" "frame {i} t3 t4" "rt_md t4 = (rt_md t3)\<lparr>rm_size := rm_size (rt_md t3) - 1\<rparr>"
    "live L cap (U - {i}) t4" using free_node_at [OF lv] by blast
  have dm: "DeleteMin zero t3 (int i) = Some (Inr (- 1, t4))" using t3(5,6) t4(1) by (subst DeleteMin.simps) simp
  have s4: "usable t4 s" "bufs t4 s = \<lparr>rn_c = c, rn_p = p, rn_l = rid l, rn_r = int i, rn_v = y\<rparr>" using t4(2) t3(3,4) d(3) by (auto simp: frame_def)
  have l4: "tree_at t4 (int s) l" by (rule tree_at_frame [OF t3(2) t4(2)]) (use d in auto)
  obtain t6 where t6: "rbind (set_r (int s) (- 1) t4) (\<lambda>t5. KeepBalance t5 (int s)) = Inr (rid (bal (Nod c s l y Tip)), t6)"
    "tree_at t6 p (bal (Nod c s l y Tip))" "moved (insert s (set (ids l))) t4 t6"
    using attach_right [OF s4 l4, of Tip] d(2) by auto
  have fr: "frame (set (ids T)) t3 t6" by (rule frame_trans [OF t4(2) moved_frame [OF t6(3)]]) (use S in auto)
  have lv6: "live L cap (U - {i}) t6" by (rule moved_live [OF t6(3) t4(4)]) (use S assms(9) d in auto)
  have "erased L cap U t0 p T i (bal (Nod c s l y Tip)) t6"
    by (rule erased_swap [OF assms(1,3,4) d(1) _ _ t3(7,8) fr _ lv6 t6(2)]) (use d r t4(3) moved_md [OF t6(3)] in auto)
  moreover have "replaced zero t (int i) (rid r) (bal (Nod c s l y Tip)) t6"
    unfolding replaced_def using GetMin_at [OF d(4)] r t3(1,3,4) dm t6(1) by auto
  moreover have "kept r Tip" using r by (simp add: kept_def)
  ultimately show ?thesis by blast
qed

section \<open>The way down to the right\<close>

definition lower :: "('k, 'v) rtree \<Rightarrow> ('k, 'v) rtree" where
  "lower T = (if col (lt_tree T) = kRed then rotr T else T)"

fun root :: "('k, 'v) rtree \<Rightarrow> (nat \<times> 'k \<times> 'v) list" where
  "root Tip = []"
| "root (Nod c i l x r) = [(i, x)]"

lemma bal_black_col:
  assumes "lb l" "lb r" "col l = kBlack" "bh l = bh r"
  shows "lb (bal (Nod kBlack i l x r)) \<and> bh (bal (Nod kBlack i l x r)) = Suc (bh r) \<and> col (bal (Nod kBlack i l x r)) = kBlack"
proof -
  have "col (bal (Nod kBlack i l x r)) = kBlack"
  proof (cases "col r = kRed")
    case True
    then obtain j a y b where "r = Nod kRed j a y b" by (auto simp: red_tree)
    with assms show ?thesis by (simp add: bal_defs)
  qed (use assms in \<open>simp add: bal_id\<close>)
  then show ?thesis using bal_black [of l r i x] assms by simp
qed

text \<open>
  After the rotation and the borrowing of a descent to the right, the root is the old one, or one
  with a smaller key.
\<close>

definition right_ok :: "('k, 'v) rtree \<Rightarrow> ('k, 'v) rtree \<Rightarrow> bool" where
  "right_ok T T2 \<longleftrightarrow> (\<exists>c i l x r. T2 = Nod c i l x r \<and>
    (root T = [(i, x)] \<and> ready r \<or> fst x \<in> set (keys (lt_tree T)) \<and> (ready r \<or> leans_right r \<and> root r = root T)) \<and>
    (\<forall>s y r'. lb r' \<longrightarrow> bh r' = bh r \<longrightarrow> (col r = kBlack \<longrightarrow> col r' = kBlack) \<longrightarrow> kept T (bal (Nod c s l y r'))))"

lemma right_okI:
  assumes "root T = [(i, x)] \<and> ready r \<or> fst x \<in> set (keys (lt_tree T)) \<and> (ready r \<or> leans_right r \<and> root r = root T)"
    "\<And>s y r'. lb r' \<Longrightarrow> bh r' = bh r \<Longrightarrow> (col r = kBlack \<Longrightarrow> col r' = kBlack) \<Longrightarrow> kept T (bal (Nod c s l y r'))"
  shows "right_ok T (Nod c i l x r)"
  using assms by (auto simp: right_ok_def)

lemma right_rotated:
  fixes T :: "('k, 'v) rtree"
  assumes "ready T \<or> topred T" "T = Nod c i (Nod kRed j a y b) x r"
  shows "right_ok T (prep_right (lower T))"
proof -
  let ?R = "Nod kRed i b x r"
  have lrb: "lb a" "lb b" "lb r" "col a = kBlack" "col b = kBlack" "col r = kBlack" "bh a = bh b" "bh a = bh r" using assms by auto
  have "right_ok T (Nod c j a y ?R)"
  proof (rule right_okI)
    fix s z and r' :: "('k, 'v) rtree" assume r': "lb r'" "bh r' = bh ?R"
    show "kept T (bal (Nod c s a z r'))"
    proof (cases c)
      case kRed
      then have "topred T" using assms by auto
      then show ?thesis using kRed bal_red [of a r' s z] lrb r' by (auto simp: kept_def)
    next
      case kBlack
      then show ?thesis using bal_black_col [of a r' s z] lrb r' by (auto simp: kept_def assms(2))
    qed
  qed (use lrb assms in auto)
  then show ?thesis by (simp add: assms(2) lower_def prep_right_def)
qed

lemma right_borrowed:
  fixes T :: "('k, 'v) rtree"
  assumes "T = Nod kRed i (Nod kBlack j a y b) x (Nod kBlack k e z f)" "ready T" "col e = kBlack"
  shows "right_ok T (prep_right T)"
proof (cases "col a = kRed")
  case True
  then obtain ja aa ya ba where a: "a = Nod kRed ja aa ya ba" by (auto simp: red_tree)
  let ?M = "Nod kBlack i b x (Nod kRed k e z f)"
  have "right_ok T (Nod kRed j (paint kBlack a) y ?M)"
  proof (rule right_okI)
    fix s w and r' :: "('k, 'v) rtree" assume r': "lb r'" "bh r' = bh ?M" "col ?M = kBlack \<Longrightarrow> col r' = kBlack"
    have "bal (Nod kRed s (paint kBlack a) w r') = Nod kRed s (paint kBlack a) w r'" by (rule bal_id) (use r' a in auto)
    then show "kept T (bal (Nod kRed s (paint kBlack a) w r'))" using assms r' a by (auto simp: kept_def)
  qed (use assms in auto)
  then show ?thesis using assms a by (simp add: prep_right_def from_left_def)
next
  case False
  let ?L = "Nod kRed j a y b" and ?R = "Nod kRed k e z f"
  have "right_ok T (Nod kBlack i ?L x ?R)"
  proof (rule right_okI)
    fix s w and r' :: "('k, 'v) rtree" assume "lb r'" "bh r' = bh ?R"
    then show "kept T (bal (Nod kBlack s ?L w r'))" using bal_black [of ?L r' s w] assms False by (auto simp: kept_def)
  qed (use assms in auto)
  then show ?thesis using assms False by (simp add: prep_right_def from_left_def)
qed

lemma right_straight:
  fixes T :: "('k, 'v) rtree"
  assumes "T = Nod c i l x r" "ready T \<and> col r = kBlack \<or> leans_right T" "col l = kBlack" "r \<noteq> Tip" "col r = kRed \<or> col (lt_tree r) = kRed"
  shows "right_ok T T"
  unfolding assms(1)
proof (rule right_okI)
  show "root (Nod c i l x r) = [(i, x)] \<and> ready r \<or> fst x \<in> set (keys (lt_tree (Nod c i l x r))) \<and> (ready r \<or> leans_right r \<and> root r = root (Nod c i l x r))"
    using assms by (auto simp: ready_def)
  fix s y and r' :: "('k, 'v) rtree" assume r': "lb r'" "bh r' = bh r" "col r = kBlack \<Longrightarrow> col r' = kBlack"
  show "kept (Nod c i l x r) (bal (Nod c s l y r'))"
  proof (cases "col r = kBlack")
    case True
    have "bal (Nod c s l y r') = Nod c s l y r'" by (rule bal_id) (use r' True assms(3) in auto)
    then show ?thesis using True assms r' by (auto simp: kept_def)
  next
    case False
    then show ?thesis using assms r' bal_black_col [of l r' s y] by (auto simp: kept_def)
  qed
qed

lemma prep_right_inv:
  assumes "ready T \<or> topred T \<or> leans_right T" "rt_tree (lower T) \<noteq> Tip"
  shows "right_ok T (prep_right (lower T))"
proof -
  obtain c i l x r where T: "T = Nod c i l x r" using assms(1) by (cases T) (auto simp: ready_def topred_def leans_right_def)
  show ?thesis
  proof (cases "col l = kRed")
    case True
    then obtain j a y b where "l = Nod kRed j a y b" by (auto simp: red_tree)
    then show ?thesis by (intro right_rotated [where c = c and i = i and x = x and r = r]) (use assms(1) T True in auto)
  next
    case bl: False
    then have T1: "lower T = T" "r \<noteq> Tip" using assms(2) by (auto simp: T lower_def)
    have pre: "ready T \<or> leans_right T" using assms(1) bl by (auto simp: T)
    show ?thesis
    proof (cases "col r = kBlack \<and> col (lt_tree r) = kBlack")
      case True
      then have rdy: "ready T" "c = kRed" using pre bl by (auto simp: T)
      obtain k e z f where r: "r = Nod kBlack k e z f" using T1(2) True by (cases r) auto
      then have "l \<noteq> Tip" using rdy by (auto simp: T)
      then obtain j a y b where "l = Nod kBlack j a y b" using bl by (cases l) auto
      then show ?thesis unfolding T1 using right_borrowed [of T i j a y b x k e z f] rdy True r by (simp add: T)
    next
      case False
      then have "prep_right T = T" by (auto simp: T prep_right_def)
      moreover have "right_ok T T" by (rule right_straight [OF T]) (use pre bl T1(2) False in \<open>auto simp: T\<close>)
      ultimately show ?thesis by (simp add: T1)
    qed
  qed
qed

section \<open>Delete\<close>

lemma Delete_left_step:
  assumes "tree_at t p (Nod c i l x r)" "l \<noteq> Tip" "lt k (fst x)" "prepare_left t (int i) (Some (rid l)) = Inr (i1, t1)"
    "rbt_node t1 i1 = Inr n1" "rbt_Delete lt zero t1 (rn_l n1) k = Some (Inr (Some j, t2))"
    "rbind (set_l i1 j t2) (\<lambda>t3. KeepBalance t3 i1) = Inr (w, t4)"
  shows "rbt_Delete lt zero t (int i) k = Some (Inr (Some w, t4))"
proof -
  have "rbind (set_l i1 j t2) (\<lambda>t3. rbind (KeepBalance t3 i1) (\<lambda>(j, t4). Inr (Some j, t4))) = Inr (Some w, t4)"
    using assms(7) by (simp add: rbind_assoc [symmetric])
  then show ?thesis using assms by (subst rbt_Delete.simps) (simp add: tree_at_Nod GetPointer_rid)
qed

lemma Delete_right_start:
  assumes "tree_at t p (Nod c i l x r)" "\<not> lt k (fst x)"
    "rbind (is_red t (rid l)) (\<lambda>red. if red then RotateRight t (int i) else Inr (int i, t)) = Inr (i1, t1)" "rbt_node t1 i1 = Inr n1"
  shows "rbt_Delete lt zero t (int i) k =
       (if same_key lt k n1 \<and> rn_r n1 = rbt_kInvalidNodeId
        then Some (rbind (free_node zero t1 i1) (\<lambda>t2. Inr (Some rbt_kInvalidNodeId, t2)))
        else fbind (Some (prepare_right t1 i1)) (\<lambda>(i2, t2).
         fbind (Some (rbt_node t2 i2)) (\<lambda>n2.
         if same_key lt k n2
         then fbind (GetMin t2 (rn_r n2)) (\<lambda>s.
           fbind (Some (swap_successor t2 i2 s)) (\<lambda>t3.
             fbind (Some (rbt_node t3 s)) (\<lambda>n3.
               fbind (DeleteMin zero t3 (rn_r n3)) (\<lambda>(r4, t4).
                 Some (rbind (set_r s r4 t4) (\<lambda>t5. rbind (KeepBalance t5 s) (\<lambda>(j, t6). Inr (Some j, t6))))))))
         else if rn_r n2 = rbt_kInvalidNodeId then Some (Inr (None, t2))
         else fbind (rbt_Delete lt zero t2 (rn_r n2) k) (\<lambda>(r, t3).
           case r of None \<Rightarrow> Some (Inr (None, t3))
           | Some r4 \<Rightarrow> Some (rbind (set_r i2 r4 t3) (\<lambda>t4. rbind (KeepBalance t4 i2) (\<lambda>(j, t5). Inr (Some j, t5))))))))"
  using assms by (subst rbt_Delete.simps) (simp add: tree_at_Nod GetPointer_rid del: rbt_kInvalidNodeId)

lemma Delete_found_step:
  assumes "tree_at t p (Nod c i l x r)" "\<not> lt k (fst x)"
    "rbind (is_red t (rid l)) (\<lambda>red. if red then RotateRight t (int i) else Inr (int i, t)) = Inr (i1, t1)" "rbt_node t1 i1 = Inr n1"
    "rn_r n1 \<noteq> - 1" "prepare_right t1 i1 = Inr (i2, t2)" "rbt_node t2 i2 = Inr n2" "same_key lt k n2" "replaced zero t2 i2 (rn_r n2) T' t'"
  shows "rbt_Delete lt zero t (int i) k = Some (Inr (Some (rid T'), t'))"
proof -
  obtain s t3 n3 r4 t4 where st: "GetMin t2 (rn_r n2) = Some (Inr s)" "swap_successor t2 i2 s = Inr t3" "rbt_node t3 s = Inr n3"
    "DeleteMin zero t3 (rn_r n3) = Some (Inr (r4, t4))" "rbind (set_r s r4 t4) (\<lambda>t5. KeepBalance t5 s) = Inr (rid T', t')"
    using assms(9) by (auto simp: replaced_def)
  have "rbind (set_r s r4 t4) (\<lambda>t5. rbind (KeepBalance t5 s) (\<lambda>(j, t6). Inr (Some j, t6))) = Inr (Some (rid T'), t')"
    using st(5) by (simp add: rbind_assoc [symmetric])
  then show ?thesis unfolding Delete_right_start [where lt = lt and k = k and x = x, OF assms(1-4)] using assms(5-8) st(1-4) by simp
qed

lemma Delete_right_step:
  assumes "tree_at t p (Nod c i l x r)" "\<not> lt k (fst x)"
    "rbind (is_red t (rid l)) (\<lambda>red. if red then RotateRight t (int i) else Inr (int i, t)) = Inr (i1, t1)" "rbt_node t1 i1 = Inr n1"
    "rn_r n1 \<noteq> - 1" "prepare_right t1 i1 = Inr (i2, t2)" "rbt_node t2 i2 = Inr n2" "\<not> same_key lt k n2" "rn_r n2 \<noteq> - 1"
    "rbt_Delete lt zero t2 (rn_r n2) k = Some (Inr (Some j, t3))" "rbind (set_r i2 j t3) (\<lambda>t4. KeepBalance t4 i2) = Inr (w, t5)"
  shows "rbt_Delete lt zero t (int i) k = Some (Inr (Some w, t5))"
proof -
  have "rbind (set_r i2 j t3) (\<lambda>t4. rbind (KeepBalance t4 i2) (\<lambda>(j, t5). Inr (Some j, t5))) = Inr (Some w, t5)"
    using assms(11) by (simp add: rbind_assoc [symmetric])
  then show ?thesis unfolding Delete_right_start [where lt = lt and k = k and x = x, OF assms(1-4)] using assms(5-10) by simp
qed

lemma lower_turns:
  "tree_at t p (Nod c i l x r) \<Longrightarrow>
   turns (rbind (is_red t (rid l)) (\<lambda>red. if red then RotateRight t (int i) else Inr (int i, t))) t p (Nod c i l x r) (lower (Nod c i l x r))"
proof -
  assume at: "tree_at t p (Nod c i l x r)"
  then have "tree_at t (int i) l" by (simp add: tree_at_Nod)
  then show ?thesis using rotr_turns [OF at] turns_refl [OF at] by (simp add: lower_def)
qed

lemma lower_side:
  assumes "ready T \<or> topred T \<or> leans_right T" "lower T = Nod c i l x r" "r \<noteq> Tip" "col r = kBlack" "col (lt_tree r) = kBlack"
  shows "l \<noteq> Tip \<and> col l = kBlack \<and> col (rt_tree r) = kBlack"
proof -
  obtain d j l0 y r0 where T: "T = Nod d j l0 y r0" using assms(1) by (cases T) (auto simp: ready_def topred_def leans_right_def)
  have "col l0 \<noteq> kRed" using assms(2,4) by (auto simp: T lower_def red_tree)
  then have N: "lb r" "col l = kBlack" "bh l = bh r" using assms by (auto simp: T lower_def)
  moreover have "bh r \<noteq> 0" using black_bh_0 [OF _ assms(4)] assms(3) by blast
  ultimately show ?thesis using assms(3) by (cases r; cases l) auto
qed

lemma lower_leaf:
  assumes "ready T \<or> topred T \<or> leans_right T" "rt_tree (lower T) = Tip"
  obtains i x where "T = Nod kRed i Tip x Tip" "lower T = T"
proof -
  obtain d j l0 y r0 where T: "T = Nod d j l0 y r0" using assms(1) by (cases T) (auto simp: ready_def topred_def leans_right_def)
  have b: "col l0 = kBlack" using assms(2) by (cases l0) (auto simp: T lower_def split: if_splits)
  then have "r0 = Tip" using assms(2) by (simp add: T lower_def)
  moreover from this have "l0 = Tip" using black_bh_0 [OF _ b] assms(1) b by (auto simp: T)
  ultimately show thesis using that assms(1) by (auto simp: T lower_def)
qed

lemma prep_left_root:
  "prep_left (Nod c i l x r) = Nod c1 i1 l1 x1 r1 \<Longrightarrow> fst x \<in> insert (fst x1) (set (keys l1))"
  by (cases r; cases "lt_tree r") (auto simp: prep_left_def from_right_def split: if_splits)

definition del_pre :: "'k::linorder \<Rightarrow> ml_layout \<Rightarrow> nat \<Rightarrow> nat set \<Rightarrow> ('k, 'v) rbtree \<Rightarrow> int \<Rightarrow> ('k, 'v) rtree \<Rightarrow> bool" where
  "del_pre k L cap U t p T \<longleftrightarrow> tree_at t p T \<and> (ready T \<or> topred T \<or> leans_right T \<and> (\<forall>e\<in>set (root T). \<not> k < fst (snd e))) \<and>
     sorted_wrt (<) (keys T) \<and> k \<in> set (keys T) \<and> live L cap U t \<and> set (ids T) \<subseteq> U \<and> parent_ok t p (set (ids T)) \<and> {q. p = int q} \<subseteq> U"

definition del_post :: "'k::linorder \<times> 'v \<Rightarrow> 'k \<Rightarrow> ml_layout \<Rightarrow> nat \<Rightarrow> nat set \<Rightarrow> ('k, 'v) rbtree \<Rightarrow> int \<Rightarrow> ('k, 'v) rtree \<Rightarrow> bool" where
  "del_post zero k L cap U t p T \<longleftrightarrow> (\<exists>n v T' t'. rbt_Delete (<) zero t (rid T) k = Some (Inr (Some (rid T'), t')) \<and>
     (n, k, v) \<in> set (entries T) \<and> erased L cap U t p T n T' t' \<and> kept T T')"

lemma del_preD:
  assumes "del_pre k L cap U t p T"
  shows "tree_at t p T" "ready T \<or> topred T \<or> leans_right T" "sorted_wrt (<) (keys T)" "k \<in> set (keys T)" "live L cap U t" "set (ids T) \<subseteq> U"
    "parent_ok t p (set (ids T))" "{q. p = int q} \<subseteq> U"
  using assms by (auto simp: del_pre_def)

text \<open>The recursive call meets its condition.\<close>

lemma del_pre_sub:
  assumes "del_pre k L cap U t p T" "moved (set (ids T)) t t1" "tree_at t1 p (Nod c i l x r)" "entries (Nod c i l x r) = entries T" "S = l \<or> S = r"
    "k \<in> set (keys S)" "ready S \<or> leans_right S \<and> (\<forall>e\<in>set (root S). \<not> k < fst (snd e))"
  shows "del_pre k L cap U t1 (int i) S" "length (entries S) < length (entries T)"
proof -
  note d = del_preD [OF assms(1)]
  have ids: "ids T = ids l @ i # ids r" using entries_ids [OF assms(4)] by simp
  have keys: "keys T = keys l @ fst x # keys r" using arg_cong [OF assms(4), of "map (fst \<circ> snd)"] by (simp add: keys_def)
  have "tree_at t1 (int i) S" "usable t1 i" "i \<notin> set (ids S)" using assms(3,5) by (auto simp: tree_at_Nod)
  moreover have "sorted_wrt (<) (keys S)" using d(3) assms(5) unfolding keys by (auto simp: sorted_wrt_append)
  moreover have "set (ids S) \<subseteq> U" "i \<in> U" using d(6) assms(5) unfolding ids by auto
  ultimately show "del_pre k L cap U t1 (int i) S"
    using assms(6,7) moved_live [OF assms(2) d(5,6)] by (auto simp: del_pre_def parent_ok_def)
  show "length (entries S) < length (entries T)" using arg_cong [OF assms(4), of length] assms(5) by auto
qed

lemma Delete_left:
  assumes "del_pre k L cap U t p T" "T = Nod c i l x r" "k < fst x"
    and IH: "\<And>S t q. length (entries S) < length (entries T) \<Longrightarrow> del_pre k L cap U t q S \<Longrightarrow> del_post zero k L cap U t q S"
  shows "del_post zero k L cap U t p T"
proof -
  note d = del_preD [OF assms(1)] and at = del_preD(1) [OF assms(1), unfolded assms(2)]
  have rdy: "ready T \<or> topred T" using assms by (auto simp: del_pre_def)
  have "k \<in> set (keys l)" using d(3,4) assms(2,3) by (auto simp: sorted_wrt_append)
  then have l: "l \<noteq> Tip" by auto
  obtain c1 i1 l1 x1 r1 where p1: "prep_left T = Nod c1 i1 l1 x1 r1" "ready l1"
    "\<And>l'. lb l' \<Longrightarrow> bh l' = bh l1 \<Longrightarrow> (col l1 = kBlack \<Longrightarrow> col l' = kBlack) \<Longrightarrow> kept T (bal (Nod c1 i1 l' x1 r1))"
    using prep_left_inv [OF rdy] l assms(2) by auto
  obtain t1 where t1: "prepare_left t (int i) (Some (rid l)) = Inr (int i1, t1)" "tree_at t1 p (Nod c1 i1 l1 x1 r1)"
    "moved (set (ids T)) t t1" "entries (Nod c1 i1 l1 x1 r1) = entries T"
    using turnsE [OF prepare_left_turns [OF at l prep_left_side [OF rdy [unfolded assms(2)] l]]] p1(1) assms(2) by (metis rid.simps(2))
  have keys1: "keys T = keys l1 @ fst x1 # keys r1" using arg_cong [OF t1(4), of "map (fst \<circ> snd)"] by (simp add: keys_def)
  have k1: "k \<in> set (keys l1)"
    using d(3,4) assms(3) prep_left_root [OF p1(1) [unfolded assms(2)]] unfolding keys1 by (auto simp: sorted_wrt_append dest: less_trans)
  obtain n v l2 t2 where l2: "rbt_Delete (<) zero t1 (rid l1) k = Some (Inr (Some (rid l2), t2))" "(n, k, v) \<in> set (entries l1)"
    "erased L cap U t1 (int i1) l1 n l2 t2" "kept l1 l2"
    using IH [OF del_pre_sub(2,1) [OF assms(1) t1(3,2,4) disjI1 [OF refl] k1 disjI1 [OF p1(2)]]] by (auto simp: del_post_def)
  have "kept T (bal (Nod c1 i1 l2 x1 r1))" by (rule p1(3)) (use kept_ready [OF l2(4) p1(2)] in auto)
  moreover obtain t4 where t4: "rbind (set_l (int i1) (rid l2) t2) (\<lambda>t3. KeepBalance t3 (int i1)) = Inr (rid (bal (Nod c1 i1 l2 x1 r1)), t4)"
    "erased L cap U t p T n (bal (Nod c1 i1 l2 x1 r1)) t4"
    using erased_left [OF t1(3,2,4) d(6) l2(3)] by blast
  moreover have "rbt_Delete (<) zero t (int i) k = Some (Inr (Some (rid (bal (Nod c1 i1 l2 x1 r1))), t4))"
    using l2(1) by (intro Delete_left_step [where lt = "(<)" and k = k and x = x, OF at l assms(3) t1(1) rbt_node_rid [OF t1(2)] _ t4(1)]) simp
  moreover have "(n, k, v) \<in> set (entries T)" using l2(2) by (auto simp: t1(4) [symmetric])
  ultimately show ?thesis unfolding del_post_def by (auto simp: assms(2))
qed

lemma Delete_leaf:
  assumes "del_pre k L cap U t p T" "T = Nod kRed i Tip x Tip"
  shows "del_post zero k L cap U t p T"
proof -
  note d = del_preD [OF assms(1)] and at = del_preD(1) [OF assms(1), unfolded assms(2)]
  have k: "k = fst x" using d(4) assms(2) by simp
  obtain t' where t': "free_node zero t (int i) = Inr t'" "erased L cap U t p T i Tip t'"
    using erased_leaf [OF at d(5), of zero] d(6) assms(2) by auto
  have "rbt_Delete (<) zero t (int i) k = Some (Inr (Some (- 1), t'))"
    using at k t'(1) by (subst rbt_Delete.simps) (simp add: tree_at_Nod same_key_def)
  moreover have "(i, k, snd x) \<in> set (entries T)" using k assms(2) by simp
  ultimately show ?thesis unfolding del_post_def using t'(2) assms(2) by (intro exI [of _ i] exI [of _ "snd x"] exI [of _ Tip] exI [of _ t']) (simp add: kept_def)
qed

lemma Delete_right:
  assumes "del_pre k L cap U t p T" "T = Nod c i l x r" "\<not> k < fst x" "rt_tree (lower T) \<noteq> Tip"
    and IH: "\<And>S t q. length (entries S) < length (entries T) \<Longrightarrow> del_pre k L cap U t q S \<Longrightarrow> del_post zero k L cap U t q S"
  shows "del_post zero k L cap U t p T"
proof -
  note d = del_preD [OF assms(1)] and at = del_preD(1) [OF assms(1), unfolded assms(2)]
  obtain c1 i1 l1 x1 r1 where low: "lower T = Nod c1 i1 l1 x1 r1" "r1 \<noteq> Tip" using assms(4) by (cases "lower T") auto
  obtain c2 i2 l2 x2 r2 where p2: "prep_right (lower T) = Nod c2 i2 l2 x2 r2"
    "root T = [(i2, x2)] \<and> ready r2 \<or> fst x2 \<in> set (keys l) \<and> (ready r2 \<or> leans_right r2 \<and> root r2 = root T)"
    "\<And>s y r'. lb r' \<Longrightarrow> bh r' = bh r2 \<Longrightarrow> (col r2 = kBlack \<Longrightarrow> col r' = kBlack) \<Longrightarrow> kept T (bal (Nod c2 s l2 y r'))"
    using prep_right_inv [OF d(2) assms(4)] assms(2) by (auto simp: right_ok_def)
  obtain t1 where t1: "rbind (is_red t (rid l)) (\<lambda>red. if red then RotateRight t (int i) else Inr (int i, t)) = Inr (int i1, t1)"
    "tree_at t1 p (Nod c1 i1 l1 x1 r1)" "moved (set (ids T)) t t1" "entries (lower T) = entries T" "ids (lower T) = ids T"
    using turnsE [OF lower_turns [OF at]] low(1) assms(2) by (metis rid.simps(2))
  obtain t2 where t2: "prepare_right t1 (int i1) = Inr (int i2, t2)" "tree_at t2 p (Nod c2 i2 l2 x2 r2)" "moved (set (ids (lower T))) t1 t2"
    "entries (Nod c2 i2 l2 x2 r2) = entries (lower T)"
    using turnsE [OF prepare_right_turns [OF t1(2) lower_side [OF d(2) low(1)]]] p2(1) low(1) by (metis rid.simps(2))
  have m2: "moved (set (ids T)) t t2" by (rule moved_trans [OF t1(3) t2(3)]) (simp add: t1(5))
  have e2: "entries (Nod c2 i2 l2 x2 r2) = entries T" using t2(4) t1(4) by simp
  have keys2: "keys T = keys l2 @ fst x2 # keys r2" using arg_cong [OF e2, of "map (fst \<circ> snd)"] by (simp add: keys_def)
  have le: "fst x2 \<le> fst x" using p2(2) d(3) assms(2) by (auto simp: sorted_wrt_append)
  have n2: "r2 \<noteq> Tip" "rn_r \<lparr>rn_c = c1, rn_p = p, rn_l = rid l1, rn_r = rid r1, rn_v = x1\<rparr> \<noteq> - 1" using p2(2) low(2) by (auto simp: ready_def leans_right_def)
  show ?thesis
  proof (cases "k = fst x2")
    case True
    then have root: "root T = [(i2, x2)]" "ready r2" using p2(2) le assms(2,3) d(3) by (auto simp: sorted_wrt_append)
    have par: "parent_ok t2 p (set (ids T))" using d(7) moved_frame [OF m2] by (auto simp: parent_ok_def frame_def)
    have "\<exists>s y r' t'. replaced zero t2 (int i2) (rid r2) (bal (Nod c2 s l2 y r')) t' \<and> erased L cap U t p T i2 (bal (Nod c2 s l2 y r')) t' \<and> kept r2 r'"
      by (cases "lt_tree r2 = Tip")
        (rule delete_node_near delete_node_far; use m2 t2(2) e2 root assms(2) par d(5,6,8) in simp)+
    then obtain s y r' t' where del: "replaced zero t2 (int i2) (rid r2) (bal (Nod c2 s l2 y r')) t'"
      "erased L cap U t p T i2 (bal (Nod c2 s l2 y r')) t'" "kept r2 r'" by blast
    have "kept T (bal (Nod c2 s l2 y r'))" by (rule p2(3)) (use kept_ready [OF del(3) root(2)] in auto)
    moreover have "rbt_Delete (<) zero t (int i) k = Some (Inr (Some (rid (bal (Nod c2 s l2 y r'))), t'))"
      by (rule Delete_found_step [where lt = "(<)" and k = k and x = x, OF at assms(3) t1(1) rbt_node_rid [OF t1(2)] n2(2) t2(1) rbt_node_rid [OF t2(2)]])
        (use True del(1) in \<open>simp_all add: same_key_def\<close>)
    moreover have "(i2, k, snd x2) \<in> set (entries T)" using root(1) True assms(2) by auto
    ultimately show ?thesis unfolding del_post_def using del(2) by (auto simp: assms(2))
  next
    case False
    have k2: "k \<in> set (keys r2)" using d(3,4) le assms(3) False unfolding keys2 by (auto simp: sorted_wrt_append)
    have pre2: "ready r2 \<or> leans_right r2 \<and> (\<forall>e\<in>set (root r2). \<not> k < fst (snd e))" using p2(2) assms(2,3) by auto
    obtain n v r3 t3 where r3: "rbt_Delete (<) zero t2 (rid r2) k = Some (Inr (Some (rid r3), t3))" "(n, k, v) \<in> set (entries r2)"
      "erased L cap U t2 (int i2) r2 n r3 t3" "kept r2 r3"
      using IH [OF del_pre_sub(2,1) [OF assms(1) m2 t2(2) e2 _ k2 pre2]] by (auto simp: del_post_def)
    have "kept T (bal (Nod c2 i2 l2 x2 r3))" by (rule p2(3)) (use r3(4) pre2 in \<open>auto simp: kept_def topred_def ready_def leans_right_def dest: lb_unstacked\<close>)
    moreover obtain t5 where t5: "rbind (set_r (int i2) (rid r3) t3) (\<lambda>t4. KeepBalance t4 (int i2)) = Inr (rid (bal (Nod c2 i2 l2 x2 r3)), t5)"
      "erased L cap U t p T n (bal (Nod c2 i2 l2 x2 r3)) t5"
      using erased_right [OF m2 t2(2) e2 d(6) r3(3)] by blast
    moreover have "rbt_Delete (<) zero t (int i) k = Some (Inr (Some (rid (bal (Nod c2 i2 l2 x2 r3))), t5))"
      by (rule Delete_right_step [where lt = "(<)" and k = k and x = x, OF at assms(3) t1(1) rbt_node_rid [OF t1(2)] n2(2) t2(1) rbt_node_rid [OF t2(2)] _ _ _ t5(1)])
        (use False n2(1) r3(1) in \<open>auto simp: same_key_def\<close>)
    moreover have "(n, k, v) \<in> set (entries T)" using r3(2) by (auto simp: e2 [symmetric])
    ultimately show ?thesis unfolding del_post_def by (auto simp: assms(2))
  qed
qed

lemma Delete_at: "del_pre k L cap U t p T \<Longrightarrow> del_post zero k L cap U t p T"
proof (induction "length (entries T)" arbitrary: T t p rule: less_induct)
  case less
  obtain c i l x r where T: "T = Nod c i l x r" using del_preD(4) [OF less.prems] by (cases T) auto
  consider "k < fst x" | "\<not> k < fst x" "rt_tree (lower T) \<noteq> Tip" | "rt_tree (lower T) = Tip" by blast
  then show ?case
  proof cases
    case 1
    then show ?thesis using Delete_left [OF less.prems T] less.hyps by blast
  next
    case 2
    then show ?thesis using Delete_right [OF less.prems T] less.hyps by blast
  next
    case 3
    then obtain j y where "T = Nod kRed j Tip y Tip" using lower_leaf [OF del_preD(2) [OF less.prems]] by blast
    then show ?thesis by (rule Delete_leaf [OF less.prems])
  qed
qed

end
