(* ===== verification/Ordered_Map.thy ===== *)
theory Ordered_Map
  imports Simulation
begin

text \<open>
  The contracts of maps ordered by their keys, with their reference: the list of the pairs in the
  order of their keys. \<open>Heap_Map\<close> interprets the one for reading a map, \<open>RBTree_Map\<close> the one of a
  bounded map, which extends it.
\<close>

section \<open>The reference\<close>

fun put_sorted :: "'k::linorder \<Rightarrow> 'v \<Rightarrow> ('k \<times> 'v) list \<Rightarrow> ('k \<times> 'v) list" where
  "put_sorted k v [] = [(k, v)]"
| "put_sorted k v ((a, w) # xs) = (if k < a then (k, v) # (a, w) # xs else if k = a then (k, v) # xs else (a, w) # put_sorted k v xs)"

text \<open>
  \<open>MInsert\<close> keeps a value that is there, \<open>MAssign\<close> replaces it, as an assignment through
  \<open>operator[]\<close> does.
\<close>

datatype ('k, 'v) map_op = MInsert 'k 'v | MAssign 'k 'v | MErase 'k | MFind 'k | MList | MSize | MClear

datatype ('k, 'v) map_reply = Stored bool "'v option" | Gone nat | Seen "'v option" | Listed "('k \<times> 'v) list" | Held nat | Done

fun map_spec :: "nat \<Rightarrow> ('k::linorder, 'v) map_op \<Rightarrow> ('k \<times> 'v) list \<Rightarrow> (('k, 'v) map_reply \<times> ('k \<times> 'v) list) result" where
  "map_spec cap (MInsert k v) xs =
     (case map_of xs k of Some w \<Rightarrow> Inr (Stored False (Some w), xs)
      | None \<Rightarrow> if length xs < cap then Inr (Stored True (Some v), put_sorted k v xs) else Inr (Stored False None, xs))"
| "map_spec cap (MAssign k v) xs =
     (if map_of xs k = None \<and> \<not> length xs < cap then Inl BadAlloc else Inr (Done, put_sorted k v xs))"
| "map_spec cap (MErase k) xs = Inr (Gone (if map_of xs k = None then 0 else 1), filter (\<lambda>e. fst e \<noteq> k) xs)"
| "map_spec cap (MFind k) xs = Inr (Seen (map_of xs k), xs)"
| "map_spec cap MList xs = Inr (Listed xs, xs)"
| "map_spec cap MSize xs = Inr (Held (length xs), xs)"
| "map_spec cap MClear xs = Inr (Done, [])"

section \<open>A component with these operations\<close>

fun map_step :: "('s \<Rightarrow> 'k \<Rightarrow> 'v \<Rightarrow> ((bool \<times> 'v option) \<times> 's) result) \<Rightarrow> ('s \<Rightarrow> 'k \<Rightarrow> 'v \<Rightarrow> 's result) \<Rightarrow> ('s \<Rightarrow> 'k \<Rightarrow> (nat \<times> 's) result) \<Rightarrow>
    ('s \<Rightarrow> 'k \<Rightarrow> 'v option result) \<Rightarrow> ('s \<Rightarrow> ('k \<times> 'v) list result) \<Rightarrow> ('s \<Rightarrow> nat) \<Rightarrow> ('s \<Rightarrow> 's result) \<Rightarrow>
    ('k, 'v) map_op \<Rightarrow> 's \<Rightarrow> (('k, 'v) map_reply \<times> 's) result" where
  "map_step ins put del look all amount wipe (MInsert k v) s = rbind (ins s k v) (\<lambda>((b, w), t). Inr (Stored b w, t))"
| "map_step ins put del look all amount wipe (MAssign k v) s = rbind (put s k v) (\<lambda>t. Inr (Done, t))"
| "map_step ins put del look all amount wipe (MErase k) s = rbind (del s k) (\<lambda>(n, t). Inr (Gone n, t))"
| "map_step ins put del look all amount wipe (MFind k) s = rbind (look s k) (\<lambda>r. Inr (Seen r, s))"
| "map_step ins put del look all amount wipe MList s = rbind (all s) (\<lambda>xs. Inr (Listed xs, s))"
| "map_step ins put del look all amount wipe MSize s = Inr (Held (amount s), s)"
| "map_step ins put del look all amount wipe MClear s = rbind (wipe s) (\<lambda>t. Inr (Done, t))"

text \<open>What a client reads of such a map: a value, all entries in order, their number.\<close>

locale ordered_reads =
  fixes holds :: "'s \<Rightarrow> ('k::linorder \<times> 'v) list \<Rightarrow> bool"
    and look :: "'s \<Rightarrow> 'k \<Rightarrow> 'v option result"
    and all :: "'s \<Rightarrow> ('k \<times> 'v) list result"
    and amount :: "'s \<Rightarrow> nat"
  assumes order_law: "holds s xs \<Longrightarrow> sorted_wrt (<) (map fst xs)"
    and look_entry: "holds s xs \<Longrightarrow> look s k = Inr (map_of xs k)"
    and all_entries: "holds s xs \<Longrightarrow> all s = Inr xs"
    and amount_entries: "holds s xs \<Longrightarrow> amount s = length xs"
begin

lemma holds_unique: "holds s xs \<Longrightarrow> holds s ys \<Longrightarrow> xs = ys"
  using all_entries [of s xs] all_entries [of s ys] by simp

text \<open>The three ways of reading agree.\<close>

lemma reads_agree:
  assumes "holds s xs"
  shows "\<exists>ys. all s = Inr ys \<and> sorted_wrt (<) (map fst ys) \<and> amount s = length ys \<and>
    (\<forall>k. look s k = Inr (map_of ys k)) \<and> (\<forall>k v. look s k = Inr (Some v) \<longleftrightarrow> (k, v) \<in> set ys)"
proof -
  have "distinct (map fst xs)" using order_law [OF assms] by (simp add: strict_sorted_iff)
  then show ?thesis
    using look_entry [OF assms] all_entries [OF assms] amount_entries [OF assms] order_law [OF assms] by (intro exI [of _ xs]) simp
qed

end

locale ordered_map =
  fixes rep :: "nat \<Rightarrow> 's \<Rightarrow> ('k::linorder \<times> 'v) list \<Rightarrow> bool"
    and ins :: "'s \<Rightarrow> 'k \<Rightarrow> 'v \<Rightarrow> ((bool \<times> 'v option) \<times> 's) result"
    and put :: "'s \<Rightarrow> 'k \<Rightarrow> 'v \<Rightarrow> 's result"
    and del :: "'s \<Rightarrow> 'k \<Rightarrow> (nat \<times> 's) result"
    and look :: "'s \<Rightarrow> 'k \<Rightarrow> 'v option result"
    and all :: "'s \<Rightarrow> ('k \<times> 'v) list result"
    and amount :: "'s \<Rightarrow> nat"
    and wipe :: "'s \<Rightarrow> 's result"
  assumes sorted_law: "rep cap s xs \<Longrightarrow> sorted_wrt (<) (map fst xs)"
    and ins_old_law: "rep cap s xs \<Longrightarrow> map_of xs k = Some w \<Longrightarrow> ins s k v = Inr ((False, Some w), s)"
    and ins_full_law: "rep cap s xs \<Longrightarrow> map_of xs k = None \<Longrightarrow> \<not> length xs < cap \<Longrightarrow> ins s k v = Inr ((False, None), s)"
    and ins_new_law: "rep cap s xs \<Longrightarrow> map_of xs k = None \<Longrightarrow> length xs < cap \<Longrightarrow>
      \<exists>t. ins s k v = Inr ((True, Some v), t) \<and> rep cap t (put_sorted k v xs)"
    and put_law: "rep cap s xs \<Longrightarrow> map_of xs k \<noteq> None \<or> length xs < cap \<Longrightarrow> \<exists>t. put s k v = Inr t \<and> rep cap t (put_sorted k v xs)"
    and put_full_law: "rep cap s xs \<Longrightarrow> map_of xs k = None \<Longrightarrow> \<not> length xs < cap \<Longrightarrow> put s k v = Inl BadAlloc"
    and del_law: "rep cap s xs \<Longrightarrow> \<exists>t. del s k = Inr (if map_of xs k = None then 0 else 1, t) \<and> rep cap t (filter (\<lambda>e. fst e \<noteq> k) xs)"
    and look_law: "rep cap s xs \<Longrightarrow> look s k = Inr (map_of xs k)"
    and all_law: "rep cap s xs \<Longrightarrow> all s = Inr xs"
    and amount_law: "rep cap s xs \<Longrightarrow> amount s = length xs"
    and wipe_law: "rep cap s xs \<Longrightarrow> \<exists>t. wipe s = Inr t \<and> rep cap t []"
begin

lemma step_agrees:
  assumes "rep cap s xs"
  shows "agrees (rep cap) (map_step ins put del look all amount wipe p s) (map_spec cap p xs)"
proof (cases p)
  case (MInsert k v)
  then show ?thesis
    using assms ins_old_law [OF assms, of k] ins_full_law [OF assms, of k v] ins_new_law [OF assms, of k v]
    by (cases "map_of xs k"; cases "length xs < cap") auto
next
  case (MAssign k v)
  then show ?thesis using put_law [OF assms, of k v] put_full_law [OF assms, of k v]
    by (cases "map_of xs k = None \<and> \<not> length xs < cap") auto
next
  case (MErase k)
  then show ?thesis using del_law [OF assms, of k] by (cases "map_of xs k = None") auto
next
  case (MFind k)
  then show ?thesis using assms look_law [OF assms, of k] by simp
next
  case MList
  then show ?thesis using assms all_law [OF assms] by simp
next
  case MSize
  then show ?thesis using assms amount_law [OF assms] by simp
next
  case MClear
  then show ?thesis using wipe_law [OF assms] by auto
qed

lemma run_agrees:
  "rep cap s xs \<Longrightarrow> agrees (rep cap) (run_ops (map_step ins put del look all amount wipe) ps s) (run_ops (map_spec cap) ps xs)"
  by (rule run_ops_agrees) (rule step_agrees)

text \<open>An entry that was put is found, whatever else is erased in between.\<close>

lemma put_erase_look:
  assumes "rep cap s xs" "map_of xs k \<noteq> None \<or> length xs < cap" "k \<noteq> k'"
  shows "\<exists>t u n. put s k v = Inr t \<and> del t k' = Inr (n, u) \<and> look u k = Inr (Some v) \<and> look u k' = Inr None"
proof -
  have got: "map_of (put_sorted k v ys) k = Some v" for ys by (induction k v ys rule: put_sorted.induct) auto
  have out: "map_of (filter (\<lambda>e. fst e \<noteq> k') ys) = (map_of ys)(k' := None)" for ys :: "('k \<times> 'v) list"
    by (induction ys) auto
  obtain t where t: "put s k v = Inr t" "rep cap t (put_sorted k v xs)" using put_law [OF assms(1,2)] by blast
  obtain n u where "del t k' = Inr (n, u)" "rep cap u (filter (\<lambda>e. fst e \<noteq> k') (put_sorted k v xs))" using del_law [OF t(2)] by blast
  with t(1) look_law show ?thesis using assms(3) by (auto simp: got out)
qed

end

text \<open>A bounded map of any capacity is such a map.\<close>

sublocale ordered_map \<subseteq> reads: ordered_reads "rep cap" look all amount for cap
  by unfold_locales (auto simp: sorted_law look_law all_law amount_law)

end
