(* ===== verification/RBTree_Map.thy ===== *)
theory RBTree_Map
  imports RBTree_Delete Ordered_Map
begin

text \<open>
  The red-black tree of \<open>Fx_RBTree\<close> as a whole: what holds between two operations of its interface,
  that every operation keeps it, and that the map so implemented is the one of \<open>Ordered_Map\<close>.
\<close>

section \<open>The whole map\<close>

text \<open>\<open>T\<close> is the tree of the nodes of \<open>t\<close>.\<close>

definition map_at :: "ml_layout \<Rightarrow> nat \<Rightarrow> ('k::linorder, 'v) rbtree \<Rightarrow> ('k, 'v) rtree \<Rightarrow> bool" where
  "map_at L cap t T \<longleftrightarrow> tree_at t (- 1) T \<and> live L cap (set (ids T)) t \<and> rm_magic_number (rt_md t) = rbt_kMagicNumber \<and>
     rm_root (rt_md t) = rid T \<and> rm_size (rt_md t) = of_nat (length (entries T)) \<and>
     sorted_wrt (<) (keys T) \<and> lb T \<and> col T = kBlack \<and> cap < 2 ^ 31"

lemma tree_at_card: "tree_at t p T \<Longrightarrow> card (set (ids T)) = length (entries T)"
  using distinct_card [of "ids T"] length_map [of fst "entries T"] unfolding tree_at_def ids_def by simp

lemma map_atD:
  assumes "map_at L cap t T"
  shows "tree_at t (- 1) T" "live L cap (set (ids T)) t" "rm_magic_number (rt_md t) = rbt_kMagicNumber" "rm_root (rt_md t) = rid T"
    "rm_size (rt_md t) = of_nat (length (entries T))" "sorted_wrt (<) (keys T)" "lb T" "col T = kBlack" "cap < 2 ^ 31"
    "card (set (ids T)) = length (entries T)" "length (entries T) \<le> cap" "rbt_size t = length (entries T)" "rbt_max_size t = cap"
proof -
  show a: "tree_at t (- 1) T" "live L cap (set (ids T)) t" "rm_magic_number (rt_md t) = rbt_kMagicNumber" "rm_root (rt_md t) = rid T"
    "rm_size (rt_md t) = of_nat (length (entries T))" "sorted_wrt (<) (keys T)" "lb T" "col T = kBlack" "cap < 2 ^ 31"
    using assms by (simp_all add: map_at_def)
  show c: "card (set (ids T)) = length (entries T)" using a(1) by (rule tree_at_card)
  show l: "length (entries T) \<le> cap" using ml.card_bound [of L "rt_ml t" cap "set (ids T)" "bufs t"] a(2) c by (simp add: live_def)
  show "rbt_size t = length (entries T)" using a(5,9) l by (simp add: rbt_size_def unat_of_nat_small)
  show "rbt_max_size t = cap" using a(2) by (simp add: rbt_max_size_def live_def ml_slab_def)
qed

lemma map_atI:
  assumes "tree_at t (- 1) T" "live L cap (set (ids T)) t" "rm_magic_number (rt_md t) = rbt_kMagicNumber" "rm_root (rt_md t) = rid T"
    "rm_size (rt_md t) = of_nat (length (entries T))" "sorted_wrt (<) (keys T)" "lb T" "col T = kBlack" "cap < 2 ^ 31"
  shows "map_at L cap t T"
  using assms by (simp add: map_at_def)

lemma set_root_simps [simp]: "bufs (set_root i t) = bufs t" "usable (set_root i t) j = usable t j" "live L cap U (set_root i t) = live L cap U t"
  "tree_at (set_root i t) p T = tree_at t p T" "rt_md (set_root i t) = (rt_md t)\<lparr>rm_root := i\<rparr>"
  by (simp_all add: set_root_def tree_at_def)

lemma tree_at_md [simp]: "tree_at (t\<lparr>rt_md := m\<rparr>) p T = tree_at t p T"
  by (simp add: tree_at_def)

lemma recolor_root:
  assumes "tree_at t p (Nod c i l x r)" "live L cap U t" "i \<in> U"
  shows "set_c (int i) d t = Inr (put_node i ((bufs t i)\<lparr>rn_c := d\<rparr>) t)" "tree_at (put_node i ((bufs t i)\<lparr>rn_c := d\<rparr>) t) p (Nod d i l x r)"
    "live L cap U (put_node i ((bufs t i)\<lparr>rn_c := d\<rparr>) t)"
  using assms recolor_at(2) [OF assms(1)] live_put [OF assms(2,3)] by (simp_all add: tree_at_Nod)

section \<open>Searching\<close>

lemma rbt_find_at: "map_at L cap t T \<Longrightarrow> rbt_find (<) t k = Some (Inr (seek k (entries T)))"
  using rbt_Get_at [of t "- 1" T k] by (simp add: rbt_find_def map_at_def)

lemma seek_entry:
  assumes "distinct (map (fst \<circ> snd) es)"
  shows "(i, k, v) \<in> set es \<Longrightarrow> seek k es = int i" "seek k es = - 1 \<longleftrightarrow> map_of (map snd es) k = None"
    "map_of (map snd es) k = Some v \<Longrightarrow> \<exists>i. (i, k, v) \<in> set es"
  using assms by (induction k es rule: seek.induct) (auto split: if_splits intro: rev_image_eqI)

lemma sorted_distinct: "sorted_wrt (<) (xs :: 'a::linorder list) \<Longrightarrow> distinct xs"
  by (simp add: strict_sorted_iff)

lemma map_at_distinct: "map_at L cap t T \<Longrightarrow> distinct (map (fst \<circ> snd) (entries T))"
  using sorted_distinct [OF map_atD(6)] unfolding keys_def by blast

lemma found_at:
  assumes "map_at L cap t T"
  shows "map_of (map snd (entries T)) k = None \<Longrightarrow> rbt_find (<) t k = Some (Inr (- 1)) \<and> k \<notin> set (keys T)"
    "map_of (map snd (entries T)) k = Some v \<Longrightarrow> \<exists>i. rbt_find (<) t k = Some (Inr (int i)) \<and> (i, k, v) \<in> set (entries T) \<and> rbt_iter_deref t (int i) = Inr (k, v)"
proof -
  note d = map_atD [OF assms]
  note dist = map_at_distinct [OF assms]
  show "rbt_find (<) t k = Some (Inr (- 1)) \<and> k \<notin> set (keys T)" if "map_of (map snd (entries T)) k = None"
    using that rbt_find_at [OF assms] seek_entry(2) [OF dist, of k] by (auto simp: map_of_eq_None_iff set_keys)
  assume "map_of (map snd (entries T)) k = Some v"
  then obtain i where i: "(i, k, v) \<in> set (entries T)" using seek_entry(3) [OF dist] by blast
  then show "\<exists>i. rbt_find (<) t k = Some (Inr (int i)) \<and> (i, k, v) \<in> set (entries T) \<and> rbt_iter_deref t (int i) = Inr (k, v)"
    using rbt_find_at [OF assms] seek_entry(1) [OF dist] tree_at_value [OF d(1)] by (auto simp: rbt_iter_deref_def)
qed

section \<open>Inserting\<close>

lemma ins_entry_keys: "k \<notin> fst ` snd ` set es \<Longrightarrow> sorted_wrt (<) (map (fst \<circ> snd) es) \<Longrightarrow>
  sorted_wrt (<) (map (fst \<circ> snd) (ins_entry n k v es)) \<and> map snd (ins_entry n k v es) = put_sorted k v (map snd es) \<and>
  set (ins_entry n k v es) = insert (n, k, v) (set es)"
proof (induction n k v es rule: ins_entry.induct)
  case (2 n k v i x xs)
  show ?case
  proof (cases "k < fst x")
    case True
    then show ?thesis using 2 by (cases x) auto
  next
    case False
    then have "fst x < k" using 2 by auto
    then show ?thesis using 2 False by (cases x) auto
  qed
qed simp

lemma blacken_root_at:
  assumes "tree_at t (- 1) T" "T \<noteq> Tip" "live L cap U t" "set (ids T) \<subseteq> U" "rm_root (rt_md t) = rid T"
  obtains t' where "blacken_root t = Inr t'" "tree_at t' (- 1) (paint kBlack T)" "live L cap U t'" "rm_root (rt_md t') = rid T"
    "rm_size (rt_md t') = rm_size (rt_md t)" "rm_magic_number (rt_md t') = rm_magic_number (rt_md t)"
    "rm_depth (rt_md t') = rm_depth (rt_md t) + (if col T = kRed then 1 else 0)"
proof -
  obtain c i l x r where T: "T = Nod c i l x r" using assms(2) by (cases T) auto
  have u: "usable t i" "bufs t i = \<lparr>rn_c = c, rn_p = - 1, rn_l = rid l, rn_r = rid r, rn_v = x\<rparr>" "i \<in> U"
    using assms(1,4) by (auto simp: T tree_at_Nod)
  show thesis
  proof (cases "c = kRed")
    case True
    let ?t1 = "put_node i ((bufs t i)\<lparr>rn_c := kBlack\<rparr>) t"
    show thesis
      by (rule that [of "?t1\<lparr>rt_md := (rt_md t)\<lparr>rm_depth := rm_depth (rt_md t) + 1\<rparr>\<rparr>"])
        (use True u assms recolor_root [OF assms(1) [unfolded T] assms(3) u(3), of kBlack] in \<open>simp_all add: blacken_root_def T\<close>)
  next
    case False
    then show thesis using u assms by (intro that [of t]) (simp_all add: blacken_root_def T)
  qed
qed

lemma rbt_insert_new:
  assumes "map_at L cap t T" "map_of (map snd (entries T)) k = None" "length (entries T) < cap"
  obtains n t' T' where "rbt_insert (<) t k v = Some (Inr ((int n, True), t'))" "map_at L cap t' T'"
    "entries T' = ins_entry n k v (entries T)" "n \<notin> set (ids T)" "T' = paint kBlack (tput n k v T)"
    "rm_depth (rt_md t') = rm_depth (rt_md t) + (if col (tput n k v T) = kRed then 1 else 0)"
proof -
  note d = map_atD [OF assms(1)]
  have k: "rbt_find (<) t k = Some (Inr (- 1))" "k \<notin> set (keys T)" using found_at(1) [OF assms(1,2)] by simp_all
  have card: "card (set (ids T)) < cap" using d(10) assms(3) by simp
  obtain n t1 where put: "rbt_Put (<) t (rid T) k v = Some (Inr (rid (tput n k v T), t1))"
    "puts L cap (set (ids T)) t (- 1) T k v n t1"
    using rbt_Put_at [OF d(1) k(2) d(2) order_refl card, of v] by (auto split: if_splits)
  let ?T = "tput n k v T" and ?t1 = "set_root (rid (tput n k v T)) t1"
  have p: "n \<notin> set (ids T)" "tree_at t1 (- 1) ?T" "rt_md t1 = (rt_md t)\<lparr>rm_size := rm_size (rt_md t) + 1\<rparr>" "live L cap (insert n (set (ids T))) t1"
    using put(2) by (simp_all add: puts_def)
  have ids: "set (ids ?T) = insert n (set (ids T))" by (rule tput_ids [OF k(2)])
  have ent: "entries ?T = ins_entry n k v (entries T)" by (rule tput_entries [OF d(6) k(2)])
  note ie = ins_entry_keys [of k "entries T" n v, OF k(2) [unfolded set_keys] d(6) [unfolded keys_def]]
  have sorted: "sorted_wrt (<) (keys ?T)" "length (entries ?T) = Suc (length (entries T))"
  proof -
    have "length (ins_entry n k v es) = Suc (length es)" for es :: "(nat \<times> 'a \<times> 'b) list" by (induction n k v es rule: ins_entry.induct) auto
    then show "sorted_wrt (<) (keys ?T)" "length (entries ?T) = Suc (length (entries T))"
      using ie ent by (simp_all add: keys_def)
  qed
  obtain t2 where t2: "blacken_root ?t1 = Inr t2" "tree_at t2 (- 1) (paint kBlack ?T)" "live L cap (insert n (set (ids T))) t2"
    "rm_root (rt_md t2) = rid ?T" "rm_size (rt_md t2) = rm_size (rt_md ?t1)" "rm_magic_number (rt_md t2) = rm_magic_number (rt_md ?t1)"
    "rm_depth (rt_md t2) = rm_depth (rt_md ?t1) + (if col ?T = kRed then 1 else 0)"
    by (rule blacken_root_at [of ?t1 ?T L cap "insert n (set (ids T))"]) (use p ids in auto)
  have at: "map_at L cap t2 (paint kBlack ?T)"
  proof (rule map_atI)
    show "lb (paint kBlack ?T)" using tput_balanced [OF d(7) k(2)] by blast
    show "col (paint kBlack ?T) = kBlack" by (cases ?T) auto
    show "sorted_wrt (<) (keys (paint kBlack ?T))" using sorted(1) by (simp add: keys_def)
    show "rm_size (rt_md t2) = of_nat (length (entries (paint kBlack ?T)))" using t2(5) p(3) d(5) sorted(2) by simp
  qed (use t2 ids p(3) d in auto)
  have "(n, k, v) \<in> set (entries (paint kBlack ?T))" using ie ent by simp
  moreover have "distinct (map (fst \<circ> snd) (entries (paint kBlack ?T)))" using sorted_distinct [OF sorted(1)] by (simp add: keys_def)
  ultimately have "rbt_find (<) t2 k = Some (Inr (int n))" using rbt_find_at [OF at] seek_entry(1) by metis
  then have "rbt_insert (<) t k v = Some (Inr ((int n, True), t2))"
    using k(1) put(1) t2(1) d(4,12,13) assms(3) by (simp add: rbt_insert_def rbt_end_def)
  then show thesis using that [OF _ at _ p(1) refl] ent t2(7) p(3) by simp
qed

lemma rbt_insert_old:
  assumes "map_at L cap t T" "map_of (map snd (entries T)) k = Some w"
  shows "\<exists>i. rbt_insert (<) t k v = Some (Inr ((int i, False), t)) \<and> rbt_iter_deref t (int i) = Inr (k, w)"
  using found_at(2) [OF assms] by (auto simp: rbt_insert_def rbt_end_def)

lemma rbt_insert_full:
  assumes "map_at L cap t T" "map_of (map snd (entries T)) k = None" "\<not> length (entries T) < cap"
  shows "rbt_insert (<) t k v = Some (Inr ((- 1, False), t))"
  using found_at(1) [OF assms(1,2)] map_atD(11,12,13) [OF assms(1)] assms(3) by (simp add: rbt_insert_def rbt_end_def)

section \<open>Erasing\<close>

lemma slot_key:
  assumes "distinct (map fst es)" "distinct (map (fst \<circ> snd) es)" "(n, k, v) \<in> set es" "e \<in> set es"
  shows "fst e = n \<longleftrightarrow> fst (snd e) = k"
proof -
  have inj: "inj_on fst (set es)" "inj_on (fst \<circ> snd) (set es)" using assms(1,2) by (simp_all add: distinct_map)
  show ?thesis using inj_onD [OF inj(1) _ assms(4,3)] inj_onD [OF inj(2) _ assms(4,3)] by (cases e) auto
qed

lemma map_at_slot: "map_at L cap t T \<Longrightarrow> (n, k, v) \<in> set (entries T) \<Longrightarrow> e \<in> set (entries T) \<Longrightarrow> fst e = n \<longleftrightarrow> fst (snd e) = k"
  using map_at_distinct [of L cap t T] by (intro slot_key [of "entries T" n k v]) (simp_all add: map_at_def tree_at_def ids_def)

lemma filter_slot:
  assumes "map_at L cap t T" "(n, k, v) \<in> set (entries T)"
  shows "map snd (filter (\<lambda>e. fst e \<noteq> n) (entries T)) = filter (\<lambda>e. fst e \<noteq> k) (map snd (entries T))"
proof -
  have "filter (\<lambda>e. fst e \<noteq> n) (entries T) = filter ((\<lambda>e. fst e \<noteq> k) \<circ> snd) (entries T)"
    using map_at_slot [OF assms] by (intro filter_cong) auto
  then show ?thesis by (simp add: filter_map)
qed

lemma paint_red_ready: "lb T \<Longrightarrow> col T = kBlack \<Longrightarrow> T \<noteq> Tip \<Longrightarrow> ready (paint kRed T) \<or> topred (paint kRed T)"
  by (cases T) (auto simp: ready_def)

lemma rbt_erase_at:
  assumes "map_at L cap t T" "(n, k, v) \<in> set (entries T)"
  obtains t' T' where "rbt_erase (<) zero t k = Some (Inr (1, t'))" "map_at L cap t' T'" "entries T' = filter (\<lambda>e. fst e \<noteq> n) (entries T)"
    "rm_depth (rt_md t') = rm_depth (rt_md t)"
proof -
  note d = map_atD [OF assms(1)]
  obtain i l x r where T: "T = Nod kBlack i l x r" using assms(2) d(8) by (cases T) auto
  let ?t1 = "put_node i ((bufs t i)\<lparr>rn_c := kRed\<rparr>) t" and ?T1 = "Nod kRed i l x r"
  have U: "i \<in> set (ids T)" by (simp add: T)
  note red = recolor_root [OF d(1) [unfolded T] d(2) U, of kRed]
  have kin: "k \<in> set (keys T)" using assms(2) by (force simp: set_keys)
  have "del_pre k L cap (set (ids T)) ?t1 (- 1) ?T1"
    unfolding del_pre_def using red(2,3) paint_red_ready [OF d(7,8)] d(6) kin by (auto simp: T keys_def parent_ok_def)
  from Delete_at [OF this, of zero]
  obtain m w T' t2 where del: "rbt_Delete (<) zero ?t1 (int i) k = Some (Inr (Some (rid T'), t2))" "(m, k, w) \<in> set (entries T)"
    "erased L cap (set (ids T)) ?t1 (- 1) ?T1 m T' t2" "kept ?T1 T'"
    unfolding del_post_def by (auto simp: T)
  have m: "m = n" using seek_entry(1) [OF map_at_distinct [OF assms(1)]] del(2) assms(2) by (metis of_nat_eq_iff)
  note er = del(3) [unfolded m]
  have e: "entries T' = filter (\<lambda>e. fst e \<noteq> n) (entries T)" "tree_at t2 (- 1) T'" "rt_md t2 = (rt_md t)\<lparr>rm_size := rm_size (rt_md t) - 1\<rparr>"
    "live L cap (set (ids T')) t2"
    using er erased_ids [OF er] by (auto simp: erased_def T)
  have len: "length (entries T) = Suc (length (entries T'))"
  proof -
    have "set (ids T') = set (ids T) - {n}" using erased_ids [OF er] by (simp add: T)
    moreover have "n \<in> set (ids T)" using assms(2) unfolding ids_def by force
    moreover have "card (set (ids T')) = length (entries T')" using e(2) by (rule tree_at_card)
    ultimately show ?thesis using d(10) by (metis List.finite_set card.remove)
  qed
  have at: "map_at L cap u (paint kBlack T')" if "tree_at u (- 1) (paint kBlack T')" "live L cap (set (ids T')) u"
    "rt_md u = (rt_md t)\<lparr>rm_size := rm_size (rt_md t) - 1, rm_root := rid T'\<rparr>" for u
  proof (rule map_atI)
    show "sorted_wrt (<) (keys (paint kBlack T'))" using d(6) e(1) by (simp add: keys_def sorted_wrt_map sorted_wrt_filter)
    show "lb (paint kBlack T')" using del(4) by (simp add: kept_def)
    show "col (paint kBlack T') = kBlack" by (cases T') auto
    show "rm_size (rt_md u) = of_nat (length (entries (paint kBlack T')))" using that(3) d(5) len by simp
  qed (use that d in simp_all)
  have er1: "rbt_erase (<) zero t k = (if T' = Tip then Some (Inr (1, set_root (- 1) t2))
      else Some (rbind (set_c (rid T') kBlack (set_root (rid T') t2)) (\<lambda>t4. Inr (1, t4))))"
    using d(4) red(1) del(1) by (auto simp: rbt_erase_def T Let_def)
  show thesis
  proof (cases T')
    case Tip
    have "map_at L cap (set_root (- 1) t2) (paint kBlack T')" by (rule at) (use e Tip in auto)
    then show thesis using that er1 e(1,3) Tip by simp
  next
    case (Nod c j l' x' r')
    have t2: "tree_at (set_root (rid T') t2) (- 1) (Nod c j l' x' r')" "live L cap (set (ids T')) (set_root (rid T') t2)" "j \<in> set (ids T')"
      using e Nod by simp_all
    note b = recolor_root [OF t2, of kBlack]
    let ?u = "put_node j ((bufs (set_root (rid T') t2) j)\<lparr>rn_c := kBlack\<rparr>) (set_root (rid T') t2)"
    have "map_at L cap ?u (paint kBlack T')" by (rule at) (use b e Nod in auto)
    then show thesis using that [of ?u "paint kBlack T'"] er1 b(1) e(1,3) Nod by simp
  qed
qed

section \<open>Storing through a reference\<close>

fun tset :: "nat \<Rightarrow> 'v \<Rightarrow> ('k, 'v) rtree \<Rightarrow> ('k, 'v) rtree" where
  "tset i v Tip = Tip"
| "tset i v (Nod c j l x r) = Nod c j (tset i v l) (if j = i then (fst x, v) else x) (tset i v r)"

lemma tset_simps [simp]: "rid (tset i v T) = rid T" "col (tset i v T) = col T" "bh (tset i v T) = bh T" "lb (tset i v T) = lb T"
  "entries (tset i v T) = map (\<lambda>e. if fst e = i then (i, fst (snd e), v) else e) (entries T)"
  by (induction T) auto

lemma tset_ids [simp]: "ids (tset i v T) = ids T" "keys (tset i v T) = keys T"
  by (induction T) (auto simp: keys_def)

lemma tset_shape: "shape b p T \<Longrightarrow> i \<notin> set (ids T) \<or> b' i = (b i)\<lparr>rn_v := (fst (rn_v (b i)), v)\<rparr> \<Longrightarrow> (\<And>j. j \<noteq> i \<Longrightarrow> b' j = b j) \<Longrightarrow>
    shape b' p (tset i v T)"
  by (induction T arbitrary: p) auto

lemma rbt_iter_assign_at:
  assumes "map_at L cap t T" "i \<in> set (ids T)"
  shows "\<exists>t'. rbt_iter_assign t (int i) v = Inr t' \<and> map_at L cap t' (tset i v T)"
proof -
  note d = map_atD [OF assms(1)]
  have u: "usable t i" using d(1) assms(2) by (simp add: tree_at_def)
  let ?t = "put_node i ((bufs t i)\<lparr>rn_v := (fst (rn_v (bufs t i)), v)\<rparr>) t"
  have "rbt_iter_assign t (int i) v = Inr ?t" using u by (simp add: rbt_iter_assign_def)
  moreover have "tree_at ?t (- 1) (tset i v T)"
    using d(1) u tset_shape [of "bufs t" "- 1" T i "bufs ?t" v] by (simp add: tree_at_def)
  ultimately show ?thesis using d live_put [OF d(2) assms(2)] by (auto intro!: map_atI)
qed

lemma put_sorted_known: "sorted_wrt (<) (map fst xs) \<Longrightarrow> map_of xs k \<noteq> None \<Longrightarrow>
  put_sorted k v xs = map (\<lambda>e. if fst e = k then (k, v) else e) xs"
proof (induction k v xs rule: put_sorted.induct)
  case (2 k v a w xs)
  then show ?case by (cases "k = a") (auto simp: map_of_eq_None_iff intro!: map_idI [symmetric])
qed simp

lemma put_sorted_twice: "put_sorted k v (put_sorted k w xs) = put_sorted k v xs"
  by (induction k w xs rule: put_sorted.induct) auto

lemma map_at_sorted: "map_at L cap t T \<Longrightarrow> sorted_wrt (<) (map fst (map snd (entries T)))"
  using map_atD(6) by (simp add: keys_def)

lemma assign_entries:
  assumes "map_at L cap t T" "(i, k, w) \<in> set (entries T)"
  shows "map snd (entries (tset i v T)) = put_sorted k v (map snd (entries T))"
proof -
  have "map_of (map snd (entries T)) k \<noteq> None"
    using seek_entry(1) [OF map_at_distinct [OF assms(1)] assms(2)] seek_entry(2) [OF map_at_distinct [OF assms(1)], of k] by simp
  then show ?thesis using put_sorted_known [OF map_at_sorted [OF assms(1)]] map_at_slot [OF assms] by (auto simp: o_def)
qed

section \<open>Refinement of the ordered map\<close>

text \<open>The operations as a client calls them: references and iterators are used at once.\<close>

definition rbm_ins :: "('k::linorder, 'v) rbtree \<Rightarrow> 'k \<Rightarrow> 'v \<Rightarrow> ((bool \<times> 'v option) \<times> ('k, 'v) rbtree) result" where
  "rbm_ins t k v = rbind (ended (rbt_insert (<) t k v)) (\<lambda>((i, b), u).
     if i = rbt_end u then Inr ((b, None), u) else rbind (rbt_iter_deref u i) (\<lambda>x. Inr ((b, Some (snd x)), u)))"

definition rbm_put :: "'v \<Rightarrow> ('k::linorder, 'v) rbtree \<Rightarrow> 'k \<Rightarrow> 'v \<Rightarrow> ('k, 'v) rbtree result" where
  "rbm_put uninit t k v = rbind (ended (rbt_subscript uninit (<) t k)) (\<lambda>(i, u). rbt_iter_assign u i v)"

definition rbm_del :: "'k \<times> 'v \<Rightarrow> ('k::linorder, 'v) rbtree \<Rightarrow> 'k \<Rightarrow> (nat \<times> ('k, 'v) rbtree) result" where
  "rbm_del zero t k = rbind (ended (rbt_find (<) t k)) (\<lambda>i. ended (rbt_erase_iter (<) zero t i))"

definition rbm_look :: "('k::linorder, 'v) rbtree \<Rightarrow> 'k \<Rightarrow> 'v option result" where
  "rbm_look t k = rbind (ended (rbt_find (<) t k)) (\<lambda>i. if i = rbt_end t then Inr None else rbind (rbt_iter_deref t i) (\<lambda>x. Inr (Some (snd x))))"

definition rbm_all :: "('k::linorder, 'v) rbtree \<Rightarrow> ('k \<times> 'v) list result" where
  "rbm_all t = rbind (ended (rbt_begin t)) (\<lambda>i. ended (rbt_walk t i))"

definition rbm_rep :: "ml_layout \<Rightarrow> nat \<Rightarrow> ('k::linorder, 'v) rbtree \<Rightarrow> ('k \<times> 'v) list \<Rightarrow> bool" where
  "rbm_rep L cap t xs \<longleftrightarrow> region_layout L cap \<and> (\<exists>T. map_at L cap t T \<and> xs = map snd (entries T))"

lemma rbm_repE:
  assumes "rbm_rep L cap t xs"
  obtains T where "region_layout L cap" "map_at L cap t T" "xs = map snd (entries T)" "length xs = length (entries T)"
  using assms unfolding rbm_rep_def by auto

lemma rbm_repI: "region_layout L cap \<Longrightarrow> map_at L cap t T \<Longrightarrow> xs = map snd (entries T) \<Longrightarrow> rbm_rep L cap t xs"
  unfolding rbm_rep_def by blast

lemma rbm_look_rep:
  assumes "rbm_rep L cap t xs"
  shows "rbm_look t k = Inr (map_of xs k)"
proof -
  obtain T where at: "map_at L cap t T" "xs = map snd (entries T)" by (rule rbm_repE [OF assms])
  then show ?thesis using found_at [OF at(1), of k] by (cases "map_of xs k") (auto simp: rbm_look_def rbt_end_def)
qed

lemma rbm_all_rep:
  assumes "rbm_rep L cap t xs"
  shows "rbm_all t = Inr xs"
proof -
  obtain T where at: "map_at L cap t T" "xs = map snd (entries T)" by (rule rbm_repE [OF assms])
  note d = map_atD [OF at(1)]
  have "rbt_begin t = Some (Inr (head_or (map fst (entries T)) (- 1)))"
  proof (cases T)
    case (Nod c i l x r)
    then show ?thesis using d(4) GetMin_at [OF d(1)] by (cases "ids T") (auto simp: rbt_begin_def ids_def)
  qed (use d(4) in \<open>simp add: rbt_begin_def\<close>)
  then show ?thesis using rbt_walk_at [OF d(1), of "[]" "entries T"] at(2) by (simp add: rbm_all_def)
qed

lemma put_sorted_entries:
  assumes "map_at L cap t T" "map_of (map snd (entries T)) k = None" "entries T' = ins_entry n k v (entries T)"
  shows "map snd (entries T') = put_sorted k v (map snd (entries T))" "(n, k, v) \<in> set (entries T')"
  using ins_entry_keys [of k "entries T" n v, OF _ map_atD(6) [OF assms(1), unfolded keys_def]] found_at(1) [OF assms(1,2)] assms(3)
  by (simp_all add: set_keys)

lemma rbm_ins_rep:
  assumes "rbm_rep L cap t xs" "map_of xs k = None"
  shows "length xs < cap \<Longrightarrow> \<exists>u. rbm_ins t k v = Inr ((True, Some v), u) \<and> rbm_rep L cap u (put_sorted k v xs)"
    "\<not> length xs < cap \<Longrightarrow> rbm_ins t k v = Inr ((False, None), t)"
proof -
  obtain T where at: "region_layout L cap" "map_at L cap t T" "xs = map snd (entries T)" "length xs = length (entries T)"
    by (rule rbm_repE [OF assms(1)])
  show "rbm_ins t k v = Inr ((False, None), t)" if "\<not> length xs < cap"
    using rbt_insert_full [OF at(2)] assms(2) that at(3,4) by (simp add: rbm_ins_def rbt_end_def)
  assume "length xs < cap"
  then obtain n u T' where u: "rbt_insert (<) t k v = Some (Inr ((int n, True), u))" "map_at L cap u T'" "entries T' = ins_entry n k v (entries T)"
    using rbt_insert_new [OF at(2)] assms(2) at(3,4) by (metis (no_types, lifting))
  note e = put_sorted_entries [OF at(2) _ u(3)]
  have "rbt_iter_deref u (int n) = Inr (k, v)"
    using tree_at_value [OF map_atD(1) [OF u(2)] e(2)] assms(2) at(3) by (auto simp: rbt_iter_deref_def)
  then show "\<exists>u. rbm_ins t k v = Inr ((True, Some v), u) \<and> rbm_rep L cap u (put_sorted k v xs)"
    using u e(1) assms(2) at by (auto simp: rbm_ins_def rbt_end_def intro: rbm_repI)
qed

lemma rbm_ins_old:
  assumes "rbm_rep L cap t xs" "map_of xs k = Some w"
  shows "rbm_ins t k v = Inr ((False, Some w), t)"
proof -
  obtain T where at: "map_at L cap t T" "xs = map snd (entries T)" by (rule rbm_repE [OF assms(1)])
  then show ?thesis using rbt_insert_old [OF at(1), of k w v] assms(2) by (auto simp: rbm_ins_def rbt_end_def)
qed

lemma assign_rep:
  assumes "region_layout L cap" "map_at L cap t T" "(i, k, w) \<in> set (entries T)"
  shows "\<exists>u. rbt_iter_assign t (int i) v = Inr u \<and> rbm_rep L cap u (put_sorted k v (map snd (entries T)))"
proof -
  have "i \<in> set (ids T)" using assms(3) unfolding ids_def by force
  then obtain u where "rbt_iter_assign t (int i) v = Inr u" "map_at L cap u (tset i v T)" using rbt_iter_assign_at [OF assms(2)] by blast
  then show ?thesis using rbm_repI [OF assms(1)] assign_entries [OF assms(2,3), of v] by metis
qed

lemma rbm_put_rep:
  assumes "rbm_rep L cap t xs"
  shows "map_of xs k \<noteq> None \<or> length xs < cap \<Longrightarrow> \<exists>u. rbm_put uninit t k v = Inr u \<and> rbm_rep L cap u (put_sorted k v xs)"
    "map_of xs k = None \<Longrightarrow> \<not> length xs < cap \<Longrightarrow> rbm_put uninit t k v = Inl BadAlloc"
proof -
  obtain T where at: "region_layout L cap" "map_at L cap t T" "xs = map snd (entries T)" "length xs = length (entries T)"
    by (rule rbm_repE [OF assms])
  show "rbm_put uninit t k v = Inl BadAlloc" if "map_of xs k = None" "\<not> length xs < cap"
    using found_at(1) [OF at(2), of k] rbt_insert_full [OF at(2), of k uninit] that at(3,4)
    by (simp add: rbm_put_def rbt_subscript_def rbt_end_def)
  assume room: "map_of xs k \<noteq> None \<or> length xs < cap"
  show "\<exists>u. rbm_put uninit t k v = Inr u \<and> rbm_rep L cap u (put_sorted k v xs)"
  proof (cases "map_of xs k")
    case (Some w)
    then obtain i where i: "rbt_find (<) t k = Some (Inr (int i))" "(i, k, w) \<in> set (entries T)" using found_at(2) [OF at(2)] at(3) by blast
    then show ?thesis using assign_rep [OF at(1,2) i(2)] at(3) by (simp add: rbm_put_def rbt_subscript_def rbt_end_def)
  next
    case None
    then obtain n u T' where u: "rbt_insert (<) t k uninit = Some (Inr ((int n, True), u))" "map_at L cap u T'" "entries T' = ins_entry n k uninit (entries T)"
      using rbt_insert_new [OF at(2), of k uninit] at(3,4) room by (metis (no_types, lifting))
    note e = put_sorted_entries [OF at(2) None [unfolded at(3)] u(3)]
    show ?thesis using found_at(1) [OF at(2), of k] u(1) assign_rep [OF at(1) u(2) e(2), of v] None at(3) e(1)
      by (simp add: rbm_put_def rbt_subscript_def rbt_end_def put_sorted_twice)
  qed
qed

lemma rbm_del_rep:
  assumes "rbm_rep L cap t xs"
  shows "\<exists>u. rbm_del zero t k = Inr (if map_of xs k = None then 0 else 1, u) \<and> rbm_rep L cap u (filter (\<lambda>e. fst e \<noteq> k) xs)"
proof -
  obtain T where at: "region_layout L cap" "map_at L cap t T" "xs = map snd (entries T)" by (rule rbm_repE [OF assms])
  show ?thesis
  proof (cases "map_of xs k")
    case None
    then have "filter (\<lambda>e. fst e \<noteq> k) xs = xs" by (auto simp: map_of_eq_None_iff filter_id_conv)
    then show ?thesis using None found_at(1) [OF at(2), of k] at(3) assms by (simp add: rbm_del_def rbt_erase_iter_def rbt_end_def)
  next
    case (Some w)
    then obtain i where i: "rbt_find (<) t k = Some (Inr (int i))" "(i, k, w) \<in> set (entries T)" "rbt_iter_deref t (int i) = Inr (k, w)"
      using found_at(2) [OF at(2)] at(3) by blast
    obtain u T' where u: "rbt_erase (<) zero t k = Some (Inr (1, u))" "map_at L cap u T'" "entries T' = filter (\<lambda>e. fst e \<noteq> i) (entries T)"
      by (rule rbt_erase_at [OF at(2) i(2), of zero])
    have "rbm_rep L cap u (filter (\<lambda>e. fst e \<noteq> k) xs)" using rbm_repI [OF at(1) u(2)] u(3) filter_slot [OF at(2) i(2)] at(3) by simp
    then show ?thesis using Some i(1,3) u(1) by (simp add: rbm_del_def rbt_erase_iter_def rbt_end_def)
  qed
qed

lemma empty_map_at:
  assumes "ml_slab L m cap {} (buf_of m)" "cap < 2 ^ 31" "rm_magic_number md = rbt_kMagicNumber" "rm_root md = - 1" "rm_size md = 0"
  shows "map_at L cap \<lparr>rt_md = md, rt_ml = m\<rparr> Tip"
  using assms by (intro map_atI) (simp_all add: live_def bufs_def keys_def)

lemma rbt_clear_rep:
  assumes "rbm_rep L cap t xs"
  shows "\<exists>u. rbt_clear t = Inr u \<and> rbm_rep L cap u []"
proof -
  obtain T where at: "region_layout L cap" "map_at L cap t T" by (rule rbm_repE [OF assms])
  note d = map_atD [OF at(2)]
  obtain start len slice_size where L: "L = made_layout start len slice_size cap" "ml_kHeaderSize \<le> len"
    "cap = (len - ml_kHeaderSize) div (kSliceHeadSize + slice_size)" "cap < 2 ^ 31"
    using at(1) unfolding region_layout_def by blast
  obtain m where m: "ml_clear (rt_ml t) = Inr m" "ml_slab L m cap {} (bufs t)"
    using clear_slab [OF _ L(2-4)] d(2) unfolding live_def L(1) by blast
  have "buf_of m = bufs t" using m(2) by (simp add: ml_slab_def)
  then have "rbm_rep L cap \<lparr>rt_md = (rt_md t)\<lparr>rm_size := 0, rm_depth := 0, rm_root := - 1\<rparr>, rt_ml = m\<rparr> []"
    using m(2) L(4) d(3) by (intro rbm_repI [OF at(1) empty_map_at]) simp_all
  moreover have "rbt_clear t = Inr \<lparr>rt_md = (rt_md t)\<lparr>rm_size := 0, rm_depth := 0, rm_root := - 1\<rparr>, rt_ml = m\<rparr>"
    using m(1) by (cases t) (simp add: rbt_clear_def)
  ultimately show ?thesis by blast
qed

interpretation rbm: ordered_map "rbm_rep L" rbm_ins "rbm_put uninit" "rbm_del zero" rbm_look rbm_all rbt_size rbt_clear
  for L uninit zero
proof unfold_locales
  fix t :: "('a, 'b) rbtree" and cap xs
  assume rep: "rbm_rep L cap t xs"
  obtain T where at: "map_at L cap t T" "xs = map snd (entries T)" by (rule rbm_repE [OF rep])
  show "sorted_wrt (<) (map fst xs)" using map_at_sorted [OF at(1)] at(2) by simp
  show "rbt_size t = length xs" using map_atD(12) [OF at(1)] at(2) by simp
qed (fact rbm_ins_old rbm_ins_rep rbm_put_rep rbm_del_rep rbm_look_rep rbm_all_rep rbt_clear_rep)+

section \<open>Making and restoring a map\<close>

lemma rbt_CreateFrom_rep:
  assumes "rbt_kHeaderSize + ml_kHeaderSize < len" "n = (len - rbt_kHeaderSize - ml_kHeaderSize) div (kSliceHeadSize + node_size)"
    "length cells = n" "n < 2 ^ 31"
  obtains t :: "('k::linorder, 'v) rbtree" where "rbt_CreateFrom node_size buf len cells = Inr (Some t)"
    "rbm_rep (made_layout (buf + rbt_kHeaderSize) (len - rbt_kHeaderSize) node_size n) n t []"
proof -
  let ?L = "made_layout (buf + rbt_kHeaderSize) (len - rbt_kHeaderSize) node_size n"
  have len: "ml_kHeaderSize \<le> len - rbt_kHeaderSize" using assms(1) by simp
  obtain m :: "('k, 'v) rbnode memory_list" where m: "ml_CreateFrom (buf + rbt_kHeaderSize) (len - rbt_kHeaderSize) node_size cells = Inr (Some m)"
    "ml_slab ?L m n {} (buf_of m)"
    by (rule CreateFrom_slab [OF len assms(2-4)])
  let ?md = "\<lparr>rm_magic_number = rbt_kMagicNumber, rm_root = rbt_kInvalidNodeId, rm_size = 0, rm_depth = 0\<rparr>"
  have "region_layout ?L n" using len assms(2,4) unfolding region_layout_def by blast
  then have "rbm_rep ?L n \<lparr>rt_md = ?md, rt_ml = m\<rparr> []" by (rule rbm_repI [OF _ empty_map_at [OF m(2) assms(4)]]) simp_all
  moreover have "rbt_CreateFrom node_size buf len cells = Inr (Some \<lparr>rt_md = ?md, rt_ml = m\<rparr>)" using m(1) assms(1) by (simp add: rbt_CreateFrom_def)
  ultimately show thesis by (intro that) simp_all
qed

lemma rbt_RestoreFrom_rep:
  assumes "rbm_rep (made_layout (buf + rbt_kHeaderSize) (len - rbt_kHeaderSize) node_size n) n t xs" "rbt_kHeaderSize + ml_kHeaderSize < len"
    "n = (len - rbt_kHeaderSize - ml_kHeaderSize) div (kSliceHeadSize + node_size)" "len < 2 ^ 64"
  shows "rbt_RestoreFrom node_size buf len (rt_md t) (ml_header (rt_ml t)) (ml_slices (rt_ml t)) = Some t"
proof -
  let ?L = "made_layout (buf + rbt_kHeaderSize) (len - rbt_kHeaderSize) node_size n"
  obtain T where at: "map_at ?L n t T" by (rule rbm_repE [OF assms(1)])
  note d = map_atD [OF at]
  have l: "layout (rt_ml t) = ?L" "ml_capacity (rt_ml t) = n" using d(2) by (simp_all add: live_def ml_slab_def)
  have "n * (kSliceHeadSize + node_size) \<le> len - rbt_kHeaderSize - ml_kHeaderSize" using assms(3) by (metis div_times_less_eq_dividend)
  then have "ml_RestoreFrom (buf + rbt_kHeaderSize) (len - rbt_kHeaderSize + 0) node_size (ml_header (rt_ml t)) (ml_slices (rt_ml t)) =
     Some ((rt_ml t)\<lparr>ml_slices := ml_slices (rt_ml t), ml_end := ml_end (rt_ml t) + 0, ml_capacity := n + 0 div (kSliceHeadSize + node_size)\<rparr>)"
    using assms(2,4) by (intro RestoreFrom_layout [OF l(1)]) simp_all
  then show ?thesis using l(2) d(3) assms(2) by (simp add: rbt_RestoreFrom_def)
qed

section \<open>The map in use\<close>

definition rb_step :: "'v \<Rightarrow> 'k \<times> 'v \<Rightarrow> ('k::linorder, 'v) map_op \<Rightarrow> ('k, 'v) rbtree \<Rightarrow> (('k, 'v) map_reply \<times> ('k, 'v) rbtree) result" where
  "rb_step uninit zero = map_step rbm_ins (rbm_put uninit) (rbm_del zero) rbm_look rbm_all rbt_size rbt_clear"

text \<open>
  C5. The tree is an ordered map: on a tree made in a region, every sequence of \<open>insert\<close>, assignment
  through \<open>operator[]\<close>, \<open>erase(find(key))\<close>, \<open>find\<close>, iteration from \<open>begin()\<close> to \<open>end()\<close>, \<open>size\<close> and
  \<open>clear\<close> ends and gives the replies of the list of the pairs in the order of their keys, bounded by
  the slices of the region; only an assignment to a new key of a full map throws. The iteration then
  lists the pairs of that reference, and \<open>RestoreFrom\<close> on the region gives the same tree.
\<close>

theorem rbtree_is_ordered_map:
  assumes "rbt_kHeaderSize + ml_kHeaderSize < len" "n = (len - rbt_kHeaderSize - ml_kHeaderSize) div (kSliceHeadSize + node_size)"
    "length cells = n" "n < 2 ^ 31" "len < 2 ^ 64"
  shows "\<exists>t. rbt_CreateFrom node_size buf len cells = Inr (Some t) \<and>
    (case run_ops (map_spec n) ops [] of
       Inl e \<Rightarrow> run_ops (rb_step uninit zero) ops t = Inl e
     | Inr (rs, xs) \<Rightarrow> \<exists>u. run_ops (rb_step uninit zero) ops t = Inr (rs, u) \<and> rbm_all u = Inr xs \<and>
         rbt_RestoreFrom node_size buf len (rt_md u) (ml_header (rt_ml u)) (ml_slices (rt_ml u)) = Some u)"
proof -
  let ?L = "made_layout (buf + rbt_kHeaderSize) (len - rbt_kHeaderSize) node_size n"
  obtain t where t: "rbt_CreateFrom node_size buf len cells = Inr (Some t)" "rbm_rep ?L n t []"
    by (rule rbt_CreateFrom_rep [OF assms(1-4)])
  have ag: "agrees (rbm_rep ?L n) (run_ops (rb_step uninit zero) ops t) (run_ops (map_spec n) ops [])"
    unfolding rb_step_def by (rule rbm.run_agrees [OF t(2)])
  show ?thesis
  proof (cases "run_ops (map_spec n) ops []")
    case (Inl e)
    with ag t(1) show ?thesis by simp
  next
    case (Inr out)
    then obtain rs xs u where out: "out = (rs, xs)" "run_ops (rb_step uninit zero) ops t = Inr (rs, u)" "rbm_rep ?L n u xs"
      using ag by (cases out) auto
    then show ?thesis using Inr t(1) rbm_all_rep [OF out(3)] rbt_RestoreFrom_rep [OF out(3) assms(1,2,5)] by simp
  qed
qed

theorem rbtree_is_ordered_map_witness:
  "\<exists>t. rbt_CreateFrom 32 1000 232 (replicate 3 \<lparr>sl_next = 7, sl_prev = 7, sl_buf = rbnode_Init (9 :: nat) (9 :: nat)\<rparr>) = Inr (Some t) \<and>
    (case run_ops (map_spec 3) [MInsert 5 50, MInsert 3 30, MAssign 7 70, MErase 5, MList, MFind 3] [] of
       Inl e \<Rightarrow> run_ops (rb_step 8 (0, 0)) [MInsert 5 50, MInsert 3 30, MAssign 7 70, MErase 5, MList, MFind 3] t = Inl e
     | Inr (rs, xs) \<Rightarrow> \<exists>u. run_ops (rb_step 8 (0, 0)) [MInsert 5 50, MInsert 3 30, MAssign 7 70, MErase 5, MList, MFind 3] t = Inr (rs, u) \<and>
         rbm_all u = Inr xs \<and> rbt_RestoreFrom 32 1000 232 (rt_md u) (ml_header (rt_ml u)) (ml_slices (rt_ml u)) = Some u)"
  by (rule rbtree_is_ordered_map) (simp_all add: rbt_kHeaderSize_def ml_kHeaderSize_def kSliceHeadSize_def)

section \<open>Balance\<close>

text \<open>A search that gives up after it has looked at \<open>d\<close> nodes.\<close>

fun Get_within :: "nat \<Rightarrow> ('k::linorder, 'v) rbtree \<Rightarrow> int \<Rightarrow> 'k \<Rightarrow> int run" where
  "Get_within d t i key =
     fbind (Some (GetPointer i)) (\<lambda>p.
       if p = None then Some (Inr rbt_kInvalidNodeId)
       else case d of 0 \<Rightarrow> None
       | Suc e \<Rightarrow> fbind (Some (rbt_at t p)) (\<lambda>n.
           if fst (rn_v n) < key then Get_within e t (rn_r n) key
           else if key < fst (rn_v n) then Get_within e t (rn_l n) key
           else Some (Inr i)))"

declare Get_within.simps [simp del]

lemma Get_within_at: "tree_at t p T \<Longrightarrow> rheight T \<le> d \<Longrightarrow> Get_within d t (rid T) key = rbt_Get (<) t (rid T) key"
proof (induction T arbitrary: p d)
  case (Nod c i l x r)
  then obtain e where d: "d = Suc e" "rheight l \<le> e" "rheight r \<le> e" by (cases d) auto
  have sub: "tree_at t (int i) l" "tree_at t (int i) r" using Nod.prems(1) by (simp_all add: tree_at_Nod)
  show ?case using Nod.prems(1) Nod.IH(1) [OF sub(1) d(2)] Nod.IH(2) [OF sub(2) d(3)] d(1)
    by (subst Get_within.simps, subst rbt_Get.simps) (simp add: tree_at_Nod)
qed (simp add: Get_within.simps rbt_Get.simps)

lemma balanced_height: "lb T \<Longrightarrow> rheight T \<le> 2 * bh T + (if col T = kRed then 1 else 0)"
proof (induction T)
  case (Nod c i l x r)
  then have "rheight l \<le> 2 * bh l + (if col l = kRed then 1 else 0)" "rheight r \<le> 2 * bh l" by simp_all
  then show ?case using Nod.prems by (cases c; cases "col l") auto
qed simp

lemma balanced_size: "lb T \<Longrightarrow> 2 ^ bh T \<le> Suc (length (entries T))"
proof (induction T)
  case (Nod c i l x r)
  then have "2 ^ bh l \<le> Suc (length (entries l))" "2 ^ bh l \<le> Suc (length (entries r))" by simp_all
  then show ?case by (cases c) auto
qed simp

text \<open>
  C19. The tree stays a balanced search tree: after any sequence of operations on a tree made in a
  region, the nodes form a tree whose parent links are right, whose keys are in order, in which red
  nodes lean left, no red node has a red child and all paths have the same number of black nodes. A
  search for any key looks at no more than twice the binary logarithm of \<open>size() + 1\<close> nodes.
\<close>

theorem rbtree_balanced:
  assumes "rbt_kHeaderSize + ml_kHeaderSize < len" "n = (len - rbt_kHeaderSize - ml_kHeaderSize) div (kSliceHeadSize + node_size)"
    "length cells = n" "n < 2 ^ 31" "rbt_CreateFrom node_size buf len cells = Inr (Some t)" "run_ops (rb_step uninit zero) ops t = Inr (rs, u)"
  shows "\<exists>T. tree_at u (- 1) T \<and> rm_root (rt_md u) = rid T \<and> sorted_wrt (<) (keys T) \<and> lb T \<and> col T = kBlack \<and>
    2 ^ bh T \<le> rbt_size u + 1 \<and> (\<forall>key. Get_within (2 * bh T) u (rm_root (rt_md u)) key = rbt_find (<) u key)"
proof -
  let ?L = "made_layout (buf + rbt_kHeaderSize) (len - rbt_kHeaderSize) node_size n"
  obtain t' where "rbt_CreateFrom node_size buf len cells = Inr (Some t')" "rbm_rep ?L n t' []"
    by (rule rbt_CreateFrom_rep [OF assms(1-4)])
  then have "rbm_rep ?L n t []" using assms(5) by simp
  then have "agrees (rbm_rep ?L n) (run_ops (rb_step uninit zero) ops t) (run_ops (map_spec n) ops [])"
    unfolding rb_step_def by (rule rbm.run_agrees)
  then obtain xs where "rbm_rep ?L n u xs" using assms(6) by (auto simp: agrees_def split: sum.splits)
  then obtain T where at: "map_at ?L n u T" by (rule rbm_repE)
  note d = map_atD [OF at]
  have "rheight T \<le> 2 * bh T" "2 ^ bh T \<le> rbt_size u + 1" using balanced_height [OF d(7)] balanced_size [OF d(7)] d(8,12) by simp_all
  then show ?thesis using d Get_within_at [OF d(1)] unfolding rbt_find_def by metis
qed

theorem rbtree_balanced_witness:
  "\<exists>t u T. rbt_CreateFrom 32 1000 232 (replicate 3 \<lparr>sl_next = 7, sl_prev = 7, sl_buf = rbnode_Init (9 :: nat) (9 :: nat)\<rparr>) = Inr (Some t) \<and>
    run_ops (rb_step 8 (0, 0)) [MInsert 5 50, MInsert 3 30, MErase 5] t = Inr ([Stored True (Some 50), Stored True (Some 30), Gone 1], u) \<and>
    tree_at u (- 1) T \<and> rm_root (rt_md u) = rid T \<and> sorted_wrt (<) (keys T) \<and> lb T \<and> col T = kBlack \<and>
    2 ^ bh T \<le> rbt_size u + 1 \<and> (\<forall>key. Get_within (2 * bh T) u (rm_root (rt_md u)) key = rbt_find (<) u key)"
proof -
  let ?cells = "replicate 3 \<lparr>sl_next = 7, sl_prev = 7, sl_buf = rbnode_Init (9 :: nat) (9 :: nat)\<rparr>"
    and ?ops = "[MInsert 5 50, MInsert 3 30, MErase 5] :: (nat, nat) map_op list"
  note c = rbt_kHeaderSize_def ml_kHeaderSize_def kSliceHeadSize_def
  obtain t where t: "rbt_CreateFrom 32 1000 232 ?cells = Inr (Some t)" "rbm_rep (made_layout (1000 + rbt_kHeaderSize) (232 - rbt_kHeaderSize) 32 3) 3 t []"
    by (rule rbt_CreateFrom_rep [where n = 3 and node_size = 32 and len = 232 and buf = 1000 and cells = ?cells]) (simp_all add: c)
  from rbm.run_agrees [OF t(2), of 8 "(0, 0)" ?ops]
  obtain u where u: "run_ops (rb_step 8 (0, 0)) ?ops t = Inr ([Stored True (Some 50), Stored True (Some 30), Gone 1], u)"
    by (auto simp: rb_step_def)
  from rbtree_balanced [OF _ _ _ _ t(1) u] t(1) u show ?thesis by (simp add: c)
qed

section \<open>Erasing a key that is not there\<close>

lemma rbt_Delete_throws:
  fixes k :: "'k::linorder"
  assumes "tree_at t p (Nod c i Tip x Tip)" "fst x < k"
  shows "rbt_Delete (<) zero t (int i) k = Some (Inr (None, t))"
  using assms by (subst rbt_Delete.simps) (simp add: tree_at_Nod same_key_def prepare_right_def is_red_def rbt_node_def)

lemma rbt_erase_loses:
  fixes k :: "'k::linorder"
  assumes "tree_at t (- 1) (Nod kBlack i (Nod kRed j Tip x Tip) y Tip)" "rm_root (rt_md t) = int i" "fst x < fst y" "fst y < k"
  shows "\<exists>u. rbt_erase (<) zero t k = Some (Inr (0, u)) \<and> rbt_find (<) u (fst x) = Some (Inr (rbt_end u)) \<and> rbt_size u = rbt_size t"
proof -
  have "usable t i" using assms(1) by (simp add: tree_at_Nod)
  then obtain t1 where t1: "set_c (int i) kRed t = Inr t1" "tree_at t1 (- 1) (Nod kRed i (Nod kRed j Tip x Tip) y Tip)" "rt_md t1 = rt_md t"
    using recolor_at(2) [OF assms(1), of kRed] by simp
  obtain t2 where t2: "RotateRight t1 (int i) = Inr (int j, t2)" "tree_at t2 (- 1) (Nod kRed j Tip x (Nod kRed i Tip y Tip))" "rt_md t2 = rt_md t"
    using RotateRight_at [OF t1(2)] t1(3) by (auto simp: moved_def)
  have sub: "tree_at t2 (int j) (Nod kRed i Tip y Tip)" using t2(2) by (simp add: tree_at_Nod)
  have "rbt_Delete (<) zero t1 (int i) k = Some (Inr (None, t2))"
    using t1(2) t2(1,2) rbt_Delete_throws [OF sub assms(4), of zero] less_trans [OF assms(3,4)] assms(4) less_not_sym [OF assms(4)]
    by (subst rbt_Delete.simps) (simp add: tree_at_Nod same_key_def prepare_right_def is_red_def rbt_node_def)
  moreover let ?u = "put_node i ((bufs t2 i)\<lparr>rn_c := kBlack\<rparr>) t2"
  have u: "set_c (int i) kBlack t2 = Inr ?u" "tree_at ?u (int j) (Nod kBlack i Tip y Tip)" "rt_md ?u = rt_md t"
    using recolor_at(2) [OF sub] sub t2(3) by (simp_all add: tree_at_Nod)
  ultimately have "rbt_erase (<) zero t k = Some (Inr (0, ?u))" using t1(1,3) assms(2) t2(3) by (simp add: rbt_erase_def)
  moreover have "rbt_find (<) ?u (fst x) = Some (Inr (rbt_end ?u))"
    using rbt_Get_at [OF u(2), of "fst x"] assms(2,3) u(3) by (simp add: rbt_find_def rbt_end_def keys_def)
  ultimately show ?thesis using u(3) by (auto simp: rbt_size_def)
qed

text \<open>
  \<open>erase(key)\<close> of a key that is not there damages the tree. The descent rotates on its way down,
  and \<open>throw 0\<close> leaves without the links of the parents and of the root being stored: after inserting
  two keys and erasing a third above them, \<open>erase\<close> reports 0, \<open>size()\<close> is still 2, and the smaller
  key is not found any more.
\<close>

theorem erase_absent_loses_key:
  fixes k1 k2 k3 :: "'k::linorder"
  assumes "rbt_kHeaderSize + ml_kHeaderSize < len" "n = (len - rbt_kHeaderSize - ml_kHeaderSize) div (kSliceHeadSize + node_size)"
    "length cells = n" "n < 2 ^ 31" "2 \<le> n" "k1 < k2" "k2 < k3"
  shows "\<exists>t t1 t2 i j u. rbt_CreateFrom node_size buf len cells = Inr (Some t) \<and>
    rbt_insert (<) t k1 v1 = Some (Inr ((i, True), t1)) \<and> rbt_insert (<) t1 k2 v2 = Some (Inr ((j, True), t2)) \<and>
    rbt_erase (<) zero t2 k3 = Some (Inr (0, u)) \<and> rbt_find (<) u k1 = Some (Inr (rbt_end u)) \<and> rbt_size u = 2"
proof -
  obtain t where t: "rbt_CreateFrom node_size buf len cells = Inr (Some t)" "rbm_rep (made_layout (buf + rbt_kHeaderSize) (len - rbt_kHeaderSize) node_size n) n t []"
    by (rule rbt_CreateFrom_rep [OF assms(1-4)])
  let ?L = "made_layout (buf + rbt_kHeaderSize) (len - rbt_kHeaderSize) node_size n"
  obtain T where T: "map_at ?L n t T" "[] = map snd (entries T)" by (rule rbm_repE [OF t(2)])
  then have T0: "map_at ?L n t Tip" by (cases T) auto
  obtain i t1 T1 where i: "rbt_insert (<) t k1 v1 = Some (Inr ((int i, True), t1))" "map_at ?L n t1 T1" "T1 = paint kBlack (tput i k1 v1 Tip)"
    by (rule rbt_insert_new [OF T0, of k1 v1]) (use assms(5) in auto)
  obtain j t2 T2 where j: "rbt_insert (<) t1 k2 v2 = Some (Inr ((int j, True), t2))" "map_at ?L n t2 T2" "T2 = paint kBlack (tput j k2 v2 T1)"
    by (rule rbt_insert_new [OF i(2), of k2 v2]) (use assms(5,6) i(3) in auto)
  have T2: "T2 = Nod kBlack j (Nod kRed i Tip (k1, v1) Tip) (k2, v2) Tip"
    using assms(6) by (auto simp: i(3) j(3) bal_def lean_def unstack_def flipb_def)
  note d = map_atD [OF j(2) [unfolded T2]]
  obtain u where "rbt_erase (<) zero t2 k3 = Some (Inr (0, u))" "rbt_find (<) u k1 = Some (Inr (rbt_end u))" "rbt_size u = rbt_size t2"
    using rbt_erase_loses [OF d(1), of k3 zero] d(4) assms(6,7) by auto
  then show ?thesis using t(1) i(1) j(1) d(12) by auto
qed

theorem erase_absent_loses_key_witness:
  "\<exists>t t1 t2 i j u. rbt_CreateFrom 32 1000 232 (replicate 3 \<lparr>sl_next = 7, sl_prev = 7, sl_buf = rbnode_Init (9 :: nat) (9 :: nat)\<rparr>) = Inr (Some t) \<and>
    rbt_insert (<) t 1 10 = Some (Inr ((i, True), t1)) \<and> rbt_insert (<) t1 2 20 = Some (Inr ((j, True), t2)) \<and>
    rbt_erase (<) (0, 0) t2 3 = Some (Inr (0, u)) \<and> rbt_find (<) u 1 = Some (Inr (rbt_end u)) \<and> rbt_size u = 2"
  by (rule erase_absent_loses_key [where n = 3]) (simp_all add: rbt_kHeaderSize_def ml_kHeaderSize_def kSliceHeadSize_def)

end
