(* ===== verification/Heap_RBTree.thy ===== *)
theory Heap_RBTree
  imports Colored_Tree
begin

text \<open>
  The ordered map of \<open>rbtree/rbtree.hpp\<close>, \<open>RBTree\<close>: a red-black tree of heap nodes with parent
  pointers, repaired bottom-up by loops. This theory holds the operations as the header has them.

  A tree carries the part of the heap its nodes occupy, a map from addresses to nodes; a pointer is
  an address or none, and reading or writing through none, or through an address that holds no
  node, is a fault. \<open>new\<close> is given the address it returns as an argument (the theorems assume that
  nothing is there). The comparator and the value \<open>mapped_type()\<close> are arguments. Loops follow the
  pointers: they are partial functions, \<open>None\<close> when they do not end. What \<open>erase\<close> prints is left out.
\<close>

section \<open>State\<close>

record ('k, 'v) pnode =
  pn_v :: "'k \<times> 'v"
  pn_p :: "nat option"
  pn_l :: "nat option"
  pn_r :: "nat option"
  pn_c :: color

text \<open>\<open>pt_this\<close> is the address of the tree object, which iterators refer to.\<close>

record ('k, 'v) ptree =
  pt_heap :: "nat \<rightharpoonup> ('k, 'v) pnode"
  pt_root :: "nat option"
  pt_sz :: u64
  pt_this :: nat

record pt_iter =
  it_tree :: "nat option"
  it_node :: "nat option"

definition pt_RBTree :: "nat \<Rightarrow> ('k, 'v) ptree" where
  "pt_RBTree this = \<lparr>pt_heap = Map.empty, pt_root = None, pt_sz = 0, pt_this = this\<rparr>"

section \<open>Access to nodes\<close>

definition pt_node :: "('k, 'v) ptree \<Rightarrow> nat option \<Rightarrow> ('k, 'v) pnode result" where
  "pt_node t p = (case p of None \<Rightarrow> Inl MemoryFault
     | Some a \<Rightarrow> (case pt_heap t a of None \<Rightarrow> Inl MemoryFault | Some n \<Rightarrow> Inr n))"

definition pt_upd :: "(('k, 'v) pnode \<Rightarrow> ('k, 'v) pnode) \<Rightarrow> nat option \<Rightarrow> ('k, 'v) ptree \<Rightarrow> ('k, 'v) ptree result" where
  "pt_upd g p t = rbind (pt_node t p) (\<lambda>n. Inr (t\<lparr>pt_heap := (pt_heap t)(the p \<mapsto> g n)\<rparr>))"

definition pt_set_l :: "nat option \<Rightarrow> nat option \<Rightarrow> ('k, 'v) ptree \<Rightarrow> ('k, 'v) ptree result" where
  "pt_set_l p x = pt_upd (\<lambda>n. n\<lparr>pn_l := x\<rparr>) p"

definition pt_set_r :: "nat option \<Rightarrow> nat option \<Rightarrow> ('k, 'v) ptree \<Rightarrow> ('k, 'v) ptree result" where
  "pt_set_r p x = pt_upd (\<lambda>n. n\<lparr>pn_r := x\<rparr>) p"

definition pt_set_p :: "nat option \<Rightarrow> nat option \<Rightarrow> ('k, 'v) ptree \<Rightarrow> ('k, 'v) ptree result" where
  "pt_set_p p x = pt_upd (\<lambda>n. n\<lparr>pn_p := x\<rparr>) p"

definition pt_set_c :: "nat option \<Rightarrow> color \<Rightarrow> ('k, 'v) ptree \<Rightarrow> ('k, 'v) ptree result" where
  "pt_set_c p c = pt_upd (\<lambda>n. n\<lparr>pn_c := c\<rparr>) p"

text \<open>\<open>if (x) x->p = q;\<close>\<close>

definition pt_set_p_if :: "nat option \<Rightarrow> nat option \<Rightarrow> ('k, 'v) ptree \<Rightarrow> ('k, 'v) ptree result" where
  "pt_set_p_if x q t = (if x \<noteq> None then pt_set_p x q t else Inr t)"

text \<open>\<open>if (p->l == node) p->l = x; else p->r = x;\<close>\<close>

definition pt_replace_child :: "nat option \<Rightarrow> nat option \<Rightarrow> nat option \<Rightarrow> ('k, 'v) ptree \<Rightarrow> ('k, 'v) ptree result" where
  "pt_replace_child p node x t =
     rbind (pt_node t p) (\<lambda>n. if pn_l n = node then pt_set_l p x t else pt_set_r p x t)"

definition pt_is_black :: "('k, 'v) ptree \<Rightarrow> nat option \<Rightarrow> bool result" where
  "pt_is_black t node = (if node = None then Inr True else rbind (pt_node t node) (\<lambda>n. Inr (pn_c n = kBlack)))"

definition pt_is_red :: "('k, 'v) ptree \<Rightarrow> nat option \<Rightarrow> bool result" where
  "pt_is_red t node = (if node = None then Inr False else rbind (pt_node t node) (\<lambda>n. Inr (pn_c n = kRed)))"

definition num_of_children :: "('k, 'v) ptree \<Rightarrow> nat option \<Rightarrow> nat result" where
  "num_of_children t node =
     rbind (pt_node t node) (\<lambda>n. Inr ((if pn_l n \<noteq> None then 1 else 0) + (if pn_r n \<noteq> None then 1 else 0)))"

section \<open>Neighbours\<close>

partial_function (option) pt_down_r :: "('k, 'v) ptree \<Rightarrow> nat option \<Rightarrow> nat option run" where
  [code]: "pt_down_r t res =
     fbind (Some (pt_node t res)) (\<lambda>n. if pn_r n \<noteq> None then pt_down_r t (pn_r n) else Some (Inr res))"

partial_function (option) pt_down_l :: "('k, 'v) ptree \<Rightarrow> nat option \<Rightarrow> nat option run" where
  [code]: "pt_down_l t res =
     fbind (Some (pt_node t res)) (\<lambda>n. if pn_l n \<noteq> None then pt_down_l t (pn_l n) else Some (Inr res))"

partial_function (option) pt_up_l :: "('k, 'v) ptree \<Rightarrow> nat option \<Rightarrow> nat option \<Rightarrow> nat option run" where
  [code]: "pt_up_l t node res =
     (if res = None then Some (Inr None)
      else fbind (Some (pt_node t res)) (\<lambda>n. if pn_l n = node then pt_up_l t res (pn_p n) else Some (Inr res)))"

partial_function (option) pt_up_r :: "('k, 'v) ptree \<Rightarrow> nat option \<Rightarrow> nat option \<Rightarrow> nat option run" where
  [code]: "pt_up_r t node res =
     (if res = None then Some (Inr None)
      else fbind (Some (pt_node t res)) (\<lambda>n. if pn_r n = node then pt_up_r t res (pn_p n) else Some (Inr res)))"

definition predecessor :: "('k, 'v) ptree \<Rightarrow> nat option \<Rightarrow> nat option run" where
  "predecessor t node =
     fbind (Some (require (node \<noteq> None) (pt_node t node))) (\<lambda>n.
       if pn_l n \<noteq> None then pt_down_r t (pn_l n) else pt_up_l t node (pn_p n))"

definition successor :: "('k, 'v) ptree \<Rightarrow> nat option \<Rightarrow> nat option run" where
  "successor t node =
     fbind (Some (require (node \<noteq> None) (pt_node t node))) (\<lambda>n.
       if pn_r n \<noteq> None then pt_down_l t (pn_r n) else pt_up_r t node (pn_p n))"

definition pt_min :: "('k, 'v) ptree \<Rightarrow> nat option run" where
  "pt_min t = (if pt_root t = None then Some (Inr None) else pt_down_l t (pt_root t))"

definition pt_max :: "('k, 'v) ptree \<Rightarrow> nat option run" where
  "pt_max t = (if pt_root t = None then Some (Inr None) else pt_down_r t (pt_root t))"

section \<open>Nodes\<close>

definition unlink_leaf :: "('k, 'v) ptree \<Rightarrow> nat option \<Rightarrow> ('k, 'v) ptree result" where
  "unlink_leaf t node =
     require (node \<noteq> None)
       (if pt_root t = node then Inr t
        else rbind (pt_node t node) (\<lambda>n. require (pn_p n \<noteq> None)
          (rbind (pt_node t (pn_p n)) (\<lambda>p. require (pn_l p = node \<or> pn_r p = node)
            (pt_replace_child (pn_p n) node None t)))))"

text \<open>The constructor leaves \<open>p\<close> unset; \<open>insert_impl\<close>, the only caller, sets it before it is read.\<close>

definition new_node :: "nat \<Rightarrow> 'k \<times> 'v \<Rightarrow> ('k, 'v) ptree \<Rightarrow> nat option \<times> ('k, 'v) ptree" where
  "new_node a x t =
     (Some a, t\<lparr>pt_heap := (pt_heap t)(a \<mapsto> \<lparr>pn_v = x, pn_p = None, pn_l = None, pn_r = None, pn_c = kRed\<rparr>)\<rparr>)"

definition destroy_node :: "nat option \<Rightarrow> ('k, 'v) ptree \<Rightarrow> ('k, 'v) ptree result" where
  "destroy_node node t =
     (case node of None \<Rightarrow> Inr t
      | Some a \<Rightarrow> rbind (pt_node t node) (\<lambda>n. Inr (t\<lparr>pt_heap := (pt_heap t)(a := None)\<rparr>)))"

partial_function (option) recursive_destroy_node :: "nat option \<Rightarrow> ('k, 'v) ptree \<Rightarrow> ('k, 'v) ptree run" where
  [code]: "recursive_destroy_node node t =
     (if node = None then Some (Inr t)
      else fbind (Some (pt_node t node)) (\<lambda>n.
        fbind (if pn_l n \<noteq> None then recursive_destroy_node (pn_l n) t else Some (Inr t)) (\<lambda>t1.
          fbind (Some (pt_node t1 node)) (\<lambda>n1.
            fbind (if pn_r n1 \<noteq> None then recursive_destroy_node (pn_r n1) t1 else Some (Inr t1)) (\<lambda>t2.
              Some (destroy_node node t2))))))"

definition destructor :: "('k, 'v) ptree \<Rightarrow> ('k, 'v) ptree run" where
  "destructor t = recursive_destroy_node (pt_root t) t"

section \<open>Rotations\<close>

text \<open>The link to \<open>node\<close> from above, its parent's or the root, becomes a link to \<open>x\<close>.\<close>

definition pt_relink :: "nat option \<Rightarrow> nat option \<Rightarrow> ('k, 'v) ptree \<Rightarrow> ('k, 'v) ptree result" where
  "pt_relink node x t =
     rbind (pt_node t node) (\<lambda>n.
       if pn_p n \<noteq> None then pt_replace_child (pn_p n) node x t else Inr (t\<lparr>pt_root := x\<rparr>))"

definition rotate_left :: "nat option \<Rightarrow> ('k, 'v) ptree \<Rightarrow> ('k, 'v) ptree result" where
  "rotate_left node t =
     require (node \<noteq> None) (rbind (pt_node t node) (\<lambda>n.
       let r = pn_r n
       in require (r \<noteq> None)
         (rbind (pt_relink node r t) (\<lambda>t1.
           rbind (pt_node t1 node) (\<lambda>n1.
             rbind (pt_set_p r (pn_p n1) t1) (\<lambda>t2.
               rbind (pt_set_p node r t2) (\<lambda>t3.
                 rbind (pt_node t3 r) (\<lambda>rn.
                   rbind (pt_set_p_if (pn_l rn) node t3) (\<lambda>t4.
                     rbind (pt_node t4 r) (\<lambda>rn1.
                       rbind (pt_set_r node (pn_l rn1) t4) (\<lambda>t5.
                         pt_set_l r node t5)))))))))))"

definition rotate_right :: "nat option \<Rightarrow> ('k, 'v) ptree \<Rightarrow> ('k, 'v) ptree result" where
  "rotate_right node t =
     require (node \<noteq> None) (rbind (pt_node t node) (\<lambda>n.
       let l = pn_l n
       in require (l \<noteq> None)
         (rbind (pt_relink node l t) (\<lambda>t1.
           rbind (pt_node t1 node) (\<lambda>n1.
             rbind (pt_set_p l (pn_p n1) t1) (\<lambda>t2.
               rbind (pt_set_p node l t2) (\<lambda>t3.
                 rbind (pt_node t3 l) (\<lambda>ln.
                   rbind (pt_set_p_if (pn_r ln) node t3) (\<lambda>t4.
                     rbind (pt_node t4 l) (\<lambda>ln1.
                       rbind (pt_set_l node (pn_r ln1) t4) (\<lambda>t5.
                         pt_set_r l node t5)))))))))))"

section \<open>Insertion\<close>

text \<open>The branch of \<open>insert_fixup\<close> that rotates: the uncle of \<open>node\<close> is black.\<close>

definition insert_rotate :: "nat option \<Rightarrow> nat option \<Rightarrow> nat option \<Rightarrow> ('k, 'v) ptree \<Rightarrow> ('k, 'v) ptree result" where
  "insert_rotate node p pp t =
     require (pp \<noteq> None) (rbind (pt_node t pp) (\<lambda>ppn.
       if pn_l ppn = p
       then rbind (rbind (pt_node t p) (\<lambda>pn.
           if pn_r pn = node
           then rbind (pt_set_c (pn_r pn) (pn_c pn) t) (\<lambda>t1. rbind (pt_set_c p kRed t1) (\<lambda>t2.
             rbind (rotate_left p t2) (\<lambda>t3. Inr (node, t3))))
           else Inr (p, t))) (\<lambda>(q, t4).
         rbind (pt_node t4 pp) (\<lambda>ppn1.
           rbind (pt_set_c q (pn_c ppn1) t4) (\<lambda>t5. rbind (pt_set_c pp kRed t5) (\<lambda>t6. rotate_right pp t6))))
       else require (pn_r ppn = p)
         (rbind (rbind (pt_node t p) (\<lambda>pn.
           if pn_l pn = node
           then rbind (pt_set_c (pn_l pn) (pn_c pn) t) (\<lambda>t1. rbind (pt_set_c p kRed t1) (\<lambda>t2.
             rbind (rotate_right p t2) (\<lambda>t3. Inr (node, t3))))
           else Inr (p, t))) (\<lambda>(q, t4).
         rbind (pt_node t4 pp) (\<lambda>ppn1.
           rbind (pt_set_c q (pn_c ppn1) t4) (\<lambda>t5. rbind (pt_set_c pp kRed t5) (\<lambda>t6. rotate_left pp t6)))))))"

text \<open>The branch that recolours: the uncle \<open>ps\<close> is red.\<close>

definition insert_recolor :: "nat option \<Rightarrow> nat option \<Rightarrow> nat option \<Rightarrow> ('k, 'v) ptree \<Rightarrow> ('k, 'v) ptree result" where
  "insert_recolor p ps pp t =
     rbind (pt_node t pp) (\<lambda>ppn. require (pn_c ppn = kBlack)
       (rbind (pt_set_c pp kRed t) (\<lambda>t1. rbind (pt_set_c p kBlack t1) (\<lambda>t2. pt_set_c ps kBlack t2))))"

partial_function (option) insert_fixup_loop :: "nat option \<Rightarrow> ('k, 'v) ptree \<Rightarrow> ('k, 'v) ptree run" where
  [code]: "insert_fixup_loop node t =
     (if node = pt_root t then Some (Inr t)
      else fbind (Some (pt_node t node)) (\<lambda>n.
        fbind (Some (pt_is_red t (pn_p n))) (\<lambda>red.
          if \<not> red then Some (Inr t)
          else fbind (Some (pt_node t (pn_p n))) (\<lambda>pn.
            fbind (Some (pt_node t (pn_p pn))) (\<lambda>ppn.
              let ps = (if pn_l ppn = pn_p n then pn_r ppn else pn_l ppn)
              in fbind (Some (pt_is_red t ps)) (\<lambda>ps_red.
                if ps_red then fbind (Some (insert_recolor (pn_p n) ps (pn_p pn) t)) (\<lambda>t1. insert_fixup_loop (pn_p pn) t1)
                else Some (insert_rotate node (pn_p n) (pn_p pn) t)))))))"

definition insert_fixup :: "nat option \<Rightarrow> ('k, 'v) ptree \<Rightarrow> ('k, 'v) ptree run" where
  "insert_fixup node t =
     (if node = None then Some (Inl AssertionFailed)
      else fbind (insert_fixup_loop node t) (\<lambda>t1. Some (pt_set_c (pt_root t1) kBlack t1)))"

definition insert_impl :: "nat \<Rightarrow> nat option \<Rightarrow> int \<Rightarrow> 'k \<times> 'v \<Rightarrow> ('k, 'v) ptree \<Rightarrow> (nat option \<times> ('k, 'v) ptree) run" where
  "insert_impl a prev res x t =
     (let (node, t1) = new_node a x t
      in fbind (Some (rbind (pt_set_p node prev t1) (\<lambda>t2.
           if prev \<noteq> None
           then require (res \<noteq> 0) (if res < 0 then pt_set_l prev node t2 else pt_set_r prev node t2)
           else rbind (pt_set_c node kBlack t2) (\<lambda>t3. Inr (t3\<lparr>pt_root := node\<rparr>))))) (\<lambda>t3.
         fbind (Some (rbind (pt_node t3 node) (\<lambda>n. pt_is_red t3 (pn_p n)))) (\<lambda>red.
           fbind (if red then insert_fixup node t3 else Some (Inr t3)) (\<lambda>t4. Some (Inr (node, t4))))))"

section \<open>Erasure\<close>

text \<open>The branches of the loop of \<open>erase_fixup\<close>: a red sibling; a black one with a red child, to the right or to the left.\<close>

definition erase_red_sibling :: "nat option \<Rightarrow> nat option \<Rightarrow> ('k, 'v) ptree \<Rightarrow> ('k, 'v) ptree result" where
  "erase_red_sibling p s t =
     rbind (pt_is_black t p) (\<lambda>b. require b (rbind (pt_node t s) (\<lambda>sn.
       require (pn_l sn \<noteq> None) (require (pn_r sn \<noteq> None)
         (rbind (pt_is_black t (pn_l sn)) (\<lambda>bl. require bl (rbind (pt_is_black t (pn_r sn)) (\<lambda>br. require br
           (rbind (pt_set_c p kRed t) (\<lambda>t1. rbind (pt_set_c s kBlack t1) (\<lambda>t2.
             rbind (pt_node t2 p) (\<lambda>pn. if s = pn_r pn then rotate_left p t2 else rotate_right p t2))))))))))))"

definition erase_rotate_left :: "nat option \<Rightarrow> nat option \<Rightarrow> ('k, 'v) ptree \<Rightarrow> ('k, 'v) ptree result" where
  "erase_rotate_left p s t =
     rbind (pt_node t s) (\<lambda>sn. rbind (pt_is_red t (pn_l sn)) (\<lambda>red.
       rbind (if red
              then rbind (pt_set_c (pn_l sn) kBlack t) (\<lambda>t1. rbind (pt_set_c s kRed t1) (\<lambda>t2.
                rbind (rotate_right s t2) (\<lambda>t3. rbind (pt_node t3 s) (\<lambda>sn1. Inr (pn_p sn1, t3)))))
              else Inr (s, t)) (\<lambda>(s1, t4).
         rbind (pt_node t4 s1) (\<lambda>sn1. rbind (pt_is_black t4 (pn_l sn1)) (\<lambda>bl. require bl
           (rbind (pt_is_red t4 (pn_r sn1)) (\<lambda>rr. require rr
             (rbind (pt_node t4 p) (\<lambda>pn. rbind (pt_set_c s1 (pn_c pn) t4) (\<lambda>t5.
               rbind (pt_node t5 s1) (\<lambda>sn2. rbind (pt_set_c (pn_r sn2) kBlack t5) (\<lambda>t6.
                 rbind (pt_set_c p kBlack t6) (\<lambda>t7. rotate_left p t7)))))))))))))"

definition erase_rotate_right :: "nat option \<Rightarrow> nat option \<Rightarrow> ('k, 'v) ptree \<Rightarrow> ('k, 'v) ptree result" where
  "erase_rotate_right p s t =
     rbind (pt_node t s) (\<lambda>sn. rbind (pt_is_red t (pn_r sn)) (\<lambda>red.
       rbind (if red
              then rbind (pt_set_c (pn_r sn) kBlack t) (\<lambda>t1. rbind (pt_set_c s kRed t1) (\<lambda>t2.
                rbind (rotate_left s t2) (\<lambda>t3. rbind (pt_node t3 s) (\<lambda>sn1. Inr (pn_p sn1, t3)))))
              else Inr (s, t)) (\<lambda>(s1, t4).
         rbind (pt_node t4 s1) (\<lambda>sn1. rbind (pt_is_black t4 (pn_r sn1)) (\<lambda>br. require br
           (rbind (pt_is_red t4 (pn_l sn1)) (\<lambda>rl. require rl
             (rbind (pt_node t4 p) (\<lambda>pn. rbind (pt_set_c s1 (pn_c pn) t4) (\<lambda>t5.
               rbind (pt_node t5 s1) (\<lambda>sn2. rbind (pt_set_c (pn_l sn2) kBlack t5) (\<lambda>t6.
                 rbind (pt_set_c p kBlack t6) (\<lambda>t7. rotate_right p t7)))))))))))))"

partial_function (option) erase_fixup_loop :: "nat option \<Rightarrow> ('k, 'v) ptree \<Rightarrow> ('k, 'v) ptree run" where
  [code]: "erase_fixup_loop node t =
     (if node = pt_root t then Some (Inr t)
      else fbind (Some (pt_is_black t node)) (\<lambda>black.
        if \<not> black then Some (Inr t)
        else fbind (Some (rbind (pt_node t node) (\<lambda>n. require (pn_p n \<noteq> None) (rbind (pt_node t (pn_p n)) (\<lambda>pn.
            let s = (if pn_l pn = node then pn_r pn else pn_l pn)
            in require (s \<noteq> None) (rbind (pt_is_red t s) (\<lambda>red. Inr (pn_p n, s, red)))))))) (\<lambda>(p, s, red).
          if red then fbind (Some (erase_red_sibling p s t)) (\<lambda>t1. erase_fixup_loop node t1)
          else fbind (Some (rbind (pt_node t s) (\<lambda>sn. rbind (pt_is_black t (pn_l sn)) (\<lambda>bl.
                 if bl then pt_is_black t (pn_r sn) else Inr False)))) (\<lambda>both.
            if both
            then fbind (Some (pt_set_c s kRed t)) (\<lambda>t1.
              fbind (Some (pt_is_red t1 p)) (\<lambda>p_red.
                if p_red then Some (pt_set_c p kBlack t1) else erase_fixup_loop p t1))
            else fbind (Some (rbind (pt_node t p) (\<lambda>pn.
                if node = pn_l pn then erase_rotate_left p s t else erase_rotate_right p s t))) (\<lambda>t1.
              erase_fixup_loop (pt_root t1) t1)))))"

definition erase_fixup :: "nat option \<Rightarrow> ('k, 'v) ptree \<Rightarrow> ('k, 'v) ptree run" where
  "erase_fixup node t =
     (if node = None then Some (Inl AssertionFailed)
      else fbind (erase_fixup_loop node t) (\<lambda>t1.
        Some (require (pt_root t1 \<noteq> None) (pt_set_c (pt_root t1) kBlack t1))))"

text \<open>Swapping the positions of a node and of its successor, when this is its right child and when it is further down.\<close>

definition pt_swap_near :: "nat option \<Rightarrow> nat option \<Rightarrow> ('k, 'v) ptree \<Rightarrow> ('k, 'v) ptree result" where
  "pt_swap_near node succ t =
     rbind (pt_node t node) (\<lambda>n.
       rbind (if pn_p n \<noteq> None then pt_replace_child (pn_p n) node succ t else Inr t) (\<lambda>t1.
         rbind (pt_node t1 succ) (\<lambda>sn. require (pn_l sn = None)
           (rbind (pt_set_p_if (pn_r sn) node t1) (\<lambda>t2.
             rbind (pt_node t2 succ) (\<lambda>sn1. rbind (pt_set_r node (pn_r sn1) t2) (\<lambda>t3.
               rbind (pt_set_r succ node t3) (\<lambda>t4.
                 rbind (pt_node t4 node) (\<lambda>n1. rbind (pt_set_p succ (pn_p n1) t4) (\<lambda>t5.
                   rbind (pt_set_p node succ t5) (\<lambda>t6.
                     rbind (pt_node t6 node) (\<lambda>n2. rbind (pt_set_p (pn_l n2) succ t6) (\<lambda>t7.
                       rbind (pt_node t7 succ) (\<lambda>sn2. rbind (pt_node t7 node) (\<lambda>n3.
                         rbind (pt_set_l succ (pn_l n3) t7) (\<lambda>t8. pt_set_l node (pn_l sn2) t8))))))))))))))))"

definition pt_swap_far :: "nat option \<Rightarrow> nat option \<Rightarrow> ('k, 'v) ptree \<Rightarrow> ('k, 'v) ptree result" where
  "pt_swap_far node succ t =
     rbind (pt_node t succ) (\<lambda>sn. require (pn_l sn = None) (require (pn_p sn \<noteq> None)
       (rbind (pt_node t (pn_p sn)) (\<lambda>spn. require (succ = pn_l spn)
         (rbind (pt_relink node succ t) (\<lambda>t1.
           rbind (pt_node t1 node) (\<lambda>n. rbind (pt_set_p (pn_l n) succ t1) (\<lambda>t2.
             rbind (pt_node t2 node) (\<lambda>n1. rbind (pt_set_p (pn_r n1) succ t2) (\<lambda>t3.
               rbind (pt_node t3 succ) (\<lambda>sn1. rbind (pt_set_l (pn_p sn1) node t3) (\<lambda>t4.
                 rbind (pt_node t4 succ) (\<lambda>sa. rbind (pt_node t4 node) (\<lambda>na.
                   rbind (pt_set_l succ (pn_l na) t4) (\<lambda>t5. rbind (pt_set_l node (pn_l sa) t5) (\<lambda>t6.
                     rbind (pt_node t6 succ) (\<lambda>sb. rbind (pt_node t6 node) (\<lambda>nb.
                       rbind (pt_set_p succ (pn_p nb) t6) (\<lambda>t7. rbind (pt_set_p node (pn_p sb) t7) (\<lambda>t8.
                         rbind (pt_node t8 node) (\<lambda>nc. require (pn_r nc \<noteq> None)
                           (rbind (pt_node t8 succ) (\<lambda>sc. rbind (pt_set_p_if (pn_r sc) node t8) (\<lambda>t9.
                             rbind (pt_node t9 succ) (\<lambda>sd. rbind (pt_node t9 node) (\<lambda>nd.
                               rbind (pt_set_r succ (pn_r nd) t9) (\<lambda>t10. pt_set_r node (pn_r sd) t10)))))))))))))))))))))))))))"

text \<open>
  The first part of \<open>erase_impl\<close>: every branch removes \<open>node\<close> itself, an internal node after it has
  changed places with its successor. The flag says whether the node was the whole tree and is gone.
\<close>

definition erase_position :: "nat option \<Rightarrow> ('k, 'v) ptree \<Rightarrow> (bool \<times> ('k, 'v) ptree) run" where
  "erase_position node t =
     fbind (Some (num_of_children t node)) (\<lambda>count.
     fbind (Some (pt_is_red t node)) (\<lambda>red.
     fbind (Some (pt_is_black t node)) (\<lambda>black.
       if count = 0 \<and> red then Some (Inr (False, t))
       else if node = pt_root t \<and> count = 0
       then Some (rbind (destroy_node node (t\<lparr>pt_root := None\<rparr>)) (\<lambda>t1. Inr (True, t1)))
       else if black \<and> count = 1 then Some (Inr (False, t))
       else if black \<and> count = 0 then Some (Inr (False, t))
       else if count \<noteq> 2 then Some (Inl AssertionFailed)
       else fbind (successor t node) (\<lambda>succ.
         Some (rbind (pt_node t node) (\<lambda>n.
           rbind (if pn_r n = succ then pt_swap_near node succ t else pt_swap_far node succ t) (\<lambda>t1.
             Inr (False, t1))))))))"

text \<open>The second part: a red leaf, a black node with one child, a black leaf.\<close>

definition erase_single_child :: "nat option \<Rightarrow> ('k, 'v) ptree \<Rightarrow> ('k, 'v) ptree result" where
  "erase_single_child node t =
     rbind (pt_node t node) (\<lambda>n.
       let child = (if pn_l n \<noteq> None then pn_l n else pn_r n)
       in rbind (pt_is_red t child) (\<lambda>red. require red
         (rbind (num_of_children t child) (\<lambda>k. require (k = 0)
           (rbind (pt_set_p child (pn_p n) t) (\<lambda>t1.
             rbind (pt_relink node child t1) (\<lambda>t2. pt_set_c child kBlack t2)))))))"

definition erase_removal :: "nat option \<Rightarrow> ('k, 'v) ptree \<Rightarrow> ('k, 'v) ptree run" where
  "erase_removal node t =
     fbind (Some (num_of_children t node)) (\<lambda>count.
     fbind (Some (pt_is_red t node)) (\<lambda>red.
     fbind (Some (pt_is_black t node)) (\<lambda>black.
       fbind (if red \<and> count = 0 then Some (unlink_leaf t node)
              else if black \<and> count = 1 then Some (erase_single_child node t)
              else fbind (erase_fixup node t) (\<lambda>t1.
                Some (rbind (pt_node t1 node) (\<lambda>n. require (pn_p n \<noteq> None) (pt_replace_child (pn_p n) node None t1)))))
         (\<lambda>t2. Some (destroy_node node t2)))))"

definition erase_impl :: "nat option \<Rightarrow> ('k, 'v) ptree \<Rightarrow> ('k, 'v) ptree run" where
  "erase_impl node t =
     (if node = None then Some (Inl AssertionFailed)
      else fbind (erase_position node t) (\<lambda>(gone, t1). if gone then Some (Inr t1) else erase_removal node t1))"

section \<open>Iterators\<close>

definition pt_iter_at :: "('k, 'v) ptree \<Rightarrow> nat option \<Rightarrow> pt_iter" where
  "pt_iter_at t node = \<lparr>it_tree = Some (pt_this t), it_node = node\<rparr>"

definition pt_end :: "('k, 'v) ptree \<Rightarrow> pt_iter" where
  "pt_end t = pt_iter_at t None"

definition pt_begin :: "('k, 'v) ptree \<Rightarrow> pt_iter run" where
  "pt_begin t = fbind (pt_min t) (\<lambda>node. Some (Inr (pt_iter_at t node)))"

definition pt_iter_next :: "('k, 'v) ptree \<Rightarrow> pt_iter \<Rightarrow> pt_iter run" where
  "pt_iter_next t it =
     (if it_tree it = None \<or> it_node it = None then Some (Inl AssertionFailed)
      else fbind (successor t (it_node it)) (\<lambda>n. Some (Inr (it\<lparr>it_node := n\<rparr>))))"

definition pt_iter_prev :: "('k, 'v) ptree \<Rightarrow> pt_iter \<Rightarrow> pt_iter run" where
  "pt_iter_prev t it =
     (if it_tree it = None \<or> it_node it = None then Some (Inl AssertionFailed)
      else fbind (predecessor t (it_node it)) (\<lambda>n. Some (Inr (it\<lparr>it_node := n\<rparr>))))"

definition pt_iter_deref :: "('k, 'v) ptree \<Rightarrow> pt_iter \<Rightarrow> ('k \<times> 'v) result" where
  "pt_iter_deref t it =
     require (it_tree it \<noteq> None) (require (it_node it \<noteq> None) (rbind (pt_node t (it_node it)) (\<lambda>n. Inr (pn_v n))))"

definition pt_iter_eq :: "pt_iter \<Rightarrow> pt_iter \<Rightarrow> bool" where
  "pt_iter_eq x y \<longleftrightarrow> it_tree x = it_tree y \<and> it_node x = it_node y"

section \<open>The public operations\<close>

partial_function (option) pt_find_loop :: "('k \<Rightarrow> 'k \<Rightarrow> bool) \<Rightarrow> ('k, 'v) ptree \<Rightarrow> 'k \<Rightarrow> nat option \<Rightarrow> nat option run" where
  [code]: "pt_find_loop lt t key node =
     (if node = None then Some (Inr None)
      else fbind (Some (pt_node t node)) (\<lambda>n.
        let less = lt key (fst (pn_v n)); greater = lt (fst (pn_v n)) key
        in if \<not> less \<and> \<not> greater then Some (Inr node)
           else if less then pt_find_loop lt t key (pn_l n) else pt_find_loop lt t key (pn_r n)))"

definition pt_find :: "('k \<Rightarrow> 'k \<Rightarrow> bool) \<Rightarrow> ('k, 'v) ptree \<Rightarrow> 'k \<Rightarrow> pt_iter run" where
  "pt_find lt t key = fbind (pt_find_loop lt t key (pt_root t)) (\<lambda>n. Some (Inr (pt_iter_at t n)))"

definition pt_erase_iter :: "('k, 'v) ptree \<Rightarrow> pt_iter \<Rightarrow> (pt_iter \<times> ('k, 'v) ptree) run" where
  "pt_erase_iter t it =
     (if it_tree it \<noteq> Some (pt_this t) \<or> pt_iter_eq it (pt_end t) then Some (Inl AssertionFailed)
      else fbind (successor t (it_node it)) (\<lambda>succ.
        fbind (erase_impl (it_node it) t) (\<lambda>t1.
          Some (require (pt_sz t1 \<ge> 1) (Inr (pt_iter_at t1 succ, t1\<lparr>pt_sz := pt_sz t1 - 1\<rparr>))))))"

definition pt_erase :: "('k \<Rightarrow> 'k \<Rightarrow> bool) \<Rightarrow> ('k, 'v) ptree \<Rightarrow> 'k \<Rightarrow> (nat \<times> ('k, 'v) ptree) run" where
  "pt_erase lt t key =
     fbind (pt_find lt t key) (\<lambda>it.
       if pt_iter_eq it (pt_end t) then Some (Inr (0, t))
       else fbind (pt_erase_iter t it) (\<lambda>(j, t1). Some (Inr (1, t1))))"

partial_function (option) pt_insert_search :: "('k \<Rightarrow> 'k \<Rightarrow> bool) \<Rightarrow> ('k, 'v) ptree \<Rightarrow> 'k \<Rightarrow> nat option \<Rightarrow> nat option \<Rightarrow> int \<Rightarrow>
    (nat option \<times> nat option \<times> int) run" where
  [code]: "pt_insert_search lt t key prev node res =
     (if node = None then Some (Inr (prev, node, res))
      else fbind (Some (pt_node t node)) (\<lambda>n.
        let less = lt key (fst (pn_v n)); greater = lt (fst (pn_v n)) key;
            res1 = (if less then - 1 else if greater then 1 else 0)
        in if res1 = 0 then Some (Inr (prev, node, res1))
           else pt_insert_search lt t key node (if res1 < 0 then pn_l n else pn_r n) res1))"

definition pt_insert_new :: "nat \<Rightarrow> nat option \<Rightarrow> int \<Rightarrow> 'k \<times> 'v \<Rightarrow> ('k, 'v) ptree \<Rightarrow> ((pt_iter \<times> bool) \<times> ('k, 'v) ptree) run" where
  "pt_insert_new a prev res x t =
     fbind (insert_impl a prev res x (t\<lparr>pt_sz := pt_sz t + 1\<rparr>)) (\<lambda>(node, t1). Some (Inr ((pt_iter_at t1 node, True), t1)))"

definition pt_insert :: "('k \<Rightarrow> 'k \<Rightarrow> bool) \<Rightarrow> nat \<Rightarrow> ('k, 'v) ptree \<Rightarrow> 'k \<times> 'v \<Rightarrow> ((pt_iter \<times> bool) \<times> ('k, 'v) ptree) run" where
  "pt_insert lt a t x =
     fbind (pt_insert_search lt t (fst x) (pt_root t) (pt_root t) 0) (\<lambda>(prev, node, res).
       if node = prev
       then if prev = None then pt_insert_new a prev res x t else Some (Inl AssertionFailed)
       else if res = 0
       then Some (rbind (pt_upd (\<lambda>n. n\<lparr>pn_v := (fst (pn_v n), snd x)\<rparr>) node t) (\<lambda>t1. Inr ((pt_iter_at t1 node, False), t1)))
       else pt_insert_new a prev res x t)"

text \<open>\<open>operator[]\<close> gives the node whose value the reference is to.\<close>

definition pt_subscript :: "'v \<Rightarrow> ('k \<Rightarrow> 'k \<Rightarrow> bool) \<Rightarrow> nat \<Rightarrow> ('k, 'v) ptree \<Rightarrow> 'k \<Rightarrow> (nat option \<times> ('k, 'v) ptree) run" where
  "pt_subscript dflt lt a t key =
     fbind (pt_insert lt a t (key, dflt)) (\<lambda>((it, b), t1).
       fbind (Some (pt_iter_deref t1 it)) (\<lambda>x. Some (Inr (it_node it, t1))))"

text \<open>The nodes go with the root.\<close>

definition pt_swap :: "('k, 'v) ptree \<Rightarrow> ('k, 'v) ptree \<Rightarrow> ('k, 'v) ptree \<times> ('k, 'v) ptree" where
  "pt_swap t u = (u\<lparr>pt_this := pt_this t\<rparr>, t\<lparr>pt_this := pt_this u\<rparr>)"

definition pt_size :: "('k, 'v) ptree \<Rightarrow> nat" where
  "pt_size t = unat (pt_sz t)"

definition pt_empty :: "('k, 'v) ptree \<Rightarrow> bool" where
  "pt_empty t \<longleftrightarrow> pt_sz t = 0"

end
