(* ===== verification/Heap_Focus.thy ===== *)
theory Heap_Focus
  imports Heap_RBTree
begin

text \<open>
  What the heap of a \<open>Heap_RBTree\<close> looks like when its nodes form a tree, seen from one of its
  nodes: the subtree below it and the path above it. The loops of the source move this focus, and
  each of their assignments is local to it.
\<close>

section \<open>Trees and paths in the heap\<close>

fun hid :: "('k, 'v) rtree \<Rightarrow> nat option" where
  "hid Tip = None"
| "hid (Nod c i l x r) = Some i"

lemma hid_None [simp]: "hid T = None \<longleftrightarrow> T = Tip" "None = hid T \<longleftrightarrow> T = Tip"
  by (cases T; simp)+

lemma hid_notin [simp]: "i \<notin> set (ids T) \<Longrightarrow> hid T \<noteq> Some i"
  by (cases T) auto

fun hshape :: "(nat \<rightharpoonup> ('k, 'v) pnode) \<Rightarrow> nat option \<Rightarrow> ('k, 'v) rtree \<Rightarrow> bool" where
  "hshape h p Tip = True"
| "hshape h p (Nod c i l x r) =
     (h i = Some \<lparr>pn_v = x, pn_p = p, pn_l = hid l, pn_r = hid r, pn_c = c\<rparr> \<and> hshape h (Some i) l \<and> hshape h (Some i) r)"

text \<open>One step of a path upwards: the parent and its other subtree.\<close>

datatype ('k, 'v) crumb = InL color nat "'k \<times> 'v" "('k, 'v) rtree" | InR color nat "('k, 'v) rtree" "'k \<times> 'v"

fun fid :: "('k, 'v) crumb \<Rightarrow> nat" where
  "fid (InL c i x r) = i"
| "fid (InR c i l x) = i"

fun fcol :: "('k, 'v) crumb \<Rightarrow> color" where
  "fcol (InL c i x r) = c"
| "fcol (InR c i l x) = c"

fun fsib :: "('k, 'v) crumb \<Rightarrow> ('k, 'v) rtree" where
  "fsib (InL c i x r) = r"
| "fsib (InR c i l x) = l"

fun fill :: "('k, 'v) crumb \<Rightarrow> ('k, 'v) rtree \<Rightarrow> ('k, 'v) rtree" where
  "fill (InL c i x r) T = Nod c i T x r"
| "fill (InR c i l x) T = Nod c i l x T"

fun plug :: "('k, 'v) crumb list \<Rightarrow> ('k, 'v) rtree \<Rightarrow> ('k, 'v) rtree" where
  "plug [] T = T"
| "plug (f # C) T = plug C (fill f T)"

fun cpar :: "('k, 'v) crumb list \<Rightarrow> nat option" where
  "cpar [] = None"
| "cpar (f # C) = Some (fid f)"

fun croot :: "('k, 'v) crumb list \<Rightarrow> nat option \<Rightarrow> nat option" where
  "croot [] q = q"
| "croot (f # C) q = croot C (Some (fid f))"

fun cids :: "('k, 'v) crumb list \<Rightarrow> nat list" where
  "cids [] = []"
| "cids (f # C) = fid f # ids (fsib f) @ cids C"

fun cshape :: "(nat \<rightharpoonup> ('k, 'v) pnode) \<Rightarrow> ('k, 'v) crumb list \<Rightarrow> nat option \<Rightarrow> bool" where
  "cshape h [] q = True"
| "cshape h (InL c i x r # C) q =
     (h i = Some \<lparr>pn_v = x, pn_p = cpar C, pn_l = q, pn_r = hid r, pn_c = c\<rparr> \<and> hshape h (Some i) r \<and> cshape h C (Some i))"
| "cshape h (InR c i l x # C) q =
     (h i = Some \<lparr>pn_v = x, pn_p = cpar C, pn_l = hid l, pn_r = q, pn_c = c\<rparr> \<and> hshape h (Some i) l \<and> cshape h C (Some i))"

text \<open>The entries before and after the focus.\<close>

fun before :: "('k, 'v) crumb list \<Rightarrow> (nat \<times> 'k \<times> 'v) list" where
  "before [] = []"
| "before (InL c i x r # C) = before C"
| "before (InR c i l x # C) = before C @ entries l @ [(i, x)]"

fun after :: "('k, 'v) crumb list \<Rightarrow> (nat \<times> 'k \<times> 'v) list" where
  "after [] = []"
| "after (InL c i x r # C) = (i, x) # entries r @ after C"
| "after (InR c i l x # C) = after C"

lemma entries_plug: "entries (plug C T) = before C @ entries T @ after C"
proof (induction C arbitrary: T)
  case (Cons f C)
  then show ?case by (cases f) simp_all
qed simp

lemma plug_append: "plug (C @ D) T = plug D (plug C T)"
  by (induction C arbitrary: T) simp_all

lemma set_cids: "set (cids C) = fst ` set (before C) \<union> fst ` set (after C)"
proof (induction C)
  case (Cons f C)
  then show ?case by (cases f) (auto simp: ids_def)
qed simp

lemma croot_plug: "hid (plug C T) = croot C (hid T)"
proof (induction C arbitrary: T)
  case (Cons f C)
  then show ?case by (cases f) simp_all
qed simp

lemma croot_in: "C \<noteq> [] \<Longrightarrow> \<exists>i. croot C q = Some i \<and> i \<in> set (cids C)"
proof (induction C arbitrary: q)
  case (Cons f C)
  then show ?case by (cases C) auto
qed simp

lemma hshape_other [simp]: "i \<notin> set (ids T) \<Longrightarrow> hshape (h(i := v)) p T = hshape h p T"
  by (induction T arbitrary: p) auto

lemma hshape_cong: "(\<And>i. i \<in> set (ids T) \<Longrightarrow> h' i = h i) \<Longrightarrow> hshape h' p T = hshape h p T"
  by (induction T arbitrary: p) auto

lemma cshape_other [simp]: "i \<notin> set (cids C) \<Longrightarrow> cshape (h(i := v)) C q = cshape h C q"
  by (induction h C q rule: cshape.induct) auto

lemma hshape_dom: "hshape h p T \<Longrightarrow> set (ids T) \<subseteq> dom h"
proof (induction T arbitrary: p)
  case (Nod c i l x r)
  have "set (ids l) \<subseteq> dom h" "set (ids r) \<subseteq> dom h" using Nod.IH [of "Some i"] Nod.prems by simp_all
  with Nod.prems show ?case by auto
qed simp

section \<open>A focus\<close>

definition focus :: "('k, 'v) ptree \<Rightarrow> ('k, 'v) crumb list \<Rightarrow> ('k, 'v) rtree \<Rightarrow> bool" where
  "focus t C T \<longleftrightarrow> hshape (pt_heap t) (cpar C) T \<and> cshape (pt_heap t) C (hid T) \<and> distinct (ids T @ cids C) \<and>
     pt_root t = croot C (hid T) \<and> dom (pt_heap t) = set (ids T) \<union> set (cids C)"

text \<open>Moving the focus up and down.\<close>

lemma focus_up [simp]:
  "focus t (InL c i x r # C) T \<longleftrightarrow> focus t C (Nod c i T x r)" "focus t (InR c i l x # C) T \<longleftrightarrow> focus t C (Nod c i l x T)"
  by (auto simp: focus_def)

lemma focus_fill: "focus t (f # C) T \<longleftrightarrow> focus t C (fill f T)"
  by (cases f) simp_all

lemma focus_append: "focus t (D @ C) T \<longleftrightarrow> focus t C (plug D T)"
  by (induction D arbitrary: T) (simp_all add: focus_fill)

lemma focus_plug: "focus t C T \<longleftrightarrow> focus t [] (plug C T)"
  using focus_append [of t C "[]" T] by simp

lemma focus_heap: "focus t [] T \<longleftrightarrow> hshape (pt_heap t) None T \<and> distinct (ids T) \<and> pt_root t = hid T \<and> dom (pt_heap t) = set (ids T)"
  by (simp add: focus_def)

lemma focus_sz [simp]: "focus (t\<lparr>pt_sz := n\<rparr>) C T = focus t C T"
  by (simp add: focus_def)

lemma focus_node: "focus t C (Nod c i l x r) \<Longrightarrow> pt_node t (Some i) = Inr \<lparr>pn_v = x, pn_p = cpar C, pn_l = hid l, pn_r = hid r, pn_c = c\<rparr>"
  by (simp add: focus_def pt_node_def)

lemma focus_down:
  "focus t C (Nod c i l x r) \<Longrightarrow> focus t (InL c i x r # C) l" "focus t C (Nod c i l x r) \<Longrightarrow> focus t (InR c i l x # C) r"
  by simp_all

lemma focus_parent: "focus t (f # C) T \<Longrightarrow>
  pt_node t (Some (fid f)) = Inr \<lparr>pn_v = (case f of InL c i x r \<Rightarrow> x | InR c i l x \<Rightarrow> x), pn_p = cpar C,
    pn_l = (case f of InL c i x r \<Rightarrow> hid T | InR c i l x \<Rightarrow> hid l), pn_r = (case f of InL c i x r \<Rightarrow> hid r | InR c i l x \<Rightarrow> hid T),
    pn_c = fcol f\<rparr>"
  by (cases f) (simp_all add: focus_node)

lemma focus_is_red [simp]: "focus t C T \<Longrightarrow> pt_is_red t (hid T) = Inr (col T = kRed)" "focus t C T \<Longrightarrow> pt_is_black t (hid T) = Inr (col T = kBlack)"
  by (cases T; simp add: pt_is_red_def pt_is_black_def focus_node)+

lemma focus_at_root: "focus t C T \<Longrightarrow> T \<noteq> Tip \<Longrightarrow> hid T = pt_root t \<longleftrightarrow> C = []"
proof -
  assume a: "focus t C T" "T \<noteq> Tip"
  obtain i where i: "hid T = Some i" "i \<in> set (ids T)" using a(2) by (cases T) auto
  show ?thesis
  proof (cases "C = []")
    case False
    then obtain j where "croot C (hid T) = Some j" "j \<in> set (cids C)" using croot_in by blast
    with a(1) i False show ?thesis by (auto simp: focus_def)
  qed (use a in \<open>simp add: focus_def\<close>)
qed

lemma focus_sibling: "focus t (f # C) T \<Longrightarrow> T \<noteq> Tip \<Longrightarrow> hid (fsib f) \<noteq> hid T"
proof -
  assume a: "focus t (f # C) T" "T \<noteq> Tip"
  then obtain i where i: "hid T = Some i" "i \<in> set (ids T)" by (cases T) auto
  have "distinct (ids T @ fid f # ids (fsib f) @ cids C)" using a(1) unfolding focus_def by simp
  then have "i \<notin> set (ids (fsib f))" using i(2) by auto
  then show ?thesis using i(1) by simp
qed

section \<open>Assignments\<close>

text \<open>An outcome that is a tree with a property.\<close>

definition yields :: "('k, 'v) ptree result \<Rightarrow> (('k, 'v) ptree \<Rightarrow> bool) \<Rightarrow> bool" where
  "yields r P \<longleftrightarrow> (\<exists>t. r = Inr t \<and> P t)"

lemma yields_bind: "yields r P \<Longrightarrow> (\<And>t. P t \<Longrightarrow> yields (f t) Q) \<Longrightarrow> yields (rbind r f) Q"
  by (auto simp: yields_def)

lemma yieldsE: "yields r P \<Longrightarrow> (\<And>t. r = Inr t \<Longrightarrow> P t \<Longrightarrow> thesis) \<Longrightarrow> thesis"
  by (auto simp: yields_def)

text \<open>The number of entries and the address of the tree object do not change.\<close>

definition kept :: "('k, 'v) ptree \<Rightarrow> ('k, 'v) ptree \<Rightarrow> bool" where
  "kept t t' \<longleftrightarrow> pt_sz t' = pt_sz t \<and> pt_this t' = pt_this t"

lemma kept_refl [simp]: "kept t t"
  by (simp add: kept_def)

lemma kept_trans [trans]: "kept t t' \<Longrightarrow> kept t' t'' \<Longrightarrow> kept t t''"
  by (simp add: kept_def)

lemma pt_set_ok:
  assumes "pt_heap t i = Some n"
  shows "pt_set_l (Some i) x t = Inr (t\<lparr>pt_heap := (pt_heap t)(i \<mapsto> n\<lparr>pn_l := x\<rparr>)\<rparr>)"
    "pt_set_r (Some i) x t = Inr (t\<lparr>pt_heap := (pt_heap t)(i \<mapsto> n\<lparr>pn_r := x\<rparr>)\<rparr>)"
    "pt_set_p (Some i) x t = Inr (t\<lparr>pt_heap := (pt_heap t)(i \<mapsto> n\<lparr>pn_p := x\<rparr>)\<rparr>)"
    "pt_set_c (Some i) c t = Inr (t\<lparr>pt_heap := (pt_heap t)(i \<mapsto> n\<lparr>pn_c := c\<rparr>)\<rparr>)"
    "pt_node t (Some i) = Inr n"
  using assms by (simp_all add: pt_set_l_def pt_set_r_def pt_set_p_def pt_set_c_def pt_upd_def pt_node_def)

lemma paint_at:
  assumes "focus t C (Nod c i l x r)"
  shows "yields (pt_set_c (Some i) d t) (\<lambda>t'. focus t' C (Nod d i l x r) \<and> kept t t')"
  using assms by (auto simp: yields_def focus_def pt_set_ok kept_def)

section \<open>Rotations\<close>

lemma pt_set_p_if_simps: "pt_set_p_if None q t = Inr t" "pt_heap t i = Some n \<Longrightarrow> pt_set_p_if (Some i) q t = Inr (t\<lparr>pt_heap := (pt_heap t)(i \<mapsto> n\<lparr>pn_p := q\<rparr>)\<rparr>)"
  by (simp_all add: pt_set_p_if_def pt_set_ok)

lemmas pt_eval = pt_set_ok pt_set_p_if_simps pt_relink_def pt_replace_child_def

lemma rotate_left_at:
  assumes "focus t C (Nod c i l x (Nod d j a y r))"
  shows "yields (rotate_left (Some i) t) (\<lambda>t'. focus t' C (Nod d j (Nod c i l x a) y r) \<and> kept t t')"
proof (cases C)
  case Nil
  with assms show ?thesis
    by (cases a) (auto simp: rotate_left_def yields_def focus_def pt_eval kept_def Let_def)
next
  case (Cons f D)
  with assms show ?thesis
    by (cases a; cases f) (auto simp: rotate_left_def yields_def focus_def pt_eval kept_def Let_def)
qed

lemma rotate_right_at:
  assumes "focus t C (Nod c i (Nod d j l y a) x r)"
  shows "yields (rotate_right (Some i) t) (\<lambda>t'. focus t' C (Nod d j l y (Nod c i a x r)) \<and> kept t t')"
proof (cases C)
  case Nil
  with assms show ?thesis
    by (cases a) (auto simp: rotate_right_def yields_def focus_def pt_eval kept_def Let_def)
next
  case (Cons f D)
  with assms show ?thesis
    by (cases a; cases f) (auto simp: rotate_right_def yields_def focus_def pt_eval kept_def Let_def)
qed

end
