(* ===== verification/Heap_Iterate.thy ===== *)
theory Heap_Iterate
  imports Heap_Focus
begin

text \<open>
  Searching a tree of \<open>Heap_RBTree\<close> and moving its iterators, forwards and backwards, through the
  entries in order.
\<close>

section \<open>Neighbours\<close>

fun first_addr :: "(nat \<times> 'a) list \<Rightarrow> nat option" where
  "first_addr [] = None"
| "first_addr (e # es) = Some (fst e)"

definition last_addr :: "(nat \<times> 'a) list \<Rightarrow> nat option" where
  "last_addr es = first_addr (rev es)"

lemma first_addr_append: "first_addr (xs @ ys) = (if xs = [] then first_addr ys else first_addr xs)"
  by (cases xs) simp_all

lemma last_addr_append: "last_addr (xs @ ys) = (if ys = [] then last_addr xs else last_addr ys)"
  by (simp add: last_addr_def first_addr_append)

lemma last_addr_simps [simp]: "last_addr [] = None" "last_addr [e] = Some (fst e)"
  by (simp_all add: last_addr_def)

lemma pt_down_l_at: "focus t C T \<Longrightarrow> T \<noteq> Tip \<Longrightarrow> pt_down_l t (hid T) = Some (Inr (first_addr (entries T)))"
proof (induction T arbitrary: C)
  case (Nod c i l x r)
  have "pt_down_l t (Some i) = (if l \<noteq> Tip then pt_down_l t (hid l) else Some (Inr (Some i)))"
    using focus_node [OF Nod.prems(1)] by (subst pt_down_l.simps) simp
  with Nod.IH(1) [OF focus_down(1) [OF Nod.prems(1)]] show ?case by (simp add: first_addr_append)
qed simp

lemma pt_down_r_at: "focus t C T \<Longrightarrow> T \<noteq> Tip \<Longrightarrow> pt_down_r t (hid T) = Some (Inr (last_addr (entries T)))"
proof (induction T arbitrary: C)
  case (Nod c i l x r)
  have "pt_down_r t (Some i) = (if r \<noteq> Tip then pt_down_r t (hid r) else Some (Inr (Some i)))"
    using focus_node [OF Nod.prems(1)] by (subst pt_down_r.simps) simp
  with Nod.IH(2) [OF focus_down(2) [OF Nod.prems(1)]] show ?case
    using last_addr_append [of "entries l" "(i, x) # entries r"] last_addr_append [of "[(i, x)]" "entries r"] by simp
qed simp

lemma pt_up_r_at: "focus t C T \<Longrightarrow> T \<noteq> Tip \<Longrightarrow> pt_up_r t (hid T) (cpar C) = Some (Inr (first_addr (after C)))"
proof (induction C arbitrary: T)
  case Nil
  then show ?case by (simp add: pt_up_r.simps)
next
  case (Cons f C)
  have up: "focus t C (fill f T)" "fill f T \<noteq> Tip" "hid (fill f T) = Some (fid f)"
    using Cons.prems(1) by (cases f; simp add: focus_fill)+
  have "pt_up_r t (hid T) (Some (fid f)) =
      (if (case f of InL c i x r \<Rightarrow> hid r | InR c i l x \<Rightarrow> hid T) = hid T then pt_up_r t (Some (fid f)) (cpar C) else Some (Inr (Some (fid f))))"
    using focus_parent [OF Cons.prems(1)] by (subst pt_up_r.simps) simp
  moreover have "hid (fsib f) \<noteq> hid T" by (rule focus_sibling [OF Cons.prems])
  ultimately show ?case using Cons.IH [OF up(1,2)] up(3) by (cases f) auto
qed

lemma pt_up_l_at: "focus t C T \<Longrightarrow> T \<noteq> Tip \<Longrightarrow> pt_up_l t (hid T) (cpar C) = Some (Inr (last_addr (before C)))"
proof (induction C arbitrary: T)
  case Nil
  then show ?case by (simp add: pt_up_l.simps)
next
  case (Cons f C)
  have up: "focus t C (fill f T)" "fill f T \<noteq> Tip" "hid (fill f T) = Some (fid f)"
    using Cons.prems(1) by (cases f; simp add: focus_fill)+
  have "pt_up_l t (hid T) (Some (fid f)) =
      (if (case f of InL c i x r \<Rightarrow> hid T | InR c i l x \<Rightarrow> hid l) = hid T then pt_up_l t (Some (fid f)) (cpar C) else Some (Inr (Some (fid f))))"
    using focus_parent [OF Cons.prems(1)] by (subst pt_up_l.simps) simp
  moreover have "hid (fsib f) \<noteq> hid T" by (rule focus_sibling [OF Cons.prems])
  ultimately show ?case using Cons.IH [OF up(1,2)] up(3) by (cases f) (auto simp: last_addr_append)
qed

lemma successor_at: "focus t C (Nod c i l x r) \<Longrightarrow> successor t (Some i) = Some (Inr (first_addr (entries r @ after C)))"
  using pt_down_l_at [OF focus_down(2), of t C c i l x r] pt_up_r_at [of t C "Nod c i l x r"]
  by (simp add: successor_def focus_node first_addr_append)

lemma predecessor_at: "focus t C (Nod c i l x r) \<Longrightarrow> predecessor t (Some i) = Some (Inr (last_addr (before C @ entries l)))"
  using pt_down_r_at [OF focus_down(1), of t C c i l x r] pt_up_l_at [of t C "Nod c i l x r"]
  by (simp add: predecessor_def focus_node last_addr_append)

lemma pt_min_at: "focus t [] T \<Longrightarrow> pt_min t = Some (Inr (first_addr (entries T)))"
  using pt_down_l_at [of t "[]" T] by (cases T) (simp_all add: pt_min_def focus_heap)

lemma pt_max_at: "focus t [] T \<Longrightarrow> pt_max t = Some (Inr (last_addr (entries T)))"
  using pt_down_r_at [of t "[]" T] by (cases T) (simp_all add: pt_max_def focus_heap)

text \<open>Every entry can be focused.\<close>

lemma focus_entry:
  assumes "focus t D T" "entries T = xs @ (i, x) # ys"
  shows "\<exists>C c l r. focus t (C @ D) (Nod c i l x r) \<and> plug C (Nod c i l x r) = T \<and> xs = before C @ entries l \<and> ys = entries r @ after C"
  using assms
proof (induction T arbitrary: D xs ys)
  case (Nod c j l y r)
  have "entries l @ (j, y) # entries r = xs @ (i, x) # ys" using Nod.prems(2) by simp
  then consider us where "entries l = xs @ (i, x) # us" "ys = us @ (j, y) # entries r" | "xs = entries l" "i = j" "x = y" "ys = entries r"
    | us where "entries r = us @ (i, x) # ys" "xs = entries l @ (j, y) # us"
    by (auto simp: append_eq_append_conv2 append_eq_Cons_conv Cons_eq_append_conv)
  then show ?case
  proof cases
    case 1
    obtain C c' l' r' where "focus t (C @ InL c j y r # D) (Nod c' i l' x r')" "plug C (Nod c' i l' x r') = l" "xs = before C @ entries l'" "us = entries r' @ after C"
      using Nod.IH(1) [OF focus_down(1) [OF Nod.prems(1)] 1(1)] by blast
    moreover have "before (C @ [InL c j y r]) = before C" "after (C @ [InL c j y r]) = after C @ (j, y) # entries r"
      by (induction C rule: before.induct) simp_all
    ultimately show ?thesis using 1(2)
      by (intro exI [of _ "C @ [InL c j y r]"] exI [of _ c'] exI [of _ l'] exI [of _ r']) (simp add: plug_append)
  next
    case 2
    then show ?thesis using Nod.prems(1) by (intro exI [of _ "[]"] exI [of _ c] exI [of _ l] exI [of _ r]) simp
  next
    case 3
    obtain C c' l' r' where "focus t (C @ InR c j l y # D) (Nod c' i l' x r')" "plug C (Nod c' i l' x r') = r" "us = before C @ entries l'" "ys = entries r' @ after C"
      using Nod.IH(2) [OF focus_down(2) [OF Nod.prems(1)] 3(1)] by blast
    moreover have "before (C @ [InR c j l y]) = entries l @ (j, y) # before C" "after (C @ [InR c j l y]) = after C"
      by (induction C rule: before.induct) simp_all
    ultimately show ?thesis using 3(2)
      by (intro exI [of _ "C @ [InR c j l y]"] exI [of _ c'] exI [of _ l'] exI [of _ r']) (simp add: plug_append)
  qed
qed simp

section \<open>Iteration\<close>

text \<open>The loop of a client: from \<open>begin()\<close>, \<open>++\<close> until \<open>end()\<close>, or backwards with \<open>--\<close>.\<close>

partial_function (option) pt_walk :: "('k, 'v) ptree \<Rightarrow> pt_iter \<Rightarrow> ('k \<times> 'v) list run" where
  [code]: "pt_walk t it =
     (if pt_iter_eq it (pt_end t) then Some (Inr [])
      else fbind (Some (pt_iter_deref t it)) (\<lambda>x.
        fbind (pt_iter_next t it) (\<lambda>it1. fbind (pt_walk t it1) (\<lambda>xs. Some (Inr (x # xs))))))"

partial_function (option) pt_walk_back :: "('k, 'v) ptree \<Rightarrow> pt_iter \<Rightarrow> ('k \<times> 'v) list run" where
  [code]: "pt_walk_back t it =
     (if pt_iter_eq it (pt_end t) then Some (Inr [])
      else fbind (Some (pt_iter_deref t it)) (\<lambda>x.
        fbind (pt_iter_prev t it) (\<lambda>it1. fbind (pt_walk_back t it1) (\<lambda>xs. Some (Inr (x # xs))))))"

lemma iter_simps [simp]: "it_tree (pt_iter_at t n) = Some (pt_this t)" "it_node (pt_iter_at t n) = n" "(pt_iter_at t n)\<lparr>it_node := m\<rparr> = pt_iter_at t m"
  "pt_iter_eq (pt_iter_at t n) (pt_end t) \<longleftrightarrow> n = None"
  by (simp_all add: pt_iter_at_def pt_iter_eq_def pt_end_def)

lemma pt_walk_at: "focus t [] T \<Longrightarrow> entries T = xs @ ys \<Longrightarrow> pt_walk t (pt_iter_at t (first_addr ys)) = Some (Inr (map snd ys))"
proof (induction ys arbitrary: xs)
  case Nil
  then show ?case by (simp add: pt_walk.simps)
next
  case (Cons e ys)
  obtain i x where e: "e = (i, x)" by (cases e)
  obtain C c l r where f: "focus t C (Nod c i l x r)" "ys = entries r @ after C"
    using focus_entry [OF Cons.prems(1), of xs i x ys] Cons.prems(2) e by auto
  have "pt_walk t (pt_iter_at t (first_addr ys)) = Some (Inr (map snd ys))" using Cons.IH [of "xs @ [e]"] Cons.prems by simp
  then show ?case
    by (subst pt_walk.simps) (simp add: e pt_iter_deref_def focus_node [OF f(1)] pt_iter_next_def successor_at [OF f(1)] f(2) [symmetric])
qed

lemma pt_walk_back_at: "focus t [] T \<Longrightarrow> entries T = xs @ ys \<Longrightarrow> pt_walk_back t (pt_iter_at t (last_addr xs)) = Some (Inr (rev (map snd xs)))"
proof (induction xs arbitrary: ys rule: rev_induct)
  case Nil
  then show ?case by (simp add: pt_walk_back.simps)
next
  case (snoc e xs)
  obtain i x where e: "e = (i, x)" by (cases e)
  obtain C c l r where f: "focus t C (Nod c i l x r)" "xs = before C @ entries l"
    using focus_entry [OF snoc.prems(1), of xs i x ys] snoc.prems(2) e by auto
  have "pt_walk_back t (pt_iter_at t (last_addr xs)) = Some (Inr (rev (map snd xs)))" using snoc.IH [of "e # ys"] snoc.prems by simp
  then show ?case
    by (subst pt_walk_back.simps)
      (simp add: e last_addr_append pt_iter_deref_def focus_node [OF f(1)] pt_iter_prev_def predecessor_at [OF f(1)] f(2) [symmetric])
qed

section \<open>Searching\<close>

definition holds_key :: "'k \<Rightarrow> (nat \<times> 'k \<times> 'v) list \<Rightarrow> nat option" where
  "holds_key k es = first_addr (filter (\<lambda>e. fst (snd e) = k) es)"

lemma holds_key_simps [simp]: "holds_key k [] = None" "holds_key k ((i, x) # es) = (if fst x = k then Some i else holds_key k es)"
  by (simp_all add: holds_key_def)

lemma holds_key_append: "holds_key k (xs @ ys) = (if k \<in> fst ` snd ` set xs then holds_key k xs else holds_key k ys)"
  by (induction xs) (auto simp: holds_key_def)

lemma holds_key_absent: "k \<notin> fst ` snd ` set es \<Longrightarrow> holds_key k es = None"
  by (induction es) auto

lemma keys_set: "set (keys T) = fst ` snd ` set (entries T)"
  by (simp add: keys_def image_comp)

text \<open>A strictly sorted list of entries is searched from the middle.\<close>

lemma holds_key_middle:
  fixes k :: "'k::linorder"
  assumes "sorted_wrt (<) (map (fst \<circ> snd) (xs @ (i, x) # ys))"
  shows "holds_key k (xs @ (i, x) # ys) = (if k < fst x then holds_key k xs else if fst x < k then holds_key k ys else Some i)"
proof -
  have "\<forall>e\<in>set xs. fst (snd e) < fst x" "\<forall>e\<in>set ys. fst x < fst (snd e)" using assms by (auto simp: sorted_wrt_append)
  then have out: "\<not> k < fst x \<Longrightarrow> k \<notin> fst ` snd ` set xs" "\<not> fst x < k \<Longrightarrow> k \<notin> fst ` snd ` set ys" by auto
  show ?thesis
  proof (cases "k < fst x")
    case True
    then have "\<not> fst x < k" by simp
    from holds_key_absent [OF out(2) [OF this]] True show ?thesis by (auto simp: holds_key_append holds_key_absent)
  next
    case False
    from out(1) [OF this] False show ?thesis by (auto simp: holds_key_append)
  qed
qed

lemma pt_find_loop_shape:
  fixes k :: "'k::linorder"
  assumes "hshape (pt_heap t) p T" "sorted_wrt (<) (keys T)"
  shows "pt_find_loop (<) t k (hid T) = Some (Inr (holds_key k (entries T)))"
  using assms
proof (induction T arbitrary: p)
  case Tip
  then show ?case by (simp add: pt_find_loop.simps)
next
  case (Nod c i l x r)
  have "sorted_wrt (<) (keys l)" "sorted_wrt (<) (keys r)" using Nod.prems(2) by (auto simp: sorted_wrt_append)
  then have sub: "pt_find_loop (<) t k (hid l) = Some (Inr (holds_key k (entries l)))" "pt_find_loop (<) t k (hid r) = Some (Inr (holds_key k (entries r)))"
    using Nod.IH [of "Some i"] Nod.prems(1) by simp_all
  have "pt_find_loop (<) t k (Some i) = (if k < fst x then pt_find_loop (<) t k (hid l) else if fst x < k then pt_find_loop (<) t k (hid r) else Some (Inr (Some i)))"
    using Nod.prems(1) by (subst pt_find_loop.simps) (auto simp: pt_node_def Let_def)
  then show ?case using holds_key_middle [of "entries l" i x "entries r" k] Nod.prems(2) sub by (simp add: keys_def)
qed

end
