(* ===== verification/Heap_Insert.thy ===== *)
theory Heap_Insert
  imports Heap_Iterate Ordered_Map
begin

text \<open>
  Insertion into a tree of \<open>Heap_RBTree\<close>: the search for the place, the loop that repairs the colours
  from there upwards, and what the whole operation does.
\<close>

section \<open>Red-black trees\<close>

fun rbi :: "('k, 'v) rtree \<Rightarrow> bool" where
  "rbi Tip = True"
| "rbi (Nod c i l x r) \<longleftrightarrow> rbi l \<and> rbi r \<and> bh l = bh r \<and> (c = kRed \<longrightarrow> col l = kBlack \<and> col r = kBlack)"

text \<open>
  A path that makes a red-black tree with a black root of any subtree of black height \<open>n\<close> in its
  focus, as long as a red one is below a black node.
\<close>

fun cfirst :: "('k, 'v) crumb list \<Rightarrow> color" where
  "cfirst [] = kRed"
| "cfirst (f # C) = fcol f"

fun fits :: "('k, 'v) crumb list \<Rightarrow> nat \<Rightarrow> bool" where
  "fits [] n = True"
| "fits (f # C) n \<longleftrightarrow> rbi (fsib f) \<and> bh (fsib f) = n \<and> (fcol f = kRed \<longrightarrow> col (fsib f) = kBlack \<and> cfirst C = kBlack) \<and>
     fits C (n + (if fcol f = kBlack then 1 else 0))"

lemma rbi_plug:
  "rbi (plug C T) \<and> col (plug C T) = kBlack \<longleftrightarrow> rbi T \<and> fits C (bh T) \<and> (col T = kRed \<longrightarrow> cfirst C = kBlack)"
proof (induction C arbitrary: T)
  case Nil
  show ?case by (cases "col T") auto
next
  case (Cons f C)
  show ?case by (cases f) (auto simp: Cons.IH)
qed

lemma paint_black: "col T = kBlack \<Longrightarrow> paint kBlack T = T"
  by (cases T) simp_all

section \<open>Colours around the focus\<close>

fun fpaint :: "color \<Rightarrow> ('k, 'v) crumb \<Rightarrow> ('k, 'v) crumb" where
  "fpaint d (InL c i x r) = InL d i x r"
| "fpaint d (InR c i l x) = InR d i l x"

fun fpaint_sib :: "color \<Rightarrow> ('k, 'v) crumb \<Rightarrow> ('k, 'v) crumb" where
  "fpaint_sib d (InL c i x r) = InL c i x (paint d r)"
| "fpaint_sib d (InR c i l x) = InR c i (paint d l) x"

lemma fpaint_simps [simp]:
  "fid (fpaint d f) = fid f" "fcol (fpaint d f) = d" "fsib (fpaint d f) = fsib f"
  "fid (fpaint_sib d f) = fid f" "fcol (fpaint_sib d f) = fcol f" "fsib (fpaint_sib d f) = paint d (fsib f)"
  "fill (fpaint d f) T = paint d (fill f T)"
  by (cases f; simp)+

lemma paint_below: "focus t C T \<Longrightarrow> T \<noteq> Tip \<Longrightarrow> yields (pt_set_c (hid T) d t) (\<lambda>t'. focus t' C (paint d T) \<and> kept t t')"
  using paint_at by (cases T) auto

lemma paint_parent: "focus t (f # C) T \<Longrightarrow> yields (pt_set_c (Some (fid f)) d t) (\<lambda>t'. focus t' (fpaint d f # C) T \<and> kept t t')"
  using paint_below [of t C "fill f T" d] by (cases f) (simp_all add: focus_fill)

lemma paint_sibling: "focus t (f # C) T \<Longrightarrow> fsib f \<noteq> Tip \<Longrightarrow> yields (pt_set_c (hid (fsib f)) d t) (\<lambda>t'. focus t' (fpaint_sib d f # C) T \<and> kept t t')"
proof (cases f)
  case (InL c i x r)
  assume "focus t (f # C) T" "fsib f \<noteq> Tip"
  with InL show ?thesis using paint_below [of t "InR c i T x # C" r d] by simp
next
  case (InR c i l x)
  assume "focus t (f # C) T" "fsib f \<noteq> Tip"
  with InR show ?thesis using paint_below [of t "InL c i x T # C" l d] by simp
qed

lemma paint_grandparent: "focus t (f # g # C) T \<Longrightarrow> yields (pt_set_c (Some (fid g)) d t) (\<lambda>t'. focus t' (f # fpaint d g # C) T \<and> kept t t')"
  using paint_parent [of t g C "fill f T" d] by (simp add: focus_fill)

lemma paint_uncle: "focus t (f # g # C) T \<Longrightarrow> fsib g \<noteq> Tip \<Longrightarrow> yields (pt_set_c (hid (fsib g)) d t) (\<lambda>t'. focus t' (f # fpaint_sib d g # C) T \<and> kept t t')"
  using paint_sibling [of t g C "fill f T" d] by (simp add: focus_fill)

lemma focus_sib:
  assumes "focus t (f # C) T"
  obtains D where "focus t D (fsib f)" "cpar D = Some (fid f)"
proof (cases f)
  case (InL c i x r)
  with assms show thesis by (intro that [of "InR c i T x # C"]) simp_all
next
  case (InR c i l x)
  with assms show thesis by (intro that [of "InL c i x T # C"]) simp_all
qed

lemma focus_sib_red: "focus t (f # C) T \<Longrightarrow> pt_is_red t (hid (fsib f)) = Inr (col (fsib f) = kRed)"
  "focus t (f # C) T \<Longrightarrow> pt_is_black t (hid (fsib f)) = Inr (col (fsib f) = kBlack)"
  using focus_is_red by (metis focus_sib)+

section \<open>One round of the repair\<close>

lemma focus_grandparent: "focus t (f # g # C) T \<Longrightarrow>
  \<exists>n. pt_node t (Some (fid g)) = Inr n \<and> pn_p n = cpar C \<and> pn_c n = fcol g \<and>
    (if pn_l n = Some (fid f) then pn_r n else pn_l n) = hid (fsib g)"
proof -
  assume a: "focus t (f # g # C) T"
  then have up: "focus t (g # C) (fill f T)" "fill f T \<noteq> Tip" "hid (fill f T) = Some (fid f)"
    by (cases f; simp add: focus_fill)+
  have "hid (fsib g) \<noteq> Some (fid f)" using focus_sibling [OF up(1,2)] up(3) by simp
  then show ?thesis using focus_parent [OF up(1)] up(3) by (cases g) auto
qed

lemma insert_recolor_at:
  assumes "focus t (f # g # C) T" "fcol g = kBlack" "fsib g \<noteq> Tip"
  shows "yields (insert_recolor (Some (fid f)) (hid (fsib g)) (Some (fid g)) t)
    (\<lambda>t'. focus t' C (fill (fpaint kRed (fpaint_sib kBlack g)) (fill (fpaint kBlack f) T)) \<and> kept t t')"
proof -
  obtain n where n: "pt_node t (Some (fid g)) = Inr n" "pn_c n = kBlack" using focus_grandparent [OF assms(1)] assms(2) by auto
  have "yields (rbind (pt_set_c (Some (fid g)) kRed t) (\<lambda>t1. rbind (pt_set_c (Some (fid f)) kBlack t1) (pt_set_c (hid (fsib g)) kBlack)))
    (\<lambda>t'. focus t' C (fill (fpaint kRed (fpaint_sib kBlack g)) (fill (fpaint kBlack f) T)) \<and> kept t t')"
  proof (rule yields_bind [OF paint_grandparent [OF assms(1)]], rule yields_bind [OF paint_parent], blast)
    fix t1 t2 assume a: "focus t1 (f # fpaint kRed g # C) T \<and> kept t t1" "focus t2 (fpaint kBlack f # fpaint kRed g # C) T \<and> kept t1 t2"
    then show "yields (pt_set_c (hid (fsib g)) kBlack t2) (\<lambda>t'. focus t' C (fill (fpaint kRed (fpaint_sib kBlack g)) (fill (fpaint kBlack f) T)) \<and> kept t t')"
      using paint_uncle [of t2 "fpaint kBlack f" "fpaint kRed g" C T kBlack] assms(3)
      by (cases g) (auto simp: yields_def focus_fill kept_def)
  qed
  with n show ?thesis by (simp add: insert_recolor_def)
qed

text \<open>The last steps of a rotation: the node below takes the colour of the upper one, which turns red and goes down.\<close>

lemma turn_right:
  assumes "focus t C (Nod c g (Nod d q a y b) z s)"
  shows "yields (rbind (pt_node t (Some g)) (\<lambda>n. rbind (pt_set_c (Some q) (pn_c n) t) (\<lambda>t5. rbind (pt_set_c (Some g) kRed t5) (rotate_right (Some g)))))
    (\<lambda>t'. focus t' C (Nod c q a y (Nod kRed g b z s)) \<and> kept t t')"
proof -
  have "yields (rbind (pt_set_c (Some q) c t) (\<lambda>t5. rbind (pt_set_c (Some g) kRed t5) (rotate_right (Some g))))
    (\<lambda>t'. focus t' C (Nod c q a y (Nod kRed g b z s)) \<and> kept t t')"
  proof (rule yields_bind [OF paint_at [of t "InL c g z s # C"]])
    show "focus t (InL c g z s # C) (Nod d q a y b)" using assms(1) by simp
    fix t5 assume t5: "focus t5 (InL c g z s # C) (Nod c q a y b) \<and> kept t t5"
    show "yields (rbind (pt_set_c (Some g) kRed t5) (rotate_right (Some g))) (\<lambda>t'. focus t' C (Nod c q a y (Nod kRed g b z s)) \<and> kept t t')"
    proof (rule yields_bind [OF paint_at [of t5 C]])
      show "focus t5 C (Nod c g (Nod c q a y b) z s)" using t5 by simp
      fix t6 assume "focus t6 C (Nod kRed g (Nod c q a y b) z s) \<and> kept t5 t6"
      then show "yields (rotate_right (Some g) t6) (\<lambda>t'. focus t' C (Nod c q a y (Nod kRed g b z s)) \<and> kept t t')"
        using rotate_right_at [of t6 C kRed g c q a y b z s] t5 by (auto simp: yields_def kept_def)
    qed
  qed
  with focus_node [OF assms] show ?thesis by simp
qed

lemma turn_left:
  assumes "focus t C (Nod c g s z (Nod d q b y a))"
  shows "yields (rbind (pt_node t (Some g)) (\<lambda>n. rbind (pt_set_c (Some q) (pn_c n) t) (\<lambda>t5. rbind (pt_set_c (Some g) kRed t5) (rotate_left (Some g)))))
    (\<lambda>t'. focus t' C (Nod c q (Nod kRed g s z b) y a) \<and> kept t t')"
proof -
  have "yields (rbind (pt_set_c (Some q) c t) (\<lambda>t5. rbind (pt_set_c (Some g) kRed t5) (rotate_left (Some g))))
    (\<lambda>t'. focus t' C (Nod c q (Nod kRed g s z b) y a) \<and> kept t t')"
  proof (rule yields_bind [OF paint_at [of t "InR c g s z # C"]])
    show "focus t (InR c g s z # C) (Nod d q b y a)" using assms(1) by simp
    fix t5 assume t5: "focus t5 (InR c g s z # C) (Nod c q b y a) \<and> kept t t5"
    show "yields (rbind (pt_set_c (Some g) kRed t5) (rotate_left (Some g))) (\<lambda>t'. focus t' C (Nod c q (Nod kRed g s z b) y a) \<and> kept t t')"
    proof (rule yields_bind [OF paint_at [of t5 C]])
      show "focus t5 C (Nod c g s z (Nod c q b y a))" using t5 by simp
      fix t6 assume "focus t6 C (Nod kRed g s z (Nod c q b y a)) \<and> kept t5 t6"
      then show "yields (rotate_left (Some g) t6) (\<lambda>t'. focus t' C (Nod c q (Nod kRed g s z b) y a) \<and> kept t t')"
        using rotate_left_at [of t6 C kRed g s z c q b y a] t5 by (auto simp: yields_def kept_def)
    qed
  qed
  with focus_node [OF assms] show ?thesis by simp
qed

text \<open>The first steps, when the node is between its parent and its grandparent.\<close>

lemma straighten_left:
  assumes "focus t C (Nod d p a y (Nod e i l x r))"
  shows "yields (rbind (pt_set_c (Some i) d t) (\<lambda>t1. rbind (pt_set_c (Some p) kRed t1) (rotate_left (Some p))))
    (\<lambda>t'. focus t' C (Nod d i (Nod kRed p a y l) x r) \<and> kept t t')"
proof (rule yields_bind [OF paint_at [of t "InR d p a y # C"]])
  show "focus t (InR d p a y # C) (Nod e i l x r)" using assms by simp
  fix t1 assume t1: "focus t1 (InR d p a y # C) (Nod d i l x r) \<and> kept t t1"
  show "yields (rbind (pt_set_c (Some p) kRed t1) (rotate_left (Some p))) (\<lambda>t'. focus t' C (Nod d i (Nod kRed p a y l) x r) \<and> kept t t')"
  proof (rule yields_bind [OF paint_at [of t1 C]])
    show "focus t1 C (Nod d p a y (Nod d i l x r))" using t1 by simp
    fix t2 assume "focus t2 C (Nod kRed p a y (Nod d i l x r)) \<and> kept t1 t2"
    then show "yields (rotate_left (Some p) t2) (\<lambda>t'. focus t' C (Nod d i (Nod kRed p a y l) x r) \<and> kept t t')"
      using rotate_left_at [of t2 C kRed p a y d i l x r] t1 by (auto simp: yields_def kept_def)
  qed
qed

lemma straighten_right:
  assumes "focus t C (Nod d p (Nod e i l x r) y a)"
  shows "yields (rbind (pt_set_c (Some i) d t) (\<lambda>t1. rbind (pt_set_c (Some p) kRed t1) (rotate_right (Some p))))
    (\<lambda>t'. focus t' C (Nod d i l x (Nod kRed p r y a)) \<and> kept t t')"
proof (rule yields_bind [OF paint_at [of t "InL d p y a # C"]])
  show "focus t (InL d p y a # C) (Nod e i l x r)" using assms by simp
  fix t1 assume t1: "focus t1 (InL d p y a # C) (Nod d i l x r) \<and> kept t t1"
  show "yields (rbind (pt_set_c (Some p) kRed t1) (rotate_right (Some p))) (\<lambda>t'. focus t' C (Nod d i l x (Nod kRed p r y a)) \<and> kept t t')"
  proof (rule yields_bind [OF paint_at [of t1 C]])
    show "focus t1 C (Nod d p (Nod d i l x r) y a)" using t1 by simp
    fix t2 assume "focus t2 C (Nod kRed p (Nod d i l x r) y a) \<and> kept t1 t2"
    then show "yields (rotate_right (Some p) t2) (\<lambda>t'. focus t' C (Nod d i l x (Nod kRed p r y a)) \<and> kept t t')"
      using rotate_right_at [of t2 C kRed p d i l x r y a] t1 by (auto simp: yields_def kept_def)
  qed
qed

text \<open>What \<open>insert_rotate\<close> makes of the three nodes.\<close>

fun rebalanced :: "('k, 'v) crumb \<Rightarrow> ('k, 'v) crumb \<Rightarrow> ('k, 'v) rtree \<Rightarrow> ('k, 'v) rtree" where
  "rebalanced (InL d p y b) (InL c g z s) T = Nod c p T y (Nod kRed g b z s)"
| "rebalanced (InR d p a y) (InL c g z s) (Nod e i l x r) = Nod c i (Nod kRed p a y l) x (Nod kRed g r z s)"
| "rebalanced (InR d p b y) (InR c g s z) T = Nod c p (Nod kRed g s z b) y T"
| "rebalanced (InL d p y a) (InR c g s z) (Nod e i l x r) = Nod c i (Nod kRed g s z l) x (Nod kRed p r y a)"
| "rebalanced f g Tip = Tip"

lemma insert_rotate_at:
  assumes "focus t (f # g # C) T" "T = Nod e i l x r"
  shows "yields (insert_rotate (Some i) (Some (fid f)) (Some (fid g)) t) (\<lambda>t'. focus t' C (rebalanced f g T) \<and> kept t t')"
proof -
  have T: "T \<noteq> Tip" "hid T = Some i" using assms(2) by auto
  have up: "focus t (g # C) (fill f T)" "fill f T \<noteq> Tip" "hid (fill f T) = Some (fid f)" using assms(1) by (cases f; simp add: focus_fill)+
  have sib: "hid (fsib f) \<noteq> Some i" "hid (fsib g) \<noteq> Some (fid f)" using focus_sibling [OF assms(1) T(1)] focus_sibling [OF up(1,2)] T(2) up(3) by simp_all
  note n = focus_parent [OF assms(1)] focus_parent [OF up(1)]
  show ?thesis
  proof (cases g; cases f)
    fix c gi z s d p y b assume fg: "g = InL c gi z s" "f = InL d p y b"
    then show ?thesis using turn_right [of t C c gi d p T y b z s] assms(1) n sib T(2) by (simp add: insert_rotate_def)
  next
    fix c gi z s d p a y assume fg: "g = InL c gi z s" "f = InR d p a y"
    have "yields (rbind (rbind (pt_set_c (Some i) d t) (\<lambda>t1. rbind (pt_set_c (Some p) kRed t1) (rotate_left (Some p))))
        (\<lambda>t4. rbind (pt_node t4 (Some gi)) (\<lambda>n. rbind (pt_set_c (Some i) (pn_c n) t4) (\<lambda>t5. rbind (pt_set_c (Some gi) kRed t5) (rotate_right (Some gi))))))
      (\<lambda>t'. focus t' C (rebalanced f g T) \<and> kept t t')"
    proof (rule yields_bind [OF straighten_left [of t "InL c gi z s # C" d p a y e i l x r]])
      show "focus t (InL c gi z s # C) (Nod d p a y (Nod e i l x r))" using assms fg by simp
      fix t4 assume t4: "focus t4 (InL c gi z s # C) (Nod d i (Nod kRed p a y l) x r) \<and> kept t t4"
      then show "yields (rbind (pt_node t4 (Some gi)) (\<lambda>n. rbind (pt_set_c (Some i) (pn_c n) t4) (\<lambda>t5. rbind (pt_set_c (Some gi) kRed t5) (rotate_right (Some gi)))))
          (\<lambda>t'. focus t' C (rebalanced f g T) \<and> kept t t')"
        using turn_right [of t4 C c gi d i "Nod kRed p a y l" x r z s] by (auto simp: fg assms(2) yields_def kept_def)
    qed
    then show ?thesis using fg n sib T(2) by (simp add: insert_rotate_def rbind_assoc)
  next
    fix c gi z s d p y a assume fg: "g = InR c gi s z" "f = InL d p y a"
    have "yields (rbind (rbind (pt_set_c (Some i) d t) (\<lambda>t1. rbind (pt_set_c (Some p) kRed t1) (rotate_right (Some p))))
        (\<lambda>t4. rbind (pt_node t4 (Some gi)) (\<lambda>n. rbind (pt_set_c (Some i) (pn_c n) t4) (\<lambda>t5. rbind (pt_set_c (Some gi) kRed t5) (rotate_left (Some gi))))))
      (\<lambda>t'. focus t' C (rebalanced f g T) \<and> kept t t')"
    proof (rule yields_bind [OF straighten_right [of t "InR c gi s z # C" d p e i l x r y a]])
      show "focus t (InR c gi s z # C) (Nod d p (Nod e i l x r) y a)" using assms fg by simp
      fix t4 assume t4: "focus t4 (InR c gi s z # C) (Nod d i l x (Nod kRed p r y a)) \<and> kept t t4"
      then show "yields (rbind (pt_node t4 (Some gi)) (\<lambda>n. rbind (pt_set_c (Some i) (pn_c n) t4) (\<lambda>t5. rbind (pt_set_c (Some gi) kRed t5) (rotate_left (Some gi)))))
          (\<lambda>t'. focus t' C (rebalanced f g T) \<and> kept t t')"
        using turn_left [of t4 C c gi s z d i l x "Nod kRed p r y a"] by (auto simp: fg assms(2) yields_def kept_def)
    qed
    then show ?thesis using fg n sib T(2) by (simp add: insert_rotate_def rbind_assoc)
  next
    fix c gi z s d p b y assume fg: "g = InR c gi s z" "f = InR d p b y"
    then show ?thesis using turn_left [of t C c gi s z d p b y T] assms(1) n sib T(2) by (simp add: insert_rotate_def)
  qed
qed

section \<open>The repair\<close>

lemma rebalanced_entries: "T = Nod e i l x r \<Longrightarrow> entries (rebalanced f g T) = entries (fill g (fill f T))"
  by (cases f; cases g) simp_all

lemma rebalanced_rbi:
  assumes "rbi T" "T = Nod kRed i l x r" "fits (f # g # C) (bh T)" "fcol f = kRed" "col (fsib g) = kBlack"
  shows "rbi (rebalanced f g T)" "bh (rebalanced f g T) = Suc (bh T)" "col (rebalanced f g T) = kBlack" "fits C (Suc (bh T))"
  using assms by (cases f; cases g; auto)+

lemma recolored_rbi:
  assumes "rbi T" "T = Nod kRed i l x r" "fits (f # g # C) (bh T)" "fcol f = kRed" "col (fsib g) = kRed"
  defines "U \<equiv> fill (fpaint kRed (fpaint_sib kBlack g)) (fill (fpaint kBlack f) T)"
  shows "rbi U" "fits C (bh U)" "entries U = entries (fill g (fill f T))" "\<exists>a b y. U = Nod kRed (fid g) a y b"
proof -
  obtain si sl sx sr where s: "fsib g = Nod kRed si sl sx sr" using assms(5) by (cases "fsib g") auto
  show "rbi U" "fits C (bh U)" "entries U = entries (fill g (fill f T))" "\<exists>a b y. U = Nod kRed (fid g) a y b"
    using assms(1-4) s unfolding U_def by (cases f; cases g; auto)+
qed

lemma fixup_stops:
  assumes "focus t (f # C) T" "T = Nod kRed i l x r" "rbi T" "fits (f # C) (bh T)" "fcol f = kBlack"
  shows "\<exists>t' T'. insert_fixup_loop (Some i) t = Some (Inr t') \<and> focus t' [] T' \<and> kept t t' \<and>
    entries T' = entries (plug (f # C) T) \<and> rbi (paint kBlack T')"
proof -
  have "Some i \<noteq> pt_root t" using focus_at_root [OF assms(1)] assms(2) by simp
  moreover have "pt_is_red t (Some (fid f)) = Inr False" using focus_parent [OF assms(1)] assms(5) by (simp add: pt_is_red_def)
  moreover have "pt_node t (Some i) = Inr \<lparr>pn_v = x, pn_p = Some (fid f), pn_l = hid l, pn_r = hid r, pn_c = kRed\<rparr>"
    using focus_node [of t "f # C"] assms(1,2) by simp
  ultimately have "insert_fixup_loop (Some i) t = Some (Inr t)" by (simp add: insert_fixup_loop.simps)
  moreover have "rbi (plug (f # C) T)" "col (plug (f # C) T) = kBlack" using rbi_plug [of "f # C" T] assms(3-5) by auto
  ultimately show ?thesis using assms(1) focus_plug [of t "f # C" T]
    by (intro exI [of _ t] exI [of _ "plug (f # C) T"]) (simp add: paint_black)
qed

lemma fixup_round:
  assumes "focus t (f # g # C) T" "T = Nod kRed i l x r" "fcol f = kRed"
  shows "insert_fixup_loop (Some i) t = (if col (fsib g) = kRed
    then fbind (Some (insert_recolor (Some (fid f)) (hid (fsib g)) (Some (fid g)) t)) (insert_fixup_loop (Some (fid g)))
    else Some (insert_rotate (Some i) (Some (fid f)) (Some (fid g)) t))"
proof -
  have "Some i \<noteq> pt_root t" using focus_at_root [OF assms(1)] assms(2) by simp
  moreover have "pt_node t (Some i) = Inr \<lparr>pn_v = x, pn_p = Some (fid f), pn_l = hid l, pn_r = hid r, pn_c = kRed\<rparr>"
    using focus_node [of t "f # g # C"] assms(1,2) by simp
  moreover obtain n where "pt_node t (Some (fid f)) = Inr n" "pn_p n = Some (fid g)" "pt_is_red t (Some (fid f)) = Inr True"
    using focus_parent [OF assms(1)] assms(3) by (auto simp: pt_is_red_def)
  moreover obtain m where "pt_node t (Some (fid g)) = Inr m" "(if pn_l m = Some (fid f) then pn_r m else pn_l m) = hid (fsib g)"
    using focus_grandparent [OF assms(1)] by auto
  moreover have "pt_is_red t (hid (fsib g)) = Inr (col (fsib g) = kRed)"
    by (rule focus_sib_red(1) [of _ g C "fill f T"]) (use assms(1) in \<open>simp add: focus_fill\<close>)
  ultimately show ?thesis by (simp add: insert_fixup_loop.simps [of "Some i"] Let_def)
qed

lemma insert_fixup_loop_at:
  assumes "focus t C T" "T = Nod kRed i l x r" "rbi T" "fits C (bh T)"
  shows "\<exists>t' T'. insert_fixup_loop (Some i) t = Some (Inr t') \<and> focus t' [] T' \<and> kept t t' \<and>
    entries T' = entries (plug C T) \<and> rbi (paint kBlack T')"
  using assms
proof (induction C arbitrary: t T i l x r rule: induct_list012)
  case 1
  then have "Some i = pt_root t" by (simp add: focus_heap)
  then show ?case using 1 by (intro exI [of _ t] exI [of _ T]) (simp add: insert_fixup_loop.simps)
next
  case (2 f)
  have "fcol f = kBlack" using 2(4) by (cases "fcol f") auto
  then show ?case using fixup_stops [OF 2(1,2,3,4)] by blast
next
  case (3 f g C)
  show ?case
  proof (cases "fcol f = kBlack")
    case True
    then show ?thesis using fixup_stops [OF 3(3,4,5,6)] by blast
  next
    case red: False
    then have f: "fcol f = kRed" "fcol g = kBlack" using 3(6) by auto
    have start: "insert_fixup_loop (Some i) t = (if col (fsib g) = kRed
        then fbind (Some (insert_recolor (Some (fid f)) (hid (fsib g)) (Some (fid g)) t)) (insert_fixup_loop (Some (fid g)))
        else Some (insert_rotate (Some i) (Some (fid f)) (Some (fid g)) t))"
      by (rule fixup_round [OF 3(3,4)]) (simp_all add: f)
    show ?thesis
    proof (cases "col (fsib g) = kRed")
      case True
      let ?U = "fill (fpaint kRed (fpaint_sib kBlack g)) (fill (fpaint kBlack f) T)"
      note U = recolored_rbi [OF 3(5,4,6) f(1) True]
      obtain a b y where shape: "?U = Nod kRed (fid g) a y b" using U(4) by blast
      have "fsib g \<noteq> Tip" using True by auto
      then obtain t1 where t1: "insert_recolor (Some (fid f)) (hid (fsib g)) (Some (fid g)) t = Inr t1" "focus t1 C ?U" "kept t t1"
        using insert_recolor_at [OF 3(3) f(2)] by (auto simp: yields_def)
      obtain t2 T2 where "insert_fixup_loop (Some (fid g)) t1 = Some (Inr t2)" "focus t2 [] T2" "kept t1 t2" "entries T2 = entries (plug C ?U)" "rbi (paint kBlack T2)"
        using 3(1) [OF t1(2) shape U(1,2)] by blast
      with start t1 True U(3) show ?thesis by (intro exI [of _ t2] exI [of _ T2]) (auto simp: entries_plug intro: kept_trans)
    next
      case False
      let ?U = "rebalanced f g T"
      obtain t1 where t1: "insert_rotate (Some i) (Some (fid f)) (Some (fid g)) t = Inr t1" "focus t1 C ?U" "kept t t1"
        using insert_rotate_at [OF 3(3,4)] by (auto simp: yields_def)
      have "rbi (plug C ?U)" "col (plug C ?U) = kBlack"
        using rebalanced_rbi [OF 3(5,4,6) f(1)] False rbi_plug [of C ?U] by auto
      with start t1 False rebalanced_entries [OF 3(4), of f g] show ?thesis
        by (intro exI [of _ t1] exI [of _ "plug C ?U"]) (auto simp: focus_plug [symmetric] entries_plug paint_black)
    qed
  qed
qed

lemma insert_fixup_at:
  assumes "focus t C T" "T = Nod kRed i l x r" "rbi T" "fits C (bh T)"
  shows "\<exists>t' T'. insert_fixup (Some i) t = Some (Inr t') \<and> focus t' [] T' \<and> kept t t' \<and>
    entries T' = entries (plug C T) \<and> rbi T' \<and> col T' = kBlack"
proof -
  obtain t1 T1 where t1: "insert_fixup_loop (Some i) t = Some (Inr t1)" "focus t1 [] T1" "kept t t1" "entries T1 = entries (plug C T)" "rbi (paint kBlack T1)"
    using insert_fixup_loop_at [OF assms] by blast
  have "T1 \<noteq> Tip" using t1(4) assms(2) by (cases T1) (auto simp: entries_plug)
  moreover have "pt_root t1 = hid T1" using t1(2) by (simp add: focus_heap)
  ultimately obtain t2 where "pt_set_c (pt_root t1) kBlack t1 = Inr t2" "focus t2 [] (paint kBlack T1)" "kept t1 t2"
    using paint_below [OF t1(2)] by (auto simp: yields_def)
  moreover have "entries (paint kBlack T1) = entries T1" "col (paint kBlack T1) = kBlack" by (cases T1; simp)+
  ultimately show ?thesis using t1 by (intro exI [of _ t2] exI [of _ "paint kBlack T1"]) (auto simp: insert_fixup_def intro: kept_trans)
qed

section \<open>The new node\<close>

fun side :: "('k, 'v) crumb \<Rightarrow> int" where
  "side (InL c i x r) = - 1"
| "side (InR c i l x) = 1"

lemma attach_at:
  assumes "focus t (f # C) Tip" "pt_heap t a = None"
  shows "yields (rbind (pt_set_p (Some a) (Some (fid f)) (snd (new_node a x t)))
      (\<lambda>t2. if side f < 0 then pt_set_l (Some (fid f)) (Some a) t2 else pt_set_r (Some (fid f)) (Some a) t2))
    (\<lambda>t'. focus t' (f # C) (Nod kRed a Tip x Tip) \<and> kept t t')"
proof -
  have "a \<notin> set (cids (f # C))" using assms by (auto simp: focus_def)
  then show ?thesis using assms(1)
    by (cases f) (auto simp: yields_def focus_def new_node_def pt_eval kept_def)
qed

lemma insert_impl_at:
  assumes "focus t (f # C) Tip" "pt_heap t a = None" "rbi (plug (f # C) Tip)" "col (plug (f # C) Tip) = kBlack"
  shows "\<exists>t' T'. insert_impl a (Some (fid f)) (side f) x t = Some (Inr (Some a, t')) \<and> focus t' [] T' \<and> kept t t' \<and>
    entries T' = before (f # C) @ (a, x) # after (f # C) \<and> rbi T' \<and> col T' = kBlack"
proof -
  let ?N = "Nod kRed a Tip x Tip"
  obtain t2 t3 where t3: "pt_set_p (Some a) (Some (fid f)) (snd (new_node a x t)) = Inr t2"
      "(if side f < 0 then pt_set_l (Some (fid f)) (Some a) t2 else pt_set_r (Some (fid f)) (Some a) t2) = Inr t3"
      "focus t3 (f # C) ?N" "kept t t3"
    using attach_at [OF assms(1,2)] unfolding yields_def rbind_eq_Inr by blast
  have "side f \<noteq> 0" by (cases f) simp_all
  moreover have "pt_node t3 (Some a) = Inr \<lparr>pn_v = x, pn_p = Some (fid f), pn_l = None, pn_r = None, pn_c = kRed\<rparr>" using focus_node [OF t3(3)] by simp
  moreover have "pt_is_red t3 (Some (fid f)) = Inr (fcol f = kRed)" using focus_parent [OF t3(3)] by (simp add: pt_is_red_def)
  ultimately have impl: "insert_impl a (Some (fid f)) (side f) x t =
      fbind (if fcol f = kRed then insert_fixup (Some a) t3 else Some (Inr t3)) (\<lambda>t4. Some (Inr (Some a, t4)))"
    using t3(1,2) by (simp add: insert_impl_def new_node_def)
  have fits: "fits (f # C) 0" using assms(3,4) rbi_plug [of "f # C" Tip] by simp
  show ?thesis
  proof (cases "fcol f = kRed")
    case True
    obtain t' T' where "insert_fixup (Some a) t3 = Some (Inr t')" "focus t' [] T'" "kept t3 t'" "entries T' = entries (plug (f # C) ?N)" "rbi T'" "col T' = kBlack"
      using insert_fixup_at [OF t3(3), of a Tip x Tip] fits by auto
    with True impl t3(4) show ?thesis unfolding entries_plug by (intro exI [of _ t'] exI [of _ T']) (auto intro: kept_trans)
  next
    case False
    have "rbi (plug (f # C) ?N) \<and> col (plug (f # C) ?N) = kBlack" unfolding rbi_plug using fits False by simp
    with False impl t3 focus_plug [of t3 "f # C" ?N] entries_plug [of "f # C" ?N] show ?thesis
      by (intro exI [of _ t3] exI [of _ "plug (f # C) ?N"]) simp
  qed
qed

lemma insert_impl_root:
  assumes "focus t [] Tip"
  shows "\<exists>t'. insert_impl a None res x t = Some (Inr (Some a, t')) \<and> focus t' [] (Nod kBlack a Tip x Tip) \<and> kept t t'"
  using assms by (auto simp: insert_impl_def new_node_def pt_eval focus_def pt_is_red_def kept_def)

section \<open>The search\<close>

lemma before_snoc [simp]: "before (D @ [InL c i x r]) = before D" "before (D @ [InR c i l x]) = entries l @ (i, x) # before D"
  by (induction D rule: before.induct) simp_all

lemma after_snoc [simp]: "after (D @ [InL c i x r]) = after D @ (i, x) # entries r" "after (D @ [InR c i l x]) = after D"
  by (induction D rule: after.induct) simp_all

lemma cpar_append: "cpar (D @ E) = (if D = [] then cpar E else cpar D)"
  by (cases D) simp_all

lemma pt_insert_search_absent:
  fixes k :: "'k::linorder"
  assumes "focus t C T" "sorted_wrt (<) (keys T)" "k \<notin> set (keys T)"
  shows "\<exists>D. pt_insert_search (<) t k prev (hid T) res = Some (Inr (if D = [] then prev else cpar D, None, if D = [] then res else side (hd D))) \<and>
    plug D Tip = T \<and> (\<forall>e\<in>set (before D). fst (snd e) < k) \<and> (\<forall>e\<in>set (after D). k < fst (snd e))"
  using assms
proof (induction T arbitrary: C prev res)
  case Tip
  then show ?case by (intro exI [of _ "[]"]) (simp add: pt_insert_search.simps)
next
  case (Nod c i l x r)
  have s: "sorted_wrt (<) (keys l)" "sorted_wrt (<) (keys r)" "\<forall>a\<in>set (keys l). a < fst x" "\<forall>a\<in>set (keys r). fst x < a"
    using Nod.prems(2) by (auto simp: sorted_wrt_append)
  have out: "k \<notin> set (keys l)" "k \<notin> set (keys r)" using Nod.prems(3) by simp_all
  have step: "pt_insert_search (<) t k prev (Some i) res =
      (if k < fst x then pt_insert_search (<) t k (Some i) (hid l) (- 1) else pt_insert_search (<) t k (Some i) (hid r) 1)"
    using focus_node [OF Nod.prems(1)] Nod.prems(3) by (subst pt_insert_search.simps) (auto simp: Let_def)
  show ?case
  proof (cases "k < fst x")
    case True
    obtain D where D: "pt_insert_search (<) t k (Some i) (hid l) (- 1) = Some (Inr (if D = [] then Some i else cpar D, None, if D = [] then - 1 else side (hd D)))"
        "plug D Tip = l" "\<forall>e\<in>set (before D). fst (snd e) < k" "\<forall>e\<in>set (after D). k < fst (snd e)"
      using Nod.IH(1) [OF focus_down(1) [OF Nod.prems(1)] s(1) out(1), of "Some i" "- 1"] by blast
    have "k < fst (snd e)" if "e \<in> set (entries r)" for e using s(4) that True by (force simp: keys_def)
    then show ?thesis using D True step
      by (intro exI [of _ "D @ [InL c i x r]"]) (auto simp: plug_append cpar_append hd_append)
  next
    case False
    then have gt: "fst x < k" using Nod.prems(3) by auto
    obtain D where D: "pt_insert_search (<) t k (Some i) (hid r) 1 = Some (Inr (if D = [] then Some i else cpar D, None, if D = [] then 1 else side (hd D)))"
        "plug D Tip = r" "\<forall>e\<in>set (before D). fst (snd e) < k" "\<forall>e\<in>set (after D). k < fst (snd e)"
      using Nod.IH(2) [OF focus_down(2) [OF Nod.prems(1)] s(2) out(2), of "Some i" "1"] by blast
    have "fst (snd e) < k" if "e \<in> set (entries l)" for e using s(3) that gt by (force simp: keys_def)
    then show ?thesis using D False step gt
      by (intro exI [of _ "D @ [InR c i l x]"]) (auto simp: plug_append cpar_append hd_append)
  qed
qed

lemma pt_insert_search_present:
  fixes k :: "'k::linorder"
  assumes "focus t C T" "sorted_wrt (<) (keys T)" "k \<in> set (keys T)"
  shows "\<exists>D c i l w r. pt_insert_search (<) t k prev (hid T) res = Some (Inr (if D = [] then prev else cpar D, Some i, 0)) \<and>
    plug D (Nod c i l (k, w) r) = T"
  using assms
proof (induction T arbitrary: C prev res)
  case (Nod c i l x r)
  have s: "sorted_wrt (<) (keys l)" "sorted_wrt (<) (keys r)" "\<forall>a\<in>set (keys l). a < fst x" "\<forall>a\<in>set (keys r). fst x < a"
    using Nod.prems(2) by (auto simp: sorted_wrt_append)
  have step: "pt_insert_search (<) t k prev (Some i) res =
      (if k < fst x then pt_insert_search (<) t k (Some i) (hid l) (- 1)
       else if fst x < k then pt_insert_search (<) t k (Some i) (hid r) 1 else Some (Inr (prev, Some i, 0)))"
    using focus_node [OF Nod.prems(1)] by (subst pt_insert_search.simps) (auto simp: Let_def)
  consider "k < fst x" "k \<in> set (keys l)" | "fst x < k" "k \<in> set (keys r)" "\<not> k < fst x" | "k = fst x"
    using Nod.prems(3) s(3,4) by fastforce
  then show ?case
  proof cases
    case 1
    obtain D c' j l' w r' where "pt_insert_search (<) t k (Some i) (hid l) (- 1) = Some (Inr (if D = [] then Some i else cpar D, Some j, 0))" "plug D (Nod c' j l' (k, w) r') = l"
      using Nod.IH(1) [OF focus_down(1) [OF Nod.prems(1)] s(1) 1(2)] by blast
    with 1 step show ?thesis
      by (intro exI [of _ "D @ [InL c i x r]"] exI [of _ c'] exI [of _ j] exI [of _ l'] exI [of _ w] exI [of _ r']) (simp add: plug_append cpar_append)
  next
    case 2
    obtain D c' j l' w r' where "pt_insert_search (<) t k (Some i) (hid r) 1 = Some (Inr (if D = [] then Some i else cpar D, Some j, 0))" "plug D (Nod c' j l' (k, w) r') = r"
      using Nod.IH(2) [OF focus_down(2) [OF Nod.prems(1)] s(2) 2(2)] by blast
    with 2 step show ?thesis
      by (intro exI [of _ "D @ [InR c i l x]"] exI [of _ c'] exI [of _ j] exI [of _ l'] exI [of _ w] exI [of _ r']) (simp add: plug_append cpar_append)
  next
    case 3
    with step show ?thesis by (intro exI [of _ "[]"] exI [of _ c] exI [of _ i] exI [of _ l] exI [of _ "snd x"] exI [of _ r]) simp
  qed
qed simp

section \<open>What \<open>insert\<close> does\<close>

text \<open>\<open>T\<close> is the tree of the nodes of \<open>t\<close>, a red-black tree ordered by its keys.\<close>

definition tree_rep :: "('k::linorder, 'v) ptree \<Rightarrow> ('k, 'v) rtree \<Rightarrow> bool" where
  "tree_rep t T \<longleftrightarrow> focus t [] T \<and> rbi T \<and> col T = kBlack \<and> sorted_wrt (<) (keys T) \<and> pt_sz t = of_nat (length (entries T))"

lemma put_sorted_middle:
  assumes "\<forall>e\<in>set xs. fst e < k" "\<forall>e\<in>set ys. k < fst e"
  shows "put_sorted k v (xs @ ys) = xs @ (k, v) # ys"
  using assms
proof (induction xs)
  case Nil
  then show ?case by (cases ys) auto
qed auto

lemma put_sorted_present:
  assumes "\<forall>e\<in>set xs. fst e < k"
  shows "put_sorted k v (xs @ (k, w) # ys) = xs @ (k, v) # ys"
  using assms by (induction xs) auto

lemma tree_rep_insert:
  assumes "tree_rep t T" "focus t' [] T'" "rbi T'" "col T' = kBlack" "entries T = xs @ ys" "entries T' = xs @ (a, k, v) # ys"
    "\<forall>e\<in>set xs. fst (snd e) < k" "\<forall>e\<in>set ys. k < fst (snd e)" "pt_sz t' = pt_sz t + 1"
  shows "tree_rep t' T' \<and> map snd (entries T') = put_sorted k v (map snd (entries T))"
  using assms put_sorted_middle [of "map snd xs" k "map snd ys" v] by (auto simp: tree_rep_def keys_def sorted_wrt_append)

lemma pt_insert_absent:
  fixes k :: "'k::linorder"
  assumes "tree_rep t T" "k \<notin> set (keys T)" "pt_heap t a = None"
  shows "\<exists>t' T' xs ys. pt_insert (<) a t (k, v) = Some (Inr ((pt_iter_at t (Some a), True), t')) \<and> tree_rep t' T' \<and> pt_this t' = pt_this t \<and>
    map snd (entries T') = put_sorted k v (map snd (entries T)) \<and> entries T = xs @ ys \<and> entries T' = xs @ (a, k, v) # ys"
proof -
  let ?t = "t\<lparr>pt_sz := pt_sz t + 1\<rparr>"
  have r: "focus t [] T" "rbi T" "col T = kBlack" "sorted_wrt (<) (keys T)" "pt_root t = hid T" using assms(1) by (simp_all add: tree_rep_def focus_heap)
  obtain D where D: "pt_insert_search (<) t k (hid T) (hid T) 0 = Some (Inr (if D = [] then hid T else cpar D, None, if D = [] then 0 else side (hd D)))"
      "plug D Tip = T" "\<forall>e\<in>set (before D). fst (snd e) < k" "\<forall>e\<in>set (after D). k < fst (snd e)"
    using pt_insert_search_absent [OF r(1,4) assms(2), of "hid T" 0] by blast
  have T: "entries T = before D @ after D" using entries_plug [of D Tip] D(2) by simp
  have "\<exists>t' T'. insert_impl a (cpar D) (if D = [] then 0 else side (hd D)) (k, v) ?t = Some (Inr (Some a, t')) \<and> focus t' [] T' \<and> kept ?t t' \<and>
      entries T' = before D @ (a, k, v) # after D \<and> rbi T' \<and> col T' = kBlack"
  proof (cases D)
    case Nil
    then show ?thesis using insert_impl_root [of ?t a 0 "(k, v)"] r(1) D(2) by fastforce
  next
    case (Cons f C)
    have "focus ?t (f # C) Tip" using r(1) D(2) focus_plug [of t "f # C" Tip] by (simp add: Cons)
    then show ?thesis using insert_impl_at [of ?t f C a "(k, v)"] assms(3) r(2,3) D(2) by (simp add: Cons)
  qed
  then obtain t' T' where t': "insert_impl a (cpar D) (if D = [] then 0 else side (hd D)) (k, v) ?t = Some (Inr (Some a, t'))" "focus t' [] T'" "kept ?t t'"
      "entries T' = before D @ (a, k, v) # after D" "rbi T'" "col T' = kBlack" by blast
  have "pt_insert (<) a t (k, v) = pt_insert_new a (cpar D) (if D = [] then 0 else side (hd D)) (k, v) t"
  proof (cases D)
    case Nil
    then show ?thesis using D(1,2) r(5) by (auto simp: pt_insert_def)
  next
    case (Cons f C)
    moreover have "side f \<noteq> 0" by (cases f) simp_all
    ultimately show ?thesis using D(1) r(5) by (simp add: pt_insert_def)
  qed
  moreover have "tree_rep t' T' \<and> map snd (entries T') = put_sorted k v (map snd (entries T))"
    by (rule tree_rep_insert [OF assms(1) t'(2,5,6) T t'(4) D(3,4)]) (use t'(3) in \<open>simp add: kept_def\<close>)
  ultimately show ?thesis using t' T
    by (intro exI [of _ t'] exI [of _ T'] exI [of _ "before D"] exI [of _ "after D"]) (auto simp: pt_insert_new_def kept_def pt_iter_at_def)
qed

lemma pt_insert_at_root:
  assumes "tree_rep t (Nod c i l (k, w) r)"
  shows "pt_insert (<) a t (k, v) = Some (Inl AssertionFailed)"
proof -
  have f: "focus t [] (Nod c i l (k, w) r)" using assms unfolding tree_rep_def by blast
  then have "pt_root t = Some i" "pt_node t (Some i) = Inr \<lparr>pn_v = (k, w), pn_p = None, pn_l = hid l, pn_r = hid r, pn_c = c\<rparr>"
    using focus_node [OF f] by (simp_all add: focus_heap)
  then show ?thesis by (simp add: pt_insert_def pt_insert_search.simps Let_def)
qed

lemma value_at:
  assumes "focus t C (Nod c i l (k, w) r)"
  shows "yields (pt_upd (\<lambda>n. n\<lparr>pn_v := (fst (pn_v n), v)\<rparr>) (Some i) t) (\<lambda>t'. focus t' C (Nod c i l (k, v) r) \<and> kept t t')"
  using assms by (auto simp: yields_def focus_def pt_upd_def pt_node_def kept_def)

lemma pt_insert_present:
  fixes k :: "'k::linorder"
  assumes "tree_rep t T" "k \<in> set (keys T)" "\<And>c i l w r. T \<noteq> Nod c i l (k, w) r"
  shows "\<exists>t' T' i w xs ys. pt_insert (<) a t (k, v) = Some (Inr ((pt_iter_at t (Some i), False), t')) \<and> tree_rep t' T' \<and> pt_this t' = pt_this t \<and>
    map snd (entries T') = put_sorted k v (map snd (entries T)) \<and> entries T = xs @ (i, k, w) # ys \<and> entries T' = xs @ (i, k, v) # ys"
proof -
  have r: "focus t [] T" "rbi T" "col T = kBlack" "sorted_wrt (<) (keys T)" "pt_root t = hid T" using assms(1) by (simp_all add: tree_rep_def focus_heap)
  obtain D c i l w s where D: "pt_insert_search (<) t k (hid T) (hid T) 0 = Some (Inr (if D = [] then hid T else cpar D, Some i, 0))"
      "plug D (Nod c i l (k, w) s) = T"
    using pt_insert_search_present [OF r(1,4) assms(2), of "hid T" 0] by blast
  obtain f C where fC: "D = f # C" using D(2) assms(3) by (metis neq_Nil_conv plug.simps(1))
  have f: "focus t D (Nod c i l (k, w) s)" using r(1) D(2) focus_plug [of t D] by simp
  then have "fid f \<noteq> i" by (auto simp: focus_def fC)
  obtain t' where t': "pt_upd (\<lambda>n. n\<lparr>pn_v := (fst (pn_v n), v)\<rparr>) (Some i) t = Inr t'" "focus t' D (Nod c i l (k, v) s)" "kept t t'"
    using value_at [OF f] by (auto simp: yields_def)
  let ?T = "plug D (Nod c i l (k, v) s)" and ?xs = "before D @ entries l" and ?ys = "entries s @ after D"
  have e: "entries T = ?xs @ (i, k, w) # ?ys" "entries ?T = ?xs @ (i, k, v) # ?ys" using D(2) by (auto simp: entries_plug)
  have "rbi (plug D (Nod c i l (k, w) s)) \<and> col (plug D (Nod c i l (k, w) s)) = kBlack" using r(2,3) D(2) by simp
  from iffD1 [OF rbi_plug this] have "rbi ?T \<and> col ?T = kBlack" by (intro iffD2 [OF rbi_plug]) (auto split: if_splits)
  then have "tree_rep t' ?T" using assms(1) t'(2,3) e focus_plug [of t' D] by (simp add: tree_rep_def kept_def keys_def)
  moreover have "\<forall>x\<in>set (map snd ?xs). fst x < k" using r(4) e(1) by (auto simp: keys_def sorted_wrt_append)
  then have "map snd (entries ?T) = put_sorted k v (map snd (entries T))" using e put_sorted_present [of "map snd ?xs" k v w "map snd ?ys"] by simp
  moreover have "pt_insert (<) a t (k, v) = Some (Inr ((pt_iter_at t (Some i), False), t'))"
    using D(1) r(5) fC \<open>fid f \<noteq> i\<close> t'(1,3) by (auto simp: pt_insert_def pt_iter_at_def kept_def)
  ultimately show ?thesis using e t'(3) by (intro exI [of _ t'] exI [of _ ?T] exI [of _ i] exI [of _ w] exI [of _ ?xs] exI [of _ ?ys]) (simp add: kept_def)
qed

end
