(* ===== verification/Heap_Fixup.thy ===== *)
theory Heap_Fixup
  imports Heap_Insert
begin

text \<open>
  The loop of \<open>erase_fixup\<close> in \<open>Heap_RBTree\<close>. It starts at a black leaf that is still in the tree and
  makes room for its removal: the tree without that leaf is a red-black tree when it ends.
\<close>

lemma hid_Some [simp]: "(\<exists>i. hid T = Some i) \<longleftrightarrow> T \<noteq> Tip"
  by (cases T) simp_all

section \<open>A tree without one of its leaves\<close>

fun leaf :: "nat \<Rightarrow> ('k, 'v) rtree \<Rightarrow> bool" where
  "leaf i Tip \<longleftrightarrow> False"
| "leaf i (Nod c j l x r) \<longleftrightarrow> (if i = j then l = Tip \<and> r = Tip else leaf i l \<or> leaf i r)"

fun without :: "nat \<Rightarrow> ('k, 'v) rtree \<Rightarrow> ('k, 'v) rtree" where
  "without i Tip = Tip"
| "without i (Nod c j l x r) = (if i = j then Tip else Nod c j (without i l) x (without i r))"

lemma without_absent [simp]: "i \<notin> set (ids T) \<Longrightarrow> without i T = T"
  by (induction T) simp_all

lemma leaf_in: "leaf i T \<Longrightarrow> i \<in> set (ids T)"
  by (induction T) (auto split: if_splits)

lemma leaf_plug:
  assumes "leaf i T" "distinct (ids T)"
  shows "\<exists>C c x. plug C (Nod c i Tip x Tip) = T \<and> without i T = plug C Tip"
  using assms
proof (induction T)
  case (Nod c j l x r)
  consider "i = j" | "i \<noteq> j" "leaf i l" | "i \<noteq> j" "leaf i r" using Nod.prems(1) by (auto split: if_splits)
  then show ?case
  proof cases
    case 1
    with Nod.prems show ?thesis by (intro exI [of _ "[]"] exI [of _ c] exI [of _ x]) simp
  next
    case 2
    then obtain C d y where "plug C (Nod d i Tip y Tip) = l" "without i l = plug C Tip" using Nod by auto
    moreover have "i \<notin> set (ids r)" using leaf_in [OF 2(2)] Nod.prems(2) by auto
    ultimately show ?thesis using 2 by (intro exI [of _ "C @ [InL c j x r]"] exI [of _ d] exI [of _ y]) (simp add: plug_append)
  next
    case 3
    then obtain C d y where "plug C (Nod d i Tip y Tip) = r" "without i r = plug C Tip" using Nod by auto
    moreover have "i \<notin> set (ids l)" using leaf_in [OF 3(2)] Nod.prems(2) by auto
    ultimately show ?thesis using 3 by (intro exI [of _ "C @ [InR c j l x]"] exI [of _ d] exI [of _ y]) (simp add: plug_append)
  qed
qed simp

lemma without_plug: "i \<notin> set (cids C) \<Longrightarrow> without i (plug C T) = plug C (without i T)"
proof (induction C arbitrary: T)
  case (Cons f C)
  then show ?case by (cases f) auto
qed simp

lemma leaf_fill: "leaf i T \<Longrightarrow> i \<noteq> fid f \<Longrightarrow> leaf i (fill f T)"
  by (cases f) auto

lemma leaf_plugged: "leaf i T \<Longrightarrow> i \<notin> set (cids C) \<Longrightarrow> leaf i (plug C T)"
  by (induction C arbitrary: T) (simp_all add: leaf_fill)

section \<open>The rotations of the loop\<close>

lemma close_left:
  assumes "focus t C (Nod c p T y (Nod d s L z (Nod kRed q a w b)))" "col L = kBlack"
  shows "yields (rbind (pt_node t (Some s)) (\<lambda>sn1. rbind (pt_is_black t (pn_l sn1)) (\<lambda>bl. require bl
      (rbind (pt_is_red t (pn_r sn1)) (\<lambda>rr. require rr
        (rbind (pt_node t (Some p)) (\<lambda>pn. rbind (pt_set_c (Some s) (pn_c pn) t) (\<lambda>t5.
          rbind (pt_node t5 (Some s)) (\<lambda>sn2. rbind (pt_set_c (pn_r sn2) kBlack t5) (\<lambda>t6.
            rbind (pt_set_c (Some p) kBlack t6) (rotate_left (Some p))))))))))))
    (\<lambda>t'. focus t' C (Nod c s (Nod kBlack p T y L) z (Nod kBlack q a w b)) \<and> kept t t')"
proof -
  let ?Q = "Nod kRed q a w b" and ?Q1 = "Nod kBlack q a w b"
  have f: "focus t (InR c p T y # C) (Nod d s L z ?Q)" "focus t (InL d s z ?Q # InR c p T y # C) L" "focus t (InR d s L z # InR c p T y # C) ?Q"
    using assms(1) by simp_all
  obtain t5 where t5: "pt_set_c (Some s) c t = Inr t5" "focus t5 (InR c p T y # C) (Nod c s L z ?Q)" "kept t t5"
    using paint_at [OF f(1)] by (auto simp: yields_def)
  obtain t6 where t6: "pt_set_c (Some q) kBlack t5 = Inr t6" "focus t6 (InR c s L z # InR c p T y # C) ?Q1" "kept t5 t6"
    using paint_at [of t5 "InR c s L z # InR c p T y # C" kRed q a w b kBlack] t5(2) by (auto simp: yields_def)
  obtain t7 where t7: "pt_set_c (Some p) kBlack t6 = Inr t7" "focus t7 C (Nod kBlack p T y (Nod c s L z ?Q1))" "kept t6 t7"
    using paint_at [of t6 C c p T y "Nod c s L z ?Q1" kBlack] t6(2) by (auto simp: yields_def)
  obtain t8 where t8: "rotate_left (Some p) t7 = Inr t8" "focus t8 C (Nod c s (Nod kBlack p T y L) z ?Q1)" "kept t7 t8"
    using rotate_left_at [OF t7(2)] by (auto simp: yields_def)
  have "pt_is_black t (hid L) = Inr True" "pt_is_red t (Some q) = Inr True" using focus_is_red(2) [OF f(2)] focus_is_red(1) [OF f(3)] assms(2) by simp_all
  then show ?thesis using focus_node [OF assms(1)] focus_node [OF f(1)] focus_node [OF t5(2)] t5 t6 t7 t8 by (simp add: yields_def kept_def)
qed

lemma close_right:
  assumes "focus t C (Nod c p (Nod d s (Nod kRed q a w b) z L) y T)" "col L = kBlack"
  shows "yields (rbind (pt_node t (Some s)) (\<lambda>sn1. rbind (pt_is_black t (pn_r sn1)) (\<lambda>br. require br
      (rbind (pt_is_red t (pn_l sn1)) (\<lambda>rl. require rl
        (rbind (pt_node t (Some p)) (\<lambda>pn. rbind (pt_set_c (Some s) (pn_c pn) t) (\<lambda>t5.
          rbind (pt_node t5 (Some s)) (\<lambda>sn2. rbind (pt_set_c (pn_l sn2) kBlack t5) (\<lambda>t6.
            rbind (pt_set_c (Some p) kBlack t6) (rotate_right (Some p))))))))))))
    (\<lambda>t'. focus t' C (Nod c s (Nod kBlack q a w b) z (Nod kBlack p L y T)) \<and> kept t t')"
proof -
  let ?Q = "Nod kRed q a w b" and ?Q1 = "Nod kBlack q a w b"
  have f: "focus t (InL c p y T # C) (Nod d s ?Q z L)" "focus t (InR d s ?Q z # InL c p y T # C) L" "focus t (InL d s z L # InL c p y T # C) ?Q"
    using assms(1) by simp_all
  obtain t5 where t5: "pt_set_c (Some s) c t = Inr t5" "focus t5 (InL c p y T # C) (Nod c s ?Q z L)" "kept t t5"
    using paint_at [OF f(1)] by (auto simp: yields_def)
  obtain t6 where t6: "pt_set_c (Some q) kBlack t5 = Inr t6" "focus t6 (InL c s z L # InL c p y T # C) ?Q1" "kept t5 t6"
    using paint_at [of t5 "InL c s z L # InL c p y T # C" kRed q a w b kBlack] t5(2) by (auto simp: yields_def)
  obtain t7 where t7: "pt_set_c (Some p) kBlack t6 = Inr t7" "focus t7 C (Nod kBlack p (Nod c s ?Q1 z L) y T)" "kept t6 t7"
    using paint_at [of t6 C c p "Nod c s ?Q1 z L" y T kBlack] t6(2) by (auto simp: yields_def)
  obtain t8 where t8: "rotate_right (Some p) t7 = Inr t8" "focus t8 C (Nod c s ?Q1 z (Nod kBlack p L y T))" "kept t7 t8"
    using rotate_right_at [OF t7(2)] by (auto simp: yields_def)
  have "pt_is_black t (hid L) = Inr True" "pt_is_red t (Some q) = Inr True" using focus_is_red(2) [OF f(2)] focus_is_red(1) [OF f(3)] assms(2) by simp_all
  then show ?thesis using focus_node [OF assms(1)] focus_node [OF f(1)] focus_node [OF t5(2)] t5 t6 t7 t8 by (simp add: yields_def kept_def)
qed

text \<open>What they make of the parent \<open>f\<close>, its children and the red nephew.\<close>

fun mended :: "('k, 'v) crumb \<Rightarrow> ('k, 'v) rtree \<Rightarrow> ('k, 'v) rtree" where
  "mended (InL c p y (Nod d s (Nod kRed q a w b) z r)) T = Nod c q (Nod kBlack p T y a) w (Nod kBlack s b z r)"
| "mended (InL c p y (Nod d s l z (Nod kRed q a w b))) T = Nod c s (Nod kBlack p T y l) z (Nod kBlack q a w b)"
| "mended (InR c p (Nod d s l z (Nod kRed q a w b)) y) T = Nod c q (Nod kBlack s l z a) w (Nod kBlack p b y T)"
| "mended (InR c p (Nod d s (Nod kRed q a w b) z r) y) T = Nod c s (Nod kBlack q a w b) z (Nod kBlack p r y T)"
| "mended f T = fill f T"

lemma erase_rotate_left_at:
  assumes "focus t (InL c p y S # C) T" "S = Nod kBlack s l z r" "rbi S" "col l = kRed \<or> col r = kRed"
  shows "yields (erase_rotate_left (Some p) (Some s) t) (\<lambda>t'. focus t' C (mended (InL c p y S) T) \<and> kept t t')"
proof -
  have f: "focus t (InR c p T y # C) S" "focus t (InL kBlack s z r # InR c p T y # C) l" using assms(1,2) by simp_all
  have n: "pt_node t (Some s) = Inr \<lparr>pn_v = z, pn_p = Some p, pn_l = hid l, pn_r = hid r, pn_c = kBlack\<rparr>" using focus_node [OF f(1) [unfolded assms(2)]] by simp
  show ?thesis
  proof (cases "col l = kRed")
    case True
    then obtain q a w b where l: "l = Nod kRed q a w b" by (cases l) auto
    obtain t3 where t3: "rbind (pt_set_c (Some q) kBlack t) (\<lambda>t1. rbind (pt_set_c (Some s) kRed t1) (rotate_right (Some s))) = Inr t3"
        "focus t3 (InR c p T y # C) (Nod kBlack q a w (Nod kRed s b z r))" "kept t t3"
      using straighten_right [of t "InR c p T y # C" kBlack s kRed q a w b z r] f(1) assms(2) l by (auto simp: yields_def)
    have "pt_node t3 (Some s) = Inr \<lparr>pn_v = z, pn_p = Some q, pn_l = hid b, pn_r = hid r, pn_c = kRed\<rparr>"
      using focus_node [of t3 "InR kBlack q a w # InR c p T y # C" kRed s b z r] t3(2) by simp
    moreover have "col a = kBlack" using assms(2,3) l by simp
    ultimately show ?thesis
      using close_left [of t3 C c p T y kBlack q a w s b z r] t3 n focus_is_red(1) [OF f(2)] assms(2) l
      by (auto simp: erase_rotate_left_def rbind_assoc [symmetric] yields_def kept_def)
  next
    case False
    then obtain q a w b where r: "r = Nod kRed q a w b" using assms(4) by (cases r) auto
    have "mended (InL c p y S) T = Nod c s (Nod kBlack p T y l) z (Nod kBlack q a w b)" using False assms(2) r by (cases l) auto
    then show ?thesis
      using close_left [of t C c p T y kBlack s l z q a w b] n focus_is_red(1) [OF f(2)] False assms(1,2) r
      by (auto simp: erase_rotate_left_def yields_def)
  qed
qed

lemma erase_rotate_right_at:
  assumes "focus t (InR c p S y # C) T" "S = Nod kBlack s l z r" "rbi S" "col l = kRed \<or> col r = kRed"
  shows "yields (erase_rotate_right (Some p) (Some s) t) (\<lambda>t'. focus t' C (mended (InR c p S y) T) \<and> kept t t')"
proof -
  have f: "focus t (InL c p y T # C) S" "focus t (InR kBlack s l z # InL c p y T # C) r" using assms(1,2) by simp_all
  have n: "pt_node t (Some s) = Inr \<lparr>pn_v = z, pn_p = Some p, pn_l = hid l, pn_r = hid r, pn_c = kBlack\<rparr>" using focus_node [OF f(1) [unfolded assms(2)]] by simp
  show ?thesis
  proof (cases "col r = kRed")
    case True
    then obtain q a w b where r: "r = Nod kRed q a w b" by (cases r) auto
    obtain t3 where t3: "rbind (pt_set_c (Some q) kBlack t) (\<lambda>t1. rbind (pt_set_c (Some s) kRed t1) (rotate_left (Some s))) = Inr t3"
        "focus t3 (InL c p y T # C) (Nod kBlack q (Nod kRed s l z a) w b)" "kept t t3"
      using straighten_left [of t "InL c p y T # C" kBlack s l z kRed q a w b] f(1) assms(2) r by (auto simp: yields_def)
    have "pt_node t3 (Some s) = Inr \<lparr>pn_v = z, pn_p = Some q, pn_l = hid l, pn_r = hid a, pn_c = kRed\<rparr>"
      using focus_node [of t3 "InL kBlack q w b # InL c p y T # C" kRed s l z a] t3(2) by simp
    moreover have "col b = kBlack" using assms(2,3) r by simp
    ultimately show ?thesis
      using close_right [of t3 C c p kBlack q s l z a w b y T] t3 n focus_is_red(1) [OF f(2)] assms(2) r
      by (auto simp: erase_rotate_right_def rbind_assoc [symmetric] yields_def kept_def)
  next
    case False
    then obtain q a w b where l: "l = Nod kRed q a w b" using assms(4) by (cases l) auto
    have "mended (InR c p S y) T = Nod c s (Nod kBlack q a w b) z (Nod kBlack p r y T)" using False assms(2) l by (cases r) auto
    then show ?thesis
      using close_right [of t C c p kBlack s q a w b z r y T] n focus_is_red(1) [OF f(2)] False assms(1,2) l
      by (auto simp: erase_rotate_right_def yields_def)
  qed
qed

lemma erase_rotate_at:
  assumes "focus t (f # C) T" "fsib f = Nod kBlack s l z r" "rbi (fsib f)" "col l = kRed \<or> col r = kRed"
  shows "yields (if side f < 0 then erase_rotate_left (Some (fid f)) (Some s) t else erase_rotate_right (Some (fid f)) (Some s) t)
    (\<lambda>t'. focus t' C (mended f T) \<and> kept t t')"
proof (cases f)
  case (InL c p y S)
  then show ?thesis using erase_rotate_left_at [of t c p y S C T s l z r] assms by simp
next
  case (InR c p S y)
  then show ?thesis using erase_rotate_right_at [of t c p S y C T s l z r] assms by simp
qed

text \<open>A red sibling changes places with the parent, which turns red.\<close>

fun lowered :: "('k, 'v) crumb \<Rightarrow> ('k, 'v) crumb list" where
  "lowered (InL c p y (Nod d s l z r)) = [InL kRed p y l, InL kBlack s z r]"
| "lowered (InR c p (Nod d s l z r) y) = [InR kRed p r y, InR kBlack s l z]"
| "lowered f = [f]"

lemma erase_red_sibling_at:
  assumes "focus t (f # C) T" "fcol f = kBlack" "fsib f = Nod kRed s l z r" "l \<noteq> Tip" "r \<noteq> Tip" "col l = kBlack" "col r = kBlack" "T \<noteq> Tip"
  shows "yields (erase_red_sibling (Some (fid f)) (Some s) t) (\<lambda>t'. focus t' (lowered f @ C) T \<and> kept t t')"
proof -
  obtain D where D: "focus t D (fsib f)" "cpar D = Some (fid f)" by (rule focus_sib [OF assms(1)])
  have sub: "focus t (InL kRed s z r # D) l" "focus t (InR kRed s l z # D) r" using D(1) assms(3) by simp_all
  have n: "pt_node t (Some s) = Inr \<lparr>pn_v = z, pn_p = Some (fid f), pn_l = hid l, pn_r = hid r, pn_c = kRed\<rparr>" using focus_node [of t D] D assms(3) by simp
  have b: "pt_is_black t (Some (fid f)) = Inr True" "pt_is_black t (hid l) = Inr True" "pt_is_black t (hid r) = Inr True"
    using focus_parent [OF assms(1)] focus_is_red(2) [OF sub(1)] focus_is_red(2) [OF sub(2)] assms(2,6,7) by (simp_all add: pt_is_black_def)
  obtain t1 where t1: "pt_set_c (Some (fid f)) kRed t = Inr t1" "focus t1 (fpaint kRed f # C) T" "kept t t1"
    using paint_parent [OF assms(1)] by (auto simp: yields_def)
  obtain t2 where t2: "pt_set_c (Some s) kBlack t1 = Inr t2" "focus t2 (fpaint_sib kBlack (fpaint kRed f) # C) T" "kept t1 t2"
    using paint_sibling [OF t1(2)] assms(3) by (auto simp: yields_def)
  have "hid T \<noteq> Some s" using focus_sibling [OF assms(1,8)] assms(3) by auto
  then have "yields (rbind (pt_node t2 (Some (fid f))) (\<lambda>pn. if Some s = pn_r pn then rotate_left (Some (fid f)) t2 else rotate_right (Some (fid f)) t2))
      (\<lambda>t'. focus t' (lowered f @ C) T \<and> kept t t')"
  proof (cases f)
    case (InL c p y S)
    then show ?thesis using assms(3) t1 t2 focus_parent [OF t2(2)] rotate_left_at [of t2 C kRed p T y kBlack s l z r] by (auto simp: yields_def kept_def)
  next
    case (InR c p S y)
    then show ?thesis using assms(3) t1 t2 focus_parent [OF t2(2)] rotate_right_at [of t2 C kRed p kBlack s l z r y T] \<open>hid T \<noteq> Some s\<close>
      by (auto simp: yields_def kept_def)
  qed
  then show ?thesis using b n assms(4,5) t1(1) t2(1) by (simp add: erase_red_sibling_def)
qed

section \<open>The rounds\<close>

lemma erase_round:
  assumes "focus t (f # C) T" "T = Nod kBlack j l x r" "fsib f = Nod e s a z b"
  shows "erase_fixup_loop (Some j) t =
    (if e = kRed then fbind (Some (erase_red_sibling (Some (fid f)) (Some s) t)) (\<lambda>t1. erase_fixup_loop (Some j) t1)
     else if col a = kBlack \<and> col b = kBlack
     then fbind (Some (pt_set_c (Some s) kRed t)) (\<lambda>t1. fbind (Some (pt_is_red t1 (Some (fid f)))) (\<lambda>p_red.
       if p_red then Some (pt_set_c (Some (fid f)) kBlack t1) else erase_fixup_loop (Some (fid f)) t1))
     else fbind (Some (if side f < 0 then erase_rotate_left (Some (fid f)) (Some s) t else erase_rotate_right (Some (fid f)) (Some s) t))
       (\<lambda>t1. erase_fixup_loop (pt_root t1) t1))"
proof -
  have T: "T \<noteq> Tip" "hid T = Some j" using assms(2) by auto
  have sib: "Some s \<noteq> Some j" using focus_sibling [OF assms(1) T(1)] assms(3) T(2) by simp
  have root: "Some j \<noteq> pt_root t" using focus_at_root [OF assms(1) T(1)] T(2) by simp
  obtain D where D: "focus t D (fsib f)" by (rule focus_sib [OF assms(1)])
  have sub: "focus t (InL e s z b # D) a" "focus t (InR e s a z # D) b" using D assms(3) by simp_all
  have reds: "pt_is_black t (Some j) = Inr True" "pt_is_red t (Some s) = Inr (e = kRed)" "pt_is_black t (hid a) = Inr (col a = kBlack)" "pt_is_black t (hid b) = Inr (col b = kBlack)"
    using focus_is_red(2) [OF assms(1)] focus_is_red(1) [OF D] focus_is_red(2) [OF sub(1)] focus_is_red(2) [OF sub(2)] assms(2,3) by simp_all
  have nodes: "pt_node t (Some j) = Inr \<lparr>pn_v = x, pn_p = Some (fid f), pn_l = hid l, pn_r = hid r, pn_c = kBlack\<rparr>"
    "pt_node t (Some s) = Inr \<lparr>pn_v = z, pn_p = cpar D, pn_l = hid a, pn_r = hid b, pn_c = e\<rparr>"
    using focus_node [of t "f # C" kBlack j l x r] focus_node [of t D e s a z b] assms D by simp_all
  obtain n where n: "pt_node t (Some (fid f)) = Inr n" "(if pn_l n = Some j then pn_r n else pn_l n) = Some s" "Some j = pn_l n \<longleftrightarrow> side f < 0"
  proof (cases f)
    case (InL c p y S)
    then show thesis using focus_parent [OF assms(1)] assms(3) T(2) by (intro that) auto
  next
    case (InR c p S y)
    then show thesis using focus_parent [OF assms(1)] assms(3) T(2) sib by (intro that) auto
  qed
  show ?thesis
    using root reds nodes n by (subst erase_fixup_loop.simps) (simp add: Let_def)
qed

section \<open>The loop\<close>

text \<open>The leaf \<open>i\<close> can be taken out of the tree of \<open>t'\<close>, which has the entries \<open>es\<close>.\<close>

definition settled :: "nat \<Rightarrow> ('k, 'v) ptree \<Rightarrow> (nat \<times> 'k \<times> 'v) list \<Rightarrow> ('k, 'v) ptree \<Rightarrow> bool" where
  "settled i t es t' \<longleftrightarrow> (\<exists>T'. focus t' [] T' \<and> kept t t' \<and> entries T' = es \<and> leaf i T' \<and> rbi (without i T') \<and> col (without i T') = kBlack)"

lemma focus_fresh:
  assumes "focus t C T" "leaf i T"
  shows "i \<notin> set (cids C)" "C = f # D \<Longrightarrow> i \<noteq> fid f \<and> i \<notin> set (ids (fsib f)) \<and> i \<notin> set (cids D)"
  using assms leaf_in [OF assms(2)] by (auto simp: focus_def)

lemma settledI:
  assumes "focus t' C T" "kept t t'" "leaf i T" "rbi (without i T)" "fits C (bh (without i T))" "col (without i T) = kRed \<longrightarrow> cfirst C = kBlack"
    "es = entries (plug C T)"
  shows "settled i t es t'"
proof -
  have "rbi (plug C (without i T)) \<and> col (plug C (without i T)) = kBlack" unfolding rbi_plug using assms(4-6) by simp
  then show ?thesis using assms focus_fresh(1) [OF assms(1,3)] focus_plug [of t' C T] unfolding settled_def
    by (intro exI [of _ "plug C T"]) (simp add: without_plug leaf_plugged)
qed

lemma mended_without:
  "i \<noteq> fid f \<Longrightarrow> i \<notin> set (ids (fsib f)) \<Longrightarrow> without i (mended f T) = mended f (without i T)"
  "leaf i T \<Longrightarrow> i \<noteq> fid f \<Longrightarrow> i \<notin> set (ids (fsib f)) \<Longrightarrow> leaf i (mended f T)"
  by (induction f T rule: mended.induct) (auto simp: leaf_fill)

lemma mended_entries: "entries (mended f T) = entries (fill f T)"
  by (induction f T rule: mended.induct) simp_all

lemma mended_rbi:
  assumes "rbi U" "rbi (fsib f)" "fsib f = Nod kBlack s l z r" "col l = kRed \<or> col r = kRed" "bh (fsib f) = Suc (bh U)"
  shows "rbi (mended f U)" "bh (mended f U) = Suc (bh U) + (if fcol f = kBlack then 1 else 0)" "col (mended f U) = fcol f"
proof -
  have "(\<exists>q a w b. l = Nod kRed q a w b) \<or> (\<exists>q a w b. r = Nod kRed q a w b)" using assms(4) by (cases l; cases r) auto
  then show "rbi (mended f U)" "bh (mended f U) = Suc (bh U) + (if fcol f = kBlack then 1 else 0)" "col (mended f U) = fcol f"
    using assms by (cases f; cases l; cases r; auto; cases "col l"; cases "col r"; auto)+
qed

lemma pushed_up:
  assumes "leaf i T" "i \<noteq> fid f" "i \<notin> set (ids (fsib f))" "rbi (without i T)" "rbi (fsib f)" "fsib f = Nod kBlack s l z r" "col l = kBlack" "col r = kBlack"
    "bh (fsib f) = Suc (bh (without i T))"
  defines "R \<equiv> fill (fpaint kBlack (fpaint_sib kRed f)) T"
  shows "leaf i R" "rbi (without i R)" "bh (without i R) = Suc (bh (without i T))" "col (without i R) = kBlack" "entries R = entries (fill f T)"
    "R = Nod kBlack (fid f) (if side f < 0 then T else paint kRed (fsib f)) (case f of InL c p y S \<Rightarrow> y | InR c p S y \<Rightarrow> y) (if side f < 0 then paint kRed (fsib f) else T)"
  using assms by (cases f; auto)+

text \<open>Every round but one is the last: with a black sibling, when a child of it is red or the parent is.\<close>

lemma erase_last_round:
  assumes "focus t (f # C) T" "T = Nod kBlack j l x r" "leaf i T" "rbi (without i T)" "fits (f # C) (Suc (bh (without i T)))"
    "fsib f = Nod kBlack s a z b" "fcol f = kRed \<or> col a = kRed \<or> col b = kRed"
  shows "\<exists>t'. erase_fixup_loop (Some j) t = Some (Inr t') \<and> settled i t (entries (plug (f # C) T)) t'"
proof -
  have fr: "i \<noteq> fid f" "i \<notin> set (ids (fsib f))" using focus_fresh(2) [OF assms(1,3)] by simp_all
  have s: "rbi (fsib f)" "bh (fsib f) = Suc (bh (without i T))" "fits C (Suc (bh (without i T)) + (if fcol f = kBlack then 1 else 0))"
    "fcol f = kRed \<Longrightarrow> cfirst C = kBlack" using assms(5) by auto
  note round = erase_round [OF assms(1,2,6)]
  show ?thesis
  proof (cases "col a = kBlack \<and> col b = kBlack")
    case True
    then have red: "fcol f = kRed" using assms(7) by auto
    note R = pushed_up [OF assms(3) fr assms(4) s(1) assms(6) _ _ s(2)]
    obtain t1 where t1: "pt_set_c (Some s) kRed t = Inr t1" "focus t1 (fpaint_sib kRed f # C) T" "kept t t1"
      using paint_sibling [OF assms(1)] assms(6) by (auto simp: yields_def)
    obtain t2 where t2: "pt_set_c (Some (fid f)) kBlack t1 = Inr t2" "focus t2 (fpaint kBlack (fpaint_sib kRed f) # C) T" "kept t1 t2"
      using paint_parent [OF t1(2)] by (auto simp: yields_def)
    have "pt_is_red t1 (Some (fid f)) = Inr True" using focus_parent [OF t1(2)] red by (simp add: pt_is_red_def)
    then have "erase_fixup_loop (Some j) t = Some (Inr t2)" using round True t1(1) t2(1) by simp
    moreover have "settled i t (entries (plug (f # C) T)) t2"
      by (rule settledI [OF _ _ R(1,2)]) (use True R t1 t2 s red in \<open>auto simp: focus_fill entries_plug intro: kept_trans\<close>)
    ultimately show ?thesis by blast
  next
    case False
    then have red: "col a = kRed \<or> col b = kRed" by auto
    obtain t1 where t1: "(if side f < 0 then erase_rotate_left (Some (fid f)) (Some s) t else erase_rotate_right (Some (fid f)) (Some s) t) = Inr t1"
        "focus t1 C (mended f T)" "kept t t1"
      using erase_rotate_at [OF assms(1,6) s(1) red] by (auto simp: yields_def)
    have "erase_fixup_loop (Some j) t = Some (Inr t1)" using round False t1(1) by (simp add: erase_fixup_loop.simps [of "pt_root t1"])
    moreover have "settled i t (entries (plug (f # C) T)) t1"
      by (rule settledI [OF t1(2,3) mended_without(2)])
        (use assms(3) fr mended_rbi [OF assms(4) s(1) assms(6) red s(2)] s in \<open>auto simp: mended_without mended_entries entries_plug\<close>)
    ultimately show ?thesis by blast
  qed
qed

lemma erase_fixup_loop_at:
  assumes "focus t C T" "T = Nod kBlack j l x r" "leaf i T" "rbi (without i T)" "col (without i T) = kBlack" "fits C (Suc (bh (without i T)))"
  shows "\<exists>t'. erase_fixup_loop (Some j) t = Some (Inr t') \<and> settled i t (entries (plug C T)) t'"
  using assms
proof (induction C arbitrary: t T j l x r)
  case Nil
  then have "Some j = pt_root t" by (simp add: focus_heap)
  then show ?case using Nil by (intro exI [of _ t]) (auto simp: erase_fixup_loop.simps settled_def)
next
  case (Cons f C)
  have fr: "i \<noteq> fid f" "i \<notin> set (ids (fsib f))" using focus_fresh(2) [OF Cons.prems(1,3)] by simp_all
  have s: "rbi (fsib f)" "bh (fsib f) = Suc (bh (without i T))" "fits C (Suc (bh (without i T)) + (if fcol f = kBlack then 1 else 0))"
    "fcol f = kRed \<Longrightarrow> col (fsib f) = kBlack" using Cons.prems(6) by auto
  obtain e si a z b where S: "fsib f = Nod e si a z b" using s(2) by (cases "fsib f") auto
  note round = erase_round [OF Cons.prems(1,2) S]
  show ?case
  proof (cases "e = kRed")
    case True
    have ab: "a \<noteq> Tip" "b \<noteq> Tip" "col a = kBlack" "col b = kBlack" "rbi a" "rbi b" "bh a = Suc (bh (without i T))" "bh b = Suc (bh (without i T))" "fcol f = kBlack"
      using s S True by (cases "fcol f"; auto)+
    obtain t1 where t1: "erase_red_sibling (Some (fid f)) (Some si) t = Inr t1" "focus t1 (lowered f @ C) T" "kept t t1"
      using erase_red_sibling_at [OF Cons.prems(1) ab(9)] S True ab Cons.prems(2) by (auto simp: yields_def)
    obtain f1 f2 where low: "lowered f = [f1, f2]" "fits (f1 # f2 # C) (Suc (bh (without i T)))" "fcol f1 = kRed" "fsib f1 = (if side f < 0 then a else b)"
        "entries (plug (f1 # f2 # C) T) = entries (plug (f # C) T)"
      using S s(3) ab by (cases f) (auto simp: entries_plug)
    have "fsib f1 \<noteq> Tip" "col (fsib f1) = kBlack" using low(4) ab(1-4) by (cases "side f < 0"; simp)+
    then obtain p q w v where "fsib f1 = Nod kBlack p q w v" by (cases "fsib f1") auto
    from erase_last_round [OF _ Cons.prems(2-4) low(2) this] obtain t2 where "erase_fixup_loop (Some j) t1 = Some (Inr t2)" "settled i t1 (entries (plug (f1 # f2 # C) T)) t2"
      using t1(2) low by auto
    then show ?thesis using round True t1 low(5) by (intro exI [of _ t2]) (auto simp: settled_def intro: kept_trans)
  next
    case False
    then have e: "fsib f = Nod kBlack si a z b" using S by simp
    show ?thesis
    proof (cases "fcol f = kRed \<or> col a = kRed \<or> col b = kRed")
      case True
      then show ?thesis by (rule erase_last_round [OF Cons.prems(1-4,6) e])
    next
      case False
      then have ab: "fcol f = kBlack" "col a = kBlack" "col b = kBlack" by auto
      note R = pushed_up [OF Cons.prems(3) fr Cons.prems(4) s(1) e ab(2,3) s(2)]
      obtain t1 where t1: "pt_set_c (Some si) kRed t = Inr t1" "focus t1 (fpaint_sib kRed f # C) T" "kept t t1"
        using paint_sibling [OF Cons.prems(1)] e by (auto simp: yields_def)
      have "pt_is_red t1 (Some (fid f)) = Inr False" using focus_parent [OF t1(2)] ab(1) by (simp add: pt_is_red_def)
      then have "erase_fixup_loop (Some j) t = erase_fixup_loop (Some (fid f)) t1" using round \<open>e \<noteq> kRed\<close> ab(2,3) t1(1) by simp
      moreover have "fpaint kBlack (fpaint_sib kRed f) = fpaint_sib kRed f" using ab(1) by (cases f) auto
      then have "focus t1 C (fill (fpaint kBlack (fpaint_sib kRed f)) T)" using t1(2) by (simp add: focus_fill)
      from Cons.IH [OF this R(6,1,2,4)] obtain t2 where "erase_fixup_loop (Some (fid f)) t1 = Some (Inr t2)"
          "settled i t1 (entries (plug C (fill (fpaint kBlack (fpaint_sib kRed f)) T))) t2"
        using R(3) s(3) ab(1) by auto
      ultimately show ?thesis using R(5) t1(3) by (intro exI [of _ t2]) (auto simp: settled_def entries_plug intro: kept_trans)
    qed
  qed
qed

end
