(* ===== verification/Heap_Erase.thy ===== *)
theory Heap_Erase
  imports Heap_Fixup
begin

text \<open>
  Removal of a node from a tree of \<open>Heap_RBTree\<close>: the three cases of a node with at most one child,
  and the swap of an internal node with its successor.
\<close>

section \<open>Taking a leaf out\<close>

lemma detach_at:
  assumes "focus t (f # C) (Nod c i Tip x Tip)"
  shows "yields (rbind (pt_replace_child (Some (fid f)) (Some i) None t) (destroy_node (Some i))) (\<lambda>t'. focus t' (f # C) Tip \<and> kept t t')"
proof (cases f)
  case (InL d p y S)
  then show ?thesis using assms by (auto simp: yields_def focus_def pt_eval destroy_node_def kept_def pt_node_def)
next
  case (InR d p S y)
  then show ?thesis using assms by (auto simp: yields_def focus_def pt_eval destroy_node_def kept_def pt_node_def)
qed

lemma settled_detach:
  assumes "settled i t es t1" "length es \<noteq> 1"
  shows "\<exists>t' T'. rbind (rbind (pt_node t1 (Some i)) (\<lambda>n. require (pn_p n \<noteq> None) (pt_replace_child (pn_p n) (Some i) None t1))) (destroy_node (Some i)) = Inr t' \<and>
    focus t' [] T' \<and> kept t t' \<and> entries T' = filter (\<lambda>e. fst e \<noteq> i) es \<and> rbi T' \<and> col T' = kBlack"
proof -
  obtain T where T: "focus t1 [] T" "kept t t1" "entries T = es" "leaf i T" "rbi (without i T)" "col (without i T) = kBlack"
    using assms(1) unfolding settled_def by blast
  have dist: "distinct (ids T)" using T(1) by (simp add: focus_heap)
  obtain C c x where C: "plug C (Nod c i Tip x Tip) = T" "without i T = plug C Tip" using leaf_plug [OF T(4) dist] by blast
  obtain f D where fD: "C = f # D" using C(1) T(3) assms(2) by (cases C) auto
  have f: "focus t1 (f # D) (Nod c i Tip x Tip)" using T(1) C(1) focus_plug [of t1 C] fD by simp
  obtain t' where t': "rbind (pt_replace_child (Some (fid f)) (Some i) None t1) (destroy_node (Some i)) = Inr t'" "focus t' (f # D) Tip" "kept t1 t'"
    using detach_at [OF f] by (auto simp: yields_def)
  have "es = before C @ (i, x) # after C" using T(3) C(1) entries_plug [of C "Nod c i Tip x Tip"] by simp
  moreover have "i \<notin> fst ` set (before C)" "i \<notin> fst ` set (after C)"
    using f set_cids [of C] unfolding focus_def fD by auto
  then have "filter (\<lambda>e. fst e \<noteq> i) (before C) = before C" "filter (\<lambda>e. fst e \<noteq> i) (after C) = after C" by (auto simp: filter_id_conv)
  ultimately have "entries (plug C Tip) = filter (\<lambda>e. fst e \<noteq> i) es" by (simp add: entries_plug)
  moreover have "focus t' [] (plug C Tip)" using t'(2) focus_plug [of t' C] fD by simp
  ultimately show ?thesis using t' T(2,5,6) C(2) focus_node [OF f] by (intro exI [of _ t'] exI [of _ "plug C Tip"]) (auto intro: kept_trans)
qed

text \<open>A tree from which one entry has been taken.\<close>

definition removed :: "nat \<Rightarrow> ('k, 'v) ptree \<Rightarrow> (nat \<times> 'k \<times> 'v) list \<Rightarrow> ('k, 'v) ptree \<Rightarrow> bool" where
  "removed i t es t' \<longleftrightarrow> (\<exists>T'. focus t' [] T' \<and> kept t t' \<and> entries T' = filter (\<lambda>e. fst e \<noteq> i) es \<and> rbi T' \<and> col T' = kBlack)"

lemma erase_fixup_at:
  assumes "focus t (f # C) (Nod kBlack i Tip x Tip)" "fits (f # C) 1"
  shows "\<exists>t'. erase_fixup (Some i) t = Some (Inr t') \<and> settled i t (entries (plug (f # C) (Nod kBlack i Tip x Tip))) t'"
proof -
  let ?T = "Nod kBlack i Tip x Tip"
  obtain t1 where t1: "erase_fixup_loop (Some i) t = Some (Inr t1)" "settled i t (entries (plug (f # C) ?T)) t1"
    using erase_fixup_loop_at [OF assms(1), of i Tip x Tip i] assms(2) by auto
  then obtain T where T: "focus t1 [] T" "kept t t1" "entries T = entries (plug (f # C) ?T)" "leaf i T" "rbi (without i T)" "col (without i T) = kBlack"
    unfolding settled_def by blast
  have "length (entries (plug (f # C) ?T)) \<noteq> 1" unfolding entries_plug by (cases f) auto
  then have "length (entries T) \<noteq> 1" using T(3) by simp
  then have c: "col T = kBlack" using T(4,6) by (cases T) (auto split: if_splits)
  have "T \<noteq> Tip" "pt_root t1 = hid T" using T(1,4) by (auto simp: focus_heap)
  then obtain t2 where "pt_set_c (pt_root t1) kBlack t1 = Inr t2" "focus t2 [] T" "kept t1 t2"
    using paint_below [OF T(1), of kBlack] paint_black [OF c] by (auto simp: yields_def)
  then show ?thesis using t1(1) T \<open>T \<noteq> Tip\<close> \<open>pt_root t1 = hid T\<close>
    by (intro exI [of _ t2]) (auto simp: erase_fixup_def settled_def intro: kept_trans)
qed

section \<open>Removal of a node with at most one child\<close>

lemma filter_focus:
  assumes "focus t C (Nod c i l x r)"
  shows "filter (\<lambda>e. fst e \<noteq> i) (entries (plug C (Nod c i l x r))) = before C @ entries l @ entries r @ after C"
proof -
  have "i \<notin> fst ` set (before C)" "i \<notin> fst ` set (after C)" "i \<notin> fst ` set (entries l)" "i \<notin> fst ` set (entries r)"
    using assms set_cids [of C] unfolding focus_def by (auto simp: ids_def)
  then have "filter (\<lambda>e. fst e \<noteq> i) es = es" if "es \<in> {before C, after C, entries l, entries r}" for es
    using that by (auto simp: filter_id_conv)
  then show ?thesis by (simp add: entries_plug)
qed

lemma remove_red_leaf:
  assumes "focus t C (Nod kRed i Tip x Tip)" "rbi (plug C (Nod kRed i Tip x Tip))" "col (plug C (Nod kRed i Tip x Tip)) = kBlack"
  shows "\<exists>t'. erase_removal (Some i) t = Some (Inr t') \<and> removed i t (entries (plug C (Nod kRed i Tip x Tip))) t'"
proof -
  let ?T = "Nod kRed i Tip x Tip"
  have fits: "fits C 0" "cfirst C = kBlack" using iffD1 [OF rbi_plug] assms(2,3) by fastforce+
  then obtain f D where C: "C = f # D" by (cases C) auto
  note f = assms(1) [unfolded C]
  obtain t' where t': "rbind (pt_replace_child (Some (fid f)) (Some i) None t) (destroy_node (Some i)) = Inr t'" "focus t' (f # D) Tip" "kept t t'"
    using detach_at [OF f] by (auto simp: yields_def)
  have "Some i \<noteq> pt_root t" using focus_at_root [OF f] by simp
  then have "unlink_leaf t (Some i) = pt_replace_child (Some (fid f)) (Some i) None t"
    using focus_node [OF f] focus_parent [OF f] by (cases f) (auto simp: unlink_leaf_def)
  then have "erase_removal (Some i) t = Some (rbind (pt_replace_child (Some (fid f)) (Some i) None t) (destroy_node (Some i)))"
    using focus_node [OF f] focus_is_red [OF f] by (simp add: erase_removal_def num_of_children_def rbind_def split: sum.split)
  moreover have "rbi (plug C Tip) \<and> col (plug C Tip) = kBlack" unfolding rbi_plug using fits by simp
  moreover have "entries (plug C Tip) = filter (\<lambda>e. fst e \<noteq> i) (entries (plug C ?T))" unfolding filter_focus [OF assms(1)] by (simp add: entries_plug)
  ultimately show ?thesis using t' focus_plug [of t' C Tip] C unfolding removed_def by (intro exI [of _ t'] conjI exI [of _ "plug C Tip"]) simp_all
qed

lemma remove_black_leaf:
  assumes "focus t (f # C) (Nod kBlack i Tip x Tip)" "rbi (plug (f # C) (Nod kBlack i Tip x Tip))" "col (plug (f # C) (Nod kBlack i Tip x Tip)) = kBlack"
  shows "\<exists>t'. erase_removal (Some i) t = Some (Inr t') \<and> removed i t (entries (plug (f # C) (Nod kBlack i Tip x Tip))) t'"
proof -
  let ?es = "entries (plug (f # C) (Nod kBlack i Tip x Tip))"
  have "fits (f # C) 1" using iffD1 [OF rbi_plug] assms(2,3) by fastforce
  then obtain t1 where t1: "erase_fixup (Some i) t = Some (Inr t1)" "settled i t ?es t1" using erase_fixup_at [OF assms(1)] by blast
  have "length ?es \<noteq> 1" unfolding entries_plug by (cases f) auto
  then obtain t' T' where t': "rbind (rbind (pt_node t1 (Some i)) (\<lambda>n. require (pn_p n \<noteq> None) (pt_replace_child (pn_p n) (Some i) None t1))) (destroy_node (Some i)) = Inr t'"
      "focus t' [] T'" "kept t t'" "entries T' = filter (\<lambda>e. fst e \<noteq> i) ?es" "rbi T'" "col T' = kBlack"
    using settled_detach [OF t1(2)] by blast
  have "erase_removal (Some i) t = Some (Inr t')"
    using t1(1) t'(1) focus_node [OF assms(1)] focus_is_red [OF assms(1)]
    by (cases "rbind (pt_node t1 (Some i)) (\<lambda>n. require (pn_p n \<noteq> None) (pt_replace_child (pn_p n) (Some i) None t1))") (simp_all add: erase_removal_def num_of_children_def)
  then show ?thesis using t' unfolding removed_def by blast
qed

lemma only_child: "rbi T \<Longrightarrow> bh T = 0 \<Longrightarrow> T \<noteq> Tip \<Longrightarrow> \<exists>j y. T = Nod kRed j Tip y Tip"
proof (cases T)
  case (Nod c j l y r)
  assume a: "rbi T" "bh T = 0"
  then have "c = kRed" "bh l = 0" "bh r = 0" "col l = kBlack" "col r = kBlack" using Nod by (auto split: if_splits)
  then show ?thesis using Nod by (cases l; cases r) (auto split: if_splits)
qed simp

lemma splice_at:
  assumes "focus t C (Nod kBlack i l x r)" "l = Tip \<and> r = Nod kRed j Tip y Tip \<or> r = Tip \<and> l = Nod kRed j Tip y Tip"
  shows "yields (rbind (erase_single_child (Some i) t) (destroy_node (Some i))) (\<lambda>t'. focus t' C (Nod kBlack j Tip y Tip) \<and> kept t t')"
proof (cases C)
  case Nil
  then show ?thesis using assms
    by (auto simp: yields_def focus_def erase_single_child_def pt_eval destroy_node_def kept_def pt_is_red_def num_of_children_def Let_def)
next
  case (Cons f D)
  then show ?thesis using assms
    by (cases f) (auto simp: yields_def focus_def erase_single_child_def pt_eval destroy_node_def kept_def pt_is_red_def num_of_children_def Let_def)
qed

lemma remove_single_child:
  assumes "focus t C T" "T = Nod kBlack i l x r" "rbi (plug C T)" "col (plug C T) = kBlack" "l = Tip \<longleftrightarrow> r \<noteq> Tip"
  shows "\<exists>t'. erase_removal (Some i) t = Some (Inr t') \<and> removed i t (entries (plug C T)) t'"
proof -
  note f = assms(1) [unfolded assms(2)]
  have T: "rbi T" "fits C (bh T)" using iffD1 [OF rbi_plug] assms(3,4) by blast+
  obtain j y where j: "l = Tip \<and> r = Nod kRed j Tip y Tip \<or> r = Tip \<and> l = Nod kRed j Tip y Tip"
    using T(1) assms(2,5) only_child [of l] only_child [of r] by (cases "l = Tip") auto
  let ?U = "Nod kBlack j Tip y Tip"
  obtain t' where t': "rbind (erase_single_child (Some i) t) (destroy_node (Some i)) = Inr t'" "focus t' C ?U" "kept t t'"
    using splice_at [OF f j] by (auto simp: yields_def)
  have "erase_removal (Some i) t = Some (rbind (erase_single_child (Some i) t) (destroy_node (Some i)))"
    using focus_node [OF f] focus_is_red [OF f] assms(5) j by (auto simp: erase_removal_def num_of_children_def rbind_def split: sum.split)
  moreover have "rbi (plug C ?U) \<and> col (plug C ?U) = kBlack" unfolding rbi_plug using T assms(2) j by auto
  moreover have "entries (plug C ?U) = filter (\<lambda>e. fst e \<noteq> i) (entries (plug C T))" unfolding assms(2) filter_focus [OF f] using j by (auto simp: entries_plug)
  ultimately show ?thesis using t' focus_plug [of t' C ?U] unfolding removed_def by (intro exI [of _ t'] conjI exI [of _ "plug C ?U"]) simp_all
qed

text \<open>The three cases together.\<close>

lemma erase_removal_at:
  assumes "focus t C T" "T = Nod c i l x r" "rbi (plug C T)" "col (plug C T) = kBlack" "l = Tip \<or> r = Tip" "length (entries (plug C T)) \<noteq> 1"
  shows "\<exists>t'. erase_removal (Some i) t = Some (Inr t') \<and> removed i t (entries (plug C T)) t'"
proof (cases "l = Tip \<and> r = Tip")
  case True
  show ?thesis
  proof (cases c)
    case kRed
    then show ?thesis using remove_red_leaf [of t C i x] assms True by simp
  next
    case kBlack
    obtain f D where C: "C = f # D" using assms(2,6) True by (cases C) auto
    show ?thesis using remove_black_leaf [of t f D i x] assms True kBlack C by simp
  qed
next
  case False
  have "rbi T" using iffD1 [OF rbi_plug] assms(3,4) by blast
  then have "c = kBlack" using assms(2,5) False by (cases c; cases l; cases r) (auto split: if_splits)
  then show ?thesis using remove_single_child [of t C T i l x r] assms False by auto
qed

section \<open>Swapping a node with its successor\<close>

lemma pt_swap_near_at:
  assumes "focus t (f # C) (Nod c i l x (Nod d s Tip y q))" "l \<noteq> Tip"
  shows "yields (pt_swap_near (Some i) (Some s) t) (\<lambda>t'. focus t' (f # C) (Nod d s l y (Nod c i Tip x q)) \<and> kept t t')"
proof -
  obtain e j a z b where l: "l = Nod e j a z b" using assms(2) by (cases l) auto
  show ?thesis
    using assms(1) unfolding l
    by (cases f; cases q) (auto simp: yields_def focus_def pt_swap_near_def pt_eval kept_def)
qed

lemma pt_swap_near_root:
  assumes "focus t [] (Nod c i l x (Nod d s Tip y q))" "l \<noteq> Tip"
  shows "yields (pt_swap_near (Some i) (Some s) t) (\<lambda>t'. focus (t'\<lparr>pt_root := Some s\<rparr>) [] (Nod d s l y (Nod c i Tip x q)) \<and> pt_root t' = Some i \<and> kept t t')"
proof -
  obtain e j a z b where l: "l = Nod e j a z b" using assms(2) by (cases l) auto
  show ?thesis
    using assms(1) unfolding l
    by (cases q) (auto simp: yields_def focus_def pt_swap_near_def pt_eval kept_def)
qed

text \<open>The path from the right child of the node down to its successor, when they differ, is a path to the left.\<close>

lemma pt_swap_far_one:
  assumes "focus t (InL e p w b # InR c i l x # C) (Nod d s Tip y q)" "l \<noteq> Tip"
  shows "yields (pt_swap_far (Some i) (Some s) t) (\<lambda>t'. focus t' (InL e p w b # InR d s l y # C) (Nod c i Tip x q) \<and> kept t t')"
proof -
  obtain g j a z h where l: "l = Nod g j a z h" using assms(2) by (cases l) auto
  show ?thesis
  proof (cases C)
    case Nil
    show ?thesis using assms(1) unfolding l Nil
      by (cases q) (auto simp: yields_def focus_def pt_swap_far_def pt_eval kept_def)
  next
    case (Cons f D)
    show ?thesis using assms(1) unfolding l Cons
      by (cases f; cases q) (auto simp: yields_def focus_def pt_swap_far_def pt_eval kept_def)
  qed
qed

fun mshape :: "(nat \<rightharpoonup> ('k, 'v) pnode) \<Rightarrow> ('k, 'v) crumb list \<Rightarrow> nat option \<Rightarrow> nat option \<Rightarrow> bool" where
  "mshape h [] q p = True"
| "mshape h (InL c i x r # M) q p =
     (h i = Some \<lparr>pn_v = x, pn_p = (if M = [] then p else cpar M), pn_l = q, pn_r = hid r, pn_c = c\<rparr> \<and> hshape h (Some i) r \<and> mshape h M (Some i) p)"
| "mshape h (InR c i l x # M) q p =
     (h i = Some \<lparr>pn_v = x, pn_p = (if M = [] then p else cpar M), pn_l = hid l, pn_r = q, pn_c = c\<rparr> \<and> hshape h (Some i) l \<and> mshape h M (Some i) p)"

lemma cshape_append: "cshape h (M @ E) q \<longleftrightarrow> mshape h M q (cpar E) \<and> cshape h E (croot M q)"
proof (induction M arbitrary: q)
  case (Cons f M)
  then show ?case by (cases f) (auto simp: cpar_append)
qed simp

lemma mshape_other [simp]: "i \<notin> set (cids M) \<Longrightarrow> mshape (h(i := v)) M q p = mshape h M q p"
  by (induction h M q p rule: mshape.induct) auto

lemma cids_append [simp]: "cids (M @ E) = cids M @ cids E"
  by (induction M) simp_all

lemma croot_append: "croot (M @ E) q = croot E (croot M q)"
  by (induction M arbitrary: q) simp_all

lemma pt_swap_far_many:
  assumes "focus t (InL e p w b # M @ InL e1 p1 w1 b1 # InR c i l x # C) (Nod d s Tip y q)" "l \<noteq> Tip"
  shows "yields (pt_swap_far (Some i) (Some s) t) (\<lambda>t'. focus t' (InL e p w b # M @ InL e1 p1 w1 b1 # InR d s l y # C) (Nod c i Tip x q) \<and> kept t t')"
proof -
  obtain g j a z h where l: "l = Nod g j a z h" using assms(2) by (cases l) auto
  show ?thesis
  proof (cases C)
    case Nil
    show ?thesis using assms(1) unfolding l Nil
      by (cases q) (auto simp: yields_def focus_def pt_swap_far_def pt_eval kept_def cshape_append croot_append cpar_append simp del: focus_up split: if_splits)
  next
    case (Cons f D)
    show ?thesis using assms(1) unfolding l Cons
      by (cases f; cases q) (auto simp: yields_def focus_def pt_swap_far_def pt_eval kept_def cshape_append croot_append cpar_append simp del: focus_up split: if_splits)
  qed
qed

definition leftward :: "('k, 'v) crumb list \<Rightarrow> bool" where
  "leftward D \<longleftrightarrow> (\<forall>f\<in>set D. side f < 0)"

lemma leftward_InL: "side f < 0 \<Longrightarrow> \<exists>e p w b. f = InL e p w b"
  by (cases f) simp_all

lemma pt_swap_far_at:
  assumes "focus t (D @ InR c i l x # C) (Nod d s Tip y q)" "l \<noteq> Tip" "leftward D" "D \<noteq> []"
  shows "yields (pt_swap_far (Some i) (Some s) t) (\<lambda>t'. focus t' (D @ InR d s l y # C) (Nod c i Tip x q) \<and> kept t t')"
proof -
  obtain f E where D: "D = f # E" using assms(4) by (cases D) auto
  obtain e p w b where f: "f = InL e p w b" using assms(3) leftward_InL unfolding leftward_def D by fastforce
  show ?thesis
  proof (cases E rule: rev_cases)
    case Nil
    then show ?thesis using pt_swap_far_one [of t e p w b c i l x C d s y q] assms(1,2) unfolding D f Nil by simp
  next
    case (snoc M g)
    obtain e1 p1 w1 b1 where g: "g = InL e1 p1 w1 b1" using assms(3) leftward_InL unfolding leftward_def D snoc by fastforce
    show ?thesis using pt_swap_far_many [of t e p w b M e1 p1 w1 b1 c i l x C d s y q] assms(1,2) unfolding D f snoc g by simp
  qed
qed

fun leftmost_col :: "('k, 'v) rtree \<Rightarrow> color" where
  "leftmost_col Tip = kBlack"
| "leftmost_col (Nod c i l x r) = (if l = Tip then c else leftmost_col l)"

fun has_left :: "('k, 'v) rtree \<Rightarrow> bool" where
  "has_left Tip \<longleftrightarrow> False"
| "has_left (Nod c i l x r) \<longleftrightarrow> l \<noteq> Tip"

lemma leftmost:
  "T \<noteq> Tip \<Longrightarrow> \<exists>D s y q. T = plug D (Nod (leftmost_col T) s Tip y q) \<and> leftward D \<and> before D = [] \<and> (D = [] \<longleftrightarrow> \<not> has_left T)"
proof (induction T)
  case (Nod c i l x r)
  show ?case
  proof (cases "l = Tip")
    case True
    then show ?thesis by (intro exI [of _ "[]"] exI [of _ i] exI [of _ x] exI [of _ r]) (simp add: leftward_def)
  next
    case False
    then obtain D s y q where "l = plug D (Nod (leftmost_col l) s Tip y q)" "leftward D" "before D = []" using Nod.IH(1) by blast
    with False show ?thesis
      by (intro exI [of _ "D @ [InL c i x r]"] exI [of _ s] exI [of _ y] exI [of _ q]) (simp add: plug_append leftward_def)
  qed
qed simp

text \<open>Colours and black heights do not depend on what the nodes hold and where they are.\<close>

lemma plug_cong:
  assumes "rbi T' = rbi T" "bh T' = bh T" "col T' = col T"
  shows "rbi (plug D T') = rbi (plug D T)" "bh (plug D T') = bh (plug D T)" "col (plug D T') = col (plug D T)"
proof -
  have "rbi (plug D T') = rbi (plug D T) \<and> bh (plug D T') = bh (plug D T) \<and> col (plug D T') = col (plug D T)"
    using assms
  proof (induction D arbitrary: T T')
    case (Cons f D)
    show ?case unfolding plug.simps by (rule Cons.IH) (use Cons.prems in \<open>cases f; simp\<close>)+
  qed simp
  then show "rbi (plug D T') = rbi (plug D T)" "bh (plug D T') = bh (plug D T)" "col (plug D T') = col (plug D T)" by simp_all
qed

section \<open>Erasing a node\<close>

text \<open>
  The swap moves the nodes with their colours, and in the near case it leaves the root alone: it is
  sound when the colours agree, and the node is not the root or the successor is further down.
\<close>

fun swap_ok :: "bool \<Rightarrow> ('k, 'v) rtree \<Rightarrow> bool" where
  "swap_ok at_root (Nod c i l x r) \<longleftrightarrow> l = Tip \<or> r = Tip \<or> leftmost_col r = c \<and> (at_root \<longrightarrow> has_left r)"
| "swap_ok at_root Tip \<longleftrightarrow> True"

lemma erase_swap_at:
  assumes "focus t C (Nod c i l x r)" "l \<noteq> Tip" "r = plug D (Nod c s Tip y q)" "leftward D" "before D = []" "D = [] \<Longrightarrow> C \<noteq> []"
  shows "\<exists>t1. erase_position (Some i) t = Some (Inr (False, t1)) \<and> focus t1 (D @ InR c s l y # C) (Nod c i Tip x q) \<and> kept t t1"
proof -
  have f: "focus t (D @ InR c i l x # C) (Nod c s Tip y q)" using assms(1,3) by (simp add: focus_append)
  have "s \<notin> set (cids D)" using f by (simp add: focus_def)
  then have r: "r \<noteq> Tip" "hid r = Some s \<longleftrightarrow> D = []"
    using croot_in [of D "Some s"] croot_plug [of D "Nod c s Tip y q"] assms(3) by (cases "D = []"; auto)+
  have succ: "successor t (Some i) = Some (Inr (Some s))" using successor_at [OF assms(1)] assms(3,5) by (simp add: entries_plug)
  have "yields (if hid r = Some s then pt_swap_near (Some i) (Some s) t else pt_swap_far (Some i) (Some s) t)
      (\<lambda>t'. focus t' (D @ InR c s l y # C) (Nod c i Tip x q) \<and> kept t t')"
  proof (cases "D = []")
    case True
    then obtain g E where "C = g # E" using assms(6) by (cases C) auto
    then show ?thesis using pt_swap_near_at [of t g E c i l x c s y q] assms(1-3) True r(2) by simp
  next
    case False
    then show ?thesis using pt_swap_far_at [OF f assms(2,4)] r(2) by simp
  qed
  then show ?thesis using focus_node [OF assms(1)] focus_is_red [OF assms(1)] assms(2) r(1) succ
    by (auto simp: erase_position_def num_of_children_def yields_def)
qed

lemma removed_cong: "removed i t1 es t' \<Longrightarrow> kept t t1 \<Longrightarrow> filter (\<lambda>e. fst e \<noteq> i) es = filter (\<lambda>e. fst e \<noteq> i) es' \<Longrightarrow> removed i t es' t'"
  unfolding removed_def using kept_trans by metis

lemma erase_internal_at:
  assumes "focus t C N" "N = Nod c i l x r" "rbi (plug C N)" "col (plug C N) = kBlack" "l \<noteq> Tip" "r \<noteq> Tip" "swap_ok (C = []) N"
  shows "\<exists>t'. erase_impl (Some i) t = Some (Inr t') \<and> removed i t (entries (plug C N)) t'"
proof -
  obtain D s y q where D: "r = plug D (Nod c s Tip y q)" "leftward D" "before D = []" "D = [] \<longleftrightarrow> \<not> has_left r"
    using leftmost [OF assms(6)] assms(2,5-7) by auto
  note f = assms(1) [unfolded assms(2)]
  let ?E = "D @ InR c s l y # C" and ?M = "Nod c i Tip x q"
  obtain t1 where t1: "erase_position (Some i) t = Some (Inr (False, t1))" "focus t1 ?E ?M" "kept t t1"
    using erase_swap_at [OF f assms(5) D(1-3)] D(4) assms(2,5-7) by auto
  have "plug ?E ?M = plug C (Nod c s l y (plug D ?M))" by (simp add: plug_append)
  moreover have "rbi (plug D ?M) = rbi r" "bh (plug D ?M) = bh r" "col (plug D ?M) = col r"
    unfolding D(1) by (rule plug_cong; simp)+
  then have "rbi (Nod c s l y (plug D ?M)) = rbi N" "bh (Nod c s l y (plug D ?M)) = bh N" "col (Nod c s l y (plug D ?M)) = col N"
    unfolding assms(2) by (cases c; simp)+
  note plug_cong [OF this, of C]
  ultimately have "rbi (plug ?E ?M) = rbi (plug C N)" "col (plug ?E ?M) = col (plug C N)" by simp_all
  moreover have "length (entries (plug ?E ?M)) \<noteq> 1" by (simp add: plug_append entries_plug)
  ultimately obtain t' where t': "erase_removal (Some i) t1 = Some (Inr t')" "removed i t1 (entries (plug ?E ?M)) t'"
    using erase_removal_at [OF t1(2) refl] assms(3,4) by auto
  have e: "entries (plug D ?M) = (i, x) # entries q @ after D" "entries r = (s, y) # entries q @ after D" using D(1,3) by (simp_all add: entries_plug)
  have "filter (\<lambda>e. fst e \<noteq> i) (entries (plug ?E ?M)) = filter (\<lambda>e. fst e \<noteq> i) (entries (plug C N))"
    using e by (simp add: plug_append entries_plug [of C] assms(2))
  then show ?thesis using t1 t' removed_cong [OF t'(2) t1(3)] by (auto simp: erase_impl_def)
qed

lemma erase_impl_at:
  assumes "focus t C N" "N = Nod c i l x r" "rbi (plug C N)" "col (plug C N) = kBlack" "swap_ok (C = []) N"
  shows "\<exists>t'. erase_impl (Some i) t = Some (Inr t') \<and> removed i t (entries (plug C N)) t'"
proof -
  note f = assms(1) [unfolded assms(2)]
  note n = focus_node [OF f] focus_is_red [OF f]
  consider "l \<noteq> Tip" "r \<noteq> Tip" | "C = []" "l = Tip" "r = Tip" | "l = Tip \<or> r = Tip" "C \<noteq> [] \<or> l \<noteq> Tip \<or> r \<noteq> Tip" by blast
  then show ?thesis
  proof cases
    case 1
    then show ?thesis using erase_internal_at [OF assms(1-4)] assms(5) by blast
  next
    case 2
    then have "c = kBlack" using assms(2,4) by simp
    with 2 f n show ?thesis unfolding removed_def
      by (intro exI [of _ "t\<lparr>pt_root := None, pt_heap := (pt_heap t)(i := None)\<rparr>"])
        (auto simp: erase_impl_def erase_position_def num_of_children_def destroy_node_def pt_node_def focus_heap kept_def assms(2) intro!: exI [of _ Tip])
  next
    case 3
    have "rbi N" using iffD1 [OF rbi_plug] assms(3,4) by blast
    then have "c = kRed \<Longrightarrow> l = Tip \<and> r = Tip" using 3(1) assms(2) by (cases l; cases r) (auto split: if_splits)
    moreover have "Some i = pt_root t \<longleftrightarrow> C = []" using focus_at_root [OF f] by simp
    ultimately have "erase_position (Some i) t = Some (Inr (False, t))"
      using n 3 by (cases c) (auto simp: erase_position_def num_of_children_def)
    moreover have "length (entries (plug C N)) \<noteq> 1"
      using 3(2) assms(2) by (cases C; cases "hd C") (auto simp: entries_plug)
    ultimately show ?thesis using erase_removal_at [OF assms(1-4) 3(1)] by (auto simp: erase_impl_def)
  qed
qed

end
