(* ===== verification/Heap_Map.thy ===== *)
theory Heap_Map
  imports Heap_Erase
begin

text \<open>
  The tree of \<open>Heap_RBTree\<close> as an ordered map: the states a client reaches, what holds in them, and
  what its operations return there. \<open>Heap_Faults\<close> has the operations that go wrong.
\<close>

section \<open>Reachable states\<close>

text \<open>
  When \<open>erase\<close> of a node is sound: it has at most one child, or its successor has its colour and, for
  the root, is not its right child.
\<close>

definition pt_swap_sound :: "('k, 'v) ptree \<Rightarrow> nat option \<Rightarrow> bool" where
  "pt_swap_sound t node =
     (case pt_node t node of Inl e \<Rightarrow> True
      | Inr n \<Rightarrow> pn_l n = None \<or> pn_r n = None \<or>
         (case successor t node of Some (Inr s) \<Rightarrow>
            (case pt_node t s of Inr m \<Rightarrow> pn_c m = pn_c n \<and> (node = pt_root t \<longrightarrow> pn_r n \<noteq> s) | Inl e \<Rightarrow> False)
          | _ \<Rightarrow> False))"

definition pt_erase_sound :: "('k::linorder, 'v) ptree \<Rightarrow> 'k \<Rightarrow> bool" where
  "pt_erase_sound t k = (case pt_find (<) t k of Some (Inr it) \<Rightarrow> pt_swap_sound t (it_node it) | _ \<Rightarrow> True)"

text \<open>
  A tree that a client has built by insertions and sound erasures, with the entries it put there; an
  address space of 64 bits has no room for \<open>2 ^ 64\<close> nodes.
\<close>

inductive pt_built :: "('k::linorder, 'v) ptree \<Rightarrow> ('k \<times> 'v) list \<Rightarrow> bool" where
  built_new: "pt_built (pt_RBTree this) []"
| built_insert: "pt_built t xs \<Longrightarrow> Suc (length xs) < 2 ^ 64 \<Longrightarrow> pt_heap t a = None \<Longrightarrow> pt_insert (<) a t (k, v) = Some (Inr (r, t')) \<Longrightarrow> pt_built t' (put_sorted k v xs)"
| built_erase: "pt_built t xs \<Longrightarrow> pt_erase_sound t k \<Longrightarrow> pt_erase (<) t k = Some (Inr (n, t')) \<Longrightarrow> pt_built t' (filter (\<lambda>e. fst e \<noteq> k) xs)"

lemma tree_repD:
  assumes "tree_rep t T"
  shows "focus t [] T" "rbi T" "col T = kBlack" "sorted_wrt (<) (keys T)" "pt_sz t = of_nat (length (entries T))" "pt_root t = hid T" "distinct (keys T)"
  using assms by (auto simp: tree_rep_def focus_heap strict_sorted_iff)

lemma pt_find_at: "tree_rep t T \<Longrightarrow> pt_find (<) t k = Some (Inr (pt_iter_at t (holds_key k (entries T))))"
  using pt_find_loop_shape [of t None T k] by (simp add: tree_rep_def pt_find_def focus_heap)

lemma holds_key_None: "holds_key k es = None \<longleftrightarrow> k \<notin> fst ` snd ` set es"
  by (induction es) (auto simp: holds_key_def)

lemma holds_key_Some:
  assumes "holds_key k es = Some i"
  shows "\<exists>xs v ys. es = xs @ (i, k, v) # ys \<and> k \<notin> fst ` snd ` set xs"
  using assms
proof (induction es)
  case (Cons e es)
  obtain j a w where e: "e = (j, a, w)" by (cases e) auto
  show ?case
  proof (cases "a = k")
    case True
    then show ?thesis using Cons.prems e by (intro exI [of _ "[]"]) auto
  next
    case False
    then obtain xs v ys where "es = xs @ (i, k, v) # ys" "k \<notin> fst ` snd ` set xs" using Cons e by auto
    then show ?thesis using False e by (intro exI [of _ "e # xs"]) auto
  qed
qed simp

text \<open>The place of a key in the tree.\<close>

lemma key_place:
  assumes "tree_rep t T" "k \<in> set (keys T)"
  obtains C c i l v r where "focus t C (Nod c i l (k, v) r)" "plug C (Nod c i l (k, v) r) = T" "holds_key k (entries T) = Some i"
    "entries T = (before C @ entries l) @ (i, k, v) # entries r @ after C"
proof -
  obtain i where i: "holds_key k (entries T) = Some i" using assms(2) holds_key_None [of k "entries T"] by (cases "holds_key k (entries T)") (auto simp: keys_set)
  obtain xs v ys where es: "entries T = xs @ (i, k, v) # ys" using holds_key_Some [OF i] by blast
  obtain C c l r where "focus t C (Nod c i l (k, v) r)" "plug C (Nod c i l (k, v) r) = T" "xs = before C @ entries l" "ys = entries r @ after C"
    using focus_entry [OF tree_repD(1) [OF assms(1)] es] by auto
  with es i show thesis by (intro that) auto
qed

lemma pt_swap_sound_at:
  assumes "focus t C (Nod c i l x r)" "pt_swap_sound t (Some i)"
  shows "swap_ok (C = []) (Nod c i l x r)"
proof (cases "l = Tip \<or> r = Tip")
  case False
  then obtain D s y q where D: "r = plug D (Nod (leftmost_col r) s Tip y q)" "before D = []" "D = [] \<longleftrightarrow> \<not> has_left r"
    using leftmost [of r] by blast
  have f: "focus t (D @ InR c i l x # C) (Nod (leftmost_col r) s Tip y q)" using assms(1) D(1) by (simp add: focus_append)
  have "entries r = (s, y) # entries q @ after D" using entries_plug [of D "Nod (leftmost_col r) s Tip y q"] D by simp
  then have succ: "successor t (Some i) = Some (Inr (Some s))" using successor_at [OF assms(1)] by simp
  have "Some i = pt_root t \<longleftrightarrow> C = []" using focus_at_root [OF assms(1)] by simp
  moreover have "D = [] \<Longrightarrow> hid r = Some s" using D(1) by (metis hid.simps(2) plug.simps(1))
  ultimately show ?thesis using assms(2) succ False focus_node [OF assms(1)] focus_node [OF f] D(3) by (auto simp: pt_swap_sound_def)
qed auto

section \<open>Erasing\<close>

lemma filter_entry:
  assumes "distinct (map fst (xs @ (i, x) # ys))"
  shows "filter (\<lambda>e. fst e \<noteq> i) (xs @ (i, x) # ys) = xs @ ys"
proof -
  have "\<forall>e\<in>set xs. fst e \<noteq> i" "\<forall>e\<in>set ys. fst e \<noteq> i" using assms by force+
  then show ?thesis by (simp add: filter_True)
qed

lemma removed_rep:
  assumes "tree_rep t T" "removed i t (entries T) t1" "(i, k, v) \<in> set (entries T)"
  shows "\<exists>T'. tree_rep (t1\<lparr>pt_sz := pt_sz t1 - 1\<rparr>) T' \<and> entries T' = filter (\<lambda>e. fst e \<noteq> i) (entries T) \<and>
    map snd (entries T') = filter (\<lambda>e. fst e \<noteq> k) (map snd (entries T)) \<and> pt_sz t1 = pt_sz t \<and> pt_this t1 = pt_this t"
proof -
  note d = tree_repD [OF assms(1)]
  obtain T' where T': "focus t1 [] T'" "kept t t1" "entries T' = filter (\<lambda>e. fst e \<noteq> i) (entries T)" "rbi T'" "col T' = kBlack"
    using assms(2) unfolding removed_def by blast
  have "distinct (ids T)" using d(1) by (simp add: focus_heap)
  then have inj: "inj_on fst (set (entries T))" "inj_on (\<lambda>e. fst (snd e)) (set (entries T))" using d(7) by (simp_all add: ids_def keys_def distinct_map comp_def)
  have same: "fst e = i \<longleftrightarrow> fst (snd e) = k" if "e \<in> set (entries T)" for e
    using inj_on_eq_iff [OF inj(1) that assms(3)] inj_on_eq_iff [OF inj(2) that assms(3)] by simp
  have "map snd (filter (\<lambda>e. fst e \<noteq> i) (entries T)) = filter (\<lambda>e. fst e \<noteq> k) (map snd (entries T))"
    unfolding filter_map using same by (intro arg_cong [where f = "map snd"] filter_cong) auto
  moreover obtain xs ys where s: "entries T = xs @ (i, k, v) # ys" using assms(3) by (auto simp: in_set_conv_decomp)
  then have "filter (\<lambda>e. fst e \<noteq> i) (entries T) = xs @ ys" using filter_entry [of xs i "(k, v)" ys] \<open>distinct (ids T)\<close> by (simp add: ids_def)
  then have "pt_sz t1 - 1 = of_nat (length (entries T'))" "sorted_wrt (<) (keys T')"
    using T'(2,3) d(4,5) s by (auto simp: kept_def keys_def sorted_wrt_append)
  ultimately show ?thesis using T' unfolding tree_rep_def by (intro exI [of _ T']) (auto simp: kept_def)
qed

lemma pt_erase_iter_at:
  assumes "tree_rep t T" "entries T = xs @ (i, k, v) # ys" "pt_swap_sound t (Some i)" "length (entries T) < 2 ^ 64"
  shows "\<exists>t' T'. pt_erase_iter t (pt_iter_at t (Some i)) = Some (Inr (pt_iter_at t (first_addr ys), t')) \<and> tree_rep t' T' \<and> entries T' = xs @ ys \<and>
    pt_this t' = pt_this t \<and> map snd (entries T') = filter (\<lambda>e. fst e \<noteq> k) (map snd (entries T))"
proof -
  note d = tree_repD [OF assms(1)]
  obtain C c l r where C: "focus t C (Nod c i l (k, v) r)" "plug C (Nod c i l (k, v) r) = T" "ys = entries r @ after C"
    using focus_entry [OF d(1) assms(2)] by auto
  obtain t1 where t1: "erase_impl (Some i) t = Some (Inr t1)" "removed i t (entries T) t1"
    using erase_impl_at [OF C(1) refl] C(2) d(2,3) pt_swap_sound_at [OF C(1) assms(3)] by auto
  obtain T' where T': "tree_rep (t1\<lparr>pt_sz := pt_sz t1 - 1\<rparr>) T'" "entries T' = filter (\<lambda>e. fst e \<noteq> i) (entries T)" "pt_sz t1 = pt_sz t" "pt_this t1 = pt_this t"
      "map snd (entries T') = filter (\<lambda>e. fst e \<noteq> k) (map snd (entries T))"
    using removed_rep [OF assms(1) t1(2), of k v] assms(2) by auto
  have "distinct (ids T)" using d(1) by (simp add: focus_heap)
  then have "entries T' = xs @ ys" using T'(2) assms(2) filter_entry [of xs i "(k, v)" ys] by (simp add: ids_def)
  moreover have "unat (pt_sz t) = length (entries T)" using d(5) assms(4) by (simp add: unat_of_nat_small)
  then have "pt_sz t \<ge> 1" using assms(2) by (simp add: word_le_nat_alt)
  ultimately show ?thesis using T' t1(1) successor_at [OF C(1)] C(3)
    by (intro exI [of _ "t1\<lparr>pt_sz := pt_sz t1 - 1\<rparr>"] exI [of _ T']) (simp add: pt_erase_iter_def pt_iter_at_def pt_iter_eq_def pt_end_def)
qed

lemma pt_erase_at:
  assumes "tree_rep t T" "pt_erase_sound t k" "length (entries T) < 2 ^ 64"
  shows "\<exists>t' T'. pt_erase (<) t k = Some (Inr (if k \<in> set (keys T) then 1 else 0, t')) \<and> tree_rep t' T' \<and> pt_this t' = pt_this t \<and>
    map snd (entries T') = filter (\<lambda>e. fst e \<noteq> k) (map snd (entries T))"
proof (cases "k \<in> set (keys T)")
  case True
  obtain C c i l v r where i: "holds_key k (entries T) = Some i" "entries T = (before C @ entries l) @ (i, k, v) # entries r @ after C"
    by (rule key_place [OF assms(1) True])
  have find: "pt_find (<) t k = Some (Inr (pt_iter_at t (Some i)))" using pt_find_at [OF assms(1)] i(1) by simp
  then have "pt_swap_sound t (Some i)" using assms(2) by (simp add: pt_erase_sound_def)
  from pt_erase_iter_at [OF assms(1) i(2) this assms(3)] find True show ?thesis by (auto simp: pt_erase_def)
next
  case False
  have "filter (\<lambda>e. fst e \<noteq> k) (map snd (entries T)) = map snd (entries T)" using False by (intro filter_True) (auto simp: keys_set)
  moreover have "pt_find (<) t k = Some (Inr (pt_iter_at t None))" using pt_find_at [OF assms(1)] False holds_key_absent [of k "entries T"] by (simp add: keys_set)
  ultimately show ?thesis using False assms(1) by (auto simp: pt_erase_def)
qed

section \<open>What holds in every reachable state\<close>

text \<open>An insertion returns unless it meets the key of the root.\<close>

lemma pt_insert_cases:
  assumes "tree_rep t T" "pt_heap t a = None"
  shows "(case T of Nod c i l x r \<Rightarrow> fst x = k | Tip \<Rightarrow> False) \<Longrightarrow> pt_insert (<) a t (k, v) = Some (Inl AssertionFailed)"
    "\<not> (case T of Nod c i l x r \<Rightarrow> fst x = k | Tip \<Rightarrow> False) \<Longrightarrow>
      \<exists>t' T' i. pt_insert (<) a t (k, v) = Some (Inr ((pt_iter_at t (Some i), k \<notin> set (keys T)), t')) \<and> tree_rep t' T' \<and> pt_this t' = pt_this t \<and>
        map snd (entries T') = put_sorted k v (map snd (entries T)) \<and> (i, k, v) \<in> set (entries T')"
proof -
  show "pt_insert (<) a t (k, v) = Some (Inl AssertionFailed)" if "case T of Nod c i l x r \<Rightarrow> fst x = k | Tip \<Rightarrow> False"
    using that assms(1) pt_insert_at_root by (cases T) (auto simp del: pt_insert_def)
  assume a: "\<not> (case T of Nod c i l x r \<Rightarrow> fst x = k | Tip \<Rightarrow> False)"
  show "\<exists>t' T' i. pt_insert (<) a t (k, v) = Some (Inr ((pt_iter_at t (Some i), k \<notin> set (keys T)), t')) \<and> tree_rep t' T' \<and> pt_this t' = pt_this t \<and>
        map snd (entries T') = put_sorted k v (map snd (entries T)) \<and> (i, k, v) \<in> set (entries T')"
  proof (cases "k \<in> set (keys T)")
    case True
    have "\<And>c i l w r. T \<noteq> Nod c i l (k, w) r" using a by auto
    from pt_insert_present [OF assms(1) True this, of a v] show ?thesis using True by fastforce
  next
    case False
    from pt_insert_absent [OF assms(1) False assms(2), of v] show ?thesis using False by fastforce
  qed
qed

lemma focus_new: "focus (pt_RBTree this) [] Tip"
  by (simp add: focus_heap pt_RBTree_def)

lemma length_put_sorted: "length (put_sorted k v xs) \<le> Suc (length xs)"
  by (induction k v xs rule: put_sorted.induct) auto

lemma built_rep: "pt_built t xs \<Longrightarrow> \<exists>T. tree_rep t T \<and> map snd (entries T) = xs \<and> length xs < 2 ^ 64"
proof (induction rule: pt_built.induct)
  case (built_new this)
  show ?case using focus_new [of this] by (intro exI [of _ Tip]) (simp add: tree_rep_def pt_RBTree_def)
next
  case (built_insert t xs a k v r t')
  then obtain T where T: "tree_rep t T" "map snd (entries T) = xs" by blast
  have "length (put_sorted k v xs) < 2 ^ 64" using length_put_sorted [of k v xs] built_insert.hyps(2) by linarith
  with pt_insert_cases [OF T(1) built_insert.hyps(3), of k v] built_insert.hyps(4) T(2) show ?case by fastforce
next
  case (built_erase t xs k n t')
  then obtain T where T: "tree_rep t T" "map snd (entries T) = xs" "length xs < 2 ^ 64" by blast
  have "length (filter (\<lambda>e. fst e \<noteq> k) xs) < 2 ^ 64" using T(3) length_filter_le [of "\<lambda>e. fst e \<noteq> k" xs] by linarith
  moreover have "length (entries T) < 2 ^ 64" using T(2,3) by auto
  ultimately show ?case using pt_erase_at [OF T(1) built_erase.hyps(2)] built_erase.hyps(3) T(2) by fastforce
qed

section \<open>Concrete trees\<close>

text \<open>A client that inserts a list of entries, at the addresses from \<open>a\<close> on.\<close>

fun pt_puts :: "nat \<Rightarrow> ('k::linorder \<times> 'v) list \<Rightarrow> ('k, 'v) ptree \<Rightarrow> ('k, 'v) ptree run" where
  "pt_puts a [] t = Some (Inr t)"
| "pt_puts a (x # xs) t = (if pt_heap t a = None then fbind (pt_insert (<) a t x) (\<lambda>(r, t1). pt_puts (Suc a) xs t1) else Some (Inl BadAlloc))"

lemma pt_puts_built:
  assumes "pt_built t ys" "length ys + length xs < 2 ^ 64" "pt_puts a xs t = Some (Inr t')"
  shows "pt_built t' (foldl (\<lambda>zs (k, v). put_sorted k v zs) ys xs)"
  using assms
proof (induction a xs t arbitrary: ys rule: pt_puts.induct)
  case (2 a x xs t)
  obtain k v where x: "x = (k, v)" by (cases x)
  obtain r t1 where t1: "pt_heap t a = None" "pt_insert (<) a t x = Some (Inr (r, t1))" "pt_puts (Suc a) xs t1 = Some (Inr t')"
    using "2.prems"(3) by (auto simp: fbind_eq_Some split: if_splits)
  have b: "pt_built t1 (put_sorted k v ys)" by (rule built_insert [OF "2.prems"(1) _ t1(1) t1(2) [unfolded x]]) (use "2.prems"(2) in simp)
  have "length (put_sorted k v ys) + length xs < 2 ^ 64" using length_put_sorted [of k v ys] "2.prems"(2) by simp
  from "2.IH" [OF t1(1) b this t1(3)] show ?case by (simp add: x)
qed simp

text \<open>The key of the root.\<close>

definition root_key :: "('k, 'v) ptree \<Rightarrow> 'k option" where
  "root_key t = (case pt_node t (pt_root t) of Inl e \<Rightarrow> None | Inr n \<Rightarrow> Some (fst (pn_v n)))"

text \<open>The tree of the keys 1 to \<open>n\<close>, inserted in order.\<close>

definition upto_tree :: "nat \<Rightarrow> (nat, nat) ptree run" where
  "upto_tree n = pt_puts 0 (map (\<lambda>k. (k, 10 * k)) [1..<Suc n]) (pt_RBTree 99)"

lemma upto_built:
  assumes "upto_tree n = Some (Inr t)" "n < 2 ^ 64"
  shows "pt_built t (foldl (\<lambda>zs (k, v). put_sorted k v zs) [] (map (\<lambda>k. (k, 10 * k)) [1..<Suc n]))"
  using assms by (intro pt_puts_built [OF built_new [of 99]]) (simp_all add: upto_tree_def)

lemma upto_entries:
  "foldl (\<lambda>zs (k, v). put_sorted k v zs) [] (map (\<lambda>k. (k, 10 * k)) [1..<Suc 3]) = [(1, 10), (2, 20), (3, 30 :: nat)]"
  "foldl (\<lambda>zs (k, v). put_sorted k v zs) [] (map (\<lambda>k. (k, 10 * k)) [1..<Suc 6]) = [(1, 10), (2, 20), (3, 30), (4, 40), (5, 50), (6, 60 :: nat)]"
  by (code_simp)+

lemma upto_three: "\<exists>t n m. upto_tree 3 = Some (Inr t) \<and> pt_heap t 3 = None \<and> root_key t = Some 2 \<and> pt_erase_sound t 1 \<and>
  pt_root t = Some 1 \<and> pt_node t (Some 1) = Inr n \<and> pn_l n \<noteq> None \<and> pn_r n = Some 2 \<and> fst (pn_v n) = 2 \<and> pt_node t (Some 2) = Inr m \<and> pn_l m = None"
proof -
  have "case upto_tree 3 of Some (Inr t) \<Rightarrow> pt_heap t 3 = None \<and> root_key t = Some 2 \<and> pt_erase_sound t 1 \<and> pt_root t = Some 1 \<and>
     (case pt_node t (Some 1) of Inr n \<Rightarrow> pn_l n \<noteq> None \<and> pn_r n = Some 2 \<and> fst (pn_v n) = 2 | Inl e \<Rightarrow> False) \<and>
     (case pt_node t (Some 2) of Inr m \<Rightarrow> pn_l m = None | Inl e \<Rightarrow> False) | _ \<Rightarrow> False"
    by code_simp
  then show ?thesis by (auto split: option.splits sum.splits)
qed

lemma upto_six: "\<exists>t n m p. upto_tree 6 = Some (Inr t) \<and> pt_node t (Some 3) = Inr n \<and> pn_c n = kRed \<and> pn_l n \<noteq> None \<and> pn_r n = Some 4 \<and> fst (pn_v n) = 4 \<and>
  pt_node t (Some 4) = Inr m \<and> pn_l m = None \<and> pn_r m = Some 5 \<and> pt_node t (Some 5) = Inr p \<and> pn_v p = (6, 60)"
proof -
  have "case upto_tree 6 of Some (Inr t) \<Rightarrow>
     (case pt_node t (Some 3) of Inr n \<Rightarrow> pn_c n = kRed \<and> pn_l n \<noteq> None \<and> pn_r n = Some 4 \<and> fst (pn_v n) = 4 | Inl e \<Rightarrow> False) \<and>
     (case pt_node t (Some 4) of Inr m \<Rightarrow> pn_l m = None \<and> pn_r m = Some 5 | Inl e \<Rightarrow> False) \<and>
     (case pt_node t (Some 5) of Inr p \<Rightarrow> pn_v p = (6, 60) | Inl e \<Rightarrow> False) | _ \<Rightarrow> False"
    by code_simp
  then show ?thesis by (auto split: option.splits sum.splits)
qed

section \<open>Reading\<close>

text \<open>A client that looks for a key, and one that goes from \<open>begin()\<close> to \<open>end()\<close>.\<close>

definition pt_look :: "('k::linorder, 'v) ptree \<Rightarrow> 'k \<Rightarrow> 'v option result" where
  "pt_look t k = ended (fbind (pt_find (<) t k) (\<lambda>it.
     if pt_iter_eq it (pt_end t) then Some (Inr None) else Some (rbind (pt_iter_deref t it) (\<lambda>x. Inr (Some (snd x))))))"

definition pt_all :: "('k::linorder, 'v) ptree \<Rightarrow> ('k \<times> 'v) list result" where
  "pt_all t = ended (fbind (pt_begin t) (pt_walk t))"

lemma map_of_place: "k \<notin> fst ` set xs \<Longrightarrow> map_of (xs @ (k, v) # ys) k = Some v"
  by (induction xs) auto

lemma key_entry: "k \<in> set (keys T) \<longleftrightarrow> map_of (map snd (entries T)) k \<noteq> None"
  by (simp add: keys_set map_of_eq_None_iff image_comp)

lemma pt_look_at: "tree_rep t T \<Longrightarrow> pt_look t k = Inr (map_of (map snd (entries T)) k)"
proof (cases "k \<in> set (keys T)")
  case True
  assume r: "tree_rep t T"
  obtain C c i l v r where C: "focus t C (Nod c i l (k, v) r)" "holds_key k (entries T) = Some i" "entries T = (before C @ entries l) @ (i, k, v) # entries r @ after C"
    by (rule key_place [OF \<open>tree_rep t T\<close> True])
  have "k \<notin> set (map (fst \<circ> snd) (before C @ entries l))" using tree_repD(7) [OF r] C(3) by (auto simp: keys_def)
  then have "map_of (map snd (entries T)) k = Some v"
    unfolding C(3) map_append list.map snd_conv by (intro map_of_place) (simp add: image_Un image_image)
  then show ?thesis using pt_find_at [OF r, of k] C(2) focus_node [OF C(1)] by (simp add: pt_look_def pt_iter_deref_def)
next
  case False
  assume r: "tree_rep t T"
  have "map_of (map snd (entries T)) k = None" using False key_entry [of k T] by simp
  then show ?thesis using pt_find_at [OF r, of k] False holds_key_absent [of k "entries T"] by (simp add: pt_look_def keys_set)
qed

lemma pt_all_at: "tree_rep t T \<Longrightarrow> pt_all t = Inr (map snd (entries T))"
  using pt_walk_at [of t T "[]" "entries T"] pt_min_at [of t T] by (simp add: tree_rep_def pt_all_def pt_begin_def)

interpretation pt: ordered_reads pt_built pt_look pt_all pt_size
proof
  fix t :: "('a, 'b) ptree" and xs k
  assume "pt_built t xs"
  then obtain T where T: "tree_rep t T" "map snd (entries T) = xs" "length xs < 2 ^ 64" using built_rep by blast
  show "sorted_wrt (<) (map fst xs)" using tree_repD(4) [OF T(1)] T(2) by (auto simp: keys_def)
  show "pt_look t k = Inr (map_of xs k)" using pt_look_at [OF T(1)] T(2) by simp
  show "pt_all t = Inr xs" using pt_all_at [OF T(1)] T(2) by simp
  show "pt_size t = length xs" using tree_repD(5) [OF T(1)] T(2,3) by (auto simp: pt_size_def unat_of_nat_small)
qed

text \<open>
  C8. In every state a client reaches by insertions and sound erasures, what it reads is the map it
  built: iteration from \<open>begin()\<close> ends and gives the entries in the order of their keys, iteration
  backwards from the last one gives them in reverse, \<open>size()\<close> is their number and \<open>find\<close> returns the
  value of a key exactly when the key was put there.
\<close>

theorem heap_tree_reads:
  assumes "pt_built t xs"
  shows "sorted_wrt (<) (map fst xs) \<and> pt_all t = Inr xs \<and> fbind (pt_max t) (\<lambda>n. pt_walk_back t (pt_iter_at t n)) = Some (Inr (rev xs)) \<and>
    pt_size t = length xs \<and> pt_look t k = Inr (map_of xs k)"
proof -
  obtain T where T: "tree_rep t T" "map snd (entries T) = xs" using built_rep [OF assms] by blast
  have "fbind (pt_max t) (\<lambda>n. pt_walk_back t (pt_iter_at t n)) = Some (Inr (rev xs))"
    using pt_max_at [OF tree_repD(1) [OF T(1)]] pt_walk_back_at [OF tree_repD(1) [OF T(1)], of "entries T" "[]"] T(2) by simp
  then show ?thesis using pt.order_law [OF assms] pt.all_entries [OF assms] pt.amount_entries [OF assms] pt.look_entry [OF assms] by simp
qed

theorem heap_tree_reads_witness:
  "\<exists>t. pt_built t [(1 :: nat, 10 :: nat), (2, 20), (3, 30)] \<and> pt_all t = Inr [(1, 10), (2, 20), (3, 30)] \<and>
    fbind (pt_max t) (\<lambda>n. pt_walk_back t (pt_iter_at t n)) = Some (Inr [(3, 30), (2, 20), (1, 10)]) \<and> pt_size t = 3 \<and> pt_look t 2 = Inr (Some 20)"
proof -
  obtain t where "upto_tree 3 = Some (Inr t)" using upto_three by blast
  from upto_built [OF this] have b: "pt_built t [(1 :: nat, 10 :: nat), (2, 20), (3, 30)]" unfolding upto_entries by simp
  from heap_tree_reads [OF b, of 2] b show ?thesis by (intro exI [of _ t]) simp
qed

section \<open>Inserting and erasing\<close>

lemma root_key_at: "focus t [] T \<Longrightarrow> root_key t = Some k \<longleftrightarrow> (case T of Nod c i l x r \<Rightarrow> fst x = k | Tip \<Rightarrow> False)"
  using focus_node [of t "[]"] by (cases T) (simp_all add: root_key_def focus_heap pt_node_def)

text \<open>
  C6. \<open>insert\<close> of a key that is not the root's ends in a tree that holds the key with the new value and
  every other entry as before; it returns an iterator to the entry, and whether the key is new. The
  state is again one of those that the client reaches.
\<close>

theorem heap_tree_insert:
  assumes "pt_built t xs" "Suc (length xs) < 2 ^ 64" "pt_heap t a = None" "root_key t \<noteq> Some k"
  shows "\<exists>i t'. pt_insert (<) a t (k, v) = Some (Inr ((pt_iter_at t (Some i), map_of xs k = None), t')) \<and>
    pt_built t' (put_sorted k v xs) \<and> pt_iter_deref t' (pt_iter_at t (Some i)) = Inr (k, v)"
proof -
  obtain T where T: "tree_rep t T" "map snd (entries T) = xs" using built_rep [OF assms(1)] by blast
  obtain t' T' i where t': "pt_insert (<) a t (k, v) = Some (Inr ((pt_iter_at t (Some i), k \<notin> set (keys T)), t'))" "tree_rep t' T'" "(i, k, v) \<in> set (entries T')"
    using pt_insert_cases(2) [OF T(1) assms(3), of k v] root_key_at [OF tree_repD(1) [OF T(1)]] assms(4) by metis
  obtain ys zs where "entries T' = ys @ (i, k, v) # zs" using t'(3) by (auto simp: in_set_conv_decomp)
  then obtain C c l r where "focus t' C (Nod c i l (k, v) r)" using focus_entry [OF tree_repD(1) [OF t'(2)], of ys i "(k, v)" zs] by auto
  then have "pt_iter_deref t' (pt_iter_at t (Some i)) = Inr (k, v)" by (simp add: pt_iter_deref_def focus_node)
  moreover have "k \<notin> set (keys T) \<longleftrightarrow> map_of xs k = None" using key_entry [of k T] T(2) by simp
  ultimately show ?thesis using t'(1) built_insert [OF assms(1-3)] by auto
qed

theorem heap_tree_insert_witness:
  "\<exists>t i t'. pt_built t [(1 :: nat, 10 :: nat), (2, 20), (3, 30)] \<and> pt_insert (<) 3 t (4, 40) = Some (Inr ((pt_iter_at t (Some i), True), t')) \<and>
    pt_built t' [(1, 10), (2, 20), (3, 30), (4, 40)] \<and> pt_iter_deref t' (pt_iter_at t (Some i)) = Inr (4, 40)"
proof -
  obtain t where t: "upto_tree 3 = Some (Inr t)" "pt_heap t 3 = None" "root_key t = Some 2" using upto_three by blast
  from upto_built [OF t(1)] have b: "pt_built t [(1 :: nat, 10 :: nat), (2, 20), (3, 30)]" unfolding upto_entries by simp
  from heap_tree_insert [OF b _ t(2), of 4 40] b t(3) show ?thesis by auto
qed

text \<open>
  C7. \<open>erase(key)\<close> that is sound ends in a tree without the key and with every other entry as before,
  and returns how many entries it took away. The state is again one of those that the client reaches.
\<close>

theorem heap_tree_erase:
  assumes "pt_built t xs" "pt_erase_sound t k"
  shows "\<exists>t'. pt_erase (<) t k = Some (Inr (if map_of xs k = None then 0 else 1, t')) \<and> pt_built t' (filter (\<lambda>e. fst e \<noteq> k) xs)"
proof -
  obtain T where T: "tree_rep t T" "map snd (entries T) = xs" "length xs < 2 ^ 64" using built_rep [OF assms(1)] by blast
  have "length (entries T) < 2 ^ 64" using T(2,3) by auto
  then obtain t' where t': "pt_erase (<) t k = Some (Inr (if k \<in> set (keys T) then 1 else 0, t'))" using pt_erase_at [OF T(1) assms(2)] by blast
  moreover have "k \<in> set (keys T) \<longleftrightarrow> map_of xs k \<noteq> None" using key_entry [of k T] T(2) by simp
  ultimately show ?thesis using built_erase [OF assms t'] by auto
qed

theorem heap_tree_erase_witness:
  "\<exists>t t'. pt_built t [(1 :: nat, 10 :: nat), (2, 20), (3, 30)] \<and> pt_erase_sound t 1 \<and> pt_erase (<) t 1 = Some (Inr (1, t')) \<and> pt_built t' [(2, 20), (3, 30)]"
proof -
  obtain t where t: "upto_tree 3 = Some (Inr t)" "pt_erase_sound t 1" using upto_three by blast
  from upto_built [OF t(1)] have b: "pt_built t [(1 :: nat, 10 :: nat), (2, 20), (3, 30)]" unfolding upto_entries by simp
  from heap_tree_erase [OF b t(2)] b t(2) show ?thesis by auto
qed

section \<open>Balance\<close>

text \<open>A search that gives up after it has looked at \<open>d\<close> nodes.\<close>

fun pt_find_within :: "nat \<Rightarrow> ('k::linorder, 'v) ptree \<Rightarrow> 'k \<Rightarrow> nat option \<Rightarrow> nat option run" where
  "pt_find_within d t key node =
     (if node = None then Some (Inr None)
      else case d of 0 \<Rightarrow> None
      | Suc e \<Rightarrow> fbind (Some (pt_node t node)) (\<lambda>n.
          if \<not> key < fst (pn_v n) \<and> \<not> fst (pn_v n) < key then Some (Inr node)
          else if key < fst (pn_v n) then pt_find_within e t key (pn_l n) else pt_find_within e t key (pn_r n)))"

declare pt_find_within.simps [simp del]

lemma pt_find_within_at: "focus t C T \<Longrightarrow> rheight T \<le> d \<Longrightarrow> pt_find_within d t k (hid T) = pt_find_loop (<) t k (hid T)"
proof (induction T arbitrary: C d)
  case (Nod c i l x r)
  then obtain e where d: "d = Suc e" "rheight l \<le> e" "rheight r \<le> e" by (cases d) auto
  note sub = Nod.IH(1) [OF focus_down(1) [OF Nod.prems(1)] d(2)] Nod.IH(2) [OF focus_down(2) [OF Nod.prems(1)] d(3)]
  show ?case using focus_node [OF Nod.prems(1)] sub d(1)
    by (subst pt_find_within.simps, subst pt_find_loop.simps) (simp add: Let_def)
qed (simp add: pt_find_within.simps pt_find_loop.simps)

lemma rbi_height: "rbi T \<Longrightarrow> rheight T \<le> 2 * bh T + (if col T = kRed then 1 else 0)"
proof (induction T)
  case (Nod c i l x r)
  then have "rheight l \<le> 2 * bh l + (if col l = kRed then 1 else 0)" "rheight r \<le> 2 * bh l + (if col r = kRed then 1 else 0)" by simp_all
  then show ?case using Nod.prems by (cases c; cases "col l"; cases "col r") auto
qed simp

lemma rbi_size: "rbi T \<Longrightarrow> 2 ^ bh T \<le> Suc (length (entries T))"
proof (induction T)
  case (Nod c i l x r)
  then have "2 ^ bh l \<le> Suc (length (entries l))" "2 ^ bh l \<le> Suc (length (entries r))" by simp_all
  then show ?case by (cases c) auto
qed simp

text \<open>
  C9. The tree stays a red-black tree: in every state a client reaches, the nodes on the heap are
  exactly those of a tree whose parent links are right, in which no red node has a red child, all
  paths have the same number of black nodes and the root is black. A search for any key looks at no
  more than twice the binary logarithm of \<open>size() + 1\<close> nodes.
\<close>

theorem heap_tree_balanced:
  assumes "pt_built t xs"
  shows "\<exists>T. hshape (pt_heap t) None T \<and> distinct (ids T) \<and> dom (pt_heap t) = set (ids T) \<and> pt_root t = hid T \<and> rbi T \<and> col T = kBlack \<and>
    2 ^ bh T \<le> pt_size t + 1 \<and> (\<forall>key. pt_find_within (2 * bh T) t key (pt_root t) = pt_find_loop (<) t key (pt_root t))"
proof -
  obtain T where T: "tree_rep t T" "map snd (entries T) = xs" using built_rep [OF assms] by blast
  note d = tree_repD [OF T(1)]
  have "rheight T \<le> 2 * bh T" using rbi_height [OF d(2)] d(3) by simp
  moreover have "2 ^ bh T \<le> pt_size t + 1" using rbi_size [OF d(2)] pt.amount_entries [OF assms] T(2) by auto
  ultimately show ?thesis using d pt_find_within_at [OF d(1)] by (intro exI [of _ T]) (auto simp: focus_heap)
qed

theorem heap_tree_balanced_witness:
  "\<exists>t T. pt_built t [(1 :: nat, 10 :: nat), (2, 20), (3, 30)] \<and> hshape (pt_heap t) None T \<and> distinct (ids T) \<and> dom (pt_heap t) = set (ids T) \<and> pt_root t = hid T \<and>
    rbi T \<and> col T = kBlack \<and> 2 ^ bh T \<le> pt_size t + 1 \<and> (\<forall>key. pt_find_within (2 * bh T) t key (pt_root t) = pt_find_loop (<) t key (pt_root t))"
proof -
  obtain t where "upto_tree 3 = Some (Inr t)" using upto_three by blast
  from upto_built [OF this] have b: "pt_built t [(1 :: nat, 10 :: nat), (2, 20), (3, 30)]" unfolding upto_entries by simp
  from heap_tree_balanced [OF b] b show ?thesis by blast
qed

section \<open>The destructor\<close>

lemma destroy_guard: "(if \<exists>i. p = Some i then recursive_destroy_node p t else Some (Inr t)) = recursive_destroy_node p t"
  by (cases p) (simp_all add: recursive_destroy_node.simps [of None])

lemma recursive_destroy_node_at:
  "hshape (pt_heap t) p T \<Longrightarrow> distinct (ids T) \<Longrightarrow>
   recursive_destroy_node (hid T) t = Some (Inr (t\<lparr>pt_heap := pt_heap t |` (- set (ids T))\<rparr>))"
proof (induction T arbitrary: p t)
  case Tip
  then show ?case by (simp add: recursive_destroy_node.simps)
next
  case (Nod c i l x r)
  let ?t1 = "t\<lparr>pt_heap := pt_heap t |` (- set (ids l))\<rparr>"
  let ?t2 = "t\<lparr>pt_heap := pt_heap t |` (- set (ids l) \<inter> - set (ids r))\<rparr>"
  have n: "pt_heap t i = Some \<lparr>pn_v = x, pn_p = p, pn_l = hid l, pn_r = hid r, pn_c = c\<rparr>" "i \<notin> set (ids l)" "i \<notin> set (ids r)" using Nod.prems by auto
  have l: "recursive_destroy_node (hid l) t = Some (Inr ?t1)" using Nod by auto
  have "hshape (pt_heap ?t1) (Some i) r = hshape (pt_heap t) (Some i) r"
    by (rule hshape_cong) (use Nod.prems(2) in \<open>auto simp: restrict_map_def\<close>)
  then have r: "recursive_destroy_node (hid r) ?t1 = Some (Inr ?t2)" using Nod.IH(2) [of ?t1 "Some i"] Nod.prems by (simp add: restrict_restrict)
  have "recursive_destroy_node (Some i) t = Some (destroy_node (Some i) ?t2)"
    using n l r by (subst recursive_destroy_node.simps) (simp add: destroy_guard pt_node_def)
  also have "destroy_node (Some i) ?t2 = Inr (t\<lparr>pt_heap := pt_heap t |` (- set (ids (Nod c i l x r)))\<rparr>)"
    using n by (auto simp: destroy_node_def pt_node_def restrict_map_def fun_eq_iff)
  finally show ?case by simp
qed

text \<open>
  C36. The destructor ends, frees every node exactly once and leaves none behind.
\<close>

theorem heap_tree_destroyed:
  assumes "pt_built t xs"
  shows "\<exists>t'. destructor t = Some (Inr t') \<and> pt_heap t' = Map.empty"
proof -
  obtain T where T: "tree_rep t T" using built_rep [OF assms] by blast
  note f = tree_repD(1) [OF T, unfolded focus_heap]
  have "pt_heap t |` (- dom (pt_heap t)) = Map.empty" by (auto simp: restrict_map_def fun_eq_iff)
  then show ?thesis using recursive_destroy_node_at [of t None T] f by (simp add: destructor_def)
qed

theorem heap_tree_destroyed_witness:
  "\<exists>t t'. pt_built t [(1 :: nat, 10 :: nat), (2, 20), (3, 30)] \<and> destructor t = Some (Inr t') \<and> pt_heap t' = Map.empty"
proof -
  obtain t where "upto_tree 3 = Some (Inr t)" using upto_three by blast
  from upto_built [OF this] have b: "pt_built t [(1 :: nat, 10 :: nat), (2, 20), (3, 30)]" unfolding upto_entries by simp
  from heap_tree_destroyed [OF b] b show ?thesis by blast
qed

end
