(* ===== verification/Heap_Faults.thy ===== *)
theory Heap_Faults
  imports Heap_Map
begin

text \<open>
  The operations of \<open>Heap_RBTree\<close> that go wrong: erasures of internal nodes that leave the root
  dangling or lose an entry, and the subscript operator.
\<close>

section \<open>Erasures that go wrong\<close>

text \<open>The key of a node of the tree leads to it.\<close>

lemma node_place:
  assumes "tree_rep t T" "pt_node t (Some i) = Inr n"
  obtains C l r where "focus t C (Nod (pn_c n) i l (pn_v n) r)" "plug C (Nod (pn_c n) i l (pn_v n) r) = T" "pn_l n = hid l" "pn_r n = hid r"
    "pt_find (<) t (fst (pn_v n)) = Some (Inr (pt_iter_at t (Some i)))"
proof -
  note d = tree_repD [OF assms(1)]
  have "i \<in> set (ids T)" using d(1) assms(2) by (auto simp: focus_heap pt_node_def split: option.splits)
  then obtain xs x ys where es: "entries T = xs @ (i, x) # ys" unfolding ids_def by (auto simp: in_set_conv_decomp)
  obtain C c l r where C: "focus t C (Nod c i l x r)" "plug C (Nod c i l x r) = T" using focus_entry [OF d(1) es] by auto
  have "holds_key (fst x) (entries T) = Some i" using holds_key_middle [of xs i x ys "fst x"] d(4) unfolding keys_def es by simp
  moreover have "n = \<lparr>pn_v = x, pn_p = cpar C, pn_l = hid l, pn_r = hid r, pn_c = c\<rparr>" using focus_node [OF C(1)] assms(2) by simp
  ultimately show thesis using C pt_find_at [OF assms(1), of "fst x"] by (intro that) simp_all
qed

lemma size_positive: "tree_rep t T \<Longrightarrow> length (entries T) < 2 ^ 64 \<Longrightarrow> T \<noteq> Tip \<Longrightarrow> pt_sz t \<ge> 1"
  using tree_repD(5) [of t T] by (cases T) (simp_all add: word_le_nat_alt unat_of_nat_small del: of_nat_Suc of_nat_add)

lemma pt_erase_via:
  assumes "tree_rep t T" "length (entries T) < 2 ^ 64" "pt_find (<) t k = Some (Inr (pt_iter_at t (Some i)))" "successor t (Some i) = Some (Inr s)"
    "erase_impl (Some i) t = Some (Inr t1)" "kept t t1"
  shows "pt_erase (<) t k = Some (Inr (1, t1\<lparr>pt_sz := pt_sz t1 - 1\<rparr>))"
proof -
  have "T \<noteq> Tip" using assms(1,3) pt_find_at [OF assms(1), of k] by (auto simp: pt_iter_at_def)
  then have "pt_sz t1 \<ge> 1" using size_positive [OF assms(1,2)] assms(6) by (simp add: kept_def)
  then show ?thesis using assms(3-5) by (simp add: pt_erase_def pt_erase_iter_def)
qed

lemma near_position:
  assumes "focus t C (Nod c i l x (Nod d s Tip y q))" "l \<noteq> Tip" "pt_swap_near (Some i) (Some s) t = Inr t1"
  shows "erase_position (Some i) t = Some (Inr (False, t1))" "successor t (Some i) = Some (Inr (Some s))"
proof -
  show succ: "successor t (Some i) = Some (Inr (Some s))" using successor_at [OF assms(1)] by simp
  show "erase_position (Some i) t = Some (Inr (False, t1))"
    using focus_node [OF assms(1)] focus_is_red [OF assms(1)] assms(2,3) succ by (auto simp: erase_position_def num_of_children_def)
qed

lemma dangling_find: "pt_root t = Some i \<Longrightarrow> pt_heap t i = None \<Longrightarrow> pt_find (<) t k = Some (Inl MemoryFault) \<and> pt_all t = Inl MemoryFault"
  by (simp add: pt_find_def pt_find_loop.simps pt_node_def pt_all_def pt_begin_def pt_min_def pt_down_l.simps)

lemma erase_root_removal:
  assumes "focus (t\<lparr>pt_root := Some s\<rparr>) [] (Nod d s l y (Nod kBlack i Tip x q))" "pt_root t = Some i" "q = Tip \<or> (\<exists>j z. q = Nod kRed j Tip z Tip)"
  shows "\<exists>t'. erase_removal (Some i) t = Some (Inr t') \<and> pt_root t' = Some i \<and> pt_heap t' i = None \<and> kept t t'"
proof -
  have h: "pt_heap t i = Some \<lparr>pn_v = x, pn_p = Some s, pn_l = None, pn_r = hid q, pn_c = kBlack\<rparr>"
    "pt_heap t s = Some \<lparr>pn_v = y, pn_p = None, pn_l = hid l, pn_r = Some i, pn_c = d\<rparr>" "i \<noteq> s" "hid l \<noteq> Some i"
    using assms(1) by (auto simp: focus_def)
  show ?thesis
  proof (cases q)
    case Tip
    then show ?thesis using h assms(2)
      by (auto simp: erase_removal_def num_of_children_def pt_is_red_def pt_is_black_def pt_eval erase_fixup_def erase_fixup_loop.simps destroy_node_def pt_node_def kept_def)
  next
    case (Nod e j a z b)
    then have j: "q = Nod kRed j Tip z Tip" using assms(3) by auto
    then have "pt_heap t j = Some \<lparr>pn_v = z, pn_p = Some i, pn_l = None, pn_r = None, pn_c = kRed\<rparr>" "j \<noteq> i" "j \<noteq> s"
      using assms(1) by (auto simp: focus_def)
    then show ?thesis using h assms(2) j
      by (auto simp: erase_removal_def erase_single_child_def num_of_children_def pt_is_red_def pt_is_black_def pt_eval destroy_node_def pt_node_def kept_def Let_def)
  qed
qed

text \<open>
  C37. Erasing the root when its right child is its successor leaves the tree without a root: the node
  is freed while \<open>root_\<close> still points to it, and every later \<open>find\<close> and every iteration reads freed
  memory.
\<close>

theorem erase_root_dangles:
  assumes "pt_built t xs" "pt_root t = Some i" "pt_node t (Some i) = Inr n" "pn_l n \<noteq> None" "pn_r n = Some s" "pt_node t (Some s) = Inr m" "pn_l m = None"
  shows "\<exists>t'. pt_erase (<) t (fst (pn_v n)) = Some (Inr (1, t')) \<and> pt_root t' = Some i \<and> pt_heap t' i = None \<and>
    pt_find (<) t' k = Some (Inl MemoryFault) \<and> pt_all t' = Inl MemoryFault"
proof -
  obtain T where T: "tree_rep t T" "map snd (entries T) = xs" "length xs < 2 ^ 64" using built_rep [OF assms(1)] by blast
  obtain C l r where C: "focus t C (Nod (pn_c n) i l (pn_v n) r)" "plug C (Nod (pn_c n) i l (pn_v n) r) = T" "pn_l n = hid l" "pn_r n = hid r"
      and find: "pt_find (<) t (fst (pn_v n)) = Some (Inr (pt_iter_at t (Some i)))"
    by (rule node_place [OF T(1) assms(3)])
  have root: "C = []" using focus_at_root [OF C(1)] assms(2) by simp
  then have c: "pn_c n = kBlack" using tree_repD(3) [OF T(1)] C(2) by auto
  obtain d y q where r: "r = Nod d s Tip y q"
    using focus_node [of t "InR (pn_c n) i l (pn_v n) # C"] C(1,4) assms(5-7) by (cases r) fastforce+
  have l: "l \<noteq> Tip" using assms(4) C(3) by auto
  have "rbi r" using tree_repD(2) [OF T(1)] C(2) root by auto
  then have q: "q = Tip \<or> (\<exists>j z. q = Nod kRed j Tip z Tip)" using only_child [of q] r by auto
  obtain t1 where t1: "pt_swap_near (Some i) (Some s) t = Inr t1" "focus (t1\<lparr>pt_root := Some s\<rparr>) [] (Nod d s l y (Nod kBlack i Tip (pn_v n) q))" "pt_root t1 = Some i" "kept t t1"
    using pt_swap_near_root [of t kBlack i l "pn_v n" d s y q] C(1) root r c l by (auto simp: yields_def)
  obtain t2 where t2: "erase_removal (Some i) t1 = Some (Inr t2)" "pt_root t2 = Some i" "pt_heap t2 i = None" "kept t1 t2"
    using erase_root_removal [OF t1(2,3) q] by blast
  note near = near_position [OF C(1) [unfolded r] l t1(1)]
  then have impl: "erase_impl (Some i) t = Some (Inr t2)" using t2(1) by (simp add: erase_impl_def)
  have "pt_erase (<) t (fst (pn_v n)) = Some (Inr (1, t2\<lparr>pt_sz := pt_sz t2 - 1\<rparr>))"
    by (rule pt_erase_via [OF T(1) _ find near(2) impl]) (use T(2,3) t1(4) t2(4) in \<open>auto simp: kept_def\<close>)
  moreover have "pt_find (<) (t2\<lparr>pt_sz := pt_sz t2 - 1\<rparr>) k = Some (Inl MemoryFault) \<and> pt_all (t2\<lparr>pt_sz := pt_sz t2 - 1\<rparr>) = Inl MemoryFault"
    by (rule dangling_find) (use t2 in simp_all)
  ultimately show ?thesis using t2(2,3) by auto
qed

theorem erase_root_dangles_witness:
  "\<exists>t t'. pt_built t [(1 :: nat, 10 :: nat), (2, 20), (3, 30)] \<and> pt_erase (<) t 2 = Some (Inr (1, t')) \<and> pt_root t' = Some 1 \<and> pt_heap t' 1 = None \<and>
    pt_find (<) t' 3 = Some (Inl MemoryFault) \<and> pt_all t' = Inl MemoryFault"
proof -
  obtain t n m where t: "upto_tree 3 = Some (Inr t)" "pt_root t = Some 1" "pt_node t (Some 1) = Inr n" "pn_l n \<noteq> None" "pn_r n = Some 2" "fst (pn_v n) = 2"
      "pt_node t (Some 2) = Inr m" "pn_l m = None" using upto_three by blast
  from upto_built [OF t(1)] have b: "pt_built t [(1 :: nat, 10 :: nat), (2, 20), (3, 30)]" unfolding upto_entries by simp
  from erase_root_dangles [OF b t(2-5,7,8), of 3] b t(6) show ?thesis by auto
qed

lemma plug_Nod [simp]: "plug C (Nod c i l x r) \<noteq> Tip"
proof (induction C arbitrary: c i l x r)
  case (Cons f C)
  then show ?case by (cases f) simp_all
qed simp

lemma col_plug: "C \<noteq> [] \<Longrightarrow> col (plug C T) = col (plug C T')"
proof (induction C arbitrary: T T')
  case (Cons f C)
  then show ?case by (cases C; cases f) auto
qed simp

lemma hshape_plug: "hshape h None (plug C T) \<longleftrightarrow> hshape h (cpar C) T \<and> cshape h C (hid T)"
proof (induction C arbitrary: T)
  case (Cons f C)
  then show ?case by (cases f) auto
qed simp

lemma erase_red_removal:
  assumes "focus t (f # C) (Nod d s l y (Nod kRed i Tip x Q))" "Q \<noteq> Tip" "col (plug (f # C) (Nod d s l y (Nod kRed i Tip x Q))) = kBlack"
  shows "\<exists>t'. erase_removal (Some i) t = Some (Inr t') \<and> hshape (pt_heap t') None (plug (f # C) (Nod d s l y Tip)) \<and>
    hshape (pt_heap t') (Some i) Q \<and> pt_root t' = hid (plug (f # C) (Nod d s l y Tip)) \<and> kept t t'"
proof -
  let ?D = "InR d s l y # f # C" and ?M = "Nod kRed i Tip x Q"
  have f: "focus t ?D ?M" "focus t [] (plug ?D ?M)" using assms(1) focus_plug [of t "f # C"] by simp_all
  obtain t2 where t2: "pt_set_c (pt_root t) kBlack t = Inr t2" "focus t2 ?D ?M" "kept t t2"
  proof -
    have "plug ?D ?M \<noteq> Tip" by (rule plug_Nod)
    from paint_below [OF f(2) this, of kBlack] paint_black [of "plug ?D ?M"] assms(3) show thesis
      using f(2) focus_plug [of _ "f # C"] by (auto simp: yields_def focus_heap intro: that)
  qed
  have root: "Some i \<noteq> pt_root t" "pt_root t \<noteq> None" using focus_at_root [OF f(1)] croot_in [of ?D "hid ?M"] f(1) by (auto simp: focus_def)
  have loop: "erase_fixup_loop (Some i) t = Some (Inr t)" using root(1) focus_is_red(2) [OF f(1)] by (simp add: erase_fixup_loop.simps)
  then have fixup: "erase_fixup (Some i) t = Some (Inr t2)" using root(2) t2(1) by (simp add: erase_fixup_def)
  have h: "pt_heap t2 i = Some \<lparr>pn_v = x, pn_p = Some s, pn_l = None, pn_r = hid Q, pn_c = kRed\<rparr>"
    "pt_heap t2 s = Some \<lparr>pn_v = y, pn_p = cpar (f # C), pn_l = hid l, pn_r = Some i, pn_c = d\<rparr>" "i \<noteq> s" "hid l \<noteq> Some i"
    and fresh: "i \<notin> set (cids (f # C))" "s \<notin> set (cids (f # C))" "i \<notin> set (ids l)" "s \<notin> set (ids l)" "i \<notin> set (ids Q)" "s \<notin> set (ids Q)"
    and sub: "hshape (pt_heap t2) (Some s) l" "hshape (pt_heap t2) (Some i) Q" "cshape (pt_heap t2) (f # C) (Some s)" "pt_root t2 = croot (f # C) (Some s)"
    using t2(2) unfolding focus_up by (auto simp: focus_def)
  let ?h = "(pt_heap t2)(s \<mapsto> \<lparr>pn_v = y, pn_p = cpar (f # C), pn_l = hid l, pn_r = None, pn_c = d\<rparr>, i := None)"
  have "erase_removal (Some i) t = Some (Inr (t2\<lparr>pt_heap := ?h\<rparr>))"
    using focus_node [OF f(1)] focus_is_red [OF f(1)] assms(2) fixup h
    by (simp add: erase_removal_def num_of_children_def pt_replace_child_def pt_set_ok destroy_node_def pt_node_def)
  moreover have "hshape ?h None (plug (f # C) (Nod d s l y Tip))" unfolding hshape_plug using h(3) fresh sub by simp
  ultimately show ?thesis using fresh(5,6) sub t2(3)
    by (intro exI [of _ "t2\<lparr>pt_heap := ?h\<rparr>"]) (simp add: croot_plug kept_def del: plug.simps croot.simps)
qed

lemma sorted_gap:
  fixes v :: "'k::linorder"
  assumes "sorted_wrt (<) (xs @ u # w # ms @ v # ns @ ys)"
  shows "sorted_wrt (<) (xs @ w # ys) \<and> v \<notin> set (xs @ w # ys)"
  using assms by (auto simp: sorted_wrt_append)

lemma pt_look_missing:
  assumes "hshape (pt_heap t) None T" "pt_root t = hid T" "sorted_wrt (<) (keys T)" "k \<notin> set (keys T)"
  shows "pt_look t k = Inr None"
  using pt_find_loop_shape [OF assms(1,3), of k] assms(2,4) holds_key_absent [of k "entries T"] by (simp add: pt_look_def pt_find_def keys_set)

text \<open>
  Erasing a red node whose right child has no left child and a right one loses a second entry: the
  key of that grandchild was in the map and is not found any more, though nobody erased it; its node
  is never freed and \<open>size()\<close> still counts it.
\<close>

theorem erase_loses_entry:
  assumes "pt_built t xs" "pt_node t (Some i) = Inr n" "pn_c n = kRed" "pn_l n \<noteq> None" "pn_r n = Some s"
    "pt_node t (Some s) = Inr m" "pn_l m = None" "pn_r m = Some j" "pt_node t (Some j) = Inr p"
  shows "\<exists>t'. pt_erase (<) t (fst (pn_v n)) = Some (Inr (1, t')) \<and> pt_look t (fst (pn_v p)) = Inr (Some (snd (pn_v p))) \<and>
    pt_look t' (fst (pn_v p)) = Inr None \<and> pt_heap t' j \<noteq> None \<and> pt_size t' = length xs - 1"
proof -
  obtain T where T: "tree_rep t T" "map snd (entries T) = xs" "length xs < 2 ^ 64" using built_rep [OF assms(1)] by blast
  note d = tree_repD [OF T(1)]
  obtain C l r where C: "focus t C (Nod kRed i l (pn_v n) r)" "plug C (Nod kRed i l (pn_v n) r) = T" "pn_l n = hid l" "pn_r n = hid r"
      and find: "pt_find (<) t (fst (pn_v n)) = Some (Inr (pt_iter_at t (Some i)))"
    using node_place [OF T(1) assms(2)] assms(3) by metis
  have l: "l \<noteq> Tip" using assms(4) C(3) by auto
  obtain e y Q where r: "r = Nod e s Tip y Q" "hid Q = Some j"
    using focus_node [of t "InR kRed i l (pn_v n) # C"] C(1,4) assms(5-8) by (cases r) fastforce+
  obtain g a b where Q: "Q = Nod g j a (pn_v p) b"
    using focus_node [of t "InR e s Tip y # InR kRed i l (pn_v n) # C"] C(1) r assms(9) by (cases Q) fastforce+
  obtain f D where fD: "C = f # D" using C(2) d(3) by (cases C) auto
  obtain t1 where t1: "pt_swap_near (Some i) (Some s) t = Inr t1" "focus t1 (f # D) (Nod e s l y (Nod kRed i Tip (pn_v n) Q))" "kept t t1"
    using pt_swap_near_at [of t f D kRed i l "pn_v n" e s y Q] C(1) fD r l by (auto simp: yields_def)
  have "col (plug (f # D) (Nod e s l y (Nod kRed i Tip (pn_v n) Q))) = kBlack" using C(2) d(3) fD col_plug [of "f # D" "Nod e s l y (Nod kRed i Tip (pn_v n) Q)" "Nod kRed i l (pn_v n) r"] by simp
  then obtain t2 where t2: "erase_removal (Some i) t1 = Some (Inr t2)" "hshape (pt_heap t2) None (plug (f # D) (Nod e s l y Tip))"
      "hshape (pt_heap t2) (Some i) Q" "pt_root t2 = hid (plug (f # D) (Nod e s l y Tip))" "kept t1 t2"
    using erase_red_removal [OF t1(2)] Q by blast
  note near = near_position [OF C(1) [unfolded r(1)] l t1(1)]
  let ?t = "t2\<lparr>pt_sz := pt_sz t2 - 1\<rparr>"
  have len: "length (entries T) < 2 ^ 64" "unat (pt_sz t) = length xs" using T(2,3) d(5) by (auto simp: unat_of_nat_small)
  have kept: "kept t t2" using kept_trans [OF t1(3) t2(5)] .
  have "erase_impl (Some i) t = Some (Inr t2)" using near t2(1) by (simp add: erase_impl_def)
  then have "pt_erase (<) t (fst (pn_v n)) = Some (Inr (1, ?t))" by (rule pt_erase_via [OF T(1) len(1) find near(2) _ kept])
  moreover have "pt_size ?t = length xs - 1"
    using kept len(2) size_positive [OF T(1) len(1)] C(2) unat_sub [of 1 "pt_sz t"] by (auto simp: pt_size_def kept_def entries_plug)
  moreover have e: "entries T = (before C @ entries l) @ (i, pn_v n) # (s, y) # entries a @ (j, pn_v p) # entries b @ after C"
    using C(2) r(1) Q entries_plug [of C] by auto
  have "entries (plug (f # D) (Nod e s l y Tip)) = before C @ entries l @ (s, y) # after C" using entries_plug [of "f # D"] fD by simp
  then have "sorted_wrt (<) (keys (plug (f # D) (Nod e s l y Tip))) \<and> fst (pn_v p) \<notin> set (keys (plug (f # D) (Nod e s l y Tip)))"
    using sorted_gap [of "map (fst \<circ> snd) (before C @ entries l)" "fst (pn_v n)" "fst y" "map (fst \<circ> snd) (entries a)"
      "fst (pn_v p)" "map (fst \<circ> snd) (entries b)" "map (fst \<circ> snd) (after C)"] d(4)
    unfolding keys_def e by simp
  then have "pt_look ?t (fst (pn_v p)) = Inr None" using t2(2,4) by (intro pt_look_missing [of ?t "plug (f # D) (Nod e s l y Tip)"]) simp_all
  moreover have "pt_look t (fst (pn_v p)) = Inr (Some (snd (pn_v p)))"
  proof -
    have "(fst (pn_v p), snd (pn_v p)) \<in> set xs" using T(2) e by auto
    then show ?thesis using pt.reads_agree [OF assms(1)] pt.all_entries [OF assms(1)] by auto
  qed
  ultimately show ?thesis using t2(3) Q by (intro exI [of _ ?t]) simp
qed

theorem erase_loses_entry_witness:
  "\<exists>t t'. pt_built t [(1 :: nat, 10 :: nat), (2, 20), (3, 30), (4, 40), (5, 50), (6, 60)] \<and> pt_erase (<) t 4 = Some (Inr (1, t')) \<and>
    pt_look t 6 = Inr (Some 60) \<and> pt_look t' 6 = Inr None \<and> pt_heap t' 5 \<noteq> None \<and> pt_size t' = 5"
proof -
  obtain t n m p where t: "upto_tree 6 = Some (Inr t)" "pt_node t (Some 3) = Inr n" "pn_c n = kRed" "pn_l n \<noteq> None" "pn_r n = Some 4" "fst (pn_v n) = 4"
      "pt_node t (Some 4) = Inr m" "pn_l m = None" "pn_r m = Some 5" "pt_node t (Some 5) = Inr p" "pn_v p = (6, 60)" using upto_six by blast
  from upto_built [OF t(1)] have b: "pt_built t [(1 :: nat, 10 :: nat), (2, 20), (3, 30), (4, 40), (5, 50), (6, 60)]" unfolding upto_entries by simp
  from erase_loses_entry [OF b t(2-5,7-10)] b t(6,11) show ?thesis by auto
qed

section \<open>The subscript operator\<close>

text \<open>
  \<open>operator[]\<close> on a key that is in the map destroys its value: the reference is to a value that has
  just been overwritten by \<open>mapped_type()\<close>. On the key of the root it aborts.
\<close>

theorem subscript_overwrites:
  assumes "pt_built t xs" "pt_heap t a = None" "map_of xs k = Some w"
  shows "if root_key t = Some k then pt_subscript dflt (<) a t k = Some (Inl AssertionFailed)
    else \<exists>i t'. pt_subscript dflt (<) a t k = Some (Inr (Some i, t')) \<and> pt_look t k = Inr (Some w) \<and> pt_look t' k = Inr (Some dflt)"
proof -
  obtain T where T: "tree_rep t T" "map snd (entries T) = xs" using built_rep [OF assms(1)] by blast
  note root = root_key_at [OF tree_repD(1) [OF T(1)], of k]
  show ?thesis
  proof (cases "root_key t = Some k")
    case True
    then show ?thesis using pt_insert_cases(1) [OF T(1) assms(2), of k dflt] root by (simp add: pt_subscript_def)
  next
    case False
    obtain t' T' i where t': "pt_insert (<) a t (k, dflt) = Some (Inr ((pt_iter_at t (Some i), k \<notin> set (keys T)), t'))" "tree_rep t' T'" "(i, k, dflt) \<in> set (entries T')"
      using pt_insert_cases(2) [OF T(1) assms(2), of k dflt] root False by metis
    obtain ys zs where "entries T' = ys @ (i, k, dflt) # zs" using t'(3) by (auto simp: in_set_conv_decomp)
    then obtain C c l r where "focus t' C (Nod c i l (k, dflt) r)" using focus_entry [OF tree_repD(1) [OF t'(2)], of ys i "(k, dflt)" zs] by auto
    then have "pt_subscript dflt (<) a t k = Some (Inr (Some i, t'))" using t'(1) by (simp add: pt_subscript_def pt_iter_deref_def focus_node)
    moreover have "(k, dflt) \<in> set (map snd (entries T'))" using t'(3) by force
    then have "pt_look t' k = Inr (Some dflt)"
      using pt_look_at [OF t'(2)] tree_repD(7) [OF t'(2)] map_of_is_SomeI [of "map snd (entries T')" k dflt] by (simp add: keys_def comp_def)
    ultimately show ?thesis using False pt_look_at [OF T(1)] T(2) assms(3) by auto
  qed
qed

theorem subscript_overwrites_witness:
  "\<exists>t i t'. pt_built t [(1 :: nat, 10 :: nat), (2, 20), (3, 30)] \<and> pt_subscript 0 (<) 3 t 2 = Some (Inl AssertionFailed) \<and>
    pt_subscript 0 (<) 3 t 3 = Some (Inr (Some i, t')) \<and> pt_look t 3 = Inr (Some 30) \<and> pt_look t' 3 = Inr (Some 0)"
proof -
  obtain t where t: "upto_tree 3 = Some (Inr t)" "pt_heap t 3 = None" "root_key t = Some 2" using upto_three by blast
  from upto_built [OF t(1)] have b: "pt_built t [(1 :: nat, 10 :: nat), (2, 20), (3, 30)]" unfolding upto_entries by simp
  from subscript_overwrites [OF b t(2), of 2 20 0] subscript_overwrites [OF b t(2), of 3 30 0] b t(3) show ?thesis by auto
qed

end
