(* ===== verification/Keyed_Map.thy ===== *)
theory Keyed_Map
  imports Simulation
begin

text \<open>
  The contract of an unbounded map from keys to values that allocates its entries on the heap, with
  its reference, a partial function: an insertion does not replace what is there, an erasure says how
  many entries it removed. The items that are inserted and the keys that are asked for are of types of
  their own, since a container may derive the key of an entry from both. An insertion is given the
  address that the allocator would return. The containers of this kind free nothing before they are
  cleared, so that the addresses are different.
\<close>

datatype ('q, 'x) keyed_op = KInsert nat 'x | KErase 'q | KFind 'q

datatype 'v keyed_reply = KInserted bool 'v | KErased nat | KFound "'v option"

fun keyed_spec :: "('x \<Rightarrow> 'k) \<Rightarrow> ('x \<Rightarrow> 'v) \<Rightarrow> ('q \<Rightarrow> 'k) \<Rightarrow> ('q, 'x) keyed_op \<Rightarrow> ('k \<rightharpoonup> 'v) \<Rightarrow> ('v keyed_reply \<times> ('k \<rightharpoonup> 'v)) result" where
  "keyed_spec key val norm (KInsert a x) m =
     (case m (key x) of Some v \<Rightarrow> Inr (KInserted False v, m) | None \<Rightarrow> Inr (KInserted True (val x), m(key x \<mapsto> val x)))"
| "keyed_spec key val norm (KErase q) m = Inr (KErased (if m (norm q) = None then 0 else 1), m(norm q := None))"
| "keyed_spec key val norm (KFind q) m = Inr (KFound (m (norm q)), m)"

fun keyed_step :: "(nat \<Rightarrow> 's \<Rightarrow> 'x \<Rightarrow> ((bool \<times> 'v) \<times> 's) result) \<Rightarrow> ('s \<Rightarrow> 'q \<Rightarrow> (nat \<times> 's) result) \<Rightarrow> ('s \<Rightarrow> 'q \<Rightarrow> 'v option result) \<Rightarrow>
    ('q, 'x) keyed_op \<Rightarrow> 's \<Rightarrow> ('v keyed_reply \<times> 's) result" where
  "keyed_step ins era look (KInsert a x) s = rbind (ins a s x) (\<lambda>((b, v), t). Inr (KInserted b v, t))"
| "keyed_step ins era look (KErase q) s = rbind (era s q) (\<lambda>(n, t). Inr (KErased n, t))"
| "keyed_step ins era look (KFind q) s = rbind (look s q) (\<lambda>r. Inr (KFound r, s))"

fun op_address :: "('q, 'x) keyed_op \<Rightarrow> nat list" where
  "op_address (KInsert a x) = [a]"
| "op_address p = []"

definition addresses :: "('q, 'x) keyed_op list \<Rightarrow> nat list" where
  "addresses ps = concat (map op_address ps)"

lemma addresses_simps [simp]: "addresses [] = []" "addresses (p # ps) = op_address p @ addresses ps"
  by (simp_all add: addresses_def)

locale keyed_map =
  fixes rep :: "'s \<Rightarrow> ('k \<rightharpoonup> 'v) \<Rightarrow> bool"
    and key :: "'x \<Rightarrow> 'k"
    and val :: "'x \<Rightarrow> 'v"
    and norm :: "'q \<Rightarrow> 'k"
    and vacant :: "'s \<Rightarrow> nat \<Rightarrow> bool"
    and ins :: "nat \<Rightarrow> 's \<Rightarrow> 'x \<Rightarrow> ((bool \<times> 'v) \<times> 's) result"
    and era :: "'s \<Rightarrow> 'q \<Rightarrow> (nat \<times> 's) result"
    and look :: "'s \<Rightarrow> 'q \<Rightarrow> 'v option result"
  assumes present_law: "rep s m \<Longrightarrow> m (key x) = Some v \<Longrightarrow> ins a s x = Inr ((False, v), s)"
    and absent_law: "rep s m \<Longrightarrow> m (key x) = None \<Longrightarrow> vacant s a \<Longrightarrow>
      \<exists>t. ins a s x = Inr ((True, val x), t) \<and> rep t (m(key x \<mapsto> val x)) \<and> (\<forall>b. vacant s b \<longrightarrow> b \<noteq> a \<longrightarrow> vacant t b)"
    and erase_law: "rep s m \<Longrightarrow>
      \<exists>t. era s q = Inr (if m (norm q) = None then 0 else 1, t) \<and> rep t (m(norm q := None)) \<and> (\<forall>b. vacant s b \<longrightarrow> vacant t b)"
    and look_law: "rep s m \<Longrightarrow> look s q = Inr (m (norm q))"
begin

lemma step_agrees:
  assumes "rep s m" "\<forall>a\<in>set (op_address p). vacant s a"
  shows "agrees (\<lambda>t n. rep t n \<and> (\<forall>b. vacant s b \<longrightarrow> b \<notin> set (op_address p) \<longrightarrow> vacant t b)) (keyed_step ins era look p s) (keyed_spec key val norm p m)"
proof (cases p)
  case (KInsert a x)
  then show ?thesis using assms present_law [OF assms(1), of x _ a] absent_law [OF assms(1), of x a] by (cases "m (key x)") auto
next
  case (KErase q)
  then show ?thesis using erase_law [OF assms(1), of q] by auto
next
  case (KFind q)
  then show ?thesis using assms(1) look_law [OF assms(1), of q] by simp
qed

lemma addresses_guarded:
  "rep s m \<Longrightarrow> distinct (addresses ps) \<Longrightarrow> \<forall>a\<in>set (addresses ps). vacant s a \<Longrightarrow>
    guarded (\<lambda>p s. \<forall>a\<in>set (op_address p). vacant s a) (keyed_step ins era look) ps s"
proof (induction ps arbitrary: s m)
  case (Cons p ps)
  have "agrees (\<lambda>t n. rep t n \<and> (\<forall>b. vacant s b \<longrightarrow> b \<notin> set (op_address p) \<longrightarrow> vacant t b)) (keyed_step ins era look p s) (keyed_spec key val norm p m)"
    by (rule step_agrees) (use Cons.prems in auto)
  then have "case keyed_step ins era look p s of Inl e \<Rightarrow> True | Inr (r, t) \<Rightarrow> \<exists>n. rep t n \<and> (\<forall>a\<in>set (addresses ps). vacant t a)"
    using Cons.prems by (fastforce simp: agrees_def split: sum.splits)
  then show ?case using Cons.prems Cons.IH by (auto split: sum.splits)
qed simp

lemma run_agrees:
  assumes "rep s m" "distinct (addresses ps)" "\<forall>a\<in>set (addresses ps). vacant s a"
  shows "agrees rep (run_ops (keyed_step ins era look) ps s) (run_ops (keyed_spec key val norm) ps m)"
proof (rule run_ops_guarded [of rep "\<lambda>p s. \<forall>a\<in>set (op_address p). vacant s a"])
  show "agrees rep (keyed_step ins era look p t) (keyed_spec key val norm p n)" if "rep t n" "\<forall>a\<in>set (op_address p). vacant t a" for p t n
    by (rule agrees_mono [OF step_agrees [OF that]]) simp
qed (use assms addresses_guarded in auto)

end

end
