(* ===== verification/Chain_Table.thy ===== *)
theory Chain_Table
  imports Keyed_Map
begin

text \<open>
  The hash table of \<open>HashTable/main.cc\<close>: a vector of bucket heads and heap nodes chained in the
  buckets. The template arguments are arguments of the operations: \<open>hash\<close> is \<open>Hash\<close>, \<open>key\<close> is
  \<open>KeyOfValue\<close>, \<open>eq\<close> is \<open>Pred\<close>. A table carries the part of the heap its nodes occupy; a pointer is an
  address or none, and \<open>new\<close> is given the address it returns. Loops along a chain are partial
  functions.
\<close>

section \<open>State\<close>

record 'v cnode =
  cn_next :: "nat option"
  cn_v :: 'v

record 'v ctable =
  ct_heap :: "nat \<rightharpoonup> 'v cnode"
  ct_buckets :: "nat option list"
  ct_this :: nat

record ct_iterator =
  ci_node :: "nat option"
  ci_ht :: "nat option"

definition HashTableIterator :: ct_iterator where
  "HashTableIterator = \<lparr>ci_node = None, ci_ht = None\<rparr>"

definition HashTableNode :: "'v \<Rightarrow> 'v cnode" where
  "HashTableNode v = \<lparr>cn_next = None, cn_v = v\<rparr>"

definition HashTable :: "nat \<Rightarrow> 'v ctable" where
  "HashTable this = \<lparr>ct_heap = Map.empty, ct_buckets = replicate (2 ^ 20) None, ct_this = this\<rparr>"

section \<open>Access\<close>

definition ct_node :: "'v ctable \<Rightarrow> nat option \<Rightarrow> 'v cnode result" where
  "ct_node t p = (case p of None \<Rightarrow> Inl MemoryFault
     | Some a \<Rightarrow> (case ct_heap t a of None \<Rightarrow> Inl MemoryFault | Some n \<Rightarrow> Inr n))"

definition ct_set_next :: "nat option \<Rightarrow> nat option \<Rightarrow> 'v ctable \<Rightarrow> 'v ctable result" where
  "ct_set_next p q t = rbind (ct_node t p) (\<lambda>n. Inr (t\<lparr>ct_heap := (ct_heap t)(the p \<mapsto> n\<lparr>cn_next := q\<rparr>)\<rparr>))"

definition ct_bucket :: "'v ctable \<Rightarrow> nat \<Rightarrow> nat option result" where
  "ct_bucket t i = (if i < length (ct_buckets t) then Inr (ct_buckets t ! i) else Inl MemoryFault)"

definition ct_set_bucket :: "nat \<Rightarrow> nat option \<Rightarrow> 'v ctable \<Rightarrow> 'v ctable result" where
  "ct_set_bucket i p t = (if i < length (ct_buckets t) then Inr (t\<lparr>ct_buckets := (ct_buckets t)[i := p]\<rparr>) else Inl MemoryFault)"

definition BucketIndex :: "('k \<Rightarrow> u64) \<Rightarrow> 'v ctable \<Rightarrow> 'k \<Rightarrow> nat" where
  "BucketIndex hash t k = unat (hash k) mod length (ct_buckets t)"

section \<open>Operations\<close>

partial_function (option) Search_loop :: "('k \<Rightarrow> 'k \<Rightarrow> bool) \<Rightarrow> ('v \<Rightarrow> 'k) \<Rightarrow> 'v ctable \<Rightarrow> 'k \<Rightarrow> nat option \<Rightarrow> nat option run" where
  [code]: "Search_loop eq key t k node =
     (if node = None then Some (Inr None)
      else fbind (Some (ct_node t node)) (\<lambda>n.
        if eq k (key (cn_v n)) then Some (Inr node) else Search_loop eq key t k (cn_next n)))"

definition Search :: "('k \<Rightarrow> 'k \<Rightarrow> bool) \<Rightarrow> ('v \<Rightarrow> 'k) \<Rightarrow> 'v ctable \<Rightarrow> nat \<Rightarrow> 'k \<Rightarrow> nat option run" where
  "Search eq key t index k = fbind (Some (ct_bucket t index)) (Search_loop eq key t k)"

definition ct_iter :: "'v ctable \<Rightarrow> nat option \<Rightarrow> ct_iterator" where
  "ct_iter t node = \<lparr>ci_node = node, ci_ht = Some (ct_this t)\<rparr>"

definition insert_unique :: "('k \<Rightarrow> u64) \<Rightarrow> ('k \<Rightarrow> 'k \<Rightarrow> bool) \<Rightarrow> ('v \<Rightarrow> 'k) \<Rightarrow> nat \<Rightarrow> 'v ctable \<Rightarrow> 'v \<Rightarrow> ((ct_iterator \<times> bool) \<times> 'v ctable) run" where
  "insert_unique hash eq key a t v =
     (let k = key v; index = BucketIndex hash t k
      in fbind (Search eq key t index k) (\<lambda>node.
        if node = None
        then fbind (Some (ct_bucket t index)) (\<lambda>head.
          fbind (Some (ct_set_next (Some a) head (t\<lparr>ct_heap := (ct_heap t)(a \<mapsto> HashTableNode v)\<rparr>))) (\<lambda>t1.
            fbind (Some (ct_set_bucket index (Some a) t1)) (\<lambda>t2. Some (Inr ((ct_iter t (Some a), True), t2)))))
        else Some (Inr ((ct_iter t node, False), t))))"

text \<open>The loop of \<open>erase\<close> to the node before \<open>node\<close>.\<close>

partial_function (option) erase_prev :: "'v ctable \<Rightarrow> nat option \<Rightarrow> nat option \<Rightarrow> nat option \<Rightarrow> nat option run" where
  [code]: "erase_prev t node prev cur =
     (if cur = node then Some (Inr prev)
      else fbind (Some (ct_node t cur)) (\<lambda>n. erase_prev t node cur (cn_next n)))"

definition ct_erase :: "('k \<Rightarrow> u64) \<Rightarrow> ('k \<Rightarrow> 'k \<Rightarrow> bool) \<Rightarrow> ('v \<Rightarrow> 'k) \<Rightarrow> 'v ctable \<Rightarrow> 'k \<Rightarrow> (nat \<times> 'v ctable) run" where
  "ct_erase hash eq key t k =
     (let index = BucketIndex hash t k
      in fbind (Search eq key t index k) (\<lambda>node.
        if node \<noteq> None
        then fbind (Some (ct_bucket t index)) (\<lambda>cur.
          fbind (erase_prev t node None cur) (\<lambda>prev.
            fbind (Some (ct_node t node)) (\<lambda>n.
              fbind (Some (if prev = None then ct_set_bucket index (cn_next n) t else ct_set_next prev (cn_next n) t)) (\<lambda>t1.
                Some (Inr (1, t1))))))
        else Some (Inr (0, t))))"

definition ct_find :: "('k \<Rightarrow> u64) \<Rightarrow> ('k \<Rightarrow> 'k \<Rightarrow> bool) \<Rightarrow> ('v \<Rightarrow> 'k) \<Rightarrow> 'v ctable \<Rightarrow> 'k \<Rightarrow> ct_iterator run" where
  "ct_find hash eq key t k = fbind (Search eq key t (BucketIndex hash t k) k) (\<lambda>node. Some (Inr (ct_iter t node)))"

definition ct_end :: "'v ctable \<Rightarrow> ct_iterator" where
  "ct_end t = ct_iter t None"

fun begin_loop :: "'v ctable \<Rightarrow> nat list \<Rightarrow> ct_iterator result" where
  "begin_loop t [] = Inr (ct_end t)"
| "begin_loop t (i # is) = rbind (ct_bucket t i) (\<lambda>head. if head \<noteq> None then Inr (ct_iter t head) else begin_loop t is)"

definition ct_begin :: "'v ctable \<Rightarrow> ct_iterator result" where
  "ct_begin t = begin_loop t [0..<length (ct_buckets t)]"

text \<open>The projections of the keys that the source provides.\<close>

definition Select1st :: "'k \<times> 'w \<Rightarrow> 'k" where
  "Select1st p = fst p"

definition Identity :: "'k \<Rightarrow> 'k" where
  "Identity k = k"

section \<open>Chains\<close>

text \<open>The nodes from a pointer on, with their addresses.\<close>

fun cchain :: "(nat \<rightharpoonup> 'v cnode) \<Rightarrow> nat option \<Rightarrow> (nat \<times> 'v) list \<Rightarrow> bool" where
  "cchain h p [] = (p = None)"
| "cchain h p ((a, v) # xs) = (p = Some a \<and> (\<exists>q. h a = Some \<lparr>cn_next = q, cn_v = v\<rparr> \<and> cchain h q xs))"

lemma cchain_other: "a \<notin> fst ` set xs \<Longrightarrow> cchain (h(a := n)) p xs = cchain h p xs"
proof (induction xs arbitrary: p)
  case (Cons x xs)
  then show ?case by (cases x) auto
qed simp

lemma cchain_mapped: "cchain h p xs \<Longrightarrow> x \<in> set xs \<Longrightarrow> \<exists>q. h (fst x) = Some \<lparr>cn_next = q, cn_v = snd x\<rparr>"
proof (induction xs arbitrary: p)
  case (Cons y xs)
  then show ?case by (cases y) auto
qed simp

text \<open>The entry with a key, as a search along the chain finds it.\<close>

definition chain_entry :: "('v \<Rightarrow> 'k) \<Rightarrow> 'k \<Rightarrow> (nat \<times> 'v) list \<Rightarrow> (nat \<times> 'v) option" where
  "chain_entry key k xs = find (\<lambda>x. key (snd x) = k) xs"

lemma Search_loop_chain: "cchain (ct_heap t) p xs \<Longrightarrow> Search_loop (=) key t k p = Some (Inr (map_option fst (chain_entry key k xs)))"
proof (induction xs arbitrary: p)
  case Nil
  then show ?case by (simp add: Search_loop.simps chain_entry_def)
next
  case (Cons x xs)
  then show ?case by (cases x; subst Search_loop.simps) (auto simp: ct_node_def chain_entry_def)
qed

lemma chain_entry_other: "key v \<noteq> i \<Longrightarrow> chain_entry key i (ys @ (a, v) # zs) = chain_entry key i (ys @ zs)"
  unfolding chain_entry_def by (induction ys) auto

lemma chain_entry_split:
  assumes "chain_entry key k xs = Some (a, v)"
  obtains ys zs where "xs = ys @ (a, v) # zs" "key v = k" "\<forall>y\<in>set ys. key (snd y) \<noteq> k"
  using assms unfolding chain_entry_def find_Some_iff
  by (metis id_take_nth_drop in_set_conv_nth length_take min.absorb4 nth_take snd_conv)

text \<open>The pointer to the last of some nodes, what \<open>prev\<close> is after they have been passed.\<close>

definition last_node :: "nat option \<Rightarrow> (nat \<times> 'v) list \<Rightarrow> nat option" where
  "last_node p xs = (if xs = [] then p else Some (fst (last xs)))"

lemma erase_prev_chain:
  "cchain (ct_heap t) p (ys @ (a, v) # zs) \<Longrightarrow> a \<notin> fst ` set ys \<Longrightarrow> erase_prev t (Some a) q p = Some (Inr (last_node q ys))"
proof (induction ys arbitrary: p q)
  case Nil
  then show ?case by (simp add: erase_prev.simps last_node_def)
next
  case (Cons y ys)
  then show ?case by (cases y; subst erase_prev.simps) (auto simp: ct_node_def last_node_def)
qed

text \<open>Taking a node out of a chain by changing the link before it.\<close>

lemma cchain_unlink:
  assumes "cchain h p (ys @ (b, w) # (a, v) # zs)" "distinct (map fst (ys @ (b, w) # (a, v) # zs))" "h a = Some n"
  shows "cchain (h(b \<mapsto> \<lparr>cn_next = cn_next n, cn_v = w\<rparr>)) p (ys @ (b, w) # zs)"
  using assms(1,2)
proof (induction ys arbitrary: p)
  case Nil
  then have "b \<notin> fst ` set zs" "cchain h (cn_next n) zs" using assms(3) by auto
  then have "cchain (h(b \<mapsto> \<lparr>cn_next = cn_next n, cn_v = w\<rparr>)) (cn_next n) zs" by (rule cchain_other [THEN iffD2])
  with Nil show ?case by (simp add: fun_upd_same del: fun_upd_apply)
next
  case (Cons y ys)
  then show ?case by (cases y) auto
qed

section \<open>The table as a map\<close>

text \<open>
  A table with its chains: every node is in the bucket of its key, no two in a bucket have the same
  key, and the map gives each key the value in the chain of its bucket.
\<close>

definition bucket_ok :: "('k \<Rightarrow> u64) \<Rightarrow> ('v \<Rightarrow> 'k) \<Rightarrow> 'v ctable \<Rightarrow> nat \<Rightarrow> (nat \<times> 'v) list \<Rightarrow> bool" where
  "bucket_ok hash key t j xs \<longleftrightarrow> cchain (ct_heap t) (ct_buckets t ! j) xs \<and> distinct (map (key \<circ> snd) xs) \<and>
     (\<forall>x\<in>set xs. BucketIndex hash t (key (snd x)) = j)"

definition ct_rep :: "('k \<Rightarrow> u64) \<Rightarrow> ('v \<Rightarrow> 'k) \<Rightarrow> 'v ctable \<Rightarrow> ('k \<rightharpoonup> 'v) \<Rightarrow> bool" where
  "ct_rep hash key t m \<longleftrightarrow> 0 < length (ct_buckets t) \<and>
     (\<exists>cs. (\<forall>j<length (ct_buckets t). bucket_ok hash key t j (cs j)) \<and>
       m = (\<lambda>k. map_option snd (chain_entry key k (cs (BucketIndex hash t k)))))"

lemma BucketIndex_less [simp]: "0 < length (ct_buckets t) \<Longrightarrow> BucketIndex hash t k < length (ct_buckets t)"
  by (simp add: BucketIndex_def)

lemma HashTable_rep: "ct_rep hash key (HashTable this) Map.empty"
  unfolding ct_rep_def
  by (intro conjI exI [of _ "\<lambda>j. []"]) (auto simp: HashTable_def bucket_ok_def chain_entry_def)

lemma Search_at:
  assumes "j = BucketIndex hash t k" "bucket_ok hash key t j xs" "0 < length (ct_buckets t)"
  shows "Search (=) key t j k = Some (Inr (map_option fst (chain_entry key k xs)))"
  using assms Search_loop_chain [of t "ct_buckets t ! j" xs key k] by (simp add: Search_def ct_bucket_def bucket_ok_def)

text \<open>A changed bucket in a table whose other buckets are as before.\<close>

lemma ct_rep_change:
  assumes "0 < length (ct_buckets t)" "\<And>j. j < length (ct_buckets t) \<Longrightarrow> bucket_ok hash key t j (cs j)" "j = BucketIndex hash t k"
    "length (ct_buckets t') = length (ct_buckets t)" "bucket_ok hash key t' j xs"
    "\<And>i. i < length (ct_buckets t) \<Longrightarrow> i \<noteq> j \<Longrightarrow> ct_buckets t' ! i = ct_buckets t ! i \<and> (\<forall>x\<in>set (cs i). ct_heap t' (fst x) = ct_heap t (fst x))"
    "\<And>i. i \<noteq> k \<Longrightarrow> chain_entry key i xs = chain_entry key i (cs j)"
  shows "ct_rep hash key t' ((\<lambda>i. map_option snd (chain_entry key i (cs (BucketIndex hash t i))))(k := map_option snd (chain_entry key k xs)))"
proof -
  have idx: "BucketIndex hash t' i = BucketIndex hash t i" for i using assms(4) by (simp add: BucketIndex_def)
  have cong: "cchain (ct_heap t') p ys = cchain (ct_heap t) p ys" if "\<forall>x\<in>set ys. ct_heap t' (fst x) = ct_heap t (fst x)" for p ys
    using that by (induction ys arbitrary: p) auto
  have "bucket_ok hash key t' i ((cs(j := xs)) i)" if "i < length (ct_buckets t')" for i
    using assms(2) [of i] assms(4-6) that idx cong [of "cs i"] by (cases "i = j") (auto simp: bucket_ok_def)
  moreover have "(\<lambda>i. map_option snd (chain_entry key i (cs (BucketIndex hash t i))))(k := map_option snd (chain_entry key k xs)) =
      (\<lambda>i. map_option snd (chain_entry key i ((cs(j := xs)) (BucketIndex hash t' i))))"
    using assms(3,7) idx by (auto simp: fun_eq_iff)
  ultimately show ?thesis using assms(1,4) unfolding ct_rep_def by (intro conjI exI [of _ "cs(j := xs)"]) auto
qed

text \<open>What a client gets: the value at the iterator that an operation returns.\<close>

definition ct_value :: "'v ctable \<Rightarrow> ct_iterator \<Rightarrow> 'v result" where
  "ct_value t i = rbind (ct_node t (ci_node i)) (\<lambda>n. Inr (cn_v n))"

definition ct_ins :: "('k \<Rightarrow> u64) \<Rightarrow> ('v \<Rightarrow> 'k) \<Rightarrow> nat \<Rightarrow> 'v ctable \<Rightarrow> 'v \<Rightarrow> ((bool \<times> 'v) \<times> 'v ctable) result" where
  "ct_ins hash key a t v = rbind (ended (insert_unique hash (=) key a t v)) (\<lambda>((i, b), t1). rbind (ct_value t1 i) (\<lambda>w. Inr ((b, w), t1)))"

definition ct_era :: "('k \<Rightarrow> u64) \<Rightarrow> ('v \<Rightarrow> 'k) \<Rightarrow> 'v ctable \<Rightarrow> 'k \<Rightarrow> (nat \<times> 'v ctable) result" where
  "ct_era hash key t k = ended (ct_erase hash (=) key t k)"

definition ct_look :: "('k \<Rightarrow> u64) \<Rightarrow> ('v \<Rightarrow> 'k) \<Rightarrow> 'v ctable \<Rightarrow> 'k \<Rightarrow> 'v option result" where
  "ct_look hash key t k = rbind (ended (ct_find hash (=) key t k)) (\<lambda>i. if i = ct_end t then Inr None else rbind (ct_value t i) (\<lambda>w. Inr (Some w)))"

definition ct_vacant :: "'v ctable \<Rightarrow> nat \<Rightarrow> bool" where
  "ct_vacant t a \<longleftrightarrow> ct_heap t a = None"

lemma ct_repE:
  assumes "ct_rep hash key t m"
  obtains cs where "0 < length (ct_buckets t)" "\<And>j. j < length (ct_buckets t) \<Longrightarrow> bucket_ok hash key t j (cs j)"
    "m = (\<lambda>k. map_option snd (chain_entry key k (cs (BucketIndex hash t k))))"
  using assms unfolding ct_rep_def by blast

text \<open>The search in a table and the value of the node it gives.\<close>

lemma Search_rep:
  assumes "0 < length (ct_buckets t)" "\<And>j. j < length (ct_buckets t) \<Longrightarrow> bucket_ok hash key t j (cs j)" "e = chain_entry key k (cs (BucketIndex hash t k))"
  shows "Search (=) key t (BucketIndex hash t k) k = Some (Inr (map_option fst e))" "e = Some (a, v) \<Longrightarrow> ct_value t (ct_iter t (Some a)) = Inr v"
proof -
  let ?j = "BucketIndex hash t k"
  have ok: "bucket_ok hash key t ?j (cs ?j)" using assms(1,2) by simp
  show "Search (=) key t ?j k = Some (Inr (map_option fst e))" using Search_at [OF refl ok assms(1)] by (simp add: assms(3))
  assume "e = Some (a, v)"
  then have "(a, v) \<in> set (cs ?j)" unfolding assms(3) chain_entry_def by (auto simp: find_Some_iff)
  then show "ct_value t (ct_iter t (Some a)) = Inr v"
    using ok cchain_mapped [of "ct_heap t" "ct_buckets t ! ?j" "cs ?j" "(a, v)"] by (auto simp: bucket_ok_def ct_value_def ct_iter_def ct_node_def)
qed

lemma ct_look_rep: "ct_rep hash key t m \<Longrightarrow> ct_look hash key t k = Inr (m k)"
proof (erule ct_repE)
  fix cs assume a: "0 < length (ct_buckets t)" "\<And>j. j < length (ct_buckets t) \<Longrightarrow> bucket_ok hash key t j (cs j)"
    "m = (\<lambda>k. map_option snd (chain_entry key k (cs (BucketIndex hash t k))))"
  show ?thesis using Search_rep [OF a(1,2) refl, of k] a(3)
    by (cases "chain_entry key k (cs (BucketIndex hash t k))") (auto simp: ct_look_def ct_find_def ct_end_def ct_iter_def)
qed

lemma ct_ins_present: "ct_rep hash key t m \<Longrightarrow> m (key v) = Some w \<Longrightarrow> ct_ins hash key a t v = Inr ((False, w), t)"
proof (erule ct_repE)
  fix cs assume a: "0 < length (ct_buckets t)" "\<And>j. j < length (ct_buckets t) \<Longrightarrow> bucket_ok hash key t j (cs j)"
    "m = (\<lambda>k. map_option snd (chain_entry key k (cs (BucketIndex hash t k))))" and m: "m (key v) = Some w"
  then obtain b where e: "chain_entry key (key v) (cs (BucketIndex hash t (key v))) = Some (b, w)" by auto
  show ?thesis using Search_rep [OF a(1,2) refl, of "key v"] e by (simp add: ct_ins_def insert_unique_def Let_def)
qed

lemma bucket_ok_push:
  assumes "bucket_ok hash key t j xs" "j = BucketIndex hash t (key v)" "j < length (ct_buckets t)" "chain_entry key (key v) xs = None" "ct_heap t a = None"
  shows "bucket_ok hash key (t\<lparr>ct_heap := (ct_heap t)(a \<mapsto> \<lparr>cn_next = ct_buckets t ! j, cn_v = v\<rparr>), ct_buckets := (ct_buckets t)[j := Some a]\<rparr>) j ((a, v) # xs)"
proof -
  have new: "a \<notin> fst ` set xs" using assms(1,5) cchain_mapped by (fastforce simp: bucket_ok_def)
  have "key v \<notin> (key \<circ> snd) ` set xs" using assms(4) unfolding chain_entry_def find_None_iff by (metis comp_apply imageE)
  with assms(1-3) cchain_other [OF new] show ?thesis by (auto simp: bucket_ok_def BucketIndex_def simp del: fun_upd_apply simp add: fun_upd_same)
qed

lemma ct_ins_absent:
  assumes "ct_rep hash key t m" "m (key v) = None" "ct_vacant t a"
  shows "\<exists>t'. ct_ins hash key a t v = Inr ((True, v), t') \<and> ct_rep hash key t' (m(key v \<mapsto> v)) \<and> dom (ct_heap t') = insert a (dom (ct_heap t))"
  using assms(1)
proof (rule ct_repE)
  fix cs assume a: "0 < length (ct_buckets t)" "\<And>j. j < length (ct_buckets t) \<Longrightarrow> bucket_ok hash key t j (cs j)"
    "m = (\<lambda>k. map_option snd (chain_entry key k (cs (BucketIndex hash t k))))"
  let ?j = "BucketIndex hash t (key v)"
  let ?t = "t\<lparr>ct_heap := (ct_heap t)(a \<mapsto> \<lparr>cn_next = ct_buckets t ! ?j, cn_v = v\<rparr>), ct_buckets := (ct_buckets t)[?j := Some a]\<rparr>"
  have j: "?j < length (ct_buckets t)" using a(1) by simp
  have e: "chain_entry key (key v) (cs ?j) = None" using a(3) assms(2) by simp
  have "insert_unique hash (=) key a t v = Some (Inr ((ct_iter t (Some a), True), ?t))"
    using Search_rep(1) [OF a(1,2) refl, of "key v"] e j
    by (simp add: insert_unique_def Let_def ct_bucket_def ct_set_next_def ct_set_bucket_def ct_node_def HashTableNode_def)
  then have "ct_ins hash key a t v = Inr ((True, v), ?t)" by (simp add: ct_ins_def ct_value_def ct_node_def ct_iter_def)
  moreover have "ct_rep hash key ?t ((\<lambda>i. map_option snd (chain_entry key i (cs (BucketIndex hash t i))))(key v := map_option snd (chain_entry key (key v) ((a, v) # cs ?j))))"
  proof (rule ct_rep_change [OF a(1,2) refl])
    show "bucket_ok hash key ?t ?j ((a, v) # cs ?j)" using bucket_ok_push [OF a(2) [OF j] refl j e] assms(3) by (simp add: ct_vacant_def)
    fix i assume i: "i < length (ct_buckets t)" "i \<noteq> ?j"
    have "a \<notin> fst ` set (cs i)" using a(2) [OF i(1)] assms(3) cchain_mapped by (fastforce simp: bucket_ok_def ct_vacant_def)
    then show "ct_buckets ?t ! i = ct_buckets t ! i \<and> (\<forall>x\<in>set (cs i). ct_heap ?t (fst x) = ct_heap t (fst x))" using i(2) by auto
  qed (auto simp: chain_entry_def)
  ultimately show ?thesis using a(3) by (auto simp: chain_entry_def)
qed

text \<open>Nodes of a chain with different keys, and nodes of different buckets, are different.\<close>

lemma cchain_same:
  assumes "cchain h p xs" "cchain h q ys" "x \<in> set xs" "y \<in> set ys" "fst x = fst y"
  shows "snd x = snd y"
  using cchain_mapped [OF assms(1,3)] cchain_mapped [OF assms(2,4)] assms(5) by auto

lemma cchain_distinct:
  assumes "cchain h p xs" "distinct (map (f \<circ> snd) xs)"
  shows "distinct (map fst xs)"
  unfolding distinct_map
proof (intro conjI inj_onI)
  show "distinct xs" using assms(2) by (simp add: distinct_map)
  fix x y assume x: "x \<in> set xs" "y \<in> set xs" "fst x = fst y"
  then show "x = y" using cchain_same [OF assms(1,1) x] by (intro prod_eqI)
qed

lemma chains_disjoint:
  assumes "bucket_ok hash key t i xs" "bucket_ok hash key t j ys" "x \<in> set xs" "i \<noteq> j"
  shows "fst x \<notin> fst ` set ys"
proof
  assume "fst x \<in> fst ` set ys"
  then obtain y where y: "y \<in> set ys" "fst x = fst y" by auto
  then have "snd x = snd y" using assms(1-3) cchain_same unfolding bucket_ok_def by metis
  then show False using assms y(1) unfolding bucket_ok_def by metis
qed

text \<open>An erasure takes the entry out of its chain; the node stays on the heap.\<close>

lemma bucket_ok_unlink:
  assumes "bucket_ok hash key t j (ys @ (a, v) # zs)" "j < length (ct_buckets t)" "ct_heap t a = Some n"
  shows "\<exists>t'. (if last_node None ys = None then ct_set_bucket j (cn_next n) t else ct_set_next (last_node None ys) (cn_next n) t) = Inr t' \<and>
    bucket_ok hash key t' j (ys @ zs) \<and> length (ct_buckets t') = length (ct_buckets t) \<and> (\<forall>i. i \<noteq> j \<longrightarrow> ct_buckets t' ! i = ct_buckets t ! i) \<and>
    (\<forall>b. b \<notin> fst ` set ys \<longrightarrow> ct_heap t' b = ct_heap t b) \<and> dom (ct_heap t') = dom (ct_heap t)"
proof (cases ys rule: rev_cases)
  case Nil
  then show ?thesis using assms by (auto simp: last_node_def ct_set_bucket_def bucket_ok_def BucketIndex_def)
next
  case (snoc ys' y)
  obtain b w where y: "y = (b, w)" by (cases y)
  let ?xs = "ys' @ (b, w) # (a, v) # zs"
  have c: "cchain (ct_heap t) (ct_buckets t ! j) ?xs" "distinct (map (key \<circ> snd) ?xs)" using assms(1) snoc y by (simp_all add: bucket_ok_def)
  obtain q where b: "ct_heap t b = Some \<lparr>cn_next = q, cn_v = w\<rparr>" using cchain_mapped [OF c(1), of "(b, w)"] by auto
  have "cchain ((ct_heap t)(b \<mapsto> \<lparr>cn_next = cn_next n, cn_v = w\<rparr>)) (ct_buckets t ! j) (ys' @ (b, w) # zs)"
    by (rule cchain_unlink [OF c(1) cchain_distinct [OF c] assms(3)])
  then show ?thesis using assms(1) b snoc y
    by (auto simp: last_node_def ct_set_next_def ct_node_def bucket_ok_def BucketIndex_def)
qed

lemma ct_erase_rep:
  assumes "ct_rep hash key t m"
  shows "\<exists>t'. ct_era hash key t k = Inr (if m k = None then 0 else 1, t') \<and> ct_rep hash key t' (m(k := None)) \<and> dom (ct_heap t') = dom (ct_heap t)"
  using assms
proof (rule ct_repE)
  fix cs assume c: "0 < length (ct_buckets t)" "\<And>j. j < length (ct_buckets t) \<Longrightarrow> bucket_ok hash key t j (cs j)"
    "m = (\<lambda>k. map_option snd (chain_entry key k (cs (BucketIndex hash t k))))"
  let ?j = "BucketIndex hash t k"
  have j: "?j < length (ct_buckets t)" using c(1) by simp
  note search = Search_rep(1) [OF c(1,2) refl, of k]
  show ?thesis
  proof (cases "chain_entry key k (cs ?j)")
    case None
    then have "m(k := None) = m" using c(3) by auto
    then show ?thesis using None search c(3) assms by (auto simp: ct_era_def ct_erase_def Let_def)
  next
    case (Some e)
    obtain a v where e: "e = (a, v)" by (cases e)
    obtain ys zs where s: "cs ?j = ys @ (a, v) # zs" "key v = k" "\<forall>y\<in>set ys. key (snd y) \<noteq> k" using chain_entry_split [OF Some [unfolded e]] by blast
    have ok: "bucket_ok hash key t ?j (ys @ (a, v) # zs)" using c(2) [OF j] s(1) by simp
    then have ch: "cchain (ct_heap t) (ct_buckets t ! ?j) (ys @ (a, v) # zs)" "distinct (map (key \<circ> snd) (ys @ (a, v) # zs))" by (simp_all add: bucket_ok_def)
    have a: "a \<notin> fst ` set ys" using cchain_distinct [OF ch] by auto
    obtain n where n: "ct_heap t a = Some n" using cchain_mapped [OF ch(1), of "(a, v)"] by auto
    obtain t' where t': "(if last_node None ys = None then ct_set_bucket ?j (cn_next n) t else ct_set_next (last_node None ys) (cn_next n) t) = Inr t'"
      "bucket_ok hash key t' ?j (ys @ zs)" "length (ct_buckets t') = length (ct_buckets t)" "\<forall>i. i \<noteq> ?j \<longrightarrow> ct_buckets t' ! i = ct_buckets t ! i"
      "\<forall>b. b \<notin> fst ` set ys \<longrightarrow> ct_heap t' b = ct_heap t b" "dom (ct_heap t') = dom (ct_heap t)"
      using bucket_ok_unlink [OF ok j n] by blast
    have "ct_era hash key t k = Inr (1, t')"
      using search Some e erase_prev_chain [OF ch(1) a, of None] j n t'(1) by (simp add: ct_era_def ct_erase_def ct_bucket_def ct_node_def Let_def)
    moreover have "ct_rep hash key t' ((\<lambda>i. map_option snd (chain_entry key i (cs (BucketIndex hash t i))))(k := map_option snd (chain_entry key k (ys @ zs))))"
    proof (rule ct_rep_change [OF c(1,2) refl t'(3,2)])
      fix i assume i: "i < length (ct_buckets t)" "i \<noteq> ?j"
      have "fst x \<notin> fst ` set ys" if "x \<in> set (cs i)" for x using chains_disjoint [OF c(2) [OF i(1)] ok that i(2)] by auto
      then show "ct_buckets t' ! i = ct_buckets t ! i \<and> (\<forall>x\<in>set (cs i). ct_heap t' (fst x) = ct_heap t (fst x))" using t'(4,5) i(2) by auto
    qed (use s in \<open>simp_all add: chain_entry_other\<close>)
    moreover have "chain_entry key k (ys @ zs) = None" using ch(2) s(2,3) by (auto simp: chain_entry_def find_None_iff image_iff)
    moreover have "m k = Some v" using c(3) Some e by simp
    ultimately show ?thesis using c(3) t'(6) by auto
  qed
qed

interpretation ct: keyed_map "ct_rep hash key" key "\<lambda>v. v" "\<lambda>k. k" ct_vacant "ct_ins hash key" "ct_era hash key" "ct_look hash key"
  for hash :: "'k \<Rightarrow> u64" and key :: "'v \<Rightarrow> 'k"
proof
  fix s :: "'v ctable" and m x v a q
  assume r: "ct_rep hash key s m"
  show "m (key x) = Some v \<Longrightarrow> ct_ins hash key a s x = Inr ((False, v), s)" by (rule ct_ins_present [OF r])
  show "ct_look hash key s q = Inr (m q)" by (rule ct_look_rep [OF r])
  show "\<exists>t. ct_ins hash key a s x = Inr ((True, x), t) \<and> ct_rep hash key t (m(key x \<mapsto> x)) \<and> (\<forall>b. ct_vacant s b \<longrightarrow> b \<noteq> a \<longrightarrow> ct_vacant t b)"
    if "m (key x) = None" "ct_vacant s a" using ct_ins_absent [OF r that] unfolding ct_vacant_def domIff [symmetric] by auto
  show "\<exists>t. ct_era hash key s q = Inr (if m q = None then 0 else 1, t) \<and> ct_rep hash key t (m(q := None)) \<and> (\<forall>b. ct_vacant s b \<longrightarrow> ct_vacant t b)"
  proof -
    obtain t where t: "ct_era hash key s q = Inr (if m q = None then 0 else 1, t)" "ct_rep hash key t (m(q := None))" "dom (ct_heap t) = dom (ct_heap s)"
      using ct_erase_rep [OF r] by blast
    moreover have "ct_vacant s b \<longrightarrow> ct_vacant t b" for b using t(3) unfolding ct_vacant_def by (metis domIff)
    ultimately show ?thesis by blast
  qed
qed

text \<open>\<open>begin()\<close> finds an entry unless there is none.\<close>

lemma begin_loop_end: "\<forall>i\<in>set is. i < length (ct_buckets t) \<Longrightarrow>
  \<exists>i. begin_loop t is = Inr i \<and> (i = ct_end t \<longleftrightarrow> (\<forall>j\<in>set is. ct_buckets t ! j = None))"
  by (induction "is") (auto simp: ct_bucket_def ct_end_def ct_iter_def)

lemma ct_begin_rep:
  assumes "ct_rep hash key t m"
  shows "\<exists>i. ct_begin t = Inr i \<and> (i = ct_end t \<longleftrightarrow> m = Map.empty)"
  using assms
proof (rule ct_repE)
  fix cs assume c: "0 < length (ct_buckets t)" "\<And>j. j < length (ct_buckets t) \<Longrightarrow> bucket_ok hash key t j (cs j)"
    "m = (\<lambda>k. map_option snd (chain_entry key k (cs (BucketIndex hash t k))))"
  have none: "ct_buckets t ! j = None \<longleftrightarrow> cs j = []" if "j < length (ct_buckets t)" for j
    using c(2) [OF that] by (cases "cs j") (auto simp: bucket_ok_def)
  have "(\<forall>j<length (ct_buckets t). cs j = []) \<longleftrightarrow> m = Map.empty"
  proof
    assume m: "m = Map.empty"
    have "cs j = []" if "j < length (ct_buckets t)" for j
    proof (cases "cs j")
      case (Cons x xs)
      then have "chain_entry key (key (snd x)) (cs (BucketIndex hash t (key (snd x)))) = Some x"
        using c(2) [OF that] by (auto simp: bucket_ok_def chain_entry_def)
      then show ?thesis using c(3) m fun_cong [of m Map.empty "key (snd x)"] by simp
    qed simp
    then show "\<forall>j<length (ct_buckets t). cs j = []" by blast
  qed (use c in \<open>auto simp: chain_entry_def\<close>)
  then show ?thesis using begin_loop_end [of "[0..<length (ct_buckets t)]" t] none by (auto simp: ct_begin_def)
qed

section \<open>Properties\<close>

text \<open>
  C10. The hash table is a map: on a new table, every sequence of insertions, erasures and searches
  returns without a fault, and the replies are those of the map from the keys to the values inserted
  under them; afterwards \<open>begin()\<close> is \<open>end()\<close> exactly if the map is empty. The addresses that \<open>new\<close> returns have to be different, and \<open>Pred\<close> has to be equality;
  the hash function is arbitrary.
\<close>

theorem chain_table_is_map:
  assumes "distinct (addresses ps)"
  shows "agrees (\<lambda>t m. ct_rep hash key t m \<and> (ct_begin t = Inr (ct_end t) \<longleftrightarrow> m = Map.empty)) (run_ops (keyed_step (ct_ins hash key) (ct_era hash key) (ct_look hash key)) ps (HashTable this))
    (run_ops (keyed_spec key (\<lambda>v. v) (\<lambda>k. k)) ps Map.empty)"
proof (rule agrees_mono)
  show "agrees (ct_rep hash key) (run_ops (keyed_step (ct_ins hash key) (ct_era hash key) (ct_look hash key)) ps (HashTable this))
    (run_ops (keyed_spec key (\<lambda>v. v) (\<lambda>k. k)) ps Map.empty)"
    by (rule ct.run_agrees [OF HashTable_rep assms]) (simp add: ct_vacant_def HashTable_def)
  show "ct_rep hash key t m \<and> (ct_begin t = Inr (ct_end t) \<longleftrightarrow> m = Map.empty)" if "ct_rep hash key t m" for t m
    using that ct_begin_rep [OF that] by auto
qed

text \<open>The table of \<open>main\<close>, with two keys in one bucket.\<close>

theorem chain_table_is_map_witness:
  "\<exists>t. run_ops (keyed_step (ct_ins of_nat Identity) (ct_era of_nat Identity) (ct_look of_nat Identity))
      [KInsert 100 5, KInsert 101 5, KInsert 102 (5 + 2 ^ 20), KFind 5, KErase 5, KFind 5, KErase 5, KFind (5 + 2 ^ 20)] (HashTable 7) =
    Inr ([KInserted True 5, KInserted False 5, KInserted True (5 + 2 ^ 20), KFound (Some 5), KErased 1, KFound None, KErased 0,
      KFound (Some (5 + 2 ^ 20))], t)"
  using chain_table_is_map [of "[KInsert 100 5, KInsert 101 5, KInsert 102 (5 + 2 ^ 20), KFind 5, KErase 5, KFind 5, KErase 5, KFind (5 + 2 ^ 20)]" of_nat Identity 7]
  by (simp add: Identity_def) blast

end
