(* ===== verification/Char_Trie.thy ===== *)
theory Char_Trie
  imports Prelude "HOL-Library.Sublist"
begin

text \<open>
  The trie of \<open>tries/trie/main.cc\<close>: an alphabet that numbers its characters, and nodes on the heap
  with an array of pointers, one for each character. A pointer is an address, 0 for \<open>NULL\<close>; the
  array of a node is part of the node. The memory that \<open>new\<close> returns is not initialised, and what is
  in it matters here: the operations are given the memory they will get, with its contents, and
  return what is left of it; when there is none left \<open>new\<close> throws.
\<close>

section \<open>Alphabet\<close>

type_synonym alphabet = "(char \<times> u32) list"

text \<open>\<open>indices_[c] = idx\<close> on the map from characters to their indices.\<close>

fun index_put :: "char \<Rightarrow> u32 \<Rightarrow> alphabet \<Rightarrow> alphabet" where
  "index_put c i [] = [(c, i)]"
| "index_put c i ((d, j) # al) = (if c = d then (c, i) # al else (d, j) # index_put c i al)"

fun Alphabet_loop :: "string \<Rightarrow> nat \<Rightarrow> alphabet \<Rightarrow> alphabet" where
  "Alphabet_loop [] idx al = al"
| "Alphabet_loop (c # cs) idx al = Alphabet_loop cs (idx + 1) (index_put c (of_nat idx) al)"

definition Alphabet :: "string \<Rightarrow> alphabet" where
  "Alphabet chars = Alphabet_loop chars 0 []"

text \<open>The result of \<open>find\<close> is used without a check.\<close>

definition ToIndices :: "alphabet \<Rightarrow> char \<Rightarrow> nat result" where
  "ToIndices al c = (case map_of al c of None \<Rightarrow> Inl MemoryFault | Some i \<Rightarrow> Inr (unat i))"

definition CharNum :: "alphabet \<Rightarrow> nat" where
  "CharNum al = length al"

section \<open>Nodes\<close>

text \<open>
  Memory for a node: its address, the bytes of its array, and what its members \<open>c\<close> and \<open>v\<close> hold.
\<close>

record 'v fresh =
  fr_addr :: nat
  fr_bytes :: "byte list"
  fr_c :: char
  fr_v :: 'v

record 'v tnode =
  tn_c :: char
  tn_arr :: "nat list"
  tn_v :: 'v

record 'v ctrie =
  tr_heap :: "nat \<rightharpoonup> 'v tnode"
  tr_root :: nat
  tr_alpha :: alphabet

text \<open>The array as pointers of eight bytes each.\<close>

definition as_pointers :: "nat \<Rightarrow> byte list \<Rightarrow> nat list" where
  "as_pointers n bs = map (\<lambda>i. le_val (take 8 (drop (8 * i) bs))) [0..<n]"

text \<open>\<open>memset(arr, 0x0, char_num)\<close> counts bytes, not pointers.\<close>

definition memset_zero :: "nat \<Rightarrow> byte list \<Rightarrow> byte list" where
  "memset_zero n bs = replicate n 0 @ drop n bs"

definition TrieNode :: "nat \<Rightarrow> 'v fresh \<Rightarrow> 'v tnode" where
  "TrieNode char_num f = \<lparr>tn_c = fr_c f, tn_arr = as_pointers char_num (memset_zero char_num (fr_bytes f)), tn_v = fr_v f\<rparr>"

definition MakeTrieNode :: "'v ctrie \<Rightarrow> 'v fresh list \<Rightarrow> (nat \<times> 'v ctrie \<times> 'v fresh list) result" where
  "MakeTrieNode t fs = (case fs of [] \<Rightarrow> Inl BadAlloc
     | f # fs' \<Rightarrow> Inr (fr_addr f, t\<lparr>tr_heap := (tr_heap t)(fr_addr f \<mapsto> TrieNode (CharNum (tr_alpha t)) f)\<rparr>, fs'))"

definition tr_node :: "'v ctrie \<Rightarrow> nat \<Rightarrow> 'v tnode result" where
  "tr_node t p = (case tr_heap t p of None \<Rightarrow> Inl MemoryFault | Some n \<Rightarrow> Inr n)"

definition tr_upd :: "('v tnode \<Rightarrow> 'v tnode) \<Rightarrow> nat \<Rightarrow> 'v ctrie \<Rightarrow> 'v ctrie result" where
  "tr_upd g p t = rbind (tr_node t p) (\<lambda>n. Inr (t\<lparr>tr_heap := (tr_heap t)(p \<mapsto> g n)\<rparr>))"

definition tr_arr :: "'v ctrie \<Rightarrow> nat \<Rightarrow> nat \<Rightarrow> nat result" where
  "tr_arr t p i = rbind (tr_node t p) (\<lambda>n. if i < length (tn_arr n) then Inr (tn_arr n ! i) else Inl MemoryFault)"

definition tr_set_arr :: "nat \<Rightarrow> nat \<Rightarrow> nat \<Rightarrow> 'v ctrie \<Rightarrow> 'v ctrie result" where
  "tr_set_arr p i q t = rbind (tr_node t p) (\<lambda>n.
     if i < length (tn_arr n) then tr_upd (\<lambda>n. n\<lparr>tn_arr := (tn_arr n)[i := q]\<rparr>) p t else Inl MemoryFault)"

section \<open>Trie\<close>

definition Trie :: "alphabet \<Rightarrow> 'v fresh list \<Rightarrow> ('v ctrie \<times> 'v fresh list) result" where
  "Trie alpha fs =
     rbind (MakeTrieNode \<lparr>tr_heap = Map.empty, tr_root = 0, tr_alpha = alpha\<rparr> fs) (\<lambda>(root, t, fs'). Inr (t\<lparr>tr_root := root\<rparr>, fs'))"

text \<open>The child for a character, made when there is none.\<close>

definition Put_child :: "'v ctrie \<Rightarrow> 'v fresh list \<Rightarrow> nat \<Rightarrow> char \<Rightarrow> (nat \<times> 'v ctrie \<times> 'v fresh list) result" where
  "Put_child t fs p c =
     rbind (ToIndices (tr_alpha t) c) (\<lambda>char_idx.
       rbind (tr_arr t p char_idx) (\<lambda>node.
         if node = 0
         then rbind (MakeTrieNode t fs) (\<lambda>(node, t1, fs1).
           rbind (tr_upd (\<lambda>n. n\<lparr>tn_c := c\<rparr>) node t1) (\<lambda>t2.
             rbind (tr_set_arr p char_idx node t2) (\<lambda>t3. Inr (node, t3, fs1))))
         else Inr (node, t, fs)))"

fun Put_loop :: "'v ctrie \<Rightarrow> 'v fresh list \<Rightarrow> nat \<Rightarrow> string \<Rightarrow> 'v \<Rightarrow> ('v ctrie \<times> 'v fresh list) result" where
  "Put_loop t fs p [] v = Inr (t, fs)"
| "Put_loop t fs p (c # cs) v =
     rbind (Put_child t fs p c) (\<lambda>(node, t1, fs1).
       rbind (if cs = [] then tr_upd (\<lambda>n. n\<lparr>tn_v := v\<rparr>) node t1 else Inr t1) (\<lambda>t2. Put_loop t2 fs1 node cs v))"

definition Put :: "'v ctrie \<Rightarrow> 'v fresh list \<Rightarrow> string \<Rightarrow> 'v \<Rightarrow> ('v ctrie \<times> 'v fresh list) result" where
  "Put t fs key v = require (tr_root t \<noteq> 0) (Put_loop t fs (tr_root t) key v)"

fun Get_loop :: "'v ctrie \<Rightarrow> nat \<Rightarrow> string \<Rightarrow> 'v option \<Rightarrow> 'v option result" where
  "Get_loop t p [] res = Inr res"
| "Get_loop t p (c # cs) res =
     rbind (ToIndices (tr_alpha t) c) (\<lambda>i.
       rbind (tr_arr t p i) (\<lambda>node.
         if node = 0 then Inr res
         else if cs = [] then rbind (tr_node t node) (\<lambda>n. Get_loop t node cs (Some (tn_v n)))
         else Get_loop t node cs res))"

definition Get :: "'v ctrie \<Rightarrow> string \<Rightarrow> 'v option result" where
  "Get t key = require (tr_root t \<noteq> 0) (Get_loop t (tr_root t) key None)"

section \<open>Fresh memory\<close>

lemma index_put_new: "c \<notin> fst ` set al \<Longrightarrow> index_put c i al = al @ [(c, i)]"
  by (induction al) auto

lemma Alphabet_loop_zip:
  "distinct cs \<Longrightarrow> set cs \<inter> fst ` set al = {} \<Longrightarrow> Alphabet_loop cs idx al = al @ zip cs (map of_nat [idx..<idx + length cs])"
proof (induction cs arbitrary: idx al)
  case (Cons c cs)
  have "[idx..<idx + length (c # cs)] = idx # [Suc idx..<Suc idx + length cs]" by (simp add: upt_rec)
  with Cons show ?case by (simp add: index_put_new)
qed simp

text \<open>An alphabet whose indices are those of the array of a node.\<close>

definition alpha_ok :: "alphabet \<Rightarrow> bool" where
  "alpha_ok al \<longleftrightarrow> (\<forall>c i. map_of al c = Some i \<longrightarrow> unat i < CharNum al) \<and> inj_on (map_of al) (dom (map_of al))"

lemma Alphabet_ok:
  assumes "distinct chars" "length chars < 2 ^ 32"
  shows "alpha_ok (Alphabet chars)" "dom (map_of (Alphabet chars)) = set chars" "CharNum (Alphabet chars) = length chars"
    "i < length chars \<Longrightarrow> map_of (Alphabet chars) (chars ! i) = Some (of_nat i)"
proof -
  let ?is = "map of_nat [0..<length chars] :: u32 list"
  have al: "Alphabet chars = zip chars ?is" using Alphabet_loop_zip [of chars "[]" 0] assms(1) by (simp add: Alphabet_def)
  show num: "CharNum (Alphabet chars) = length chars" by (simp add: CharNum_def al)
  show dom: "dom (map_of (Alphabet chars)) = set chars" by (simp add: al dom_map_of_zip)
  have nth: "map_of (Alphabet chars) (chars ! i) = Some (of_nat i)" if "i < length chars" for i
    using that assms(1) map_of_zip_nth [of chars ?is i] by (simp add: al)
  show "i < length chars \<Longrightarrow> map_of (Alphabet chars) (chars ! i) = Some (of_nat i)" by (rule nth)
  have small: "unat (of_nat i :: u32) = i" if "i < length chars" for i using that assms(2) by (intro unat_of_nat_small) simp
  have ix: "\<exists>j<length chars. c = chars ! j \<and> i = of_nat j" if "map_of (Alphabet chars) c = Some i" for c i
    using that nth dom by (metis domI in_set_conv_nth option.inject)
  have "inj_on (map_of (Alphabet chars)) (dom (map_of (Alphabet chars)))"
    by (rule inj_onI) (metis domD ix option.inject small)
  then show "alpha_ok (Alphabet chars)" unfolding alpha_ok_def num using ix small by metis
qed

text \<open>Memory whose array is zero where \<open>memset\<close> does not reach, at addresses that are not in use.\<close>

definition zeroed :: "nat \<Rightarrow> 'v fresh \<Rightarrow> bool" where
  "zeroed n f \<longleftrightarrow> length (fr_bytes f) = 8 * n \<and> set (drop n (fr_bytes f)) \<subseteq> {0} \<and> fr_addr f \<noteq> 0"

definition supply_ok :: "'v ctrie \<Rightarrow> 'v fresh list \<Rightarrow> bool" where
  "supply_ok t fs \<longleftrightarrow> distinct (map fr_addr fs) \<and> (\<forall>f\<in>set fs. zeroed (CharNum (tr_alpha t)) f \<and> tr_heap t (fr_addr f) = None)"

lemma le_val_zero: "set bs \<subseteq> {0} \<Longrightarrow> le_val bs = 0"
  by (induction bs) auto

lemma as_pointers_zero: "set bs \<subseteq> {0} \<Longrightarrow> as_pointers n bs = replicate n 0"
  unfolding as_pointers_def by (rule nth_equalityI) (auto intro!: le_val_zero dest!: in_set_takeD in_set_dropD)

lemma TrieNode_zeroed: "zeroed n f \<Longrightarrow> TrieNode n f = \<lparr>tn_c = fr_c f, tn_arr = replicate n 0, tn_v = fr_v f\<rparr>"
  unfolding TrieNode_def zeroed_def memset_zero_def by (subst as_pointers_zero) auto

section \<open>The nodes of a trie\<close>

text \<open>
  \<open>N\<close> gives the node of each string that has one, \<open>V\<close> the values there. The strings with a node are
  closed under prefixes, and the array of a node points to the nodes one character further.
\<close>

definition node_ok :: "alphabet \<Rightarrow> (string \<rightharpoonup> nat) \<Rightarrow> string \<Rightarrow> 'v tnode \<Rightarrow> bool" where
  "node_ok al N s n \<longleftrightarrow> length (tn_arr n) = CharNum al \<and>
     (\<forall>c i. map_of al c = Some i \<longrightarrow> tn_arr n ! unat i = (case N (s @ [c]) of None \<Rightarrow> 0 | Some b \<Rightarrow> b))"

definition tr_rep :: "'v ctrie \<Rightarrow> (string \<rightharpoonup> nat) \<Rightarrow> (string \<rightharpoonup> 'v) \<Rightarrow> bool" where
  "tr_rep t N V \<longleftrightarrow> alpha_ok (tr_alpha t) \<and> N [] = Some (tr_root t) \<and> inj_on N (dom N) \<and>
     (\<forall>s c. N (s @ [c]) \<noteq> None \<longrightarrow> N s \<noteq> None) \<and>
     (\<forall>s a. N s = Some a \<longrightarrow> a \<noteq> 0 \<and> (\<exists>n. tr_heap t a = Some n \<and> node_ok (tr_alpha t) N s n \<and> V s = Some (tn_v n))) \<and>
     dom V = dom N"

lemma tr_repD:
  assumes "tr_rep t N V"
  shows "alpha_ok (tr_alpha t)" "N [] = Some (tr_root t)" "dom V = dom N" "N (s @ [c]) \<noteq> None \<Longrightarrow> N s \<noteq> None"
    "N s = Some a \<Longrightarrow> N s' = Some a \<Longrightarrow> s = s'" "N s = Some a \<Longrightarrow> a \<noteq> 0"
    "N s = Some a \<Longrightarrow> \<exists>n. tr_heap t a = Some n \<and> node_ok (tr_alpha t) N s n \<and> V s = Some (tn_v n)"
  using assms unfolding tr_rep_def inj_on_def by (blast, blast, blast, blast, metis domI, blast, blast)

lemma tr_rep_prefix: "tr_rep t N V \<Longrightarrow> N (s @ cs) \<noteq> None \<Longrightarrow> N s \<noteq> None"
proof (induction cs rule: rev_induct)
  case (snoc c cs)
  then show ?case using tr_repD(4) [of t N V "s @ cs" c] by simp
qed simp

lemma child_at:
  assumes "tr_rep t N V" "N s = Some p" "c \<in> dom (map_of (tr_alpha t))"
  obtains i where "ToIndices (tr_alpha t) c = Inr i" "tr_arr t p i = Inr (case N (s @ [c]) of None \<Rightarrow> 0 | Some b \<Rightarrow> b)"
    "map_of (tr_alpha t) c = Some (of_nat i)" "i < CharNum (tr_alpha t)"
proof -
  obtain i where i: "map_of (tr_alpha t) c = Some i" using assms(3) by auto
  have "unat i < CharNum (tr_alpha t)" using tr_repD(1) [OF assms(1)] i by (auto simp: alpha_ok_def)
  then show thesis using that [of "unat i"] i tr_repD(7) [OF assms(1,2)] by (auto simp: ToIndices_def tr_arr_def tr_node_def node_ok_def)
qed

text \<open>\<open>Get\<close> returns what is in the node of the key.\<close>

lemma Get_loop_at:
  "tr_rep t N V \<Longrightarrow> N s = Some p \<Longrightarrow> set cs \<subseteq> dom (map_of (tr_alpha t)) \<Longrightarrow> cs \<noteq> [] \<Longrightarrow> Get_loop t p cs None = Inr (V (s @ cs))"
proof (induction cs arbitrary: s p)
  case (Cons c cs)
  obtain i where i: "ToIndices (tr_alpha t) c = Inr i" "tr_arr t p i = Inr (case N (s @ [c]) of None \<Rightarrow> 0 | Some b \<Rightarrow> b)"
    using child_at [OF Cons.prems(1,2)] Cons.prems(3) by (metis list.set_intros(1) subsetD)
  show ?case
  proof (cases "N (s @ [c])")
    case None
    then have "N (s @ c # cs) = None" using tr_rep_prefix [OF Cons.prems(1), of "s @ [c]" cs] by (cases "N (s @ c # cs)") auto
    then have "V (s @ c # cs) = None" using tr_repD(3) [OF Cons.prems(1)] by (metis domIff)
    then show ?thesis using i None by simp
  next
    case (Some a)
    note n = tr_repD(6,7) [OF Cons.prems(1) Some]
    then show ?thesis using i Some Cons.IH [OF Cons.prems(1) Some] Cons.prems(3) by (cases cs) (auto simp: tr_node_def)
  qed
qed simp

lemma Get_at: "tr_rep t N V \<Longrightarrow> set k \<subseteq> dom (map_of (tr_alpha t)) \<Longrightarrow> Get t k = Inr (if k = [] then None else V k)"
  using Get_loop_at [of t N V "[]" "tr_root t" k] tr_repD(2,6) [of t N V] by (auto simp: Get_def)

section \<open>Adding to a trie\<close>

text \<open>A new node for a string whose last character has no node yet.\<close>

lemma tr_rep_grow:
  assumes "tr_rep t N V" "N s = Some p" "N (s @ [c]) = None" "map_of (tr_alpha t) c = Some (of_nat i)" "i < CharNum (tr_alpha t)"
    "tr_heap t p = Some m" "a \<noteq> 0" "tr_heap t a = None"
  shows "tr_rep (t\<lparr>tr_heap := (tr_heap t)(a \<mapsto> \<lparr>tn_c = c, tn_arr = replicate (CharNum (tr_alpha t)) 0, tn_v = w\<rparr>, p \<mapsto> m\<lparr>tn_arr := (tn_arr m)[unat (of_nat i :: u32) := a]\<rparr>)\<rparr>)
    (N(s @ [c] \<mapsto> a)) (V(s @ [c] \<mapsto> w))"
proof -
  let ?al = "tr_alpha t"
  let ?t = "t\<lparr>tr_heap := (tr_heap t)(a \<mapsto> \<lparr>tn_c = c, tn_arr = replicate (CharNum ?al) 0, tn_v = w\<rparr>, p \<mapsto> m\<lparr>tn_arr := (tn_arr m)[unat (of_nat i :: u32) := a]\<rparr>)\<rparr>"
  let ?N = "N(s @ [c] \<mapsto> a)"
  note d = tr_repD [OF assms(1)]
  have ix: "unat j < CharNum ?al" "unat j = unat (of_nat i :: u32) \<Longrightarrow> e = c" if "map_of ?al e = Some j" for e j
    using d(1) that assms(4) unfolding alpha_ok_def inj_on_def by (auto, metis domI word_unat_eq_iff)
  have fresh: "N u \<noteq> Some a" for u using d(7) [of u a] assms(8) by auto
  then have ap: "a \<noteq> p" using assms(2) by auto
  have leaf: "N (s @ c # us) = None" for us using tr_rep_prefix [OF assms(1), of "s @ [c]" us] assms(3) by (cases "N (s @ c # us)") auto
  have nodes: "b \<noteq> 0 \<and> (\<exists>n. tr_heap ?t b = Some n \<and> node_ok ?al ?N u n \<and> (V(s @ [c] \<mapsto> w)) u = Some (tn_v n))" if b: "?N u = Some b" for u b
  proof (cases "u = s @ [c]")
    case True
    then have "node_ok ?al ?N u \<lparr>tn_c = c, tn_arr = replicate (CharNum ?al) 0, tn_v = w\<rparr>" using leaf ix(1) by (auto simp: node_ok_def)
    then show ?thesis using b True assms(7) ap by auto
  next
    case False
    then have b': "N u = Some b" using b by simp
    obtain n where n: "tr_heap t b = Some n" "node_ok ?al N u n" "V u = Some (tn_v n)" using d(7) [OF b'] by auto
    show ?thesis
    proof (cases "u = s")
      case True
      then have "n = m" "b = p" using n(1) b' assms(2,6) by auto
      moreover have "node_ok ?al ?N s (m\<lparr>tn_arr := (tn_arr m)[unat (of_nat i :: u32) := a]\<rparr>)"
      proof -
        have m: "length (tn_arr m) = CharNum ?al" "\<And>e j. map_of ?al e = Some j \<Longrightarrow> tn_arr m ! unat j = (case N (s @ [e]) of None \<Rightarrow> 0 | Some b \<Rightarrow> b)"
          using n(2) True \<open>n = m\<close> by (simp_all add: node_ok_def)
        have "(tn_arr m)[unat (of_nat i :: u32) := a] ! unat j = (case ?N (s @ [e]) of None \<Rightarrow> 0 | Some b \<Rightarrow> b)" if e: "map_of ?al e = Some j" for e j
        proof (cases "e = c")
          case True
          then show ?thesis using m(1) ix(1) [OF e] assms(4) e by simp
        next
          case False
          then have "unat (of_nat i :: u32) \<noteq> unat j" using ix(2) [OF e] by metis
          then show ?thesis using m(2) [OF e] False by simp
        qed
        then show ?thesis using m(1) by (simp add: node_ok_def)
      qed
      ultimately show ?thesis using d(6) [OF b'] n True by auto
    next
      case False2: False
      have "b \<noteq> p" using d(5) [OF b'] assms(2) False2 by auto
      moreover have "node_ok ?al ?N u n" using n(2) False2 by (auto simp: node_ok_def)
      ultimately show ?thesis using d(6) [OF b'] n False fresh [of u] b' by auto
    qed
  qed
  have "inj_on ?N (dom ?N)" unfolding inj_on_def using d(5) fresh by (auto split: if_splits)
  moreover have "\<forall>u e. ?N (u @ [e]) \<noteq> None \<longrightarrow> ?N u \<noteq> None" using d(4) assms(2) by (auto split: if_splits)
  ultimately show ?thesis using d(1-3) nodes unfolding tr_rep_def by simp
qed

lemma supply_ok_step: "supply_ok t (f # fs) \<Longrightarrow> tr_alpha t' = tr_alpha t \<Longrightarrow> dom (tr_heap t') \<subseteq> insert (fr_addr f) (dom (tr_heap t)) \<Longrightarrow> supply_ok t' fs"
  unfolding supply_ok_def by auto (metis domI domIff image_eqI insertE subsetD)

lemma Put_child_at:
  assumes "tr_rep t N V" "N s = Some p" "c \<in> dom (map_of (tr_alpha t))" "supply_ok t fs" "fs \<noteq> []"
  shows "\<exists>a t' fs' N' V'. Put_child t fs p c = Inr (a, t', fs') \<and> tr_rep t' N' V' \<and> N' (s @ [c]) = Some a \<and> tr_alpha t' = tr_alpha t \<and>
    tr_root t' = tr_root t \<and> supply_ok t' fs' \<and> fs' \<in> {fs, tl fs} \<and> V' = (if V (s @ [c]) = None then V(s @ [c] \<mapsto> fr_v (hd fs)) else V)"
proof -
  obtain i where i: "ToIndices (tr_alpha t) c = Inr i" "tr_arr t p i = Inr (case N (s @ [c]) of None \<Rightarrow> 0 | Some b \<Rightarrow> b)"
      "map_of (tr_alpha t) c = Some (of_nat i)" "i < CharNum (tr_alpha t)"
    by (rule child_at [OF assms(1-3)])
  note d = tr_repD [OF assms(1)]
  have dv: "V (s @ [c]) = None \<longleftrightarrow> N (s @ [c]) = None" using d(3) by (metis domIff)
  show ?thesis
  proof (cases "N (s @ [c])")
    case (Some a)
    then show ?thesis using assms i d(6) [OF Some] dv by (auto simp: Put_child_def)
  next
    case None
    obtain f fs' where f: "fs = f # fs'" using assms(5) by (cases fs) auto
    obtain m where m: "tr_heap t p = Some m" "length (tn_arr m) = CharNum (tr_alpha t)" using d(7) [OF assms(2)] by (auto simp: node_ok_def)
    have z: "zeroed (CharNum (tr_alpha t)) f" "tr_heap t (fr_addr f) = None" "fr_addr f \<noteq> 0" using assms(4) f by (auto simp: supply_ok_def zeroed_def)
    have ui: "unat (of_nat i :: u32) = i" using i(1,3) by (simp add: ToIndices_def)
    let ?h = "(tr_heap t)(fr_addr f \<mapsto> \<lparr>tn_c = c, tn_arr = replicate (CharNum (tr_alpha t)) 0, tn_v = fr_v f\<rparr>, p \<mapsto> m\<lparr>tn_arr := (tn_arr m)[i := fr_addr f]\<rparr>)"
    have ne: "fr_addr f \<noteq> p" using z(2) m(1) by auto
    have "Put_child t fs p c = Inr (fr_addr f, t\<lparr>tr_heap := ?h\<rparr>, fs')"
      using i(1,2,4) None f m ne by (simp add: Put_child_def MakeTrieNode_def TrieNode_zeroed [OF z(1)] tr_upd_def tr_node_def tr_set_arr_def fun_upd_twist)
    moreover have "tr_rep (t\<lparr>tr_heap := ?h\<rparr>) (N(s @ [c] \<mapsto> fr_addr f)) (V(s @ [c] \<mapsto> fr_v f))"
      using tr_rep_grow [OF assms(1,2) None i(3,4) m(1) z(3,2), of "fr_v f"] by (simp add: ui)
    moreover have "supply_ok (t\<lparr>tr_heap := ?h\<rparr>) fs'" by (rule supply_ok_step [OF assms(4) [unfolded f]]) (use m in auto)
    ultimately show ?thesis using dv None f by auto
  qed
qed

text \<open>
  What \<open>Put\<close> does to the values: the key gets its value, nodes that are made on the way keep what
  their memory held.
\<close>

definition put_view :: "'v set \<Rightarrow> string \<Rightarrow> 'v \<Rightarrow> (string \<rightharpoonup> 'v) \<Rightarrow> (string \<rightharpoonup> 'v) \<Rightarrow> bool" where
  "put_view J k0 v V V' \<longleftrightarrow> V' k0 = Some v \<and>
     (\<forall>k. k \<noteq> k0 \<longrightarrow> (if V k \<noteq> None then V' k = V k else if prefix k k0 then V' k \<in> Some ` J else V' k = None))"

lemma put_view_step: "put_view J (s @ [c] @ cs) v (if V (s @ [c]) = None then V(s @ [c] \<mapsto> w) else V) V' \<Longrightarrow> w \<in> J \<Longrightarrow> cs \<noteq> [] \<Longrightarrow>
    put_view J (s @ [c] @ cs) v V V'"
  unfolding put_view_def by (auto split: if_splits)

lemma put_view_last:
  assumes "tr_rep t N V" "N s = Some p" "V1 = (if V (s @ [c]) = None then V(s @ [c] \<mapsto> w) else V)"
  shows "put_view J (s @ [c]) v V (V1(s @ [c] \<mapsto> v))"
proof -
  have "V k \<noteq> None" if k: "prefix k s" for k
  proof -
    obtain us where "s = k @ us" using k by (auto simp: prefix_def)
    then have "N k \<noteq> None" using tr_rep_prefix [OF assms(1), of k us] assms(2) by simp
    then show ?thesis using tr_repD(3) [OF assms(1)] by (metis domIff)
  qed
  then have "V k = None \<Longrightarrow> prefix k (s @ [c]) \<Longrightarrow> k = s @ [c]" for k unfolding prefix_snoc by blast
  then show ?thesis unfolding put_view_def assms(3) by auto
qed

lemma tr_rep_value:
  assumes "tr_rep t N V" "N s = Some a" "tr_heap t a = Some n"
  shows "tr_rep (t\<lparr>tr_heap := (tr_heap t)(a \<mapsto> n\<lparr>tn_v := v\<rparr>)\<rparr>) N (V(s \<mapsto> v))"
proof -
  have "b \<noteq> 0 \<and> (\<exists>m. ((tr_heap t)(a \<mapsto> n\<lparr>tn_v := v\<rparr>)) b = Some m \<and> node_ok (tr_alpha t) N u m \<and> (V(s \<mapsto> v)) u = Some (tn_v m))" if u: "N u = Some b" for u b
  proof -
    obtain m where m: "b \<noteq> 0" "tr_heap t b = Some m" "node_ok (tr_alpha t) N u m" "V u = Some (tn_v m)" using tr_repD(6,7) [OF assms(1) u] by auto
    show ?thesis
    proof (cases "u = s")
      case True
      then have "b = a" "m = n" using u assms(2,3) m(2) by auto
      then show ?thesis using m True by (simp add: node_ok_def)
    next
      case False
      then have "b \<noteq> a" using tr_repD(5) [OF assms(1,2)] u by auto
      then show ?thesis using m False by simp
    qed
  qed
  then show ?thesis using assms(1,2) unfolding tr_rep_def by auto
qed

lemma Put_loop_at:
  "tr_rep t N V \<Longrightarrow> N s = Some p \<Longrightarrow> set cs \<subseteq> dom (map_of (tr_alpha t)) \<Longrightarrow> cs \<noteq> [] \<Longrightarrow> supply_ok t fs \<Longrightarrow> length cs \<le> length fs \<Longrightarrow> fr_v ` set fs \<subseteq> J \<Longrightarrow>
    \<exists>t' fs' N' V'. Put_loop t fs p cs v = Inr (t', fs') \<and> tr_rep t' N' V' \<and> tr_alpha t' = tr_alpha t \<and> supply_ok t' fs' \<and>
      length fs \<le> length fs' + length cs \<and> set fs' \<subseteq> set fs \<and> put_view J (s @ cs) v V V'"
proof (induction cs arbitrary: t N V s p fs)
  case (Cons c cs)
  have fs: "fs \<noteq> []" "c \<in> dom (map_of (tr_alpha t))" using Cons.prems(3,6) by auto
  then have hd: "fr_v (hd fs) \<in> J" using Cons.prems(7) by auto
  obtain a t1 fs1 N1 V1 where c: "Put_child t fs p c = Inr (a, t1, fs1)" "tr_rep t1 N1 V1" "N1 (s @ [c]) = Some a" "tr_alpha t1 = tr_alpha t"
      "supply_ok t1 fs1" "fs1 \<in> {fs, tl fs}" "V1 = (if V (s @ [c]) = None then V(s @ [c] \<mapsto> fr_v (hd fs)) else V)"
    using Put_child_at [OF Cons.prems(1,2) fs(2) Cons.prems(5) fs(1)] by blast
  have sub: "set fs1 \<subseteq> set fs" "length fs \<le> length fs1 + 1" using c(6) list.set_sel(2) [of fs] fs(1) by auto
  show ?case
  proof (cases "cs = []")
    case True
    obtain n where n: "tr_heap t1 a = Some n" using tr_repD(7) [OF c(2,3)] by auto
    let ?t = "t1\<lparr>tr_heap := (tr_heap t1)(a \<mapsto> n\<lparr>tn_v := v\<rparr>)\<rparr>"
    have "Put_loop t fs p (c # cs) v = Inr (?t, fs1)" using c(1) n True by (simp add: tr_upd_def tr_node_def)
    moreover have "supply_ok ?t fs1" using c(5) n by (auto simp: supply_ok_def)
    ultimately show ?thesis
      using tr_rep_value [OF c(2,3) n, of v] put_view_last [OF Cons.prems(1,2) c(7), of J v] c(4) sub True by auto
  next
    case False
    have "set cs \<subseteq> dom (map_of (tr_alpha t1))" "length cs \<le> length fs1" "fr_v ` set fs1 \<subseteq> J" using Cons.prems(3,6,7) c(4) sub by auto
    from Cons.IH [OF c(2,3) this(1) False c(5) this(2,3)] obtain t' fs' N' V' where
      r: "Put_loop t1 fs1 a cs v = Inr (t', fs')" "tr_rep t' N' V'" "tr_alpha t' = tr_alpha t1" "supply_ok t' fs'"
        "length fs1 \<le> length fs' + length cs" "set fs' \<subseteq> set fs1" "put_view J (s @ [c] @ cs) v V1 V'" by auto
    have "Put_loop t fs p (c # cs) v = Inr (t', fs')" using c(1) r(1) False by simp
    then show ?thesis using r c(4) sub put_view_step [OF r(7) [unfolded c(7)] hd False]
      by (intro exI [of _ t'] exI [of _ fs'] exI [of _ N'] exI [of _ V']) auto
  qed
qed simp

section \<open>Properties\<close>

fun Puts :: "'v ctrie \<Rightarrow> 'v fresh list \<Rightarrow> (string \<times> 'v) list \<Rightarrow> ('v ctrie \<times> 'v fresh list) result" where
  "Puts t fs [] = Inr (t, fs)"
| "Puts t fs ((k, v) # ps) = rbind (Put t fs k v) (\<lambda>(t1, fs1). Puts t1 fs1 ps)"

text \<open>
  The answers that are right for a key after some entries were put, when new nodes may hold the
  values \<open>J\<close>: the last value put for the key; any of \<open>J\<close> for a proper prefix of a key; none otherwise.
\<close>

definition answers :: "'v set \<Rightarrow> (string \<times> 'v) list \<Rightarrow> string \<Rightarrow> 'v option set" where
  "answers J ps k =
     (if k = [] then {None}
      else case map_of (rev ps) k of Some v \<Rightarrow> {Some v}
      | None \<Rightarrow> if \<exists>e\<in>set ps. prefix k (fst e) then Some ` J else {None})"

lemma answers_snoc:
  assumes "\<forall>k. k \<noteq> [] \<longrightarrow> V k \<in> answers J ps k" "put_view J k0 v V V'" "k0 \<noteq> []" "k \<noteq> []"
  shows "V' k \<in> answers J (ps @ [(k0, v)]) k"
  using assms(1) [rule_format, OF assms(4)] assms(2-4) unfolding put_view_def answers_def
  by (cases "k = k0"; cases "V k") (auto split: option.splits if_splits)

lemma answers_empty: "k \<noteq> [] \<Longrightarrow> answers J (ps @ [([], v)]) k = answers J ps k"
  by (auto simp: answers_def)

lemma Trie_at:
  assumes "alpha_ok al" "distinct (map fr_addr (f # fs))" "\<forall>g\<in>set (f # fs). zeroed (CharNum al) g"
  shows "\<exists>t N V. Trie al (f # fs) = Inr (t, fs) \<and> tr_rep t N V \<and> tr_alpha t = al \<and> supply_ok t fs \<and> (\<forall>k. k \<noteq> [] \<longrightarrow> V k = None)"
proof -
  let ?t = "\<lparr>tr_heap = [fr_addr f \<mapsto> \<lparr>tn_c = fr_c f, tn_arr = replicate (CharNum al) 0, tn_v = fr_v f\<rparr>], tr_root = fr_addr f, tr_alpha = al\<rparr>"
  have "Trie al (f # fs) = Inr (?t, fs)" using assms(3) by (simp add: Trie_def MakeTrieNode_def TrieNode_zeroed)
  moreover have "tr_rep ?t [[] \<mapsto> fr_addr f] [[] \<mapsto> fr_v f]" using assms(1,3) by (auto simp: tr_rep_def node_ok_def zeroed_def alpha_ok_def)
  moreover have "supply_ok ?t fs" using assms(2,3) by (auto simp: supply_ok_def image_iff)
  ultimately show ?thesis by fastforce
qed

lemma Puts_at:
  "tr_rep t N V \<Longrightarrow> supply_ok t fs \<Longrightarrow> fr_v ` set fs \<subseteq> J \<Longrightarrow> \<forall>k. k \<noteq> [] \<longrightarrow> V k \<in> answers J qs k \<Longrightarrow>
    \<forall>e\<in>set ps. set (fst e) \<subseteq> dom (map_of (tr_alpha t)) \<Longrightarrow> sum_list (map (\<lambda>e. length (fst e)) ps) \<le> length fs \<Longrightarrow>
    \<exists>t' fs' N' V'. Puts t fs ps = Inr (t', fs') \<and> tr_rep t' N' V' \<and> tr_alpha t' = tr_alpha t \<and> (\<forall>k. k \<noteq> [] \<longrightarrow> V' k \<in> answers J (qs @ ps) k)"
proof (induction ps arbitrary: t N V fs qs)
  case (Cons e ps)
  obtain k v where e: "e = (k, v)" by (cases e)
  have root: "tr_root t \<noteq> 0" "N [] = Some (tr_root t)" using tr_repD(2,6) [OF Cons.prems(1)] by auto
  obtain t1 fs1 N1 V1 where p: "Put t fs k v = Inr (t1, fs1)" "tr_rep t1 N1 V1" "tr_alpha t1 = tr_alpha t" "supply_ok t1 fs1"
      "length fs \<le> length fs1 + length k" "set fs1 \<subseteq> set fs" "\<forall>j. j \<noteq> [] \<longrightarrow> V1 j \<in> answers J (qs @ [(k, v)]) j"
  proof (cases "k = []")
    case True
    then show thesis using Cons.prems root by (intro that [of t fs N V]) (auto simp: Put_def answers_empty)
  next
    case False
    have "set k \<subseteq> dom (map_of (tr_alpha t))" "length k \<le> length fs" using Cons.prems(5,6) e by auto
    then obtain t1 fs1 N1 V1 where l: "Put_loop t fs (tr_root t) k v = Inr (t1, fs1)" "tr_rep t1 N1 V1" "tr_alpha t1 = tr_alpha t" "supply_ok t1 fs1"
      "length fs \<le> length fs1 + length k" "set fs1 \<subseteq> set fs" "put_view J ([] @ k) v V V1"
      using Put_loop_at [OF Cons.prems(1) root(2) _ False Cons.prems(2) _ Cons.prems(3), of v] by blast
    show thesis using l root(1) answers_snoc [OF Cons.prems(4) _ False] by (intro that [of t1 fs1 N1 V1]) (auto simp: Put_def)
  qed
  have "fr_v ` set fs1 \<subseteq> J" "\<forall>e\<in>set ps. set (fst e) \<subseteq> dom (map_of (tr_alpha t1))" "sum_list (map (\<lambda>e. length (fst e)) ps) \<le> length fs1"
    using Cons.prems(3,5,6) p(3,5,6) e by auto
  from Cons.IH [OF p(2,4) this(1) p(7) this(2,3)] show ?case using p(1,3) e by auto
qed auto

text \<open>
  C35. The trie is a map from strings, as long as the memory it gets happens to be zero: when the
  characters of the alphabet are different, the keys are made of them and there is enough memory,
  every sequence of \<open>Put\<close> succeeds, and then \<open>Get\<close> returns the last value put for a key that was put,
  nothing for the empty key and for a string that no key starts with, and for a proper prefix of a
  key some value that the memory of a new node held, not nothing.
\<close>

theorem trie_put_get:
  assumes "distinct chars" "length chars < 2 ^ 32" "\<forall>e\<in>set ps. set (fst e) \<subseteq> set chars"
    "distinct (map fr_addr fs)" "\<forall>f\<in>set fs. zeroed (length chars) f" "sum_list (map (\<lambda>e. length (fst e)) ps) < length fs"
  shows "\<exists>t fs'. rbind (Trie (Alphabet chars) fs) (\<lambda>(t, fs1). Puts t fs1 ps) = Inr (t, fs') \<and>
    (\<forall>k. set k \<subseteq> set chars \<longrightarrow> (\<exists>r\<in>answers (fr_v ` set fs) ps k. Get t k = Inr r))"
proof -
  note al = Alphabet_ok [OF assms(1,2)]
  obtain f gs where fs: "fs = f # gs" using assms(6) by (cases fs) auto
  obtain t N V where t: "Trie (Alphabet chars) fs = Inr (t, gs)" "tr_rep t N V" "tr_alpha t = Alphabet chars" "supply_ok t gs" "\<forall>k. k \<noteq> [] \<longrightarrow> V k = None"
    using Trie_at [OF al(1), of f gs] assms(4,5) al(3) fs by auto
  have a: "fr_v ` set gs \<subseteq> fr_v ` set fs" "\<forall>k. k \<noteq> [] \<longrightarrow> V k \<in> answers (fr_v ` set fs) [] k"
    "\<forall>e\<in>set ps. set (fst e) \<subseteq> dom (map_of (tr_alpha t))" "sum_list (map (\<lambda>e. length (fst e)) ps) \<le> length gs"
    using t(3,5) al(2) assms(3,6) fs by (auto simp: answers_def)
  obtain t' fs' N' V' where t': "Puts t gs ps = Inr (t', fs')" "tr_rep t' N' V'" "tr_alpha t' = tr_alpha t" "\<forall>k. k \<noteq> [] \<longrightarrow> V' k \<in> answers (fr_v ` set fs) ([] @ ps) k"
    using Puts_at [OF t(2,4) a] by blast
  have "\<exists>r\<in>answers (fr_v ` set fs) ps k. Get t' k = Inr r" if "set k \<subseteq> set chars" for k
    using Get_at [OF t'(2), of k] that t(3) t'(3,4) al(2) by (cases "k = []") (auto simp: answers_def)
  then show ?thesis using t(1) t'(1) by auto
qed

text \<open>The program's \<open>main\<close>, in memory that is zero but for the values, which are 77.\<close>

definition zero_memory :: "nat \<Rightarrow> nat \<Rightarrow> int fresh list" where
  "zero_memory n m = map (\<lambda>a. \<lparr>fr_addr = Suc a, fr_bytes = replicate (8 * n) 0, fr_c = CHR ''x'', fr_v = 77\<rparr>) [0..<m]"

lemma zero_memory_ok: "distinct (map fr_addr (zero_memory n m))" "\<forall>f\<in>set (zero_memory n m). zeroed n f" "length (zero_memory n m) = m"
    "fr_v ` set (zero_memory n m) \<subseteq> {77}"
  by (auto simp: zero_memory_def comp_def distinct_map inj_on_def zeroed_def)

theorem trie_put_get_witness:
  "\<exists>t fs'. rbind (Trie (Alphabet ''abcde1234567'') (zero_memory 12 10)) (\<lambda>(t, fs1). Puts t fs1 [(''123abed'', 123)]) = Inr (t, fs') \<and>
    Get t ''1234'' = Inr None \<and> Get t ''123abed'' = Inr (Some 123) \<and> Get t ''123'' = Inr (Some 77)"
proof -
  have "\<exists>t fs'. rbind (Trie (Alphabet ''abcde1234567'') (zero_memory 12 10)) (\<lambda>(t, fs1). Puts t fs1 [(''123abed'', 123)]) = Inr (t, fs') \<and>
      (\<forall>k. set k \<subseteq> set ''abcde1234567'' \<longrightarrow> (\<exists>r\<in>answers (fr_v ` set (zero_memory 12 10)) [(''123abed'', 123)] k. Get t k = Inr r))"
  proof (rule trie_put_get)
    have "length ''abcde1234567'' = 12" by simp
    then show "\<forall>f\<in>set (zero_memory 12 10). zeroed (length ''abcde1234567'') f" using zero_memory_ok(2) by (simp only:)
  qed (simp_all add: zero_memory_ok)
  then obtain t fs' where t: "rbind (Trie (Alphabet ''abcde1234567'') (zero_memory 12 10)) (\<lambda>(t, fs1). Puts t fs1 [(''123abed'', 123)]) = Inr (t, fs')"
      "\<forall>k. set k \<subseteq> set ''abcde1234567'' \<longrightarrow> (\<exists>r\<in>answers (fr_v ` set (zero_memory 12 10)) [(''123abed'', 123)] k. Get t k = Inr r)" by blast
  have "Get t ''1234'' = Inr None" "Get t ''123abed'' = Inr (Some 123)" "Get t ''123'' = Inr (Some 77)"
    using t(2) [rule_format, of "''1234''"] t(2) [rule_format, of "''123abed''"] t(2) [rule_format, of "''123''"] zero_memory_ok(4) [of 12 10]
    by (auto simp: answers_def)
  with t(1) show ?thesis by blast
qed

text \<open>
  In memory that is not zero the trie breaks: \<open>memset\<close> clears as many bytes as there are
  characters, an eighth of the array. When the bytes of a pointer behind them are not zero, \<open>Get\<close>
  of that character on a new trie, and \<open>Put\<close> of it, follow the pointer into memory that is not a
  node.
\<close>

theorem trie_follows_garbage:
  assumes "distinct chars" "length chars < 2 ^ 32" "i < length chars" "length chars \<le> 8 * i" "length (fr_bytes f) = 8 * length chars"
    "le_val (take 8 (drop (8 * i) (fr_bytes f))) \<notin> {0, fr_addr f}" "fr_addr f \<noteq> 0"
  shows "\<exists>t. Trie (Alphabet chars) (f # fs) = Inr (t, fs) \<and> Get t [chars ! i] = Inl MemoryFault \<and> Put t fs [chars ! i] v = Inl MemoryFault"
proof -
  note al = Alphabet_ok [OF assms(1,2)]
  let ?n = "TrieNode (length chars) f"
  let ?t = "\<lparr>tr_heap = [fr_addr f \<mapsto> ?n], tr_root = fr_addr f, tr_alpha = Alphabet chars\<rparr>"
  have "drop (8 * i) (memset_zero (length chars) (fr_bytes f)) = drop (8 * i) (fr_bytes f)" using assms(4) by (simp add: memset_zero_def)
  then have "tn_arr ?n ! i = le_val (take 8 (drop (8 * i) (fr_bytes f)))" "length (tn_arr ?n) = length chars"
    using assms(3) by (simp_all add: TrieNode_def as_pointers_def)
  then have arr: "tr_arr ?t (fr_addr f) i = Inr (le_val (take 8 (drop (8 * i) (fr_bytes f))))" using assms(3) by (simp add: tr_arr_def tr_node_def)
  have "unat (of_nat i :: u32) = i" using assms(2,3) by (intro unat_of_nat_small) simp
  then have ix: "ToIndices (Alphabet chars) (chars ! i) = Inr i" using al(4) [OF assms(3)] by (simp add: ToIndices_def)
  have "Trie (Alphabet chars) (f # fs) = Inr (?t, fs)" by (simp add: Trie_def MakeTrieNode_def al(3))
  moreover have "Get ?t [chars ! i] = Inl MemoryFault" "Put ?t fs [chars ! i] v = Inl MemoryFault"
    using assms(6,7) ix arr by (simp_all add: Get_def Put_def Put_child_def tr_upd_def tr_node_def)
  ultimately show ?thesis by blast
qed

theorem trie_follows_garbage_witness:
  "\<exists>t. Trie (Alphabet ''abcde1234567'') [\<lparr>fr_addr = 1, fr_bytes = replicate 96 255, fr_c = CHR ''x'', fr_v = 77 :: int\<rparr>] = Inr (t, []) \<and>
    Get t ''1'' = Inl MemoryFault \<and> Put t [] ''1'' 5 = Inl MemoryFault"
proof -
  let ?f = "\<lparr>fr_addr = 1, fr_bytes = replicate 96 255, fr_c = CHR ''x'', fr_v = 77 :: int\<rparr>"
  have "\<exists>t. Trie (Alphabet ''abcde1234567'') [?f] = Inr (t, []) \<and> Get t [''abcde1234567'' ! 5] = Inl MemoryFault \<and> Put t [] [''abcde1234567'' ! 5] 5 = Inl MemoryFault"
  proof (rule trie_follows_garbage)
    have "take 8 (drop (8 * 5) (replicate 96 255)) = 255 # replicate 7 (255 :: byte)" by code_simp
    then have "le_val (take 8 (drop (8 * 5) (replicate 96 255))) \<notin> {0, 1}" by simp
    then show "le_val (take 8 (drop (8 * 5) (fr_bytes ?f))) \<notin> {0, fr_addr ?f}" by (simp only: fresh.simps not_False_eq_True)
  qed simp_all
  then show ?thesis by simp
qed

end
