(* ===== verification/Judy_Map.thy ===== *)
theory Judy_Map
  imports Keyed_Map
begin

text \<open>
  The map of \<open>fx/include/map.hpp\<close>: a JudyL array, from words to words, that gives each key the
  address of an object on the heap. The Judy library is not in the repository: its macros are the
  fields of a record, an argument of the operations, and \<open>judy_ok\<close> states what its documentation
  says of them. \<open>conv\<close> is the key converter, \<open>dflt\<close> is \<open>mapped_type()\<close>; the address that the
  allocator returns is an argument of \<open>insert\<close>.
\<close>

section \<open>The Judy library\<close>

text \<open>
  \<open>j_root\<close> is the pointer that stands for an array, 0 for \<open>NULL\<close>; \<open>j_get\<close> is \<open>JLG\<close>, with the word
  that the slot holds; \<open>j_ins\<close> is \<open>JLI\<close>, none when it returns \<open>PJERR\<close>; \<open>j_put\<close> writes to a slot;
  \<open>j_del\<close> is \<open>JLD\<close>; \<open>j_first\<close> and \<open>j_next\<close> are \<open>JLF\<close> and \<open>JLN\<close>, with the index they move to; \<open>j_used\<close>
  is \<open>JLMU\<close>.
\<close>

record 'j judy =
  j_null :: 'j
  j_root :: "'j \<Rightarrow> nat"
  j_get :: "'j \<Rightarrow> u64 \<Rightarrow> u64 option"
  j_ins :: "'j \<Rightarrow> u64 \<Rightarrow> 'j option"
  j_put :: "'j \<Rightarrow> u64 \<Rightarrow> u64 \<Rightarrow> 'j"
  j_del :: "'j \<Rightarrow> u64 \<Rightarrow> int \<times> 'j"
  j_first :: "'j \<Rightarrow> u64 \<Rightarrow> u64 option"
  j_next :: "'j \<Rightarrow> u64 \<Rightarrow> u64 option"
  j_used :: "'j \<Rightarrow> u64"

section \<open>State\<close>

record ('j, 'v) jmap =
  jm_arr :: 'j
  jm_heap :: "nat \<rightharpoonup> 'v"
  jm_sz :: u64

record 'v jiter =
  ji_arr :: nat
  ji_key :: u64
  ji_val :: 'v

definition jm_Map :: "'j judy \<Rightarrow> ('j, 'v) jmap" where
  "jm_Map J = \<lparr>jm_arr = j_null J, jm_heap = Map.empty, jm_sz = 0\<rparr>"

text \<open>The default converter: the conversion of an integer to a word.\<close>

definition Converter :: "int \<Rightarrow> u64" where
  "Converter val = of_int val"

text \<open>The object whose address a slot holds.\<close>

definition jm_object :: "('j, 'v) jmap \<Rightarrow> u64 \<Rightarrow> 'v result" where
  "jm_object m w = (case jm_heap m (unat w) of None \<Rightarrow> Inl MemoryFault | Some v \<Rightarrow> Inr v)"

section \<open>Iterators\<close>

definition ji_Reset :: "'v \<Rightarrow> 'v jiter" where
  "ji_Reset dflt = \<lparr>ji_arr = 0, ji_key = 0, ji_val = dflt\<rparr>"

definition ji_Valid :: "'v jiter \<Rightarrow> bool" where
  "ji_Valid it \<longleftrightarrow> ji_arr it \<noteq> 0"

definition ji_eq :: "'v jiter \<Rightarrow> 'v jiter \<Rightarrow> bool" where
  "ji_eq x y \<longleftrightarrow> ji_arr x = ji_arr y \<and> ji_key x = ji_key y"

definition ji_deref :: "'v jiter \<Rightarrow> 'v result" where
  "ji_deref it = require (ji_Valid it) (Inr (ji_val it))"

text \<open>
  An iterator keeps the pointer of the array at the time it was made; using it after the array has
  moved is a fault.
\<close>

definition ji_next :: "'j judy \<Rightarrow> 'v \<Rightarrow> ('j, 'v) jmap \<Rightarrow> 'v jiter \<Rightarrow> 'v jiter result" where
  "ji_next J dflt m it =
     (if ji_Valid it
      then if ji_arr it \<noteq> j_root J (jm_arr m) then Inl MemoryFault
        else (case j_next J (jm_arr m) (ji_key it) of
            None \<Rightarrow> Inr (ji_Reset dflt)
          | Some i \<Rightarrow> (case j_get J (jm_arr m) i of
              None \<Rightarrow> Inl MemoryFault
            | Some w \<Rightarrow> rbind (jm_object m w) (\<lambda>v. Inr (it\<lparr>ji_key := i, ji_val := v\<rparr>))))
      else Inr it)"

text \<open>\<open>operator++(int)\<close> returns an advanced copy and leaves the iterator where it is.\<close>

definition ji_next_post :: "'j judy \<Rightarrow> 'v \<Rightarrow> ('j, 'v) jmap \<Rightarrow> 'v jiter \<Rightarrow> ('v jiter \<times> 'v jiter) result" where
  "ji_next_post J dflt m it = rbind (ji_next J dflt m it) (\<lambda>res. Inr (res, it))"

section \<open>Operations\<close>

definition jm_end :: "'v \<Rightarrow> 'v jiter" where
  "jm_end dflt = ji_Reset dflt"

definition jm_find :: "'j judy \<Rightarrow> ('k \<Rightarrow> u64) \<Rightarrow> 'v \<Rightarrow> ('j, 'v) jmap \<Rightarrow> 'k \<Rightarrow> 'v jiter result" where
  "jm_find J conv dflt m key =
     (let idx = conv key
      in case j_get J (jm_arr m) idx of
          None \<Rightarrow> Inr (ji_Reset dflt)
        | Some w \<Rightarrow> rbind (jm_object m w) (\<lambda>v. Inr \<lparr>ji_arr = j_root J (jm_arr m), ji_key = idx, ji_val = v\<rparr>))"

definition jm_insert :: "'j judy \<Rightarrow> ('k \<Rightarrow> u64) \<Rightarrow> 'v \<Rightarrow> nat \<Rightarrow> ('j, 'v) jmap \<Rightarrow> 'k \<times> 'v \<Rightarrow> (('v jiter \<times> bool) \<times> ('j, 'v) jmap) result" where
  "jm_insert J conv dflt a m x =
     rbind (jm_find J conv dflt m (fst x)) (\<lambda>iter.
       if \<not> ji_eq iter (jm_end dflt) then Inr ((iter, False), m)
       else let idx = conv (fst x)
         in case j_ins J (jm_arr m) idx of
             None \<Rightarrow> Inl AssertionFailed
           | Some arr \<Rightarrow> (case j_get J arr idx of
               None \<Rightarrow> Inl MemoryFault
             | Some addr \<Rightarrow>
                 if addr = 0
                 then let arr' = j_put J arr idx (of_nat a)
                   in Inr ((\<lparr>ji_arr = j_root J arr', ji_key = idx, ji_val = snd x\<rparr>, True),
                     \<lparr>jm_arr = arr', jm_heap = (jm_heap m)(a \<mapsto> snd x), jm_sz = jm_sz m + 1\<rparr>)
                 else Inl AssertionFailed))"

definition jm_erase_at :: "'j judy \<Rightarrow> ('j, 'v) jmap \<Rightarrow> 'v jiter \<Rightarrow> ('j, 'v) jmap result" where
  "jm_erase_at J m pos =
     require (ji_Valid pos)
       (require (ji_arr pos = j_root J (jm_arr m))
         (case j_del J (jm_arr m) (ji_key pos) of
           (ret, arr) \<Rightarrow> require (ret = 1) (Inr (m\<lparr>jm_arr := arr, jm_sz := jm_sz m - 1\<rparr>))))"

definition jm_erase :: "'j judy \<Rightarrow> ('k \<Rightarrow> u64) \<Rightarrow> 'v \<Rightarrow> ('j, 'v) jmap \<Rightarrow> 'k \<Rightarrow> (nat \<times> ('j, 'v) jmap) result" where
  "jm_erase J conv dflt m key =
     rbind (jm_find J conv dflt m key) (\<lambda>iter.
       if ji_eq iter (jm_end dflt) then Inr (0, m) else rbind (jm_erase_at J m iter) (\<lambda>m'. Inr (1, m')))"

definition jm_size :: "('j, 'v) jmap \<Rightarrow> nat" where
  "jm_size m = unat (jm_sz m)"

definition jm_empty :: "('j, 'v) jmap \<Rightarrow> bool" where
  "jm_empty m \<longleftrightarrow> jm_sz m = 0"

text \<open>The loop of \<open>clear\<close>, at the slot \<open>idx\<close> if there is one.\<close>

partial_function (option) clear_loop :: "'j judy \<Rightarrow> ('j, 'v) jmap \<Rightarrow> u64 option \<Rightarrow> ('j, 'v) jmap run" where
  [code]: "clear_loop J m cur =
     (case cur of None \<Rightarrow> Some (Inr m)
      | Some idx \<Rightarrow> (case j_get J (jm_arr m) idx of
          None \<Rightarrow> Some (Inl MemoryFault)
        | Some addr \<Rightarrow> fbind (Some (jm_object m addr)) (\<lambda>v.
            let arr = snd (j_del J (jm_arr m) idx)
            in clear_loop J (m\<lparr>jm_heap := (jm_heap m)(unat addr := None), jm_arr := arr\<rparr>) (j_next J arr idx))))"

definition jm_clear :: "'j judy \<Rightarrow> ('j, 'v) jmap \<Rightarrow> ('j, 'v) jmap run" where
  "jm_clear J m = fbind (clear_loop J m (j_first J (jm_arr m) 0)) (\<lambda>m'. Some (Inr (m'\<lparr>jm_arr := j_null J\<rparr>)))"

definition jm_ByteSize :: "'j judy \<Rightarrow> ('j, 'v) jmap \<Rightarrow> u64" where
  "jm_ByteSize J m = j_used J (jm_arr m)"

definition jm_begin :: "'j judy \<Rightarrow> 'v \<Rightarrow> ('j, 'v) jmap \<Rightarrow> 'v jiter result" where
  "jm_begin J dflt m =
     (case j_first J (jm_arr m) 0 of
        None \<Rightarrow> Inr (ji_Reset dflt)
      | Some idx \<Rightarrow> (case j_get J (jm_arr m) idx of
          None \<Rightarrow> Inl MemoryFault
        | Some w \<Rightarrow> rbind (jm_object m w) (\<lambda>v. Inr \<lparr>ji_arr = j_root J (jm_arr m), ji_key = idx, ji_val = v\<rparr>)))"

section \<open>What the Judy library promises\<close>

text \<open>
  \<open>A\<close> gives the contents of an array: an array is \<open>NULL\<close> exactly if it is empty, an insertion adds a
  slot with the word 0 (there is memory for it), a slot can be written without the array moving, and
  the two searches find the least index from, or behind, the one they are given.
\<close>

definition judy_ok :: "'j judy \<Rightarrow> ('j \<Rightarrow> u64 \<rightharpoonup> u64) \<Rightarrow> bool" where
  "judy_ok J A \<longleftrightarrow> A (j_null J) = Map.empty \<and> (\<forall>a. j_root J a = 0 \<longleftrightarrow> A a = Map.empty) \<and> (\<forall>a i. j_get J a i = A a i) \<and>
     (\<forall>a i. \<exists>a'. j_ins J a i = Some a' \<and> A a' = (if A a i = None then (A a)(i \<mapsto> 0) else A a)) \<and>
     (\<forall>a i w. A a i \<noteq> None \<longrightarrow> A (j_put J a i w) = (A a)(i \<mapsto> w) \<and> j_root J (j_put J a i w) = j_root J a) \<and>
     (\<forall>a i. \<exists>a'. j_del J a i = (if A a i = None then 0 else 1, a') \<and> A a' = (A a)(i := None)) \<and>
     (\<forall>a i. case j_first J a i of None \<Rightarrow> \<forall>k\<in>dom (A a). k < i | Some j \<Rightarrow> j \<in> dom (A a) \<and> i \<le> j \<and> (\<forall>k\<in>dom (A a). i \<le> k \<longrightarrow> j \<le> k)) \<and>
     (\<forall>a i. case j_next J a i of None \<Rightarrow> \<forall>k\<in>dom (A a). k \<le> i | Some j \<Rightarrow> j \<in> dom (A a) \<and> i < j \<and> (\<forall>k\<in>dom (A a). i < k \<longrightarrow> j \<le> k))"

lemma judy_okD:
  assumes "judy_ok J A"
  shows "A (j_null J) = Map.empty" "j_root J a = 0 \<longleftrightarrow> A a = Map.empty" "j_get J a i = A a i"
    "\<exists>a'. j_ins J a i = Some a' \<and> A a' = (if A a i = None then (A a)(i \<mapsto> 0) else A a)"
    "A a i \<noteq> None \<Longrightarrow> A (j_put J a i w) = (A a)(i \<mapsto> w) \<and> j_root J (j_put J a i w) = j_root J a"
    "\<exists>a'. j_del J a i = (if A a i = None then 0 else 1, a') \<and> A a' = (A a)(i := None)"
    "case j_first J a i of None \<Rightarrow> \<forall>k\<in>dom (A a). k < i | Some j \<Rightarrow> j \<in> dom (A a) \<and> i \<le> j \<and> (\<forall>k\<in>dom (A a). i \<le> k \<longrightarrow> j \<le> k)"
    "case j_next J a i of None \<Rightarrow> \<forall>k\<in>dom (A a). k \<le> i | Some j \<Rightarrow> j \<in> dom (A a) \<and> i < j \<and> (\<forall>k\<in>dom (A a). i < k \<longrightarrow> j \<le> k)"
  using assms unfolding judy_ok_def by blast+

section \<open>The map of a state\<close>

text \<open>
  The slots hold the addresses of different objects, and the map gives each index the object of its
  slot. \<open>n\<close> is what the counter says in excess of the number of entries.
\<close>

definition jm_rep :: "'j judy \<Rightarrow> ('j \<Rightarrow> u64 \<rightharpoonup> u64) \<Rightarrow> u64 \<Rightarrow> ('j, 'v) jmap \<Rightarrow> (u64 \<rightharpoonup> 'v) \<Rightarrow> bool" where
  "jm_rep J A n m M \<longleftrightarrow> judy_ok J A \<and> inj_on (A (jm_arr m)) (dom (A (jm_arr m))) \<and> dom M = dom (A (jm_arr m)) \<and>
     (\<forall>i w. A (jm_arr m) i = Some w \<longrightarrow> w \<noteq> 0 \<and> jm_heap m (unat w) = M i) \<and> jm_sz m = of_nat (card (dom M)) + n"

lemma jm_repD:
  assumes "jm_rep J A n m M"
  shows "judy_ok J A" "M i = None \<longleftrightarrow> A (jm_arr m) i = None" "A (jm_arr m) i = Some w \<Longrightarrow> w \<noteq> 0 \<and> jm_heap m (unat w) = M i"
    "A (jm_arr m) i = Some w \<Longrightarrow> A (jm_arr m) j = Some w \<Longrightarrow> i = j" "jm_sz m = of_nat (card (dom M)) + n" "dom M = dom (A (jm_arr m))"
proof -
  note d = assms [unfolded jm_rep_def]
  show "judy_ok J A" "dom M = dom (A (jm_arr m))" "jm_sz m = of_nat (card (dom M)) + n" using d by blast+
  then show "M i = None \<longleftrightarrow> A (jm_arr m) i = None" by (metis domIff)
  show "A (jm_arr m) i = Some w \<Longrightarrow> w \<noteq> 0 \<and> jm_heap m (unat w) = M i" using d by blast
  show "A (jm_arr m) i = Some w \<Longrightarrow> A (jm_arr m) j = Some w \<Longrightarrow> i = j" using d by (metis domI inj_onD)
qed

lemma jm_Map_rep: "judy_ok J A \<Longrightarrow> jm_rep J A 0 (jm_Map J) Map.empty"
  using judy_okD(1) [of J A] by (simp add: jm_rep_def jm_Map_def)

text \<open>The iterator at an index.\<close>

definition ji_at :: "'j judy \<Rightarrow> ('j, 'v) jmap \<Rightarrow> 'v \<Rightarrow> (u64 \<rightharpoonup> 'v) \<Rightarrow> u64 option \<Rightarrow> 'v jiter" where
  "ji_at J m dflt M i = (case i of None \<Rightarrow> ji_Reset dflt | Some i \<Rightarrow> \<lparr>ji_arr = j_root J (jm_arr m), ji_key = i, ji_val = the (M i)\<rparr>)"

lemma root_valid:
  assumes "jm_rep J A n m M" "M i \<noteq> None"
  shows "j_root J (jm_arr m) \<noteq> 0"
  using judy_okD(2) [OF jm_repD(1) [OF assms(1)], of "jm_arr m"] jm_repD(2) [OF assms(1), of i] assms(2) by auto

lemma object_at:
  assumes "jm_rep J A n m M" "A (jm_arr m) i = Some w"
  shows "jm_object m w = Inr (the (M i))" "M i \<noteq> None"
  using jm_repD(2,3) [OF assms(1), of i] assms(2) by (auto simp: jm_object_def split: option.splits)

lemma jm_find_at:
  assumes "jm_rep J A n m M"
  shows "jm_find J conv dflt m k = Inr (ji_at J m dflt M (if M (conv k) = None then None else Some (conv k)))"
proof (cases "A (jm_arr m) (conv k)")
  case None
  then show ?thesis using jm_repD(2) [OF assms, of "conv k"] judy_okD(3) [OF jm_repD(1) [OF assms]] by (simp add: jm_find_def ji_at_def Let_def)
next
  case (Some w)
  then show ?thesis using object_at [OF assms Some] judy_okD(3) [OF jm_repD(1) [OF assms]] by (auto simp: jm_find_def ji_at_def Let_def)
qed

lemma ji_at_end: "jm_rep J A n m M \<Longrightarrow> M i \<noteq> None \<Longrightarrow> \<not> ji_eq (ji_at J m dflt M (Some i)) (jm_end dflt)"
  "ji_eq (ji_at J m dflt M None) (jm_end dflt)"
  using root_valid [of J A n m M i] by (simp_all add: ji_eq_def ji_at_def jm_end_def ji_Reset_def)

text \<open>What a client gets.\<close>

definition jm_ins :: "'j judy \<Rightarrow> ('k \<Rightarrow> u64) \<Rightarrow> 'v \<Rightarrow> nat \<Rightarrow> ('j, 'v) jmap \<Rightarrow> 'k \<times> 'v \<Rightarrow> ((bool \<times> 'v) \<times> ('j, 'v) jmap) result" where
  "jm_ins J conv dflt a m x = rbind (jm_insert J conv dflt a m x) (\<lambda>((it, b), m'). rbind (ji_deref it) (\<lambda>v. Inr ((b, v), m')))"

definition jm_look :: "'j judy \<Rightarrow> ('k \<Rightarrow> u64) \<Rightarrow> 'v \<Rightarrow> ('j, 'v) jmap \<Rightarrow> 'k \<Rightarrow> 'v option result" where
  "jm_look J conv dflt m k =
     rbind (jm_find J conv dflt m k) (\<lambda>it. if ji_eq it (jm_end dflt) then Inr None else rbind (ji_deref it) (\<lambda>v. Inr (Some v)))"

definition jm_vacant :: "('j, 'v) jmap \<Rightarrow> nat \<Rightarrow> bool" where
  "jm_vacant m a \<longleftrightarrow> 0 < a \<and> a < 2 ^ 64 \<and> jm_heap m a = None"

lemma deref_at: "jm_rep J A n m M \<Longrightarrow> M i = Some v \<Longrightarrow> ji_deref (ji_at J m dflt M (Some i)) = Inr v"
  using root_valid [of J A n m M i] by (simp add: ji_deref_def ji_at_def ji_Valid_def)

lemma jm_look_at: "jm_rep J A n m M \<Longrightarrow> jm_look J conv dflt m k = Inr (M (conv k))"
  using jm_find_at [of J A n m M conv dflt k] ji_at_end(1) [of J A n m M "conv k" dflt] deref_at [of J A n m M "conv k"]
  by (cases "M (conv k)") (auto simp: jm_look_def ji_at_end(2))

lemma jm_ins_present: "jm_rep J A n m M \<Longrightarrow> M (conv (fst x)) = Some v \<Longrightarrow> jm_ins J conv dflt a m x = Inr ((False, v), m)"
  using jm_find_at [of J A n m M conv dflt "fst x"] ji_at_end(1) [of J A n m M "conv (fst x)" dflt] deref_at [of J A n m M "conv (fst x)"]
  by (simp add: jm_ins_def jm_insert_def)

lemma jm_ins_absent:
  assumes "jm_rep J A n m M" "M (conv (fst x)) = None" "jm_vacant m a"
  shows "\<exists>m'. jm_ins J conv dflt a m x = Inr ((True, snd x), m') \<and> jm_rep J A n m' (M(conv (fst x) \<mapsto> snd x)) \<and> (\<forall>b. jm_vacant m b \<longrightarrow> b \<noteq> a \<longrightarrow> jm_vacant m' b)"
proof -
  let ?i = "conv (fst x)"
  note d = jm_repD [OF assms(1)]
  note j = judy_okD [OF d(1)]
  have none: "A (jm_arr m) ?i = None" using d(2) assms(2) by simp
  obtain arr where arr: "j_ins J (jm_arr m) ?i = Some arr" "A arr = (A (jm_arr m))(?i \<mapsto> 0)" using j(4) [of "jm_arr m" ?i] none by auto
  let ?arr = "j_put J arr ?i (of_nat a)"
  have put: "A ?arr = (A (jm_arr m))(?i \<mapsto> of_nat a)" using j(5) [of arr ?i "of_nat a"] arr(2) by simp
  have ua: "unat (of_nat a :: u64) = a" "(of_nat a :: u64) \<noteq> 0"
  proof -
    show u: "unat (of_nat a :: u64) = a" using assms(3) by (intro unat_of_nat_small) (simp add: jm_vacant_def)
    show "(of_nat a :: u64) \<noteq> 0" using u assms(3) by (metis jm_vacant_def less_numeral_extra(3) unat_0)
  qed
  have root: "j_root J ?arr \<noteq> 0" using j(2) [of ?arr] put by (auto simp: fun_eq_iff)
  let ?m = "\<lparr>jm_arr = ?arr, jm_heap = (jm_heap m)(a \<mapsto> snd x), jm_sz = jm_sz m + 1\<rparr>"
  have "jm_ins J conv dflt a m x = Inr ((True, snd x), ?m)"
    using jm_find_at [OF assms(1), of conv dflt "fst x"] assms(2) arr j(3) root
    by (simp add: jm_ins_def jm_insert_def ji_at_end(2) Let_def ji_deref_def ji_Valid_def)
  moreover have "jm_rep J A n ?m (M(?i \<mapsto> snd x))"
  proof -
    have old: "unat w \<noteq> a" "w \<noteq> of_nat a" if "A (jm_arr m) i = Some w" for i w
      using d(3) [OF that] d(2) [of i] that assms(3) ua by (auto simp: jm_vacant_def)
    have "inj_on ((A (jm_arr m))(?i \<mapsto> of_nat a)) (dom ((A (jm_arr m))(?i \<mapsto> of_nat a)))"
      unfolding inj_on_def using d(4) old(2) by (auto split: if_splits) blast+
    moreover have "card (dom (M(?i \<mapsto> snd x))) = Suc (card (dom M))" using assms(2) by (simp add: card_insert_if domIff)
    ultimately show ?thesis using d put ua old unfolding jm_rep_def by (auto simp: algebra_simps)
  qed
  moreover have "\<forall>b. jm_vacant m b \<longrightarrow> b \<noteq> a \<longrightarrow> jm_vacant ?m b" by (simp add: jm_vacant_def)
  ultimately show ?thesis by blast
qed

text \<open>An erasure takes the slot away; the object stays on the heap.\<close>

lemma jm_erase_at_rep:
  assumes "jm_rep J A n m M"
  shows "\<exists>m'. jm_erase J conv dflt m k = Inr (if M (conv k) = None then 0 else 1, m') \<and> jm_rep J A n m' (M(conv k := None)) \<and> jm_heap m' = jm_heap m"
proof (cases "M (conv k)")
  case None
  then have "M(conv k := None) = M" by auto
  then show ?thesis using None assms jm_find_at [OF assms, of conv dflt k] by (auto simp: jm_erase_def ji_at_end(2))
next
  case (Some v)
  let ?i = "conv k"
  note d = jm_repD [OF assms]
  have "A (jm_arr m) ?i \<noteq> None" using d(2) [of ?i] Some by simp
  then obtain arr where arr: "j_del J (jm_arr m) ?i = (1, arr)" "A arr = (A (jm_arr m))(?i := None)" using judy_okD(6) [OF d(1), of "jm_arr m" ?i] by auto
  let ?m = "m\<lparr>jm_arr := arr, jm_sz := jm_sz m - 1\<rparr>"
  have "jm_erase J conv dflt m k = Inr (1, ?m)"
    using jm_find_at [OF assms, of conv dflt k] Some ji_at_end(1) [OF assms, of ?i dflt] root_valid [OF assms, of ?i] arr(1)
    by (simp add: jm_erase_def jm_erase_at_def ji_at_def ji_Valid_def)
  moreover have "jm_rep J A n ?m (M(?i := None))"
  proof -
    have "inj_on ((A (jm_arr m))(?i := None)) (dom ((A (jm_arr m))(?i := None)))" unfolding inj_on_def using d(4) by auto
    moreover have "card (dom M) = Suc (card (dom (M(?i := None))))" using Some card_Suc_Diff1 [of "dom M" ?i] by (auto simp: domIff)
    ultimately show ?thesis using d arr(2) unfolding jm_rep_def by (auto simp: algebra_simps)
  qed
  ultimately show ?thesis using Some by auto
qed

interpretation jm: keyed_map "jm_rep J A n" "\<lambda>x. conv (fst x)" snd conv jm_vacant "jm_ins J conv dflt" "jm_erase J conv dflt" "jm_look J conv dflt"
  for J :: "'j judy" and A n and conv :: "'k \<Rightarrow> u64" and dflt :: 'v
proof
  fix s :: "('j, 'v) jmap" and M and x :: "'k \<times> 'v" and v a q
  assume r: "jm_rep J A n s M"
  show "M (conv (fst x)) = Some v \<Longrightarrow> jm_ins J conv dflt a s x = Inr ((False, v), s)" by (rule jm_ins_present [OF r])
  show "jm_look J conv dflt s q = Inr (M (conv q))" by (rule jm_look_at [OF r])
  show "\<exists>t. jm_ins J conv dflt a s x = Inr ((True, snd x), t) \<and> jm_rep J A n t (M(conv (fst x) \<mapsto> snd x)) \<and> (\<forall>b. jm_vacant s b \<longrightarrow> b \<noteq> a \<longrightarrow> jm_vacant t b)"
    if "M (conv (fst x)) = None" "jm_vacant s a" by (rule jm_ins_absent [OF r, where conv = conv and x = x, OF that])
  show "\<exists>t. jm_erase J conv dflt s q = Inr (if M (conv q) = None then 0 else 1, t) \<and> jm_rep J A n t (M(conv q := None)) \<and> (\<forall>b. jm_vacant s b \<longrightarrow> jm_vacant t b)"
    using jm_erase_at_rep [OF r, of conv dflt q] unfolding jm_vacant_def by metis
qed

section \<open>Walking through the map\<close>

text \<open>A client that goes from \<open>begin()\<close> to \<open>end()\<close> and collects the values.\<close>

partial_function (option) jm_walk :: "'j judy \<Rightarrow> 'v \<Rightarrow> ('j, 'v) jmap \<Rightarrow> 'v jiter \<Rightarrow> 'v list run" where
  [code]: "jm_walk J dflt m it =
     (if ji_eq it (jm_end dflt) then Some (Inr [])
      else fbind (Some (ji_deref it)) (\<lambda>v. fbind (Some (ji_next J dflt m it)) (\<lambda>it'.
        fbind (jm_walk J dflt m it') (\<lambda>vs. Some (Inr (v # vs))))))"

definition jm_all :: "'j judy \<Rightarrow> 'v \<Rightarrow> ('j, 'v) jmap \<Rightarrow> 'v list run" where
  "jm_all J dflt m = fbind (Some (jm_begin J dflt m)) (jm_walk J dflt m)"

text \<open>The first element of a list, and that the searches of the library find it.\<close>

definition head_of :: "'a list \<Rightarrow> 'a option" where
  "head_of xs = (case xs of [] \<Rightarrow> None | x # xs \<Rightarrow> Some x)"

lemma head_of_simps [simp]: "head_of [] = None" "head_of (x # xs) = Some x"
  by (simp_all add: head_of_def)

lemma least_head:
  fixes zs :: "'a::linorder list"
  assumes "sorted_wrt (<) zs" "\<And>k. k \<in> D \<and> P k \<longleftrightarrow> k \<in> set zs"
    "case r of None \<Rightarrow> \<forall>k\<in>D. \<not> P k | Some j \<Rightarrow> j \<in> D \<and> P j \<and> (\<forall>k\<in>D. P k \<longrightarrow> j \<le> k)"
  shows "r = head_of zs"
proof (cases zs)
  case Nil
  then show ?thesis using assms(2,3) by (cases r) auto
next
  case (Cons z zs')
  have z: "z \<in> D" "P z" using assms(2) [of z] Cons by auto
  then obtain j where j: "r = Some j" "j \<in> set zs" "j \<le> z" using assms(2,3) by (cases r) auto
  have "z \<le> j" using j(2) assms(1) Cons by auto
  then show ?thesis using j Cons by simp
qed

lemma j_next_head:
  assumes "judy_ok J A" "sorted_wrt (<) (ys @ i # zs)" "dom (A a) = D" "D = set (ys @ i # zs) \<or> D = set zs"
  shows "j_next J a i = head_of zs"
proof (rule least_head [where D = D and P = "\<lambda>k. i < k"])
  show "sorted_wrt (<) zs" using assms(2) by (simp add: sorted_wrt_append)
  show "k \<in> D \<and> i < k \<longleftrightarrow> k \<in> set zs" for k using assms(2,4) by (auto simp: sorted_wrt_append)
qed (use judy_okD(8) [OF assms(1), of a i] assms(3) in \<open>simp add: not_less split: option.splits\<close>)

lemma j_first_head:
  assumes "judy_ok J A" "sorted_wrt (<) zs" "dom (A a) = set zs"
  shows "j_first J a 0 = head_of zs"
proof (rule least_head [where D = "dom (A a)" and P = "\<lambda>k. 0 \<le> k"])
  show "k \<in> dom (A a) \<and> 0 \<le> k \<longleftrightarrow> k \<in> set zs" for k using assms(3) by simp
qed (use assms(2) judy_okD(7) [OF assms(1), of a 0] in \<open>auto split: option.splits\<close>)

lemma jm_walk_at:
  "jm_rep J A n m M \<Longrightarrow> sorted_wrt (<) (ys @ zs) \<Longrightarrow> dom M = set (ys @ zs) \<Longrightarrow>
    jm_walk J dflt m (ji_at J m dflt M (head_of zs)) = Some (Inr (map (\<lambda>i. the (M i)) zs))"
proof (induction zs arbitrary: ys)
  case Nil
  then show ?case by (simp add: jm_walk.simps ji_at_end(2))
next
  case (Cons i zs)
  note d = jm_repD [OF Cons.prems(1)]
  have i: "M i \<noteq> None" using Cons.prems(3) by auto
  then obtain v where v: "M i = Some v" by auto
  have nxt: "j_next J (jm_arr m) i = head_of zs" by (rule j_next_head [OF d(1) Cons.prems(2) d(6) [symmetric]]) (use Cons.prems(3) in simp)
  have "ji_next J dflt m (ji_at J m dflt M (Some i)) = Inr (ji_at J m dflt M (head_of zs))"
  proof (cases zs)
    case Nil
    then show ?thesis using nxt root_valid [OF Cons.prems(1) i] by (simp add: ji_next_def ji_at_def ji_Valid_def)
  next
    case (Cons j zs')
    then have "j \<in> dom (A (jm_arr m))" using Cons.prems(3) d(6) by auto
    then obtain w where w: "A (jm_arr m) j = Some w" by auto
    then show ?thesis using nxt root_valid [OF Cons.prems(1) i] Cons object_at [OF Cons.prems(1) w] judy_okD(3) [OF d(1)]
      by (simp add: ji_next_def ji_at_def ji_Valid_def)
  qed
  then show ?case using Cons.IH [of "ys @ [i]"] Cons.prems ji_at_end(1) [OF Cons.prems(1) i] deref_at [OF Cons.prems(1) v] v
    by (subst jm_walk.simps) simp
qed

lemma sorted_dom: "sorted_wrt (<) (sorted_list_of_set (dom M))" "set (sorted_list_of_set (dom M)) = dom M" for M :: "u64 \<rightharpoonup> 'v"
  by (simp_all add: strict_sorted_iff)

lemma jm_all_at:
  assumes "jm_rep J A n m M"
  shows "jm_all J dflt m = Some (Inr (map (\<lambda>i. the (M i)) (sorted_list_of_set (dom M))))"
proof -
  let ?zs = "sorted_list_of_set (dom M)"
  note d = jm_repD [OF assms]
  have "j_first J (jm_arr m) 0 = head_of ?zs" by (rule j_first_head [OF d(1)]) (use sorted_dom [of M] d(6) in simp_all)
  then have "jm_begin J dflt m = Inr (ji_at J m dflt M (head_of ?zs))"
  proof (cases ?zs)
    case (Cons i zs)
    then have "i \<in> dom (A (jm_arr m))" using sorted_dom(2) [of M] d(6) by auto
    then obtain w where w: "A (jm_arr m) i = Some w" by auto
    then show ?thesis using \<open>j_first J (jm_arr m) 0 = head_of ?zs\<close> Cons object_at [OF assms w] judy_okD(3) [OF d(1)] by (simp add: jm_begin_def ji_at_def)
  qed (simp add: jm_begin_def ji_at_def)
  then show ?thesis using jm_walk_at [OF assms, of "[]" ?zs dflt] sorted_dom [of M] by (simp add: jm_all_def)
qed

section \<open>Clearing the map\<close>

lemma clear_loop_at:
  "jm_rep J A n m M \<Longrightarrow> sorted_wrt (<) zs \<Longrightarrow> dom M = set zs \<Longrightarrow>
    \<exists>m'. clear_loop J m (head_of zs) = Some (Inr m') \<and> A (jm_arr m') = Map.empty \<and> jm_sz m' = jm_sz m \<and>
      dom (jm_heap m') = dom (jm_heap m) - unat ` ran (A (jm_arr m))"
proof (induction zs arbitrary: n m M)
  case Nil
  then have "A (jm_arr m) = Map.empty" using jm_repD(6) by fastforce
  then show ?case by (simp add: clear_loop.simps)
next
  case (Cons i zs)
  note d = jm_repD [OF Cons.prems(1)]
  have "i \<in> dom (A (jm_arr m))" using Cons.prems(3) d(6) by auto
  then obtain w where w: "A (jm_arr m) i = Some w" by auto
  obtain arr where arr: "j_del J (jm_arr m) i = (1, arr)" "A arr = (A (jm_arr m))(i := None)" using judy_okD(6) [OF d(1), of "jm_arr m" i] w by auto
  let ?m = "m\<lparr>jm_heap := (jm_heap m)(unat w := None), jm_arr := arr\<rparr>"
  have zs: "sorted_wrt (<) zs" "dom (M(i := None)) = set zs" using Cons.prems(2,3) by auto
  have rep: "jm_rep J A (n + 1) ?m (M(i := None))"
  proof -
    have "inj_on ((A (jm_arr m))(i := None)) (dom ((A (jm_arr m))(i := None)))" unfolding inj_on_def using d(4) by auto
    moreover have "unat u \<noteq> unat w" if "A (jm_arr m) j = Some u" "j \<noteq> i" for j u using d(4) [OF that(1)] w that(2) by (auto simp: word_unat_eq_iff)
    moreover have "card (dom M) = Suc (card (dom (M(i := None))))" using Cons.prems(3) card_Suc_Diff1 [of "dom M" i] by auto
    ultimately show ?thesis using d arr(2) unfolding jm_rep_def by (auto simp: algebra_simps)
  qed
  have "dom (A arr) = set zs" unfolding arr(2) dom_fun_upd using zs(2) d(6) by simp
  then have nxt: "j_next J arr i = head_of zs" by (rule j_next_head [OF d(1), of "[]", rotated]) (use Cons.prems(2) in simp_all)
  have loop: "clear_loop J m (Some i) = clear_loop J ?m (head_of zs)"
    using w object_at [OF Cons.prems(1) w] judy_okD(3) [OF d(1)] arr(1) nxt by (subst clear_loop.simps) simp
  have "A (jm_arr m) = (A arr)(i \<mapsto> w)" "A arr i = None" using w arr(2) by auto
  then have r: "unat ` ran (A (jm_arr m)) = insert (unat w) (unat ` ran (A arr))" by (simp add: ran_map_upd)
  have h: "dom (jm_heap ?m) = dom (jm_heap m) - {unat w}" by auto
  obtain m' where m': "clear_loop J ?m (head_of zs) = Some (Inr m')" "A (jm_arr m') = Map.empty" "jm_sz m' = jm_sz ?m"
    "dom (jm_heap m') = dom (jm_heap ?m) - unat ` ran (A (jm_arr ?m))" using Cons.IH [OF rep zs] by blast
  have "dom (jm_heap m') = dom (jm_heap m) - unat ` ran (A (jm_arr m))"
  proof -
    have arr': "jm_arr ?m = arr" by simp
    show ?thesis unfolding r by (rule trans [OF m'(4) [unfolded h arr'] Diff_insert2 [symmetric]])
  qed
  then show ?case using loop m'(1-3) by simp
qed

lemma jm_clear_at:
  assumes "jm_rep J A n m M"
  shows "\<exists>m'. jm_clear J m = Some (Inr m') \<and> jm_rep J A (jm_sz m) m' Map.empty \<and> dom (jm_heap m') = dom (jm_heap m) - unat ` ran (A (jm_arr m))"
proof -
  note d = jm_repD [OF assms]
  have first: "j_first J (jm_arr m) 0 = head_of (sorted_list_of_set (dom M))" by (rule j_first_head [OF d(1)]) (use sorted_dom [of M] d(6) in simp_all)
  obtain m' where m': "clear_loop J m (head_of (sorted_list_of_set (dom M))) = Some (Inr m')" "jm_sz m' = jm_sz m"
      "dom (jm_heap m') = dom (jm_heap m) - unat ` ran (A (jm_arr m))"
    using clear_loop_at [OF assms sorted_dom(1) sorted_dom(2) [symmetric]] by blast
  then have "jm_clear J m = Some (Inr (m'\<lparr>jm_arr := j_null J\<rparr>))" using first by (simp add: jm_clear_def)
  moreover have "jm_rep J A (jm_sz m) (m'\<lparr>jm_arr := j_null J\<rparr>) Map.empty" using d(1) judy_okD(1) [OF d(1)] m'(2) by (simp add: jm_rep_def)
  ultimately show ?thesis using m'(3) by auto
qed

section \<open>Properties\<close>

text \<open>A small implementation of the library, an association list, for concrete runs.\<close>

definition list_judy :: "(u64 \<times> u64) list judy" where
  "list_judy = \<lparr>j_null = [], j_root = (\<lambda>a. if a = [] then 0 else 1), j_get = map_of,
     j_ins = (\<lambda>a i. Some (if map_of a i = None then (i, 0) # a else a)),
     j_put = (\<lambda>a i w. map (\<lambda>(k, v). (k, if k = i then w else v)) a),
     j_del = (\<lambda>a i. (if map_of a i = None then 0 else 1, filter (\<lambda>p. fst p \<noteq> i) a)),
     j_first = (\<lambda>a i. let ks = filter (\<lambda>k. i \<le> k) (map fst a) in if ks = [] then None else Some (Min (set ks))),
     j_next = (\<lambda>a i. let ks = filter (\<lambda>k. i < k) (map fst a) in if ks = [] then None else Some (Min (set ks))),
     j_used = (\<lambda>a. of_nat (16 * length a))\<rparr>"

lemma Min_filter:
  fixes xs :: "'a::linorder list"
  shows "case (let ks = filter P xs in if ks = [] then None else Some (Min (set ks))) of None \<Rightarrow> \<forall>k\<in>set xs. \<not> P k
    | Some j \<Rightarrow> j \<in> set xs \<and> P j \<and> (\<forall>k\<in>set xs. P k \<longrightarrow> j \<le> k)"
proof (cases "filter P xs = []")
  case True
  then show ?thesis by (simp add: filter_empty_conv)
next
  case False
  then have "Min (set (filter P xs)) \<in> set (filter P xs)" by (intro Min_in) (auto simp: filter_empty_conv)
  then show ?thesis using False by (simp add: Let_def)
qed

lemma list_judy_ok: "judy_ok list_judy map_of"
proof -
  have put: "map_of (map (\<lambda>(k, v). (k, if k = i then w else v)) a) = (map_of a)(i \<mapsto> w)" if "map_of a i \<noteq> None" for a :: "(u64 \<times> u64) list" and i w
  proof -
    have "map_of (map (\<lambda>(k, v). (k, if k = i then w else v)) a) j = (if j = i then map_option (\<lambda>v. w) (map_of a i) else map_of a j)" for j by (induction a) auto
    with that show ?thesis by (auto simp: fun_eq_iff)
  qed
  have del: "map_of (filter (\<lambda>p. fst p \<noteq> i) a) = (map_of a)(i := None)" for a :: "(u64 \<times> u64) list" and i
    by (induction a) (auto simp: fun_eq_iff)
  have "map_of a = Map.empty \<longleftrightarrow> a = []" for a :: "(u64 \<times> u64) list" by (cases a) auto
  moreover have "case (let ks = filter (\<lambda>k. i \<le> k) (map fst a) in if ks = [] then None else Some (Min (set ks))) of None \<Rightarrow> \<forall>k\<in>dom (map_of a). k < i
      | Some j \<Rightarrow> j \<in> dom (map_of a) \<and> i \<le> j \<and> (\<forall>k\<in>dom (map_of a). i \<le> k \<longrightarrow> j \<le> k)" for a :: "(u64 \<times> u64) list" and i
    using Min_filter [where P = "\<lambda>k. i \<le> k" and xs = "map fst a"] unfolding dom_map_of_conv_image_fst set_map not_le .
  moreover have "case (let ks = filter (\<lambda>k. i < k) (map fst a) in if ks = [] then None else Some (Min (set ks))) of None \<Rightarrow> \<forall>k\<in>dom (map_of a). k \<le> i
      | Some j \<Rightarrow> j \<in> dom (map_of a) \<and> i < j \<and> (\<forall>k\<in>dom (map_of a). i < k \<longrightarrow> j \<le> k)" for a :: "(u64 \<times> u64) list" and i
    using Min_filter [where P = "\<lambda>k. i < k" and xs = "map fst a"] unfolding dom_map_of_conv_image_fst set_map not_less .
  ultimately show ?thesis using put del unfolding judy_ok_def list_judy_def by simp
qed

lemma jm_run:
  assumes "judy_ok J A" "distinct (addresses ps)" "\<forall>a\<in>set (addresses ps). 0 < a \<and> a < 2 ^ 64"
  shows "agrees (jm_rep J A 0) (run_ops (keyed_step (jm_ins J conv dflt) (jm_erase J conv dflt) (jm_look J conv dflt)) ps (jm_Map J))
    (run_ops (keyed_spec (\<lambda>x. conv (fst x)) snd conv) ps Map.empty)"
  by (rule jm.run_agrees [OF jm_Map_rep [OF assms(1)] assms(2)]) (use assms(3) in \<open>simp add: jm_vacant_def jm_Map_def\<close>)

text \<open>
  C11. The map over a Judy array is a map from the converted keys: on a new map, every sequence of
  insertions, erasures and searches succeeds with the replies of that map; afterwards \<open>size()\<close> counts
  its entries and a loop from \<open>begin()\<close> to \<open>end()\<close> returns, having met every value once, in ascending
  order of the converted keys. The library behaves as documented, and the allocator returns different
  addresses.
\<close>

theorem judy_map_is_map:
  assumes "judy_ok J A" "distinct (addresses ps)" "\<forall>a\<in>set (addresses ps). 0 < a \<and> a < 2 ^ 64"
  shows "agrees (\<lambda>m M. jm_sz m = of_nat (card (dom M)) \<and> jm_all J dflt m = Some (Inr (map (\<lambda>i. the (M i)) (sorted_list_of_set (dom M)))))
    (run_ops (keyed_step (jm_ins J conv dflt) (jm_erase J conv dflt) (jm_look J conv dflt)) ps (jm_Map J))
    (run_ops (keyed_spec (\<lambda>x. conv (fst x)) snd conv) ps Map.empty)"
proof (rule agrees_mono [OF jm_run [OF assms]])
  show "jm_sz m = of_nat (card (dom M)) \<and> jm_all J dflt m = Some (Inr (map (\<lambda>i. the (M i)) (sorted_list_of_set (dom M))))" if "jm_rep J A 0 m M" for m M
    using jm_repD(5) [OF that] jm_all_at [OF that] by simp
qed

theorem judy_map_is_map_witness:
  "\<exists>m. run_ops (keyed_step (jm_ins list_judy Converter 0) (jm_erase list_judy Converter 0) (jm_look list_judy Converter 0))
      [KInsert 8 (-1, 10 :: int), KInsert 16 (3, 30), KInsert 24 (3, 31), KErase 3, KFind 3, KFind (-1)] (jm_Map list_judy) =
    Inr ([KInserted True 10, KInserted True 30, KInserted False 30, KErased 1, KFound None, KFound (Some 10)], m) \<and> jm_sz m = 1 \<and> jm_all list_judy 0 m = Some (Inr [10])"
  using judy_map_is_map [OF list_judy_ok, of "[KInsert 8 (-1, 10 :: int), KInsert 16 (3, 30), KInsert 24 (3, 31), KErase 3, KFind 3, KFind (-1)]" 0 Converter]
  by (simp add: Converter_def)

text \<open>
  \<open>clear()\<close> returns, frees the objects of all entries and leaves no entry, but keeps \<open>size()\<close>: a
  map that had entries is then not \<open>empty()\<close> although nothing is found in it.
\<close>

theorem judy_clear_keeps_size:
  assumes "judy_ok J A" "distinct (addresses ps)" "\<forall>a\<in>set (addresses ps). 0 < a \<and> a < 2 ^ 64"
    "run_ops (keyed_step (jm_ins J conv dflt) (jm_erase J conv dflt) (jm_look J conv dflt)) ps (jm_Map J) = Inr (rs, m)"
  shows "\<exists>m'. jm_clear J m = Some (Inr m') \<and> jm_size m' = jm_size m \<and> jm_empty m' = jm_empty m \<and> (\<forall>k. jm_look J conv dflt m' k = Inr None) \<and>
    dom (jm_heap m') = dom (jm_heap m) - unat ` ran (A (jm_arr m))"
proof -
  obtain M where "jm_rep J A 0 m M" using jm_run [OF assms(1-3), of conv dflt] assms(4) by (auto simp: agrees_def split: sum.splits)
  from jm_clear_at [OF this] obtain m' where m': "jm_clear J m = Some (Inr m')" "jm_rep J A (jm_sz m) m' Map.empty"
    "dom (jm_heap m') = dom (jm_heap m) - unat ` ran (A (jm_arr m))" by blast
  then show ?thesis using jm_repD(5) [OF m'(2)] jm_look_at [OF m'(2)] by (auto simp: jm_size_def jm_empty_def)
qed

theorem judy_clear_keeps_size_witness:
  "\<exists>rs m m'. run_ops (keyed_step (jm_ins list_judy Converter 0) (jm_erase list_judy Converter 0) (jm_look list_judy Converter 0))
      [KInsert 8 (-1, 10 :: int), KInsert 16 (3, 30)] (jm_Map list_judy) = Inr (rs, m) \<and>
    jm_clear list_judy m = Some (Inr m') \<and> jm_size m' = 2 \<and> \<not> jm_empty m' \<and> (\<forall>k. jm_look list_judy Converter 0 m' k = Inr None)"
proof -
  let ?ps = "[KInsert 8 (-1, 10 :: int), KInsert 16 (3, 30)] :: (int, int \<times> int) keyed_op list"
  have h: "distinct (addresses ?ps)" "\<forall>a\<in>set (addresses ?ps). 0 < a \<and> a < 2 ^ 64" by simp_all
  obtain rs m M where m: "run_ops (keyed_step (jm_ins list_judy Converter 0) (jm_erase list_judy Converter 0) (jm_look list_judy Converter 0)) ?ps (jm_Map list_judy) = Inr (rs, m)"
      "jm_rep list_judy map_of 0 m M" "card (dom M) = 2"
    using jm_run [OF list_judy_ok h, of Converter 0] by (auto simp: Converter_def)
  then have "jm_size m = 2" "\<not> jm_empty m" using jm_repD(5) [OF m(2)] by (simp_all add: jm_size_def jm_empty_def)
  then show ?thesis using judy_clear_keeps_size [OF list_judy_ok h m(1)] m(1) by fastforce
qed

end
