(* ===== verification/Fmt_Arg.thy ===== *)
theory Fmt_Arg
  imports Prelude
begin

text \<open>
  The formatting library of \<open>Format/main.cc\<close>, first part: slices of text, and \<open>FormatArg\<close>, what stands
  between the braces of a format string. A slice is its characters together with the characters
  that can be read behind them. The members of \<open>FormatArg\<close> that its constructor leaves
  uninitialised start with values given as an argument.
\<close>

section \<open>Slices\<close>

record fslice =
  fs_text :: string
  fs_behind :: string

text \<open>The slice of a C string or of a \<open>std::string\<close>: a zero byte follows.\<close>

definition Slice_cstr :: "string \<Rightarrow> fslice" where
  "Slice_cstr s = \<lparr>fs_text = s, fs_behind = [CHR 0x00]\<rparr>"

definition slice_size :: "fslice \<Rightarrow> nat" where
  "slice_size s = length (fs_text s)"

definition subslice :: "fslice \<Rightarrow> nat \<Rightarrow> nat \<Rightarrow> fslice result" where
  "subslice s pos count = require (pos \<le> slice_size s)
     (Inr \<lparr>fs_text = take count (drop pos (fs_text s)), fs_behind = drop (pos + count) (fs_text s) @ fs_behind s\<rparr>)"

definition slice_advance :: "fslice \<Rightarrow> nat \<Rightarrow> fslice result" where
  "slice_advance s step = require (step \<le> slice_size s) (Inr (s\<lparr>fs_text := drop step (fs_text s)\<rparr>))"

text \<open>The position of the first \<open>c\<close>.\<close>

definition strnchr :: "string \<Rightarrow> char \<Rightarrow> nat option" where
  "strnchr s c = (if c \<in> set s then Some (length (takeWhile (\<lambda>x. x \<noteq> c) s)) else None)"

section \<open>Numbers in text\<close>

definition is_digit :: "char \<Rightarrow> bool" where
  "is_digit c \<longleftrightarrow> 48 \<le> (of_char c :: nat) \<and> (of_char c :: nat) \<le> 57"

definition is_space :: "char \<Rightarrow> bool" where
  "is_space c \<longleftrightarrow> (of_char c :: nat) = 32 \<or> 9 \<le> (of_char c :: nat) \<and> (of_char c :: nat) \<le> 13"

definition digits_value :: "string \<Rightarrow> nat" where
  "digits_value ds = foldl (\<lambda>n c. 10 * n + (of_char c - 48)) 0 ds"

text \<open>\<open>boost::lexical_cast<int>\<close> of a non-empty string of digits.\<close>

definition lexical_cast_int :: "string \<Rightarrow> int result" where
  "lexical_cast_int ds = (if digits_value ds < 2 ^ 31 then Inr (int (digits_value ds)) else Inl BadCast)"

text \<open>\<open>std::stoul\<close> to the base 10: the number and how many characters were used.\<close>

definition stoul :: "string \<Rightarrow> (nat \<times> nat) result" where
  "stoul s =
     (let skip = length (takeWhile is_space s); r = drop skip s;
          sign = (if r \<noteq> [] \<and> (hd r = CHR ''+'' \<or> hd r = CHR ''-'') then 1 else 0);
          ds = takeWhile is_digit (drop sign r); v = digits_value ds
      in if ds = [] then Inl InvalidArgument
         else if 2 ^ 64 \<le> v then Inl OutOfRange
         else Inr (if sign = 1 \<and> hd r = CHR ''-'' then (2 ^ 64 - v) mod 2 ^ 64 else v, skip + sign + length ds))"

section \<open>\<open>FormatArg\<close>\<close>

datatype next_key_mode = KNone | KInt | KString

datatype align = ADefault | ALeft | ARight | APadAfterSign | ACenter | AInvalid

datatype sign = SDefault | SPlusOrMinus | SMinus | SSpaceOrMinus | SInvalid

definition kDefaultFill :: char where
  "kDefaultFill = CHR 0x00"

definition kDefaultWidth :: int where
  "kDefaultWidth = - 1"

definition kDefaultPrecision :: int where
  "kDefaultPrecision = - 1"

definition kDefaultPresentation :: char where
  "kDefaultPresentation = CHR 0x00"

record farg =
  fa_next_int_key :: nat
  fa_key :: string
  fa_next_key :: string
  fa_next_key_mode :: next_key_mode
  fa_fill :: char
  fa_align :: align
  fa_sign :: sign
  fa_base_prefix :: bool
  fa_width :: int
  fa_thousands_separator :: bool
  fa_precision :: int
  fa_trailing_dot :: bool
  fa_presentation :: char

definition FormatAlign :: "char \<Rightarrow> align" where
  "FormatAlign c = (if c = CHR ''<'' then ALeft else if c = CHR ''>'' then ARight
     else if c = CHR ''='' then APadAfterSign else if c = CHR ''^'' then ACenter else AInvalid)"

definition FormatSign :: "char \<Rightarrow> sign" where
  "FormatSign c = (if c = CHR ''+'' then SPlusOrMinus else if c = CHR ''-'' then SMinus
     else if c = CHR '' '' then SSpaceOrMinus else SInvalid)"

text \<open>
  \<open>InitSlow\<close> moves a pointer over the text behind the colon and returns as soon as it reaches the
  end. Each of its steps is a function on the text that is left; at the end of the text they change
  nothing.
\<close>

fun take_align :: "farg \<Rightarrow> string \<Rightarrow> farg \<times> string" where
  "take_align arg [] = (arg, [])"
| "take_align arg (c # p) =
     (if p \<noteq> [] \<and> FormatAlign (hd p) \<noteq> AInvalid then (arg\<lparr>fa_fill := c, fa_align := FormatAlign (hd p)\<rparr>, tl p)
      else if FormatAlign c \<noteq> AInvalid then (arg\<lparr>fa_align := FormatAlign c\<rparr>, p) else (arg, c # p))"

fun take_sign :: "farg \<Rightarrow> string \<Rightarrow> farg \<times> string" where
  "take_sign arg [] = (arg, [])"
| "take_sign arg (c # p) = (if FormatSign c \<noteq> SInvalid then (arg\<lparr>fa_sign := FormatSign c\<rparr>, p) else (arg, c # p))"

fun take_prefix :: "farg \<Rightarrow> string \<Rightarrow> farg \<times> string" where
  "take_prefix arg [] = (arg, [])"
| "take_prefix arg (c # p) = (if c = CHR ''#'' then (arg\<lparr>fa_base_prefix := True\<rparr>, p) else (arg, c # p))"

fun take_zero :: "farg \<Rightarrow> string \<Rightarrow> (farg \<times> string) result" where
  "take_zero arg [] = Inr (arg, [])"
| "take_zero arg (c # p) =
     (if c = CHR ''0''
      then if fa_align arg \<noteq> ADefault then Inl (BadFormat ''alignment specified twice'')
        else Inr (arg\<lparr>fa_fill := CHR ''0'', fa_align := APadAfterSign\<rparr>, p)
      else Inr (arg, c # p))"

definition take_width :: "farg \<Rightarrow> string \<Rightarrow> (farg \<times> string) result" where
  "take_width arg p =
     (if p \<noteq> [] \<and> is_digit (hd p)
      then rbind (lexical_cast_int (takeWhile is_digit p)) (\<lambda>w. Inr (arg\<lparr>fa_width := w\<rparr>, dropWhile is_digit p))
      else Inr (arg, p))"

fun take_comma :: "farg \<Rightarrow> string \<Rightarrow> farg \<times> string" where
  "take_comma arg [] = (arg, [])"
| "take_comma arg (c # p) = (if c = CHR '','' then (arg\<lparr>fa_thousands_separator := True\<rparr>, p) else (arg, c # p))"

fun take_precision :: "farg \<Rightarrow> string \<Rightarrow> (farg \<times> string) result" where
  "take_precision arg [] = Inr (arg, [])"
| "take_precision arg (c # p) =
     (if c = CHR ''.''
      then let ds = takeWhile is_digit p; r = dropWhile is_digit p in
        if ds \<noteq> []
        then rbind (lexical_cast_int ds) (\<lambda>n. let arg1 = arg\<lparr>fa_precision := n\<rparr> in
          if r \<noteq> [] \<and> hd r = CHR ''.'' then Inr (arg1\<lparr>fa_trailing_dot := True\<rparr>, tl r) else Inr (arg1, r))
        else Inr (arg\<lparr>fa_trailing_dot := True\<rparr>, r)
      else Inr (arg, c # p))"

fun take_presentation :: "farg \<Rightarrow> string \<Rightarrow> farg result" where
  "take_presentation arg [] = Inr arg"
| "take_presentation arg [c] = Inr (arg\<lparr>fa_presentation := c\<rparr>)"
| "take_presentation arg (c # d # p) = Inl (BadFormat ''extra characters in format string'')"

definition take_format :: "farg \<Rightarrow> string \<Rightarrow> farg result" where
  "take_format arg p =
     (let (arg1, p1) = take_align arg p; (arg2, p2) = take_sign arg1 p1; (arg3, p3) = take_prefix arg2 p2
      in rbind (take_zero arg3 p3) (\<lambda>(arg4, p4). rbind (take_width arg4 p4) (\<lambda>(arg5, p5).
           let (arg6, p6) = take_comma arg5 p5
           in rbind (take_precision arg6 p6) (\<lambda>(arg7, p7). take_presentation arg7 p7))))"

definition InitSlow :: "farg \<Rightarrow> string \<Rightarrow> farg result" where
  "InitSlow arg str =
     (case strnchr str (CHR '':'') of None \<Rightarrow> Inr (arg\<lparr>fa_key := str\<rparr>)
      | Some p \<Rightarrow> take_format (arg\<lparr>fa_key := take p str\<rparr>) (drop (p + 1) str))"

text \<open>\<open>uninit\<close> is what \<open>base_prefix\<close> and \<open>next_int_key\<close> hold before they are set.\<close>

definition blank_arg :: "bool \<times> nat \<Rightarrow> farg" where
  "blank_arg uninit =
     \<lparr>fa_next_int_key = snd uninit, fa_key = [], fa_next_key = [], fa_next_key_mode = KNone, fa_fill = kDefaultFill,
      fa_align = ADefault, fa_sign = SDefault, fa_base_prefix = fst uninit, fa_width = kDefaultWidth,
      fa_thousands_separator = False, fa_precision = kDefaultPrecision, fa_trailing_dot = False,
      fa_presentation = kDefaultPresentation\<rparr>"

definition FormatArg :: "bool \<times> nat \<Rightarrow> string \<Rightarrow> farg result" where
  "FormatArg uninit s = (if s \<noteq> [] then InitSlow (blank_arg uninit) s else Inr (blank_arg uninit))"

section \<open>Keys\<close>

definition SplitKey :: "farg \<Rightarrow> (string \<times> farg) result" where
  "SplitKey arg =
     (if fa_next_key_mode arg = KString then Inr (fa_next_key arg, arg\<lparr>fa_next_key_mode := KNone\<rparr>)
      else let key = fa_key arg in
        if key = [] then Inr ([], arg)
        else if last key = CHR '']''
        then case strnchr key (CHR ''['') of None \<Rightarrow> Inl (BadFormat (''unmatched `]'' @ [CHR 0x27]))
          | Some p \<Rightarrow> Inr (take p key, arg\<lparr>fa_key := butlast (drop (p + 1) key)\<rparr>)
        else case strnchr key (CHR ''.'') of None \<Rightarrow> Inr (key, arg\<lparr>fa_key := []\<rparr>)
          | Some p \<Rightarrow> Inr (take p key, arg\<lparr>fa_key := drop (p + 1) key\<rparr>))"

definition SplitIntKey :: "farg \<Rightarrow> (nat \<times> farg) result" where
  "SplitIntKey arg =
     (if fa_next_key_mode arg = KInt then Inr (fa_next_int_key arg, arg\<lparr>fa_next_key_mode := KNone\<rparr>)
      else rbind (SplitKey arg) (\<lambda>(piece, arg1). rbind (stoul piece) (\<lambda>(key, e).
        if e \<noteq> length piece then Inl (BadFormat ''Key must be integer type'') else Inr (key mod 2 ^ 32, arg1))))"

definition SetNextKey :: "farg \<Rightarrow> string \<Rightarrow> farg result" where
  "SetNextKey arg s = require (fa_next_key_mode arg \<noteq> KInt) (Inr (arg\<lparr>fa_next_key := s, fa_next_key_mode := KString\<rparr>))"

definition SetNextIntKey :: "farg \<Rightarrow> nat \<Rightarrow> farg" where
  "SetNextIntKey arg key = arg\<lparr>fa_next_int_key := key, fa_next_key_mode := KInt\<rparr>"

end
