(* ===== verification/Fmt_Value.thy ===== *)
theory Fmt_Value
  imports Fmt_Arg
begin

text \<open>
  The formatting library, second part: how a value is written, by its type. The output function takes
  a slice and gives the text it adds to the result, or what it throws. The digits of an integer are
  written backwards into a buffer of fixed size; the model keeps the written part, and a byte too
  many is a fault. Floating-point values are an argument type with the function by which \<open>snprintf\<close>
  prints them in a given format.
\<close>

type_synonym foutput = "fslice \<Rightarrow> string result"

section \<open>Text\<close>

definition kMaxPaddingSize :: int where
  "kMaxPaddingSize = 128"

definition fmt_pad :: "foutput \<Rightarrow> char \<Rightarrow> int \<Rightarrow> string result" where
  "fmt_pad out fill n = require (n \<ge> 0)
     (out \<lparr>fs_text = replicate (nat (min n kMaxPaddingSize)) fill, fs_behind = []\<rparr>)"

definition both :: "string result \<Rightarrow> string result \<Rightarrow> string result" where
  "both a b = rbind a (\<lambda>s. rbind b (\<lambda>t. Inr (s @ t)))"

definition FormatString :: "foutput \<Rightarrow> farg \<Rightarrow> fslice \<Rightarrow> string result" where
  "FormatString out arg s =
     (let fill = (if fa_fill arg = kDefaultFill then CHR '' '' else fa_fill arg);
          padding_size = fa_width arg - to_int32 (int (slice_size s))
      in case fa_align arg of
           ADefault \<Rightarrow> both (out s) (fmt_pad out fill (max 0 padding_size))
         | ALeft \<Rightarrow> both (out s) (fmt_pad out fill (max 0 padding_size))
         | ARight \<Rightarrow> both (fmt_pad out fill (max 0 padding_size)) (out s)
         | APadAfterSign \<Rightarrow> both (fmt_pad out fill (max 0 padding_size)) (out s)
         | ACenter \<Rightarrow> both (fmt_pad out fill (max 0 (sgn padding_size * (abs padding_size div 2))))
             (both (out s) (fmt_pad out fill (max 0 (padding_size - sgn padding_size * (abs padding_size div 2)))))
         | AInvalid \<Rightarrow> Inl AssertionFailed)"

definition FormatNumber :: "foutput \<Rightarrow> farg \<Rightarrow> nat \<Rightarrow> fslice \<Rightarrow> string result" where
  "FormatNumber out arg prefix_len s = require (prefix_len \<le> slice_size s)
     (if fa_align arg = ADefault then FormatString out (arg\<lparr>fa_align := ARight\<rparr>) s
      else if prefix_len \<noteq> 0 \<and> fa_align arg = APadAfterSign
      then rbind (subslice s 0 prefix_len) (\<lambda>prefix. both (out prefix) (rbind (slice_advance s prefix_len) (\<lambda>s1.
        FormatString out (arg\<lparr>fa_width := max (fa_width arg - int prefix_len) 0\<rparr>) s1)))
      else FormatString out arg s)"

section \<open>Integers\<close>

text \<open>An integral type: how many bits it has and whether it is signed.\<close>

record int_type =
  it_bits :: nat
  it_signed :: bool

definition type_int :: int_type where
  "type_int = \<lparr>it_bits = 32, it_signed = True\<rparr>"

text \<open>\<open>static_cast<UT>(val >= 0 ? val : -val)\<close>; types narrower than \<open>int\<close> are negated as \<open>int\<close>.\<close>

definition magnitude :: "int_type \<Rightarrow> int \<Rightarrow> nat result" where
  "magnitude T val =
     (if val \<ge> 0 then Inr (nat val mod 2 ^ it_bits T)
      else if 32 \<le> it_bits T \<and> val = - (2 ^ (it_bits T - 1)) then Inl SignedOverflow
      else Inr (nat (- val) mod 2 ^ it_bits T))"

definition kBufferSize :: nat where
  "kBufferSize = 67"

text \<open>\<open>*--p = c\<close>.\<close>

definition put_char :: "char \<Rightarrow> string \<Rightarrow> string result" where
  "put_char c s = (if length s < kBufferSize then Inr (c # s) else Inl MemoryFault)"

fun dec_loop :: "bool \<Rightarrow> nat \<Rightarrow> nat \<Rightarrow> string \<Rightarrow> string result" where
  "dec_loop sep idx v s =
     (if v = 0 then Inr s
      else rbind (put_char (char_of (48 + v mod 10)) s) (\<lambda>s1.
        rbind (if v div 10 \<noteq> 0 \<and> sep \<and> idx \<noteq> 0 \<and> idx mod 3 = 0 then put_char (CHR '','') s1 else Inr s1)
          (dec_loop sep (idx + 1) (v div 10))))"

declare dec_loop.simps [simp del]

definition UIntToDec :: "farg \<Rightarrow> int_type \<Rightarrow> int \<Rightarrow> string \<Rightarrow> (nat \<times> string) result" where
  "UIntToDec arg T val s =
     rbind (magnitude T val) (\<lambda>v. rbind (dec_loop (fa_thousands_separator arg) 1 v s) (\<lambda>s1.
       rbind (if val = 0 then put_char (CHR ''0'') s1 else Inr s1) (\<lambda>s2. Inr (0, s2))))"

text \<open>The loop of the other radixes: \<open>v & mask\<close> and \<open>v >>= k\<close>, the mask having \<open>k\<close> bits.\<close>

function (sequential) radix_loop :: "nat \<Rightarrow> string \<Rightarrow> nat \<Rightarrow> string \<Rightarrow> string result" where
  "radix_loop 0 repr v s = Inr s"
| "radix_loop (Suc k) repr v s =
     (if v = 0 then Inr s
      else rbind (put_char (repr ! (v mod 2 ^ Suc k)) s) (radix_loop (Suc k) repr (v div 2 ^ Suc k)))"
  by pat_completeness auto

termination radix_loop
proof (relation "measure (\<lambda>(k, repr, v, s). v)", goal_cases)
  case (2 k repr v s x)
  have "1 < (2 :: nat) ^ Suc k" by (metis one_less_numeral_iff one_less_power semiring_norm(76) zero_less_Suc)
  with 2 show ?case by (simp del: power_Suc)
qed simp

declare radix_loop.simps [simp del]

definition radix_text :: "nat \<Rightarrow> string \<Rightarrow> int_type \<Rightarrow> int \<Rightarrow> string \<Rightarrow> string result" where
  "radix_text k repr T val s =
     rbind (magnitude T val) (\<lambda>v. rbind (radix_loop k repr v s) (\<lambda>s1. if val = 0 then put_char (CHR ''0'') s1 else Inr s1))"

definition UIntToHex :: "farg \<Rightarrow> int_type \<Rightarrow> int \<Rightarrow> string \<Rightarrow> string \<Rightarrow> (nat \<times> string) result" where
  "UIntToHex arg T val repr s =
     rbind (radix_text 4 repr T val s) (\<lambda>s1.
       if fa_base_prefix arg then rbind (put_char (CHR ''x'') s1) (\<lambda>s2. rbind (put_char (CHR ''0'') s2) (\<lambda>s3. Inr (2, s3)))
       else Inr (0, s1))"

definition UIntToOct :: "farg \<Rightarrow> int_type \<Rightarrow> int \<Rightarrow> string \<Rightarrow> string \<Rightarrow> (nat \<times> string) result" where
  "UIntToOct arg T val repr s =
     rbind (radix_text 3 repr T val s) (\<lambda>s1.
       if fa_base_prefix arg then rbind (put_char (CHR ''0'') s1) (\<lambda>s2. Inr (1, s2)) else Inr (0, s1))"

definition UIntToBin :: "farg \<Rightarrow> int_type \<Rightarrow> int \<Rightarrow> string \<Rightarrow> string \<Rightarrow> (nat \<times> string) result" where
  "UIntToBin arg T val repr s =
     rbind (radix_text 1 repr T val s) (\<lambda>s1.
       if fa_base_prefix arg then rbind (put_char (repr ! 2) s1) (\<lambda>s2. rbind (put_char (CHR ''0'') s2) (\<lambda>s3. Inr (2, s3)))
       else Inr (0, s1))"

definition upper_repr_hex :: string where
  "upper_repr_hex = ''0123456789ABCDEF''"

definition lower_repr_hex :: string where
  "lower_repr_hex = ''0123456789abcdef''"

definition repr_oct :: string where
  "repr_oct = ''01234567''"

definition lower_repr_bin :: string where
  "lower_repr_bin = ''01b''"

definition upper_repr_bin :: string where
  "upper_repr_bin = ''01B''"

text \<open>The first \<open>switch\<close> of \<open>Format\<close>, on the presentation, and the second, on the sign.\<close>

definition int_digits :: "farg \<Rightarrow> int_type \<Rightarrow> int \<Rightarrow> (nat \<times> string) result" where
  "int_digits arg T val =
     (let c = fa_presentation arg in
      if c = kDefaultPresentation \<or> c = CHR ''d'' \<or> c = CHR ''n'' then UIntToDec arg T val []
      else if c = CHR ''x'' then UIntToHex arg T val lower_repr_hex []
      else if c = CHR ''X'' then UIntToHex arg T val upper_repr_hex []
      else if c = CHR ''o'' \<or> c = CHR ''O'' then UIntToOct arg T val repr_oct []
      else if c = CHR ''b'' then UIntToBin arg T val lower_repr_bin []
      else if c = CHR ''B'' then UIntToBin arg T val upper_repr_bin []
      else if c = CHR ''c'' then rbind (put_char (char_of (nat (val mod 256))) []) (\<lambda>s. Inr (0, s))
      else Inl AssertionFailed)"

definition IsNegative :: "int_type \<Rightarrow> int \<Rightarrow> bool" where
  "IsNegative T val \<longleftrightarrow> it_signed T \<and> val < 0"

definition int_sign :: "farg \<Rightarrow> int_type \<Rightarrow> int \<Rightarrow> nat \<times> string \<Rightarrow> (nat \<times> string) result" where
  "int_sign arg T val ps =
     (let put = (\<lambda>c. rbind (put_char c (snd ps)) (\<lambda>s. Inr (fst ps + 1, s))); neg = IsNegative T val in
      case fa_sign arg of
        SDefault \<Rightarrow> if neg then put (CHR ''-'') else Inr ps
      | SMinus \<Rightarrow> if neg then put (CHR ''-'') else Inr ps
      | SPlusOrMinus \<Rightarrow> put (if neg then CHR ''-'' else CHR ''+'')
      | SSpaceOrMinus \<Rightarrow> put (if neg then CHR ''-'' else CHR '' '')
      | SInvalid \<Rightarrow> Inl AssertionFailed)"

definition int_text :: "farg \<Rightarrow> int_type \<Rightarrow> int \<Rightarrow> (nat \<times> string) result" where
  "int_text arg T val = rbind (int_digits arg T val) (int_sign arg T val)"

definition Format_int :: "foutput \<Rightarrow> farg \<Rightarrow> int_type \<Rightarrow> int \<Rightarrow> string result" where
  "Format_int out arg T val =
     rbind (int_text arg T val) (\<lambda>(prefix_len, s). FormatNumber out arg prefix_len \<lparr>fs_text = s, fs_behind = []\<rparr>)"

section \<open>Floating-point numbers\<close>

text \<open>The format given to \<open>snprintf\<close>: \<open>%\<close>, the precision if there is one, and the presentation.\<close>

fun nat_text :: "nat \<Rightarrow> string" where
  "nat_text n = (if n < 10 then [char_of (48 + n)] else nat_text (n div 10) @ [char_of (48 + n mod 10)])"

declare nat_text.simps [simp del]

definition double_presentation :: "farg \<Rightarrow> char" where
  "double_presentation arg = (if fa_presentation arg = kDefaultPresentation then CHR ''g''
     else if fa_presentation arg = CHR ''F'' then CHR ''f'' else fa_presentation arg)"

definition double_format :: "farg \<Rightarrow> string" where
  "double_format arg =
     (if fa_precision arg = kDefaultPrecision then [CHR ''%'', double_presentation arg]
      else ''%.'' @ nat_text (nat (fa_precision arg)) @ [double_presentation arg])"

text \<open>
  A conversion that does not take a \<open>double\<close> is undefined. The text is copied out of a buffer of 256
  characters that \<open>snprintf\<close> has cut it to, by its full length.
\<close>

definition DoubleToString :: "(string \<Rightarrow> 'd \<Rightarrow> string) \<Rightarrow> farg \<Rightarrow> 'd \<Rightarrow> (nat \<times> string) result" where
  "DoubleToString print arg val =
     (let text = print (double_format arg) val in
      if double_presentation arg \<notin> set ''aAeEfgG'' then Inl MemoryFault
      else if 256 < length text then Inl MemoryFault
      else if length text = 256 then Inr (if hd text = CHR ''-'' then 1 else 0, butlast text @ [CHR 0x00])
      else if text = [] then Inl MemoryFault
      else Inr (if hd text = CHR ''-'' then 1 else 0, text))"

definition Format_double :: "(string \<Rightarrow> 'd \<Rightarrow> string) \<Rightarrow> foutput \<Rightarrow> farg \<Rightarrow> 'd \<Rightarrow> string result" where
  "Format_double print out arg val =
     rbind (DoubleToString print arg val) (\<lambda>(prefix_len, s). FormatNumber out arg prefix_len \<lparr>fs_text = s, fs_behind = []\<rparr>)"

section \<open>Values\<close>

text \<open>
  \<open>VStr\<close> is a \<open>std::string\<close>, a C string or a slice; \<open>VSeq\<close> a vector, deque or array; the keys of
  a \<open>VIntMap\<close> have the given type.
\<close>

datatype 'd fvalue =
    VStr fslice
  | VInt int_type int
  | VBool bool
  | VNull
  | VDouble 'd
  | VTuple "'d fvalue list"
  | VSeq "'d fvalue list"
  | VIntMap int_type "(int \<times> 'd fvalue) list"
  | VMap "(string \<times> 'd fvalue) list"

definition at_index :: "'a list \<Rightarrow> nat \<Rightarrow> 'a option" where
  "at_index xs i = (if i < length xs then Some (xs ! i) else None)"

text \<open>\<open>static_cast<key_type>(idx)\<close>.\<close>

definition cast_key :: "int_type \<Rightarrow> nat \<Rightarrow> int" where
  "cast_key T i =
     (let m = int i mod 2 ^ it_bits T in if it_signed T \<and> 2 ^ (it_bits T - 1) \<le> m then m - 2 ^ it_bits T else m)"

lemma at_index_size [termination_simp]: "at_index vs k = Some x \<Longrightarrow> size x < Suc (size_list size vs)"
  unfolding at_index_def by (metis nth_mem option.distinct(1) option.inject order_less_imp_le size_list_estimation' less_Suc_eq_le order_refl)

lemma map_of_size [termination_simp]: "map_of kvs k = Some x \<Longrightarrow> size x < Suc (size_list (\<lambda>e. Suc (size (snd e))) kvs)"
  by (induction kvs) (auto split: if_splits)

definition Format_str :: "foutput \<Rightarrow> farg \<Rightarrow> fslice \<Rightarrow> string result" where
  "Format_str out arg val =
     (if fa_precision arg \<noteq> kDefaultPrecision
      then rbind (subslice val 0 (nat (fa_precision arg))) (FormatString out arg)
      else FormatString out arg val)"

definition Format_bool :: "foutput \<Rightarrow> farg \<Rightarrow> bool \<Rightarrow> string result" where
  "Format_bool out arg val =
     (if fa_presentation arg = kDefaultPresentation
      then FormatString out arg (Slice_cstr (if val then ''true'' else ''false''))
      else Format_int out arg type_int (if val then 1 else 0))"

definition Format_null :: "foutput \<Rightarrow> string result" where
  "Format_null out = out (Slice_cstr ''(null)'')"

lemmas [simp] = Format_str_def Format_bool_def Format_null_def

fun FormatValue :: "(string \<Rightarrow> 'd \<Rightarrow> string) \<Rightarrow> foutput \<Rightarrow> farg \<Rightarrow> 'd fvalue \<Rightarrow> string result" where
  "FormatValue print out arg (VStr val) = Format_str out arg val"
| "FormatValue print out arg (VInt T val) = Format_int out arg T val"
| "FormatValue print out arg (VBool val) = Format_bool out arg val"
| "FormatValue print out arg VNull = Format_null out"
| "FormatValue print out arg (VDouble val) = Format_double print out arg val"
| "FormatValue print out arg (VTuple vs) =
     rbind (SplitIntKey arg) (\<lambda>(index, arg1).
       case at_index vs index of None \<Rightarrow> Inl (BadFormat ''Format Tuple: index out of range'')
       | Some v \<Rightarrow> FormatValue print out arg1 v)"
| "FormatValue print out arg (VSeq vs) =
     rbind (SplitIntKey arg) (\<lambda>(index, arg1).
       case at_index vs index of None \<Rightarrow> Inl OutOfRange | Some v \<Rightarrow> FormatValue print out arg1 v)"
| "FormatValue print out arg (VIntMap T kvs) =
     rbind (SplitIntKey arg) (\<lambda>(index, arg1).
       case map_of kvs (cast_key T index) of None \<Rightarrow> Inl OutOfRange | Some v \<Rightarrow> FormatValue print out arg1 v)"
| "FormatValue print out arg (VMap kvs) =
     rbind (SplitKey arg) (\<lambda>(piece, arg1).
       case map_of kvs piece of None \<Rightarrow> Inl OutOfRange | Some v \<Rightarrow> FormatValue print out arg1 v)"

end
