(* ===== verification/Fmt_Number.thy ===== *)
theory Fmt_Number
  imports Fmt_Value
begin

text \<open>
  The text the formatting library writes for integers: positional numerals and groups of three digits
  as references, and the loops of the source against them.
\<close>

section \<open>Positional numerals\<close>

text \<open>The numeral of \<open>v\<close> to the base \<open>b\<close>, with the digits of \<open>repr\<close>, and the number a numeral stands for.\<close>

function spell :: "nat \<Rightarrow> string \<Rightarrow> nat \<Rightarrow> string" where
  "spell b repr v = (if b < 2 \<or> v < b then [repr ! v] else spell b repr (v div b) @ [repr ! (v mod b)])"
  by auto

termination spell
  by (relation "measure (\<lambda>(b, repr, v). v)") auto

declare spell.simps [simp del]

fun place :: "string \<Rightarrow> char \<Rightarrow> nat" where
  "place [] c = 0"
| "place (d # ds) c = (if c = d then 0 else Suc (place ds c))"

definition spelt :: "nat \<Rightarrow> string \<Rightarrow> string \<Rightarrow> nat" where
  "spelt b repr ds = foldl (\<lambda>n c. b * n + place repr c) 0 ds"

lemma place_nth: "distinct ds \<Longrightarrow> i < length ds \<Longrightarrow> place ds (ds ! i) = i"
  by (induction ds arbitrary: i) (auto simp: nth_Cons split: nat.splits)

lemma spelt_spell: "2 \<le> b \<Longrightarrow> b \<le> length repr \<Longrightarrow> distinct repr \<Longrightarrow> spelt b repr (spell b repr v) = v"
proof (induction v rule: less_induct)
  case (less v)
  have p: "place repr (repr ! i) = i" if "i < b" for i using place_nth [OF less.prems(3)] that less.prems(2) by simp
  show ?case
  proof (cases "v < b")
    case True
    then show ?thesis by (simp add: spell.simps [of b repr v] spelt_def p)
  next
    case False
    then have "v div b < v" using less.prems(1) by simp
    from less.IH [OF this less.prems] False less.prems(1) show ?thesis
      by (simp add: spell.simps [of b repr v] spelt_def p)
  qed
qed

lemma spell_length: "2 \<le> b \<Longrightarrow> v < b ^ n \<Longrightarrow> 0 < n \<Longrightarrow> length (spell b repr v) \<le> n"
proof (induction n arbitrary: v)
  case (Suc n)
  show ?case
  proof (cases "v < b")
    case True
    then show ?thesis by (simp add: spell.simps [of b repr v])
  next
    case False
    then have "0 < n" using Suc.prems by (cases n) auto
    moreover have "v div b < b ^ n" using Suc.prems(1,2) by (simp add: less_mult_imp_div_less mult.commute)
    ultimately show ?thesis using Suc.IH [of "v div b"] Suc.prems(1) False by (simp add: spell.simps [of b repr v])
  qed
qed simp

text \<open>Digits in groups of three.\<close>

function grouped :: "string \<Rightarrow> string" where
  "grouped ds = (if length ds \<le> 3 then ds else grouped (take (length ds - 3) ds) @ CHR '','' # drop (length ds - 3) ds)"
  by auto

termination grouped
  by (relation "measure length") auto

declare grouped.simps [simp del]

lemma grouped_snoc: "length ds = 3 \<Longrightarrow> grouped (xs @ ds) = (if xs = [] then ds else grouped xs @ CHR '','' # ds)"
  by (subst grouped.simps) (auto simp: Suc_le_eq)

lemma grouped_length: "length (grouped ds) \<le> 2 * length ds"
proof (induction ds rule: grouped.induct)
  case (1 ds)
  then show ?case by (subst grouped.simps) auto
qed

section \<open>The loops\<close>

definition decimals :: string where
  "decimals = ''0123456789''"

lemma decimal_digit: "i < 10 \<Longrightarrow> char_of (48 + i) = decimals ! i"
proof -
  have "\<forall>i\<in>set [0..<10]. (char_of (48 + i :: nat)) = decimals ! i" by code_simp
  then show "i < 10 \<Longrightarrow> char_of (48 + i) = decimals ! i" by simp
qed

lemma put_char_room [simp]: "length s < kBufferSize \<Longrightarrow> put_char c s = Inr (c # s)"
  by (simp add: put_char_def)

lemma dec_loop_plain:
  "0 < v \<Longrightarrow> length (spell 10 decimals v) + length s \<le> kBufferSize \<Longrightarrow> dec_loop False idx v s = Inr (spell 10 decimals v @ s)"
proof (induction v arbitrary: idx s rule: less_induct)
  case (less v)
  have l: "length s < kBufferSize" using less.prems(2) by (cases "v < 10") (simp_all add: spell.simps [of 10 _ v])
  show ?case
  proof (cases "v < 10")
    case True
    then show ?thesis using less.prems(1) l decimal_digit [of v]
      by (simp add: dec_loop.simps [of _ _ v] dec_loop.simps [of _ _ 0] spell.simps [of 10 _ v])
  next
    case False
    then have "dec_loop False (idx + 1) (v div 10) (decimals ! (v mod 10) # s) = Inr (spell 10 decimals (v div 10) @ decimals ! (v mod 10) # s)"
      using less.prems(2) by (intro less.IH) (auto simp: spell.simps [of 10 _ v])
    then show ?thesis using False l decimal_digit [of "v mod 10"] by (subst dec_loop.simps) (simp add: spell.simps [of 10 _ v])
  qed
qed

lemma spell_nonempty [simp]: "spell b repr v \<noteq> []"
  by (subst spell.simps) simp

lemma spell_thousand:
  assumes "1000 \<le> v"
  shows "spell 10 decimals v = spell 10 decimals (v div 1000) @ [decimals ! (v div 100 mod 10), decimals ! (v div 10 mod 10), decimals ! (v mod 10)]"
proof -
  have "\<not> v < 10" "\<not> v div 10 < 10" "\<not> v div 100 < 10" using assms by simp_all
  then show ?thesis
    by (simp add: spell.simps [of 10 _ v] spell.simps [of 10 _ "v div 10"] spell.simps [of 10 _ "v div 100"] div_mult2_eq [symmetric])
qed

lemma dec_step:
  assumes "0 < v" "length s + 1 < kBufferSize"
  shows "dec_loop sep idx v s = dec_loop sep (idx + 1) (v div 10)
    ((if v div 10 \<noteq> 0 \<and> sep \<and> idx \<noteq> 0 \<and> idx mod 3 = 0 then [CHR '','', decimals ! (v mod 10)] else [decimals ! (v mod 10)]) @ s)"
  using assms decimal_digit [of "v mod 10"] by (subst dec_loop.simps) simp

lemma dec_loop_group:
  assumes "1000 \<le> v" "length s + 4 < kBufferSize" "idx mod 3 = 1"
  shows "dec_loop True idx v s =
    dec_loop True (idx + 3) (v div 1000) (CHR '','' # [decimals ! (v div 100 mod 10), decimals ! (v div 10 mod 10), decimals ! (v mod 10)] @ s)"
proof -
  have idx: "Suc idx mod 3 = 2" "Suc (Suc idx) mod 3 = 0" "0 < idx" using assms(3) by presburger+
  have v: "0 < v div 10" "0 < v div 100" "0 < v div 1000" using assms(1) by simp_all
  have "dec_loop True idx v s = dec_loop True (Suc idx) (v div 10) (decimals ! (v mod 10) # s)" using dec_step [of v s True idx] assms by simp
  also have "\<dots> = dec_loop True (Suc (Suc idx)) (v div 100) (decimals ! (v div 10 mod 10) # decimals ! (v mod 10) # s)"
    using dec_step [of "v div 10" "decimals ! (v mod 10) # s" True "Suc idx"] assms(2) v idx by (simp add: div_mult2_eq [symmetric])
  also have "\<dots> = dec_loop True (Suc (Suc (Suc idx))) (v div 1000)
      (CHR '','' # [decimals ! (v div 100 mod 10), decimals ! (v div 10 mod 10), decimals ! (v mod 10)] @ s)"
    using dec_step [of "v div 100" "decimals ! (v div 10 mod 10) # decimals ! (v mod 10) # s" True "Suc (Suc idx)"] assms(2) v idx
    by (simp add: div_mult2_eq [symmetric])
  finally have "dec_loop True idx v s = dec_loop True (Suc (Suc (Suc idx))) (v div 1000)
      (CHR '','' # [decimals ! (v div 100 mod 10), decimals ! (v div 10 mod 10), decimals ! (v mod 10)] @ s)" .
  moreover have "Suc (Suc (Suc idx)) = idx + 3" by simp
  ultimately show ?thesis by (simp only:)
qed

lemma dec_loop_last:
  assumes "v < 1000" "0 < v" "length s + 4 < kBufferSize" "idx mod 3 = 1"
  shows "dec_loop True idx v s = Inr (spell 10 decimals v @ s)"
proof -
  have idx: "Suc idx mod 3 = 2" "Suc (Suc idx) mod 3 = 0" using assms(4) by presburger+
  consider "v < 10" | "10 \<le> v" "v < 100" | "100 \<le> v" by linarith
  then show ?thesis
  proof cases
    case 1
    then show ?thesis using assms idx by (simp add: dec_step dec_loop.simps [of _ _ 0] spell.simps [of 10 _ v])
  next
    case 2
    then have "v div 10 div 10 = 0" "0 < v div 10" "v div 10 < 10" by simp_all
    then show ?thesis using 2 assms idx by (simp add: dec_step dec_loop.simps [of _ _ 0] spell.simps [of 10 _ v] spell.simps [of 10 _ "v div 10"])
  next
    case 3
    then have "0 < v div 10" "0 < v div 10 div 10" "v div 10 div 10 < 10" "\<not> v div 10 < 10" using assms(1) by simp_all
    then show ?thesis using 3 assms idx
      by (simp add: dec_step dec_loop.simps [of _ _ 0] spell.simps [of 10 _ v] spell.simps [of 10 _ "v div 10"] spell.simps [of 10 _ "v div 100"]
        div_mult2_eq [symmetric])
  qed
qed

lemma dec_loop_grouped:
  "0 < v \<Longrightarrow> 2 * length (spell 10 decimals v) + length s + 4 < kBufferSize \<Longrightarrow> idx mod 3 = 1 \<Longrightarrow>
   dec_loop True idx v s = Inr (grouped (spell 10 decimals v) @ s)"
proof (induction v arbitrary: idx s rule: less_induct)
  case (less v)
  show ?case
  proof (cases "v < 1000")
    case True
    then have "length (spell 10 decimals v) \<le> 3" using spell_length [of 10 v 3] by simp
    then have "grouped (spell 10 decimals v) = spell 10 decimals v" by (subst grouped.simps) simp
    then show ?thesis using dec_loop_last [OF True less.prems(1) _ less.prems(3), of s] less.prems(2) by simp
  next
    case False
    let ?s = "CHR '','' # [decimals ! (v div 100 mod 10), decimals ! (v div 10 mod 10), decimals ! (v mod 10)] @ s"
    have sp: "spell 10 decimals v = spell 10 decimals (v div 1000) @ [decimals ! (v div 100 mod 10), decimals ! (v div 10 mod 10), decimals ! (v mod 10)]"
      using spell_thousand [of v] False by simp
    have "dec_loop True (idx + 3) (v div 1000) ?s = Inr (grouped (spell 10 decimals (v div 1000)) @ ?s)"
      using False less.prems sp by (intro less.IH) simp_all
    moreover have "dec_loop True idx v s = dec_loop True (idx + 3) (v div 1000) ?s" using False less.prems by (intro dec_loop_group) simp_all
    ultimately show ?thesis by (simp add: sp grouped_snoc)
  qed
qed

lemma radix_loop_spell:
  "0 < k \<Longrightarrow> 0 < v \<Longrightarrow> length (spell (2 ^ k) repr v) + length s \<le> kBufferSize \<Longrightarrow> radix_loop k repr v s = Inr (spell (2 ^ k) repr v @ s)"
proof (induction v arbitrary: s rule: less_induct)
  case (less v)
  obtain j where k: "k = Suc j" using less.prems(1) by (cases k) auto
  have b: "2 \<le> (2 :: nat) ^ k" by (simp add: k)
  have l: "length s < kBufferSize" using less.prems(3) b by (cases "v < 2 ^ k") (simp_all add: spell.simps [of "2 ^ k" _ v])
  show ?case
  proof (cases "v < 2 ^ k")
    case True
    then show ?thesis using less.prems(2) l unfolding k by (simp add: radix_loop.simps spell.simps [of "2 ^ Suc j" _ v] del: power_Suc)
  next
    case False
    then have "radix_loop k repr (v div 2 ^ k) (repr ! (v mod 2 ^ k) # s) = Inr (spell (2 ^ k) repr (v div 2 ^ k) @ repr ! (v mod 2 ^ k) # s)"
      using less.prems b by (intro less.IH) (auto simp: spell.simps [of "2 ^ k" _ v] div_greater_zero_iff)
    then show ?thesis using False l b less.prems(2) unfolding k
      by (subst radix_loop.simps) (simp add: spell.simps [of "2 ^ Suc j" _ v] del: power_Suc)
  qed
qed

section \<open>The text of an integer\<close>

text \<open>The base and digits a presentation stands for, and what stands before the digits.\<close>

definition radix_of :: "char \<Rightarrow> (nat \<times> string) option" where
  "radix_of c = (if c = kDefaultPresentation \<or> c = CHR ''d'' \<or> c = CHR ''n'' then Some (10, decimals)
     else if c = CHR ''x'' then Some (16, lower_repr_hex) else if c = CHR ''X'' then Some (16, upper_repr_hex)
     else if c = CHR ''o'' \<or> c = CHR ''O'' then Some (8, repr_oct)
     else if c = CHR ''b'' then Some (2, lower_repr_bin) else if c = CHR ''B'' then Some (2, upper_repr_bin) else None)"

definition base_chars :: "farg \<Rightarrow> string" where
  "base_chars arg = (if \<not> fa_base_prefix arg then []
     else if fa_presentation arg = CHR ''x'' \<or> fa_presentation arg = CHR ''X'' then ''0x''
     else if fa_presentation arg = CHR ''o'' \<or> fa_presentation arg = CHR ''O'' then ''0''
     else if fa_presentation arg = CHR ''b'' then ''0b'' else if fa_presentation arg = CHR ''B'' then ''0B'' else [])"

definition sign_chars :: "farg \<Rightarrow> int \<Rightarrow> string" where
  "sign_chars arg val = (if val < 0 then ''-'' else if fa_sign arg = SPlusOrMinus then ''+''
     else if fa_sign arg = SSpaceOrMinus then '' '' else [])"

definition holds_type :: "int_type \<Rightarrow> int \<Rightarrow> bool" where
  "holds_type T val \<longleftrightarrow> 0 < it_bits T \<and> it_bits T \<le> 64 \<and>
     (if it_signed T then - (2 ^ (it_bits T - 1)) \<le> val \<and> val < 2 ^ (it_bits T - 1) else 0 \<le> val \<and> val < 2 ^ it_bits T)"

lemma holds_typeD:
  assumes "holds_type T val"
  shows "nat \<bar>val\<bar> < 2 ^ it_bits T" "nat \<bar>val\<bar> < 2 ^ 64" "IsNegative T val \<longleftrightarrow> val < 0"
proof -
  have e: "(2 :: int) ^ it_bits T = 2 * 2 ^ (it_bits T - 1)" using assms by (cases "it_bits T") (auto simp: holds_type_def)
  have "0 < (2 :: int) ^ (it_bits T - 1)" by simp
  then have "\<bar>val\<bar> < 2 ^ it_bits T" using assms e by (auto simp: holds_type_def split: if_splits)
  then show 1: "nat \<bar>val\<bar> < 2 ^ it_bits T" by (simp add: nat_less_iff)
  have "(2 :: nat) ^ it_bits T \<le> 2 ^ 64" using assms by (intro power_increasing) (auto simp: holds_type_def)
  with 1 show "nat \<bar>val\<bar> < 2 ^ 64" by linarith
  show "IsNegative T val \<longleftrightarrow> val < 0" using assms by (auto simp: holds_type_def IsNegative_def split: if_splits)
qed

lemma magnitude_abs:
  "holds_type T val \<Longrightarrow> \<not> (32 \<le> it_bits T \<and> val = - (2 ^ (it_bits T - 1))) \<Longrightarrow> magnitude T val = Inr (nat \<bar>val\<bar>)"
  using holds_typeD(1) [of T val] by (auto simp: magnitude_def)

definition int_body :: "farg \<Rightarrow> nat \<Rightarrow> string \<Rightarrow> nat \<Rightarrow> string" where
  "int_body arg b repr v = (if b = 10 \<and> fa_thousands_separator arg then grouped (spell b repr v) else spell b repr v)"

lemma spell_zero: "2 \<le> b \<Longrightarrow> spell b repr 0 = [repr ! 0]"
  by (subst spell.simps) simp

lemma UIntToDec_text:
  assumes "magnitude T val = Inr (nat \<bar>val\<bar>)" "nat \<bar>val\<bar> < 2 ^ 64"
  shows "UIntToDec arg T val [] = Inr (0, int_body arg 10 decimals (nat \<bar>val\<bar>))" "length (int_body arg 10 decimals (nat \<bar>val\<bar>)) \<le> 40"
proof -
  have "nat \<bar>val\<bar> < 10 ^ 20" using assms(2) by simp
  then have l: "length (spell 10 decimals (nat \<bar>val\<bar>)) \<le> 20" by (intro spell_length) simp_all
  then show "length (int_body arg 10 decimals (nat \<bar>val\<bar>)) \<le> 40"
    using grouped_length [of "spell 10 decimals (nat \<bar>val\<bar>)"] by (simp add: int_body_def)
  have g: "grouped [c] = [c]" for c by (subst grouped.simps) simp
  show "UIntToDec arg T val [] = Inr (0, int_body arg 10 decimals (nat \<bar>val\<bar>))"
  proof (cases "val = 0")
    case True
    then show ?thesis using assms(1)
      by (simp add: UIntToDec_def int_body_def spell_zero g dec_loop.simps kBufferSize_def decimals_def)
  next
    case False
    then show ?thesis using assms(1) l dec_loop_plain [of "nat \<bar>val\<bar>" "[]" 1] dec_loop_grouped [of "nat \<bar>val\<bar>" "[]" 1]
      by (cases "fa_thousands_separator arg") (simp_all add: UIntToDec_def int_body_def kBufferSize_def)
  qed
qed

lemma radix_text_spell:
  assumes "magnitude T val = Inr (nat \<bar>val\<bar>)" "nat \<bar>val\<bar> < 2 ^ 64" "0 < k" "repr ! 0 = CHR ''0''"
  shows "radix_text k repr T val [] = Inr (spell (2 ^ k) repr (nat \<bar>val\<bar>))" "length (spell (2 ^ k) repr (nat \<bar>val\<bar>)) \<le> 64"
proof -
  have b: "2 \<le> (2 :: nat) ^ k" using assms(3) by (cases k) simp_all
  have "(2 :: nat) ^ 64 \<le> (2 ^ k) ^ 64" by (rule power_mono) (use b in simp_all)
  then show l: "length (spell (2 ^ k) repr (nat \<bar>val\<bar>)) \<le> 64" using assms(2) b by (intro spell_length) simp_all
  obtain j where k: "k = Suc j" using assms(3) by (cases k) auto
  show "radix_text k repr T val [] = Inr (spell (2 ^ k) repr (nat \<bar>val\<bar>))"
  proof (cases "val = 0")
    case True
    then show ?thesis using assms(1,4) b spell_zero [OF b, of repr] by (simp add: radix_text_def k radix_loop.simps kBufferSize_def del: power_Suc)
  next
    case False
    then show ?thesis using assms(1,3) l radix_loop_spell [of k "nat \<bar>val\<bar>" repr "[]"] by (simp add: radix_text_def kBufferSize_def)
  qed
qed

lemma radix_ofE:
  assumes "radix_of c = Some (b, repr)"
  obtains "c = CHR 0x00 \<or> c = CHR ''d'' \<or> c = CHR ''n''" "b = 10" "repr = decimals"
    | "c = CHR ''x''" "b = 16" "repr = lower_repr_hex" | "c = CHR ''X''" "b = 16" "repr = upper_repr_hex"
    | "c = CHR ''o'' \<or> c = CHR ''O''" "b = 8" "repr = repr_oct"
    | "c = CHR ''b''" "b = 2" "repr = lower_repr_bin" | "c = CHR ''B''" "b = 2" "repr = upper_repr_bin"
  using assms unfolding radix_of_def kDefaultPresentation_def
  by (simp only: split: if_split_asm) (simp_all only: option.inject prod.inject option.distinct)

lemma repr_distinct [simp]: "distinct decimals" "distinct lower_repr_hex" "distinct upper_repr_hex" "distinct repr_oct"
  "distinct lower_repr_bin" "distinct upper_repr_bin"
  by code_simp+

lemma repr_length [simp]: "length decimals = 10" "length lower_repr_hex = 16" "length upper_repr_hex = 16" "length repr_oct = 8"
  "length lower_repr_bin = 3" "length upper_repr_bin = 3"
  by (simp_all add: decimals_def lower_repr_hex_def upper_repr_hex_def repr_oct_def lower_repr_bin_def upper_repr_bin_def)

lemma radix_of_cases:
  assumes "radix_of c = Some (b, repr)"
  shows "2 \<le> b \<and> b \<le> length repr \<and> distinct repr"
  using assms by (cases rule: radix_ofE) simp_all

lemma repr_zero [simp]: "lower_repr_hex ! 0 = CHR ''0''" "upper_repr_hex ! 0 = CHR ''0''" "repr_oct ! 0 = CHR ''0''"
  "lower_repr_bin ! 0 = CHR ''0''" "upper_repr_bin ! 0 = CHR ''0''" "lower_repr_bin ! 2 = CHR ''b''" "upper_repr_bin ! 2 = CHR ''B''"
  by (simp_all add: lower_repr_hex_def upper_repr_hex_def repr_oct_def lower_repr_bin_def upper_repr_bin_def)

lemma put_char_short: "length t \<le> 64 \<Longrightarrow> put_char c t = Inr (c # t)" "length t \<le> 64 \<Longrightarrow> put_char c (e # t) = Inr (c # e # t)"
  by (simp_all add: kBufferSize_def)

lemma UIntTo_text:
  assumes "magnitude T val = Inr (nat \<bar>val\<bar>)" "nat \<bar>val\<bar> < 2 ^ 64" "repr ! 0 = CHR ''0''"
  shows "UIntToHex arg T val repr [] = Inr (if fa_base_prefix arg then (2, ''0x'' @ spell 16 repr (nat \<bar>val\<bar>)) else (0, spell 16 repr (nat \<bar>val\<bar>)))"
    "UIntToOct arg T val repr [] = Inr (if fa_base_prefix arg then (1, ''0'' @ spell 8 repr (nat \<bar>val\<bar>)) else (0, spell 8 repr (nat \<bar>val\<bar>)))"
    "UIntToBin arg T val repr [] = Inr (if fa_base_prefix arg then (2, [CHR ''0'', repr ! 2] @ spell 2 repr (nat \<bar>val\<bar>)) else (0, spell 2 repr (nat \<bar>val\<bar>)))"
    "b \<in> {16, 8, 2} \<Longrightarrow> length (spell b repr (nat \<bar>val\<bar>)) \<le> 64"
proof -
  note r = radix_text_spell [OF assms(1,2), of 4 repr] radix_text_spell [OF assms(1,2), of 3 repr] radix_text_spell [OF assms(1,2), of 1 repr]
  show "UIntToHex arg T val repr [] = Inr (if fa_base_prefix arg then (2, ''0x'' @ spell 16 repr (nat \<bar>val\<bar>)) else (0, spell 16 repr (nat \<bar>val\<bar>)))"
    using r(1,2) assms(3) by (simp add: UIntToHex_def put_char_short)
  show "UIntToOct arg T val repr [] = Inr (if fa_base_prefix arg then (1, ''0'' @ spell 8 repr (nat \<bar>val\<bar>)) else (0, spell 8 repr (nat \<bar>val\<bar>)))"
    using r(3,4) assms(3) by (simp add: UIntToOct_def put_char_short)
  show "UIntToBin arg T val repr [] = Inr (if fa_base_prefix arg then (2, [CHR ''0'', repr ! 2] @ spell 2 repr (nat \<bar>val\<bar>)) else (0, spell 2 repr (nat \<bar>val\<bar>)))"
    using r(5,6) assms(3) by (simp add: UIntToBin_def put_char_short)
  show "b \<in> {16, 8, 2} \<Longrightarrow> length (spell b repr (nat \<bar>val\<bar>)) \<le> 64" using r(2,4,6) assms(3) by auto
qed

lemma int_digits_text:
  assumes "magnitude T val = Inr (nat \<bar>val\<bar>)" "nat \<bar>val\<bar> < 2 ^ 64" "radix_of (fa_presentation arg) = Some (b, repr)"
  shows "int_digits arg T val = Inr (length (base_chars arg), base_chars arg @ int_body arg b repr (nat \<bar>val\<bar>))"
    "length (base_chars arg @ int_body arg b repr (nat \<bar>val\<bar>)) < kBufferSize"
proof -
  note d = UIntToDec_text [OF assms(1,2), of arg]
  note r = UIntTo_text [OF assms(1,2)]
  show "int_digits arg T val = Inr (length (base_chars arg), base_chars arg @ int_body arg b repr (nat \<bar>val\<bar>))"
    using assms(3)
  proof (cases rule: radix_ofE)
    case 1
    then show ?thesis using d(1) by (elim disjE) (simp_all add: int_digits_def base_chars_def kDefaultPresentation_def)
  next
    case 4
    then show ?thesis by (elim disjE) (simp_all add: int_digits_def base_chars_def kDefaultPresentation_def r int_body_def)
  qed (simp_all add: int_digits_def base_chars_def kDefaultPresentation_def r int_body_def)
  show "length (base_chars arg @ int_body arg b repr (nat \<bar>val\<bar>)) < kBufferSize"
  proof (cases "b = 10")
    case True
    from assms(3) have "base_chars arg = []" "repr = decimals" by (cases rule: radix_ofE; use True in \<open>auto simp: base_chars_def\<close>)+
    then show ?thesis using d(2) True by (simp add: kBufferSize_def)
  next
    case False
    from assms(3) have "b = 16 \<or> b = 8 \<or> b = 2" "repr ! 0 = CHR ''0''" by (cases rule: radix_ofE; use False in simp)+
    then have "length (int_body arg b repr (nat \<bar>val\<bar>)) \<le> 64" using r(4) [of repr b] False by (auto simp: int_body_def)
    moreover have "length (base_chars arg) \<le> 2" by (simp add: base_chars_def)
    ultimately show ?thesis by (simp add: kBufferSize_def)
  qed
qed

lemma int_sign_text:
  assumes "fa_sign arg \<noteq> SInvalid" "IsNegative T val \<longleftrightarrow> val < 0" "length s < kBufferSize"
  shows "int_sign arg T val (n, s) = Inr (n + length (sign_chars arg val), sign_chars arg val @ s)" "length (sign_chars arg val @ s) \<le> kBufferSize"
  using assms by (cases "fa_sign arg"; simp add: int_sign_def sign_chars_def)+

lemma int_text_spelt:
  assumes "radix_of (fa_presentation arg) = Some (b, repr)" "fa_sign arg \<noteq> SInvalid" "holds_type T val"
    "\<not> (32 \<le> it_bits T \<and> val = - (2 ^ (it_bits T - 1)))"
  shows "int_text arg T val = Inr (length (sign_chars arg val @ base_chars arg), sign_chars arg val @ base_chars arg @ int_body arg b repr (nat \<bar>val\<bar>))"
    "length (sign_chars arg val @ base_chars arg @ int_body arg b repr (nat \<bar>val\<bar>)) \<le> kBufferSize"
proof -
  note T = holds_typeD [OF assms(3)]
  note d = int_digits_text [OF magnitude_abs [OF assms(3,4)] T(2) assms(1)]
  show "int_text arg T val = Inr (length (sign_chars arg val @ base_chars arg), sign_chars arg val @ base_chars arg @ int_body arg b repr (nat \<bar>val\<bar>))"
    "length (sign_chars arg val @ base_chars arg @ int_body arg b repr (nat \<bar>val\<bar>)) \<le> kBufferSize"
    using d int_sign_text [OF assms(2) T(3) d(2)] by (simp_all add: int_text_def add.commute)
qed

text \<open>
  C31. The text of an integer: for every value of a type of up to 64 bits, except the least one of a
  type at least as wide as \<open>int\<close> (its negation overflows), the digits never leave the buffer of 67
  bytes, and the text is the sign, the prefix of the base and the numeral of the magnitude, in groups
  of three when asked for; reading the numeral gives the magnitude back.
\<close>

theorem integer_text:
  assumes "radix_of (fa_presentation arg) = Some (b, repr)" "fa_sign arg \<noteq> SInvalid" "holds_type T val"
    "\<not> (32 \<le> it_bits T \<and> val = - (2 ^ (it_bits T - 1)))"
  shows "int_text arg T val = Inr (length (sign_chars arg val @ base_chars arg),
      sign_chars arg val @ base_chars arg @ int_body arg b repr (nat \<bar>val\<bar>)) \<and>
    length (sign_chars arg val @ base_chars arg @ int_body arg b repr (nat \<bar>val\<bar>)) \<le> kBufferSize \<and>
    spelt b repr (spell b repr (nat \<bar>val\<bar>)) = nat \<bar>val\<bar>"
  using int_text_spelt [OF assms] spelt_spell [of b repr "nat \<bar>val\<bar>"] radix_of_cases [OF assms(1)] by simp

theorem integer_text_witness:
  "int_text ((blank_arg (True, 0))\<lparr>fa_presentation := CHR ''x''\<rparr>) type_int (- 255) =
     Inr (length (sign_chars ((blank_arg (True, 0))\<lparr>fa_presentation := CHR ''x''\<rparr>) (- 255) @ base_chars ((blank_arg (True, 0))\<lparr>fa_presentation := CHR ''x''\<rparr>)),
       sign_chars ((blank_arg (True, 0))\<lparr>fa_presentation := CHR ''x''\<rparr>) (- 255) @ base_chars ((blank_arg (True, 0))\<lparr>fa_presentation := CHR ''x''\<rparr>) @
       int_body ((blank_arg (True, 0))\<lparr>fa_presentation := CHR ''x''\<rparr>) 16 lower_repr_hex 255)"
  using integer_text [of "(blank_arg (True, 0))\<lparr>fa_presentation := CHR ''x''\<rparr>" 16 lower_repr_hex type_int "- 255"]
  by (simp add: radix_of_def blank_arg_def kDefaultPresentation_def holds_type_def type_int_def)

end
