(* ===== verification/Fmt_Formatter.thy ===== *)
theory Fmt_Formatter
  imports Fmt_Value
begin

text \<open>
  The formatting library, third part: the format string. \<open>Formatter\<close> walks over the C string,
  passes the text between the replacement fields to an output function that undoubles closing
  braces, and formats a value for each field. \<open>uninit\<close> gives, for each \<open>FormatArg\<close> the loop makes, what
  its uninitialised members hold; the length of the string from there on tells them apart.
\<close>

text \<open>
  The output function inside \<open>operator()\<close>. It looks at the character behind a closing brace, which may
  be behind the slice, and then moves on by two.
\<close>

function brace_loop :: "string \<Rightarrow> string \<Rightarrow> string result" where
  "brace_loop s behind =
     (case strnchr s (CHR ''}'') of None \<Rightarrow> Inr s
      | Some p \<Rightarrow> (case drop (p + 1) (s @ behind) of [] \<Rightarrow> Inl MemoryFault
          | c # r \<Rightarrow> if c \<noteq> CHR ''}'' then Inl (BadFormat (''single `}'' @ [CHR 0x27]))
              else if p + 2 \<le> length s then rbind (brace_loop (drop (p + 2) s) behind) (\<lambda>t. Inr (take (p + 1) s @ t))
              else Inl MemoryFault))"
  by auto

termination brace_loop
  by (relation "measure (\<lambda>(s, b). length s)") auto

declare brace_loop.simps [simp del]

definition brace_output :: foutput where
  "brace_output s = brace_loop (fs_text s) (fs_behind s)"

text \<open>Which value a field is for: the index and the argument with its key set, and the two flags.\<close>

record fmt_state =
  has_implicit_index :: bool
  has_explicit_index :: bool
  arg_index :: nat

definition resolve_index :: "bool \<Rightarrow> fmt_state \<Rightarrow> farg \<Rightarrow> (nat \<times> farg \<times> fmt_state) result" where
  "resolve_index container_mode st arg =
     rbind (SplitKey arg) (\<lambda>(piece, arg1).
       let auto_st = st\<lparr>arg_index := (arg_index st + 1) mod 2 ^ 32, has_implicit_index := True\<rparr>;
           key_st = st\<lparr>has_explicit_index := True\<rparr>
       in rbind (if container_mode
           then if piece = [] then Inr (0, SetNextIntKey arg1 (arg_index st), auto_st)
             else rbind (SetNextKey arg1 piece) (\<lambda>arg2. Inr (0, arg2, key_st))
           else if piece = [] then Inr (arg_index st, arg1, auto_st)
             else rbind (stoul piece) (\<lambda>(index, e).
               if e \<noteq> length piece then Inl (BadFormat ''Index must be integer'') else Inr (index mod 2 ^ 32, arg1, key_st)))
         (\<lambda>(index, arg2, st1).
           if has_explicit_index st1 \<and> has_implicit_index st1
           then Inl (BadFormat ''Found both explicit and implicit index'') else Inr (index, arg2, st1)))"

definition DoFormatFrom :: "(string \<Rightarrow> 'd \<Rightarrow> string) \<Rightarrow> 'd fvalue list \<Rightarrow> nat \<Rightarrow> farg \<Rightarrow> foutput \<Rightarrow> string result" where
  "DoFormatFrom print vals index arg out =
     (case at_index vals index of None \<Rightarrow> Inl (BadFormat ''Argument index out of range'')
      | Some v \<Rightarrow> FormatValue print out arg v)"

definition format_field :: "(nat \<Rightarrow> bool \<times> nat) \<Rightarrow> (string \<Rightarrow> 'd \<Rightarrow> string) \<Rightarrow> bool \<Rightarrow> 'd fvalue list \<Rightarrow> foutput \<Rightarrow> nat \<Rightarrow>
    fmt_state \<Rightarrow> string \<Rightarrow> (string \<times> fmt_state) result" where
  "format_field uninit print container_mode vals out left st a =
     rbind (FormatArg (uninit left) a) (\<lambda>arg. rbind (resolve_index container_mode st arg) (\<lambda>(index, arg1, st1).
       rbind (DoFormatFrom print vals index arg1 out) (\<lambda>t. Inr (t, st1))))"

text \<open>The loop of \<open>operator()\<close> over the rest of the string, which a zero byte follows.\<close>

function fmt_loop :: "(nat \<Rightarrow> bool \<times> nat) \<Rightarrow> (string \<Rightarrow> 'd \<Rightarrow> string) \<Rightarrow> bool \<Rightarrow> 'd fvalue list \<Rightarrow> fmt_state \<Rightarrow> string \<Rightarrow> string result" where
  "fmt_loop uninit print container_mode vals st s =
     (if s = [] then Inr []
      else case strnchr s (CHR ''{'') of None \<Rightarrow> brace_output (Slice_cstr s)
      | Some p \<Rightarrow>
          rbind (brace_output \<lparr>fs_text = take p s, fs_behind = drop p s @ [CHR 0x00]\<rparr>) (\<lambda>t1.
            let q = drop (p + 1) s in
            if q \<noteq> [] \<and> hd q = CHR ''{''
            then rbind (brace_output \<lparr>fs_text = [CHR ''{''], fs_behind = q @ [CHR 0x00]\<rparr>) (\<lambda>t2.
              rbind (fmt_loop uninit print container_mode vals st (tl q)) (\<lambda>t3. Inr (t1 @ t2 @ t3)))
            else case strnchr q (CHR ''}'') of None \<Rightarrow> Inl (BadFormat (''unmatched `}'' @ [CHR 0x27]))
              | Some e \<Rightarrow>
                  rbind (format_field uninit print container_mode vals brace_output (length q) st (take e q)) (\<lambda>(t2, st1).
                    rbind (fmt_loop uninit print container_mode vals st1 (drop (e + 1) q)) (\<lambda>t3. Inr (t1 @ t2 @ t3)))))"
  by auto

termination fmt_loop
  by (relation "measure (\<lambda>(u, pr, m, vs, st, s). length s)") auto

declare fmt_loop.simps [simp del]

definition Formatter_str :: "(nat \<Rightarrow> bool \<times> nat) \<Rightarrow> (string \<Rightarrow> 'd \<Rightarrow> string) \<Rightarrow> bool \<Rightarrow> string \<Rightarrow> 'd fvalue list \<Rightarrow> string result" where
  "Formatter_str uninit print container_mode str vals =
     fmt_loop uninit print container_mode vals \<lparr>has_implicit_index = False, has_explicit_index = False, arg_index = 0\<rparr> str"

definition AppendTo :: "(nat \<Rightarrow> bool \<times> nat) \<Rightarrow> (string \<Rightarrow> 'd \<Rightarrow> string) \<Rightarrow> bool \<Rightarrow> string \<Rightarrow> 'd fvalue list \<Rightarrow> string \<Rightarrow> string result" where
  "AppendTo uninit print container_mode str vals to =
     rbind (Formatter_str uninit print container_mode str vals) (\<lambda>s. Inr (to @ s))"

definition sFormat :: "(nat \<Rightarrow> bool \<times> nat) \<Rightarrow> (string \<Rightarrow> 'd \<Rightarrow> string) \<Rightarrow> string \<Rightarrow> 'd fvalue list \<Rightarrow> string result" where
  "sFormat uninit print fmt vals = Formatter_str uninit print False fmt vals"

definition svFormat :: "(nat \<Rightarrow> bool \<times> nat) \<Rightarrow> (string \<Rightarrow> 'd \<Rightarrow> string) \<Rightarrow> string \<Rightarrow> 'd fvalue \<Rightarrow> string result" where
  "svFormat uninit print fmt c = Formatter_str uninit print True fmt [c]"

end
