(* ===== verification/Fmt_Padding.thy ===== *)
theory Fmt_Padding
  imports Fmt_Formatter
begin

text \<open>
  The formatting library: how texts and numbers are padded, shown for an output function that passes
  everything on, and that the output function of \<open>Formatter\<close> gives the same for what has no closing
  brace.
\<close>

section \<open>Padding\<close>

text \<open>An output function that passes everything on.\<close>

definition plain :: foutput where
  "plain s = Inr (fs_text s)"

definition fill_char :: "farg \<Rightarrow> char" where
  "fill_char arg = (if fa_fill arg = kDefaultFill then CHR '' '' else fa_fill arg)"

text \<open>How many fill characters a width asks for before and after a text.\<close>

fun pad_sizes :: "align \<Rightarrow> nat \<Rightarrow> nat \<times> nat" where
  "pad_sizes ARight n = (n, 0)"
| "pad_sizes APadAfterSign n = (n, 0)"
| "pad_sizes ACenter n = (n div 2, n - n div 2)"
| "pad_sizes _ n = (0, n)"

definition padded :: "farg \<Rightarrow> string \<Rightarrow> string" where
  "padded arg s = (let (l, r) = pad_sizes (fa_align arg) (nat (fa_width arg - int (length s)))
     in replicate (min l 128) (fill_char arg) @ s @ replicate (min r 128) (fill_char arg))"

lemma both_Inr [simp]: "both (Inr s) (Inr t) = Inr (s @ t)"
  by (simp add: both_def)

lemma fmt_pad_plain: "fmt_pad plain c (max 0 n) = Inr (replicate (min (nat n) 128) c)"
proof -
  have "nat (min (max 0 n) 128) = min (nat n) 128" by (cases "0 \<le> n") auto
  then show ?thesis by (simp add: fmt_pad_def plain_def kMaxPaddingSize_def)
qed

lemma half_int: "max 0 (sgn n * (\<bar>n\<bar> div 2)) = max 0 (n div 2)" "max 0 (n - sgn n * (\<bar>n\<bar> div 2)) = max 0 (n - n div 2)" "nat (n div 2) = nat n div 2"
  "nat (n - n div 2) = nat n - nat n div 2" for n :: int
  by (cases "0 \<le> n"; simp add: sgn_if nat_div_distrib nat_diff_distrib pos_imp_zdiv_neg_iff)+

lemma FormatString_plain:
  assumes "fa_align arg \<noteq> AInvalid" "length (fs_text s) < 2 ^ 31"
  shows "FormatString plain arg s = Inr (padded arg (fs_text s))"
proof -
  have "to_int32 (int (slice_size s)) = int (length (fs_text s))" using assms(2) by (simp add: slice_size_def)
  then show ?thesis using assms(1) half_int
    by (cases "fa_align arg") (simp_all add: FormatString_def padded_def fill_char_def Let_def fmt_pad_plain plain_def half_int)
qed

definition padded_number :: "farg \<Rightarrow> nat \<Rightarrow> string \<Rightarrow> string" where
  "padded_number arg n s =
     (if fa_align arg = ADefault then padded (arg\<lparr>fa_align := ARight\<rparr>) s
      else if n \<noteq> 0 \<and> fa_align arg = APadAfterSign then take n s @ padded (arg\<lparr>fa_width := max (fa_width arg - int n) 0\<rparr>) (drop n s)
      else padded arg s)"

lemma FormatNumber_plain:
  assumes "fa_align arg \<noteq> AInvalid" "length (fs_text s) < 2 ^ 31" "n \<le> length (fs_text s)"
  shows "FormatNumber plain arg n s = Inr (padded_number arg n (fs_text s))"
  using assms FormatString_plain [of "arg\<lparr>fa_align := ARight\<rparr>" s] FormatString_plain [of arg s]
    FormatString_plain [of "arg\<lparr>fa_width := max (fa_width arg - int n) 0\<rparr>" "s\<lparr>fs_text := drop n (fs_text s)\<rparr>"]
  by (simp add: FormatNumber_def padded_number_def subslice_def slice_advance_def slice_size_def plain_def)

lemma padded_length: "fa_width arg \<le> int (length s) + 128 \<Longrightarrow> int (length (padded arg s)) = max (int (length s)) (fa_width arg)"
  by (cases "fa_align arg") (auto simp: padded_def min_def)

lemma padded_split: "\<exists>l r. padded arg s = replicate l (fill_char arg) @ s @ replicate r (fill_char arg)"
  by (auto simp: padded_def split: prod.split)

lemma padded_fill [simp]: "fill_char (arg\<lparr>fa_align := a\<rparr>) = fill_char arg" "fill_char (arg\<lparr>fa_width := w\<rparr>) = fill_char arg"
  by (simp_all add: fill_char_def)

lemma padded_number_split: "\<exists>k l r. k \<le> n \<and> padded_number arg n s = take k s @ replicate l (fill_char arg) @ drop k s @ replicate r (fill_char arg)"
proof (cases "n \<noteq> 0 \<and> fa_align arg = APadAfterSign")
  case True
  then show ?thesis using padded_split [of "arg\<lparr>fa_width := max (fa_width arg - int n) 0\<rparr>" "drop n s"]
    by (auto simp: padded_number_def)
next
  case False
  then have "padded_number arg n s = padded (if fa_align arg = ADefault then arg\<lparr>fa_align := ARight\<rparr> else arg) s" by (auto simp: padded_number_def)
  then obtain l r where "padded_number arg n s = replicate l (fill_char arg) @ s @ replicate r (fill_char arg)"
    using padded_split [of arg s] padded_split [of "arg\<lparr>fa_align := ARight\<rparr>" s] by (auto split: if_splits)
  then show ?thesis by (intro exI [of _ 0] exI [of _ l] exI [of _ r]) simp
qed

text \<open>
  Padding: a text or the text of a number is written with at most 128 fill characters on a side,
  so as long as no more are needed the output is exactly as wide as the width asks, or as the text
  if that is wider. The fill characters stand before and after the text, or between the sign and
  base prefix of a number and its digits.
\<close>

theorem padding_to_width:
  assumes "fa_align arg \<noteq> AInvalid" "length (fs_text s) < 2 ^ 31" "n \<le> length (fs_text s)" "fa_width arg \<le> int (length (fs_text s)) + 128"
  shows "(\<exists>l r. FormatString plain arg s = Inr (replicate l (fill_char arg) @ fs_text s @ replicate r (fill_char arg)) \<and>
      int (l + length (fs_text s) + r) = max (int (length (fs_text s))) (fa_width arg)) \<and>
    (\<exists>k l r. k \<le> n \<and>
      FormatNumber plain arg n s = Inr (take k (fs_text s) @ replicate l (fill_char arg) @ drop k (fs_text s) @ replicate r (fill_char arg)) \<and>
      int (l + length (fs_text s) + r) = max (int (length (fs_text s))) (fa_width arg))"
proof (intro conjI)
  obtain l r where lr: "padded arg (fs_text s) = replicate l (fill_char arg) @ fs_text s @ replicate r (fill_char arg)" using padded_split by blast
  then have "int (l + length (fs_text s) + r) = max (int (length (fs_text s))) (fa_width arg)"
    using padded_length [OF assms(4)] by simp
  then show "\<exists>l r. FormatString plain arg s = Inr (replicate l (fill_char arg) @ fs_text s @ replicate r (fill_char arg)) \<and>
      int (l + length (fs_text s) + r) = max (int (length (fs_text s))) (fa_width arg)"
    using FormatString_plain [OF assms(1,2)] lr by auto
  obtain k l' r' where n: "k \<le> n"
    "padded_number arg n (fs_text s) = take k (fs_text s) @ replicate l' (fill_char arg) @ drop k (fs_text s) @ replicate r' (fill_char arg)"
    using padded_number_split by blast
  have mx: "int n + max (int (length (fs_text s)) - int n) (max (fa_width arg - int n) 0) = max (int (length (fs_text s))) (fa_width arg)"
    using assms(3) by (simp add: max_def)
  have "int (length (padded_number arg n (fs_text s))) = max (int (length (fs_text s))) (fa_width arg)"
    using assms(3,4) padded_length [of "arg\<lparr>fa_width := max (fa_width arg - int n) 0\<rparr>" "drop n (fs_text s)"]
      padded_length [of "arg\<lparr>fa_align := ARight\<rparr>" "fs_text s"] padded_length [OF assms(4)]
    by (simp add: padded_number_def mx)
  then have "int (l' + length (fs_text s) + r') = max (int (length (fs_text s))) (fa_width arg)"
    using n(1) assms(3) by (simp add: n(2))
  then show "\<exists>k l r. k \<le> n \<and>
      FormatNumber plain arg n s = Inr (take k (fs_text s) @ replicate l (fill_char arg) @ drop k (fs_text s) @ replicate r (fill_char arg)) \<and>
      int (l + length (fs_text s) + r) = max (int (length (fs_text s))) (fa_width arg)"
    using FormatNumber_plain [OF assms(1,2,3)] n by (intro exI [of _ k] exI [of _ l'] exI [of _ r']) simp
qed

theorem padding_to_width_witness:
  "(\<exists>l r. FormatString plain ((blank_arg (False, 0))\<lparr>fa_width := 10\<rparr>) (Slice_cstr ''hello'') =
      Inr (replicate l (fill_char ((blank_arg (False, 0))\<lparr>fa_width := 10\<rparr>)) @ ''hello'' @ replicate r (fill_char ((blank_arg (False, 0))\<lparr>fa_width := 10\<rparr>))) \<and>
      int (l + 5 + r) = 10)"
  using padding_to_width [of "(blank_arg (False, 0))\<lparr>fa_width := 10\<rparr>" "Slice_cstr ''hello''" 0]
  by (simp add: blank_arg_def Slice_cstr_def)

text \<open>
  Padding is cut: a text that needs more than 128 fill characters on its side gets 128 of them,
  and the output is narrower than the width.
\<close>

theorem padding_cut_at_128:
  assumes "fa_align arg \<in> {ADefault, ALeft, ARight}" "length (fs_text s) < 2 ^ 31" "int (length (fs_text s)) + 128 < fa_width arg"
  shows "\<exists>t. FormatString plain arg s = Inr t \<and> length t = length (fs_text s) + 128 \<and> int (length t) < fa_width arg"
proof -
  have "fa_align arg \<noteq> AInvalid" using assms(1) by auto
  from FormatString_plain [OF this assms(2)] assms(1,3) show ?thesis
    by (auto simp: padded_def min_def)
qed

theorem padding_cut_at_128_witness:
  "\<exists>t. FormatString plain ((blank_arg (False, 0))\<lparr>fa_width := 200\<rparr>) (Slice_cstr ''hello'') = Inr t \<and> length t = 133 \<and> int (length t) < 200"
  using padding_cut_at_128 [of "(blank_arg (False, 0))\<lparr>fa_width := 200\<rparr>" "Slice_cstr ''hello''"]
  by (simp add: blank_arg_def Slice_cstr_def)

section \<open>Output functions\<close>

text \<open>The output function of \<open>Formatter\<close> passes on what has no closing brace.\<close>

definition passes :: "foutput \<Rightarrow> bool" where
  "passes out \<longleftrightarrow> (\<forall>s. CHR ''}'' \<notin> set (fs_text s) \<longrightarrow> out s = Inr (fs_text s))"

lemma brace_output_passes: "passes brace_output"
  by (simp add: passes_def brace_output_def brace_loop.simps strnchr_def)

lemma both_eq_Inr: "both a b = Inr t \<longleftrightarrow> (\<exists>u v. a = Inr u \<and> b = Inr v \<and> t = u @ v)"
  by (auto simp: both_def rbind_eq_Inr)

lemma pass_pad: "passes out \<Longrightarrow> fmt_pad plain c n = Inr t \<Longrightarrow> CHR ''}'' \<notin> set t \<Longrightarrow> fmt_pad out c n = Inr t"
  by (auto simp: fmt_pad_def plain_def passes_def require_eq_Inr)

lemma pass_text: "passes out \<Longrightarrow> plain s = Inr t \<Longrightarrow> CHR ''}'' \<notin> set t \<Longrightarrow> out s = Inr t"
  by (auto simp: plain_def passes_def)

lemma pass_both:
  assumes "both a b = Inr t" "CHR ''}'' \<notin> set t" "\<And>u. a = Inr u \<Longrightarrow> CHR ''}'' \<notin> set u \<Longrightarrow> a' = Inr u"
    "\<And>u. b = Inr u \<Longrightarrow> CHR ''}'' \<notin> set u \<Longrightarrow> b' = Inr u"
  shows "both a' b' = Inr t"
  using assms by (auto simp: both_eq_Inr)

lemma pass_FormatString:
  assumes "passes out" "FormatString plain arg s = Inr t" "CHR ''}'' \<notin> set t"
  shows "FormatString out arg s = Inr t"
  using assms(2,3) unfolding FormatString_def Let_def
  by (cases "fa_align arg") (auto elim!: pass_both intro: pass_pad [OF assms(1)] pass_text [OF assms(1)])

lemma pass_FormatNumber:
  assumes "passes out" "FormatNumber plain arg n s = Inr t" "CHR ''}'' \<notin> set t"
  shows "FormatNumber out arg n s = Inr t"
  using assms pass_FormatString [OF assms(1)] unfolding FormatNumber_def subslice_def slice_advance_def
  by (auto simp: require_eq_Inr split: if_splits elim!: pass_both intro: pass_text)

lemma pass_Format_int:
  "passes out \<Longrightarrow> Format_int plain arg T val = Inr t \<Longrightarrow> CHR ''}'' \<notin> set t \<Longrightarrow> Format_int out arg T val = Inr t"
  by (auto simp: Format_int_def rbind_eq_Inr intro: pass_FormatNumber)

lemma pass_FormatValue:
  "passes out \<Longrightarrow> FormatValue print plain arg v = Inr t \<Longrightarrow> CHR ''}'' \<notin> set t \<Longrightarrow> FormatValue print out arg v = Inr t"
  by (induction print out arg v rule: FormatValue.induct)
    (auto simp: Format_double_def rbind_eq_Inr split: if_splits option.splits intro: pass_FormatString pass_FormatNumber pass_Format_int pass_text)

end
