(* ===== verification/Fmt_Template.thy ===== *)
theory Fmt_Template
  imports Fmt_Number Fmt_Padding
begin

text \<open>
  The formatting library: what a whole format string gives. A format string is seen as texts, whose
  braces are doubled, with replacement fields between them.
\<close>

section \<open>Format strings\<close>

text \<open>A text as it stands in a format string, and a format string: texts with a field after each, and a last text.\<close>

definition doubled :: "string \<Rightarrow> string" where
  "doubled s = concat (map (\<lambda>c. if c = CHR ''{'' \<or> c = CHR ''}'' then [c, c] else [c]) s)"

fun template_text :: "(string \<times> string) list \<Rightarrow> string \<Rightarrow> string" where
  "template_text [] z = doubled z"
| "template_text ((a, h) # fs) z = doubled a @ CHR ''{'' # h @ CHR ''}'' # template_text fs z"

fun weave :: "(string \<times> string) list \<Rightarrow> string list \<Rightarrow> string \<Rightarrow> string" where
  "weave ((a, h) # fs) (t # ts) z = a @ t @ weave fs ts z"
| "weave fs ts z = z"

text \<open>What may stand between the braces: no closing brace, and no opening brace at its start.\<close>

definition field_ok :: "string \<Rightarrow> bool" where
  "field_ok h \<longleftrightarrow> CHR ''}'' \<notin> set h \<and> \<not> (h \<noteq> [] \<and> hd h = CHR ''{'')"

text \<open>The texts of the fields, one after the other, without regard to braces.\<close>

fun field_texts :: "(nat \<Rightarrow> bool \<times> nat) \<Rightarrow> (string \<Rightarrow> 'd \<Rightarrow> string) \<Rightarrow> bool \<Rightarrow> 'd fvalue list \<Rightarrow> fmt_state \<Rightarrow> (string \<times> string) list \<Rightarrow> string \<Rightarrow>
    string list result" where
  "field_texts uninit print cm vals st [] z = Inr []"
| "field_texts uninit print cm vals st ((a, h) # fs) z =
     rbind (format_field uninit print cm vals plain (length (h @ CHR ''}'' # template_text fs z)) st h) (\<lambda>(t, st1).
       rbind (field_texts uninit print cm vals st1 fs z) (\<lambda>ts. Inr (t # ts)))"

lemma doubled_simps [simp]: "doubled [] = []" "doubled (a @ b) = doubled a @ doubled b"
  "doubled (c # s) = (if c = CHR ''{'' \<or> c = CHR ''}'' then [c, c] else [c]) @ doubled s"
  by (simp_all add: doubled_def)

lemma doubled_Nil [simp]: "doubled s = [] \<longleftrightarrow> s = []"
  by (cases s) auto

lemma doubled_id: "CHR ''{'' \<notin> set s \<Longrightarrow> CHR ''}'' \<notin> set s \<Longrightarrow> doubled s = s"
  by (induction s) auto

lemma doubled_open: "CHR ''{'' \<in> set (doubled s) \<longleftrightarrow> CHR ''{'' \<in> set s"
  by (induction s) auto

lemma strnchr_split: "c \<notin> set a \<Longrightarrow> strnchr (a @ c # b) c = Some (length a)"
  by (induction a) (auto simp: strnchr_def)

lemma strnchr_none: "c \<notin> set s \<Longrightarrow> strnchr s c = None"
  by (simp add: strnchr_def)

lemma brace_loop_doubled: "CHR ''{'' \<notin> set s \<Longrightarrow> brace_loop (doubled s) behind = Inr s"
proof (induction s rule: length_induct)
  case (1 s)
  show ?case
  proof (cases "CHR ''}'' \<in> set s")
    case False
    then show ?thesis using 1(2) by (simp add: doubled_id brace_loop.simps strnchr_none)
  next
    case True
    then obtain a b where s: "s = a @ CHR ''}'' # b" "CHR ''}'' \<notin> set a" by (meson split_list_first)
    then have a: "doubled a = a" using 1(2) by (simp add: doubled_id)
    have "brace_loop (doubled b) behind = Inr b" using 1 s(1) by auto
    then show ?thesis using s a by (subst brace_loop.simps) (simp add: strnchr_split [of _ a])
  qed
qed

lemma brace_output_doubled: "CHR ''{'' \<notin> set s \<Longrightarrow> brace_output \<lparr>fs_text = doubled s, fs_behind = b\<rparr> = Inr s"
  by (simp add: brace_output_def brace_loop_doubled)

lemma brace_output_empty [simp]: "brace_output \<lparr>fs_text = [], fs_behind = b\<rparr> = Inr []"
  using brace_output_doubled [of "[]"] by simp

lemma brace_output_open [simp]: "brace_output \<lparr>fs_text = [CHR ''{''], fs_behind = b\<rparr> = Inr ''{''"
  using brace_output_passes by (simp add: passes_def)

text \<open>The loop over a text in front of the end or of a field.\<close>

definition field_or_end :: "string \<Rightarrow> bool" where
  "field_or_end r \<longleftrightarrow> r = [] \<or> (\<exists>q. r = CHR ''{'' # q \<and> \<not> (q \<noteq> [] \<and> hd q = CHR ''{''))"

lemma fmt_loop_text:
  assumes "field_or_end r"
  shows "fmt_loop u pr cm vals st (doubled s @ r) = rbind (fmt_loop u pr cm vals st r) (\<lambda>t. Inr (s @ t))"
proof (induction s rule: length_induct)
  case (1 s)
  show ?case
  proof (cases "CHR ''{'' \<in> set s")
    case True
    then obtain a b where s: "s = a @ CHR ''{'' # b" "CHR ''{'' \<notin> set a" by (meson split_list_first)
    then have a: "CHR ''{'' \<notin> set (doubled a)" by (simp add: doubled_open)
    have "fmt_loop u pr cm vals st (doubled b @ r) = rbind (fmt_loop u pr cm vals st r) (\<lambda>t. Inr (b @ t))" using 1 s(1) by simp
    then show ?thesis using s a brace_output_doubled [OF s(2)]
      by (subst fmt_loop.simps) (simp add: strnchr_split [of _ "doubled a"] rbind_assoc Let_def)
  next
    case False
    then have d: "CHR ''{'' \<notin> set (doubled s)" by (simp add: doubled_open)
    from assms consider "r = []" | q where "r = CHR ''{'' # q" "\<not> (q \<noteq> [] \<and> hd q = CHR ''{'')" by (auto simp: field_or_end_def)
    then show ?thesis
    proof cases
      case 1
      then show ?thesis using d brace_output_doubled [OF False] by (simp add: fmt_loop.simps strnchr_none Slice_cstr_def)
    next
      case 2
      then show ?thesis using d brace_output_doubled [OF False]
        by (subst (1 2) fmt_loop.simps) (auto simp: strnchr_split [of _ "doubled s"] strnchr_split [of _ "[]", simplified] Let_def rbind_def
          split: option.split sum.split)
    qed
  qed
qed

lemma fmt_loop_field:
  assumes "field_ok h"
  shows "fmt_loop u pr cm vals st (CHR ''{'' # h @ CHR ''}'' # r) =
    rbind (format_field u pr cm vals brace_output (length (h @ CHR ''}'' # r)) st h) (\<lambda>(t, st1).
      rbind (fmt_loop u pr cm vals st1 r) (\<lambda>t3. Inr (t @ t3)))"
  using assms strnchr_split [of "CHR ''}''" h r] strnchr_split [of "CHR ''{''" "[]" "h @ CHR ''}'' # r"]
  by (subst fmt_loop.simps) (cases h; simp add: field_ok_def Let_def)

lemma pass_format_field:
  assumes "passes out" "format_field u pr cm vals plain n st h = Inr (t, st1)" "CHR ''}'' \<notin> set t"
  shows "format_field u pr cm vals out n st h = Inr (t, st1)"
proof -
  obtain arg index arg1 v where f: "FormatArg (u n) h = Inr arg" "resolve_index cm st arg = Inr (index, arg1, st1)"
    "at_index vals index = Some v" "FormatValue pr plain arg1 v = Inr t"
    using assms(2) by (auto simp: format_field_def DoFormatFrom_def rbind_eq_Inr split: option.splits)
  with pass_FormatValue [OF assms(1) f(4) assms(3)] show ?thesis by (simp add: format_field_def DoFormatFrom_def)
qed

lemma template_or_end: "field_or_end (case fs of [] \<Rightarrow> [] | (a, h) # fs' \<Rightarrow> CHR ''{'' # h @ CHR ''}'' # template_text fs' z)"
  if "\<forall>f\<in>set fs. field_ok (snd f)"
  using that by (cases fs) (auto simp: field_or_end_def field_ok_def hd_append split: if_splits)

lemma fmt_loop_template:
  "\<forall>f\<in>set fs. field_ok (snd f) \<Longrightarrow> field_texts u pr cm vals st fs z = Inr ts \<Longrightarrow> \<forall>t\<in>set ts. CHR ''}'' \<notin> set t \<Longrightarrow>
   fmt_loop u pr cm vals st (template_text fs z) = Inr (weave fs ts z)"
proof (induction fs arbitrary: st ts)
  case Nil
  then show ?case using fmt_loop_text [of "[]" u pr cm vals st z] by (simp add: field_or_end_def fmt_loop.simps)
next
  case (Cons f fs)
  obtain a h where f: "f = (a, h)" by (cases f)
  obtain t st1 ts' where t: "format_field u pr cm vals plain (length (h @ CHR ''}'' # template_text fs z)) st h = Inr (t, st1)"
    "field_texts u pr cm vals st1 fs z = Inr ts'" "ts = t # ts'"
    using Cons.prems(2) by (auto simp: f rbind_eq_Inr)
  have "fmt_loop u pr cm vals st1 (template_text fs z) = Inr (weave fs ts' z)" using Cons t by simp
  then have "fmt_loop u pr cm vals st (CHR ''{'' # h @ CHR ''}'' # template_text fs z) = Inr (t @ weave fs ts' z)"
    using fmt_loop_field [of h u pr cm vals st "template_text fs z"] pass_format_field [OF brace_output_passes t(1)] Cons.prems(1,3) t(3) by (simp add: f)
  then show ?case using fmt_loop_text [OF template_or_end [OF Cons.prems(1)], of u pr cm vals st a z] t(3) by (simp add: f)
qed

text \<open>
  C17. Format strings: a format string made of texts, with their braces doubled, and replacement fields
  gives those texts with the texts of the fields in their places, for \<open>sFormat\<close> and \<open>svFormat\<close> alike, as
  long as no field's text has a closing brace.
\<close>

theorem format_template:
  assumes "\<forall>f\<in>set fs. field_ok (snd f)" "field_texts uninit print cm vals \<lparr>has_implicit_index = False, has_explicit_index = False, arg_index = 0\<rparr> fs z = Inr ts"
    "\<forall>t\<in>set ts. CHR ''}'' \<notin> set t"
  shows "Formatter_str uninit print cm (template_text fs z) vals = Inr (weave fs ts z)"
  using fmt_loop_template [OF assms] by (simp add: Formatter_str_def)

theorem format_template_witness:
  "Formatter_str (\<lambda>_. (False, 0)) (\<lambda>f (d :: nat). []) False (template_text [(''{'', []), (''} + '', '':>3'')] ''!'')
     [VStr (Slice_cstr ''a''), VBool True] = Inr (weave [(''{'', []), (''} + '', '':>3'')] [''a'', ''true''] ''!'')"
  by (rule format_template)
    (simp_all add: field_ok_def format_field_def FormatArg_def InitSlow_def strnchr_def take_format_def FormatAlign_def is_digit_def take_width_def
      lexical_cast_int_def digits_value_def resolve_index_def SplitKey_def blank_arg_def kDefaultFill_def kDefaultWidth_def kDefaultPrecision_def
      kDefaultPresentation_def DoFormatFrom_def at_index_def FormatString_plain padded_def fill_char_def Slice_cstr_def)

section \<open>Which value a field stands for\<close>

lemma digit_char: "i < 10 \<Longrightarrow> is_digit (char_of (48 + i :: nat)) \<and> of_char (char_of (48 + i :: nat)) - 48 = i"
  by (simp add: is_digit_def)

lemma nat_text_digits: "nat_text n \<noteq> [] \<and> (\<forall>c\<in>set (nat_text n). is_digit c) \<and> digits_value (nat_text n) = n"
proof (induction n rule: nat_text.induct)
  case (1 n)
  show ?case
  proof (cases "n < 10")
    case True
    then show ?thesis using digit_char [OF True] by (subst (1 2 3) nat_text.simps) (simp add: digits_value_def)
  next
    case False
    then show ?thesis using 1 digit_char [of "n mod 10"] by (subst (1 2 3) nat_text.simps) (auto simp: digits_value_def)
  qed
qed

lemma digit_not: "is_digit c \<Longrightarrow> c \<noteq> CHR '':'' \<and> c \<noteq> CHR ''.'' \<and> c \<noteq> CHR '']'' \<and> c \<noteq> CHR ''+'' \<and> c \<noteq> CHR ''-'' \<and> c \<noteq> CHR ''{'' \<and> c \<noteq> CHR ''}'' \<and> \<not> is_space c"
  by (auto simp: is_digit_def is_space_def)

lemma stoul_digits:
  assumes "ds \<noteq> []" "\<forall>c\<in>set ds. is_digit c" "digits_value ds < 2 ^ 64"
  shows "stoul ds = Inr (digits_value ds, length ds)"
proof -
  obtain d r where ds: "ds = d # r" using assms(1) by (cases ds) auto
  have "takeWhile is_space ds = []" "d \<noteq> CHR ''+''" "d \<noteq> CHR ''-''" using digit_not [of d] assms(2) by (auto simp: ds)
  moreover have "takeWhile is_digit ds = ds" using assms(2) by (simp add: takeWhile_eq_all_conv)
  ultimately show ?thesis using assms(3) unfolding stoul_def by (simp add: ds Let_def)
qed

lemma field_index:
  assumes "n < 2 ^ 64" "\<not> has_implicit_index st"
  shows "FormatArg g (nat_text n) = Inr ((blank_arg g)\<lparr>fa_key := nat_text n\<rparr>)"
    "resolve_index False st ((blank_arg g)\<lparr>fa_key := nat_text n\<rparr>) = Inr (n mod 2 ^ 32, blank_arg g, st\<lparr>has_explicit_index := True\<rparr>)"
proof -
  note d = nat_text_digits [of n]
  have not: "CHR '':'' \<notin> set (nat_text n)" "CHR ''.'' \<notin> set (nat_text n)" "last (nat_text n) \<noteq> CHR '']''"
    using d digit_not last_in_set [of "nat_text n"] by blast+
  then show "FormatArg g (nat_text n) = Inr ((blank_arg g)\<lparr>fa_key := nat_text n\<rparr>)"
    using d by (simp add: FormatArg_def InitSlow_def strnchr_none)
  have "SplitKey ((blank_arg g)\<lparr>fa_key := nat_text n\<rparr>) = Inr (nat_text n, blank_arg g)"
    using not d by (simp add: SplitKey_def strnchr_none blank_arg_def)
  then show "resolve_index False st ((blank_arg g)\<lparr>fa_key := nat_text n\<rparr>) = Inr (n mod 2 ^ 32, blank_arg g, st\<lparr>has_explicit_index := True\<rparr>)"
    using stoul_digits [of "nat_text n"] d assms by (simp add: resolve_index_def)
qed

lemma field_next:
  assumes "\<not> has_explicit_index st"
  shows "FormatArg g [] = Inr (blank_arg g)"
    "resolve_index False st (blank_arg g) = Inr (arg_index st, blank_arg g, st\<lparr>arg_index := (arg_index st + 1) mod 2 ^ 32, has_implicit_index := True\<rparr>)"
  using assms by (simp_all add: FormatArg_def resolve_index_def SplitKey_def blank_arg_def)

lemma nat_text_field_ok: "field_ok (nat_text n)" "field_ok []"
proof -
  have "CHR ''}'' \<notin> set (nat_text n)" "hd (nat_text n) \<noteq> CHR ''{''"
    using nat_text_digits [of n] digit_not hd_in_set [of "nat_text n"] by blast+
  then show "field_ok (nat_text n)" "field_ok []" by (simp_all add: field_ok_def)
qed

text \<open>
  An index wraps: the number in a field is read as a 64-bit number and stored in an \<open>unsigned\<close>, so
  every index that differs from \<open>i\<close> by a multiple of \<open>2 ^ 32\<close> gives what \<open>i\<close> gives instead of an error.
\<close>

theorem index_wraps:
  assumes "i < 2 ^ 32" "i + 2 ^ 32 * j < 2 ^ 64"
  shows "sFormat (\<lambda>_. g) print (template_text [(a, nat_text (i + 2 ^ 32 * j))] z) vals = sFormat (\<lambda>_. g) print (template_text [(a, nat_text i)] z) vals"
proof -
  let ?st = "\<lparr>has_implicit_index = False, has_explicit_index = False, arg_index = 0\<rparr>"
  have f: "format_field (\<lambda>_. g) print False vals brace_output n ?st (nat_text k) =
      rbind (DoFormatFrom print vals i (blank_arg g) brace_output) (\<lambda>t. Inr (t, ?st\<lparr>has_explicit_index := True\<rparr>))"
    if "k < 2 ^ 64" "k mod 2 ^ 32 = i" for n k
    using field_index [OF that(1), of ?st g] that(2) by (simp add: format_field_def)
  have "field_or_end (CHR ''{'' # nat_text k @ CHR ''}'' # doubled z)" for k
    using template_or_end [of "[(a, nat_text k)]" z] nat_text_field_ok(1) by simp
  then show ?thesis using f [of i] f [of "i + 2 ^ 32 * j"] assms by (simp add: sFormat_def Formatter_str_def fmt_loop_text fmt_loop_field [OF nat_text_field_ok(1)])
qed

theorem index_wraps_witness:
  "sFormat (\<lambda>_. (False, 0)) (\<lambda>f (d :: nat). []) (template_text [([], nat_text 4294967297)] []) [VNull, VBool True] =
   sFormat (\<lambda>_. (False, 0)) (\<lambda>f (d :: nat). []) (template_text [([], nat_text 1)] []) [VNull, VBool True]"
  using index_wraps [of 1 1 "(False, 0)" "\<lambda>f (d :: nat). []" "[]" "[]" "[VNull, VBool True]"] by simp

section \<open>Values with braces\<close>

lemma sFormat_next: "sFormat u pr ''{}'' (v # vs) = FormatValue pr brace_output (blank_arg (u 1)) v"
proof -
  let ?st = "\<lparr>has_implicit_index = False, has_explicit_index = False, arg_index = 0\<rparr>"
  have "fmt_loop u pr False (v # vs) st [] = Inr []" for st by (simp add: fmt_loop.simps)
  then show ?thesis using fmt_loop_field [OF nat_text_field_ok(2), of u pr False "v # vs" ?st "[]"] field_next [of ?st "u 1"]
    by (cases "FormatValue pr brace_output (blank_arg (u 1)) v")
      (simp_all add: sFormat_def Formatter_str_def format_field_def DoFormatFrom_def at_index_def)
qed

lemma FormatValue_blank_str: "FormatValue pr out (blank_arg g) (VStr s) = both (out s) (fmt_pad out (CHR '' '') (max 0 (- 1 - to_int32 (int (slice_size s)))))"
  by (simp add: blank_arg_def FormatString_def kDefaultFill_def kDefaultWidth_def kDefaultPrecision_def Let_def)

text \<open>
  The output function that undoubles the closing braces of a format string is given to the values
  too: printing a string with a single closing brace throws, and one whose braces are doubled comes
  out with each pair as a single brace.
\<close>

theorem value_with_brace:
  assumes "CHR ''}'' \<notin> set a" "\<not> (b \<noteq> [] \<and> hd b = CHR ''}'')" "CHR ''{'' \<notin> set s" "length (doubled s) < 2 ^ 31"
  shows "sFormat u pr ''{}'' (VStr (Slice_cstr (a @ CHR ''}'' # b)) # vs) = Inl (BadFormat (''single `}'' @ [CHR 0x27])) \<and>
    sFormat u pr ''{}'' (VStr (Slice_cstr (doubled s)) # vs) = Inr s"
proof
  have "brace_output (Slice_cstr (a @ CHR ''}'' # b)) = Inl (BadFormat (''single `}'' @ [CHR 0x27]))"
    using assms(2) strnchr_split [OF assms(1), of b]
    unfolding brace_output_def Slice_cstr_def by (subst brace_loop.simps) (cases b; simp)
  then show "sFormat u pr ''{}'' (VStr (Slice_cstr (a @ CHR ''}'' # b)) # vs) = Inl (BadFormat (''single `}'' @ [CHR 0x27]))"
    by (simp add: sFormat_next FormatValue_blank_str both_def del: FormatValue.simps)
  have "fmt_pad brace_output c 0 = Inr []" for c by (simp add: fmt_pad_def kMaxPaddingSize_def)
  moreover have "max 0 (- 1 - to_int32 (int (slice_size (Slice_cstr (doubled s))))) = 0" using assms(4) by (simp add: slice_size_def Slice_cstr_def)
  ultimately show "sFormat u pr ''{}'' (VStr (Slice_cstr (doubled s)) # vs) = Inr s"
    using brace_output_doubled [OF assms(3), of "[CHR 0x00]"] by (simp add: sFormat_next FormatValue_blank_str Slice_cstr_def del: FormatValue.simps)
qed

theorem value_with_brace_witness:
  "sFormat (\<lambda>_. (False, 0)) (\<lambda>f (d :: nat). []) ''{}'' (VStr (Slice_cstr (''a'' @ CHR ''}'' # ''b'')) # []) = Inl (BadFormat (''single `}'' @ [CHR 0x27])) \<and>
   sFormat (\<lambda>_. (False, 0)) (\<lambda>f (d :: nat). []) ''{}'' (VStr (Slice_cstr (doubled ''x}'')) # []) = Inr ''x}''"
  by (rule value_with_brace) simp_all

section \<open>Arguments by position\<close>

text \<open>What \<open>{}\<close> prints for a string, an integer, a truth value and a null pointer.\<close>

fun default_text :: "'d fvalue \<Rightarrow> string option" where
  "default_text (VStr s) = (if length (fs_text s) < 2 ^ 31 then Some (fs_text s) else None)"
| "default_text (VInt T val) = (if holds_type T val \<and> \<not> (32 \<le> it_bits T \<and> val = - (2 ^ (it_bits T - 1)))
     then Some ((if val < 0 then ''-'' else []) @ spell 10 decimals (nat \<bar>val\<bar>)) else None)"
| "default_text (VBool b) = Some (if b then ''true'' else ''false'')"
| "default_text VNull = Some ''(null)''"
| "default_text _ = None"

lemma padded_blank: "padded (blank_arg g) s = s" "padded ((blank_arg g)\<lparr>fa_align := ARight\<rparr>) s = s"
  by (simp_all add: padded_def blank_arg_def kDefaultWidth_def)

lemma blank_align: "fa_align (blank_arg g) = ADefault" "fa_precision (blank_arg g) = kDefaultPrecision" "fa_presentation (blank_arg g) = kDefaultPresentation"
  "fa_sign (blank_arg g) = SDefault" "\<not> fa_thousands_separator (blank_arg g)"
  by (simp_all add: blank_arg_def)

lemma FormatValue_default:
  assumes "default_text v = Some t"
  shows "FormatValue pr plain (blank_arg g) v = Inr t"
proof (cases v)
  case (VInt T val)
  let ?arg = "blank_arg g"
  have T: "holds_type T val" "\<not> (32 \<le> it_bits T \<and> val = - (2 ^ (it_bits T - 1)))" "t = (if val < 0 then ''-'' else []) @ spell 10 decimals (nat \<bar>val\<bar>)"
    using assms by (simp_all add: VInt split: if_splits)
  have r: "radix_of (fa_presentation ?arg) = Some (10, decimals)" by (simp add: radix_of_def blank_align)
  have c: "sign_chars ?arg val = (if val < 0 then ''-'' else [])" "base_chars ?arg = []" "int_body ?arg 10 decimals n = spell 10 decimals n" for n
    by (simp_all add: sign_chars_def base_chars_def int_body_def blank_align kDefaultPresentation_def)
  note i = int_text_spelt [OF r _ T(1,2), unfolded c]
  have "length t < 2 ^ 31" using i(2) by (simp add: blank_align T(3) kBufferSize_def)
  then show ?thesis using i(1) T(3)
    by (simp add: VInt Format_int_def blank_align FormatNumber_plain padded_number_def padded_blank)
qed (use assms in \<open>auto simp: blank_align FormatString_plain padded_blank plain_def Slice_cstr_def split: if_splits\<close>)

lemma default_field:
  assumes "at_index vals i = Some v" "default_text v = Some t"
  shows "DoFormatFrom pr vals i (blank_arg g) plain = Inr t"
  using assms FormatValue_default by (simp add: DoFormatFrom_def)

lemma texts_in_order:
  assumes "list_all2 (\<lambda>v t. default_text v = Some t) vals ts" "length vals < 2 ^ 32"
  shows "\<not> has_explicit_index st \<Longrightarrow> arg_index st + length as \<le> length vals \<Longrightarrow>
    field_texts u pr False vals st (map (\<lambda>a. (a, [])) as) z = Inr (take (length as) (drop (arg_index st) ts))"
proof (induction as arbitrary: st)
  case (Cons a as)
  let ?st = "st\<lparr>arg_index := arg_index st + 1, has_implicit_index := True\<rparr>"
  have i: "arg_index st < length vals" "length ts = length vals" using Cons.prems(2) list_all2_lengthD [OF assms(1)] by simp_all
  have t: "DoFormatFrom pr vals (arg_index st) (blank_arg g) plain = Inr (ts ! arg_index st)" for g
    using list_all2_nthD [OF assms(1) i(1)] i(1) by (intro default_field) (simp_all add: at_index_def)
  have "field_texts u pr False vals ?st (map (\<lambda>a. (a, [])) as) z = Inr (take (length as) (drop (Suc (arg_index st)) ts))"
    using Cons.IH [of ?st] Cons.prems by simp
  moreover have "(arg_index st + 1) mod 2 ^ 32 = arg_index st + 1" using i(1) assms(2) by (intro mod_less) linarith
  ultimately show ?case using t field_next [OF Cons.prems(1)] i by (simp add: format_field_def Cons_nth_drop_Suc [symmetric])
qed simp

lemma texts_by_index:
  assumes "list_all2 (\<lambda>v t. default_text v = Some t) vals ts" "length vals < 2 ^ 32"
  shows "\<not> has_implicit_index st \<Longrightarrow> \<forall>f\<in>set fs. snd f < length vals \<Longrightarrow>
    field_texts u pr False vals st (map (\<lambda>(a, k). (a, nat_text k)) fs) z = Inr (map (\<lambda>(a, k). ts ! k) fs)"
proof (induction fs arbitrary: st)
  case (Cons f fs)
  obtain a k where f: "f = (a, k)" by (cases f)
  let ?st = "st\<lparr>has_explicit_index := True\<rparr>"
  have k: "k < length vals" "k mod 2 ^ 32 = k" "k < 2 ^ 64" using Cons.prems(2) assms(2) by (simp_all add: f)
  have t: "DoFormatFrom pr vals k (blank_arg g) plain = Inr (ts ! k)" for g
    using list_all2_nthD [OF assms(1) k(1)] k(1) by (intro default_field) (simp_all add: at_index_def)
  have "field_texts u pr False vals ?st (map (\<lambda>(a, k). (a, nat_text k)) fs) z = Inr (map (\<lambda>(a, k). ts ! k) fs)"
    using Cons.IH [of ?st] Cons.prems by simp
  then show ?case using t field_index [OF k(3) Cons.prems(1)] k(2) by (simp add: f format_field_def)
qed simp

text \<open>
  Arguments by position: with \<open>{}\<close> fields \<open>sFormat\<close> prints the arguments in their order, and with
  \<open>{k}\<close> fields the arguments they name, any number of times, between the texts of the format string.
  A string is printed as it is, an integer as its sign and decimal numeral.
\<close>

theorem sFormat_by_position:
  assumes "list_all2 (\<lambda>v t. default_text v = Some t) vals ts" "length vals < 2 ^ 32" "\<forall>t\<in>set ts. CHR ''}'' \<notin> set t"
    "length as \<le> length vals" "\<forall>f\<in>set fs. snd f < length vals"
  shows "sFormat u pr (template_text (map (\<lambda>a. (a, [])) as) z) vals = Inr (weave (map (\<lambda>a. (a, [])) as) ts z) \<and>
    sFormat u pr (template_text (map (\<lambda>(a, k). (a, nat_text k)) fs) z) vals = Inr (concat (map (\<lambda>(a, k). a @ ts ! k) fs) @ z)"
proof
  let ?st = "\<lparr>has_implicit_index = False, has_explicit_index = False, arg_index = 0\<rparr>"
  note fs = texts_in_order [OF assms(1,2), of ?st "as" u pr z] texts_by_index [OF assms(1,2), of ?st fs u pr z]
  have w: "weave (map (\<lambda>a. (a, [])) xs) (take (length xs) ys) z = weave (map (\<lambda>a. (a, [])) xs) ys z" for xs ys
    by (induction xs arbitrary: ys) (case_tac ys; simp)+
  have "fmt_loop u pr False vals ?st (template_text (map (\<lambda>a. (a, [])) as) z) = Inr (weave (map (\<lambda>a. (a, [])) as) (take (length as) ts) z)"
    using fs(1) assms(3,4) in_set_takeD by (intro fmt_loop_template) (force simp: nat_text_field_ok)+
  then show "sFormat u pr (template_text (map (\<lambda>a. (a, [])) as) z) vals = Inr (weave (map (\<lambda>a. (a, [])) as) ts z)"
    by (simp add: sFormat_def Formatter_str_def w)
  have "weave (map (\<lambda>(a, k). (a, nat_text k)) xs) (map (\<lambda>(a, k). ts ! k) xs) z = concat (map (\<lambda>(a, k). a @ ts ! k) xs) @ z" for xs :: "(string \<times> nat) list"
    by (induction xs) auto
  moreover have "fmt_loop u pr False vals ?st (template_text (map (\<lambda>(a, k). (a, nat_text k)) fs) z) =
      Inr (weave (map (\<lambda>(a, k). (a, nat_text k)) fs) (map (\<lambda>(a, k). ts ! k) fs) z)"
  proof (rule fmt_loop_template)
    show "\<forall>t\<in>set (map (\<lambda>(a, k). ts ! k) fs). CHR ''}'' \<notin> set t"
      using assms(3,5) list_all2_lengthD [OF assms(1)] by (force simp: in_set_conv_nth)
  qed (use fs(2) assms(5) in \<open>auto simp: nat_text_field_ok\<close>)
  ultimately show "sFormat u pr (template_text (map (\<lambda>(a, k). (a, nat_text k)) fs) z) vals = Inr (concat (map (\<lambda>(a, k). a @ ts ! k) fs) @ z)"
    by (simp add: sFormat_def Formatter_str_def)
qed

theorem sFormat_by_position_witness:
  "sFormat (\<lambda>_. (False, 0)) (\<lambda>f (d :: nat). []) (template_text (map (\<lambda>a. (a, [])) [''The answers are '', '' and '']) []) [VInt type_int 23, VInt type_int 42] =
     Inr (weave (map (\<lambda>a. (a, [])) [''The answers are '', '' and '']) [spell 10 decimals 23, spell 10 decimals 42] []) \<and>
   sFormat (\<lambda>_. (False, 0)) (\<lambda>f (d :: nat). []) (template_text (map (\<lambda>(a, k). (a, nat_text k)) [([], 1), ('' '', 0), ('' '', 1)]) []) [VInt type_int 23, VInt type_int 42] =
     Inr (concat (map (\<lambda>(a, k). a @ [spell 10 decimals 23, spell 10 decimals 42] ! k) [([], 1), ('' '', 0), ('' '', 1)]) @ [])"
  by (rule sFormat_by_position)
    (simp_all add: holds_type_def type_int_def decimals_def spell.simps)

end
