(* ===== verification/Fmt_Spec.thy ===== *)
theory Fmt_Spec
  imports Fmt_Template
begin

text \<open>
  The formatting library: what stands inside a replacement field. Specifications behind the colon are
  parsed into the argument they describe, and keys with dots lead into nested containers.
\<close>

section \<open>Specifications\<close>

text \<open>
  What can stand behind the colon of a field, in the order in which it is written: fill and alignment,
  sign, base prefix, zero padding, width, thousands separator, precision, trailing dot, presentation.
\<close>

record fspec =
  sp_align :: "(char option \<times> char) option"
  sp_sign :: "char option"
  sp_hash :: bool
  sp_zero :: bool
  sp_width :: "nat option"
  sp_comma :: bool
  sp_precision :: "nat option"
  sp_dot :: bool
  sp_presentation :: "char option"

definition opt_char :: "char option \<Rightarrow> string" where
  "opt_char c = (case c of None \<Rightarrow> [] | Some x \<Rightarrow> [x])"

definition opt_nat :: "nat option \<Rightarrow> string" where
  "opt_nat n = (case n of None \<Rightarrow> [] | Some k \<Rightarrow> nat_text k)"

definition align_text :: "fspec \<Rightarrow> string" where
  "align_text sp = (case sp_align sp of None \<Rightarrow> [] | Some (c, a) \<Rightarrow> opt_char c @ [a])"

definition precision_text :: "fspec \<Rightarrow> string" where
  "precision_text sp = (case sp_precision sp of None \<Rightarrow> [] | Some n \<Rightarrow> CHR ''.'' # nat_text n) @ (if sp_dot sp then ''.'' else [])"

definition tail_text :: "fspec \<Rightarrow> string" where
  "tail_text sp = precision_text sp @ opt_char (sp_presentation sp)"

definition width_text :: "fspec \<Rightarrow> string" where
  "width_text sp = opt_nat (sp_width sp) @ (if sp_comma sp then '','' else []) @ tail_text sp"

definition zero_text :: "fspec \<Rightarrow> string" where
  "zero_text sp = (if sp_zero sp then ''0'' else []) @ width_text sp"

definition spec_text :: "fspec \<Rightarrow> string" where
  "spec_text sp = align_text sp @ opt_char (sp_sign sp) @ (if sp_hash sp then ''#'' else []) @ zero_text sp"

text \<open>The argument such a text stands for.\<close>

definition spec_arg :: "fspec \<Rightarrow> farg \<Rightarrow> farg" where
  "spec_arg sp arg = arg\<lparr>
     fa_fill := (if sp_zero sp then CHR ''0'' else case sp_align sp of Some (Some c, a) \<Rightarrow> c | _ \<Rightarrow> fa_fill arg),
     fa_align := (if sp_zero sp then APadAfterSign else case sp_align sp of Some (c, a) \<Rightarrow> FormatAlign a | _ \<Rightarrow> fa_align arg),
     fa_sign := (case sp_sign sp of None \<Rightarrow> fa_sign arg | Some c \<Rightarrow> FormatSign c),
     fa_base_prefix := (sp_hash sp \<or> fa_base_prefix arg),
     fa_width := (case sp_width sp of None \<Rightarrow> fa_width arg | Some w \<Rightarrow> int w),
     fa_thousands_separator := (sp_comma sp \<or> fa_thousands_separator arg),
     fa_precision := (case sp_precision sp of None \<Rightarrow> fa_precision arg | Some n \<Rightarrow> int n),
     fa_trailing_dot := (sp_dot sp \<or> fa_trailing_dot arg),
     fa_presentation := (case sp_presentation sp of None \<Rightarrow> fa_presentation arg | Some c \<Rightarrow> c)\<rparr>"

definition spec_ok :: "fspec \<Rightarrow> bool" where
  "spec_ok sp \<longleftrightarrow>
     (case sp_align sp of None \<Rightarrow> True | Some (c, a) \<Rightarrow> FormatAlign a \<noteq> AInvalid \<and> \<not> sp_zero sp) \<and>
     (case sp_sign sp of None \<Rightarrow> True | Some c \<Rightarrow> FormatSign c \<noteq> SInvalid) \<and>
     (case sp_width sp of None \<Rightarrow> True | Some w \<Rightarrow> 0 < w \<and> w < 2 ^ 31) \<and>
     (case sp_precision sp of None \<Rightarrow> True | Some n \<Rightarrow> n < 2 ^ 31) \<and>
     (case sp_presentation sp of None \<Rightarrow> True | Some c \<Rightarrow> \<not> is_digit c \<and> c \<notin> set ''<>=^+- #,.'')"

lemma nat_text_hd: "0 < n \<Longrightarrow> hd (nat_text n) \<noteq> CHR ''0''"
proof (induction n rule: nat_text.induct)
  case (1 n)
  show ?case
  proof (cases "n < 10")
    case True
    have "\<forall>i\<in>set [1..<10]. char_of (48 + i :: nat) \<noteq> CHR ''0''" by code_simp
    then show ?thesis using True 1(2) by (subst nat_text.simps) auto
  next
    case False
    then have "nat_text (n div 10) \<noteq> []" "0 < n div 10" using nat_text_digits by simp_all
    then show ?thesis using 1(1) False by (subst nat_text.simps) simp
  qed
qed

lemma take_nat:
  assumes "\<not> (r \<noteq> [] \<and> is_digit (hd r))"
  shows "takeWhile is_digit (nat_text n @ r) = nat_text n" "dropWhile is_digit (nat_text n @ r) = r"
  using nat_text_digits [of n] assms by (cases r; simp add: takeWhile_append dropWhile_append)+

lemma cast_nat: "n < 2 ^ 31 \<Longrightarrow> lexical_cast_int (nat_text n) = Inr (int n)"
  using nat_text_digits [of n] by (simp add: lexical_cast_int_def)

lemma tail_hd:
  assumes "spec_ok sp" "tail_text sp = c # r"
  shows "\<not> is_digit c \<and> c \<notin> set ''<>=^+- #,''"
  using assms by (cases "sp_precision sp"; cases "sp_presentation sp"; cases "sp_dot sp")
    (auto simp: tail_text_def precision_text_def opt_char_def spec_ok_def is_digit_def)

lemma special_not_digit: "c \<in> set ''<>=^+- #,'' \<Longrightarrow> \<not> is_digit c"
  by (auto simp: is_digit_def)

lemma at_presentation: "take_presentation arg (opt_char c) = Inr (arg\<lparr>fa_presentation := (case c of None \<Rightarrow> fa_presentation arg | Some x \<Rightarrow> x)\<rparr>)"
  by (cases c) (simp_all add: opt_char_def)

lemma at_precision:
  assumes "spec_ok sp"
  shows "take_precision arg (tail_text sp) = Inr (arg\<lparr>fa_precision := (case sp_precision sp of None \<Rightarrow> fa_precision arg | Some n \<Rightarrow> int n),
    fa_trailing_dot := (sp_dot sp \<or> fa_trailing_dot arg)\<rparr>, opt_char (sp_presentation sp))"
proof -
  let ?r = "opt_char (sp_presentation sp)"
  have r: "\<not> (?r \<noteq> [] \<and> is_digit (hd ?r))" "\<not> (?r \<noteq> [] \<and> hd ?r = CHR ''.'')" using assms by (auto simp: opt_char_def spec_ok_def split: option.splits)
  show ?thesis
  proof (cases "sp_precision sp")
    case None
    have "takeWhile is_digit ?r = []" "dropWhile is_digit ?r = ?r" using r(1) by (cases ?r; simp)+
    then show ?thesis using None r(2) by (cases ?r; cases "sp_dot sp") (simp_all add: tail_text_def precision_text_def)
  next
    case (Some n)
    have n: "n < 2 ^ 31" "nat_text n \<noteq> []" using assms Some nat_text_digits by (auto simp: spec_ok_def)
    have d: "\<not> (CHR ''.'' # ?r \<noteq> [] \<and> is_digit (hd (CHR ''.'' # ?r)))" by (simp add: is_digit_def)
    show ?thesis using Some n r(2) cast_nat [OF n(1)] take_nat [OF r(1), of n] take_nat [OF d, of n]
      by (cases "sp_dot sp") (auto simp: tail_text_def precision_text_def Let_def)
  qed
qed

lemma at_comma:
  assumes "spec_ok sp"
  shows "take_comma arg ((if sp_comma sp then '','' else []) @ tail_text sp) = (arg\<lparr>fa_thousands_separator := (sp_comma sp \<or> fa_thousands_separator arg)\<rparr>, tail_text sp)"
  using tail_hd [OF assms] by (cases "sp_comma sp"; cases "tail_text sp") auto

lemma at_width:
  assumes "spec_ok sp"
  shows "take_width arg (width_text sp) = Inr (arg\<lparr>fa_width := (case sp_width sp of None \<Rightarrow> fa_width arg | Some w \<Rightarrow> int w)\<rparr>,
    (if sp_comma sp then '','' else []) @ tail_text sp)"
proof -
  let ?r = "(if sp_comma sp then '','' else []) @ tail_text sp"
  have r: "\<not> (?r \<noteq> [] \<and> is_digit (hd ?r))" using tail_hd [OF assms] special_not_digit by (cases "tail_text sp") (auto simp: is_digit_def)
  show ?thesis
  proof (cases "sp_width sp")
    case None
    then show ?thesis using r by (auto simp: take_width_def width_text_def opt_nat_def)
  next
    case (Some w)
    then have w: "w < 2 ^ 31" "nat_text w \<noteq> []" "is_digit (hd (nat_text w))" using assms nat_text_digits [of w] by (auto simp: spec_ok_def)
    show ?thesis using Some w take_nat [OF r, of w] cast_nat [OF w(1)] by (simp add: take_width_def width_text_def opt_nat_def)
  qed
qed

lemma width_hd:
  assumes "spec_ok sp" "width_text sp = c # r"
  shows "c \<noteq> CHR ''0'' \<and> c \<notin> set ''<>=^+- #''"
proof (cases "sp_width sp")
  case None
  have zero: "is_digit (CHR ''0'')" by (simp add: is_digit_def)
  show ?thesis
  proof (cases "sp_comma sp")
    case True
    then have "c = CHR '',''" using assms(2) None by (simp add: width_text_def opt_nat_def)
    then show ?thesis by simp
  next
    case False
    then have "tail_text sp = c # r" using assms(2) None by (simp add: width_text_def opt_nat_def)
    then show ?thesis using tail_hd [OF assms(1)] zero by auto
  qed
next
  case (Some w)
  then have w: "nat_text w \<noteq> []" "hd (nat_text w) \<noteq> CHR ''0''" "is_digit (hd (nat_text w))" using assms nat_text_digits [of w] nat_text_hd [of w] by (auto simp: spec_ok_def)
  moreover have "c = hd (nat_text w)" using assms(2) Some w(1) by (cases "nat_text w") (simp_all add: width_text_def opt_nat_def)
  ultimately show ?thesis using special_not_digit [of c] by auto
qed

lemma at_zero:
  assumes "spec_ok sp" "sp_zero sp \<Longrightarrow> fa_align arg = ADefault"
  shows "take_zero arg (zero_text sp) = Inr (arg\<lparr>fa_fill := (if sp_zero sp then CHR ''0'' else fa_fill arg),
    fa_align := (if sp_zero sp then APadAfterSign else fa_align arg)\<rparr>, width_text sp)"
  using assms(2) width_hd [OF assms(1)] by (cases "sp_zero sp"; cases "width_text sp") (auto simp: zero_text_def)

lemma zero_hd: "spec_ok sp \<Longrightarrow> zero_text sp = c # r \<Longrightarrow> c \<notin> set ''<>=^+- #''"
  using width_hd [of sp c r] by (cases "sp_zero sp") (auto simp: zero_text_def)

lemma at_prefix:
  "spec_ok sp \<Longrightarrow> take_prefix arg ((if sp_hash sp then ''#'' else []) @ zero_text sp) = (arg\<lparr>fa_base_prefix := (sp_hash sp \<or> fa_base_prefix arg)\<rparr>, zero_text sp)"
  using zero_hd [of sp] by (cases "sp_hash sp"; cases "zero_text sp") auto

lemma at_sign:
  assumes "spec_ok sp"
  shows "take_sign arg (opt_char (sp_sign sp) @ (if sp_hash sp then ''#'' else []) @ zero_text sp) =
    (arg\<lparr>fa_sign := (case sp_sign sp of None \<Rightarrow> fa_sign arg | Some c \<Rightarrow> FormatSign c)\<rparr>, (if sp_hash sp then ''#'' else []) @ zero_text sp)"
proof (cases "sp_sign sp")
  case None
  then show ?thesis using zero_hd [OF assms] by (cases "sp_hash sp"; cases "zero_text sp") (auto simp: opt_char_def FormatSign_def)
next
  case (Some c)
  then show ?thesis using assms by (simp add: opt_char_def spec_ok_def)
qed

lemma FormatAlign_special: "FormatAlign c \<noteq> AInvalid \<longleftrightarrow> c \<in> set ''<>=^''"
  by (auto simp: FormatAlign_def)

lemma take_align_none: "\<not> (r \<noteq> [] \<and> FormatAlign (hd r) \<noteq> AInvalid) \<Longrightarrow> \<not> (tl r \<noteq> [] \<and> FormatAlign (hd (tl r)) \<noteq> AInvalid) \<Longrightarrow> take_align arg r = (arg, r)"
  by (cases r) auto

text \<open>No character behind the alignment is an alignment.\<close>

definition sign_text :: "fspec \<Rightarrow> string" where
  "sign_text sp = opt_char (sp_sign sp) @ (if sp_hash sp then ''#'' else []) @ zero_text sp"

lemma digit_no_align: "is_digit c \<Longrightarrow> FormatAlign c = AInvalid"
  using special_not_digit [of c] FormatAlign_special [of c] by auto

lemma opt_nat_no_align: "\<forall>c\<in>set (opt_nat n). FormatAlign c = AInvalid"
  using nat_text_digits digit_no_align by (auto simp: opt_nat_def split: option.splits)

lemma sign_not_align: "FormatSign c \<noteq> SInvalid \<Longrightarrow> FormatAlign c = AInvalid"
  by (auto simp: FormatSign_def FormatAlign_def split: if_splits)

lemma special_align: "c \<notin> set ''<>=^+- #,.'' \<Longrightarrow> FormatAlign c = AInvalid"
  by (simp add: FormatAlign_def)

lemma sign_no_align:
  assumes "spec_ok sp"
  shows "\<forall>c\<in>set (sign_text sp). FormatAlign c = AInvalid"
proof -
  have "\<forall>c\<in>set (opt_char (sp_sign sp)). FormatAlign c = AInvalid" "\<forall>c\<in>set (opt_char (sp_presentation sp)). FormatAlign c = AInvalid"
    using assms sign_not_align special_align by (auto simp: opt_char_def spec_ok_def split: option.splits)
  moreover have plain_chars: "FormatAlign (CHR ''.'') = AInvalid" "FormatAlign (CHR '','') = AInvalid" "FormatAlign (CHR ''#'') = AInvalid"
    "FormatAlign (CHR ''0'') = AInvalid" by (simp_all add: FormatAlign_def)
  moreover have "\<forall>c\<in>set (precision_text sp). FormatAlign c = AInvalid"
    using opt_nat_no_align [of "sp_precision sp"] by (auto simp: precision_text_def opt_nat_def plain_chars split: option.splits)
  ultimately show ?thesis using opt_nat_no_align [of "sp_width sp"]
    by (auto simp: sign_text_def zero_text_def width_text_def tail_text_def plain_chars)
qed

lemma at_align:
  assumes "spec_ok sp"
  shows "take_align arg (align_text sp @ sign_text sp) =
    (arg\<lparr>fa_fill := (case sp_align sp of Some (Some c, a) \<Rightarrow> c | _ \<Rightarrow> fa_fill arg),
      fa_align := (case sp_align sp of Some (c, a) \<Rightarrow> FormatAlign a | _ \<Rightarrow> fa_align arg)\<rparr>, sign_text sp)"
proof -
  have no: "\<not> (sign_text sp \<noteq> [] \<and> FormatAlign (hd (sign_text sp)) \<noteq> AInvalid)" using sign_no_align [OF assms] by (cases "sign_text sp") auto
  show ?thesis
  proof (cases "sp_align sp")
    case None
    have "\<not> (tl (sign_text sp) \<noteq> [] \<and> FormatAlign (hd (tl (sign_text sp))) \<noteq> AInvalid)"
      using sign_no_align [OF assms] by (cases "sign_text sp"; cases "tl (sign_text sp)") auto
    then show ?thesis using None no take_align_none by (simp add: align_text_def)
  next
    case (Some ca)
    then obtain f a where ca: "sp_align sp = Some (f, a)" by (cases ca) auto
    then have "FormatAlign a \<noteq> AInvalid" using assms by (simp add: spec_ok_def)
    then show ?thesis using ca no by (cases f) (auto simp: align_text_def opt_char_def)
  qed
qed

lemma take_format_spec:
  assumes "spec_ok sp" "fa_align arg = ADefault"
  shows "take_format arg (spec_text sp) = Inr (spec_arg sp arg)"
proof -
  have split: "spec_text sp = align_text sp @ sign_text sp" by (simp add: spec_text_def sign_text_def)
  have z: "sp_zero sp \<Longrightarrow> sp_align sp = None" using assms(1) by (auto simp: spec_ok_def split: option.splits)
  have sg: "take_sign a (sign_text sp) = (a\<lparr>fa_sign := (case sp_sign sp of None \<Rightarrow> fa_sign a | Some c \<Rightarrow> FormatSign c)\<rparr>,
      (if sp_hash sp then ''#'' else []) @ zero_text sp)" for a
    using at_sign [OF assms(1)] by (simp add: sign_text_def)
  show ?thesis unfolding take_format_def split at_align [OF assms(1)] Let_def prod.case sg at_prefix [OF assms(1)]
    using assms z by (subst at_zero) (auto simp: at_width at_comma at_precision at_presentation spec_arg_def split: option.splits)
qed

text \<open>
  C30. What stands behind the colon of a field is understood: every specification written in the order
  alignment, sign, base prefix, zero padding, width, thousands separator, precision and presentation
  is parsed into the argument with exactly these settings, the key being what stands before the
  colon.
\<close>

theorem FormatArg_spec:
  assumes "spec_ok sp" "CHR '':'' \<notin> set key"
  shows "FormatArg g (key @ CHR '':'' # spec_text sp) = Inr (spec_arg sp ((blank_arg g)\<lparr>fa_key := key\<rparr>))"
  using take_format_spec [OF assms(1), of "(blank_arg g)\<lparr>fa_key := key\<rparr>"] strnchr_split [OF assms(2), of "spec_text sp"]
  by (simp add: FormatArg_def InitSlow_def blank_arg_def)

theorem FormatArg_spec_witness:
  "FormatArg (False, 0) (''0'' @ CHR '':'' # spec_text \<lparr>sp_align = Some (Some (CHR ''*''), CHR ''>''), sp_sign = Some (CHR ''+''), sp_hash = True,
      sp_zero = False, sp_width = Some 12, sp_comma = False, sp_precision = None, sp_dot = False, sp_presentation = Some (CHR ''x'')\<rparr>) =
    Inr (spec_arg \<lparr>sp_align = Some (Some (CHR ''*''), CHR ''>''), sp_sign = Some (CHR ''+''), sp_hash = True,
      sp_zero = False, sp_width = Some 12, sp_comma = False, sp_precision = None, sp_dot = False, sp_presentation = Some (CHR ''x'')\<rparr>
      ((blank_arg (False, 0))\<lparr>fa_key := ''0''\<rparr>))"
  by (rule FormatArg_spec) (simp_all add: spec_ok_def FormatAlign_def FormatSign_def is_digit_def)

text \<open>
  The base prefix of a number is printed or not depending on memory that was never written: no
  constructor sets \<open>base_prefix\<close>, so \<open>{:x}\<close> prints \<open>0x\<close> before the digits whenever the bytes of the new
  \<open>FormatArg\<close> happen to be nonzero.
\<close>

theorem base_prefix_uninitialised:
  assumes "holds_type T val" "\<not> (32 \<le> it_bits T \<and> val = - (2 ^ (it_bits T - 1)))"
  shows "FormatArg g '':x'' = Inr ((blank_arg g)\<lparr>fa_presentation := CHR ''x''\<rparr>) \<and>
    FormatValue pr plain ((blank_arg g)\<lparr>fa_presentation := CHR ''x''\<rparr>) (VInt T val) =
      Inr ((if val < 0 then ''-'' else []) @ (if fst g then ''0x'' else []) @ spell 16 lower_repr_hex (nat \<bar>val\<bar>))"
proof
  let ?sp = "\<lparr>sp_align = None, sp_sign = None, sp_hash = False, sp_zero = False, sp_width = None, sp_comma = False, sp_precision = None,
    sp_dot = False, sp_presentation = Some (CHR ''x'')\<rparr>" and ?arg = "(blank_arg g)\<lparr>fa_presentation := CHR ''x''\<rparr>"
  show "FormatArg g '':x'' = Inr ?arg" using take_format_spec [of ?sp "(blank_arg g)\<lparr>fa_key := []\<rparr>"]
    by (simp add: FormatArg_def InitSlow_def strnchr_def spec_ok_def is_digit_def spec_text_def align_text_def opt_char_def zero_text_def width_text_def
      opt_nat_def tail_text_def precision_text_def spec_arg_def blank_arg_def)
  have r: "radix_of (fa_presentation ?arg) = Some (16, lower_repr_hex)" by (simp add: radix_of_def kDefaultPresentation_def)
  have c: "sign_chars ?arg val = (if val < 0 then ''-'' else [])" "base_chars ?arg = (if fst g then ''0x'' else [])"
    "int_body ?arg 16 lower_repr_hex n = spell 16 lower_repr_hex n" for n
    by (simp_all add: sign_chars_def base_chars_def int_body_def blank_arg_def)
  note i = int_text_spelt [OF r _ assms, unfolded c]
  have a: "fa_align ?arg = ADefault" "fa_sign ?arg \<noteq> SInvalid" "padded (?arg\<lparr>fa_align := ARight\<rparr>) s = s" for s
    by (simp_all add: blank_arg_def padded_def kDefaultWidth_def)
  show "FormatValue pr plain ?arg (VInt T val) =
      Inr ((if val < 0 then ''-'' else []) @ (if fst g then ''0x'' else []) @ spell 16 lower_repr_hex (nat \<bar>val\<bar>))"
    using i(1) [OF a(2)] i(2) [OF a(2)] a FormatNumber_plain [of ?arg] by (simp add: Format_int_def padded_number_def kBufferSize_def)
qed

theorem base_prefix_uninitialised_witness:
  "FormatArg (True, 0) '':x'' = Inr ((blank_arg (True, 0))\<lparr>fa_presentation := CHR ''x''\<rparr>) \<and>
    FormatValue (\<lambda>f (d :: nat). []) plain ((blank_arg (True, 0))\<lparr>fa_presentation := CHR ''x''\<rparr>) (VInt type_int 255) =
      Inr ((if 255 < (0 :: int) then ''-'' else []) @ (if fst (True, 0 :: nat) then ''0x'' else []) @ spell 16 lower_repr_hex (nat \<bar>255\<bar>))"
  by (rule base_prefix_uninitialised) (simp_all add: holds_type_def type_int_def)

section \<open>Keys into nested containers\<close>

text \<open>A path into a value: keys of maps and positions in sequences, tuples and maps keyed by integers.\<close>

datatype step = Key string | Pos nat

fun step_text :: "step \<Rightarrow> string" where
  "step_text (Key k) = k"
| "step_text (Pos i) = nat_text i"

fun path_text :: "step list \<Rightarrow> string" where
  "path_text [] = []"
| "path_text [s] = step_text s"
| "path_text (s # ss) = step_text s @ CHR ''.'' # path_text ss"

fun follow :: "'d fvalue \<Rightarrow> step list \<Rightarrow> 'd fvalue option" where
  "follow v [] = Some v"
| "follow (VMap kvs) (Key k # ss) = (case map_of kvs k of None \<Rightarrow> None | Some v \<Rightarrow> follow v ss)"
| "follow (VTuple vs) (Pos i # ss) = (case at_index vs i of None \<Rightarrow> None | Some v \<Rightarrow> follow v ss)"
| "follow (VSeq vs) (Pos i # ss) = (case at_index vs i of None \<Rightarrow> None | Some v \<Rightarrow> follow v ss)"
| "follow (VIntMap T kvs) (Pos i # ss) = (case map_of kvs (cast_key T i) of None \<Rightarrow> None | Some v \<Rightarrow> follow v ss)"
| "follow v ss = None"

fun step_ok :: "step \<Rightarrow> bool" where
  "step_ok (Key k) \<longleftrightarrow> CHR ''.'' \<notin> set k \<and> CHR '']'' \<notin> set k"
| "step_ok (Pos i) \<longleftrightarrow> i < 2 ^ 32"

lemma step_chars: "step_ok s \<Longrightarrow> CHR ''.'' \<notin> set (step_text s) \<and> CHR '']'' \<notin> set (step_text s)"
  using nat_text_digits digit_not by (cases s) auto

lemma path_chars: "\<forall>s\<in>set ss. step_ok s \<Longrightarrow> CHR '']'' \<notin> set (path_text ss)"
  using step_chars by (induction ss rule: path_text.induct) auto

lemma SplitKey_path:
  assumes "\<forall>x\<in>set (s # ss). step_ok x" "fa_next_key_mode arg = KNone" "fa_key arg = path_text (s # ss)"
  shows "SplitKey arg = Inr (step_text s, arg\<lparr>fa_key := path_text ss\<rparr>)"
proof -
  have key: "CHR '']'' \<notin> set (fa_key arg)" using path_chars [OF assms(1)] assms(3) by simp
  then have l: "fa_key arg \<noteq> [] \<Longrightarrow> last (fa_key arg) \<noteq> CHR '']''" using last_in_set by fastforce
  have s: "CHR ''.'' \<notin> set (step_text s)" using step_chars assms(1) by simp
  show ?thesis
  proof (cases ss)
    case Nil
    have "arg\<lparr>fa_key := []\<rparr> = arg" if "fa_key arg = []" using that by (cases arg) simp
    then show ?thesis using Nil assms(2,3) l s by (cases "step_text s") (simp_all add: SplitKey_def Let_def strnchr_none)
  next
    case (Cons s' ss')
    then have "fa_key arg = step_text s @ CHR ''.'' # path_text ss" using assms(3) by simp
    then show ?thesis using assms(2) l strnchr_split [OF s] by (simp add: SplitKey_def)
  qed
qed

lemma SplitIntKey_path:
  assumes "\<forall>x\<in>set (Pos i # ss). step_ok x" "fa_next_key_mode arg = KNone" "fa_key arg = path_text (Pos i # ss)"
  shows "SplitIntKey arg = Inr (i, arg\<lparr>fa_key := path_text ss\<rparr>)"
  using SplitKey_path [OF assms] stoul_digits [of "nat_text i"] nat_text_digits [of i] assms(1,2) by (simp add: SplitIntKey_def)

text \<open>
  Keys with dots reach into nested containers: formatting a value with a path of keys and positions
  is formatting the value the path leads to, through maps, maps keyed by integers, sequences and
  tuples in any nesting.
\<close>

theorem FormatValue_path:
  assumes "\<forall>x\<in>set ss. step_ok x" "fa_next_key_mode arg = KNone" "follow v ss = Some w"
  shows "FormatValue pr out (arg\<lparr>fa_key := path_text ss\<rparr>) v = FormatValue pr out (arg\<lparr>fa_key := []\<rparr>) w"
  using assms
proof (induction v ss rule: follow.induct)
  case (2 kvs k ss)
  then show ?case using SplitKey_path [of "Key k" ss "arg\<lparr>fa_key := path_text (Key k # ss)\<rparr>"] by (auto split: option.splits)
next
  case (3 vs i ss)
  then show ?case using SplitIntKey_path [of i ss "arg\<lparr>fa_key := path_text (Pos i # ss)\<rparr>"] by (auto split: option.splits)
next
  case (4 vs i ss)
  then show ?case using SplitIntKey_path [of i ss "arg\<lparr>fa_key := path_text (Pos i # ss)\<rparr>"] by (auto split: option.splits)
next
  case (5 T kvs i ss)
  then show ?case using SplitIntKey_path [of i ss "arg\<lparr>fa_key := path_text (Pos i # ss)\<rparr>"] by (auto split: option.splits)
qed simp_all

theorem FormatValue_path_witness:
  "FormatValue (\<lambda>f (d :: nat). []) plain ((blank_arg (False, 0))\<lparr>fa_key := path_text [Key ''a'', Pos 1]\<rparr>) (VMap [(''a'', VSeq [VNull, VBool True])]) =
   FormatValue (\<lambda>f (d :: nat). []) plain ((blank_arg (False, 0))\<lparr>fa_key := []\<rparr>) (VBool True)"
  by (rule FormatValue_path) (simp_all add: blank_arg_def at_index_def)

end
