(* ===== verification/Async_Logger.thy ===== *)
theory Async_Logger
  imports Prelude
begin

text \<open>
  The asynchronous logger of \<open>logger/src/async_logger.cc\<close>: writers append to a buffer under a mutex,
  and a thread takes the full buffers and gives them to an output function. A step of the system is a
  call of \<open>Write\<close> or \<open>Flush\<close> by some thread, or a step of the logging thread from one of its points of
  synchronisation to the next; what is done under the mutex is one step. \<open>sync_logger.cc\<close>, the
  logger without a thread, follows.

  A buffer of \<open>fixed_size_buffer.hpp\<close> is the list of its used bytes, the only ones that are read. A
  buffer has one owner at a time, so buffers are values.
\<close>

section \<open>Buffers\<close>

type_synonym fixed_buffer = "byte list"

definition FixedSizeBuffer :: fixed_buffer where
  "FixedSizeBuffer = []"

definition buf_used :: "fixed_buffer \<Rightarrow> nat" where
  "buf_used b = length b"

definition Available :: "nat \<Rightarrow> fixed_buffer \<Rightarrow> nat" where
  "Available sz b = sz - buf_used b"

definition ClearUsed :: "fixed_buffer \<Rightarrow> fixed_buffer" where
  "ClearUsed b = []"

definition buf_Append :: "nat \<Rightarrow> fixed_buffer \<Rightarrow> byte list \<Rightarrow> fixed_buffer result" where
  "buf_Append sz b bs = require (length bs \<le> Available sz b) (Inr (b @ bs))"

definition lg_kBufferSize :: nat where
  "lg_kBufferSize = 2 ^ 16"

section \<open>The logger\<close>

text \<open>\<open>lg_out\<close> is what \<open>output_\<close> has been given, \<open>lg_output\<close> says whether it has been set.\<close>

record alogger =
  lg_output :: bool
  lg_out :: "byte list list"
  lg_buffers :: "fixed_buffer list"
  lg_current :: fixed_buffer
  lg_next :: "fixed_buffer option"
  lg_running :: bool

definition AsyncLogger :: alogger where
  "AsyncLogger = \<lparr>lg_output = False, lg_out = [], lg_buffers = [], lg_current = FixedSizeBuffer, lg_next = Some FixedSizeBuffer, lg_running = True\<rparr>"

definition SetOutput :: "alogger \<Rightarrow> alogger" where
  "SetOutput l = l\<lparr>lg_output := True\<rparr>"

definition lg_Write :: "alogger \<Rightarrow> byte list \<Rightarrow> alogger result" where
  "lg_Write l buf =
     (if length buf \<le> Available lg_kBufferSize (lg_current l)
      then rbind (buf_Append lg_kBufferSize (lg_current l) buf) (\<lambda>c. Inr (l\<lparr>lg_current := c\<rparr>))
      else let l1 = l\<lparr>lg_buffers := lg_buffers l @ [lg_current l]\<rparr>;
               l2 = (case lg_next l1 of Some b \<Rightarrow> l1\<lparr>lg_current := b, lg_next := None\<rparr> | None \<Rightarrow> l1\<lparr>lg_current := FixedSizeBuffer\<rparr>)
        in require (length buf \<le> Available lg_kBufferSize (lg_current l2))
          (rbind (buf_Append lg_kBufferSize (lg_current l2) buf) (\<lambda>c. Inr (l2\<lparr>lg_current := c\<rparr>))))"

text \<open>
  \<open>Flush\<close> stops the thread if asked to. Waking the thread changes nothing here, since it may wake at
  any time anyway; the call then waits until the thread has ended.
\<close>

definition lg_Flush :: "bool \<Rightarrow> alogger \<Rightarrow> alogger" where
  "lg_Flush stop l = (if stop then l\<lparr>lg_running := False\<rparr> else l)"

definition lg_emit :: "byte list \<Rightarrow> alogger \<Rightarrow> alogger" where
  "lg_emit bs l = l\<lparr>lg_out := lg_out l @ [bs]\<rparr>"

section \<open>The logging thread\<close>

text \<open>
  Where the thread is: at the test of its loop, at the mutex or waiting for the condition, before it
  writes what it has taken, before the last flush, or at its end.
\<close>

datatype log_pc = AtTest | AtLock | AtOutput | AtFlush | Ended

record async_log =
  as_log :: alogger
  as_pc :: log_pc
  as_tmp1 :: "fixed_buffer option"
  as_todo :: "fixed_buffer list"

text \<open>\<open>Init\<close> starts the thread.\<close>

definition lg_Init :: "alogger \<Rightarrow> async_log" where
  "lg_Init l = \<lparr>as_log = l, as_pc = AtTest, as_tmp1 = Some FixedSizeBuffer, as_todo = []\<rparr>"

text \<open>The wait: the thread goes on only when there is something to write.\<close>

definition keeps_waiting :: "alogger \<Rightarrow> bool" where
  "keeps_waiting l \<longleftrightarrow> Available lg_kBufferSize (lg_current l) = lg_kBufferSize \<and> lg_buffers l = []"

text \<open>What it does under the mutex behind the wait.\<close>

definition take_buffers :: "async_log \<Rightarrow> async_log" where
  "take_buffers s =
     (let l = as_log s;
          s1 = (if lg_buffers l \<noteq> [] then s\<lparr>as_todo := lg_buffers l, as_log := l\<lparr>lg_buffers := as_todo s\<rparr>\<rparr> else s)
      in if lg_next (as_log s1) = None then s1\<lparr>as_log := (as_log s1)\<lparr>lg_next := as_tmp1 s1\<rparr>, as_tmp1 := None\<rparr> else s1)"

text \<open>Writing what was taken, without the mutex.\<close>

definition write_buffers :: "async_log \<Rightarrow> async_log result" where
  "write_buffers s =
     (let s1 = (if lg_output (as_log s) then s\<lparr>as_log := fold lg_emit (as_todo s) (as_log s)\<rparr> else s)
      in rbind (if as_tmp1 s1 = None
                then require (as_todo s1 \<noteq> []) (Inr (s1\<lparr>as_tmp1 := Some (ClearUsed (hd (as_todo s1)))\<rparr>))
                else Inr s1) (\<lambda>s2.
           Inr (if as_todo s2 \<noteq> [] then s2\<lparr>as_todo := []\<rparr> else s2)))"

text \<open>The flush at the end calls \<open>output_\<close> without asking whether it has been set.\<close>

definition call_output :: "byte list \<Rightarrow> alogger \<Rightarrow> alogger result" where
  "call_output bs l = (if lg_output l then Inr (lg_emit bs l) else Inl RuntimeError)"

fun output_all :: "fixed_buffer list \<Rightarrow> alogger \<Rightarrow> alogger result" where
  "output_all [] l = Inr l"
| "output_all (b # bs) l = rbind (call_output b l) (output_all bs)"

definition last_flush :: "alogger \<Rightarrow> alogger result" where
  "last_flush l =
     rbind (output_all (lg_buffers l) l) (\<lambda>l1.
       rbind (if buf_used (lg_current l1) \<noteq> 0 then call_output (lg_current l1) l1 else Inr l1) (\<lambda>l2.
         case lg_next l2 of None \<Rightarrow> Inr l2 | Some b \<Rightarrow> if buf_used b \<noteq> 0 then call_output b l2 else Inr l2))"

text \<open>
  A step of the thread: none while it waits and when it has ended.
\<close>

definition thread_step :: "async_log \<Rightarrow> async_log result option" where
  "thread_step s = (case as_pc s of
     AtTest \<Rightarrow> Some (if lg_running (as_log s)
       then (case as_tmp1 s of None \<Rightarrow> Inl MemoryFault | Some b \<Rightarrow> require (buf_used b = 0) (Inr (s\<lparr>as_pc := AtLock\<rparr>)))
       else Inr (s\<lparr>as_pc := AtFlush\<rparr>))
   | AtLock \<Rightarrow> if keeps_waiting (as_log s) then None else Some (Inr ((take_buffers s)\<lparr>as_pc := AtOutput\<rparr>))
   | AtOutput \<Rightarrow> Some (rbind (write_buffers s) (\<lambda>s'. Inr (s'\<lparr>as_pc := AtTest\<rparr>)))
   | AtFlush \<Rightarrow> Some (rbind (last_flush (as_log s)) (\<lambda>l. Inr (s\<lparr>as_log := l, as_pc := Ended\<rparr>)))
   | Ended \<Rightarrow> None)"

text \<open>The states that the calls of some threads and the steps of the logging thread lead to, with the messages written.\<close>

inductive logged :: "async_log \<Rightarrow> byte list list \<Rightarrow> bool" where
  logged_init: "logged (lg_Init (SetOutput AsyncLogger)) []"
| logged_write: "logged s ms \<Longrightarrow> lg_Write (as_log s) m = Inr l \<Longrightarrow> logged (s\<lparr>as_log := l\<rparr>) (ms @ [m])"
| logged_flush: "logged s ms \<Longrightarrow> logged (s\<lparr>as_log := lg_Flush stop (as_log s)\<rparr>) ms"
| logged_thread: "logged s ms \<Longrightarrow> thread_step s = Some (Inr s') \<Longrightarrow> logged s' ms"

section \<open>The logger without a thread\<close>

text \<open>\<open>SyncLogger\<close> gives every message to the output function at once and drops long ones; \<open>Flush\<close> does nothing.\<close>

definition kMaxLogLength :: nat where
  "kMaxLogLength = 2 ^ 12"

record slogger =
  sl_output :: bool
  sl_out :: "byte list list"

definition SyncLogger_Write :: "slogger \<Rightarrow> byte list \<Rightarrow> slogger result" where
  "SyncLogger_Write l buf =
     (if kMaxLogLength < length buf then Inr l
      else if sl_output l then Inr (l\<lparr>sl_out := sl_out l @ [buf]\<rparr>) else Inl RuntimeError)"

definition SyncLogger_Flush :: "slogger \<Rightarrow> slogger" where
  "SyncLogger_Flush l = l"

lemma sync_log_writes: "sl_output l \<Longrightarrow> \<exists>l'. fold (\<lambda>m r. rbind r (\<lambda>l. SyncLogger_Write l m)) ms (Inr l) = Inr l' \<and>
    sl_out l' = sl_out l @ filter (\<lambda>m. length m \<le> kMaxLogLength) ms \<and> sl_output l'"
proof (induction ms arbitrary: l)
  case (Cons m ms)
  then show ?case using Cons.IH [of "l\<lparr>sl_out := sl_out l @ [m]\<rparr>"] Cons.IH [of l] by (auto simp: SyncLogger_Write_def not_less)
qed simp

section \<open>Nothing is lost\<close>

text \<open>What is in the buffers of the logger and of the thread, in the order it was written.\<close>

definition pending :: "async_log \<Rightarrow> byte list" where
  "pending s = concat (as_todo s) @ concat (lg_buffers (as_log s)) @ lg_current (as_log s)"

text \<open>
  The thread has a spare buffer except after it has given it away, when it has taken a full one; a
  missing \<open>next_\<close> means that a full buffer waits.
\<close>

definition log_ok :: "async_log \<Rightarrow> bool" where
  "log_ok s \<longleftrightarrow> lg_output (as_log s) \<and> (lg_next (as_log s) = None \<longrightarrow> lg_buffers (as_log s) \<noteq> []) \<and>
     lg_next (as_log s) \<in> {None, Some []} \<and> length (lg_current (as_log s)) \<le> lg_kBufferSize \<and>
     (as_pc s = AtOutput \<longrightarrow> as_tmp1 s = Some [] \<or> as_tmp1 s = None \<and> as_todo s \<noteq> []) \<and>
     (as_pc s \<noteq> AtOutput \<longrightarrow> as_tmp1 s = Some [] \<and> as_todo s = [])"

lemmas async_defs = log_ok_def pending_def FixedSizeBuffer_def buf_used_def Available_def ClearUsed_def buf_Append_def
  AsyncLogger_def SetOutput_def lg_Init_def lg_Flush_def lg_emit_def

lemma init_ok: "log_ok (lg_Init (SetOutput AsyncLogger))" "pending (lg_Init (SetOutput AsyncLogger)) = []"
  by (simp_all add: async_defs)

lemma write_ok:
  assumes "log_ok s" "lg_Write (as_log s) m = Inr l"
  shows "log_ok (s\<lparr>as_log := l\<rparr>)" "pending (s\<lparr>as_log := l\<rparr>) = pending s @ m" "lg_out l = lg_out (as_log s)" "lg_running l = lg_running (as_log s)"
  using assms unfolding lg_Write_def async_defs require_def by (auto simp: Let_def split: if_splits option.splits)

text \<open>A message that fits into an empty buffer is never refused.\<close>

lemma write_succeeds:
  assumes "log_ok s" "length m \<le> lg_kBufferSize"
  shows "\<exists>l. lg_Write (as_log s) m = Inr l"
  using assms unfolding lg_Write_def async_defs require_def by (auto simp: Let_def split: option.splits)

lemma flush_ok: "log_ok (s\<lparr>as_log := lg_Flush stop (as_log s)\<rparr>) = log_ok s" "pending (s\<lparr>as_log := lg_Flush stop (as_log s)\<rparr>) = pending s"
  "lg_out (lg_Flush stop (as_log s)) = lg_out (as_log s)"
  by (simp_all add: async_defs)

lemma fold_output: "fold lg_emit bs l = l\<lparr>lg_out := lg_out l @ bs\<rparr>"
  by (induction bs arbitrary: l) (simp_all add: lg_emit_def)

lemma output_all_ok: "lg_output l \<Longrightarrow> output_all bs l = Inr (l\<lparr>lg_out := lg_out l @ bs\<rparr>)"
  by (induction bs arbitrary: l) (simp_all add: call_output_def lg_emit_def)

lemma take_ok:
  assumes "log_ok s" "as_pc s = AtLock"
  shows "log_ok ((take_buffers s)\<lparr>as_pc := AtOutput\<rparr>)" "pending ((take_buffers s)\<lparr>as_pc := AtOutput\<rparr>) = pending s"
    "lg_out (as_log (take_buffers s)) = lg_out (as_log s)" "lg_running (as_log (take_buffers s)) = lg_running (as_log s)"
  using assms unfolding take_buffers_def by (auto simp: Let_def async_defs)

lemma write_buffers_ok:
  assumes "log_ok s" "as_pc s = AtOutput"
  shows "\<exists>s'. write_buffers s = Inr s' \<and> log_ok (s'\<lparr>as_pc := AtTest\<rparr>) \<and> concat (lg_out (as_log s')) @ pending s' = concat (lg_out (as_log s)) @ pending s \<and>
    lg_running (as_log s') = lg_running (as_log s) \<and> lg_out (as_log s') = lg_out (as_log s) @ as_todo s"
  using assms unfolding write_buffers_def fold_output by (auto simp: Let_def async_defs)

lemma last_flush_ok:
  assumes "log_ok s" "as_pc s = AtFlush"
  shows "\<exists>l. last_flush (as_log s) = Inr l \<and> concat (lg_out l) = concat (lg_out (as_log s)) @ pending s \<and> log_ok (s\<lparr>as_log := l, as_pc := Ended\<rparr>)"
  using assms unfolding last_flush_def by (auto simp: async_defs output_all_ok call_output_def)

text \<open>No step of the thread fails, and until its end what it has written and what is pending are all messages.\<close>

lemma thread_step_ok:
  assumes "log_ok s" "thread_step s = Some r"
  shows "\<exists>s'. r = Inr s' \<and> log_ok s' \<and> (as_pc s' \<noteq> Ended \<longrightarrow> concat (lg_out (as_log s')) @ pending s' = concat (lg_out (as_log s)) @ pending s) \<and>
    (as_pc s' = Ended \<longrightarrow> as_pc s = AtFlush \<and> concat (lg_out (as_log s')) = concat (lg_out (as_log s)) @ pending s)"
proof (cases "as_pc s")
  case AtTest
  then show ?thesis using assms by (auto simp: thread_step_def async_defs split: if_splits)
next
  case AtLock
  then show ?thesis using assms take_ok [OF assms(1) AtLock] by (auto simp: thread_step_def split: if_splits)
next
  case AtOutput
  then show ?thesis using assms write_buffers_ok [OF assms(1) AtOutput] by (auto simp: thread_step_def pending_def)
next
  case AtFlush
  then show ?thesis using assms last_flush_ok [OF assms(1) AtFlush] by (auto simp: thread_step_def)
next
  case Ended
  then show ?thesis using assms by (simp add: thread_step_def)
qed

lemma logged_ok:
  assumes "logged s ms"
  shows "log_ok s \<and> (if as_pc s = Ended then \<exists>ks. concat ms = concat (lg_out (as_log s)) @ ks else concat (lg_out (as_log s)) @ pending s = concat ms)"
  using assms
proof induction
  case logged_init
  then show ?case using init_ok by (simp add: lg_Init_def SetOutput_def AsyncLogger_def)
next
  case (logged_write s ms m l)
  then show ?case using write_ok [of s m l] by auto
next
  case (logged_flush s ms stop)
  then show ?case by (auto simp: flush_ok)
next
  case (logged_thread s ms s')
  have "as_pc s \<noteq> Ended" using logged_thread.hyps by (auto simp: thread_step_def)
  then show ?case using logged_thread thread_step_ok [of s "Inr s'"] by auto
qed

section \<open>Properties\<close>


text \<open>A logger with one message, its thread before the mutex.\<close>

definition one_message :: async_log where
  "one_message = \<lparr>as_log = \<lparr>lg_output = True, lg_out = [], lg_buffers = [], lg_current = [1, 2], lg_next = Some [], lg_running = True\<rparr>,
     as_pc = AtLock, as_tmp1 = Some [], as_todo = []\<rparr>"

definition no_message :: async_log where
  "no_message = one_message\<lparr>as_log := (as_log one_message)\<lparr>lg_current := []\<rparr>\<rparr>"

lemma no_message_logged: "logged no_message []"
proof -
  have "thread_step (lg_Init (SetOutput AsyncLogger)) = Some (Inr no_message)" by (simp add: thread_step_def async_defs no_message_def one_message_def)
  then show ?thesis by (rule logged_thread [OF logged_init])
qed

lemma one_message_logged: "logged one_message [[1, 2]]"
proof -
  have "lg_Write (as_log no_message) [1, 2] = Inr (as_log one_message)" by (simp add: lg_Write_def async_defs lg_kBufferSize_def no_message_def one_message_def)
  from logged_write [OF no_message_logged this] show ?thesis by (simp add: no_message_def one_message_def)
qed


text \<open>The thread alone, for some steps.\<close>

fun thread_run :: "nat \<Rightarrow> async_log \<Rightarrow> async_log result option" where
  "thread_run 0 s = Some (Inr s)"
| "thread_run (Suc n) s = (case thread_step s of None \<Rightarrow> None | Some (Inl e) \<Rightarrow> Some (Inl e) | Some (Inr s') \<Rightarrow> thread_run n s')"

lemma logged_run: "logged s ms \<Longrightarrow> thread_run n s = Some (Inr s') \<Longrightarrow> logged s' ms"
  by (induction n arbitrary: s) (auto split: option.splits sum.splits intro: logged_thread)

lemma thread_run_Suc: "thread_step s = Some (Inr s') \<Longrightarrow> thread_run (Suc n) s = thread_run n s'"
  by simp

lemma test_to_end:
  assumes "log_ok s" "as_pc s = AtTest" "\<not> lg_running (as_log s)"
  shows "\<exists>s'. thread_run 2 s = Some (Inr s') \<and> as_pc s' = Ended \<and> concat (lg_out (as_log s')) = concat (lg_out (as_log s)) @ pending s"
proof -
  let ?s = "s\<lparr>as_pc := AtFlush\<rparr>"
  have "thread_step s = Some (Inr ?s)" using assms(2,3) by (simp add: thread_step_def)
  moreover have "log_ok ?s" "pending ?s = pending s" using assms(1,2) by (simp_all add: log_ok_def pending_def)
  ultimately show ?thesis using last_flush_ok [of ?s] by (auto simp: thread_step_def numeral_2_eq_2)
qed

lemma output_to_end:
  assumes "log_ok s" "as_pc s = AtOutput" "\<not> lg_running (as_log s)"
  shows "\<exists>s'. thread_run 3 s = Some (Inr s') \<and> as_pc s' = Ended \<and> concat (lg_out (as_log s')) = concat (lg_out (as_log s)) @ pending s"
proof -
  obtain s1 where s1: "write_buffers s = Inr s1" "log_ok (s1\<lparr>as_pc := AtTest\<rparr>)" "\<not> lg_running (as_log s1)"
      "concat (lg_out (as_log s1)) @ pending s1 = concat (lg_out (as_log s)) @ pending s"
    using write_buffers_ok [OF assms(1,2)] assms(3) by auto
  have "thread_run 3 s = thread_run 2 (s1\<lparr>as_pc := AtTest\<rparr>)" using assms(2) s1(1) by (simp add: thread_step_def numeral_3_eq_3 numeral_2_eq_2)
  moreover have "pending (s1\<lparr>as_pc := AtTest\<rparr>) = pending s1" by (simp add: pending_def)
  ultimately show ?thesis using test_to_end [OF s1(2)] s1(3,4) by auto
qed

text \<open>
  C28. Stopping the logger writes everything: after \<open>Flush(true)\<close> the thread ends within four steps and
  the output function has been given all messages, in order, unless the thread waits for messages.
\<close>

theorem async_log_stops:
  assumes "logged s ms" "as_pc s \<noteq> Ended" "as_pc s \<noteq> AtLock \<or> \<not> keeps_waiting (as_log s)"
  shows "\<exists>n\<le>4. \<exists>s'. thread_run n (s\<lparr>as_log := lg_Flush True (as_log s)\<rparr>) = Some (Inr s') \<and> as_pc s' = Ended \<and> concat (lg_out (as_log s')) = concat ms"
proof -
  let ?s = "s\<lparr>as_log := lg_Flush True (as_log s)\<rparr>"
  have run: "\<not> lg_running (as_log ?s)" by (simp add: lg_Flush_def)
  have ok: "log_ok ?s" "concat (lg_out (as_log ?s)) @ pending ?s = concat ms" using logged_ok [OF logged_flush [OF assms(1)], of True] assms(2) by simp_all
  show ?thesis
  proof (cases "as_pc s")
    case AtTest
    then show ?thesis using test_to_end [OF ok(1)] run ok(2) by (intro exI [of _ 2]) auto
  next
    case AtOutput
    then show ?thesis using output_to_end [OF ok(1)] run ok(2) by (intro exI [of _ 3]) auto
  next
    case AtFlush
    then show ?thesis using last_flush_ok [OF ok(1)] ok(2) by (intro exI [of _ 1]) (auto simp: thread_step_def)
  next
    case AtLock
    let ?t = "(take_buffers ?s)\<lparr>as_pc := AtOutput\<rparr>"
    have "\<not> keeps_waiting (as_log ?s)" using AtLock assms(3) by (simp add: keeps_waiting_def lg_Flush_def)
    then have "thread_run 4 ?s = thread_run 3 ?t" using AtLock thread_run_Suc [of ?s ?t 3] by (simp add: thread_step_def numeral_eq_Suc)
    moreover have "log_ok ?t" "pending ?t = pending ?s" "\<not> lg_running (as_log ?t)" "lg_out (as_log ?t) = lg_out (as_log ?s)"
      using take_ok [OF ok(1)] AtLock run by simp_all
    ultimately show ?thesis using output_to_end [of ?t] ok(2) by (intro exI [of _ 4]) auto
  qed (use assms(2) in simp)
qed

theorem async_log_stops_witness:
  "\<exists>n\<le>4. \<exists>s'. thread_run n (one_message\<lparr>as_log := lg_Flush True (as_log one_message)\<rparr>) = Some (Inr s') \<and> as_pc s' = Ended \<and> concat (lg_out (as_log s')) = [1, 2]"
  using async_log_stops [OF one_message_logged] by (simp add: one_message_def keeps_waiting_def Available_def buf_used_def lg_kBufferSize_def)



text \<open>
  Messages wait until a buffer is full: as long as what has been written fits into one buffer and
  the logger has not ended, nothing is given to the output function, whatever calls of \<open>Flush(false)\<close>
  and steps of the thread there are; the interval of a second does not write anything.
\<close>

theorem async_log_waits_for_full_buffer:
  assumes "logged s ms" "length (concat ms) \<le> lg_kBufferSize" "as_pc s \<noteq> Ended"
  shows "lg_out (as_log s) = []"
proof -
  have "length (concat ms) \<le> lg_kBufferSize \<Longrightarrow> as_pc s \<noteq> Ended \<Longrightarrow> lg_out (as_log s) = [] \<and> lg_buffers (as_log s) = [] \<and> as_todo s = []"
    using assms(1)
  proof induction
    case logged_init
    then show ?case by (simp add: async_defs)
  next
    case (logged_write s ms m l)
    have "length (lg_current (as_log s)) + length m \<le> lg_kBufferSize" using logged_ok [OF logged_write.hyps(1)] logged_write by (simp add: pending_def)
    then have "length m \<le> Available lg_kBufferSize (lg_current (as_log s))" by (simp add: Available_def buf_used_def)
    then have "l = (as_log s)\<lparr>lg_current := lg_current (as_log s) @ m\<rparr>" using logged_write.hyps(2) by (simp add: lg_Write_def buf_Append_def)
    then show ?case using logged_write by auto
  next
    case (logged_flush s ms stop)
    then show ?case by (simp add: lg_Flush_def)
  next
    case (logged_thread s ms s')
    have pc: "as_pc s \<noteq> Ended" using logged_thread.hyps by (auto simp: thread_step_def)
    show ?case using logged_thread pc
      by (auto simp: thread_step_def take_buffers_def write_buffers_def Let_def require_def result_simps split: log_pc.splits if_splits option.splits)
  qed
  then show ?thesis using assms(2,3) by simp
qed

theorem async_log_waits_for_full_buffer_witness: "logged one_message [[1, 2]] \<and> lg_out (as_log one_message) = []"
  using async_log_waits_for_full_buffer [OF one_message_logged] one_message_logged by (simp add: one_message_def lg_kBufferSize_def)

end
