(* ===== verification/Log_Line.thy ===== *)
theory Log_Line
  imports Async_Logger
begin

text \<open>
  The line that a log statement writes: the name of the file without its directories and the
  formatter of \<open>logger/include/log_formatter.h\<close> and \<open>logger/src/log_formatter.cc\<close> with its stream, and the
  levels of \<open>logger/include/logger.hpp\<close>. The text of the header, which \<open>snprintf\<close> makes from the time, is
  an argument; characters are bytes.
\<close>

section \<open>Names of source files\<close>

text \<open>\<open>BasenameRetriever\<close> on a literal of \<open>n\<close> characters before the terminating zero, from \<open>pos\<close> down.\<close>

fun basename_loop :: "string \<Rightarrow> nat \<Rightarrow> nat option" where
  "basename_loop arr 0 = (if arr ! 0 = CHR ''/'' then Some 1 else None)"
| "basename_loop arr (Suc pos) = (if arr ! Suc pos = CHR ''/'' then Some (Suc pos + 1) else basename_loop arr pos)"

text \<open>\<open>arr\<close> is the text without its zero; the loop starts at the zero.\<close>

definition BasenameRetriever :: "string \<Rightarrow> string" where
  "BasenameRetriever arr = (case basename_loop (arr @ [CHR 0x00]) (length arr) of None \<Rightarrow> arr | Some i \<Rightarrow> drop i arr)"

section \<open>Lines\<close>

text \<open>
  The stream behind the header has \<open>kMaxLogLength - header_len_ - 1\<close> bytes; what does not fit is lost.
  The destructor puts a newline behind what was written.
\<close>

definition LogFormatter_line :: "byte list \<Rightarrow> byte list \<Rightarrow> byte list result" where
  "LogFormatter_line header msg =
     (if length header < kMaxLogLength
      then Inr (header @ take (kMaxLogLength - length header - 1) msg @ [10]) else Inl MemoryFault)"

datatype LogLevel = kLogError | kLogWarning | kLogInfo | kLogDebug

fun level_number :: "LogLevel \<Rightarrow> nat" where
  "level_number kLogError = 0"
| "level_number kLogWarning = 1"
| "level_number kLogInfo = 2"
| "level_number kLogDebug = 3"

definition LogLevelNames :: "LogLevel \<Rightarrow> string" where
  "LogLevelNames l = (case l of kLogError \<Rightarrow> ''ERROR'' | kLogWarning \<Rightarrow> ''WARNING'' | kLogInfo \<Rightarrow> ''INFO'' | kLogDebug \<Rightarrow> ''DEBUG'')"

text \<open>\<open>LOG_IF\<close> with the asynchronous logger.\<close>

definition LOG_IF :: "LogLevel \<Rightarrow> LogLevel \<Rightarrow> byte list \<Rightarrow> byte list \<Rightarrow> alogger \<Rightarrow> alogger result" where
  "LOG_IF threshold level header msg l =
     (if level_number threshold < level_number level then Inr l
      else rbind (LogFormatter_line header msg) (lg_Write l))"

section \<open>Properties\<close>

lemma basename_loop_at: "arr ! k = CHR ''/'' \<Longrightarrow> k \<le> n \<Longrightarrow> \<forall>i. k < i \<and> i \<le> n \<longrightarrow> arr ! i \<noteq> CHR ''/'' \<Longrightarrow> basename_loop arr n = Some (Suc k)"
  by (induction n) (auto simp: le_Suc_eq)

lemma basename_loop_none: "\<forall>i\<le>n. arr ! i \<noteq> CHR ''/'' \<Longrightarrow> basename_loop arr n = None"
  by (induction n) auto

text \<open>The name is what stands behind the last slash.\<close>

lemma BasenameRetriever_path:
  assumes "CHR ''/'' \<notin> set f"
  shows "BasenameRetriever (d @ CHR ''/'' # f) = f" "BasenameRetriever f = f"
proof -
  have f: "(f @ [CHR 0x00]) ! i \<noteq> CHR ''/''" if "i \<le> length f" for i
  proof (cases "i = length f")
    case False
    then have i: "i < length f" using that by simp
    have "f ! i \<noteq> CHR ''/''" using assms by (rule contrapos_nn) (use nth_mem [OF i] in simp)
    then show ?thesis using i by (simp add: nth_append)
  qed simp
  have "((d @ CHR ''/'' # f) @ [CHR 0x00]) ! i \<noteq> CHR ''/''" if "length d < i" "i \<le> length (d @ CHR ''/'' # f)" for i
  proof -
    have "i = length d + Suc (i - Suc (length d))" "i - Suc (length d) \<le> length f" using that by auto
    then show ?thesis using f [of "i - Suc (length d)"] nth_append_length_plus [of d "CHR ''/'' # f @ [CHR 0x00]" "Suc (i - Suc (length d))"] by simp
  qed
  then have "basename_loop ((d @ CHR ''/'' # f) @ [CHR 0x00]) (length (d @ CHR ''/'' # f)) = Some (Suc (length d))"
    by (intro basename_loop_at) (auto simp: nth_append)
  then show "BasenameRetriever (d @ CHR ''/'' # f) = f" unfolding BasenameRetriever_def by simp
  show "BasenameRetriever f = f" unfolding BasenameRetriever_def using basename_loop_none [of "length f" "f @ [CHR 0x00]"] f by simp
qed

lemma LogFormatter_length: "LogFormatter_line header msg = Inr line \<Longrightarrow> length line \<le> kMaxLogLength"
  by (auto simp: LogFormatter_line_def split: if_splits)

text \<open>
  A log statement never fails and cuts long messages only: with a header that leaves room in the
  line, in every state of the logger, a message at a level that is logged becomes one line of at most
  4096 bytes, header first and newline last, with all of the message that fits; other levels leave
  the logger alone.
\<close>

theorem log_statement_logs_line:
  assumes "logged s ms" "length header < kMaxLogLength"
  shows "\<exists>l. LOG_IF threshold level header msg (as_log s) = Inr l \<and>
    logged (s\<lparr>as_log := l\<rparr>) (if level_number level \<le> level_number threshold then ms @ [header @ take (kMaxLogLength - length header - 1) msg @ [10]] else ms)"
proof (cases "level_number level \<le> level_number threshold")
  case True
  let ?line = "header @ take (kMaxLogLength - length header - 1) msg @ [10]"
  have line: "LogFormatter_line header msg = Inr ?line" using assms(2) by (simp add: LogFormatter_line_def)
  then have "length ?line \<le> lg_kBufferSize" using LogFormatter_length [OF line] by (simp add: kMaxLogLength_def lg_kBufferSize_def)
  then obtain l where "lg_Write (as_log s) ?line = Inr l" using write_succeeds logged_ok [OF assms(1)] by blast
  then show ?thesis using logged_write [OF assms(1)] line True by (auto simp: LOG_IF_def)
next
  case False
  then show ?thesis using assms(1) by (simp add: LOG_IF_def)
qed

theorem log_statement_logs_line_witness:
  "\<exists>l. LOG_IF kLogDebug kLogError [1] [2, 3] (as_log one_message) = Inr l \<and> logged (one_message\<lparr>as_log := l\<rparr>) [[1, 2], [1, 2, 3, 10]]"
  using log_statement_logs_line [OF one_message_logged, of "[1]" kLogDebug kLogError "[2, 3]"] by (simp add: kMaxLogLength_def)

end
