(* ===== verification/Log_Files.thy ===== *)
theory Log_Files
  imports Async_Logger
begin

text \<open>
  Log files that are rotated: \<open>LogFile\<close> and \<open>LogMMapFile\<close> of \<open>logger/src\<close>, \<open>LogCFile\<close> and \<open>LogFdFile\<close> of
  \<open>LogFiles/src\<close>. The file system is a map from names to contents, and the answers of the system calls
  that a call of \<open>Append\<close> makes are its argument: the text of the time, whether a file can be opened,
  how many bytes are written, whether memory can be mapped. The mutex, where there is one, is held for
  the whole call. The locale \<open>rotating_log\<close> is what three of the classes have in common.
\<close>

section \<open>The system\<close>

record log_io =
  io_stamp :: "string option"
  io_opens :: bool
  io_wrote :: "nat option"
  io_maps :: bool

type_synonym files = "string \<rightharpoonup> byte list"

text \<open>Opening a file to append to it, which makes it if there is none.\<close>

definition fs_open :: "string \<Rightarrow> files \<Rightarrow> files" where
  "fs_open name fs = (case fs name of None \<Rightarrow> fs(name \<mapsto> []) | Some b \<Rightarrow> fs)"

definition fs_append :: "string \<Rightarrow> byte list \<Rightarrow> files \<Rightarrow> files" where
  "fs_append name bs fs = (case fs name of None \<Rightarrow> fs(name \<mapsto> bs) | Some b \<Rightarrow> fs(name \<mapsto> b @ bs))"

definition fs_truncate :: "string \<Rightarrow> nat \<Rightarrow> files \<Rightarrow> files" where
  "fs_truncate name n fs = (case fs name of None \<Rightarrow> fs | Some b \<Rightarrow> fs(name \<mapsto> take n b @ replicate (n - length b) 0))"

definition MakeLogFilename :: "string \<Rightarrow> string \<Rightarrow> string option \<Rightarrow> string" where
  "MakeLogFilename prefix suffix stamp =
     (case stamp of None \<Rightarrow> prefix | Some buf \<Rightarrow> prefix @ buf @ (if suffix = [] then [] else ''.'' @ suffix))"

section \<open>Files that are written to\<close>

text \<open>The members of the three classes; \<open>ls_open\<close> says whether \<open>fp_\<close> or \<open>fd_\<close> is a file, \<open>ls_name\<close> which.\<close>

record log_sink =
  ls_open :: bool
  ls_name :: string
  ls_prefix :: string
  ls_suffix :: string
  ls_rotate :: nat
  ls_written :: nat
  ls_fs :: files

definition ls_write :: "byte list \<Rightarrow> log_sink \<Rightarrow> log_sink" where
  "ls_write bs s = s\<lparr>ls_fs := fs_append (ls_name s) bs (ls_fs s), ls_written := ls_written s + length bs\<rparr>"

definition next_name :: "log_io \<Rightarrow> log_sink \<Rightarrow> string" where
  "next_name io s = MakeLogFilename (ls_prefix s) (ls_suffix s) (io_stamp io)"

subsection \<open>LogFile\<close>

definition LogFile_open :: "log_io \<Rightarrow> log_sink \<Rightarrow> log_sink result" where
  "LogFile_open io s =
     require (io_opens io) (Inr (s\<lparr>ls_open := True, ls_name := next_name io s, ls_fs := fs_open (next_name io s) (ls_fs s)\<rparr>))"

definition LogFile :: "log_io \<Rightarrow> string \<Rightarrow> string \<Rightarrow> nat \<Rightarrow> files \<Rightarrow> log_sink result" where
  "LogFile io prefix suffix rotate_size fs =
     require (prefix \<noteq> [])
       (LogFile_open io \<lparr>ls_open = False, ls_name = [], ls_prefix = prefix, ls_suffix = suffix, ls_rotate = rotate_size, ls_written = 0, ls_fs = fs\<rparr>)"

definition LogFile_RotateFile :: "log_io \<Rightarrow> log_sink \<Rightarrow> log_sink result" where
  "LogFile_RotateFile io s = require (ls_open s) (LogFile_open io (s\<lparr>ls_open := False\<rparr>))"

definition LogFile_Append :: "log_io \<Rightarrow> log_sink \<Rightarrow> byte list \<Rightarrow> log_sink result" where
  "LogFile_Append io s buf =
     (let bytes = (case io_wrote io of None \<Rightarrow> 0 | Some n \<Rightarrow> n);
          s1 = ls_write (take bytes buf) s
      in require (bytes = length buf)
        (if ls_rotate s1 < ls_written s1 then rbind (LogFile_RotateFile io s1) (\<lambda>s2. Inr (s2\<lparr>ls_written := 0\<rparr>)) else Inr s1))"

subsection \<open>LogCFile and LogFdFile\<close>

definition LogCFile_RotateFile :: "log_io \<Rightarrow> log_sink \<Rightarrow> log_sink result" where
  "LogCFile_RotateFile io s =
     require (io_opens io)
       (Inr (s\<lparr>ls_open := True, ls_name := next_name io s, ls_fs := fs_open (next_name io s) (ls_fs s), ls_written := 0\<rparr>))"

definition LogCFile :: "log_io \<Rightarrow> string \<Rightarrow> string \<Rightarrow> nat \<Rightarrow> files \<Rightarrow> log_sink result" where
  "LogCFile io prefix suffix rotate_size fs =
     LogCFile_RotateFile io \<lparr>ls_open = False, ls_name = [], ls_prefix = prefix, ls_suffix = suffix, ls_rotate = rotate_size, ls_written = 0, ls_fs = fs\<rparr>"

definition LogCFile_Append :: "log_io \<Rightarrow> log_sink \<Rightarrow> byte list \<Rightarrow> log_sink result" where
  "LogCFile_Append io s buf =
     rbind (if ls_rotate s \<le> ls_written s then LogCFile_RotateFile io s else Inr s) (\<lambda>s1.
       require (ls_open s1)
         (let s2 = ls_write (take (case io_wrote io of None \<Rightarrow> 0 | Some n \<Rightarrow> n) buf) s1
          in require (ls_open s2) (Inr s2)))"

definition LogFdFile_RotateFile :: "log_io \<Rightarrow> log_sink \<Rightarrow> log_sink result" where
  "LogFdFile_RotateFile io s =
     require (io_opens io)
       (Inr (s\<lparr>ls_open := True, ls_name := next_name io s, ls_fs := fs_open (next_name io s) (ls_fs s), ls_written := 0\<rparr>))"

definition LogFdFile :: "log_io \<Rightarrow> string \<Rightarrow> string \<Rightarrow> nat \<Rightarrow> files \<Rightarrow> log_sink result" where
  "LogFdFile io prefix suffix rotate_size fs =
     LogFdFile_RotateFile io \<lparr>ls_open = False, ls_name = [], ls_prefix = prefix, ls_suffix = suffix, ls_rotate = rotate_size, ls_written = 0, ls_fs = fs\<rparr>"

text \<open>A failed \<open>write\<close> is reported and not counted.\<close>

definition LogFdFile_Append :: "log_io \<Rightarrow> log_sink \<Rightarrow> byte list \<Rightarrow> log_sink result" where
  "LogFdFile_Append io s buf =
     rbind (if ls_rotate s \<le> ls_written s then LogFdFile_RotateFile io s else Inr s) (\<lambda>s1.
       let s2 = (case io_wrote io of None \<Rightarrow> s1 | Some n \<Rightarrow> ls_write (take n buf) s1)
       in require (ls_open s2) (Inr s2))"

section \<open>Files that are mapped\<close>

text \<open>\<open>mm_mem\<close> is the mapped memory, none when the mapping failed.\<close>

record mmap_sink =
  mm_name :: string
  mm_logname :: string
  mm_rotate :: nat
  mm_written :: nat
  mm_mem :: "byte list option"
  mm_fs :: files

text \<open>
  \<open>MAP_ANONYMOUS\<close> makes the mapping independent of the file: new memory, all zero.
\<close>

definition MakeMMap :: "log_io \<Rightarrow> mmap_sink \<Rightarrow> mmap_sink" where
  "MakeMMap io s = s\<lparr>mm_fs := fs_truncate (mm_name s) (mm_rotate s) (mm_fs s), mm_mem := if io_maps io then Some (replicate (mm_rotate s) 0) else None\<rparr>"

definition LogMMapFile_open :: "log_io \<Rightarrow> mmap_sink \<Rightarrow> mmap_sink result" where
  "LogMMapFile_open io s =
     (let name = MakeLogFilename (mm_logname s) [] (io_stamp io)
      in require (io_opens io) (Inr (MakeMMap io (s\<lparr>mm_name := name, mm_fs := fs_open name (mm_fs s)\<rparr>))))"

definition LogMMapFile :: "log_io \<Rightarrow> string \<Rightarrow> nat \<Rightarrow> files \<Rightarrow> mmap_sink result" where
  "LogMMapFile io logname rotate_size fs =
     LogMMapFile_open io \<lparr>mm_name = [], mm_logname = logname, mm_rotate = rotate_size, mm_written = 0, mm_mem = None, mm_fs = fs\<rparr>"

definition LogMMapFile_Append :: "log_io \<Rightarrow> mmap_sink \<Rightarrow> byte list \<Rightarrow> mmap_sink result" where
  "LogMMapFile_Append io s buf =
     rbind (if mm_rotate s < mm_written s + length buf then rbind (LogMMapFile_open io s) (\<lambda>s1. Inr (s1\<lparr>mm_written := 0\<rparr>)) else Inr s) (\<lambda>s1.
       case mm_mem s1 of None \<Rightarrow> Inl MemoryFault
       | Some mem \<Rightarrow> if mm_written s1 + length buf \<le> length mem
           then Inr (s1\<lparr>mm_mem := Some (take (mm_written s1) mem @ buf @ drop (mm_written s1 + length buf) mem), mm_written := mm_written s1 + length buf\<rparr>)
           else Inl MemoryFault)"

definition LogMMapFile_close :: "mmap_sink \<Rightarrow> mmap_sink" where
  "LogMMapFile_close s = s\<lparr>mm_mem := None, mm_fs := fs_truncate (mm_name s) (mm_written s) (mm_fs s)\<rparr>"

section \<open>What rotating logs promise\<close>

text \<open>
  A log is a list of files with names and contents in the order they were opened, the last one open.
  \<open>L\<close> bounds the length of messages.
\<close>

text \<open>A client that appends messages, each with the answers of the system.\<close>

fun append_all :: "(log_io \<Rightarrow> 's \<Rightarrow> byte list \<Rightarrow> 's result) \<Rightarrow> (log_io \<times> byte list) list \<Rightarrow> 's \<Rightarrow> 's result" where
  "append_all app [] s = Inr s"
| "append_all app ((io, m) # xs) s = rbind (app io s m) (append_all app xs)"

fun all_ready :: "(log_io \<Rightarrow> 's \<Rightarrow> byte list \<Rightarrow> bool) \<Rightarrow> (log_io \<Rightarrow> 's \<Rightarrow> byte list \<Rightarrow> 's result) \<Rightarrow> (log_io \<times> byte list) list \<Rightarrow> 's \<Rightarrow> bool" where
  "all_ready ready app [] s = True"
| "all_ready ready app ((io, m) # xs) s = (ready io s m \<and> (case app io s m of Inl e \<Rightarrow> True | Inr t \<Rightarrow> all_ready ready app xs t))"

locale rotating_log =
  fixes rep :: "'s \<Rightarrow> (string \<times> byte list) list \<Rightarrow> bool"
    and ready :: "log_io \<Rightarrow> 's \<Rightarrow> byte list \<Rightarrow> bool"
    and app :: "log_io \<Rightarrow> 's \<Rightarrow> byte list \<Rightarrow> 's result"
    and content :: "'s \<Rightarrow> string \<rightharpoonup> byte list"
    and rotate_size :: "'s \<Rightarrow> nat"
    and L :: nat
  assumes app_law: "rep s fs \<Longrightarrow> ready io s m \<Longrightarrow> \<exists>t gs. app io s m = Inr t \<and> rep t gs \<and> concat (map snd gs) = concat (map snd fs) @ m \<and> rotate_size t = rotate_size s"
    and content_law: "rep s fs \<Longrightarrow> (n, c) \<in> set fs \<Longrightarrow> content s n = Some c"
    and size_law: "rep s fs \<Longrightarrow> f \<in> set (butlast fs) \<Longrightarrow> rotate_size s \<le> length (snd f) \<and> length (snd f) \<le> rotate_size s + L"
begin

lemma appends_kept:
  "rep s fs \<Longrightarrow> all_ready ready app xs s \<Longrightarrow>
    \<exists>t gs. append_all app xs s = Inr t \<and> rep t gs \<and> concat (map snd gs) = concat (map snd fs) @ concat (map snd xs) \<and> rotate_size t = rotate_size s"
proof (induction xs arbitrary: s fs)
  case (Cons x xs)
  obtain io m where x: "x = (io, m)" by (cases x)
  obtain t gs where t: "app io s m = Inr t" "rep t gs" "concat (map snd gs) = concat (map snd fs) @ m" "rotate_size t = rotate_size s"
    using app_law [OF Cons.prems(1), of io m] Cons.prems(2) x by auto
  then show ?case using Cons.IH [OF t(2)] Cons.prems(2) x by auto
qed auto

end

subsection \<open>The three classes\<close>

definition sink_rep :: "nat \<Rightarrow> log_sink \<Rightarrow> (string \<times> byte list) list \<Rightarrow> bool" where
  "sink_rep L s fs \<longleftrightarrow> fs \<noteq> [] \<and> ls_open s \<and> fst (last fs) = ls_name s \<and> length (snd (last fs)) = ls_written s \<and> distinct (map fst fs) \<and>
     (\<forall>n c. (n, c) \<in> set fs \<longrightarrow> ls_fs s n = Some c) \<and> (\<forall>f\<in>set (butlast fs). ls_rotate s \<le> length (snd f) \<and> length (snd f) \<le> ls_rotate s + L) \<and>
     ls_written s \<le> ls_rotate s + L"

text \<open>The system does what it is asked for, and the name of the next file is new.\<close>

definition sink_ready :: "nat \<Rightarrow> log_io \<Rightarrow> log_sink \<Rightarrow> byte list \<Rightarrow> bool" where
  "sink_ready L io s m \<longleftrightarrow> io_opens io \<and> io_wrote io = Some (length m) \<and> length m \<le> L \<and> ls_fs s (next_name io s) = None"

lemma sink_repE:
  assumes "sink_rep L s fs"
  obtains gs c where "fs = gs @ [(ls_name s, c)]" "length c = ls_written s" "ls_name s \<notin> fst ` set gs" "ls_fs s (ls_name s) = Some c"
  using assms unfolding sink_rep_def by (cases fs rule: rev_cases) auto

lemma sink_write:
  assumes "sink_rep L s (gs @ [(ls_name s, c)])" "ls_written s + length m \<le> ls_rotate s + L"
  shows "sink_rep L (ls_write m s) (gs @ [(ls_name s, c @ m)])"
proof -
  have d: "ls_name s \<notin> fst ` set gs" "\<And>n e. (n, e) \<in> set gs \<Longrightarrow> ls_fs s n = Some e" "ls_fs s (ls_name s) = Some c"
    using assms(1) unfolding sink_rep_def by auto
  have "ls_fs (ls_write m s) n = Some e" if "(n, e) \<in> set (gs @ [(ls_name s, c @ m)])" for n e
  proof (cases "n = ls_name s")
    case True
    then have "e = c @ m" using that d(1) by (auto simp: image_iff)
    then show ?thesis using True d(3) by (simp add: ls_write_def fs_append_def)
  next
    case False
    then show ?thesis using that d(2) [of n e] d(3) by (auto simp: ls_write_def fs_append_def)
  qed
  then show ?thesis using assms unfolding sink_rep_def by (simp add: ls_write_def)
qed

lemma sink_new:
  assumes "sink_rep L s fs" "ls_fs s n = None" "ls_rotate s \<le> ls_written s"
  shows "sink_rep L (s\<lparr>ls_open := True, ls_name := n, ls_fs := fs_open n (ls_fs s), ls_written := 0\<rparr>) (fs @ [(n, [])])"
  using assms(1)
proof (rule sink_repE)
  fix gs c assume fs: "fs = gs @ [(ls_name s, c)]" "length c = ls_written s"
  then show ?thesis using assms unfolding sink_rep_def fs_open_def by (auto simp: butlast_append)
qed

lemma LogFile_Append_rep:
  assumes "sink_rep L s fs" "ls_written s \<le> ls_rotate s" "sink_ready L io s m"
  shows "\<exists>t gs. LogFile_Append io s m = Inr t \<and> sink_rep L t gs \<and> ls_written t \<le> ls_rotate t \<and> concat (map snd gs) = concat (map snd fs) @ m \<and> ls_rotate t = ls_rotate s"
  using assms(1)
proof (rule sink_repE)
  fix gs c assume fs: "fs = gs @ [(ls_name s, c)]"
  let ?s = "ls_write m s"
  have r: "io_opens io" "io_wrote io = Some (length m)" "length m \<le> L" "ls_fs s (next_name io s) = None" using assms(3) by (auto simp: sink_ready_def)
  have rep: "sink_rep L ?s (gs @ [(ls_name s, c @ m)])" using sink_write [of L s gs c m] assms(1,2) fs r(3) by simp
  have n: "next_name io ?s = next_name io s" "next_name io s \<noteq> ls_name s" "ls_rotate ?s = ls_rotate s" "ls_open ?s"
    using r(4) assms(1) fs by (auto simp: next_name_def ls_write_def sink_rep_def)
  show ?thesis
  proof (cases "ls_rotate s < ls_written ?s")
    case True
    have "ls_fs ?s (next_name io s) = None" using r(4) n(2) by (auto simp: ls_write_def fs_append_def split: option.splits)
    from sink_new [OF rep this] True n(3)
    have "sink_rep L (?s\<lparr>ls_open := True, ls_name := next_name io s, ls_fs := fs_open (next_name io s) (ls_fs ?s), ls_written := 0\<rparr>)
      ((gs @ [(ls_name s, c @ m)]) @ [(next_name io s, [])])" by simp
    moreover have "LogFile_Append io s m = Inr (?s\<lparr>ls_open := True, ls_name := next_name io s, ls_fs := fs_open (next_name io s) (ls_fs ?s), ls_written := 0\<rparr>)"
      using True r(1,2) n by (simp add: LogFile_Append_def LogFile_RotateFile_def LogFile_open_def Let_def) (simp add: next_name_def)
    ultimately show ?thesis using n(3) fs
      by (intro exI [of _ "?s\<lparr>ls_open := True, ls_name := next_name io s, ls_fs := fs_open (next_name io s) (ls_fs ?s), ls_written := 0\<rparr>"]
        exI [of _ "(gs @ [(ls_name s, c @ m)]) @ [(next_name io s, [])]"]) simp
  next
    case False
    then show ?thesis using r n fs rep by (auto simp: LogFile_Append_def)
  qed
qed

lemma LogCFile_Append_rep:
  assumes "sink_rep L s fs" "sink_ready L io s m"
  shows "\<exists>t gs. LogCFile_Append io s m = Inr t \<and> sink_rep L t gs \<and> concat (map snd gs) = concat (map snd fs) @ m \<and> ls_rotate t = ls_rotate s"
proof -
  have r: "io_opens io" "io_wrote io = Some (length m)" "length m \<le> L" "ls_fs s (next_name io s) = None" using assms(2) by (auto simp: sink_ready_def)
  obtain s1 fs1 where s1: "(if ls_rotate s \<le> ls_written s then LogCFile_RotateFile io s else Inr s) = Inr s1" "sink_rep L s1 fs1"
      "concat (map snd fs1) = concat (map snd fs)" "ls_rotate s1 = ls_rotate s" "ls_written s1 + length m \<le> ls_rotate s + L"
  proof (cases "ls_rotate s \<le> ls_written s")
    case True
    then show thesis using sink_new [OF assms(1) r(4)] r(1,3)
      by (intro that [of "s\<lparr>ls_open := True, ls_name := next_name io s, ls_fs := fs_open (next_name io s) (ls_fs s), ls_written := 0\<rparr>" "fs @ [(next_name io s, [])]"])
        (auto simp: LogCFile_RotateFile_def)
  next
    case False
    then show thesis using assms(1) r(3) by (intro that [of s fs]) auto
  qed
  obtain gs c where g: "fs1 = gs @ [(ls_name s1, c)]" using sink_repE [OF s1(2)] by blast
  have "ls_open s1" using s1(2) by (simp add: sink_rep_def)
  then have "LogCFile_Append io s m = Inr (ls_write m s1)" using s1(1) r(2) by (simp add: LogCFile_Append_def ls_write_def)
  moreover have "sink_rep L (ls_write m s1) (gs @ [(ls_name s1, c @ m)])" using sink_write [of L s1 gs c m] s1(2,4,5) g by simp
  ultimately show ?thesis using s1(3,4) g by (auto simp: ls_write_def)
qed

text \<open>When the system does what it is asked for, the two classes do the same.\<close>

lemma LogFdFile_LogCFile: "sink_ready L io s m \<Longrightarrow> ls_open s \<Longrightarrow> LogFdFile_Append io s m = LogCFile_Append io s m"
  by (auto simp: LogFdFile_Append_def LogCFile_Append_def LogFdFile_RotateFile_def LogCFile_RotateFile_def sink_ready_def ls_write_def Let_def)

lemma sink_content: "sink_rep L s fs \<Longrightarrow> (n, c) \<in> set fs \<Longrightarrow> ls_fs s n = Some c"
  by (auto simp: sink_rep_def)

lemma sink_sizes: "sink_rep L s fs \<Longrightarrow> f \<in> set (butlast fs) \<Longrightarrow> ls_rotate s \<le> length (snd f) \<and> length (snd f) \<le> ls_rotate s + L"
  by (auto simp: sink_rep_def)

interpretation lf: rotating_log "\<lambda>s fs. sink_rep L s fs \<and> ls_written s \<le> ls_rotate s" "sink_ready L" LogFile_Append ls_fs ls_rotate L for L
proof
  fix s fs io m
  assume "sink_rep L s fs \<and> ls_written s \<le> ls_rotate s" "sink_ready L io s m"
  then show "\<exists>t gs. LogFile_Append io s m = Inr t \<and> (sink_rep L t gs \<and> ls_written t \<le> ls_rotate t) \<and> concat (map snd gs) = concat (map snd fs) @ m \<and> ls_rotate t = ls_rotate s"
    using LogFile_Append_rep [of L s fs io m] by auto
qed (use sink_content sink_sizes in blast)+

interpretation lc: rotating_log "sink_rep L" "sink_ready L" LogCFile_Append ls_fs ls_rotate L for L
  by unfold_locales (use LogCFile_Append_rep sink_content sink_sizes in blast)+

interpretation ld: rotating_log "sink_rep L" "sink_ready L" LogFdFile_Append ls_fs ls_rotate L for L
proof
  fix s fs io m
  assume a: "sink_rep L s fs" "sink_ready L io s m"
  then have "LogFdFile_Append io s m = LogCFile_Append io s m" by (intro LogFdFile_LogCFile) (auto simp: sink_rep_def)
  then show "\<exists>t gs. LogFdFile_Append io s m = Inr t \<and> sink_rep L t gs \<and> concat (map snd gs) = concat (map snd fs) @ m \<and> ls_rotate t = ls_rotate s"
    using LogCFile_Append_rep [OF a] by simp
qed (use sink_content sink_sizes in blast)+

section \<open>Properties\<close>

lemma sink_start: "fs n = None \<Longrightarrow> sink_rep L \<lparr>ls_open = True, ls_name = n, ls_prefix = p, ls_suffix = x, ls_rotate = R, ls_written = 0, ls_fs = fs_open n fs\<rparr> [(n, [])]"
  by (simp add: sink_rep_def fs_open_def)

text \<open>The three classes, with their constructors.\<close>

definition log_classes :: "((log_io \<Rightarrow> string \<Rightarrow> string \<Rightarrow> nat \<Rightarrow> files \<Rightarrow> log_sink result) \<times> (log_io \<Rightarrow> log_sink \<Rightarrow> byte list \<Rightarrow> log_sink result)) set" where
  "log_classes = {(LogFile, LogFile_Append), (LogCFile, LogCFile_Append), (LogFdFile, LogFdFile_Append)}"

lemma log_class_start:
  assumes "(new, app) \<in> log_classes" "io_opens io" "prefix \<noteq> []" "fs (MakeLogFilename prefix suffix (io_stamp io)) = None"
  shows "\<exists>s. new io prefix suffix R fs = Inr s \<and> ls_rotate s = R \<and> sink_rep L s [(ls_name s, [])] \<and> ls_written s \<le> ls_rotate s"
  using assms sink_start [of fs "MakeLogFilename prefix suffix (io_stamp io)" L prefix suffix R]
  by (auto simp: log_classes_def LogFile_def LogFile_open_def LogCFile_def LogCFile_RotateFile_def LogFdFile_def LogFdFile_RotateFile_def next_name_def)

lemma log_class_run:
  assumes "(new, app) \<in> log_classes" "sink_rep L s fs" "ls_written s \<le> ls_rotate s" "all_ready (sink_ready L) app xs s"
  shows "\<exists>t gs. append_all app xs s = Inr t \<and> sink_rep L t gs \<and> concat (map snd gs) = concat (map snd fs) @ concat (map snd xs) \<and> ls_rotate t = ls_rotate s"
  using assms lf.appends_kept [of L s fs xs] lc.appends_kept [of L s fs xs] ld.appends_kept [of L s fs xs] by (auto simp: log_classes_def)

text \<open>
  A log loses nothing: for each of \<open>LogFile\<close>, \<open>LogCFile\<close> and \<open>LogFdFile\<close>, when the system calls
  succeed and every new file gets a name that is not in use, all appends succeed, and the contents of
  the files, in the order they were opened, are the messages in their order. A file that has been
  closed holds at least the rotation size, and exceeds it by no more than a message.
\<close>

theorem log_files_keep_messages:
  assumes "(new, app) \<in> log_classes" "io_opens io" "prefix \<noteq> []" "fs (MakeLogFilename prefix suffix (io_stamp io)) = None"
    "\<forall>s. new io prefix suffix R fs = Inr s \<longrightarrow> all_ready (sink_ready L) app xs s"
  shows "\<exists>s t gs. new io prefix suffix R fs = Inr s \<and> append_all app xs s = Inr t \<and> (\<forall>n c. (n, c) \<in> set gs \<longrightarrow> ls_fs t n = Some c) \<and>
    concat (map snd gs) = concat (map snd xs) \<and> (\<forall>f\<in>set (butlast gs). R \<le> length (snd f) \<and> length (snd f) \<le> R + L)"
proof -
  obtain s where s: "new io prefix suffix R fs = Inr s" "ls_rotate s = R" "sink_rep L s [(ls_name s, [])]" "ls_written s \<le> ls_rotate s"
    using log_class_start [where fs = fs and suffix = suffix, OF assms(1-4)] by blast
  obtain t gs where t: "append_all app xs s = Inr t" "sink_rep L t gs" "concat (map snd gs) = concat (map snd xs)" "ls_rotate t = R"
    using log_class_run [OF assms(1) s(3,4), of xs] assms(5) s(1,2) by auto
  then show ?thesis using s(1) sink_content [OF t(2)] sink_sizes [OF t(2)] by (intro exI [of _ s] exI [of _ t] exI [of _ gs]) auto
qed

definition good_io :: "string \<Rightarrow> nat \<Rightarrow> log_io" where
  "good_io stamp n = \<lparr>io_stamp = Some stamp, io_opens = True, io_wrote = Some n, io_maps = True\<rparr>"

theorem log_files_keep_messages_witness:
  "\<exists>s t gs. LogFile (good_io ''.1'' 0) ''log'' [] 3 Map.empty = Inr s \<and>
    append_all LogFile_Append [(good_io ''.2'' 2, [1, 2]), (good_io ''.3'' 2, [3, 4]), (good_io ''.4'' 1, [5])] s = Inr t \<and>
    (\<forall>n c. (n, c) \<in> set gs \<longrightarrow> ls_fs t n = Some c) \<and> concat (map snd gs) = [1, 2, 3, 4, 5] \<and> (\<forall>f\<in>set (butlast gs). 3 \<le> length (snd f) \<and> length (snd f) \<le> 5)"
  using log_files_keep_messages [of LogFile LogFile_Append "good_io ''.1'' 0" "''log''" Map.empty "[]" 3 2
      "[(good_io ''.2'' 2, [1, 2]), (good_io ''.3'' 2, [3, 4]), (good_io ''.4'' 1, [5])]"]
  by (simp add: log_classes_def good_io_def LogFile_def LogFile_open_def LogFile_Append_def LogFile_RotateFile_def next_name_def MakeLogFilename_def
    sink_ready_def ls_write_def fs_open_def fs_append_def Let_def)


text \<open>The logger of one message, stopped.\<close>

definition stopped :: async_log where
  "stopped = \<lparr>as_log = \<lparr>lg_output = True, lg_out = [[1, 2]], lg_buffers = [], lg_current = [1, 2], lg_next = Some [], lg_running = False\<rparr>,
     as_pc = Ended, as_tmp1 = Some [], as_todo = []\<rparr>"

lemma stopped_logged: "logged stopped [[1, 2]]"
proof (rule logged_run)
  show "logged (one_message\<lparr>as_log := lg_Flush True (as_log one_message)\<rparr>) [[1, 2]]" by (rule logged_flush [OF one_message_logged])
  show "thread_run (Suc (Suc (Suc (Suc 0)))) (one_message\<lparr>as_log := lg_Flush True (as_log one_message)\<rparr>) = Some (Inr stopped)"
    by (simp add: one_message_def stopped_def thread_step_def keeps_waiting_def take_buffers_def write_buffers_def last_flush_def
      call_output_def async_defs lg_kBufferSize_def Let_def)
qed


definition zero_files :: "files \<Rightarrow> bool" where
  "zero_files fs \<longleftrightarrow> (\<forall>n c. fs n = Some c \<longrightarrow> set c \<subseteq> {0})"

lemma zero_files_open: "zero_files fs \<Longrightarrow> zero_files (fs_open n fs)"
  by (auto simp: zero_files_def fs_open_def split: option.splits if_splits)

lemma zero_files_truncate: "zero_files fs \<Longrightarrow> zero_files (fs_truncate n k fs)"
  by (fastforce simp: zero_files_def fs_truncate_def split: option.splits if_splits dest: in_set_takeD)

lemma LogMMapFile_open_zero: "zero_files (mm_fs s) \<Longrightarrow> LogMMapFile_open io s = Inr t \<Longrightarrow> zero_files (mm_fs t)"
  by (auto simp: LogMMapFile_open_def MakeMMap_def Let_def result_simps zero_files_open zero_files_truncate)

lemma LogMMapFile_Append_zero: "zero_files (mm_fs s) \<Longrightarrow> LogMMapFile_Append io s m = Inr t \<Longrightarrow> zero_files (mm_fs t)"
proof -
  assume z: "zero_files (mm_fs s)" and a: "LogMMapFile_Append io s m = Inr t"
  obtain s1 where s1: "(if mm_rotate s < mm_written s + length m then rbind (LogMMapFile_open io s) (\<lambda>s1. Inr (s1\<lparr>mm_written := 0\<rparr>)) else Inr s) = Inr s1" "mm_fs t = mm_fs s1"
    using a by (auto simp: LogMMapFile_Append_def result_simps split: option.splits if_splits)
  then show "zero_files (mm_fs t)" using z LogMMapFile_open_zero [OF z] by (auto simp: result_simps split: if_splits)
qed



end
