(* ===== verification/Log_Server.thy ===== *)
theory Log_Server
  imports Process_Bus Log_Files
begin

text \<open>
  The log server, \<open>logsvrd/src/logsvrd.cc\<close>: worker processes that read messages from a process bus and
  append them to log files of their own, on top of the models of the bus and of \<open>LogFdFile\<close>. A step of the
  system is a call of a client on the bus, the start of a worker, a signal to one, or a step of a worker from
  one of its points of synchronisation to the next; what runs under the inter-process mutex is one step.
\<close>

section \<open>The server\<close>

record log_server =
  lv_bus :: "process_bus option"
  lv_prefix :: string
  lv_workers :: nat

definition LogServer :: log_server where
  "LogServer = \<lparr>lv_bus = None, lv_prefix = [], lv_workers = 0\<rparr>"

text \<open>
  \<open>Init\<close>. The configuration is an argument: whether the file can be read and has the entry of the bus, the
  values there, the path of the log files and the number of workers; \<open>uninit\<close> is the uninitialised
  \<open>mmap_length_\<close> of the new bus. A missing value leaves through the handler.
\<close>

record server_conf =
  sc_readable :: bool
  sc_has_bus :: bool
  sc_unsigned :: "string \<Rightarrow> u32 option"
  sc_string :: "string \<Rightarrow> string option"
  sc_path :: "string option"
  sc_workers :: "nat option"

definition LogServer_Init :: "os_calls \<Rightarrow> nat \<Rightarrow> server_conf \<Rightarrow> log_server \<Rightarrow> (int \<times> log_server) result" where
  "LogServer_Init os uninit conf s =
     (if \<not> sc_readable conf then Inr (- 1, s)
      else let s1 = s\<lparr>lv_bus := Some (ProcessBus uninit)\<rparr> in
        if \<not> sc_has_bus conf then Inr (- 1, s1)
        else (case Init (sc_unsigned conf) (sc_string conf) (ProcessBus uninit) of (ret, pb) \<Rightarrow>
          let s2 = s1\<lparr>lv_bus := Some pb\<rparr> in
          if ret < 0 then Inr (ret, s2)
          else rbind (Listen os pb) (\<lambda>(ret', pb').
            let s3 = s2\<lparr>lv_bus := Some pb'\<rparr> in
            if ret' < 0 then Inr (ret', s3)
            else case sc_path conf of None \<Rightarrow> Inr (- 1, s3)
              | Some logpath \<Rightarrow> let s4 = s3\<lparr>lv_prefix := logpath @ ''worker''\<rparr> in
                (case sc_workers conf of None \<Rightarrow> Inr (- 1, s4) | Some w \<Rightarrow> Inr (0, s4\<lparr>lv_workers := w\<rparr>)))))"

section \<open>A worker\<close>

datatype worker_pc = WTest | WLock | WWrite | WExit

text \<open>\<open>running_\<close> is static, but each process has its own.\<close>

record worker =
  wk_pc :: worker_pc
  wk_running :: bool
  wk_msgs :: "byte list list"
  wk_count :: u32
  wk_file :: log_sink

definition kMaxMessageEachTime :: nat where
  "kMaxMessageEachTime = 2 ^ 10"

text \<open>The start of \<open>WorkerRoutine\<close>: the worker opens its file, whose name ends with the number of its process.\<close>

definition Worker :: "log_io \<Rightarrow> string \<Rightarrow> string \<Rightarrow> files \<Rightarrow> worker result" where
  "Worker io prefix pidbuf fs =
     rbind (LogFdFile io prefix pidbuf (2 ^ 30) fs) (\<lambda>f. Inr \<lparr>wk_pc = WTest, wk_running = True, wk_msgs = [], wk_count = 0, wk_file = f\<rparr>)"

text \<open>
  Reading from the bus until there is nothing or enough; \<open>u\<close> gives the uninitialised lengths that \<open>Read\<close>
  passes to \<open>Pop\<close>.
\<close>

fun drain :: "nat \<Rightarrow> (nat \<Rightarrow> int) \<Rightarrow> ring_buffer \<Rightarrow> (byte list list \<times> ring_buffer) result" where
  "drain 0 u rb = Inr ([], rb)"
| "drain (Suc n) u rb =
     rbind (pop_message (u 0) rb) (\<lambda>(x, rb1). case x of None \<Rightarrow> Inr ([], rb1)
       | Some m \<Rightarrow> if m = [] then Inr ([], rb1)
           else rbind (drain n (\<lambda>i. u (Suc i)) rb1) (\<lambda>(ms, rb2). Inr (m # ms, rb2)))"

definition append_msgs :: "log_io list \<Rightarrow> byte list list \<Rightarrow> log_sink \<Rightarrow> log_sink result" where
  "append_msgs ios ms = append_all LogFdFile_Append (zip ios ms)"

text \<open>
  A step of a worker that has the file of the bus mapped at \<open>addr\<close>, with the answers of the system to its
  appends; none while it waits for a message and when it has ended.
\<close>

definition worker_step :: "int \<Rightarrow> (nat \<Rightarrow> int) \<Rightarrow> log_io list \<Rightarrow> worker \<Rightarrow> segment \<Rightarrow> (worker \<times> segment) result option" where
  "worker_step addr u ios w seg = (case wk_pc w of
     WTest \<Rightarrow> Some (Inr (w\<lparr>wk_pc := if wk_running w then WLock else WExit\<rparr>, seg))
   | WLock \<Rightarrow> (case see addr seg of Inl e \<Rightarrow> Some (Inl e)
       | Inr rb \<Rightarrow> if rb_size rb = 0 \<and> wk_running w then None
           else Some (rbind (drain kMaxMessageEachTime u rb) (\<lambda>(ms, rb').
             Inr (w\<lparr>wk_pc := WWrite, wk_msgs := wk_msgs w @ ms\<rparr>, leave rb'))))
   | WWrite \<Rightarrow> Some (rbind (append_msgs ios (wk_msgs w) (wk_file w)) (\<lambda>f.
       Inr (w\<lparr>wk_pc := WTest, wk_file := f, wk_count := wk_count w + of_nat (length (wk_msgs w)), wk_msgs := []\<rparr>, seg)))
   | WExit \<Rightarrow> None)"

definition Stop :: "worker \<Rightarrow> worker" where
  "Stop w = w\<lparr>wk_running := False\<rparr>"

section \<open>The system\<close>

text \<open>The system does what an append asks it for, with messages of up to \<open>L\<close> bytes.\<close>

definition appends_ready :: "nat \<Rightarrow> log_io list \<Rightarrow> byte list list \<Rightarrow> log_sink \<Rightarrow> bool" where
  "appends_ready L ios ms f \<longleftrightarrow> length ios = length ms \<and> all_ready (sink_ready L) LogFdFile_Append (zip ios ms) f"

text \<open>
  The states of the segment and the workers, by the number of their process, that are reached from
  a segment \<open>seg0\<close>; the messages that the bus has accepted; and those that workers have taken, with the worker.
\<close>

inductive served :: "nat \<Rightarrow> segment \<Rightarrow> segment \<Rightarrow> (nat \<rightharpoonup> worker) \<Rightarrow> byte list list \<Rightarrow> (nat \<times> byte list) list \<Rightarrow> bool"
  for L seg0 where
  begun: "served L seg0 seg0 Map.empty [] []"
| client: "served L seg0 seg ws ms taken \<Longrightarrow> bus_step seg (Sent m b) seg' \<Longrightarrow>
    served L seg0 seg' ws (if b then ms @ [m] else ms) taken"
| fork: "served L seg0 seg ws ms taken \<Longrightarrow> ws pid = None \<Longrightarrow> pid \<notin> fst ` set taken \<Longrightarrow> io_opens io \<Longrightarrow> prefix \<noteq> [] \<Longrightarrow>
    fs (MakeLogFilename prefix pidbuf (io_stamp io)) = None \<Longrightarrow> Worker io prefix pidbuf fs = Inr w \<Longrightarrow>
    served L seg0 seg (ws(pid \<mapsto> w)) ms taken"
| step: "served L seg0 seg ws ms taken \<Longrightarrow> ws pid = Some w \<Longrightarrow> (\<And>i. u i \<noteq> 0) \<Longrightarrow>
    (wk_pc w = WWrite \<Longrightarrow> appends_ready L ios (wk_msgs w) (wk_file w)) \<Longrightarrow>
    worker_step addr u ios w seg = Some (Inr (w', seg')) \<Longrightarrow>
    served L seg0 seg' (ws(pid \<mapsto> w')) ms (if wk_pc w = WLock then taken @ map (Pair pid) (wk_msgs w') else taken)"
| signal: "served L seg0 seg ws ms taken \<Longrightarrow> ws pid = Some w \<Longrightarrow> served L seg0 seg (ws(pid \<mapsto> Stop w)) ms taken"

section \<open>Nothing is lost\<close>

lemma rb_rep_nonempty: "rb_rep rb ms \<Longrightarrow> m \<in> set ms \<Longrightarrow> m \<noteq> []"
  by (auto simp: rb_rep_def)

lemma drain_rep:
  "rb_rep rb ms \<Longrightarrow> (\<And>i. u i \<noteq> 0) \<Longrightarrow> \<exists>rb'. drain n u rb = Inr (take n ms, rb') \<and> rb_rep rb' (drop n ms)"
proof (induction n arbitrary: u rb ms)
  case (Suc n)
  show ?case
  proof (cases ms)
    case Nil
    then show ?thesis using Suc.prems(1) by (simp add: pop_message_empty)
  next
    case (Cons m ms')
    obtain rb1 where rb1: "pop_message (u 0) rb = Inr (Some m, rb1)" "rb_rep rb1 ms'"
      using pop_message_rep [of rb m ms' "u 0"] Suc.prems Cons by blast
    obtain rb2 where "drain n (\<lambda>i. u (Suc i)) rb1 = Inr (take n ms', rb2)" "rb_rep rb2 (drop n ms')"
      using Suc.IH [OF rb1(2), of "\<lambda>i. u (Suc i)"] Suc.prems(2) by blast
    then show ?thesis using rb1(1) Cons rb_rep_nonempty [OF Suc.prems(1), of m] by simp
  qed
qed simp

text \<open>The messages a worker has taken.\<close>

definition own :: "nat \<Rightarrow> (nat \<times> byte list) list \<Rightarrow> byte list list" where
  "own pid taken = map snd (filter (\<lambda>x. fst x = pid) taken)"

lemma own_append: "own pid (xs @ ys) = own pid xs @ own pid ys"
  by (simp add: own_def)

lemma own_Pair: "own pid (map (Pair q) ms) = (if q = pid then ms else [])"
  by (simp add: own_def filter_map comp_def)

lemma own_fresh: "pid \<notin> fst ` set taken \<Longrightarrow> own pid taken = []"
  by (force simp: own_def filter_empty_conv)

text \<open>What a worker has taken is in its files and, while it writes, in its list.\<close>

definition worker_ok :: "nat \<Rightarrow> byte list list \<Rightarrow> worker \<Rightarrow> bool" where
  "worker_ok L taken w \<longleftrightarrow> (wk_pc w \<noteq> WWrite \<longrightarrow> wk_msgs w = []) \<and>
     (\<exists>gs. sink_rep L (wk_file w) gs \<and> concat (map snd gs) @ concat (wk_msgs w) = concat taken)"

lemma Worker_ok:
  assumes "io_opens io" "prefix \<noteq> []" "fs (MakeLogFilename prefix pidbuf (io_stamp io)) = None" "Worker io prefix pidbuf fs = Inr w"
  shows "worker_ok L [] w"
proof -
  have lc: "(LogFdFile, LogFdFile_Append) \<in> log_classes" by (simp add: log_classes_def)
  obtain f where f: "LogFdFile io prefix pidbuf (2 ^ 30) fs = Inr f" "sink_rep L f [(ls_name f, [])]"
    using log_class_start [where fs = fs and suffix = pidbuf, OF lc assms(1-3)] by blast
  have "wk_file w = f" "wk_msgs w = []" using assms(4) f(1) by (auto simp: Worker_def)
  then show ?thesis unfolding worker_ok_def using f(2) by (intro conjI exI [of _ "[(ls_name f, [])]"]) simp_all
qed

lemma append_msgs_ok:
  assumes "sink_rep L f gs" "appends_ready L ios ms f"
  shows "\<exists>f' gs'. append_msgs ios ms f = Inr f' \<and> sink_rep L f' gs' \<and> concat (map snd gs') = concat (map snd gs) @ concat ms"
  using ld.appends_kept [OF assms(1), of "zip ios ms"] assms(2) by (auto simp: append_msgs_def appends_ready_def)

lemma worker_lock:
  assumes "seg_rep seg rest" "wk_pc w = WLock" "\<And>i. u i \<noteq> 0"
  shows "worker_step addr u ios w seg = None \<or> (\<exists>seg'. seg_rep seg' (drop kMaxMessageEachTime rest) \<and>
    worker_step addr u ios w seg = Some (Inr (w\<lparr>wk_pc := WWrite, wk_msgs := wk_msgs w @ take kMaxMessageEachTime rest\<rparr>, seg')))"
proof -
  obtain rb where rb: "see addr seg = Inr rb" "rb_rep rb rest" using see_ok [OF assms(1)] by blast
  obtain rb' where "drain kMaxMessageEachTime u rb = Inr (take kMaxMessageEachTime rest, rb')" "rb_rep rb' (drop kMaxMessageEachTime rest)"
    using drain_rep [OF rb(2), where u = u and n = kMaxMessageEachTime, OF assms(3)] by blast
  then show ?thesis using rb(1) assms(2) seg_repI by (auto simp: worker_step_def)
qed

text \<open>A step of a worker never fails, takes the oldest messages when it locks the bus, and keeps what it took.\<close>

lemma worker_step_ok:
  assumes "seg_rep seg rest" "worker_ok L taken w" "\<And>i. u i \<noteq> 0" "wk_pc w = WWrite \<Longrightarrow> appends_ready L ios (wk_msgs w) (wk_file w)"
    and "worker_step addr u ios w seg = Some r"
  shows "\<exists>w' seg'. r = Inr (w', seg') \<and>
    seg_rep seg' (if wk_pc w = WLock then drop kMaxMessageEachTime rest else rest) \<and>
    (wk_pc w = WLock \<longrightarrow> wk_msgs w' = take kMaxMessageEachTime rest) \<and>
    worker_ok L (if wk_pc w = WLock then taken @ wk_msgs w' else taken) w'"
proof (cases "wk_pc w")
  case WTest
  then show ?thesis using assms by (auto simp: worker_step_def worker_ok_def)
next
  case WLock
  have e: "wk_msgs w = []" using assms(2) WLock by (simp add: worker_ok_def)
  then show ?thesis using worker_lock [OF assms(1) WLock, where u = u and addr = addr and ios = ios, OF assms(3)] assms(2,5) WLock by (auto simp: worker_ok_def)
next
  case WWrite
  obtain gs where gs: "sink_rep L (wk_file w) gs" "concat (map snd gs) @ concat (wk_msgs w) = concat taken"
    using assms(2) by (auto simp: worker_ok_def)
  obtain f' gs' where f': "append_msgs ios (wk_msgs w) (wk_file w) = Inr f'" "sink_rep L f' gs'" "concat (map snd gs') = concat taken"
    using append_msgs_ok [OF gs(1) assms(4) [OF WWrite]] gs(2) by auto
  then show ?thesis using assms(1,5) WWrite by (auto simp: worker_step_def worker_ok_def)
next
  case WExit
  then show ?thesis using assms(5) by (simp add: worker_step_def)
qed

lemma worker_files:
  assumes "worker_ok L taken w"
  shows "\<exists>gs. (\<forall>n c. (n, c) \<in> set gs \<longrightarrow> ls_fs (wk_file w) n = Some c) \<and> concat (map snd gs) @ concat (wk_msgs w) = concat taken"
    and "wk_pc w = WExit \<longrightarrow> wk_msgs w = []"
proof -
  obtain gs where gs: "sink_rep L (wk_file w) gs" "concat (map snd gs) @ concat (wk_msgs w) = concat taken"
    using assms by (auto simp: worker_ok_def)
  then show "\<exists>gs. (\<forall>n c. (n, c) \<in> set gs \<longrightarrow> ls_fs (wk_file w) n = Some c) \<and> concat (map snd gs) @ concat (wk_msgs w) = concat taken"
    using sink_content [OF gs(1)] by blast
  show "wk_pc w = WExit \<longrightarrow> wk_msgs w = []" using assms by (simp add: worker_ok_def)
qed

lemma served_ok:
  assumes "served L seg0 seg ws ms taken" "seg_rep seg0 []"
  shows "(\<exists>rest. seg_rep seg rest \<and> ms = map snd taken @ rest) \<and> (\<forall>pid w. ws pid = Some w \<longrightarrow> worker_ok L (own pid taken) w)"
  using assms(1)
proof induction
  case begun
  then show ?case using assms(2) by simp
next
  case (client seg ws ms taken m b seg')
  then obtain rest where rest: "seg_rep seg rest" "ms = map snd taken @ rest" by blast
  obtain rest' where "seg_rep seg' rest'" "rest @ sent [Sent m b] = rest'" using bus_step_rep [OF client.hyps(2) rest(1)] by auto
  then show ?case using rest(2) client.IH by (cases b) auto
next
  case (fork seg ws ms taken pid io prefix fs pidbuf w)
  have "worker_ok L (own pid taken) w" using Worker_ok [OF fork.hyps(4-7)] own_fresh [OF fork.hyps(3)] by simp
  then show ?case using fork.IH by simp
next
  case (step seg ws ms taken pid w u ios addr w' seg')
  then obtain rest where rest: "seg_rep seg rest" "ms = map snd taken @ rest" by blast
  have w: "worker_ok L (own pid taken) w" using step.IH step.hyps(2) by blast
  have ready: "wk_pc w = WWrite \<Longrightarrow> appends_ready L ios (wk_msgs w) (wk_file w)" using step.hyps(4) .
  from worker_step_ok [OF rest(1) w, where u = u, OF step.hyps(3) ready step.hyps(5)]
  have new: "seg_rep seg' (if wk_pc w = WLock then drop kMaxMessageEachTime rest else rest)"
      "wk_pc w = WLock \<Longrightarrow> wk_msgs w' = take kMaxMessageEachTime rest"
      "worker_ok L (if wk_pc w = WLock then own pid taken @ wk_msgs w' else own pid taken) w'" by auto
  have "map snd (if wk_pc w = WLock then taken @ map (Pair pid) (wk_msgs w') else taken) @
      (if wk_pc w = WLock then drop kMaxMessageEachTime rest else rest) = ms"
    using rest(2) new(2) by (simp add: comp_def)
  moreover have "worker_ok L (own q (if wk_pc w = WLock then taken @ map (Pair pid) (wk_msgs w') else taken)) v"
    if "(ws(pid \<mapsto> w')) q = Some v" for q v
    using that new(3) step.IH by (auto simp: own_append own_Pair split: if_splits)
  ultimately show ?case using new(1) by metis
next
  case (signal seg ws ms taken pid w)
  then have "worker_ok L (own pid taken) (Stop w)" by (simp add: worker_ok_def Stop_def)
  then show ?case using signal.IH by simp
qed

section \<open>The server keeps what it is sent\<close>

lemma Listen_size: "Listen os pb = Inr (r, pb') \<Longrightarrow> bus_size pb' = bus_size pb"
  by (auto simp: Listen_def Let_def result_simps split: if_splits option.splits)

lemma LogServer_Init_ok:
  assumes "LogServer_Init os uninit conf s = Inr (0, s')" "mmap_law os" "lv_bus s' = Some pb" "unat (bus_size pb) \<le> 2 ^ 31"
  shows "\<exists>rb. bus_buffer pb = Some rb \<and> rb_rep rb []"
proof -
  obtain r pb0 where pb0: "Init (sc_unsigned conf) (sc_string conf) (ProcessBus uninit) = (r, pb0)" by fastforce
  obtain r' pb1 where pb1: "Listen os pb0 = Inr (r', pb1)" "\<not> r' < 0" "lv_bus s' = Some pb1"
    using assms(1) pb0 by (auto simp: LogServer_Init_def Let_def result_simps split: if_splits option.splits)
  have "r' = 0" using pb1(1,2) by (auto simp: Listen_def Let_def result_simps split: if_splits option.splits)
  then show ?thesis
    using Listen_ok [of os pb0 pb] pb1 assms(2-4) Listen_size [OF pb1(1)] by simp
qed


text \<open>A server on the bus of the demonstration, with a message in the bus and a worker that has been started.\<close>

definition demo_conf :: server_conf where
  "demo_conf = \<lparr>sc_readable = True, sc_has_bus = True, sc_unsigned = [''<xmlattr>.id'' \<mapsto> 7, ''<xmlattr>.size'' \<mapsto> 2032],
     sc_string = [''<xmlattr>.path'' \<mapsto> ''/tmp''], sc_path = Some ''/log/'', sc_workers = Some 1\<rparr>"

lemma demo_init:
  "\<exists>s pb. LogServer_Init demo_os 0 demo_conf LogServer = Inr (0, s) \<and> lv_bus s = Some pb \<and> unat (bus_size pb) \<le> 2 ^ 31 \<and>
    bus_buffer pb = Some (ring 4128 (replicate 2000 0) 0 0 0 0)"
proof -
  obtain pb where pb: "Listen demo_os demo_bus = Inr (0, pb)" "bus_buffer pb = Some (ring 4128 (replicate 2000 0) 0 0 0 0)"
    using demo_listen by blast
  have "Init (sc_unsigned demo_conf) (sc_string demo_conf) (ProcessBus 0) = (0, demo_bus)"
    by (simp add: Init_def demo_conf_def demo_bus_def ProcessBus_def Let_def)
  then have "LogServer_Init demo_os 0 demo_conf LogServer = Inr (0, \<lparr>lv_bus = Some pb, lv_prefix = ''/log/worker'', lv_workers = 1\<rparr>)"
    using pb(1) by (simp add: LogServer_Init_def Let_def) (simp add: demo_conf_def LogServer_def)
  then show ?thesis using pb(2) Listen_size [OF pb(1)] demo_law(2) by auto
qed

lemma demo_served:
  "\<exists>seg w. served 100 (leave (ring 4128 (replicate 2000 0) 0 0 0 0)) seg [1 \<mapsto> w] [[1, 2, 3]] []"
proof -
  let ?seg = "leave (ring 4128 (replicate 2000 0) 0 0 0 0)"
  obtain seg where "bus_step ?seg (Sent [1, 2, 3] True) seg" using demo_send by blast
  from served.client [OF served.begun this] have s: "served 100 ?seg seg Map.empty [[1, 2, 3]] []" by simp
  obtain w where "Worker (good_io ''.1'' 0) ''/log/worker'' ''1'' Map.empty = Inr w"
    by (simp add: Worker_def LogFdFile_def LogFdFile_RotateFile_def good_io_def)
  from served.fork [OF s _ _ _ _ _ this, of 1] show ?thesis by (auto simp: good_io_def)
qed


end
