(* ===== verification/Event_Loop.thy ===== *)
theory Event_Loop
  imports Prelude
begin

unbundle bit_operations_syntax

text \<open>
  The event loop of the UDP server, \<open>udpserver/src/net\<close>: channels (\<open>channel.{h,cc}\<close>), the poller that
  registers them with \<open>epoll\<close> (\<open>poller.{h,cc}\<close>), and the loop that polls and calls back
  (\<open>event_loop.{h,cc}\<close>). Channels are objects at addresses, which the poller keeps by file descriptor.
  The kernel is a state with a function for \<open>epoll_ctl\<close>, an argument of the operations; what
  \<open>epoll_wait\<close> returns in a round is an argument of the round, and so are the functions that are called
  back.
\<close>

section \<open>Channels\<close>

definition EPOLLIN :: u32 where "EPOLLIN = 1"
definition EPOLLPRI :: u32 where "EPOLLPRI = 2"
definition EPOLLOUT :: u32 where "EPOLLOUT = 4"
definition EPOLLERR :: u32 where "EPOLLERR = 8"
definition EPOLLHUP :: u32 where "EPOLLHUP = 16"
definition EPOLLET :: u32 where "EPOLLET = 2147483648"

definition kReadEvents :: u32 where "kReadEvents = EPOLLIN"
definition kWriteEvents :: u32 where "kWriteEvents = EPOLLOUT"
definition kNoneEvents :: u32 where "kNoneEvents = 0"

text \<open>Which of the three callbacks have been set is part of a channel.\<close>

datatype callback = ErrorCallback | WriteCallback | ReadCallback

record channel =
  ch_fd :: int
  ch_events :: u32
  ch_revents :: u32
  ch_set :: "callback list"

definition Channel :: "int \<Rightarrow> channel" where
  "Channel fd = \<lparr>ch_fd = fd, ch_events = 0, ch_revents = 0, ch_set = []\<rparr>"

definition set_callback :: "callback \<Rightarrow> channel \<Rightarrow> channel" where
  "set_callback b c = c\<lparr>ch_set := b # ch_set c\<rparr>"

definition ReadableEvents :: "channel \<Rightarrow> string" where
  "ReadableEvents c =
     (if ch_revents c AND EPOLLIN \<noteq> 0 then ''EPOLLIN '' else []) @ (if ch_revents c AND EPOLLOUT \<noteq> 0 then ''EPOLLOUT '' else []) @
     (if ch_revents c AND EPOLLPRI \<noteq> 0 then ''EPOLLPRI '' else []) @ (if ch_revents c AND EPOLLERR \<noteq> 0 then ''EPOLLERR '' else []) @
     (if ch_revents c AND EPOLLHUP \<noteq> 0 then ''EPOLLHUP '' else []) @ (if ch_revents c AND EPOLLET \<noteq> 0 then ''EPOLLET '' else [])"

section \<open>The poller\<close>

datatype ctl_op = EPOLL_CTL_ADD | EPOLL_CTL_MOD | EPOLL_CTL_DEL

type_synonym 'k epoll_ctl = "ctl_op \<Rightarrow> int \<Rightarrow> u32 \<Rightarrow> 'k \<Rightarrow> 'k"

text \<open>\<open>el_objects\<close> are the channels there are, \<open>el_channels\<close> is \<open>channels_\<close>, \<open>el_slots\<close> the size of \<open>events_\<close>.\<close>

record 'k event_loop =
  el_objects :: "nat \<rightharpoonup> channel"
  el_channels :: "int \<rightharpoonup> nat"
  el_slots :: nat
  el_kernel :: 'k
  el_quit :: bool
  el_iteration :: u64
  el_wait_time :: int
  el_idle_time :: int

definition EventLoop :: "'k \<Rightarrow> 'k event_loop" where
  "EventLoop k = \<lparr>el_objects = Map.empty, el_channels = Map.empty, el_slots = 20, el_kernel = k, el_quit = False, el_iteration = 0, el_wait_time = 20, el_idle_time = 100\<rparr>"

definition el_object :: "'k event_loop \<Rightarrow> nat \<Rightarrow> channel result" where
  "el_object l p = (case el_objects l p of None \<Rightarrow> Inl MemoryFault | Some c \<Rightarrow> Inr c)"

definition UpdateChannel :: "'k epoll_ctl \<Rightarrow> 'k event_loop \<Rightarrow> nat \<Rightarrow> 'k event_loop result" where
  "UpdateChannel ctl l p =
     rbind (el_object l p) (\<lambda>c.
       case el_channels l (ch_fd c) of
         None \<Rightarrow> Inr (l\<lparr>el_kernel := ctl EPOLL_CTL_ADD (ch_fd c) (ch_events c) (el_kernel l), el_channels := (el_channels l)(ch_fd c \<mapsto> p)\<rparr>)
       | Some q \<Rightarrow> Inr (l\<lparr>el_kernel := ctl EPOLL_CTL_MOD (ch_fd c) (ch_events c) (el_kernel l)\<rparr>))"

text \<open>The events that \<open>epoll_ctl\<close> is given here are not set; it ignores them.\<close>

definition RemoveChannel :: "'k epoll_ctl \<Rightarrow> u32 \<Rightarrow> 'k event_loop \<Rightarrow> nat \<Rightarrow> 'k event_loop result" where
  "RemoveChannel ctl junk l p =
     rbind (el_object l p) (\<lambda>c.
       require (el_channels l (ch_fd c) \<noteq> None)
         (Inr (l\<lparr>el_channels := (el_channels l)(ch_fd c := None), el_kernel := ctl EPOLL_CTL_DEL (ch_fd c) junk (el_kernel l)\<rparr>)))"

definition set_events :: "'k epoll_ctl \<Rightarrow> (u32 \<Rightarrow> u32) \<Rightarrow> 'k event_loop \<Rightarrow> nat \<Rightarrow> 'k event_loop result" where
  "set_events ctl g l p =
     rbind (el_object l p) (\<lambda>c. UpdateChannel ctl (l\<lparr>el_objects := (el_objects l)(p \<mapsto> c\<lparr>ch_events := g (ch_events c)\<rparr>)\<rparr>) p)"

definition EnableReading :: "'k epoll_ctl \<Rightarrow> 'k event_loop \<Rightarrow> nat \<Rightarrow> 'k event_loop result" where
  "EnableReading ctl = set_events ctl (\<lambda>e. e OR kReadEvents)"

definition DisableReading :: "'k epoll_ctl \<Rightarrow> 'k event_loop \<Rightarrow> nat \<Rightarrow> 'k event_loop result" where
  "DisableReading ctl = set_events ctl (\<lambda>e. e AND NOT kReadEvents)"

definition EnableWriting :: "'k epoll_ctl \<Rightarrow> 'k event_loop \<Rightarrow> nat \<Rightarrow> 'k event_loop result" where
  "EnableWriting ctl = set_events ctl (\<lambda>e. e OR kWriteEvents)"

definition DisableWriting :: "'k epoll_ctl \<Rightarrow> 'k event_loop \<Rightarrow> nat \<Rightarrow> 'k event_loop result" where
  "DisableWriting ctl = set_events ctl (\<lambda>e. e AND NOT kWriteEvents)"

definition DisableAll :: "'k epoll_ctl \<Rightarrow> 'k event_loop \<Rightarrow> nat \<Rightarrow> 'k event_loop result" where
  "DisableAll ctl = set_events ctl (\<lambda>e. kNoneEvents)"

fun fill_loop :: "(int \<times> u32) list \<Rightarrow> 'k event_loop \<Rightarrow> nat list \<Rightarrow> (nat list \<times> 'k event_loop) result" where
  "fill_loop [] l active = Inr (active, l)"
| "fill_loop ((fd, ev) # evs) l active =
     (case el_channels l fd of None \<Rightarrow> Inl AssertionFailed
      | Some p \<Rightarrow> rbind (el_object l p) (\<lambda>c. fill_loop evs (l\<lparr>el_objects := (el_objects l)(p \<mapsto> c\<lparr>ch_revents := ev\<rparr>)\<rparr>) (active @ [p])))"

definition FillActiveChannels :: "(int \<times> u32) list \<Rightarrow> 'k event_loop \<Rightarrow> nat list \<Rightarrow> (nat list \<times> 'k event_loop) result" where
  "FillActiveChannels evs l active = require (length evs \<le> el_slots l) (fill_loop evs l active)"

text \<open>\<open>Poll\<close> with the events that \<open>epoll_wait\<close> returns, none for an error.\<close>

definition Poll :: "(int \<times> u32) list option \<Rightarrow> 'k event_loop \<Rightarrow> nat list \<Rightarrow> (nat list \<times> 'k event_loop) result" where
  "Poll ret l active =
     (case ret of None \<Rightarrow> Inr (active, l)
      | Some evs \<Rightarrow> if evs = [] then Inr (active, l)
          else rbind (FillActiveChannels evs l active) (\<lambda>(active', l').
            Inr (active', if length evs = el_slots l' then l'\<lparr>el_slots := el_slots l' * 2\<rparr> else l')))"

section \<open>The loop\<close>

text \<open>
  \<open>HandleEvents\<close> tests the received events before each callback, which may have changed the channel or
  destroyed it. A callback is a function of the loop and the channel.
\<close>

type_synonym 'k callbacks = "callback \<Rightarrow> nat \<Rightarrow> 'k event_loop \<Rightarrow> 'k event_loop result"

definition call_if :: "'k callbacks \<Rightarrow> callback \<Rightarrow> u32 \<Rightarrow> nat \<Rightarrow> 'k event_loop \<Rightarrow> 'k event_loop result" where
  "call_if cb b ev p l =
     rbind (el_object l p) (\<lambda>c. if ch_revents c AND ev \<noteq> 0 \<and> b \<in> set (ch_set c) then cb b p l else Inr l)"

definition HandleEvents :: "'k callbacks \<Rightarrow> nat \<Rightarrow> 'k event_loop \<Rightarrow> 'k event_loop result" where
  "HandleEvents cb p l =
     rbind (call_if cb ErrorCallback (EPOLLERR OR EPOLLHUP) p l)
       (\<lambda>l1. rbind (call_if cb WriteCallback kWriteEvents p l1) (call_if cb ReadCallback kReadEvents p))"

fun handle_all :: "'k callbacks \<Rightarrow> nat list \<Rightarrow> 'k event_loop \<Rightarrow> 'k event_loop result" where
  "handle_all cb [] l = Inr l"
| "handle_all cb (p # ps) l = rbind (HandleEvents cb p l) (handle_all cb ps)"

text \<open>A round of \<open>Run\<close> with its local variables \<open>timeout\<close> and \<open>idle\<close>.\<close>

definition Run_round :: "'k callbacks \<Rightarrow> (u64 \<Rightarrow> 'k event_loop \<Rightarrow> 'k event_loop) option \<Rightarrow>
    (int \<times> u32) list option \<Rightarrow> int \<times> u32 \<times> 'k event_loop \<Rightarrow> (int \<times> u32 \<times> 'k event_loop) result" where
  "Run_round cb period ret = (\<lambda>(timeout, idle, l).
     rbind (Poll ret l []) (\<lambda>(channels, l1).
       let l2 = l1\<lparr>el_iteration := el_iteration l1 + 1\<rparr>
       in rbind (handle_all cb channels l2) (\<lambda>l3.
         let idle' = (if channels = [] then idle + 1 else 0);
             l4 = (case period of None \<Rightarrow> l3 | Some f \<Rightarrow> f (el_iteration l3) l3)
         in Inr (if 100 \<le> idle' then el_idle_time l4 else el_wait_time l4, idle', l4))))"

text \<open>The loop, for as long as there are answers of \<open>epoll_wait\<close>.\<close>

fun Run_loop :: "'k callbacks \<Rightarrow> (u64 \<Rightarrow> 'k event_loop \<Rightarrow> 'k event_loop) option \<Rightarrow>
    (int \<times> u32) list option list \<Rightarrow> int \<times> u32 \<times> 'k event_loop \<Rightarrow> (int \<times> u32 \<times> 'k event_loop) result" where
  "Run_loop cb period [] st = Inr st"
| "Run_loop cb period (r # rs) st = (if el_quit (snd (snd st)) then Inr st else rbind (Run_round cb period r st) (Run_loop cb period rs))"

definition Run :: "'k callbacks \<Rightarrow> (u64 \<Rightarrow> 'k event_loop \<Rightarrow> 'k event_loop) option \<Rightarrow>
    (int \<times> u32) list option list \<Rightarrow> 'k event_loop \<Rightarrow> (int \<times> u32 \<times> 'k event_loop) result" where
  "Run cb period rs l = Run_loop cb period rs (el_wait_time l, 0, l)"

definition Quit :: "'k event_loop \<Rightarrow> 'k event_loop" where
  "Quit l = l\<lparr>el_quit := True\<rparr>"

definition set_wait_time :: "int \<Rightarrow> 'k event_loop \<Rightarrow> 'k event_loop" where
  "set_wait_time t l = l\<lparr>el_wait_time := t\<rparr>"

definition set_idle_wait_time :: "int \<Rightarrow> 'k event_loop \<Rightarrow> 'k event_loop" where
  "set_idle_wait_time t l = l\<lparr>el_idle_time := t\<rparr>"

section \<open>What the kernel promises\<close>

text \<open>
  \<open>view\<close> is the interest list of the \<open>epoll\<close> instance, the events watched for each descriptor, and
  \<open>open_fd\<close> tells the descriptors that are open and can be watched. \<open>epoll_ctl\<close> adds a descriptor that
  is not there, changes or removes one that is, and otherwise fails without an effect. \<open>epoll_wait\<close> fills
  at most the slots it is given, each with another watched descriptor and with events that are watched,
  errors and hang-ups apart, which always are.
\<close>

definition epoll_ok :: "'k epoll_ctl \<Rightarrow> ('k \<Rightarrow> int \<rightharpoonup> u32) \<Rightarrow> (int \<Rightarrow> bool) \<Rightarrow> bool" where
  "epoll_ok ctl view open_fd \<longleftrightarrow> (\<forall>fd e k. open_fd fd \<longrightarrow>
     view (ctl EPOLL_CTL_ADD fd e k) = (if view k fd = None then (view k)(fd \<mapsto> e) else view k) \<and>
     view (ctl EPOLL_CTL_MOD fd e k) = (if view k fd = None then view k else (view k)(fd \<mapsto> e)) \<and>
     view (ctl EPOLL_CTL_DEL fd e k) = (view k)(fd := None))"

definition epoll_wait_ok :: "('k \<Rightarrow> int \<rightharpoonup> u32) \<Rightarrow> 'k event_loop \<Rightarrow> (int \<times> u32) list \<Rightarrow> bool" where
  "epoll_wait_ok view l evs \<longleftrightarrow> length evs \<le> el_slots l \<and> distinct (map fst evs) \<and>
     list_all (\<lambda>(fd, ev). case view (el_kernel l) fd of None \<Rightarrow> False | Some w \<Rightarrow> ev AND NOT (w OR EPOLLERR OR EPOLLHUP) = 0) evs"

section \<open>The states of a loop\<close>

text \<open>
  The states that a program reaches whose channels are for different open descriptors, and which removes a
  channel from the loop before it destroys it.
\<close>

inductive loop_state :: "'k epoll_ctl \<Rightarrow> ('k \<Rightarrow> int \<rightharpoonup> u32) \<Rightarrow> (int \<Rightarrow> bool) \<Rightarrow> 'k event_loop \<Rightarrow> bool"
  for ctl view open_fd where
  start: "view k = Map.empty \<Longrightarrow> loop_state ctl view open_fd (EventLoop k)"
| create: "loop_state ctl view open_fd l \<Longrightarrow> open_fd fd \<Longrightarrow> el_objects l p = None \<Longrightarrow>
    (\<And>q c. el_objects l q = Some c \<Longrightarrow> ch_fd c \<noteq> fd) \<Longrightarrow>
    loop_state ctl view open_fd (l\<lparr>el_objects := (el_objects l)(p \<mapsto> Channel fd)\<rparr>)"
| set_callbacks: "loop_state ctl view open_fd l \<Longrightarrow> el_objects l p = Some c \<Longrightarrow>
    loop_state ctl view open_fd (l\<lparr>el_objects := (el_objects l)(p \<mapsto> set_callback b c)\<rparr>)"
| enable_reading: "loop_state ctl view open_fd l \<Longrightarrow> EnableReading ctl l p = Inr l' \<Longrightarrow> loop_state ctl view open_fd l'"
| disable_reading: "loop_state ctl view open_fd l \<Longrightarrow> DisableReading ctl l p = Inr l' \<Longrightarrow> loop_state ctl view open_fd l'"
| enable_writing: "loop_state ctl view open_fd l \<Longrightarrow> EnableWriting ctl l p = Inr l' \<Longrightarrow> loop_state ctl view open_fd l'"
| disable_writing: "loop_state ctl view open_fd l \<Longrightarrow> DisableWriting ctl l p = Inr l' \<Longrightarrow> loop_state ctl view open_fd l'"
| disable_all: "loop_state ctl view open_fd l \<Longrightarrow> DisableAll ctl l p = Inr l' \<Longrightarrow> loop_state ctl view open_fd l'"
| remove: "loop_state ctl view open_fd l \<Longrightarrow> RemoveChannel ctl junk l p = Inr l' \<Longrightarrow> loop_state ctl view open_fd l'"
| destroy: "loop_state ctl view open_fd l \<Longrightarrow> el_objects l p = Some c \<Longrightarrow> el_channels l (ch_fd c) = None \<Longrightarrow>
    loop_state ctl view open_fd (l\<lparr>el_objects := (el_objects l)(p := None)\<rparr>)"
| poll: "loop_state ctl view open_fd l \<Longrightarrow> epoll_wait_ok view l evs \<Longrightarrow> Poll (Some evs) l active = Inr (active', l') \<Longrightarrow>
    loop_state ctl view open_fd l'"
| iterate: "loop_state ctl view open_fd l \<Longrightarrow> loop_state ctl view open_fd (l\<lparr>el_iteration := i\<rparr>)"
| quit: "loop_state ctl view open_fd l \<Longrightarrow> loop_state ctl view open_fd (Quit l)"
| times: "loop_state ctl view open_fd l \<Longrightarrow> loop_state ctl view open_fd (set_wait_time w (set_idle_wait_time d l))"

text \<open>The invariant: registered channels are objects for their descriptor, no two objects share one, and the kernel watches what they want.\<close>

definition channels_ok :: "(int \<Rightarrow> bool) \<Rightarrow> (nat \<rightharpoonup> channel) \<Rightarrow> (int \<rightharpoonup> nat) \<Rightarrow> bool" where
  "channels_ok open_fd obj chs \<longleftrightarrow>
     (\<forall>p c. obj p = Some c \<longrightarrow> open_fd (ch_fd c)) \<and>
     (\<forall>p q c d. obj p = Some c \<longrightarrow> obj q = Some d \<longrightarrow> ch_fd c = ch_fd d \<longrightarrow> p = q) \<and>
     (\<forall>fd p. chs fd = Some p \<longrightarrow> (\<exists>c. obj p = Some c \<and> ch_fd c = fd))"

definition wanted :: "(nat \<rightharpoonup> channel) \<Rightarrow> (int \<rightharpoonup> nat) \<Rightarrow> int \<rightharpoonup> u32" where
  "wanted obj chs fd = (case chs fd of None \<Rightarrow> None | Some p \<Rightarrow> map_option ch_events (obj p))"

definition loop_ok :: "('k \<Rightarrow> int \<rightharpoonup> u32) \<Rightarrow> (int \<Rightarrow> bool) \<Rightarrow> 'k event_loop \<Rightarrow> bool" where
  "loop_ok view open_fd l \<longleftrightarrow> channels_ok open_fd (el_objects l) (el_channels l) \<and>
     view (el_kernel l) = wanted (el_objects l) (el_channels l) \<and> 0 < el_slots l"

lemma channels_ok_object: "channels_ok open_fd obj chs \<Longrightarrow> chs fd = Some p \<Longrightarrow> \<exists>c. obj p = Some c \<and> ch_fd c = fd"
  by (simp add: channels_ok_def)

lemma channels_ok_open: "channels_ok open_fd obj chs \<Longrightarrow> obj p = Some c \<Longrightarrow> open_fd (ch_fd c)"
  by (simp add: channels_ok_def)

lemma channels_ok_self:
  assumes "channels_ok open_fd obj chs" "obj p = Some c" "chs (ch_fd c) = Some q"
  shows "q = p"
  using assms unfolding channels_ok_def by blast

text \<open>Changing an object without its descriptor keeps the registrations.\<close>

lemma channels_ok_update:
  assumes "channels_ok open_fd obj chs" "obj p = Some c" "ch_fd d = ch_fd c"
  shows "channels_ok open_fd (obj(p \<mapsto> d)) chs"
  using assms unfolding channels_ok_def by (smt (verit) fun_upd_apply option.inject)

lemma wanted_update:
  assumes "channels_ok open_fd obj chs" "obj p = Some c" "ch_fd d = ch_fd c" "ch_events d = ch_events c"
  shows "wanted (obj(p \<mapsto> d)) chs = wanted obj chs"
  using assms by (auto simp: wanted_def fun_eq_iff split: option.splits)

lemma wanted_change:
  assumes "channels_ok open_fd obj chs" "obj p = Some c" "ch_fd d = ch_fd c"
  shows "wanted (obj(p \<mapsto> d)) (chs(ch_fd c \<mapsto> p)) = (wanted obj chs)(ch_fd c \<mapsto> ch_events d)"
  using assms channels_ok_object [OF assms(1)]
  by (fastforce simp: wanted_def fun_eq_iff split: option.splits)

lemma channels_ok_register:
  assumes "channels_ok open_fd obj chs" "obj p = Some c"
  shows "channels_ok open_fd obj (chs(ch_fd c \<mapsto> p))"
  using assms by (auto simp: channels_ok_def)

lemma loop_ok_start: "view k = Map.empty \<Longrightarrow> loop_ok view open_fd (EventLoop k)"
  by (simp add: loop_ok_def EventLoop_def channels_ok_def wanted_def fun_eq_iff)

lemma loop_ok_create:
  assumes "loop_ok view open_fd l" "open_fd fd" "el_objects l p = None" "\<And>q c. el_objects l q = Some c \<Longrightarrow> ch_fd c \<noteq> fd"
  shows "loop_ok view open_fd (l\<lparr>el_objects := (el_objects l)(p \<mapsto> Channel fd)\<rparr>)"
proof -
  have free: "el_channels l fd \<noteq> Some q" for q
    using assms(1,4) by (metis channels_ok_object loop_ok_def)
  have gone: "el_channels l f \<noteq> Some p" for f
    using assms(1,3) by (metis channels_ok_object loop_ok_def option.distinct(1))
  show ?thesis
    using assms gone unfolding loop_ok_def channels_ok_def wanted_def
    by (auto simp: Channel_def fun_eq_iff split: option.splits)
qed

lemma loop_ok_callbacks:
  assumes "loop_ok view open_fd l" "el_objects l p = Some c"
  shows "loop_ok view open_fd (l\<lparr>el_objects := (el_objects l)(p \<mapsto> c\<lparr>ch_set := bs\<rparr>)\<rparr>)"
proof -
  have ok: "channels_ok open_fd (el_objects l) (el_channels l)" using assms(1) by (simp add: loop_ok_def)
  show ?thesis
    using assms channels_ok_update [OF ok assms(2), of "c\<lparr>ch_set := bs\<rparr>"] wanted_update [OF ok assms(2), of "c\<lparr>ch_set := bs\<rparr>"]
    by (simp add: loop_ok_def)
qed

lemma loop_ok_destroy:
  assumes "loop_ok view open_fd l" "el_objects l p = Some c" "el_channels l (ch_fd c) = None"
  shows "loop_ok view open_fd (l\<lparr>el_objects := (el_objects l)(p := None)\<rparr>)"
proof -
  have gone: "el_channels l f \<noteq> Some p" for f
    using assms by (metis channels_ok_object loop_ok_def option.distinct(1) option.inject)
  show ?thesis
    using assms gone unfolding loop_ok_def channels_ok_def wanted_def
    by (auto simp: fun_eq_iff split: option.splits)
qed

lemma set_events_ok:
  assumes "epoll_ok ctl view open_fd" "loop_ok view open_fd l" "el_objects l p = Some c"
  shows "\<exists>l'. set_events ctl g l p = Inr l' \<and> loop_ok view open_fd l' \<and>
    el_objects l' = (el_objects l)(p \<mapsto> c\<lparr>ch_events := g (ch_events c)\<rparr>) \<and> el_channels l' = (el_channels l)(ch_fd c \<mapsto> p)"
proof -
  let ?d = "c\<lparr>ch_events := g (ch_events c)\<rparr>"
  have ok: "channels_ok open_fd (el_objects l) (el_channels l)" and v: "view (el_kernel l) = wanted (el_objects l) (el_channels l)"
    using assms(2) by (simp_all add: loop_ok_def)
  have op: "open_fd (ch_fd c)" using channels_ok_open [OF ok assms(3)] .
  have new: "channels_ok open_fd ((el_objects l)(p \<mapsto> ?d)) ((el_channels l)(ch_fd c \<mapsto> p))"
    using channels_ok_register [OF channels_ok_update [OF ok assms(3), of ?d], of p ?d] by simp
  have w: "wanted ((el_objects l)(p \<mapsto> ?d)) ((el_channels l)(ch_fd c \<mapsto> p)) = (view (el_kernel l))(ch_fd c \<mapsto> ch_events ?d)"
    using wanted_change [OF ok assms(3), of ?d] v by simp
  show ?thesis
  proof (cases "el_channels l (ch_fd c)")
    case None
    then have "view (el_kernel l) (ch_fd c) = None" by (simp add: v wanted_def)
    then show ?thesis
      using None assms op new w by (simp add: set_events_def UpdateChannel_def el_object_def loop_ok_def epoll_ok_def)
  next
    case (Some q)
    then have q: "q = p" using channels_ok_self [OF ok assms(3)] by simp
    have "view (el_kernel l) (ch_fd c) = Some (ch_events c)" using Some q assms(3) by (simp add: v wanted_def)
    moreover have "(el_channels l)(ch_fd c \<mapsto> p) = el_channels l" using Some q by auto
    ultimately show ?thesis
      using Some assms op new w by (simp add: set_events_def UpdateChannel_def el_object_def loop_ok_def epoll_ok_def)
  qed
qed

lemma set_events_some: "set_events ctl g l p = Inr l' \<Longrightarrow> \<exists>c. el_objects l p = Some c"
  by (auto simp: set_events_def el_object_def split: option.splits)

lemma set_events_keeps:
  assumes "epoll_ok ctl view open_fd" "loop_ok view open_fd l" "set_events ctl g l p = Inr l'"
  shows "loop_ok view open_fd l'"
  using set_events_some [OF assms(3)] set_events_ok [OF assms(1,2)] assms(3) by (metis Inr_inject)

lemma RemoveChannel_keeps:
  assumes "epoll_ok ctl view open_fd" "loop_ok view open_fd l" "RemoveChannel ctl junk l p = Inr l'"
  shows "loop_ok view open_fd l'"
proof -
  obtain c where c: "el_objects l p = Some c"
    using assms(3) by (auto simp: RemoveChannel_def el_object_def split: option.splits)
  have ok: "channels_ok open_fd (el_objects l) (el_channels l)" using assms(2) by (simp add: loop_ok_def)
  have "channels_ok open_fd (el_objects l) ((el_channels l)(ch_fd c := None))"
    using ok by (auto simp: channels_ok_def)
  moreover have "wanted (el_objects l) ((el_channels l)(ch_fd c := None)) = (wanted (el_objects l) (el_channels l))(ch_fd c := None)"
    by (auto simp: wanted_def fun_eq_iff)
  ultimately show ?thesis
    using assms c channels_ok_open [OF ok c]
    by (auto simp: RemoveChannel_def el_object_def loop_ok_def epoll_ok_def require_eq_Inr)
qed

section \<open>Polling\<close>

text \<open>What the channels have received after a round of \<open>epoll_wait\<close>, and the channels of its events.\<close>

definition received :: "(int \<times> u32) list \<Rightarrow> (nat \<rightharpoonup> channel) \<Rightarrow> nat \<rightharpoonup> channel" where
  "received evs obj p = map_option (\<lambda>c. case map_of evs (ch_fd c) of None \<Rightarrow> c | Some ev \<Rightarrow> c\<lparr>ch_revents := ev\<rparr>) (obj p)"

definition active_of :: "(int \<times> u32) list \<Rightarrow> (int \<rightharpoonup> nat) \<Rightarrow> nat list" where
  "active_of evs chs = map (\<lambda>(fd, ev). the (chs fd)) evs"

lemma received_Nil [simp]: "received [] obj = obj"
  by (simp add: received_def fun_eq_iff option.map_ident)

lemma received_Cons:
  assumes "channels_ok open_fd obj chs" "chs fd = Some p" "obj p = Some c" "fd \<notin> fst ` set evs"
  shows "received evs (obj(p \<mapsto> c\<lparr>ch_revents := ev\<rparr>)) = received ((fd, ev) # evs) obj"
proof
  fix q
  have c: "ch_fd c = fd" using channels_ok_object [OF assms(1,2)] assms(3) by simp
  have other: "ch_fd d \<noteq> fd" if "obj q = Some d" "q \<noteq> p" for d
    using assms(1,3) that c unfolding channels_ok_def by metis
  have "map_of evs fd = None" using assms(4) by (simp add: map_of_eq_None_iff)
  then show "received evs (obj(p \<mapsto> c\<lparr>ch_revents := ev\<rparr>)) q = received ((fd, ev) # evs) obj q"
    using c assms(3) other by (cases "q = p"; cases "obj q") (auto simp: received_def split: option.splits)
qed

lemma fill_loop_received:
  assumes "channels_ok open_fd (el_objects l) (el_channels l)" "distinct (map fst evs)"
    and "\<And>fd. fd \<in> fst ` set evs \<Longrightarrow> el_channels l fd \<noteq> None"
  shows "fill_loop evs l active = Inr (active @ active_of evs (el_channels l), l\<lparr>el_objects := received evs (el_objects l)\<rparr>)"
  using assms
proof (induction evs arbitrary: l active)
  case Nil
  then show ?case by (simp add: active_of_def)
next
  case (Cons e evs)
  obtain fd ev where e: "e = (fd, ev)" by fastforce
  have "el_channels l fd \<noteq> None" using Cons.prems(3) [of fd] e by simp
  then obtain p where p: "el_channels l fd = Some p" by auto
  obtain c where c: "el_objects l p = Some c" "ch_fd c = fd" using channels_ok_object [OF Cons.prems(1) p] by auto
  let ?l = "l\<lparr>el_objects := (el_objects l)(p \<mapsto> c\<lparr>ch_revents := ev\<rparr>)\<rparr>"
  have "channels_ok open_fd (el_objects ?l) (el_channels ?l)"
    using channels_ok_update [OF Cons.prems(1) c(1)] by simp
  moreover have "distinct (map fst evs)" "fd \<notin> fst ` set evs" using Cons.prems(2) e by simp_all
  ultimately have "fill_loop evs ?l (active @ [p]) =
      Inr ((active @ [p]) @ active_of evs (el_channels ?l), ?l\<lparr>el_objects := received evs (el_objects ?l)\<rparr>)"
    using Cons.prems(3) by (intro Cons.IH) (simp_all add: fun_upd_def)
  then show ?case
    using p c e received_Cons [OF Cons.prems(1) p c(1) \<open>fd \<notin> fst ` set evs\<close>]
    by (simp add: el_object_def active_of_def)
qed

lemma received_fd: "received evs obj p = Some d \<Longrightarrow> \<exists>c. obj p = Some c \<and> ch_fd d = ch_fd c"
  by (auto simp: received_def split: option.splits)

lemma received_object: "obj p = Some c \<Longrightarrow> \<exists>d. received evs obj p = Some d \<and> ch_fd d = ch_fd c"
  by (auto simp: received_def split: option.splits)

lemma channels_ok_received:
  assumes "channels_ok open_fd obj chs"
  shows "channels_ok open_fd (received evs obj) chs"
proof -
  have "open_fd (ch_fd d)" if "received evs obj p = Some d" for p d
    using received_fd [OF that] channels_ok_open [OF assms] by auto
  moreover have "p = q" if "received evs obj p = Some d" "received evs obj q = Some e" "ch_fd d = ch_fd e" for p q d e
    using received_fd [OF that(1)] received_fd [OF that(2)] that(3) assms unfolding channels_ok_def by auto
  moreover have "\<exists>d. received evs obj p = Some d \<and> ch_fd d = fd" if "chs fd = Some p" for fd p
    using channels_ok_object [OF assms that] received_object [of obj p _ evs] by auto
  ultimately show ?thesis unfolding channels_ok_def by blast
qed

lemma wanted_received: "wanted (received evs obj) chs = wanted obj chs"
  by (auto simp: wanted_def received_def fun_eq_iff option.map_comp comp_def split: option.splits intro!: option.map_cong)

lemma watched_registered:
  assumes "loop_ok view open_fd l" "epoll_wait_ok view l evs" "fd \<in> fst ` set evs"
  shows "el_channels l fd \<noteq> None"
  using assms by (auto simp: loop_ok_def epoll_wait_ok_def wanted_def list_all_iff split: option.splits)

lemma Poll_received:
  assumes "loop_ok view open_fd l" "epoll_wait_ok view l evs"
  shows "Poll (Some evs) l active = Inr (active @ active_of evs (el_channels l),
    l\<lparr>el_objects := received evs (el_objects l), el_slots := (if length evs = el_slots l then el_slots l * 2 else el_slots l)\<rparr>)"
proof (cases "evs = []")
  case True
  then show ?thesis using assms(1) by (simp add: Poll_def active_of_def loop_ok_def)
next
  case False
  have "fill_loop evs l active = Inr (active @ active_of evs (el_channels l), l\<lparr>el_objects := received evs (el_objects l)\<rparr>)"
    using fill_loop_received [of open_fd l evs] assms watched_registered [OF assms] by (simp add: loop_ok_def epoll_wait_ok_def)
  then show ?thesis
    using False assms(2) by (simp add: Poll_def FillActiveChannels_def epoll_wait_ok_def)
qed

lemma Poll_keeps:
  assumes "loop_ok view open_fd l" "epoll_wait_ok view l evs" "Poll (Some evs) l active = Inr (active', l')"
  shows "loop_ok view open_fd l'"
  using assms Poll_received [OF assms(1,2)]
  by (auto simp: loop_ok_def channels_ok_received wanted_received)

lemma loop_state_ok:
  assumes "epoll_ok ctl view open_fd" "loop_state ctl view open_fd l"
  shows "loop_ok view open_fd l"
  using assms(2)
proof (induction rule: loop_state.induct)
  case (iterate l i)
  then show ?case by (simp add: loop_ok_def)
next
  case (quit l)
  then show ?case by (simp add: loop_ok_def Quit_def)
next
  case (times l w d)
  then show ?case by (simp add: loop_ok_def set_wait_time_def set_idle_wait_time_def)
qed (auto simp: set_callback_def EnableReading_def DisableReading_def EnableWriting_def DisableWriting_def DisableAll_def
     intro: loop_ok_start loop_ok_callbacks loop_ok_create loop_ok_destroy Poll_keeps set_events_keeps [OF assms(1)] RemoveChannel_keeps [OF assms(1)])

text \<open>
  C15. Whatever a program does with its channels, the kernel watches for each registered descriptor exactly the
  events that its channel wants, and nothing else; and a poll, whatever \<open>epoll_wait\<close> returns, fails none
  of its assertions, appends the channels of the events in their order, leaves with each channel the
  events received for its descriptor, and the next poll has a slot more than this one filled.
\<close>

theorem poller_watches:
  assumes "epoll_ok ctl view open_fd" "loop_state ctl view open_fd l"
  shows "(\<forall>fd. view (el_kernel l) fd = wanted (el_objects l) (el_channels l) fd) \<and>
    (\<forall>evs active. epoll_wait_ok view l evs \<longrightarrow>
      (\<exists>l'. Poll (Some evs) l active = Inr (active @ active_of evs (el_channels l), l') \<and>
        el_objects l' = received evs (el_objects l) \<and> length evs < el_slots l' \<and>
        (\<forall>(fd, ev)\<in>set evs. \<exists>p c. el_channels l fd = Some p \<and> el_objects l' p = Some (c\<lparr>ch_revents := ev\<rparr>) \<and> ch_fd c = fd)))"
proof -
  have ok: "loop_ok view open_fd l" using loop_state_ok [OF assms] .
  have got: "\<exists>p c. el_channels l fd = Some p \<and> received evs (el_objects l) p = Some (c\<lparr>ch_revents := ev\<rparr>) \<and> ch_fd c = fd"
    if w: "epoll_wait_ok view l evs" and e: "(fd, ev) \<in> set evs" for evs fd ev
  proof -
    obtain p where p: "el_channels l fd = Some p" using watched_registered [OF ok w, of fd] e by force
    then obtain c where c: "el_objects l p = Some c" "ch_fd c = fd"
      using ok channels_ok_object [of open_fd _ _ fd p] by (auto simp: loop_ok_def)
    have "map_of evs fd = Some ev" using w e by (simp add: epoll_wait_ok_def map_of_is_SomeI)
    then show ?thesis using p c by (auto simp: received_def)
  qed
  have "length evs < (if length evs = el_slots l then el_slots l * 2 else el_slots l)" if "epoll_wait_ok view l evs" for evs
    using that ok by (simp add: loop_ok_def epoll_wait_ok_def)
  then show ?thesis
    using ok got Poll_received [OF ok] by (auto simp: loop_ok_def)
qed

section \<open>A round of the loop\<close>

text \<open>The callbacks that are due for a channel, in the order of \<open>HandleEvents\<close>, and those of a round.\<close>

definition due :: "channel \<Rightarrow> callback list" where
  "due c = [b \<leftarrow> [ErrorCallback, WriteCallback, ReadCallback]. b \<in> set (ch_set c) \<and>
     ch_revents c AND (case b of ErrorCallback \<Rightarrow> EPOLLERR OR EPOLLHUP | WriteCallback \<Rightarrow> kWriteEvents | ReadCallback \<Rightarrow> kReadEvents) \<noteq> 0]"

definition dispatched :: "(nat \<rightharpoonup> channel) \<Rightarrow> nat list \<Rightarrow> (callback \<times> nat) list" where
  "dispatched obj ps = concat (map (\<lambda>p. map (\<lambda>b. (b, p)) (due (the (obj p)))) ps)"

lemma HandleEvents_due:
  assumes "\<And>b p l. el_objects (f b p l) = el_objects l" "el_objects l p = Some c"
  shows "HandleEvents (\<lambda>b p l. Inr (f b p l)) p l = Inr (fold (\<lambda>b. f b p) (due c) l)"
  using assms by (simp add: HandleEvents_def call_if_def el_object_def due_def)

lemma fold_keeps_objects: "(\<And>b p l. el_objects (f b p l) = el_objects l) \<Longrightarrow> el_objects (fold (\<lambda>b. f b p) bs l) = el_objects l"
  by (induction bs arbitrary: l) simp_all

lemma handle_all_due:
  assumes "\<And>b p l. el_objects (f b p l) = el_objects l" "\<And>p. p \<in> set ps \<Longrightarrow> el_objects l p \<noteq> None"
  shows "handle_all (\<lambda>b p l. Inr (f b p l)) ps l = Inr (fold (\<lambda>(b, p). f b p) (dispatched (el_objects l) ps) l)"
  using assms(2)
proof (induction ps arbitrary: l)
  case Nil
  then show ?case by (simp add: dispatched_def)
next
  case (Cons p ps)
  then obtain c where c: "el_objects l p = Some c" by fastforce
  let ?l = "fold (\<lambda>b. f b p) (due c) l"
  have same: "el_objects ?l = el_objects l" using assms(1) by (rule fold_keeps_objects)
  have "handle_all (\<lambda>b p l. Inr (f b p l)) ps ?l = Inr (fold (\<lambda>(b, p). f b p) (dispatched (el_objects ?l) ps) ?l)"
    using Cons.prems same by (intro Cons.IH) simp
  then show ?case
    using HandleEvents_due [OF assms(1) c] c same by (simp add: dispatched_def fold_map comp_def)
qed

lemma watched_event:
  assumes "(ev :: u32) AND NOT (w OR EPOLLERR OR EPOLLHUP) = 0" "ev AND m \<noteq> 0" "m \<in> {kReadEvents, kWriteEvents}"
  shows "w AND m \<noteq> 0"
proof -
  obtain n where n: "m = 2 ^ n" "n \<in> {0, 2}"
    using assms(3) by (force simp: kReadEvents_def kWriteEvents_def EPOLLIN_def EPOLLOUT_def)
  have ev: "bit ev n" using assms(2) by (simp add: n(1) and_exp_eq_0_iff_not_bit)
  have "\<not> bit EPOLLERR n" "\<not> bit EPOLLHUP n" using n(2) by (auto simp: EPOLLERR_def EPOLLHUP_def)
  moreover have "\<not> bit (ev AND NOT (w OR EPOLLERR OR EPOLLHUP)) n" using assms(1) by simp
  ultimately have "bit w n" using ev n(2) by (auto simp: bit_simps)
  then show ?thesis by (simp add: n(1) and_exp_eq_0_iff_not_bit)
qed

lemma received_active:
  assumes "loop_ok view open_fd l" "epoll_wait_ok view l evs" "p \<in> set (active_of evs (el_channels l))"
  shows "\<exists>fd ev c. (fd, ev) \<in> set evs \<and> el_channels l fd = Some p \<and> el_objects l p = Some c \<and> ch_fd c = fd \<and>
    received evs (el_objects l) p = Some (c\<lparr>ch_revents := ev\<rparr>) \<and> ev AND NOT (ch_events c OR EPOLLERR OR EPOLLHUP) = 0"
proof -
  obtain fd ev where e: "(fd, ev) \<in> set evs" "p = the (el_channels l fd)"
    using assms(3) by (auto simp: active_of_def)
  have chs: "el_channels l fd = Some p" using watched_registered [OF assms(1,2), of fd] e by force
  then obtain c where c: "el_objects l p = Some c" "ch_fd c = fd"
    using assms(1) channels_ok_object [of open_fd _ _ fd p] by (auto simp: loop_ok_def)
  have "map_of evs fd = Some ev" using assms(2) e by (simp add: epoll_wait_ok_def map_of_is_SomeI)
  moreover have "view (el_kernel l) fd = Some (ch_events c)" using assms(1) chs c by (simp add: loop_ok_def wanted_def)
  then have "ev AND NOT (ch_events c OR EPOLLERR OR EPOLLHUP) = 0"
    using assms(2) e(1) by (auto simp: epoll_wait_ok_def list_all_iff)
  ultimately show ?thesis using e(1) chs c by (auto simp: received_def)
qed

lemma due_revents:
  "ReadCallback \<in> set (due c) \<Longrightarrow> ch_revents c AND kReadEvents \<noteq> 0"
  "WriteCallback \<in> set (due c) \<Longrightarrow> ch_revents c AND kWriteEvents \<noteq> 0"
  by (auto simp: due_def split: if_splits)

lemma dispatched_wanted:
  assumes "loop_ok view open_fd l" "epoll_wait_ok view l evs"
    and "(b, p) \<in> set (dispatched (received evs (el_objects l)) (active_of evs (el_channels l)))"
    and "(b, m) \<in> {(ReadCallback, kReadEvents), (WriteCallback, kWriteEvents)}"
  shows "\<exists>c. el_objects l p = Some c \<and> ch_events c AND m \<noteq> 0"
proof -
  have p: "p \<in> set (active_of evs (el_channels l))" "b \<in> set (due (the (received evs (el_objects l) p)))"
    using assms(3) by (auto simp: dispatched_def)
  obtain ev c where c: "el_objects l p = Some c" "received evs (el_objects l) p = Some (c\<lparr>ch_revents := ev\<rparr>)"
      and ev: "ev AND NOT (ch_events c OR EPOLLERR OR EPOLLHUP) = 0"
    using received_active [OF assms(1,2) p(1)] by auto
  have "ev AND m \<noteq> 0" using due_revents [of "c\<lparr>ch_revents := ev\<rparr>"] p(2) c(2) assms(4) by auto
  then have "ch_events c AND m \<noteq> 0" using watched_event [OF ev] assms(4) by auto
  then show ?thesis using c(1) by simp
qed

definition polled :: "(int \<times> u32) list \<Rightarrow> 'k event_loop \<Rightarrow> 'k event_loop" where
  "polled evs l = l\<lparr>el_objects := received evs (el_objects l), el_slots := (if length evs = el_slots l then el_slots l * 2 else el_slots l),
     el_iteration := el_iteration l + 1\<rparr>"

lemma Run_round_dispatched:
  assumes "loop_ok view open_fd l" "epoll_wait_ok view l evs" "\<And>b p l. el_objects (f b p l) = el_objects l"
  defines "l' \<equiv> fold (\<lambda>(b, p). f b p) (dispatched (received evs (el_objects l)) (active_of evs (el_channels l))) (polled evs l)"
  shows "Run_round (\<lambda>b p l. Inr (f b p l)) None (Some evs) (timeout, idle, l) =
    Inr (if 100 \<le> (if evs = [] then idle + 1 else 0) then el_idle_time l' else el_wait_time l', if evs = [] then idle + 1 else 0, l')"
proof -
  let ?act = "active_of evs (el_channels l)"
  have "el_objects (polled evs l) p \<noteq> None" if "p \<in> set ?act" for p
    using received_active [OF assms(1,2) that] by (auto simp: polled_def)
  then have "handle_all (\<lambda>b p l. Inr (f b p l)) ?act (polled evs l) = Inr l'"
    using handle_all_due [OF assms(3), of ?act "polled evs l"] by (simp add: l'_def polled_def)
  moreover have "?act = [] \<longleftrightarrow> evs = []" by (simp add: active_of_def)
  ultimately show ?thesis
    by (simp add: Run_round_def Poll_received [OF assms(1,2)] Let_def polled_def)
qed

text \<open>
  C27. A round of \<open>Run\<close>, with callbacks that neither create nor change nor destroy channels: it never fails,
  it calls for the channels in the order of the events the error, the write and the read callback, each if it
  is set and its events were received, and nothing else; reading and writing are called back only where
  the channel asked for them; the iteration is counted, and the number of idle rounds is counted up or reset.
\<close>

theorem round_dispatches:
  assumes "epoll_ok ctl view open_fd" "loop_state ctl view open_fd l" "epoll_wait_ok view l evs"
    and "\<And>b p l. el_objects (f b p l) = el_objects l"
  shows "(\<exists>l' idle'. Run_round (\<lambda>b p l. Inr (f b p l)) None (Some evs) (timeout, idle, l) =
        Inr (if 100 \<le> idle' then el_idle_time l' else el_wait_time l', idle', l') \<and>
      idle' = (if evs = [] then idle + 1 else 0) \<and>
      l' = fold (\<lambda>(b, p). f b p) (dispatched (received evs (el_objects l)) (active_of evs (el_channels l))) (polled evs l)) \<and>
    (\<forall>p. (ReadCallback, p) \<in> set (dispatched (received evs (el_objects l)) (active_of evs (el_channels l))) \<longrightarrow>
      (\<exists>c. el_objects l p = Some c \<and> ch_events c AND kReadEvents \<noteq> 0)) \<and>
    (\<forall>p. (WriteCallback, p) \<in> set (dispatched (received evs (el_objects l)) (active_of evs (el_channels l))) \<longrightarrow>
      (\<exists>c. el_objects l p = Some c \<and> ch_events c AND kWriteEvents \<noteq> 0))"
proof -
  have ok: "loop_ok view open_fd l" using loop_state_ok [OF assms(1,2)] .
  show ?thesis
    using Run_round_dispatched [OF ok assms(3,4)] dispatched_wanted [OF ok assms(3)] by simp
qed

lemma idle_rounds:
  assumes "\<not> el_quit l"
  shows "Run_loop cb None (replicate n (Some [])) (if 100 \<le> i then el_idle_time l else el_wait_time l, i, l) =
    Inr (if 100 \<le> i + of_nat n then el_idle_time l else el_wait_time l, i + of_nat n, l\<lparr>el_iteration := el_iteration l + of_nat n\<rparr>)"
  using assms
proof (induction n arbitrary: i l)
  case (Suc n)
  then show ?case
    using Suc.IH [of "l\<lparr>el_iteration := el_iteration l + 1\<rparr>" "i + 1"]
    by (simp add: Run_round_def Poll_def Let_def ac_simps)
qed simp

text \<open>
  A loop without events waits \<open>wait_time_\<close> at a time, and from the hundredth round in a row on
  \<open>idle_time_\<close>; the count of idle rounds is a 32-bit integer, which wraps around.
\<close>

theorem Run_idle:
  assumes "\<not> el_quit l"
  shows "Run cb None (replicate n (Some [])) l =
    Inr (if 100 \<le> (of_nat n :: u32) then el_idle_time l else el_wait_time l, of_nat n, l\<lparr>el_iteration := el_iteration l + of_nat n\<rparr>)"
  using idle_rounds [OF assms, of cb n 0] by (simp add: Run_def)


section \<open>An instance\<close>

text \<open>A kernel that keeps its interest list in a map, and a loop with one channel, for descriptor 5, that reads.\<close>

definition map_ctl :: "(int \<rightharpoonup> u32) epoll_ctl" where
  "map_ctl op fd e k = (case op of
     EPOLL_CTL_ADD \<Rightarrow> if k fd = None then k(fd \<mapsto> e) else k
   | EPOLL_CTL_MOD \<Rightarrow> if k fd = None then k else k(fd \<mapsto> e)
   | EPOLL_CTL_DEL \<Rightarrow> k(fd := None))"

definition reading_loop :: "(int \<rightharpoonup> u32) event_loop" where
  "reading_loop = (EventLoop [5 \<mapsto> 1])\<lparr>el_objects := [0 \<mapsto> \<lparr>ch_fd = 5, ch_events = 1, ch_revents = 0, ch_set = [ReadCallback]\<rparr>], el_channels := [5 \<mapsto> 0]\<rparr>"

lemma map_ctl_ok: "epoll_ok map_ctl (\<lambda>k. k) (\<lambda>fd. 0 \<le> fd)"
  by (simp add: epoll_ok_def map_ctl_def)

lemma reading_loop_state: "loop_state map_ctl (\<lambda>k. k) (\<lambda>fd. 0 \<le> fd) reading_loop"
proof -
  let ?state = "loop_state map_ctl (\<lambda>k. k) (\<lambda>fd. 0 \<le> fd)"
  let ?l = "EventLoop Map.empty :: (int \<rightharpoonup> u32) event_loop"
  have "?state ?l" by (rule loop_state.start) simp
  then have "?state (?l\<lparr>el_objects := (el_objects ?l)(0 \<mapsto> Channel 5)\<rparr>)"
    by (rule loop_state.create) (simp_all add: EventLoop_def)
  from loop_state.set_callbacks [OF this, of 0 "Channel 5" ReadCallback]
  have "?state (?l\<lparr>el_objects := [0 \<mapsto> (Channel 5)\<lparr>ch_set := [ReadCallback]\<rparr>]\<rparr>)"
    by (simp add: EventLoop_def set_callback_def Channel_def)
  then show ?thesis
    by (rule loop_state.enable_reading [where p = 0])
      (simp add: EnableReading_def set_events_def UpdateChannel_def el_object_def EventLoop_def Channel_def map_ctl_def
         kReadEvents_def EPOLLIN_def reading_loop_def)
qed

lemma reading_loop_ready: "epoll_wait_ok (\<lambda>k. k) reading_loop [(5, 1)]"
  by (simp add: epoll_wait_ok_def reading_loop_def EventLoop_def EPOLLERR_def EPOLLHUP_def)

theorem poller_watches_witness:
  "\<exists>l'. Poll (Some [(5, 1)]) reading_loop [] = Inr ([0], l') \<and> length [(5::int, 1::u32)] < el_slots l'"
proof -
  have "\<exists>l'. Poll (Some [(5, 1)]) reading_loop [] = Inr ([] @ active_of [(5, 1)] (el_channels reading_loop), l') \<and>
      length [(5::int, 1::u32)] < el_slots l'"
    using poller_watches [OF map_ctl_ok reading_loop_state] reading_loop_ready by blast
  then show ?thesis by (simp add: active_of_def reading_loop_def)
qed

theorem round_dispatches_witness:
  "\<exists>l' idle'. Run_round (\<lambda>b p l. Inr (l\<lparr>el_quit := (b = ReadCallback \<and> p = 0)\<rparr>)) None (Some [(5, 1)]) (20, 7, reading_loop) =
      Inr (20, idle', l') \<and> idle' = 0 \<and> el_quit l'"
proof -
  let ?f = "\<lambda>b p (l :: (int \<rightharpoonup> u32) event_loop). l\<lparr>el_quit := (b = ReadCallback \<and> p = 0)\<rparr>"
  have d: "dispatched (received [(5, 1)] (el_objects reading_loop)) (active_of [(5, 1)] (el_channels reading_loop)) = [(ReadCallback, 0)]"
    by (simp add: dispatched_def active_of_def received_def reading_loop_def due_def EPOLLERR_def EPOLLHUP_def
        kReadEvents_def kWriteEvents_def EPOLLIN_def EPOLLOUT_def)
  have keep: "\<And>b p l. el_objects (?f b p l) = el_objects l" by simp
  let ?ds = "dispatched (received [(5, 1)] (el_objects reading_loop)) (active_of [(5, 1)] (el_channels reading_loop))"
  obtain l' idle' where r: "Run_round (\<lambda>b p l. Inr (?f b p l)) None (Some [(5, 1)]) (20, 7, reading_loop) =
        Inr (if 100 \<le> idle' then el_idle_time l' else el_wait_time l', idle', l')"
      and i: "idle' = (if [(5 :: int, 1 :: u32)] = [] then 7 + 1 else 0)"
      and l': "l' = fold (\<lambda>(b, p). ?f b p) ?ds (polled [(5, 1)] reading_loop)"
    using round_dispatches [OF map_ctl_ok reading_loop_state reading_loop_ready, where f = ?f and timeout = 20 and idle = 7, OF keep] by blast
  have "el_quit l'" "el_wait_time l' = 20" using l' d by (simp_all add: polled_def reading_loop_def EventLoop_def)
  then show ?thesis using r i by simp
qed

theorem Run_idle_witness:
  "Run (\<lambda>b p. Inr) None (replicate 150 (Some [])) reading_loop = Inr (100, 150, reading_loop\<lparr>el_iteration := 150\<rparr>)"
  using Run_idle [of reading_loop "\<lambda>b p. Inr" 150] by (simp add: reading_loop_def EventLoop_def)

end
