(* ===== verification/Udp_Server.thy ===== *)
theory Udp_Server
  imports Event_Loop
begin

text \<open>
  The UDP server on the event loop, \<open>udpserver/src/net/udp_listener.{h,cc}\<close> and \<open>udp_server.{h,cc}\<close>. The
  system calls on sockets are arguments of the operations: functions on the state of the kernel, which
  the loop carries.
\<close>

record ('a, 'k) sockets =
  sys_socket :: "'k \<Rightarrow> int \<times> 'k"
  sys_bind :: "int \<Rightarrow> string \<Rightarrow> int \<Rightarrow> 'k \<Rightarrow> bool \<times> 'k"
  sys_recvfrom :: "int \<Rightarrow> nat \<Rightarrow> 'k \<Rightarrow> ('a \<times> byte list) option \<times> 'k"
  sys_sendto :: "int \<Rightarrow> byte list \<Rightarrow> 'a \<Rightarrow> 'k \<Rightarrow> 'k"
  sys_close :: "int \<Rightarrow> 'k \<Rightarrow> 'k"

text \<open>A message callback: what it returns, the reply it leaves in its last argument, and what it does to the rest of the world.\<close>

type_synonym 'k message_callback = "byte list \<Rightarrow> 'k \<Rightarrow> int \<times> byte list \<times> 'k"

definition kMaxUdpMessageSize :: nat where "kMaxUdpMessageSize = 65536"

definition OnMessage :: "('a, 'k) sockets \<Rightarrow> 'k message_callback option \<Rightarrow> int \<Rightarrow> 'k \<Rightarrow> 'k" where
  "OnMessage sys mcb fd k =
     (case sys_recvfrom sys fd kMaxUdpMessageSize k of
        (None, k1) \<Rightarrow> k1
      | (Some (ca, inp), k1) \<Rightarrow>
          (case mcb of None \<Rightarrow> k1
           | Some f \<Rightarrow>
               (case f inp k1 of (ret, out, k2) \<Rightarrow>
                  if ret < 0 then k2
                  else if kMaxUdpMessageSize < length out then sys_sendto sys fd (take kMaxUdpMessageSize out) ca k2
                  else sys_sendto sys fd out ca k2)))"

section \<open>The listener\<close>

text \<open>\<open>us_channel\<close> is the address of the listener's channel, none before \<open>Start\<close>.\<close>

record 'k udp_listener =
  us_fd :: int
  us_channel :: "nat option"
  us_callback :: "'k message_callback option"

definition UdpListener :: "'k udp_listener" where
  "UdpListener = \<lparr>us_fd = -1, us_channel = None, us_callback = None\<rparr>"

definition set_message_callback :: "'k message_callback option \<Rightarrow> 'k udp_listener \<Rightarrow> 'k udp_listener" where
  "set_message_callback mcb u = u\<lparr>us_callback := mcb\<rparr>"

text \<open>\<open>inet_pton\<close> is an argument too: it tells whether the text is an address.\<close>

definition BindOrAbort :: "('a, 'k) sockets \<Rightarrow> (string \<Rightarrow> bool) \<Rightarrow> string \<Rightarrow> int \<Rightarrow> 'k udp_listener \<Rightarrow> 'k event_loop \<Rightarrow> ('k udp_listener \<times> 'k event_loop) result" where
  "BindOrAbort sys inet_pton ip port u l =
     (case sys_socket sys (el_kernel l) of (fd, k1) \<Rightarrow>
        require (0 \<le> fd) (require (inet_pton ip)
          (case sys_bind sys fd ip port k1 of (ok, k2) \<Rightarrow>
             require ok (Inr (u\<lparr>us_fd := fd\<rparr>, l\<lparr>el_kernel := k2\<rparr>)))))"

text \<open>
  \<open>p\<close> is the address that \<open>new\<close> returns. Resetting \<open>channel_\<close> destroys the channel of an earlier
  \<open>Start\<close>; the destructor does not remove it from the loop.
\<close>

definition Listener_Start :: "'k epoll_ctl \<Rightarrow> nat \<Rightarrow> 'k udp_listener \<Rightarrow> 'k event_loop \<Rightarrow> ('k udp_listener \<times> 'k event_loop) result" where
  "Listener_Start ctl p u l =
     (let c = (Channel (us_fd u))\<lparr>ch_set := [ReadCallback]\<rparr>;
          obj = (case us_channel u of None \<Rightarrow> el_objects l | Some old \<Rightarrow> (el_objects l)(old := None))
      in rbind (EnableReading ctl (l\<lparr>el_objects := obj(p \<mapsto> c)\<rparr>) p) (\<lambda>l1.
           rbind (DisableWriting ctl l1 p) (\<lambda>l2. Inr (u\<lparr>us_channel := Some p\<rparr>, l2))))"

definition Listener_destroy :: "'k epoll_ctl \<Rightarrow> u32 \<Rightarrow> ('a, 'k) sockets \<Rightarrow> 'k udp_listener \<Rightarrow> 'k event_loop \<Rightarrow> 'k event_loop result" where
  "Listener_destroy ctl junk sys u l =
     (case us_channel u of None \<Rightarrow> Inr l
      | Some p \<Rightarrow> rbind (RemoveChannel ctl junk l p) (\<lambda>l1.
          Inr (l1\<lparr>el_kernel := sys_close sys (us_fd u) (el_kernel l1), el_objects := (el_objects l1)(p := None)\<rparr>)))"

text \<open>The read callback that \<open>Start\<close> sets; no other callback is set.\<close>

definition listener_callbacks :: "('a, 'k) sockets \<Rightarrow> 'k udp_listener \<Rightarrow> callback \<Rightarrow> nat \<Rightarrow> 'k event_loop \<Rightarrow> 'k event_loop" where
  "listener_callbacks sys u b p l =
     (if b = ReadCallback \<and> us_channel u = Some p then l\<lparr>el_kernel := OnMessage sys (us_callback u) (us_fd u) (el_kernel l)\<rparr> else l)"

section \<open>The server\<close>

record 'k udp_server =
  sv_ip :: string
  sv_port :: int
  sv_callback :: "'k message_callback option"
  sv_listener :: "'k udp_listener option"

definition UdpServer :: "string \<Rightarrow> int \<Rightarrow> 'k udp_server" where
  "UdpServer ip port = \<lparr>sv_ip = ip, sv_port = port, sv_callback = None, sv_listener = None\<rparr>"

definition set_read_callback :: "'k message_callback \<Rightarrow> 'k udp_server \<Rightarrow> 'k udp_server" where
  "set_read_callback f s = s\<lparr>sv_callback := Some f\<rparr>"

text \<open>Resetting \<open>listener_\<close> destroys the listener of an earlier \<open>Start\<close>.\<close>

definition Server_Start :: "'k epoll_ctl \<Rightarrow> u32 \<Rightarrow> ('a, 'k) sockets \<Rightarrow> (string \<Rightarrow> bool) \<Rightarrow> nat \<Rightarrow> 'k udp_server \<Rightarrow> 'k event_loop \<Rightarrow> ('k udp_server \<times> 'k event_loop) result" where
  "Server_Start ctl junk sys inet_pton p s l =
     rbind (case sv_listener s of None \<Rightarrow> Inr l | Some old \<Rightarrow> Listener_destroy ctl junk sys old l) (\<lambda>l1.
     rbind (BindOrAbort sys inet_pton (sv_ip s) (sv_port s) (set_message_callback (sv_callback s) UdpListener) l1) (\<lambda>(u, l2).
     rbind (Listener_Start ctl p u l2) (\<lambda>(u', l3).
       Inr (s\<lparr>sv_listener := Some u'\<rparr>, l3))))"

section \<open>What sockets promise\<close>

text \<open>
  \<open>inbox\<close> holds the datagrams that have arrived at a socket with their senders, \<open>outbox\<close> those that have been
  sent from it. \<open>recvfrom\<close> takes the first that has arrived, cut to the size of the buffer, and fails if there
  is none. A datagram of IPv4 carries at most 65507 bytes: \<open>sendto\<close> sends it if it has no more and fails
  otherwise. None of these calls changes what is watched.
\<close>

definition udp_payload :: nat where "udp_payload = 65507"

type_synonym ('a, 'k) mail = "'k \<Rightarrow> int \<Rightarrow> ('a \<times> byte list) list"

definition sockets_ok :: "('a, 'k) sockets \<Rightarrow> ('k \<Rightarrow> int \<rightharpoonup> u32) \<Rightarrow> ('a, 'k) mail \<Rightarrow> ('a, 'k) mail \<Rightarrow> bool" where
  "sockets_ok sys view inbox outbox \<longleftrightarrow>
     (\<forall>k. view (snd (sys_socket sys k)) = view k) \<and>
     (\<forall>fd ip port k. view (snd (sys_bind sys fd ip port k)) = view k) \<and>
     (\<forall>fd n k. view (snd (sys_recvfrom sys fd n k)) = view k \<and> outbox (snd (sys_recvfrom sys fd n k)) = outbox k \<and>
        inbox (snd (sys_recvfrom sys fd n k)) = (inbox k)(fd := tl (inbox k fd)) \<and>
        fst (sys_recvfrom sys fd n k) = (case inbox k fd of [] \<Rightarrow> None | (a, m) # ms \<Rightarrow> Some (a, take n m))) \<and>
     (\<forall>fd m a k. view (sys_sendto sys fd m a k) = view k \<and> inbox (sys_sendto sys fd m a k) = inbox k \<and>
        outbox (sys_sendto sys fd m a k) = (if length m \<le> udp_payload then (outbox k)(fd := outbox k fd @ [(a, m)]) else outbox k))"

text \<open>The answers to a datagram, for a callback that returns \<open>ret m\<close> and replies \<open>out m\<close>.\<close>

definition answers :: "(byte list \<Rightarrow> int) \<Rightarrow> (byte list \<Rightarrow> byte list) \<Rightarrow> 'a \<times> byte list \<Rightarrow> ('a \<times> byte list) list" where
  "answers ret out d = (case d of (a, m) \<Rightarrow>
     if 0 \<le> ret (take kMaxUdpMessageSize m) \<and> length (out (take kMaxUdpMessageSize m)) \<le> udp_payload
     then [(a, out (take kMaxUdpMessageSize m))] else [])"

lemma OnMessage_answers:
  assumes "sockets_ok sys view inbox outbox"
  shows "view (OnMessage sys (Some (\<lambda>m k. (ret m, out m, k))) fd k) = view k \<and>
    inbox (OnMessage sys (Some (\<lambda>m k. (ret m, out m, k))) fd k) = (inbox k)(fd := tl (inbox k fd)) \<and>
    outbox (OnMessage sys (Some (\<lambda>m k. (ret m, out m, k))) fd k) fd = outbox k fd @ concat (map (answers ret out) (take 1 (inbox k fd)))"
proof (cases "inbox k fd")
  case Nil
  then have "fst (sys_recvfrom sys fd kMaxUdpMessageSize k) = None"
    using assms by (simp add: sockets_ok_def)
  then have "OnMessage sys (Some (\<lambda>m k. (ret m, out m, k))) fd k = snd (sys_recvfrom sys fd kMaxUdpMessageSize k)"
    by (cases "sys_recvfrom sys fd kMaxUdpMessageSize k") (simp add: OnMessage_def)
  then show ?thesis using assms Nil by (simp add: sockets_ok_def)
next
  case (Cons d ds)
  obtain a m where d: "d = (a, m)" by fastforce
  let ?m = "take kMaxUdpMessageSize m"
  obtain r k' where rk: "sys_recvfrom sys fd kMaxUdpMessageSize k = (r, k')" by fastforce
  have "fst (sys_recvfrom sys fd kMaxUdpMessageSize k) = Some (a, ?m)" using assms Cons d by (simp add: sockets_ok_def)
  then have recv: "sys_recvfrom sys fd kMaxUdpMessageSize k = (Some (a, ?m), k')" using rk by simp
  have "view (snd (sys_recvfrom sys fd kMaxUdpMessageSize k)) = view k" "outbox (snd (sys_recvfrom sys fd kMaxUdpMessageSize k)) = outbox k"
      "inbox (snd (sys_recvfrom sys fd kMaxUdpMessageSize k)) = (inbox k)(fd := tl (inbox k fd))"
    using assms by (simp_all add: sockets_ok_def)
  then have k: "view k' = view k" "outbox k' = outbox k" "inbox k' = (inbox k)(fd := tl (inbox k fd))" using rk by simp_all
  have send: "view (sys_sendto sys fd x a k') = view k" "inbox (sys_sendto sys fd x a k') = (inbox k)(fd := tl (inbox k fd))"
      "outbox (sys_sendto sys fd x a k') fd = outbox k fd @ (if length x \<le> udp_payload then [(a, x)] else [])" for x
    using assms k unfolding sockets_ok_def by simp_all
  consider "ret ?m < 0" | "0 \<le> ret ?m" "kMaxUdpMessageSize < length (out ?m)" | "0 \<le> ret ?m" "length (out ?m) \<le> kMaxUdpMessageSize"
    by linarith
  then show ?thesis
  proof cases
    case 1
    then have "OnMessage sys (Some (\<lambda>m k. (ret m, out m, k))) fd k = k'" by (simp add: OnMessage_def recv)
    then show ?thesis using k Cons d 1 by (simp add: answers_def)
  next
    case 2
    then have "OnMessage sys (Some (\<lambda>m k. (ret m, out m, k))) fd k = sys_sendto sys fd (take kMaxUdpMessageSize (out ?m)) a k'"
      by (simp add: OnMessage_def recv)
    then show ?thesis using send [of "take kMaxUdpMessageSize (out ?m)"] Cons d 2
      by (simp add: answers_def kMaxUdpMessageSize_def udp_payload_def)
  next
    case 3
    then have "OnMessage sys (Some (\<lambda>m k. (ret m, out m, k))) fd k = sys_sendto sys fd (out ?m) a k'"
      by (simp add: OnMessage_def recv)
    then show ?thesis using send [of "out ?m"] Cons d 3 by (simp add: answers_def)
  qed
qed

section \<open>Serving\<close>

definition serving :: "('k \<Rightarrow> int \<rightharpoonup> u32) \<Rightarrow> (int \<Rightarrow> bool) \<Rightarrow> nat \<Rightarrow> int \<Rightarrow> 'k event_loop \<Rightarrow> bool" where
  "serving view open_fd p fd l \<longleftrightarrow> loop_ok view open_fd l \<and> el_channels l fd = Some p \<and> \<not> el_quit l \<and>
     (\<exists>c. el_objects l p = Some c \<and> ch_fd c = fd \<and> ch_events c = kReadEvents \<and> ch_set c = [ReadCallback])"

lemma serving_poll:
  assumes "serving view open_fd p fd l" "evs = [] \<or> evs = [(fd, EPOLLIN)]"
  shows "epoll_wait_ok view l evs"
proof -
  have "view (el_kernel l) fd = Some kReadEvents" "0 < el_slots l"
    using assms(1) by (auto simp: serving_def loop_ok_def wanted_def)
  then show ?thesis using assms(2) by (auto simp: epoll_wait_ok_def kReadEvents_def EPOLLIN_def EPOLLERR_def EPOLLHUP_def)
qed

lemma serving_dispatched:
  assumes "serving view open_fd p fd l" "evs = [] \<or> evs = [(fd, EPOLLIN)]"
  shows "dispatched (received evs (el_objects l)) (active_of evs (el_channels l)) = map (\<lambda>e. (ReadCallback, p)) evs"
  using assms by (auto simp: serving_def dispatched_def active_of_def received_def due_def kReadEvents_def kWriteEvents_def
      EPOLLIN_def EPOLLOUT_def EPOLLERR_def EPOLLHUP_def)

lemma received_keeps: "obj p = Some c \<Longrightarrow> \<exists>r. received evs obj p = Some (c\<lparr>ch_revents := r\<rparr>)"
  by (intro exI [of _ "case map_of evs (ch_fd c) of None \<Rightarrow> ch_revents c | Some ev \<Rightarrow> ev"]) (simp add: received_def split: option.split)

lemma serving_polled:
  assumes "serving view open_fd p fd l" "evs = [] \<or> evs = [(fd, EPOLLIN)]" "view k = view (el_kernel l)"
  shows "serving view open_fd p fd ((polled evs l)\<lparr>el_kernel := k\<rparr>)"
proof -
  have "loop_ok view open_fd ((polled evs l)\<lparr>el_kernel := k\<rparr>)"
    using assms(1,3) by (simp add: serving_def loop_ok_def polled_def channels_ok_received wanted_received)
  moreover obtain c where "el_objects l p = Some c" "ch_fd c = fd" "ch_events c = kReadEvents" "ch_set c = [ReadCallback]"
    using assms(1) by (auto simp: serving_def)
  ultimately show ?thesis
    using assms(1) received_keeps [of "el_objects l" p c evs] by (auto simp: serving_def polled_def)
qed

lemma polled_kernel [simp]: "el_kernel (polled evs l) = el_kernel l"
  by (simp add: polled_def)

lemma serving_round:
  assumes "serving view open_fd p fd l" "us_channel u = Some p" "us_fd u = fd" "evs = [] \<or> evs = [(fd, EPOLLIN)]"
  shows "\<exists>t' i'. Run_round (\<lambda>b p l. Inr (listener_callbacks sys u b p l)) None (Some evs) (t, i, l) =
    Inr (t', i', (polled evs l)\<lparr>el_kernel := (if evs = [] then el_kernel l else OnMessage sys (us_callback u) fd (el_kernel l))\<rparr>)"
proof -
  have ok: "loop_ok view open_fd l" using assms(1) by (simp add: serving_def)
  have keep: "el_objects (listener_callbacks sys u b p l) = el_objects l" for b p l
    by (simp add: listener_callbacks_def)
  have "fold (\<lambda>(b, p). listener_callbacks sys u b p) (map (\<lambda>e. (ReadCallback, p)) evs) (polled evs l) =
      (polled evs l)\<lparr>el_kernel := (if evs = [] then el_kernel l else OnMessage sys (us_callback u) fd (el_kernel l))\<rparr>"
    using assms by (auto simp: listener_callbacks_def)
  then show ?thesis
    using Run_round_dispatched [OF ok serving_poll [OF assms(1,4)], where f = "listener_callbacks sys u" and timeout = t and idle = i, OF keep]
      serving_dispatched [OF assms(1,4)] by simp
qed

text \<open>How often a sequence of answers of \<open>epoll_wait\<close> reports that the socket can be read.\<close>

definition readable :: "(int \<times> u32) list option list \<Rightarrow> nat" where
  "readable rs = length [r \<leftarrow> rs. r \<noteq> None \<and> r \<noteq> Some []]"

lemma take_concat_step:
  "concat (map f (take 1 xs)) @ concat (map f (take n (tl xs))) = concat (map f (take (Suc n) xs))"
  by (cases xs) simp_all

lemma serving_rounds:
  assumes "sockets_ok sys view inbox outbox" "us_channel u = Some p" "us_fd u = fd" "us_callback u = Some (\<lambda>m k. (ret m, out m, k))"
    and "serving view open_fd p fd l" "set rs \<subseteq> {None, Some [], Some [(fd, EPOLLIN)]}"
  shows "\<exists>t' i' l'. Run_loop (\<lambda>b p l. Inr (listener_callbacks sys u b p l)) None rs (t, i, l) = Inr (t', i', l') \<and>
    serving view open_fd p fd l' \<and> inbox (el_kernel l') fd = drop (readable rs) (inbox (el_kernel l) fd) \<and>
    outbox (el_kernel l') fd = outbox (el_kernel l) fd @ concat (map (answers ret out) (take (readable rs) (inbox (el_kernel l) fd)))"
  using assms(5,6)
proof (induction rs arbitrary: t i l)
  case Nil
  then show ?case by (simp add: readable_def)
next
  case (Cons r rs)
  have q: "\<not> el_quit l" using Cons.prems(1) by (simp add: serving_def)
  have rs: "set rs \<subseteq> {None, Some [], Some [(fd, EPOLLIN)]}" using Cons.prems(2) by simp
  show ?case
  proof (cases "r = None")
    case True
    have "Run_round (\<lambda>b p l. Inr (listener_callbacks sys u b p l)) None None (t, i, l) =
        Inr (if 100 \<le> i + 1 then el_idle_time l else el_wait_time l, i + 1, l\<lparr>el_iteration := el_iteration l + 1\<rparr>)"
      by (simp add: Run_round_def Poll_def Let_def)
    moreover have "serving view open_fd p fd (l\<lparr>el_iteration := el_iteration l + 1\<rparr>)"
      using Cons.prems(1) by (simp add: serving_def loop_ok_def)
    moreover have "readable (r # rs) = readable rs" using True by (simp add: readable_def)
    ultimately show ?thesis
      using Cons.IH [OF _ rs, of "l\<lparr>el_iteration := el_iteration l + 1\<rparr>" "if 100 \<le> i + 1 then el_idle_time l else el_wait_time l" "i + 1"] q True
      by (simp del: if_split)
  next
    case False
    then obtain evs where evs: "r = Some evs" "evs = [] \<or> evs = [(fd, EPOLLIN)]" using Cons.prems(2) by auto
    let ?k = "if evs = [] then el_kernel l else OnMessage sys (us_callback u) fd (el_kernel l)"
    obtain t' i' where round: "Run_round (\<lambda>b p l. Inr (listener_callbacks sys u b p l)) None (Some evs) (t, i, l) =
        Inr (t', i', (polled evs l)\<lparr>el_kernel := ?k\<rparr>)"
      using serving_round [OF Cons.prems(1) assms(2,3) evs(2)] by metis
    have k: "view ?k = view (el_kernel l)" "inbox ?k fd = drop (length evs) (inbox (el_kernel l) fd)"
        "outbox ?k fd = outbox (el_kernel l) fd @ concat (map (answers ret out) (take (length evs) (inbox (el_kernel l) fd)))"
      using OnMessage_answers [OF assms(1)] evs(2) assms(4) by (auto simp: drop_Suc)
    obtain t2 i2 l2 where run: "Run_loop (\<lambda>b p l. Inr (listener_callbacks sys u b p l)) None rs (t', i', (polled evs l)\<lparr>el_kernel := ?k\<rparr>) = Inr (t2, i2, l2)"
      and l2: "serving view open_fd p fd l2" "inbox (el_kernel l2) fd = drop (readable rs) (inbox ?k fd)"
        "outbox (el_kernel l2) fd = outbox ?k fd @ concat (map (answers ret out) (take (readable rs) (inbox ?k fd)))"
      using Cons.IH [OF serving_polled [OF Cons.prems(1) evs(2) k(1)] rs, of t' i'] by auto
    have n: "readable (r # rs) = length evs + readable rs" using evs by (auto simp: readable_def)
    have "outbox (el_kernel l2) fd = outbox (el_kernel l) fd @ concat (map (answers ret out) (take (readable (r # rs)) (inbox (el_kernel l) fd)))"
      using l2(3) k(2,3) n by (simp add: take_add)
    then show ?thesis using round run l2(1,2) k(2) n q evs(1) by (auto simp: add.commute)
  qed
qed

lemma set_events_quit: "set_events ctl g l p = Inr l' \<Longrightarrow> el_quit l' = el_quit l"
  by (auto simp: set_events_def UpdateChannel_def el_object_def split: option.splits)

lemma Listener_Start_serving:
  assumes "epoll_ok ctl view open_fd" "loop_ok view open_fd l" "\<not> el_quit l" "us_channel u = None" "open_fd (us_fd u)"
    and "el_objects l p = None" "\<And>q c. el_objects l q = Some c \<Longrightarrow> ch_fd c \<noteq> us_fd u"
  shows "\<exists>l'. Listener_Start ctl p u l = Inr (u\<lparr>us_channel := Some p\<rparr>, l') \<and> serving view open_fd p (us_fd u) l'"
proof -
  let ?c = "(Channel (us_fd u))\<lparr>ch_set := [ReadCallback]\<rparr>"
  let ?l = "l\<lparr>el_objects := (el_objects l)(p \<mapsto> ?c)\<rparr>"
  have "loop_ok view open_fd (l\<lparr>el_objects := (el_objects l)(p \<mapsto> Channel (us_fd u))\<rparr>)"
    using loop_ok_create [OF assms(2,5,6)] assms(7) by blast
  from loop_ok_callbacks [OF this, of p "Channel (us_fd u)" "[ReadCallback]"]
  have l: "loop_ok view open_fd ?l" by simp
  obtain l1 where l1: "EnableReading ctl ?l p = Inr l1" "loop_ok view open_fd l1"
      "el_objects l1 p = Some (?c\<lparr>ch_events := kReadEvents\<rparr>)" "\<not> el_quit l1"
    using set_events_ok [OF assms(1) l, of p ?c "\<lambda>e. e OR kReadEvents"] set_events_quit [of ctl _ ?l p] assms(3)
    by (auto simp: EnableReading_def Channel_def)
  obtain l2 where l2: "DisableWriting ctl l1 p = Inr l2" "loop_ok view open_fd l2" "\<not> el_quit l2" "el_channels l2 (us_fd u) = Some p"
      "el_objects l2 p = Some (?c\<lparr>ch_events := kReadEvents AND NOT kWriteEvents\<rparr>)"
    using set_events_ok [OF assms(1) l1(2,3), of "\<lambda>e. e AND NOT kWriteEvents"] set_events_quit [of ctl _ l1 p] l1(4)
    by (auto simp: DisableWriting_def Channel_def)
  have "kReadEvents AND NOT kWriteEvents = kReadEvents" by (simp add: kReadEvents_def kWriteEvents_def EPOLLIN_def EPOLLOUT_def)
  then show ?thesis
    using l1(1) l2 assms(4) by (auto simp: Listener_Start_def serving_def Channel_def Let_def)
qed

lemma BindOrAbort_ok:
  assumes "sys_socket sys (el_kernel l) = (fd, k1)" "0 \<le> fd" "inet_pton ip" "fst (sys_bind sys fd ip port k1)"
  shows "BindOrAbort sys inet_pton ip port u l = Inr (u\<lparr>us_fd := fd\<rparr>, l\<lparr>el_kernel := snd (sys_bind sys fd ip port k1)\<rparr>)"
  using assms by (cases "sys_bind sys fd ip port k1") (simp add: BindOrAbort_def)



section \<open>An instance\<close>

text \<open>A kernel with an interest list and mailboxes; a server on it that replies with the bytes in reverse.\<close>

record mail_kernel =
  mk_watch :: "int \<rightharpoonup> u32"
  mk_in :: "int \<Rightarrow> (nat \<times> byte list) list"
  mk_out :: "int \<Rightarrow> (nat \<times> byte list) list"

definition mail_ctl :: "mail_kernel epoll_ctl" where
  "mail_ctl op fd e k = k\<lparr>mk_watch := map_ctl op fd e (mk_watch k)\<rparr>"

definition mail_sockets :: "(nat, mail_kernel) sockets" where
  "mail_sockets = \<lparr>sys_socket = (\<lambda>k. (5, k)), sys_bind = (\<lambda>fd ip port k. (True, k)),
     sys_recvfrom = (\<lambda>fd n k. (case mk_in k fd of [] \<Rightarrow> None | (a, m) # ms \<Rightarrow> Some (a, take n m), k\<lparr>mk_in := (mk_in k)(fd := tl (mk_in k fd))\<rparr>)),
     sys_sendto = (\<lambda>fd m a k. if length m \<le> udp_payload then k\<lparr>mk_out := (mk_out k)(fd := mk_out k fd @ [(a, m)])\<rparr> else k),
     sys_close = (\<lambda>fd k. k)\<rparr>"

definition mail_start :: mail_kernel where
  "mail_start = \<lparr>mk_watch = Map.empty, mk_in = (\<lambda>fd. if fd = 5 then [(7, [1, 2]), (8, [3])] else []), mk_out = (\<lambda>fd. [])\<rparr>"

lemma mail_ctl_ok: "epoll_ok mail_ctl mk_watch (\<lambda>fd. 0 \<le> fd)"
  by (simp add: epoll_ok_def mail_ctl_def map_ctl_def)

lemma mail_sockets_ok: "sockets_ok mail_sockets mk_watch mk_in mk_out"
  by (simp add: sockets_ok_def mail_sockets_def)

lemma mail_loop_state: "loop_state mail_ctl mk_watch (\<lambda>fd. 0 \<le> fd) (EventLoop mail_start)"
  by (rule loop_state.start) (simp add: mail_start_def)

lemma mail_started:
  assumes "Server_Start mail_ctl 0 mail_sockets (\<lambda>ip. True) 0 (set_read_callback f (UdpServer ip port)) (EventLoop mail_start) = Inr (s, l1)"
  shows "mk_in (el_kernel l1) 5 = [(7, [1, 2]), (8, [3])] \<and> mk_out (el_kernel l1) 5 = []"
  using assms
  by (auto simp: Server_Start_def set_read_callback_def UdpServer_def BindOrAbort_def Listener_Start_def mail_sockets_def
      EventLoop_def EnableReading_def DisableWriting_def set_events_def UpdateChannel_def el_object_def set_message_callback_def
      UdpListener_def Channel_def mail_ctl_def mail_start_def Let_def)


end
