(* ===== verification/Lua_Conf.thy ===== *)
theory Lua_Conf
  imports Prelude Complex_Main
begin

text \<open>
  Configurations written in Lua, \<open>LConf\<close>: the tree of nodes (\<open>node.h\<close>, \<open>scalar_node.{h,cc}\<close>, \<open>table_node.{h,cc}\<close>),
  how it is made from the table that a configuration file leaves behind (\<open>lconf_detail.hpp\<close>), and the lookups
  of \<open>lconf.{h,cc}\<close>. The table is an argument: a Lua table is the list of its entries in the order in which
  \<open>lua_next\<close> visits them.
\<close>

section \<open>Lua values\<close>

text \<open>
  A key that is a number comes with its text, as \<open>lua_tostring\<close> gives it; for other keys that are not strings
  \<open>lua_tostring\<close> gives \<open>NULL\<close>. A value that is a number is the string it is converted to.
\<close>

datatype lua_key = KeyNumber real string | KeyString string | KeyOther

datatype lua_value = LuaString string | LuaTable "(lua_key \<times> lua_value) list" | LuaOther

fun is_index :: "nat \<Rightarrow> lua_key \<Rightarrow> bool" where
  "is_index i (KeyNumber x t) \<longleftrightarrow> x = real i"
| "is_index i k \<longleftrightarrow> False"

definition rawgeti :: "(lua_key \<times> lua_value) list \<Rightarrow> nat \<Rightarrow> lua_value option" where
  "rawgeti ps i = map_option snd (find (\<lambda>(k, v). is_index i k) ps)"

fun key_text :: "lua_key \<Rightarrow> string result" where
  "key_text (KeyNumber x t) = Inr t"
| "key_text (KeyString s) = Inr s"
| "key_text KeyOther = Inl MemoryFault"

section \<open>Nodes\<close>

datatype inode = ScalarNode string string | TableNode string nat "inode list"

fun node_name :: "inode \<Rightarrow> string" where
  "node_name (ScalarNode name value) = name"
| "node_name (TableNode name array_part_len children) = name"

definition Children :: "inode list \<Rightarrow> string \<Rightarrow> inode option" where
  "Children children child_name = find (\<lambda>c. node_name c = child_name) children"

text \<open>The name up to the first dot and behind it.\<close>

fun split_dot :: "string \<Rightarrow> (string \<times> string) option" where
  "split_dot [] = None"
| "split_dot (c # cs) = (if c = CHR ''.'' then Some ([], cs) else map_option (\<lambda>(a, b). (c # a, b)) (split_dot cs))"

lemma split_dot_length: "split_dot s = Some (a, b) \<Longrightarrow> length b < length s"
  by (induction s arbitrary: a) (auto split: if_splits)

function node_Lookup :: "inode \<Rightarrow> string \<Rightarrow> inode option" where
  "node_Lookup (ScalarNode name value) child_name = (if name = child_name then Some (ScalarNode name value) else None)"
| "node_Lookup (TableNode name len children) child_name =
     (case split_dot child_name of None \<Rightarrow> Children children child_name
      | Some (key, left) \<Rightarrow> (case Children children key of None \<Rightarrow> None | Some child \<Rightarrow> node_Lookup child left))"
  by pat_completeness auto
termination
  by (relation "measure (\<lambda>(n, s). length s)") (auto dest: split_dot_length)

definition ArrayChildren :: "nat \<Rightarrow> inode list \<Rightarrow> nat \<Rightarrow> inode option result" where
  "ArrayChildren len children idx = (if len \<le> idx then Inr None else require (len \<le> length children) (Inr (Some (children ! idx))))"

definition AppendChild :: "nat \<times> inode list \<Rightarrow> inode \<Rightarrow> nat \<times> inode list" where
  "AppendChild t child = (fst t, snd t @ [child])"

definition AppendArrayChild :: "nat \<times> inode list \<Rightarrow> inode \<Rightarrow> nat \<times> inode list" where
  "AppendArrayChild t child = AppendChild (Suc (fst t), snd t) child"

section \<open>Reading a table\<close>

text \<open>The elements of the array part: those at 1, 2 and so on up to the first that is missing.\<close>

fun array_values :: "nat \<Rightarrow> (lua_key \<times> lua_value) list \<Rightarrow> nat \<Rightarrow> lua_value list" where
  "array_values 0 ps idx = []"
| "array_values (Suc n) ps idx = (case rawgeti ps idx of None \<Rightarrow> [] | Some v \<Rightarrow> v # array_values n ps (Suc idx))"

text \<open>Entries of the hash part: numbers count if they are greater than the length of the array part.\<close>

fun hash_entry :: "nat \<Rightarrow> lua_key \<times> lua_value \<Rightarrow> bool" where
  "hash_entry len (KeyNumber x t, v) \<longleftrightarrow> real len < x"
| "hash_entry len (k, v) \<longleftrightarrow> True"

fun fold_result :: "('s \<Rightarrow> 'a \<Rightarrow> 's result) \<Rightarrow> 'a list \<Rightarrow> 's \<Rightarrow> 's result" where
  "fold_result f [] s = Inr s"
| "fold_result f (x # xs) s = rbind (f s x) (fold_result f xs)"

lemma fold_result_cong [fundef_cong]:
  "xs = ys \<Longrightarrow> s = t \<Longrightarrow> (\<And>s x. x \<in> set ys \<Longrightarrow> f s x = g s x) \<Longrightarrow> fold_result f xs s = fold_result g ys t"
proof (induction ys arbitrary: xs s t)
  case (Cons y ys)
  have "fold_result f ys = fold_result g ys" using Cons.IH Cons.prems(3) by (intro ext) simp
  then show ?case using Cons.prems by simp
qed simp

lemma rawgeti_in: "rawgeti ps i = Some v \<Longrightarrow> v \<in> snd ` set ps"
  by (force simp: rawgeti_def find_Some_iff set_conv_nth)

lemma array_values_in: "v \<in> set (array_values n ps i) \<Longrightarrow> v \<in> snd ` set ps"
proof (induction n arbitrary: i)
  case (Suc n)
  then show ?case using rawgeti_in [of ps i v] by (auto split: option.splits)
qed simp

lemma entry_size: "v \<in> snd ` set ps \<Longrightarrow> size v < size (LuaTable ps)"
proof (induction ps)
  case (Cons p ps)
  obtain k w where p: "p = (k, w)" by fastforce
  then show ?case using Cons by (cases "v = w") auto
qed simp

text \<open>
  \<open>ReadNode\<close> makes the node of a value, \<open>read_table\<close> that of a table. The array part has at most as many
  elements as the table has entries.
\<close>

function ReadNode :: "string \<Rightarrow> lua_value \<Rightarrow> inode result" where
  "ReadNode name (LuaString s) = Inr (ScalarNode name s)"
| "ReadNode name (LuaTable ps) =
     (let arr = array_values (length ps) ps 1
      in rbind (fold_result (\<lambda>t v. rbind (ReadNode [] v) (\<lambda>c. Inr (AppendArrayChild t c))) arr (0, [])) (\<lambda>t.
         rbind (fold_result (\<lambda>t (k, v). rbind (key_text k) (\<lambda>n. rbind (ReadNode n v) (\<lambda>c. Inr (AppendChild t c))))
             (filter (hash_entry (length arr)) ps) t) (\<lambda>t.
           Inr (TableNode name (fst t) (snd t)))))"
| "ReadNode name LuaOther = Inl AssertionFailed"
  by pat_completeness auto
termination
proof (relation "measure (\<lambda>(n, v). size v)")
  fix name ps x xa
  assume "x = array_values (length ps) ps 1" "xa \<in> set x"
  then show "(([], xa), name, LuaTable ps) \<in> measure (\<lambda>(n, v). size v)"
    using entry_size [OF array_values_in, of xa "length ps" ps 1] by simp
next
  fix name ps x xa xb xc y k v n
  assume "xb \<in> set (filter (hash_entry (length x)) ps)" "(k, v) = xb"
  then have "v \<in> snd ` set ps" by force
  then show "((n, v), name, LuaTable ps) \<in> measure (\<lambda>(n, v). size v)" using entry_size [of v ps] by simp
qed simp

declare ReadNode.simps(2) [simp del]

definition read_table :: "(lua_key \<times> lua_value) list \<Rightarrow> string \<Rightarrow> inode result" where
  "read_table ps table_name = ReadNode table_name (LuaTable ps)"

text \<open>\<open>read_conf\<close>, with what running the file leaves in the global \<open>conf\<close>, none if it cannot be run.\<close>

definition read_conf :: "lua_value option \<Rightarrow> inode result" where
  "read_conf conf = (case conf of Some (LuaTable ps) \<Rightarrow> read_table ps ''conf'' | Some v \<Rightarrow> Inl MemoryFault | None \<Rightarrow> Inl AssertionFailed)"

section \<open>Looking up\<close>

definition LConf_Lookup :: "inode \<Rightarrow> string \<Rightarrow> string result" where
  "LConf_Lookup rt name = (case node_Lookup rt name of
     Some (ScalarNode n value) \<Rightarrow> Inr value | _ \<Rightarrow> Inl AssertionFailed)"

definition lookup_table :: "inode \<Rightarrow> string option \<Rightarrow> (nat \<times> inode list) result" where
  "lookup_table rt name = (case (case name of None \<Rightarrow> Some rt | Some n \<Rightarrow> node_Lookup rt n) of
     Some (TableNode n len children) \<Rightarrow> Inr (len, children) | _ \<Rightarrow> Inl AssertionFailed)"

definition LookupArray :: "inode \<Rightarrow> string option \<Rightarrow> inode list result" where
  "LookupArray rt array_name = rbind (lookup_table rt array_name) (\<lambda>(len, children). Inr (take len children))"

definition LookupTable :: "inode \<Rightarrow> string option \<Rightarrow> inode list result" where
  "LookupTable rt table_name = rbind (lookup_table rt table_name) (\<lambda>(len, children). Inr children)"


section \<open>What is read\<close>

text \<open>The node of a value, whatever its name is.\<close>

lemma ReadNode_name: "ReadNode n v = Inr c \<Longrightarrow> node_name c = n"
  by (cases v) (auto simp: ReadNode.simps(2) Let_def result_simps)

lemma fold_result_each:
  "fold_result (\<lambda>t x. rbind (f x) (\<lambda>c. Inr (g t c))) xs t = Inr t' \<longleftrightarrow>
   (\<exists>cs. list_all2 (\<lambda>x c. f x = Inr c) xs cs \<and> t' = fold (\<lambda>c t. g t c) cs t)"
proof (induction xs arbitrary: t)
  case (Cons x xs)
  show ?case
  proof (cases "f x")
    case (Inl e)
    then show ?thesis by (simp add: list_all2_Cons1)
  next
    case (Inr c)
    have "(\<exists>cs. list_all2 (\<lambda>x c. f x = Inr c) (x # xs) cs \<and> t' = fold (\<lambda>c t. g t c) cs t) \<longleftrightarrow>
        (\<exists>cs. list_all2 (\<lambda>x c. f x = Inr c) xs cs \<and> t' = fold (\<lambda>c t. g t c) cs (g t c))"
      using Inr by (auto simp: list_all2_Cons1)
    then show ?thesis using Inr Cons.IH [of "g t c"] by simp
  qed
qed auto

lemma fold_AppendArrayChild: "fold (\<lambda>c t. AppendArrayChild t c) cs t = (fst t + length cs, snd t @ cs)"
  by (induction cs arbitrary: t) (simp_all add: AppendArrayChild_def AppendChild_def)

lemma fold_AppendChild: "fold (\<lambda>c t. AppendChild t c) cs t = (fst t, snd t @ cs)"
  by (induction cs arbitrary: t) (simp_all add: AppendChild_def)

text \<open>The node of an entry of the hash part.\<close>

definition read_entry :: "lua_key \<times> lua_value \<Rightarrow> inode result" where
  "read_entry p = rbind (key_text (fst p)) (\<lambda>n. ReadNode n (snd p))"

lemma read_array:
  "fold_result (\<lambda>t v. rbind (ReadNode [] v) (\<lambda>c. Inr (AppendArrayChild t c))) vs t = Inr t' \<longleftrightarrow>
   (\<exists>cs. list_all2 (\<lambda>v c. ReadNode [] v = Inr c) vs cs \<and> t' = (fst t + length vs, snd t @ cs))"
  unfolding fold_result_each [of "ReadNode []" AppendArrayChild] fold_AppendArrayChild by (metis list_all2_lengthD)

lemma read_hash:
  "fold_result (\<lambda>t (k, v). rbind (key_text k) (\<lambda>n. rbind (ReadNode n v) (\<lambda>c. Inr (AppendChild t c)))) ps t = Inr t' \<longleftrightarrow>
   (\<exists>cs. list_all2 (\<lambda>p c. read_entry p = Inr c) ps cs \<and> t' = (fst t, snd t @ cs))"
proof -
  have "(\<lambda>t (k, v). rbind (key_text k) (\<lambda>n. rbind (ReadNode n v) (\<lambda>c. Inr (AppendChild t c)))) =
      (\<lambda>t p. rbind (read_entry p) (\<lambda>c. Inr (AppendChild t c)))"
    by (intro ext) (simp add: read_entry_def rbind_assoc split: prod.split)
  then show ?thesis unfolding fold_result_each [of read_entry AppendChild] fold_AppendChild by (simp only: fold_result_each fold_AppendChild)
qed

lemma ReadNode_table:
  "ReadNode name (LuaTable ps) = Inr c \<longleftrightarrow> (\<exists>as hs.
     list_all2 (\<lambda>v c. ReadNode [] v = Inr c) (array_values (length ps) ps 1) as \<and>
     list_all2 (\<lambda>p c. read_entry p = Inr c) (filter (hash_entry (length (array_values (length ps) ps 1))) ps) hs \<and>
     c = TableNode name (length (array_values (length ps) ps 1)) (as @ hs))"
  by (auto simp: ReadNode.simps(2) Let_def rbind_eq_Inr read_array read_hash)


section \<open>Configurations\<close>

text \<open>The value at a path of keys.\<close>

fun lua_path :: "lua_value \<Rightarrow> string list \<Rightarrow> lua_value option" where
  "lua_path v [] = Some v"
| "lua_path (LuaTable ps) (k # ks) = (case map_of ps (KeyString k) of None \<Rightarrow> None | Some v \<Rightarrow> lua_path v ks)"
| "lua_path v (k # ks) = None"

fun dotted :: "string list \<Rightarrow> string" where
  "dotted [] = []"
| "dotted [k] = k"
| "dotted (k # ks) = k @ CHR ''.'' # dotted ks"

text \<open>
  Configurations of strings, numbers and tables whose keys are strings and numbers, no two of a table with
  the same text.
\<close>

fun conf_ok :: "lua_value \<Rightarrow> bool" where
  "conf_ok (LuaString s) = True"
| "conf_ok LuaOther = False"
| "conf_ok (LuaTable ps) = (distinct (map (\<lambda>p. key_text (fst p)) ps) \<and> list_all (\<lambda>p. fst p \<noteq> KeyOther \<and> conf_ok (snd p)) ps)"

lemma conf_ok_entry: "conf_ok (LuaTable ps) \<Longrightarrow> v \<in> snd ` set ps \<Longrightarrow> conf_ok v"
  by (auto simp: list_all_iff)

lemma key_text_ok: "k \<noteq> KeyOther \<Longrightarrow> \<exists>n. key_text k = Inr n"
  by (cases k) auto

lemma list_all2_exists: "(\<And>x. x \<in> set xs \<Longrightarrow> \<exists>y. P x y) \<Longrightarrow> \<exists>ys. list_all2 P xs ys"
proof (induction xs)
  case (Cons x xs)
  obtain y ys where "P x y" "list_all2 P xs ys" using Cons by fastforce
  then show ?case by (intro exI [of _ "y # ys"]) simp
qed (rule exI [of _ "[]"], simp)

lemma ReadNode_ok: "conf_ok v \<Longrightarrow> \<exists>c. ReadNode n v = Inr c"
proof (induction "size v" arbitrary: v n rule: less_induct)
  case less
  show ?case
  proof (cases v)
    case (LuaTable ps)
    have sub: "\<exists>c. ReadNode m w = Inr c" if "w \<in> snd ` set ps" for w m
    proof -
      have "size w < size v" using entry_size [OF that] LuaTable by simp
      moreover have "conf_ok w" using conf_ok_entry [of ps w] less.prems LuaTable that by simp
      ultimately show ?thesis by (rule less.hyps)
    qed
    have "\<exists>as. list_all2 (\<lambda>v c. ReadNode [] v = Inr c) (array_values (length ps) ps 1) as"
      by (rule list_all2_exists) (rule sub [OF array_values_in])
    moreover have "\<exists>c. read_entry p = Inr c" if p: "p \<in> set ps" for p
    proof -
      obtain m where "key_text (fst p) = Inr m" using key_text_ok [of "fst p"] less.prems LuaTable p by (auto simp: list_all_iff)
      then show ?thesis using sub [of "snd p" m] p by (auto simp: read_entry_def)
    qed
    then have "\<exists>hs. list_all2 (\<lambda>p c. read_entry p = Inr c) (filter (hash_entry (length (array_values (length ps) ps 1))) ps) hs"
      by (intro list_all2_exists) simp
    ultimately show ?thesis using ReadNode_table [of n ps] LuaTable by blast
  qed (use less.prems in auto)
qed

text \<open>The child for a key is the node of its value.\<close>

lemma find_unique: "x \<in> set xs \<Longrightarrow> P x \<Longrightarrow> (\<And>y. y \<in> set xs \<Longrightarrow> P y \<Longrightarrow> y = x) \<Longrightarrow> find P xs = Some x"
proof (induction xs)
  case (Cons y xs)
  show ?case
  proof (cases "P y")
    case True
    then show ?thesis using Cons.prems(3) [of y] by simp
  next
    case False
    then have x: "x \<in> set xs" using Cons.prems(1,2) by auto
    have "find P xs = Some x" by (rule Cons.IH [OF x Cons.prems(2)]) (rule Cons.prems(3), simp_all)
    then show ?thesis using False by simp
  qed
qed simp

lemma Children_key:
  assumes "conf_ok (LuaTable ps)" "ReadNode name (LuaTable ps) = Inr (TableNode name len cs)" "map_of ps (KeyString k) = Some v" "k \<noteq> []"
  shows "\<exists>c. Children cs k = Some c \<and> ReadNode k v = Inr c"
proof -
  let ?n = "length (array_values (length ps) ps 1)"
  obtain as hs where cs: "cs = as @ hs" and as: "list_all2 (\<lambda>v c. ReadNode [] v = Inr c) (array_values (length ps) ps 1) as"
      and hs: "list_all2 (\<lambda>p c. read_entry p = Inr c) (filter (hash_entry ?n) ps) hs"
    using assms(2) ReadNode_table [of name ps] by auto
  have arr: "node_name c = []" if "c \<in> set as" for c
    using as that ReadNode_name by (auto simp: list_all2_conv_all_nth in_set_conv_nth)
  have "(KeyString k, v) \<in> set (filter (hash_entry ?n) ps)" using map_of_SomeD [OF assms(3)] by simp
  then obtain i where i: "i < length (filter (hash_entry ?n) ps)" "filter (hash_entry ?n) ps ! i = (KeyString k, v)"
    unfolding in_set_conv_nth by blast
  have c: "read_entry (KeyString k, v) = Inr (hs ! i)" using list_all2_nthD [OF hs i(1)] i(2) by simp
  have len: "length hs = length (filter (hash_entry ?n) ps)" using list_all2_lengthD [OF hs] by simp
  have "distinct (map (\<lambda>p. key_text (fst p)) (filter (hash_entry ?n) ps))"
    using assms(1) by (simp add: distinct_map_filter)
  then have uniq: "j = i" if "j < length hs" "node_name (hs ! j) = k" for j
  proof -
    have j: "j < length (filter (hash_entry ?n) ps)" using that(1) len by simp
    have "key_text (fst (filter (hash_entry ?n) ps ! j)) = Inr k"
      using list_all2_nthD [OF hs j] that(2) ReadNode_name by (auto simp: read_entry_def rbind_eq_Inr)
    then show ?thesis
      using \<open>distinct _\<close> i j nth_eq_iff_index_eq [of "map (\<lambda>p. key_text (fst p)) (filter (hash_entry ?n) ps)" j i] by simp
  qed
  have "find (\<lambda>c. node_name c = k) cs = Some (hs ! i)"
  proof (rule find_unique)
    show "hs ! i \<in> set cs" using i(1) len cs by simp
    show "node_name (hs ! i) = k" using c ReadNode_name by (simp add: read_entry_def)
    show "y = hs ! i" if "y \<in> set cs" "node_name y = k" for y
      using that cs arr assms(4) uniq by (auto simp: in_set_conv_nth)
  qed
  then show ?thesis using c by (simp add: Children_def read_entry_def)
qed

lemma split_dot_none: "CHR ''.'' \<notin> set k \<Longrightarrow> split_dot k = None"
  by (induction k) auto

lemma split_dot_some: "CHR ''.'' \<notin> set k \<Longrightarrow> split_dot (k @ CHR ''.'' # s) = Some (k, s)"
  by (induction k) auto

lemma dotted_Cons: "ks \<noteq> [] \<Longrightarrow> dotted (k # ks) = k @ CHR ''.'' # dotted ks"
  by (cases ks) simp_all

lemma node_Lookup_path:
  assumes "conf_ok v" "ReadNode name v = Inr c" "lua_path v ks = Some w" "ks \<noteq> []" "\<forall>k\<in>set ks. k \<noteq> [] \<and> CHR ''.'' \<notin> set k"
  shows "\<exists>d. node_Lookup c (dotted ks) = Some d \<and> ReadNode (last ks) w = Inr d \<and>
    (\<forall>ls. ls \<noteq> [] \<longrightarrow> node_Lookup c (dotted (ks @ ls)) = node_Lookup d (dotted ls))"
  using assms
proof (induction ks arbitrary: v name c)
  case (Cons k ks)
  obtain ps where ps: "v = LuaTable ps" using Cons.prems(3) by (cases v) auto
  obtain v' where v': "map_of ps (KeyString k) = Some v'" "lua_path v' ks = Some w"
    using Cons.prems(3) ps by (auto split: option.splits)
  obtain len cs where c: "c = TableNode name len cs" using Cons.prems(2) ps ReadNode_table [of name ps c] by auto
  obtain e where e: "Children cs k = Some e" "ReadNode k v' = Inr e"
    using Children_key [of ps name len cs k v'] Cons.prems(1,2,5) ps c v'(1) by auto
  have k: "CHR ''.'' \<notin> set k" using Cons.prems(5) by simp
  show ?case
  proof (cases "ks = []")
    case True
    then show ?thesis using v'(2) e c split_dot_none [OF k] split_dot_some [OF k] by (simp add: dotted_Cons)
  next
    case False
    have "v' \<in> snd ` set ps" using map_of_SomeD [OF v'(1)] by force
    then have "conf_ok v'" using conf_ok_entry Cons.prems(1) ps by blast
    then obtain d where "node_Lookup e (dotted ks) = Some d" "ReadNode (last ks) w = Inr d"
        "\<forall>ls. ls \<noteq> [] \<longrightarrow> node_Lookup e (dotted (ks @ ls)) = node_Lookup d (dotted ls)"
      using Cons.IH [OF _ e(2) v'(2) False] Cons.prems(5) by auto
    then show ?thesis using False e c split_dot_some [OF k] by (simp add: dotted_Cons)
  qed
qed simp


definition demo_table :: "(lua_key \<times> lua_value) list" where
  "demo_table = [(KeyString ''log'', LuaTable [(KeyString ''level'', LuaString ''3''), (KeyNumber 1 ''1'', LuaString ''a''), (KeyNumber 2 ''2'', LuaString ''b'')])]"


text \<open>
  A path that goes on behind a string is found if its last two keys are the same: a scalar node answers to
  its own name.
\<close>

theorem scalar_found_below_itself:
  assumes "conf_ok v" "ReadNode name v = Inr rt" "lua_path v ks = Some (LuaString s)" "ks \<noteq> []" "\<forall>k\<in>set ks. k \<noteq> [] \<and> CHR ''.'' \<notin> set k"
  shows "LConf_Lookup rt (dotted (ks @ [last ks])) = Inr s \<and> lua_path v (ks @ [last ks]) = None"
proof
  obtain d where "ReadNode (last ks) (LuaString s) = Inr d" "node_Lookup rt (dotted (ks @ [last ks])) = node_Lookup d (dotted [last ks])"
    using node_Lookup_path [OF assms] by blast
  then show "LConf_Lookup rt (dotted (ks @ [last ks])) = Inr s" by (auto simp: LConf_Lookup_def)
  have "lua_path v (ks @ [k]) = None" if "lua_path v ks = Some (LuaString s)" for v k
    using that by (induction v ks rule: lua_path.induct) (auto split: option.splits)
  then show "lua_path v (ks @ [last ks]) = None" using assms(3) by blast
qed

text \<open>An entry under a number that is not an index of the array part, but not greater than its length, is dropped.\<close>

theorem small_numbers_dropped:
  assumes "x \<le> 0" "ReadNode name (LuaTable [(KeyNumber x t, v)]) = Inr c"
  shows "c = TableNode name 0 []"
proof -
  have "array_values (length [(KeyNumber x t, v)]) [(KeyNumber x t, v)] 1 = []" using assms(1) by (simp add: rawgeti_def)
  then show ?thesis using assms ReadNode_table [of name "[(KeyNumber x t, v)]" c] by auto
qed

end
