(* ===== verification/Spec2Isabelle.thy ===== *)
theory Spec2Isabelle
  imports Process_Bus Pb_Read Fx_List Fx_Vector Region_Iteration RBTree_Map Heap_Faults Chain_Table Char_Trie Judy_Map Fmt_Spec
    Log_Line Log_Server Udp_Server Lua_Conf
begin

text \<open>
  Verification of the components of the repository, a collection of C++ libraries and experiments.
  The development covers the libraries that keep state of their own and whose logic is in the
  repository:

  \<^item> the inter-process message bus, \<open>ProcessBus\<close>: a ring buffer in a mapped file and the class that
    maps it;
  \<^item> the protobuf library, \<open>pb_parser\<close>: a lazy parser, an encoder and a message class with access by
    field name, over the descriptors of Google's library;
  \<^item> the containers in memory regions of the UDP server, \<open>udpserver/src/base\<close>: a slab allocator, a
    doubly linked list and a red-black tree whose nodes live in its slices, and a vector;
  \<^item> the containers in memory regions of \<open>RegionBasedContainer\<close>: a vector, a node allocator, and a hash
    table made of the two;
  \<^item> the red-black tree of heap nodes, \<open>rbtree\<close>: a template with parent links, iterators and a sentinel;
  \<^item> three smaller dictionaries: the chained hash table of \<open>HashTable\<close>, the trie of \<open>tries\<close> and the map over
    Judy arrays of \<open>fx\<close>;
  \<^item> the formatting library, \<open>Format\<close>: format strings with replacement fields in the style of Python;
  \<^item> the loggers, \<open>logger\<close> and \<open>LogFiles\<close>: a logger with a thread that writes full buffers, and files that
    are rotated;
  \<^item> the log server, \<open>logsvrd\<close>: worker processes that read from a message bus and write to rotated files;
  \<^item> the network part of the UDP server, \<open>udpserver/src/net\<close>: an event loop over \<open>epoll\<close> and the server on it;
  \<^item> configurations written in Lua, \<open>LConf\<close>.

  \<^bold>\<open>How code is modelled.\<close> A class is a record, with a record of its own for a header it keeps in
  memory; a member function is a function from the state to the state and the result. An \<open>assert\<close>
  that fails, an exception and an access outside the memory the code owns are values of the type
  \<open>error\<close>, and an operation that can stop early returns \<open>error + 'a\<close> (\<open>Prelude\<close>: \<open>rbind\<close>, \<open>require\<close>).
  The heap is a map from addresses to nodes, and the addresses that \<open>new\<close> returns are arguments; a node
  that has been deleted is not in the map, and using it is an error. A pointer into a region is an offset or an index into the list of the cells there; the ring buffer
  and the protobuf code work on bytes, the containers on cells whose element type is left open. Machine
  integers are words where they can wrap: sizes in headers, ids, addresses, varints; the theorems state
  the bounds they need. Loops are recursion. A loop that may not end is either given fuel (the protobuf
  code, whose theorems say how much is enough) or is a \<open>partial_function (option)\<close> (the erasure of a
  range of the list, the loops along a chain of the hash table, the descents and climbs of both trees), where not returning
  is the value \<open>None\<close> and the theorems show that it does not arise. Code that is not in the repository is an
  argument: descriptors and the descriptor pool, \<open>open\<close>, \<open>mmap\<close> and the property tree of the bus, the
  hash function, key projection and key comparison of the hash tables, the Judy library, the comparators of the trees, the
  conversion of floating-point numbers by \<open>snprintf\<close>, \<open>epoll\<close>, the calls on sockets and files, the clock. Memory the code reads before it writes it is an
  argument too.

  \<^bold>\<open>Shared theories.\<close>

  \<^item> \<open>Prelude\<close>: outcomes, byte regions, little-endian integers.
  \<^item> \<open>Fifo\<close>: locale \<open>bounded_fifo\<close>, a queue that may refuse an item; a client's run loses, duplicates and
    reorders nothing. Interpreted for the ring buffer, and through \<open>bounded_deque\<close> for the list.
  \<^item> \<open>Simulation\<close>: runs of operations against a reference and the relation \<open>agrees\<close> between outcomes.
  \<^item> \<open>Deque\<close>: locale \<open>bounded_deque\<close>, a double-ended queue with its reference, a list; a \<open>sublocale\<close> makes
    it a \<open>bounded_fifo\<close>. Interpreted for the list.
  \<^item> \<open>Indexed_List\<close>: locale \<open>indexed_list\<close>, a sequence with access by index. Interpreted for repeated
    string fields, for the vector of \<open>RegionBasedContainer\<close> and for the vector of the UDP server.
  \<^item> \<open>Slab\<close>: locale \<open>slab\<close>, an allocator of equal slices. Interpreted for \<open>MemoryList\<close>; the list and
    the tree use nothing else of it.
  \<^item> \<open>Dictionary\<close>: locale \<open>dictionary\<close>, values found by their key. Interpreted for the hash table.
  \<^item> \<open>Ordered_Map\<close>: locale \<open>ordered_reads\<close>, lookup, traversal and size of a container whose pairs are in
    ascending order of their keys, and locale \<open>ordered_map\<close>, a bounded map whose reference is the sorted
    list of its pairs; a \<open>sublocale\<close> makes it an \<open>ordered_reads\<close>. Interpreted for the red-black tree in a
    region and, as \<open>ordered_reads\<close>, for the red-black tree of heap nodes.
  \<^item> \<open>Keyed_Map\<close>: locale \<open>keyed_map\<close>, an unbounded map on the heap with insertion, erasure and search.
    Interpreted for the chained hash table and for the map over Judy arrays.
  \<^item> Locale \<open>rotating_log\<close> (in \<open>Log_Files\<close>): files that are rotated as one log; interpreted for three of the
    four classes of log files.
  \<^item> \<open>Colored_Tree\<close>: the coloured search trees that both red-black trees represent.
  \<^item> \<open>Linked\<close>: segments of doubly linked lists over arrays of cells.

  \<^bold>\<open>Message bus.\<close> \<open>Ring_Buffer\<close> models the class of \<open>ring_buffer.{h,cc}\<close> over a byte region, \<open>Process_Bus\<close>
  that of \<open>process_bus.{h,cc}\<close> and the use several processes make of a bus, as a step relation under the
  inter-process mutex of \<open>client.cc\<close>. Shown: any sequence of pushes and pops neither fails nor leaves the
  region and delivers the accepted messages in order, also when the calls come from several processes;
  \<open>used()\<close> and \<open>size()\<close> are what they should be; different buses use different files. Also shown are the
  ways to abort: a stale length passed to \<open>Pop\<close>, an empty ring that refuses messages, a failed mapping.

  \<^bold>\<open>Protobuf.\<close> \<open>Pb_Types\<close> is the data model of \<open>compact_protobuf.h\<close>, \<open>Pb_Parser\<close>, \<open>Pb_Encoder\<close>, \<open>Pb_Helper\<close>
  and \<open>Pb_Message\<close> are the source files of those names. \<open>Pb_Wire\<close> shows that the lazy parse of a
  well-formed message finds exactly its fields, \<open>Pb_Codec\<close> the round trips of varints and zigzag numbers
  and an input on which the parser does not return, \<open>Pb_Roundtrip\<close> that parsing and serialising gives
  the items back in canonical order, \<open>Pb_Access\<close> an invariant of messages under every operation and that
  integers written are read back, \<open>Pb_Text\<close> that repeated strings are lists, \<open>Pb_Clear\<close> what \<open>Clear\<close>
  keeps, \<open>Pb_Read\<close> what is read after a parse, and the faults of truncated and packed fields. Fuel
  bounds the nesting of messages and the length of the input; the theorems take it as a hypothesis.

  \<^bold>\<open>Containers of the UDP server.\<close> \<open>Memory_List\<close> is \<open>memory_list.{h,cc}\<close>: free and used slices are two
  linked lists, and the class is an allocator that never hands out a slice twice. \<open>Fx_List\<close> is \<open>list.h\<close>:
  the nodes are chained in the buffers of the slices, and the class is a bounded deque whose iterators
  visit its items; erasing is shown with its flaws, and so is the fault of a list restored from a
  region that has grown. \<open>Fx_Vector\<close> is \<open>vector.h\<close>, a bounded list.

  \<^bold>\<open>Red-black tree of the UDP server.\<close> \<open>Fx_RBTree\<close> is \<open>rbtree.h\<close>. \<open>RBTree_Shape\<close> relates the nodes in their
  slices to trees and the rotations to functions on trees; \<open>RBTree_Insert\<close> treats the search and \<open>Put\<close>,
  \<open>RBTree_Iterate\<close> the walk along the parent links, \<open>RBTree_Moves\<close> and \<open>RBTree_Erase\<close> the borrowing of red
  links and \<open>DeleteMin\<close>, \<open>RBTree_Successor\<close> the exchange of a node with its successor, \<open>RBTree_Delete\<close> the
  whole of \<open>Delete\<close>. \<open>RBTree_Map\<close> puts them together: the class is a bounded ordered map, its tree stays
  balanced, so that a search looks at no more than \<open>2 log (size() + 1)\<close> nodes, and \<open>erase(key)\<close> of a key
  that is not there loses others.

  \<^bold>\<open>Red-black tree of heap nodes.\<close> \<open>Heap_RBTree\<close> is \<open>rbtree/rbtree.hpp\<close>: nodes, rotations, the fix-ups of
  insertion and erasure, iterators, \<open>operator[]\<close> and the destructor. \<open>Heap_Focus\<close> relates the heap to a
  tree with a path to the node in focus, which is what a fix-up that climbs along the parent links works
  on; \<open>Heap_Iterate\<close> treats the search and the iterators, \<open>Heap_Insert\<close> and \<open>Heap_Fixup\<close> the two fix-up
  loops, \<open>Heap_Erase\<close> the exchange with the successor and the removal. \<open>Heap_Map\<close> puts them together for
  the trees that insertions and sound erasures build: the class is an ordered map, stays a balanced
  red-black tree, and the destructor frees every node. \<open>Heap_Faults\<close> has the flaws: erasing the root when
  its right child is its successor leaves a dangling root, erasing a red node can lose a second entry,
  and \<open>operator[]\<close> overwrites.

  \<^bold>\<open>Region containers.\<close> \<open>Region_Helper\<close> is the alignment arithmetic of \<open>RegionBasedHelper.h\<close>,
  \<open>Region_Vector\<close>, \<open>Region_Allocator\<close> and \<open>Region_HashTable\<close> are the classes of those names. The vector is
  a bounded list for elements of 1 to 16 bytes; the allocator is right until the first node is returned,
  and returning one overwrites its neighbour; the hash table is a dictionary as long as nothing is erased
  (\<open>Region_HashTable\<close>), its iterators visit every entry once (\<open>Region_Iteration\<close>), and an \<open>erase\<close> can lose
  other keys.

  \<^bold>\<open>Smaller dictionaries.\<close> \<open>Chain_Table\<close> is \<open>HashTable/main.cc\<close>: the table is a map whatever the hash
  function. \<open>Judy_Map\<close> is \<open>fx/include/map.hpp\<close>: given what the documentation of the Judy library says of
  its macros (\<open>judy_ok\<close>), the class is a map from converted keys whose iterators ascend, but \<open>clear\<close> keeps
  \<open>size()\<close>. \<open>Char_Trie\<close> is \<open>tries/trie/main.cc\<close>, with the contents of uninitialised memory as an argument:
  in zeroed memory \<open>Get\<close> finds what was put, and prefixes of keys give garbage; in other memory it follows
  uninitialised pointers.

  \<^bold>\<open>Formatting.\<close> \<open>Fmt_Arg\<close>, \<open>Fmt_Value\<close> and \<open>Fmt_Formatter\<close> are the three layers of \<open>Format/main.cc\<close>: what
  stands between the braces, how a value is written, and the format string. \<open>Fmt_Number\<close> shows what
  the text of an integer is, \<open>Fmt_Padding\<close> how texts are padded and what the output function of the
  format string leaves alone, \<open>Fmt_Template\<close> what a whole format string gives, and how braces in values
  and large indices are treated, \<open>Fmt_Spec\<close> that specifications are understood and that keys with dots
  lead into nested containers.

  \<^bold>\<open>Loggers.\<close> \<open>Async_Logger\<close> is \<open>async_logger.{h,cc}\<close> with \<open>fixed_size_buffer.hpp\<close>, and \<open>sync_logger.{h,cc}\<close>. Writers
  and the logging thread are a step relation, what is done under the mutex one step: no message is lost,
  duplicated or reordered in any interleaving, a stopped logger has written everything within four steps of
  its thread, but stopping an idle one never returns, and nothing is written before a buffer is full. \<open>Log_Line\<close>
  is the line of a log statement (\<open>log_formatter.{h,cc}\<close>, \<open>logger.hpp\<close>). \<open>Log_Files\<close> has \<open>LogFile\<close>, \<open>LogCFile\<close> and
  \<open>LogFdFile\<close>, which keep what is appended in files of bounded size, their composition with the logger, and
  \<open>LogMMapFile\<close>, whose files hold only zeros.

  \<^bold>\<open>Log server.\<close> \<open>Log_Server\<close> is \<open>logsvrd.{h,cc}\<close> on the models of the bus and of \<open>LogFdFile\<close>: clients, workers and
  signals are a step relation, with what is done under the inter-process mutex as one step. Every message
  that the bus accepted is in the bus, in the hands of one worker or in that worker's files, in order.

  \<^bold>\<open>Configurations.\<close> \<open>Lua_Conf\<close> is \<open>LConf\<close>: the table that the file leaves behind is an argument, the list of its
  entries. Shown: it is read, and values are found under their keys joined by dots; also two flaws, a string
  that is found below itself and numbers as keys that are dropped.

  \<^bold>\<open>Event loop and server.\<close> \<open>Event_Loop\<close> is \<open>channel\<close>, \<open>poller\<close> and \<open>event_loop\<close> of \<open>udpserver/src/net\<close>: channels are
  objects on the heap, \<open>epoll_ctl\<close> is an argument with its documented effect on the interest list as a
  hypothesis (\<open>epoll_ok\<close>), and so is what \<open>epoll_wait\<close> may return (\<open>epoll_wait_ok\<close>). Shown: the kernel watches
  exactly what the channels want, no assertion of a poll fails, a round calls back what is due and nothing
  else, and the timeout after idle rounds. \<open>Udp_Server\<close> is \<open>udp_listener\<close> and \<open>udp_server\<close> on it: started on a free
  descriptor, the server answers the datagrams that arrive in order, those apart whose reply is too long.

  \<^bold>\<open>Bounds.\<close> Regions end below the end of the address space, with the margin each theorem states;
  capacities are below \<open>2 ^ 31\<close> slices or \<open>2 ^ 32\<close> elements, the width of the ids and counters.

  \<^bold>\<open>Not modelled.\<close> Printing and timing functions of the modelled classes; destructors that only close a
  file; the singleton of \<open>logger.hpp\<close>; the
  processes that fork workers of the log server and wait for them, and the death of a worker. Of the rest of the
  repository: the page allocator (\<open>RegionBasedAllocator\<close>) is unfinished in the source (one of its functions
  has no return statement, and the list of free nodes overlaps the headers of pages); the other
  directories are system calls, Lua and network glue, wrappers of libraries that are not in the
  repository, generated code, tests and demonstrations.
\<close>

end
